(* ===== verification/Prelude.thy ===== *)
theory Prelude
  imports Main
begin

text \<open>
  What the components share: the integer widths of the C++ sources, the Qt value classes they are
  written with (\<open>QByteArray\<close> as \<^typ>\<open>string\<close>, one \<^typ>\<open>char\<close> per byte), and the generic facts on
  lists and digits that the component proofs use through \<open>simp\<close>.

  Conventions of the whole development. The build modelled is the release one, in which
  \<open>Q_ASSERT\<close> is compiled out: a failed assertion is not a branch, the code after it is. Where
  that code would leave the defined behaviour (reading a container out of range), the model has an
  explicit outcome for it. Logging (\<open>qCDebug\<close> and its kin) is not modelled.
\<close>

section \<open>Integers of the C++ sources\<close>

text \<open>\<open>qint64\<close> values are \<^typ>\<open>int\<close>; where the code narrows or can exceed the width, the wrap-around
  is written out.\<close>

definition int32_max :: int where
  "int32_max = 2 ^ 31 - 1"

definition int64_max :: int where
  "int64_max = 2 ^ 63 - 1"

definition int64_min :: int where
  "int64_min = - (2 ^ 63)"

definition wrap32 :: "int \<Rightarrow> int" where
  "wrap32 x = (x + 2 ^ 31) mod 2 ^ 32 - 2 ^ 31"

lemma wrap32_id [simp]:
  assumes "0 \<le> x" and "x \<le> int32_max"
  shows "wrap32 x = x"
  using assms by (simp add: wrap32_def int32_max_def)

lemma int_div_mod: "int k * int (n div k) + int (n mod k) = int n"
  by (metis mult_div_mod_eq of_nat_add of_nat_mult)

text \<open>\<open>Tristate\<close> of \<open>src/private/tristate_p.h\<close>.\<close>

datatype Tristate = TFalse | TTrue | TUndefined

section \<open>Lists\<close>

lemma set_drop_image: "set (drop n xs) = (\<lambda>k. xs ! k) ` {n ..< length xs}"
proof -
  have "set (drop n xs) = (\<lambda>k. drop n xs ! k) ` {0 ..< length xs - n}"
    using nth_image [of "length xs - n" "drop n xs"] by (simp add: lessThan_atLeast0)
  also have "\<dots> = (\<lambda>k. xs ! k) ` ((+) n ` {0 ..< length xs - n})"
    unfolding image_image by (rule image_cong) auto
  also have "(+) n ` {0 ..< length xs - n} = {n ..< length xs}"
    by (cases "n \<le> length xs") (simp_all add: image_add_atLeastLessThan)
  finally show ?thesis .
qed

section \<open>Bytes\<close>

abbreviation NL :: char where
  "NL \<equiv> CHR 0x0A"

abbreviation CR :: char where
  "CR \<equiv> CHR 0x0D"

abbreviation DQ :: char where
  "DQ \<equiv> CHR 0x22"

abbreviation BS :: char where
  "BS \<equiv> CHR 0x5C"

definition ascii_isspace :: "char \<Rightarrow> bool" where
  "ascii_isspace c \<longleftrightarrow> c \<in> {CHR 0x09, NL, CHR 0x0B, CHR 0x0C, CR, CHR '' ''}"

definition isdigit :: "char \<Rightarrow> bool" where
  "isdigit c \<longleftrightarrow> 48 \<le> (of_char c :: nat) \<and> (of_char c :: nat) \<le> 57"

definition digit_val :: "char \<Rightarrow> int" where
  "digit_val c = int (of_char c) - 48"

definition digit_char :: "nat \<Rightarrow> char" where
  "digit_char n = char_of (48 + n)"

lemma isdigit_digit_char [simp]: "n < 10 \<Longrightarrow> isdigit (digit_char n)"
  by (simp add: isdigit_def digit_char_def)

lemma digit_val_digit_char [simp]: "n < 10 \<Longrightarrow> digit_val (digit_char n) = int n"
  by (simp add: digit_val_def digit_char_def)

section \<open>The byte array\<close>

text \<open>\<open>QByteArray::mid(pos, len)\<close>: a negative length, or one past the end, takes the rest; a position
  past the end takes nothing; a negative position eats into the length.\<close>

definition qmid :: "string \<Rightarrow> int \<Rightarrow> int \<Rightarrow> string" where
  "qmid d pos len =
     (let n = int (length d) in
      if pos > n then []
      else if pos < 0 then
        (if len < 0 \<or> len + pos \<ge> n then d
         else if len + pos \<le> 0 then []
         else take (nat (len + pos)) d)
      else if len < 0 \<or> len > n - pos then drop (nat pos) d
      else take (nat len) (drop (nat pos) d))"

text \<open>\<open>QByteArray::indexOf(ch, from)\<close> for \<open>from \<ge> 0\<close>: the first position at or after \<open>from\<close>, or -1.\<close>

fun index_from :: "char \<Rightarrow> string \<Rightarrow> int \<Rightarrow> int" where
  "index_from c [] i = -1"
| "index_from c (x # xs) i = (if x = c then i else index_from c xs (i + 1))"

definition indexOf :: "string \<Rightarrow> char \<Rightarrow> int \<Rightarrow> int" where
  "indexOf d c from = index_from c (drop (nat from) d) (max 0 from)"

definition trimmed :: "string \<Rightarrow> string" where
  "trimmed s = rev (dropWhile ascii_isspace (rev (dropWhile ascii_isspace s)))"

text \<open>\<open>QString::split\<close> and \<open>QStringList::join\<close> with one character; empty parts are kept.\<close>

fun split_on :: "char \<Rightarrow> string \<Rightarrow> string list" where
  "split_on ch [] = [[]]"
| "split_on ch (c # s) =
     (if c = ch then [] # split_on ch s
      else (case split_on ch s of [] \<Rightarrow> [[c]] | w # ws \<Rightarrow> (c # w) # ws))"

fun join_with :: "char \<Rightarrow> string list \<Rightarrow> string" where
  "join_with ch [] = []"
| "join_with ch [w] = w"
| "join_with ch (w # ws) = w @ ch # join_with ch ws"

lemma split_on_not_Nil [simp]: "split_on ch s \<noteq> []"
  by (induction s) (auto split: list.splits)

lemma split_on_word: "ch \<notin> set w \<Longrightarrow> split_on ch w = [w]"
  by (induction w) auto

lemma split_on_word_sep: "ch \<notin> set w \<Longrightarrow> split_on ch (w @ ch # s) = w # split_on ch s"
  by (induction w) auto

lemma split_on_join_with: "list_all (\<lambda>w. ch \<notin> set w) ws \<Longrightarrow> ws \<noteq> [] \<Longrightarrow> split_on ch (join_with ch ws) = ws"
  by (induction ch ws rule: join_with.induct) (auto simp: split_on_word split_on_word_sep)

section \<open>Decimal numbers\<close>

definition digits_value :: "string \<Rightarrow> int" where
  "digits_value s = foldl (\<lambda>a c. 10 * a + digit_val c) 0 s"

text \<open>\<open>QByteArray::toLongLong(&ok)\<close> in base 10: surrounding white space is skipped, an optional sign
  and at least one digit are read, and anything else, or a value out of range, is a failure. A NUL
  byte ends the text.\<close>

definition signed_value :: "string \<Rightarrow> int option" where
  "signed_value s =
     (let digits = (\<lambda>t. if t \<noteq> [] \<and> list_all isdigit t then Some (digits_value t) else None) in
      case s of
        [] \<Rightarrow> None
      | c # t \<Rightarrow> if c = CHR ''-'' then map_option uminus (digits t)
                else if c = CHR ''+'' then digits t
                else digits s)"

definition toLongLong :: "string \<Rightarrow> int option" where
  "toLongLong s =
     (case signed_value (trimmed (takeWhile (\<lambda>c. c \<noteq> CHR 0x00) s)) of
        None \<Rightarrow> None
      | Some v \<Rightarrow> if int64_min \<le> v \<and> v \<le> int64_max then Some v else None)"

definition toInt :: "string \<Rightarrow> int option" where
  "toInt s =
     (case toLongLong s of
        None \<Rightarrow> None
      | Some v \<Rightarrow> if - (2 ^ 31) \<le> v \<and> v \<le> int32_max then Some v else None)"

definition or_zero :: "int option \<Rightarrow> int" where
  "or_zero r = (case r of None \<Rightarrow> 0 | Some v \<Rightarrow> v)"

text \<open>\<open>QByteArray::number\<close>.\<close>

fun nat_number :: "nat \<Rightarrow> string" where
  "nat_number n = (if n < 10 then [digit_char n] else nat_number (n div 10) @ [digit_char (n mod 10)])"

declare nat_number.simps [simp del]

definition number :: "int \<Rightarrow> string" where
  "number v = (if v < 0 then CHR ''-'' # nat_number (nat (- v)) else nat_number (nat v))"

lemma digits_value_snoc [simp]: "digits_value (s @ [c]) = 10 * digits_value s + digit_val c"
  by (simp add: digits_value_def)

lemma digits_value_Nil [simp]: "digits_value [] = 0"
  by (simp add: digits_value_def)

lemma nat_number_not_Nil [simp]: "nat_number n \<noteq> []"
  by (subst nat_number.simps) simp

lemma nat_number_digits: "list_all isdigit (nat_number n)"
proof (induction n rule: nat_number.induct)
  case (1 n)
  then show ?case
    by (cases "n < 10") (simp_all add: nat_number.simps [of n])
qed

lemma nat_number_value: "digits_value (nat_number n) = int n"
proof (induction n rule: nat_number.induct)
  case (1 n)
  show ?case
  proof (cases "n < 10")
    case True
    then show ?thesis by (simp add: nat_number.simps [of n] digits_value_def)
  next
    case False
    with 1 have "digits_value (nat_number (n div 10)) = int (n div 10)" by simp
    then show ?thesis using False int_div_mod [of 10 n] by (simp add: nat_number.simps [of n])
  qed
qed

lemma isdigit_facts:
  "isdigit c \<Longrightarrow> c \<noteq> CHR 0x00 \<and> \<not> ascii_isspace c \<and> c \<notin> {CHR ''-'', CHR ''+'', CHR ''*'', CHR '':''}"
  by (auto simp: isdigit_def ascii_isspace_def)

lemma trimmed_id: "list_all (\<lambda>c. \<not> ascii_isspace c) s \<Longrightarrow> trimmed s = s"
proof -
  assume *: "list_all (\<lambda>c. \<not> ascii_isspace c) s"
  have "dropWhile ascii_isspace s = s"
    using * by (cases s) auto
  moreover have "dropWhile ascii_isspace (rev s) = rev s"
    using * by (cases "rev s") (auto simp: list_all_iff rev_swap)
  ultimately show "trimmed s = s" by (simp add: trimmed_def)
qed

lemma toLongLong_digits:
  assumes "list_all isdigit ds" and "ds \<noteq> []" and "digits_value ds \<le> int64_max" "0 \<le> digits_value ds"
  shows "toLongLong ds = Some (digits_value ds)"
proof -
  have all: "\<forall>c \<in> set ds. isdigit c" using assms(1) by (simp add: list_all_iff)
  then have "takeWhile (\<lambda>c. c \<noteq> CHR 0x00) ds = ds"
    unfolding takeWhile_eq_all_conv using isdigit_facts by blast
  moreover have "trimmed ds = ds"
    using all isdigit_facts by (intro trimmed_id) (simp add: list_all_iff)
  moreover have "signed_value ds = Some (digits_value ds)"
  proof (cases ds)
    case (Cons c t)
    then have "c \<notin> {CHR ''-'', CHR ''+''}" using all isdigit_facts by force
    then show ?thesis using assms(1) Cons by (simp add: signed_value_def Let_def)
  qed (use assms(2) in simp)
  ultimately have "signed_value (trimmed (takeWhile (\<lambda>c. c \<noteq> CHR 0x00) ds)) = Some (digits_value ds)"
    by (simp only:)
  then show ?thesis using assms(3,4) by (simp add: toLongLong_def int64_min_def del: takeWhile_eq_all_conv)
qed

lemma toInt_digits:
  assumes "list_all isdigit ds" and "ds \<noteq> []" and "0 \<le> digits_value ds" "digits_value ds \<le> int32_max"
  shows "toInt ds = Some (digits_value ds)"
proof -
  have "toLongLong ds = Some (digits_value ds)"
    using assms by (intro toLongLong_digits) (auto simp: int32_max_def int64_max_def)
  then show ?thesis using assms(3,4) by (simp add: toInt_def)
qed

lemma toInt_number: "int n \<le> int32_max \<Longrightarrow> toInt (nat_number n) = Some (int n)"
  using toInt_digits [OF nat_number_digits] by (simp add: nat_number_value)

end
