(* ===== verification/ImapSet.thy ===== *)
theory ImapSet
  imports Prelude "HOL-Library.Multiset"
begin

text \<open>
  The interval sets of \<open>src/private/imapset.cpp\<close>: \<open>ImapInterval\<close>, \<open>ImapSet\<close> with its two \<open>add\<close>
  operations, printing, and \<open>optimize\<close>.
\<close>

section \<open>Intervals\<close>

record imap_interval =
  iv_begin :: int
  iv_end :: int

definition mk_interval :: "int \<Rightarrow> int \<Rightarrow> imap_interval" where
  "mk_interval b e = \<lparr>iv_begin = b, iv_end = e\<rparr>"

lemma mk_interval_id [simp]: "mk_interval (iv_begin i) (iv_end i) = i"
  by (simp add: mk_interval_def)

definition interval_default :: imap_interval where
  "interval_default = \<lparr>iv_begin = 0, iv_end = 0\<rparr>"

definition interval_size :: "imap_interval \<Rightarrow> int" where
  "interval_size i = (if iv_begin i = 0 \<and> iv_end i = 0 then 0 else iv_end i - iv_begin i + 1)"

definition hasDefinedBegin :: "imap_interval \<Rightarrow> bool" where
  "hasDefinedBegin i \<longleftrightarrow> iv_begin i \<noteq> 0"

definition hasDefinedEnd :: "imap_interval \<Rightarrow> bool" where
  "hasDefinedEnd i \<longleftrightarrow> iv_end i \<noteq> 0"

definition interval_begin :: "imap_interval \<Rightarrow> int" where
  "interval_begin i = iv_begin i"

definition interval_end :: "imap_interval \<Rightarrow> int" where
  "interval_end i = (if hasDefinedEnd i then iv_end i else int64_max)"

definition setBegin :: "imap_interval \<Rightarrow> int \<Rightarrow> imap_interval" where
  "setBegin i v = i\<lparr>iv_begin := v\<rparr>"

definition setEnd :: "imap_interval \<Rightarrow> int \<Rightarrow> imap_interval" where
  "setEnd i v = i\<lparr>iv_end := v\<rparr>"

definition toImapSequence :: "imap_interval \<Rightarrow> string" where
  "toImapSequence i =
     (if interval_size i = 0 then []
      else if interval_size i = 1 then number (iv_begin i)
      else number (iv_begin i) @ '':'' @ (if hasDefinedEnd i then number (iv_end i) else ''*''))"

section \<open>Sets of intervals\<close>

type_synonym imap_set = "imap_interval list"

text \<open>
  \<open>ImapSetPrivate::add\<close>. \<open>add_run\<close> is the inner \<open>do ... while\<close>: entered at an index that is not
  the last one, it walks over consecutive values and returns the index of the last of them.
\<close>

function add_run :: "int list \<Rightarrow> nat \<Rightarrow> nat" where
  "add_run vals i =
     (if vals ! (i + 1) \<noteq> vals ! i + 1 then i
      else if i + 1 < length vals - 1 then add_run vals (i + 1)
      else i + 1)"
  by pat_completeness auto
termination
  by (relation "measure (\<lambda>(vals, i). length vals - i)") auto

declare add_run.simps [simp del]

lemma add_run_ge: "i \<le> add_run vals i"
proof (induction vals i rule: add_run.induct)
  case (1 vals i)
  then show ?case by (auto simp: add_run.simps [of vals i])
qed

text \<open>The outer \<open>for\<close>. The first value of a run is held in an \<open>int\<close>, which narrows it.\<close>

function add_loop :: "int list \<Rightarrow> nat \<Rightarrow> imap_set \<Rightarrow> imap_set" where
  "add_loop vals i acc =
     (if i < length vals then
        (let begin = wrap32 (vals ! i) in
         if i = length vals - 1 then acc @ [mk_interval begin begin]
         else (let j = add_run vals i in
               add_loop vals (j + 1) (acc @ [mk_interval begin (vals ! j)])))
      else acc)"
  by pat_completeness auto
termination
proof (relation "measure (\<lambda>(vals, i, acc). length vals - i)", goal_cases)
  case (2 vals i acc x xa)
  then show ?case using add_run_ge [of i vals] by simp
qed simp

declare add_loop.simps [simp del]

definition add_values :: "imap_set \<Rightarrow> int list \<Rightarrow> imap_set" where
  "add_values s values = add_loop (sort values) 0 s"

definition add_interval :: "imap_set \<Rightarrow> imap_interval \<Rightarrow> imap_set" where
  "add_interval s i = s @ [i]"

definition set_of_id :: "int \<Rightarrow> imap_set" where
  "set_of_id v = add_values [] [v]"

definition set_of_ids :: "int list \<Rightarrow> imap_set" where
  "set_of_ids vs = add_values [] vs"

definition set_all :: imap_set where
  "set_all = add_interval [] (mk_interval 1 0)"

fun toImapSequenceSet :: "imap_set \<Rightarrow> string" where
  "toImapSequenceSet [] = []"
| "toImapSequenceSet [i] = toImapSequence i"
| "toImapSequenceSet (i # is) = toImapSequence i @ '','' @ toImapSequenceSet is"

definition set_isEmpty :: "imap_set \<Rightarrow> bool" where
  "set_isEmpty s \<longleftrightarrow> s = [] \<or> (length s = 1 \<and> interval_size (s ! 0) = 0)"

text \<open>
  \<open>optimize\<close>: the comparison sort of the standard library is the argument \<open>srt\<close> (it is not stable,
  so the order of intervals with the same begin is not fixed); \<open>merge_intervals\<close> is the loop over
  the sorted list, \<open>it\<close> and \<open>next\<close> being the first two elements.
\<close>

fun merge_intervals :: "imap_set \<Rightarrow> imap_set" where
  "merge_intervals (it # next # rest) =
     (if hasDefinedEnd it \<and> interval_end it + 1 \<ge> interval_begin next then
        (let n1 = setBegin next (interval_begin it);
             n2 = (if hasDefinedEnd n1 \<and> interval_end it > interval_end n1
                   then setEnd n1 (interval_end it) else n1)
         in merge_intervals (n2 # rest))
      else if \<not> hasDefinedEnd it then [it]
      else it # merge_intervals (next # rest))"
| "merge_intervals s = s"

definition optimize :: "(imap_set \<Rightarrow> imap_set) \<Rightarrow> imap_set \<Rightarrow> imap_set" where
  "optimize srt s = (if length s < 2 then s else merge_intervals (srt s))"

section \<open>The numbers a set stands for\<close>

definition interval_ids :: "imap_interval \<Rightarrow> int set" where
  "interval_ids i = {iv_begin i .. interval_end i}"

definition covered :: "imap_set \<Rightarrow> int set" where
  "covered s = (\<Union>i \<in> set s. interval_ids i)"

text \<open>Intervals of positive ids, below the largest \<open>qint64\<close>, with a begin that does not pass a
  defined end.\<close>

definition interval_wf :: "imap_interval \<Rightarrow> bool" where
  "interval_wf i \<longleftrightarrow>
     1 \<le> iv_begin i \<and> iv_begin i < int64_max \<and>
     (hasDefinedEnd i \<longrightarrow> iv_begin i \<le> iv_end i \<and> iv_end i < int64_max)"

text \<open>Sorted, disjoint and with a gap between neighbours: no two intervals could be merged.\<close>

definition canonical :: "imap_set \<Rightarrow> bool" where
  "canonical s \<longleftrightarrow> successively (\<lambda>a b. hasDefinedEnd a \<and> interval_end a + 1 < iv_begin b) s"

lemmas interval_defs = mk_interval_def interval_ids_def interval_end_def hasDefinedEnd_def
  interval_begin_def setBegin_def setEnd_def

lemma covered_simps [simp]:
  "covered [] = {}"
  "covered (i # s) = interval_ids i \<union> covered s"
  "covered (s @ t) = covered s \<union> covered t"
  by (auto simp: covered_def)

lemma covered_mset: "mset s = mset t \<Longrightarrow> covered s = covered t"
  unfolding covered_def by (metis set_mset_mset)

section \<open>Adding values\<close>

lemma add_run_spec:
  assumes "i + 1 < length vals"
  shows "add_run vals i < length vals
    \<and> (\<forall>k. i \<le> k \<longrightarrow> k \<le> add_run vals i \<longrightarrow> vals ! k = vals ! i + int (k - i))
    \<and> (add_run vals i + 1 < length vals \<longrightarrow>
         vals ! (add_run vals i + 1) \<noteq> vals ! add_run vals i + 1)"
  using assms
proof (induction vals i rule: add_run.induct)
  case (1 vals i)
  note eq = add_run.simps [of vals i]
  consider (stop) "vals ! (i + 1) \<noteq> vals ! i + 1"
    | (step) "vals ! (i + 1) = vals ! i + 1" "i + 1 < length vals - 1"
    | (last) "vals ! (i + 1) = vals ! i + 1" "\<not> i + 1 < length vals - 1"
    by blast
  then show ?case
  proof cases
    case stop
    then have "add_run vals i = i" using eq by simp
    then show ?thesis using stop "1.prems" by simp
  next
    case step
    have run: "add_run vals i = add_run vals (i + 1)" using step eq by simp
    have ok: "i + 1 + 1 < length vals" using step by simp
    note IH = "1.IH" [unfolded not_not, OF step ok]
    have "vals ! k = vals ! i + int (k - i)" if "i \<le> k" "k \<le> add_run vals i" for k
    proof (cases "k = i")
      case False
      with that have "i + 1 \<le> k" by simp
      then have "vals ! k = vals ! (i + 1) + int (k - (i + 1))" using IH run that by metis
      with step(1) \<open>i + 1 \<le> k\<close> show ?thesis by simp
    qed simp
    then show ?thesis using IH unfolding run by blast
  next
    case last
    have "add_run vals i = i + 1" using last eq by simp
    then show ?thesis using last "1.prems" by (auto simp: le_Suc_eq)
  qed
qed

text \<open>The values of one run are exactly the interval from its first to its last value.\<close>

lemma add_run_values:
  assumes "i + 1 < length vals"
  shows "set (drop i vals) = {vals ! i .. vals ! add_run vals i} \<union> set (drop (add_run vals i + 1) vals)"
proof -
  let ?j = "add_run vals i"
  have j: "i \<le> ?j" "?j < length vals"
    using add_run_ge add_run_spec [OF assms] by auto
  have run: "vals ! k = vals ! i + int (k - i)" if "i \<le> k" "k \<le> ?j" for k
    using add_run_spec [OF assms] that by blast
  have "(\<lambda>k. vals ! k) ` {i .. ?j} = {vals ! i .. vals ! ?j}"
  proof
    show "(\<lambda>k. vals ! k) ` {i .. ?j} \<subseteq> {vals ! i .. vals ! ?j}"
    proof
      fix v assume "v \<in> (\<lambda>k. vals ! k) ` {i .. ?j}"
      then obtain k where k: "v = vals ! k" "i \<le> k" "k \<le> ?j" by auto
      moreover have "vals ! ?j = vals ! i + int (?j - i)" using run [of ?j] j by blast
      moreover have "vals ! k = vals ! i + int (k - i)" using run k by blast
      ultimately show "v \<in> {vals ! i .. vals ! ?j}" by simp
    qed
    show "{vals ! i .. vals ! ?j} \<subseteq> (\<lambda>k. vals ! k) ` {i .. ?j}"
    proof
      fix v assume v: "v \<in> {vals ! i .. vals ! ?j}"
      let ?k = "i + nat (v - vals ! i)"
      have "vals ! ?j = vals ! i + int (?j - i)" using run [of ?j] j by blast
      then have k: "?k \<in> {i .. ?j}" using v j by auto
      then have "vals ! ?k = v" using run [of ?k] v by auto
      with k show "v \<in> (\<lambda>k. vals ! k) ` {i .. ?j}" by (metis imageI)
    qed
  qed
  moreover have "set (drop i vals) = (\<lambda>k. vals ! k) ` {i .. ?j} \<union> set (drop (?j + 1) vals)"
  proof -
    have "{i ..< length vals} = {i .. ?j} \<union> {?j + 1 ..< length vals}" using j by auto
    then show ?thesis by (simp add: set_drop_image image_Un)
  qed
  ultimately show ?thesis by simp
qed

lemma add_loop_covered:
  assumes "sorted vals" and "\<forall>v \<in> set vals. 1 \<le> v \<and> v \<le> int32_max"
  shows "covered (add_loop vals i acc) = covered acc \<union> set (drop i vals)"
  using assms
proof (induction vals i acc rule: add_loop.induct)
  case (1 vals i acc)
  note eq = add_loop.simps [of vals i acc]
  show ?case
  proof (cases "i < length vals")
    case i: True
    then have b: "1 \<le> vals ! i" "vals ! i \<le> int32_max" using "1.prems" by auto
    show ?thesis
    proof (cases "i = length vals - 1")
      case True
      then have "drop i vals = [vals ! i]" using i by (simp add: Cons_nth_drop_Suc [symmetric])
      then show ?thesis using True i b eq by (simp add: interval_defs Let_def)
    next
      case False
      with i have ok: "i + 1 < length vals" by simp
      let ?j = "add_run vals i"
      have "?j < length vals" using add_run_spec [OF ok] by blast
      then have "1 \<le> vals ! ?j" using "1.prems" by auto
      then have "interval_ids (mk_interval (wrap32 (vals ! i)) (vals ! ?j)) = {vals ! i .. vals ! ?j}"
        using b by (simp add: interval_defs)
      with "1.IH" [OF i refl False refl "1.prems"] add_run_values [OF ok] i False eq
      show ?thesis by (simp add: Let_def Un_assoc)
    qed
  qed (simp add: eq)
qed

lemma add_values_covered:
  assumes "\<forall>v \<in> set vs. 1 \<le> v \<and> v \<le> int32_max"
  shows "covered (add_values s vs) = covered s \<union> set vs"
  using add_loop_covered [of "sort vs" 0 s] assms by (simp add: add_values_def)

text \<open>\<open>add_loop\<close> only appends, so what one call contributes can be looked at alone.\<close>

lemma add_loop_append: "add_loop vals i (s @ acc) = s @ add_loop vals i acc"
proof (induction vals i acc rule: add_loop.induct)
  case (1 vals i acc)
  show ?case
  proof (cases "i < length vals \<and> i \<noteq> length vals - 1")
    case True
    then have i: "i < length vals" and ne: "i \<noteq> length vals - 1" by auto
    show ?thesis
      using "1.IH" [OF i refl ne refl] True
      by (simp add: add_loop.simps [of vals i] Let_def)
  qed (auto simp: add_loop.simps [of vals i] Let_def)
qed

lemma add_loop_Cons:
  "i + 1 < length vals \<Longrightarrow> add_loop vals i [] =
     mk_interval (wrap32 (vals ! i)) (vals ! add_run vals i) # add_loop vals (add_run vals i + 1) []"
  using add_loop_append [of vals "add_run vals i + 1" "[x]" "[]" for x]
  by (auto simp: add_loop.simps [of vals i] Let_def)

text \<open>Distinct values are split into intervals that are as large as possible.\<close>

lemma add_loop_canonical:
  assumes "sorted vals" and "distinct vals" and "\<forall>v \<in> set vals. 1 \<le> v \<and> v \<le> int32_max"
  shows "canonical (add_loop vals i [])
    \<and> (i < length vals \<longrightarrow> add_loop vals i [] \<noteq> [] \<and> iv_begin (hd (add_loop vals i [])) = vals ! i)"
  using assms
proof (induction "length vals - i" arbitrary: i rule: less_induct)
  case less
  consider (fin) "i \<ge> length vals" | (last) "i + 1 = length vals" | (run) "i + 1 < length vals"
    by linarith
  then show ?case
  proof cases
    case fin
    then show ?thesis by (simp add: add_loop.simps [of vals i] canonical_def)
  next
    case last
    then have "1 \<le> vals ! i" "vals ! i \<le> int32_max" using less.prems by auto
    moreover have "add_loop vals i [] = [mk_interval (wrap32 (vals ! i)) (wrap32 (vals ! i))]"
      using last by (simp add: add_loop.simps [of vals i] Let_def flip: last)
    ultimately show ?thesis by (simp add: canonical_def mk_interval_def)
  next
    case run
    let ?j = "add_run vals i"
    let ?rest = "add_loop vals (?j + 1) []"
    note spec = add_run_spec [OF run]
    have b: "1 \<le> vals ! i" "vals ! i \<le> int32_max" "1 \<le> vals ! ?j"
      using less.prems spec run by auto
    have IH: "canonical ?rest \<and> (?j + 1 < length vals \<longrightarrow>
        ?rest \<noteq> [] \<and> iv_begin (hd ?rest) = vals ! (?j + 1))"
      using less.hyps [of "?j + 1"] less.prems add_run_ge [of i vals] run by simp
    have gap: "vals ! ?j + 1 < vals ! (?j + 1)" if "?j + 1 < length vals"
    proof -
      have "vals ! ?j \<le> vals ! (?j + 1)"
        using less.prems(1) that by (simp add: sorted_nth_mono)
      moreover have "vals ! ?j \<noteq> vals ! (?j + 1)"
        using less.prems(2) that by (simp add: nth_eq_iff_index_eq)
      ultimately show ?thesis using spec that by linarith
    qed
    have "?j + 1 < length vals \<or> ?rest = []"
      by (simp add: add_loop.simps [of vals "Suc ?j"])
    then show ?thesis using IH gap b add_loop_Cons [OF run]
      by (auto simp: canonical_def successively_Cons interval_defs)
  qed
qed

section \<open>Optimizing\<close>

lemma merge_intervals_hd:
  "s \<noteq> [] \<Longrightarrow> merge_intervals s \<noteq> [] \<and> iv_begin (hd (merge_intervals s)) = iv_begin (hd s)"
  by (induction s rule: merge_intervals.induct) (auto simp: Let_def interval_defs)

text \<open>One merge of two neighbours, in begin order, stands for the union of the two.\<close>

lemma merge_step:
  assumes "interval_wf a" "interval_wf b" "iv_begin a \<le> iv_begin b"
    and "hasDefinedEnd a" "interval_end a + 1 \<ge> interval_begin b"
  defines "n1 \<equiv> setBegin b (interval_begin a)"
  defines "n2 \<equiv> (if hasDefinedEnd n1 \<and> interval_end a > interval_end n1
                 then setEnd n1 (interval_end a) else n1)"
  shows "interval_wf n2" and "iv_begin n2 = iv_begin a"
    and "interval_ids n2 = interval_ids a \<union> interval_ids b"
proof -
  show "interval_wf n2" using assms by (auto simp: interval_wf_def interval_defs)
  show "iv_begin n2 = iv_begin a" by (simp add: n2_def n1_def interval_defs)
  show "interval_ids n2 = interval_ids a \<union> interval_ids b"
    using assms by (auto simp: interval_wf_def interval_defs)
qed

lemma merge_intervals_spec:
  assumes "sorted (map iv_begin s)" and "\<forall>i \<in> set s. interval_wf i"
  shows "covered (merge_intervals s) = covered s \<and> (\<forall>i \<in> set (merge_intervals s). interval_wf i)
    \<and> canonical (merge_intervals s)"
  using assms
proof (induction s rule: merge_intervals.induct)
  case (1 a b rest)
  let ?n1 = "setBegin b (interval_begin a)"
  let ?n2 = "if hasDefinedEnd ?n1 \<and> interval_end a > interval_end ?n1
             then setEnd ?n1 (interval_end a) else ?n1"
  consider (merge) "hasDefinedEnd a \<and> interval_end a + 1 \<ge> interval_begin b"
    | (eat) "\<not> hasDefinedEnd a"
    | (skip) "hasDefinedEnd a" "\<not> interval_end a + 1 \<ge> interval_begin b"
    by blast
  then show ?case
  proof cases
    case merge
    have n2: "interval_wf ?n2" "iv_begin ?n2 = iv_begin a"
        "interval_ids ?n2 = interval_ids a \<union> interval_ids b"
      using merge_step [of a b] "1.prems" merge by simp_all
    have "sorted (map iv_begin (?n2 # rest))" "\<forall>i \<in> set (?n2 # rest). interval_wf i"
      using "1.prems" n2(1,2) by auto
    from "1.IH"(1) [OF merge refl refl this] show ?thesis
      using merge n2(3) by (simp add: Let_def Un_assoc)
  next
    case eat
    then have "interval_ids i \<subseteq> interval_ids a" if "i \<in> set (b # rest)" for i
      using "1.prems" that by (fastforce simp: interval_wf_def interval_defs)
    then have "covered (b # rest) \<subseteq> interval_ids a" unfolding covered_def by blast
    then show ?thesis using eat "1.prems" by (auto simp: canonical_def)
  next
    case skip
    then show ?thesis
      using "1.IH"(2) "1.prems" merge_intervals_hd [of "b # rest"]
      by (auto simp: canonical_def successively_Cons interval_begin_def)
  qed
qed (auto simp: canonical_def)

text \<open>
  What \<open>optimize\<close> needs of the sort: a permutation, in ascending order of the begin. The results
  hold for every such sort, whatever it does with equal begins.
\<close>

locale interval_sorting =
  fixes srt :: "imap_set \<Rightarrow> imap_set"
  assumes srt_mset: "mset (srt s) = mset s"
    and srt_sorted: "sorted (map iv_begin (srt s))"
begin

lemma srt_set: "set (srt s) = set s"
  using srt_mset by (metis set_mset_mset)

lemma optimize_spec:
  assumes "\<forall>i \<in> set s. interval_wf i"
  shows "covered (optimize srt s) = covered s \<and> (\<forall>i \<in> set (optimize srt s). interval_wf i)
    \<and> canonical (optimize srt s)"
proof (cases "length s < 2")
  case True
  then have "canonical s" by (cases s rule: merge_intervals.cases) (auto simp: canonical_def)
  then show ?thesis using True assms by (simp add: optimize_def)
next
  case False
  then show ?thesis
    using merge_intervals_spec [of "srt s"] srt_sorted srt_set assms covered_mset [OF srt_mset]
    by (simp add: optimize_def)
qed

end

interpretation by_begin: interval_sorting "sort_key iv_begin"
  by unfold_locales simp_all

section \<open>Properties\<close>

text \<open>(C30) Adding a list of positive ids that fit a 32-bit \<open>int\<close> adds exactly those ids. (\<open>zero_id_has_no_interval\<close> and
  \<open>set_of_id_narrows\<close> show what becomes of 0 and of larger ids.)\<close>

theorem add_values_exact:
  assumes "\<forall>v \<in> set vs. 1 \<le> v \<and> v \<le> int32_max"
  shows "covered (add_values s vs) = covered s \<union> set vs"
  by (rule add_values_covered [OF assms])

theorem add_values_exact_witness: "covered (add_values [] [4, 6, 5]) = {} \<union> {4, 6, 5}"
  using add_values_exact [of "[4, 6, 5]" "[]"] by (simp add: int32_max_def)

text \<open>Distinct ids are split into intervals as large as possible: the result is sorted and there
  is a gap between any two neighbouring intervals.\<close>

theorem add_values_maximal:
  assumes "distinct vs" and "\<forall>v \<in> set vs. 1 \<le> v \<and> v \<le> int32_max"
  shows "canonical (add_values [] vs)"
  using add_loop_canonical [of "sort vs" 0] assms by (simp add: add_values_def)

theorem add_values_maximal_witness: "canonical (add_values [] [4, 6, 5, 9])"
  by (rule add_values_maximal) (simp_all add: int32_max_def)

text \<open>The code asserts that ids are not negative, so 0 is let through; its interval is the one without bounds, which has no size and no text.\<close>

theorem zero_id_has_no_interval:
  "set_isEmpty (set_of_id 0) \<and> toImapSequenceSet (set_of_id 0) = [] \<and> set_of_id 0 = [interval_default]"
  by (simp add: set_of_id_def add_values_def add_loop.simps wrap32_def set_isEmpty_def toImapSequence_def interval_size_def
      mk_interval_def interval_default_def)

text \<open>An id that needs more than 31 bits is lost: the set made from it does not contain it, and
  its interval begins at a negative number.\<close>

theorem set_of_id_narrows:
  assumes "int32_max < v" and "v < 2 ^ 32"
  shows "v \<notin> covered (set_of_id v) \<and> (\<forall>i \<in> set (set_of_id v). iv_begin i < 0)"
proof -
  have "(v + 2 ^ 31) mod 2 ^ 32 = (v + 2 ^ 31 - 2 ^ 32) mod 2 ^ 32"
    by (rule minus_mod_self2 [symmetric])
  also have "\<dots> = v + 2 ^ 31 - 2 ^ 32"
    using assms by (intro mod_pos_pos_trivial) (simp_all add: int32_max_def)
  finally have w: "wrap32 v = v - 2 ^ 32" by (simp add: wrap32_def)
  have "set_of_id v = [mk_interval (wrap32 v) (wrap32 v)]"
    by (simp add: set_of_id_def add_values_def add_loop.simps Let_def)
  then show ?thesis using w assms by (simp add: interval_defs)
qed

theorem set_of_id_narrows_witness: "2147483648 \<notin> covered (set_of_id 2147483648)"
  using set_of_id_narrows [of 2147483648] by (simp add: int32_max_def)

text \<open>\<open>optimize\<close> keeps the set of ids, keeps the intervals well formed, and leaves them sorted,
  disjoint and with gaps between them, for every sort that permutes into ascending order of the begin.\<close>

theorem optimize_correct:
  assumes "interval_sorting srt" and "\<forall>i \<in> set s. interval_wf i"
  shows "covered (optimize srt s) = covered s \<and> (\<forall>i \<in> set (optimize srt s). interval_wf i)
    \<and> canonical (optimize srt s)"
  by (rule interval_sorting.optimize_spec [OF assms])

theorem optimize_correct_witness:
  "covered (optimize (sort_key iv_begin) [mk_interval 3 4, mk_interval 1 2])
    = covered [mk_interval 3 4, mk_interval 1 2]"
  using optimize_correct [OF by_begin.interval_sorting_axioms, of "[mk_interval 3 4, mk_interval 1 2]"]
  by (simp add: interval_wf_def mk_interval_def hasDefinedEnd_def int64_max_def)

text \<open>The set of all ids is taken for the empty set: its size computes to 0, so it is empty for
  \<open>isEmpty\<close> and its IMAP text is empty, although it stands for every id from 1 on.\<close>

theorem set_all_looks_empty:
  "set_isEmpty set_all \<and> toImapSequenceSet set_all = [] \<and> covered set_all = {1 .. int64_max}"
  by (simp add: set_all_def add_interval_def set_isEmpty_def toImapSequence_def interval_size_def
      interval_defs)

end
