(* ===== verification/ImapParser.thy ===== *)
theory ImapParser
  imports ImapSet
begin

text \<open>
  The IMAP-style parser of \<open>src/private/imapparser.cpp\<close>: the static functions on byte arrays
  (strings, quoted strings, parenthesized lists, numbers, sequence sets, dates, versioned keys) and
  the line-by-line parser object with its literal continuation. Positions are \<^typ>\<open>int\<close> as in the
  code; \<open>data[i]\<close> is read under a bounds check of the code, except in the list helper, where a
  position can leave the array and the outcome is \<open>OutOfRange\<close>.
\<close>

datatype 'a outcome = Done 'a | OutOfRange | NoFuel

definition byte_at :: "string \<Rightarrow> int \<Rightarrow> char" where
  "byte_at d i = d ! nat i"

abbreviation qlen :: "string \<Rightarrow> int" where
  "qlen d \<equiv> int (length d)"

lemma byte_at_append [simp]: "byte_at (pre @ c # rest) (qlen pre) = c"
  by (simp add: byte_at_def)

section \<open>Strings\<close>

function stripLeadingSpaces :: "string \<Rightarrow> int \<Rightarrow> int" where
  "stripLeadingSpaces d i =
     (if i < qlen d then (if byte_at d i \<noteq> CHR '' '' then i else stripLeadingSpaces d (i + 1))
      else qlen d)"
  by pat_completeness auto
termination
  by (relation "measure (\<lambda>(d, i). nat (qlen d - i))") auto

declare stripLeadingSpaces.simps [simp del]

text \<open>The loop over the inside of a quoted string: the remaining bytes, the position, the escape flag,
  the result so far and the end to return when no closing quote is found.\<close>

definition unescape :: "char \<Rightarrow> char" where
  "unescape ch = (if ch = CHR ''r'' then CR else if ch = CHR ''n'' then NL else ch)"

fun quoted_loop :: "string \<Rightarrow> int \<Rightarrow> bool \<Rightarrow> string \<Rightarrow> int \<Rightarrow> string \<times> int" where
  "quoted_loop [] i foundSlash result stop = (result, stop)"
| "quoted_loop (ch # rest) i foundSlash result stop =
     (if foundSlash then quoted_loop rest (i + 1) False (result @ [unescape ch]) stop
      else if ch = BS then quoted_loop rest (i + 1) True result stop
      else if ch = DQ then (result, i + 1)
      else quoted_loop rest (i + 1) False (result @ [ch]) stop)"

definition is_delimiter :: "char \<Rightarrow> bool" where
  "is_delimiter ch \<longleftrightarrow> ch \<in> {CHR '' '', CHR ''('', CHR '')'', NL, CR}"

text \<open>\<open>result.replace("\\X", "X")\<close> for a two-byte pattern, and the loop that repeats it while the
  pattern occurs.\<close>

fun contains_pair :: "char \<Rightarrow> char \<Rightarrow> string \<Rightarrow> bool" where
  "contains_pair a b (x # y # zs) = ((x = a \<and> y = b) \<or> contains_pair a b (y # zs))"
| "contains_pair a b _ = False"

fun replace_pair :: "char \<Rightarrow> char \<Rightarrow> string \<Rightarrow> string" where
  "replace_pair a b (x # y # zs) =
     (if x = a \<and> y = b then b # replace_pair a b zs else x # replace_pair a b (y # zs))"
| "replace_pair a b s = s"

lemma replace_pair_le: "length (replace_pair a b s) \<le> length s"
  by (induction a b s rule: replace_pair.induct) auto

lemma replace_pair_less: "contains_pair a b s \<Longrightarrow> length (replace_pair a b s) < length s"
  by (induction a b s rule: replace_pair.induct) (auto simp: less_Suc_eq_le intro: le_trans [OF replace_pair_le])

function replace_while :: "char \<Rightarrow> char \<Rightarrow> string \<Rightarrow> string" where
  "replace_while a b s = (if contains_pair a b s then replace_while a b (replace_pair a b s) else s)"
  by pat_completeness auto
termination
  by (relation "measure (\<lambda>(a, b, s). length s)") (auto simp: replace_pair_less)

declare replace_while.simps [simp del]

definition parseQuotedString :: "string \<Rightarrow> int \<Rightarrow> string \<times> int" where
  "parseQuotedString d start =
     (let begin = stripLeadingSpaces d start in
      if begin \<ge> qlen d then ([], qlen d)
      else if byte_at d begin = DQ then
        quoted_loop (drop (nat (begin + 1)) d) (begin + 1) False [] begin
      else
        (let tok = takeWhile (\<lambda>c. \<not> is_delimiter c) (drop (nat begin) d);
             stop = begin + qlen tok;
             result = qmid d begin (stop - begin);
             result = (if result = ''NIL'' then [] else result);
             result = (if BS \<in> set tok
                       then replace_while BS BS (replace_while BS DQ result) else result)
         in (result, stop)))"

definition parseString :: "string \<Rightarrow> int \<Rightarrow> string \<times> int" where
  "parseString d start =
     (let begin = stripLeadingSpaces d start in
      if begin \<ge> qlen d then ([], qlen d)
      else if byte_at d begin = CHR ''{'' then
        (let stop = indexOf d (CHR ''}'') begin;
             size = or_zero (toInt (qmid d (begin + 1) (stop - begin - 1)));
             begin = stop + 1;
             begin = (if begin < qlen d \<and> byte_at d begin = CR then begin + 1 else begin);
             begin = (if begin < qlen d \<and> byte_at d begin = NL then begin + 1 else begin);
             stop = begin + size
         in (qmid d begin (stop - begin), stop))
      else parseQuotedString d begin)"

section \<open>Parenthesized lists\<close>

text \<open>
  The \<open>for\<close> loop of \<open>parseParenthesizedListHelper\<close>. Its position is moved back by what
  \<open>parseString\<close> returns, so it need not end: the first argument is the number of iterations allowed.
\<close>

fun list_loop :: "nat \<Rightarrow> string \<Rightarrow> int \<Rightarrow> int \<Rightarrow> int \<Rightarrow> bool \<Rightarrow> string list
    \<Rightarrow> (string list \<times> int) outcome" where
  "list_loop 0 d i cnt sublistBegin insideQuote result = NoFuel"
| "list_loop (Suc n) d i cnt sublistBegin insideQuote result =
     (if \<not> i < qlen d then Done (result, qlen d)
      else if i < 0 then OutOfRange
      else
        (let c = byte_at d i in
         if c = CHR ''('' \<and> \<not> insideQuote then
           list_loop n d (i + 1) (cnt + 1) (if cnt + 1 = 1 then i else sublistBegin) insideQuote result
         else if c = CHR '')'' \<and> \<not> insideQuote then
           (if cnt \<le> 0 then Done (result, i + 1)
            else list_loop n d (i + 1) (cnt - 1) sublistBegin insideQuote
                   (if cnt = 1 then result @ [qmid d sublistBegin (i - sublistBegin + 1)] else result))
         else if c = CHR '' '' \<or> c = NL \<or> c = CR then
           list_loop n d (i + 1) cnt sublistBegin insideQuote result
         else if cnt = 0 then
           (let (ba, consumed) = parseString d i in
            list_loop n d consumed cnt sublistBegin insideQuote (result @ [ba]))
         else if cnt > 0 then
           (if c = DQ then list_loop n d (i + 1) cnt sublistBegin (\<not> insideQuote) result
            else if c = BS \<and> insideQuote then list_loop n d (i + 2) cnt sublistBegin insideQuote result
            else list_loop n d (i + 1) cnt sublistBegin insideQuote result)
         else list_loop n d (i + 1) cnt sublistBegin insideQuote result))"

definition parseParenthesizedList :: "nat \<Rightarrow> string \<Rightarrow> int \<Rightarrow> (string list \<times> int) outcome" where
  "parseParenthesizedList fuel d start =
     (if start \<ge> qlen d then Done ([], qlen d)
      else (let begin = indexOf d (CHR ''('') start in
            if begin < 0 then Done ([], start)
            else list_loop fuel d (begin + 1) 0 start False []))"

fun balance_loop :: "string \<Rightarrow> bool \<Rightarrow> int \<Rightarrow> int" where
  "balance_loop [] insideQuote cnt = cnt"
| "balance_loop (ch # rest) insideQuote cnt =
     (if ch = DQ then balance_loop rest (\<not> insideQuote) cnt
      else if ch = BS \<and> insideQuote then balance_loop (drop 1 rest) insideQuote cnt
      else if ch = CHR ''('' \<and> \<not> insideQuote then balance_loop rest insideQuote (cnt + 1)
      else if ch = CHR '')'' \<and> \<not> insideQuote then balance_loop rest insideQuote (cnt - 1)
      else balance_loop rest insideQuote cnt)"

definition parenthesesBalance :: "string \<Rightarrow> int \<Rightarrow> int" where
  "parenthesesBalance d start = balance_loop (drop (nat start) d) False 0"

fun join_bytes :: "string list \<Rightarrow> string \<Rightarrow> string" where
  "join_bytes [] separator = []"
| "join_bytes [x] separator = x"
| "join_bytes (x # y # rest) separator = x @ separator @ join_bytes (y # rest) separator"

section \<open>Numbers, quoting, sequence sets\<close>

text \<open>\<open>parseNumber\<close> returns what it leaves in \<open>result\<close> (the old value when there is no input), the
  \<open>ok\<close> flag and the position. \<open>scan_digits\<close> is its loop.\<close>

function scan_digits :: "string \<Rightarrow> int \<Rightarrow> int" where
  "scan_digits d pos =
     (if pos < qlen d then (if \<not> isdigit (byte_at d pos) then pos else scan_digits d (pos + 1)) else pos)"
  by pat_completeness auto
termination
  by (relation "measure (\<lambda>(d, i). nat (qlen d - i))") auto

declare scan_digits.simps [simp del]

definition parseNumber :: "string \<Rightarrow> int \<Rightarrow> int \<Rightarrow> int \<times> bool \<times> int" where
  "parseNumber d result start =
     (let pos = stripLeadingSpaces d start in
      if pos \<ge> qlen d then (result, False, qlen d)
      else (let begin = pos; pos = scan_digits d pos; r = toLongLong (qmid d begin (pos - begin))
            in (or_zero r, r \<noteq> None, pos)))"

definition needs_quote :: "char \<Rightarrow> bool" where
  "needs_quote ch \<longleftrightarrow> ch \<in> {DQ, BS, NL, CR}"

definition quote_char :: "char \<Rightarrow> string" where
  "quote_char ch =
     (if ch = NL then [BS, CHR ''n''] else if ch = CR then [BS, CHR ''r'']
      else if ch = DQ \<or> ch = BS then [BS, ch] else [ch])"

definition quote :: "string \<Rightarrow> string" where
  "quote d =
     (if d = [] then [DQ, DQ]
      else [DQ] @ (if length (filter needs_quote d) = 0 then d else concat (map quote_char d)) @ [DQ])"

lemma scan_digits_ge: "pos \<le> scan_digits d pos"
proof (induction d pos rule: scan_digits.induct)
  case (1 d pos)
  then show ?case by (auto simp: scan_digits.simps [of d pos])
qed

lemma stripLeadingSpaces_at: "i < qlen d \<Longrightarrow> byte_at d i \<noteq> CHR '' '' \<Longrightarrow> stripLeadingSpaces d i = i"
  by (simp add: stripLeadingSpaces.simps [of d i])

lemma isdigit_not_space: "isdigit c \<Longrightarrow> c \<noteq> CHR '' ''"
  by (auto simp: isdigit_def)

lemma parseNumber_progress:
  assumes "i < qlen d" and "isdigit (byte_at d i)" and "parseNumber d v i = (v', ok, pos)"
  shows "i < pos"
proof -
  have "pos = scan_digits d i"
    using assms isdigit_not_space [OF assms(2)] by (simp add: parseNumber_def stripLeadingSpaces_at Let_def)
  also have "\<dots> = scan_digits d (i + 1)" using assms(1,2) by (simp add: scan_digits.simps [of d i])
  finally show ?thesis using scan_digits_ge [of "i + 1" d] by simp
qed

text \<open>The loop of \<open>parseSequenceSet\<close>, with the values \<open>value\<close> and \<open>lower\<close> carried between iterations.\<close>

function sequence_loop :: "string \<Rightarrow> int \<Rightarrow> int \<Rightarrow> int \<Rightarrow> imap_set \<Rightarrow> imap_set \<times> int" where
  "sequence_loop d i val lower result =
     (if i < qlen d then
        (if byte_at d i = CHR ''*'' then sequence_loop d (i + 1) 0 lower result
         else if byte_at d i = CHR '':'' then sequence_loop d (i + 1) val val result
         else if isdigit (byte_at d i) then
           (case parseNumber d val i of (v, ok, pos) \<Rightarrow> sequence_loop d pos v lower result)
         else
           (let upper = val; lower = (if lower < 0 then val else lower);
                result = add_interval result (mk_interval lower upper)
            in if byte_at d i \<noteq> CHR '','' then (result, i)
               else sequence_loop d (i + 1) (- 1) (- 1) result))
      else
        (let upper = val; lower = (if lower < 0 then val else lower)
         in (if lower \<ge> 0 \<and> upper \<ge> 0 then add_interval result (mk_interval lower upper) else result,
             qlen d)))"
  by pat_completeness auto
termination
  by (relation "measure (\<lambda>(d, i, v, l, r). nat (qlen d - i))")
    (auto dest: parseNumber_progress [OF _ _ sym])

declare sequence_loop.simps [simp del]

definition parseSequenceSet :: "string \<Rightarrow> imap_set \<Rightarrow> int \<Rightarrow> imap_set \<times> int" where
  "parseSequenceSet d result start = sequence_loop d (stripLeadingSpaces d start) (- 1) (- 1) result"

section \<open>Dates\<close>

text \<open>
  \<open>parseDateTime\<close>. The date class of the library is a parameter: \<open>mk\<close> builds a UTC date-time from
  year, month, day, hours, minutes and seconds, \<open>valid\<close> is \<open>isValid\<close> and \<open>add\<close> is \<open>addSecs\<close>. The
  result is what \<open>dateTime\<close> holds afterwards and the position. A byte is a signed \<open>char\<close>.
\<close>

definition schar :: "char \<Rightarrow> int" where
  "schar c = (let n = int (of_char c) in if n \<ge> 128 then n - 256 else n)"

definition ascii_lower :: "char \<Rightarrow> char" where
  "ascii_lower c = (let n = of_char c :: nat in if 65 \<le> n \<and> n \<le> 90 then char_of (n + 32) else c)"

fun index_sub :: "string \<Rightarrow> string \<Rightarrow> int \<Rightarrow> int" where
  "index_sub pat [] i = (if pat = [] then i else -1)"
| "index_sub pat (x # xs) i =
     (if take (length pat) (x # xs) = pat then i else index_sub pat xs (i + 1))"

definition shortMonthNames :: string where
  "shortMonthNames = ''janfebmaraprmayjunjulaugsepoctnovdec''"

definition parseDateTime ::
  "(int \<Rightarrow> int \<Rightarrow> int \<Rightarrow> int \<Rightarrow> int \<Rightarrow> int \<Rightarrow> 'dt) \<Rightarrow> ('dt \<Rightarrow> bool) \<Rightarrow> ('dt \<Rightarrow> int \<Rightarrow> 'dt)
    \<Rightarrow> string \<Rightarrow> 'dt \<Rightarrow> int \<Rightarrow> 'dt \<times> int" where
  "parseDateTime mk valid add d old start =
     (let pos = stripLeadingSpaces d start in
      if qlen d \<le> pos then (old, pos)
      else
        (let quoted = (byte_at d pos = DQ); pos = (if quoted then pos + 1 else pos) in
         if (quoted \<and> qlen d \<le> pos + 26) \<or> (\<not> quoted \<and> qlen d < pos + 26) then (old, start)
         else
           (case (if byte_at d pos = CHR '' '' then Some (schar (byte_at d (pos + 1)) - 48)
                  else toInt (qmid d pos 2)) of None \<Rightarrow> (old, start)
            | Some day \<Rightarrow>
           (let month = index_sub (map ascii_lower (qmid d (pos + 3) 3)) shortMonthNames 0 in
            if month = - 1 then (old, start)
            else
           (case toInt (qmid d (pos + 7) 4) of None \<Rightarrow> (old, start)
            | Some year \<Rightarrow>
           (case toInt (qmid d (pos + 12) 2) of None \<Rightarrow> (old, start)
            | Some hours \<Rightarrow>
           (case toInt (qmid d (pos + 15) 2) of None \<Rightarrow> (old, start)
            | Some minutes \<Rightarrow>
           (case toInt (qmid d (pos + 18) 2) of None \<Rightarrow> (old, start)
            | Some seconds \<Rightarrow>
           (case toInt (qmid d (pos + 22) 2) of None \<Rightarrow> (old, start)
            | Some tzhh \<Rightarrow>
           (case toInt (qmid d (pos + 24) 2) of None \<Rightarrow> (old, start)
            | Some tzmm \<Rightarrow>
              (let tzsecs = tzhh * 60 * 60 + tzmm * 60;
                   tzsecs = (if byte_at d (pos + 21) = CHR ''-'' then - tzsecs else tzsecs);
                   dt = mk year (month div 3 + 1) day hours minutes seconds in
               if \<not> valid dt then (dt, start)
               else
                 (let dt = add dt (- tzsecs); pos = pos + 26 in
                  if qlen d \<le> pos \<or> \<not> quoted then (dt, pos)
                  else (dt, if byte_at d pos = DQ then pos + 1 else pos)))))))))))))"

section \<open>Versioned keys\<close>

text \<open>\<open>splitVersionedKey\<close> on the old contents of \<open>key\<close> and \<open>version\<close>, which one branch leaves alone.\<close>

definition splitVersionedKey :: "string \<Rightarrow> string \<times> int \<Rightarrow> string \<times> int" where
  "splitVersionedKey d old =
     (let startPos = indexOf d (CHR ''['') 0; endPos = indexOf d (CHR '']'') 0 in
      if startPos \<noteq> - 1 \<and> endPos \<noteq> - 1 then
        (if endPos > startPos
         then (take (nat startPos) d, or_zero (toInt (qmid d (startPos + 1) (endPos - startPos - 1))))
         else old)
      else (d, 0))"

section \<open>The parser object\<close>

record imap_parser =
  tagBuffer :: string
  dataBuffer :: string
  parenthesesCount :: int
  literalSize :: int
  continuation :: bool

definition parser_reset :: "imap_parser \<Rightarrow> imap_parser" where
  "parser_reset p = p\<lparr>dataBuffer := [], tagBuffer := [], parenthesesCount := 0, literalSize := 0,
     continuation := False\<rparr>"

definition parser_new :: imap_parser where
  "parser_new = \<lparr>tagBuffer = [], dataBuffer = [], parenthesesCount = 0, literalSize = 0,
     continuation = False\<rparr>"

definition lastIndexOf :: "string \<Rightarrow> char \<Rightarrow> int" where
  "lastIndexOf d c = (if c \<in> set d then qlen d - 1 - index_from c (rev d) 0 else - 1)"

definition checkLiteralStart :: "imap_parser \<Rightarrow> string \<Rightarrow> int \<Rightarrow> imap_parser \<times> bool" where
  "checkLiteralStart p readBuffer pos =
     (let t = trimmed readBuffer in
      if t \<noteq> [] \<and> last t = CHR ''}'' then
        (let begin = lastIndexOf readBuffer (CHR ''{''); stop = lastIndexOf readBuffer (CHR ''}'') in
         if begin < pos then (p, False)
         else
           (let p = p\<lparr>literalSize :=
                      or_zero (toLongLong (qmid readBuffer (begin + 1) (stop - begin - 1)))\<rparr> in
            if literalSize p = 0 then (p, False) else (p\<lparr>continuation := True\<rparr>, True)))
      else (p, False))"

text \<open>\<open>parseNextLine\<close> in its two stages: filing the line into the buffers, then the literal and
  parenthesis accounting, whose flag says whether the command is complete.\<close>

definition take_line :: "imap_parser \<Rightarrow> string \<Rightarrow> imap_parser" where
  "take_line p readBuffer =
     (let p = p\<lparr>continuation := False\<rparr> in
      if tagBuffer p = [] then
        (let (tag, startOfData) = parseString readBuffer 0; p = p\<lparr>tagBuffer := tag\<rparr> in
         if startOfData < qlen readBuffer \<and> startOfData \<ge> 0
         then p\<lparr>dataBuffer := qmid readBuffer (startOfData + 1) (- 1)\<rparr> else p)
      else p\<lparr>dataBuffer := dataBuffer p @ readBuffer\<rparr>)"

definition parseNextLine :: "imap_parser \<Rightarrow> string \<Rightarrow> imap_parser \<times> bool" where
  "parseNextLine p readBuffer =
     (let p = take_line p readBuffer in
      if literalSize p > 0 then
        (let p = p\<lparr>literalSize := literalSize p - qlen readBuffer\<rparr> in
         if literalSize p > 0 then (p, False)
         else if literalSize p < 0 then
           (let from = qlen readBuffer + literalSize p;
                p = p\<lparr>parenthesesCount := parenthesesCount p + parenthesesBalance readBuffer from\<rparr>;
                (p, more) = checkLiteralStart p readBuffer from
            in (p, \<not> more \<and> \<not> parenthesesCount p > 0))
         else (p, \<not> parenthesesCount p > 0))
      else
        (let p = p\<lparr>parenthesesCount := parenthesesCount p + parenthesesBalance readBuffer 0\<rparr>;
             (p, more) = checkLiteralStart p readBuffer 0
         in (p, \<not> more \<and> \<not> parenthesesCount p > 0)))"

definition parseBlock :: "imap_parser \<Rightarrow> string \<Rightarrow> imap_parser" where
  "parseBlock p d = p\<lparr>literalSize := literalSize p - qlen d, dataBuffer := dataBuffer p @ d\<rparr>"

section \<open>Quoting round trip\<close>

lemma quoted_loop_quote_char:
  "quoted_loop (quote_char ch @ rest) i False acc e
     = quoted_loop rest (i + qlen (quote_char ch)) False (acc @ [ch]) e"
  by (simp add: quote_char_def unescape_def add.commute)

lemma quoted_loop_quoted:
  "quoted_loop (concat (map quote_char s) @ DQ # post) i False acc e
     = (acc @ s, i + qlen (concat (map quote_char s)) + 1)"
  by (induction s arbitrary: i acc) (simp_all add: quoted_loop_quote_char algebra_simps)

lemma quote_eq: "quote s = DQ # concat (map quote_char s) @ [DQ]"
proof -
  have "concat (map quote_char s) = s" if "filter needs_quote s = []"
    using that by (induction s) (auto simp: needs_quote_def quote_char_def split: if_splits)
  then show ?thesis by (auto simp: quote_def)
qed

lemma stripLeadingSpaces_here [simp]:
  "c \<noteq> CHR '' '' \<Longrightarrow> stripLeadingSpaces (pre @ c # post) (qlen pre) = qlen pre"
  by (rule stripLeadingSpaces_at) simp_all

lemma parseQuotedString_quote:
  "parseQuotedString (pre @ quote s @ post) (qlen pre) = (s, qlen pre + qlen (quote s))"
proof -
  have "drop (nat (qlen pre + 1)) (pre @ DQ # concat (map quote_char s) @ DQ # post)
      = concat (map quote_char s) @ DQ # post"
    by (simp add: nat_add_distrib)
  then show ?thesis
    by (simp add: parseQuotedString_def quote_eq quoted_loop_quoted Let_def)
qed

lemma parseString_quote:
  "parseString (pre @ quote s @ post) (qlen pre) = (s, qlen pre + qlen (quote s))"
  using parseQuotedString_quote [of pre s post]
  by (simp add: parseString_def quote_eq Let_def)

section \<open>Lists of quoted strings\<close>

lemma list_loop_item:
  "list_loop (Suc n) (pre @ quote x @ post) (qlen pre) 0 sb False acc
     = list_loop n (pre @ quote x @ post) (qlen pre + qlen (quote x)) 0 sb False (acc @ [x])"
proof -
  have "byte_at (pre @ quote x @ post) (qlen pre) = DQ" by (simp add: quote_eq)
  moreover have "qlen pre < qlen (pre @ quote x @ post)" by (simp add: quote_eq)
  ultimately show ?thesis by (simp add: parseString_quote del: length_append)
qed

lemma list_loop_space:
  "list_loop (Suc n) (pre @ CHR '' '' # post) (qlen pre) c sb False acc
     = list_loop n (pre @ CHR '' '' # post) (qlen pre + 1) c sb False acc"
  by simp

lemma list_loop_close:
  "list_loop (Suc n) (pre @ CHR '')'' # post) (qlen pre) 0 sb False acc = Done (acc, qlen pre + 1)"
  by simp

lemma list_loop_quoted:
  assumes "2 * length xs < n"
  shows "list_loop n (pre @ join_bytes (map quote xs) '' '' @ CHR '')'' # post) (qlen pre) 0 sb False acc
    = Done (acc @ xs, qlen pre + qlen (join_bytes (map quote xs) '' '') + 1)"
  using assms
proof (induction xs arbitrary: pre acc n rule: induct_list012)
  case 1
  then obtain m where "n = Suc m" by (cases n) auto
  then show ?case by simp
next
  case (2 x)
  then obtain m where n: "n = Suc (Suc m)" by (cases n; cases "n - 1") auto
  show ?case
    using list_loop_item [of "Suc m" pre x "CHR '')'' # post" sb acc]
      list_loop_close [of m "pre @ quote x" post sb "acc @ [x]"] n by simp
next
  case (3 x y xs)
  then obtain m where n: "n = Suc (Suc m)" "2 * length (y # xs) < m" by (cases n; cases "n - 1") auto
  define rest where "rest = join_bytes (map quote (y # xs)) '' ''"
  have "list_loop n (pre @ quote x @ CHR '' '' # rest @ CHR '')'' # post) (qlen pre) 0 sb False acc
      = list_loop m (pre @ quote x @ CHR '' '' # rest @ CHR '')'' # post)
          (qlen pre + qlen (quote x) + 1) 0 sb False (acc @ [x])"
    using list_loop_item [of "Suc m" pre x "CHR '' '' # rest @ CHR '')'' # post" sb acc]
      list_loop_space [of m "pre @ quote x" "rest @ CHR '')'' # post" 0 sb "acc @ [x]"] n(1) by simp
  also have "\<dots> = Done (acc @ x # y # xs, qlen pre + qlen (quote x) + 1 + qlen rest + 1)"
    using "3.IH"(2) [of m "pre @ quote x @ '' ''" "acc @ [x]"] n(2)
    unfolding rest_def [symmetric] by (simp add: add_ac)
  finally show ?case by (simp add: algebra_simps rest_def)
qed

lemma parseParenthesizedList_quoted:
  assumes "2 * length xs < n"
  shows "parseParenthesizedList n (''('' @ join_bytes (map quote xs) '' '' @ '')'' @ post) 0
    = Done (xs, qlen (join_bytes (map quote xs) '' '') + 2)"
  using list_loop_quoted [of xs n "''(''" post 0 "[]"] assms
  by (simp add: parseParenthesizedList_def indexOf_def)

text \<open>An unterminated quoted string makes \<open>parseString\<close> return the position of its opening quote.\<close>

lemma quoted_loop_open:
  "DQ \<notin> set s \<Longrightarrow> BS \<notin> set s \<Longrightarrow> quoted_loop s i False acc e = (acc @ s, e)"
  by (induction s arbitrary: i acc) auto

lemma parseString_open:
  assumes "DQ \<notin> set s" and "BS \<notin> set s"
  shows "parseString (pre @ DQ # s) (qlen pre) = (s, qlen pre)"
proof -
  have "drop (nat (qlen pre + 1)) (pre @ DQ # s) = s" by (simp add: nat_add_distrib)
  then show ?thesis
    by (simp add: parseString_def parseQuotedString_def Let_def quoted_loop_open [OF assms])
qed

lemma list_loop_open:
  assumes "DQ \<notin> set s" and "BS \<notin> set s"
  shows "list_loop n (pre @ DQ # s) (qlen pre) 0 sb False acc = NoFuel"
  by (induction n arbitrary: acc) (simp_all add: parseString_open [OF assms])

section \<open>Sequence sets round trip\<close>

lemma scan_digits_span:
  assumes "list_all isdigit ds" and "rest = [] \<or> \<not> isdigit (hd rest)"
  shows "scan_digits (pre @ ds @ rest) (qlen pre) = qlen pre + qlen ds"
  using assms
proof (induction ds arbitrary: pre)
  case Nil
  then show ?case by (cases rest) (simp_all add: scan_digits.simps [of _ "qlen pre"])
next
  case (Cons c ds)
  have "scan_digits (pre @ c # ds @ rest) (qlen pre) = scan_digits (pre @ c # ds @ rest) (qlen pre + 1)"
    using Cons.prems by (simp add: scan_digits.simps [of _ "qlen pre"])
  then show ?case using Cons.IH [of "pre @ [c]"] Cons.prems by (simp add: add.commute)
qed

lemma qmid_middle [simp]: "qmid (pre @ s @ rest) (qlen pre) (qlen s) = s"
  by (simp add: qmid_def)

lemma parseNumber_number:
  assumes "int n \<le> int64_max" and "rest = [] \<or> \<not> isdigit (hd rest)"
  shows "parseNumber (pre @ nat_number n @ rest) v (qlen pre)
    = (int n, True, qlen pre + qlen (nat_number n))"
proof -
  obtain c t where ct: "nat_number n = c # t" by (cases "nat_number n") auto
  have c: "isdigit c" using nat_number_digits [of n] ct by simp
  have "stripLeadingSpaces (pre @ nat_number n @ rest) (qlen pre) = qlen pre"
    using isdigit_not_space [OF c] ct by simp
  moreover have "toLongLong (nat_number n) = Some (int n)"
    using toLongLong_digits [OF nat_number_digits] assms(1) by (simp add: nat_number_value)
  moreover have "\<not> qlen pre \<ge> qlen (pre @ nat_number n @ rest)" by (simp add: ct)
  ultimately show ?thesis
    using scan_digits_span [OF nat_number_digits [of n] assms(2), of pre]
    by (simp add: parseNumber_def Let_def or_zero_def del: length_append)
qed

lemma sequence_loop_number:
  assumes "0 \<le> b" and "b \<le> int64_max" and "rest = [] \<or> \<not> isdigit (hd rest)"
  shows "sequence_loop (pre @ number b @ rest) (qlen pre) v l acc
    = sequence_loop (pre @ number b @ rest) (qlen pre + qlen (number b)) b l acc"
proof -
  have num: "number b = nat_number (nat b)" using assms(1) by (simp add: number_def)
  obtain c t where ct: "number b = c # t" by (cases "number b") (auto simp: num)
  have c: "isdigit c" using nat_number_digits [of "nat b"] ct num by simp
  show ?thesis
    using parseNumber_number [of "nat b" rest pre v] assms ct isdigit_facts [OF c] c
    by (subst sequence_loop.simps) (simp add: num)
qed

text \<open>The intervals that have a text: well formed, and not the one whose end is open at 1, which is
  printed as nothing.\<close>

definition printable :: "imap_interval \<Rightarrow> bool" where
  "printable i \<longleftrightarrow> interval_wf i \<and> \<not> (iv_begin i = 1 \<and> \<not> hasDefinedEnd i)"

lemma toImapSequence_cases:
  assumes "printable i"
  obtains "iv_end i = iv_begin i" "toImapSequence i = number (iv_begin i)"
  | "iv_end i > iv_begin i" "toImapSequence i = number (iv_begin i) @ CHR '':'' # number (iv_end i)"
  | "iv_end i = 0" "iv_begin i > 1" "toImapSequence i = number (iv_begin i) @ CHR '':'' # ''*''"
  using assms
  by (cases "iv_end i = 0"; cases "iv_end i = iv_begin i")
    (auto simp: printable_def interval_wf_def toImapSequence_def interval_size_def hasDefinedEnd_def)

lemma isdigit_punct [simp]: "\<not> isdigit CHR '':''" "\<not> isdigit CHR '',''" "\<not> isdigit CHR ''*''"
  by (simp_all add: isdigit_def)

lemma sequence_loop_colon:
  "sequence_loop (pre @ CHR '':'' # rest) (qlen pre) v l acc
     = sequence_loop (pre @ CHR '':'' # rest) (qlen pre + 1) v v acc"
  by (subst sequence_loop.simps) simp

lemma sequence_loop_star:
  "sequence_loop (pre @ CHR ''*'' # rest) (qlen pre) v l acc
     = sequence_loop (pre @ CHR ''*'' # rest) (qlen pre + 1) 0 l acc"
  by (subst sequence_loop.simps) simp

lemma sequence_loop_interval:
  assumes "printable i" and "rest = [] \<or> hd rest = CHR '',''"
  shows "sequence_loop (pre @ toImapSequence i @ rest) (qlen pre) (- 1) (- 1) acc
    = sequence_loop (pre @ toImapSequence i @ rest) (qlen pre + qlen (toImapSequence i)) (iv_end i)
        (if iv_end i = iv_begin i then - 1 else iv_begin i) acc"
proof -
  have b: "0 \<le> iv_begin i" "iv_begin i \<le> int64_max" "iv_end i \<le> int64_max"
    using assms(1) by (auto simp: printable_def interval_wf_def hasDefinedEnd_def int64_max_def)
  have nd: "rest = [] \<or> \<not> isdigit (hd rest)" using assms(2) by auto
  show ?thesis
  proof (cases rule: toImapSequence_cases [OF assms(1)])
    case 1
    then show ?thesis using sequence_loop_number [OF b(1,2) nd, of pre "- 1" "- 1" acc] by simp
  next
    case 2
    let ?t = "CHR '':'' # number (iv_end i) @ rest"
    show ?thesis
      using sequence_loop_number [OF b(1,2), of ?t pre "- 1" "- 1" acc]
        sequence_loop_colon [of "pre @ number (iv_begin i)" "number (iv_end i) @ rest"]
        sequence_loop_number [OF _ b(3) nd, of "pre @ number (iv_begin i) @ '':''" "iv_begin i" "iv_begin i" acc]
        2 b by (simp add: add_ac)
  next
    case 3
    then show ?thesis
      using sequence_loop_number [OF b(1,2), of "CHR '':'' # CHR ''*'' # rest" pre "- 1" "- 1" acc]
        sequence_loop_colon [of "pre @ number (iv_begin i)" "CHR ''*'' # rest"]
        sequence_loop_star [of "pre @ number (iv_begin i) @ '':''" rest]
      by (simp add: add_ac)
  qed
qed

lemma sequence_loop_text:
  assumes "s \<noteq> []" and "\<forall>i \<in> set s. printable i"
  shows "sequence_loop (pre @ toImapSequenceSet s) (qlen pre) (- 1) (- 1) acc
    = (acc @ s, qlen pre + qlen (toImapSequenceSet s))"
  using assms
proof (induction s arbitrary: pre acc rule: induct_list012)
  case (2 i)
  then have "0 \<le> iv_begin i" "0 \<le> iv_end i"
    by (auto simp: printable_def interval_wf_def hasDefinedEnd_def)
  then show ?case
    using sequence_loop_interval [of i "[]" pre acc] "2.prems"
    by (auto simp: sequence_loop.simps [of _ "qlen pre + _"] add_interval_def Let_def
        split: if_splits dest: arg_cong [of _ _ "mk_interval (iv_begin i)"])
next
  case (3 i j s)
  let ?d = "pre @ toImapSequence i @ CHR '','' # toImapSequenceSet (j # s)"
  have b: "1 \<le> iv_begin i" using "3.prems" by (auto simp: printable_def interval_wf_def)
  have "sequence_loop ?d (qlen pre) (- 1) (- 1) acc
      = sequence_loop ?d (qlen (pre @ toImapSequence i)) (iv_end i)
          (if iv_end i = iv_begin i then - 1 else iv_begin i) acc"
    using sequence_loop_interval [of i "CHR '','' # toImapSequenceSet (j # s)" pre acc] "3.prems" by simp
  also have "\<dots> = sequence_loop ?d (qlen (pre @ toImapSequence i @ '','')) (- 1) (- 1) (acc @ [i])"
    using b byte_at_append [of "pre @ toImapSequence i" "CHR '',''" "toImapSequenceSet (j # s)"]
      mk_interval_id [of i]
    by (subst sequence_loop.simps) (auto simp: add_interval_def add_ac simp del: mk_interval_id)
  also have "\<dots> = (acc @ i # j # s, qlen ?d)"
    using "3.IH"(2) [of "pre @ toImapSequence i @ '',''" "acc @ [i]"] "3.prems" by simp
  finally show ?case by simp
qed simp

lemma toImapSequenceSet_first:
  assumes "s \<noteq> []" and "\<forall>i \<in> set s. printable i"
  obtains c t where "toImapSequenceSet s = c # t" and "isdigit c"
proof -
  obtain i r where s: "s = i # r" using assms(1) by (cases s) auto
  have "1 \<le> iv_begin i" using assms(2) s by (simp add: printable_def interval_wf_def)
  then obtain c t where "number (iv_begin i) = c # t" "isdigit c"
    using nat_number_digits [of "nat (iv_begin i)"]
    by (cases "nat_number (nat (iv_begin i))") (auto simp: number_def)
  moreover have "\<exists>u. toImapSequence i = number (iv_begin i) @ u"
    using toImapSequence_cases [of i] assms(2) s by (metis append_Nil2 list.set_intros(1))
  ultimately show ?thesis using that s by (cases r) auto
qed

lemma parseSequenceSet_text:
  assumes "s \<noteq> []" and "\<forall>i \<in> set s. printable i"
  shows "parseSequenceSet (toImapSequenceSet s) acc 0 = (acc @ s, qlen (toImapSequenceSet s))"
proof -
  obtain c t where "toImapSequenceSet s = c # t" "isdigit c"
    using toImapSequenceSet_first [OF assms] .
  then have "stripLeadingSpaces (toImapSequenceSet s) 0 = 0"
    using stripLeadingSpaces_here [of c "[]" t] isdigit_not_space by simp
  then show ?thesis
    using sequence_loop_text [OF assms, of "[]" acc] by (simp add: parseSequenceSet_def)
qed

section \<open>Dates in the fixed format\<close>

definition two_digits :: "nat \<Rightarrow> string" where
  "two_digits n = [digit_char (n div 10), digit_char (n mod 10)]"

definition four_digits :: "nat \<Rightarrow> string" where
  "four_digits n = two_digits (n div 100) @ two_digits (n mod 100)"

definition month_name :: "nat \<Rightarrow> string" where
  "month_name m = take 3 (drop (3 * (m - 1)) shortMonthNames)"

text \<open>The date-time of the grammar in the comment of \<open>parseDateTime\<close>, without its quotes.\<close>

definition date_text :: "nat \<Rightarrow> nat \<Rightarrow> nat \<Rightarrow> nat \<Rightarrow> nat \<Rightarrow> nat \<Rightarrow> bool \<Rightarrow> nat \<Rightarrow> nat \<Rightarrow> string" where
  "date_text y m d hh mm ss neg tzh tzm =
     two_digits d @ ''-'' @ month_name m @ ''-'' @ four_digits y @ '' '' @
     two_digits hh @ '':'' @ two_digits mm @ '':'' @ two_digits ss @ '' '' @
     (if neg then ''-'' else ''+'') @ two_digits tzh @ two_digits tzm"

lemma digits_value_two: "n < 100 \<Longrightarrow> digits_value (two_digits n) = int n"
  using int_div_mod [of 10 n] by (simp add: digits_value_def two_digits_def)

lemma digits_value_four: "n < 10000 \<Longrightarrow> digits_value (four_digits n) = int n"
  using int_div_mod [of 10 "n div 100"] int_div_mod [of 10 "n mod 100"] int_div_mod [of 100 n]
    less_mult_imp_div_less [of "n mod 100" 10 10]
  by (simp add: digits_value_def two_digits_def four_digits_def)

lemma toInt_two: "n < 100 \<Longrightarrow> toInt (two_digits n) = Some (int n)"
  using toInt_digits [of "two_digits n"] digits_value_two [of n]
  by (simp add: int32_max_def two_digits_def)

lemma toInt_four: "n < 10000 \<Longrightarrow> toInt (four_digits n) = Some (int n)"
  using toInt_digits [of "four_digits n"] digits_value_four [of n]
  by (simp add: int32_max_def four_digits_def two_digits_def)

lemma month_names_ok:
  "list_all (\<lambda>m. index_sub (map ascii_lower (month_name m)) shortMonthNames 0 = 3 * (int m - 1)
      \<and> length (month_name m) = 3) [1 ..< 13]"
  by code_simp

lemma month_name_index:
  assumes "1 \<le> m" and "m \<le> 12"
  shows "index_sub (map ascii_lower (month_name m)) shortMonthNames 0 = 3 * (int m - 1)"
    and "length (month_name m) = 3"
  using assms month_names_ok unfolding list_all_iff by auto

lemma qmid_inside:
  "k + l \<le> length t \<Longrightarrow> qmid (pre @ t @ post) (qlen pre + int k) (int l) = take l (drop k t)"
  by (simp add: qmid_def nat_add_distrib)

lemma byte_at_inside: "k < length t \<Longrightarrow> byte_at (pre @ t @ post) (qlen pre + int k) = t ! k"
  by (simp add: byte_at_def nat_add_distrib nth_append)

lemma date_text_fields:
  assumes "1 \<le> m" and "m \<le> 12"
    and t_def: "t = date_text y m d hh mm ss neg tzh tzm"
  shows "length t = 26"
    and "take 2 (drop 0 t) = two_digits d" and "take 3 (drop 3 t) = month_name m"
    and "take 4 (drop 7 t) = four_digits y" and "take 2 (drop 12 t) = two_digits hh"
    and "take 2 (drop 15 t) = two_digits mm" and "take 2 (drop 18 t) = two_digits ss"
    and "take 2 (drop 22 t) = two_digits tzh" and "take 2 (drop 24 t) = two_digits tzm"
    and "t ! 0 = digit_char (d div 10)" and "t ! 21 = (if neg then CHR ''-'' else CHR ''+'')"
proof -
  obtain a b c where "month_name m = [a, b, c]"
    using month_name_index(2) [OF assms(1,2)] by (auto simp: numeral_3_eq_3 length_Suc_conv)
  then have t: "t = two_digits d @ CHR ''-'' # [a, b, c] @ CHR ''-'' # four_digits y @ CHR '' '' #
      two_digits hh @ CHR '':'' # two_digits mm @ CHR '':'' # two_digits ss @ CHR '' '' #
      (if neg then CHR ''-'' else CHR ''+'') # two_digits tzh @ two_digits tzm" and "month_name m = [a, b, c]"
    by (auto simp: t_def date_text_def)
  then show "length t = 26"
    and "take 2 (drop 0 t) = two_digits d" and "take 3 (drop 3 t) = month_name m"
    and "take 4 (drop 7 t) = four_digits y" and "take 2 (drop 12 t) = two_digits hh"
    and "take 2 (drop 15 t) = two_digits mm" and "take 2 (drop 18 t) = two_digits ss"
    and "take 2 (drop 22 t) = two_digits tzh" and "take 2 (drop 24 t) = two_digits tzm"
    and "t ! 0 = digit_char (d div 10)" and "t ! 21 = (if neg then CHR ''-'' else CHR ''+'')"
    by (simp_all add: two_digits_def four_digits_def)
qed

lemma parseDateTime_text:
  assumes "1 \<le> m" "m \<le> 12" "d < 100" "y < 10000" "hh < 100" "mm < 100" "ss < 100" "tzh < 100" "tzm < 100"
    and "valid (mk (int y) (int m) (int d) (int hh) (int mm) (int ss))"
  shows "parseDateTime mk valid add
      (pre @ DQ # date_text y m d hh mm ss neg tzh tzm @ DQ # post) old (qlen pre) =
    (add (mk (int y) (int m) (int d) (int hh) (int mm) (int ss))
       (let tz = int tzh * 3600 + int tzm * 60 in if neg then tz else - tz), qlen pre + 28)"
proof -
  define t where "t = date_text y m d hh mm ss neg tzh tzm"
  define D where "D = (pre @ [DQ]) @ t @ DQ # post"
  note fields = date_text_fields [OF assms(1,2) t_def]
  have mid: "qmid D (qlen pre + 1 + int k) (int l) = take l (drop k t)" if "k + l \<le> 26" for k l
    using qmid_inside [of k l t "pre @ [DQ]" "DQ # post"] that fields(1) by (simp add: D_def add_ac)
  have at: "byte_at D (qlen pre + 1 + int k) = t ! k" if "k < 26" for k
    using byte_at_inside [of k t "pre @ [DQ]" "DQ # post"] that fields(1) by (simp add: D_def add_ac)
  have ends: "byte_at D (qlen pre) = DQ" "byte_at D (qlen pre + 27) = DQ" "qlen D = qlen pre + 28 + qlen post"
    using byte_at_append [of "pre @ DQ # t" DQ post] fields(1) by (simp_all add: D_def)
  have day: "t ! 0 \<noteq> CHR '' ''"
    using isdigit_not_space [OF isdigit_digit_char, of "d div 10"] assms(3) fields(10) by simp
  have strip: "stripLeadingSpaces D (qlen pre) = qlen pre" by (simp add: D_def)
  have nums: "toInt (qmid D (qlen pre + 1) 2) = Some (int d)" "toInt (qmid D (qlen pre + 8) 4) = Some (int y)"
      "toInt (qmid D (qlen pre + 13) 2) = Some (int hh)" "toInt (qmid D (qlen pre + 16) 2) = Some (int mm)"
      "toInt (qmid D (qlen pre + 19) 2) = Some (int ss)" "toInt (qmid D (qlen pre + 23) 2) = Some (int tzh)"
      "toInt (qmid D (qlen pre + 25) 2) = Some (int tzm)"
    using mid [of 0 2] mid [of 7 4] mid [of 12 2] mid [of 15 2] mid [of 18 2] mid [of 22 2] mid [of 24 2]
      fields assms(3-9) by (simp_all add: toInt_two toInt_four add_ac)
  have month: "index_sub (map ascii_lower (qmid D (qlen pre + 4) 3)) shortMonthNames 0 = 3 * (int m - 1)"
    using mid [of 3 3] fields(3) month_name_index(1) [OF assms(1,2)] by (simp add: add_ac)
  have chars: "byte_at D (qlen pre + 1) \<noteq> CHR '' ''"
      "byte_at D (qlen pre + 22) = (if neg then CHR ''-'' else CHR ''+'')"
    using at [of 0] at [of 21] day fields(11) by (simp_all add: add_ac)
  have D: "pre @ DQ # t @ DQ # post = D" by (simp add: D_def)
  have div3: "3 * (int m - 1) div 3 + 1 = int m" by simp
  have ne: "3 * (int m - 1) \<noteq> - 1" by presburger
  have "parseDateTime mk valid add D old (qlen pre) =
    (add (mk (int y) (int m) (int d) (int hh) (int mm) (int ss))
       (let tz = int tzh * 3600 + int tzm * 60 in if neg then tz else - tz), qlen pre + 28)"
    unfolding parseDateTime_def strip Let_def
    using ends chars nums month ne assms(10) by (simp add: div3 ac_simps)
  then show ?thesis by (simp only: t_def [symmetric] D)
qed

section \<open>Accounting of the parser object\<close>

lemma checkLiteralStart_frame:
  "parenthesesCount (fst (checkLiteralStart p l pos)) = parenthesesCount p"
  "dataBuffer (fst (checkLiteralStart p l pos)) = dataBuffer p"
  "tagBuffer (fst (checkLiteralStart p l pos)) = tagBuffer p"
  by (simp_all add: checkLiteralStart_def Let_def)

lemma checkLiteralStart_more: "checkLiteralStart p l pos = (p', True) \<Longrightarrow> literalSize p' \<noteq> 0 \<and> continuation p'"
  by (auto simp: checkLiteralStart_def Let_def split: if_splits)

lemma take_line_frame:
  "literalSize (take_line p l) = literalSize p"
  "parenthesesCount (take_line p l) = parenthesesCount p"
  "tagBuffer p \<noteq> [] \<Longrightarrow> dataBuffer (take_line p l) = dataBuffer p @ l"
  by (simp_all add: take_line_def Let_def split: prod.split)

lemma parenthesesBalance_suffix: "parenthesesBalance (lit @ rest) (qlen lit) = parenthesesBalance rest 0"
  by (simp add: parenthesesBalance_def)

lemma parseNextLine_data:
  "tagBuffer p \<noteq> [] \<Longrightarrow> dataBuffer (fst (parseNextLine p l)) = dataBuffer p @ l"
  using take_line_frame(3) [of p l]
  by (auto simp: parseNextLine_def Let_def checkLiteralStart_frame split: prod.split
      dest: arg_cong [of _ "(_, _)" "dataBuffer \<circ> fst"])

lemma parseNextLine_literal_more:
  assumes "qlen l < literalSize p"
  shows "parseNextLine p l = ((take_line p l)\<lparr>literalSize := literalSize p - qlen l\<rparr>, False)"
  using assms by (simp add: parseNextLine_def take_line_frame Let_def)

lemma parseNextLine_literal_end:
  assumes "0 < literalSize p" and "qlen lit = literalSize p"
  shows "parenthesesCount (fst (parseNextLine p (lit @ rest)))
    = parenthesesCount p + parenthesesBalance rest 0"
proof (cases "rest = []")
  case True
  then show ?thesis
    using assms by (simp add: parseNextLine_def take_line_frame Let_def parenthesesBalance_def)
next
  case False
  then have "literalSize p - qlen (lit @ rest) < 0" "qlen (lit @ rest) + (literalSize p - qlen (lit @ rest)) = qlen lit"
    using assms by simp_all
  then show ?thesis
    using assms parenthesesBalance_suffix [of lit rest]
    by (simp add: parseNextLine_def take_line_frame Let_def case_prod_beta checkLiteralStart_frame
        del: length_append)
qed

section \<open>Properties\<close>

text \<open>Quoting and parsing are inverse: wherever a quoted string stands in the data, \<open>parseString\<close>
  at its start returns the original bytes and the position just behind the closing quote.\<close>

theorem quote_roundtrip:
  "parseString (pre @ quote s @ post) (qlen pre) = (s, qlen pre + qlen (quote s))"
  by (rule parseString_quote)

text \<open>(C34) A parenthesized list of quoted strings is parsed back to exactly those strings, and the
  loop of the list helper ends after at most two iterations per element and one for the bracket.\<close>

theorem parenthesized_list_roundtrip:
  assumes "2 * length xs < fuel"
  shows "parseParenthesizedList fuel (''('' @ join_bytes (map quote xs) '' '' @ '')'' @ post) 0
    = Done (xs, qlen (join_bytes (map quote xs) '' '') + 2)"
  by (rule parseParenthesizedList_quoted [OF assms])

theorem parenthesized_list_roundtrip_witness:
  "parseParenthesizedList 5 (''('' @ join_bytes (map quote [''a'', [DQ]]) '' '' @ '')'' @ ''x'') 0
    = Done ([''a'', [DQ]], qlen (join_bytes (map quote [''a'', [DQ]]) '' '') + 2)"
  by (rule parenthesized_list_roundtrip) simp

text \<open>On a list that ends inside a quoted string the loop of the list helper never ends: whatever
  number of iterations is allowed, it does not return.\<close>

theorem unterminated_quote_never_returns:
  assumes "DQ \<notin> set s" and "BS \<notin> set s"
  shows "parseParenthesizedList fuel (''('' @ DQ # s) 0 = NoFuel"
  using list_loop_open [OF assms, of fuel "''(''" 0 "[]"]
  by (simp add: parseParenthesizedList_def indexOf_def)

theorem unterminated_quote_never_returns_witness:
  "parseParenthesizedList 1000 (''('' @ DQ # ''abc'') 0 = NoFuel"
  by (rule unterminated_quote_never_returns) simp_all

text \<open>A set of well-formed intervals, none of them open-ended at 1, is read back from its IMAP text
  unchanged and the whole text is consumed.\<close>

theorem sequence_set_roundtrip:
  assumes "s \<noteq> []" and "\<forall>i \<in> set s. printable i"
  shows "parseSequenceSet (toImapSequenceSet s) acc 0 = (acc @ s, qlen (toImapSequenceSet s))"
  by (rule parseSequenceSet_text [OF assms])

theorem sequence_set_roundtrip_witness:
  "parseSequenceSet (toImapSequenceSet [mk_interval 2 8, mk_interval 12 12, mk_interval 20 0]) [] 0
    = ([] @ [mk_interval 2 8, mk_interval 12 12, mk_interval 20 0],
       qlen (toImapSequenceSet [mk_interval 2 8, mk_interval 12 12, mk_interval 20 0]))"
  by (rule sequence_set_roundtrip)
    (simp_all add: printable_def interval_wf_def mk_interval_def hasDefinedEnd_def int64_max_def)

text \<open>A quoted date-time in the documented grammar is parsed into its fields, shifted to UTC by the
  zone, and the position returned is behind the closing quote.\<close>

theorem date_time_roundtrip:
  assumes "1 \<le> m" "m \<le> 12" "d < 100" "y < 10000" "hh < 100" "mm < 100" "ss < 100" "tzh < 100" "tzm < 100"
    and "valid (mk (int y) (int m) (int d) (int hh) (int mm) (int ss))"
  shows "parseDateTime mk valid add
      (pre @ DQ # date_text y m d hh mm ss neg tzh tzm @ DQ # post) old (qlen pre) =
    (add (mk (int y) (int m) (int d) (int hh) (int mm) (int ss))
       (let tz = int tzh * 3600 + int tzm * 60 in if neg then tz else - tz), qlen pre + 28)"
  using assms by (rule parseDateTime_text)

theorem date_time_roundtrip_witness:
  "parseDateTime (\<lambda>y m d h mi s. ([y, m, d, h, mi, s], 0)) (\<lambda>x. hd (fst x) > 0) (\<lambda>x n. (fst x, snd x + n))
      ([] @ DQ # date_text 2006 5 28 1 3 35 False 2 0 @ DQ # []) ([], 0) (qlen []) =
    (([2006, 5, 28, 1, 3, 35], - 7200 :: int), 28)"
  using date_time_roundtrip [of 5 28 2006 1 3 35 2 0 "\<lambda>x. hd (fst x) > 0"
      "\<lambda>y m d h mi s. ([y, m, d, h, mi, s], 0 :: int)" "\<lambda>x n. (fst x, snd x + n)" "[]" False "[]" "([], 0)"]
  by simp

text \<open>Bytes of a literal are never interpreted: while more of it is outstanding a line only counts
  it down and asks for more, and the line that finishes it changes the parenthesis count by the balance
  of what follows the literal, whatever the literal contains. Every byte goes to the data buffer.\<close>

theorem literal_accounting:
  assumes "tagBuffer p \<noteq> []" and "qlen part < literalSize p" and "qlen lit = literalSize p"
  shows "snd (parseNextLine p part) = False
    \<and> literalSize (fst (parseNextLine p part)) = literalSize p - qlen part
    \<and> parenthesesCount (fst (parseNextLine p part)) = parenthesesCount p
    \<and> parenthesesCount (fst (parseNextLine p (lit @ rest)))
      = parenthesesCount p + parenthesesBalance rest 0
    \<and> dataBuffer (fst (parseNextLine p (lit @ rest))) = dataBuffer p @ lit @ rest"
  using assms parseNextLine_literal_more [OF assms(2)] parseNextLine_literal_end [of p lit rest]
    parseNextLine_data [OF assms(1), of "lit @ rest"]
  by (simp add: take_line_frame)

theorem literal_accounting_witness:
  "parenthesesCount (fst (parseNextLine
      \<lparr>tagBuffer = ''A'', dataBuffer = ''('', parenthesesCount = 1, literalSize = 3, continuation = True\<rparr>
      (''((x'' @ '')''))) = 1 + parenthesesBalance '')'' 0"
  using literal_accounting [of "\<lparr>tagBuffer = ''A'', dataBuffer = ''('', parenthesesCount = 1,
      literalSize = 3, continuation = True\<rparr>" "[]" "''((x''" "'')''"] by simp

end
