(* ===== verification/ResourceScheduler.thy ===== *)
theory ResourceScheduler
  imports Prelude Transition "HOL-Library.Multiset"
begin

text \<open>
  The task scheduler of every resource, \<open>src/agentbase/resourcescheduler.cpp\<close>: five priority queues,
  one current task, deferral, going offline, and the grouping of single item fetches into one D-Bus
  reply. What the code sends to others (signals, D-Bus replies, job tracker calls) is appended to
  \<open>sent\<close>; each \<open>QTimer::singleShot(0s, executeNext)\<close> that has not fired yet counts in \<open>timers\<close>.
\<close>

section \<open>Tasks\<close>

datatype task_type = Invalid | SyncAll | SyncCollectionTree | SyncCollection | SyncCollectionAttributes
  | SyncTags | FetchItem | FetchItems | ChangeReplay | RecursiveMoveReplay | DeleteResourceCollection
  | InvalidateCacheForCollection | SyncAllDone | SyncCollectionTreeDone | Custom

text \<open>A \<open>QVariant\<close>: none, a \<open>qint64\<close>, or some other value (a pointer, a string) that has no integer.\<close>

datatype qvariant = NoVariant | LongLong int | OtherVariant nat

fun variant_toLongLong :: "qvariant \<Rightarrow> int" where
  "variant_toLongLong (LongLong n) = n"
| "variant_toLongLong _ = 0"

text \<open>Collections and items enter by their id; a negative id is an invalid one, and all invalid ones
  are equal (\<open>Collection::operator==\<close>, \<open>Item::operator==\<close>).\<close>

definition entity_isValid :: "int \<Rightarrow> bool" where
  "entity_isValid i \<longleftrightarrow> i \<ge> 0"

definition collection_eq :: "int \<Rightarrow> int \<Rightarrow> bool" where
  "collection_eq a b \<longleftrightarrow> (\<not> entity_isValid a \<and> \<not> entity_isValid b) \<or> a = b"

definition item_eq :: "int \<Rightarrow> int \<Rightarrow> bool" where
  "item_eq a b \<longleftrightarrow> (\<not> entity_isValid a \<and> \<not> entity_isValid b) \<or> a = b"

record dbus_msg =
  msg_id :: nat
  msg_member :: string

record task =
  serial :: int
  task_type :: task_type
  collection :: int
  items :: "int list"
  itemParts :: "string set"
  dbusMsgs :: "dbus_msg list"
  receiver :: "nat option"
  methodName :: string
  argument :: qvariant

definition task_eq :: "task \<Rightarrow> task \<Rightarrow> bool" where
  "task_eq a b \<longleftrightarrow> task_type a = task_type b
     \<and> (collection_eq (collection a) (collection b)
        \<or> (\<not> entity_isValid (collection a) \<and> \<not> entity_isValid (collection b)))
     \<and> list_all2 item_eq (items a) (items b) \<and> itemParts a = itemParts b
     \<and> receiver a = receiver b \<and> methodName a = methodName b \<and> argument a = argument b"

section \<open>State\<close>

datatype queue_type = PrependTaskQueue | ChangeReplayQueue | AfterChangeReplayQueue | UserActionQueue
  | GenericTaskQueue

definition all_queues :: "queue_type list" where
  "all_queues = [PrependTaskQueue, ChangeReplayQueue, AfterChangeReplayQueue, UserActionQueue, GenericTaskQueue]"

datatype message =
    ExecuteFullSync | ExecuteCollectionTreeSync | ExecuteCollectionSync int
  | ExecuteCollectionAttributesSync int | ExecuteTagSync | ExecuteItemFetch int "string set"
  | ExecuteItemsFetch "int list" "string set" | ExecuteResourceCollectionDeletion
  | ExecuteCacheInvalidation int | ExecuteChangeReplay | ExecuteRecursiveMoveReplay qvariant
  | FullSyncComplete | CollectionTreeSyncComplete
  | InvokeSlotWithArgument "nat option" string qvariant | InvokeSlot "nat option" string
  | StatusIdle
  | DBusReply dbus_msg | DBusErrorReply dbus_msg string | DBusEmptyMessage
  | JobCreated int string | JobStarted int | JobEnded int string

record rsched =
  mTaskList :: "queue_type \<Rightarrow> task list"
  mCurrentTask :: task
  mCurrentTaskPendingJobs :: "nat list"
  mCurrentTasksQueue :: "queue_type option"
  mOnline :: bool
  latestSerial :: int
  tracker :: bool
  console :: bool
  timers :: nat
  sent :: "message list"

text \<open>\<open>mCurrentTasksQueue\<close> is \<^const>\<open>None\<close> for -1. \<open>tracker\<close> says that \<open>s_resourcetracker\<close> is set,
  \<open>console\<close> that the console's D-Bus service is registered, which is what the code asks for.\<close>

definition invalid_task :: "int \<Rightarrow> task" where
  "invalid_task n = \<lparr>serial = n, task_type = Invalid, collection = - 1, items = [], itemParts = {},
     dbusMsgs = [], receiver = None, methodName = [], argument = NoVariant\<rparr>"

definition send :: "message list \<Rightarrow> rsched \<Rightarrow> rsched" where
  "send ms s = s\<lparr>sent := sent s @ ms\<rparr>"

text \<open>The constructor \<open>Task()\<close> draws the next serial.\<close>

definition new_task :: "rsched \<Rightarrow> task \<times> rsched" where
  "new_task s = (invalid_task (latestSerial s + 1), s\<lparr>latestSerial := latestSerial s + 1\<rparr>)"

definition init_sched :: "bool \<Rightarrow> rsched" where
  "init_sched con = \<lparr>mTaskList = (\<lambda>_. []), mCurrentTask = invalid_task 1, mCurrentTaskPendingJobs = [],
     mCurrentTasksQueue = None, mOnline = False, latestSerial = 1, tracker = False, console = con,
     timers = 0, sent = []\<rparr>"

section \<open>Operations\<close>

definition queueTypeForTaskType :: "task_type \<Rightarrow> queue_type" where
  "queueTypeForTaskType t =
     (if t \<in> {ChangeReplay, RecursiveMoveReplay} then ChangeReplayQueue
      else if t \<in> {FetchItem, FetchItems, SyncCollectionAttributes} then UserActionQueue
      else GenericTaskQueue)"

abbreviation queueForTaskType :: "rsched \<Rightarrow> task_type \<Rightarrow> task list" where
  "queueForTaskType s t \<equiv> mTaskList s (queueTypeForTaskType t)"

definition set_queue :: "queue_type \<Rightarrow> task list \<Rightarrow> rsched \<Rightarrow> rsched" where
  "set_queue q ts s = s\<lparr>mTaskList := (mTaskList s)(q := ts)\<rparr>"

definition isEmpty :: "rsched \<Rightarrow> bool" where
  "isEmpty s \<longleftrightarrow> list_all (\<lambda>q. mTaskList s q = []) all_queues"

definition scheduleNext :: "rsched \<Rightarrow> rsched" where
  "scheduleNext s =
     (if task_type (mCurrentTask s) \<noteq> Invalid \<or> isEmpty s \<or> \<not> mOnline s then s
      else s\<lparr>timers := timers s + 1\<rparr>)"

definition signalTaskToTracker :: "task \<Rightarrow> string \<Rightarrow> rsched \<Rightarrow> rsched" where
  "signalTaskToTracker t ty s =
     (let s = (if \<not> tracker s \<and> console s then s\<lparr>tracker := True\<rparr> else s) in
      if tracker s then send [JobCreated (serial t) ty] s else s)"

definition queue_contains :: "task list \<Rightarrow> task \<Rightarrow> bool" where
  "queue_contains ts t \<longleftrightarrow> list_ex (\<lambda>u. task_eq u t) ts"

definition enqueueTask :: "task \<Rightarrow> string \<Rightarrow> bool \<Rightarrow> rsched \<Rightarrow> rsched" where
  "enqueueTask t ty checkCurrentTask s =
     (let q = queueTypeForTaskType (task_type t) in
      if queue_contains (mTaskList s q) t \<or> (checkCurrentTask \<and> task_eq (mCurrentTask s) t) then s
      else scheduleNext (signalTaskToTracker t ty (set_queue q (mTaskList s q @ [t]) s)))"

definition scheduleFullSync :: "rsched \<Rightarrow> rsched" where
  "scheduleFullSync s = (let (t, s) = new_task s in enqueueTask (t\<lparr>task_type := SyncAll\<rparr>) ''SyncAll'' True s)"

definition scheduleCollectionTreeSync :: "rsched \<Rightarrow> rsched" where
  "scheduleCollectionTreeSync s =
     (let (t, s) = new_task s in enqueueTask (t\<lparr>task_type := SyncCollectionTree\<rparr>) ''SyncCollectionTree'' True s)"

definition scheduleTagSync :: "rsched \<Rightarrow> rsched" where
  "scheduleTagSync s = (let (t, s) = new_task s in enqueueTask (t\<lparr>task_type := SyncTags\<rparr>) ''SyncTags'' True s)"

definition scheduleSync :: "int \<Rightarrow> rsched \<Rightarrow> rsched" where
  "scheduleSync col s =
     (let (t, s) = new_task s in
      enqueueTask (t\<lparr>task_type := SyncCollection, collection := col\<rparr>) ''SyncCollection'' True s)"

definition scheduleAttributesSync :: "int \<Rightarrow> rsched \<Rightarrow> rsched" where
  "scheduleAttributesSync col s =
     (let (t, s) = new_task s in
      enqueueTask (t\<lparr>task_type := SyncCollectionAttributes, collection := col\<rparr>) ''SyncCollectionAttributes'' True s)"

definition scheduleItemFetch :: "int \<Rightarrow> string set \<Rightarrow> dbus_msg list \<Rightarrow> int \<Rightarrow> rsched \<Rightarrow> rsched" where
  "scheduleItemFetch item parts msgs parentId s =
     (let (t, s) = new_task s;
          t = t\<lparr>task_type := FetchItem, items := [item], itemParts := parts, dbusMsgs := msgs,
                argument := LongLong parentId\<rparr>;
          q = queueTypeForTaskType (task_type t)
      in scheduleNext (signalTaskToTracker t ''FetchItem'' (set_queue q (mTaskList s q @ [t]) s)))"

text \<open>Merging into a queued task: \<open>queue.indexOf(t)\<close> and the message appended there.\<close>

fun merge_msg :: "task \<Rightarrow> dbus_msg \<Rightarrow> task list \<Rightarrow> task list" where
  "merge_msg t m [] = []"
| "merge_msg t m (u # us) =
     (if task_eq u t then u\<lparr>dbusMsgs := dbusMsgs u @ [m]\<rparr> # us else u # merge_msg t m us)"

definition scheduleItemsFetch :: "int list \<Rightarrow> string set \<Rightarrow> dbus_msg \<Rightarrow> rsched \<Rightarrow> rsched" where
  "scheduleItemsFetch its parts m s =
     (let (t, s) = new_task s;
          t = t\<lparr>task_type := FetchItems, items := its, itemParts := parts\<rparr>;
          q = queueTypeForTaskType (task_type t)
      in if task_eq (mCurrentTask s) t
         then s\<lparr>mCurrentTask := (mCurrentTask s)\<lparr>dbusMsgs := dbusMsgs (mCurrentTask s) @ [m]\<rparr>\<rparr>
         else if queue_contains (mTaskList s q) t then set_queue q (merge_msg t m (mTaskList s q)) s
         else (let t = t\<lparr>dbusMsgs := [m]\<rparr> in
               scheduleNext (signalTaskToTracker t ''FetchItems'' (set_queue q (mTaskList s q @ [t]) s))))"

definition scheduleResourceCollectionDeletion :: "rsched \<Rightarrow> rsched" where
  "scheduleResourceCollectionDeletion s =
     (let (t, s) = new_task s in
      enqueueTask (t\<lparr>task_type := DeleteResourceCollection\<rparr>) ''DeleteResourceCollection'' True s)"

definition scheduleCacheInvalidation :: "int \<Rightarrow> rsched \<Rightarrow> rsched" where
  "scheduleCacheInvalidation col s =
     (let (t, s) = new_task s in
      enqueueTask (t\<lparr>task_type := InvalidateCacheForCollection, collection := col\<rparr>)
        ''InvalidateCacheForCollection'' True s)"

definition scheduleChangeReplay :: "rsched \<Rightarrow> rsched" where
  "scheduleChangeReplay s =
     (let (t, s) = new_task s in enqueueTask (t\<lparr>task_type := ChangeReplay\<rparr>) ''ChangeReplay'' False s)"

definition scheduleMoveReplay :: "int \<Rightarrow> nat \<Rightarrow> rsched \<Rightarrow> rsched" where
  "scheduleMoveReplay col mover s =
     (let (t, s) = new_task s in
      enqueueTask (t\<lparr>task_type := RecursiveMoveReplay, collection := col, argument := OtherVariant mover\<rparr>)
        ''RecursiveMoveReplay'' True s)"

definition append_uncompressed :: "task_type \<Rightarrow> string \<Rightarrow> rsched \<Rightarrow> rsched" where
  "append_uncompressed ty name s =
     (let (t, s) = new_task s; t = t\<lparr>task_type := ty\<rparr>; q = queueTypeForTaskType ty in
      scheduleNext (signalTaskToTracker t name (set_queue q (mTaskList s q @ [t]) s)))"

definition scheduleFullSyncCompletion :: "rsched \<Rightarrow> rsched" where
  "scheduleFullSyncCompletion s = append_uncompressed SyncAllDone ''SyncAllDone'' s"

definition scheduleCollectionTreeSyncCompletion :: "rsched \<Rightarrow> rsched" where
  "scheduleCollectionTreeSyncCompletion s = append_uncompressed SyncCollectionTreeDone ''SyncCollectionTreeDone'' s"

datatype schedule_priority = Prepend | AfterChangeReplay | Append

definition scheduleCustomTask :: "nat option \<Rightarrow> string \<Rightarrow> qvariant \<Rightarrow> schedule_priority \<Rightarrow> rsched \<Rightarrow> rsched" where
  "scheduleCustomTask rcv method arg priority s =
     (let (t, s) = new_task s;
          t = t\<lparr>task_type := Custom, receiver := rcv, methodName := method, argument := arg\<rparr>;
          q = (if priority = AfterChangeReplay then AfterChangeReplayQueue
               else if priority = Prepend then PrependTaskQueue else GenericTaskQueue)
      in if queue_contains (mTaskList s q) t then s
         else scheduleNext (signalTaskToTracker t (''Custom-'' @ methodName t)
                (set_queue q (if priority = Prepend then t # mTaskList s q else mTaskList s q @ [t]) s)))"

text \<open>\<open>Task::sendDBusReplies\<close>.\<close>

definition reply_to :: "string \<Rightarrow> dbus_msg \<Rightarrow> message list" where
  "reply_to errorMsg m =
     (if errorMsg \<noteq> [] then [DBusErrorReply m errorMsg]
      else if msg_member m = ''requestItemDelivery'' then [DBusReply m]
      else if msg_member m = [] then []
      else [DBusEmptyMessage])"

definition sendDBusReplies :: "task \<Rightarrow> string \<Rightarrow> rsched \<Rightarrow> rsched" where
  "sendDBusReplies t errorMsg s = send (concat (map (reply_to errorMsg) (dbusMsgs t))) s"

definition track_end :: "task \<Rightarrow> rsched \<Rightarrow> rsched" where
  "track_end t s = (if tracker s then send [JobEnded (serial t) []] s else s)"

definition taskDone :: "rsched \<Rightarrow> rsched" where
  "taskDone s =
     (let s = (if isEmpty s then send [StatusIdle] s else s);
          s = track_end (mCurrentTask s) s;
          (t, s) = new_task s
      in scheduleNext (s\<lparr>mCurrentTask := t, mCurrentTasksQueue := None\<rparr>))"

definition itemFetchDone :: "string \<Rightarrow> rsched \<Rightarrow> rsched" where
  "itemFetchDone msg s =
     (let cur = mCurrentTask s;
          q = queueTypeForTaskType (task_type cur);
          queue = mTaskList s q;
          parentId = variant_toLongLong (argument cur)
      in taskDone
           (if msg = [] \<and> queue \<noteq> [] then
              (let nextTask = hd queue in
               if task_type nextTask \<noteq> task_type cur \<or> variant_toLongLong (argument nextTask) \<noteq> parentId
               then sendDBusReplies cur msg s else s)
            else sendDBusReplies cur msg
                   (set_queue q (dropWhile (\<lambda>t. task_type t \<noteq> task_type cur
                                             \<or> variant_toLongLong (argument t) = parentId) queue) s)))"

definition clearCurrentTaskPendingJobs :: "rsched \<Rightarrow> rsched" where
  "clearCurrentTaskPendingJobs s = s\<lparr>mCurrentTaskPendingJobs := []\<rparr>"

definition appendCurrentTaskPendingJob :: "nat \<Rightarrow> rsched \<Rightarrow> rsched" where
  "appendCurrentTaskPendingJob job s = s\<lparr>mCurrentTaskPendingJobs := mCurrentTaskPendingJobs s @ [job]\<rparr>"

definition pendingJobFinished :: "nat \<Rightarrow> rsched \<Rightarrow> rsched" where
  "pendingJobFinished job s = s\<lparr>mCurrentTaskPendingJobs := removeAll job (mCurrentTaskPendingJobs s)\<rparr>"

definition clearCurrentTask :: "rsched \<Rightarrow> rsched" where
  "clearCurrentTask s =
     (let (t, s) = new_task (clearCurrentTaskPendingJobs s) in s\<lparr>mCurrentTask := t\<rparr>)"

text \<open>\<open>deferTask\<close>: without a source queue the code would index \<open>mTaskList[-1]\<close>, which is \<^const>\<open>None\<close> here.\<close>

definition deferTask :: "rsched \<Rightarrow> rsched option" where
  "deferTask s =
     (if task_type (mCurrentTask s) = Invalid then Some s
      else
        (let t = mCurrentTask s; s = clearCurrentTask (track_end t s) in
         case mCurrentTasksQueue s of
           None \<Rightarrow> None
         | Some q \<Rightarrow>
             Some (scheduleNext (signalTaskToTracker t ''DeferedTask''
               ((set_queue q (t # mTaskList s q) s)\<lparr>mCurrentTasksQueue := None\<rparr>)))))"

text \<open>
  \<open>executeNext\<close>. Invoking a custom task goes through the meta-object system: \<open>has_slot\<close> says whether
  the receiver has a slot of that name taking a \<open>QVariant\<close>, \<open>invoke_ok\<close> whether calling it succeeds.
\<close>

definition start_messages :: "(nat option \<Rightarrow> string \<Rightarrow> bool) \<Rightarrow> (nat option \<Rightarrow> string \<Rightarrow> bool) \<Rightarrow> task \<Rightarrow> message list" where
  "start_messages has_slot invoke_ok t =
     (case task_type t of
        SyncAll \<Rightarrow> [ExecuteFullSync]
      | SyncCollectionTree \<Rightarrow> [ExecuteCollectionTreeSync]
      | SyncCollection \<Rightarrow> [ExecuteCollectionSync (collection t)]
      | SyncCollectionAttributes \<Rightarrow> [ExecuteCollectionAttributesSync (collection t)]
      | SyncTags \<Rightarrow> [ExecuteTagSync]
      | FetchItem \<Rightarrow> (case items t of [] \<Rightarrow> [] | i # _ \<Rightarrow> [ExecuteItemFetch i (itemParts t)])
      | FetchItems \<Rightarrow> [ExecuteItemsFetch (items t) (itemParts t)]
      | DeleteResourceCollection \<Rightarrow> [ExecuteResourceCollectionDeletion]
      | InvalidateCacheForCollection \<Rightarrow> [ExecuteCacheInvalidation (collection t)]
      | ChangeReplay \<Rightarrow> [ExecuteChangeReplay]
      | RecursiveMoveReplay \<Rightarrow> [ExecuteRecursiveMoveReplay (argument t)]
      | SyncAllDone \<Rightarrow> [FullSyncComplete]
      | SyncCollectionTreeDone \<Rightarrow> [CollectionTreeSyncComplete]
      | Custom \<Rightarrow>
          (let tried = has_slot (receiver t) (methodName t);
               success = tried \<and> invoke_ok (receiver t) (methodName t)
           in (if tried then [InvokeSlotWithArgument (receiver t) (methodName t) (argument t)] else [])
              @ (if success then [] else [InvokeSlot (receiver t) (methodName t)]))
      | Invalid \<Rightarrow> [])"

definition executeNext :: "(nat option \<Rightarrow> string \<Rightarrow> bool) \<Rightarrow> (nat option \<Rightarrow> string \<Rightarrow> bool) \<Rightarrow> rsched \<Rightarrow> rsched" where
  "executeNext has_slot invoke_ok s =
     (if task_type (mCurrentTask s) \<noteq> Invalid \<or> isEmpty s then s
      else
        (let s = (case find (\<lambda>q. mTaskList s q \<noteq> []) all_queues of
                    None \<Rightarrow> s
                  | Some q \<Rightarrow> (set_queue q (tl (mTaskList s q)) s)
                      \<lparr>mCurrentTask := hd (mTaskList s q), mCurrentTasksQueue := Some q\<rparr>);
             s = (if tracker s then send [JobStarted (serial (mCurrentTask s))] s else s)
         in send (start_messages has_slot invoke_ok (mCurrentTask s)) s))"

text \<open>The timer fires: one of the pending calls of \<open>executeNext\<close> runs.\<close>

definition timer_fires :: "(nat option \<Rightarrow> string \<Rightarrow> bool) \<Rightarrow> (nat option \<Rightarrow> string \<Rightarrow> bool) \<Rightarrow> rsched \<Rightarrow> rsched" where
  "timer_fires has_slot invoke_ok s = executeNext has_slot invoke_ok (s\<lparr>timers := timers s - 1\<rparr>)"

text \<open>
  The loop of \<open>setOnline(false)\<close> over the user action queue: \<open>parentId\<close> and \<open>lastTask\<close> of the code, the
  tasks kept and the messages sent so far. After an erase the iterator stands on the next element, and
  with a job tracker its serial is read there; at the end of the queue that read is out of range
  (\<^const>\<open>None\<close>).
\<close>

definition job_canceled :: string where
  "job_canceled = ''Job canceled.''"

definition error_replies :: "task \<Rightarrow> message list" where
  "error_replies t = concat (map (reply_to job_canceled) (dbusMsgs t))"

fun abort_fetches :: "bool \<Rightarrow> task list \<Rightarrow> int \<Rightarrow> task \<Rightarrow> task list \<Rightarrow> message list
    \<Rightarrow> (task list \<times> message list) option" where
  "abort_fetches trk [] parentId lastTask kept ms = Some (kept, ms)"
| "abort_fetches trk (t # ts) parentId lastTask kept ms =
     (if task_type t = FetchItem then
        (let idx = variant_toLongLong (argument t);
             parentId = (if parentId = - 1 then idx else parentId);
             ms = (if idx \<noteq> parentId then ms @ error_replies lastTask else ms)
         in if trk \<and> ts = [] then None
            else abort_fetches trk ts idx t kept
                   (if trk then ms @ [JobEnded (serial (hd ts)) job_canceled] else ms))
      else abort_fetches trk ts parentId lastTask (kept @ [t]) ms)"

definition abort_running :: "rsched \<Rightarrow> rsched" where
  "abort_running s =
     (if task_type (mCurrentTask s) \<noteq> Invalid then
        (let t = mCurrentTask s; q = queueTypeForTaskType (task_type t) in
         (clearCurrentTask (set_queue q (t # mTaskList s q) s))\<lparr>mCurrentTasksQueue := None\<rparr>)
      else s)"

definition setOnline :: "bool \<Rightarrow> rsched \<Rightarrow> rsched option" where
  "setOnline state s =
     (if mOnline s = state then Some s
      else
        (let s = s\<lparr>mOnline := state\<rparr> in
         if mOnline s then Some (scheduleNext s)
         else
           (let s = abort_running s;
                q = queueTypeForTaskType FetchItem;
                (lastTask, s) = new_task s
            in case abort_fetches (tracker s) (mTaskList s q) (- 1) lastTask [] [] of
                 None \<Rightarrow> None
               | Some (kept, ms) \<Rightarrow> Some (send ms (set_queue q kept s)))))"

definition collectionRemoved :: "int \<Rightarrow> rsched \<Rightarrow> rsched" where
  "collectionRemoved col s =
     (if \<not> entity_isValid col then s
      else (let q = queueTypeForTaskType SyncCollection in
            set_queue q (filter (\<lambda>t. \<not> (task_type t = SyncCollection \<and> collection_eq (collection t) col))
              (mTaskList s q)) s))"

definition clear_queues :: "rsched \<Rightarrow> rsched" where
  "clear_queues s = s\<lparr>mTaskList := (\<lambda>_. [])\<rparr>"

definition clear :: "rsched \<Rightarrow> rsched" where
  "clear s = (clearCurrentTask (clear_queues s))\<lparr>mCurrentTasksQueue := None\<rparr>"

definition cancelQueues :: "rsched \<Rightarrow> rsched" where
  "cancelQueues s =
     clear_queues (if tracker s
       then send (map (\<lambda>t. JobEnded (serial t) []) (concat (map (mTaskList s) all_queues))) s else s)"

section \<open>The scheduler as a transition system\<close>

datatype sched_op =
    OpFullSync | OpTreeSync | OpTagSync | OpSync int | OpAttributesSync int
  | OpItemFetch int "string set" "dbus_msg list" int | OpItemsFetch "int list" "string set" dbus_msg
  | OpDeletion | OpInvalidation int | OpChangeReplay | OpMoveReplay int nat
  | OpFullSyncCompletion | OpTreeSyncCompletion | OpCustom "nat option" string qvariant schedule_priority
  | OpTaskDone | OpItemFetchDone string | OpDefer | OpSetOnline bool | OpCollectionRemoved int
  | OpClear | OpCancelQueues | OpAppendJob nat | OpJobFinished nat | OpClearJobs
  | OpTimer "nat option \<Rightarrow> string \<Rightarrow> bool" "nat option \<Rightarrow> string \<Rightarrow> bool"

inductive sched_step :: "rsched \<Rightarrow> sched_op \<Rightarrow> rsched \<Rightarrow> bool" where
  "sched_step s OpFullSync (scheduleFullSync s)"
| "sched_step s OpTreeSync (scheduleCollectionTreeSync s)"
| "sched_step s OpTagSync (scheduleTagSync s)"
| "sched_step s (OpSync c) (scheduleSync c s)"
| "sched_step s (OpAttributesSync c) (scheduleAttributesSync c s)"
| "sched_step s (OpItemFetch i ps ms p) (scheduleItemFetch i ps ms p s)"
| "sched_step s (OpItemsFetch is ps m) (scheduleItemsFetch is ps m s)"
| "sched_step s OpDeletion (scheduleResourceCollectionDeletion s)"
| "sched_step s (OpInvalidation c) (scheduleCacheInvalidation c s)"
| "sched_step s OpChangeReplay (scheduleChangeReplay s)"
| "sched_step s (OpMoveReplay c m) (scheduleMoveReplay c m s)"
| "sched_step s OpFullSyncCompletion (scheduleFullSyncCompletion s)"
| "sched_step s OpTreeSyncCompletion (scheduleCollectionTreeSyncCompletion s)"
| "sched_step s (OpCustom r m a p) (scheduleCustomTask r m a p s)"
| "sched_step s OpTaskDone (taskDone s)"
| "sched_step s (OpItemFetchDone e) (itemFetchDone e s)"
| "deferTask s = Some t \<Longrightarrow> sched_step s OpDefer t"
| "setOnline b s = Some t \<Longrightarrow> sched_step s (OpSetOnline b) t"
| "sched_step s (OpCollectionRemoved c) (collectionRemoved c s)"
| "sched_step s OpClear (clear s)"
| "sched_step s OpCancelQueues (cancelQueues s)"
| "sched_step s (OpAppendJob j) (appendCurrentTaskPendingJob j s)"
| "sched_step s (OpJobFinished j) (pendingJobFinished j s)"
| "sched_step s OpClearJobs (clearCurrentTaskPendingJobs s)"
| "0 < timers s \<Longrightarrow> sched_step s (OpTimer h i) (timer_fires h i s)"

definition sched_init :: "rsched \<Rightarrow> bool" where
  "sched_init s \<longleftrightarrow> (\<exists>con. s = init_sched con)"

section \<open>Invariant\<close>

text \<open>A task stands in the queue of its type, or is a custom task in one of the two custom queues; the
  current task knows its queue; and, online and idle, waiting tasks have a timer pending.\<close>

definition queue_ok :: "queue_type \<Rightarrow> task \<Rightarrow> bool" where
  "queue_ok q t \<longleftrightarrow> task_type t \<noteq> Invalid \<and>
     (queueTypeForTaskType (task_type t) = q
      \<or> (task_type t = Custom \<and> q \<in> {PrependTaskQueue, AfterChangeReplayQueue}))"

fun current_ok :: "queue_type option \<Rightarrow> task \<Rightarrow> bool" where
  "current_ok None t = (task_type t = Invalid)"
| "current_ok (Some q) t = queue_ok q t"

definition typed :: "rsched \<Rightarrow> bool" where
  "typed s \<longleftrightarrow> (\<forall>q. \<forall>t \<in> set (mTaskList s q). queue_ok q t)
     \<and> current_ok (mCurrentTasksQueue s) (mCurrentTask s)"

definition awake :: "rsched \<Rightarrow> bool" where
  "awake s \<longleftrightarrow> (mOnline s \<and> task_type (mCurrentTask s) = Invalid \<and> \<not> isEmpty s \<longrightarrow> 0 < timers s)"

definition sched_inv :: "rsched \<Rightarrow> bool" where
  "sched_inv s \<longleftrightarrow> typed s \<and> awake s"

lemma typed_cong:
  "mTaskList s = mTaskList t \<Longrightarrow> mCurrentTask s = mCurrentTask t \<Longrightarrow>
   mCurrentTasksQueue s = mCurrentTasksQueue t \<Longrightarrow> typed s = typed t"
  by (simp add: typed_def)

lemma frame_send [simp]:
  "mTaskList (send m s) = mTaskList s" "mCurrentTask (send m s) = mCurrentTask s"
  "mCurrentTasksQueue (send m s) = mCurrentTasksQueue s" "mOnline (send m s) = mOnline s"
  "timers (send m s) = timers s" "isEmpty (send m s) = isEmpty s" "tracker (send m s) = tracker s"
  by (simp_all add: send_def isEmpty_def)

lemma frame_track [simp]:
  "mTaskList (signalTaskToTracker t n s) = mTaskList s"
  "mCurrentTask (signalTaskToTracker t n s) = mCurrentTask s"
  "mCurrentTasksQueue (signalTaskToTracker t n s) = mCurrentTasksQueue s"
  "mTaskList (track_end t s) = mTaskList s" "mCurrentTask (track_end t s) = mCurrentTask s"
  "mCurrentTasksQueue (track_end t s) = mCurrentTasksQueue s"
  by (simp_all add: signalTaskToTracker_def track_end_def Let_def)

lemma frame_scheduleNext [simp]:
  "mTaskList (scheduleNext s) = mTaskList s" "mCurrentTask (scheduleNext s) = mCurrentTask s"
  "mCurrentTasksQueue (scheduleNext s) = mCurrentTasksQueue s" "mOnline (scheduleNext s) = mOnline s"
  by (simp_all add: scheduleNext_def)

lemma frame_set_queue [simp]:
  "mTaskList (set_queue q ts s) = (mTaskList s)(q := ts)"
  "mCurrentTask (set_queue q ts s) = mCurrentTask s"
  "mCurrentTasksQueue (set_queue q ts s) = mCurrentTasksQueue s"
  "mOnline (set_queue q ts s) = mOnline s" "timers (set_queue q ts s) = timers s"
  by (simp_all add: set_queue_def)

lemma queue_ok_type [simp]: "task_type t \<noteq> Invalid \<Longrightarrow> queue_ok (queueTypeForTaskType (task_type t)) t"
  by (simp add: queue_ok_def)

text \<open>Every operation that ends in \<open>scheduleNext\<close> only has to keep the types.\<close>

lemma scheduleNext_inv: "typed s \<Longrightarrow> sched_inv (scheduleNext s)"
proof -
  assume "typed s"
  then have "typed (scheduleNext s)" by (simp add: typed_def)
  moreover have "awake (scheduleNext s)" by (auto simp: awake_def scheduleNext_def isEmpty_def)
  ultimately show "sched_inv (scheduleNext s)" by (simp add: sched_inv_def)
qed

lemma typed_append:
  "typed s \<Longrightarrow> queue_ok q t \<Longrightarrow> typed (signalTaskToTracker t n (set_queue q (mTaskList s q @ [t]) s))"
  by (auto simp: typed_def)

lemma typed_prepend:
  "typed s \<Longrightarrow> queue_ok q t \<Longrightarrow> typed (signalTaskToTracker t n (set_queue q (t # mTaskList s q) s))"
  by (auto simp: typed_def)

lemma sched_inv_new_task: "sched_inv s \<Longrightarrow> new_task s = (t, s') \<Longrightarrow> sched_inv s' \<and> t = invalid_task (latestSerial s')"
  by (auto simp: new_task_def sched_inv_def typed_def awake_def isEmpty_def)

lemma enqueueTask_inv:
  assumes "sched_inv s" and "task_type t \<noteq> Invalid"
  shows "sched_inv (enqueueTask t n c s)"
proof -
  have "typed s" using assms(1) by (simp add: sched_inv_def)
  from scheduleNext_inv [OF typed_append [OF this queue_ok_type [OF assms(2)]]]
  show ?thesis using assms(1) by (simp add: enqueueTask_def Let_def)
qed

text \<open>The operations that enqueue through \<open>enqueueTask\<close>, all in one step: a fresh serial, a typed task.\<close>

lemmas enqueue_ops = scheduleFullSync_def scheduleCollectionTreeSync_def scheduleTagSync_def scheduleSync_def
  scheduleAttributesSync_def scheduleResourceCollectionDeletion_def scheduleCacheInvalidation_def
  scheduleChangeReplay_def scheduleMoveReplay_def

lemma sched_inv_serial [simp]: "sched_inv (s\<lparr>latestSerial := n\<rparr>) = sched_inv s"
  by (simp add: sched_inv_def typed_def awake_def isEmpty_def)

lemma typed_serial [simp]: "typed (s\<lparr>latestSerial := n\<rparr>) = typed s"
  by (simp add: typed_def)

lemma typed_timers [simp]: "typed (s\<lparr>timers := n\<rparr>) = typed s"
  by (simp add: typed_def)

lemma merge_msg_set: "u \<in> set (merge_msg t m ts) \<Longrightarrow> \<exists>v \<in> set ts. task_type v = task_type u"
  by (induction ts) (auto split: if_splits)

lemma merge_msg_Nil [simp]: "merge_msg t m ts = [] \<longleftrightarrow> ts = []"
  by (cases ts) auto

lemma queue_ok_cong: "task_type t = task_type u \<Longrightarrow> queue_ok q t = queue_ok q u"
  by (simp add: queue_ok_def)

lemma current_ok_cong: "task_type t = task_type u \<Longrightarrow> current_ok q t = current_ok q u"
  by (cases q) (simp_all add: queue_ok_def)

lemma isEmpty_iff: "isEmpty s \<longleftrightarrow> (\<forall>q. mTaskList s q = [])"
proof -
  have "(\<forall>q. P q) \<longleftrightarrow> list_all P all_queues" for P
    by (simp add: all_queues_def) (metis queue_type.exhaust)
  then show ?thesis by (simp add: isEmpty_def)
qed

lemma scheduleItemsFetch_inv: "sched_inv s \<Longrightarrow> sched_inv (scheduleItemsFetch is ps m s)"
proof -
  assume inv: "sched_inv s"
  let ?n = "latestSerial s + 1"
  let ?s = "s\<lparr>latestSerial := ?n\<rparr>"
  let ?t = "invalid_task ?n\<lparr>task_type := FetchItems, items := is, itemParts := ps\<rparr>"
  let ?q = "queueTypeForTaskType FetchItems"
  have typed: "typed ?s" and awake: "awake ?s" using inv by (simp_all add: sched_inv_def typed_def awake_def isEmpty_def)
  have "sched_inv (?s\<lparr>mCurrentTask := (mCurrentTask s)\<lparr>dbusMsgs := dbusMsgs (mCurrentTask s) @ [m]\<rparr>\<rparr>)"
    using typed awake current_ok_cong [of "(mCurrentTask s)\<lparr>dbusMsgs := dbusMsgs (mCurrentTask s) @ [m]\<rparr>"]
    by (simp add: sched_inv_def typed_def awake_def isEmpty_def)
  moreover have "sched_inv (set_queue ?q (merge_msg ?t m (mTaskList s ?q)) ?s)"
  proof -
    have "queue_ok ?q u" if u: "u \<in> set (merge_msg ?t m (mTaskList s ?q))" for u
    proof -
      obtain v where "v \<in> set (mTaskList s ?q)" "task_type v = task_type u"
        using merge_msg_set [OF u] by blast
      moreover from this(1) have "queue_ok ?q v" using typed by (simp add: typed_def)
      ultimately show ?thesis using queue_ok_cong by blast
    qed
    then show ?thesis using typed awake
      by (auto simp: sched_inv_def typed_def awake_def isEmpty_iff split: if_splits)
  qed
  moreover have "sched_inv (scheduleNext (signalTaskToTracker (?t\<lparr>dbusMsgs := [m]\<rparr>) ''FetchItems''
      (set_queue ?q (mTaskList ?s ?q @ [?t\<lparr>dbusMsgs := [m]\<rparr>]) ?s)))"
    by (intro scheduleNext_inv typed_append [OF typed]) (simp add: queue_ok_def)
  ultimately show ?thesis by (simp add: scheduleItemsFetch_def new_task_def Let_def)
qed

lemma append_uncompressed_inv:
  "ty \<noteq> Invalid \<Longrightarrow> sched_inv s \<Longrightarrow> sched_inv (append_uncompressed ty n s)"
  unfolding append_uncompressed_def new_task_def Let_def prod.case
  by (intro scheduleNext_inv typed_append) (simp_all add: sched_inv_def queue_ok_def)

lemma scheduleItemFetch_inv: "sched_inv s \<Longrightarrow> sched_inv (scheduleItemFetch i ps ms p s)"
  unfolding scheduleItemFetch_def new_task_def Let_def prod.case
  by (intro scheduleNext_inv typed_append) (simp_all add: sched_inv_def queue_ok_def)

lemma scheduleCustomTask_inv: "sched_inv s \<Longrightarrow> sched_inv (scheduleCustomTask r m a p s)"
proof -
  assume inv: "sched_inv s"
  let ?n = "latestSerial s + 1"
  let ?s = "s\<lparr>latestSerial := ?n\<rparr>"
  let ?t = "invalid_task ?n\<lparr>task_type := Custom, receiver := r, methodName := m, argument := a\<rparr>"
  have typed: "typed ?s" using inv by (simp add: sched_inv_def)
  have ok: "queue_ok GenericTaskQueue ?t" "queue_ok PrependTaskQueue ?t" "queue_ok AfterChangeReplayQueue ?t"
    by (simp_all add: queue_ok_def queueTypeForTaskType_def)
  note ends = scheduleNext_inv [OF typed_append [OF typed]] scheduleNext_inv [OF typed_prepend [OF typed]]
  show ?thesis
    using inv ends(1) [OF ok(1)] ends(1) [OF ok(3)] ends(2) [OF ok(2)]
    by (cases p) (simp_all add: scheduleCustomTask_def new_task_def Let_def)
qed

lemma taskDone_inv: "typed s \<Longrightarrow> sched_inv (taskDone s)"
  unfolding taskDone_def new_task_def Let_def prod.case
  by (rule scheduleNext_inv) (simp add: typed_def invalid_task_def)

lemma itemFetchDone_inv: "sched_inv s \<Longrightarrow> sched_inv (itemFetchDone e s)"
  unfolding itemFetchDone_def Let_def
  by (rule taskDone_inv) (auto simp: sched_inv_def typed_def sendDBusReplies_def dest: set_dropWhileD)

lemma frame_clearCurrentTask [simp]:
  "mTaskList (clearCurrentTask s) = mTaskList s" "task_type (mCurrentTask (clearCurrentTask s)) = Invalid"
  "mCurrentTasksQueue (clearCurrentTask s) = mCurrentTasksQueue s" "mOnline (clearCurrentTask s) = mOnline s"
  by (simp_all add: clearCurrentTask_def clearCurrentTaskPendingJobs_def new_task_def invalid_task_def)

lemma deferTask_inv:
  assumes "sched_inv s" and "deferTask s = Some t"
  shows "sched_inv t"
proof (cases "task_type (mCurrentTask s) = Invalid")
  case True
  then show ?thesis using assms by (simp add: deferTask_def)
next
  case False
  let ?c = "clearCurrentTask (track_end (mCurrentTask s) s)"
  obtain q where q: "mCurrentTasksQueue s = Some q"
      "t = scheduleNext (signalTaskToTracker (mCurrentTask s) ''DeferedTask''
             ((set_queue q (mCurrentTask s # mTaskList s q) ?c)\<lparr>mCurrentTasksQueue := None\<rparr>))"
    using assms(2) False by (auto simp: deferTask_def Let_def split: option.splits)
  have "typed ((set_queue q (mCurrentTask s # mTaskList s q) ?c)\<lparr>mCurrentTasksQueue := None\<rparr>)"
    using assms(1) q(1) by (auto simp: sched_inv_def typed_def)
  then show ?thesis unfolding q(2)
    by (intro scheduleNext_inv) (simp add: typed_def)
qed

text \<open>Under the types, the running task always has a queue to go back to.\<close>

lemma deferTask_total: "typed s \<Longrightarrow> \<exists>t. deferTask s = Some t"
  by (cases "mCurrentTasksQueue s") (auto simp: deferTask_def Let_def typed_def)

lemma executeNext_idle:
  assumes "task_type (mCurrentTask s) = Invalid" and "\<not> isEmpty s"
  obtains q where "find (\<lambda>q. mTaskList s q \<noteq> []) all_queues = Some q" and "mTaskList s q \<noteq> []"
    and "mTaskList (executeNext h i s) = (mTaskList s)(q := tl (mTaskList s q))"
    and "mCurrentTask (executeNext h i s) = hd (mTaskList s q)"
    and "mCurrentTasksQueue (executeNext h i s) = Some q"
proof -
  obtain q where q: "find (\<lambda>q. mTaskList s q \<noteq> []) all_queues = Some q"
    using assms(2) by (cases "find (\<lambda>q. mTaskList s q \<noteq> []) all_queues")
      (auto simp: isEmpty_def find_None_iff list_all_iff)
  moreover have "mTaskList s q \<noteq> []" using q by (auto simp: find_Some_iff)
  ultimately show ?thesis using that assms by (simp add: executeNext_def Let_def)
qed

lemma executeNext_skip: "task_type (mCurrentTask s) \<noteq> Invalid \<or> isEmpty s \<Longrightarrow> executeNext h i s = s"
  by (simp add: executeNext_def)

lemma timer_fires_inv:
  assumes "sched_inv s"
  shows "sched_inv (timer_fires h i s)"
proof (cases "task_type (mCurrentTask s) \<noteq> Invalid \<or> isEmpty s")
  case True
  then have "timer_fires h i s = s\<lparr>timers := timers s - 1\<rparr>"
    by (simp add: timer_fires_def executeNext_skip isEmpty_def)
  then show ?thesis using assms True by (auto simp: sched_inv_def awake_def isEmpty_def)
next
  case False
  let ?s = "s\<lparr>timers := timers s - 1\<rparr>"
  obtain q where q: "mTaskList ?s q \<noteq> []"
      "mTaskList (executeNext h i ?s) = (mTaskList ?s)(q := tl (mTaskList ?s q))"
      "mCurrentTask (executeNext h i ?s) = hd (mTaskList ?s q)"
      "mCurrentTasksQueue (executeNext h i ?s) = Some q"
    using False executeNext_idle [of ?s h i] by (auto simp: isEmpty_def)
  have "queue_ok q (hd (mTaskList s q))" using assms q(1) by (simp add: sched_inv_def typed_def)
  moreover have "\<forall>q'. \<forall>t \<in> set (((mTaskList s)(q := tl (mTaskList s q))) q'). queue_ok q' t"
    using assms q(1) by (auto simp: sched_inv_def typed_def dest: list.set_sel(2) [rotated])
  ultimately show ?thesis
    using q by (simp add: timer_fires_def sched_inv_def typed_def awake_def queue_ok_def)
qed

lemma abort_fetches_kept:
  "abort_fetches trk ts p l kept ms = Some (kept', ms') \<Longrightarrow>
   kept' = kept @ filter (\<lambda>t. task_type t \<noteq> FetchItem) ts"
  by (induction trk ts p l kept ms rule: abort_fetches.induct)
    (auto simp: Let_def split: if_splits)

lemma setOnline_inv:
  assumes "sched_inv s" and "setOnline b s = Some t"
  shows "sched_inv t"
proof (cases "mOnline s = b \<or> b")
  case True
  then have "t = s \<or> t = scheduleNext (s\<lparr>mOnline := True\<rparr>)"
    using assms(2) by (auto simp: setOnline_def split: if_splits)
  moreover have "typed (s\<lparr>mOnline := True\<rparr>)" using assms(1) by (simp add: sched_inv_def typed_def)
  ultimately show ?thesis using assms(1) scheduleNext_inv by blast
next
  case False
  let ?a = "abort_running (s\<lparr>mOnline := False\<rparr>)"
  let ?q = "queueTypeForTaskType FetchItem"
  have typed: "typed ?a"
    using assms(1) by (auto simp: abort_running_def Let_def sched_inv_def typed_def)
  have off: "\<not> mOnline ?a" by (simp add: abort_running_def Let_def)
  obtain kept ms where res: "abort_fetches (tracker ?a) (mTaskList ?a ?q) (- 1) (invalid_task (latestSerial ?a + 1)) [] []
        = Some (kept, ms)" "t = send ms (set_queue ?q kept (?a\<lparr>latestSerial := latestSerial ?a + 1\<rparr>))"
    using assms(2) False
    by (auto simp: setOnline_def new_task_def Let_def split: if_splits option.splits prod.splits)
  from abort_fetches_kept [OF res(1)] show ?thesis
    using typed off unfolding res(2) by (auto simp: sched_inv_def typed_def awake_def)
qed

lemma collectionRemoved_inv: "sched_inv s \<Longrightarrow> sched_inv (collectionRemoved c s)"
  by (auto simp: collectionRemoved_def Let_def sched_inv_def typed_def awake_def isEmpty_iff
      dest: arg_cong [of _ _ "filter _"] split: if_splits) (metis filter.simps(1))

lemma clear_inv: "sched_inv (clear s)" "sched_inv s \<Longrightarrow> sched_inv (cancelQueues s)"
  by (simp_all add: clear_def cancelQueues_def clear_queues_def sched_inv_def typed_def awake_def isEmpty_def
      all_queues_def)

lemma pending_jobs_inv:
  "sched_inv s \<Longrightarrow> sched_inv (s\<lparr>mCurrentTaskPendingJobs := js\<rparr>)"
  by (simp add: sched_inv_def typed_def awake_def isEmpty_def)

lemma sched_step_inv: "sched_step s l t \<Longrightarrow> sched_inv s \<Longrightarrow> sched_inv t"
proof (induction rule: sched_step.induct)
  case (15 s)
  then show ?case by (simp add: taskDone_inv sched_inv_def [of s])
qed (auto simp: enqueue_ops new_task_def scheduleFullSyncCompletion_def scheduleCollectionTreeSyncCompletion_def
      clearCurrentTaskPendingJobs_def appendCurrentTaskPendingJob_def pendingJobFinished_def
      intro!: enqueueTask_inv append_uncompressed_inv scheduleItemFetch_inv scheduleItemsFetch_inv
        scheduleCustomTask_inv itemFetchDone_inv timer_fires_inv collectionRemoved_inv clear_inv pending_jobs_inv
      intro: deferTask_inv setOnline_inv)

lemma sched_init_inv: "sched_init s \<Longrightarrow> sched_inv s"
  by (auto simp: sched_init_def init_sched_def invalid_task_def sched_inv_def typed_def awake_def isEmpty_iff)

interpretation scheduler: inductive_invariant sched_init sched_step sched_inv
  by unfold_locales (auto intro: sched_init_inv sched_step_inv)

lemma reach_init_sched: "reach sched_init sched_step (init_sched c)"
  by (rule reach.start) (auto simp: sched_init_def)

section \<open>What the operations do to the tasks\<close>

definition running :: "rsched \<Rightarrow> task multiset" where
  "running s = (if task_type (mCurrentTask s) = Invalid then {#} else {#mCurrentTask s#})"

definition waiting :: "rsched \<Rightarrow> task multiset" where
  "waiting s = (\<Sum>q \<leftarrow> all_queues. mset (mTaskList s q))"

definition prio :: "queue_type \<Rightarrow> nat" where
  "prio q = (case q of PrependTaskQueue \<Rightarrow> 0 | ChangeReplayQueue \<Rightarrow> 1 | AfterChangeReplayQueue \<Rightarrow> 2
     | UserActionQueue \<Rightarrow> 3 | GenericTaskQueue \<Rightarrow> 4)"

lemma waiting_upd: "waiting s = mset (mTaskList s q) + R \<Longrightarrow> mTaskList t = (mTaskList s)(q := ts) \<Longrightarrow>
   waiting t = mset ts + R"
  by (cases q) (simp_all add: waiting_def all_queues_def)

lemma waiting_split: "\<exists>R. waiting s = mset (mTaskList s q) + R"
  by (cases q) (auto simp: waiting_def all_queues_def intro: exI [of _ "_ :: task multiset"])

lemma deferTask_tasks:
  assumes "typed s" and "deferTask s = Some t"
  shows "running t + waiting t = running s + waiting s \<and> mCurrentTasksQueue t = None"
proof (cases "task_type (mCurrentTask s) = Invalid")
  case True
  then show ?thesis using assms by (cases "mCurrentTasksQueue s") (auto simp: deferTask_def typed_def queue_ok_def)
next
  case False
  then obtain q where q: "mTaskList t = (mTaskList s)(q := mCurrentTask s # mTaskList s q)"
      "task_type (mCurrentTask t) = Invalid" "mCurrentTasksQueue t = None"
    using assms(2) by (auto simp: deferTask_def Let_def split: option.splits)
  obtain R where "waiting s = mset (mTaskList s q) + R" using waiting_split by blast
  with waiting_upd [OF this q(1)] show ?thesis using q(2,3) False by (simp add: running_def)
qed

lemma first_queue:
  assumes "find (\<lambda>q. mTaskList s q \<noteq> []) all_queues = Some q" and "prio q' < prio q"
  shows "mTaskList s q' = []"
  using assms by (cases q'; cases q) (auto simp: all_queues_def prio_def split: if_splits)

section \<open>Series of item fetches\<close>

definition is_reply :: "message \<Rightarrow> bool" where
  "is_reply m = (case m of DBusReply _ \<Rightarrow> True | DBusErrorReply _ _ \<Rightarrow> True | DBusEmptyMessage \<Rightarrow> True | _ \<Rightarrow> False)"

definition replies :: "rsched \<Rightarrow> message list" where
  "replies s = filter is_reply (sent s)"

definition in_series :: "int \<Rightarrow> dbus_msg list \<Rightarrow> task \<Rightarrow> bool" where
  "in_series p msgs t \<longleftrightarrow> task_type t = FetchItem \<and> argument t = LongLong p \<and> dbusMsgs t = msgs"

text \<open>One round: the fetch of the current item succeeds, then the pending timer starts the next task.\<close>

definition fetch_round :: "rsched \<Rightarrow> rsched" where
  "fetch_round s = timer_fires (\<lambda>_ _. False) (\<lambda>_ _. False) (itemFetchDone [] s)"

lemma replies_scheduleNext [simp]: "replies (scheduleNext s) = replies s"
  by (simp add: scheduleNext_def replies_def)

lemma replies_taskDone [simp]: "replies (taskDone s) = replies s"
  by (simp add: taskDone_def new_task_def Let_def track_end_def replies_def send_def is_reply_def scheduleNext_def)

lemma replies_executeNext [simp]: "replies (executeNext h i s) = replies s"
proof -
  have "filter is_reply (start_messages h i t) = []" for t
    by (simp add: start_messages_def is_reply_def Let_def split: task_type.split list.split)
  then show ?thesis
    by (simp add: executeNext_def Let_def replies_def send_def is_reply_def set_queue_def split: option.split)
qed

lemma replies_timer [simp]: "replies (timer_fires h i s) = replies s"
  by (simp add: timer_fires_def) (simp add: replies_def)

lemma filter_replies: "filter is_reply (concat (map (reply_to e) ms)) = concat (map (reply_to e) ms)"
  by (induction ms) (auto simp: reply_to_def is_reply_def)

lemma frame_taskDone [simp]:
  "mTaskList (taskDone s) = mTaskList s" "task_type (mCurrentTask (taskDone s)) = Invalid"
  by (simp_all add: taskDone_def new_task_def Let_def invalid_task_def)

lemma user_queue: "queueTypeForTaskType FetchItem = UserActionQueue"
  by (simp add: queueTypeForTaskType_def)

text \<open>A successful fetch with more of the same series waiting sends nothing; the last one replies.\<close>

lemma itemFetchDone_more:
  assumes "in_series p ms (mCurrentTask s)" and "mTaskList s UserActionQueue = t # ts" and "in_series p ms' t"
  shows "replies (itemFetchDone [] s) = replies s \<and> mTaskList (itemFetchDone [] s) = mTaskList s
    \<and> task_type (mCurrentTask (itemFetchDone [] s)) = Invalid"
  using assms by (simp add: itemFetchDone_def in_series_def user_queue Let_def)

lemma itemFetchDone_last:
  assumes "in_series p ms (mCurrentTask s)"
    and "mTaskList s UserActionQueue = [] \<or> task_type (hd (mTaskList s UserActionQueue)) \<noteq> FetchItem
         \<or> argument (hd (mTaskList s UserActionQueue)) = LongLong p' \<and> p' \<noteq> p"
  shows "replies (itemFetchDone [] s) = replies s @ concat (map (reply_to []) ms)
    \<and> mTaskList (itemFetchDone [] s) = mTaskList s"
  using assms filter_replies [of "[]" ms]
  by (auto simp: itemFetchDone_def in_series_def user_queue Let_def sendDBusReplies_def)
    (auto simp: replies_def send_def set_queue_def)

lemma fetch_round_next:
  assumes "in_series p ms (mCurrentTask s)" and "mTaskList s UserActionQueue = t # ts" and "in_series p ms' t"
    and "\<forall>q. prio q < 3 \<longrightarrow> mTaskList s q = []"
  shows "mCurrentTask (fetch_round s) = t"
    and "mTaskList (fetch_round s) = (mTaskList s)(UserActionQueue := ts)"
    and "replies (fetch_round s) = replies s"
proof -
  let ?d = "itemFetchDone [] s"
  let ?t = "?d\<lparr>timers := timers ?d - 1\<rparr>"
  note fetched = itemFetchDone_more [OF assms(1-3)]
  have higher: "mTaskList ?t q = []" if "q \<in> {PrependTaskQueue, ChangeReplayQueue, AfterChangeReplayQueue}" for q
    using fetched assms(4) that by (auto simp: prio_def)
  then have find: "find (\<lambda>q. mTaskList ?t q \<noteq> []) all_queues = Some UserActionQueue"
    using fetched assms(2) by (simp add: all_queues_def)
  have idle: "task_type (mCurrentTask ?t) = Invalid" "\<not> isEmpty ?t"
    using fetched assms(2) by (auto simp: isEmpty_iff intro!: exI [of _ UserActionQueue])
  obtain q where q: "find (\<lambda>q. mTaskList ?t q \<noteq> []) all_queues = Some q"
      "mTaskList (fetch_round s) = (mTaskList ?t)(q := tl (mTaskList ?t q))"
      "mCurrentTask (fetch_round s) = hd (mTaskList ?t q)"
    using executeNext_idle [OF idle] unfolding fetch_round_def timer_fires_def by metis
  have "q = UserActionQueue" using q(1) find by simp
  then show "mCurrentTask (fetch_round s) = t"
    and "mTaskList (fetch_round s) = (mTaskList s)(UserActionQueue := ts)"
    using q(2,3) fetched assms(2) by simp_all
  show "replies (fetch_round s) = replies s" using fetched by (simp add: fetch_round_def)
qed

lemma fetch_series:
  assumes "in_series p ms (mCurrentTask s)" and "mTaskList s UserActionQueue = ts @ rest"
    and "\<forall>t \<in> set ts. in_series p ms t"
    and "rest = [] \<or> task_type (hd rest) \<noteq> FetchItem \<or> argument (hd rest) = LongLong p' \<and> p' \<noteq> p"
    and "\<forall>q. prio q < 3 \<longrightarrow> mTaskList s q = []"
  shows "replies (itemFetchDone [] ((fetch_round ^^ length ts) s)) = replies s @ concat (map (reply_to []) ms)
    \<and> mTaskList (itemFetchDone [] ((fetch_round ^^ length ts) s)) UserActionQueue = rest"
  using assms
proof (induction ts arbitrary: s)
  case Nil
  then show ?case using itemFetchDone_last [of p ms s p'] by simp
next
  case (Cons t ts)
  have t: "in_series p ms t" and ts: "\<forall>t \<in> set ts. in_series p ms t" using Cons.prems(3) by auto
  have q: "mTaskList s UserActionQueue = t # (ts @ rest)" using Cons.prems(2) by simp
  note next_task = fetch_round_next [OF Cons.prems(1) q t Cons.prems(5)]
  have "replies (itemFetchDone [] ((fetch_round ^^ length ts) (fetch_round s)))
        = replies (fetch_round s) @ concat (map (reply_to []) ms)
      \<and> mTaskList (itemFetchDone [] ((fetch_round ^^ length ts) (fetch_round s))) UserActionQueue = rest"
  proof (rule Cons.IH)
    show "in_series p ms (mCurrentTask (fetch_round s))" using next_task(1) t by simp
    show "mTaskList (fetch_round s) UserActionQueue = ts @ rest" using next_task(2) by simp
    show "\<forall>q. prio q < 3 \<longrightarrow> mTaskList (fetch_round s) q = []"
      using next_task(2) Cons.prems(5) by (auto simp: prio_def)
  qed (use ts Cons.prems(4) in auto)
  then show ?case using next_task(3) by (simp add: funpow_swap1)
qed

section \<open>Going offline\<close>

lemma abort_fetches_one_series:
  "\<forall>t \<in> set ts. task_type t = FetchItem \<and> variant_toLongLong (argument t) = p \<Longrightarrow> k = - 1 \<or> k = p \<Longrightarrow>
   abort_fetches False ts k l kept ms = Some (kept, ms)"
  by (induction ts arbitrary: k l) auto

lemma abort_fetches_tracker:
  "task_type t = FetchItem \<Longrightarrow> abort_fetches True (ts @ [t]) k l kept ms = None"
  by (induction ts arbitrary: k l kept ms) (auto simp: Let_def)

section \<open>Properties\<close>

text \<open>(C27) The scheduler never stalls: in every reachable state that is online, idle and has tasks
  waiting, a call of \<open>executeNext\<close> is pending, and when it runs it starts a task.\<close>

theorem scheduler_never_stalls:
  assumes "reach sched_init sched_step s" and "mOnline s" and "task_type (mCurrentTask s) = Invalid"
    and "\<not> isEmpty s"
  shows "0 < timers s \<and> task_type (mCurrentTask (timer_fires h i s)) \<noteq> Invalid"
proof -
  have inv: "sched_inv s" by (rule scheduler.reach_inv [OF assms(1)])
  let ?s = "s\<lparr>timers := timers s - 1\<rparr>"
  obtain q where q: "mTaskList ?s q \<noteq> []" "mCurrentTask (executeNext h i ?s) = hd (mTaskList ?s q)"
    using executeNext_idle [of ?s h i] assms(3,4) by (auto simp: isEmpty_def)
  then have "queue_ok q (mCurrentTask (timer_fires h i s))"
    using inv by (simp add: timer_fires_def sched_inv_def typed_def)
  then show ?thesis using inv assms(2-4) by (simp add: sched_inv_def awake_def queue_ok_def)
qed

theorem scheduler_never_stalls_witness:
  "0 < timers (scheduleFullSync ((init_sched False)\<lparr>mOnline := True\<rparr>))"
proof -
  let ?on = "(init_sched False)\<lparr>mOnline := True\<rparr>"
  have "setOnline True (init_sched False) = Some ?on"
    by (simp add: setOnline_def init_sched_def scheduleNext_def isEmpty_def all_queues_def Let_def)
  then have "sched_step (init_sched False) (OpSetOnline True) ?on" by (rule sched_step.intros)
  then have "reach sched_init sched_step ?on" by (rule reach.next_state [OF reach_init_sched])
  then have r: "reach sched_init sched_step (scheduleFullSync ?on)"
    by (rule reach.next_state) (rule sched_step.intros)
  show ?thesis
    using scheduler_never_stalls [OF r, of "\<lambda>_ _. False" "\<lambda>_ _. False"]
    by (simp add: scheduleFullSync_def new_task_def init_sched_def enqueueTask_def Let_def queue_contains_def
        task_eq_def invalid_task_def scheduleNext_def signalTaskToTracker_def set_queue_def isEmpty_def
        all_queues_def queueTypeForTaskType_def)
qed

text \<open>Deferring never fails and never loses a task: in every reachable state the running task has a
  queue to return to, and the multiset of running and waiting tasks stays the same.\<close>

theorem defer_keeps_tasks:
  assumes "reach sched_init sched_step s"
  shows "\<exists>t. deferTask s = Some t \<and> running t + waiting t = running s + waiting s"
proof -
  have "typed s" using scheduler.reach_inv [OF assms] by (simp add: sched_inv_def)
  then show ?thesis using deferTask_total deferTask_tasks by blast
qed

theorem defer_keeps_tasks_witness:
  "\<exists>t. deferTask (init_sched True) = Some t
     \<and> running t + waiting t = running (init_sched True) + waiting (init_sched True)"
  by (rule defer_keeps_tasks) (rule reach_init_sched)

text \<open>Priorities: when \<open>executeNext\<close> starts a task it is the head of a queue, every queue of
  higher priority is empty, and so nothing is pulled from the backend while a change is to be replayed.\<close>

theorem change_replay_first:
  assumes "reach sched_init sched_step s" and "task_type (mCurrentTask s) = Invalid" and "\<not> isEmpty s"
  shows "\<exists>q. mTaskList s q \<noteq> [] \<and> mCurrentTask (executeNext h i s) = hd (mTaskList s q)
    \<and> (\<forall>q'. prio q' < prio q \<longrightarrow> mTaskList s q' = [])
    \<and> (queueTypeForTaskType (task_type (mCurrentTask (executeNext h i s))) = GenericTaskQueue
       \<and> task_type (mCurrentTask (executeNext h i s)) \<noteq> Custom \<longrightarrow> mTaskList s ChangeReplayQueue = [])"
proof -
  obtain q where q: "find (\<lambda>q. mTaskList s q \<noteq> []) all_queues = Some q" "mTaskList s q \<noteq> []"
      "mCurrentTask (executeNext h i s) = hd (mTaskList s q)"
    using executeNext_idle [OF assms(2,3)] by metis
  have "queue_ok q (hd (mTaskList s q))"
    using scheduler.reach_inv [OF assms(1)] q(2) by (simp add: sched_inv_def typed_def)
  then show ?thesis
    using q first_queue [OF q(1)] by (intro exI [of _ q]) (auto simp: queue_ok_def prio_def)
qed

theorem change_replay_first_witness:
  "\<exists>q. mTaskList (scheduleChangeReplay (scheduleFullSync (init_sched False))) q \<noteq> []
    \<and> mCurrentTask (executeNext (\<lambda>_ _. False) (\<lambda>_ _. False) (scheduleChangeReplay (scheduleFullSync (init_sched False))))
      = hd (mTaskList (scheduleChangeReplay (scheduleFullSync (init_sched False))) q)"
proof -
  let ?s = "scheduleChangeReplay (scheduleFullSync (init_sched False))"
  have "reach sched_init sched_step (init_sched False)" by (rule reach_init_sched)
  then have "reach sched_init sched_step (scheduleFullSync (init_sched False))"
    by (rule reach.next_state) (rule sched_step.intros)
  then have r: "reach sched_init sched_step ?s" by (rule reach.next_state) (rule sched_step.intros)
  have "task_type (mCurrentTask ?s) = Invalid" "\<not> isEmpty ?s"
    by (simp_all add: scheduleChangeReplay_def scheduleFullSync_def new_task_def init_sched_def enqueueTask_def Let_def
        queue_contains_def task_eq_def invalid_task_def scheduleNext_def signalTaskToTracker_def set_queue_def
        isEmpty_def all_queues_def queueTypeForTaskType_def)
  from change_replay_first [OF r this, of "\<lambda>_ _. False" "\<lambda>_ _. False"] show ?thesis by blast
qed

text \<open>A series of item fetches with one parent is answered exactly once: as long as all fetches
  succeed and nothing of higher priority arrives, no reply is sent before the last task of the series
  and then one per D-Bus message; the tasks behind the series stay queued.\<close>

theorem fetch_series_replied_once:
  assumes "in_series p ms (mCurrentTask s)" and "mTaskList s UserActionQueue = ts @ rest"
    and "\<forall>t \<in> set ts. in_series p ms t"
    and "rest = [] \<or> task_type (hd rest) \<noteq> FetchItem \<or> argument (hd rest) = LongLong p' \<and> p' \<noteq> p"
    and "\<forall>q. prio q < 3 \<longrightarrow> mTaskList s q = []"
  shows "replies (itemFetchDone [] ((fetch_round ^^ length ts) s)) = replies s @ concat (map (reply_to []) ms)
    \<and> mTaskList (itemFetchDone [] ((fetch_round ^^ length ts) s)) UserActionQueue = rest"
  using assms by (rule fetch_series)

definition fetch_task :: "int \<Rightarrow> dbus_msg list \<Rightarrow> task" where
  "fetch_task i ms = (invalid_task i)\<lparr>task_type := FetchItem, items := [i], dbusMsgs := ms, argument := LongLong 7\<rparr>"

definition fetching :: "dbus_msg list \<Rightarrow> rsched" where
  "fetching ms = (init_sched False)\<lparr>mOnline := True, mCurrentTask := fetch_task 1 ms,
     mCurrentTasksQueue := Some UserActionQueue, mTaskList := (\<lambda>_. [])(UserActionQueue := [fetch_task 2 ms])\<rparr>"

theorem fetch_series_replied_once_witness:
  "replies (itemFetchDone [] ((fetch_round ^^ length [fetch_task 2 [\<lparr>msg_id = 1, msg_member = ''requestItemDelivery''\<rparr>]])
      (fetching [\<lparr>msg_id = 1, msg_member = ''requestItemDelivery''\<rparr>])))
    = replies (fetching [\<lparr>msg_id = 1, msg_member = ''requestItemDelivery''\<rparr>])
      @ [DBusReply \<lparr>msg_id = 1, msg_member = ''requestItemDelivery''\<rparr>]"
  using fetch_series_replied_once [of 7 "[\<lparr>msg_id = 1, msg_member = ''requestItemDelivery''\<rparr>]"
      "fetching [\<lparr>msg_id = 1, msg_member = ''requestItemDelivery''\<rparr>]"
      "[fetch_task 2 [\<lparr>msg_id = 1, msg_member = ''requestItemDelivery''\<rparr>]]" "[]" 0]
  by (simp add: fetching_def fetch_task_def in_series_def prio_def reply_to_def split: queue_type.split)

text \<open>Going offline drops the pending item fetches of a single series without answering their
  callers: nothing is sent, and the tasks are gone.\<close>

theorem offline_leaves_callers_waiting:
  assumes "mOnline s" and "task_type (mCurrentTask s) = Invalid" and "\<not> tracker s"
    and "\<forall>t \<in> set (mTaskList s UserActionQueue). task_type t = FetchItem \<and> variant_toLongLong (argument t) = p"
  shows "\<exists>t. setOnline False s = Some t \<and> mTaskList t UserActionQueue = [] \<and> sent t = sent s"
  using assms abort_fetches_one_series [OF assms(4), of "- 1" "invalid_task (latestSerial s + 1)" "[]" "[]"]
  by (simp add: setOnline_def abort_running_def new_task_def user_queue Let_def send_def set_queue_def)

theorem offline_leaves_callers_waiting_witness:
  "\<exists>t. setOnline False ((fetching [\<lparr>msg_id = 1, msg_member = ''requestItemDelivery''\<rparr>])\<lparr>mCurrentTask := invalid_task 0\<rparr>)
      = Some t \<and> mTaskList t UserActionQueue = []
    \<and> sent t = sent ((fetching [\<lparr>msg_id = 1, msg_member = ''requestItemDelivery''\<rparr>])\<lparr>mCurrentTask := invalid_task 0\<rparr>)"
  by (rule offline_leaves_callers_waiting [where p = 7])
    (simp_all add: fetching_def fetch_task_def init_sched_def invalid_task_def)

text \<open>With a job tracker running, going offline with a single item fetch last in the user queue reads
  the queue past its end.\<close>

theorem offline_with_tracker_reads_past_end:
  assumes "mOnline s" and "task_type (mCurrentTask s) = Invalid" and "tracker s"
    and "mTaskList s UserActionQueue = ts @ [t]" and "task_type t = FetchItem"
  shows "setOnline False s = None"
  using assms abort_fetches_tracker [OF assms(5), of ts "- 1" "invalid_task (latestSerial s + 1)" "[]" "[]"]
  by (simp add: setOnline_def abort_running_def new_task_def user_queue Let_def)

theorem offline_with_tracker_reads_past_end_witness:
  "setOnline False ((fetching [])\<lparr>mCurrentTask := invalid_task 0, tracker := True\<rparr>) = None"
  by (rule offline_with_tracker_reads_past_end [where ts = "[]" and t = "fetch_task 2 []"])
    (simp_all add: fetching_def fetch_task_def init_sched_def invalid_task_def)

text \<open>A failed item fetch discards user tasks that have nothing to do with it: tasks of other types
  at the head of the user queue are erased, and their callers get no reply.\<close>

theorem fetch_error_drops_other_tasks:
  assumes "task_type (mCurrentTask s) = FetchItem" and "msg \<noteq> []"
    and "\<forall>t \<in> set (mTaskList s UserActionQueue). task_type t \<noteq> FetchItem"
  shows "mTaskList (itemFetchDone msg s) UserActionQueue = []
    \<and> replies (itemFetchDone msg s) = replies s @ map (\<lambda>m. DBusErrorReply m msg) (dbusMsgs (mCurrentTask s))"
proof -
  have "dropWhile (\<lambda>t. task_type t \<noteq> FetchItem \<or> X t) (mTaskList s UserActionQueue) = []" for X
    using assms(3) by simp
  moreover have "concat (map (reply_to msg) ms) = map (\<lambda>m. DBusErrorReply m msg) ms" for ms
    using assms(2) by (induction ms) (auto simp: reply_to_def)
  ultimately show ?thesis
    using assms(1,2) filter_replies [of msg "dbusMsgs (mCurrentTask s)"]
    by (auto simp: itemFetchDone_def user_queue Let_def sendDBusReplies_def)
      (auto simp: replies_def send_def set_queue_def)
qed

theorem fetch_error_drops_other_tasks_witness:
  "mTaskList (itemFetchDone ''failed'' ((fetching [])\<lparr>mTaskList := (\<lambda>_. [])
      (UserActionQueue := [(invalid_task 3)\<lparr>task_type := SyncCollectionAttributes, collection := 5\<rparr>])\<rparr>)) UserActionQueue = []"
  using fetch_error_drops_other_tasks [of "(fetching [])\<lparr>mTaskList := (\<lambda>_. [])
      (UserActionQueue := [(invalid_task 3)\<lparr>task_type := SyncCollectionAttributes, collection := 5\<rparr>])\<rparr>" "''failed''"]
  by (simp add: fetching_def fetch_task_def)

end
