(* ===== verification/Hash.thy ===== *)
theory Hash
  imports "HOL-Library.Multiset"
begin

text \<open>
  The hash maps of the server's managers (\<open>QHash\<close>, \<open>std::unordered_map\<close>) as association lists with distinct keys,
  for the components that move the values of a hash around: removal, insertion, and \<open>m[k]\<close> changed in place.
\<close>

section \<open>Operations\<close>

definition hash_remove :: "'k \<Rightarrow> ('k \<times> 'v) list \<Rightarrow> ('k \<times> 'v) list" where
  "hash_remove k m = filter (\<lambda>p. fst p \<noteq> k) m"

definition hash_insert :: "'k \<Rightarrow> 'v \<Rightarrow> ('k \<times> 'v) list \<Rightarrow> ('k \<times> 'v) list" where
  "hash_insert k v m = hash_remove k m @ [(k, v)]"

text \<open>\<open>m[k]\<close> of \<open>std::unordered_map\<close>: inserts the empty list when the key is new; then the value is
  changed in place.\<close>

fun at_key :: "'k \<Rightarrow> ('a list \<Rightarrow> 'a list) \<Rightarrow> ('k \<times> 'a list) list \<Rightarrow> ('k \<times> 'a list) list" where
  "at_key k f [] = [(k, f [])]"
| "at_key k f ((k', xs) # m) = (if k' = k then (k, f xs) # m else (k', xs) # at_key k f m)"

definition value_at :: "'k \<Rightarrow> ('k \<times> 'a list) list \<Rightarrow> 'a list" where
  "value_at k m = (case map_of m k of None \<Rightarrow> [] | Some xs \<Rightarrow> xs)"

section \<open>Lemmas\<close>

lemma at_key_keys: "set (map fst (at_key k f m)) = insert k (set (map fst m))"
  by (induction k f m rule: at_key.induct) auto

lemma at_key_distinct: "distinct (map fst m) \<Longrightarrow> distinct (map fst (at_key k f m))"
proof (induction k f m rule: at_key.induct)
  case (2 k f k' xs m)
  then show ?case using at_key_keys [of k f m] by auto
qed simp

lemma at_key_mem:
  "distinct (map fst m) \<Longrightarrow> (r, qs) \<in> set (at_key k f m) \<Longrightarrow>
   (r = k \<and> qs = f (value_at k m)) \<or> (r \<noteq> k \<and> (r, qs) \<in> set m)"
proof (induction k f m rule: at_key.induct)
  case (2 k f k' xs m)
  then show ?case by (cases "k' = k") (force simp: value_at_def)+
qed (simp add: value_at_def)

lemma value_at_mem: "q \<in> set (value_at k m) \<Longrightarrow> \<exists>qs. (k, qs) \<in> set m \<and> q \<in> set qs"
  by (cases "map_of m k") (auto simp: value_at_def dest: map_of_SomeD)

lemma at_key_concat:
  "distinct (map fst m) \<Longrightarrow>
   mset (concat (map snd (at_key k f m))) + mset (value_at k m) = mset (concat (map snd m)) + mset (f (value_at k m))"
proof (induction k f m rule: at_key.induct)
  case (2 k f k' xs m)
  then show ?case by (auto simp: value_at_def)
qed (simp add: value_at_def)

lemma value_at_key_fold: "value_at j (at_key k f m) = (if j = k then f (value_at k m) else value_at j m)"
  by (induction k f m rule: at_key.induct) (auto simp: value_at_def)

lemma hash_remove_id: "k \<notin> fst ` set m \<Longrightarrow> hash_remove k m = m"
  by (force simp: hash_remove_def filter_id_conv)

lemma hash_insert_new: "k \<notin> fst ` set m \<Longrightarrow> hash_insert k v m = m @ [(k, v)]"
  by (simp add: hash_insert_def hash_remove_id)

lemma hash_remove_mem [simp]: "p \<in> set (hash_remove k m) \<longleftrightarrow> p \<in> set m \<and> fst p \<noteq> k"
  by (auto simp: hash_remove_def)

lemma value_at_remove [simp]: "value_at j (hash_remove k m) = (if j = k then [] else value_at j m)"
  by (induction m) (auto simp: value_at_def hash_remove_def)

lemma value_at_insert [simp]: "value_at j (hash_insert k xs m) = (if j = k then xs else value_at j m)"
proof -
  have "map_of (hash_remove k m) k = None" by (auto simp: map_of_eq_None_iff)
  moreover have "j \<noteq> k \<Longrightarrow> map_of (hash_remove k m) j = map_of m j" by (induction m) (auto simp: hash_remove_def)
  ultimately show ?thesis by (auto simp: value_at_def hash_insert_def map_add_def split: option.splits)
qed

lemma hash_remove_mset:
  "distinct (map fst m) \<Longrightarrow> (k, v) \<in> set m \<Longrightarrow> mset m = add_mset (k, v) (mset (hash_remove k m))"
proof (induction m)
  case (Cons p m)
  show ?case
  proof (cases "fst p = k")
    case True
    then have "k \<notin> fst ` set m" using Cons.prems(1) by auto
    moreover from this have "p = (k, v)" using Cons.prems(2) by force
    ultimately show ?thesis using hash_remove_id [of k m] by (simp add: hash_remove_def)
  next
    case False
    then show ?thesis using Cons by (auto simp: hash_remove_def)
  qed
qed simp

end
