(* ===== verification/ItemRetrieval.thy ===== *)
theory ItemRetrieval
  imports Prelude Transition Hash
begin

text \<open>
  \<open>src/server/storage/itemretrievalmanager.cpp\<close> and \<open>itemretrievaljob.cpp\<close>: requests for item payload
  are queued per resource, one job per resource runs at a time, and a finished job also answers the
  queued requests it covers. Requests arrive from any thread; everything else runs in the retrieval
  thread. The hash maps are association lists with distinct keys, whose order stands for the iteration
  order; the step \<open>Rehash\<close> lets it change at any time.
\<close>

section \<open>State\<close>

record request =
  req_id :: nat
  req_ids :: "int list"
  resourceId :: string
  req_parts :: "string list"

record job =
  job_request :: request
  job_active :: bool

datatype dbus_call = RequestItemDelivery nat "int list" "string list"
  | SynchronizeCollection nat int | SynchronizeCollectionTree nat

text \<open>\<open>to_start\<close> are the jobs that \<open>processRequest\<close> has made and not started yet (its local \<open>newJobs\<close>);
  \<open>signals\<close> counts the queued calls of \<open>processRequest\<close> that \<open>requestAdded\<close> has caused; \<open>ifaces\<close> is the
  cache of D-Bus interfaces, each a number, and \<open>next_iface\<close> the next one.\<close>

record retrieval =
  mPendingRequests :: "(string \<times> request list) list"
  mCurrentJobs :: "(string \<times> job) list"
  to_start :: "request list"
  finished :: "(request \<times> string option) list"
  signals :: nat
  ifaces :: "string \<rightharpoonup> nat"
  next_iface :: nat
  calls :: "dbus_call list"

definition irm_init :: "retrieval \<Rightarrow> bool" where
  "irm_init s \<longleftrightarrow> s = \<lparr>mPendingRequests = [], mCurrentJobs = [], to_start = [], finished = [], signals = 0,
     ifaces = Map.empty, next_iface = 0, calls = []\<rparr>"

section \<open>Interfaces\<close>

text \<open>\<open>resourceInterface\<close>; \<open>valid\<close> is \<open>isValid\<close> of an interface. \<open>emplace\<close> leaves an existing entry alone.\<close>

definition resourceInterface :: "(nat \<Rightarrow> bool) \<Rightarrow> string \<Rightarrow> retrieval \<Rightarrow> nat option \<times> retrieval" where
  "resourceInterface valid rid s =
     (if rid = [] then (None, s)
      else if (case ifaces s rid of None \<Rightarrow> False | Some i \<Rightarrow> valid i) then (ifaces s rid, s)
      else
        (let i = next_iface s; s = s\<lparr>next_iface := i + 1\<rparr> in
         if \<not> valid i then (None, s)
         else (case ifaces s rid of
                 None \<Rightarrow> (Some i, s\<lparr>ifaces := (ifaces s)(rid \<mapsto> i)\<rparr>)
               | Some old \<Rightarrow> (Some old, s))))"

text \<open>\<open>service\<close> is what \<open>DBus::parseAgentServiceName\<close> makes of the name: the identifier when it is the
  name of a resource.\<close>

definition serviceOwnerChanged :: "string option \<Rightarrow> string \<Rightarrow> retrieval \<Rightarrow> retrieval" where
  "serviceOwnerChanged service oldOwner s =
     (if oldOwner = [] then s
      else (case service of None \<Rightarrow> s | Some rid \<Rightarrow> s\<lparr>ifaces := (ifaces s)(rid := None)\<rparr>))"

section \<open>Requests\<close>

definition requestItemDelivery :: "request \<Rightarrow> retrieval \<Rightarrow> retrieval" where
  "requestItemDelivery req s =
     s\<lparr>mPendingRequests := at_key (resourceId req) (\<lambda>qs. qs @ [req]) (mPendingRequests s),
       signals := signals s + 1\<rparr>"

fun schedule_idle :: "(string \<times> request list) list \<Rightarrow> (string \<times> job) list
    \<Rightarrow> (string \<times> request list) list \<times> (string \<times> job) list \<times> request list" where
  "schedule_idle [] cur = ([], cur, [])"
| "schedule_idle ((r, qs) # ps) cur =
     (case qs of
        [] \<Rightarrow> schedule_idle ps cur
      | q # qs' \<Rightarrow>
          (if map_of cur r = None then
             (let (ps', cur', new) =
                schedule_idle ps (hash_insert (resourceId q) \<lparr>job_request = q, job_active = False\<rparr> cur)
              in ((r, qs') # ps', cur', q # new))
           else (let (ps', cur', new) = schedule_idle ps cur in ((r, qs) # ps', cur', new))))"

definition scheduleJobsForIdleResourcesLocked :: "retrieval \<Rightarrow> retrieval \<times> request list" where
  "scheduleJobsForIdleResourcesLocked s =
     (let (ps, cur, new) = schedule_idle (mPendingRequests s) (mCurrentJobs s)
      in (s\<lparr>mPendingRequests := ps, mCurrentJobs := cur\<rparr>, new))"

definition processRequest :: "retrieval \<Rightarrow> retrieval" where
  "processRequest s =
     (let (s, newJobs) = scheduleJobsForIdleResourcesLocked (s\<lparr>signals := signals s - 1\<rparr>) in
      if mPendingRequests s = [] \<and> mCurrentJobs s = [] \<and> newJobs = [] then s
      else s\<lparr>to_start := newJobs\<rparr>)"

definition isSubsetOf :: "string list \<Rightarrow> string list \<Rightarrow> bool" where
  "isSubsetOf super sub \<longleftrightarrow> list_all (\<lambda>v. v \<in> set super) sub"

definition satisfied_by :: "request \<Rightarrow> request \<Rightarrow> bool" where
  "satisfied_by req q \<longleftrightarrow> req_ids q = req_ids req \<and> isSubsetOf (req_parts req) (req_parts q)"

definition retrievalJobFinished :: "request \<Rightarrow> string option \<Rightarrow> retrieval \<Rightarrow> retrieval" where
  "retrievalJobFinished req err s =
     (let qs = value_at (resourceId req) (mPendingRequests s) in
      s\<lparr>mCurrentJobs := hash_remove (resourceId req) (mCurrentJobs s),
        mPendingRequests := at_key (resourceId req) (filter (\<lambda>q. \<not> satisfied_by req q)) (mPendingRequests s),
        finished := finished s @ map (\<lambda>q. (q, err)) (filter (satisfied_by req) qs) @ [(req, err)],
        signals := signals s + 1\<rparr>)"

text \<open>The body of the loop of \<open>processRequest\<close> over the new jobs, with \<open>ItemRetrievalJob::start\<close>.\<close>

definition startJob :: "(nat \<Rightarrow> bool) \<Rightarrow> request \<Rightarrow> retrieval \<Rightarrow> retrieval" where
  "startJob valid req s =
     (case resourceInterface valid (resourceId req) s of
        (None, s) \<Rightarrow> retrievalJobFinished req (Some ''Unable to contact resource'') s
      | (Some i, s) \<Rightarrow>
          s\<lparr>mCurrentJobs := map (\<lambda>(r, j). if r = resourceId req then (r, j\<lparr>job_active := True\<rparr>) else (r, j))
              (mCurrentJobs s),
            calls := calls s @ [RequestItemDelivery i (req_ids req) (req_parts req)]\<rparr>)"

definition callFinished :: "request \<Rightarrow> string option \<Rightarrow> retrieval \<Rightarrow> retrieval" where
  "callFinished req err s =
     retrievalJobFinished req (map_option (\<lambda>e. ''Unable to retrieve item from resource: '' @ e) err) s"

definition triggerCollectionSync :: "(nat \<Rightarrow> bool) \<Rightarrow> string \<Rightarrow> int \<Rightarrow> retrieval \<Rightarrow> retrieval" where
  "triggerCollectionSync valid resource colId s =
     (case resourceInterface valid resource s of
        (None, s) \<Rightarrow> s | (Some i, s) \<Rightarrow> s\<lparr>calls := calls s @ [SynchronizeCollection i colId]\<rparr>)"

definition triggerCollectionTreeSync :: "(nat \<Rightarrow> bool) \<Rightarrow> string \<Rightarrow> retrieval \<Rightarrow> retrieval" where
  "triggerCollectionTreeSync valid resource s =
     (case resourceInterface valid resource s of
        (None, s) \<Rightarrow> s | (Some i, s) \<Rightarrow> s\<lparr>calls := calls s @ [SynchronizeCollectionTree i]\<rparr>)"

section \<open>The manager as a transition system\<close>

datatype irm_op = RequestDelivery request | ProcessRequest | StartJob "nat \<Rightarrow> bool"
  | CallFinished request "string option" | OwnerChanged "string option" string
  | TriggerSync "nat \<Rightarrow> bool" string int | TriggerTreeSync "nat \<Rightarrow> bool" string | Rehash

inductive irm_step :: "retrieval \<Rightarrow> irm_op \<Rightarrow> retrieval \<Rightarrow> bool" where
  deliver: "irm_step s (RequestDelivery q) (requestItemDelivery q s)"
| process: "0 < signals s \<Longrightarrow> to_start s = [] \<Longrightarrow> irm_step s ProcessRequest (processRequest s)"
| start: "to_start s = q # qs \<Longrightarrow> irm_step s (StartJob valid) (startJob valid q (s\<lparr>to_start := qs\<rparr>))"
| finish: "to_start s = [] \<Longrightarrow> (r, j) \<in> set (mCurrentJobs s) \<Longrightarrow> job_active j \<Longrightarrow>
    irm_step s (CallFinished (job_request j) err) (callFinished (job_request j) err s)"
| owner: "to_start s = [] \<Longrightarrow> irm_step s (OwnerChanged service old) (serviceOwnerChanged service old s)"
| sync: "to_start s = [] \<Longrightarrow> irm_step s (TriggerSync valid r c) (triggerCollectionSync valid r c s)"
| tree: "to_start s = [] \<Longrightarrow> irm_step s (TriggerTreeSync valid r) (triggerCollectionTreeSync valid r s)"
| rehash: "mset ps = mset (mPendingRequests s) \<Longrightarrow> mset cs = mset (mCurrentJobs s) \<Longrightarrow>
    irm_step s Rehash (s\<lparr>mPendingRequests := ps, mCurrentJobs := cs\<rparr>)"

section \<open>The invariant\<close>

definition pending_ok :: "(string \<times> request list) list \<Rightarrow> bool" where
  "pending_ok ps \<longleftrightarrow> distinct (map fst ps) \<and> (\<forall>(r, qs) \<in> set ps. \<forall>q \<in> set qs. resourceId q = r)"

definition current_jobs_ok :: "(string \<times> job) list \<Rightarrow> bool" where
  "current_jobs_ok cur \<longleftrightarrow> distinct (map fst cur) \<and> (\<forall>(r, j) \<in> set cur. resourceId (job_request j) = r)"

text \<open>The jobs still to be started are the inactive ones.\<close>

definition inactive :: "(string \<times> job) list \<Rightarrow> request set" where
  "inactive cur = {q. \<exists>p \<in> set cur. job_request (snd p) = q \<and> \<not> job_active (snd p)}"

definition starting_ok :: "(string \<times> job) list \<Rightarrow> request list \<Rightarrow> bool" where
  "starting_ok cur new \<longleftrightarrow> distinct (map resourceId new) \<and> set new = inactive cur"

text \<open>An idle resource with a queued request has a call of \<open>processRequest\<close> coming.\<close>

definition woken :: "retrieval \<Rightarrow> bool" where
  "woken s \<longleftrightarrow> (\<forall>(r, qs) \<in> set (mPendingRequests s). qs \<noteq> [] \<longrightarrow> r \<in> fst ` set (mCurrentJobs s) \<or> 0 < signals s)"

definition irm_inv :: "retrieval \<Rightarrow> bool" where
  "irm_inv s \<longleftrightarrow> pending_ok (mPendingRequests s) \<and> current_jobs_ok (mCurrentJobs s) \<and>
     starting_ok (mCurrentJobs s) (to_start s) \<and> woken s"

lemma at_key_pending_ok:
  assumes "pending_ok ps" and "\<And>q. q \<in> set (f (value_at k ps)) \<Longrightarrow> resourceId q = k"
  shows "pending_ok (at_key k f ps)"
  using assms at_key_distinct [of ps k f] at_key_mem [of ps _ _ k f]
  unfolding pending_ok_def by fast

subsection \<open>Scheduling\<close>

text \<open>What the scheduling loop does, for queues whose resources have no job in \<open>cur\<close> from the loop itself.\<close>

lemma schedule_idle_spec:
  assumes "schedule_idle ps cur = (ps', cur', new)" and "pending_ok ps" and "current_jobs_ok cur"
  shows "pending_ok ps' \<and> fst ` set ps' \<subseteq> fst ` set ps \<and>
     cur' = cur @ map (\<lambda>q. (resourceId q, \<lparr>job_request = q, job_active = False\<rparr>)) new \<and>
     current_jobs_ok cur' \<and> resourceId ` set new \<subseteq> fst ` set ps \<and>
     (\<forall>(r, qs) \<in> set ps'. qs \<noteq> [] \<longrightarrow> r \<in> fst ` set cur') \<and>
     mset (concat (map snd ps)) = mset (concat (map snd ps')) + mset new"
  using assms
proof (induction ps cur arbitrary: ps' cur' new rule: schedule_idle.induct)
  case (2 r qs ps cur)
  have ok: "pending_ok ps" "r \<notin> fst ` set ps" "\<And>q. q \<in> set qs \<Longrightarrow> resourceId q = r"
    using 2(5) by (auto simp: pending_ok_def)
  show ?case
  proof (cases qs)
    case Nil
    then have "schedule_idle ps cur = (ps', cur', new)" using 2(4) by simp
    from 2(1) [OF Nil this ok(1) 2(6)] show ?thesis using Nil
      by (intro conjI) (auto simp only: concat.simps list.map snd_conv append_Nil list.set image_insert)
  next
    case (Cons q qs')
    have rq: "resourceId q = r" using ok(3) Cons by simp
    show ?thesis
    proof (cases "map_of cur r = None")
      case True
      let ?job = "\<lparr>job_request = q, job_active = False\<rparr>"
      have new: "hash_insert (resourceId q) ?job cur = cur @ [(r, ?job)]"
        using True rq by (simp add: hash_insert_new map_of_eq_None_iff)
      have cok: "current_jobs_ok (cur @ [(r, ?job)])"
        using 2(6) True rq by (auto simp: current_jobs_ok_def map_of_eq_None_iff)
      obtain p c n where rec: "schedule_idle ps (cur @ [(r, ?job)]) = (p, c, n)" by (metis prod_cases3)
      have res: "ps' = (r, qs') # p" "cur' = c" "new = q # n"
        using 2(4) Cons True rec new by simp_all
      note IH = 2(2) [OF Cons True rec [folded new] ok(1) cok [folded new]]
      have "pending_ok ((r, qs') # p)" using IH ok(2, 3) Cons by (auto simp: pending_ok_def)
      then show ?thesis using IH res new rq Cons by auto
    next
      case False
      obtain p c n where rec: "schedule_idle ps cur = (p, c, n)" by (metis prod_cases3)
      have res: "ps' = (r, qs) # p" "cur' = c" "new = n"
        using 2(4) Cons False rec by simp_all
      note IH = 2(3) [OF Cons False rec ok(1) 2(6)]
      have "r \<in> fst ` set cur" using False by (simp add: map_of_eq_None_iff)
      moreover have "pending_ok ((r, qs) # p)" using IH ok(2, 3) by (auto simp: pending_ok_def)
      ultimately show ?thesis using IH res Cons by auto
    qed
  qed
qed (simp add: pending_ok_def)

subsection \<open>Preservation\<close>

lemma resourceInterface_frame:
  "resourceInterface valid r s = (i, s') \<Longrightarrow>
   mPendingRequests s' = mPendingRequests s \<and> mCurrentJobs s' = mCurrentJobs s \<and> to_start s' = to_start s \<and>
   finished s' = finished s \<and> signals s' = signals s"
  by (auto simp: resourceInterface_def Let_def split: if_splits option.splits)

lemma triggerCollectionSync_frame:
  "irm_inv (triggerCollectionSync valid r c s) = irm_inv s"
  "finished (triggerCollectionSync valid r c s) = finished s"
  "mPendingRequests (triggerCollectionSync valid r c s) = mPendingRequests s"
  "mCurrentJobs (triggerCollectionSync valid r c s) = mCurrentJobs s"
  by (auto simp: triggerCollectionSync_def split: prod.splits option.splits
      dest!: resourceInterface_frame simp: irm_inv_def woken_def)

lemma triggerCollectionTreeSync_frame:
  "irm_inv (triggerCollectionTreeSync valid r s) = irm_inv s"
  "finished (triggerCollectionTreeSync valid r s) = finished s"
  "mPendingRequests (triggerCollectionTreeSync valid r s) = mPendingRequests s"
  "mCurrentJobs (triggerCollectionTreeSync valid r s) = mCurrentJobs s"
  by (auto simp: triggerCollectionTreeSync_def split: prod.splits option.splits
      dest!: resourceInterface_frame simp: irm_inv_def woken_def)

lemma serviceOwnerChanged_frame:
  "irm_inv (serviceOwnerChanged v old s) = irm_inv s"
  "finished (serviceOwnerChanged v old s) = finished s"
  "mPendingRequests (serviceOwnerChanged v old s) = mPendingRequests s"
  "mCurrentJobs (serviceOwnerChanged v old s) = mCurrentJobs s"
  by (auto simp: serviceOwnerChanged_def irm_inv_def woken_def split: option.splits)

lemmas interface_frames = triggerCollectionSync_frame triggerCollectionTreeSync_frame serviceOwnerChanged_frame

lemma requestItemDelivery_inv:
  assumes "irm_inv s" shows "irm_inv (requestItemDelivery q s)"
proof -
  have ok: "pending_ok (mPendingRequests s)" using assms by (simp add: irm_inv_def)
  have "resourceId u = resourceId q" if "u \<in> set (value_at (resourceId q) (mPendingRequests s) @ [q])" for u
    using that ok by (auto simp: pending_ok_def dest!: value_at_mem)
  from at_key_pending_ok [where f = "\<lambda>qs. qs @ [q]", OF ok this] show ?thesis
    using assms by (simp add: irm_inv_def requestItemDelivery_def woken_def)
qed

lemma inactive_append: "inactive (xs @ ys) = inactive xs \<union> inactive ys"
  by (auto simp: inactive_def)

lemma inactive_new: "inactive (map (\<lambda>q. (f q, \<lparr>job_request = q, job_active = False\<rparr>)) qs) = set qs"
  by (auto simp: inactive_def)

lemma starting_ok_new:
  assumes "starting_ok cur []"
    and "cur' = cur @ map (\<lambda>q. (resourceId q, \<lparr>job_request = q, job_active = False\<rparr>)) new"
    and "current_jobs_ok cur'"
  shows "starting_ok cur' new"
proof -
  have "distinct (map resourceId new)" using assms(2, 3) by (simp add: current_jobs_ok_def comp_def)
  moreover have "inactive cur = {}" using assms(1) by (simp add: starting_ok_def)
  then have "inactive cur' = set new" using assms(2) by (simp add: inactive_append inactive_new)
  ultimately show ?thesis by (simp add: starting_ok_def)
qed

lemma processRequest_inv:
  assumes "irm_inv s" and "to_start s = []"
  shows "irm_inv (processRequest s)"
proof -
  obtain ps cur new where sch: "schedule_idle (mPendingRequests s) (mCurrentJobs s) = (ps, cur, new)"
    by (metis prod_cases3)
  have ok: "pending_ok (mPendingRequests s)" "current_jobs_ok (mCurrentJobs s)" "starting_ok (mCurrentJobs s) []"
    using assms by (simp_all add: irm_inv_def)
  note spec = schedule_idle_spec [OF sch ok(1, 2)]
  have "starting_ok cur new" using starting_ok_new ok(3) spec by blast
  then have "irm_inv (s\<lparr>signals := n, mPendingRequests := ps, mCurrentJobs := cur, to_start := new\<rparr>)" for n
    using spec by (auto simp: irm_inv_def woken_def)
  moreover have "processRequest s =
    s\<lparr>signals := signals s - 1, mPendingRequests := ps, mCurrentJobs := cur, to_start := new\<rparr>"
    using sch assms(2) by (auto simp: processRequest_def scheduleJobsForIdleResourcesLocked_def)
  ultimately show ?thesis by simp
qed

text \<open>A job leaves: it was the first one to be started, or an active one.\<close>

lemma retrievalJobFinished_inv:
  assumes "pending_ok (mPendingRequests s)" and "current_jobs_ok (mCurrentJobs s)"
    and "starting_ok (hash_remove (resourceId q) (mCurrentJobs s)) (to_start s)"
  shows "irm_inv (retrievalJobFinished q err s)"
proof -
  let ?r = "resourceId q"
  have "pending_ok (at_key ?r (filter (\<lambda>u. \<not> satisfied_by q u)) (mPendingRequests s))"
    using assms(1) by (intro at_key_pending_ok) (auto simp: pending_ok_def dest!: value_at_mem)
  moreover have "current_jobs_ok (hash_remove ?r (mCurrentJobs s))"
    using assms(2) by (auto simp: current_jobs_ok_def hash_remove_def distinct_map_filter)
  ultimately show ?thesis using assms(3) by (auto simp: irm_inv_def retrievalJobFinished_def Let_def woken_def)
qed

lemma inactive_remove_active:
  assumes "current_jobs_ok cur" and "(r, j) \<in> set cur" and "job_active j"
  shows "inactive (hash_remove r cur) = inactive cur"
proof -
  have "fst p \<noteq> r" if "p \<in> set cur" "\<not> job_active (snd p)" for p
    using that assms eq_key_imp_eq_value [of cur r j "snd p"] by (cases p) (auto simp: current_jobs_ok_def)
  then show ?thesis by (auto simp: inactive_def)
qed

lemma inactive_remove:
  assumes "current_jobs_ok cur"
  shows "inactive (hash_remove r cur) = {q \<in> inactive cur. resourceId q \<noteq> r}"
proof -
  have "resourceId (job_request (snd p)) = fst p" if "p \<in> set cur" for p
    using that assms by (auto simp: current_jobs_ok_def)
  then show ?thesis by (auto simp: inactive_def)
qed

lemma starting_ok_remove_first:
  assumes "current_jobs_ok cur" and "starting_ok cur (q # qs)"
  shows "starting_ok (hash_remove (resourceId q) cur) qs"
proof -
  have "resourceId q \<notin> resourceId ` set qs" using assms(2) by (simp add: starting_ok_def)
  then have "{u \<in> set (q # qs). resourceId u \<noteq> resourceId q} = set qs" by (auto simp: image_iff)
  moreover have "inactive cur = set (q # qs)" using assms(2) by (simp add: starting_ok_def)
  ultimately have "inactive (hash_remove (resourceId q) cur) = set qs"
    by (simp only: inactive_remove [OF assms(1)])
  then show ?thesis using assms(2) by (simp add: starting_ok_def)
qed

definition activate :: "string \<Rightarrow> string \<times> job \<Rightarrow> string \<times> job" where
  "activate r p = (if fst p = r then (fst p, (snd p)\<lparr>job_active := True\<rparr>) else p)"

lemma activate_fst [simp]: "fst (activate r p) = fst p"
  by (simp add: activate_def)

lemma activate_request [simp]: "job_request (snd (activate r p)) = job_request (snd p)"
  by (simp add: activate_def)

text \<open>The two outcomes of starting a job.\<close>

lemma startJob_cases:
  obtains (failed) t where "startJob valid q s = retrievalJobFinished q (Some ''Unable to contact resource'') t"
      "mPendingRequests t = mPendingRequests s" "mCurrentJobs t = mCurrentJobs s" "to_start t = to_start s"
      "finished t = finished s" "signals t = signals s"
  | (started) t where "startJob valid q s = t" "mPendingRequests t = mPendingRequests s"
      "mCurrentJobs t = map (activate (resourceId q)) (mCurrentJobs s)" "to_start t = to_start s"
      "finished t = finished s" "signals t = signals s"
proof (cases "resourceInterface valid (resourceId q) s")
  case (Pair i t)
  note frame = resourceInterface_frame [OF Pair]
  show ?thesis
  proof (cases i)
    case None
    then show ?thesis using failed [of t] Pair frame by (simp add: startJob_def)
  next
    case (Some n)
    have "(\<lambda>(r, j). if r = resourceId q then (r, j\<lparr>job_active := True\<rparr>) else (r, j)) = activate (resourceId q)"
      by (auto simp: activate_def)
    then show ?thesis using started Some Pair frame by (simp add: startJob_def)
  qed
qed

lemma inactive_activate: "inactive (map (activate r) cur) = inactive (hash_remove r cur)"
  by (auto simp: inactive_def activate_def)

lemma starting_ok_activate:
  assumes "current_jobs_ok cur" and "starting_ok cur (q # qs)"
  shows "starting_ok (map (activate (resourceId q)) cur) qs"
  using starting_ok_remove_first [OF assms] by (simp add: starting_ok_def inactive_activate)

lemma current_jobs_ok_activate: "current_jobs_ok cur \<Longrightarrow> current_jobs_ok (map (activate r) cur)"
proof -
  assume ok: "current_jobs_ok cur"
  have "fst \<circ> activate r = fst" by auto
  moreover have "resourceId (job_request (snd (activate r p))) = fst (activate r p)" if "p \<in> set cur" for p
    using that ok by (auto simp: current_jobs_ok_def)
  ultimately show ?thesis using ok unfolding current_jobs_ok_def by (auto simp: split_beta)
qed

lemma startJob_inv:
  assumes "irm_inv s" and "to_start s = q # qs"
  shows "irm_inv (startJob valid q (s\<lparr>to_start := qs\<rparr>))"
proof (cases rule: startJob_cases [of valid q "s\<lparr>to_start := qs\<rparr>"])
  case (failed t)
  have "starting_ok (hash_remove (resourceId q) (mCurrentJobs s)) qs"
    using assms by (intro starting_ok_remove_first) (simp_all add: irm_inv_def)
  then show ?thesis using failed assms(1) by (simp add: retrievalJobFinished_inv irm_inv_def [of s])
next
  case (started t)
  have "starting_ok (map (activate (resourceId q)) (mCurrentJobs s)) qs"
    using assms by (intro starting_ok_activate) (simp_all add: irm_inv_def)
  moreover have "fst ` set (map (activate (resourceId q)) (mCurrentJobs s)) = fst ` set (mCurrentJobs s)"
    by (force simp: image_image)
  ultimately show ?thesis using started assms(1)
    by (simp add: irm_inv_def woken_def current_jobs_ok_activate image_image)
qed

lemma callFinished_inv:
  assumes "irm_inv s" and "(r, j) \<in> set (mCurrentJobs s)" and "job_active j"
  shows "irm_inv (callFinished (job_request j) err s)"
proof -
  have "resourceId (job_request j) = r" using assms(1, 2) by (auto simp: irm_inv_def current_jobs_ok_def)
  moreover have "starting_ok (hash_remove r (mCurrentJobs s)) (to_start s)"
    using assms inactive_remove_active [OF _ assms(2, 3)] by (simp add: irm_inv_def starting_ok_def)
  ultimately show ?thesis using assms(1) by (simp add: callFinished_def retrievalJobFinished_inv irm_inv_def [of s])
qed

lemma rehash_inv:
  assumes "irm_inv s" and "mset ps = mset (mPendingRequests s)" and "mset cs = mset (mCurrentJobs s)"
  shows "irm_inv (s\<lparr>mPendingRequests := ps, mCurrentJobs := cs\<rparr>)"
proof -
  have "set ps = set (mPendingRequests s)" "set cs = set (mCurrentJobs s)"
    using assms(2, 3) by (metis set_mset_mset)+
  moreover have "mset (map fst ps) = mset (map fst (mPendingRequests s))"
    "mset (map fst cs) = mset (map fst (mCurrentJobs s))" using assms(2, 3) by simp_all
  from this [THEN mset_eq_imp_distinct_iff]
  have "distinct (map fst ps) = distinct (map fst (mPendingRequests s))"
    "distinct (map fst cs) = distinct (map fst (mCurrentJobs s))" by simp_all
  ultimately show ?thesis using assms(1)
    by (simp add: irm_inv_def pending_ok_def current_jobs_ok_def starting_ok_def inactive_def woken_def)
qed

lemma irm_step_inv: "irm_step s l t \<Longrightarrow> irm_inv s \<Longrightarrow> irm_inv t"
  by (induction rule: irm_step.induct)
    (simp_all add: interface_frames requestItemDelivery_inv processRequest_inv startJob_inv callFinished_inv rehash_inv)

interpretation retrieval: inductive_invariant irm_init irm_step irm_inv
proof
  show "irm_inv s" if "irm_init s" for s
    using that by (simp add: irm_init_def irm_inv_def pending_ok_def current_jobs_ok_def starting_ok_def inactive_def woken_def)
qed (rule irm_step_inv)

section \<open>Every request is answered once\<close>

definition requested_by :: "irm_op \<Rightarrow> request multiset" where
  "requested_by l = (case l of RequestDelivery q \<Rightarrow> {#q#} | _ \<Rightarrow> {#})"

definition open_requests :: "retrieval \<Rightarrow> request multiset" where
  "open_requests s = mset (concat (map snd (mPendingRequests s))) + mset (map (job_request \<circ> snd) (mCurrentJobs s))"

definition answered :: "retrieval \<Rightarrow> request multiset" where
  "answered s = mset (map fst (finished s))"

lemma mset_swap_part: "A + Q = P + R \<Longrightarrow> Q = S + R \<Longrightarrow> A + S = (P :: 'a multiset)"
  by (simp add: add.assoc [symmetric])

lemma retrievalJobFinished_conserves:
  assumes "pending_ok (mPendingRequests s)" and "current_jobs_ok (mCurrentJobs s)"
    and "(resourceId q, j) \<in> set (mCurrentJobs s)" and "job_request j = q"
  shows "open_requests (retrievalJobFinished q err s) + answered (retrievalJobFinished q err s) =
     open_requests s + answered s"
proof -
  let ?r = "resourceId q" let ?qs = "value_at ?r (mPendingRequests s)"
  have d: "distinct (map fst (mPendingRequests s))" "distinct (map fst (mCurrentJobs s))"
    using assms(1, 2) by (simp_all add: pending_ok_def current_jobs_ok_def)
  note pend = at_key_concat [OF d(1), of ?r "filter (\<lambda>u. \<not> satisfied_by q u)"]
  have cur: "mset (map (job_request \<circ> snd) (mCurrentJobs s)) =
      add_mset q (mset (map (job_request \<circ> snd) (hash_remove ?r (mCurrentJobs s))))"
    using hash_remove_mset [OF d(2) assms(3)] assms(4) by simp
  have split: "mset ?qs = mset (filter (satisfied_by q) ?qs) + mset (filter (\<lambda>u. \<not> satisfied_by q u) ?qs)"
    by (metis mset_filter multiset_partition)
  have "mset (concat (map snd (at_key ?r (filter (\<lambda>u. \<not> satisfied_by q u)) (mPendingRequests s)))) +
      mset (filter (satisfied_by q) ?qs) = mset (concat (map snd (mPendingRequests s)))"
    using pend mset_swap_part [OF _ split] by blast
  then show ?thesis
    unfolding open_requests_def answered_def cur retrievalJobFinished_def Let_def
    by (simp add: comp_def ac_simps del: mset_filter mset_concat)
qed

lemma starting_in_current:
  assumes "irm_inv s" and "to_start s = q # qs"
  obtains j where "(resourceId q, j) \<in> set (mCurrentJobs s)" "job_request j = q" "\<not> job_active j"
proof -
  have "q \<in> inactive (mCurrentJobs s)" using assms by (auto simp: irm_inv_def starting_ok_def)
  then obtain r j where "(r, j) \<in> set (mCurrentJobs s)" "job_request j = q" "\<not> job_active j"
    by (auto simp: inactive_def)
  moreover from this have "resourceId q = r" using assms(1) by (auto simp: irm_inv_def current_jobs_ok_def)
  ultimately show ?thesis using that by blast
qed

lemma processRequest_eq:
  assumes "schedule_idle (mPendingRequests s) (mCurrentJobs s) = (ps, cur, new)" and "to_start s = []"
  shows "processRequest s =
    s\<lparr>signals := signals s - 1, mPendingRequests := ps, mCurrentJobs := cur, to_start := new\<rparr>"
  using assms by (auto simp: processRequest_def scheduleJobsForIdleResourcesLocked_def)

lemma irm_step_conserves:
  "irm_step s l t \<Longrightarrow> irm_inv s \<Longrightarrow>
   open_requests t + answered t = open_requests s + answered s + requested_by l"
proof (induction rule: irm_step.induct)
  case (deliver s q)
  have "distinct (map fst (mPendingRequests s))" using deliver by (simp add: irm_inv_def pending_ok_def)
  from at_key_concat [OF this, of "resourceId q" "\<lambda>qs. qs @ [q]"] show ?case
    by (simp add: open_requests_def answered_def requestItemDelivery_def requested_by_def)
next
  case (process s)
  obtain ps cur new where sch: "schedule_idle (mPendingRequests s) (mCurrentJobs s) = (ps, cur, new)"
    by (metis prod_cases3)
  show ?case using schedule_idle_spec [OF sch] process
    by (simp add: processRequest_eq [OF sch] open_requests_def answered_def requested_by_def irm_inv_def comp_def)
next
  case (start s q qs valid)
  obtain j where j: "(resourceId q, j) \<in> set (mCurrentJobs s)" "job_request j = q"
    using starting_in_current [OF start(2) start(1)] by blast
  show ?case
  proof (cases rule: startJob_cases [of valid q "s\<lparr>to_start := qs\<rparr>"])
    case (failed t)
    with start(2) j retrievalJobFinished_conserves [of t q j "Some ''Unable to contact resource''"] show ?thesis
      by (simp add: irm_inv_def requested_by_def open_requests_def [of s] open_requests_def [of t] answered_def [of s]
          answered_def [of t])
  next
    case (started t)
    have "(job_request \<circ> snd) \<circ> activate (resourceId q) = job_request \<circ> snd" by auto
    then show ?thesis using started by (simp add: requested_by_def open_requests_def answered_def)
  qed
next
  case (finish s r j err)
  have "resourceId (job_request j) = r" using finish by (auto simp: irm_inv_def current_jobs_ok_def)
  with finish show ?case
    by (simp add: callFinished_def irm_inv_def retrievalJobFinished_conserves requested_by_def)
next
  case (rehash ps s cs)
  have "mset (concat (map snd ps)) = mset (concat (map snd (mPendingRequests s)))"
    using rehash(1) by (simp add: mset_concat mset_map image_mset.compositionality flip: sum_mset_sum_list)
  then show ?case using rehash(2) by (simp add: open_requests_def answered_def requested_by_def)
qed (simp_all add: open_requests_def answered_def requested_by_def interface_frames)

lemma run_conserves:
  "run irm_step s ls t \<Longrightarrow> irm_inv s \<Longrightarrow>
   open_requests t + answered t = open_requests s + answered s + (\<Sum>l\<leftarrow>ls. requested_by l)"
proof (induction rule: run.induct)
  case (run_cons s l t ls u)
  then show ?case using irm_step_inv irm_step_conserves by (simp add: ac_simps)
qed simp

section \<open>Progress\<close>

text \<open>The work left: four steps for a queued request, three for a job that is not started, two for a job that
  runs, one for a queued call of \<open>processRequest\<close>.\<close>

definition job_work :: "string \<times> job \<Rightarrow> nat" where
  "job_work p = (if job_active (snd p) then 2 else 3)"

definition irm_work :: "retrieval \<Rightarrow> nat" where
  "irm_work s = 4 * size (mset (concat (map snd (mPendingRequests s)))) + (\<Sum>p\<leftarrow>mCurrentJobs s. job_work p) + signals s"

definition internal :: "irm_op \<Rightarrow> bool" where
  "internal l = (case l of ProcessRequest \<Rightarrow> True | StartJob _ \<Rightarrow> True | CallFinished _ _ \<Rightarrow> True | _ \<Rightarrow> False)"

lemma job_work_remove:
  assumes "current_jobs_ok cur" and "(r, j) \<in> set cur"
  shows "(\<Sum>p\<leftarrow>cur. job_work p) = job_work (r, j) + (\<Sum>p\<leftarrow>hash_remove r cur. job_work p)"
proof -
  have "mset cur = add_mset (r, j) (mset (hash_remove r cur))"
    using hash_remove_mset [OF _ assms(2)] assms(1) by (auto simp: current_jobs_ok_def)
  then have "mset (map job_work cur) = add_mset (job_work (r, j)) (mset (map job_work (hash_remove r cur)))" by simp
  then show ?thesis by (metis sum_mset_sum_list sum_mset.add_mset)
qed

lemma retrievalJobFinished_work:
  assumes "pending_ok (mPendingRequests s)" and "current_jobs_ok (mCurrentJobs s)"
    and "(resourceId q, j) \<in> set (mCurrentJobs s)"
  shows "irm_work (retrievalJobFinished q err s) < irm_work s"
proof -
  have "distinct (map fst (mPendingRequests s))" using assms(1) by (simp add: pending_ok_def)
  from arg_cong [OF at_key_concat [OF this, of "resourceId q" "filter (\<lambda>u. \<not> satisfied_by q u)"], of size]
  have "size (mset (concat (map snd (at_key (resourceId q) (filter (\<lambda>u. \<not> satisfied_by q u)) (mPendingRequests s)))))
      \<le> size (mset (concat (map snd (mPendingRequests s))))"
    using length_filter_le [of "\<lambda>u. \<not> satisfied_by q u" "value_at (resourceId q) (mPendingRequests s)"]
    by (simp only: size_union size_mset)
  moreover have "2 \<le> job_work (resourceId q, j)" by (simp add: job_work_def)
  ultimately show ?thesis using job_work_remove [OF assms(2, 3)]
    by (simp add: irm_work_def retrievalJobFinished_def Let_def del: size_mset mset_concat)
qed

lemma startJob_work:
  assumes "irm_inv s" and "to_start s = q # qs"
  shows "irm_work (startJob valid q (s\<lparr>to_start := qs\<rparr>)) < irm_work s"
proof -
  obtain j where j: "(resourceId q, j) \<in> set (mCurrentJobs s)" "\<not> job_active j"
    using starting_in_current [OF assms] by blast
  have ok: "pending_ok (mPendingRequests s)" "current_jobs_ok (mCurrentJobs s)"
    using assms(1) by (simp_all add: irm_inv_def)
  show ?thesis
  proof (cases rule: startJob_cases [of valid q "s\<lparr>to_start := qs\<rparr>"])
    case (failed t)
    then show ?thesis using retrievalJobFinished_work [of t q j] ok j by (simp add: irm_work_def [of s] irm_work_def [of t])
  next
    case (started t)
    let ?a = "activate (resourceId q)"
    have "(resourceId q, j\<lparr>job_active := True\<rparr>) \<in> set (map ?a (mCurrentJobs s))"
      using j(1) by (force simp: activate_def)
    note after = job_work_remove [OF current_jobs_ok_activate [OF ok(2)] this]
    have "hash_remove (resourceId q) (map ?a cur) = hash_remove (resourceId q) cur" for cur
      by (induction cur) (auto simp: hash_remove_def activate_def)
    with after have "(\<Sum>p\<leftarrow>map ?a (mCurrentJobs s). job_work p) < (\<Sum>p\<leftarrow>mCurrentJobs s. job_work p)"
      using job_work_remove [OF ok(2) j(1)] j(2) by (simp add: job_work_def)
    then show ?thesis using started by (simp add: irm_work_def)
  qed
qed

lemma internal_step_work:
  "irm_step s l t \<Longrightarrow> irm_inv s \<Longrightarrow> internal l \<Longrightarrow> irm_work t < irm_work s"
proof (induction rule: irm_step.induct)
  case (process s)
  obtain ps cur new where sch: "schedule_idle (mPendingRequests s) (mCurrentJobs s) = (ps, cur, new)"
    by (metis prod_cases3)
  have ok: "pending_ok (mPendingRequests s)" "current_jobs_ok (mCurrentJobs s)"
    using process(3) by (simp_all add: irm_inv_def)
  note spec = schedule_idle_spec [OF sch ok]
  have "(\<Sum>p\<leftarrow>cur. job_work p) = (\<Sum>p\<leftarrow>mCurrentJobs s. job_work p) + 3 * length new"
    using spec by (simp add: comp_def job_work_def sum_list_triv)
  moreover have "size (mset (concat (map snd (mPendingRequests s)))) = size (mset (concat (map snd ps))) + length new"
    using spec by (simp only: size_union size_mset)
  ultimately show ?case using process(1)
    by (simp add: processRequest_eq [OF sch process(2)] irm_work_def del: size_mset mset_concat)
next
  case (finish s r j err)
  have "resourceId (job_request j) = r" using finish by (auto simp: irm_inv_def current_jobs_ok_def)
  with finish retrievalJobFinished_work [of s "job_request j" j] show ?case
    by (simp add: callFinished_def irm_inv_def)
qed (simp_all add: internal_def startJob_work)

lemma internal_run_bound:
  "run irm_step s ls t \<Longrightarrow> irm_inv s \<Longrightarrow> list_all internal ls \<Longrightarrow> length ls + irm_work t \<le> irm_work s"
proof (induction rule: run.induct)
  case (run_cons s l t ls u)
  then show ?case using irm_step_inv internal_step_work [of s l t] by fastforce
qed simp

text \<open>While a request is open, one of the manager's own steps can be taken.\<close>

lemma open_step_enabled:
  assumes "irm_inv s" and "open_requests s \<noteq> {#}"
  shows "\<exists>l t. internal l \<and> irm_step s l t"
proof -
  consider q qs where "to_start s = q # qs" | "to_start s = []" "mCurrentJobs s \<noteq> []"
    | "to_start s = []" "mCurrentJobs s = []" by (metis neq_Nil_conv)
  then show ?thesis
  proof cases
    case (1 q qs)
    then show ?thesis using irm_step.start [of s q qs] by (force simp: internal_def)
  next
    case 2
    then obtain r j where j: "(r, j) \<in> set (mCurrentJobs s)" by (cases "mCurrentJobs s") auto
    moreover have "inactive (mCurrentJobs s) = {}" using assms(1) 2(1) by (simp add: irm_inv_def starting_ok_def)
    then have "job_active j" using j by (force simp: inactive_def)
    ultimately show ?thesis using irm_step.finish [OF 2(1)] by (force simp: internal_def)
  next
    case 3
    then have "concat (map snd (mPendingRequests s)) \<noteq> []" using assms(2) by (simp add: open_requests_def)
    then obtain r qs where "(r, qs) \<in> set (mPendingRequests s)" "qs \<noteq> []" by auto
    then have "0 < signals s" using assms(1) 3 by (auto simp: irm_inv_def woken_def)
    then show ?thesis using irm_step.process 3(1) by (force simp: internal_def)
  qed
qed

lemma internal_completion:
  "irm_inv s \<Longrightarrow> \<exists>ls t. run irm_step s ls t \<and> list_all internal ls \<and> open_requests t = {#}"
proof (induction "irm_work s" arbitrary: s rule: less_induct)
  case less
  show ?case
  proof (cases "open_requests s = {#}")
    case True
    then show ?thesis using run.run_nil [of irm_step s] by (intro exI [of _ "[]"]) auto
  next
    case False
    then obtain l t where step: "internal l" "irm_step s l t" using open_step_enabled less.prems by blast
    then have "irm_work t < irm_work s" "irm_inv t" using internal_step_work irm_step_inv less.prems by blast+
    from less.hyps [OF this] obtain ls u where "run irm_step t ls u" "list_all internal ls" "open_requests u = {#}"
      by blast
    then show ?thesis using step run.run_cons [of irm_step s l t ls u] by (intro exI [of _ "l # ls"]) auto
  qed
qed

section \<open>Properties\<close>

text \<open>(C28) No request is lost and none is answered twice: in every run of the manager from its start, with calls
  from other threads, job ends, failed starts and lost resources in any order, the requests posted so far are
  exactly the queued ones, the ones of the current jobs and the ones for which \<open>requestFinished\<close> was emitted.\<close>

theorem requests_answered_once:
  assumes "irm_init s" and "run irm_step s ls t"
  shows "open_requests t + answered t = (\<Sum>l\<leftarrow>ls. requested_by l)"
proof -
  have "open_requests s = {#}" "answered s = {#}"
    using assms(1) by (simp_all add: irm_init_def open_requests_def answered_def)
  then show ?thesis using run_conserves [OF assms(2) retrieval.inv_init [OF assms(1)]] by simp
qed

definition empty_irm :: retrieval where
  "empty_irm = \<lparr>mPendingRequests = [], mCurrentJobs = [], to_start = [], finished = [], signals = 0,
     ifaces = Map.empty, next_iface = 0, calls = []\<rparr>"

definition sample_request :: request where
  "sample_request = \<lparr>req_id = 1, req_ids = [7], resourceId = ''imap'', req_parts = [''RFC822'']\<rparr>"

lemma sample_irm_run:
  "run irm_step empty_irm [RequestDelivery sample_request] (requestItemDelivery sample_request empty_irm)"
  by (rule run.run_cons, rule irm_step.deliver, rule run.run_nil)

lemma empty_irm_init: "irm_init empty_irm"
  by (simp add: irm_init_def empty_irm_def)

lemma sample_irm_reach: "reach irm_init irm_step (requestItemDelivery sample_request empty_irm)"
  by (rule retrieval.reach_run [OF _ sample_irm_run], rule reach.start, rule empty_irm_init)

theorem requests_answered_once_witness:
  "open_requests (requestItemDelivery sample_request empty_irm) + answered (requestItemDelivery sample_request empty_irm)
     = {#sample_request#}"
  using requests_answered_once [OF empty_irm_init sample_irm_run] by (simp add: requested_by_def)

text \<open>(C29) The manager never stalls. From every reachable state its own steps (a queued \<open>processRequest\<close>, the
  start of a job, the end of a D-Bus call) can answer every open request; any sequence of them is no longer than
  the work left; and when none of them is possible any more, no request is open.\<close>

theorem retrieval_completes:
  assumes "reach irm_init irm_step s"
  shows "(\<exists>ls t. run irm_step s ls t \<and> list_all internal ls \<and> open_requests t = {#}) \<and>
    (\<forall>ls t. run irm_step s ls t \<and> list_all internal ls \<longrightarrow>
       length ls \<le> irm_work s \<and> ((\<exists>l u. internal l \<and> irm_step t l u) \<or> open_requests t = {#}))"
proof -
  have inv: "irm_inv s" by (rule retrieval.reach_inv [OF assms])
  have "length ls \<le> irm_work s \<and> ((\<exists>l u. internal l \<and> irm_step t l u) \<or> open_requests t = {#})"
    if "run irm_step s ls t" "list_all internal ls" for ls t
    using internal_run_bound [OF that(1) inv that(2)] open_step_enabled [OF retrieval.run_inv [OF that(1) inv]]
    by auto
  then show ?thesis using internal_completion [OF inv] by blast
qed

theorem retrieval_completes_witness:
  "\<exists>ls t. run irm_step (requestItemDelivery sample_request empty_irm) ls t \<and> list_all internal ls \<and>
     open_requests t = {#}"
proof -
  have "reach irm_init irm_step (requestItemDelivery sample_request empty_irm)"
    by (rule sample_irm_reach)
  from retrieval_completes [OF this] show ?thesis by blast
qed

text \<open>At most one job per resource: in every reachable state two current jobs for the same resource are the
  same job, the job is filed under its request's resource, and only jobs of the loop that starts them are inactive.\<close>

theorem one_job_per_resource:
  assumes "reach irm_init irm_step s" and "(r, j) \<in> set (mCurrentJobs s)" and "(r', j') \<in> set (mCurrentJobs s)"
  shows "(resourceId (job_request j) = resourceId (job_request j') \<longrightarrow> j = j') \<and> resourceId (job_request j) = r \<and>
    (job_active j \<or> job_request j \<in> set (to_start s))"
proof -
  have inv: "current_jobs_ok (mCurrentJobs s)" "starting_ok (mCurrentJobs s) (to_start s)"
    using retrieval.reach_inv [OF assms(1)] by (simp_all add: irm_inv_def)
  have key: "resourceId (job_request j) = r" "resourceId (job_request j') = r'"
    using inv(1) assms(2, 3) by (auto simp: current_jobs_ok_def)
  have "j = j'" if "r = r'"
    using that inv(1) assms(2, 3) eq_key_imp_eq_value [of "mCurrentJobs s" r j j'] by (simp add: current_jobs_ok_def)
  moreover have "job_active j \<or> job_request j \<in> inactive (mCurrentJobs s)"
    using assms(2) by (force simp: inactive_def)
  ultimately show ?thesis using key inv(2) by (auto simp: starting_ok_def)
qed

definition busy_irm :: retrieval where
  "busy_irm = processRequest (requestItemDelivery sample_request empty_irm)"

lemma busy_irm_reach: "reach irm_init irm_step busy_irm"
proof -
  have "reach irm_init irm_step (requestItemDelivery sample_request empty_irm)"
    by (rule sample_irm_reach)
  then show ?thesis unfolding busy_irm_def
    by (rule reach.next_state) (rule irm_step.process; simp add: requestItemDelivery_def empty_irm_def)
qed

lemma busy_irm_jobs:
  "(''imap'', \<lparr>job_request = sample_request, job_active = False\<rparr>) \<in> set (mCurrentJobs busy_irm)"
  by (simp add: busy_irm_def processRequest_def requestItemDelivery_def empty_irm_def sample_request_def
      scheduleJobsForIdleResourcesLocked_def hash_insert_def hash_remove_def)

theorem one_job_per_resource_witness: "sample_request \<in> set (to_start busy_irm)"
  using one_job_per_resource [OF busy_irm_reach busy_irm_jobs busy_irm_jobs] by simp

text \<open>A stale interface is never replaced: when the cached interface of a resource is no longer valid and a
  fresh one is, \<open>resourceInterface\<close> makes the fresh one, but \<open>emplace\<close> keeps the old entry, so the invalid interface
  is returned, now and at the next call.\<close>

theorem stale_interface_is_returned:
  assumes "rid \<noteq> []" and "ifaces s rid = Some old" and "\<not> valid old" and "valid (next_iface s)"
  shows "fst (resourceInterface valid rid s) = Some old \<and>
    ifaces (snd (resourceInterface valid rid s)) = ifaces s"
  using assms by (simp add: resourceInterface_def Let_def)

theorem stale_interface_is_returned_witness:
  "fst (resourceInterface (\<lambda>i. i = 5) ''imap'' (empty_irm\<lparr>ifaces := [''imap'' \<mapsto> 3], next_iface := 5\<rparr>)) = Some 3"
  using stale_interface_is_returned [of "''imap''" "empty_irm\<lparr>ifaces := [''imap'' \<mapsto> 3], next_iface := 5\<rparr>" 3
      "\<lambda>i. i = 5"] by simp

end
