(* ===== verification/CollectionScheduler.thy ===== *)
theory CollectionScheduler
  imports Prelude Transition "HOL-Library.Monad_Syntax"
begin

text \<open>
  \<open>src/server/collectionscheduler.cpp\<close>, the base class of \<open>IntervalCheck\<close> and \<open>CacheCleaner\<close>: a multimap from
  time points to collections, and one pauseable timer for the earliest entry. The virtual functions of the
  subclasses are the fields of a record; \<open>DataStore::activeCachePolicy\<close> is here too.

  The steady clock counts nanoseconds and the wall clock milliseconds, both as integers (the 64-bit counts of
  \<open>std::chrono\<close> last for 292 years). Every handler reads the clocks and the collection table once. A handler
  returns \<open>None\<close> where the code has no defined result: the first key of an empty schedule, or a cycle of parents.
\<close>

section \<open>Collections and their cache policy\<close>

record collection =
  col_id :: int
  parentId :: int
  resourceId :: int
  enabled :: bool
  syncPref :: Tristate
  displayPref :: Tristate
  indexPref :: Tristate
  cachePolicyInherit :: bool
  cachePolicyCheckInterval :: int
  cachePolicyCacheTimeout :: int
  cachePolicySyncOnDemand :: bool
  cachePolicyLocalParts :: string

text \<open>The default-constructed entity, which a failed lookup returns.\<close>

definition invalid_collection :: collection where
  "invalid_collection = \<lparr>col_id = -1, parentId = 0, resourceId = 0, enabled = True, syncPref = TUndefined,
     displayPref = TUndefined, indexPref = TUndefined, cachePolicyInherit = True, cachePolicyCheckInterval = -1,
     cachePolicyCacheTimeout = -1, cachePolicySyncOnDemand = False, cachePolicyLocalParts = []\<rparr>"

record env =
  steady :: int
  wall :: int
  table :: "int \<rightharpoonup> collection"
  resources :: "int \<rightharpoonup> string"

definition retrieveById :: "(int \<rightharpoonup> collection) \<Rightarrow> int \<Rightarrow> collection" where
  "retrieveById t i = (case t i of None \<Rightarrow> invalid_collection | Some c \<Rightarrow> c)"

definition copy_policy :: "collection \<Rightarrow> collection \<Rightarrow> collection" where
  "copy_policy parent col = col\<lparr>cachePolicyCheckInterval := cachePolicyCheckInterval parent,
     cachePolicyCacheTimeout := cachePolicyCacheTimeout parent,
     cachePolicySyncOnDemand := cachePolicySyncOnDemand parent,
     cachePolicyLocalParts := cachePolicyLocalParts parent\<rparr>"

definition system_default :: "collection \<Rightarrow> collection" where
  "system_default col = col\<lparr>cachePolicyCheckInterval := -1, cachePolicyCacheTimeout := -1,
     cachePolicySyncOnDemand := False, cachePolicyLocalParts := ''ALL''\<rparr>"

text \<open>The loop over the parents, which ends at a root or at a collection with a policy of its own.\<close>

partial_function (option) policy_loop :: "(int \<rightharpoonup> collection) \<Rightarrow> collection \<Rightarrow> collection \<Rightarrow> collection option" where
  "policy_loop t parent col =
     (if parentId parent = 0 then Some (system_default col)
      else
        (let parent = retrieveById t (parentId parent) in
         if \<not> cachePolicyInherit parent then Some (copy_policy parent col) else policy_loop t parent col))"

definition activeCachePolicy :: "(int \<rightharpoonup> collection) \<Rightarrow> collection \<Rightarrow> collection option" where
  "activeCachePolicy t col = (if \<not> cachePolicyInherit col then Some col else policy_loop t col col)"

section \<open>The pauseable timer\<close>

record timer =
  interval :: int
  due :: "int option"
  mStarted :: "int option"
  mPaused :: "int option"

definition isActive :: "timer \<Rightarrow> bool" where
  "isActive tm \<longleftrightarrow> due tm \<noteq> None"

definition isPaused :: "timer \<Rightarrow> bool" where
  "isPaused tm \<longleftrightarrow> mPaused tm \<noteq> None"

abbreviation ms :: int where
  "ms \<equiv> 1000000"

abbreviation minute :: int where
  "minute \<equiv> 60000000000"

definition timer_start :: "env \<Rightarrow> int \<Rightarrow> timer \<Rightarrow> timer" where
  "timer_start e iv tm = \<lparr>interval = iv, due = Some (steady e + iv * ms), mStarted = Some (wall e), mPaused = None\<rparr>"

definition timer_stop :: "timer \<Rightarrow> timer" where
  "timer_stop tm = tm\<lparr>due := None, mStarted := None, mPaused := None\<rparr>"

definition timer_pause :: "env \<Rightarrow> timer \<Rightarrow> timer" where
  "timer_pause e tm = (if \<not> isActive tm \<or> isPaused tm then tm else tm\<lparr>mPaused := Some (wall e), due := None\<rparr>)"

text \<open>\<open>QDateTime::secsTo\<close>: truncated towards zero, 0 when one of the two is invalid.\<close>

definition secsTo :: "int option \<Rightarrow> int option \<Rightarrow> int" where
  "secsTo a b = (case (a, b) of
     (Some x, Some y) \<Rightarrow> (if x \<le> y then (y - x) div 1000 else - ((x - y) div 1000))
   | _ \<Rightarrow> 0)"

definition timer_resume :: "env \<Rightarrow> timer \<Rightarrow> timer" where
  "timer_resume e tm =
     (if \<not> isPaused tm then tm
      else
        (let remainder = interval tm - 1000 * secsTo (mStarted tm) (mPaused tm);
             tm = timer_start e (max 0 remainder) tm
         in tm\<lparr>mPaused := None, mStarted := Some (wall e)\<rparr>))"

section \<open>The scheduler\<close>

text \<open>The virtual functions of a subclass whose own state is \<open>'x\<close>.\<close>

record 'x policy =
  shouldScheduleCollection :: "collection \<Rightarrow> bool"
  hasChanged :: "collection \<Rightarrow> collection \<Rightarrow> bool"
  collectionScheduleInterval :: "collection \<Rightarrow> int"
  collectionExpired :: "env \<Rightarrow> collection \<Rightarrow> 'x \<Rightarrow> 'x"

text \<open>The calls posted to the scheduler's thread.\<close>

datatype posted = StartScheduler | ScheduleCollection collection | Pause | Resume

record 'x csched =
  mSchedule :: "(int \<times> collection) list"
  mScheduler :: timer
  mMinInterval :: int
  posted :: "posted list"
  sub :: 'x

definition post :: "posted \<Rightarrow> 'x csched \<Rightarrow> 'x csched" where
  "post p s = s\<lparr>posted := posted s @ [p]\<rparr>"

definition inhibit :: "bool \<Rightarrow> 'x csched \<Rightarrow> 'x csched" where
  "inhibit b s = post (if b then Pause else Resume) s"

text \<open>The multimap is the list of its entries in iteration order: by key, the newest first among equal keys.\<close>

fun multimap_insert :: "int \<Rightarrow> 'v \<Rightarrow> (int \<times> 'v) list \<Rightarrow> (int \<times> 'v) list" where
  "multimap_insert k v [] = [(k, v)]"
| "multimap_insert k v ((k', v') # m) = (if k' < k then (k', v') # multimap_insert k v m else (k, v) # (k', v') # m)"

fun erase_id :: "int \<Rightarrow> (int \<times> collection) list \<Rightarrow> (int \<times> collection) list" where
  "erase_id i [] = []"
| "erase_id i ((k, c) # m) = (if col_id c = i then m else (k, c) # erase_id i m)"

definition find_id :: "int \<Rightarrow> (int \<times> collection) list \<Rightarrow> (int \<times> collection) option" where
  "find_id i m = List.find (\<lambda>p. col_id (snd p) = i) m"

definition nextScheduledTime :: "int \<Rightarrow> 'x csched \<Rightarrow> int" where
  "nextScheduledTime i s = (case find_id i (mSchedule s) of None \<Rightarrow> 0 | Some p \<Rightarrow> fst p)"

definition currentTimerInterval :: "'x csched \<Rightarrow> int" where
  "currentTimerInterval s = (if isActive (mScheduler s) then interval (mScheduler s) else 0)"

definition startScheduler :: "env \<Rightarrow> 'x csched \<Rightarrow> 'x csched" where
  "startScheduler e s =
     (if isPaused (mScheduler s) then s
      else (case mSchedule s of
              [] \<Rightarrow> s\<lparr>mScheduler := timer_stop (mScheduler s)\<rparr>
            | p # _ \<Rightarrow> s\<lparr>mScheduler := timer_start e (max 0 ((fst p - steady e) div ms)) (mScheduler s)\<rparr>))"

text \<open>The time of a check, moved to that of another check less than a minute later or earlier.\<close>

definition join_check :: "(int \<times> collection) list \<Rightarrow> int \<Rightarrow> int" where
  "join_check m t =
     (let before = takeWhile (\<lambda>p. fst p < t) m; lower = dropWhile (\<lambda>p. fst p < t) m in
      if lower \<noteq> [] \<and> fst (hd lower) - t < minute then fst (hd lower)
      else if before \<noteq> [] \<and> t - fst (last before) < minute then fst (last before)
      else t)"

definition scheduleCollection :: "'x policy \<Rightarrow> env \<Rightarrow> collection \<Rightarrow> bool \<Rightarrow> 'x csched \<Rightarrow> 'x csched option" where
  "scheduleCollection P e c start s =
     do {
       c \<leftarrow> activeCachePolicy (table e) c;
       let s = s\<lparr>mSchedule := erase_id (col_id c) (mSchedule s)\<rparr>;
       if \<not> shouldScheduleCollection P c then Some s
       else do {
         let expireMinutes = max (mMinInterval s) (collectionScheduleInterval P c);
         let nextCheck = join_check (mSchedule s) (steady e + expireMinutes * minute);
         let s = s\<lparr>mSchedule := multimap_insert nextCheck c (mSchedule s)\<rparr>;
         Some (if start \<and> \<not> isActive (mScheduler s) then startScheduler e s else s)
       }
     }"

definition collectionRemoved :: "int \<Rightarrow> 'x csched \<Rightarrow> 'x csched" where
  "collectionRemoved i s =
     (case find_id i (mSchedule s) of
        None \<Rightarrow> s
      | Some p \<Rightarrow>
          (let reschedule = col_id (snd (hd (mSchedule s))) = i;
               s = s\<lparr>mSchedule := erase_id i (mSchedule s)\<rparr>
           in if reschedule then post StartScheduler s else s))"

definition collectionAdded :: "'x policy \<Rightarrow> env \<Rightarrow> int \<Rightarrow> 'x csched \<Rightarrow> 'x csched option" where
  "collectionAdded P e i s =
     do {
       c \<leftarrow> activeCachePolicy (table e) (retrieveById (table e) i);
       Some (if shouldScheduleCollection P c then post (ScheduleCollection c) s else s)
     }"

definition collectionChanged :: "'x policy \<Rightarrow> env \<Rightarrow> int \<Rightarrow> 'x csched \<Rightarrow> 'x csched option" where
  "collectionChanged P e i s =
     (case find_id i (mSchedule s) of
        None \<Rightarrow> collectionAdded P e i s
      | Some p \<Rightarrow>
          do {
            changed \<leftarrow> activeCachePolicy (table e) (retrieveById (table e) i);
            Some (if hasChanged P (snd p) changed then
                    (if shouldScheduleCollection P changed then post (ScheduleCollection changed) s
                     else collectionRemoved i s)
                  else s)
          })"

fun schedule_all :: "'x policy \<Rightarrow> env \<Rightarrow> collection list \<Rightarrow> 'x csched \<Rightarrow> 'x csched option" where
  "schedule_all P e [] s = Some s"
| "schedule_all P e (c # cs) s = scheduleCollection P e c True s \<bind> schedule_all P e cs"

text \<open>\<open>init\<close>; \<open>cs\<close> is the result of the query for all collections (empty when it fails).\<close>

definition csched_new :: "int \<Rightarrow> 'x \<Rightarrow> 'x csched" where
  "csched_new minInterval x = \<lparr>mSchedule = [],
     mScheduler = \<lparr>interval = 0, due = None, mStarted = None, mPaused = None\<rparr>,
     mMinInterval = minInterval, posted = [], sub = x\<rparr>"

definition csched_init :: "'x policy \<Rightarrow> env \<Rightarrow> collection list \<Rightarrow> 'x csched \<Rightarrow> 'x csched option" where
  "csched_init P e cs s = map_option (startScheduler e) (schedule_all P e cs s)"

fun expire_all :: "'x policy \<Rightarrow> env \<Rightarrow> collection list \<Rightarrow> 'x csched \<Rightarrow> 'x csched option" where
  "expire_all P e [] s = Some s"
| "expire_all P e (c # cs) s =
     scheduleCollection P e c False (s\<lparr>sub := collectionExpired P e c (sub s)\<rparr>) \<bind> expire_all P e cs"

definition schedulerTimeout :: "'x policy \<Rightarrow> env \<Rightarrow> 'x csched \<Rightarrow> 'x csched option" where
  "schedulerTimeout P e s =
     (let s = s\<lparr>mScheduler := timer_stop (mScheduler s)\<rparr> in
      case mSchedule s of
        [] \<Rightarrow> None
      | (timestamp, _) # _ \<Rightarrow>
          map_option (startScheduler e)
            (expire_all P e (map snd (filter (\<lambda>p. fst p = timestamp) (mSchedule s)))
              (s\<lparr>mSchedule := filter (\<lambda>p. fst p \<noteq> timestamp) (mSchedule s)\<rparr>)))"

text \<open>A posted call runs in the scheduler's thread.\<close>

definition run_posted :: "'x policy \<Rightarrow> env \<Rightarrow> posted \<Rightarrow> 'x csched \<Rightarrow> 'x csched option" where
  "run_posted P e p s = (case p of
     StartScheduler \<Rightarrow> Some (startScheduler e s)
   | ScheduleCollection c \<Rightarrow> scheduleCollection P e c True s
   | Pause \<Rightarrow> Some (s\<lparr>mScheduler := timer_pause e (mScheduler s)\<rparr>)
   | Resume \<Rightarrow> Some (s\<lparr>mScheduler := timer_resume e (mScheduler s)\<rparr>))"

datatype csched_op = Added int | Changed int | Removed int | Inhibit bool | Dispatch | Timeout

inductive csched_step :: "'x policy \<Rightarrow> 'x csched \<Rightarrow> env \<times> csched_op \<Rightarrow> 'x csched \<Rightarrow> bool" for P where
  added: "collectionAdded P e i s = Some t \<Longrightarrow> csched_step P s (e, Added i) t"
| changed: "collectionChanged P e i s = Some t \<Longrightarrow> csched_step P s (e, Changed i) t"
| removed: "csched_step P s (e, Removed i) (collectionRemoved i s)"
| inhibited: "csched_step P s (e, Inhibit b) (inhibit b s)"
| dispatch: "posted s = p # ps \<Longrightarrow> run_posted P e p (s\<lparr>posted := ps\<rparr>) = Some t \<Longrightarrow> csched_step P s (e, Dispatch) t"
| timeout: "due (mScheduler s) = Some d \<Longrightarrow> d \<le> steady e \<Longrightarrow> schedulerTimeout P e s = Some t \<Longrightarrow>
    csched_step P s (e, Timeout) t"

section \<open>Cache policies\<close>

text \<open>\<open>ps\<close> are the successive parents of a collection, nearest first.\<close>

fun parent_path :: "(int \<rightharpoonup> collection) \<Rightarrow> collection \<Rightarrow> collection list \<Rightarrow> bool" where
  "parent_path t c [] = True"
| "parent_path t c (p # ps) = (parentId c \<noteq> 0 \<and> p = retrieveById t (parentId c) \<and> parent_path t p ps)"

definition root_of :: "collection \<Rightarrow> collection list \<Rightarrow> collection" where
  "root_of c ps = (if ps = [] then c else last ps)"

lemma policy_loop_path:
  assumes "parent_path t p ps" and "list_all cachePolicyInherit ps"
  shows "policy_loop t p c = policy_loop t (root_of p ps) c"
  using assms
proof (induction ps arbitrary: p)
  case (Cons q ps)
  have "policy_loop t p c = policy_loop t q c" using Cons.prems by (subst policy_loop.simps) (simp add: Let_def)
  also have "\<dots> = policy_loop t (root_of q ps) c" using Cons.prems by (intro Cons.IH) auto
  also have "root_of q ps = root_of p (q # ps)" by (simp add: root_of_def)
  finally show ?case .
qed (simp add: root_of_def)

lemma copy_policy_id [simp]: "col_id (copy_policy p c) = col_id c"
  by (simp add: copy_policy_def)

lemma system_default_id [simp]: "col_id (system_default c) = col_id c"
  by (simp add: system_default_def)

lemma policy_loop_id: "policy_loop t p c = Some d \<Longrightarrow> col_id d = col_id c"
proof (rule policy_loop.raw_induct [of "\<lambda>t p c d. col_id d = col_id c"])
  fix loop t p c d
  assume "\<And>t p c d. loop t p c = Some d \<Longrightarrow> col_id d = col_id c"
    and "(if parentId p = 0 then Some (system_default c)
          else let p = retrieveById t (parentId p)
               in if \<not> cachePolicyInherit p then Some (copy_policy p c) else loop t p c) = Some d"
  then show "col_id d = col_id c" by (auto simp: Let_def split: if_splits)
qed

lemma activeCachePolicy_id: "activeCachePolicy t c = Some d \<Longrightarrow> col_id d = col_id c"
  by (auto simp: activeCachePolicy_def policy_loop_id split: if_splits)

section \<open>The schedule\<close>

definition schedule_ok :: "(int \<times> collection) list \<Rightarrow> bool" where
  "schedule_ok m \<longleftrightarrow> sorted (map fst m) \<and> distinct (map (col_id \<circ> snd) m)"

lemma set_multimap_insert [simp]: "set (multimap_insert k v m) = insert (k, v) (set m)"
  by (induction k v m rule: multimap_insert.induct) auto

lemma sorted_multimap_insert: "sorted (map fst m) \<Longrightarrow> sorted (map fst (multimap_insert k v m))"
  by (induction k v m rule: multimap_insert.induct) auto

lemma distinct_multimap_insert:
  "distinct (map (col_id \<circ> snd) (multimap_insert k c m)) \<longleftrightarrow>
   distinct (map (col_id \<circ> snd) m) \<and> col_id c \<notin> (col_id \<circ> snd) ` set m"
  by (induction k c m rule: multimap_insert.induct) auto

lemma set_erase_id: "set (erase_id i m) \<subseteq> set m"
  by (induction i m rule: erase_id.induct) auto

lemma erase_id_eq: "distinct (map (col_id \<circ> snd) m) \<Longrightarrow> erase_id i m = filter (\<lambda>p. col_id (snd p) \<noteq> i) m"
proof (induction i m rule: erase_id.induct)
  case (2 i k c m)
  then show ?case by (force intro!: filter_True [symmetric])
qed simp

lemma sorted_filter_fst: "sorted (map fst m) \<Longrightarrow> sorted (map fst (filter P m))"
  by (induction m) auto

lemma schedule_ok_filter: "schedule_ok m \<Longrightarrow> schedule_ok (filter P m)"
  by (simp add: schedule_ok_def sorted_filter_fst distinct_map_filter)

lemma schedule_ok_erase: "schedule_ok m \<Longrightarrow> schedule_ok (erase_id i m)"
  by (simp add: erase_id_eq schedule_ok_filter schedule_ok_def [of m, THEN iffD1, THEN conjunct2])

lemma schedule_ok_replace:
  "schedule_ok m \<Longrightarrow> schedule_ok (multimap_insert k c (erase_id (col_id c) m))"
proof -
  assume ok: "schedule_ok m"
  then have "erase_id (col_id c) m = filter (\<lambda>p. col_id (snd p) \<noteq> col_id c) m"
    by (simp add: erase_id_eq schedule_ok_def)
  then show ?thesis using schedule_ok_erase [OF ok, of "col_id c"]
    by (auto simp: schedule_ok_def sorted_multimap_insert distinct_multimap_insert)
qed

text \<open>A check is moved by less than a minute.\<close>

lemma join_check_bounds:
  "t - minute < join_check m t \<and> join_check m t < t + minute"
proof -
  let ?lower = "dropWhile (\<lambda>p. fst p < t) m" and ?before = "takeWhile (\<lambda>p. fst p < t) m"
  consider "?lower \<noteq> []" "fst (hd ?lower) - t < minute" "join_check m t = fst (hd ?lower)"
    | "?before \<noteq> []" "t - fst (last ?before) < minute" "join_check m t = fst (last ?before)"
    | "join_check m t = t"
    unfolding join_check_def Let_def by meson
  then show ?thesis
  proof cases
    case 1
    then show ?thesis using hd_dropWhile [OF 1(1)] by simp
  next
    case 2
    then show ?thesis using set_takeWhileD [OF last_in_set [OF 2(1)]] by simp
  qed simp
qed

lemma frame_startScheduler [simp]:
  "mSchedule (startScheduler e s) = mSchedule s" "posted (startScheduler e s) = posted s"
  "sub (startScheduler e s) = sub s" "mMinInterval (startScheduler e s) = mMinInterval s"
  by (simp_all add: startScheduler_def split: list.splits)

text \<open>The two results of \<open>scheduleCollection\<close> on the schedule.\<close>

lemma scheduleCollection_cases:
  assumes "scheduleCollection P e c b s = Some t"
  obtains d where "activeCachePolicy (table e) c = Some d" "col_id d = col_id c" "\<not> shouldScheduleCollection P d"
      "t = s\<lparr>mSchedule := erase_id (col_id c) (mSchedule s)\<rparr>"
    | d k where "activeCachePolicy (table e) c = Some d" "col_id d = col_id c" "shouldScheduleCollection P d"
      "k = join_check (erase_id (col_id c) (mSchedule s))
             (steady e + max (mMinInterval s) (collectionScheduleInterval P d) * minute)"
      "mSchedule t = multimap_insert k d (erase_id (col_id c) (mSchedule s))"
      "sub t = sub s" "posted t = posted s" "mMinInterval t = mMinInterval s"
      "if b \<and> \<not> isActive (mScheduler s)
       then t = startScheduler e (s\<lparr>mSchedule := multimap_insert k d (erase_id (col_id c) (mSchedule s))\<rparr>)
       else mScheduler t = mScheduler s"
proof -
  obtain d where d: "activeCachePolicy (table e) c = Some d"
    using assms by (auto simp: scheduleCollection_def split: Option.bind_splits)
  note id = activeCachePolicy_id [OF d]
  show ?thesis
  proof (cases "shouldScheduleCollection P d")
    case False
    then show ?thesis using that(1) [OF d id] assms d id by (simp add: scheduleCollection_def Let_def)
  next
    case True
    then show ?thesis using assms d id
      by (intro that(2) [OF d id True]) (auto simp: scheduleCollection_def Let_def split: if_splits)
  qed
qed

lemma scheduleCollection_ok:
  "scheduleCollection P e c b s = Some t \<Longrightarrow> schedule_ok (mSchedule s) \<Longrightarrow> schedule_ok (mSchedule t)"
proof (erule scheduleCollection_cases, goal_cases)
  case (2 d k)
  then show ?case using schedule_ok_replace [of "mSchedule s" k d] by simp
qed (simp add: schedule_ok_erase)

section \<open>The invariant\<close>

text \<open>A schedule with entries has a running timer, a paused one, or a posted start.\<close>

definition alive :: "timer \<Rightarrow> bool" where
  "alive tm \<longleftrightarrow> isActive tm \<or> isPaused tm"

definition awake :: "'x csched \<Rightarrow> bool" where
  "awake s \<longleftrightarrow> (mSchedule s \<noteq> [] \<longrightarrow> alive (mScheduler s) \<or> StartScheduler \<in> set (posted s))"

definition csched_inv :: "'x csched \<Rightarrow> bool" where
  "csched_inv s \<longleftrightarrow> schedule_ok (mSchedule s) \<and> awake s"

lemma startScheduler_awake: "awake (startScheduler e s)"
  by (auto simp: awake_def startScheduler_def alive_def isActive_def timer_start_def split: list.splits)

lemma startScheduler_inv: "schedule_ok (mSchedule s) \<Longrightarrow> csched_inv (startScheduler e s)"
  by (simp add: csched_inv_def startScheduler_awake)

lemma scheduleCollection_inv:
  assumes "scheduleCollection P e c True s = Some t" and "csched_inv s"
  shows "csched_inv t"
proof -
  have ok: "schedule_ok (mSchedule t)" using scheduleCollection_ok assms by (auto simp: csched_inv_def)
  from assms(1) show ?thesis
  proof (cases rule: scheduleCollection_cases)
    case (1 d)
    then show ?thesis using ok assms(2) set_erase_id [of "col_id c" "mSchedule s"]
      by (auto simp: csched_inv_def awake_def)
  next
    case (2 d k)
    then have "isActive (mScheduler t) \<or> (\<exists>u. t = startScheduler e u)"
      by (cases "isActive (mScheduler s)") auto
    then have "awake t" using startScheduler_awake [of e] by (metis awake_def alive_def)
    then show ?thesis using ok by (simp add: csched_inv_def)
  qed
qed

lemma schedule_removed_inv: "csched_inv s \<Longrightarrow> csched_inv (collectionRemoved i s)"
  using set_erase_id [of i "mSchedule s"]
  by (auto simp: collectionRemoved_def csched_inv_def schedule_ok_erase post_def awake_def Let_def split: option.splits)

lemma post_inv: "csched_inv s \<Longrightarrow> csched_inv (post p s)"
  by (auto simp: csched_inv_def awake_def post_def)

lemma collectionAdded_inv: "collectionAdded P e i s = Some t \<Longrightarrow> csched_inv s \<Longrightarrow> csched_inv t"
  by (auto simp: collectionAdded_def post_inv split: Option.bind_splits if_splits)

lemma collectionChanged_inv: "collectionChanged P e i s = Some t \<Longrightarrow> csched_inv s \<Longrightarrow> csched_inv t"
  by (auto simp: collectionChanged_def collectionAdded_inv schedule_removed_inv post_inv
      split: option.splits Option.bind_splits if_splits)

lemma expire_all_ok:
  "expire_all P e cs s = Some t \<Longrightarrow> schedule_ok (mSchedule s) \<Longrightarrow> schedule_ok (mSchedule t)"
proof (induction cs arbitrary: s)
  case (Cons c cs)
  then obtain u where "scheduleCollection P e c False (s\<lparr>sub := collectionExpired P e c (sub s)\<rparr>) = Some u"
      "expire_all P e cs u = Some t" by (auto split: Option.bind_splits)
  then show ?case using Cons.IH scheduleCollection_ok [of P e c False] Cons.prems(2) by fastforce
qed simp

text \<open>What a timeout does: the entries of the first key expire and are scheduled anew.\<close>

lemma schedulerTimeout_cases:
  assumes "schedulerTimeout P e s = Some t"
  obtains k c m u where "mSchedule s = (k, c) # m"
    "expire_all P e (map snd (filter (\<lambda>p. fst p = k) (mSchedule s)))
       (s\<lparr>mScheduler := timer_stop (mScheduler s), mSchedule := filter (\<lambda>p. fst p \<noteq> k) (mSchedule s)\<rparr>) = Some u"
    "t = startScheduler e u"
  using assms by (auto simp: schedulerTimeout_def Let_def split: list.splits)

lemma schedulerTimeout_inv: "schedulerTimeout P e s = Some t \<Longrightarrow> csched_inv s \<Longrightarrow> csched_inv t"
  by (erule schedulerTimeout_cases)
    (simp del: filter.simps add: csched_inv_def startScheduler_awake expire_all_ok schedule_ok_filter)

lemma timer_pause_alive [simp]: "alive (timer_pause e tm) = alive tm"
  by (auto simp: alive_def timer_pause_def isPaused_def)

lemma timer_resume_alive [simp]: "alive (timer_resume e tm) = alive tm"
  by (auto simp: alive_def timer_resume_def Let_def timer_start_def isActive_def)

lemma run_posted_inv:
  assumes "run_posted P e p (s\<lparr>posted := ps\<rparr>) = Some t" and "csched_inv s" and "posted s = p # ps"
  shows "csched_inv t"
proof (cases p)
  case (ScheduleCollection c)
  then have "csched_inv (s\<lparr>posted := ps\<rparr>)" using assms(2, 3) by (auto simp: csched_inv_def awake_def)
  then show ?thesis using assms(1) ScheduleCollection scheduleCollection_inv by (auto simp: run_posted_def)
next
  case StartScheduler
  then show ?thesis using assms startScheduler_inv [of "s\<lparr>posted := ps\<rparr>"] by (auto simp: run_posted_def csched_inv_def)
qed (use assms in \<open>auto simp: run_posted_def csched_inv_def awake_def\<close>)

lemma csched_step_inv: "csched_step P s l t \<Longrightarrow> csched_inv s \<Longrightarrow> csched_inv t"
  by (induction rule: csched_step.induct)
    (auto simp: collectionAdded_inv collectionChanged_inv schedule_removed_inv inhibit_def post_inv run_posted_inv
      schedulerTimeout_inv)

lemma schedule_all_inv: "schedule_all P e cs s = Some t \<Longrightarrow> csched_inv s \<Longrightarrow> csched_inv t"
  by (induction cs arbitrary: s) (auto split: Option.bind_splits dest: scheduleCollection_inv)

definition csched_start :: "'x policy \<Rightarrow> 'x csched \<Rightarrow> bool" where
  "csched_start P s \<longleftrightarrow> (\<exists>e cs mi x. csched_init P e cs (csched_new mi x) = Some s)"

lemma csched_start_inv: "csched_start P s \<Longrightarrow> csched_inv s"
proof -
  assume "csched_start P s"
  then obtain e cs mi x u where u: "schedule_all P e cs (csched_new mi x) = Some u" "s = startScheduler e u"
    by (auto simp: csched_start_def csched_init_def)
  have "csched_inv (csched_new mi x)" by (simp add: csched_inv_def csched_new_def schedule_ok_def awake_def)
  then have "schedule_ok (mSchedule u)" using schedule_all_inv [OF u(1)] by (simp add: csched_inv_def)
  then show "csched_inv s" using u(2) startScheduler_inv by blast
qed

interpretation schedule: inductive_invariant "csched_start P" "csched_step P" csched_inv for P
  by unfold_locales (auto intro: csched_start_inv csched_step_inv)

section \<open>Subclasses\<close>

text \<open>What the scheduler needs from a subclass: a collection it wants scheduled is checked at least a minute
  from now.\<close>

locale check_policy =
  fixes P :: "'x policy" and minInterval :: int
  assumes check_later: "shouldScheduleCollection P c \<Longrightarrow> 1 \<le> max minInterval (collectionScheduleInterval P c)"
begin

lemma schedule_later:
  assumes "scheduleCollection P e c b s = Some t" and "mMinInterval s = minInterval"
    and "(k, d) \<in> set (mSchedule t)"
  shows "(k, d) \<in> set (mSchedule s) \<or> (col_id d = col_id c \<and> steady e < k)"
  using assms(1)
proof (cases rule: scheduleCollection_cases)
  case (1 d')
  then show ?thesis using assms(3) set_erase_id [of "col_id c" "mSchedule s"] by auto
next
  case (2 d' k')
  let ?m = "max minInterval (collectionScheduleInterval P d')"
  have "steady e + ?m * minute - minute < k'"
    using join_check_bounds [of "steady e + ?m * minute"] 2(4) assms(2) by simp
  moreover have "1 \<le> ?m" using check_later [OF 2(3)] .
  ultimately have "steady e < k'" by linarith
  then show ?thesis using assms(3) 2(2, 5) set_erase_id [of "col_id c" "mSchedule s"] by auto
qed

lemma schedule_min_interval: "scheduleCollection P e c b s = Some t \<Longrightarrow> mMinInterval t = mMinInterval s"
  by (erule scheduleCollection_cases) simp_all

lemma expire_all_later:
  assumes "expire_all P e cs s = Some t" and "mMinInterval s = minInterval" and "(k, d) \<in> set (mSchedule t)"
  shows "(k, d) \<in> set (mSchedule s) \<or> (col_id d \<in> col_id ` set cs \<and> steady e < k)"
  using assms
proof (induction cs arbitrary: s)
  case (Cons c cs)
  let ?s = "s\<lparr>sub := collectionExpired P e c (sub s)\<rparr>"
  obtain u where u: "scheduleCollection P e c False ?s = Some u" "expire_all P e cs u = Some t"
    using Cons.prems(1) by (auto split: Option.bind_splits)
  have "mMinInterval u = minInterval" using schedule_min_interval [OF u(1)] Cons.prems(2) by simp
  from Cons.IH [OF u(2) this Cons.prems(3)] show ?case
    using schedule_later [OF u(1), of k d] Cons.prems(2) by auto
qed simp

text \<open>A timeout leaves the later entries alone and moves the expired ones into the future.\<close>

lemma timeout_later:
  assumes "schedulerTimeout P e s = Some t" and "mMinInterval s = minInterval" and "(k, d) \<in> set (mSchedule t)"
  shows "((k, d) \<in> set (mSchedule s) \<and> k \<noteq> fst (hd (mSchedule s))) \<or>
    (steady e < k \<and> (\<exists>c. (fst (hd (mSchedule s)), c) \<in> set (mSchedule s) \<and> col_id c = col_id d))"
  using assms(1)
proof (cases rule: schedulerTimeout_cases)
  case (1 k0 c0 m u)
  have "(k, d) \<in> set (mSchedule u)" using assms(3) 1(3) by simp
  from expire_all_later [OF 1(2) _ this] assms(2) show ?thesis using 1(1) by force
qed

end

lemma find_id_insert:
  assumes "distinct (map (col_id \<circ> snd) m)"
  shows "find_id (col_id c) (multimap_insert k c (erase_id (col_id c) m)) = Some (k, c)"
proof -
  have "find_id (col_id c) (multimap_insert k c n) = Some (k, c)" if "\<forall>p \<in> set n. col_id (snd p) \<noteq> col_id c" for n
    using that by (induction k c n rule: multimap_insert.induct) (auto simp: find_id_def)
  then show ?thesis using erase_id_eq [OF assms] by simp
qed

end
