(* ===== verification/IntervalCheck.thy ===== *)
theory IntervalCheck
  imports CollectionScheduler
begin

text \<open>
  \<open>src/server/intervalcheck.cpp\<close>: the scheduler that triggers the periodic synchronisation of collections, and
  the properties of the scheduler that need a concrete subclass for their examples.
\<close>

section \<open>The subclass\<close>

datatype trigger = TriggerCollectionSync string int | TriggerCollectionTreeSync string

text \<open>\<open>triggered\<close> are the calls of the item retrieval manager, each with the time of the wall clock.\<close>

record checks =
  mLastChecks :: "int \<rightharpoonup> int"
  mLastCollectionTreeSyncs :: "string \<rightharpoonup> int"
  triggered :: "(int \<times> trigger) list"

definition resource_name :: "env \<Rightarrow> collection \<Rightarrow> string" where
  "resource_name e c = (case resources e (resourceId c) of None \<Rightarrow> [] | Some n \<Rightarrow> n)"

definition tree_check :: "env \<Rightarrow> collection \<Rightarrow> checks \<Rightarrow> checks" where
  "tree_check e c x =
     (if parentId c = 0 then
        (let name = resource_name e c;
             lastExpectedCheck = wall e - max 5 (cachePolicyCheckInterval c) * 60 * 1000
         in if (case mLastCollectionTreeSyncs x name of None \<Rightarrow> True | Some l \<Rightarrow> l < lastExpectedCheck) then
              x\<lparr>mLastCollectionTreeSyncs := (mLastCollectionTreeSyncs x)(name \<mapsto> wall e),
                triggered := triggered x @ [(wall e, TriggerCollectionTreeSync name)]\<rparr>
            else x)
      else x)"

definition collection_check :: "env \<Rightarrow> collection \<Rightarrow> checks \<Rightarrow> checks" where
  "collection_check e c x =
     (let lastExpectedCheck = wall e - max 5 (cachePolicyCheckInterval c) * 60 * 1000 in
      if (case mLastChecks x (col_id c) of None \<Rightarrow> False | Some l \<Rightarrow> lastExpectedCheck < l) then x
      else x\<lparr>mLastChecks := (mLastChecks x)(col_id c \<mapsto> wall e),
             triggered := triggered x @ [(wall e, TriggerCollectionSync (resource_name e c) (col_id c))]\<rparr>)"

definition interval_expired :: "env \<Rightarrow> collection \<Rightarrow> checks \<Rightarrow> checks" where
  "interval_expired e c x = collection_check e c (tree_check e c x)"

definition interval_shouldSchedule :: "collection \<Rightarrow> bool" where
  "interval_shouldSchedule c \<longleftrightarrow> 0 < cachePolicyCheckInterval c \<and>
     (syncPref c = TTrue \<or> (syncPref c = TUndefined \<and> enabled c))"

definition interval_hasChanged :: "collection \<Rightarrow> collection \<Rightarrow> bool" where
  "interval_hasChanged old new \<longleftrightarrow> cachePolicyCheckInterval old \<noteq> cachePolicyCheckInterval new \<or>
     enabled old \<noteq> enabled new \<or> syncPref old \<noteq> syncPref new"

definition interval_policy :: "checks policy" where
  "interval_policy = \<lparr>shouldScheduleCollection = interval_shouldSchedule, hasChanged = interval_hasChanged,
     collectionScheduleInterval = cachePolicyCheckInterval, collectionExpired = interval_expired\<rparr>"

definition no_checks :: checks where
  "no_checks = \<lparr>mLastChecks = Map.empty, mLastCollectionTreeSyncs = Map.empty, triggered = []\<rparr>"

interpretation interval_check: check_policy interval_policy minInterval for minInterval
  by unfold_locales (auto simp: interval_policy_def interval_shouldSchedule_def)

section \<open>Rate limit\<close>

text \<open>What is remembered is the time of the last trigger, and triggers of the same kind are spaced.\<close>

fun same_target :: "trigger \<Rightarrow> trigger \<Rightarrow> bool" where
  "same_target (TriggerCollectionSync _ i) (TriggerCollectionSync _ j) = (i = j)"
| "same_target (TriggerCollectionTreeSync r) (TriggerCollectionTreeSync r') = (r = r')"
| "same_target _ _ = False"

fun last_time :: "checks \<Rightarrow> trigger \<Rightarrow> int option" where
  "last_time x (TriggerCollectionSync _ i) = mLastChecks x i"
| "last_time x (TriggerCollectionTreeSync r) = mLastCollectionTreeSyncs x r"

fun spaced :: "(int \<times> trigger) list \<Rightarrow> bool" where
  "spaced [] = True"
| "spaced ((t, g) # ls) = ((\<forall>(t', g') \<in> set ls. same_target g g' \<longrightarrow> t + 300000 \<le> t') \<and> spaced ls)"

definition checks_ok :: "checks \<Rightarrow> bool" where
  "checks_ok x \<longleftrightarrow> spaced (triggered x) \<and>
     (\<forall>(t, g) \<in> set (triggered x). \<exists>l. last_time x g = Some l \<and> t \<le> l)"

lemma spaced_snoc:
  "spaced (ls @ [(t, g)]) \<longleftrightarrow> spaced ls \<and> (\<forall>(t', g') \<in> set ls. same_target g' g \<longrightarrow> t' + 300000 \<le> t)"
  by (induction ls rule: spaced.induct) auto

lemma last_time_same: "same_target g g' \<Longrightarrow> last_time x g = last_time x g'"
  by (cases g; cases g') auto

text \<open>A trigger that respects the remembered time keeps the spacing.\<close>

lemma checks_ok_trigger:
  assumes ok: "checks_ok x" and fresh: "\<And>l. last_time x g = Some l \<Longrightarrow> l + 300000 \<le> now"
    and log: "triggered y = triggered x @ [(now, g)]"
    and times: "\<And>g'. last_time y g' = (if same_target g' g then Some now else last_time x g')"
    and refl: "same_target g g"
  shows "checks_ok y"
proof -
  have before: "t + 300000 \<le> now" if e: "(t, g') \<in> set (triggered x)" and s: "same_target g' g" for t g'
  proof -
    obtain l where "last_time x g' = Some l" "t \<le> l" using e ok by (auto simp: checks_ok_def)
    then show ?thesis using fresh [of l] last_time_same [OF s, of x] by simp
  qed
  moreover have "\<exists>l. last_time y g' = Some l \<and> t \<le> l" if e: "(t, g') \<in> set (triggered x)" for t g'
    using e ok times [of g'] before [OF e] by (auto simp: checks_ok_def)
  ultimately show ?thesis using ok log times [of g] refl by (auto simp: checks_ok_def spaced_snoc)
qed

lemma last_time_sync:
  "last_time (x\<lparr>mLastChecks := (mLastChecks x)(i \<mapsto> now), triggered := ts\<rparr>) g =
   (if same_target g (TriggerCollectionSync r i) then Some now else last_time x g)"
  by (cases g) auto

lemma last_time_tree:
  "last_time (x\<lparr>mLastCollectionTreeSyncs := (mLastCollectionTreeSyncs x)(r \<mapsto> now), triggered := ts\<rparr>) g =
   (if same_target g (TriggerCollectionTreeSync r) then Some now else last_time x g)"
  by (cases g) auto

lemma tree_check_ok: "checks_ok x \<Longrightarrow> checks_ok (tree_check e c x)"
  using checks_ok_trigger [where g = "TriggerCollectionTreeSync (resource_name e c)" and now = "wall e", of x, OF _ _ _ last_time_tree]
  by (force simp: tree_check_def Let_def split: option.splits)

lemma collection_check_ok: "checks_ok x \<Longrightarrow> checks_ok (collection_check e c x)"
  using checks_ok_trigger [where g = "TriggerCollectionSync (resource_name e c) (col_id c)" and now = "wall e", of x,
      OF _ _ _ last_time_sync]
  by (force simp: collection_check_def Let_def split: option.splits)

lemma fold_expired_ok: "checks_ok x \<Longrightarrow> checks_ok (fold (\<lambda>(e, c). interval_expired e c) ecs x)"
  by (induction ecs arbitrary: x) (auto simp: interval_expired_def collection_check_ok tree_check_ok)

lemma spaced_nth:
  "spaced ls \<Longrightarrow> i < j \<Longrightarrow> j < length ls \<Longrightarrow> same_target (snd (ls ! i)) (snd (ls ! j)) \<Longrightarrow>
   fst (ls ! i) + 300000 \<le> fst (ls ! j)"
proof (induction ls arbitrary: i j rule: spaced.induct)
  case (2 t g ls)
  then obtain k where k: "j = Suc k" "k < length ls" by (cases j) auto
  then have "ls ! k \<in> set ls" by simp
  with 2 k show ?case by (cases i) (auto simp: split_beta)
qed simp

section \<open>Properties\<close>

definition hourly :: collection where
  "hourly = invalid_collection\<lparr>col_id := 2, resourceId := 1, cachePolicyInherit := False,
     cachePolicyCheckInterval := 60\<rparr>"

definition daily :: collection where
  "daily = hourly\<lparr>col_id := 3, cachePolicyCheckInterval := 1440\<rparr>"

definition sample_env :: env where
  "sample_env = \<lparr>steady = 1000, wall = 5000000, table = [2 \<mapsto> hourly, 3 \<mapsto> daily], resources = [1 \<mapsto> ''imap'']\<rparr>"

definition started :: "checks csched" where
  "started = csched_new 5 no_checks\<lparr>mSchedule := [(1000 + 1440 * minute, daily)],
     mScheduler := \<lparr>interval = 86400000, due = Some (1000 + 1440 * minute), mStarted = Some 5000000, mPaused = None\<rparr>\<rparr>"

lemmas sample_defs = hourly_def daily_def invalid_collection_def sample_env_def started_def csched_new_def
  scheduleCollection_def activeCachePolicy_def interval_policy_def interval_shouldSchedule_def join_check_def
  startScheduler_def isActive_def isPaused_def timer_start_def csched_init_def

lemma started_init: "csched_init interval_policy sample_env [daily] (csched_new 5 no_checks) = Some started"
  by (simp add: sample_defs)

lemma started_reach: "reach (csched_start interval_policy) (csched_step interval_policy) started"
  by (rule reach.start) (use started_init in \<open>auto simp: csched_start_def\<close>)

text \<open>In every reachable state of the scheduler, whatever calls arrive from other threads, the schedule is
  sorted by time and holds every collection at most once; and a schedule with entries is never forgotten: its
  timer runs, or is paused, or a start of it is posted.\<close>

theorem schedule_never_forgotten:
  assumes "reach (csched_start P) (csched_step P) s"
  shows "sorted (map fst (mSchedule s)) \<and> distinct (map (col_id \<circ> snd) (mSchedule s)) \<and>
    (mSchedule s \<noteq> [] \<longrightarrow>
       isActive (mScheduler s) \<or> isPaused (mScheduler s) \<or> StartScheduler \<in> set (posted s))"
  using schedule.reach_inv [OF assms] by (auto simp: csched_inv_def schedule_ok_def awake_def alive_def)

theorem schedule_never_forgotten_witness: "isActive (mScheduler started) \<and> mSchedule started \<noteq> []"
  using schedule_never_forgotten [OF started_reach] by (simp add: started_def isPaused_def csched_new_def)

text \<open>(C39) A collection to be scheduled is scheduled at a time that is less than a minute away from now plus the larger one of its interval and the
  minimum interval of the scheduler: joining it with a neighbouring check never moves it by a minute or more.\<close>

theorem check_time_bounds:
  assumes "scheduleCollection P e c b s = Some t" and "activeCachePolicy (table e) c = Some d"
    and "shouldScheduleCollection P d" and "schedule_ok (mSchedule s)"
  shows "\<bar>nextScheduledTime (col_id c) t -
     (steady e + max (mMinInterval s) (collectionScheduleInterval P d) * minute)\<bar> < minute"
  using assms(1)
proof (cases rule: scheduleCollection_cases)
  case (2 d' k)
  have "d' = d" using 2(1) assms(2) by simp
  moreover have "find_id (col_id c) (mSchedule t) = Some (k, d')"
    using find_id_insert [of "mSchedule s" d' k] assms(4) 2(2, 5) by (simp add: schedule_ok_def)
  ultimately have "nextScheduledTime (col_id c) t = k" by (simp add: nextScheduledTime_def)
  moreover have "\<bar>k - (steady e + max (mMinInterval s) (collectionScheduleInterval P d) * minute)\<bar> < minute"
    unfolding 2(4) \<open>d' = d\<close> abs_less_iff
    using join_check_bounds [of "steady e + max (mMinInterval s) (collectionScheduleInterval P d) * minute"
        "erase_id (col_id c) (mSchedule s)"] by linarith
  ultimately show ?thesis by simp
qed (use assms(2, 3) in auto)

theorem check_time_bounds_witness:
  "\<exists>t. scheduleCollection interval_policy sample_env hourly True started = Some t \<and>
     \<bar>nextScheduledTime 2 t - (1000 + 60 * minute)\<bar> < minute"
proof -
  obtain t where t: "scheduleCollection interval_policy sample_env hourly True started = Some t"
    by (simp add: sample_defs)
  have "activeCachePolicy (table sample_env) hourly = Some hourly" "shouldScheduleCollection interval_policy hourly"
    "schedule_ok (mSchedule started)" by (simp_all add: sample_defs schedule_ok_def)
  from check_time_bounds [OF t this] have "\<bar>nextScheduledTime 2 t - (1000 + 60 * minute)\<bar> < minute"
    by (simp add: sample_defs)
  with t show ?thesis by blast
qed

text \<open>A timeout of the interval check makes progress: afterwards an entry of the schedule is either one that
  was not due, untouched, or belongs to an expired collection and lies strictly in the future. So an expired
  collection is never due again at once.\<close>

theorem timeout_makes_progress:
  assumes "schedulerTimeout interval_policy e s = Some t" and "(k, d) \<in> set (mSchedule t)"
  shows "((k, d) \<in> set (mSchedule s) \<and> k \<noteq> fst (hd (mSchedule s))) \<or>
    (steady e < k \<and> (\<exists>c. (fst (hd (mSchedule s)), c) \<in> set (mSchedule s) \<and> col_id c = col_id d))"
  using assms by (intro interval_check.timeout_later) auto

theorem timeout_makes_progress_witness:
  "\<exists>t. schedulerTimeout interval_policy sample_env started = Some t \<and>
     (\<exists>k. mSchedule t = [(k, daily)] \<and> 1000 < k)"
proof -
  obtain t where t: "schedulerTimeout interval_policy sample_env started = Some t"
      "mSchedule t = [(1000 + 1440 * minute, daily)]"
    by (simp add: schedulerTimeout_def sample_defs timer_stop_def Let_def)
  from timeout_makes_progress [OF t(1), of "1000 + 1440 * minute" daily] t show ?thesis
    by (auto simp: started_def sample_env_def csched_new_def)
qed

text \<open>Pausing and resuming lets the timer run for the rest of its interval: after a pause the resumed timer
  is due no earlier than the time that was left, and less than a second later (the elapsed time is rounded down to
  whole seconds).\<close>

theorem pause_resume_remaining:
  assumes "0 \<le> iv" and "wall e0 \<le> wall e1"
  shows "let tm = timer_resume e2 (timer_pause e1 (timer_start e0 iv tm0)); left = iv - (wall e1 - wall e0) in
     isActive tm \<and> \<not> isPaused tm \<and>
     (\<exists>r. due tm = Some (steady e2 + r * ms) \<and> interval tm = r \<and> max 0 left \<le> r \<and> r < max 0 left + 1000)"
proof -
  let ?el = "wall e1 - wall e0"
  let ?r = "max 0 (iv - 1000 * (?el div 1000))"
  have "1000 * (?el div 1000) + ?el mod 1000 = ?el" "0 \<le> ?el mod 1000" "?el mod 1000 < 1000" by simp_all
  then have "max 0 (iv - ?el) \<le> ?r" "?r < max 0 (iv - ?el) + 1000" by linarith+
  moreover have "timer_resume e2 (timer_pause e1 (timer_start e0 iv tm0)) =
      \<lparr>interval = ?r, due = Some (steady e2 + ?r * ms), mStarted = Some (wall e2), mPaused = None\<rparr>"
    using assms by (simp add: timer_resume_def timer_pause_def timer_start_def isActive_def isPaused_def secsTo_def Let_def)
  ultimately show ?thesis by (simp add: Let_def isActive_def isPaused_def)
qed

theorem pause_resume_remaining_witness:
  "\<exists>r. due (timer_resume sample_env (timer_pause (sample_env\<lparr>wall := 5002500\<rparr>)
      (timer_start sample_env 10000 (mScheduler started)))) = Some (1000 + r * ms) \<and> 7500 \<le> r \<and> r < 8500"
  using pause_resume_remaining [of 10000 sample_env "sample_env\<lparr>wall := 5002500\<rparr>" sample_env "mScheduler started"]
  by (auto simp: sample_env_def Let_def)

text \<open>Two synchronisations of the same collection, and two tree synchronisations of the same resource, that
  the interval check triggers are at least five minutes of the wall clock apart, for any sequence of expiries and
  requested checks and any behaviour of the clock.\<close>

theorem sync_rate_limit:
  assumes "x = fold (\<lambda>(e, c). interval_expired e c) ecs no_checks"
    and "i < j" and "j < length (triggered x)"
    and "same_target (snd (triggered x ! i)) (snd (triggered x ! j))"
  shows "fst (triggered x ! i) + 5 * 60 * 1000 \<le> fst (triggered x ! j)"
proof -
  have "checks_ok no_checks" by (simp add: checks_ok_def no_checks_def)
  from fold_expired_ok [OF this, of ecs] have "spaced (triggered x)" using assms(1) by (simp add: checks_ok_def)
  from spaced_nth [OF this assms(2-4)] show ?thesis by simp
qed

theorem sync_rate_limit_witness:
  "let x = fold (\<lambda>(e, c). interval_expired e c) [(sample_env, daily\<lparr>parentId := 9\<rparr>), (sample_env\<lparr>wall := 91400000\<rparr>, daily\<lparr>parentId := 9\<rparr>)]
     no_checks in fst (triggered x ! 0) + 300000 \<le> fst (triggered x ! 1)"
  using sync_rate_limit [OF refl, of 0 1 "[(sample_env, daily\<lparr>parentId := 9\<rparr>), (sample_env\<lparr>wall := 91400000\<rparr>, daily\<lparr>parentId := 9\<rparr>)]"]
  by (simp add: interval_expired_def collection_check_def tree_check_def sample_env_def daily_def hourly_def
      invalid_collection_def no_checks_def resource_name_def Let_def)

text \<open>After a timeout, and after every start of the scheduler that is not paused, the timer is due no later than
  the earliest entry, or now when that entry is already past.\<close>

theorem timer_is_set_to_first_entry:
  assumes "\<not> isPaused (mScheduler s)" and "mSchedule s = (k, c) # m"
  shows "\<exists>d. due (mScheduler (startScheduler e s)) = Some d \<and> d \<le> max (steady e) k \<and> max (steady e) k < d + ms"
proof -
  let ?q = "(k - steady e) div ms"
  have "due (mScheduler (startScheduler e s)) = Some (steady e + max 0 ?q * ms)"
    using assms by (simp add: startScheduler_def timer_start_def)
  moreover have "?q * ms + (k - steady e) mod ms = k - steady e" "0 \<le> (k - steady e) mod ms" "(k - steady e) mod ms < ms"
    by simp_all
  then have "steady e + max 0 ?q * ms \<le> max (steady e) k \<and> max (steady e) k < steady e + max 0 ?q * ms + ms"
    by linarith
  ultimately show ?thesis by blast
qed

theorem timer_is_set_to_first_entry_witness:
  "\<exists>d. due (mScheduler (startScheduler sample_env started)) = Some d \<and> d \<le> 1000 + 1440 * minute"
  using timer_is_set_to_first_entry [of started "1000 + 1440 * minute" daily "[]" sample_env]
  by (auto simp: started_def csched_new_def isPaused_def sample_env_def)

text \<open>An earlier collection waits: scheduling a collection while the timer runs leaves the timer alone, also
  when the new entry is due before the timer. Here a collection with an hourly check joins one with a daily check:
  its check is scheduled in an hour, but the timer still fires only in a day.\<close>

theorem earlier_collection_waits:
  "(isActive (mScheduler s) \<and> scheduleCollection P e c b s = Some t \<longrightarrow> mScheduler t = mScheduler s) \<and>
   (\<exists>u. scheduleCollection interval_policy sample_env hourly True started = Some u \<and>
     nextScheduledTime 2 u = 1000 + 60 * minute \<and> due (mScheduler u) = Some (1000 + 1440 * minute))"
proof
  show "isActive (mScheduler s) \<and> scheduleCollection P e c b s = Some t \<longrightarrow> mScheduler t = mScheduler s"
    by (auto elim!: scheduleCollection_cases)
  show "\<exists>u. scheduleCollection interval_policy sample_env hourly True started = Some u \<and>
     nextScheduledTime 2 u = 1000 + 60 * minute \<and> due (mScheduler u) = Some (1000 + 1440 * minute)"
    by (simp add: sample_defs nextScheduledTime_def find_id_def)
qed

theorem earlier_collection_waits_witness:
  "\<exists>u. scheduleCollection interval_policy sample_env hourly True started = Some u \<and> mScheduler u = mScheduler started"
proof -
  obtain u where u: "scheduleCollection interval_policy sample_env hourly True started = Some u"
    by (simp add: sample_defs)
  have "isActive (mScheduler started)" by (simp add: started_def isActive_def csched_new_def)
  with u earlier_collection_waits [of started interval_policy sample_env hourly True u] show ?thesis by blast
qed

text \<open>A timeout on an empty schedule can happen: when the only collection is removed while the scheduler is
  paused, the posted start does nothing, the resume restarts the old timer, and the timeout then reads the first key of
  an empty map. The scheduler never checks for it.\<close>

theorem timeout_on_empty_schedule:
  assumes "mSchedule s = [(k, c)]" and "isActive (mScheduler s)" and "\<not> isPaused (mScheduler s)" and "posted s = []"
  shows "\<exists>t d. run (csched_step P) s
       [(e, Inhibit True), (e, Dispatch), (e, Removed (col_id c)), (e, Dispatch), (e, Inhibit False), (e, Dispatch)] t \<and>
     due (mScheduler t) = Some d \<and> mSchedule t = [] \<and> (\<forall>e'. schedulerTimeout P e' t = None)"
proof -
  let ?s1 = "inhibit True s"
  let ?s2 = "s\<lparr>mScheduler := timer_pause e (mScheduler s)\<rparr>"
  let ?s3 = "collectionRemoved (col_id c) ?s2"
  let ?s4 = "?s2\<lparr>mSchedule := []\<rparr>"
  let ?s5 = "inhibit False ?s4"
  let ?s6 = "?s4\<lparr>mScheduler := timer_resume e (timer_pause e (mScheduler s))\<rparr>"
  have paused: "isPaused (timer_pause e (mScheduler s))" using assms(2) by (simp add: timer_pause_def isPaused_def)
  have 1: "csched_step P s (e, Inhibit True) ?s1" by (rule csched_step.inhibited)
  have 2: "csched_step P ?s1 (e, Dispatch) ?s2"
    using assms(4) by (intro csched_step.dispatch [of _ Pause "[]"]) (simp_all add: inhibit_def post_def run_posted_def)
  have 3: "csched_step P ?s2 (e, Removed (col_id c)) ?s3" by (rule csched_step.removed)
  have 4: "csched_step P ?s3 (e, Dispatch) ?s4"
    using assms(1, 4) paused
    by (intro csched_step.dispatch [of _ StartScheduler "[]"])
      (simp_all add: collectionRemoved_def find_id_def post_def run_posted_def startScheduler_def)
  have 5: "csched_step P ?s4 (e, Inhibit False) ?s5" by (rule csched_step.inhibited)
  have 6: "csched_step P ?s5 (e, Dispatch) ?s6"
    using assms(4) by (intro csched_step.dispatch [of _ Resume "[]"]) (simp_all add: inhibit_def post_def run_posted_def)
  have "run (csched_step P) s
      [(e, Inhibit True), (e, Dispatch), (e, Removed (col_id c)), (e, Dispatch), (e, Inhibit False), (e, Dispatch)] ?s6"
    by (rule run_cons [of "csched_step P", OF 1], rule run_cons [of "csched_step P", OF 2], rule run_cons [of "csched_step P", OF 3], rule run_cons [of "csched_step P", OF 4], rule run_cons [of "csched_step P", OF 5],
        rule run_cons [of "csched_step P", OF 6], rule run_nil)
  moreover have "due (mScheduler ?s6) \<noteq> None" using paused by (simp add: timer_resume_def timer_start_def Let_def)
  moreover have "schedulerTimeout P e' ?s6 = None" for e' by (simp add: schedulerTimeout_def)
  ultimately show ?thesis by (intro exI [of _ ?s6]) auto
qed

theorem timeout_on_empty_schedule_witness:
  "\<exists>t. mSchedule t = [] \<and> due (mScheduler t) \<noteq> None \<and> schedulerTimeout interval_policy sample_env t = None"
  using timeout_on_empty_schedule [of started "1000 + 1440 * minute" daily interval_policy sample_env]
  by (fastforce simp: started_def csched_new_def isActive_def isPaused_def)

text \<open>An inhibition of a scheduler without entries is lost: pausing an inactive timer does nothing, so the next
  collection that is scheduled starts the timer although the scheduler is inhibited.\<close>

theorem inhibition_of_idle_scheduler_is_lost:
  assumes "\<not> isActive (mScheduler s)" and "\<not> isPaused (mScheduler s)"
    and "run_posted P e Pause s = Some s'" and "scheduleCollection P e c True s' = Some t"
    and "activeCachePolicy (table e) c = Some d" and "shouldScheduleCollection P d"
  shows "isActive (mScheduler t)"
proof -
  have s': "s' = s" using assms(1, 3) by (simp add: run_posted_def timer_pause_def)
  from assms(4) show ?thesis
  proof (cases rule: scheduleCollection_cases)
    case (2 d' k)
    have "mSchedule t \<noteq> []" using 2(5) by (metis empty_iff insert_not_empty list.set(1) set_multimap_insert)
    then show ?thesis using 2(5, 9) assms(1, 2)
      by (auto simp: s' startScheduler_def isActive_def timer_start_def split: list.splits)
  qed (use assms(5, 6) in auto)
qed

theorem inhibition_of_idle_scheduler_is_lost_witness:
  "\<exists>t. scheduleCollection interval_policy sample_env daily True (csched_new 5 no_checks) = Some t \<and> isActive (mScheduler t)"
proof -
  let ?s = "csched_new 5 no_checks"
  obtain t where t: "scheduleCollection interval_policy sample_env daily True ?s = Some t" by (simp add: sample_defs)
  have "run_posted interval_policy sample_env Pause ?s = Some ?s"
    by (simp add: run_posted_def timer_pause_def csched_new_def isActive_def)
  from inhibition_of_idle_scheduler_is_lost [OF _ _ this t, of daily] t show ?thesis by (simp add: sample_defs)
qed

text \<open>The active cache policy of a collection that inherits is that of its nearest ancestor with a policy of its
  own, and the system default when all its ancestors inherit; the loop ends there.\<close>

theorem active_policy_is_nearest:
  assumes "cachePolicyInherit c" and "parent_path tab c ps" and "list_all cachePolicyInherit ps"
  shows "(parentId (root_of c ps) \<noteq> 0 \<and> \<not> cachePolicyInherit (retrieveById tab (parentId (root_of c ps))) \<longrightarrow>
      activeCachePolicy tab c = Some (copy_policy (retrieveById tab (parentId (root_of c ps))) c)) \<and>
    (parentId (root_of c ps) = 0 \<longrightarrow> activeCachePolicy tab c = Some (system_default c))"
proof -
  have "activeCachePolicy tab c = policy_loop tab (root_of c ps) c"
    using assms policy_loop_path by (simp add: activeCachePolicy_def)
  then show ?thesis by (subst (asm) policy_loop.simps) (simp add: Let_def)
qed

theorem active_policy_is_nearest_witness:
  "activeCachePolicy [3 \<mapsto> daily, 4 \<mapsto> invalid_collection\<lparr>col_id := 4, parentId := 3\<rparr>]
     (invalid_collection\<lparr>col_id := 5, parentId := 4\<rparr>)
   = Some (copy_policy daily (invalid_collection\<lparr>col_id := 5, parentId := 4\<rparr>))"
  using active_policy_is_nearest [of "invalid_collection\<lparr>col_id := 5, parentId := 4\<rparr>"
      "[3 \<mapsto> daily, 4 \<mapsto> invalid_collection\<lparr>col_id := 4, parentId := 3\<rparr>]"
      "[invalid_collection\<lparr>col_id := 4, parentId := 3\<rparr>]"]
  by (simp add: retrieveById_def root_of_def invalid_collection_def daily_def hourly_def)

end
