(* ===== verification/CacheCleaner.thy ===== *)
theory CacheCleaner
  imports CollectionScheduler
begin

text \<open>
  \<open>src/server/cachecleaner.cpp\<close>: the scheduler that drops cached payload parts, with \<open>PartHelper::truncate\<close> from
  \<open>src/server/storage/parthelper.cpp\<close>, and the inhibitors that pause it.
\<close>

section \<open>The cleaner\<close>

datatype storage = Internal | External | Foreign

text \<open>A row of the query's join of parts, items and part types; \<open>None\<close> is the SQL null.\<close>

record part =
  part_id :: int
  pdata :: "string option"
  datasize :: int
  storage :: storage
  part_ns :: string
  part_name :: string
  item_collection :: int
  item_atime :: int
  item_dirty :: bool

text \<open>The parts in the database and the files of external parts that were removed, by their stored name.\<close>

record store =
  parts :: "part list"
  removed_files :: "string list"

definition local_part_names :: "collection \<Rightarrow> string list" where
  "local_part_names c =
     map (\<lambda>n. if take 4 n = ''PLD:'' then drop 4 n else n) (split_on (CHR '' '') (cachePolicyLocalParts c))"

definition part_expired :: "env \<Rightarrow> collection \<Rightarrow> part \<Rightarrow> bool" where
  "part_expired e c p \<longleftrightarrow> item_collection p = col_id c \<and>
     item_atime p < wall e + (-60 * cachePolicyCacheTimeout c) * 1000 \<and> pdata p \<noteq> None \<and> part_ns p = ''PLD'' \<and>
     \<not> item_dirty p \<and> list_all (\<lambda>n. part_name p \<noteq> n) (local_part_names c)"

text \<open>A null \<open>QByteArray\<close> is stored as null.\<close>

definition emptied :: "part \<Rightarrow> part" where
  "emptied p = p\<lparr>pdata := None, datasize := 0, storage := Internal\<rparr>"

definition PartHelper_truncate :: "part \<Rightarrow> store \<Rightarrow> store" where
  "PartHelper_truncate p x =
     x\<lparr>removed_files := removed_files x @ (if storage p = External then [the (pdata p)] else []),
       parts := map (\<lambda>q. if part_id q = part_id p then emptied q else q)
                  (parts x)\<rparr>"

definition cleaner_expired :: "env \<Rightarrow> collection \<Rightarrow> store \<Rightarrow> store" where
  "cleaner_expired e c x = fold PartHelper_truncate (filter (part_expired e c) (parts x)) x"

definition cleaner_shouldSchedule :: "collection \<Rightarrow> bool" where
  "cleaner_shouldSchedule c \<longleftrightarrow> cachePolicyLocalParts c \<noteq> ''ALL'' \<and> 0 \<le> cachePolicyCacheTimeout c \<and>
     (enabled c \<or> displayPref c = TTrue \<or> syncPref c = TTrue \<or> indexPref c = TTrue) \<and> 0 < resourceId c"

definition cleaner_hasChanged :: "collection \<Rightarrow> collection \<Rightarrow> bool" where
  "cleaner_hasChanged old new \<longleftrightarrow> cachePolicyLocalParts old \<noteq> cachePolicyLocalParts new \<or>
     cachePolicyCacheTimeout old \<noteq> cachePolicyCacheTimeout new \<or> cachePolicyInherit old \<noteq> cachePolicyInherit new"

definition cleaner_policy :: "store policy" where
  "cleaner_policy = \<lparr>shouldScheduleCollection = cleaner_shouldSchedule, hasChanged = cleaner_hasChanged,
     collectionScheduleInterval = cachePolicyCacheTimeout, collectionExpired = cleaner_expired\<rparr>"

text \<open>The constructor sets the minimum interval to five minutes.\<close>

definition cleaner_new :: "store \<Rightarrow> store csched" where
  "cleaner_new x = csched_new 5 x"

interpretation cache_cleaner: check_policy cleaner_policy 5
  by unfold_locales simp

section \<open>Inhibitors\<close>

text \<open>\<open>held\<close> are the inhibitor objects with \<open>mInhibited\<close> set; \<open>told\<close> are the calls of the cleaner's \<open>inhibit\<close>.\<close>

record inhibition =
  sInhibitCount :: int
  held :: "nat set"
  told :: "bool list"

definition inhibitor_inhibit :: "nat \<Rightarrow> inhibition \<Rightarrow> inhibition" where
  "inhibitor_inhibit i s =
     (if i \<in> held s then s
      else
        (let s = s\<lparr>sInhibitCount := sInhibitCount s + 1\<rparr>;
             s = (if sInhibitCount s = 1 then s\<lparr>told := told s @ [True]\<rparr> else s)
         in s\<lparr>held := insert i (held s)\<rparr>))"

definition inhibitor_uninhibit :: "nat \<Rightarrow> inhibition \<Rightarrow> inhibition" where
  "inhibitor_uninhibit i s =
     (if i \<notin> held s then s
      else
        (let s = s\<lparr>held := held s - {i}, sInhibitCount := sInhibitCount s - 1\<rparr>
         in if sInhibitCount s = 0 then s\<lparr>told := told s @ [False]\<rparr> else s))"

text \<open>The destructor of an inhibitor releases it.\<close>

datatype inhibit_op = InhibitorInhibit nat | InhibitorUninhibit nat | InhibitorDestroyed nat

inductive inhibit_step :: "inhibition \<Rightarrow> inhibit_op \<Rightarrow> inhibition \<Rightarrow> bool" where
  take: "inhibit_step s (InhibitorInhibit i) (inhibitor_inhibit i s)"
| release: "inhibit_step s (InhibitorUninhibit i) (inhibitor_uninhibit i s)"
| destroy: "inhibit_step s (InhibitorDestroyed i) (if i \<in> held s then inhibitor_uninhibit i s else s)"

definition inhibit_start :: "inhibition \<Rightarrow> bool" where
  "inhibit_start s \<longleftrightarrow> s = \<lparr>sInhibitCount = 0, held = {}, told = []\<rparr>"

fun alternating :: "bool \<Rightarrow> bool list \<Rightarrow> bool" where
  "alternating b [] = True"
| "alternating b (x # xs) = (x = b \<and> alternating (\<not> b) xs)"

definition told_now :: "bool list \<Rightarrow> bool" where
  "told_now bs \<longleftrightarrow> bs \<noteq> [] \<and> last bs"

definition inhibit_inv :: "inhibition \<Rightarrow> bool" where
  "inhibit_inv s \<longleftrightarrow> finite (held s) \<and> sInhibitCount s = int (card (held s)) \<and> alternating True (told s) \<and>
     told_now (told s) = (held s \<noteq> {})"

lemma alternating_snoc: "alternating b (xs @ [y]) \<longleftrightarrow> alternating b xs \<and> y = (if xs = [] then b else \<not> last xs)"
  by (induction b xs rule: alternating.induct) auto

lemma inhibitor_inhibit_inv: "inhibit_inv s \<Longrightarrow> inhibit_inv (inhibitor_inhibit i s)"
  by (auto simp: inhibit_inv_def inhibitor_inhibit_def Let_def alternating_snoc told_now_def)

lemma inhibitor_uninhibit_inv:
  assumes "inhibit_inv s" shows "inhibit_inv (inhibitor_uninhibit i s)"
proof (cases "i \<in> held s")
  case True
  then have "held s - {i} = {} \<longleftrightarrow> card (held s) = 1" "0 < card (held s)"
    using assms card_Diff_singleton [OF True] by (auto simp: inhibit_inv_def card_gt_0_iff card_1_singleton_iff)
  then show ?thesis using True assms
    by (auto simp: inhibit_inv_def inhibitor_uninhibit_def Let_def alternating_snoc told_now_def of_nat_diff)
qed (use assms in \<open>simp add: inhibitor_uninhibit_def\<close>)

interpretation inhibitors: inductive_invariant inhibit_start inhibit_step inhibit_inv
proof
  show "inhibit_inv s" if "inhibit_start s" for s
    using that by (simp add: inhibit_start_def inhibit_inv_def told_now_def)
  show "inhibit_inv t" if "inhibit_step s l t" "inhibit_inv s" for s l t
    using that by (cases rule: inhibit_step.cases) (auto simp: inhibitor_inhibit_inv inhibitor_uninhibit_inv)
qed

section \<open>Properties\<close>

lemma fold_truncate:
  "distinct (map part_id ps) \<Longrightarrow>
   parts (fold PartHelper_truncate ps x) = map (\<lambda>q. if part_id q \<in> part_id ` set ps then emptied q else q) (parts x) \<and>
   removed_files (fold PartHelper_truncate ps x) = removed_files x @ map (the \<circ> pdata) (filter (\<lambda>p. storage p = External) ps)"
proof (induction ps arbitrary: x)
  case (Cons p ps)
  then show ?case by (auto simp: PartHelper_truncate_def emptied_def)
qed simp

lemma emptied_id [simp]: "part_id (emptied p) = part_id p"
  by (simp add: emptied_def)

lemma emptied_not_expired: "\<not> part_expired e c (emptied p)"
  by (simp add: part_expired_def emptied_def)

lemma cleaner_expired_parts:
  assumes "distinct (map part_id (parts x))"
  shows "parts (cleaner_expired e c x) = map (\<lambda>p. if part_expired e c p then emptied p else p) (parts x) \<and>
    removed_files (cleaner_expired e c x) = removed_files x @
      map (the \<circ> pdata) (filter (\<lambda>p. part_expired e c p \<and> storage p = External) (parts x))"
proof -
  have "distinct (map part_id (filter (part_expired e c) (parts x)))" using assms by (simp add: distinct_map_filter)
  note f = fold_truncate [OF this, of x]
  have "part_id p \<in> part_id ` {q \<in> set (parts x). part_expired e c q} \<longleftrightarrow> part_expired e c p" if "p \<in> set (parts x)" for p
    using that assms by (auto simp: distinct_map inj_on_def)
  then show ?thesis using f by (auto simp: cleaner_expired_def conj_commute)
qed

text \<open>The cache cleaner drops exactly the cached payload it may drop: with distinct part ids, the expired parts lose
  their data and become internal, every other part is untouched - that is every part of a dirty item, of an item read
  within the timeout, of another collection, outside the payload namespace, or among the collection's local parts - the
  files removed are those of the expired external parts, and a second run at the same time does nothing.\<close>

theorem cleaner_drops_exactly_expired:
  assumes "distinct (map part_id (parts x))" and "y = cleaner_expired e c x"
  shows "parts y = map (\<lambda>p. if part_expired e c p then emptied p else p) (parts x) \<and>
    (\<forall>p \<in> set (parts x). item_dirty p \<or> wall e - cachePolicyCacheTimeout c * 60000 \<le> item_atime p \<or>
       item_collection p \<noteq> col_id c \<or> part_ns p \<noteq> ''PLD'' \<or> part_name p \<in> set (local_part_names c) \<longrightarrow> p \<in> set (parts y)) \<and>
    removed_files y = removed_files x @
      map (the \<circ> pdata) (filter (\<lambda>p. part_expired e c p \<and> storage p = External) (parts x)) \<and>
    cleaner_expired e c y = y"
proof -
  note exact = cleaner_expired_parts [OF assms(1), of e c, folded assms(2)]
  have "filter (part_expired e c) (parts y) = []"
    using exact emptied_not_expired by (auto simp: filter_empty_conv)
  then have "cleaner_expired e c y = y" by (simp add: cleaner_expired_def)
  moreover have "p \<in> set (parts y)" if "p \<in> set (parts x)" "\<not> part_expired e c p" for p
    using that exact by force
  ultimately show ?thesis using exact by (auto simp: part_expired_def list_all_iff)
qed

definition cleaned_collection :: collection where
  "cleaned_collection = invalid_collection\<lparr>col_id := 2, cachePolicyCacheTimeout := 10,
     cachePolicyLocalParts := ''PLD:ENVELOPE''\<rparr>"

definition sample_store :: store where
  "sample_store = \<lparr>parts = [
     \<lparr>part_id = 1, pdata = Some ''1_r0'', datasize = 4096, storage = External, part_ns = ''PLD'', part_name = ''RFC822'',
       item_collection = 2, item_atime = 0, item_dirty = False\<rparr>,
     \<lparr>part_id = 2, pdata = Some ''x'', datasize = 1, storage = Internal, part_ns = ''PLD'', part_name = ''ENVELOPE'',
       item_collection = 2, item_atime = 0, item_dirty = False\<rparr>], removed_files = []\<rparr>"

definition sample_time :: env where
  "sample_time = \<lparr>steady = 0, wall = 900000, table = Map.empty, resources = Map.empty\<rparr>"

theorem cleaner_drops_exactly_expired_witness:
  "removed_files (cleaner_expired sample_time cleaned_collection sample_store) = [''1_r0''] \<and>
   parts sample_store ! 1 \<in> set (parts (cleaner_expired sample_time cleaned_collection sample_store))"
  using cleaner_drops_exactly_expired [OF _ refl, of sample_store sample_time cleaned_collection]
  by (simp add: sample_store_def sample_time_def cleaned_collection_def part_expired_def local_part_names_def
      invalid_collection_def)

text \<open>The cleaner is inhibited exactly while an inhibitor is held: in every reachable state the counter is the
  number of held inhibitors, the cleaner is told to pause and to resume in turn, and the last thing it was told is to
  pause iff an inhibitor is held.\<close>

theorem inhibited_while_held:
  assumes "reach inhibit_start inhibit_step s"
  shows "sInhibitCount s = int (card (held s)) \<and> alternating True (told s) \<and> (told_now (told s) \<longleftrightarrow> held s \<noteq> {})"
  using inhibitors.reach_inv [OF assms] by (simp add: inhibit_inv_def)

theorem inhibited_while_held_witness:
  "told_now (told (inhibitor_uninhibit 1 (inhibitor_inhibit 2 (inhibitor_inhibit 1 \<lparr>sInhibitCount = 0, held = {}, told = []\<rparr>))))"
proof -
  let ?s = "\<lparr>sInhibitCount = 0, held = {}, told = []\<rparr>"
  have "reach inhibit_start inhibit_step ?s" by (rule reach.start) (simp add: inhibit_start_def)
  then have "reach inhibit_start inhibit_step (inhibitor_uninhibit 1 (inhibitor_inhibit 2 (inhibitor_inhibit 1 ?s)))"
    by (blast intro: reach.next_state inhibit_step.intros)
  from inhibited_while_held [OF this] show ?thesis
    by (simp add: inhibitor_inhibit_def inhibitor_uninhibit_def Let_def)
qed

end
