(* ===== verification/Preprocessor.thy ===== *)
theory Preprocessor
  imports Prelude Transition Hash "HOL-Library.Monad_Syntax"
begin

text \<open>
  \<open>src/server/preprocessormanager.cpp\<close> and \<open>preprocessorinstance.cpp\<close>: new items pass through a chain of
  preprocessor agents before they are shown. The manager's mutex is not recursive; the operations below run
  with it held unless they say otherwise, and an operation that would lock it again while it is held returns
  \<open>None\<close>: the thread blocks for ever. Instances are addressed by their position in the chain.
\<close>

section \<open>State\<close>

record preproc =
  mId :: string
  mItemQueue :: "int list"
  mBusy :: bool
  mItemProcessingStart :: int

text \<open>\<open>items\<close> is the database (an item with its collection and MIME type); \<open>ended\<close> and \<open>begun\<close> record
  the items at the exit of the chain and the D-Bus calls.\<close>

record pman =
  mPreprocessorChain :: "preproc list"
  mEnabled :: bool
  mTransactionWaitQueueHash :: "(nat \<times> int list) list"
  items :: "int \<rightharpoonup> int \<times> string"
  unhidden :: "int list"
  ended :: "int list"
  begun :: "(string \<times> int \<times> int \<times> string) list"

definition set_instance :: "nat \<Rightarrow> preproc \<Rightarrow> pman \<Rightarrow> pman" where
  "set_instance i p s = s\<lparr>mPreprocessorChain := (mPreprocessorChain s)[i := p]\<rparr>"

section \<open>Instances\<close>

definition isActive :: "pman \<Rightarrow> bool" where
  "isActive s \<longleftrightarrow> mEnabled s \<and> mPreprocessorChain s \<noteq> []"

text \<open>The end of \<open>processHeadItem\<close>, for a valid item at the head of the queue.\<close>

definition begin_head :: "int \<Rightarrow> nat \<Rightarrow> int \<Rightarrow> int \<times> string \<Rightarrow> pman \<Rightarrow> pman" where
  "begin_head now i q info s =
     (let p = mPreprocessorChain s ! i;
          s = set_instance i (p\<lparr>mBusy := True, mItemProcessingStart := now\<rparr>) s
      in s\<lparr>begun := begun s @ [(mId p, q, fst info, snd info)]\<rparr>)"

text \<open>\<open>processHeadItem\<close> called with the mutex held: an item that is gone would call back into the manager.\<close>

definition process_head_locked :: "int \<Rightarrow> nat \<Rightarrow> pman \<Rightarrow> pman option" where
  "process_head_locked now i s =
     (let q = hd (mItemQueue (mPreprocessorChain s ! i)) in
      case items s q of None \<Rightarrow> None | Some info \<Rightarrow> Some (begin_head now i q info s))"

text \<open>\<open>enqueueItem\<close>, which is always called with the mutex held.\<close>

definition enqueueItem :: "int \<Rightarrow> nat \<Rightarrow> int \<Rightarrow> pman \<Rightarrow> pman option" where
  "enqueueItem now i itemId s =
     (let p = mPreprocessorChain s ! i;
          s = set_instance i (p\<lparr>mItemQueue := mItemQueue p @ [itemId]\<rparr>) s
      in if mBusy p then Some s else process_head_locked now i s)"

definition lockedEndHandleItem :: "int \<Rightarrow> pman \<Rightarrow> pman" where
  "lockedEndHandleItem itemId s =
     (let s = s\<lparr>ended := ended s @ [itemId]\<rparr> in
      case items s itemId of None \<Rightarrow> s | Some _ \<Rightarrow> s\<lparr>unhidden := unhidden s @ [itemId]\<rparr>)"

text \<open>\<open>preProcessorFinishedHandlingItem\<close>, called without the mutex.\<close>

definition preProcessorFinishedHandlingItem :: "int \<Rightarrow> nat \<Rightarrow> int \<Rightarrow> pman \<Rightarrow> pman option" where
  "preProcessorFinishedHandlingItem now i itemId s =
     (if Suc i < length (mPreprocessorChain s) then enqueueItem now (Suc i) itemId s
      else Some (lockedEndHandleItem itemId s))"

text \<open>The loop of \<open>processHeadItem\<close> called without the mutex, over the queue of the instance.\<close>

fun process_head :: "int \<Rightarrow> nat \<Rightarrow> int list \<Rightarrow> pman \<Rightarrow> pman option" where
  "process_head now i [] s = Some (set_instance i ((mPreprocessorChain s ! i)\<lparr>mBusy := False\<rparr>) s)"
| "process_head now i (q # qs) s =
     (case items s q of
        Some info \<Rightarrow> Some (begin_head now i q info s)
      | None \<Rightarrow> do {
          s \<leftarrow> preProcessorFinishedHandlingItem now i q s;
          process_head now i qs (set_instance i ((mPreprocessorChain s ! i)\<lparr>mItemQueue := qs\<rparr>) s)
        })"

text \<open>\<open>itemProcessed\<close>: the id that the agent reports is only compared, the head of the queue is taken.\<close>

definition itemProcessed :: "int \<Rightarrow> nat \<Rightarrow> int \<Rightarrow> pman \<Rightarrow> pman option" where
  "itemProcessed now i reported s =
     (let p = mPreprocessorChain s ! i in
      case mItemQueue p of
        [] \<Rightarrow> Some (set_instance i (p\<lparr>mBusy := False\<rparr>) s)
      | q # qs \<Rightarrow> do {
          s \<leftarrow> preProcessorFinishedHandlingItem now i q (set_instance i (p\<lparr>mItemQueue := qs\<rparr>) s);
          (if qs = [] then Some (set_instance i ((mPreprocessorChain s ! i)\<lparr>mBusy := False\<rparr>) s)
           else process_head now i qs s)
        })"

definition currentProcessingTime :: "int \<Rightarrow> preproc \<Rightarrow> int" where
  "currentProcessingTime now p = (if mBusy p then (now - mItemProcessingStart p) div 1000 else -1)"

section \<open>The manager\<close>

definition find_instance :: "string \<Rightarrow> pman \<Rightarrow> nat option" where
  "find_instance ident s =
     List.find (\<lambda>i. mId (mPreprocessorChain s ! i) = ident) [0 ..< length (mPreprocessorChain s)]"

text \<open>\<open>reachable\<close>: the D-Bus interface of the new instance is valid.\<close>

definition registerInstance :: "string \<Rightarrow> bool \<Rightarrow> pman \<Rightarrow> pman" where
  "registerInstance ident reachable s =
     (if find_instance ident s \<noteq> None \<or> \<not> reachable then s
      else s\<lparr>mPreprocessorChain := mPreprocessorChain s @
        [\<lparr>mId = ident, mItemQueue = [], mBusy = False, mItemProcessingStart = 0\<rparr>]\<rparr>)"

fun enqueue_all :: "int \<Rightarrow> nat \<Rightarrow> int list \<Rightarrow> pman \<Rightarrow> pman option" where
  "enqueue_all now i [] s = Some s"
| "enqueue_all now i (q # qs) s = enqueueItem now i q s \<bind> enqueue_all now i qs"

definition remove_instance :: "nat \<Rightarrow> pman \<Rightarrow> pman" where
  "remove_instance i s =
     s\<lparr>mPreprocessorChain := take i (mPreprocessorChain s) @ drop (Suc i) (mPreprocessorChain s)\<rparr>"

definition lockedUnregisterInstance :: "int \<Rightarrow> string \<Rightarrow> pman \<Rightarrow> pman option" where
  "lockedUnregisterInstance now ident s =
     (case find_instance ident s of
        None \<Rightarrow> Some s
      | Some i \<Rightarrow>
          (let q = mItemQueue (mPreprocessorChain s ! i) in
           if Suc i < length (mPreprocessorChain s) then map_option (remove_instance i) (enqueue_all now (Suc i) q s)
           else Some (remove_instance i (fold lockedEndHandleItem q s))))"

definition lockedActivateFirstPreprocessor :: "int \<Rightarrow> int \<Rightarrow> pman \<Rightarrow> pman option" where
  "lockedActivateFirstPreprocessor now itemId s = enqueueItem now 0 itemId s"

definition beginHandleItem :: "int \<Rightarrow> int \<Rightarrow> nat \<Rightarrow> bool \<Rightarrow> pman \<Rightarrow> pman option" where
  "beginHandleItem now itemId dataStore inTransaction s =
     (if \<not> mEnabled s \<or> mPreprocessorChain s = [] then Some (lockedEndHandleItem itemId s)
      else if inTransaction then
        Some (s\<lparr>mTransactionWaitQueueHash := at_key dataStore (\<lambda>w. w @ [itemId]) (mTransactionWaitQueueHash s)\<rparr>)
      else lockedActivateFirstPreprocessor now itemId s)"

definition lockedKillWaitQueue :: "nat \<Rightarrow> pman \<Rightarrow> pman" where
  "lockedKillWaitQueue dataStore s =
     s\<lparr>mTransactionWaitQueueHash := hash_remove dataStore (mTransactionWaitQueueHash s)\<rparr>"

text \<open>The slots of a data store's signals; \<open>sender\<close> is the result of the cast of the sender to a data store.\<close>

definition drop_wait_queue :: "nat option \<Rightarrow> pman \<Rightarrow> pman" where
  "drop_wait_queue sender s =
     (case sender of None \<Rightarrow> s | Some d \<Rightarrow> lockedKillWaitQueue d s)"

definition dataStoreDestroyed :: "nat option \<Rightarrow> pman \<Rightarrow> pman" where
  "dataStoreDestroyed sender s = drop_wait_queue sender s"

definition dataStoreTransactionRolledBack :: "nat option \<Rightarrow> pman \<Rightarrow> pman" where
  "dataStoreTransactionRolledBack sender s = drop_wait_queue sender s"

definition dataStoreTransactionCommitted :: "int \<Rightarrow> nat option \<Rightarrow> pman \<Rightarrow> pman option" where
  "dataStoreTransactionCommitted now sender s =
     (case sender of
        None \<Rightarrow> Some s
      | Some d \<Rightarrow>
          (case map_of (mTransactionWaitQueueHash s) d of
             None \<Rightarrow> Some s
           | Some w \<Rightarrow>
               map_option (lockedKillWaitQueue d)
                 (if \<not> mEnabled s \<or> mPreprocessorChain s = [] then Some (fold lockedEndHandleItem w s)
                  else enqueue_all now 0 w s)))"

text \<open>\<open>heartbeat\<close>; \<open>abort\<close> and \<open>restart\<close> say for which instances the D-Bus calls succeed.\<close>

definition fired :: "int \<Rightarrow> (string \<Rightarrow> bool) \<Rightarrow> (string \<Rightarrow> bool) \<Rightarrow> preproc \<Rightarrow> bool" where
  "fired now abort restart p =
     (let elapsedTime = currentProcessingTime now p in
      if elapsedTime < 120 then False
      else if elapsedTime < 180 \<and> abort (mId p) then False
      else if elapsedTime < 240 \<and> restart (mId p) then False
      else True)"

fun unregister_all :: "int \<Rightarrow> string list \<Rightarrow> pman \<Rightarrow> pman option" where
  "unregister_all now [] s = Some s"
| "unregister_all now (i # is) s = lockedUnregisterInstance now i s \<bind> unregister_all now is"

definition heartbeat :: "int \<Rightarrow> (string \<Rightarrow> bool) \<Rightarrow> (string \<Rightarrow> bool) \<Rightarrow> pman \<Rightarrow> pman option" where
  "heartbeat now abort restart s =
     unregister_all now (map mId (filter (fired now abort restart) (mPreprocessorChain s))) s"

section \<open>The chain as a transition system\<close>

datatype pman_op = Register string bool | Unregister string | BeginHandle int nat bool
  | Committed "nat option" | RolledBack "nat option" | Destroyed "nat option" | Processed nat int
  | Heartbeat "string \<Rightarrow> bool" "string \<Rightarrow> bool" | SetEnabled bool | ItemChanged int "(int \<times> string) option"

definition pman_do :: "int \<Rightarrow> pman_op \<Rightarrow> pman \<Rightarrow> pman option" where
  "pman_do now l s = (case l of
     Register ident ok \<Rightarrow> Some (registerInstance ident ok s)
   | Unregister ident \<Rightarrow> lockedUnregisterInstance now ident s
   | BeginHandle q d t \<Rightarrow> beginHandleItem now q d t s
   | Committed d \<Rightarrow> dataStoreTransactionCommitted now d s
   | RolledBack d \<Rightarrow> Some (dataStoreTransactionRolledBack d s)
   | Destroyed d \<Rightarrow> Some (dataStoreDestroyed d s)
   | Processed i q \<Rightarrow> itemProcessed now i q s
   | Heartbeat a r \<Rightarrow> heartbeat now a r s
   | SetEnabled b \<Rightarrow> Some (s\<lparr>mEnabled := b\<rparr>)
   | ItemChanged q v \<Rightarrow> Some (s\<lparr>items := (items s)(q := v)\<rparr>))"

text \<open>Only an instance of the chain reports items.\<close>

definition op_ok :: "pman_op \<Rightarrow> pman \<Rightarrow> bool" where
  "op_ok l s = (case l of Processed i q \<Rightarrow> i < length (mPreprocessorChain s) | _ \<Rightarrow> True)"

inductive pman_step :: "pman \<Rightarrow> int \<times> pman_op \<Rightarrow> pman \<Rightarrow> bool" where
  pman_step: "op_ok l s \<Longrightarrow> pman_do now l s = Some t \<Longrightarrow> pman_step s (now, l) t"

definition pman_start :: "pman \<Rightarrow> bool" where
  "pman_start s \<longleftrightarrow> mPreprocessorChain s = [] \<and> mTransactionWaitQueueHash s = [] \<and> unhidden s = [] \<and>
     ended s = [] \<and> begun s = []"

section \<open>The invariant\<close>

text \<open>An instance is busy iff its queue has items; the instances have distinct names.\<close>

definition instance_ok :: "preproc \<Rightarrow> bool" where
  "instance_ok p \<longleftrightarrow> (mBusy p \<longleftrightarrow> mItemQueue p \<noteq> [])"

definition pman_inv :: "pman \<Rightarrow> bool" where
  "pman_inv s \<longleftrightarrow> distinct (map mId (mPreprocessorChain s)) \<and> list_all instance_ok (mPreprocessorChain s) \<and>
     distinct (map fst (mTransactionWaitQueueHash s))"

text \<open>The items in the chain and at its exit.\<close>

definition chain_items :: "preproc list \<Rightarrow> int multiset" where
  "chain_items ps = (\<Sum>p\<leftarrow>ps. mset (mItemQueue p))"

definition passing :: "pman \<Rightarrow> int multiset" where
  "passing s = chain_items (mPreprocessorChain s) + mset (ended s)"

text \<open>What the steps inside the chain leave alone.\<close>

definition same_rest :: "pman \<Rightarrow> pman \<Rightarrow> bool" where
  "same_rest s t \<longleftrightarrow> mTransactionWaitQueueHash t = mTransactionWaitQueueHash s \<and>
     items t = items s \<and> mEnabled t = mEnabled s \<and> map mId (mPreprocessorChain t) = map mId (mPreprocessorChain s)"

lemma same_rest_trans: "same_rest s t \<Longrightarrow> same_rest t u \<Longrightarrow> same_rest s u"
  by (simp add: same_rest_def)

lemma same_rest_refl [simp]: "same_rest s s"
  by (simp add: same_rest_def)

lemma same_rest_length: "same_rest s t \<Longrightarrow> length (mPreprocessorChain t) = length (mPreprocessorChain s)"
  by (metis length_map same_rest_def)

lemma chain_items_update:
  "i < length ps \<Longrightarrow> chain_items (ps[i := p]) + mset (mItemQueue (ps ! i)) = chain_items ps + mset (mItemQueue p)"
proof (induction ps arbitrary: i)
  case (Cons x ps)
  then show ?case by (cases i) (auto simp: chain_items_def ac_simps)
qed simp

lemma frame_set_instance [simp]:
  "mPreprocessorChain (set_instance i p s) = (mPreprocessorChain s)[i := p]" "items (set_instance i p s) = items s"
  "ended (set_instance i p s) = ended s"
  "mEnabled (set_instance i p s) = mEnabled s"
  "mTransactionWaitQueueHash (set_instance i p s) = mTransactionWaitQueueHash s"
  "begun (set_instance i p s) = begun s" "unhidden (set_instance i p s) = unhidden s"
  by (simp_all add: set_instance_def)

lemma same_rest_set_instance:
  "i < length (mPreprocessorChain s) \<Longrightarrow> mId p = mId (mPreprocessorChain s ! i) \<Longrightarrow> same_rest s (set_instance i p s)"
  by (simp add: same_rest_def map_update list_update_same_conv)

lemma frame_begin_head:
  "mPreprocessorChain (begin_head now i q v s) =
     (mPreprocessorChain s)[i := (mPreprocessorChain s ! i)\<lparr>mBusy := True, mItemProcessingStart := now\<rparr>]"
  "ended (begin_head now i q v s) = ended s"
  by (simp_all add: begin_head_def Let_def)

lemma same_rest_begin_head: "i < length (mPreprocessorChain s) \<Longrightarrow> same_rest s (begin_head now i q v s)"
  by (simp add: begin_head_def Let_def same_rest_def map_update list_update_same_conv)

lemma lockedEndHandleItem_frame:
  "mPreprocessorChain (lockedEndHandleItem q s) = mPreprocessorChain s" "same_rest s (lockedEndHandleItem q s)"
  "ended (lockedEndHandleItem q s) = ended s @ [q]"
  by (simp_all add: lockedEndHandleItem_def same_rest_def Let_def split: option.splits)

text \<open>An item enters an instance of the chain.\<close>

lemma enqueueItem_spec:
  assumes "enqueueItem now i q s = Some t" and "i < length (mPreprocessorChain s)"
  shows "\<exists>p. mPreprocessorChain t = (mPreprocessorChain s)[i := p] \<and>
      mItemQueue p = mItemQueue (mPreprocessorChain s ! i) @ [q] \<and> mBusy p \<and> ended t = ended s \<and> same_rest s t"
proof -
  let ?p = "mPreprocessorChain s ! i"
  let ?s = "set_instance i (?p\<lparr>mItemQueue := mItemQueue ?p @ [q]\<rparr>) s"
  have rest: "same_rest s ?s" using assms(2) by (rule same_rest_set_instance) simp
  show ?thesis
  proof (cases "mBusy ?p")
    case True
    then have "t = ?s" using assms(1) by (simp add: enqueueItem_def Let_def)
    then show ?thesis using True rest by (intro exI [of _ "?p\<lparr>mItemQueue := mItemQueue ?p @ [q]\<rparr>"]) simp
  next
    case False
    then obtain v where t: "t = begin_head now i (hd (mItemQueue ?p @ [q])) v ?s"
      using assms by (auto simp: enqueueItem_def process_head_locked_def Let_def split: option.splits)
    moreover have "same_rest s t"
      using t same_rest_trans [OF rest same_rest_begin_head] assms(2) by simp
    ultimately show ?thesis using assms(2)
      by (intro exI [of _ "?p\<lparr>mItemQueue := mItemQueue ?p @ [q], mBusy := True, mItemProcessingStart := now\<rparr>"])
        (simp add: frame_begin_head)
  qed
qed

text \<open>The common part of all steps: what an operation on the chain does to the other instances.\<close>

definition chain_step :: "nat \<Rightarrow> pman \<Rightarrow> pman \<Rightarrow> bool" where
  "chain_step i s t \<longleftrightarrow> same_rest s t \<and>
     (\<forall>j < length (mPreprocessorChain s). j \<noteq> i \<longrightarrow> instance_ok (mPreprocessorChain s ! j) \<longrightarrow>
        instance_ok (mPreprocessorChain t ! j))"

lemma chain_step_trans: "chain_step i s t \<Longrightarrow> chain_step i t u \<Longrightarrow> chain_step i s u"
  by (auto simp: chain_step_def same_rest_length intro: same_rest_trans)

lemma chain_step_length: "chain_step i s t \<Longrightarrow> length (mPreprocessorChain t) = length (mPreprocessorChain s)"
  by (simp add: chain_step_def same_rest_length)

lemma finished_spec:
  assumes "preProcessorFinishedHandlingItem now i q s = Some t" and "i < length (mPreprocessorChain s)"
  shows "chain_step i s t \<and> passing t = passing s + {#q#} \<and> mPreprocessorChain t ! i = mPreprocessorChain s ! i"
proof (cases "Suc i < length (mPreprocessorChain s)")
  case True
  then obtain p where p: "mPreprocessorChain t = (mPreprocessorChain s)[Suc i := p]"
      "mItemQueue p = mItemQueue (mPreprocessorChain s ! Suc i) @ [q]" "mBusy p" "ended t = ended s" "same_rest s t"
    using enqueueItem_spec [of now "Suc i" q s t] assms by (auto simp: preProcessorFinishedHandlingItem_def)
  have "passing t = passing s + {#q#}"
    using chain_items_update [OF True, of p] p by (simp add: passing_def ac_simps)
  moreover have "instance_ok p" using p by (simp add: instance_ok_def)
  ultimately show ?thesis using p True by (auto simp: chain_step_def nth_list_update)
next
  case False
  then show ?thesis using assms lockedEndHandleItem_frame [where q = q and s = s]
    by (auto simp: preProcessorFinishedHandlingItem_def chain_step_def passing_def)
qed

lemma passing_set_instance:
  "i < length (mPreprocessorChain s) \<Longrightarrow>
   passing (set_instance i p s) + mset (mItemQueue (mPreprocessorChain s ! i)) = passing s + mset (mItemQueue p)"
  using chain_items_update [of i "mPreprocessorChain s" p] by (simp add: passing_def ac_simps)

lemma chain_step_set_instance:
  "i < length (mPreprocessorChain s) \<Longrightarrow> mId p = mId (mPreprocessorChain s ! i) \<Longrightarrow> chain_step i s (set_instance i p s)"
  by (simp add: chain_step_def same_rest_set_instance)

lemma begin_head_spec:
  assumes "i < length (mPreprocessorChain s)" and "mItemQueue (mPreprocessorChain s ! i) \<noteq> []"
  shows "chain_step i s (begin_head now i q v s) \<and> passing (begin_head now i q v s) = passing s \<and>
    instance_ok (mPreprocessorChain (begin_head now i q v s) ! i)"
  using assms chain_items_update [OF assms(1), of "(mPreprocessorChain s ! i)\<lparr>mBusy := True, mItemProcessingStart := now\<rparr>"]
  by (simp add: chain_step_def same_rest_begin_head frame_begin_head instance_ok_def passing_def)

text \<open>The loop over items that are gone: nothing is lost, and the instance ends idle with an empty queue or busy
  with the first valid item.\<close>

lemma process_head_spec:
  assumes "process_head now i qs s = Some t" and "i < length (mPreprocessorChain s)"
    and "mItemQueue (mPreprocessorChain s ! i) = qs"
  shows "chain_step i s t \<and> passing t = passing s \<and> instance_ok (mPreprocessorChain t ! i)"
  using assms
proof (induction now i qs s rule: process_head.induct)
  case (1 now i s)
  then show ?case
    using chain_step_set_instance [of i s] passing_set_instance [of i s "(mPreprocessorChain s ! i)\<lparr>mBusy := False\<rparr>"]
    by (auto simp: instance_ok_def)
next
  case (2 now i q qs s)
  show ?case
  proof (cases "items s q")
    case None
    then obtain u where u: "preProcessorFinishedHandlingItem now i q s = Some u"
        "process_head now i qs (set_instance i ((mPreprocessorChain u ! i)\<lparr>mItemQueue := qs\<rparr>) u) = Some t"
      using 2(2) by (auto split: Option.bind_splits)
    let ?u = "set_instance i ((mPreprocessorChain u ! i)\<lparr>mItemQueue := qs\<rparr>) u"
    note fin = finished_spec [OF u(1) 2(3)]
    have len: "i < length (mPreprocessorChain u)" using fin 2(3) chain_step_length [of i s u] by simp
    have "chain_step i u ?u" using chain_step_set_instance [OF len] by simp
    then have su: "chain_step i s ?u" using fin chain_step_trans by blast
    have "passing ?u = passing s"
      using passing_set_instance [OF len, of "(mPreprocessorChain u ! i)\<lparr>mItemQueue := qs\<rparr>"] fin 2(4) by simp
    moreover have "chain_step i ?u t \<and> passing t = passing ?u \<and> instance_ok (mPreprocessorChain t ! i)"
      using 2(1) [OF None u(1) u(2)] len by simp
    ultimately show ?thesis using su chain_step_trans by auto
  next
    case (Some v)
    then show ?thesis using 2 begin_head_spec [of i s now q v] by auto
  qed
qed

lemma itemProcessed_spec:
  assumes "itemProcessed now i r s = Some t" and "i < length (mPreprocessorChain s)"
    and "instance_ok (mPreprocessorChain s ! i)"
  shows "chain_step i s t \<and> passing t = passing s \<and> instance_ok (mPreprocessorChain t ! i)"
proof (cases "mItemQueue (mPreprocessorChain s ! i)")
  case Nil
  then show ?thesis using assms chain_step_set_instance [of i s]
      passing_set_instance [of i s "(mPreprocessorChain s ! i)\<lparr>mBusy := False\<rparr>"]
    by (auto simp: itemProcessed_def Let_def instance_ok_def)
next
  case (Cons q qs)
  let ?p = "(mPreprocessorChain s ! i)\<lparr>mItemQueue := qs\<rparr>" let ?s = "set_instance i ?p s"
  obtain u where u: "preProcessorFinishedHandlingItem now i q ?s = Some u"
      "t = set_instance i ((mPreprocessorChain u ! i)\<lparr>mBusy := False\<rparr>) u \<and> qs = [] \<or> process_head now i qs u = Some t \<and> qs \<noteq> []"
    using assms(1) Cons by (auto simp: itemProcessed_def Let_def split: Option.bind_splits if_splits)
  have s: "chain_step i s ?s" using chain_step_set_instance [OF assms(2)] by simp
  have fin: "chain_step i ?s u" "passing u = passing ?s + {#q#}" "mPreprocessorChain u ! i = ?p"
    using finished_spec [OF u(1)] assms(2) by auto
  have len: "i < length (mPreprocessorChain u)" using chain_step_length [OF fin(1)] assms(2) by simp
  have pu: "passing u = passing s" using passing_set_instance [OF assms(2), of ?p] Cons fin(2) by simp
  have su: "chain_step i s u" using s fin(1) chain_step_trans by blast
  from u(2) show ?thesis
  proof
    assume "t = set_instance i ((mPreprocessorChain u ! i)\<lparr>mBusy := False\<rparr>) u \<and> qs = []"
    then show ?thesis using su pu fin(3) len chain_step_set_instance [OF len]
        passing_set_instance [OF len, of "(mPreprocessorChain u ! i)\<lparr>mBusy := False\<rparr>"] chain_step_trans
      by (auto simp: instance_ok_def)
  next
    assume "process_head now i qs u = Some t \<and> qs \<noteq> []"
    then show ?thesis using process_head_spec [of now i qs u t] len fin(3) su pu chain_step_trans by auto
  qed
qed

lemma enqueue_all_spec:
  assumes "enqueue_all now i qs s = Some t" and "i < length (mPreprocessorChain s)"
    and "list_all instance_ok (mPreprocessorChain s)"
  shows "list_all instance_ok (mPreprocessorChain t) \<and> same_rest s t \<and> ended t = ended s \<and>
    chain_items (mPreprocessorChain t) = chain_items (mPreprocessorChain s) + mset qs \<and>
    (\<forall>j. j \<noteq> i \<longrightarrow> mPreprocessorChain t ! j = mPreprocessorChain s ! j)"
  using assms
proof (induction now i qs s rule: enqueue_all.induct)
  case (2 now i q qs s)
  then obtain u where u: "enqueueItem now i q s = Some u" "enqueue_all now i qs u = Some t"
    by (auto split: Option.bind_splits)
  obtain p where p: "mPreprocessorChain u = (mPreprocessorChain s)[i := p]"
      "mItemQueue p = mItemQueue (mPreprocessorChain s ! i) @ [q]" "mBusy p" "ended u = ended s" "same_rest s u"
    using enqueueItem_spec [OF u(1) 2(3)] by blast
  have ok: "list_all instance_ok (mPreprocessorChain u)"
    using p 2(4) by (auto simp: list_all_iff instance_ok_def dest!: set_update_subset_insert [THEN subsetD])
  have "chain_items (mPreprocessorChain u) = chain_items (mPreprocessorChain s) + {#q#}"
    using chain_items_update [OF 2(3), of p] p by (simp add: ac_simps)
  then show ?case using 2(1) [OF u(1, 2)] ok p 2(3) same_rest_trans [OF p(5)] by auto
qed simp

lemma fold_end_frame:
  "mPreprocessorChain (fold lockedEndHandleItem qs s) = mPreprocessorChain s \<and> same_rest s (fold lockedEndHandleItem qs s) \<and>
   ended (fold lockedEndHandleItem qs s) = ended s @ qs"
proof (induction qs arbitrary: s)
  case (Cons q qs)
  show ?case using Cons [of "lockedEndHandleItem q s"] lockedEndHandleItem_frame [where q = q and s = s] same_rest_trans
    by auto
qed simp

lemma chain_items_append [simp]: "chain_items (xs @ ys) = chain_items xs + chain_items ys"
  by (simp add: chain_items_def)

lemma chain_items_remove:
  "i < length ps \<Longrightarrow> chain_items ps = mset (mItemQueue (ps ! i)) + chain_items (take i ps @ drop (Suc i) ps)"
proof -
  assume i: "i < length ps"
  have "chain_items ps = chain_items (take i ps @ ps ! i # drop (Suc i) ps)" using id_take_nth_drop [OF i] by simp
  then show ?thesis by (simp add: chain_items_def ac_simps)
qed

lemma remove_instance_frame:
  "mPreprocessorChain (remove_instance i s) = take i (mPreprocessorChain s) @ drop (Suc i) (mPreprocessorChain s)"
  "ended (remove_instance i s) = ended s"
  "mTransactionWaitQueueHash (remove_instance i s) = mTransactionWaitQueueHash s"
  "items (remove_instance i s) = items s" "mEnabled (remove_instance i s) = mEnabled s"
  by (simp_all add: remove_instance_def)

lemma find_instance_nth: "find_instance n s = Some i \<Longrightarrow> i < length (mPreprocessorChain s) \<and> mId (mPreprocessorChain s ! i) = n"
  by (auto simp: find_instance_def find_Some_iff)

lemma find_instance_None: "find_instance n s = None \<Longrightarrow> n \<notin> set (map mId (mPreprocessorChain s))"
  by (auto simp: find_instance_def find_None_iff in_set_conv_nth)

lemma take_drop_ok:
  "distinct (map f xs) \<Longrightarrow> list_all Q xs \<Longrightarrow>
   distinct (map f (take i xs @ drop (Suc i) xs)) \<and> list_all Q (take i xs @ drop (Suc i) xs)"
proof -
  assume a: "distinct (map f xs)" "list_all Q xs"
  have "map f (take i xs @ drop (Suc i) xs) = take i (map f xs) @ drop (Suc i) (map f xs)"
    by (simp add: take_map drop_map)
  moreover have "distinct (take i (map f xs) @ drop (Suc i) (map f xs))"
    using a(1) set_take_disj_set_drop_if_distinct [OF a(1), of i "Suc i"] by (simp only: distinct_append distinct_take distinct_drop)
  moreover have "list_all Q (take i xs @ drop (Suc i) xs)"
    using a(2) by (auto simp: list_all_iff dest: in_set_takeD in_set_dropD)
  ultimately show ?thesis by simp
qed

lemma lockedUnregisterInstance_spec:
  assumes "lockedUnregisterInstance now n s = Some t" and "pman_inv s"
  shows "pman_inv t \<and> passing t = passing s \<and> mTransactionWaitQueueHash t = mTransactionWaitQueueHash s"
proof (cases "find_instance n s")
  case None
  then show ?thesis using assms by (simp add: lockedUnregisterInstance_def)
next
  case (Some i)
  let ?q = "mItemQueue (mPreprocessorChain s ! i)"
  have i: "i < length (mPreprocessorChain s)" using find_instance_nth [OF Some] by simp
  obtain u where u: "t = remove_instance i u" "list_all instance_ok (mPreprocessorChain u)" "same_rest s u"
      "passing u = passing s + mset ?q" "mPreprocessorChain u ! i = mPreprocessorChain s ! i"
  proof (cases "Suc i < length (mPreprocessorChain s)")
    case True
    then obtain u where u: "enqueue_all now (Suc i) ?q s = Some u" "t = remove_instance i u"
      using assms(1) Some by (auto simp: lockedUnregisterInstance_def Let_def)
    from enqueue_all_spec [OF u(1) True] u(2) assms(2) that show ?thesis by (simp add: pman_inv_def passing_def)
  next
    case False
    then show ?thesis using assms Some fold_end_frame [of ?q s] that [of "fold lockedEndHandleItem ?q s"]
      by (simp add: lockedUnregisterInstance_def pman_inv_def passing_def ac_simps)
  qed
  have "distinct (map mId (mPreprocessorChain u))" using u(3) assms(2) by (simp add: pman_inv_def same_rest_def)
  note ok = take_drop_ok [OF this u(2), of i]
  have "i < length (mPreprocessorChain u)" using i same_rest_length [OF u(3)] by simp
  from chain_items_remove [OF this] have "passing u = passing t + mset ?q"
    using u(1, 5) by (simp add: passing_def remove_instance_frame ac_simps)
  then have "passing t = passing s" using u(4) by simp
  then show ?thesis using ok u(1, 3) assms(2) by (simp add: pman_inv_def remove_instance_frame same_rest_def)
qed

lemma unregister_all_spec:
  assumes "unregister_all now ns s = Some t" and "pman_inv s"
  shows "pman_inv t \<and> passing t = passing s \<and> mTransactionWaitQueueHash t = mTransactionWaitQueueHash s"
  using assms
proof (induction now ns s rule: unregister_all.induct)
  case (2 now n ns s)
  then obtain u where u: "lockedUnregisterInstance now n s = Some u" "unregister_all now ns u = Some t"
    by (auto split: Option.bind_splits)
  from lockedUnregisterInstance_spec [OF u(1) 2(3)] 2(1) [OF u] show ?case by simp
qed simp

section \<open>Conservation of items\<close>

definition waiting :: "pman \<Rightarrow> int multiset" where
  "waiting s = mset (concat (map snd (mTransactionWaitQueueHash s)))"

definition tracked :: "pman \<Rightarrow> int multiset" where
  "tracked s = passing s + waiting s"

text \<open>What the events mean, whatever the manager does: an item that is handed in while its data store is in a transaction, and the manager is active, waits
  for the transaction; a commit lets the items of the data store go on; a rollback, or the end of the data store, makes them void.\<close>

definition waits_after :: "pman \<Rightarrow> pman_op \<Rightarrow> (nat \<Rightarrow> int list) \<Rightarrow> (nat \<Rightarrow> int list)" where
  "waits_after s l w =
     (case l of
        BeginHandle q d inTransaction \<Rightarrow> if isActive s \<and> inTransaction then w(d := w d @ [q]) else w
      | Committed (Some d) \<Rightarrow> w(d := []) | RolledBack (Some d) \<Rightarrow> w(d := []) | Destroyed (Some d) \<Rightarrow> w(d := [])
      | _ \<Rightarrow> w)"

definition voided :: "pman_op \<Rightarrow> (nat \<Rightarrow> int list) \<Rightarrow> int multiset" where
  "voided l w = (case l of RolledBack (Some d) \<Rightarrow> mset (w d) | Destroyed (Some d) \<Rightarrow> mset (w d) | _ \<Rightarrow> {#})"

text \<open>The items that wait, and those whose transaction was rolled back, after a sequence of events that starts in a state with \<open>w\<close> waiting.\<close>

fun transaction_ledger :: "pman \<Rightarrow> (int \<times> pman_op) list \<Rightarrow> (nat \<Rightarrow> int list) \<Rightarrow> (nat \<Rightarrow> int list) \<times> int multiset" where
  "transaction_ledger s [] w = (w, {#})"
| "transaction_ledger s ((now, l) # ls) w =
     (case transaction_ledger (the (pman_do now l s)) ls (waits_after s l w) of (w', lost) \<Rightarrow> (w', voided l w + lost))"

definition entered :: "pman_op \<Rightarrow> int multiset" where
  "entered l = (case l of BeginHandle q _ _ \<Rightarrow> {#q#} | _ \<Rightarrow> {#})"

lemma waiting_remove:
  assumes "distinct (map fst h)" and "map_of h d = Some w"
  shows "mset (concat (map snd h)) = mset w + mset (concat (map snd (hash_remove d h)))"
proof -
  have "mset h = add_mset (d, w) (mset (hash_remove d h))"
    using hash_remove_mset [OF assms(1)] assms(2) by (simp add: map_of_SomeD)
  then have "mset (map (mset \<circ> snd) h) = add_mset (mset w) (mset (map (mset \<circ> snd) (hash_remove d h)))" by simp
  from arg_cong [OF this, of sum_mset] show ?thesis by (simp only: sum_mset_sum_list sum_mset.add_mset mset_concat map_map)
qed

definition waits :: "pman \<Rightarrow> nat \<Rightarrow> int list" where
  "waits s = (\<lambda>d. value_at d (mTransactionWaitQueueHash s))"

lemma waits_same: "mTransactionWaitQueueHash t = mTransactionWaitQueueHash s \<Longrightarrow> waits t = waits s"
  by (simp add: waits_def fun_eq_iff)

lemma waits_kill: "waits (lockedKillWaitQueue d s) = (waits s)(d := [])"
  by (simp add: waits_def lockedKillWaitQueue_def fun_eq_iff)

lemma waiting_kill:
  assumes "distinct (map fst (mTransactionWaitQueueHash s))"
  shows "waiting s = mset (waits s d) + waiting (lockedKillWaitQueue d s)"
proof (cases "map_of (mTransactionWaitQueueHash s) d")
  case None
  then have "d \<notin> fst ` set (mTransactionWaitQueueHash s)" by (simp add: map_of_eq_None_iff)
  then show ?thesis using None by (simp add: waiting_def waits_def value_at_def lockedKillWaitQueue_def hash_remove_id)
next
  case (Some w)
  then show ?thesis using waiting_remove [OF assms Some] by (simp add: waiting_def waits_def value_at_def lockedKillWaitQueue_def)
qed

lemma drop_wait_queue_spec:
  assumes "pman_inv s"
  shows "pman_inv (drop_wait_queue (Some d) s) \<and> tracked (drop_wait_queue (Some d) s) + mset (waits s d) = tracked s \<and>
    waits (drop_wait_queue (Some d) s) = (waits s)(d := [])"
proof -
  have "distinct (map fst (mTransactionWaitQueueHash s))" using assms by (simp add: pman_inv_def)
  from waiting_kill [OF this, of d] show ?thesis using assms waits_kill [of d s]
    by (simp add: drop_wait_queue_def tracked_def passing_def pman_inv_def lockedKillWaitQueue_def hash_remove_def distinct_map_filter)
qed

lemma committed_spec:
  assumes "dataStoreTransactionCommitted now d s = Some t" and "pman_inv s"
  shows "pman_inv t \<and> tracked t = tracked s \<and> waits t = (case d of None \<Rightarrow> waits s | Some n \<Rightarrow> (waits s)(n := []))"
proof (cases "\<exists>n w. d = Some n \<and> map_of (mTransactionWaitQueueHash s) n = Some w")
  case True
  then obtain n w where d: "d = Some n" "map_of (mTransactionWaitQueueHash s) n = Some w" by blast
  have hd: "distinct (map fst (mTransactionWaitQueueHash s))" using assms by (simp add: pman_inv_def)
  obtain u where u: "t = lockedKillWaitQueue n u" "list_all instance_ok (mPreprocessorChain u)" "same_rest s u"
      "passing u = passing s + mset w"
  proof (cases "\<not> mEnabled s \<or> mPreprocessorChain s = []")
    case True
    then show ?thesis using assms d fold_end_frame [of w s] that [of "fold lockedEndHandleItem w s"]
      by (auto simp: dataStoreTransactionCommitted_def pman_inv_def passing_def)
  next
    case False
    then obtain u where u: "enqueue_all now 0 w s = Some u" "t = lockedKillWaitQueue n u"
      using assms(1) d by (auto simp: dataStoreTransactionCommitted_def)
    from enqueue_all_spec [OF u(1)] u(2) False assms(2) that show ?thesis
      by (simp add: pman_inv_def passing_def)
  qed
  then have "waits t = (waits s)(n := [])" using waits_kill [of n u] waits_same [of u s] by (simp add: same_rest_def)
  moreover have "pman_inv t \<and> tracked t = tracked s" using u waiting_remove [OF hd d(2)] assms(2)
    by (simp add: lockedKillWaitQueue_def tracked_def passing_def waiting_def pman_inv_def same_rest_def
        hash_remove_def distinct_map_filter)
  ultimately show ?thesis using d(1) by simp
next
  case False
  then have "t = s" using assms(1) by (auto simp: dataStoreTransactionCommitted_def split: option.splits)
  moreover have "waits s = (waits s)(n := [])" if "d = Some n" for n
    using False that by (auto simp: waits_def value_at_def fun_eq_iff split: option.splits)
  ultimately show ?thesis using assms by (auto split: option.splits)
qed

lemma enqueueItem_inv:
  assumes "enqueueItem now i q s = Some t" and "i < length (mPreprocessorChain s)" and "pman_inv s"
  shows "pman_inv t \<and> tracked t = tracked s + {#q#} \<and> waits t = waits s"
proof -
  have "enqueue_all now i [q] s = Some t" using assms(1) by simp
  from enqueue_all_spec [OF this assms(2)] assms(3) show ?thesis
    by (simp add: pman_inv_def tracked_def passing_def waiting_def waits_def same_rest_def)
qed

lemma beginHandleItem_spec:
  assumes "beginHandleItem now q d b s = Some t" and "pman_inv s"
  shows "pman_inv t \<and> tracked t = tracked s + {#q#} \<and>
    waits t = (if isActive s \<and> b then (waits s)(d := waits s d @ [q]) else waits s)"
proof -
  consider "t = lockedEndHandleItem q s" "\<not> isActive s"
    | "t = s\<lparr>mTransactionWaitQueueHash := at_key d (\<lambda>w. w @ [q]) (mTransactionWaitQueueHash s)\<rparr>" "isActive s" "b"
    | "enqueueItem now 0 q s = Some t" "mPreprocessorChain s \<noteq> []" "\<not> b"
    using assms(1) unfolding beginHandleItem_def lockedActivateFirstPreprocessor_def isActive_def by (metis option.inject)
  then show ?thesis
  proof cases
    case 1
    then show ?thesis using assms(2) lockedEndHandleItem_frame [where q = q and s = s]
      by (simp add: pman_inv_def tracked_def passing_def waiting_def waits_def same_rest_def)
  next
    case 2
    have hd: "distinct (map fst (mTransactionWaitQueueHash s))" using assms by (simp add: pman_inv_def)
    from at_key_concat [OF hd, of d "\<lambda>w. w @ [q]"] show ?thesis using 2 assms(2) at_key_distinct [OF hd]
      by (simp add: pman_inv_def tracked_def passing_def waiting_def waits_def value_at_key_fold fun_eq_iff)
  next
    case 3
    then show ?thesis using enqueueItem_inv assms(2) by simp
  qed
qed

lemma itemProcessed_inv:
  assumes "itemProcessed now i r s = Some t" and "i < length (mPreprocessorChain s)" and "pman_inv s"
  shows "pman_inv t \<and> tracked t = tracked s \<and> waits t = waits s"
proof -
  have "instance_ok (mPreprocessorChain s ! i)" using assms(2, 3) by (simp add: pman_inv_def list_all_length)
  from itemProcessed_spec [OF assms(1, 2) this]
  have t: "chain_step i s t" "passing t = passing s" "instance_ok (mPreprocessorChain t ! i)" by simp_all
  have "instance_ok (mPreprocessorChain t ! j)" if "j < length (mPreprocessorChain s)" for j
    using that t(1, 3) assms(3) by (cases "j = i") (auto simp: chain_step_def pman_inv_def list_all_length)
  then show ?thesis using t assms(3)
    by (simp add: pman_inv_def chain_step_def same_rest_def tracked_def waiting_def waits_def list_all_length)
      (metis length_map)
qed

lemma registerInstance_spec:
  assumes "pman_inv s"
  shows "pman_inv (registerInstance n b s) \<and> tracked (registerInstance n b s) = tracked s \<and> waits (registerInstance n b s) = waits s"
proof (cases "find_instance n s = None \<and> b")
  case True
  then show ?thesis using assms find_instance_None [of n s]
    by (auto simp: registerInstance_def pman_inv_def instance_ok_def tracked_def passing_def waiting_def waits_def chain_items_def)
next
  case False
  then show ?thesis using assms by (auto simp: registerInstance_def)
qed

lemmas op_specs = pman_do_def entered_def voided_def waits_after_def tracked_def waiting_def waits_def

lemma pman_step_spec:
  "pman_step s l t \<Longrightarrow> pman_inv s \<Longrightarrow> pman_inv t \<and>
     tracked t + voided (snd l) (waits s) = tracked s + entered (snd l) \<and> waits t = waits_after s (snd l) (waits s)"
proof (induction rule: pman_step.induct)
  case (pman_step l s now t)
  show ?case
  proof (cases l)
    case (Unregister n)
    then show ?thesis using pman_step lockedUnregisterInstance_spec [of now n s t] by (simp add: op_specs)
  next
    case (Heartbeat a r)
    then show ?thesis using pman_step unregister_all_spec by (simp add: heartbeat_def op_specs)
  next
    case (Processed i q)
    then show ?thesis using pman_step itemProcessed_inv [of now i q s t]
      by (simp add: pman_do_def op_ok_def entered_def voided_def waits_after_def)
  next
    case (SetEnabled b)
    then show ?thesis using pman_step by (auto simp: op_specs pman_inv_def passing_def)
  next
    case (ItemChanged q v)
    then show ?thesis using pman_step by (auto simp: op_specs pman_inv_def passing_def)
  next
    case (RolledBack d)
    then show ?thesis using pman_step drop_wait_queue_spec [of s] by (cases d)
      (auto simp: pman_do_def entered_def voided_def waits_after_def dataStoreTransactionRolledBack_def, auto simp: drop_wait_queue_def)
  next
    case (Destroyed d)
    then show ?thesis using pman_step drop_wait_queue_spec [of s] by (cases d)
      (auto simp: pman_do_def entered_def voided_def waits_after_def dataStoreDestroyed_def, auto simp: drop_wait_queue_def)
  next
    case (Committed d)
    then show ?thesis using pman_step committed_spec [of now d s t]
      by (cases d) (auto simp: pman_do_def entered_def voided_def waits_after_def)
  next
    case (BeginHandle q d b)
    then show ?thesis using pman_step beginHandleItem_spec [of now q d b s t]
      by (simp add: pman_do_def entered_def voided_def waits_after_def)
  next
    case (Register n b)
    then show ?thesis using pman_step registerInstance_spec [of s n b]
      by (auto simp: pman_do_def entered_def voided_def waits_after_def)
  qed
qed

interpretation chain: inductive_invariant pman_start pman_step pman_inv
  by unfold_locales (auto simp: pman_start_def pman_inv_def dest: pman_step_spec)

lemma run_tracked:
  "run pman_step s ls t \<Longrightarrow> pman_inv s \<Longrightarrow>
     tracked t + snd (transaction_ledger s ls (waits s)) = tracked s + (\<Sum>l\<leftarrow>ls. entered (snd l)) \<and>
     waits t = fst (transaction_ledger s ls (waits s))"
proof (induction rule: run.induct)
  case (run_cons s l t ls u)
  obtain now op where l: "l = (now, op)" by (cases l)
  have t: "the (pman_do now op s) = t" using run_cons.hyps(1) l by (auto elim: pman_step.cases)
  note step = pman_step_spec [OF run_cons.hyps(1) run_cons.prems]
  then show ?case using run_cons.IH l t by (simp add: case_prod_unfold ac_simps) (metis (no_types, lifting) add.assoc add.commute)
qed simp

section \<open>Freedom from deadlock\<close>

text \<open>Every queued item, waiting item and new item is in the database.\<close>

definition items_valid :: "pman \<Rightarrow> bool" where
  "items_valid s \<longleftrightarrow> (\<forall>q. q \<in># chain_items (mPreprocessorChain s) + waiting s \<longrightarrow> items s q \<noteq> None)"

lemma enqueueItem_valid:
  assumes "i < length (mPreprocessorChain s)" and "list_all instance_ok (mPreprocessorChain s)" and "items s q \<noteq> None"
  shows "\<exists>t. enqueueItem now i q s = Some t"
proof -
  have "instance_ok (mPreprocessorChain s ! i)" using assms(1, 2) by (simp add: list_all_length)
  then show ?thesis using assms(1, 3)
    by (auto simp: enqueueItem_def process_head_locked_def Let_def instance_ok_def)
qed

lemma enqueue_all_valid:
  assumes "i < length (mPreprocessorChain s)" and "list_all instance_ok (mPreprocessorChain s)"
    and "\<forall>q \<in> set qs. items s q \<noteq> None"
  shows "\<exists>t. enqueue_all now i qs s = Some t"
  using assms
proof (induction qs arbitrary: s)
  case (Cons q qs)
  then obtain u where u: "enqueueItem now i q s = Some u" using enqueueItem_valid [of i s q now] by auto
  then have "enqueue_all now i [q] s = Some u" by simp
  from enqueue_all_spec [OF this Cons.prems(1, 2)]
  have "list_all instance_ok (mPreprocessorChain u)" "same_rest s u" by simp_all
  then show ?case using Cons u same_rest_length [of s u] by (simp add: same_rest_def)
qed simp

lemma chain_items_mem: "i < length ps \<Longrightarrow> q \<in> set (mItemQueue (ps ! i)) \<Longrightarrow> q \<in># chain_items ps"
  using chain_items_remove [of i ps] by auto

lemma waiting_mem: "map_of (mTransactionWaitQueueHash s) d = Some w \<Longrightarrow> q \<in> set w \<Longrightarrow> q \<in># waiting s"
  by (force simp: waiting_def dest: map_of_SomeD)

lemma itemProcessed_valid:
  assumes "i < length (mPreprocessorChain s)" and "pman_inv s" and "items_valid s"
  shows "\<exists>t. itemProcessed now i r s = Some t"
proof (cases "mItemQueue (mPreprocessorChain s ! i)")
  case Nil
  then show ?thesis by (simp add: itemProcessed_def)
next
  case (Cons q qs)
  let ?s = "set_instance i ((mPreprocessorChain s ! i)\<lparr>mItemQueue := qs\<rparr>) s"
  have valid: "items s x \<noteq> None" if "x \<in> set (q # qs)" for x
    using that chain_items_mem [OF assms(1)] Cons assms(3) by (auto simp: items_valid_def)
  have "instance_ok (mPreprocessorChain s ! Suc i)" if "Suc i < length (mPreprocessorChain s)"
    using that assms(2) by (simp add: pman_inv_def list_all_length)
  then have "\<exists>u. preProcessorFinishedHandlingItem now i q ?s = Some u"
    using valid [of q] by (cases "Suc i < length (mPreprocessorChain s)")
      (auto simp: preProcessorFinishedHandlingItem_def enqueueItem_def process_head_locked_def Let_def instance_ok_def)
  then obtain u where u: "preProcessorFinishedHandlingItem now i q ?s = Some u" by blast
  have "same_rest ?s u" using finished_spec [OF u] assms(1) by (simp add: chain_step_def)
  then have "items u = items s" by (simp add: same_rest_def)
  then show ?thesis using u Cons valid [of "hd qs"] by (cases qs) (auto simp: itemProcessed_def split: option.splits)
qed

lemma unregister_valid:
  assumes "pman_inv s" and "items_valid s" shows "\<exists>t. lockedUnregisterInstance now n s = Some t"
proof (cases "find_instance n s")
  case (Some i)
  have i: "i < length (mPreprocessorChain s)" using find_instance_nth [OF Some] by simp
  have "\<forall>q \<in> set (mItemQueue (mPreprocessorChain s ! i)). items s q \<noteq> None"
    using chain_items_mem [OF i] assms(2) by (auto simp: items_valid_def)
  then show ?thesis using Some enqueue_all_valid [of "Suc i" s] assms(1)
    by (auto simp: lockedUnregisterInstance_def Let_def pman_inv_def)
qed (simp add: lockedUnregisterInstance_def)

lemma unregister_frame:
  assumes "lockedUnregisterInstance now n s = Some t" and "pman_inv s"
  shows "items t = items s \<and> (\<exists>xs. ended t = ended s @ xs)"
proof (cases "find_instance n s")
  case None
  then show ?thesis using assms by (simp add: lockedUnregisterInstance_def)
next
  case (Some i)
  let ?q = "mItemQueue (mPreprocessorChain s ! i)"
  show ?thesis
  proof (cases "Suc i < length (mPreprocessorChain s)")
    case True
    then obtain u where u: "enqueue_all now (Suc i) ?q s = Some u" "t = remove_instance i u"
      using assms(1) Some by (auto simp: lockedUnregisterInstance_def Let_def)
    then show ?thesis using enqueue_all_spec [OF u(1) True] assms(2)
      by (simp add: pman_inv_def remove_instance_frame same_rest_def)
  next
    case False
    then show ?thesis using assms(1) Some fold_end_frame [of ?q s]
      by (auto simp: lockedUnregisterInstance_def Let_def remove_instance_frame same_rest_def)
  qed
qed

text \<open>Passing on the items of a preprocessor that is dropped keeps them valid.\<close>

lemma unregister_items_valid:
  assumes "lockedUnregisterInstance now n s = Some t" and "pman_inv s" and "items_valid s"
  shows "items_valid t"
proof -
  obtain xs where f: "items t = items s" "ended t = ended s @ xs" using unregister_frame [OF assms(1, 2)] by blast
  have spec: "passing t = passing s" "mTransactionWaitQueueHash t = mTransactionWaitQueueHash s"
    using lockedUnregisterInstance_spec [OF assms(1, 2)] by simp_all
  then have "chain_items (mPreprocessorChain s) = chain_items (mPreprocessorChain t) + mset xs"
    using f(2) by (simp add: passing_def ac_simps)
  then show ?thesis using assms(3) f(1) spec(2) by (simp add: items_valid_def waiting_def)
qed

lemma unregister_all_valid:
  "pman_inv s \<Longrightarrow> items_valid s \<Longrightarrow> \<exists>t. unregister_all now ns s = Some t"
proof (induction ns arbitrary: s)
  case (Cons n ns)
  obtain u where u: "lockedUnregisterInstance now n s = Some u" using unregister_valid Cons.prems by blast
  then show ?case using Cons unregister_items_valid [OF u] lockedUnregisterInstance_spec [OF u] by simp
qed simp

section \<open>Properties\<close>

text \<open>(C35) No item is lost in preprocessing: along every run of the manager that does not block, the items handed to
  \<open>beginHandleItem\<close> are exactly those queued in the instances, those that reached the end of the chain, those that wait for a
  transaction, and those of transactions that were rolled back or whose data store is gone; each counted as often as it was handed in. The last two are what the events
  say, not what the slots do: an item waits from the moment when it is handed in during a transaction until its data store commits, when it goes on, or
  rolls back. Unregistering, firing and stuck preprocessors and vanishing items are included; a run that blocks (see \<open>deleted_item_deadlocks\<close>) ends there.\<close>

theorem preprocessing_conserves_items:
  assumes "pman_start s" and "run pman_step s ls t" and "transaction_ledger s ls (\<lambda>d. []) = (w, lost)"
  shows "chain_items (mPreprocessorChain t) + mset (ended t) + waiting t + lost = (\<Sum>l\<leftarrow>ls. entered (snd l)) \<and>
    (\<forall>d. value_at d (mTransactionWaitQueueHash t) = w d)"
proof -
  have "tracked s = {#}" using assms(1) by (simp add: pman_start_def tracked_def passing_def chain_items_def waiting_def)
  moreover have "waits s = (\<lambda>d. [])" using assms(1) by (simp add: pman_start_def waits_def value_at_def fun_eq_iff)
  ultimately show ?thesis using run_tracked [OF assms(2) chain.inv_init [OF assms(1)]] assms(3)
    by (simp add: tracked_def passing_def) (metis waits_def)
qed

definition empty_pman :: pman where
  "empty_pman = \<lparr>mPreprocessorChain = [], mEnabled = True, mTransactionWaitQueueHash = [],
     items = [7 \<mapsto> (1, ''message/rfc822'')], unhidden = [], ended = [], begun = []\<rparr>"

lemma empty_pman_start: "pman_start empty_pman"
  by (simp add: pman_start_def empty_pman_def)

text \<open>A preprocessor, and two items in transactions: one is rolled back, one is committed.\<close>

fun pman_run :: "(int \<times> pman_op) list \<Rightarrow> pman \<Rightarrow> pman option" where
  "pman_run [] s = Some s"
| "pman_run ((now, l) # ls) s = (if op_ok l s then pman_do now l s \<bind> pman_run ls else None)"

lemma pman_run_steps: "pman_run ls s = Some t \<Longrightarrow> run pman_step s ls t"
  by (induction ls s rule: pman_run.induct) (auto intro: run.intros pman_step.intros split: Option.bind_splits if_splits)

definition two_transactions :: "(int \<times> pman_op) list" where
  "two_transactions = [(0, Register ''spam'' True), (1, BeginHandle 7 1 True), (2, BeginHandle 7 2 True), (3, RolledBack (Some 1)), (4, Committed (Some 2))]"

theorem preprocessing_conserves_items_witness:
  "\<exists>t. run pman_step empty_pman two_transactions t \<and>
     chain_items (mPreprocessorChain t) + mset (ended t) + waiting t + {#7#} = {#7, 7#} \<and> value_at 1 (mTransactionWaitQueueHash t) = []"
proof -
  have "pman_run two_transactions empty_pman \<noteq> None" by code_simp
  then obtain t where "pman_run two_transactions empty_pman = Some t" by blast
  then have r: "run pman_step empty_pman two_transactions t" by (rule pman_run_steps)
  have l: "transaction_ledger empty_pman two_transactions (\<lambda>d. []) = (\<lambda>d. [], {#7#})"
    by (simp add: two_transactions_def waits_after_def voided_def pman_do_def isActive_def registerInstance_def find_instance_def empty_pman_def
      beginHandleItem_def dataStoreTransactionRolledBack_def drop_wait_queue_def lockedKillWaitQueue_def fun_eq_iff)
  have "(\<Sum>l\<leftarrow>two_transactions. entered (snd l)) = {#7, 7#}" by (simp add: two_transactions_def entered_def)
  then show ?thesis using preprocessing_conserves_items [OF empty_pman_start r l] r by metis
qed

text \<open>While the items in the chain, in the wait queues and the new item exist in the database, no operation of the
  manager blocks on its own mutex: every operation returns.\<close>

theorem no_deadlock_with_valid_items:
  assumes "reach pman_start pman_step s" and "items_valid s" and "op_ok l s"
    and "\<forall>q \<in># entered l. items s q \<noteq> None"
  shows "\<exists>t. pman_do now l s = Some t"
proof -
  have inv: "pman_inv s" by (rule chain.reach_inv [OF assms(1)])
  show ?thesis
  proof (cases l)
    case (Unregister n)
    then show ?thesis using unregister_valid [OF inv assms(2)] by (simp add: pman_do_def)
  next
    case (Heartbeat a r)
    then show ?thesis using unregister_all_valid [OF inv assms(2)] by (simp add: pman_do_def heartbeat_def)
  next
    case (Processed i q)
    then show ?thesis using itemProcessed_valid [OF _ inv assms(2)] assms(3) by (simp add: pman_do_def op_ok_def)
  next
    case (BeginHandle q d b)
    then show ?thesis using enqueueItem_valid [of 0 s q now] inv assms(4)
      by (auto simp: pman_do_def beginHandleItem_def lockedActivateFirstPreprocessor_def pman_inv_def entered_def)
  next
    case (Committed d)
    then show ?thesis using enqueue_all_valid [of 0 s] inv assms(2) waiting_mem [of s]
      by (auto simp: pman_do_def dataStoreTransactionCommitted_def pman_inv_def items_valid_def split: option.splits)
  qed (simp_all add: pman_do_def)
qed

theorem no_deadlock_with_valid_items_witness: "\<exists>t. pman_do 0 (BeginHandle 7 1 False) empty_pman = Some t"
proof -
  have "reach pman_start pman_step empty_pman" by (rule reach.start, rule empty_pman_start)
  moreover have "items_valid empty_pman" by (simp add: items_valid_def empty_pman_def chain_items_def waiting_def)
  moreover have "op_ok (BeginHandle 7 1 False) empty_pman" by (simp add: op_ok_def)
  moreover have "\<forall>q \<in># entered (BeginHandle 7 1 False). items empty_pman q \<noteq> None"
    by (simp add: entered_def empty_pman_def)
  ultimately show ?thesis by (rule no_deadlock_with_valid_items)
qed

text \<open>A preprocessor that deletes an item blocks the server: when the first item of an instance's queue is gone from
  the database and the next instance of the chain is idle, the report that the item is processed passes the item on
  with the mutex held, and the next instance calls back into the manager, which locks the same mutex again.\<close>

theorem deleted_item_deadlocks:
  assumes "Suc i < length (mPreprocessorChain s)" and "mItemQueue (mPreprocessorChain s ! i) = q # qs"
    and "items s q = None" and "mItemQueue (mPreprocessorChain s ! Suc i) = []" and "\<not> mBusy (mPreprocessorChain s ! Suc i)"
  shows "itemProcessed now i r s = None"
  using assms
  by (simp add: itemProcessed_def preProcessorFinishedHandlingItem_def enqueueItem_def process_head_locked_def Let_def)

definition spam_chain :: pman where
  "spam_chain = empty_pman\<lparr>mPreprocessorChain :=
     [\<lparr>mId = ''spam'', mItemQueue = [8], mBusy = True, mItemProcessingStart = 0\<rparr>,
      \<lparr>mId = ''filter'', mItemQueue = [], mBusy = False, mItemProcessingStart = 0\<rparr>]\<rparr>"

theorem deleted_item_deadlocks_witness: "itemProcessed 5 0 8 spam_chain = None"
  using deleted_item_deadlocks [of 0 spam_chain 8 "[]" 5 8] by (simp add: spam_chain_def empty_pman_def)

end
