(* ===== verification/ExternalPartStorage.thy ===== *)
theory ExternalPartStorage
  imports Prelude Transition
begin

text \<open>
  \<open>src/private/externalpartstorage.cpp\<close>: large payload parts live in files beside the database, named
  \<open>PARTID_rREVISION\<close>. A transaction per thread logs what was created and what is to be deleted; a commit deletes
  the old files, a rollback the new ones. The file system is a map from paths to contents; the outcomes of opening,
  writing and removing a file are arguments.
\<close>

section \<open>State\<close>

datatype operation = Create string | Delete string

record storage =
  files :: "string \<rightharpoonup> string"
  mTransactions :: "nat \<rightharpoonup> operation list"

text \<open>What the operating system does: \<open>open_ok\<close>, how many bytes of the data are written (\<open>None\<close>: all), and which files
  can be removed.\<close>

record os =
  open_ok :: bool
  short_write :: "nat option"
  removable :: "string \<Rightarrow> bool"

definition remove_file :: "os \<Rightarrow> string \<Rightarrow> storage \<Rightarrow> storage" where
  "remove_file os path s = (if removable os path then s\<lparr>files := (files s)(path := None)\<rparr> else s)"

section \<open>Names and paths\<close>

text \<open>\<open>indexOf(''_r'')\<close>: the text before and after the first occurrence.\<close>

fun split_revision :: "string \<Rightarrow> (string \<times> string) option" where
  "split_revision [] = None"
| "split_revision (c # s) =
     (if c = CHR ''_'' \<and> take 1 s = ''r'' then Some ([], drop 1 s)
      else map_option (\<lambda>(a, b). (c # a, b)) (split_revision s))"

definition updateFileNameRevision :: "string \<Rightarrow> string" where
  "updateFileNameRevision filename =
     (case split_revision filename of
        Some (a, r) \<Rightarrow> a @ ''_r'' @ number (wrap32 (or_zero (toInt r) + 1))
      | None \<Rightarrow> filename @ ''_r0'')"

definition nameForPartId :: "int \<Rightarrow> string" where
  "nameForPartId partId = number partId @ ''_r0''"

definition level_dir :: "string \<Rightarrow> string" where
  "level_dir filename =
     (let revPos = indexOf filename CHR ''_'' 0 in
      [if 1 < revPos then filename ! nat (revPos - 2) else CHR ''0'',
       if 0 < revPos then filename ! nat (revPos - 1) else CHR ''0''])"

definition levelled_path :: "string \<Rightarrow> string \<Rightarrow> string" where
  "levelled_path base filename = base @ ''/'' @ level_dir filename @ ''/'' @ filename"

text \<open>\<open>resolveAbsolutePath\<close> with the path and \<open>exists\<close>; \<open>base\<close> is \<open>StandardDirs::saveDir\<close>.\<close>

definition resolveAbsolutePath :: "string \<Rightarrow> string \<Rightarrow> bool \<Rightarrow> storage \<Rightarrow> string \<times> bool" where
  "resolveAbsolutePath base filename legacyFallback s =
     (if take 1 filename = ''/'' then (filename, files s filename \<noteq> None)
      else
        (let path = levelled_path base filename; legacyPath = base @ ''/'' @ filename in
         if \<not> legacyFallback then (path, False)
         else if files s path \<noteq> None then (path, True)
         else if files s legacyPath \<noteq> None then (legacyPath, True)
         else (path, False)))"

section \<open>Transactions\<close>

definition beginTransaction :: "nat \<Rightarrow> storage \<Rightarrow> bool \<times> storage" where
  "beginTransaction t s =
     (if mTransactions s t \<noteq> None then (False, s) else (True, s\<lparr>mTransactions := (mTransactions s)(t \<mapsto> [])\<rparr>))"

definition inTransaction :: "nat \<Rightarrow> storage \<Rightarrow> bool" where
  "inTransaction t s \<longleftrightarrow> mTransactions s t \<noteq> None"

definition addToTransaction :: "nat \<Rightarrow> operation list \<Rightarrow> storage \<Rightarrow> storage" where
  "addToTransaction t ops s = s\<lparr>mTransactions := (mTransactions s)(t := map_option (\<lambda>l. l @ ops) (mTransactions s t))\<rparr>"

fun replay :: "os \<Rightarrow> bool \<Rightarrow> operation list \<Rightarrow> storage \<Rightarrow> storage" where
  "replay os commit [] s = s"
| "replay os commit (Create f # ops) s = replay os commit ops (if commit then s else remove_file os f s)"
| "replay os commit (Delete f # ops) s = replay os commit ops (if commit then remove_file os f s else s)"

definition end_transaction :: "os \<Rightarrow> nat \<Rightarrow> bool \<Rightarrow> storage \<Rightarrow> bool \<times> storage" where
  "end_transaction os t commit s =
     (case mTransactions s t of
        None \<Rightarrow> (False, s)
      | Some trx \<Rightarrow> (True, replay os commit trx (s\<lparr>mTransactions := (mTransactions s)(t := None)\<rparr>)))"

definition commitTransaction :: "os \<Rightarrow> nat \<Rightarrow> storage \<Rightarrow> bool \<times> storage" where
  "commitTransaction os t s = end_transaction os t True s"

definition rollbackTransaction :: "os \<Rightarrow> nat \<Rightarrow> storage \<Rightarrow> bool \<times> storage" where
  "rollbackTransaction os t s = end_transaction os t False s"

text \<open>The destructor of \<open>ExternalPartStorageTransaction\<close>; its constructor is \<open>beginTransaction\<close>, the result ignored.\<close>

definition transaction_destroyed :: "os \<Rightarrow> nat \<Rightarrow> storage \<Rightarrow> storage" where
  "transaction_destroyed os t s = (if inTransaction t s then snd (rollbackTransaction os t s) else s)"

section \<open>Part files\<close>

text \<open>Open for writing, write and close; \<open>False\<close> when one of them fails. Opening creates an empty file.\<close>

definition write_file :: "os \<Rightarrow> string \<Rightarrow> string \<Rightarrow> storage \<Rightarrow> bool \<times> storage" where
  "write_file os path d s =
     (if \<not> open_ok os then (False, s)
      else (case short_write os of
              Some n \<Rightarrow> if n < length d then (False, s\<lparr>files := (files s)(path \<mapsto> take n d)\<rparr>)
                        else (True, s\<lparr>files := (files s)(path \<mapsto> d)\<rparr>)
            | None \<Rightarrow> (True, s\<lparr>files := (files s)(path \<mapsto> d)\<rparr>)))"

definition createPartFile :: "os \<Rightarrow> string \<Rightarrow> nat \<Rightarrow> string \<Rightarrow> int \<Rightarrow> storage \<Rightarrow> (bool \<times> string) \<times> storage" where
  "createPartFile os base t d partId s =
     (let partFileName = updateFileNameRevision (number partId);
          (path, ex) = resolveAbsolutePath base partFileName True s
      in if ex then ((False, partFileName), s)
         else (let (ok, s) = write_file os path d s in
           if \<not> ok then ((False, partFileName), s)
           else ((True, partFileName), if inTransaction t s then addToTransaction t [Create path] s else s)))"

definition updatePartFile :: "os \<Rightarrow> string \<Rightarrow> nat \<Rightarrow> string \<Rightarrow> string \<Rightarrow> storage \<Rightarrow> (bool \<times> string) \<times> storage" where
  "updatePartFile os base t d partFile s =
     (let (currentPartPath, ex) = resolveAbsolutePath base partFile True s in
      if \<not> ex then ((False, []), s)
      else
        (let newPartFile = updateFileNameRevision partFile;
             (newPartPath, ex) = resolveAbsolutePath base newPartFile True s
         in if ex then ((False, newPartFile), s)
            else (let (ok, s) = write_file os newPartPath d s in
              if \<not> ok then ((False, newPartFile), s)
              else ((True, newPartFile),
                    if inTransaction t s then addToTransaction t [Create newPartPath, Delete currentPartPath] s
                    else remove_file os currentPartPath s))))"

definition removePartFile :: "os \<Rightarrow> nat \<Rightarrow> string \<Rightarrow> storage \<Rightarrow> storage" where
  "removePartFile os t partFile s =
     (if inTransaction t s then addToTransaction t [Delete partFile] s else remove_file os partFile s)"

datatype part_op = CreatePart os string int | UpdatePart os string string | RemovePart os string

definition part_do :: "string \<Rightarrow> nat \<Rightarrow> part_op \<Rightarrow> storage \<Rightarrow> storage" where
  "part_do base t l s = (case l of
     CreatePart os d i \<Rightarrow> snd (createPartFile os base t d i s)
   | UpdatePart os d f \<Rightarrow> snd (updatePartFile os base t d f s)
   | RemovePart os f \<Rightarrow> removePartFile os t f s)"

text \<open>No write of the operation stops half-way.\<close>

definition full_write :: "part_op \<Rightarrow> bool" where
  "full_write l = (case l of
     CreatePart os d _ \<Rightarrow> (case short_write os of None \<Rightarrow> True | Some n \<Rightarrow> length d \<le> n)
   | UpdatePart os d _ \<Rightarrow> (case short_write os of None \<Rightarrow> True | Some n \<Rightarrow> length d \<le> n)
   | RemovePart _ _ \<Rightarrow> True)"

section \<open>File names\<close>

lemma split_revision_digits:
  "list_all isdigit a \<Longrightarrow> split_revision (a @ ''_r'' @ b) = Some (a, b)"
  by (induction a) (auto simp: isdigit_def)

lemma split_revision_none: "list_all isdigit a \<Longrightarrow> split_revision a = None"
  by (induction a) (auto simp: isdigit_def)

definition revision_name :: "nat \<Rightarrow> nat \<Rightarrow> string" where
  "revision_name part_id k = nat_number part_id @ ''_r'' @ nat_number k"

lemma revision_name_relative: "take 1 (revision_name n k) \<noteq> ''/''"
proof -
  have "isdigit (hd (nat_number n))" using nat_number_digits [of n] by (simp add: list_all_iff)
  then have "hd (nat_number n) \<noteq> CHR ''/''" by (auto simp: isdigit_def)
  then show ?thesis by (cases "nat_number n") (auto simp: revision_name_def)
qed

lemma updateFileNameRevision_step:
  assumes "int k < int32_max"
  shows "updateFileNameRevision (revision_name n k) = revision_name n (Suc k)"
proof -
  have "wrap32 (int k + 1) = int (Suc k)" using assms by (simp add: int32_max_def)
  moreover have "toInt (nat_number k) = Some (int k)" using assms toInt_number [of k] by simp
  moreover have "nat (int (Suc k)) = Suc k" "\<not> int (Suc k) < 0" by linarith+
  ultimately show ?thesis
    by (simp only: updateFileNameRevision_def revision_name_def split_revision_digits [OF nat_number_digits] option.case
        prod.case or_zero_def number_def if_False)
qed

lemma digit_char_0: "digit_char 0 = CHR ''0''"
  by code_simp

lemma updateFileNameRevision_first: "updateFileNameRevision (number (int n)) = revision_name n 0"
proof -
  have "nat_number 0 = ''0''" by (simp add: nat_number.simps [of 0] digit_char_0)
  then show ?thesis using split_revision_none [OF nat_number_digits, of n]
    by (simp add: updateFileNameRevision_def revision_name_def number_def)
qed

lemma index_from_append:
  "c \<notin> set a \<Longrightarrow> index_from c (a @ c # b) i = i + int (length a)"
  by (induction a arbitrary: i) auto

lemma digit_not_underscore: "list_all isdigit a \<Longrightarrow> CHR ''_'' \<notin> set a"
  by (auto simp: list_all_iff isdigit_def)

lemma nat_number_last: "last (nat_number n) = digit_char (n mod 10)"
  by (subst nat_number.simps) simp

lemma nat_number_butlast: "10 \<le> n \<Longrightarrow> last (butlast (nat_number n)) = digit_char (n div 10 mod 10)"
  by (subst nat_number.simps) (simp add: nat_number_last)

lemma length_nat_number: "10 \<le> n \<Longrightarrow> 2 \<le> length (nat_number n)"
  by (subst nat_number.simps) (simp add: Suc_leI)

lemma level_dir_digits:
  "level_dir (revision_name n k) = [digit_char (n div 10 mod 10), digit_char (n mod 10)]"
proof -
  let ?a = "nat_number n"
  have pos: "indexOf (revision_name n k) CHR ''_'' 0 = int (length ?a)"
    using index_from_append [OF digit_not_underscore [OF nat_number_digits]]
    by (simp add: indexOf_def revision_name_def)
  have nth: "revision_name n k ! i = ?a ! i" if "i < length ?a" for i
    using that by (simp add: revision_name_def nth_append)
  have one: "?a ! (length ?a - 1) = digit_char (n mod 10)"
    using nat_number_last [of n] by (simp add: last_conv_nth)
  show ?thesis
  proof (cases "10 \<le> n")
    case True
    have len: "2 \<le> length ?a" by (rule length_nat_number [OF True])
    have "last (butlast ?a) = ?a ! (length ?a - 2)"
      using len by (subst last_conv_nth) (auto simp: nth_butlast length_butlast numeral_2_eq_2 simp flip: length_0_conv)
    then have two: "?a ! (length ?a - 2) = digit_char (n div 10 mod 10)" using nat_number_butlast [OF True] by simp
    have "nat (int (length ?a) - 2) = length ?a - 2" "nat (int (length ?a) - 1) = length ?a - 1" using len by linarith+
    then show ?thesis using len one two nth by (simp add: level_dir_def pos)
  next
    case False
    then have "?a = [digit_char n]" by (simp add: nat_number.simps [of n])
    then show ?thesis using False one nth by (simp add: level_dir_def pos digit_char_0)
  qed
qed

section \<open>Rollback and commit\<close>

abbreviation created :: "operation list \<Rightarrow> string set" where
  "created trx \<equiv> {f. Create f \<in> set trx}"

abbreviation deleted :: "operation list \<Rightarrow> string set" where
  "deleted trx \<equiv> {f. Delete f \<in> set trx}"

text \<open>Between the start of a transaction in \<open>s0\<close> and now, the thread has only added files that were not there.\<close>

definition only_added :: "nat \<Rightarrow> storage \<Rightarrow> storage \<Rightarrow> bool" where
  "only_added t s0 s \<longleftrightarrow> (\<exists>trx. mTransactions s t = Some trx \<and>
     (\<forall>f. f \<notin> created trx \<longrightarrow> files s f = files s0 f) \<and> (\<forall>f \<in> created trx. files s0 f = None))"

lemma resolve_not_exists:
  "resolveAbsolutePath base f True s = (path, False) \<Longrightarrow> files s path = None"
  by (auto simp: resolveAbsolutePath_def Let_def split: if_splits)

lemma write_file_full:
  assumes "write_file os path d s = (ok, s')" and "case short_write os of None \<Rightarrow> True | Some n \<Rightarrow> length d \<le> n"
  shows "ok \<and> s' = s\<lparr>files := (files s)(path \<mapsto> d)\<rparr> \<or> \<not> ok \<and> s' = s"
  using assms by (auto simp: write_file_def split: if_splits option.splits)

text \<open>The operations in a transaction: nothing happens, or a new file is written and logged, or only the log grows.\<close>

lemma part_do_cases:
  assumes "inTransaction t s" and "full_write l"
  obtains "part_do base t l s = s"
    | path d ops where "files s path = None" "created ops = {path}"
        "part_do base t l s = addToTransaction t ops (s\<lparr>files := (files s)(path \<mapsto> d)\<rparr>)"
    | ops where "created ops = {}" "part_do base t l s = addToTransaction t ops s"
proof (cases l)
  case (CreatePart os d i)
  let ?n = "updateFileNameRevision (number i)"
  obtain path ex where r: "resolveAbsolutePath base ?n True s = (path, ex)" by fastforce
  obtain ok u where w: "write_file os path d s = (ok, u)" by fastforce
  have do: "part_do base t l s = (if ex then s else if \<not> ok then u else if inTransaction t u then addToTransaction t [Create path] u else u)"
    using CreatePart r w by (simp add: part_do_def createPartFile_def Let_def)
  show ?thesis
  proof (cases "ex \<or> \<not> ok")
    case True
    then show ?thesis using that(1) do write_file_full [OF w] assms(2) CreatePart by (auto simp: full_write_def)
  next
    case False
    then have u: "u = s\<lparr>files := (files s)(path \<mapsto> d)\<rparr>"
      using write_file_full [OF w] assms(2) CreatePart by (auto simp: full_write_def)
    then show ?thesis using that(2) [of path "[Create path]" d] do False resolve_not_exists r assms(1)
      by (simp add: inTransaction_def)
  qed
next
  case (UpdatePart os d f)
  obtain cur ex where c: "resolveAbsolutePath base f True s = (cur, ex)" by fastforce
  let ?n = "updateFileNameRevision f"
  obtain path ex' where r: "resolveAbsolutePath base ?n True s = (path, ex')" by fastforce
  obtain ok u where w: "write_file os path d s = (ok, u)" by fastforce
  have do: "part_do base t l s = (if \<not> ex \<or> ex' then s else if \<not> ok then u
      else if inTransaction t u then addToTransaction t [Create path, Delete cur] u else remove_file os cur u)"
    using UpdatePart c r w by (simp add: part_do_def updatePartFile_def Let_def)
  show ?thesis
  proof (cases "\<not> ex \<or> ex' \<or> \<not> ok")
    case True
    then show ?thesis using that(1) do write_file_full [OF w] assms(2) UpdatePart by (auto simp: full_write_def)
  next
    case False
    then have u: "u = s\<lparr>files := (files s)(path \<mapsto> d)\<rparr>"
      using write_file_full [OF w] assms(2) UpdatePart by (auto simp: full_write_def)
    then show ?thesis using that(2) [of path "[Create path, Delete cur]" d] do False resolve_not_exists r assms(1)
      by (simp add: inTransaction_def)
  qed
next
  case (RemovePart os f)
  then show ?thesis using that(3) [of "[Delete f]"] assms(1) by (simp add: part_do_def removePartFile_def)
qed

lemma created_append: "created (a @ b) = created a \<union> created b"
  by auto

lemma part_do_only_added:
  assumes "only_added t s0 s" and "full_write l"
  shows "only_added t s0 (part_do base t l s)"
proof -
  obtain trx where trx: "mTransactions s t = Some trx" "\<And>f. f \<notin> created trx \<Longrightarrow> files s f = files s0 f"
      "\<And>f. f \<in> created trx \<Longrightarrow> files s0 f = None"
    using assms(1) by (auto simp: only_added_def)
  have "inTransaction t s" using trx(1) by (simp add: inTransaction_def)
  from part_do_cases [OF this assms(2), of base] show ?thesis
  proof cases
    case 1
    then show ?thesis using assms(1) by simp
  next
    case (2 path d ops)
    have "files s0 path = None" using 2(1) trx by metis
    moreover have "Create f \<in> set ops \<longleftrightarrow> f = path" for f using 2(2) by blast
    ultimately show ?thesis using 2(3) trx by (auto simp: only_added_def addToTransaction_def)
  next
    case (3 ops)
    then show ?thesis using trx by (auto simp: only_added_def addToTransaction_def)
  qed
qed

lemma fold_only_added:
  "only_added t s0 s \<Longrightarrow> list_all full_write ls \<Longrightarrow> only_added t s0 (fold (part_do base t) ls s)"
  by (induction ls arbitrary: s) (auto simp: part_do_only_added)

lemma replay_files:
  "files (replay os c ops s) f =
     (if removable os f \<and> f \<in> (if c then deleted ops else created ops) then None else files s f)"
  by (induction os c ops s rule: replay.induct) (auto simp: remove_file_def)

lemma end_transaction_files:
  assumes "mTransactions s t = Some trx"
  shows "fst (end_transaction os t c s) \<and> files (snd (end_transaction os t c s)) f =
     (if removable os f \<and> f \<in> (if c then deleted trx else created trx) then None else files s f)"
  using assms by (simp add: end_transaction_def replay_files)

lemma replay_transactions: "mTransactions (replay os c ops s) = mTransactions s"
  by (induction os c ops s rule: replay.induct) (auto simp: remove_file_def)

section \<open>Properties\<close>

text \<open>(C36) A rollback restores the files: whatever parts a thread creates, updates and removes in a transaction, when every write either is complete or
  fails because the file cannot be opened, and when every file can be removed, the rollback succeeds, leaves exactly the
  files there were when the transaction began, with their contents, and ends the transaction. (A write that stops half-way leaves a partial file
  that the rollback does not know of, see \<open>short_write_blocks_part\<close>.)\<close>

theorem rollback_restores_files:
  assumes "beginTransaction t s0 = (True, s)" and "list_all full_write ls"
    and "u = fold (part_do base t) ls s" and "\<forall>f. removable os f"
  shows "fst (rollbackTransaction os t u) \<and> files (snd (rollbackTransaction os t u)) = files s0 \<and>
    \<not> inTransaction t (snd (rollbackTransaction os t u))"
proof -
  have "only_added t s0 s"
    using assms(1) by (auto simp: beginTransaction_def only_added_def split: if_splits)
  then have "only_added t s0 u" using fold_only_added assms(2, 3) by blast
  then obtain trx where trx: "mTransactions u t = Some trx" "\<And>f. f \<notin> created trx \<Longrightarrow> files u f = files s0 f"
      "\<And>f. f \<in> created trx \<Longrightarrow> files s0 f = None" by (auto simp: only_added_def)
  have "files (snd (rollbackTransaction os t u)) f = files s0 f" for f
    using end_transaction_files [OF trx(1), of os False f] trx(2, 3) [of f] assms(4)
    by (auto simp: rollbackTransaction_def)
  then show ?thesis using trx(1)
    by (auto simp: rollbackTransaction_def end_transaction_def inTransaction_def replay_transactions)
qed

definition good_os :: os where
  "good_os = \<lparr>open_ok = True, short_write = None, removable = (\<lambda>_. True)\<rparr>"

definition sample_storage :: storage where
  "sample_storage = \<lparr>files = [''/db/42/42_r0'' \<mapsto> ''old''], mTransactions = Map.empty\<rparr>"

theorem rollback_restores_files_witness:
  "files (snd (rollbackTransaction good_os 1 (part_do ''/db'' 1 (UpdatePart good_os ''new'' ''42_r0'')
     (snd (beginTransaction 1 sample_storage))))) = [''/db/42/42_r0'' \<mapsto> ''old'']"
proof -
  have "beginTransaction 1 sample_storage = (True, snd (beginTransaction 1 sample_storage))"
    by (simp add: beginTransaction_def sample_storage_def)
  from rollback_restores_files [OF this, of "[UpdatePart good_os ''new'' ''42_r0'']" _ "''/db''" good_os] show ?thesis
    by (simp add: full_write_def good_os_def sample_storage_def)
qed

text \<open>An update in a transaction becomes visible at the commit as a whole: until then the old revision is kept beside
  the new one, and after the commit the new revision holds the new data, the old one is gone and every other file
  is as before.\<close>

theorem update_commit_replaces:
  assumes "mTransactions s t = Some []"
    and "resolveAbsolutePath base (revision_name n k) True s = (old, True)"
    and "resolveAbsolutePath base (revision_name n (Suc k)) True s = (new, False)"
    and "int k < int32_max" and "open_ok os" and "short_write os = None" and "\<forall>f. removable os f"
  shows "let (r, u) = updatePartFile os base t d (revision_name n k) s; (ok, v) = commitTransaction os t u in
     r = (True, revision_name n (Suc k)) \<and> files u old = files s old \<and> files u new = Some d \<and> ok \<and>
     files v = (files s)(old := None, new \<mapsto> d)"
proof -
  have ne: "files s new = None" "files s old \<noteq> None"
    using assms(2, 3) by (auto simp: resolveAbsolutePath_def Let_def split: if_splits)
  let ?u = "addToTransaction t [Create new, Delete old] (s\<lparr>files := (files s)(new \<mapsto> d)\<rparr>)"
  have u: "updatePartFile os base t d (revision_name n k) s = ((True, revision_name n (Suc k)), ?u)"
    using assms by (simp add: updatePartFile_def updateFileNameRevision_step write_file_def inTransaction_def)
  have trx: "mTransactions ?u t = Some [Create new, Delete old]" using assms(1) by (simp add: addToTransaction_def)
  have "files (snd (commitTransaction os t ?u)) f = ((files s)(old := None, new \<mapsto> d)) f" for f
    using end_transaction_files [OF trx, of os True f] assms(7) ne
    by (auto simp: commitTransaction_def addToTransaction_def)
  moreover have "fst (commitTransaction os t ?u)"
    using end_transaction_files [OF trx, of os True] by (simp add: commitTransaction_def)
  ultimately show ?thesis using u ne by (auto simp: addToTransaction_def split_beta)
qed

theorem update_commit_replaces_witness:
  "let (r, u) = updatePartFile good_os ''/db'' 1 ''new'' ''42_r0'' (snd (beginTransaction 1 sample_storage));
       (ok, v) = commitTransaction good_os 1 u
   in r = (True, ''42_r1'') \<and> files v ''/db/42/42_r0'' = None \<and> files v ''/db/42/42_r1'' = Some ''new''"
proof -
  let ?s = "snd (beginTransaction 1 sample_storage)"
  have names: "revision_name 42 0 = ''42_r0''" "revision_name 42 (Suc 0) = ''42_r1''" by code_simp+
  have "level_dir ''42_r0'' = ''42''" "level_dir ''42_r1'' = ''42''" by code_simp+
  then have r: "resolveAbsolutePath ''/db'' (revision_name 42 0) True ?s = (''/db/42/42_r0'', True)"
    "resolveAbsolutePath ''/db'' (revision_name 42 (Suc 0)) True ?s = (''/db/42/42_r1'', False)"
    by (simp_all add: names resolveAbsolutePath_def levelled_path_def beginTransaction_def sample_storage_def)
  have "mTransactions ?s 1 = Some []" by (simp add: beginTransaction_def sample_storage_def)
  from update_commit_replaces [OF this r, of good_os "''new''"] show ?thesis
    by (simp add: names good_os_def int32_max_def split_beta Let_def)
qed

text \<open>File names and revisions: the file of part \<open>n\<close> starts at revision 0, the \<open>k\<close>-th update names it
  \<open>n_rk\<close> (while revisions fit 32 bits), and all revisions of a part are filed under the last two digits of the part
  id, so that part ids spread evenly over a hundred directories.\<close>

theorem part_file_names:
  "updateFileNameRevision (number (int n)) = revision_name n 0 \<and> nameForPartId (int n) = revision_name n 0 \<and>
   (int k \<le> int32_max \<longrightarrow> (updateFileNameRevision ^^ k) (revision_name n 0) = revision_name n k) \<and>
   levelled_path base (revision_name n k) =
     base @ ''/'' @ [digit_char (n div 10 mod 10), digit_char (n mod 10)] @ ''/'' @ revision_name n k"
proof -
  have "(updateFileNameRevision ^^ k) (revision_name n 0) = revision_name n k" if "int k \<le> int32_max"
    using that by (induction k) (auto simp: updateFileNameRevision_step)
  moreover have "nameForPartId (int n) = revision_name n 0"
    by (simp add: nameForPartId_def revision_name_def number_def nat_number.simps [of 0] digit_char_0)
  ultimately show ?thesis
    using updateFileNameRevision_first [of n] by (simp add: levelled_path_def level_dir_digits)
qed

theorem part_file_names_witness: "(updateFileNameRevision ^^ 3) ''7_r0'' = ''7_r3''"
proof -
  have "revision_name 7 0 = ''7_r0''" "revision_name 7 3 = ''7_r3''" by code_simp+
  then show ?thesis using part_file_names [of 7 3] by (simp add: int32_max_def)
qed

text \<open>A transaction object inside another one of the same thread undoes the outer one: its constructor ignores that no
  transaction could be begun, and its destructor rolls back the transaction that is in progress, so that the outer
  commit fails and the parts created before are gone.\<close>

theorem nested_transaction_rolls_back_outer:
  assumes "mTransactions s t = Some trx" and "Create f \<in> set trx" and "removable os f"
  shows "let (ok, u) = beginTransaction t s; v = transaction_destroyed os t u in
     \<not> ok \<and> \<not> inTransaction t v \<and> files v f = None \<and> \<not> fst (commitTransaction os t v)"
proof -
  have "transaction_destroyed os t s = snd (end_transaction os t False s)"
    using assms(1) by (simp add: transaction_destroyed_def inTransaction_def rollbackTransaction_def)
  moreover have "mTransactions (snd (end_transaction os t False s)) t = None"
    using assms(1) by (simp add: end_transaction_def replay_transactions)
  ultimately show ?thesis using assms end_transaction_files [OF assms(1), of os False f]
    by (simp add: beginTransaction_def inTransaction_def commitTransaction_def end_transaction_def)
qed

theorem nested_transaction_rolls_back_outer_witness:
  "\<not> fst (commitTransaction good_os 1 (transaction_destroyed good_os 1
     (sample_storage\<lparr>mTransactions := [1 \<mapsto> [Create ''/db/42/42_r0'']]\<rparr>)))"
  using nested_transaction_rolls_back_outer
    [of "sample_storage\<lparr>mTransactions := [1 \<mapsto> [Create ''/db/42/42_r0'']]\<rparr>" 1 "[Create ''/db/42/42_r0'']"
      "''/db/42/42_r0''" good_os]
  by (simp add: good_os_def beginTransaction_def Let_def)

text \<open>A write that stops half-way leaves a file that nothing removes: it is not logged, so the rollback keeps it, and
  creating the same part again fails because the file exists.\<close>

theorem short_write_blocks_part:
  assumes "resolveAbsolutePath base (revision_name n 0) True s = (path, False)"
    and "open_ok os" and "short_write os = Some m" and "m < length d" and "mTransactions s t = Some []"
  shows "let ((ok, _), u) = createPartFile os base t d (int n) s; v = snd (rollbackTransaction os' t u) in
     \<not> ok \<and> files v path = Some (take m d) \<and> \<not> fst (fst (createPartFile os'' base t d' (int n) v))"
proof -
  let ?u = "s\<lparr>files := (files s)(path \<mapsto> take m d)\<rparr>"
  have path: "path = levelled_path base (revision_name n 0)" "take 1 (revision_name n 0) \<noteq> ''/''"
    using assms(1) revision_name_relative [of n 0] by (auto simp: resolveAbsolutePath_def Let_def split: if_splits)
  have u: "createPartFile os base t d (int n) s = ((False, revision_name n 0), ?u)"
    using assms by (simp add: createPartFile_def updateFileNameRevision_first write_file_def)
  have v: "files (snd (rollbackTransaction os' t ?u)) = (files s)(path \<mapsto> take m d)"
    using assms(5) by (simp add: rollbackTransaction_def end_transaction_def)
  have "snd (resolveAbsolutePath base (revision_name n 0) True (snd (rollbackTransaction os' t ?u)))"
    using path v by (simp add: resolveAbsolutePath_def Let_def)
  then have "\<not> fst (fst (createPartFile os'' base t d' (int n) (snd (rollbackTransaction os' t ?u))))"
    by (simp add: createPartFile_def updateFileNameRevision_first split_beta Let_def)
  then show ?thesis using u v by simp
qed

theorem short_write_blocks_part_witness:
  "\<not> fst (fst (createPartFile good_os ''/db'' 1 ''data'' 7 (snd (rollbackTransaction good_os 1
      (snd (createPartFile (good_os\<lparr>short_write := Some 2\<rparr>) ''/db'' 1 ''data'' 7
        (sample_storage\<lparr>mTransactions := [1 \<mapsto> []]\<rparr>)))))))"
proof -
  let ?s = "sample_storage\<lparr>mTransactions := [1 \<mapsto> []]\<rparr>"
  have "resolveAbsolutePath ''/db'' (revision_name 7 0) True ?s = (levelled_path ''/db'' (revision_name 7 0), False)"
    by code_simp
  from short_write_blocks_part [OF this, of "good_os\<lparr>short_write := Some 2\<rparr>" 2 "''data''" 1 good_os good_os "''data''"]
  show ?thesis by (simp add: good_os_def split_beta Let_def)
qed

end
