(* ===== verification/AggregatedFetchScope.thy ===== *)
theory AggregatedFetchScope
  imports Prelude
begin

text \<open>
  \<open>src/server/aggregatedfetchscope.cpp\<close>: the fetch scopes of all notification subscribers, aggregated in counters,
  with the way \<open>src/server/notificationsubscriber.cpp\<close> drives them: a subscriber registers with the default scope,
  applies changes of its scope, and goes back to the default before it leaves.
\<close>

section \<open>Counters\<close>

text \<open>A \<open>QSet\<close> with the number of subscribers for each of its values.\<close>

record counted =
  cvalues :: "string set"
  count_of :: "string \<rightharpoonup> int"

definition addToSet :: "string \<Rightarrow> counted \<Rightarrow> counted" where
  "addToSet v c =
     (let c = (if count_of c v = None then c\<lparr>count_of := (count_of c)(v \<mapsto> 0), cvalues := insert v (cvalues c)\<rparr> else c)
      in c\<lparr>count_of := (count_of c)(v \<mapsto> the (count_of c v) + 1)\<rparr>)"

definition removeFromSet :: "string \<Rightarrow> counted \<Rightarrow> counted" where
  "removeFromSet v c =
     (case count_of c v of
        None \<Rightarrow> c
      | Some n \<Rightarrow>
          (if n - 1 = 0 then c\<lparr>count_of := (count_of c)(v := None), cvalues := cvalues c - {v}\<rparr>
           else c\<lparr>count_of := (count_of c)(v \<mapsto> n - 1)\<rparr>))"

text \<open>\<open>applySet\<close>; a \<open>QSet\<close> is given as a list of its values.\<close>

definition applySet :: "string list \<Rightarrow> string list \<Rightarrow> counted \<Rightarrow> counted" where
  "applySet oldSet newSet c =
     fold removeFromSet (filter (\<lambda>v. v \<notin> set newSet) (remdups oldSet))
       (fold addToSet (filter (\<lambda>v. v \<notin> set oldSet) (remdups newSet)) c)"

definition updateBool :: "bool \<Rightarrow> int \<Rightarrow> int" where
  "updateBool newValue store = store + (if newValue then 1 else -1)"

definition no_values :: counted where
  "no_values = \<lparr>cvalues = {}, count_of = Map.empty\<rparr>"

section \<open>Collections\<close>

record collection_scope =
  includeStatistics :: bool
  c_fetchIdOnly :: bool
  c_attributes :: "string list"

definition default_collection_scope :: collection_scope where
  "default_collection_scope = \<lparr>includeStatistics = False, c_fetchIdOnly = False, c_attributes = []\<rparr>"

record collection_agg =
  c_attrs :: counted
  c_subscribers :: int
  c_idOnly :: int
  c_stats :: int

definition collection_new :: collection_agg where
  "collection_new = \<lparr>c_attrs = no_values, c_subscribers = 0, c_idOnly = 0, c_stats = 0\<rparr>"

definition collection_apply :: "collection_scope \<Rightarrow> collection_scope \<Rightarrow> collection_agg \<Rightarrow> collection_agg" where
  "collection_apply old new d =
     (let d = (if includeStatistics new \<noteq> includeStatistics old then d\<lparr>c_stats := updateBool (includeStatistics new) (c_stats d)\<rparr> else d);
          d = (if c_fetchIdOnly new \<noteq> c_fetchIdOnly old then d\<lparr>c_idOnly := updateBool (c_fetchIdOnly new) (c_idOnly d)\<rparr> else d)
      in if set (c_attributes new) \<noteq> set (c_attributes old)
         then d\<lparr>c_attrs := applySet (c_attributes old) (c_attributes new) (c_attrs d)\<rparr> else d)"

definition collection_attributes :: "collection_agg \<Rightarrow> string set" where
  "collection_attributes d = cvalues (c_attrs d)"

definition collection_fetchIdOnly :: "collection_agg \<Rightarrow> bool" where
  "collection_fetchIdOnly d \<longleftrightarrow> c_idOnly d = c_subscribers d"

definition collection_fetchStatistics :: "collection_agg \<Rightarrow> bool" where
  "collection_fetchStatistics d \<longleftrightarrow> 0 < c_stats d"

definition collection_addSubscriber :: "collection_agg \<Rightarrow> collection_agg" where
  "collection_addSubscriber d = d\<lparr>c_subscribers := c_subscribers d + 1\<rparr>"

definition collection_removeSubscriber :: "collection_agg \<Rightarrow> collection_agg" where
  "collection_removeSubscriber d = d\<lparr>c_subscribers := c_subscribers d - 1\<rparr>"

section \<open>Tags\<close>

record tag_scope =
  t_fetchIdOnly :: bool
  t_fetchRemoteID :: bool
  t_fetchAllAttributes :: bool
  t_attributes :: "string list"

definition default_tag_scope :: tag_scope where
  "default_tag_scope = \<lparr>t_fetchIdOnly = False, t_fetchRemoteID = False, t_fetchAllAttributes = True, t_attributes = []\<rparr>"

record tag_agg =
  t_attrs :: counted
  t_subscribers :: int
  t_idOnly :: int
  t_remoteId :: int
  t_doNotFetchAll :: int

definition tag_new :: tag_agg where
  "tag_new = \<lparr>t_attrs = no_values, t_subscribers = 0, t_idOnly = 0, t_remoteId = 0, t_doNotFetchAll = 0\<rparr>"

definition tag_apply :: "tag_scope \<Rightarrow> tag_scope \<Rightarrow> tag_agg \<Rightarrow> tag_agg" where
  "tag_apply old new d =
     (let d = (if t_fetchIdOnly new \<noteq> t_fetchIdOnly old then d\<lparr>t_idOnly := updateBool (t_fetchIdOnly new) (t_idOnly d)\<rparr> else d);
          d = (if t_fetchRemoteID new \<noteq> t_fetchRemoteID old then d\<lparr>t_remoteId := updateBool (t_fetchRemoteID new) (t_remoteId d)\<rparr> else d);
          d = (if t_fetchAllAttributes new \<noteq> t_fetchAllAttributes old
               then d\<lparr>t_doNotFetchAll := updateBool (\<not> t_fetchAllAttributes new) (t_doNotFetchAll d)\<rparr> else d)
      in if set (t_attributes new) \<noteq> set (t_attributes old)
         then d\<lparr>t_attrs := applySet (t_attributes old) (t_attributes new) (t_attrs d)\<rparr> else d)"

definition tag_fetchIdOnly :: "tag_agg \<Rightarrow> bool" where
  "tag_fetchIdOnly d \<longleftrightarrow> t_idOnly d = t_subscribers d"

definition tag_fetchRemoteId :: "tag_agg \<Rightarrow> bool" where
  "tag_fetchRemoteId d \<longleftrightarrow> 0 < t_remoteId d"

definition tag_fetchAllAttributes :: "tag_agg \<Rightarrow> bool" where
  "tag_fetchAllAttributes d \<longleftrightarrow> t_doNotFetchAll d \<noteq> t_subscribers d"

definition tag_attributes :: "tag_agg \<Rightarrow> string set" where
  "tag_attributes d = cvalues (t_attrs d)"

text \<open>\<open>toFetchScope\<close> for tags; \<open>as\<close> is the list that the set of attributes is turned into.\<close>

definition tag_toFetchScope :: "string list \<Rightarrow> tag_agg \<Rightarrow> tag_scope" where
  "tag_toFetchScope as d = \<lparr>t_fetchIdOnly = tag_fetchIdOnly d, t_fetchRemoteID = tag_fetchRemoteId d,
     t_fetchAllAttributes = tag_fetchAllAttributes d, t_attributes = as\<rparr>"

definition tag_addSubscriber :: "tag_agg \<Rightarrow> tag_agg" where
  "tag_addSubscriber d = d\<lparr>t_subscribers := t_subscribers d + 1\<rparr>"

definition tag_removeSubscriber :: "tag_agg \<Rightarrow> tag_agg" where
  "tag_removeSubscriber d = d\<lparr>t_subscribers := t_subscribers d - 1\<rparr>"

section \<open>Items\<close>

datatype fetch_flag = CacheOnly | CheckCachedPayloadPartsOnly | FullPayload | AllAttributes | Size | MTime
  | RemoteRevision | IgnoreErrors | Flags | RemoteID | GID | Tags | VirtReferences

datatype AncestorDepth = NoAncestor | ParentAncestor | AllAncestors

record item_scope =
  mRequestedParts :: "string list"
  mAncestorDepth :: AncestorDepth
  mFlags :: "fetch_flag set"

definition default_item_scope :: item_scope where
  "default_item_scope = \<lparr>mRequestedParts = [], mAncestorDepth = NoAncestor, mFlags = {}\<rparr>"

definition setFetch :: "fetch_flag \<Rightarrow> bool \<Rightarrow> item_scope \<Rightarrow> item_scope" where
  "setFetch f b x =
     (if b then
        (let x = x\<lparr>mFlags := insert f (mFlags x)\<rparr> in
         if f = FullPayload \<and> ''PLD:RFC822'' \<notin> set (mRequestedParts x)
         then x\<lparr>mRequestedParts := mRequestedParts x @ [''PLD:RFC822'']\<rparr> else x)
      else x\<lparr>mFlags := mFlags x - {f}\<rparr>)"

text \<open>The counters of the flags, in the order of \<open>apply\<close>; \<open>mCachedScope\<close> with its validity.\<close>

definition counted_flags :: "fetch_flag list" where
  "counted_flags = [CacheOnly, FullPayload, AllAttributes, Size, MTime, RemoteRevision, IgnoreErrors, Flags, RemoteID,
     GID, Tags, VirtReferences]"

record item_agg =
  i_parts :: counted
  i_subscribers :: int
  i_ancestors :: "AncestorDepth \<Rightarrow> int"
  i_flags :: "fetch_flag \<Rightarrow> int"
  mCachedScope :: "item_scope option"

definition item_new :: item_agg where
  "item_new = \<lparr>i_parts = no_values, i_subscribers = 0, i_ancestors = (\<lambda>_. 0), i_flags = (\<lambda>_. 0), mCachedScope = None\<rparr>"

definition updateAncestorDepth :: "AncestorDepth \<Rightarrow> AncestorDepth \<Rightarrow> item_agg \<Rightarrow> item_agg" where
  "updateAncestorDepth old new d =
     (let a = i_ancestors d;
          a = (if 0 < a old then a(old := a old - 1) else a)
      in d\<lparr>i_ancestors := a(new := a new + 1)\<rparr>)"

definition apply_flag :: "item_scope \<Rightarrow> item_scope \<Rightarrow> fetch_flag \<Rightarrow> item_agg \<Rightarrow> item_agg" where
  "apply_flag old new f d =
     (if (f \<in> mFlags new) \<noteq> (f \<in> mFlags old)
      then d\<lparr>i_flags := (i_flags d)(f := updateBool (f \<in> mFlags new) (i_flags d f))\<rparr> else d)"

definition item_apply :: "item_scope \<Rightarrow> item_scope \<Rightarrow> item_agg \<Rightarrow> item_agg" where
  "item_apply old new d =
     (let d = (if set (mRequestedParts new) \<noteq> set (mRequestedParts old)
               then d\<lparr>i_parts := applySet (mRequestedParts old) (mRequestedParts new) (i_parts d)\<rparr> else d);
          d = (if mAncestorDepth new \<noteq> mAncestorDepth old then updateAncestorDepth (mAncestorDepth old) (mAncestorDepth new) d else d);
          d = fold (apply_flag old new) counted_flags d
      in d\<lparr>mCachedScope := None\<rparr>)"

definition ancestorDepth :: "item_agg \<Rightarrow> AncestorDepth" where
  "ancestorDepth d =
     (if 0 < i_ancestors d AllAncestors then AllAncestors
      else if 0 < i_ancestors d ParentAncestor then ParentAncestor else NoAncestor)"

text \<open>The getters of the flags: \<open>cacheOnly\<close> and \<open>ignoreErrors\<close> need all subscribers, the others one.\<close>

definition item_flag :: "fetch_flag \<Rightarrow> item_agg \<Rightarrow> bool" where
  "item_flag f d \<longleftrightarrow> (if f = CacheOnly \<or> f = IgnoreErrors then i_flags d f = i_subscribers d else 0 < i_flags d f)"

text \<open>\<open>toFetchScope\<close>; \<open>ps\<close> is the list that the set of parts is turned into.\<close>

definition toFetchScope :: "string list \<Rightarrow> item_agg \<Rightarrow> item_scope \<times> item_agg" where
  "toFetchScope ps d =
     (case mCachedScope d of
        Some x \<Rightarrow> (x, d)
      | None \<Rightarrow>
          (let x = default_item_scope\<lparr>mRequestedParts := ps, mAncestorDepth := ancestorDepth d\<rparr>;
               x = fold (\<lambda>f x. setFetch f (item_flag f d) x) counted_flags x
           in (x, d\<lparr>mCachedScope := Some x\<rparr>)))"

definition item_addSubscriber :: "item_agg \<Rightarrow> item_agg" where
  "item_addSubscriber d = d\<lparr>i_subscribers := i_subscribers d + 1\<rparr>"

definition item_removeSubscriber :: "item_agg \<Rightarrow> item_agg" where
  "item_removeSubscriber d = d\<lparr>i_subscribers := i_subscribers d - 1\<rparr>"

section \<open>Subscribers\<close>

text \<open>What the subscribers do, and the list of their scopes as the specification.\<close>

datatype 'a subscriber_op = Subscribe | Modify nat 'a | Disconnect nat

fun subscribers_do :: "'a \<Rightarrow> 'a subscriber_op \<Rightarrow> 'a list \<Rightarrow> 'a list" where
  "subscribers_do def Subscribe xs = xs @ [def]"
| "subscribers_do def (Modify i new) xs = xs[i := new]"
| "subscribers_do def (Disconnect i) xs = take i xs @ drop (Suc i) xs"

fun subscriber_do :: "('s \<Rightarrow> 's) \<Rightarrow> ('s \<Rightarrow> 's) \<Rightarrow> ('a \<Rightarrow> 'a \<Rightarrow> 's \<Rightarrow> 's) \<Rightarrow> 'a \<Rightarrow> 'a list \<Rightarrow> 'a subscriber_op \<Rightarrow> 's \<Rightarrow> 's" where
  "subscriber_do add remove app def xs Subscribe s = add s"
| "subscriber_do add remove app def xs (Modify i new) s = (if i < length xs then app (xs ! i) new s else s)"
| "subscriber_do add remove app def xs (Disconnect i) s = (if i < length xs then remove (app (xs ! i) def s) else s)"

fun subscribers_run :: "('s \<Rightarrow> 's) \<Rightarrow> ('s \<Rightarrow> 's) \<Rightarrow> ('a \<Rightarrow> 'a \<Rightarrow> 's \<Rightarrow> 's) \<Rightarrow> 'a \<Rightarrow> 'a subscriber_op list \<Rightarrow> 's \<times> 'a list \<Rightarrow> 's \<times> 'a list" where
  "subscribers_run add remove app def [] (s, xs) = (s, xs)"
| "subscribers_run add remove app def (l # ls) (s, xs) =
     subscribers_run add remove app def ls (subscriber_do add remove app def xs l s, subscribers_do def l xs)"

text \<open>The interface of an aggregated scope: a relation to the scopes of the subscribers that every operation keeps.\<close>

locale aggregated =
  fixes add remove :: "'s \<Rightarrow> 's" and app :: "'a \<Rightarrow> 'a \<Rightarrow> 's \<Rightarrow> 's" and def :: 'a and new :: 's
    and rel :: "'s \<Rightarrow> 'a list \<Rightarrow> bool"
  assumes rel_new: "rel new []"
    and rel_add: "rel s xs \<Longrightarrow> rel (add s) (xs @ [def])"
    and rel_app: "rel s xs \<Longrightarrow> i < length xs \<Longrightarrow> rel (app (xs ! i) x s) (xs[i := x])"
    and rel_remove: "rel s xs \<Longrightarrow> i < length xs \<Longrightarrow> xs ! i = def \<Longrightarrow> rel (remove s) (take i xs @ drop (Suc i) xs)"
begin

lemma rel_do: "rel s xs \<Longrightarrow> rel (subscriber_do add remove app def xs l s) (subscribers_do def l xs)"
proof (cases l)
  case (Disconnect i)
  assume rel: "rel s xs"
  show ?thesis
  proof (cases "i < length xs")
    case True
    have "rel (remove (app (xs ! i) def s)) (take i (xs[i := def]) @ drop (Suc i) (xs[i := def]))"
      using rel_app [OF rel True, of def] True by (intro rel_remove) simp_all
    then show ?thesis using Disconnect True by simp
  qed (use Disconnect rel in simp)
qed (auto simp: rel_add rel_app list_update_beyond)

lemma rel_run: "subscribers_run add remove app def ls (new, []) = (s, xs) \<Longrightarrow> rel s xs"
proof -
  have "subscribers_run add remove app def ls (s0, xs0) = (s, xs) \<Longrightarrow> rel s0 xs0 \<Longrightarrow> rel s xs" for s0 xs0
    by (induction ls arbitrary: s0 xs0) (auto dest: rel_do)
  then show "subscribers_run add remove app def ls (new, []) = (s, xs) \<Longrightarrow> rel s xs" using rel_new by simp
qed

end

section \<open>Counting subscribers\<close>

definition tally :: "('a \<Rightarrow> bool) \<Rightarrow> 'a list \<Rightarrow> int" where
  "tally P xs = int (length (filter P xs))"

lemma tally_Nil [simp]: "tally P [] = 0"
  by (simp add: tally_def)

lemma tally_snoc [simp]: "tally P (xs @ [x]) = tally P xs + of_bool (P x)"
  by (simp add: tally_def)

lemma tally_Cons: "tally P (x # xs) = of_bool (P x) + tally P xs"
  by (simp add: tally_def)

lemma tally_update:
  "i < length xs \<Longrightarrow> tally P (xs[i := y]) = tally P xs - of_bool (P (xs ! i)) + of_bool (P y)"
proof (induction xs arbitrary: i)
  case (Cons x xs)
  then show ?case by (cases i) (simp_all add: tally_Cons)
qed simp

lemma tally_remove:
  "i < length xs \<Longrightarrow> tally P (take i xs @ drop (Suc i) xs) = tally P xs - of_bool (P (xs ! i))"
proof (induction xs arbitrary: i)
  case (Cons x xs)
  then show ?case by (cases i) (simp_all add: tally_Cons)
qed simp

lemma tally_nonneg: "0 \<le> tally P xs"
  by (simp add: tally_def)

lemma tally_pos: "0 < tally P xs \<longleftrightarrow> (\<exists>x \<in> set xs. P x)"
  by (auto simp: tally_def filter_empty_conv)

lemma tally_all: "tally P xs = int (length xs) \<longleftrightarrow> (\<forall>x \<in> set xs. P x)"
proof -
  have "length (filter P xs) = length xs \<longleftrightarrow> filter P xs = xs"
    by (metis filter_id_conv length_filter_less nat_neq_iff)
  then show ?thesis by (simp add: tally_def filter_id_conv)
qed

lemma tally_nth_pos: "i < length xs \<Longrightarrow> P (xs ! i) \<Longrightarrow> 0 < tally P xs"
  using tally_pos by fastforce

definition counted_ok :: "counted \<Rightarrow> (string \<Rightarrow> int) \<Rightarrow> bool" where
  "counted_ok c n \<longleftrightarrow> (\<forall>v. 0 \<le> n v \<and> count_of c v = (if n v = 0 then None else Some (n v))) \<and> cvalues c = {v. n v \<noteq> 0}"

lemma addToSet_ok: "counted_ok c n \<Longrightarrow> counted_ok (addToSet v c) (n(v := n v + 1))"
proof -
  assume ok: "counted_ok c n"
  then have "0 \<le> n v" by (simp add: counted_ok_def)
  then have "n v + 1 \<noteq> 0" by linarith
  then show ?thesis using ok by (auto simp: counted_ok_def addToSet_def Let_def)
qed

lemma removeFromSet_ok: "counted_ok c n \<Longrightarrow> 0 < n v \<Longrightarrow> counted_ok (removeFromSet v c) (n(v := n v - 1))"
  by (auto simp: counted_ok_def removeFromSet_def)

lemma fold_add_ok:
  "distinct vs \<Longrightarrow> counted_ok c n \<Longrightarrow> counted_ok (fold addToSet vs c) (\<lambda>v. n v + of_bool (v \<in> set vs))"
proof (induction vs arbitrary: c n)
  case (Cons v vs)
  from Cons.IH [OF _ addToSet_ok [OF Cons.prems(2), of v]] Cons.prems(1)
  have "counted_ok (fold addToSet vs (addToSet v c)) (\<lambda>w. (n(v := n v + 1)) w + of_bool (w \<in> set vs))" by simp
  moreover have "(\<lambda>w. (n(v := n v + 1)) w + of_bool (w \<in> set vs)) = (\<lambda>w. n w + of_bool (w \<in> set (v # vs)))"
    using Cons.prems(1) by (auto simp: fun_eq_iff)
  ultimately show ?case by simp
qed simp

lemma fold_remove_ok:
  "distinct vs \<Longrightarrow> counted_ok c n \<Longrightarrow> \<forall>v \<in> set vs. 0 < n v \<Longrightarrow>
   counted_ok (fold removeFromSet vs c) (\<lambda>v. n v - of_bool (v \<in> set vs))"
proof (induction vs arbitrary: c n)
  case (Cons v vs)
  have "\<forall>w \<in> set vs. 0 < (n(v := n v - 1)) w" using Cons.prems by auto
  from Cons.IH [OF _ removeFromSet_ok [OF Cons.prems(2), of v] this] Cons.prems
  have "counted_ok (fold removeFromSet vs (removeFromSet v c)) (\<lambda>w. (n(v := n v - 1)) w - of_bool (w \<in> set vs))" by simp
  moreover have "(\<lambda>w. (n(v := n v - 1)) w - of_bool (w \<in> set vs)) = (\<lambda>w. n w - of_bool (w \<in> set (v # vs)))"
    using Cons.prems(1) by (auto simp: fun_eq_iff)
  ultimately show ?case by simp
qed simp

lemma applySet_ok:
  assumes "counted_ok c n" and "\<forall>v \<in> set old. 0 < n v"
  shows "counted_ok (applySet old new c) (\<lambda>v. n v - of_bool (v \<in> set old) + of_bool (v \<in> set new))"
proof -
  let ?add = "filter (\<lambda>v. v \<notin> set old) (remdups new)" and ?rem = "filter (\<lambda>v. v \<notin> set new) (remdups old)"
  have "counted_ok (fold addToSet ?add c) (\<lambda>v. n v + of_bool (v \<in> set ?add))"
    using assms(1) by (intro fold_add_ok) simp_all
  moreover have "\<forall>v \<in> set ?rem. 0 < n v + of_bool (v \<in> set ?add)" using assms(2) by auto
  ultimately have "counted_ok (applySet old new c) (\<lambda>v. n v + of_bool (v \<in> set ?add) - of_bool (v \<in> set ?rem))"
    unfolding applySet_def by (rule fold_remove_ok [rotated]) simp
  moreover have "(\<lambda>v. n v + of_bool (v \<in> set ?add) - of_bool (v \<in> set ?rem)) =
      (\<lambda>v. n v - of_bool (v \<in> set old) + of_bool (v \<in> set new))" by (auto simp: fun_eq_iff)
  ultimately show ?thesis by simp
qed

text \<open>A change of one subscriber's set, also when nothing changes.\<close>

lemma applySet_tally:
  assumes "counted_ok c (\<lambda>v. tally (\<lambda>x. v \<in> set (f x)) xs)" and "i < length xs"
  shows "counted_ok (if set (f y) \<noteq> set (f (xs ! i)) then applySet (f (xs ! i)) (f y) c else c)
     (\<lambda>v. tally (\<lambda>x. v \<in> set (f x)) (xs[i := y]))"
proof -
  have "\<forall>v \<in> set (f (xs ! i)). 0 < tally (\<lambda>x. v \<in> set (f x)) xs" by (intro ballI tally_nth_pos [OF assms(2)])
  from applySet_ok [OF assms(1) this, of "f y"] show ?thesis using assms by (simp add: tally_update)
qed

lemma updateBool_tally:
  "i < length xs \<Longrightarrow>
   (if f y \<noteq> f (xs ! i) then updateBool (f y) (tally f xs) else tally f xs) = tally f (xs[i := y])"
  by (simp add: updateBool_def tally_update)

section \<open>The aggregated scopes implement the specification\<close>

definition collection_rel :: "collection_agg \<Rightarrow> collection_scope list \<Rightarrow> bool" where
  "collection_rel d xs \<longleftrightarrow> c_subscribers d = int (length xs) \<and> c_stats d = tally includeStatistics xs \<and>
     c_idOnly d = tally c_fetchIdOnly xs \<and> counted_ok (c_attrs d) (\<lambda>v. tally (\<lambda>x. v \<in> set (c_attributes x)) xs)"

interpretation collections: aggregated collection_addSubscriber collection_removeSubscriber collection_apply
  default_collection_scope collection_new collection_rel
proof
  show "collection_rel collection_new []"
    by (simp add: collection_rel_def collection_new_def counted_ok_def no_values_def)
next
  fix s :: collection_agg and xs i x
  assume "collection_rel s xs" "i < length xs"
  then show "collection_rel (collection_apply (xs ! i) x s) (xs[i := x])"
    using applySet_tally [of "c_attrs s" c_attributes xs i x] updateBool_tally [of i xs includeStatistics x]
      updateBool_tally [of i xs c_fetchIdOnly x]
    by (auto simp: collection_rel_def collection_apply_def Let_def split: if_splits)
qed (auto simp: collection_rel_def collection_addSubscriber_def collection_removeSubscriber_def
    default_collection_scope_def tally_remove)

definition tag_rel :: "tag_agg \<Rightarrow> tag_scope list \<Rightarrow> bool" where
  "tag_rel d xs \<longleftrightarrow> t_subscribers d = int (length xs) \<and> t_idOnly d = tally t_fetchIdOnly xs \<and>
     t_remoteId d = tally t_fetchRemoteID xs \<and> t_doNotFetchAll d = tally (\<lambda>x. \<not> t_fetchAllAttributes x) xs \<and>
     counted_ok (t_attrs d) (\<lambda>v. tally (\<lambda>x. v \<in> set (t_attributes x)) xs)"

interpretation tags: aggregated tag_addSubscriber tag_removeSubscriber tag_apply default_tag_scope tag_new tag_rel
proof
  show "tag_rel tag_new []" by (simp add: tag_rel_def tag_new_def counted_ok_def no_values_def)
next
  fix s :: tag_agg and xs i x
  assume "tag_rel s xs" "i < length xs"
  then show "tag_rel (tag_apply (xs ! i) x s) (xs[i := x])"
    using applySet_tally [of "t_attrs s" t_attributes xs i x] updateBool_tally [of i xs t_fetchIdOnly x]
      updateBool_tally [of i xs t_fetchRemoteID x] updateBool_tally [of i xs "\<lambda>x. \<not> t_fetchAllAttributes x" x]
    by (auto simp: tag_rel_def tag_apply_def Let_def split: if_splits)
qed (auto simp: tag_rel_def tag_addSubscriber_def tag_removeSubscriber_def default_tag_scope_def tally_remove)

text \<open>The counters of the depths are exact for the depths that are read.\<close>

definition item_rel :: "item_agg \<Rightarrow> item_scope list \<Rightarrow> bool" where
  "item_rel d xs \<longleftrightarrow> i_subscribers d = int (length xs) \<and>
     (\<forall>a. a \<noteq> NoAncestor \<longrightarrow> i_ancestors d a = tally (\<lambda>x. mAncestorDepth x = a) xs) \<and>
     (\<forall>f \<in> set counted_flags. i_flags d f = tally (\<lambda>x. f \<in> mFlags x) xs) \<and>
     counted_ok (i_parts d) (\<lambda>v. tally (\<lambda>x. v \<in> set (mRequestedParts x)) xs)"

lemma apply_flag_frame [simp]:
  "i_subscribers (apply_flag old new f d) = i_subscribers d" "i_ancestors (apply_flag old new f d) = i_ancestors d"
  "i_parts (apply_flag old new f d) = i_parts d"
  by (simp_all add: apply_flag_def)

lemma fold_apply_flag_frame [simp]:
  "i_subscribers (fold (apply_flag old new) fs d) = i_subscribers d"
  "i_ancestors (fold (apply_flag old new) fs d) = i_ancestors d"
  "i_parts (fold (apply_flag old new) fs d) = i_parts d"
  by (induction fs arbitrary: d) simp_all

lemma fold_apply_flag:
  "distinct fs \<Longrightarrow> i_flags (fold (apply_flag old new) fs d) f =
   (if f \<in> set fs \<and> (f \<in> mFlags new) \<noteq> (f \<in> mFlags old) then updateBool (f \<in> mFlags new) (i_flags d f) else i_flags d f)"
  by (induction fs arbitrary: d) (auto simp: apply_flag_def)

lemma updateAncestorDepth_tally:
  assumes "\<forall>a. a \<noteq> NoAncestor \<longrightarrow> i_ancestors d a = tally (\<lambda>x. mAncestorDepth x = a) xs" and "i < length xs"
    and "b \<noteq> NoAncestor" and "mAncestorDepth y \<noteq> mAncestorDepth (xs ! i)"
  shows "i_ancestors (updateAncestorDepth (mAncestorDepth (xs ! i)) (mAncestorDepth y) d) b =
    tally (\<lambda>x. mAncestorDepth x = b) (xs[i := y])"
proof -
  have "0 < i_ancestors d b" if "mAncestorDepth (xs ! i) = b"
    using that assms(1, 3) tally_nth_pos [OF assms(2), of "\<lambda>x. mAncestorDepth x = b"] by simp
  then show ?thesis using assms by (auto simp: updateAncestorDepth_def Let_def tally_update)
qed

lemma updateAncestorDepth_frame [simp]:
  "i_subscribers (updateAncestorDepth a b d) = i_subscribers d" "i_flags (updateAncestorDepth a b d) = i_flags d"
  "i_parts (updateAncestorDepth a b d) = i_parts d"
  by (simp_all add: updateAncestorDepth_def Let_def)

lemma item_apply_rel:
  assumes "item_rel d xs" and "i < length xs"
  shows "item_rel (item_apply (xs ! i) y d) (xs[i := y])"
proof -
  let ?d1 = "if set (mRequestedParts y) \<noteq> set (mRequestedParts (xs ! i))
    then d\<lparr>i_parts := applySet (mRequestedParts (xs ! i)) (mRequestedParts y) (i_parts d)\<rparr> else d"
  let ?d2 = "if mAncestorDepth y \<noteq> mAncestorDepth (xs ! i)
    then updateAncestorDepth (mAncestorDepth (xs ! i)) (mAncestorDepth y) ?d1 else ?d1"
  have eq: "item_apply (xs ! i) y d = (fold (apply_flag (xs ! i) y) counted_flags ?d2)\<lparr>mCachedScope := None\<rparr>"
    by (simp add: item_apply_def Let_def)
  have d1: "i_subscribers ?d1 = i_subscribers d" "i_ancestors ?d1 = i_ancestors d" "i_flags ?d1 = i_flags d" by simp_all
  have "counted_ok (i_parts ?d1) (\<lambda>v. tally (\<lambda>x. v \<in> set (mRequestedParts x)) (xs[i := y]))"
    using applySet_tally [of "i_parts d" mRequestedParts xs i y] assms by (auto simp: item_rel_def split: if_splits)
  moreover have "i_ancestors ?d2 a = tally (\<lambda>x. mAncestorDepth x = a) (xs[i := y])" if "a \<noteq> NoAncestor" for a
    using updateAncestorDepth_tally [of ?d1 xs i a y] that assms d1 by (auto simp: item_rel_def tally_update)
  moreover have "i_flags (fold (apply_flag (xs ! i) y) counted_flags ?d2) f = tally (\<lambda>x. f \<in> mFlags x) (xs[i := y])"
    if "f \<in> set counted_flags" for f
  proof -
    have "distinct counted_flags" by (simp add: counted_flags_def)
    moreover have "i_flags ?d2 f = tally (\<lambda>x. f \<in> mFlags x) xs" using that assms(1) d1 by (simp add: item_rel_def)
    ultimately show ?thesis using that updateBool_tally [OF assms(2), of "\<lambda>x. f \<in> mFlags x" y]
      by (simp only: fold_apply_flag simp_thms)
  qed
  ultimately show ?thesis using assms(1) unfolding eq item_rel_def by simp
qed

interpretation items: aggregated item_addSubscriber item_removeSubscriber item_apply default_item_scope item_new item_rel
proof
  show "item_rel item_new []" by (simp add: item_rel_def item_new_def counted_ok_def no_values_def)
  show "\<And>s xs i x. item_rel s xs \<Longrightarrow> i < length xs \<Longrightarrow> item_rel (item_apply (xs ! i) x s) (xs[i := x])"
    by (rule item_apply_rel)
qed (auto simp: item_rel_def item_addSubscriber_def item_removeSubscriber_def default_item_scope_def tally_remove)

lemma counted_values: "counted_ok c (\<lambda>v. tally (\<lambda>x. v \<in> set (f x)) xs) \<Longrightarrow> cvalues c = (\<Union>x \<in> set xs. set (f x))"
proof -
  assume ok: "counted_ok c (\<lambda>v. tally (\<lambda>x. v \<in> set (f x)) xs)"
  have "tally P xs \<noteq> 0 \<longleftrightarrow> (\<exists>x \<in> set xs. P x)" for P using tally_nonneg [of P xs] tally_pos [of P xs] by linarith
  then show ?thesis using ok by (auto simp: counted_ok_def)
qed

lemma setFetch_flags: "mFlags (setFetch f b x) = (if b then insert f (mFlags x) else mFlags x - {f})"
  by (simp add: setFetch_def Let_def)

lemma fold_setFetch_other:
  "f \<notin> set fs \<Longrightarrow> (f \<in> mFlags (fold (\<lambda>f x. setFetch f (b f) x) fs x)) = (f \<in> mFlags x)"
  by (induction fs arbitrary: x) (auto simp: setFetch_flags)

lemma fold_setFetch_flags:
  "distinct fs \<Longrightarrow> f \<in> set fs \<Longrightarrow> (f \<in> mFlags (fold (\<lambda>f x. setFetch f (b f) x) fs x)) = b f"
  by (induction fs arbitrary: x) (auto simp: setFetch_flags fold_setFetch_other split: if_splits)

section \<open>Properties\<close>

text \<open>The aggregated collection and tag scopes are exact: after any sequence of subscriptions, changed scopes and
  disconnections, the attributes are the union of the attributes of the connected subscribers, the flags that one subscriber
  is enough for are set iff one of them has it, and those that need all are set iff all have it.\<close>

theorem collection_and_tag_scopes_exact:
  assumes "subscribers_run collection_addSubscriber collection_removeSubscriber collection_apply default_collection_scope
      cls (collection_new, []) = (d, xs)"
    and "subscribers_run tag_addSubscriber tag_removeSubscriber tag_apply default_tag_scope tls (tag_new, []) = (t, ys)"
  shows "collection_attributes d = (\<Union>x \<in> set xs. set (c_attributes x)) \<and>
    collection_fetchIdOnly d = list_all c_fetchIdOnly xs \<and>
    collection_fetchStatistics d = list_ex includeStatistics xs \<and>
    tag_attributes t = (\<Union>y \<in> set ys. set (t_attributes y)) \<and> tag_fetchIdOnly t = list_all t_fetchIdOnly ys \<and>
    tag_fetchRemoteId t = list_ex t_fetchRemoteID ys \<and> tag_fetchAllAttributes t = list_ex t_fetchAllAttributes ys"
proof -
  have c: "collection_rel d xs" and t: "tag_rel t ys"
    by (rule collections.rel_run [OF assms(1)], rule tags.rel_run [OF assms(2)])
  show ?thesis using c t
    by (auto simp: collection_rel_def tag_rel_def collection_attributes_def tag_attributes_def counted_values tally_all tally_pos
        collection_fetchIdOnly_def collection_fetchStatistics_def tag_fetchIdOnly_def tag_fetchRemoteId_def
        tag_fetchAllAttributes_def list_all_iff list_ex_iff)
qed

theorem collection_and_tag_scopes_exact_witness:
  "let d = fst (subscribers_run collection_addSubscriber collection_removeSubscriber collection_apply default_collection_scope
     [Subscribe, Modify 0 \<lparr>includeStatistics = True, c_fetchIdOnly = True, c_attributes = [''QUOTA'']\<rparr>, Subscribe]
     (collection_new, [])) in collection_attributes d = {''QUOTA''} \<and> collection_fetchStatistics d \<and> \<not> collection_fetchIdOnly d"
proof -
  let ?run = "subscribers_run collection_addSubscriber collection_removeSubscriber collection_apply default_collection_scope
     [Subscribe, Modify 0 \<lparr>includeStatistics = True, c_fetchIdOnly = True, c_attributes = [''QUOTA'']\<rparr>, Subscribe]
     (collection_new, [])"
  have "?run = (fst ?run, [\<lparr>includeStatistics = True, c_fetchIdOnly = True, c_attributes = [''QUOTA'']\<rparr>, default_collection_scope])"
    by simp
  moreover have "subscribers_run tag_addSubscriber tag_removeSubscriber tag_apply default_tag_scope [] (tag_new, []) = (tag_new, [])"
    by simp
  ultimately show ?thesis using collection_and_tag_scopes_exact [of _ "fst ?run"]
    by (fastforce simp: default_collection_scope_def)
qed

text \<open>The aggregated item scope is exact: after any sequence of subscriptions, changed scopes and disconnections the
  requested parts are the union of those of the connected subscribers, the depth of ancestors is the largest any of them wants,
  cache-only and ignoring errors hold iff all want them, and every other counted flag iff one of them wants it.\<close>

theorem item_scope_exact:
  assumes "subscribers_run item_addSubscriber item_removeSubscriber item_apply default_item_scope ls (item_new, []) = (d, xs)"
    and "f \<in> set counted_flags"
  shows "cvalues (i_parts d) = (\<Union>x \<in> set xs. set (mRequestedParts x)) \<and>
    (item_flag f d \<longleftrightarrow> (if f = CacheOnly \<or> f = IgnoreErrors then \<forall>x \<in> set xs. f \<in> mFlags x else \<exists>x \<in> set xs. f \<in> mFlags x)) \<and>
    ancestorDepth d = (if \<exists>x \<in> set xs. mAncestorDepth x = AllAncestors then AllAncestors
       else if \<exists>x \<in> set xs. mAncestorDepth x = ParentAncestor then ParentAncestor else NoAncestor)"
proof -
  have "item_rel d xs" by (rule items.rel_run [OF assms(1)])
  then show ?thesis using assms(2)
    by (auto simp: item_rel_def counted_values item_flag_def ancestorDepth_def tally_all tally_pos)
qed

theorem item_scope_exact_witness:
  "let d = fst (subscribers_run item_addSubscriber item_removeSubscriber item_apply default_item_scope
     [Subscribe, Modify 0 \<lparr>mRequestedParts = [''PLD:HEAD''], mAncestorDepth = AllAncestors, mFlags = {CacheOnly}\<rparr>, Subscribe, Disconnect 1]
     (item_new, [])) in item_flag CacheOnly d \<and> ancestorDepth d = AllAncestors"
proof -
  let ?run = "subscribers_run item_addSubscriber item_removeSubscriber item_apply default_item_scope
     [Subscribe, Modify 0 \<lparr>mRequestedParts = [''PLD:HEAD''], mAncestorDepth = AllAncestors, mFlags = {CacheOnly}\<rparr>, Subscribe, Disconnect 1]
     (item_new, [])"
  have "?run = (fst ?run, [\<lparr>mRequestedParts = [''PLD:HEAD''], mAncestorDepth = AllAncestors, mFlags = {CacheOnly}\<rparr>])" by simp
  from item_scope_exact [OF this, of CacheOnly] show ?thesis by (simp add: counted_flags_def)
qed

text \<open>The cached item scope goes stale when a subscriber joins: once the scope was computed while all subscribers wanted
  cached data only, a new subscriber makes \<open>cacheOnly()\<close> false, but \<open>toFetchScope\<close> still returns the old scope with cache-only
  set, because adding a subscriber does not invalidate the cache.\<close>

theorem cached_scope_goes_stale:
  assumes "mCachedScope d = None" and "item_flag CacheOnly d"
  shows "let (x, d') = toFetchScope ps d; e = item_addSubscriber d' in
     \<not> item_flag CacheOnly e \<and> toFetchScope ps' e = (x, e) \<and> CacheOnly \<in> mFlags x"
proof -
  let ?x = "fold (\<lambda>f x. setFetch f (item_flag f d) x) counted_flags
     (default_item_scope\<lparr>mRequestedParts := ps, mAncestorDepth := ancestorDepth d\<rparr>)"
  have "distinct counted_flags" "CacheOnly \<in> set counted_flags" by (simp_all add: counted_flags_def)
  then have "CacheOnly \<in> mFlags ?x" using fold_setFetch_flags [of counted_flags CacheOnly] assms(2) by simp
  then show ?thesis using assms by (simp add: toFetchScope_def Let_def item_addSubscriber_def item_flag_def)
qed

theorem cached_scope_goes_stale_witness:
  "\<not> item_flag CacheOnly (item_addSubscriber (snd (toFetchScope [] item_new))) \<and>
   CacheOnly \<in> mFlags (fst (toFetchScope [] (item_addSubscriber (snd (toFetchScope [] item_new)))))"
  using cached_scope_goes_stale [of item_new "[]" "[]"] by (simp add: item_new_def item_flag_def split_beta Let_def)

end
