(* ===== verification/DataStream.thy ===== *)
theory DataStream
  imports Prelude "HOL-Library.Word" "HOL-Library.Monad_Syntax"
begin

text \<open>
  \<open>src/private/datastream_p.cpp\<close> and \<open>datastream_p_p.h\<close>: the binary encoding of the client/server protocol. Writing
  appends bytes to the write buffer; reading takes bytes from the device. The device is the list of the bytes that will
  arrive before the timeout, so a read that needs more bytes throws (\<open>None\<close>). Integers are written in the byte order of
  the machine, here little endian.
\<close>

type_synonym byte = "8 word"

type_synonym 'a reader = "byte list \<Rightarrow> ('a \<times> byte list) option"

section \<open>Integers\<close>

text \<open>The \<open>n\<close> bytes of an integer.\<close>

fun le_bytes :: "nat \<Rightarrow> nat \<Rightarrow> byte list" where
  "le_bytes 0 v = []"
| "le_bytes (Suc n) v = word_of_nat v # le_bytes n (v div 256)"

fun le_value :: "byte list \<Rightarrow> nat" where
  "le_value [] = 0"
| "le_value (b # bs) = unat b + 256 * le_value bs"

text \<open>\<open>waitForData\<close> and \<open>read\<close> of \<open>n\<close> bytes.\<close>

definition read_bytes :: "nat \<Rightarrow> byte list reader" where
  "read_bytes n dev = (if length dev < n then None else Some (take n dev, drop n dev))"

definition put_int :: "nat \<Rightarrow> 'a::len word \<Rightarrow> byte list" where
  "put_int n v = le_bytes n (unat v)"

definition get_int :: "nat \<Rightarrow> 'a::len word reader" where
  "get_int n dev = do { (bs, dev) \<leftarrow> read_bytes n dev; Some (word_of_nat (le_value bs), dev) }"

abbreviation put_quint8 :: "8 word \<Rightarrow> byte list" where
  "put_quint8 \<equiv> put_int 1"

abbreviation get_quint8 :: "8 word reader" where
  "get_quint8 \<equiv> get_int 1"

abbreviation put_quint32 :: "32 word \<Rightarrow> byte list" where
  "put_quint32 \<equiv> put_int 4"

abbreviation get_quint32 :: "32 word reader" where
  "get_quint32 \<equiv> get_int 4"

abbreviation put_qint64 :: "64 word \<Rightarrow> byte list" where
  "put_qint64 \<equiv> put_int 8"

abbreviation get_qint64 :: "64 word reader" where
  "get_qint64 \<equiv> get_int 8"

section \<open>Byte arrays and strings\<close>

text \<open>A null \<open>QByteArray\<close> or \<open>QString\<close> is \<open>None\<close>; a string is its list of UTF-16 code units.\<close>

type_synonym qbytearray = "byte list option"
type_synonym qstring = "16 word list option"

definition null_marker :: "32 word" where
  "null_marker = 0xffffffff"

definition writeBytes :: "byte list \<Rightarrow> byte list" where
  "writeBytes bs = put_quint32 (word_of_nat (length bs)) @ bs"

definition put_bytearray :: "qbytearray \<Rightarrow> byte list" where
  "put_bytearray d = (case d of None \<Rightarrow> put_quint32 null_marker | Some bs \<Rightarrow> writeBytes bs)"

text \<open>The loops that read in blocks of 1 MiB (of \<open>unit\<close> bytes each), with the units still missing.\<close>

function read_blocks :: "nat \<Rightarrow> nat \<Rightarrow> byte list \<Rightarrow> byte list reader" where
  "read_blocks unit missing acc dev =
     (if missing = 0 then Some (acc, dev)
      else
        (let blockSize = min 1048576 missing in
         case read_bytes (blockSize * unit) dev of
           None \<Rightarrow> None
         | Some (bs, dev) \<Rightarrow> read_blocks unit (missing - blockSize) (acc @ bs) dev))"
  by pat_completeness auto

termination
  by (relation "measure (\<lambda>(u, m, a, d). m)") auto

declare read_blocks.simps [simp del]

definition get_bytearray :: "qbytearray reader" where
  "get_bytearray dev =
     do {
       (len, dev) \<leftarrow> get_quint32 dev;
       if len = null_marker then Some (None, dev)
       else do { (bs, dev) \<leftarrow> read_blocks 1 (unat len) [] dev; Some (Some bs, dev) }
     }"

definition put_string :: "qstring \<Rightarrow> byte list" where
  "put_string s = (case s of None \<Rightarrow> put_quint32 null_marker | Some us \<Rightarrow> writeBytes (concat (map (put_int 2) us)))"

fun code_units :: "byte list \<Rightarrow> 16 word list" where
  "code_units (a # b # bs) = word_of_nat (le_value [a, b]) # code_units bs"
| "code_units _ = []"

definition get_string :: "qstring reader" where
  "get_string dev =
     do {
       (bytes, dev) \<leftarrow> get_quint32 dev;
       if bytes = null_marker then Some (None, dev)
       else if bytes = 0 then Some (Some [], dev)
       else if odd (unat bytes) then None
       else do { (bs, dev) \<leftarrow> read_blocks 2 (unat bytes div 2) [] dev; Some (Some (code_units bs), dev) }
     }"

section \<open>Containers\<close>

definition put_list :: "('a \<Rightarrow> byte list) \<Rightarrow> 'a list \<Rightarrow> byte list" where
  "put_list put xs = put_quint32 (word_of_nat (length xs)) @ concat (map put xs)"

fun get_elements :: "'a reader \<Rightarrow> nat \<Rightarrow> 'a list reader" where
  "get_elements get 0 dev = Some ([], dev)"
| "get_elements get (Suc n) dev =
     do { (x, dev) \<leftarrow> get dev; (xs, dev) \<leftarrow> get_elements get n dev; Some (x # xs, dev) }"

definition get_list :: "'a reader \<Rightarrow> 'a list reader" where
  "get_list get dev = do { (n, dev) \<leftarrow> get_quint32 dev; get_elements get (unat n) dev }"

definition put_pair :: "('a \<Rightarrow> byte list) \<Rightarrow> ('b \<Rightarrow> byte list) \<Rightarrow> 'a \<times> 'b \<Rightarrow> byte list" where
  "put_pair f g p = f (fst p) @ g (snd p)"

definition get_pair :: "'a reader \<Rightarrow> 'b reader \<Rightarrow> ('a \<times> 'b) reader" where
  "get_pair f g dev = do { (x, dev) \<leftarrow> f dev; (y, dev) \<leftarrow> g dev; Some ((x, y), dev) }"

text \<open>A map is written as its entries in iteration order, and read by inserting them one after the other.\<close>

definition get_map :: "'k reader \<Rightarrow> 'v reader \<Rightarrow> ('k \<rightharpoonup> 'v) reader" where
  "get_map f g dev = do { (kvs, dev) \<leftarrow> get_list (get_pair f g) dev; Some (fold (\<lambda>(k, v) m. m(k \<mapsto> v)) kvs Map.empty, dev) }"

section \<open>Stable readers\<close>

text \<open>A successful read does not depend on what follows.\<close>

definition stable_reader :: "'a reader \<Rightarrow> bool" where
  "stable_reader f \<longleftrightarrow> (\<forall>dev x r e. f dev = Some (x, r) \<longrightarrow> f (dev @ e) = Some (x, r @ e))"

lemma stable_readerD: "stable_reader f \<Longrightarrow> f dev = Some (x, r) \<Longrightarrow> f (dev @ e) = Some (x, r @ e)"
  by (simp add: stable_reader_def)

named_theorems stable_intros

lemma stable_return [stable_intros]: "stable_reader (\<lambda>dev. Some (x, dev))"
  by (simp add: stable_reader_def)

lemma stable_throw [stable_intros]: "stable_reader (\<lambda>dev. None)"
  by (simp add: stable_reader_def)

lemma stable_if [stable_intros]: "stable_reader f \<Longrightarrow> stable_reader g \<Longrightarrow> stable_reader (\<lambda>dev. if c then f dev else g dev)"
  by (cases c) simp_all

lemma stable_bind [stable_intros]:
  assumes "stable_reader f" and "\<And>x. stable_reader (g x)"
  shows "stable_reader (\<lambda>dev. f dev \<bind> (\<lambda>(x, dev). g x dev))"
  unfolding stable_reader_def
proof (intro allI impI)
  fix dev y r e
  assume "f dev \<bind> (\<lambda>(x, dev). g x dev) = Some (y, r)"
  then obtain x d where f: "f dev = Some (x, d)" and g: "g x d = Some (y, r)" by (auto split: Option.bind_splits)
  have "f (dev @ e) = Some (x, d @ e)" by (rule stable_readerD [OF assms(1) f])
  moreover have "g x (d @ e) = Some (y, r @ e)" by (rule stable_readerD [OF assms(2) g])
  ultimately show "f (dev @ e) \<bind> (\<lambda>(x, dev). g x dev) = Some (y, r @ e)" by simp
qed

lemma read_bytes_stable [stable_intros]: "stable_reader (read_bytes n)"
  by (auto simp: stable_reader_def read_bytes_def)

lemma get_int_stable [stable_intros]: "stable_reader (get_int n)"
  unfolding get_int_def by (intro stable_intros)

lemma get_elements_stable [stable_intros]: "stable_reader get \<Longrightarrow> stable_reader (get_elements get n)"
proof (induction n)
  case (Suc n)
  then show ?case unfolding get_elements.simps(2) by (intro stable_intros)
qed (simp add: stable_reader_def)

lemma get_list_stable [stable_intros]: "stable_reader get \<Longrightarrow> stable_reader (get_list get)"
  unfolding get_list_def by (intro stable_intros)

lemma get_pair_stable [stable_intros]: "stable_reader f \<Longrightarrow> stable_reader g \<Longrightarrow> stable_reader (get_pair f g)"
  unfolding get_pair_def by (intro stable_intros)

section \<open>The interface of an encoding\<close>

text \<open>What is written is read back, nothing behind it is touched, and a successful read does not depend on what follows.\<close>

locale codec =
  fixes put :: "'a \<Rightarrow> byte list" and get :: "'a reader" and ok :: "'a \<Rightarrow> bool"
  assumes roundtrip: "ok x \<Longrightarrow> get (put x @ rest) = Some (x, rest)"
    and stable: "stable_reader get"
begin

lemma elements_roundtrip: "list_all ok xs \<Longrightarrow> get_elements get (length xs) (concat (map put xs) @ rest) = Some (xs, rest)"
  by (induction xs) (simp_all add: roundtrip)

text \<open>A part of an encoding is never read as a value.\<close>

lemma truncated_throws:
  assumes "ok x" and "put x = p @ e" and "e \<noteq> []"
  shows "get p = None"
proof (cases "get p")
  case (Some yr)
  then have "get (put x @ []) = Some (fst yr, snd yr @ e)" using stable_readerD [OF stable, of p "fst yr" "snd yr" e] assms(2) by simp
  then show ?thesis using roundtrip [OF assms(1), of "[]"] assms(3) by simp
qed

text \<open>So an encoding is uniquely decodable.\<close>

lemma put_inject:
  assumes "ok x" and "ok y" and "put x @ r = put y @ r'"
  shows "x = y \<and> r = r'"
proof -
  have "Some (x, r) = get (put x @ r)" using roundtrip [OF assms(1)] by simp
  also have "\<dots> = get (put y @ r')" by (rule arg_cong [OF assms(3)])
  also have "\<dots> = Some (y, r')" by (rule roundtrip [OF assms(2)])
  finally show ?thesis by simp
qed

end

section \<open>Integers are read back\<close>

lemma length_le_bytes [simp]: "length (le_bytes n v) = n"
  by (induction n v rule: le_bytes.induct) simp_all

lemma unat_byte: "unat (word_of_nat v :: byte) = v mod 256"
  by (simp add: unat_of_nat)

lemma le_value_bytes: "v < 256 ^ n \<Longrightarrow> le_value (le_bytes n v) = v"
proof (induction n v rule: le_bytes.induct)
  case (2 n v)
  then have "v div 256 < 256 ^ n" by (simp add: less_mult_imp_div_less mult.commute)
  with 2 show ?case by (simp add: unat_byte)
qed simp

lemma read_bytes_append: "length bs = n \<Longrightarrow> read_bytes n (bs @ rest) = Some (bs, rest)"
  by (auto simp: read_bytes_def)

lemma int_roundtrip:
  fixes v :: "'a::len word"
  assumes "2 ^ LENGTH('a) \<le> (256 :: nat) ^ n"
  shows "get_int n (put_int n v @ rest) = Some (v, rest)"
proof -
  have "unat v < 256 ^ n" using assms unsigned_less [of v] by (meson less_le_trans)
  then show ?thesis by (simp add: get_int_def put_int_def read_bytes_append le_value_bytes)
qed

interpretation quint8: codec put_quint8 get_quint8 "\<lambda>_. True"
  by unfold_locales (simp_all add: int_roundtrip get_int_stable)

interpretation quint32: codec put_quint32 get_quint32 "\<lambda>_. True"
  by unfold_locales (simp_all add: int_roundtrip get_int_stable)

interpretation qint64: codec put_qint64 get_qint64 "\<lambda>_. True"
  by unfold_locales (simp_all add: int_roundtrip get_int_stable)

section \<open>Byte arrays and strings are read back\<close>

lemma read_split:
  assumes "\<not> length dev < x"
  shows "(if length (drop x dev) < y then None else Some ((acc @ take x dev) @ take y (drop x dev), drop y (drop x dev))) =
    (if length dev < x + y then None else Some (acc @ take (x + y) dev, drop (x + y) dev))"
  using assms by (auto simp: take_add add.commute)

text \<open>Reading block by block is reading all at once.\<close>

lemma read_blocks_eq:
  "read_blocks u m acc dev =
   (if length dev < m * u then None else Some (acc @ take (m * u) dev, drop (m * u) dev))"
proof (induction u m acc dev rule: read_blocks.induct)
  case (1 u m acc dev)
  show ?case
  proof (cases "m = 0")
    case False
    let ?b = "min 1048576 m"
    have m: "m * u = ?b * u + (m - ?b) * u" by (simp add: distrib_right [symmetric])
    show ?thesis
    proof (cases "length dev < ?b * u")
      case True
      then show ?thesis using False m by (simp add: read_blocks.simps [of u m] read_bytes_def Let_def)
    next
      case ok: False
      then have "read_bytes (?b * u) dev = Some (take (?b * u) dev, drop (?b * u) dev)" by (simp add: read_bytes_def)
      with False have "read_blocks u m acc dev = read_blocks u (m - ?b) (acc @ take (?b * u) dev) (drop (?b * u) dev)"
        by (simp add: read_blocks.simps [of u m] Let_def)
      also have "\<dots> = (if length (drop (?b * u) dev) < (m - ?b) * u then None
          else Some ((acc @ take (?b * u) dev) @ take ((m - ?b) * u) (drop (?b * u) dev), drop ((m - ?b) * u) (drop (?b * u) dev)))"
        using 1 [OF False refl] ok by (simp add: read_bytes_def)
      also have "\<dots> = (if length dev < m * u then None else Some (acc @ take (m * u) dev, drop (m * u) dev))"
        unfolding m by (rule read_split [OF ok])
      finally show ?thesis .
    qed
  qed (simp add: read_blocks.simps)
qed

lemma unat_length:
  "n < 2 ^ 32 \<Longrightarrow> unat (word_of_nat n :: 32 word) = n"
  by (simp add: unat_of_nat)

definition bytearray_ok :: "qbytearray \<Rightarrow> bool" where
  "bytearray_ok d = (case d of None \<Rightarrow> True | Some bs \<Rightarrow> length bs < 2 ^ 32 - 1)"

lemma length_not_null: "n < 2 ^ 32 - 1 \<Longrightarrow> (word_of_nat n :: 32 word) \<noteq> null_marker"
proof
  assume n: "n < 2 ^ 32 - 1" and "(word_of_nat n :: 32 word) = null_marker"
  then have "unat (word_of_nat n :: 32 word) = unat (0xffffffff :: 32 word)" by (simp add: null_marker_def)
  then show False using n by (simp add: unat_length)
qed

lemma bytearray_roundtrip: "bytearray_ok d \<Longrightarrow> get_bytearray (put_bytearray d @ rest) = Some (d, rest)"
proof (cases d)
  case (Some bs)
  assume "bytearray_ok d"
  then have "length bs < 2 ^ 32 - 1" using Some by (simp add: bytearray_ok_def)
  then show ?thesis using Some length_not_null [of "length bs"]
    by (simp add: get_bytearray_def put_bytearray_def writeBytes_def quint32.roundtrip read_blocks_eq unat_length)
qed (simp add: get_bytearray_def put_bytearray_def quint32.roundtrip)

lemma read_blocks_stable [stable_intros]: "stable_reader (read_blocks u m acc)"
  by (auto simp: stable_reader_def read_blocks_eq)

lemma get_bytearray_stable [stable_intros]: "stable_reader get_bytearray"
  unfolding get_bytearray_def by (intro stable_intros)

interpretation bytearray: codec put_bytearray get_bytearray bytearray_ok
  by unfold_locales (auto intro: bytearray_roundtrip get_bytearray_stable)

definition string_ok :: "qstring \<Rightarrow> bool" where
  "string_ok s = (case s of None \<Rightarrow> True | Some us \<Rightarrow> length us < 2 ^ 31)"

lemma le_bytes_2: "le_bytes 2 v = [word_of_nat v, word_of_nat (v div 256)]"
  by (simp add: numeral_2_eq_2)

lemma code_units_put: "code_units (concat (map (put_int 2) us)) = us"
proof (induction us)
  case (Cons u us)
  have "get_int 2 (put_int 2 u @ []) = Some (u, [])" by (rule int_roundtrip) simp
  then have "word_of_nat (le_value (le_bytes 2 (unat u))) = u" by (simp add: get_int_def put_int_def read_bytes_def)
  then show ?case using Cons by (simp add: put_int_def le_bytes_2)
qed simp

lemma length_units: "length (concat (map (put_int 2) us)) = 2 * length us"
  by (induction us) (simp_all add: put_int_def)

lemma string_roundtrip: "string_ok s \<Longrightarrow> get_string (put_string s @ rest) = Some (s, rest)"
proof (cases s)
  case (Some us)
  assume "string_ok s"
  then have n: "2 * length us < 2 ^ 32 - 1" using Some by (auto simp: string_ok_def)
  let ?w = "word_of_nat (length (concat (map (put_int 2) us))) :: 32 word"
  have len: "unat ?w = 2 * length us" using n unat_length [of "2 * length us"] by (simp only: length_units)
  have "?w \<noteq> null_marker" unfolding length_units by (rule length_not_null [OF n])
  moreover have "?w = 0 \<longleftrightarrow> us = []" using len by (metis length_0_conv mult_eq_0_iff unat_eq_zero zero_neq_numeral)
  ultimately show ?thesis using Some len length_units [of us] code_units_put [of us]
    by (simp add: get_string_def put_string_def writeBytes_def quint32.roundtrip read_blocks_eq mult.commute)
qed (simp add: get_string_def put_string_def quint32.roundtrip)

lemma get_string_stable [stable_intros]: "stable_reader get_string"
  unfolding get_string_def by (intro stable_intros)

interpretation qstring: codec put_string get_string string_ok
  by unfold_locales (auto intro: string_roundtrip get_string_stable)

section \<open>Containers are read back\<close>

text \<open>An encoding of the elements gives one of lists of them, and two encodings one of pairs.\<close>

definition list_ok :: "('a \<Rightarrow> bool) \<Rightarrow> 'a list \<Rightarrow> bool" where
  "list_ok ok xs \<longleftrightarrow> list_all ok xs \<and> length xs < 2 ^ 32"

context codec
begin

lemma list_codec: "codec (put_list put) (get_list get) (list_ok ok)"
proof
  show "get_list get (put_list put xs @ rest) = Some (xs, rest)" if "list_ok ok xs" for xs rest
    using that elements_roundtrip by (simp add: list_ok_def get_list_def put_list_def quint32.roundtrip unat_length)
  show "stable_reader (get_list get)" by (intro stable_intros stable)
qed

end

lemma pair_codec:
  assumes "codec f f' okf" and "codec g g' okg"
  shows "codec (put_pair f g) (get_pair f' g') (\<lambda>p. okf (fst p) \<and> okg (snd p))"
proof
  show "get_pair f' g' (put_pair f g p @ rest) = Some (p, rest)" if "okf (fst p) \<and> okg (snd p)" for p rest
    using that codec.roundtrip [OF assms(1)] codec.roundtrip [OF assms(2)]
    by (cases p) (simp add: get_pair_def put_pair_def)
  show "stable_reader (get_pair f' g')" by (intro stable_intros codec.stable [OF assms(1)] codec.stable [OF assms(2)])
qed

section \<open>Date and time\<close>

text \<open>A date-time as the parts that are written: the Julian day, the milliseconds of the day and the time zone.\<close>

datatype time_spec = LocalTime | UTC | OffsetFromUTC "32 word" | TimeZone qbytearray

record qdatetime =
  julianDay :: "64 word"
  msecs :: "32 word"
  time_spec :: time_spec

definition spec_number :: "time_spec \<Rightarrow> 32 word" where
  "spec_number z = (case z of LocalTime \<Rightarrow> 0 | UTC \<Rightarrow> 1 | OffsetFromUTC _ \<Rightarrow> 2 | TimeZone _ \<Rightarrow> 3)"

definition put_datetime :: "qdatetime \<Rightarrow> byte list" where
  "put_datetime dt =
     put_qint64 (julianDay dt) @ put_quint32 (msecs dt) @ put_quint32 (spec_number (time_spec dt)) @
     (case time_spec dt of OffsetFromUTC off \<Rightarrow> put_quint32 off | TimeZone name \<Rightarrow> put_bytearray name | _ \<Rightarrow> [])"

definition get_datetime :: "qdatetime reader" where
  "get_datetime dev =
     do {
       (jd, dev) \<leftarrow> get_qint64 dev;
       (mds, dev) \<leftarrow> get_quint32 dev;
       (spec, dev) \<leftarrow> get_quint32 dev;
       (zone, dev) \<leftarrow> (if spec = 1 then Some (UTC, dev)
          else if spec = 2 then do { (off, dev) \<leftarrow> get_quint32 dev; Some (OffsetFromUTC off, dev) }
          else if spec = 3 then do { (name, dev) \<leftarrow> get_bytearray dev; Some (TimeZone name, dev) }
          else Some (LocalTime, dev));
       Some (\<lparr>julianDay = jd, msecs = mds, time_spec = zone\<rparr>, dev)
     }"

definition datetime_ok :: "qdatetime \<Rightarrow> bool" where
  "datetime_ok dt = (case time_spec dt of TimeZone name \<Rightarrow> bytearray_ok name | _ \<Rightarrow> True)"

lemma datetime_roundtrip: "datetime_ok dt \<Longrightarrow> get_datetime (put_datetime dt @ rest) = Some (dt, rest)"
  by (cases dt) (auto simp: get_datetime_def put_datetime_def datetime_ok_def spec_number_def qint64.roundtrip
      quint32.roundtrip bytearray.roundtrip split: time_spec.splits)

lemma get_datetime_stable [stable_intros]: "stable_reader get_datetime"
  unfolding get_datetime_def by (intro stable_intros)

interpretation datetime: codec put_datetime get_datetime datetime_ok
  by unfold_locales (auto intro: datetime_roundtrip get_datetime_stable)

section \<open>Properties\<close>

interpretation attributes: codec "put_list (put_pair put_bytearray put_bytearray)" "get_list (get_pair get_bytearray get_bytearray)"
  "list_ok (\<lambda>p. bytearray_ok (fst p) \<and> bytearray_ok (snd p))"
  by (intro codec.list_codec pair_codec bytearray.codec_axioms)

lemma fold_insert: "distinct (map fst kvs) \<Longrightarrow> fold (\<lambda>(k, v) m. m(k \<mapsto> v)) kvs m = m ++ map_of kvs"
proof (induction kvs arbitrary: m)
  case (Cons p kvs)
  then have "fold (\<lambda>(k, v) m. m(k \<mapsto> v)) (p # kvs) m = m(fst p \<mapsto> snd p) ++ map_of kvs"
    by (cases p) (simp del: fun_upd_apply)
  also have "\<dots> = m ++ map_of (p # kvs)"
  proof
    have "map_of kvs (fst p) = None" using Cons.prems by (simp add: map_of_eq_None_iff)
    then show "(m(fst p \<mapsto> snd p) ++ map_of kvs) k = (m ++ map_of (p # kvs)) k" for k
      by (cases p) (simp add: map_add_def split: option.splits)
  qed
  finally show ?case .
qed simp

text \<open>Maps of byte arrays (the attributes of items and collections) survive the protocol: the entries of a map, written in
  any order and read back by inserting them, give the same map, null and empty values kept apart, and the bytes behind it are
  left for the next value. A map cut off anywhere is rejected.\<close>

theorem attribute_map_roundtrip:
  assumes "distinct (map fst kvs)" and "list_ok (\<lambda>p. bytearray_ok (fst p) \<and> bytearray_ok (snd p)) kvs"
  shows "get_map get_bytearray get_bytearray (put_list (put_pair put_bytearray put_bytearray) kvs @ rest) = Some (map_of kvs, rest) \<and>
    (\<forall>p e. put_list (put_pair put_bytearray put_bytearray) kvs = p @ e \<and> e \<noteq> [] \<longrightarrow> get_map get_bytearray get_bytearray p = None)"
proof -
  have "get_map get_bytearray get_bytearray p = None"
    if "put_list (put_pair put_bytearray put_bytearray) kvs = p @ e" "e \<noteq> []" for p e
    using attributes.truncated_throws [OF assms(2) that] by (simp add: get_map_def)
  then show ?thesis
    using attributes.roundtrip [OF assms(2), of rest] fold_insert [OF assms(1), of Map.empty] by (simp add: get_map_def)
qed

theorem attribute_map_roundtrip_witness:
  "get_map get_bytearray get_bytearray
     (put_list (put_pair put_bytearray put_bytearray) [(Some [65], None), (Some [66], Some [])] @ [1, 2])
   = Some ([Some [65] \<mapsto> None, Some [66] \<mapsto> Some []], [1, 2])"
  using attribute_map_roundtrip [of "[(Some [65], None), (Some [66], Some [])]" "[1, 2]"]
  by (auto simp: list_ok_def bytearray_ok_def fun_upd_twist)

text \<open>Date-times survive the protocol with their time zone, whatever follows them.\<close>

theorem date_time_stream_roundtrip:
  assumes "datetime_ok dt"
  shows "get_datetime (put_datetime dt @ rest) = Some (dt, rest)"
  using assms by (rule datetime.roundtrip)

theorem date_time_stream_roundtrip_witness:
  "get_datetime (put_datetime \<lparr>julianDay = 2460000, msecs = 1000, time_spec = OffsetFromUTC 3600\<rparr> @ [7]) =
     Some (\<lparr>julianDay = 2460000, msecs = 1000, time_spec = OffsetFromUTC 3600\<rparr>, [7])"
  by (rule date_time_stream_roundtrip) (simp add: datetime_ok_def)

end
