(* ===== verification/Scope.thy ===== *)
theory Scope
  imports DataStream
begin

text \<open>
  \<open>src/private/scope.cpp\<close>: the scope of a command, which selects entities by unique id, remote id, hierarchical remote
  id or global id, with its comparison and its encoding. The tag of the selection is the byte of the enumeration, as the
  decoder reads any byte into it.
\<close>

section \<open>Scopes\<close>

abbreviation Invalid :: byte where "Invalid \<equiv> 0"
abbreviation Uid :: byte where "Uid \<equiv> 1"
abbreviation Rid :: byte where "Rid \<equiv> 2"
abbreviation HierarchicalRid :: byte where "HierarchicalRid \<equiv> 4"
abbreviation Gid :: byte where "Gid \<equiv> 8"

record hrid =
  hrid_id :: "64 word"
  remoteId :: qstring

record scope =
  uidSet :: "64 word list"
  ridSet :: "qstring list"
  hridChain :: "hrid list"
  gidSet :: "qstring list"
  selection :: byte

definition new_scope :: scope where
  "new_scope = \<lparr>uidSet = [], ridSet = [], hridChain = [], gidSet = [], selection = Invalid\<rparr>"

definition hrid_isEmpty :: "hrid \<Rightarrow> bool" where
  "hrid_isEmpty h \<longleftrightarrow> sint (hrid_id h) \<le> 0 \<and> (remoteId h = None \<or> remoteId h = Some [])"

definition setUidSet :: "64 word list \<Rightarrow> scope \<Rightarrow> scope" where
  "setUidSet ids s = s\<lparr>selection := Uid, uidSet := ids\<rparr>"

definition setRidSet :: "qstring list \<Rightarrow> scope \<Rightarrow> scope" where
  "setRidSet ids s = s\<lparr>selection := Rid, ridSet := ids\<rparr>"

definition setHRidChain :: "hrid list \<Rightarrow> scope \<Rightarrow> scope" where
  "setHRidChain chain s = s\<lparr>selection := HierarchicalRid, hridChain := chain\<rparr>"

definition setGidSet :: "qstring list \<Rightarrow> scope \<Rightarrow> scope" where
  "setGidSet ids s = s\<lparr>selection := Gid, gidSet := ids\<rparr>"

text \<open>Equality of strings in Qt: null equals empty.\<close>

definition qstring_eq :: "qstring \<Rightarrow> qstring \<Rightarrow> bool" where
  "qstring_eq a b \<longleftrightarrow> (case a of None \<Rightarrow> [] | Some x \<Rightarrow> x) = (case b of None \<Rightarrow> [] | Some x \<Rightarrow> x)"

text \<open>The comparison of \<open>HRID\<close> in \<open>scope_p.h\<close>, member by member.\<close>

definition hrid_eq :: "hrid \<Rightarrow> hrid \<Rightarrow> bool" where
  "hrid_eq a b \<longleftrightarrow> hrid_id a = hrid_id b \<and> qstring_eq (remoteId a) (remoteId b)"

definition scope_eq :: "scope \<Rightarrow> scope \<Rightarrow> bool" where
  "scope_eq a b \<longleftrightarrow>
     selection a = selection b \<and>
     (if selection a = Uid then uidSet a = uidSet b
      else if selection a = Gid then list_all2 qstring_eq (gidSet a) (gidSet b)
      else if selection a = Rid then list_all2 qstring_eq (ridSet a) (ridSet b)
      else if selection a = HierarchicalRid then list_all2 hrid_eq (hridChain a) (hridChain b)
      else if selection a = Invalid then True
      else False)"

definition scope_isEmpty :: "scope \<Rightarrow> bool" where
  "scope_isEmpty s =
     (if selection s = Invalid then True
      else if selection s = Uid then uidSet s = []
      else if selection s = Rid then ridSet s = []
      else if selection s = HierarchicalRid then hridChain s = []
      else if selection s = Gid then gidSet s = []
      else True)"

definition scope_uid :: "scope \<Rightarrow> 64 word" where
  "scope_uid s = (case uidSet s of [x] \<Rightarrow> x | _ \<Rightarrow> -1)"

definition scope_rid :: "scope \<Rightarrow> qstring" where
  "scope_rid s = (case ridSet s of [x] \<Rightarrow> x | _ \<Rightarrow> None)"

definition scope_gid :: "scope \<Rightarrow> qstring" where
  "scope_gid s = (case gidSet s of [x] \<Rightarrow> x | _ \<Rightarrow> None)"

section \<open>Encoding\<close>

definition put_hrid :: "hrid \<Rightarrow> byte list" where
  "put_hrid h = put_qint64 (hrid_id h) @ put_string (remoteId h)"

definition get_hrid :: "hrid reader" where
  "get_hrid dev = do { (i, dev) \<leftarrow> get_qint64 dev; (r, dev) \<leftarrow> get_string dev; Some (\<lparr>hrid_id = i, remoteId = r\<rparr>, dev) }"

definition put_scope :: "scope \<Rightarrow> byte list" where
  "put_scope s = put_quint8 (selection s) @
     (if selection s = Uid then put_list put_qint64 (uidSet s)
      else if selection s = Rid then put_list put_string (ridSet s)
      else if selection s = HierarchicalRid then put_list put_hrid (hridChain s)
      else if selection s = Gid then put_list put_string (gidSet s)
      else [])"

definition get_scope :: "scope reader" where
  "get_scope dev =
     do {
       (sel, dev) \<leftarrow> get_quint8 dev;
       if sel = Uid then do { (xs, dev) \<leftarrow> get_list get_qint64 dev; Some (new_scope\<lparr>selection := sel, uidSet := xs\<rparr>, dev) }
       else if sel = Rid then do { (xs, dev) \<leftarrow> get_list get_string dev; Some (new_scope\<lparr>selection := sel, ridSet := xs\<rparr>, dev) }
       else if sel = HierarchicalRid then
         do { (xs, dev) \<leftarrow> get_list get_hrid dev; Some (new_scope\<lparr>selection := sel, hridChain := xs\<rparr>, dev) }
       else if sel = Gid then do { (xs, dev) \<leftarrow> get_list get_string dev; Some (new_scope\<lparr>selection := sel, gidSet := xs\<rparr>, dev) }
       else Some (new_scope\<lparr>selection := sel\<rparr>, dev)
     }"

section \<open>Scopes are read back\<close>

text \<open>Only the set that is selected is sent.\<close>

definition sent :: "scope \<Rightarrow> scope" where
  "sent s = new_scope\<lparr>selection := selection s,
     uidSet := if selection s = Uid then uidSet s else [],
     ridSet := if selection s = Rid then ridSet s else [],
     hridChain := if selection s = HierarchicalRid then hridChain s else [],
     gidSet := if selection s = Gid then gidSet s else []\<rparr>"

definition hrid_ok :: "hrid \<Rightarrow> bool" where
  "hrid_ok h \<longleftrightarrow> string_ok (remoteId h)"

definition scope_ok :: "scope \<Rightarrow> bool" where
  "scope_ok s \<longleftrightarrow> list_ok (\<lambda>_. True) (uidSet s) \<and> list_ok string_ok (ridSet s) \<and> list_ok hrid_ok (hridChain s) \<and>
     list_ok string_ok (gidSet s)"

interpretation hrids: codec put_hrid get_hrid hrid_ok
proof
  show "get_hrid (put_hrid h @ rest) = Some (h, rest)" if "hrid_ok h" for h rest
    using that by (cases h) (simp add: hrid_ok_def get_hrid_def put_hrid_def qint64.roundtrip qstring.roundtrip)
  show "stable_reader get_hrid" unfolding get_hrid_def by (intro stable_intros)
qed

interpretation uid_list: codec "put_list put_qint64" "get_list get_qint64" "list_ok (\<lambda>_. True)"
  by (rule qint64.list_codec)

interpretation string_list: codec "put_list put_string" "get_list get_string" "list_ok string_ok"
  by (rule qstring.list_codec)

interpretation hrid_list: codec "put_list put_hrid" "get_list get_hrid" "list_ok hrid_ok"
  by (rule hrids.list_codec)

lemma get_scope_stable: "stable_reader get_scope"
  unfolding get_scope_def by (intro stable_intros hrids.stable)

lemma scope_roundtrip: "scope_ok s \<Longrightarrow> get_scope (put_scope s @ rest) = Some (sent s, rest)"
  by (auto simp: get_scope_def put_scope_def sent_def scope_ok_def quint8.roundtrip uid_list.roundtrip
      string_list.roundtrip hrid_list.roundtrip new_scope_def simp del: One_nat_def)

interpretation sent_scopes: codec put_scope get_scope "\<lambda>s. scope_ok s \<and> sent s = s"
  using scope_roundtrip get_scope_stable by unfold_locales auto

lemma qstring_eq_refl [simp]: "qstring_eq a a"
  by (simp add: qstring_eq_def)

lemma hrid_eq_refl [simp]: "hrid_eq a a"
  by (simp add: hrid_eq_def)

section \<open>Properties\<close>

text \<open>(C40) A scope survives the protocol: for every kind of selection and sets that fit 32-bit counts, what is read back equals the
  scope by the class's own comparison, selects the same set and is empty iff it was; the bytes behind it are untouched, and a
  scope cut off anywhere is rejected.\<close>

theorem scope_stream_roundtrip:
  assumes "scope_ok s" and "selection s \<in> {Invalid, Uid, Rid, HierarchicalRid, Gid}"
  shows "\<exists>t. get_scope (put_scope s @ rest) = Some (t, rest) \<and> scope_eq s t \<and> scope_isEmpty t = scope_isEmpty s \<and>
    (\<forall>p e. put_scope s = p @ e \<and> e \<noteq> [] \<longrightarrow> get_scope p = None)"
proof (intro exI conjI)
  show "get_scope (put_scope s @ rest) = Some (sent s, rest)" by (rule scope_roundtrip [OF assms(1)])
  show "scope_eq s (sent s)" using assms(2) by (auto simp: scope_eq_def sent_def new_scope_def list.rel_refl)
  show "scope_isEmpty (sent s) = scope_isEmpty s" by (simp add: scope_isEmpty_def sent_def new_scope_def)
  have "put_scope (sent s) = put_scope s" by (simp add: put_scope_def sent_def new_scope_def)
  moreover have "scope_ok (sent s)" "sent (sent s) = sent s"
    using assms(1) by (simp_all add: scope_ok_def sent_def new_scope_def list_ok_def)
  ultimately show "\<forall>p e. put_scope s = p @ e \<and> e \<noteq> [] \<longrightarrow> get_scope p = None"
    using sent_scopes.truncated_throws [of "sent s"] by metis
qed

theorem scope_stream_roundtrip_witness:
  "\<exists>t. get_scope (put_scope (setHRidChain [\<lparr>hrid_id = 3, remoteId = Some [105]\<rparr>] (setUidSet [1, 2] new_scope)) @ [9]) = Some (t, [9]) \<and>
     scope_eq (setHRidChain [\<lparr>hrid_id = 3, remoteId = Some [105]\<rparr>] (setUidSet [1, 2] new_scope)) t"
  using scope_stream_roundtrip [of "setHRidChain [\<lparr>hrid_id = 3, remoteId = Some [105]\<rparr>] (setUidSet [1, 2] new_scope)" "[9]"]
  by (auto simp: scope_ok_def setHRidChain_def setUidSet_def new_scope_def list_ok_def hrid_ok_def string_ok_def)

text \<open>A tag that is not a selection is accepted: a stream that starts with another byte is read, without an error, as a scope
  that is empty and not even equal to itself.\<close>

theorem unknown_selection_is_accepted:
  assumes "b \<notin> {Invalid, Uid, Rid, HierarchicalRid, Gid}"
  shows "\<exists>t. get_scope (b # rest) = Some (t, rest) \<and> scope_isEmpty t \<and> \<not> scope_eq t t"
proof (intro exI conjI)
  have "put_quint8 b = [b]" by (simp add: put_int_def)
  then have "get_quint8 (b # rest) = Some (b, rest)" using quint8.roundtrip [of b rest] by (simp del: One_nat_def)
  then show "get_scope (b # rest) = Some (new_scope\<lparr>selection := b\<rparr>, rest)" using assms by (simp add: get_scope_def del: One_nat_def)
  show "scope_isEmpty (new_scope\<lparr>selection := b\<rparr>)" using assms by (simp add: scope_isEmpty_def)
  show "\<not> scope_eq (new_scope\<lparr>selection := b\<rparr>) (new_scope\<lparr>selection := b\<rparr>)" using assms by (simp add: scope_eq_def)
qed

theorem unknown_selection_is_accepted_witness:
  "\<exists>t. get_scope [3, 1] = Some (t, [1]) \<and> scope_isEmpty t \<and> \<not> scope_eq t t"
  using unknown_selection_is_accepted [of 3 "[1]"] by simp

end
