(* ===== verification/Notification.thy ===== *)
theory Notification
  imports Prelude AggregatedFetchScope "HOL-Library.Sublist"
begin

text \<open>
  The change notifications of \<open>src/private/protocol.cpp\<close>, with the members that \<open>protocol.xml\<close> gives them, and
  \<open>ChangeNotification::appendAndCompress\<close>. The lists of notifications hold shared pointers; no pointer is in two
  lists that are still changed, so a list of values does.
\<close>

section \<open>Notifications\<close>

record item_response =
  ir_id :: int
  ir_remoteId :: string
  ir_remoteRevision :: string
  ir_mimeType :: string
  ir_revision :: int
  ir_parentId :: int
  ir_gid :: string
  ir_size :: int
  ir_mTime :: int
  ir_flags :: "string list"

record cache_policy =
  cp_inherit :: bool
  cp_checkInterval :: int
  cp_cacheTimeout :: int
  cp_syncOnDemand :: bool
  cp_localParts :: "string list"

record ancestor =
  anc_id :: int
  anc_remoteId :: string
  anc_name :: string
  anc_attributes :: "string \<rightharpoonup> string"

text \<open>\<open>cr_statistics\<close> are the count, the unseen count and the size.\<close>

record collection_response =
  cr_id :: int
  cr_parentId :: int
  cr_name :: string
  cr_mimeTypes :: "string list"
  cr_remoteId :: string
  cr_remoteRevision :: string
  cr_resource :: string
  cr_statistics :: "int \<times> int \<times> int"
  cr_searchQuery :: string
  cr_searchCollections :: "int list"
  cr_ancestors :: "ancestor list"
  cr_cachePolicy :: cache_policy
  cr_attributes :: "string \<rightharpoonup> string"
  cr_enabled :: bool
  cr_displayPref :: Tristate
  cr_syncPref :: Tristate
  cr_indexPref :: Tristate
  cr_isVirtual :: bool

record tag_response =
  tr_id :: int
  tr_parentId :: int
  tr_gid :: string
  tr_type :: string
  tr_remoteId :: string
  tr_attributes :: "string \<rightharpoonup> string"

definition ancestor_new :: ancestor where
  "ancestor_new = \<lparr>anc_id = -1, anc_remoteId = [], anc_name = [], anc_attributes = Map.empty\<rparr>"

definition cache_policy_new :: cache_policy where
  "cache_policy_new = \<lparr>cp_inherit = True, cp_checkInterval = -1, cp_cacheTimeout = -1, cp_syncOnDemand = False, cp_localParts = []\<rparr>"

definition response_new :: collection_response where
  "response_new = \<lparr>cr_id = -1, cr_parentId = -1, cr_name = [], cr_mimeTypes = [], cr_remoteId = [], cr_remoteRevision = [],
     cr_resource = [], cr_statistics = (0, 0, 0), cr_searchQuery = [], cr_searchCollections = [], cr_ancestors = [],
     cr_cachePolicy = cache_policy_new, cr_attributes = Map.empty, cr_enabled = True, cr_displayPref = TUndefined,
     cr_syncPref = TUndefined, cr_indexPref = TUndefined, cr_isVirtual = False\<rparr>"

definition tag_response_new :: tag_response where
  "tag_response_new = \<lparr>tr_id = -1, tr_parentId = -1, tr_gid = [], tr_type = [], tr_remoteId = [], tr_attributes = Map.empty\<rparr>"

datatype item_op = ItemInvalidOp | ItemAdd | ItemModify | ItemMove | ItemRemove | ItemLink | ItemUnlink
  | ItemModifyFlags | ItemModifyTags

datatype collection_op = CollectionInvalidOp | CollectionAdd | CollectionModify | CollectionMove | CollectionRemove
  | CollectionSubscribe | CollectionUnsubscribe

datatype tag_op = TagInvalidOp | TagAdd | TagModify | TagRemove

datatype subscription_op = SubscriptionInvalidOp | SubscriptionAdd | SubscriptionModify | SubscriptionRemove

record item_change =
  i_operation :: item_op
  i_resource :: string
  i_parentCollection :: int
  i_parentDestCollection :: int
  i_destinationResource :: string
  itemParts :: "string set"
  addedFlags :: "string set"
  removedFlags :: "string set"
  addedTags :: "tag_response list"
  removedTags :: "tag_response list"
  mustRetrieve :: bool
  items :: "item_response list"

record collection_change =
  c_operation :: collection_op
  c_resource :: string
  c_parentCollection :: int
  c_parentDestCollection :: int
  c_destinationResource :: string
  changedParts :: "string set"
  collection :: collection_response

record tag_change =
  t_operation :: tag_op
  t_resource :: string
  tag :: tag_response

datatype change_type = NoType | ItemChanges | CollectionChanges | TagChanges | SubscriptionChanges | ChangeNotifications

record subscription_change =
  s_operation :: subscription_op
  s_subscriber :: string
  s_collections :: "int set"
  s_items :: "int set"
  s_tags :: "int set"
  s_types :: "change_type set"
  s_mimeTypes :: "string set"
  s_resources :: "string set"
  s_ignoredSessions :: "string set"
  s_allMonitored :: bool
  s_exclusive :: bool
  s_itemFetchScope :: item_scope
  s_tagFetchScope :: tag_scope
  s_collectionFetchScope :: collection_scope

datatype notification = Notification (sessionId: string) (metadata: "string list") (body: ntf_body)
and ntf_body =
    InvalidChange
  | ItemChange item_change
  | CollectionChange collection_change
  | TagChange tag_change
  | SubscriptionChange subscription_change
  | DebugChange notification "string list" int

definition isRemove :: "notification \<Rightarrow> bool" where
  "isRemove m =
     (case body m of
        ItemChange c \<Rightarrow> i_operation c = ItemRemove
      | CollectionChange c \<Rightarrow> c_operation c = CollectionRemove
      | TagChange c \<Rightarrow> t_operation c = TagRemove
      | SubscriptionChange c \<Rightarrow> s_operation c = SubscriptionRemove
      | _ \<Rightarrow> False)"

definition isMove :: "notification \<Rightarrow> bool" where
  "isMove m =
     (case body m of
        ItemChange c \<Rightarrow> i_operation c = ItemMove
      | CollectionChange c \<Rightarrow> c_operation c = CollectionMove
      | _ \<Rightarrow> False)"

definition itemsToUids :: "item_response list \<Rightarrow> int list" where
  "itemsToUids xs = map ir_id xs"

section \<open>Compression\<close>

definition same_collection :: "collection_change \<Rightarrow> collection_change \<Rightarrow> bool" where
  "same_collection cmsg it \<longleftrightarrow>
     (let msgCol = collection cmsg; itCol = collection it in
      cr_id msgCol = cr_id itCol \<and> cr_remoteId msgCol = cr_remoteId itCol \<and>
      cr_remoteRevision msgCol = cr_remoteRevision itCol \<and> cr_resource msgCol = cr_resource itCol \<and>
      c_destinationResource cmsg = c_destinationResource it \<and>
      c_parentCollection cmsg = c_parentCollection it \<and> c_parentDestCollection cmsg = c_parentDestCollection it)"

text \<open>The body of the search loop for one notification of the list: what it is replaced by when the search ends there.\<close>

definition merge_into :: "string \<Rightarrow> collection_change \<Rightarrow> notification \<Rightarrow> notification option" where
  "merge_into session cmsg x =
     (case body x of
        CollectionChange it \<Rightarrow>
          (if sessionId x = session \<and> same_collection cmsg it then
             (if c_operation it = CollectionModify
              then Some (Notification (sessionId x) (metadata x)
                     (CollectionChange (it\<lparr>changedParts := changedParts it \<union> changedParts cmsg\<rparr>)))
              else if c_operation it = CollectionAdd then Some x
              else None)
           else None)
      | _ \<Rightarrow> None)"

text \<open>The search from the end of the list (which is reversed here), with \<open>searchCounter\<close>.\<close>

definition maxCompressionSearchLength :: nat where
  "maxCompressionSearchLength = 10"

fun compress_search :: "nat \<Rightarrow> string \<Rightarrow> collection_change \<Rightarrow> notification list \<Rightarrow> notification list option" where
  "compress_search searchCounter session cmsg [] = None"
| "compress_search searchCounter session cmsg (x # xs) =
     (case merge_into session cmsg x of
        Some y \<Rightarrow> Some (y # xs)
      | None \<Rightarrow>
          (if searchCounter + 1 \<ge> maxCompressionSearchLength then None
           else map_option ((#) x) (compress_search (searchCounter + 1) session cmsg xs)))"

definition appendAndCompress :: "notification \<Rightarrow> notification list \<Rightarrow> bool \<times> notification list" where
  "appendAndCompress msg list =
     (case body msg of
        CollectionChange cmsg \<Rightarrow>
          (if c_operation cmsg = CollectionModify then
             (case compress_search 0 (sessionId msg) cmsg (rev list) of
                Some l \<Rightarrow> (False, rev l)
              | None \<Rightarrow> (True, list @ [msg]))
           else (True, list @ [msg]))
      | _ \<Rightarrow> (True, list @ [msg]))"

section \<open>What compression keeps\<close>

definition collection_modified :: "notification \<Rightarrow> bool" where
  "collection_modified m = (case body m of CollectionChange c \<Rightarrow> c_operation c = CollectionModify | _ \<Rightarrow> False)"

text \<open>A modification is told by a notification about the same collection from the same session: one that adds the
  collection, or a modification with at least the same parts.\<close>

definition told_by :: "notification \<Rightarrow> notification \<Rightarrow> bool" where
  "told_by m x =
     (case (body m, body x) of
        (CollectionChange c, CollectionChange it) \<Rightarrow>
          sessionId m = sessionId x \<and> same_collection c it \<and>
          (c_operation it = CollectionAdd \<or> c_operation it = CollectionModify \<and> changedParts c \<subseteq> changedParts it)
      | _ \<Rightarrow> False)"

definition parts_of :: "notification \<Rightarrow> string set" where
  "parts_of m = (case body m of CollectionChange c \<Rightarrow> changedParts c | _ \<Rightarrow> {})"

lemma same_collection_refl [simp]: "same_collection c c"
  by (simp add: same_collection_def)

lemma same_collection_trans: "same_collection a b \<Longrightarrow> same_collection b c \<Longrightarrow> same_collection a c"
  by (simp add: same_collection_def Let_def)

lemma merge_into_cases:
  assumes "merge_into session cmsg x = Some y"
  obtains it where "body x = CollectionChange it" "sessionId x = session" "same_collection cmsg it"
    "c_operation it = CollectionAdd" "y = x"
  | it where "body x = CollectionChange it" "sessionId x = session" "same_collection cmsg it"
    "c_operation it = CollectionModify"
    "y = Notification session (metadata x) (CollectionChange (it\<lparr>changedParts := changedParts it \<union> changedParts cmsg\<rparr>))"
  using assms by (fastforce simp: merge_into_def split: ntf_body.splits if_splits)


lemma compress_search_Some:
  "compress_search n session cmsg l = Some l' \<Longrightarrow>
   \<exists>pre x y post. l = pre @ x # post \<and> l' = pre @ y # post \<and> merge_into session cmsg x = Some y"
proof (induction n session cmsg l arbitrary: l' rule: compress_search.induct)
  case (2 n session cmsg x xs)
  show ?case
  proof (cases "merge_into session cmsg x")
    case None
    then obtain l where l: "compress_search (n + 1) session cmsg xs = Some l" "l' = x # l"
      using "2.prems" by (auto split: if_splits)
    then obtain pre y z post where "xs = pre @ y # post" "l = pre @ z # post" "merge_into session cmsg y = Some z"
      using "2.IH" [OF None] "2.prems" None by (fastforce split: if_splits)
    then have "x # xs = (x # pre) @ y # post \<and> l' = (x # pre) @ z # post \<and> merge_into session cmsg y = Some z"
      using l by simp
    then show ?thesis by blast
  next
    case (Some y)
    then have "x # xs = [] @ x # xs \<and> l' = [] @ y # xs" using "2.prems" by simp
    then show ?thesis using Some by blast
  qed
qed simp

lemma compress_search_None:
  "n < maxCompressionSearchLength \<Longrightarrow> compress_search n session cmsg l = None \<longleftrightarrow>
   (\<forall>x \<in> set (take (maxCompressionSearchLength - n) l). merge_into session cmsg x = None)"
proof (induction n session cmsg l rule: compress_search.induct)
  case (2 n session cmsg x xs)
  have take: "take (maxCompressionSearchLength - n) (x # xs) = x # take (maxCompressionSearchLength - (n + 1)) xs"
    using "2.prems" by (simp add: take_Cons')
  show ?case
  proof (cases "merge_into session cmsg x")
    case None
    then show ?thesis using "2.IH" [OF None] "2.prems" unfolding take
      by (cases "n + 1 \<ge> maxCompressionSearchLength") (simp_all add: maxCompressionSearchLength_def)
  qed (simp add: take)
qed simp

lemma merge_into_modified: "merge_into session cmsg x = Some y \<Longrightarrow> collection_modified y = collection_modified x \<and>
    (\<not> collection_modified x \<longrightarrow> y = x)"
  by (erule merge_into_cases) (simp_all add: collection_modified_def)

lemma merge_into_told: "merge_into session cmsg x = Some y \<Longrightarrow> told_by m x \<Longrightarrow> told_by m y"
  by (erule merge_into_cases) (auto simp: told_by_def same_collection_def split: ntf_body.splits)

lemma told_by_merge:
  "merge_into (sessionId m) c x = Some y \<Longrightarrow> body m = CollectionChange c \<Longrightarrow> told_by m y"
  by (erule merge_into_cases) (auto simp: told_by_def same_collection_def)

text \<open>One step: the list grows by the notification, or one of its members takes the notification in.\<close>

lemma appendAndCompress_cases:
  obtains "appendAndCompress msg l = (True, l @ [msg])"
  | c pre x y post where "collection_modified msg" "body msg = CollectionChange c" "l = pre @ x # post"
    "merge_into (sessionId msg) c x = Some y" "appendAndCompress msg l = (False, pre @ y # post)"
proof (cases "appendAndCompress msg l = (True, l @ [msg])")
  case False
  then obtain c l' where c: "body msg = CollectionChange c" "c_operation c = CollectionModify"
    and l': "compress_search 0 (sessionId msg) c (rev l) = Some l'" and eq: "appendAndCompress msg l = (False, rev l')"
    by (auto simp: appendAndCompress_def split: ntf_body.splits if_splits option.splits)
  from compress_search_Some [OF l'] obtain pre x y post where *: "rev l = pre @ x # post" "l' = pre @ y # post"
    "merge_into (sessionId msg) c x = Some y" by blast
  from *(1) have "l = rev post @ x # rev pre" by (metis rev_rev_ident rev_append rev.simps(2) append_assoc append_Cons append_Nil)
  then show ?thesis using that(2) [of c "rev post" x "rev pre" y] c eq * by (simp add: collection_modified_def)
qed (use that in blast)

lemma compress_keeps_others:
  "filter (\<lambda>x. \<not> collection_modified x) (snd (appendAndCompress msg l)) =
   filter (\<lambda>x. \<not> collection_modified x) (l @ [msg])"
  by (rule appendAndCompress_cases [of msg l]) (auto dest: merge_into_modified)

lemma compress_told:
  "x \<in> set l \<Longrightarrow> told_by m x \<Longrightarrow> \<exists>y \<in> set (snd (appendAndCompress msg l)). told_by m y"
  by (rule appendAndCompress_cases [of msg l]) (auto dest: merge_into_told)

lemma told_by_self: "collection_modified m \<Longrightarrow> told_by m m"
  by (auto simp: told_by_def collection_modified_def split: ntf_body.splits)

lemma compress_tells: "collection_modified msg \<Longrightarrow> \<exists>y \<in> set (snd (appendAndCompress msg l)). told_by msg y"
  by (rule appendAndCompress_cases [of msg l]) (auto intro: told_by_self told_by_merge)

text \<open>Where the parts of a notification in the list come from.\<close>

definition same_source :: "notification \<Rightarrow> notification \<Rightarrow> bool" where
  "same_source m x =
     (case (body m, body x) of
        (CollectionChange c, CollectionChange it) \<Rightarrow> sessionId m = sessionId x \<and> same_collection c it
      | _ \<Rightarrow> False)"

lemma parts_of_source: "p \<in> parts_of x \<Longrightarrow> same_source x x"
  by (auto simp: parts_of_def same_source_def split: ntf_body.splits)

lemma merge_into_parts:
  "merge_into (sessionId msg) c x = Some y \<Longrightarrow> body msg = CollectionChange c \<Longrightarrow> p \<in> parts_of y \<Longrightarrow>
   (p \<in> parts_of x \<and> same_source x y) \<or> (p \<in> parts_of msg \<and> same_source msg y)"
  by (erule merge_into_cases) (auto simp: parts_of_def same_source_def same_collection_def)

lemma same_source_trans: "same_source a b \<Longrightarrow> same_source b c \<Longrightarrow> same_source a c"
  by (auto simp: same_source_def split: ntf_body.splits intro: same_collection_trans)

lemma compress_parts:
  "y \<in> set (snd (appendAndCompress msg l)) \<Longrightarrow> p \<in> parts_of y \<Longrightarrow>
   \<exists>m \<in> set (l @ [msg]). p \<in> parts_of m \<and> same_source m y"
proof (rule appendAndCompress_cases [of msg l])
  fix c pre x z post
  assume *: "collection_modified msg" "body msg = CollectionChange c" "l = pre @ x # post"
    "merge_into (sessionId msg) c x = Some z" "appendAndCompress msg l = (False, pre @ z # post)"
    and y: "y \<in> set (snd (appendAndCompress msg l))" "p \<in> parts_of y"
  show ?thesis
  proof (cases "y = z")
    case True
    then show ?thesis using merge_into_parts [OF *(4, 2), of p] y *(3) by auto
  next
    case False
    then have "y \<in> set l" using * y by auto
    then show ?thesis using parts_of_source [OF y(2)] y(2) by auto
  qed
qed (use parts_of_source in auto)

text \<open>A whole sequence of notifications.\<close>

definition compress_all :: "notification list \<Rightarrow> notification list \<Rightarrow> notification list" where
  "compress_all ms l = fold (\<lambda>m l. snd (appendAndCompress m l)) ms l"

lemma compress_all_simps [simp]:
  "compress_all [] l = l" "compress_all (m # ms) l = compress_all ms (snd (appendAndCompress m l))"
  "compress_all (ms @ ns) l = compress_all ns (compress_all ms l)"
  by (simp_all add: compress_all_def)

lemma compress_all_others:
  "filter (\<lambda>x. \<not> collection_modified x) (compress_all ms l) = filter (\<lambda>x. \<not> collection_modified x) (l @ ms)"
  by (induction ms arbitrary: l) (simp_all add: compress_keeps_others)

lemma compress_all_told: "x \<in> set l \<Longrightarrow> told_by m x \<Longrightarrow> \<exists>y \<in> set (compress_all ms l). told_by m y"
proof (induction ms arbitrary: l x)
  case (Cons a ms)
  from compress_told [OF Cons.prems] show ?case using Cons.IH by auto
qed auto

lemma compress_all_tells: "m \<in> set ms \<Longrightarrow> collection_modified m \<Longrightarrow> \<exists>y \<in> set (compress_all ms l). told_by m y"
proof (induction ms arbitrary: l)
  case (Cons a ms)
  show ?case
  proof (cases "m = a")
    case True
    with compress_tells [OF Cons.prems(2), of l] show ?thesis by (auto intro: compress_all_told)
  qed (use Cons in auto)
qed simp

lemma compress_all_parts:
  "y \<in> set (compress_all ms l) \<Longrightarrow> p \<in> parts_of y \<Longrightarrow> \<exists>m \<in> set (l @ ms). p \<in> parts_of m \<and> same_source m y"
proof (induction ms arbitrary: l)
  case Nil
  then show ?case using parts_of_source by auto
next
  case (Cons a ms)
  from Cons obtain m where m: "m \<in> set (snd (appendAndCompress a l) @ ms)" "p \<in> parts_of m" "same_source m y"
    by fastforce
  show ?case
  proof (cases "m \<in> set ms")
    case False
    with m(1) have "m \<in> set (snd (appendAndCompress a l))" by auto
    from compress_parts [OF this m(2)] obtain n where "n \<in> set (l @ [a])" "p \<in> parts_of n" "same_source n m" by blast
    then show ?thesis using same_source_trans [OF _ m(3)] by auto
  qed (use m in auto)
qed

text \<open>A notification without the parts that it names as changed: what a merge must not touch.\<close>

definition apart_from_parts :: "notification \<Rightarrow> notification" where
  "apart_from_parts m =
     (case body m of
        CollectionChange c \<Rightarrow>
          if c_operation c = CollectionModify then Notification (sessionId m) (metadata m) (CollectionChange (c\<lparr>changedParts := {}\<rparr>)) else m
      | _ \<Rightarrow> m)"

lemma merge_into_apart: "merge_into session cmsg x = Some y \<Longrightarrow> apart_from_parts y = apart_from_parts x"
  by (erule merge_into_cases) (auto simp: apart_from_parts_def)

lemma compress_apart: "subseq (map apart_from_parts (snd (appendAndCompress m l))) (map apart_from_parts (l @ [m]))"
  by (rule appendAndCompress_cases [of m l]) (auto simp: merge_into_apart)

lemma compress_all_apart: "subseq (map apart_from_parts (compress_all ms l)) (map apart_from_parts (l @ ms))"
proof (induction ms arbitrary: l)
  case (Cons m ms)
  have "subseq (map apart_from_parts (snd (appendAndCompress m l)) @ map apart_from_parts ms) (map apart_from_parts (l @ [m]) @ map apart_from_parts ms)"
    using compress_apart [of m l] subseq_order.order_refl by (rule list_emb_append_mono)
  then show ?case using Cons [of "snd (appendAndCompress m l)"] subseq_order.order_trans by fastforce
qed simp

section \<open>Properties\<close>

text \<open>(C37) What compression keeps, of a sequence of notifications that is appended to an empty list. All notifications that are no collection modifications
  are in the list, in their order. The list is the sequence without some of its collection modifications: what stays is in its place and has its session,
  metadata and payload, only the parts that a modification names as changed may be more. Every modification of a collection is told by
  a notification in the list about the same collection from the same session, which adds it or names at least its parts; and
  every part that is named was named by a notification of the sequence about that collection. The payload of a modification that is merged into an older
  one is not kept (\<open>merged_payload_is_stale\<close>).\<close>

theorem compression_is_faithful:
  "filter (\<lambda>x. \<not> collection_modified x) (compress_all ms []) = filter (\<lambda>x. \<not> collection_modified x) ms \<and>
   subseq (map apart_from_parts (compress_all ms [])) (map apart_from_parts ms) \<and>
   list_all (\<lambda>m. collection_modified m \<longrightarrow> list_ex (told_by m) (compress_all ms [])) ms \<and>
   list_all (\<lambda>y. parts_of y \<subseteq> (\<Union>m \<in> {m \<in> set ms. same_source m y}. parts_of m)) (compress_all ms [])"
proof -
  have "parts_of y \<subseteq> (\<Union>m \<in> {m \<in> set ms. same_source m y}. parts_of m)" if "y \<in> set (compress_all ms [])" for y
    using compress_all_parts [OF that] by fastforce
  then show ?thesis
    using compress_all_others [of ms "[]"] compress_all_tells [of _ ms "[]"] compress_all_apart [of ms "[]"]
    by (auto simp: list_all_iff list_ex_iff)
qed

text \<open>Two renames of a collection become one notification, which says that the name has changed and has the first of the two names.\<close>

lemma merged_payload_is_stale:
  "let rename = \<lambda>n. Notification [] [] (CollectionChange \<lparr>c_operation = CollectionModify, c_resource = [], c_parentCollection = 0,
         c_parentDestCollection = -1, c_destinationResource = [], changedParts = {''NAME''}, collection = response_new\<lparr>cr_id := 5, cr_name := n\<rparr>\<rparr>)
   in compress_all [rename ''old'', rename ''new''] [] = [rename ''old'']"
  by (simp add: appendAndCompress_def merge_into_def same_collection_def maxCompressionSearchLength_def Let_def)

theorem compression_is_faithful_witness:
  "let c = \<lparr>c_operation = CollectionModify, c_resource = [], c_parentCollection = 0, c_parentDestCollection = -1,
       c_destinationResource = [], changedParts = {''NAME''},
       collection = response_new\<lparr>cr_id := 5\<rparr>\<rparr>;
     ms = [Notification [] [] (CollectionChange c), Notification [] [] (CollectionChange (c\<lparr>changedParts := {''ENABLED''}\<rparr>))]
   in list_all (\<lambda>m. list_ex (told_by m) (compress_all ms [])) ms \<and> length (compress_all ms []) = 1"
proof -
  let ?c = "\<lparr>c_operation = CollectionModify, c_resource = [], c_parentCollection = 0, c_parentDestCollection = -1,
       c_destinationResource = [], changedParts = {''NAME''},
       collection = response_new\<lparr>cr_id := 5\<rparr>\<rparr>"
  let ?ms = "[Notification [] [] (CollectionChange ?c),
    Notification [] [] (CollectionChange (?c\<lparr>changedParts := {''ENABLED''}\<rparr>))]"
  have "length (compress_all ?ms []) = 1"
    by (simp add: appendAndCompress_def merge_into_def same_collection_def)
  then show ?thesis using compression_is_faithful [of ?ms]
    by (simp add: Let_def collection_modified_def del: compress_all_simps)
qed

text \<open>The search is bounded: a modification is merged exactly when one of the last ten notifications of the list adds or
  modifies the same collection on behalf of the same session; otherwise it is appended.\<close>

theorem compression_search_bound:
  assumes "body msg = CollectionChange c" and "c_operation c = CollectionModify"
  shows "fst (appendAndCompress msg l) = list_all (\<lambda>x. merge_into (sessionId msg) c x = None) (take 10 (rev l)) \<and>
    (fst (appendAndCompress msg l) \<longrightarrow> snd (appendAndCompress msg l) = l @ [msg])"
  using assms compress_search_None [of 0 "sessionId msg" c "rev l"]
  by (auto simp: appendAndCompress_def list_all_iff maxCompressionSearchLength_def split: option.splits)

end
