(* ===== verification/NotificationSubscriber.thy ===== *)
theory NotificationSubscriber
  imports Notification
begin

text \<open>
  The filters of \<open>src/server/notificationsubscriber.cpp\<close>: which notifications a subscriber accepts, and how a
  \<open>ModifySubscription\<close> command changes what it monitors. What a subscriber does to its manager is in the theory of the
  manager. \<open>written\<close> are the queued calls of \<open>writeNotification\<close>.
\<close>

section \<open>State\<close>

record subscriber =
  mSubscriber :: string
  mMonitoredCollections :: "int set"
  mMonitoredItems :: "int set"
  mMonitoredTags :: "int set"
  mMonitoredTypes :: "change_type set"
  mMonitoredMimeTypes :: "string set"
  mMonitoredResources :: "string set"
  mIgnoredSessions :: "string set"
  mSession :: string
  mItemFetchScope :: item_scope
  mCollectionFetchScope :: collection_scope
  mTagFetchScope :: tag_scope
  mAllMonitored :: bool
  mExclusive :: bool
  mNotificationDebugging :: bool
  written :: "notification list"

definition new_subscriber :: subscriber where
  "new_subscriber = \<lparr>mSubscriber = [], mMonitoredCollections = {}, mMonitoredItems = {}, mMonitoredTags = {},
     mMonitoredTypes = {}, mMonitoredMimeTypes = {}, mMonitoredResources = {}, mIgnoredSessions = {}, mSession = [],
     mItemFetchScope = default_item_scope, mCollectionFetchScope = default_collection_scope,
     mTagFetchScope = default_tag_scope, mAllMonitored = False, mExclusive = False, mNotificationDebugging = False,
     written = []\<rparr>"

section \<open>Changing the subscription\<close>

datatype modified_part = ModCollections | ModItems | ModTags | ModTypes | ModResources | ModMimeTypes | ModAllFlag
  | ModExclusiveFlag | ModSessions | ModAdd | ModRemove | ModItemFetchScope | ModCollectionFetchScope | ModTagFetchScope

record modify_command =
  modifiedParts :: "modified_part set"
  startMonitoringCollections :: "int list"
  stopMonitoringCollections :: "int list"
  startMonitoringItems :: "int list"
  stopMonitoringItems :: "int list"
  startMonitoringTags :: "int list"
  stopMonitoringTags :: "int list"
  startMonitoringTypes :: "change_type list"
  stopMonitoringTypes :: "change_type list"
  startMonitoringResources :: "string list"
  stopMonitoringResources :: "string list"
  startMonitoringMimeTypes :: "string list"
  stopMonitoringMimeTypes :: "string list"
  startIgnoringSessions :: "string list"
  stopIgnoringSessions :: "string list"
  allMonitored :: bool
  isExclusive :: bool
  itemFetchScope :: item_scope
  collectionFetchScope :: collection_scope
  tagFetchScope :: tag_scope

text \<open>\<open>START_MONITORING\<close> and \<open>STOP_MONITORING\<close> test whether one of two flags is set; \<open>APPEND\<close> and \<open>REMOVE\<close> are loops
  over the lists.\<close>

definition start_monitoring :: "modified_part \<Rightarrow> modify_command \<Rightarrow> bool" where
  "start_monitoring p cmd \<longleftrightarrow> p \<in> modifiedParts cmd \<or> ModAdd \<in> modifiedParts cmd"

definition stop_monitoring :: "modified_part \<Rightarrow> modify_command \<Rightarrow> bool" where
  "stop_monitoring p cmd \<longleftrightarrow> p \<in> modifiedParts cmd \<or> ModRemove \<in> modifiedParts cmd"

definition change_set :: "modified_part \<Rightarrow> modify_command \<Rightarrow> 'a list \<Rightarrow> 'a list \<Rightarrow> 'a set \<Rightarrow> 'a set" where
  "change_set p cmd start stop A =
     (let A = (if start_monitoring p cmd then fold insert start A else A)
      in if stop_monitoring p cmd then fold (\<lambda>x A. A - {x}) stop A else A)"

text \<open>The MIME types go through the MIME database of Qt, which is the parameter \<open>canonical\<close>.\<close>

definition modify_filters :: "(string \<Rightarrow> string) \<Rightarrow> modify_command \<Rightarrow> subscriber \<Rightarrow> subscriber" where
  "modify_filters canonical cmd b =
     (let b = b\<lparr>mMonitoredTypes := change_set ModTypes cmd (startMonitoringTypes cmd) (stopMonitoringTypes cmd) (mMonitoredTypes b)\<rparr>;
          b = b\<lparr>mMonitoredCollections := change_set ModCollections cmd (startMonitoringCollections cmd)
                  (stopMonitoringCollections cmd) (mMonitoredCollections b)\<rparr>;
          b = b\<lparr>mMonitoredItems := change_set ModItems cmd (startMonitoringItems cmd) (stopMonitoringItems cmd) (mMonitoredItems b)\<rparr>;
          b = b\<lparr>mMonitoredTags := change_set ModTags cmd (startMonitoringTags cmd) (stopMonitoringTags cmd) (mMonitoredTags b)\<rparr>;
          b = b\<lparr>mMonitoredResources := change_set ModResources cmd (startMonitoringResources cmd)
                  (stopMonitoringResources cmd) (mMonitoredResources b)\<rparr>;
          b = b\<lparr>mMonitoredMimeTypes := change_set ModMimeTypes cmd (map canonical (startMonitoringMimeTypes cmd))
                  (map canonical (stopMonitoringMimeTypes cmd)) (mMonitoredMimeTypes b)\<rparr>;
          b = b\<lparr>mIgnoredSessions := change_set ModSessions cmd (startIgnoringSessions cmd) (stopIgnoringSessions cmd) (mIgnoredSessions b)\<rparr>;
          b = (if ModAllFlag \<in> modifiedParts cmd then b\<lparr>mAllMonitored := allMonitored cmd\<rparr> else b)
      in if ModExclusiveFlag \<in> modifiedParts cmd then b\<lparr>mExclusive := isExclusive cmd\<rparr> else b)"

definition subscription_notification :: "subscription_op \<Rightarrow> subscriber \<Rightarrow> notification" where
  "subscription_notification op b = Notification (mSession b) [] (SubscriptionChange
     \<lparr>s_operation = op, s_subscriber = mSubscriber b, s_collections = {}, s_items = {}, s_tags = {}, s_types = {},
      s_mimeTypes = {}, s_resources = {}, s_ignoredSessions = {}, s_allMonitored = False, s_exclusive = False,
      s_itemFetchScope = default_item_scope, s_tagFetchScope = default_tag_scope,
      s_collectionFetchScope = default_collection_scope\<rparr>)"

definition toChangeNotification :: "subscription_op \<Rightarrow> subscriber \<Rightarrow> notification" where
  "toChangeNotification op b = Notification (mSession b) [] (SubscriptionChange
     \<lparr>s_operation = op, s_subscriber = mSubscriber b, s_collections = mMonitoredCollections b, s_items = mMonitoredItems b,
      s_tags = mMonitoredTags b, s_types = mMonitoredTypes b, s_mimeTypes = mMonitoredMimeTypes b,
      s_resources = mMonitoredResources b, s_ignoredSessions = mIgnoredSessions b, s_allMonitored = mAllMonitored b,
      s_exclusive = mExclusive b, s_itemFetchScope = mItemFetchScope b, s_tagFetchScope = mTagFetchScope b,
      s_collectionFetchScope = mCollectionFetchScope b\<rparr>)"

section \<open>Filters\<close>

definition isCollectionMonitored :: "subscriber \<Rightarrow> int \<Rightarrow> bool" where
  "isCollectionMonitored b i \<longleftrightarrow> (if i < 0 then False else i \<in> mMonitoredCollections b \<or> 0 \<in> mMonitoredCollections b)"

definition isMimeTypeMonitored :: "subscriber \<Rightarrow> string \<Rightarrow> bool" where
  "isMimeTypeMonitored b mimeType \<longleftrightarrow>
     (if mimeType = ''text/directory'' then ''text/vcard'' \<in> mMonitoredMimeTypes b else mimeType \<in> mMonitoredMimeTypes b)"

definition item_destination_monitored :: "subscriber \<Rightarrow> item_change \<Rightarrow> bool" where
  "item_destination_monitored b msg \<longleftrightarrow>
     (if i_operation msg \<noteq> ItemMove then False else i_destinationResource msg \<in> mMonitoredResources b)"

definition collection_destination_monitored :: "subscriber \<Rightarrow> collection_change \<Rightarrow> bool" where
  "collection_destination_monitored b msg \<longleftrightarrow>
     (if c_operation msg \<noteq> CollectionMove then False else c_destinationResource msg \<in> mMonitoredResources b)"

definition acceptsItemNotification :: "subscriber \<Rightarrow> item_change \<Rightarrow> bool" where
  "acceptsItemNotification b msg \<longleftrightarrow>
     (if items msg = [] then False
      else if mAllMonitored b then True
      else if mMonitoredTypes b \<noteq> {} \<and> ItemChanges \<notin> mMonitoredTypes b then False
      else if mMonitoredResources b \<noteq> {} \<or> mMonitoredMimeTypes b \<noteq> {} then
        (if i_resource msg \<in> mMonitoredResources b then True
         else if item_destination_monitored b msg then True
         else list_ex (\<lambda>i. isMimeTypeMonitored b (ir_mimeType i)) (items msg))
      else if list_ex (\<lambda>i. ir_id i \<in> mMonitoredItems b) (items msg) then True
      else if isCollectionMonitored b (i_parentCollection msg) then True
      else isCollectionMonitored b (i_parentDestCollection msg))"

definition acceptsCollectionNotification :: "subscriber \<Rightarrow> string list \<Rightarrow> collection_change \<Rightarrow> bool" where
  "acceptsCollectionNotification b meta msg \<longleftrightarrow>
     (if cr_id (collection msg) < 0 then False
      else if ''DISABLED'' \<in> set meta \<and> c_operation msg \<noteq> CollectionUnsubscribe \<and> ''ENABLED'' \<notin> changedParts msg
      then mExclusive b
      else if mAllMonitored b then True
      else if mMonitoredTypes b \<noteq> {} \<and> CollectionChanges \<notin> mMonitoredTypes b then False
      else
        (let resourceMatches = c_resource msg \<in> mMonitoredResources b \<or> collection_destination_monitored b msg in
         if mMonitoredResources b \<noteq> {} \<and> (mMonitoredMimeTypes b = {} \<or> resourceMatches) then resourceMatches
         else if isCollectionMonitored b (cr_id (collection msg)) then True
         else isCollectionMonitored b (c_parentCollection msg) \<or> isCollectionMonitored b (c_parentDestCollection msg)))"

definition acceptsTagNotification :: "subscriber \<Rightarrow> tag_change \<Rightarrow> bool" where
  "acceptsTagNotification b msg \<longleftrightarrow>
     (if tr_id (tag msg) < 0 then False
      else if t_operation msg = TagRemove \<and> mIgnoredSessions b \<noteq> {} \<and> t_resource msg = [] then False
      else if t_operation msg = TagRemove \<and> t_resource msg \<noteq> [] \<and> t_resource msg \<notin> mIgnoredSessions b then False
      else if mAllMonitored b then True
      else if mMonitoredTypes b \<noteq> {} \<and> TagChanges \<notin> mMonitoredTypes b then False
      else if mMonitoredTags b = {} then True
      else if tr_id (tag msg) \<in> mMonitoredTags b then True
      else True)"

definition acceptsSubscriptionNotification :: "subscriber \<Rightarrow> bool" where
  "acceptsSubscriptionNotification b \<longleftrightarrow> SubscriptionChanges \<in> mMonitoredTypes b"

definition acceptsDebugChangeNotification :: "subscriber \<Rightarrow> notification \<Rightarrow> bool" where
  "acceptsDebugChangeNotification b ntf \<longleftrightarrow>
     (case body ntf of DebugChange _ _ _ \<Rightarrow> False | _ \<Rightarrow> ChangeNotifications \<in> mMonitoredTypes b)"

definition acceptsNotification :: "subscriber \<Rightarrow> notification \<Rightarrow> bool" where
  "acceptsNotification b msg \<longleftrightarrow>
     (if mSubscriber b = [] then False
      else if sessionId msg \<in> mIgnoredSessions b then False
      else
        (case body msg of
           ItemChange c \<Rightarrow> acceptsItemNotification b c
         | CollectionChange c \<Rightarrow> acceptsCollectionNotification b (metadata msg) c
         | TagChange c \<Rightarrow> acceptsTagNotification b c
         | SubscriptionChange c \<Rightarrow> acceptsSubscriptionNotification b
         | DebugChange ntf listeners timestamp \<Rightarrow> acceptsDebugChangeNotification b ntf
         | InvalidChange \<Rightarrow> False))"

lemmas accepts_defs = acceptsNotification_def acceptsItemNotification_def acceptsCollectionNotification_def
  acceptsTagNotification_def acceptsSubscriptionNotification_def acceptsDebugChangeNotification_def
  isCollectionMonitored_def isMimeTypeMonitored_def item_destination_monitored_def collection_destination_monitored_def

section \<open>What the filters promise\<close>

lemma fold_insert_set: "fold insert xs A = set xs \<union> A"
  by (induction xs arbitrary: A) auto

lemma fold_remove_set: "fold (\<lambda>x A. A - {x}) xs A = A - set xs"
  by (induction xs arbitrary: A) auto

lemma change_set_eq:
  "change_set p cmd start stop A =
   (A \<union> (if start_monitoring p cmd then set start else {})) - (if stop_monitoring p cmd then set stop else {})"
  by (auto simp: change_set_def Let_def fold_insert_set fold_remove_set)

lemma accepts_written [simp]: "acceptsNotification (b\<lparr>written := w\<rparr>) m = acceptsNotification b m"
  by (cases "body m") (simp_all add: accepts_defs split: ntf_body.split)

text \<open>A subscriber that monitors more collections and items and is the same otherwise.\<close>

definition more_monitored :: "subscriber \<Rightarrow> subscriber \<Rightarrow> bool" where
  "more_monitored b b' \<longleftrightarrow> mMonitoredCollections b \<subseteq> mMonitoredCollections b' \<and> mMonitoredItems b \<subseteq> mMonitoredItems b' \<and>
     b' = b\<lparr>mMonitoredCollections := mMonitoredCollections b', mMonitoredItems := mMonitoredItems b'\<rparr>"

lemma more_monitored_fields:
  assumes "more_monitored b b'"
  shows "mSubscriber b' = mSubscriber b" "mIgnoredSessions b' = mIgnoredSessions b" "mMonitoredTypes b' = mMonitoredTypes b"
    "mAllMonitored b' = mAllMonitored b" "mExclusive b' = mExclusive b" "mMonitoredResources b' = mMonitoredResources b"
    "mMonitoredMimeTypes b' = mMonitoredMimeTypes b" "mMonitoredTags b' = mMonitoredTags b"
proof -
  have eq: "b' = b\<lparr>mMonitoredCollections := mMonitoredCollections b', mMonitoredItems := mMonitoredItems b'\<rparr>"
    using assms by (simp add: more_monitored_def)
  show "mSubscriber b' = mSubscriber b" "mIgnoredSessions b' = mIgnoredSessions b" "mMonitoredTypes b' = mMonitoredTypes b"
    "mAllMonitored b' = mAllMonitored b" "mExclusive b' = mExclusive b" "mMonitoredResources b' = mMonitoredResources b"
    "mMonitoredMimeTypes b' = mMonitoredMimeTypes b" "mMonitoredTags b' = mMonitoredTags b"
    by (subst eq, simp)+
qed

lemma isCollectionMonitored_mono: "more_monitored b b' \<Longrightarrow> isCollectionMonitored b i \<Longrightarrow> isCollectionMonitored b' i"
  by (auto simp: more_monitored_def isCollectionMonitored_def)

lemma acceptsItemNotification_mono:
  assumes "more_monitored b b'" and "acceptsItemNotification b c"
  shows "acceptsItemNotification b' c"
proof -
  note mono = isCollectionMonitored_mono [OF assms(1), of "i_parentCollection c"]
    isCollectionMonitored_mono [OF assms(1), of "i_parentDestCollection c"]
  have "list_ex (\<lambda>i. ir_id i \<in> mMonitoredItems b) (items c) \<Longrightarrow> list_ex (\<lambda>i. ir_id i \<in> mMonitoredItems b') (items c)"
    using assms(1) by (auto simp: more_monitored_def list_ex_iff)
  moreover have "item_destination_monitored b' c = item_destination_monitored b c"
    "isMimeTypeMonitored b' = isMimeTypeMonitored b"
    by (simp_all add: fun_eq_iff item_destination_monitored_def isMimeTypeMonitored_def more_monitored_fields [OF assms(1)])
  ultimately show ?thesis using assms(2) mono
    unfolding acceptsItemNotification_def more_monitored_fields [OF assms(1)]
    by (simp only: split: if_split_asm) (simp_all, blast?)
qed

lemma acceptsCollectionNotification_mono:
  assumes "more_monitored b b'" and "acceptsCollectionNotification b meta c"
  shows "acceptsCollectionNotification b' meta c"
proof -
  note mono = isCollectionMonitored_mono [OF assms(1), of "cr_id (collection c)"]
    isCollectionMonitored_mono [OF assms(1), of "c_parentCollection c"]
    isCollectionMonitored_mono [OF assms(1), of "c_parentDestCollection c"]
  have "collection_destination_monitored b' c = collection_destination_monitored b c"
    by (simp add: collection_destination_monitored_def more_monitored_fields [OF assms(1)])
  then show ?thesis using assms(2) mono
    unfolding acceptsCollectionNotification_def more_monitored_fields [OF assms(1)] Let_def
    by (simp only: split: if_split_asm) (simp_all, blast?)
qed

lemma acceptsNotification_mono:
  assumes "more_monitored b b'" and "acceptsNotification b m"
  shows "acceptsNotification b' m"
  using assms acceptsItemNotification_mono [OF assms(1)] acceptsCollectionNotification_mono [OF assms(1)]
  by (cases "body m") (auto simp: acceptsNotification_def more_monitored_fields [OF assms(1)] acceptsTagNotification_def
      acceptsSubscriptionNotification_def acceptsDebugChangeNotification_def split: if_split_asm ntf_body.splits)

section \<open>Properties\<close>

text \<open>Monitoring more collections and items never loses a notification: a command that only starts monitoring collections
  and items leaves every notification accepted that was accepted before it.\<close>

theorem start_monitoring_is_monotone:
  assumes "acceptsNotification b m" and "modifiedParts cmd \<subseteq> {ModCollections, ModItems, ModAdd}"
    and "stopMonitoringCollections cmd = []" and "stopMonitoringItems cmd = []"
    and "startMonitoringTypes cmd = []" and "startMonitoringTags cmd = []" and "startMonitoringResources cmd = []"
    and "startMonitoringMimeTypes cmd = []" and "startIgnoringSessions cmd = []"
  shows "acceptsNotification (modify_filters canonical cmd b) m"
proof -
  have off: "\<not> stop_monitoring p cmd" if "p \<notin> {ModCollections, ModItems, ModAdd}" for p
    using assms(2) that by (auto simp: stop_monitoring_def)
  have flags: "ModAllFlag \<notin> modifiedParts cmd" "ModExclusiveFlag \<notin> modifiedParts cmd" using assms(2) by auto
  have "modify_filters canonical cmd b =
      b\<lparr>mMonitoredCollections := mMonitoredCollections (modify_filters canonical cmd b),
        mMonitoredItems := mMonitoredItems (modify_filters canonical cmd b)\<rparr>"
    using assms(3-) off flags by (simp add: modify_filters_def change_set_eq)
  moreover have "mMonitoredCollections b \<subseteq> mMonitoredCollections (modify_filters canonical cmd b)"
    "mMonitoredItems b \<subseteq> mMonitoredItems (modify_filters canonical cmd b)"
    using assms(3, 4) by (auto simp: modify_filters_def Let_def change_set_eq)
  ultimately have "more_monitored b (modify_filters canonical cmd b)" unfolding more_monitored_def by blast
  then show ?thesis using assms(1) by (rule acceptsNotification_mono)
qed

end
