(* ===== verification/NotificationManager.thy ===== *)
theory NotificationManager
  imports NotificationSubscriber Transition "HOL-Library.Multiset"
begin

text \<open>
  \<open>src/server/notificationmanager.cpp\<close> with the operations of \<open>notificationsubscriber.cpp\<close> that change the manager: the
  pending notifications and their timer, the thread pool that hands them to the subscribers, the aggregated fetch scopes,
  and the subscribers as objects that outlive their connection until their deferred deletion.
\<close>

section \<open>State\<close>

text \<open>\<open>objects\<close> are the live subscribers by their identity; a \<open>QPointer\<close> to another identity is null. \<open>pool\<close> are the
  runnables that have not finished, in the order they were started, each with the notifications it has still to deliver;
  \<open>posted\<close> are the queued calls of \<open>notify\<close>, \<open>doomed\<close> the subscribers with a pending \<open>deleteLater\<close>.\<close>

record manager =
  objects :: "nat \<rightharpoonup> subscriber"
  mSubscribers :: "nat list"
  mNotifications :: "notification list"
  timer_active :: bool
  mDebugNotifications :: int
  pool :: "(nat \<times> notification list) list"
  posted :: "(nat \<times> notification) list"
  doomed :: "nat list"
  cfs :: collection_agg
  tfs :: tag_agg
  ifs :: item_agg
  next_id :: nat

definition manager_init :: manager where
  "manager_init = \<lparr>objects = Map.empty, mSubscribers = [], mNotifications = [], timer_active = False,
     mDebugNotifications = 0, pool = [], posted = [], doomed = [], cfs = collection_new, tfs = tag_new, ifs = item_new,
     next_id = 0\<rparr>"

section \<open>Operations\<close>

text \<open>The manager and the constructor of the subscriber.\<close>

definition registerConnection :: "manager \<Rightarrow> manager" where
  "registerConnection s =
     s\<lparr>objects := (objects s)(next_id s \<mapsto> new_subscriber), next_id := Suc (next_id s),
       ifs := item_addSubscriber (ifs s), cfs := collection_addSubscriber (cfs s), tfs := tag_addSubscriber (tfs s),
       mSubscribers := mSubscribers s @ [next_id s]\<rparr>"

definition forgetSubscriber :: "nat \<Rightarrow> manager \<Rightarrow> manager" where
  "forgetSubscriber i s = s\<lparr>mSubscribers := removeAll i (mSubscribers s)\<rparr>"

definition add_notification :: "notification \<Rightarrow> notification list \<Rightarrow> notification list" where
  "add_notification msg l =
     (case body msg of
        CollectionChange _ \<Rightarrow> snd (appendAndCompress msg l)
      | InvalidChange \<Rightarrow> l
      | _ \<Rightarrow> l @ [msg])"

definition slotNotify :: "notification list \<Rightarrow> manager \<Rightarrow> manager" where
  "slotNotify msgs s = s\<lparr>mNotifications := fold add_notification msgs (mNotifications s), timer_active := True\<rparr>"

text \<open>\<open>NotificationSubscriber::notify\<close>.\<close>

definition notify :: "nat \<Rightarrow> notification \<Rightarrow> manager \<Rightarrow> bool \<times> manager" where
  "notify i ntf s =
     (case objects s i of
        None \<Rightarrow> (False, s)
      | Some b \<Rightarrow>
          (if acceptsNotification b ntf then (True, s\<lparr>objects := (objects s)(i \<mapsto> b\<lparr>written := written b @ [ntf]\<rparr>)\<rparr>)
           else (False, s)))"

definition alive :: "manager \<Rightarrow> nat list" where
  "alive s = filter (\<lambda>i. objects s i \<noteq> None) (mSubscribers s)"

definition emitDebugNotification :: "int \<Rightarrow> notification \<Rightarrow> string list \<Rightarrow> manager \<Rightarrow> manager" where
  "emitDebugNotification now ntf listeners s =
     s\<lparr>pool := pool s @ map (\<lambda>i. (i, [Notification [] [] (DebugChange ntf listeners now)])) (alive s)\<rparr>"

text \<open>The loop over the subscribers for one notification, collecting the names of those that accept it.\<close>

fun notify_all :: "notification \<Rightarrow> nat list \<Rightarrow> manager \<Rightarrow> string list \<times> manager" where
  "notify_all ntf [] s = ([], s)"
| "notify_all ntf (i # is) s =
     (let (ok, s) = notify i ntf s;
          (ls, t) = notify_all ntf is s
      in (if ok then mSubscriber (the (objects s i)) # ls else ls, t))"

fun emit_debug :: "int \<Rightarrow> notification list \<Rightarrow> manager \<Rightarrow> manager" where
  "emit_debug now [] s = s"
| "emit_debug now (n # ns) s =
     (let (listeners, s) = notify_all n (mSubscribers s) s
      in emit_debug now ns (emitDebugNotification now n listeners s))"

definition emitPendingNotifications :: "int \<Rightarrow> manager \<Rightarrow> manager" where
  "emitPendingNotifications now s =
     (if mNotifications s = [] then s
      else
        (let s = (if mDebugNotifications s = 0
                  then s\<lparr>pool := pool s @ map (\<lambda>i. (i, mNotifications s)) (alive s)\<rparr>
                  else emit_debug now (mNotifications s) s)
         in s\<lparr>mNotifications := []\<rparr>))"

text \<open>The single-shot timer fires.\<close>

definition timer_fires :: "int \<Rightarrow> manager \<Rightarrow> manager" where
  "timer_fires now s = emitPendingNotifications now (s\<lparr>timer_active := False\<rparr>)"

text \<open>One iteration of \<open>NotifyRunnable::run\<close>, for the runnable at position \<open>k\<close>; one that has nothing left, or whose
  subscriber is gone, ends.\<close>

definition run_step :: "nat \<Rightarrow> manager \<Rightarrow> manager" where
  "run_step k s =
     (case pool s ! k of
        (i, []) \<Rightarrow> s\<lparr>pool := take k (pool s) @ drop (Suc k) (pool s)\<rparr>
      | (i, n # ns) \<Rightarrow>
          (if objects s i = None then s\<lparr>pool := take k (pool s) @ drop (Suc k) (pool s)\<rparr>
           else (snd (notify i n s))\<lparr>pool := (pool s)[k := (i, ns)]\<rparr>))"

text \<open>\<open>NotificationSubscriber::registerSubscriber\<close>, \<open>modifySubscription\<close>, \<open>disconnectSubscriber\<close>.\<close>

definition set_object :: "nat \<Rightarrow> subscriber \<Rightarrow> manager \<Rightarrow> manager" where
  "set_object i b s = s\<lparr>objects := (objects s)(i \<mapsto> b)\<rparr>"

abbreviation object :: "manager \<Rightarrow> nat \<Rightarrow> subscriber" where
  "object s i \<equiv> the (objects s i)"

definition registerSubscriber :: "nat \<Rightarrow> string \<Rightarrow> string \<Rightarrow> manager \<Rightarrow> manager" where
  "registerSubscriber i name session s =
     (let b = (object s i)\<lparr>mSubscriber := name, mSession := session\<rparr>
      in slotNotify [subscription_notification SubscriptionAdd b] (set_object i b s))"

definition apply_item_scope :: "nat \<Rightarrow> modify_command \<Rightarrow> manager \<Rightarrow> manager" where
  "apply_item_scope i cmd s =
     (if ModItemFetchScope \<in> modifiedParts cmd then
        (let b = object s i; new = itemFetchScope cmd in
         set_object i (b\<lparr>mItemFetchScope := new\<rparr>) (s\<lparr>ifs := item_apply (mItemFetchScope b) new (ifs s)\<rparr>))
      else s)"

definition apply_collection_scope :: "nat \<Rightarrow> modify_command \<Rightarrow> manager \<Rightarrow> manager" where
  "apply_collection_scope i cmd s =
     (if ModCollectionFetchScope \<in> modifiedParts cmd then
        (let b = object s i; new = collectionFetchScope cmd in
         set_object i (b\<lparr>mCollectionFetchScope := new\<rparr>) (s\<lparr>cfs := collection_apply (mCollectionFetchScope b) new (cfs s)\<rparr>))
      else s)"

definition apply_tag_scope :: "nat \<Rightarrow> modify_command \<Rightarrow> manager \<Rightarrow> manager" where
  "apply_tag_scope i cmd s =
     (if ModTagFetchScope \<in> modifiedParts cmd then
        (let b = object s i; new = tagFetchScope cmd in
         set_object i (b\<lparr>mTagFetchScope := new\<rparr>) (s\<lparr>tfs := tag_apply (mTagFetchScope b) new (tfs s)\<rparr>))
      else s)"

text \<open>The signal \<open>notificationDebuggingChanged\<close>, which the manager counts.\<close>

definition set_debugging :: "nat \<Rightarrow> bool \<Rightarrow> manager \<Rightarrow> manager" where
  "set_debugging i on s =
     (if mNotificationDebugging (object s i) = on then s
      else (set_object i ((object s i)\<lparr>mNotificationDebugging := on\<rparr>) s)
        \<lparr>mDebugNotifications := mDebugNotifications s + (if on then 1 else -1)\<rparr>)"

definition subscribe_types :: "nat \<Rightarrow> modify_command \<Rightarrow> manager \<Rightarrow> manager" where
  "subscribe_types i cmd s =
     (if ModTypes \<in> modifiedParts cmd then
        (let s = (if SubscriptionChanges \<in> set (startMonitoringTypes cmd)
                  then s\<lparr>posted := posted s @ map (\<lambda>j. (i, toChangeNotification SubscriptionAdd (object s j))) (alive s)\<rparr>
                  else s)
         in if ChangeNotifications \<in> set (startMonitoringTypes cmd) then set_debugging i True s
            else if ChangeNotifications \<in> set (stopMonitoringTypes cmd) then set_debugging i False s
            else s)
      else s)"

definition modifySubscription :: "(string \<Rightarrow> string) \<Rightarrow> nat \<Rightarrow> modify_command \<Rightarrow> manager \<Rightarrow> manager" where
  "modifySubscription canonical i cmd s =
     (let s = set_object i (modify_filters canonical cmd (object s i)) s;
          s = apply_item_scope i cmd s;
          s = apply_collection_scope i cmd s;
          s = apply_tag_scope i cmd s;
          s = subscribe_types i cmd s
      in slotNotify [toChangeNotification SubscriptionModify (object s i)] s)"

definition disconnectSubscriber :: "nat \<Rightarrow> manager \<Rightarrow> manager" where
  "disconnectSubscriber i s =
     (let b = object s i;
          s = slotNotify [subscription_notification SubscriptionRemove b] s;
          s = s\<lparr>cfs := collection_removeSubscriber (collection_apply (mCollectionFetchScope b) default_collection_scope (cfs s)),
                tfs := tag_removeSubscriber (tag_apply (mTagFetchScope b) default_tag_scope (tfs s)),
                ifs := item_removeSubscriber (item_apply (mItemFetchScope b) default_item_scope (ifs s))\<rparr>;
          s = forgetSubscriber i s
      in s\<lparr>doomed := doomed s @ [i]\<rparr>)"

text \<open>The body of \<open>handleIncomingData\<close> for one command; \<open>BadCommand\<close> is an exception of the stream or any other command.\<close>

datatype subscriber_command = CreateSubscription string string | ModifySubscription modify_command | Logout | BadCommand

fun handle_command :: "(string \<Rightarrow> string) \<Rightarrow> nat \<Rightarrow> subscriber_command \<Rightarrow> manager \<Rightarrow> manager" where
  "handle_command canonical i (CreateSubscription name session) s = registerSubscriber i name session s"
| "handle_command canonical i (ModifySubscription cmd) s =
     (if mSubscriber (object s i) = [] then disconnectSubscriber i s else modifySubscription canonical i cmd s)"
| "handle_command canonical i Logout s = disconnectSubscriber i s"
| "handle_command canonical i BadCommand s = disconnectSubscriber i s"

text \<open>The deferred deletion, with the destructor.\<close>

definition delete_object :: "nat \<Rightarrow> manager \<Rightarrow> manager" where
  "delete_object i s =
     s\<lparr>mDebugNotifications := (if mNotificationDebugging (object s i) then mDebugNotifications s - 1 else mDebugNotifications s),
       objects := (objects s)(i := None), doomed := removeAll i (doomed s)\<rparr>"

section \<open>The manager as a transition system\<close>

datatype manager_op = Connect | Command "string \<Rightarrow> string" nat subscriber_command | SocketClosed nat
  | Post "notification list" | Timer int | RunStep nat | PostedNotify | Delete nat

inductive manager_step :: "manager \<Rightarrow> manager_op \<Rightarrow> manager \<Rightarrow> bool" where
  connect: "manager_step s Connect (registerConnection s)"
| command: "i \<in> set (mSubscribers s) \<Longrightarrow> manager_step s (Command can i cmd) (handle_command can i cmd s)"
| socket_closed: "i \<in> set (mSubscribers s) \<Longrightarrow> manager_step s (SocketClosed i) (disconnectSubscriber i s)"
| post: "manager_step s (Post ms) (slotNotify ms s)"
| timer: "timer_active s \<Longrightarrow> manager_step s (Timer now) (timer_fires now s)"
| run: "k < length (pool s) \<Longrightarrow> k < 5 \<Longrightarrow> manager_step s (RunStep k) (run_step k s)"
| posted_notify: "posted s = (i, n) # ps \<Longrightarrow> manager_step s PostedNotify (snd (notify i n (s\<lparr>posted := ps\<rparr>)))"
| delete: "i \<in> set (doomed s) \<Longrightarrow> manager_step s (Delete i) (delete_object i s)"

inductive_cases run_stepE: "manager_step s (RunStep k) t"

section \<open>The invariant\<close>

text \<open>The connected subscribers and the doomed ones are the objects; pending notifications have a timer; the manager counts
  the objects that debug; and the aggregated scopes represent the scopes of the connected subscribers.\<close>

definition scopes_ok :: "manager \<Rightarrow> bool" where
  "scopes_ok s \<longleftrightarrow> collection_rel (cfs s) (map (\<lambda>i. mCollectionFetchScope (object s i)) (mSubscribers s)) \<and>
     tag_rel (tfs s) (map (\<lambda>i. mTagFetchScope (object s i)) (mSubscribers s)) \<and>
     item_rel (ifs s) (map (\<lambda>i. mItemFetchScope (object s i)) (mSubscribers s))"

definition objects_ok :: "manager \<Rightarrow> bool" where
  "objects_ok s \<longleftrightarrow> distinct (mSubscribers s @ doomed s) \<and> dom (objects s) = set (mSubscribers s @ doomed s) \<and>
     (\<forall>i \<in> dom (objects s). i < next_id s)"

definition debug_ok :: "manager \<Rightarrow> bool" where
  "debug_ok s \<longleftrightarrow>
     mDebugNotifications s = tally (\<lambda>i. mNotificationDebugging (object s i)) (mSubscribers s @ doomed s)"

definition manager_inv :: "manager \<Rightarrow> bool" where
  "manager_inv s \<longleftrightarrow> objects_ok s \<and> debug_ok s \<and> scopes_ok s \<and> (mNotifications s \<noteq> [] \<longrightarrow> timer_active s)"

text \<open>States that differ only in what has been written and in the queues.\<close>

definition same_core :: "manager \<Rightarrow> manager \<Rightarrow> bool" where
  "same_core s t \<longleftrightarrow> mSubscribers t = mSubscribers s \<and> doomed t = doomed s \<and> next_id t = next_id s \<and>
     mDebugNotifications t = mDebugNotifications s \<and> cfs t = cfs s \<and> tfs t = tfs s \<and> ifs t = ifs s \<and>
     (\<forall>i. map_option (\<lambda>b. b\<lparr>written := []\<rparr>) (objects t i) = map_option (\<lambda>b. b\<lparr>written := []\<rparr>) (objects s i))"

lemma same_core_refl [simp]: "same_core s s"
  by (simp add: same_core_def)

lemma same_core_trans: "same_core s t \<Longrightarrow> same_core t u \<Longrightarrow> same_core s u"
  by (simp add: same_core_def)

lemma same_core_dom: "same_core s t \<Longrightarrow> (objects t i = None) = (objects s i = None)"
  by (metis same_core_def map_option_is_None)

lemma same_core_object:
  assumes "same_core s t" and "objects s i \<noteq> None"
  shows "(object t i)\<lparr>written := []\<rparr> = (object s i)\<lparr>written := []\<rparr>"
  using assms same_core_dom [OF assms(1), of i] unfolding same_core_def by (metis option.map_sel)

lemma same_core_fields:
  assumes "same_core s t" and "objects s i \<noteq> None"
  shows "mCollectionFetchScope (object t i) = mCollectionFetchScope (object s i)"
    "mTagFetchScope (object t i) = mTagFetchScope (object s i)"
    "mItemFetchScope (object t i) = mItemFetchScope (object s i)"
    "mNotificationDebugging (object t i) = mNotificationDebugging (object s i)"
    "acceptsNotification (object t i) n = acceptsNotification (object s i) n"
proof -
  have eq: "(object t i)\<lparr>written := []\<rparr> = (object s i)\<lparr>written := []\<rparr>" by (rule same_core_object [OF assms])
  from arg_cong [OF eq, of mCollectionFetchScope] arg_cong [OF eq, of mTagFetchScope] arg_cong [OF eq, of mItemFetchScope]
    arg_cong [OF eq, of mNotificationDebugging]
  show "mCollectionFetchScope (object t i) = mCollectionFetchScope (object s i)"
    "mTagFetchScope (object t i) = mTagFetchScope (object s i)"
    "mItemFetchScope (object t i) = mItemFetchScope (object s i)"
    "mNotificationDebugging (object t i) = mNotificationDebugging (object s i)" by simp_all
  show "acceptsNotification (object t i) n = acceptsNotification (object s i) n"
    using arg_cong [OF eq, of "\<lambda>b. acceptsNotification b n"] by simp
qed

lemma same_core_inv:
  assumes core: "same_core s t" and inv: "manager_inv s" and pending: "mNotifications t \<noteq> [] \<Longrightarrow> timer_active t"
  shows "manager_inv t"
proof -
  have lists: "mSubscribers t = mSubscribers s" "doomed t = doomed s" using core by (simp_all add: same_core_def)
  have objs: "objects s i \<noteq> None" if "i \<in> set (mSubscribers s @ doomed s)" for i
    using inv that by (auto simp: manager_inv_def objects_ok_def)
  have "dom (objects t) = dom (objects s)" using same_core_dom [OF core] by (auto simp: dom_def)
  then have "objects_ok t" using inv core by (simp add: manager_inv_def objects_ok_def same_core_def)
  moreover have "tally (\<lambda>i. mNotificationDebugging (object t i)) (mSubscribers s @ doomed s) =
      tally (\<lambda>i. mNotificationDebugging (object s i)) (mSubscribers s @ doomed s)"
    unfolding tally_def using same_core_fields(4) [OF core objs] by (metis (mono_tags, lifting) filter_cong)
  then have "debug_ok t" using inv core by (simp add: manager_inv_def debug_ok_def same_core_def)
  moreover have maps: "map (\<lambda>i. mCollectionFetchScope (object t i)) (mSubscribers s) = map (\<lambda>i. mCollectionFetchScope (object s i)) (mSubscribers s)"
    "map (\<lambda>i. mTagFetchScope (object t i)) (mSubscribers s) = map (\<lambda>i. mTagFetchScope (object s i)) (mSubscribers s)"
    "map (\<lambda>i. mItemFetchScope (object t i)) (mSubscribers s) = map (\<lambda>i. mItemFetchScope (object s i)) (mSubscribers s)"
    using same_core_fields(1-3) [OF core objs] by simp_all
  have "scopes_ok t" using inv core unfolding scopes_ok_def lists maps by (simp add: manager_inv_def scopes_ok_def same_core_def)
  ultimately show ?thesis using pending by (simp add: manager_inv_def)
qed

text \<open>Delivering notifications.\<close>

lemma notify_core [simp]: "same_core s (snd (notify i n s))"
  by (auto simp: notify_def same_core_def split: option.splits)

lemma notify_frame [simp]:
  "mNotifications (snd (notify i n s)) = mNotifications s" "timer_active (snd (notify i n s)) = timer_active s"
  "pool (snd (notify i n s)) = pool s" "posted (snd (notify i n s)) = posted s"
  "mSubscribers (snd (notify i n s)) = mSubscribers s"
  by (auto simp: notify_def split: option.splits)

lemma notify_all_core:
  "same_core s (snd (notify_all n is s)) \<and> mNotifications (snd (notify_all n is s)) = mNotifications s \<and>
   timer_active (snd (notify_all n is s)) = timer_active s"
proof (induction "is" arbitrary: s)
  case (Cons i "is")
  show ?case using Cons.IH [of "snd (notify i n s)"] notify_core [of s i n]
    by (auto simp: split_beta Let_def intro: same_core_trans [OF notify_core])
qed simp

lemma same_core_pool: "same_core s t \<Longrightarrow> same_core s (t\<lparr>pool := p\<rparr>)"
  by (simp add: same_core_def)

lemma emit_debug_core:
  "same_core s (emit_debug now ns s) \<and> mNotifications (emit_debug now ns s) = mNotifications s \<and>
   timer_active (emit_debug now ns s) = timer_active s"
proof (induction ns arbitrary: s)
  case (Cons n ns)
  let ?t = "emitDebugNotification now n (fst (notify_all n (mSubscribers s) s)) (snd (notify_all n (mSubscribers s) s))"
  have "same_core s ?t" "mNotifications ?t = mNotifications s" "timer_active ?t = timer_active s"
    using notify_all_core [of s n "mSubscribers s"] by (simp_all add: emitDebugNotification_def same_core_pool)
  then show ?case using Cons.IH [of ?t] by (auto simp: split_beta Let_def intro: same_core_trans)
qed simp

lemma manager_timer_inv: "manager_inv s \<Longrightarrow> manager_inv (timer_fires now s)"
proof (rule same_core_inv [of s])
  let ?s = "s\<lparr>timer_active := False\<rparr>"
  have "same_core s ?s" by (simp add: same_core_def)
  moreover have "same_core ?s (timer_fires now s)"
    using emit_debug_core [of ?s now "mNotifications s"]
    by (auto simp: timer_fires_def emitPendingNotifications_def Let_def same_core_def)
  ultimately show "same_core s (timer_fires now s)" by (rule same_core_trans)
qed (auto simp: timer_fires_def emitPendingNotifications_def Let_def split: if_splits)

lemma run_step_core: "same_core s (run_step k s)"
  using notify_core [of s] by (auto simp: run_step_def same_core_def split: prod.splits list.splits)

lemma slotNotify_inv: "manager_inv s \<Longrightarrow> manager_inv (slotNotify ms s)"
  by (rule same_core_inv [of s]) (auto simp: slotNotify_def same_core_def)

text \<open>Changes of one connected subscriber.\<close>

lemma map_update_nth:
  assumes "distinct xs" and "k < length xs"
  shows "map (\<lambda>j. f (the ((m(xs ! k \<mapsto> b)) j))) xs = (map (\<lambda>j. f (the (m j))) xs)[k := f b]"
  using assms by (auto intro!: nth_equalityI simp: nth_list_update nth_eq_iff_index_eq)

lemma removeAll_nth:
  assumes "distinct xs" and "k < length xs"
  shows "removeAll (xs ! k) xs = take k xs @ drop (Suc k) xs"
proof -
  have "distinct (take k xs @ xs ! k # drop (Suc k) xs)" using assms id_take_nth_drop [of k xs] by simp
  then have "removeAll (xs ! k) (take k xs @ xs ! k # drop (Suc k) xs) = take k xs @ drop (Suc k) xs" by simp
  then show ?thesis using id_take_nth_drop [of k xs] assms by simp
qed

lemma map_objects_cong: "(\<And>i. i \<in> set xs \<Longrightarrow> m i = m' i) \<Longrightarrow> map (\<lambda>i. f (the (m i))) xs = map (\<lambda>i. f (the (m' i))) xs"
  by simp

lemma scopes_cong:
  assumes "mSubscribers t = mSubscribers s" and "\<And>i. i \<in> set (mSubscribers s) \<Longrightarrow> objects t i = objects s i"
    and "cfs t = cfs s" "tfs t = tfs s" "ifs t = ifs s"
  shows "scopes_ok t = scopes_ok s"
  by (simp add: scopes_ok_def assms(1) assms(3-5) map_objects_cong [of "mSubscribers s" "objects t" "objects s", OF assms(2)])

lemma scopes_update:
  assumes "scopes_ok s" and "distinct (mSubscribers s)" and "i \<in> set (mSubscribers s)"
  shows "scopes_ok (s\<lparr>objects := (objects s)(i \<mapsto> b),
       cfs := collection_apply (mCollectionFetchScope (object s i)) (mCollectionFetchScope b) (cfs s),
       tfs := tag_apply (mTagFetchScope (object s i)) (mTagFetchScope b) (tfs s),
       ifs := item_apply (mItemFetchScope (object s i)) (mItemFetchScope b) (ifs s)\<rparr>)"
proof -
  from assms(3) obtain k where k: "k < length (mSubscribers s)" "mSubscribers s ! k = i" by (auto simp: in_set_conv_nth)
  note upd = map_update_nth [OF assms(2) k(1), unfolded k(2)]
  show ?thesis
    using collections.rel_app [of "cfs s" "map (\<lambda>i. mCollectionFetchScope (object s i)) (mSubscribers s)" k]
      tags.rel_app [of "tfs s" "map (\<lambda>i. mTagFetchScope (object s i)) (mSubscribers s)" k]
      items.rel_app [of "ifs s" "map (\<lambda>i. mItemFetchScope (object s i)) (mSubscribers s)" k] assms(1) k
    by (simp add: scopes_ok_def upd del: fun_upd_apply)
qed

lemma collection_apply_same [simp]: "collection_apply x x d = d"
  by (simp add: collection_apply_def)

lemma tag_apply_same [simp]: "tag_apply x x d = d"
  by (simp add: tag_apply_def)

lemma item_apply_same [simp]: "item_apply x x d = d\<lparr>mCachedScope := None\<rparr>"
proof -
  have "fold (apply_flag x x) fs d = d" for fs by (induction fs) (simp_all add: apply_flag_def)
  then show ?thesis by (simp add: item_apply_def)
qed

lemma item_rel_cached [simp]: "item_rel (d\<lparr>mCachedScope := c\<rparr>) xs = item_rel d xs"
  by (simp add: item_rel_def)

lemma tally_append: "tally P (xs @ ys) = tally P xs + tally P ys"
  by (simp add: tally_def)

lemma tally_map: "tally (\<lambda>x. x) (map f xs) = tally f xs"
  by (simp add: tally_def filter_map comp_def)

lemma objects_update:
  assumes "objects_ok s" and "i \<in> set (mSubscribers s @ doomed s)"
  shows "objects_ok (s\<lparr>objects := (objects s)(i \<mapsto> b)\<rparr>)"
proof -
  have "i \<in> dom (objects s)" using assms by (simp add: objects_ok_def)
  then have "dom ((objects s)(i \<mapsto> b)) = dom (objects s)" by auto
  then show ?thesis using assms by (simp add: objects_ok_def del: fun_upd_apply)
qed

lemma debug_update:
  assumes "objects_ok s" and "debug_ok s" and "i \<in> set (mSubscribers s @ doomed s)"
  shows "debug_ok (s\<lparr>objects := (objects s)(i \<mapsto> b), mDebugNotifications := mDebugNotifications s
     - of_bool (mNotificationDebugging (object s i)) + of_bool (mNotificationDebugging b)\<rparr>)"
proof -
  let ?xs = "mSubscribers s @ doomed s"
  have d: "distinct ?xs" using assms(1) by (simp add: objects_ok_def)
  from assms(3) obtain k where k: "k < length ?xs" "?xs ! k = i" by (meson in_set_conv_nth)
  have "tally (\<lambda>j. mNotificationDebugging (the (((objects s)(i \<mapsto> b)) j))) ?xs =
      tally (\<lambda>x. x) ((map (\<lambda>j. mNotificationDebugging (object s j)) ?xs)[k := mNotificationDebugging b])"
    unfolding map_update_nth [OF d k(1), of mNotificationDebugging "objects s" b, unfolded k(2), symmetric] tally_map ..
  also have "\<dots> = mDebugNotifications s - of_bool (mNotificationDebugging (object s i)) + of_bool (mNotificationDebugging b)"
    using assms(2) k by (simp add: tally_update debug_ok_def tally_map del: map_append)
  finally show ?thesis by (simp add: debug_ok_def)
qed

text \<open>Any change of a connected subscriber, with its scopes applied and its debugging counted.\<close>

lemma change_subscriber_inv:
  assumes "manager_inv s" and "i \<in> set (mSubscribers s)"
    and t: "mSubscribers t = mSubscribers s" "doomed t = doomed s" "next_id t = next_id s"
      "mNotifications t = mNotifications s" "timer_active t = timer_active s" "objects t = (objects s)(i \<mapsto> b)"
      "mDebugNotifications t = mDebugNotifications s - of_bool (mNotificationDebugging (object s i)) + of_bool (mNotificationDebugging b)"
      "cfs t = collection_apply (mCollectionFetchScope (object s i)) (mCollectionFetchScope b) (cfs s)"
      "tfs t = tag_apply (mTagFetchScope (object s i)) (mTagFetchScope b) (tfs s)"
      "ifs t = item_apply (mItemFetchScope (object s i)) (mItemFetchScope b) (ifs s)
       \<or> mItemFetchScope (object s i) = mItemFetchScope b \<and> ifs t = ifs s"
  shows "manager_inv t"
proof -
  have ok: "objects_ok s" "debug_ok s" "scopes_ok s" and d: "distinct (mSubscribers s)"
    using assms(1) by (auto simp: manager_inv_def objects_ok_def)
  have i: "i \<in> set (mSubscribers s @ doomed s)" using assms(2) by simp
  have "objects_ok t" using objects_update [OF ok(1) i, of b] unfolding objects_ok_def by (simp add: t del: dom_fun_upd)
  moreover have "debug_ok t" using debug_update [OF ok(1, 2) i, of b] t by (simp add: debug_ok_def)
  moreover have "item_rel (ifs t) xs = item_rel (item_apply (mItemFetchScope (object s i)) (mItemFetchScope b) (ifs s)) xs"
    for xs using t(10) by auto
  then have "scopes_ok t" using scopes_update [OF ok(3) d assms(2), of b]
    by (simp add: scopes_ok_def t(1-9) del: fun_upd_apply)
  ultimately show ?thesis using assms(1) t by (simp add: manager_inv_def)
qed

lemma modify_filters_fields [simp]:
  "mCollectionFetchScope (modify_filters can cmd b) = mCollectionFetchScope b"
  "mTagFetchScope (modify_filters can cmd b) = mTagFetchScope b"
  "mItemFetchScope (modify_filters can cmd b) = mItemFetchScope b"
  "mNotificationDebugging (modify_filters can cmd b) = mNotificationDebugging b"
  by (simp_all add: modify_filters_def Let_def)

lemma subscribers_frame [simp]:
  "mSubscribers (set_object i b s) = mSubscribers s" "mSubscribers (apply_item_scope i cmd s) = mSubscribers s"
  "mSubscribers (apply_collection_scope i cmd s) = mSubscribers s" "mSubscribers (apply_tag_scope i cmd s) = mSubscribers s"
  "mSubscribers (set_debugging i on s) = mSubscribers s"
  by (simp_all add: set_object_def apply_item_scope_def apply_collection_scope_def apply_tag_scope_def Let_def set_debugging_def)

lemma apply_scopes_inv:
  assumes "manager_inv s" and "i \<in> set (mSubscribers s)"
  shows "manager_inv (apply_item_scope i cmd s)" "manager_inv (apply_collection_scope i cmd s)"
    "manager_inv (apply_tag_scope i cmd s)"
proof -
  let ?b = "object s i"
  have "manager_inv (set_object i (?b\<lparr>mItemFetchScope := itemFetchScope cmd\<rparr>) (s\<lparr>ifs := item_apply (mItemFetchScope ?b) (itemFetchScope cmd) (ifs s)\<rparr>))"
    by (rule change_subscriber_inv [OF assms, where b = "?b\<lparr>mItemFetchScope := itemFetchScope cmd\<rparr>"]) (simp_all add: set_object_def)
  then show "manager_inv (apply_item_scope i cmd s)" using assms(1) by (simp add: apply_item_scope_def Let_def)
  have "manager_inv (set_object i (?b\<lparr>mCollectionFetchScope := collectionFetchScope cmd\<rparr>) (s\<lparr>cfs := collection_apply (mCollectionFetchScope ?b) (collectionFetchScope cmd) (cfs s)\<rparr>))"
    by (rule change_subscriber_inv [OF assms, where b = "?b\<lparr>mCollectionFetchScope := collectionFetchScope cmd\<rparr>"]) (simp_all add: set_object_def)
  then show "manager_inv (apply_collection_scope i cmd s)" using assms(1) by (simp add: apply_collection_scope_def Let_def)
  have "manager_inv (set_object i (?b\<lparr>mTagFetchScope := tagFetchScope cmd\<rparr>) (s\<lparr>tfs := tag_apply (mTagFetchScope ?b) (tagFetchScope cmd) (tfs s)\<rparr>))"
    by (rule change_subscriber_inv [OF assms, where b = "?b\<lparr>mTagFetchScope := tagFetchScope cmd\<rparr>"]) (simp_all add: set_object_def)
  then show "manager_inv (apply_tag_scope i cmd s)" using assms(1) by (simp add: apply_tag_scope_def Let_def)
qed

lemma set_debugging_inv:
  assumes "manager_inv s" and "i \<in> set (mSubscribers s)"
  shows "manager_inv (set_debugging i on s)"
proof (cases "mNotificationDebugging (object s i) = on")
  case False
  let ?b = "(object s i)\<lparr>mNotificationDebugging := on\<rparr>"
  have "manager_inv ((set_object i ?b s)\<lparr>mDebugNotifications := mDebugNotifications s + (if on then 1 else -1)\<rparr>)"
    by (rule change_subscriber_inv [OF assms, where b = ?b]) (use False in \<open>auto simp: set_object_def\<close>)
  then show ?thesis using False by (simp add: set_debugging_def)
qed (simp add: set_debugging_def assms)

lemma posted_inv: "manager_inv (s\<lparr>posted := ps\<rparr>) = manager_inv s"
  by (simp add: manager_inv_def objects_ok_def debug_ok_def scopes_ok_def)

lemma subscribe_types_inv:
  assumes "manager_inv s" and "i \<in> set (mSubscribers s)"
  shows "manager_inv (subscribe_types i cmd s)"
  using assms by (simp add: subscribe_types_def Let_def set_debugging_inv posted_inv)

lemma modifySubscription_inv:
  assumes "manager_inv s" and "i \<in> set (mSubscribers s)"
  shows "manager_inv (modifySubscription can i cmd s)"
proof -
  have "manager_inv (set_object i (modify_filters can cmd (object s i)) s)"
    by (rule change_subscriber_inv [OF assms, where b = "modify_filters can cmd (object s i)"]) (simp_all add: set_object_def)
  then show ?thesis using assms(2)
    unfolding modifySubscription_def Let_def
    by (intro slotNotify_inv subscribe_types_inv apply_scopes_inv) simp_all
qed

lemma registerSubscriber_inv:
  assumes "manager_inv s" and "i \<in> set (mSubscribers s)"
  shows "manager_inv (registerSubscriber i name session s)"
  unfolding registerSubscriber_def Let_def
  by (intro slotNotify_inv change_subscriber_inv [OF assms, where b = "(object s i)\<lparr>mSubscriber := name, mSession := session\<rparr>"])
    (simp_all add: set_object_def)

lemma disconnectSubscriber_inv:
  assumes "manager_inv s" and "i \<in> set (mSubscribers s)"
  shows "manager_inv (disconnectSubscriber i s)"
proof -
  let ?b = "object s i" and ?t = "disconnectSubscriber i s" and ?subs = "mSubscribers s"
  have ok: "objects_ok s" "debug_ok s" "scopes_ok s" and d: "distinct ?subs" "i \<notin> set (doomed s)"
    using assms by (auto simp: manager_inv_def objects_ok_def)
  have t: "objects ?t = objects s" "mSubscribers ?t = removeAll i ?subs" "doomed ?t = doomed s @ [i]" "timer_active ?t"
    "next_id ?t = next_id s" "mDebugNotifications ?t = mDebugNotifications s"
    "cfs ?t = collection_removeSubscriber (collection_apply (mCollectionFetchScope ?b) default_collection_scope (cfs s))"
    "tfs ?t = tag_removeSubscriber (tag_apply (mTagFetchScope ?b) default_tag_scope (tfs s))"
    "ifs ?t = item_removeSubscriber (item_apply (mItemFetchScope ?b) default_item_scope (ifs s))"
    by (simp_all add: disconnectSubscriber_def Let_def slotNotify_def forgetSubscriber_def)
  from assms(2) obtain k where k: "k < length ?subs" "?subs ! k = i" by (auto simp: in_set_conv_nth)
  have split: "removeAll i ?subs = take k ?subs @ drop (Suc k) ?subs" using removeAll_nth [OF d(1) k(1)] k(2) by simp
  have m: "mset (?subs @ doomed s) = mset (removeAll i ?subs @ doomed s @ [i])"
    using d assms(2) by (simp add: distinct_remove1_removeAll [symmetric] union_commute insert_DiffM)
  have "tally P (removeAll i ?subs @ doomed s @ [i]) = tally P (?subs @ doomed s)" for P
    unfolding tally_def using arg_cong [OF m, of "\<lambda>M. size (filter_mset P M)"] by (metis mset_filter size_mset)
  then have "debug_ok ?t" using ok(2) by (simp add: debug_ok_def t)
  moreover have "objects_ok ?t" using ok(1) d assms(2) mset_eq_setD [OF m] by (auto simp: objects_ok_def t distinct_removeAll)
  moreover have "scopes_ok ?t"
    using collections.rel_do [of "cfs s" "map (\<lambda>i. mCollectionFetchScope (object s i)) ?subs" "Disconnect k"]
      tags.rel_do [of "tfs s" "map (\<lambda>i. mTagFetchScope (object s i)) ?subs" "Disconnect k"]
      items.rel_do [of "ifs s" "map (\<lambda>i. mItemFetchScope (object s i)) ?subs" "Disconnect k"] ok(3) k
    by (simp add: scopes_ok_def t split take_map drop_map)
  ultimately show ?thesis by (simp add: manager_inv_def t)
qed

lemma delete_object_inv:
  assumes "manager_inv s" and "i \<in> set (doomed s)"
  shows "manager_inv (delete_object i s)"
proof -
  have ok: "objects_ok s" "debug_ok s" "scopes_ok s" and d: "distinct (doomed s)" "i \<notin> set (mSubscribers s)"
    using assms by (auto simp: manager_inv_def objects_ok_def)
  from assms(2) obtain k where k: "k < length (doomed s)" "doomed s ! k = i" by (auto simp: in_set_conv_nth)
  have split: "removeAll i (doomed s) = take k (doomed s) @ drop (Suc k) (doomed s)"
    using removeAll_nth [OF d(1) k(1)] k(2) by simp
  let ?P = "\<lambda>j. mNotificationDebugging (object s j)" and ?Q = "\<lambda>j. mNotificationDebugging (the (((objects s)(i := None)) j))"
  let ?xs = "mSubscribers s @ removeAll i (doomed s)"
  have "filter ?Q ?xs = filter ?P ?xs" by (rule filter_cong) (use d(2) in auto)
  then have "tally ?Q ?xs = tally ?P ?xs" by (simp only: tally_def)
  also have "\<dots> = tally ?P (mSubscribers s @ doomed s) - of_bool (?P i)"
    using tally_remove [OF k(1), of ?P] by (simp add: tally_def split k(2))
  finally have "debug_ok (delete_object i s)" using ok(2) by (simp add: debug_ok_def delete_object_def del: fun_upd_apply)
  moreover have "objects_ok (delete_object i s)" using ok(1) d by (auto simp: objects_ok_def delete_object_def distinct_removeAll)
  moreover have "scopes_ok (delete_object i s) = scopes_ok s" by (rule scopes_cong) (use d(2) in \<open>auto simp: delete_object_def\<close>)
  ultimately show ?thesis using assms(1) ok(3) by (simp add: manager_inv_def delete_object_def)
qed

lemma new_subscriber_scopes:
  "mCollectionFetchScope new_subscriber = default_collection_scope" "mTagFetchScope new_subscriber = default_tag_scope"
  "mItemFetchScope new_subscriber = default_item_scope"
  by (simp_all add: new_subscriber_def)

lemma registerConnection_inv:
  assumes "manager_inv s"
  shows "manager_inv (registerConnection s)"
proof -
  let ?t = "registerConnection s" and ?n = "next_id s"
  have ok: "objects_ok s" "debug_ok s" "scopes_ok s" using assms by (auto simp: manager_inv_def)
  have new: "?n \<notin> set (mSubscribers s @ doomed s)" using ok(1) by (auto simp: objects_ok_def)
  then have "((objects s)(?n \<mapsto> new_subscriber)) i = objects s i" if "i \<in> set (mSubscribers s @ doomed s)" for i
    using that by auto
  note same = map_objects_cong [of _ "(objects s)(?n \<mapsto> new_subscriber)" "objects s", OF this]
  have "objects_ok ?t" using ok(1) new by (auto simp: objects_ok_def registerConnection_def less_Suc_eq)
  moreover have "debug_ok ?t"
  proof -
    have "tally (\<lambda>j. mNotificationDebugging (the (((objects s)(?n \<mapsto> new_subscriber)) j))) xs =
        tally (\<lambda>j. mNotificationDebugging (object s j)) xs" if "set xs \<subseteq> set (mSubscribers s @ doomed s)" for xs
      using same [of xs mNotificationDebugging] that by (metis tally_map subsetD)
    moreover have "\<not> mNotificationDebugging new_subscriber" by (simp add: new_subscriber_def)
    ultimately show ?thesis using ok(2)
      by (simp add: debug_ok_def registerConnection_def tally_append tally_Cons fun_upd_same del: fun_upd_apply)
  qed
  moreover have "scopes_ok ?t"
    using collections.rel_add tags.rel_add items.rel_add ok(3)
    by (simp add: scopes_ok_def registerConnection_def same fun_upd_same new_subscriber_scopes del: fun_upd_apply)
  ultimately show ?thesis using assms by (simp add: manager_inv_def registerConnection_def)
qed

lemma handle_command_inv:
  "manager_inv s \<Longrightarrow> i \<in> set (mSubscribers s) \<Longrightarrow> manager_inv (handle_command can i cmd s)"
  by (cases cmd) (simp_all add: registerSubscriber_inv modifySubscription_inv disconnectSubscriber_inv)

lemma run_step_frame: "mNotifications (run_step k s) = mNotifications s \<and> timer_active (run_step k s) = timer_active s"
  by (auto simp: run_step_def split: prod.splits list.splits)

interpretation manager: inductive_invariant "\<lambda>s. s = manager_init" manager_step manager_inv
proof
  show "manager_inv s" if "s = manager_init" for s
    using that collections.rel_new tags.rel_new items.rel_new
    by (simp add: manager_inv_def objects_ok_def debug_ok_def scopes_ok_def manager_init_def)
next
  fix s l t
  assume "manager_step s l t" and inv: "manager_inv s"
  then show "manager_inv t"
  proof cases
    case (run k)
    show ?thesis unfolding run(2)
      by (rule same_core_inv [OF run_step_core inv]) (use inv in \<open>simp add: run_step_frame manager_inv_def\<close>)
  next
    case (posted_notify i n ps)
    have "manager_inv (s\<lparr>posted := ps\<rparr>)" using inv by (simp add: posted_inv)
    then show ?thesis unfolding posted_notify(2)
      by (rule same_core_inv [OF notify_core]) (use inv in \<open>simp add: manager_inv_def\<close>)
  qed (simp_all add: inv registerConnection_inv handle_command_inv disconnectSubscriber_inv slotNotify_inv manager_timer_inv
      delete_object_inv)
qed

section \<open>Delivery\<close>

text \<open>What the pool has still to offer to a subscriber.\<close>

definition pending_for :: "nat \<Rightarrow> (nat \<times> notification list) list \<Rightarrow> notification list" where
  "pending_for i p = concat (map snd (filter (\<lambda>r. fst r = i) p))"

definition runnables_of :: "nat \<Rightarrow> (nat \<times> notification list) list \<Rightarrow> nat" where
  "runnables_of i p = length (filter (\<lambda>r. fst r = i) p)"

definition pool_work :: "(nat \<times> notification list) list \<Rightarrow> nat" where
  "pool_work p = (\<Sum>r \<leftarrow> p. Suc (length (snd r)))"

lemma pending_for_simps [simp]:
  "pending_for i [] = []" "pending_for i (p @ q) = pending_for i p @ pending_for i q"
  "pending_for i (r # p) = (if fst r = i then snd r @ pending_for i p else pending_for i p)"
  by (simp_all add: pending_for_def)

lemma runnables_of_simps [simp]:
  "runnables_of i [] = 0" "runnables_of i (p @ q) = runnables_of i p + runnables_of i q"
  "runnables_of i (r # p) = (if fst r = i then Suc (runnables_of i p) else runnables_of i p)"
  by (simp_all add: runnables_of_def)

lemma no_runnables: "runnables_of i p = 0 \<Longrightarrow> pending_for i p = []"
  by (induction p) (simp_all split: if_splits)

text \<open>One step of a runnable takes one notification from the pool, offers it and changes nothing else.\<close>

lemma run_step_cases:
  assumes "k < length (pool s)"
  obtains pre j ns post where "pool s = pre @ (j, ns) # post" "pool (run_step k s) = pre @ post"
    "objects (run_step k s) = objects s" "ns = [] \<or> objects s j = None"
  | pre j n ns post where "pool s = pre @ (j, n # ns) # post" "pool (run_step k s) = pre @ (j, ns) # post"
    "objects (run_step k s) = objects (snd (notify j n s))"
proof -
  obtain j ns where k: "pool s ! k = (j, ns)" by fastforce
  have p: "pool s = take k (pool s) @ (j, ns) # drop (Suc k) (pool s)" using id_take_nth_drop [OF assms] k by simp
  show ?thesis
  proof (cases "ns = [] \<or> objects s j = None")
    case True
    then show ?thesis using that(1) [OF p] k by (auto simp: run_step_def split: list.splits)
  next
    case False
    then obtain m ms where ns: "ns = m # ms" "objects s j \<noteq> None" by (cases ns) auto
    have "pool (run_step k s) = take k (pool s) @ (j, ms) # drop (Suc k) (pool s)"
      using ns k assms by (auto simp: run_step_def upd_conv_take_nth_drop)
    then show ?thesis using that(2) [of "take k (pool s)" j m ms "drop (Suc k) (pool s)"] p ns k
      by (auto simp: run_step_def)
  qed
qed

lemma notify_object:
  "objects s i = Some b \<Longrightarrow> objects (snd (notify j n s)) i =
   Some (if i = j \<and> acceptsNotification b n then b\<lparr>written := written b @ [n]\<rparr> else b)"
  by (auto simp: notify_def split: option.splits)

lemma run_step_delivers:
  assumes "k < length (pool s)" and b: "objects s i = Some b"
  obtains b' where "objects (run_step k s) i = Some b'"
    "mset (written b') + mset (filter (acceptsNotification b') (pending_for i (pool (run_step k s)))) =
     mset (written b) + mset (filter (acceptsNotification b) (pending_for i (pool s)))"
    "runnables_of i (pool s) \<le> 1 \<Longrightarrow> runnables_of i (pool (run_step k s)) \<le> 1 \<and>
     written b' @ filter (acceptsNotification b') (pending_for i (pool (run_step k s))) =
     written b @ filter (acceptsNotification b) (pending_for i (pool s))"
    "acceptsNotification b' = acceptsNotification b"
proof (rule run_step_cases [OF assms(1)])
  fix pre j ns post
  assume *: "pool s = pre @ (j, ns) # post" "pool (run_step k s) = pre @ post"
    "objects (run_step k s) = objects s" "ns = [] \<or> objects s j = None"
  show ?thesis by (rule that [of b]) (use * b in auto)
next
  fix pre j n ns post
  assume *: "pool s = pre @ (j, n # ns) # post" "pool (run_step k s) = pre @ (j, ns) # post"
    "objects (run_step k s) = objects (snd (notify j n s))"
  let ?b = "if i = j \<and> acceptsNotification b n then b\<lparr>written := written b @ [n]\<rparr> else b"
  have acc: "acceptsNotification ?b = acceptsNotification b" by (simp add: fun_eq_iff)
  show ?thesis
  proof (rule that [of ?b])
    show "runnables_of i (pool (run_step k s)) \<le> 1 \<and>
        written ?b @ filter (acceptsNotification ?b) (pending_for i (pool (run_step k s))) =
        written b @ filter (acceptsNotification b) (pending_for i (pool s))" if "runnables_of i (pool s) \<le> 1"
    proof (cases "i = j")
      case True
      then have "pending_for i pre = []" using that * by (auto intro: no_runnables)
      then show ?thesis unfolding acc using True that * by simp
    qed (use that * in \<open>auto simp: acc\<close>)
  qed (use * b notify_object [OF b, of j n] acc in auto)
qed

lemma run_step_alive: "objects (run_step k s) i = None \<longleftrightarrow> objects s i = None"
  using run_step_core same_core_dom by blast

lemma run_step_work: "k < length (pool s) \<Longrightarrow> pool_work (pool (run_step k s)) < pool_work (pool s)"
  by (erule run_step_cases) (auto simp: pool_work_def)

definition is_run :: "manager_op \<Rightarrow> bool" where
  "is_run l \<longleftrightarrow> (case l of RunStep k \<Rightarrow> True | _ \<Rightarrow> False)"

lemma run_bounded:
  "Transition.run manager_step s ls t \<Longrightarrow> list_all is_run ls \<Longrightarrow> length ls + pool_work (pool t) \<le> pool_work (pool s)"
proof (induction rule: run.induct)
  case (run_cons s l t ls u)
  then obtain k where "l = RunStep k" by (auto simp: is_run_def split: manager_op.splits)
  with run_cons.hyps(1) have "pool_work (pool t) < pool_work (pool s)" by (auto elim!: run_stepE intro: run_step_work)
  then show ?case using run_cons by simp
qed simp

lemma run_delivers:
  "Transition.run manager_step s ls t \<Longrightarrow> list_all is_run ls \<Longrightarrow> objects s i = Some b \<Longrightarrow>
   \<exists>b'. objects t i = Some b' \<and> mNotifications t = mNotifications s \<and>
    mset (written b') + mset (filter (acceptsNotification b') (pending_for i (pool t))) =
    mset (written b) + mset (filter (acceptsNotification b) (pending_for i (pool s))) \<and>
    (runnables_of i (pool s) \<le> 1 \<longrightarrow> written b' @ filter (acceptsNotification b') (pending_for i (pool t)) =
      written b @ filter (acceptsNotification b) (pending_for i (pool s)))"
proof (induction arbitrary: b rule: run.induct)
  case (run_cons s l t ls u)
  then obtain k where k: "k < length (pool s)" "t = run_step k s"
    by (auto simp: is_run_def split: manager_op.splits elim!: run_stepE)
  have "mNotifications t = mNotifications s" by (simp add: k run_step_frame)
  moreover obtain c where c: "objects t i = Some c"
    "mset (written c) + mset (filter (acceptsNotification c) (pending_for i (pool t))) =
     mset (written b) + mset (filter (acceptsNotification b) (pending_for i (pool s)))"
    "runnables_of i (pool s) \<le> 1 \<Longrightarrow> runnables_of i (pool t) \<le> 1 \<and>
     written c @ filter (acceptsNotification c) (pending_for i (pool t)) =
     written b @ filter (acceptsNotification b) (pending_for i (pool s))"
    unfolding k(2) by (rule run_step_delivers [OF k(1) run_cons.prems(2)]) blast
  moreover have "list_all is_run ls" using run_cons.prems(1) by simp
  ultimately show ?case using run_cons.IH [OF _ c(1)] by (metis (no_types, lifting))
qed auto

text \<open>The pool can always go on, up to its end.\<close>

lemma drain:
  "\<exists>ls t. Transition.run manager_step s ls t \<and> list_all is_run ls \<and> pool t = []"
proof (induction "pool_work (pool s)" arbitrary: s rule: less_induct)
  case less
  show ?case
  proof (cases "pool s")
    case Nil
    then show ?thesis using run.run_nil by fastforce
  next
    case (Cons r p)
    then have "0 < length (pool s)" by simp
    from less [OF run_step_work [OF this]] obtain ls t
      where t: "Transition.run manager_step (run_step 0 s) ls t" "list_all is_run ls" "pool t = []" by blast
    have "manager_step s (RunStep 0) (run_step 0 s)" by (rule manager_step.run) (simp_all add: Cons)
    with t have "Transition.run manager_step s (RunStep 0 # ls) t \<and> list_all is_run (RunStep 0 # ls) \<and> pool t = []"
      by (auto intro: run.run_cons simp: is_run_def)
    then show ?thesis by blast
  qed
qed

lemma emit_pool:
  assumes "manager_inv s" and "mDebugNotifications s = 0" and "i \<in> set (mSubscribers s)"
  shows "objects (timer_fires now s) = objects s" "mNotifications (timer_fires now s) = []"
    "pending_for i (pool (timer_fires now s)) = pending_for i (pool s) @ mNotifications s"
    "runnables_of i (pool (timer_fires now s)) \<le> runnables_of i (pool s) + 1"
proof -
  have d: "distinct (mSubscribers s)" and alive: "alive (s\<lparr>timer_active := False\<rparr>) = mSubscribers s"
    using assms(1) by (auto simp: manager_inv_def objects_ok_def alive_def filter_id_conv dom_def)
  have one: "pending_for i (map (\<lambda>j. (j, ns)) xs) = (if i \<in> set xs then ns else []) \<and>
      runnables_of i (map (\<lambda>j. (j, ns)) xs) = of_bool (i \<in> set xs)" if "distinct xs" for ns xs
    using that by (induction xs) auto
  show "objects (timer_fires now s) = objects s" "mNotifications (timer_fires now s) = []"
    "pending_for i (pool (timer_fires now s)) = pending_for i (pool s) @ mNotifications s"
    "runnables_of i (pool (timer_fires now s)) \<le> runnables_of i (pool s) + 1"
    using one [OF d] assms(2, 3) alive by (auto simp: timer_fires_def emitPendingNotifications_def)
qed

section \<open>Properties\<close>

text \<open>The bookkeeping of the notification manager: in every reachable state pending notifications have a running timer, the
  number of debugging subscribers is exact (so the manager neither stays in nor leaves the slow mode by mistake), and the
  three aggregated fetch scopes are the aggregations of the scopes of the connected subscribers.\<close>

theorem manager_bookkeeping:
  assumes "reach (\<lambda>s. s = manager_init) manager_step s"
  shows "(mNotifications s \<noteq> [] \<longrightarrow> timer_active s) \<and>
    mDebugNotifications s = int (card {i. \<exists>b. objects s i = Some b \<and> mNotificationDebugging b}) \<and>
    collection_rel (cfs s) (map (\<lambda>i. mCollectionFetchScope (object s i)) (mSubscribers s)) \<and>
    tag_rel (tfs s) (map (\<lambda>i. mTagFetchScope (object s i)) (mSubscribers s)) \<and>
    item_rel (ifs s) (map (\<lambda>i. mItemFetchScope (object s i)) (mSubscribers s))"
proof -
  have inv: "manager_inv s" by (rule manager.reach_inv [OF assms])
  let ?xs = "mSubscribers s @ doomed s" and ?P = "\<lambda>i. mNotificationDebugging (object s i)"
  have d: "distinct ?xs" "dom (objects s) = set ?xs" using inv by (auto simp: manager_inv_def objects_ok_def)
  have "{i. \<exists>b. objects s i = Some b \<and> mNotificationDebugging b} = {i \<in> dom (objects s). ?P i}" by force
  then have "{i. \<exists>b. objects s i = Some b \<and> mNotificationDebugging b} = set (filter ?P ?xs)" using d(2) by auto
  moreover have "card (set (filter ?P ?xs)) = length (filter ?P ?xs)" by (rule distinct_card [OF distinct_filter [OF d(1)]])
  ultimately show ?thesis using inv by (simp add: manager_inv_def debug_ok_def scopes_ok_def tally_def)
qed

definition sample_tag :: notification where
  "sample_tag = Notification [] [] (TagChange \<lparr>t_operation = TagAdd, t_resource = [],
     tag = \<lparr>tr_id = 1, tr_parentId = 0, tr_gid = ''work'', tr_type = ''PLAIN'', tr_remoteId = [], tr_attributes = Map.empty\<rparr>\<rparr>)"

definition sample_manager :: manager where
  "sample_manager = slotNotify [sample_tag] (registerSubscriber 0 ''kmail'' ''session'' (registerConnection manager_init))"

lemma sample_manager_reach: "reach (\<lambda>s. s = manager_init) manager_step sample_manager"
proof -
  let ?r = "reach (\<lambda>s. s = manager_init) manager_step" and ?s1 = "registerConnection manager_init"
  have "?r manager_init" by (rule reach.start) simp
  then have 1: "?r ?s1" by (rule reach.next_state) (rule manager_step.connect)
  have "manager_step ?s1 (Command id 0 (CreateSubscription ''kmail'' ''session''))
      (handle_command id 0 (CreateSubscription ''kmail'' ''session'') ?s1)"
    by (rule manager_step.command) (simp add: registerConnection_def manager_init_def)
  with 1 have "?r (registerSubscriber 0 ''kmail'' ''session'' ?s1)" by (auto intro: reach.next_state)
  then show ?thesis unfolding sample_manager_def by (rule reach.next_state) (rule manager_step.post)
qed

theorem manager_bookkeeping_witness:
  "timer_active sample_manager \<and> mDebugNotifications sample_manager =
     int (card {i. \<exists>b. objects sample_manager i = Some b \<and> mNotificationDebugging b}) \<and> length (mSubscribers sample_manager) = 1"
proof -
  have "length (mSubscribers sample_manager) = 1" "mNotifications sample_manager \<noteq> []"
    by (simp_all add: sample_manager_def slotNotify_def registerSubscriber_def registerConnection_def manager_init_def
        Let_def add_notification_def sample_tag_def)
  then show ?thesis using manager_bookkeeping [OF sample_manager_reach] by simp
qed

text \<open>(C32) Every notification reaches every subscriber that accepts it, exactly once: when the timer fires in a reachable state with
  no debugging subscribers, and the runnables of the thread pool then run in any interleaving until the pool is empty, a
  connected subscriber has been sent exactly the pending notifications it accepts, and those of earlier batches that were
  still in the pool; if the pool was empty, they are sent in their order.\<close>

theorem notifications_delivered:
  assumes "reach (\<lambda>s. s = manager_init) manager_step s" and "mDebugNotifications s = 0"
    and "Transition.run manager_step (timer_fires now s) ls t" and "list_all is_run ls" and "pool t = []"
    and "i \<in> set (mSubscribers s)"
  shows "mset (written (object t i)) =
      mset (written (object s i) @ filter (acceptsNotification (object s i)) (pending_for i (pool s) @ mNotifications s)) \<and>
    (pool s = [] \<longrightarrow> written (object t i) =
      written (object s i) @ filter (acceptsNotification (object s i)) (mNotifications s)) \<and> mNotifications t = []"
proof -
  have inv: "manager_inv s" by (rule manager.reach_inv [OF assms(1)])
  note emit = emit_pool [OF inv assms(2, 6), of now]
  have "i \<in> dom (objects s)" using inv assms(6) by (simp add: manager_inv_def objects_ok_def)
  then obtain b where b: "objects s i = Some b" by blast
  from run_delivers [OF assms(3, 4), of i b] show ?thesis using emit b assms(5) by auto
qed

theorem notifications_delivered_witness:
  "\<exists>ls t. Transition.run manager_step (timer_fires 0 sample_manager) ls t \<and> list_all is_run ls \<and> pool t = [] \<and>
     written (object t 0) = [sample_tag]"
proof -
  obtain ls t where t: "Transition.run manager_step (timer_fires 0 sample_manager) ls t" "list_all is_run ls" "pool t = []"
    using drain by blast
  let ?b = "new_subscriber\<lparr>mSubscriber := ''kmail'', mSession := ''session''\<rparr>"
  have s: "objects sample_manager 0 = Some ?b" "pool sample_manager = []" "mDebugNotifications sample_manager = 0"
    "mNotifications sample_manager = [subscription_notification SubscriptionAdd ?b, sample_tag]" "0 \<in> set (mSubscribers sample_manager)"
    by (simp_all add: sample_manager_def slotNotify_def registerSubscriber_def registerConnection_def manager_init_def Let_def
        set_object_def add_notification_def sample_tag_def subscription_notification_def)
  have "filter (acceptsNotification ?b) (mNotifications sample_manager) = [sample_tag]"
    unfolding s by (simp add: accepts_defs new_subscriber_def sample_tag_def subscription_notification_def)
  then have "written (object t 0) = [sample_tag]"
    using notifications_delivered [OF sample_manager_reach s(3) t s(5)] s(1, 2) by (simp add: new_subscriber_def)
  then show ?thesis using t by blast
qed

text \<open>The thread pool finishes: from any state its runnables can run to the end, and they take at most one step for each
  notification to be offered and one more for each runnable.\<close>

theorem pool_finishes:
  "(\<exists>ls t. Transition.run manager_step s ls t \<and> list_all is_run ls \<and> pool t = []) \<and>
   \<not> (\<exists>ls t. Transition.run manager_step s ls t \<and> list_all is_run ls \<and> pool_work (pool s) < length ls)"
  using drain [of s] run_bounded [of s] by fastforce

text \<open>Notifications can overtake each other: two runnables of the same subscriber run concurrently, so when a second batch is
  started while the first is still in the pool, a notification of the second can be sent before one of the first.\<close>

theorem notifications_can_overtake:
  assumes "pool s = [(i, [m]), (i, [n])]" and "objects s i = Some b" and "acceptsNotification b m" and "acceptsNotification b n"
  shows "\<exists>t. Transition.run manager_step s [RunStep 1, RunStep 0] t \<and> written (object t i) = written b @ [n, m]"
proof -
  let ?t = "run_step 1 s"
  have t: "objects ?t i = Some (b\<lparr>written := written b @ [n]\<rparr>)" "pool ?t = [(i, [m]), (i, [])]"
    using assms by (simp_all add: run_step_def notify_def)
  have "objects (run_step 0 ?t) i = Some (b\<lparr>written := written b @ [n, m]\<rparr>)"
    using assms(3) t by (simp add: run_step_def notify_def)
  moreover have "manager_step s (RunStep 1) ?t" "manager_step ?t (RunStep 0) (run_step 0 ?t)"
    using assms(1) t(2) by (auto intro!: manager_step.run)
  ultimately show ?thesis by (intro exI [of _ "run_step 0 ?t"]) (auto intro: run.intros)
qed

theorem notifications_can_overtake_witness:
  "\<exists>t. Transition.run manager_step (manager_init\<lparr>objects := [0 \<mapsto> new_subscriber\<lparr>mSubscriber := ''kmail''\<rparr>],
       pool := [(0, [sample_tag]), (0, [Notification ''x'' [] (body sample_tag)])]\<rparr>) [RunStep 1, RunStep 0] t \<and>
     written (object t 0) = [Notification ''x'' [] (body sample_tag), sample_tag]"
proof -
  let ?b = "new_subscriber\<lparr>mSubscriber := ''kmail''\<rparr>" and ?n = "Notification ''x'' [] (body sample_tag)"
  have "acceptsNotification ?b sample_tag" "acceptsNotification ?b ?n"
    by (simp_all add: accepts_defs new_subscriber_def sample_tag_def)
  then show ?thesis
    using notifications_can_overtake [of "manager_init\<lparr>objects := [0 \<mapsto> ?b], pool := [(0, [sample_tag]), (0, [?n])]\<rparr>" 0 sample_tag ?n ?b]
    by (simp add: new_subscriber_def)
qed

end
