(* ===== verification/Tables.thy ===== *)
theory Tables
  imports Prelude
begin

text \<open>
  The tables of \<open>src/server/storage/akonadidb.xml\<close> that the data store, the handlers and the notifications work on, and the
  entity functions that look a row up. A flag is identified by its name (unique in its table), a mime type, a tag type and a
  resource likewise; the primary keys make the relations sets. A \<open>NULL\<close> parent is read as 0 by the entity classes.
\<close>

section \<open>Rows\<close>

record pim_item =
  item_id :: int
  item_rev :: int
  item_remoteId :: string
  item_remoteRevision :: string
  item_gid :: string
  item_collectionId :: int
  item_mimeType :: string
  item_datetime :: int
  item_atime :: int
  item_dirty :: bool
  item_size :: int

record collection_row =
  col_id :: int
  col_parentId :: int
  col_name :: string
  col_remoteId :: string
  col_remoteRevision :: string
  col_resourceId :: int
  col_isVirtual :: bool
  col_enabled :: bool
  col_syncPref :: Tristate
  col_displayPref :: Tristate
  col_indexPref :: Tristate
  col_cachePolicyInherit :: bool
  col_cachePolicyCheckInterval :: int
  col_cachePolicyCacheTimeout :: int
  col_cachePolicySyncOnDemand :: bool
  col_cachePolicyLocalParts :: string
  col_queryString :: string
  col_queryCollections :: string

record tag_row =
  tag_id :: int
  tag_parentId :: int
  tag_gid :: string
  tag_type :: string

text \<open>\<open>t_nextCollection\<close> and \<open>t_nextTag\<close> are the next values of the auto-increment columns. A row of \<open>t_tagRemoteIds\<close> has the tag, the resource and the
  remote id, a row of the attribute tables the type and the value.\<close>

record tables =
  t_items :: "pim_item list"
  t_flags :: "(int \<times> string) set"
  t_itemTags :: "(int \<times> int) list"
  t_links :: "(int \<times> int) list"
  t_collections :: "collection_row list"
  t_nextCollection :: int
  t_collectionMimeTypes :: "int \<Rightarrow> string list"
  t_collectionAttrs :: "int \<Rightarrow> (string \<times> string) list"
  t_resources :: "int \<rightharpoonup> string"
  t_tags :: "tag_row list"
  t_nextTag :: int
  t_tagAttrs :: "int \<Rightarrow> (string \<times> string) list"
  t_tagRemoteIds :: "(int \<times> int \<times> string) list"

definition empty_tables :: tables where
  "empty_tables = \<lparr>t_items = [], t_flags = {}, t_itemTags = [], t_links = [], t_collections = [], t_nextCollection = 1,
     t_collectionMimeTypes = (\<lambda>_. []), t_collectionAttrs = (\<lambda>_. []), t_resources = Map.empty, t_tags = [],
     t_nextTag = 1, t_tagAttrs = (\<lambda>_. []), t_tagRemoteIds = []\<rparr>"

section \<open>Entities\<close>

text \<open>A default-constructed entity has the id -1 and is the only invalid one (\<open>Entity::isValid\<close>).\<close>

definition entity_isValid :: "int \<Rightarrow> bool" where
  "entity_isValid i \<longleftrightarrow> i \<noteq> -1"

definition row_new :: collection_row where
  "row_new = \<lparr>col_id = -1, col_parentId = 0, col_name = [], col_remoteId = [], col_remoteRevision = [],
     col_resourceId = 0, col_isVirtual = False, col_enabled = True, col_syncPref = TUndefined, col_displayPref = TUndefined,
     col_indexPref = TUndefined, col_cachePolicyInherit = True, col_cachePolicyCheckInterval = -1,
     col_cachePolicyCacheTimeout = -1, col_cachePolicySyncOnDemand = False, col_cachePolicyLocalParts = [],
     col_queryString = [], col_queryCollections = []\<rparr>"

definition Collection_retrieveById :: "tables \<Rightarrow> int \<Rightarrow> collection_row" where
  "Collection_retrieveById t i = (case find (\<lambda>c. col_id c = i) (t_collections t) of None \<Rightarrow> row_new | Some c \<Rightarrow> c)"

definition pim_item_new :: pim_item where
  "pim_item_new = \<lparr>item_id = -1, item_rev = 0, item_remoteId = [], item_remoteRevision = [], item_gid = [],
     item_collectionId = 0, item_mimeType = [], item_datetime = 0, item_atime = 0, item_dirty = False, item_size = 0\<rparr>"

definition tag_row_new :: tag_row where
  "tag_row_new = \<lparr>tag_id = -1, tag_parentId = 0, tag_gid = [], tag_type = []\<rparr>"

definition Tag_retrieveById :: "tables \<Rightarrow> int \<Rightarrow> tag_row" where
  "Tag_retrieveById t i = (case find (\<lambda>g. tag_id g = i) (t_tags t) of None \<Rightarrow> tag_row_new | Some g \<Rightarrow> g)"

definition resource_name :: "tables \<Rightarrow> collection_row \<Rightarrow> string" where
  "resource_name t c = (case t_resources t (col_resourceId c) of None \<Rightarrow> [] | Some n \<Rightarrow> n)"

definition item_flags :: "tables \<Rightarrow> int \<Rightarrow> string set" where
  "item_flags t i = snd ` Set.filter (\<lambda>r. fst r = i) (t_flags t)"

definition item_tags :: "tables \<Rightarrow> int \<Rightarrow> tag_row list" where
  "item_tags t i = concat (map (\<lambda>r. filter (\<lambda>g. tag_id g = snd r) (t_tags t)) (filter (\<lambda>r. fst r = i) (t_itemTags t)))"

text \<open>The foreign keys cascade: with a row, its children are deleted as well. The edges are pairs of a child and its parent. Each round
  adds the children; there are at most as many rounds as rows.\<close>

fun cascade :: "nat \<Rightarrow> (int \<times> int) list \<Rightarrow> int list \<Rightarrow> int list" where
  "cascade 0 edges ids = ids"
| "cascade (Suc n) edges ids =
     cascade n edges (ids @ map fst (filter (\<lambda>e. snd e \<in> set ids \<and> fst e \<notin> set ids) edges))"

section \<open>Lookups\<close>

lemma find_unique:
  assumes "distinct (map f xs)" and "x \<in> set xs"
  shows "find (\<lambda>y. f y = f x) xs = Some x"
  using assms by (induction xs) force+

lemma filter_unique:
  assumes "distinct (map f xs)" and "x \<in> set xs"
  shows "filter (\<lambda>y. f y = f x) xs = [x]"
  using assms
proof (induction xs)
  case (Cons a xs)
  show ?case
  proof (cases "x = a")
    case True
    then have "filter (\<lambda>y. f y = f x) xs = []" using Cons.prems by (auto simp: filter_empty_conv) (metis image_eqI)
    then show ?thesis using True by simp
  next
    case False
    then have "x \<in> set xs" "f a \<noteq> f x" using Cons.prems by force+
    then show ?thesis using Cons by simp
  qed
qed simp

lemma retrieve_row:
  "distinct (map col_id (t_collections t)) \<Longrightarrow> c \<in> set (t_collections t) \<Longrightarrow> Collection_retrieveById t (col_id c) = c"
  by (simp add: Collection_retrieveById_def find_unique)

lemma retrieve_cases:
  "Collection_retrieveById t i = row_new \<and> i \<notin> col_id ` set (t_collections t) \<or>
   Collection_retrieveById t i \<in> set (t_collections t) \<and> col_id (Collection_retrieveById t i) = i"
  by (auto simp: Collection_retrieveById_def find_None_iff find_Some_iff split: option.splits)

end
