(* ===== verification/CollectionTree.thy ===== *)
theory CollectionTree
  imports Tables
begin

text \<open>
  How a collection is named and found: \<open>src/server/commandcontext.cpp\<close>, \<open>src/server/storage/collectionqueryhelper.cpp\<close> and
  the collection functions of \<open>src/server/handlerhelper.cpp\<close>. The collections form a forest of parents; the loops that climb
  it are partial functions, whose value is \<open>None\<close> on a cycle. A handler exception is the left side of a sum.

  The first argument of a function that queries the database says whether the query succeeds.
\<close>

type_synonym 'a handled = "string + 'a"

section \<open>Contexts and scopes\<close>

text \<open>An invalid resource has the id -1. \<open>Protocol::ScopeContext\<close> holds an id, a remote id or nothing for a collection and for a
  tag.\<close>

record command_context =
  mResource :: int
  mCollection :: collection_row
  mTagId :: "int option"

datatype context_id = NoContext | ContextId int | ContextRID string

record scope_context =
  sc_collection :: context_id
  sc_tag :: context_id

definition context_new :: command_context where
  "context_new = \<lparr>mResource = -1, mCollection = row_new, mTagId = None\<rparr>"

definition setScopeContext :: "bool \<Rightarrow> tables \<Rightarrow> scope_context \<Rightarrow> command_context \<Rightarrow> bool \<times> command_context" where
  "setScopeContext ok t sc ctx =
     (let r = (case sc_collection sc of
                 ContextId i \<Rightarrow> Some (ctx\<lparr>mCollection := Collection_retrieveById t i\<rparr>)
               | ContextRID rid \<Rightarrow>
                   (if entity_isValid (mResource ctx) then
                      (case (if ok then filter (\<lambda>c. col_remoteId c = rid \<and> col_resourceId c = mResource ctx) (t_collections t) else []) of
                         [] \<Rightarrow> None
                       | c # _ \<Rightarrow> Some (ctx\<lparr>mCollection := c\<rparr>))
                    else None)
               | NoContext \<Rightarrow> Some ctx)
      in case r of
           None \<Rightarrow> (False, ctx)
         | Some ctx \<Rightarrow> (True, case sc_tag sc of ContextId i \<Rightarrow> ctx\<lparr>mTagId := Some i\<rparr> | _ \<Rightarrow> ctx))"

definition setResource :: "int \<Rightarrow> command_context \<Rightarrow> command_context" where
  "setResource r ctx = ctx\<lparr>mResource := r\<rparr>"

definition setCollection :: "collection_row \<Rightarrow> command_context \<Rightarrow> command_context" where
  "setCollection c ctx = ctx\<lparr>mCollection := c\<rparr>"

definition setTag :: "int option \<Rightarrow> command_context \<Rightarrow> command_context" where
  "setTag g ctx = ctx\<lparr>mTagId := g\<rparr>"

definition context_tag :: "tables \<Rightarrow> command_context \<Rightarrow> tag_row" where
  "context_tag t ctx = (case mTagId ctx of Some i \<Rightarrow> Tag_retrieveById t i | None \<Rightarrow> tag_row_new)"

definition context_isEmpty :: "command_context \<Rightarrow> bool" where
  "context_isEmpty ctx \<longleftrightarrow> \<not> entity_isValid (col_id (mCollection ctx)) \<and> mTagId ctx = None"

text \<open>A scope as the handlers read it; the entries of a hierarchical chain have an id and a remote id.\<close>

datatype scope_sel = ScopeInvalid | ScopeUid "int list" | ScopeRid "string list" | ScopeHRid "(int \<times> string) list"
  | ScopeGid "string list"

section \<open>Queries\<close>

definition remoteIdToQuery :: "string list \<Rightarrow> command_context \<Rightarrow> collection_row \<Rightarrow> bool" where
  "remoteIdToQuery rids ctx c \<longleftrightarrow>
     col_remoteId c \<in> set rids \<and> (entity_isValid (mResource ctx) \<longrightarrow> col_resourceId c = mResource ctx)"

definition child_of :: "int \<Rightarrow> collection_row \<Rightarrow> bool" where
  "child_of p c \<longleftrightarrow> (if p > 0 then col_parentId c = p else col_parentId c = 0)"

text \<open>The loop of \<open>resolveHierarchicalRID\<close>, over the remote ids from the root downwards.\<close>

fun resolve_rids :: "bool \<Rightarrow> tables \<Rightarrow> int \<Rightarrow> string list \<Rightarrow> int \<Rightarrow> collection_row \<Rightarrow> collection_row handled" where
  "resolve_rids ok t res [] p result = Inr result"
| "resolve_rids ok t res (rid # rids) p result =
     (if \<not> ok then Inl ''Unable to execute query''
      else
        (case filter (\<lambda>c. child_of p c \<and> col_remoteId c = rid \<and> col_resourceId c = res) (t_collections t) of
           [] \<Rightarrow> Inl ''Hierarchical RID does not specify an existing collection''
         | [c] \<Rightarrow> resolve_rids ok t res rids (col_id c) c
         | _ \<Rightarrow> Inl ''Hierarchical RID does not specify a unique collection''))"

definition resolveHierarchicalRID :: "bool \<Rightarrow> tables \<Rightarrow> (int \<times> string) list \<Rightarrow> int \<Rightarrow> collection_row handled" where
  "resolveHierarchicalRID ok t chain res =
     (if length chain < 2 then Inl ''Empty or incomplete hierarchical RID chain''
      else if \<not> (fst (last chain) \<le> 0 \<and> snd (last chain) = []) then Inl ''Hierarchical RID chain is not root-terminated''
      else resolve_rids ok t res (rev (map snd (butlast chain))) 0 row_new)"

definition scopeToQuery :: "bool \<Rightarrow> tables \<Rightarrow> scope_sel \<Rightarrow> command_context \<Rightarrow> (collection_row \<Rightarrow> bool) handled" where
  "scopeToQuery ok t sc ctx =
     (case sc of
        ScopeUid ids \<Rightarrow> Inr (\<lambda>c. ids = [] \<or> col_id c \<in> set ids)
      | ScopeRid rids \<Rightarrow>
          (if col_id (mCollection ctx) \<le> 0 \<and> \<not> entity_isValid (mResource ctx)
           then Inl ''Operations based on remote identifiers require a resource or collection context''
           else Inr (remoteIdToQuery rids ctx))
      | ScopeHRid chain \<Rightarrow>
          (if \<not> entity_isValid (mResource ctx)
           then Inl ''Operations based on hierarchical remote identifiers require a resource or collection context''
           else
             (case resolveHierarchicalRID ok t chain (mResource ctx) of
                Inl e \<Rightarrow> Inl e
              | Inr c \<Rightarrow> Inr (\<lambda>d. col_id d = col_id c)))
      | _ \<Rightarrow> Inl ''WTF?'')"

definition collectionFromScope :: "bool \<Rightarrow> tables \<Rightarrow> scope_sel \<Rightarrow> command_context \<Rightarrow> collection_row handled" where
  "collectionFromScope ok t sc ctx =
     (if (case sc of ScopeInvalid \<Rightarrow> True | ScopeGid _ \<Rightarrow> True | _ \<Rightarrow> False) then Inl ''Invalid collection scope''
      else
        (case scopeToQuery ok t sc ctx of
           Inl e \<Rightarrow> Inl e
         | Inr P \<Rightarrow>
             (if \<not> ok then Inl ''Failed to execute SQL query''
              else
                (case filter P (t_collections t) of
                   [] \<Rightarrow> Inr row_new
                 | [c] \<Rightarrow> Inr c
                 | _ \<Rightarrow> Inl ''Query returned more than one result''))))"

section \<open>Paths\<close>

partial_function (option) path_from :: "tables \<Rightarrow> collection_row \<Rightarrow> string list \<Rightarrow> string list option" where
  "path_from t current parts =
     (if \<not> entity_isValid (col_id current) then Some parts
      else path_from t (Collection_retrieveById t (col_parentId current)) (col_name current # parts))"

definition pathForCollection :: "tables \<Rightarrow> collection_row \<Rightarrow> string option" where
  "pathForCollection t c = map_option (join_with CHR ''/'') (path_from t c [])"

fun resolve_path :: "bool \<Rightarrow> tables \<Rightarrow> string list \<Rightarrow> collection_row \<Rightarrow> collection_row" where
  "resolve_path ok t [] col = col"
| "resolve_path ok t (part # rest) col =
     (if \<not> ok then row_new
      else
        (case filter (\<lambda>c. col_name c = part \<and>
                (if entity_isValid (col_id col) then col_parentId c = col_id col else col_parentId c = 0)) (t_collections t) of
           [c] \<Rightarrow> resolve_path ok t rest c
         | _ \<Rightarrow> row_new))"

definition collectionFromIdOrName :: "bool \<Rightarrow> tables \<Rightarrow> string \<Rightarrow> collection_row" where
  "collectionFromIdOrName ok t i =
     (case toLongLong i of
        Some v \<Rightarrow> Collection_retrieveById t v
      | None \<Rightarrow> resolve_path ok t (filter (\<lambda>w. w \<noteq> []) (split_on CHR ''/'' i)) row_new)"

section \<open>Moving\<close>

definition hasAllowedName :: "bool \<Rightarrow> tables \<Rightarrow> collection_row \<Rightarrow> string \<Rightarrow> int \<Rightarrow> bool" where
  "hasAllowedName ok t c name parent =
     (ok \<and> (case filter (\<lambda>d. child_of parent d \<and> col_name d = name) (t_collections t) of
               [] \<Rightarrow> True
             | d # _ \<Rightarrow> col_id d = col_id c))"

text \<open>The loop of \<open>canBeMovedTo\<close>: whether the collection is met on the way from the new parent to the root.\<close>

partial_function (option) meets :: "tables \<Rightarrow> collection_row \<Rightarrow> collection_row \<Rightarrow> bool option" where
  "meets t c p =
     (if col_id p = col_id c then Some True
      else if col_parentId p = 0 then Some False
      else meets t c (Collection_retrieveById t (col_parentId p)))"

definition canBeMovedTo :: "bool \<Rightarrow> tables \<Rightarrow> collection_row \<Rightarrow> collection_row \<Rightarrow> bool option" where
  "canBeMovedTo ok t c p =
     (if entity_isValid (col_id p) then
        (case meets t c p of
           None \<Rightarrow> None
         | Some m \<Rightarrow> Some (\<not> m \<and> hasAllowedName ok t c (col_name c) (col_id p)))
      else Some (hasAllowedName ok t c (col_name c) (col_id p)))"

section \<open>The forest of collections\<close>

text \<open>\<open>lineage t p cs\<close>: \<open>cs\<close> are the collections from the one with the id \<open>p\<close> up to a root.\<close>

fun lineage :: "tables \<Rightarrow> int \<Rightarrow> collection_row list \<Rightarrow> bool" where
  "lineage t p [] \<longleftrightarrow> p = 0"
| "lineage t p (c # cs) \<longleftrightarrow> c \<in> set (t_collections t) \<and> col_id c = p \<and> lineage t (col_parentId c) cs"

definition collections_forest :: "tables \<Rightarrow> bool" where
  "collections_forest t \<longleftrightarrow> distinct (map col_id (t_collections t)) \<and>
     distinct (map (\<lambda>c. (col_parentId c, col_name c)) (t_collections t)) \<and>
     (\<forall>c \<in> set (t_collections t). 0 < col_id c \<and> (\<exists>cs. lineage t (col_id c) cs))"

lemma forest_row:
  assumes "collections_forest t" and "c \<in> set (t_collections t)"
  shows "Collection_retrieveById t (col_id c) = c" "0 < col_id c" "\<exists>cs. lineage t (col_id c) cs"
  using assms by (auto simp: collections_forest_def retrieve_row)

lemma forest_eq:
  assumes "collections_forest t" and "c \<in> set (t_collections t)" "d \<in> set (t_collections t)" "col_id c = col_id d"
  shows "c = d"
  using assms forest_row(1) by metis

lemma lineage_unique:
  assumes "collections_forest t"
  shows "lineage t p cs \<Longrightarrow> lineage t p ds \<Longrightarrow> cs = ds"
proof (induction cs arbitrary: p ds)
  case Nil
  then show ?case using assms by (cases ds) (force dest: forest_row(2))+
next
  case (Cons c cs)
  then obtain d ds' where ds: "ds = d # ds'" using forest_row(2) [OF assms, of c] by (cases ds) auto
  then have "d = c" using Cons.prems by (intro forest_eq [OF assms]) auto
  then show ?case using Cons ds by auto
qed

lemma retrieve_zero: "collections_forest t \<Longrightarrow> Collection_retrieveById t 0 = row_new"
  using retrieve_cases [of t 0] forest_row(2) [of t] by fastforce

lemma lineage_Cons:
  assumes "collections_forest t" and "c \<in> set (t_collections t)" and "lineage t (col_id c) cs"
  shows "\<exists>ds. cs = c # ds \<and> lineage t (col_parentId c) ds"
  using assms forest_row(2) [OF assms(1, 2)] forest_eq [OF assms(1)] by (cases cs) auto

section \<open>Paths and chains in the forest\<close>

lemma lineage_path:
  assumes "collections_forest t" and "lineage t p cs"
  shows "path_from t (Collection_retrieveById t p) parts = Some (rev (map col_name cs) @ parts)"
  using assms(2)
proof (induction cs arbitrary: p parts)
  case Nil
  then show ?case using retrieve_zero [OF assms(1)] by (simp add: path_from.simps row_new_def entity_isValid_def)
next
  case (Cons c cs)
  then have "Collection_retrieveById t p = c" "col_id c \<noteq> -1" using forest_row [OF assms(1), of c] by auto
  then show ?case using Cons by (subst path_from.simps) (simp add: entity_isValid_def)
qed

lemma unique_child:
  assumes "collections_forest t" and "c \<in> set (t_collections t)"
  shows "filter (\<lambda>d. col_name d = col_name c \<and> col_parentId d = col_parentId c) (t_collections t) = [c]"
  using filter_unique [of "\<lambda>c. (col_parentId c, col_name c)" "t_collections t" c] assms
  by (simp add: collections_forest_def conj_commute)

lemma lineage_cases:
  assumes "collections_forest t" and "lineage t p cs"
  shows "p = 0 \<and> Collection_retrieveById t p = row_new \<or> 0 < p \<and> col_id (Collection_retrieveById t p) = p"
proof (cases cs)
  case (Cons c cs')
  then show ?thesis using assms forest_row [OF assms(1), of c] by auto
qed (use assms retrieve_zero in auto)

lemma lineage_parent:
  assumes "collections_forest t" and "lineage t p cs"
  shows "(if entity_isValid (col_id (Collection_retrieveById t p)) then q = col_id (Collection_retrieveById t p) else q = 0) \<longleftrightarrow> q = p"
    and "child_of p d \<longleftrightarrow> col_parentId d = p"
  using lineage_cases [OF assms] by (auto simp: entity_isValid_def row_new_def child_of_def)

lemma resolve_lineage:
  assumes "collections_forest t" and "lineage t p cs"
  shows "resolve_path True t (rev (map col_name cs) @ ws) row_new = resolve_path True t ws (Collection_retrieveById t p)"
  using assms(2)
proof (induction cs arbitrary: p ws)
  case Nil
  then show ?case by (simp add: retrieve_zero [OF assms(1)])
next
  case (Cons c cs)
  then have lin: "lineage t (col_parentId c) cs" and c: "c \<in> set (t_collections t)" "col_id c = p" by auto
  have "resolve_path True t (rev (map col_name (c # cs)) @ ws) row_new =
      resolve_path True t (col_name c # ws) (Collection_retrieveById t (col_parentId c))" using Cons.IH [OF lin] by simp
  also have "\<dots> = resolve_path True t ws c"
    by (simp only: resolve_path.simps lineage_parent(1) [OF assms(1) lin] unique_child [OF assms(1) c(1)]) simp
  finally show ?case using forest_row(1) [OF assms(1) c(1)] c(2) by simp
qed

text \<open>\<open>sole_rid t res c\<close>: among its siblings in the resource, only \<open>c\<close> has its remote id.\<close>

definition sole_rid :: "tables \<Rightarrow> int \<Rightarrow> collection_row \<Rightarrow> bool" where
  "sole_rid t res c \<longleftrightarrow>
     filter (\<lambda>d. col_parentId d = col_parentId c \<and> col_remoteId d = col_remoteId c \<and> col_resourceId d = res) (t_collections t) = [c]"

lemma resolve_rids_sound:
  assumes "collections_forest t"
  shows "lineage t p ps \<Longrightarrow> resolve_rids True t res rids p (Collection_retrieveById t p) = Inr c \<Longrightarrow>
    \<exists>cs. (c = Collection_retrieveById t p \<and> cs = [] \<or> cs \<noteq> [] \<and> c = hd cs \<and> lineage t (col_id c) (cs @ ps)) \<and>
      rev (map col_remoteId cs) = rids \<and> list_all (sole_rid t res) cs"
proof (induction rids arbitrary: p ps)
  case (Cons rid rids)
  let ?rows = "filter (\<lambda>c. child_of p c \<and> col_remoteId c = rid \<and> col_resourceId c = res) (t_collections t)"
  obtain d where d: "?rows = [d]" and rest: "resolve_rids True t res rids (col_id d) d = Inr c"
    using Cons.prems(2) by (auto split: list.splits)
  have in_d: "d \<in> set (t_collections t)" "col_parentId d = p" "col_remoteId d = rid" "col_resourceId d = res"
    using arg_cong [OF d, of set] lineage_parent(2) [OF assms Cons.prems(1)] by auto
  have sole: "sole_rid t res d" using d in_d by (simp add: sole_rid_def lineage_parent(2) [OF assms Cons.prems(1)])
  have lin: "lineage t (col_id d) (d # ps)" using in_d Cons.prems(1) by simp
  obtain cs where cs: "c = d \<and> cs = [] \<or> cs \<noteq> [] \<and> c = hd cs \<and> lineage t (col_id c) (cs @ d # ps)"
      "rev (map col_remoteId cs) = rids" "list_all (sole_rid t res) cs"
    using Cons.IH [OF lin] rest forest_row(1) [OF assms in_d(1)] by metis
  have "cs @ [d] \<noteq> [] \<and> c = hd (cs @ [d]) \<and> lineage t (col_id c) ((cs @ [d]) @ ps)" using cs(1) lin by (auto simp: hd_append)
  then show ?case using cs(2, 3) sole in_d(3) by (intro exI [of _ "cs @ [d]"]) auto
qed simp

lemma resolve_rids_complete:
  assumes "collections_forest t"
  shows "lineage t p cs \<Longrightarrow> list_all (sole_rid t res) cs \<Longrightarrow>
    resolve_rids True t res (rev (map col_remoteId cs) @ rids) 0 row_new = resolve_rids True t res rids p (Collection_retrieveById t p)"
proof (induction cs arbitrary: p rids)
  case Nil
  then show ?case by (simp add: retrieve_zero [OF assms])
next
  case (Cons c cs)
  have lin: "lineage t (col_parentId c) cs" and c: "c \<in> set (t_collections t)" "col_id c = p" using Cons.prems(1) by simp_all
  have "resolve_rids True t res (rev (map col_remoteId (c # cs)) @ rids) 0 row_new = resolve_rids True t res rids p c"
    using Cons.IH [OF lin, of "col_remoteId c # rids"] Cons.prems(2) c(2)
    by (simp add: sole_rid_def lineage_parent(2) [OF assms lin])
  then show ?case using forest_row(1) [OF assms c(1)] c(2) by simp
qed

section \<open>Moving in the forest\<close>

definition moved :: "tables \<Rightarrow> collection_row \<Rightarrow> int \<Rightarrow> tables" where
  "moved t c p = t\<lparr>t_collections :=
     map (\<lambda>x. if col_id x = col_id c then x\<lparr>col_parentId := p\<rparr> else x) (t_collections t)\<rparr>"

lemma meets_lineage:
  assumes "collections_forest t" and "c \<in> set (t_collections t)"
  shows "lineage t (col_id p) (p # ps) \<Longrightarrow> meets t c p = Some (c \<in> set (p # ps))"
proof (induction ps arbitrary: p)
  case Nil
  then show ?case using forest_eq [OF assms(1) _ assms(2), of p] by (subst meets.simps) auto
next
  case (Cons q qs)
  then have p: "p \<in> set (t_collections t)" and q: "q \<in> set (t_collections t)" "col_parentId p = col_id q" "lineage t (col_id q) (q # qs)"
    by auto
  then have "meets t c q = Some (c \<in> set (q # qs))" "Collection_retrieveById t (col_id q) = q" "col_id q \<noteq> 0"
    using Cons.IH forest_row [OF assms(1) q(1)] by auto
  then show ?case using forest_eq [OF assms(1) p assms(2)] q(2) by (subst meets.simps) auto
qed

lemma moved_lineage_away:
  "c \<notin> set cs \<Longrightarrow> collections_forest t \<Longrightarrow> c \<in> set (t_collections t) \<Longrightarrow> lineage t q cs \<Longrightarrow> lineage (moved t c p) q cs"
proof (induction cs arbitrary: q)
  case (Cons x xs)
  then have "col_id x \<noteq> col_id c" using forest_eq [of t x c] by auto
  then have "x \<in> set (t_collections (moved t c p))" using Cons.prems(4) by (force simp: moved_def)
  then show ?case using Cons by auto
qed simp

lemma moved_lineage_below:
  assumes "collections_forest t" and "c \<in> set (t_collections t)" and "lineage t p ps" and "c \<notin> set ps"
  shows "lineage t q cs \<Longrightarrow> \<exists>ds. lineage (moved t c p) q ds"
proof (induction cs arbitrary: q)
  case (Cons x xs)
  show ?case
  proof (cases "x = c")
    case True
    have "c\<lparr>col_parentId := p\<rparr> \<in> set (t_collections (moved t c p))" using assms(2) by (force simp: moved_def)
    then have "lineage (moved t c p) q (c\<lparr>col_parentId := p\<rparr> # ps)"
      using moved_lineage_away [OF assms(4, 1, 2, 3)] Cons.prems True by simp
    then show ?thesis by blast
  next
    case False
    then have "col_id x \<noteq> col_id c" using Cons.prems forest_eq [OF assms(1) _ assms(2)] by auto
    then have "x \<in> set (t_collections (moved t c p))" using Cons.prems by (force simp: moved_def)
    moreover obtain ds where "lineage (moved t c p) (col_parentId x) ds" using Cons by auto
    ultimately have "lineage (moved t c p) q (x # ds)" using Cons.prems by simp
    then show ?thesis by blast
  qed
next
  case Nil
  then have "lineage (moved t c p) q []" by simp
  then show ?case by blast
qed

lemma moved_other: "x \<in> set (t_collections (moved t c p)) \<Longrightarrow> col_id x \<noteq> col_id c \<Longrightarrow> x \<in> set (t_collections t)"
  by (auto simp: moved_def)

lemma moved_cycle:
  assumes "collections_forest t" and "c \<in> set (t_collections t)"
  shows "c \<in> set cs \<Longrightarrow> lineage t q cs \<Longrightarrow> lineage (moved t c p) q es \<Longrightarrow>
    \<exists>fs. length fs \<le> length es \<and> lineage (moved t c p) (col_id c) fs"
proof (induction cs arbitrary: q es)
  case (Cons x xs)
  show ?case
  proof (cases "x = c")
    case False
    then have c: "c \<in> set xs" and x: "x \<in> set (t_collections t)" "col_id x = q" "lineage t (col_parentId x) xs"
      and ids: "col_id x \<noteq> col_id c"
      using Cons.prems(1, 2) forest_eq [OF assms(1) _ assms(2), of x] by auto
    obtain y ys where es: "es = y # ys" using Cons.prems(3) forest_row(2) [OF assms(1) x(1)] x(2) by (cases es) auto
    then have y: "y \<in> set (t_collections (moved t c p))" "col_id y = col_id x" using Cons.prems(3) x(2) by simp_all
    then have "y = x" using moved_other [OF y(1)] ids by (intro forest_eq [OF assms(1) _ x(1)]) simp_all
    then have "lineage (moved t c p) (col_parentId x) ys" using Cons.prems(3) es by simp
    from Cons.IH [OF c x(3) this] show ?thesis using es by (auto intro: le_SucI)
  qed (use Cons.prems in auto)
qed simp

lemma hasAllowedName_iff:
  assumes "collections_forest t" and "lineage t p ps" and "c \<in> set (t_collections t)"
  shows "hasAllowedName True t c (col_name c) p \<longleftrightarrow>
    (\<forall>d \<in> set (t_collections t). col_parentId d = p \<and> col_name d = col_name c \<longrightarrow> d = c)"
proof -
  let ?rows = "filter (\<lambda>d. col_parentId d = p \<and> col_name d = col_name c) (t_collections t)"
  have single: "?rows = [d]" "d \<in> set (t_collections t)" if d: "d \<in> set ?rows" for d
  proof -
    have in_d: "d \<in> set (t_collections t)" "col_parentId d = p" "col_name d = col_name c" using d by simp_all
    then show "?rows = [d]" using unique_child [OF assms(1), of d] by (simp add: conj_commute)
    show "d \<in> set (t_collections t)" by (rule in_d(1))
  qed
  consider "?rows = []" | d where "?rows = [d]" "d \<in> set (t_collections t)"
  proof (cases ?rows)
    case (Cons d ds)
    then have "d \<in> set ?rows" by (simp only:) simp
    from that(2) [OF single [OF this]] show ?thesis .
  qed (rule that(1))
  then show ?thesis
  proof cases
    case 1
    then show ?thesis by (auto simp: hasAllowedName_def lineage_parent(2) [OF assms(1, 2)] filter_empty_conv)
  next
    case 2
    have "(\<forall>e \<in> set (t_collections t). col_parentId e = p \<and> col_name e = col_name c \<longrightarrow> e = c) \<longleftrightarrow> (\<forall>e \<in> set ?rows. e = c)" by auto
    also have "\<dots> \<longleftrightarrow> d = c" by (simp only: 2(1)) simp
    also have "\<dots> \<longleftrightarrow> col_id d = col_id c" using forest_eq [OF assms(1) 2(2) assms(3)] by blast
    finally show ?thesis using 2(1) by (simp add: hasAllowedName_def lineage_parent(2) [OF assms(1, 2)])
  qed
qed

lemma moved_names:
  assumes "collections_forest t" and "c \<in> set (t_collections t)"
  shows "distinct (map (\<lambda>c. (col_parentId c, col_name c)) (t_collections (moved t c p))) \<longleftrightarrow>
    (\<forall>d \<in> set (t_collections t). col_parentId d = p \<and> col_name d = col_name c \<longrightarrow> d = c)" (is "?L \<longleftrightarrow> ?R")
proof -
  let ?f = "\<lambda>x. if col_id x = col_id c then x\<lparr>col_parentId := p\<rparr> else x"
  let ?k = "\<lambda>c. (col_parentId c, col_name c)"
  have d: "distinct (t_collections t)" "inj_on ?k (set (t_collections t))"
    using assms(1) by (simp_all add: collections_forest_def distinct_map)
  have id: "x = c \<longleftrightarrow> col_id x = col_id c" if "x \<in> set (t_collections t)" for x using forest_eq [OF assms(1) that assms(2)] by blast
  have "?L \<longleftrightarrow> inj_on (\<lambda>x. ?k (?f x)) (set (t_collections t))" using d(1) by (simp add: moved_def distinct_map comp_def)
  also have "\<dots> \<longleftrightarrow> ?R"
  proof
    assume L: "inj_on (\<lambda>x. ?k (?f x)) (set (t_collections t))"
    show ?R
    proof (intro ballI impI)
      fix e assume e: "e \<in> set (t_collections t)" "col_parentId e = p \<and> col_name e = col_name c"
      then have "?k (?f e) = ?k (?f c)" by auto
      then show "e = c" using inj_onD [OF L] e(1) assms(2) by blast
    qed
  next
    assume R: ?R
    show "inj_on (\<lambda>x. ?k (?f x)) (set (t_collections t))"
    proof (rule inj_onI)
      fix x y assume x: "x \<in> set (t_collections t)" and y: "y \<in> set (t_collections t)" and eq: "?k (?f x) = ?k (?f y)"
      show "x = y"
        using eq R x y id [OF x] id [OF y] inj_onD [OF d(2), of x y] by (auto split: if_splits)
    qed
  qed
  finally show ?thesis .
qed

lemma chain_resolves:
  assumes "collections_forest t" and "lineage t (col_id c) (c # cs)" and "list_all (sole_rid t res) (c # cs)"
    and "map snd hs = map col_remoteId (c # cs)"
  shows "resolveHierarchicalRID True t (hs @ [(0, [])]) res = Inr c"
proof -
  have "hs \<noteq> []" using assms(4) by auto
  then show ?thesis
    using resolve_rids_complete [OF assms(1, 2, 3), of "[]"] assms(2) forest_row(1) [OF assms(1), of c]
    by (simp add: resolveHierarchicalRID_def assms(4))
qed

lemma canBeMovedTo_forest:
  assumes "collections_forest t" and "c \<in> set (t_collections t)" and "p \<in> set (t_collections t) \<or> p = row_new\<lparr>col_id := 0\<rparr>"
  shows "canBeMovedTo True t c p = Some (collections_forest (moved t c (col_id p)))"
proof -
  let ?t = "moved t c (col_id p)"
  obtain ps where ps: "lineage t (col_id p) ps" "meets t c p = Some (c \<in> set ps)"
  proof (cases "p \<in> set (t_collections t)")
    case True
    then obtain ps where "lineage t (col_id p) (p # ps)" using forest_row(3) lineage_Cons assms(1) by blast
    then show ?thesis using that meets_lineage [OF assms(1, 2)] by blast
  next
    case False
    then have "lineage t (col_id p) []" "meets t c p = Some False"
      using assms(3) forest_row(2) [OF assms(1, 2)] by (auto simp: meets.simps row_new_def)
    then show ?thesis using that [of "[]"] by simp
  qed
  have "entity_isValid (col_id p)" using assms(3) forest_row(2) [OF assms(1), of p] by (auto simp: entity_isValid_def)
  then have can: "canBeMovedTo True t c p = Some (c \<notin> set ps \<and>
      distinct (map (\<lambda>c. (col_parentId c, col_name c)) (t_collections ?t)))"
    using ps(2) hasAllowedName_iff [OF assms(1) ps(1) assms(2)] moved_names [OF assms(1, 2)] by (simp add: canBeMovedTo_def)
  have ids: "map col_id (t_collections ?t) = map col_id (t_collections t)" by (simp add: moved_def)
  have pos: "0 < col_id x \<and> col_id x \<in> col_id ` set (t_collections t)" if "x \<in> set (t_collections ?t)" for x
    using that arg_cong [OF ids, of set] forest_row(2) [OF assms(1)] by (metis (no_types, lifting) image_eqI image_iff image_set)
  have "c \<notin> set ps" if f: "collections_forest ?t"
  proof
    assume c: "c \<in> set ps"
    have c': "c\<lparr>col_parentId := col_id p\<rparr> \<in> set (t_collections ?t)" using assms(2) by (force simp: moved_def)
    then obtain es where es: "lineage ?t (col_id c) (c\<lparr>col_parentId := col_id p\<rparr> # es)" "lineage ?t (col_id p) es"
      using forest_row(3) [OF f c'] lineage_Cons [OF f c'] by auto
    then obtain fs where "length fs \<le> length es" "lineage ?t (col_id c) fs"
      using moved_cycle [OF assms(1, 2) c ps(1)] by blast
    then show False using lineage_unique [OF f es(1)] by fastforce
  qed
  moreover have "\<exists>cs. lineage ?t (col_id x) cs" if "c \<notin> set ps" "x \<in> set (t_collections ?t)" for x
    using moved_lineage_below [OF assms(1, 2) ps(1) that(1)] pos [OF that(2)] forest_row(3) [OF assms(1)] by (metis imageE)
  ultimately have "collections_forest ?t \<longleftrightarrow> c \<notin> set ps \<and>
      distinct (map (\<lambda>c. (col_parentId c, col_name c)) (t_collections ?t))"
    using assms(1) ids pos unfolding collections_forest_def by auto
  then show ?thesis using can by simp
qed

text \<open>Two nested collections of one resource, for the examples.\<close>

definition sample_mail :: collection_row where
  "sample_mail = row_new\<lparr>col_id := 2, col_name := ''Mail'', col_remoteId := ''m'', col_resourceId := 5\<rparr>"

definition sample_inbox :: collection_row where
  "sample_inbox = row_new\<lparr>col_id := 7, col_parentId := 2, col_name := ''In'', col_remoteId := ''i'', col_resourceId := 5\<rparr>"

definition sample_tables :: tables where
  "sample_tables = empty_tables\<lparr>t_collections := [sample_mail, sample_inbox]\<rparr>"

lemmas sample_defs = sample_mail_def sample_inbox_def sample_tables_def empty_tables_def row_new_def

lemma sample_lineage: "lineage sample_tables 2 [sample_mail]" "lineage sample_tables 7 [sample_inbox, sample_mail]"
  by (simp_all add: sample_defs)

lemma sample_forest: "collections_forest sample_tables"
proof -
  have "t_collections sample_tables = [sample_mail, sample_inbox]" "col_id sample_mail = 2" "col_id sample_inbox = 7"
    by (simp_all add: sample_tables_def sample_mail_def sample_inbox_def)
  then have "\<forall>c \<in> set (t_collections sample_tables). 0 < col_id c \<and> (\<exists>cs. lineage sample_tables (col_id c) cs)"
    using exI [of "lineage sample_tables 2", OF sample_lineage(1)] exI [of "lineage sample_tables 7", OF sample_lineage(2)] by simp
  moreover have "distinct (map col_id (t_collections sample_tables))"
    "distinct (map (\<lambda>c. (col_parentId c, col_name c)) (t_collections sample_tables))" by (simp_all add: sample_defs)
  ultimately show ?thesis by (simp add: collections_forest_def)
qed

section \<open>Properties\<close>

text \<open>(C31) A chain of remote ids resolves to a collection exactly when the collection has this chain as the remote ids of its
  ancestors up to a root and at each level no sibling of the resource shares the remote id; in every other case the
  resolution raises an error.\<close>

theorem hierarchical_rid_resolves:
  assumes "collections_forest t"
  shows "resolveHierarchicalRID True t (hs @ [(0, [])]) res = Inr c \<longleftrightarrow>
    (\<exists>cs. lineage t (col_id c) (c # cs) \<and> map col_remoteId (c # cs) = map snd hs \<and> list_all (sole_rid t res) (c # cs))"
proof
  assume res: "resolveHierarchicalRID True t (hs @ [(0, [])]) res = Inr c"
  then have "hs \<noteq> []" and "resolve_rids True t res (rev (map snd hs)) 0 (Collection_retrieveById t 0) = Inr c"
    by (auto simp: resolveHierarchicalRID_def retrieve_zero [OF assms] split: if_splits)
  then show "\<exists>cs. lineage t (col_id c) (c # cs) \<and> map col_remoteId (c # cs) = map snd hs \<and> list_all (sole_rid t res) (c # cs)"
    using resolve_rids_sound [OF assms, of 0 "[]" res "rev (map snd hs)" c]
    by (metis append_Nil2 lineage.simps(1) list.collapse map_is_Nil_conv rev_is_Nil_conv rev_map rev_swap)
next
  assume "\<exists>cs. lineage t (col_id c) (c # cs) \<and> map col_remoteId (c # cs) = map snd hs \<and> list_all (sole_rid t res) (c # cs)"
  then obtain cs where cs: "lineage t (col_id c) (c # cs)" "map col_remoteId (c # cs) = map snd hs" "list_all (sole_rid t res) (c # cs)"
    by blast
  then show "resolveHierarchicalRID True t (hs @ [(0, [])]) res = Inr c" using chain_resolves [OF assms cs(1, 3)] by simp
qed

theorem hierarchical_rid_resolves_witness:
  "resolveHierarchicalRID True sample_tables [(7, ''i''), (2, ''m''), (0, [])] 5 = Inr sample_inbox"
proof -
  have "\<exists>cs. lineage sample_tables (col_id sample_inbox) (sample_inbox # cs) \<and>
      map col_remoteId (sample_inbox # cs) = map snd [(7 :: int, ''i''), (2, ''m'')] \<and>
      list_all (sole_rid sample_tables 5) (sample_inbox # cs)"
    by (rule exI [of _ "[sample_mail]"]) (simp add: sole_rid_def sample_defs)
  then show ?thesis using hierarchical_rid_resolves [OF sample_forest, of "[(7, ''i''), (2, ''m'')]" 5 sample_inbox] by simp
qed

text \<open>(C18) \<open>canBeMovedTo\<close> decides exactly whether the move keeps the collections a forest: for a collection and a new parent of the table
  (or the root, which has the id 0), it terminates, and it allows the move if and only if afterwards no collection is its own
  ancestor, every parent exists and no two siblings have the same name.\<close>

theorem canBeMovedTo_decides:
  assumes "collections_forest t" and "c \<in> set (t_collections t)" and "p \<in> set (t_collections t) \<or> p = row_new\<lparr>col_id := 0\<rparr>"
  shows "canBeMovedTo True t c p = Some (collections_forest (moved t c (col_id p)))"
  by (rule canBeMovedTo_forest [OF assms])

theorem canBeMovedTo_decides_witness:
  "canBeMovedTo True sample_tables sample_mail sample_inbox = Some False \<and>
   \<not> collections_forest (moved sample_tables sample_mail 7) \<and>
   collections_forest (moved sample_tables sample_inbox 0)"
proof -
  have in_t: "sample_mail \<in> set (t_collections sample_tables)" "sample_inbox \<in> set (t_collections sample_tables)"
    by (simp_all add: sample_tables_def)
  have m: "meets sample_tables sample_mail sample_inbox = Some True"
    using meets_lineage [OF sample_forest in_t(1), of sample_inbox "[sample_mail]"] sample_lineage(2) by (simp add: sample_inbox_def)
  have "canBeMovedTo True sample_tables sample_mail sample_inbox = Some False"
    unfolding canBeMovedTo_def m by (simp add: sample_defs entity_isValid_def)
  moreover have "canBeMovedTo True sample_tables sample_inbox (row_new\<lparr>col_id := 0\<rparr>) = Some True"
    unfolding canBeMovedTo_def
    by (subst meets.simps) (simp add: sample_defs entity_isValid_def hasAllowedName_def child_of_def)
  moreover have "col_id sample_inbox = 7" by (simp add: sample_inbox_def)
  ultimately show ?thesis
    using canBeMovedTo_decides [OF sample_forest in_t(1), of sample_inbox] in_t(2)
      canBeMovedTo_decides [OF sample_forest in_t(2), of "row_new\<lparr>col_id := 0\<rparr>"] by simp
qed

text \<open>The path of a collection leads back to it: in a forest whose names are not empty and contain no slash, the path is always
  found, and unless it reads as a number, looking it up gives the same collection.\<close>

theorem path_leads_back:
  assumes "collections_forest t" and "c \<in> set (t_collections t)"
    and "list_all (\<lambda>d. col_name d \<noteq> [] \<and> CHR ''/'' \<notin> set (col_name d)) (t_collections t)"
  shows "\<exists>path. pathForCollection t c = Some path \<and> (toLongLong path = None \<longrightarrow> collectionFromIdOrName True t path = c)"
proof -
  obtain cs where cs: "lineage t (col_id c) (c # cs)" using forest_row(3) lineage_Cons assms(1, 2) by blast
  let ?parts = "rev (map col_name (c # cs))"
  have rows: "lineage t q xs \<Longrightarrow> set xs \<subseteq> set (t_collections t)" for q xs by (induction xs arbitrary: q) auto
  have names: "list_all (\<lambda>w. w \<noteq> [] \<and> CHR ''/'' \<notin> set w) ?parts"
    using assms(3) rows [OF cs] by (auto simp: list_all_iff)
  then have "split_on CHR ''/'' (join_with CHR ''/'' ?parts) = ?parts"
    by (intro split_on_join_with) (auto simp: list_all_iff)
  moreover have "filter (\<lambda>w. w \<noteq> []) ?parts = ?parts" using names by (auto simp: filter_id_conv list_all_iff)
  moreover have "resolve_path True t ?parts row_new = c"
    using resolve_lineage [OF assms(1) cs, of "[]"] forest_row(1) [OF assms(1, 2)] by (simp only: append_Nil2 resolve_path.simps)
  ultimately have lookup: "toLongLong (join_with CHR ''/'' ?parts) = None \<longrightarrow>
      collectionFromIdOrName True t (join_with CHR ''/'' ?parts) = c"
    by (simp only: collectionFromIdOrName_def option.case split: option.split) simp
  have "pathForCollection t c = Some (join_with CHR ''/'' ?parts)"
    using lineage_path [OF assms(1) cs, of "[]"] forest_row(1) [OF assms(1, 2)]
    by (simp only: pathForCollection_def option.map append_Nil2)
  then show ?thesis using lookup by (intro exI conjI)
qed

theorem path_leads_back_witness:
  "\<exists>path. pathForCollection sample_tables sample_inbox = Some path \<and>
     (toLongLong path = None \<longrightarrow> collectionFromIdOrName True sample_tables path = sample_inbox)"
  by (rule path_leads_back [OF sample_forest]) (simp_all add: sample_defs)

end
