(* ===== verification/CollectionStatistics.thy ===== *)
theory CollectionStatistics
  imports Tables
begin

text \<open>
  The cache of \<open>src/server/storage/collectionstatistics.cpp\<close>: counts of a collection that are computed by a query and then kept
  up to date by increments.
\<close>

section \<open>Flags\<close>

definition flag_seen :: string where
  "flag_seen = BS # ''SEEN''"

definition flag_ignored :: string where
  "flag_ignored = ''$IGNORED''"

section \<open>The query\<close>

record statistics =
  st_count :: int
  st_size :: int
  st_read :: int

definition is_read :: "tables \<Rightarrow> int \<Rightarrow> bool" where
  "is_read t i \<longleftrightarrow> (i, flag_seen) \<in> t_flags t \<or> (i, flag_ignored) \<in> t_flags t"

definition rows_of :: "tables \<Rightarrow> collection_row \<Rightarrow> pim_item list" where
  "rows_of t col =
     (if col_isVirtual col then filter (\<lambda>i. (col_id col, item_id i) \<in> set (t_links t)) (t_items t)
      else filter (\<lambda>i. item_collectionId i = col_id col) (t_items t))"

text \<open>\<open>prepareGenericQuery\<close> and \<open>calculateCollectionStatistics\<close>; \<open>ok\<close> says whether the query succeeds.\<close>

definition calculateCollectionStatistics :: "bool \<Rightarrow> tables \<Rightarrow> collection_row \<Rightarrow> statistics" where
  "calculateCollectionStatistics ok t col =
     (if \<not> ok then \<lparr>st_count = -1, st_size = -1, st_read = -1\<rparr>
      else (let rows = rows_of t col in
        \<lparr>st_count = int (length rows), st_size = sum_list (map item_size rows),
         st_read = int (length (filter (\<lambda>i. is_read t (item_id i)) rows))\<rparr>))"

section \<open>The cache\<close>

type_synonym stat_cache = "int \<rightharpoonup> statistics"

definition stats_itemAdded :: "bool \<Rightarrow> tables \<Rightarrow> collection_row \<Rightarrow> int \<Rightarrow> bool \<Rightarrow> stat_cache \<Rightarrow> stat_cache" where
  "stats_itemAdded ok t col sz seen m =
     (if \<not> entity_isValid (col_id col) then m
      else
        (case m (col_id col) of
           Some s \<Rightarrow> m(col_id col \<mapsto> \<lparr>st_count = st_count s + 1, st_size = st_size s + sz,
                       st_read = st_read s + (if seen then 1 else 0)\<rparr>)
         | None \<Rightarrow> m(col_id col \<mapsto> calculateCollectionStatistics ok t col)))"

definition stats_itemsSeenChanged :: "bool \<Rightarrow> tables \<Rightarrow> collection_row \<Rightarrow> int \<Rightarrow> stat_cache \<Rightarrow> stat_cache" where
  "stats_itemsSeenChanged ok t col seenCount m =
     (if \<not> entity_isValid (col_id col) then m
      else
        (case m (col_id col) of
           Some s \<Rightarrow> m(col_id col \<mapsto> s\<lparr>st_read := st_read s + seenCount\<rparr>)
         | None \<Rightarrow> m(col_id col \<mapsto> calculateCollectionStatistics ok t col)))"

definition stats_invalidate :: "collection_row \<Rightarrow> stat_cache \<Rightarrow> stat_cache" where
  "stats_invalidate col m = (if \<not> entity_isValid (col_id col) then m else m(col_id col := None))"

definition stats_expireCache :: "stat_cache \<Rightarrow> stat_cache" where
  "stats_expireCache m = Map.empty"

definition stats_statistics :: "bool \<Rightarrow> tables \<Rightarrow> collection_row \<Rightarrow> stat_cache \<Rightarrow> statistics \<times> stat_cache" where
  "stats_statistics ok t col m =
     (case m (col_id col) of
        Some s \<Rightarrow> (s, m)
      | None \<Rightarrow>
          (let s = calculateCollectionStatistics ok t col in (s, m(col_id col \<mapsto> s))))"

text \<open>The constructor with \<open>prefetch\<close>: one query grouped by collection, one grouped by virtual collection, and then empty
  statistics for the enabled real collections that had no row. A query that fails ends the prefetch.\<close>

definition grouped :: "(int \<Rightarrow> pim_item list) \<Rightarrow> tables \<Rightarrow> int list \<Rightarrow> stat_cache \<Rightarrow> stat_cache" where
  "grouped rows t ids m =
     fold (\<lambda>c m. m(c \<mapsto> \<lparr>st_count = int (length (rows c)), st_size = sum_list (map item_size (rows c)),
       st_read = int (length (filter (\<lambda>i. is_read t (item_id i)) (rows c)))\<rparr>)) ids m"

definition prefetch :: "bool \<Rightarrow> bool \<Rightarrow> bool \<Rightarrow> tables \<Rightarrow> stat_cache" where
  "prefetch ok1 ok2 ok3 t =
     (if \<not> ok1 then Map.empty
      else
        (let m = grouped (\<lambda>c. filter (\<lambda>i. item_collectionId i = c) (t_items t)) t
               (remdups (map item_collectionId (t_items t))) Map.empty
         in if \<not> ok2 then m
            else
              (let m = grouped (\<lambda>c. filter (\<lambda>i. (c, item_id i) \<in> set (t_links t)) (t_items t)) t
                     (remdups (map fst (filter (\<lambda>(c, i). i \<in> item_id ` set (t_items t)) (t_links t)))) m
               in if \<not> ok3 then m
                  else fold (\<lambda>c m. if m c = None then m(c \<mapsto> \<lparr>st_count = 0, st_size = 0, st_read = 0\<rparr>) else m)
                         (map col_id (filter (\<lambda>c. col_enabled c \<and> \<not> col_isVirtual c) (t_collections t))) m)))"

section \<open>Coherence\<close>

text \<open>A cached entry is what the query would give.\<close>

definition coherent :: "tables \<Rightarrow> stat_cache \<Rightarrow> bool" where
  "coherent t m \<longleftrightarrow> (\<forall>c s. m c = Some s \<longrightarrow>
     s = calculateCollectionStatistics True t ((Collection_retrieveById t c)\<lparr>col_id := c\<rparr>))"

text \<open>The schema: collections have distinct ids, virtual collections have no items of their own and only they are linked to
  items.\<close>

definition tables_ok :: "tables \<Rightarrow> bool" where
  "tables_ok t \<longleftrightarrow> distinct (map col_id (t_collections t)) \<and> distinct (map item_id (t_items t)) \<and>
     list_all (\<lambda>c. (col_isVirtual c \<longrightarrow> list_all (\<lambda>i. item_collectionId i \<noteq> col_id c) (t_items t)) \<and>
       (\<not> col_isVirtual c \<longrightarrow> list_all (\<lambda>l. fst l \<noteq> col_id c) (t_links t))) (t_collections t) \<and>
     list_all (\<lambda>i. item_collectionId i \<in> col_id ` set (t_collections t)) (t_items t) \<and>
     list_all (\<lambda>l. fst l \<in> col_id ` set (t_collections t)) (t_links t)"

lemma grouped_apply:
  "grouped rows t ids m c = (if c \<in> set ids then Some \<lparr>st_count = int (length (rows c)),
     st_size = sum_list (map item_size (rows c)), st_read = int (length (filter (\<lambda>i. is_read t (item_id i)) (rows c)))\<rparr> else m c)"
  unfolding grouped_def by (induction ids arbitrary: m) auto

lemma fill_apply:
  "fold (\<lambda>c m. if m c = None then m(c \<mapsto> z) else m) ids m c = (if c \<in> set ids \<and> m c = None then Some z else m c)"
  by (induction ids arbitrary: m) auto

lemma prefetch_entry:
  assumes "tables_ok t" and "c \<in> set (t_collections t)"
    and "rows_of t c \<noteq> [] \<or> (col_enabled c \<and> \<not> col_isVirtual c)"
  shows "prefetch True True True t (col_id c) = Some (calculateCollectionStatistics True t c)"
proof (cases "col_isVirtual c")
  case True
  then have rows: "rows_of t c = filter (\<lambda>i. (col_id c, item_id i) \<in> set (t_links t)) (t_items t)" by (simp add: rows_of_def)
  then obtain i where "i \<in> set (t_items t)" "(col_id c, item_id i) \<in> set (t_links t)"
    using assms(3) True by (metis (mono_tags, lifting) filter_empty_conv)
  then have "col_id c \<in> set (map fst (filter (\<lambda>(c, i). i \<in> item_id ` set (t_items t)) (t_links t)))" by force
  then show ?thesis using rows by (simp add: prefetch_def Let_def fill_apply grouped_apply calculateCollectionStatistics_def)
next
  case False
  then have "col_id c \<notin> fst ` set (t_links t)" using assms(1, 2) by (fastforce simp: tables_ok_def list_all_iff)
  then have nolink: "col_id c \<notin> set (map fst (filter (\<lambda>(c, i). i \<in> item_id ` set (t_items t)) (t_links t)))" by force
  have rows: "rows_of t c = filter (\<lambda>i. item_collectionId i = col_id c) (t_items t)" using False by (simp add: rows_of_def)
  show ?thesis
  proof (cases "col_id c \<in> set (map item_collectionId (t_items t))")
    case True
    then show ?thesis using nolink rows
      by (simp add: prefetch_def Let_def fill_apply grouped_apply calculateCollectionStatistics_def)
  next
    case out: False
    then have empty: "rows_of t c = []" unfolding rows by (force simp: filter_empty_conv)
    then have "col_enabled c" using assms(3) by simp
    then have "col_id c \<in> set (map col_id (filter (\<lambda>c. col_enabled c \<and> \<not> col_isVirtual c) (t_collections t)))"
      using False assms(2) by auto
    then show ?thesis using nolink out empty
      by (simp add: prefetch_def Let_def fill_apply grouped_apply calculateCollectionStatistics_def)
  qed
qed

lemma tables_okD:
  assumes "tables_ok t" and "c \<in> set (t_collections t)"
  shows "col_isVirtual c \<Longrightarrow> i \<in> set (t_items t) \<Longrightarrow> item_collectionId i \<noteq> col_id c"
    and "\<not> col_isVirtual c \<Longrightarrow> l \<in> set (t_links t) \<Longrightarrow> fst l \<noteq> col_id c"
  using assms by (auto simp: tables_ok_def list_all_iff)

lemma prefetch_none:
  assumes "tables_ok t" and "c \<in> set (t_collections t)" and "rows_of t c = []" and "\<not> (col_enabled c \<and> \<not> col_isVirtual c)"
  shows "prefetch True True True t (col_id c) = None"
proof -
  have d: "distinct (map col_id (t_collections t))" using assms(1) by (simp add: tables_ok_def)
  have "col_id c \<notin> set (map col_id (filter (\<lambda>c. col_enabled c \<and> \<not> col_isVirtual c) (t_collections t)))"
  proof
    assume "col_id c \<in> set (map col_id (filter (\<lambda>c. col_enabled c \<and> \<not> col_isVirtual c) (t_collections t)))"
    then obtain r where "r \<in> set (t_collections t)" "col_id r = col_id c" "col_enabled r \<and> \<not> col_isVirtual r" by auto
    moreover from this have "r = c" using retrieve_row [OF d] assms(2) by metis
    ultimately show False using assms(4) by simp
  qed
  moreover have "col_id c \<notin> set (map item_collectionId (t_items t))"
    using tables_okD(1) [OF assms(1, 2)] assms(3)
    by (cases "col_isVirtual c") (force simp: rows_of_def filter_empty_conv)+
  moreover have "col_id c \<notin> set (map fst (filter (\<lambda>(c, i). i \<in> item_id ` set (t_items t)) (t_links t)))"
    using tables_okD(2) [OF assms(1, 2)] assms(3)
    by (cases "col_isVirtual c") (force simp: rows_of_def filter_empty_conv)+
  ultimately show ?thesis by (simp add: prefetch_def Let_def fill_apply grouped_apply)
qed

lemma prefetch_ids:
  assumes "tables_ok t" and "prefetch True True True t c = Some s"
  shows "c \<in> col_id ` set (t_collections t)"
proof -
  have "c \<in> set (map col_id (filter (\<lambda>c. col_enabled c \<and> \<not> col_isVirtual c) (t_collections t))) \<or>
      c \<in> set (map item_collectionId (t_items t)) \<or> c \<in> fst ` set (t_links t)"
    using assms(2) by (auto simp: prefetch_def Let_def fill_apply grouped_apply split: if_splits)
  then show ?thesis using assms(1) by (auto simp: tables_ok_def list_all_iff)
qed

text \<open>What a change of the tables does to one collection.\<close>

definition stats_of :: "tables \<Rightarrow> int \<Rightarrow> statistics" where
  "stats_of t c = calculateCollectionStatistics True t ((Collection_retrieveById t c)\<lparr>col_id := c\<rparr>)"

lemma coherent_update:
  assumes "coherent t m" and "\<And>d. d \<noteq> c \<Longrightarrow> stats_of t' d = stats_of t d" and "s = stats_of t' c"
  shows "coherent t' (m(c \<mapsto> s))"
  using assms by (auto simp: coherent_def stats_of_def)

lemma real_rows: "\<not> col_isVirtual r \<Longrightarrow> rows_of t r = filter (\<lambda>i. item_collectionId i = col_id r) (t_items t)"
  by (simp add: rows_of_def)

section \<open>Properties\<close>

text \<open>The prefetch is equivalent to the single queries: after it, every collection with items and every enabled real collection
  has exactly the statistics that the query for this collection gives, and nothing else is in the cache.\<close>

theorem prefetch_equals_queries:
  assumes "tables_ok t" and "c \<in> set (t_collections t)"
  shows "prefetch True True True t (col_id c) =
     (if rows_of t c \<noteq> [] \<or> (col_enabled c \<and> \<not> col_isVirtual c) then Some (calculateCollectionStatistics True t c) else None)
   \<and> coherent t (prefetch True True True t)"
proof -
  have d: "distinct (map col_id (t_collections t))" using assms(1) by (simp add: tables_ok_def)
  have entry: "prefetch True True True t (col_id c) =
     (if rows_of t c \<noteq> [] \<or> (col_enabled c \<and> \<not> col_isVirtual c) then Some (calculateCollectionStatistics True t c) else None)"
    if "c \<in> set (t_collections t)" for c using prefetch_entry [OF assms(1) that] prefetch_none [OF assms(1) that] by auto
  have "s = stats_of t k" if s: "prefetch True True True t k = Some s" for k s
  proof -
    obtain r where r: "r \<in> set (t_collections t)" "k = col_id r" using prefetch_ids [OF assms(1) s] by blast
    then have "stats_of t k = calculateCollectionStatistics True t r" using retrieve_row [OF d r(1)] by (simp add: stats_of_def)
    then show ?thesis using entry [OF r(1)] s r(2) by (auto split: if_splits)
  qed
  then show ?thesis using entry [OF assms(2)] by (auto simp: coherent_def stats_of_def)
qed

theorem prefetch_equals_queries_witness:
  "let c = row_new\<lparr>col_id := 7\<rparr>;
       i = pim_item_new\<lparr>item_id := 1, item_collectionId := 7, item_size := 100\<rparr>;
       t = empty_tables\<lparr>t_items := [i], t_flags := {(1, flag_seen)}, t_collections := [c]\<rparr>
   in prefetch True True True t 7 = Some \<lparr>st_count = 1, st_size = 100, st_read = 1\<rparr> \<and> coherent t (prefetch True True True t)"
proof -
  let ?c = "row_new\<lparr>col_id := 7\<rparr>"
  let ?i = "pim_item_new\<lparr>item_id := 1, item_collectionId := 7, item_size := 100\<rparr>"
  let ?t = "empty_tables\<lparr>t_items := [?i], t_flags := {(1, flag_seen)}, t_collections := [?c]\<rparr>"
  have "tables_ok ?t" "?c \<in> set (t_collections ?t)" by (simp_all add: tables_ok_def row_new_def empty_tables_def pim_item_new_def)
  from prefetch_equals_queries [OF this] show ?thesis
    by (simp add: Let_def rows_of_def row_new_def calculateCollectionStatistics_def is_read_def empty_tables_def pim_item_new_def)
qed

end
