(* ===== verification/HandlerHelper.thy ===== *)
theory HandlerHelper
  imports Notification CollectionTree CollectionStatistics
begin

text \<open>
  \<open>src/server/handlerhelper.cpp\<close>: the responses that describe a collection, its ancestors and a tag, and the resolution of tags
  by id, global id and remote id, which creates the tags that are missing. The lookup of collections is in the theory of
  the collection tree.
\<close>

record connection =
  conn_sessionId :: string
  conn_context :: command_context

section \<open>Collections\<close>

definition cachePolicyResponse :: "collection_row \<Rightarrow> cache_policy" where
  "cachePolicyResponse c =
     \<lparr>cp_inherit = col_cachePolicyInherit c, cp_checkInterval = col_cachePolicyCheckInterval c,
      cp_cacheTimeout = col_cachePolicyCacheTimeout c, cp_syncOnDemand = col_cachePolicySyncOnDemand c,
      cp_localParts = if col_cachePolicyLocalParts c \<noteq> [] then split_on (CHR '' '') (col_cachePolicyLocalParts c) else []\<rparr>"

text \<open>Rows inserted into a \<open>QMap\<close>: the last one of a type counts.\<close>

definition attribute_map :: "(string \<times> string) list \<Rightarrow> string \<rightharpoonup> string" where
  "attribute_map rows = map_of (rev rows)"

text \<open>The loop of \<open>ancestorsResponse\<close>; the stacks have their top first.\<close>

fun pop_ancestors :: "nat \<Rightarrow> collection_row list \<Rightarrow> (string \<times> string) list list \<Rightarrow> ancestor list" where
  "pop_ancestors 0 cs as = []"
| "pop_ancestors (Suc n) [] as = [ancestor_new\<lparr>anc_id := 0\<rparr>]"
| "pop_ancestors (Suc n) (c # cs) as =
     ancestor_new\<lparr>anc_id := col_id c, anc_remoteId := col_remoteId c, anc_name := col_name c,
       anc_attributes := (case as of [] \<Rightarrow> Map.empty | a # _ \<Rightarrow> attribute_map a)\<rparr> # pop_ancestors n cs (tl as)"

definition ancestorsResponse :: "int \<Rightarrow> collection_row list \<Rightarrow> (string \<times> string) list list \<Rightarrow> ancestor list" where
  "ancestorsResponse depth cs as = (if depth > 0 then pop_ancestors (nat depth) (rev cs) (rev as) else [])"

text \<open>\<open>fetchCollectionsResponse\<close> with all arguments; it may put the statistics into their cache. Identifiers that do not read as a
  number become 0.\<close>

definition fetchCollectionsResponse_full :: "bool \<Rightarrow> tables \<Rightarrow> collection_row \<Rightarrow> (string \<times> string) list \<Rightarrow> bool \<Rightarrow> int
    \<Rightarrow> collection_row list \<Rightarrow> (string \<times> string) list list \<Rightarrow> string list \<Rightarrow> stat_cache \<Rightarrow> collection_response \<times> stat_cache" where
  "fetchCollectionsResponse_full ok t c attrs includeStats depth ancestors ancestorAttrs mimeTypes m =
     (let r = response_new\<lparr>cr_id := col_id c, cr_parentId := col_parentId c, cr_name := col_name c, cr_mimeTypes := mimeTypes,
                cr_remoteId := col_remoteId c, cr_remoteRevision := col_remoteRevision c, cr_resource := resource_name t c,
                cr_isVirtual := col_isVirtual c\<rparr>;
          (r, m) = (if includeStats then
                      (let (st, m) = stats_statistics ok t c m
                       in if st_count st > -1
                          then (r\<lparr>cr_statistics := (st_count st, st_count st - st_read st, st_size st)\<rparr>, m) else (r, m))
                    else (r, m));
          r = (if col_queryString c \<noteq> [] then
                 r\<lparr>cr_searchQuery := col_queryString c,
                   cr_searchCollections := map (\<lambda>w. or_zero (toLongLong w)) (split_on (CHR '' '') (col_queryCollections c))\<rparr>
               else r);
          r = r\<lparr>cr_cachePolicy := cachePolicyResponse c\<rparr>;
          r = (if depth \<noteq> 0 then r\<lparr>cr_ancestors := ancestorsResponse depth ancestors ancestorAttrs\<rparr> else r)
      in (r\<lparr>cr_enabled := col_enabled c, cr_displayPref := col_displayPref c, cr_syncPref := col_syncPref c,
            cr_indexPref := col_indexPref c, cr_attributes := attribute_map attrs\<rparr>, m))"

definition fetchCollectionsResponse :: "tables \<Rightarrow> collection_row \<Rightarrow> collection_response" where
  "fetchCollectionsResponse t c =
     fst (fetchCollectionsResponse_full True t c (t_collectionAttrs t (col_id c)) False 0 [] []
       (t_collectionMimeTypes t (col_id c)) Map.empty)"

section \<open>Tags\<close>

definition tag_attribute_rows :: "tables \<Rightarrow> tag_row \<Rightarrow> tag_scope \<Rightarrow> (string \<times> string) list" where
  "tag_attribute_rows t g sc =
     (if t_fetchAllAttributes sc \<or> t_attributes sc \<noteq> []
      then filter (\<lambda>a. t_fetchAllAttributes sc \<or> fst a \<in> set (t_attributes sc)) (t_tagAttrs t (tag_id g)) else [])"

definition fetchTagsResponse :: "bool \<Rightarrow> tables \<Rightarrow> tag_row \<Rightarrow> tag_scope \<Rightarrow> connection option \<Rightarrow> tag_response handled" where
  "fetchTagsResponse ok t g sc conn =
     (let r = tag_response_new\<lparr>tr_id := tag_id g\<rparr>
      in if t_fetchIdOnly sc then Inr r
         else
           (let r = r\<lparr>tr_type := tag_type g, tr_parentId := if tag_parentId g = 0 then -1 else tag_parentId g, tr_gid := tag_gid g\<rparr>;
                rid = (case conn of
                         Some cn \<Rightarrow>
                           (if t_fetchRemoteID sc \<and> entity_isValid (mResource (conn_context cn)) then
                              (if \<not> ok then Inl ''Unable to query Tag Remote ID''
                               else
                                 (case filter (\<lambda>(g', res, _). res = mResource (conn_context cn) \<and> g' = tag_id g) (t_tagRemoteIds t) of
                                    [] \<Rightarrow> Inr []
                                  | (_, _, x) # _ \<Rightarrow> Inr x))
                            else Inr [])
                       | None \<Rightarrow> Inr [])
            in case rid of
                 Inl e \<Rightarrow> Inl e
               | Inr x \<Rightarrow>
                   (let r = r\<lparr>tr_remoteId := x\<rparr>
                    in if t_fetchAllAttributes sc \<or> t_attributes sc \<noteq> [] then
                         (if \<not> ok then Inl ''Unable to query Tag Attributes''
                          else Inr (r\<lparr>tr_attributes := attribute_map (tag_attribute_rows t g sc)\<rparr>))
                       else Inr r)))"

text \<open>The queries of the resolution that can fail. A failed \<open>retrieveFiltered\<close> is an empty result.\<close>

datatype tag_query = SelectTags | CreateTagType | InsertTag | InsertTagRemoteId

definition resolveTagsByUID :: "(tag_query \<Rightarrow> bool) \<Rightarrow> tables \<Rightarrow> int list \<Rightarrow> tag_row list handled" where
  "resolveTagsByUID ok t ids =
     (if ids = [] then Inr []
      else if \<not> ok SelectTags then Inl ''Unable to resolve tags''
      else (case filter (\<lambda>g. tag_id g \<in> set ids) (t_tags t) of
              [] \<Rightarrow> Inl ''No tags found''
            | gs \<Rightarrow> Inr gs))"

definition resolve_gid :: "(tag_query \<Rightarrow> bool) \<Rightarrow> string \<Rightarrow> tables \<Rightarrow> tag_row handled \<times> tables" where
  "resolve_gid ok gid t =
     (case (if ok SelectTags then filter (\<lambda>g. tag_gid g = gid) (t_tags t) else []) of
        [] \<Rightarrow>
          (if \<not> ok CreateTagType then (Inl ''Unable to create tag type'', t)
           else if \<not> ok InsertTag then (Inl ''Unable to create tag'', t)
           else
             (let g = \<lparr>tag_id = t_nextTag t, tag_parentId = 0, tag_gid = gid, tag_type = ''PLAIN''\<rparr>
              in (Inr g, t\<lparr>t_tags := t_tags t @ [g], t_nextTag := t_nextTag t + 1\<rparr>)))
      | [g] \<Rightarrow> (Inr g, t)
      | _ \<Rightarrow> (Inl ''Tag GID is not unique'', t))"

fun resolveTagsByGID :: "(tag_query \<Rightarrow> bool) \<Rightarrow> string list \<Rightarrow> tables \<Rightarrow> tag_row list handled \<times> tables" where
  "resolveTagsByGID ok [] t = (Inr [], t)"
| "resolveTagsByGID ok (gid # gids) t =
     (case resolve_gid ok gid t of
        (Inl e, t) \<Rightarrow> (Inl e, t)
      | (Inr g, t) \<Rightarrow>
          (case resolveTagsByGID ok gids t of
             (Inl e, t) \<Rightarrow> (Inl e, t)
           | (Inr gs, t) \<Rightarrow> (Inr (g # gs), t)))"

text \<open>The relation of tags and resources has a unique index on both, so an insert fails when the tag has a remote id already.\<close>

definition resolve_rid :: "(tag_query \<Rightarrow> bool) \<Rightarrow> int \<Rightarrow> string \<Rightarrow> tables \<Rightarrow> tag_row handled \<times> tables" where
  "resolve_rid ok res rid t =
     (if \<not> ok SelectTags then (Inl ''Unable to resolve tags'', t)
      else
        (case filter (\<lambda>g. (tag_id g, res, rid) \<in> set (t_tagRemoteIds t)) (t_tags t) of
           [] \<Rightarrow>
             (case resolveTagsByGID ok [rid] t of
                (Inl e, t) \<Rightarrow> (Inl e, t)
              | (Inr [g], t) \<Rightarrow>
                  (if ok InsertTagRemoteId \<and> list_all (\<lambda>(g', res', _). \<not> (g' = tag_id g \<and> res' = res)) (t_tagRemoteIds t)
                   then (Inr g, t\<lparr>t_tagRemoteIds := t_tagRemoteIds t @ [(tag_id g, res, rid)]\<rparr>)
                   else (Inl ''Unable to create tag'', t))
              | (Inr _, t) \<Rightarrow> (Inl ''Unable to resolve tag'', t))
         | [g] \<Rightarrow> (Inr g, t)
         | _ \<Rightarrow> (Inl ''Tag RID is not unique within this resource context'', t)))"

fun resolve_all_rids :: "(tag_query \<Rightarrow> bool) \<Rightarrow> int \<Rightarrow> string list \<Rightarrow> tables \<Rightarrow> tag_row list handled \<times> tables" where
  "resolve_all_rids ok res [] t = (Inr [], t)"
| "resolve_all_rids ok res (rid # rids) t =
     (case resolve_rid ok res rid t of
        (Inl e, t) \<Rightarrow> (Inl e, t)
      | (Inr g, t) \<Rightarrow>
          (case resolve_all_rids ok res rids t of
             (Inl e, t) \<Rightarrow> (Inl e, t)
           | (Inr gs, t) \<Rightarrow> (Inr (g # gs), t)))"

definition resolveTagsByRID :: "(tag_query \<Rightarrow> bool) \<Rightarrow> string list \<Rightarrow> command_context \<Rightarrow> tables \<Rightarrow> tag_row list handled \<times> tables" where
  "resolveTagsByRID ok rids ctx t =
     (if rids = [] then (Inr [], t)
      else if \<not> entity_isValid (mResource ctx) then (Inl ''Tags can be resolved by their RID only in resource context'', t)
      else resolve_all_rids ok (mResource ctx) rids t)"

definition tagsFromScope :: "(tag_query \<Rightarrow> bool) \<Rightarrow> scope_sel \<Rightarrow> command_context \<Rightarrow> tables \<Rightarrow> tag_row list handled \<times> tables" where
  "tagsFromScope ok sc ctx t =
     (case sc of
        ScopeUid ids \<Rightarrow> (resolveTagsByUID ok t ids, t)
      | ScopeGid gids \<Rightarrow> resolveTagsByGID ok gids t
      | ScopeRid rids \<Rightarrow> resolveTagsByRID ok rids ctx t
      | _ \<Rightarrow> (Inl ''Invalid tag scope'', t))"

section \<open>Properties\<close>

lemma pop_ancestors_chain:
  "length cs < n \<Longrightarrow> map (\<lambda>a. (anc_id a, anc_remoteId a)) (pop_ancestors n cs as) =
     map (\<lambda>c. (col_id c, col_remoteId c)) cs @ [(0, [])]"
  by (induction n cs as rule: pop_ancestors.induct) (simp_all add: ancestor_new_def)

text \<open>What the server tells about the ancestors of a collection is enough to find it again: if the depth asked for reaches the
  root, the chain of the collection and its ancestors resolves, as a hierarchical remote id, to the collection.\<close>

theorem ancestors_resolve:
  assumes "collections_forest t" and "lineage t (col_id c) (c # cs)" and "list_all (sole_rid t res) (c # cs)"
    and "int (length cs) < depth"
  shows "resolveHierarchicalRID True t ((col_id c, col_remoteId c) #
    map (\<lambda>a. (anc_id a, anc_remoteId a)) (ancestorsResponse depth (rev cs) as)) res = Inr c"
proof -
  have "map (\<lambda>a. (anc_id a, anc_remoteId a)) (ancestorsResponse depth (rev cs) as) =
      map (\<lambda>c. (col_id c, col_remoteId c)) cs @ [(0, [])]"
    using assms(4) pop_ancestors_chain [of cs "nat depth" "rev as"] by (simp add: ancestorsResponse_def)
  moreover have "resolveHierarchicalRID True t (map (\<lambda>c. (col_id c, col_remoteId c)) (c # cs) @ [(0, [])]) res = Inr c"
    by (rule chain_resolves [OF assms(1-3)]) simp
  ultimately show ?thesis by simp
qed

theorem ancestors_resolve_witness:
  "resolveHierarchicalRID True sample_tables ((col_id sample_inbox, col_remoteId sample_inbox) #
     map (\<lambda>a. (anc_id a, anc_remoteId a)) (ancestorsResponse 5 [sample_mail] [])) 5 = Inr sample_inbox"
  using ancestors_resolve [OF sample_forest, of sample_inbox "[sample_mail]" 5 5 "[]"] sample_lineage(2)
  by (simp add: sole_rid_def sample_defs)

text \<open>The tags of a database: ids and global ids are unique, and the counter is ahead.\<close>

definition tags_ok :: "tables \<Rightarrow> bool" where
  "tags_ok t \<longleftrightarrow> distinct (map tag_id (t_tags t)) \<and> distinct (map tag_gid (t_tags t)) \<and> list_all (\<lambda>g. tag_id g < t_nextTag t) (t_tags t)"

lemma resolve_gid_found:
  "tags_ok t \<Longrightarrow> g \<in> set (t_tags t) \<Longrightarrow> resolve_gid (\<lambda>_. True) (tag_gid g) t = (Inr g, t)"
  by (simp add: resolve_gid_def tags_ok_def filter_unique)

lemma resolve_gid_ok:
  assumes "tags_ok t" and "resolve_gid (\<lambda>_. True) gid t = (r, t')"
  shows "\<exists>g. r = Inr g \<and> tag_gid g = gid \<and> g \<in> set (t_tags t') \<and> tags_ok t' \<and> set (t_tags t) \<subseteq> set (t_tags t') \<and>
    tag_gid ` set (t_tags t') = insert gid (tag_gid ` set (t_tags t))"
proof (cases "gid \<in> tag_gid ` set (t_tags t)")
  case True
  then obtain g where "g \<in> set (t_tags t)" "tag_gid g = gid" by blast
  then show ?thesis using resolve_gid_found [OF assms(1)] assms by auto
next
  case False
  let ?g = "\<lparr>tag_id = t_nextTag t, tag_parentId = 0, tag_gid = gid, tag_type = ''PLAIN''\<rparr>"
  from False have "filter (\<lambda>g. tag_gid g = gid) (t_tags t) = []" by (auto simp: filter_empty_conv)
  then have r: "r = Inr ?g" "t' = t\<lparr>t_tags := t_tags t @ [?g], t_nextTag := t_nextTag t + 1\<rparr>"
    using assms(2) by (simp_all add: resolve_gid_def Let_def)
  have "tags_ok t'" using assms(1) False r(2) by (force simp: tags_ok_def list_all_iff)
  then show ?thesis using r by auto
qed

lemma resolve_gids_found:
  "tags_ok t \<Longrightarrow> set gs \<subseteq> set (t_tags t) \<Longrightarrow> resolveTagsByGID (\<lambda>_. True) (map tag_gid gs) t = (Inr gs, t)"
  by (induction gs) (simp_all add: resolve_gid_found)

text \<open>Resolving tags by their global ids gives for every id a tag with this id, creates exactly what was missing, and is
  idempotent: resolving the same ids again gives the same tags and changes nothing.\<close>

theorem tags_by_gid_idempotent:
  assumes "tags_ok t"
  shows "\<exists>gs t'. resolveTagsByGID (\<lambda>_. True) gids t = (Inr gs, t') \<and> map tag_gid gs = gids \<and> set gs \<subseteq> set (t_tags t') \<and>
    tags_ok t' \<and> set (t_tags t) \<subseteq> set (t_tags t') \<and> tag_gid ` set (t_tags t') = tag_gid ` set (t_tags t) \<union> set gids \<and>
    resolveTagsByGID (\<lambda>_. True) gids t' = (Inr gs, t')"
proof -
  have "\<exists>gs t'. resolveTagsByGID (\<lambda>_. True) gids t = (Inr gs, t') \<and> map tag_gid gs = gids \<and> set gs \<subseteq> set (t_tags t') \<and>
    tags_ok t' \<and> set (t_tags t) \<subseteq> set (t_tags t') \<and> tag_gid ` set (t_tags t') = tag_gid ` set (t_tags t) \<union> set gids"
    using assms
  proof (induction gids arbitrary: t)
    case (Cons gid gids)
    obtain r t1 where r: "resolve_gid (\<lambda>_. True) gid t = (r, t1)" by fastforce
    obtain g where g: "r = Inr g" "tag_gid g = gid" "g \<in> set (t_tags t1)" "tags_ok t1" "set (t_tags t) \<subseteq> set (t_tags t1)"
      and new: "tag_gid ` set (t_tags t1) = insert gid (tag_gid ` set (t_tags t))"
      using resolve_gid_ok [OF Cons.prems r] by blast
    from Cons.IH [OF g(4)] obtain gs t' where "resolveTagsByGID (\<lambda>_. True) gids t1 = (Inr gs, t')" "map tag_gid gs = gids"
      "set gs \<subseteq> set (t_tags t')" "tags_ok t'" "set (t_tags t1) \<subseteq> set (t_tags t')"
      "tag_gid ` set (t_tags t') = tag_gid ` set (t_tags t1) \<union> set gids" by blast
    then show ?case using r g new by (intro exI [of _ "g # gs"] exI [of _ t']) auto
  qed simp
  then obtain gs t' where *: "resolveTagsByGID (\<lambda>_. True) gids t = (Inr gs, t')" "map tag_gid gs = gids"
    "set gs \<subseteq> set (t_tags t')" "tags_ok t'" "set (t_tags t) \<subseteq> set (t_tags t')"
    "tag_gid ` set (t_tags t') = tag_gid ` set (t_tags t) \<union> set gids" by blast
  have "resolveTagsByGID (\<lambda>_. True) gids t' = (Inr gs, t')" using resolve_gids_found [OF *(4, 3)] *(2) by simp
  then show ?thesis using * by blast
qed

theorem tags_by_gid_idempotent_witness:
  "\<exists>gs t'. resolveTagsByGID (\<lambda>_. True) [''a'', ''b'', ''a''] empty_tables = (Inr gs, t') \<and> map tag_gid gs = [''a'', ''b'', ''a''] \<and>
     resolveTagsByGID (\<lambda>_. True) [''a'', ''b'', ''a''] t' = (Inr gs, t')"
  using tags_by_gid_idempotent [of empty_tables "[''a'', ''b'', ''a'']"] by (auto simp: tags_ok_def empty_tables_def)

end
