(* ===== verification/Transactions.thy ===== *)
theory Transactions
  imports Prelude
begin

text \<open>
  The transactions of \<open>src/server/storage/datastore.cpp\<close> and the guard class of \<open>transaction.cpp\<close>: nested transactions are a
  counter, only the outermost reaches the database, and a deadlock lets the database kill the transaction from below. What is
  sent to the driver and which signals are emitted is recorded; whether the driver succeeds is an argument.
\<close>

section \<open>State\<close>

datatype driver_call = DriverBegin | DriverCommit | DriverRollback

datatype store_signal = TransactionCommitted | TransactionRolledBack

record dstore =
  m_dbOpened :: bool
  m_transactionLevel :: nat
  m_transactionKilledByDB :: bool
  driver :: "driver_call list"

section \<open>Operations\<close>

definition doRollback :: "dstore \<Rightarrow> dstore" where
  "doRollback d = d\<lparr>driver := driver d @ [DriverRollback]\<rparr>"

definition transactionKilledByDB :: "dstore \<Rightarrow> dstore \<times> store_signal list" where
  "transactionKilledByDB d = (d\<lparr>m_transactionKilledByDB := True\<rparr>, [TransactionRolledBack])"

definition beginTransaction :: "bool \<Rightarrow> dstore \<Rightarrow> bool \<times> dstore" where
  "beginTransaction ok d =
     (if \<not> m_dbOpened d then (False, d)
      else if m_transactionLevel d = 0 \<or> m_transactionKilledByDB d then
        (let d = d\<lparr>m_transactionKilledByDB := False, driver := driver d @ [DriverBegin]\<rparr>
         in if \<not> ok then (False, d) else (True, d\<lparr>m_transactionLevel := m_transactionLevel d + 1\<rparr>))
      else (True, d\<lparr>m_transactionLevel := m_transactionLevel d + 1\<rparr>))"

definition rollbackTransaction :: "dstore \<Rightarrow> bool \<times> dstore \<times> store_signal list" where
  "rollbackTransaction d =
     (if \<not> m_dbOpened d then (False, d, [])
      else if m_transactionLevel d = 0 then (False, d, [])
      else
        (let d = d\<lparr>m_transactionLevel := m_transactionLevel d - 1\<rparr>
         in if m_transactionLevel d = 0 \<and> \<not> m_transactionKilledByDB d then (True, doRollback d, [TransactionRolledBack])
            else (True, d, [])))"

definition commitTransaction :: "bool \<Rightarrow> dstore \<Rightarrow> bool \<times> dstore \<times> store_signal list" where
  "commitTransaction ok d =
     (if \<not> m_dbOpened d then (False, d, [])
      else if m_transactionLevel d = 0 then (False, d, [])
      else if m_transactionLevel d = 1 then
        (if m_transactionKilledByDB d then (False, d, [])
         else
           (let d = d\<lparr>driver := driver d @ [DriverCommit]\<rparr>
            in if \<not> ok then (case rollbackTransaction d of (_, d, sigs) \<Rightarrow> (False, d, sigs))
               else (True, d\<lparr>m_transactionLevel := m_transactionLevel d - 1\<rparr>, [TransactionCommitted])))
      else (True, d\<lparr>m_transactionLevel := m_transactionLevel d - 1\<rparr>, []))"

definition inTransaction :: "dstore \<Rightarrow> bool" where
  "inTransaction d \<longleftrightarrow> 0 < m_transactionLevel d"

text \<open>The operations as one type; \<open>Kill\<close> is the deadlock handling of the query builder. \<open>store_do\<close> gives the store and the
  signals.\<close>

datatype txn_op = Begin bool | Commit bool | Rollback | Kill

fun store_do :: "txn_op \<Rightarrow> dstore \<Rightarrow> dstore \<times> store_signal list" where
  "store_do (Begin ok) d = (snd (beginTransaction ok d), [])"
| "store_do (Commit ok) d = snd (commitTransaction ok d)"
| "store_do Rollback d = snd (rollbackTransaction d)"
| "store_do Kill d = transactionKilledByDB d"

section \<open>Guards\<close>

text \<open>\<open>Transaction\<close>: the object with its flag; the destructor rolls back unless it was committed. A scope is what a function does
  with its guard: the work between construction and destruction, and whether it commits.\<close>

record transaction =
  mCommitted :: bool

definition transaction_new :: "bool \<Rightarrow> bool \<Rightarrow> dstore \<Rightarrow> transaction \<times> dstore" where
  "transaction_new begin ok d = (\<lparr>mCommitted = False\<rparr>, if begin then snd (beginTransaction ok d) else d)"

definition transaction_destroy :: "transaction \<Rightarrow> dstore \<Rightarrow> dstore \<times> store_signal list" where
  "transaction_destroy x d = (if \<not> mCommitted x then snd (rollbackTransaction d) else (d, []))"

definition transaction_commit :: "bool \<Rightarrow> transaction \<Rightarrow> dstore \<Rightarrow> bool \<times> transaction \<times> dstore \<times> store_signal list" where
  "transaction_commit ok x d =
     (case commitTransaction ok d of (r, d, sigs) \<Rightarrow> (r, x\<lparr>mCommitted := True\<rparr>, d, sigs))"

definition transaction_begin :: "bool \<Rightarrow> transaction \<Rightarrow> dstore \<Rightarrow> transaction \<times> dstore" where
  "transaction_begin ok x d = (x\<lparr>mCommitted := False\<rparr>, snd (beginTransaction ok d))"



section \<open>Properties\<close>

lemmas txn_defs = beginTransaction_def commitTransaction_def rollbackTransaction_def doRollback_def
  transaction_new_def transaction_commit_def transaction_destroy_def




text \<open>A transaction that the database has killed cannot be finished by a commit: the commit fails and, because the guard then
  counts as committed, its destructor does not roll back, so the store stays in a transaction.\<close>

theorem killed_commit_keeps_level:
  assumes "m_dbOpened d" and "m_transactionLevel d = 1"
  shows "let d1 = fst (transactionKilledByDB d); (ok, x, d2, sigs) = transaction_commit True \<lparr>mCommitted = False\<rparr> d1
     in \<not> ok \<and> sigs = [] \<and> transaction_destroy x d2 = (d2, []) \<and> inTransaction d2"
  using assms by (simp add: transactionKilledByDB_def txn_defs inTransaction_def)

end
