(* ===== verification/NotificationCollector.thy ===== *)
theory NotificationCollector
  imports HandlerHelper Transactions
begin

text \<open>
  \<open>src/server/storage/notificationcollector.cpp\<close>: the changes that the data store reports become notifications, which are held
  back while a transaction is open, sent when it is committed and dropped when it is rolled back. The schedulers, the search
  manager and the statistics are told at once.
\<close>

section \<open>State\<close>

datatype scheduler_call = CleanerAdded int | CleanerChanged int | CleanerRemoved int
  | CheckerAdded int | CheckerChanged int | CheckerRemoved int

text \<open>\<open>mgr\<close> are the aggregated scopes of the notification manager if there is one,
  \<open>cleaner\<close> whether there is a cache cleaner. \<open>notified\<close> are the calls of \<open>slotNotify\<close> that were posted to the manager.\<close>

record aggregates =
  agg_c :: collection_agg
  agg_t :: tag_agg
  agg_i :: item_agg

record collector =
  db :: dstore
  tabs :: tables
  mNotifications :: "notification list"
  mIgnoreTransactions :: bool
  mConnection :: "connection option"
  cache :: stat_cache
  searchUpdates :: nat
  cleaner :: bool
  scheduler_calls :: "scheduler_call list"
  mgr :: "aggregates option"
  notified :: "notification list list"

text \<open>What is outside of the model: \<open>fetchItems\<close> is \<open>ItemFetchHelper::fetchItems\<close> (\<open>None\<close>: it fails) with the transactions it
  runs on the store, \<open>queryOk\<close> whether queries succeed, \<open>listed\<close> the order in which a set is turned into a list.\<close>

record outside =
  fetchItems :: "item_scope \<Rightarrow> tag_scope \<Rightarrow> int list \<Rightarrow> item_response list option \<times> txn_op list"
  queryOk :: bool
  listed :: "string set \<Rightarrow> string list"

section \<open>Sending\<close>

definition collector_clear :: "collector \<Rightarrow> collector" where
  "collector_clear s = s\<lparr>mNotifications := []\<rparr>"

definition collector_notify :: "notification list \<Rightarrow> collector \<Rightarrow> collector" where
  "collector_notify msgs s = (if mgr s = None then s else s\<lparr>notified := notified s @ [msgs]\<rparr>)"

definition rolled_back :: "collector \<Rightarrow> collector" where
  "rolled_back s = (if \<not> mIgnoreTransactions s then collector_clear s else s)"

text \<open>The transactions of the fetch helper, while \<open>mIgnoreTransactions\<close> is set: the slots do nothing, but a rollback still
  empties the statistics (\<open>cleanupAfterRollback\<close>).\<close>

fun ignored_ops :: "txn_op list \<Rightarrow> collector \<Rightarrow> collector" where
  "ignored_ops [] s = s"
| "ignored_ops (x # xs) s =
     (let (d, sigs) = store_do x (db s)
      in ignored_ops xs (s\<lparr>db := d, cache := if TransactionRolledBack \<in> set sigs then stats_expireCache (cache s) else cache s\<rparr>))"

definition complete_items :: "item_response list \<Rightarrow> item_response list" where
  "complete_items = map (\<lambda>i. i\<lparr>ir_remoteId := [], ir_remoteRevision := []\<rparr>)"

text \<open>\<open>completeNotification\<close>. Its second branch, for tags, asks for an operation that the first branch has already taken.\<close>

definition completeNotification :: "outside \<Rightarrow> notification \<Rightarrow> collector \<Rightarrow> notification \<times> collector" where
  "completeNotification out ntf s =
     (case (body ntf, mgr s) of
        (ItemChange msg, Some a) \<Rightarrow>
          (if i_operation msg \<noteq> ItemRemove then
             (if inTransaction (db s) then (ntf, s)
              else
                (let ids = itemsToUids (items msg);
                     allHaveRID = list_all (\<lambda>i. ir_remoteId i \<noteq> []) (items msg)
                 in if mConnection s \<noteq> None \<and> (allHaveRID \<or> i_operation msg \<noteq> ItemAdd) then
                      (let (ifs, ai) = toFetchScope (listed out (cvalues (i_parts (agg_i a)))) (agg_i a);
                           tfs = tag_toFetchScope (listed out (cvalues (t_attrs (agg_t a)))) (agg_t a);
                           s = s\<lparr>mgr := Some (a\<lparr>agg_i := ai\<rparr>)\<rparr>;
                           (result, ops) = fetchItems out (setFetch CacheOnly True ifs) tfs ids;
                           s = ignored_ops ops s
                       in (case result of
                             Some fetched \<Rightarrow> (Notification (sessionId ntf) (metadata ntf) (ItemChange (msg\<lparr>items := fetched\<rparr>)), s)
                           | None \<Rightarrow> (ntf, s)))
                    else
                      (Notification (sessionId ntf) (metadata ntf)
                        (ItemChange (msg\<lparr>items := complete_items (items msg), mustRetrieve := True\<rparr>)), s)))
           else (ntf, s))
      | _ \<Rightarrow> (ntf, s))"

definition dispatchNotification :: "outside \<Rightarrow> notification \<Rightarrow> collector \<Rightarrow> collector" where
  "dispatchNotification out msg s =
     (if inTransaction (db s) then
        s\<lparr>mNotifications := (case body msg of
            CollectionChange _ \<Rightarrow> snd (appendAndCompress msg (mNotifications s))
          | _ \<Rightarrow> mNotifications s @ [msg])\<rparr>
      else (let (m, s) = completeNotification out msg s in collector_notify [m] s))"

fun complete_all :: "outside \<Rightarrow> notification list \<Rightarrow> collector \<Rightarrow> notification list \<times> collector" where
  "complete_all out [] s = ([], s)"
| "complete_all out (m # ms) s =
     (let (m, s) = completeNotification out m s; (ms, s) = complete_all out ms s in (m # ms, s))"

definition dispatchNotifications :: "outside \<Rightarrow> collector \<Rightarrow> bool \<times> collector" where
  "dispatchNotifications out s =
     (if mNotifications s \<noteq> [] then
        (let (ms, s) = complete_all out (mNotifications s) s in (True, collector_clear (collector_notify ms s)))
      else (False, s))"

definition committed :: "outside \<Rightarrow> collector \<Rightarrow> collector" where
  "committed out s = (if \<not> mIgnoreTransactions s then snd (dispatchNotifications out s) else s)"

text \<open>An operation of the store with the slots of the collector. \<open>cleanupAfterRollback\<close> empties the statistics.\<close>

fun slot :: "outside \<Rightarrow> store_signal \<Rightarrow> collector \<Rightarrow> collector" where
  "slot out TransactionCommitted s = committed out s"
| "slot out TransactionRolledBack s = rolled_back (s\<lparr>cache := stats_expireCache (cache s)\<rparr>)"

definition txn :: "outside \<Rightarrow> txn_op \<Rightarrow> collector \<Rightarrow> collector" where
  "txn out x s = (let (d, sigs) = store_do x (db s) in fold (slot out) sigs (s\<lparr>db := d\<rparr>))"

section \<open>Item notifications\<close>

definition tagToResponse :: "tag_row \<Rightarrow> tag_response" where
  "tagToResponse g = tag_response_new\<lparr>tr_id := tag_id g, tr_parentId := tag_parentId g, tr_gid := tag_gid g, tr_type := tag_type g\<rparr>"

definition session_of :: "collector \<Rightarrow> string" where
  "session_of s = (case mConnection s of None \<Rightarrow> [] | Some c \<Rightarrow> conn_sessionId c)"

definition empty_response :: item_response where
  "empty_response = \<lparr>ir_id = -1, ir_remoteId = [], ir_remoteRevision = [], ir_mimeType = [], ir_revision = -1,
     ir_parentId = -1, ir_gid = [], ir_size = 0, ir_mTime = 0, ir_flags = []\<rparr>"

definition item_to_response :: "pim_item \<Rightarrow> item_response" where
  "item_to_response i = empty_response\<lparr>ir_id := item_id i, ir_remoteId := item_remoteId i,
     ir_remoteRevision := item_remoteRevision i, ir_mimeType := item_mimeType i\<rparr>"

text \<open>\<open>DataStore::virtualCollections\<close>: the ids of the items in each virtual collection, by ascending collection.\<close>

definition virtualCollections :: "bool \<Rightarrow> tables \<Rightarrow> pim_item list \<Rightarrow> (int \<times> int list) list" where
  "virtualCollections ok t its =
     (if \<not> ok then []
      else
        (let rows = filter (\<lambda>(c, i). i \<in> item_id ` set its \<and> c \<in> col_id ` set (t_collections t) \<and> i \<in> item_id ` set (t_items t))
                      (t_links t)
         in map (\<lambda>c. (c, map snd (filter (\<lambda>r. fst r = c) rows))) (sort (remdups (map fst rows)))))"

definition default_item_change :: item_change where
  "default_item_change = \<lparr>i_operation = ItemInvalidOp, i_resource = [], i_parentCollection = -1, i_parentDestCollection = -1,
     i_destinationResource = [], itemParts = {}, addedFlags = {}, removedFlags = {}, addedTags = [], removedTags = [],
     mustRetrieve = False, items = []\<rparr>"

text \<open>The loop over the virtual collections.\<close>

fun notify_virtual :: "outside \<Rightarrow> item_change \<Rightarrow> item_response list \<Rightarrow> string \<Rightarrow> (int \<times> int list) list \<Rightarrow> collector \<Rightarrow> collector" where
  "notify_virtual out msg ntfItems resource [] s = s"
| "notify_virtual out msg ntfItems resource ((c, is) # rest) s =
     (let copy = msg\<lparr>items := map (\<lambda>i. case find (\<lambda>r. ir_id r = i) (rev ntfItems) of Some r \<Rightarrow> r | None \<Rightarrow> empty_response) is,
                     i_parentCollection := c, i_resource := resource\<rparr>;
          s = s\<lparr>cache := stats_invalidate (Collection_retrieveById (tabs s) c) (cache s)\<rparr>;
          session = session_of s
      in notify_virtual out msg ntfItems resource rest
           (dispatchNotification out (Notification session [] (ItemChange copy)) s))"

definition itemNotification :: "outside \<Rightarrow> item_op \<Rightarrow> pim_item list \<Rightarrow> collection_row \<Rightarrow> collection_row \<Rightarrow> string
    \<Rightarrow> string set \<Rightarrow> string set \<Rightarrow> string set \<Rightarrow> tag_row list \<Rightarrow> tag_row list \<Rightarrow> collector \<Rightarrow> collector" where
  "itemNotification out op its coll collectionDest resource parts added removed addTags remTags s =
     (if its = [] then s
      else
        (let vCollections = (if op \<in> {ItemModify, ItemModifyFlags, ItemModifyTags}
                             then virtualCollections (queryOk out) (tabs s) its else []);
             session = session_of s;
             msg = default_item_change\<lparr>i_operation := op, itemParts := parts, addedFlags := added, removedFlags := removed,
                     addedTags := map tagToResponse addTags, removedTags := map tagToResponse remTags,
                     i_destinationResource := if entity_isValid (col_id collectionDest) then resource_name (tabs s) collectionDest else [],
                     i_parentDestCollection := col_id collectionDest\<rparr>;
             ntfItems = map item_to_response its;
             s = notify_virtual out msg ntfItems resource vCollections s;
             col = (if entity_isValid (col_id coll) then coll else Collection_retrieveById (tabs s) (item_collectionId (hd its)));
             parent = (if entity_isValid (col_id coll) then col_id coll
                       else col_id (Collection_retrieveById (tabs s) (item_collectionId (hd its))));
             col = (if resource = [] \<and> col_resourceId col \<le> 0 then Collection_retrieveById (tabs s) (col_id col) else col);
             res = (if resource = [] then resource_name (tabs s) col else resource);
             s = (if op \<noteq> ItemAdd \<and> op \<noteq> ItemModifyFlags then s\<lparr>cache := stats_invalidate col (cache s)\<rparr> else s)
         in dispatchNotification out
              (Notification session [] (ItemChange (msg\<lparr>items := ntfItems, i_parentCollection := parent, i_resource := res\<rparr>))) s))"

definition scheduleSearchUpdate :: "collector \<Rightarrow> collector" where
  "scheduleSearchUpdate s = s\<lparr>searchUpdates := searchUpdates s + 1\<rparr>"

definition itemAdded :: "outside \<Rightarrow> pim_item \<Rightarrow> bool \<Rightarrow> collection_row \<Rightarrow> string \<Rightarrow> collector \<Rightarrow> collector" where
  "itemAdded out item seen coll resource s =
     (let s = scheduleSearchUpdate s;
          s = s\<lparr>cache := stats_itemAdded (queryOk out) (tabs s) coll (item_size item) seen (cache s)\<rparr>
      in if \<not> entity_isValid (item_id item) then s
         else itemNotification out ItemAdd [item] coll row_new resource {} {} {} [] [] s)"

definition itemChanged :: "outside \<Rightarrow> pim_item \<Rightarrow> string set \<Rightarrow> collection_row \<Rightarrow> string \<Rightarrow> collector \<Rightarrow> collector" where
  "itemChanged out item changed coll resource s =
     (let s = scheduleSearchUpdate s
      in if \<not> entity_isValid (item_id item) then s
         else itemNotification out ItemModify [item] coll row_new resource changed {} {} [] [] s)"

definition is_seen_flag :: "string \<Rightarrow> bool" where
  "is_seen_flag f \<longleftrightarrow> f = flag_seen \<or> f = flag_ignored"

definition itemsFlagsChanged :: "outside \<Rightarrow> pim_item list \<Rightarrow> string set \<Rightarrow> string set \<Rightarrow> collection_row \<Rightarrow> string \<Rightarrow> collector \<Rightarrow> collector" where
  "itemsFlagsChanged out its added removed coll resource s =
     (let seenCount = (if flag_seen \<in> added \<or> flag_ignored \<in> added then int (length its) else 0)
                    - (if flag_seen \<in> removed \<or> flag_ignored \<in> removed then int (length its) else 0);
          s = s\<lparr>cache := stats_itemsSeenChanged (queryOk out) (tabs s) coll seenCount (cache s)\<rparr>
      in itemNotification out ItemModifyFlags its coll row_new resource {} added removed [] [] s)"

definition itemsTagsChanged :: "outside \<Rightarrow> pim_item list \<Rightarrow> tag_row list \<Rightarrow> tag_row list \<Rightarrow> collection_row \<Rightarrow> string \<Rightarrow> collector \<Rightarrow> collector" where
  "itemsTagsChanged out its added removed coll resource s =
     itemNotification out ItemModifyTags its coll row_new resource {} {} {} added removed s"

definition itemsMoved :: "outside \<Rightarrow> pim_item list \<Rightarrow> collection_row \<Rightarrow> collection_row \<Rightarrow> string \<Rightarrow> collector \<Rightarrow> collector" where
  "itemsMoved out its src dest resource s =
     itemNotification out ItemMove its src dest resource {} {} {} [] [] (scheduleSearchUpdate s)"

definition itemsRemoved :: "outside \<Rightarrow> pim_item list \<Rightarrow> collection_row \<Rightarrow> string \<Rightarrow> collector \<Rightarrow> collector" where
  "itemsRemoved out its coll resource s = itemNotification out ItemRemove its coll row_new resource {} {} {} [] [] s"

definition itemsLinked :: "outside \<Rightarrow> pim_item list \<Rightarrow> collection_row \<Rightarrow> collector \<Rightarrow> collector" where
  "itemsLinked out its coll s = itemNotification out ItemLink its coll row_new [] {} {} {} [] [] s"

definition itemsUnlinked :: "outside \<Rightarrow> pim_item list \<Rightarrow> collection_row \<Rightarrow> collector \<Rightarrow> collector" where
  "itemsUnlinked out its coll s = itemNotification out ItemUnlink its coll row_new [] {} {} {} [] [] s"

section \<open>Collection notifications\<close>

definition tell_schedulers :: "(int \<Rightarrow> scheduler_call) \<Rightarrow> (int \<Rightarrow> scheduler_call) \<Rightarrow> int \<Rightarrow> collector \<Rightarrow> collector" where
  "tell_schedulers cleanerCall checkerCall c s =
     s\<lparr>scheduler_calls := scheduler_calls s @ (if cleaner s then [cleanerCall c] else []) @ [checkerCall c]\<rparr>"

text \<open>The response that a notification carries. \<open>rows\<close> are the attributes that the response already has; the attributes and the
  statistics that some subscriber asked for are added.\<close>

definition complete_response :: "outside \<Rightarrow> aggregates \<Rightarrow> collection_response \<Rightarrow> (string \<times> string) list \<Rightarrow> collector
    \<Rightarrow> collection_response \<times> collector" where
  "complete_response out a r rows s =
     (let t = tabs s;
          (r, rows) = (if \<not> collection_fetchIdOnly (agg_c a) \<and> cr_name r = [] then
                         (let c = Collection_retrieveById t (cr_id r)
                          in (fst (fetchCollectionsResponse_full (queryOk out) t c [] False 0 [] [] (t_collectionMimeTypes t (col_id c)) (cache s)), []))
                       else (r, rows));
          (r, s) = (if collection_fetchStatistics (agg_c a) then
                      (let (st, m) = stats_statistics (queryOk out) t (row_new\<lparr>col_id := cr_id r\<rparr>) (cache s)
                       in (r\<lparr>cr_statistics := (st_count st, st_count st - st_read st, st_size st)\<rparr>, s\<lparr>cache := m\<rparr>))
                    else (r, s));
          requested = collection_attributes (agg_c a)
      in if rows = [] \<and> requested \<noteq> {}
         then (r\<lparr>cr_attributes := attribute_map
                 (if queryOk out then filter (\<lambda>x. fst x \<in> requested) (t_collectionAttrs t (cr_id r)) else [])\<rparr>, s)
         else (r, s))"

definition collectionNotification :: "outside \<Rightarrow> collection_op \<Rightarrow> collection_row \<Rightarrow> int \<Rightarrow> int \<Rightarrow> string \<Rightarrow> string set \<Rightarrow> string
    \<Rightarrow> collector \<Rightarrow> collector" where
  "collectionNotification out op coll src dest resource changes destResource s =
     (if \<not> entity_isValid (col_id coll) then s
      else
        (let r = fetchCollectionsResponse (tabs s) coll;
             (r, s) = (case mgr s of
                         None \<Rightarrow> (r, s)
                       | Some a \<Rightarrow> complete_response out a r (t_collectionAttrs (tabs s) (col_id coll)) s);
             msg = \<lparr>c_operation = op, c_resource = if resource = [] then resource_name (tabs s) coll else resource,
                    c_parentCollection = src, c_parentDestCollection = dest, c_destinationResource = destResource,
                    changedParts = changes, collection = r\<rparr>
         in dispatchNotification out
              (Notification (session_of s) (if \<not> col_enabled coll then [''DISABLED''] else []) (CollectionChange msg)) s))"

definition collectionAdded :: "outside \<Rightarrow> collection_row \<Rightarrow> string \<Rightarrow> collector \<Rightarrow> collector" where
  "collectionAdded out coll resource s =
     collectionNotification out CollectionAdd coll (col_parentId coll) (-1) resource {} []
       (tell_schedulers CleanerAdded CheckerAdded (col_id coll) s)"

definition collectionChanged :: "outside \<Rightarrow> collection_row \<Rightarrow> string list \<Rightarrow> string \<Rightarrow> collector \<Rightarrow> collector" where
  "collectionChanged out coll changes resource s =
     (let s = tell_schedulers CleanerChanged CheckerChanged (col_id coll) s;
          s = (if ''ENABLED'' \<in> set changes then s\<lparr>cache := stats_invalidate coll (cache s)\<rparr> else s)
      in collectionNotification out CollectionModify coll (col_parentId coll) (-1) resource (set changes) [] s)"

definition collectionMoved :: "outside \<Rightarrow> collection_row \<Rightarrow> collection_row \<Rightarrow> string \<Rightarrow> string \<Rightarrow> collector \<Rightarrow> collector" where
  "collectionMoved out coll src resource destResource s =
     collectionNotification out CollectionMove coll (col_id src) (col_parentId coll) resource {} destResource
       (tell_schedulers CleanerChanged CheckerChanged (col_id coll) s)"

definition collectionRemoved :: "outside \<Rightarrow> collection_row \<Rightarrow> string \<Rightarrow> collector \<Rightarrow> collector" where
  "collectionRemoved out coll resource s =
     (let s = tell_schedulers CleanerRemoved CheckerRemoved (col_id coll) s
      in collectionNotification out CollectionRemove coll (col_parentId coll) (-1) resource {} []
           (s\<lparr>cache := stats_invalidate coll (cache s)\<rparr>))"

definition collectionSubscribed :: "outside \<Rightarrow> collection_row \<Rightarrow> string \<Rightarrow> collector \<Rightarrow> collector" where
  "collectionSubscribed out coll resource s =
     collectionNotification out CollectionSubscribe coll (col_parentId coll) (-1) resource {} []
       (tell_schedulers CleanerAdded CheckerAdded (col_id coll) s)"

definition collectionUnsubscribed :: "outside \<Rightarrow> collection_row \<Rightarrow> string \<Rightarrow> collector \<Rightarrow> collector" where
  "collectionUnsubscribed out coll resource s =
     (let s = tell_schedulers CleanerRemoved CheckerRemoved (col_id coll) s
      in collectionNotification out CollectionUnsubscribe coll (col_parentId coll) (-1) resource {} []
           (s\<lparr>cache := stats_invalidate coll (cache s)\<rparr>))"

section \<open>Tag notifications\<close>

text \<open>What a notification carries of a tag. The exception of \<open>fetchTagsResponse\<close> leaves the function.\<close>

definition complete_tag :: "outside \<Rightarrow> tag_row \<Rightarrow> string \<Rightarrow> collector \<Rightarrow> tag_response handled" where
  "complete_tag out g rid s =
     (let t = tabs s;
          r = tag_response_new\<lparr>tr_id := tag_id g, tr_remoteId := rid, tr_parentId := tag_parentId g\<rparr>
      in case mgr s of
           None \<Rightarrow> Inr r
         | Some a \<Rightarrow>
             (let row = Tag_retrieveById t (tag_id g);
                  sc = tag_toFetchScope (listed out (cvalues (t_attrs (agg_t a)))) (agg_t a);
                  fetched = (if \<not> tag_fetchIdOnly (agg_t a)
                             then map_sum id (\<lambda>r. (r, tag_attribute_rows t row sc)) (fetchTagsResponse (queryOk out) t row sc (mConnection s))
                             else Inr (r, []))
              in case fetched of
                   Inl e \<Rightarrow> Inl e
                 | Inr (r, rows) \<Rightarrow>
                     (let requested = tag_attributes (agg_t a)
                      in Inr (if rows = [] \<and> requested \<noteq> {}
                              then r\<lparr>tr_attributes := attribute_map
                                (if queryOk out then filter (\<lambda>x. fst x \<in> requested) (t_tagAttrs t (tr_id r)) else [])\<rparr>
                              else r))))"

definition tagNotification :: "outside \<Rightarrow> tag_op \<Rightarrow> tag_row \<Rightarrow> string \<Rightarrow> string \<Rightarrow> collector \<Rightarrow> collector handled" where
  "tagNotification out op g resource rid s =
     (if \<not> entity_isValid (tag_id g) then Inr s
      else map_sum id (\<lambda>r. dispatchNotification out
             (Notification (session_of s) [] (TagChange \<lparr>t_operation = op, t_resource = resource, tag = r\<rparr>)) s) (complete_tag out g rid s))"

definition tagAdded :: "outside \<Rightarrow> tag_row \<Rightarrow> collector \<Rightarrow> collector handled" where
  "tagAdded out g s = tagNotification out TagAdd g [] [] s"

definition tagChanged :: "outside \<Rightarrow> tag_row \<Rightarrow> collector \<Rightarrow> collector handled" where
  "tagChanged out g s = tagNotification out TagModify g [] [] s"

definition tagRemoved :: "outside \<Rightarrow> tag_row \<Rightarrow> string \<Rightarrow> string \<Rightarrow> collector \<Rightarrow> collector handled" where
  "tagRemoved out g resource rid s = tagNotification out TagRemove g resource rid s"

definition setConnection :: "connection option \<Rightarrow> collector \<Rightarrow> collector" where
  "setConnection c s = s\<lparr>mConnection := c\<rparr>"

section \<open>What is told\<close>

text \<open>The notifications that a change calls for, said without the queue, the statistics and the manager that receives them: one for the items of each
  virtual collection and one for all of them; one for a collection or a tag with its completed response; none when there is nothing to tell.\<close>

definition item_messages :: "outside \<Rightarrow> item_op \<Rightarrow> pim_item list \<Rightarrow> collection_row \<Rightarrow> collection_row \<Rightarrow> string
    \<Rightarrow> string set \<Rightarrow> string set \<Rightarrow> string set \<Rightarrow> tag_row list \<Rightarrow> tag_row list \<Rightarrow> collector \<Rightarrow> notification list" where
  "item_messages out op its coll collectionDest resource parts added removed addTags remTags s =
     (let t = tabs s;
          about = (\<lambda>shown parent res. Notification (session_of s) [] (ItemChange
            \<lparr>i_operation = op, i_resource = res, i_parentCollection = parent, i_parentDestCollection = col_id collectionDest,
             i_destinationResource = if entity_isValid (col_id collectionDest) then resource_name t collectionDest else [],
             itemParts = parts, addedFlags = added, removedFlags = removed,
             addedTags = map tagToResponse addTags, removedTags = map tagToResponse remTags, mustRetrieve = False, items = shown\<rparr>));
          shown = map item_to_response its;
          virtual = (if op \<in> {ItemModify, ItemModifyFlags, ItemModifyTags} then virtualCollections (queryOk out) t its else []);
          known = entity_isValid (col_id coll);
          home = (if known then coll else Collection_retrieveById t (item_collectionId (hd its)));
          owner = (if resource \<noteq> [] then resource
                   else resource_name t (if col_resourceId home \<le> 0 then Collection_retrieveById t (col_id home) else home))
      in if its = [] then []
         else map (\<lambda>(c, ids). about (map (\<lambda>i. case find (\<lambda>r. ir_id r = i) (rev shown) of Some r \<Rightarrow> r | None \<Rightarrow> empty_response) ids) c resource) virtual
              @ [about shown (col_id home) owner])"

definition collection_messages :: "outside \<Rightarrow> collection_op \<Rightarrow> collection_row \<Rightarrow> int \<Rightarrow> int \<Rightarrow> string \<Rightarrow> string set \<Rightarrow> string
    \<Rightarrow> collector \<Rightarrow> notification list" where
  "collection_messages out op coll src dest resource changes destResource s =
     (let t = tabs s; r = fetchCollectionsResponse t coll;
          shown = (case mgr s of None \<Rightarrow> r | Some a \<Rightarrow> fst (complete_response out a r (t_collectionAttrs t (col_id coll)) s))
      in if \<not> entity_isValid (col_id coll) then []
         else [Notification (session_of s) (if col_enabled coll then [] else [''DISABLED''])
           (CollectionChange \<lparr>c_operation = op, c_resource = if resource = [] then resource_name t coll else resource,
              c_parentCollection = src, c_parentDestCollection = dest, c_destinationResource = destResource,
              changedParts = changes, collection = shown\<rparr>)])"

definition tag_messages :: "outside \<Rightarrow> tag_op \<Rightarrow> tag_row \<Rightarrow> string \<Rightarrow> string \<Rightarrow> collector \<Rightarrow> notification list" where
  "tag_messages out op g resource rid s =
     (if \<not> entity_isValid (tag_id g) then []
      else case complete_tag out g rid s of
             Inl e \<Rightarrow> []
           | Inr r \<Rightarrow> [Notification (session_of s) [] (TagChange \<lparr>t_operation = op, t_resource = resource, tag = r\<rparr>)])"

text \<open>The changes that the store and the handlers report.\<close>

datatype change =
    ReportItemAdded pim_item bool collection_row string
  | ReportItemChanged pim_item "string set" collection_row string
  | ReportFlagsChanged "pim_item list" "string set" "string set" collection_row string
  | ReportTagsChanged "pim_item list" "tag_row list" "tag_row list" collection_row string
  | ReportItemsMoved "pim_item list" collection_row collection_row string
  | ReportItemsRemoved "pim_item list" collection_row string
  | ReportItemsLinked "pim_item list" collection_row
  | ReportItemsUnlinked "pim_item list" collection_row
  | ReportCollectionAdded collection_row string
  | ReportCollectionChanged collection_row "string list" string
  | ReportCollectionMoved collection_row collection_row string string
  | ReportCollectionRemoved collection_row string
  | ReportCollectionSubscribed collection_row string
  | ReportCollectionUnsubscribed collection_row string
  | ReportTagAdded tag_row
  | ReportTagChanged tag_row
  | ReportTagRemoved tag_row string string

definition or_same :: "collector \<Rightarrow> collector handled \<Rightarrow> collector" where
  "or_same s r = (case r of Inl e \<Rightarrow> s | Inr s' \<Rightarrow> s')"

fun report :: "outside \<Rightarrow> change \<Rightarrow> collector \<Rightarrow> collector" where
  "report out (ReportItemAdded i seen c r) s = itemAdded out i seen c r s"
| "report out (ReportItemChanged i parts c r) s = itemChanged out i parts c r s"
| "report out (ReportFlagsChanged its add rem c r) s = itemsFlagsChanged out its add rem c r s"
| "report out (ReportTagsChanged its add rem c r) s = itemsTagsChanged out its add rem c r s"
| "report out (ReportItemsMoved its src dest r) s = itemsMoved out its src dest r s"
| "report out (ReportItemsRemoved its c r) s = itemsRemoved out its c r s"
| "report out (ReportItemsLinked its c) s = itemsLinked out its c s"
| "report out (ReportItemsUnlinked its c) s = itemsUnlinked out its c s"
| "report out (ReportCollectionAdded c r) s = collectionAdded out c r s"
| "report out (ReportCollectionChanged c changes r) s = collectionChanged out c changes r s"
| "report out (ReportCollectionMoved c src r r') s = collectionMoved out c src r r' s"
| "report out (ReportCollectionRemoved c r) s = collectionRemoved out c r s"
| "report out (ReportCollectionSubscribed c r) s = collectionSubscribed out c r s"
| "report out (ReportCollectionUnsubscribed c r) s = collectionUnsubscribed out c r s"
| "report out (ReportTagAdded g) s = or_same s (tagAdded out g s)"
| "report out (ReportTagChanged g) s = or_same s (tagChanged out g s)"
| "report out (ReportTagRemoved g r rid) s = or_same s (tagRemoved out g r rid s)"

text \<open>An item that is not in the database is not told of. Some changes make the statistics of the collection that the notification carries be computed anew.\<close>

fun messages :: "outside \<Rightarrow> change \<Rightarrow> collector \<Rightarrow> notification list" where
  "messages out (ReportItemAdded i seen c r) s = (if entity_isValid (item_id i) then item_messages out ItemAdd [i] c row_new r {} {} {} [] [] s else [])"
| "messages out (ReportItemChanged i parts c r) s = (if entity_isValid (item_id i) then item_messages out ItemModify [i] c row_new r parts {} {} [] [] s else [])"
| "messages out (ReportFlagsChanged its add rem c r) s = item_messages out ItemModifyFlags its c row_new r {} add rem [] [] s"
| "messages out (ReportTagsChanged its add rem c r) s = item_messages out ItemModifyTags its c row_new r {} {} {} add rem s"
| "messages out (ReportItemsMoved its src dest r) s = item_messages out ItemMove its src dest r {} {} {} [] [] s"
| "messages out (ReportItemsRemoved its c r) s = item_messages out ItemRemove its c row_new r {} {} {} [] [] s"
| "messages out (ReportItemsLinked its c) s = item_messages out ItemLink its c row_new [] {} {} {} [] [] s"
| "messages out (ReportItemsUnlinked its c) s = item_messages out ItemUnlink its c row_new [] {} {} {} [] [] s"
| "messages out (ReportCollectionAdded c r) s = collection_messages out CollectionAdd c (col_parentId c) (-1) r {} [] s"
| "messages out (ReportCollectionChanged c changes r) s =
     collection_messages out CollectionModify c (col_parentId c) (-1) r (set changes) []
       (if ''ENABLED'' \<in> set changes then s\<lparr>cache := stats_invalidate c (cache s)\<rparr> else s)"
| "messages out (ReportCollectionMoved c src r r') s = collection_messages out CollectionMove c (col_id src) (col_parentId c) r {} r' s"
| "messages out (ReportCollectionRemoved c r) s =
     collection_messages out CollectionRemove c (col_parentId c) (-1) r {} [] (s\<lparr>cache := stats_invalidate c (cache s)\<rparr>)"
| "messages out (ReportCollectionSubscribed c r) s = collection_messages out CollectionSubscribe c (col_parentId c) (-1) r {} [] s"
| "messages out (ReportCollectionUnsubscribed c r) s =
     collection_messages out CollectionUnsubscribe c (col_parentId c) (-1) r {} [] (s\<lparr>cache := stats_invalidate c (cache s)\<rparr>)"
| "messages out (ReportTagAdded g) s = tag_messages out TagAdd g [] [] s"
| "messages out (ReportTagChanged g) s = tag_messages out TagModify g [] [] s"
| "messages out (ReportTagRemoved g r rid) s = tag_messages out TagRemove g r rid s"

section \<open>Inside a transaction\<close>

text \<open>\<open>queued s s' ms\<close>: from \<open>s\<close> to \<open>s'\<close> the messages \<open>ms\<close> were only put into the queue.\<close>

definition queued :: "collector \<Rightarrow> collector \<Rightarrow> notification list \<Rightarrow> bool" where
  "queued s s' ms \<longleftrightarrow> db s' = db s \<and> mIgnoreTransactions s' = mIgnoreTransactions s \<and> mgr s' = mgr s \<and>
     notified s' = notified s \<and> mNotifications s' = compress_all ms (mNotifications s)"

text \<open>What the store and the handlers rely on: a function of the collector that reports a change only queues messages while
  a transaction is open.\<close>

locale reporter =
  fixes report :: "collector \<Rightarrow> collector"
  assumes queues: "inTransaction (db s) \<Longrightarrow> \<exists>ms. queued s (report s) ms"
begin

lemma stays_inside: "inTransaction (db s) \<Longrightarrow> db (report s) = db s \<and> notified (report s) = notified s"
  using queues [of s] by (auto simp: queued_def)

end

lemma queued_nothing [intro]: "db s' = db s \<Longrightarrow> mIgnoreTransactions s' = mIgnoreTransactions s \<Longrightarrow> mgr s' = mgr s \<Longrightarrow>
    notified s' = notified s \<Longrightarrow> mNotifications s' = mNotifications s \<Longrightarrow> queued s s' []"
  by (simp add: queued_def)

lemma queued_trans: "queued s t xs \<Longrightarrow> queued t u ys \<Longrightarrow> queued s u (xs @ ys)"
  by (simp add: queued_def)

lemma queued_inside: "queued s t ms \<Longrightarrow> inTransaction (db s) \<Longrightarrow> inTransaction (db t)"
  by (simp add: queued_def)

lemma dispatch_inside: "inTransaction (db s) \<Longrightarrow> queued s (dispatchNotification out m s) [m]"
  by (simp add: dispatchNotification_def queued_def appendAndCompress_def split: ntf_body.splits)

lemma dispatch_queue: "inTransaction (db s) \<Longrightarrow> dispatchNotification out m s = s\<lparr>mNotifications := compress_all [m] (mNotifications s)\<rparr>"
  by (auto simp: dispatchNotification_def appendAndCompress_def split: ntf_body.splits intro!: collector.equality)

text \<open>A report inside of a transaction queues its messages; the statistics and the counters for others may change.\<close>

lemma virtual_tells:
  assumes "inTransaction (db s)"
  shows "\<exists>k. notify_virtual out msg xs resource vs s = s\<lparr>cache := k, mNotifications := compress_all
     (map (\<lambda>(c, ids). Notification (session_of s) [] (ItemChange (msg\<lparr>items := map (\<lambda>i. case find (\<lambda>r. ir_id r = i) (rev xs) of Some r \<Rightarrow> r | None \<Rightarrow> empty_response) ids,
        i_parentCollection := c, i_resource := resource\<rparr>))) vs) (mNotifications s)\<rparr>"
  using assms
proof (induction vs arbitrary: s)
  case Nil
  show ?case by (rule exI [of _ "cache s"]) simp
next
  case (Cons v vs)
  obtain c ids where v: "v = (c, ids)" by fastforce
  let ?m = "Notification (session_of s) [] (ItemChange (msg\<lparr>items := map (\<lambda>i. case find (\<lambda>r. ir_id r = i) (rev xs) of Some r \<Rightarrow> r | None \<Rightarrow> empty_response) ids,
     i_parentCollection := c, i_resource := resource\<rparr>))"
  let ?s = "s\<lparr>cache := stats_invalidate (Collection_retrieveById (tabs s) c) (cache s)\<rparr>"
  have session: "session_of (t\<lparr>cache := k\<rparr>) = session_of t" "session_of (t\<lparr>mNotifications := q\<rparr>) = session_of t" for t k q by (simp_all add: session_of_def)
  have "dispatchNotification out ?m ?s = ?s\<lparr>mNotifications := compress_all [?m] (mNotifications s)\<rparr>" using Cons.prems by (simp add: dispatch_queue)
  then show ?case using Cons.IH [of "?s\<lparr>mNotifications := compress_all [?m] (mNotifications s)\<rparr>"] Cons.prems
    by (auto simp: v Let_def session)
qed

lemma item_tells:
  assumes "inTransaction (db s)"
  shows "\<exists>k. itemNotification out op its coll dest resource parts added removed addTags remTags s =
     s\<lparr>cache := k, mNotifications := compress_all (item_messages out op its coll dest resource parts added removed addTags remTags s) (mNotifications s)\<rparr>"
proof (cases "its = []")
  case True
  then show ?thesis by (intro exI [of _ "cache s"]) (simp add: itemNotification_def item_messages_def)
next
  case False
  let ?vs = "if op \<in> {ItemModify, ItemModifyFlags, ItemModifyTags} then virtualCollections (queryOk out) (tabs s) its else []"
  have session: "session_of (t\<lparr>cache := k\<rparr>) = session_of t" "session_of (t\<lparr>mNotifications := q\<rparr>) = session_of t" for t k q by (simp_all add: session_of_def)
  obtain k where k: "notify_virtual out msg xs resource ?vs s = s\<lparr>cache := k msg xs, mNotifications := compress_all
     (map (\<lambda>(c, ids). Notification (session_of s) [] (ItemChange (msg\<lparr>items := map (\<lambda>i. case find (\<lambda>r. ir_id r = i) (rev xs) of Some r \<Rightarrow> r | None \<Rightarrow> empty_response) ids,
        i_parentCollection := c, i_resource := resource\<rparr>))) ?vs) (mNotifications s)\<rparr>" for msg xs
    using virtual_tells [OF assms, of out _ _ resource ?vs] by metis
  show ?thesis unfolding itemNotification_def if_not_P [OF False] Let_def k
    using False assms
    by (auto simp: dispatch_queue item_messages_def default_item_change_def Let_def session case_prod_unfold comp_def intro!: exI)
qed

lemma complete_response_cache: "\<exists>k. snd (complete_response out a r rows s) = s\<lparr>cache := k\<rparr>"
proof -
  have "\<exists>k. s = s\<lparr>cache := k\<rparr>" by (rule exI [of _ "cache s"]) simp
  then show ?thesis unfolding complete_response_def Let_def by (auto split: prod.splits if_splits)
qed

lemma collection_tells:
  assumes "inTransaction (db s)"
  shows "\<exists>k. collectionNotification out op coll src dest resource changes destResource s =
     s\<lparr>cache := k, mNotifications := compress_all (collection_messages out op coll src dest resource changes destResource s) (mNotifications s)\<rparr>"
proof -
  let ?r = "fetchCollectionsResponse (tabs s) coll"
  let ?f = "case mgr s of None \<Rightarrow> (?r, s) | Some a \<Rightarrow> complete_response out a ?r (t_collectionAttrs (tabs s) (col_id coll)) s"
  obtain r k where f: "?f = (r, s\<lparr>cache := k\<rparr>)"
  proof (cases "mgr s")
    case None
    then show ?thesis using that [of ?r "cache s"] by simp
  next
    case (Some a)
    obtain k where "snd (complete_response out a ?r (t_collectionAttrs (tabs s) (col_id coll)) s) = s\<lparr>cache := k\<rparr>"
      using complete_response_cache by blast
    then show ?thesis using that [of "fst (complete_response out a ?r (t_collectionAttrs (tabs s) (col_id coll)) s)" k] Some by (simp add: prod_eq_iff)
  qed
  have shown: "(case mgr s of None \<Rightarrow> ?r | Some a \<Rightarrow> fst (complete_response out a ?r (t_collectionAttrs (tabs s) (col_id coll)) s)) = r"
    using arg_cong [OF f, of fst] by (simp split: option.splits)
  have session: "session_of (t\<lparr>cache := k\<rparr>) = session_of t" for t k by (simp add: session_of_def)
  show ?thesis
  proof (cases "entity_isValid (col_id coll)")
    case True
    then show ?thesis using assms
      by (intro exI [of _ k]) (simp add: collectionNotification_def collection_messages_def Let_def f shown dispatch_queue session)
  next
    case False
    then show ?thesis by (intro exI [of _ "cache s"]) (simp add: collectionNotification_def collection_messages_def Let_def)
  qed
qed

lemma tag_tells:
  assumes "inTransaction (db s)"
  shows "or_same s (tagNotification out op g resource rid s) = s\<lparr>mNotifications := compress_all (tag_messages out op g resource rid s) (mNotifications s)\<rparr>"
  using assms by (cases "complete_tag out g rid s") (simp_all add: tagNotification_def tag_messages_def or_same_def dispatch_queue)

text \<open>What a message says does not depend on the queue, the calls of the schedulers and of the search, nor for items on the statistics.\<close>

lemma item_messages_same:
  "tabs t = tabs s \<Longrightarrow> mConnection t = mConnection s \<Longrightarrow>
     item_messages out op its coll dest resource parts added removed addTags remTags t = item_messages out op its coll dest resource parts added removed addTags remTags s"
  by (simp add: item_messages_def session_of_def)

lemma complete_response_frame:
  "complete_response out a r rows (s\<lparr>scheduler_calls := x\<rparr>) = (fst (complete_response out a r rows s), (snd (complete_response out a r rows s))\<lparr>scheduler_calls := x\<rparr>)"
  unfolding complete_response_def Let_def by (auto split: prod.splits if_splits)

lemma collection_messages_same:
  "collection_messages out op coll src dest resource changes destResource (s\<lparr>scheduler_calls := x\<rparr>) = collection_messages out op coll src dest resource changes destResource s"
  by (cases "mgr s") (simp_all add: collection_messages_def session_of_def complete_response_frame Let_def)

text \<open>The reports queue their messages.\<close>

lemma queued_told: "\<exists>k. s' = t\<lparr>cache := k, mNotifications := compress_all ms (mNotifications t)\<rparr> \<Longrightarrow> queued s t [] \<Longrightarrow> queued s s' ms"
  by (auto simp: queued_def)

lemma item_report:
  assumes "queued s t []" "inTransaction (db s)" "tabs t = tabs s" "mConnection t = mConnection s"
  shows "queued s (itemNotification out op its coll dest resource parts added removed addTags remTags t)
     (item_messages out op its coll dest resource parts added removed addTags remTags s)"
  using queued_told [OF item_tells [OF queued_inside [OF assms(1, 2)]] assms(1)] by (simp only: item_messages_same [OF assms(3, 4)])

lemma collection_report:
  assumes "queued s t []" "inTransaction (db s)"
  shows "queued s (collectionNotification out op coll src dest resource changes destResource t)
     (collection_messages out op coll src dest resource changes destResource t)"
  by (rule queued_told [OF collection_tells [OF queued_inside [OF assms]] assms(1)])

lemmas update_simps = queued_def scheduleSearchUpdate_def tell_schedulers_def

lemma tell_frame: "(tell_schedulers f g c s)\<lparr>cache := k\<rparr> = (s\<lparr>cache := k\<rparr>)\<lparr>scheduler_calls := scheduler_calls (tell_schedulers f g c s)\<rparr>"
  "tell_schedulers f g c s = s\<lparr>scheduler_calls := scheduler_calls (tell_schedulers f g c s)\<rparr>" "cache (tell_schedulers f g c s) = cache s"
  by (simp_all add: tell_schedulers_def)

lemma collection_told:
  assumes "inTransaction (db s)" "queued s t []"
  shows "queued s (collectionNotification out op coll src dest resource changes destResource (t\<lparr>scheduler_calls := x\<rparr>))
     (collection_messages out op coll src dest resource changes destResource t)"
proof -
  have "queued s (t\<lparr>scheduler_calls := x\<rparr>) []" using assms(2) by (simp add: queued_def)
  from collection_report [OF this assms(1)] show ?thesis by (simp only: collection_messages_same)
qed

lemma item_report_tells:
  assumes "inTransaction (db s)"
  shows "queued s (itemAdded out i seen c res s) (messages out (ReportItemAdded i seen c res) s)"
    "queued s (itemChanged out i parts c res s) (messages out (ReportItemChanged i parts c res) s)"
    "queued s (itemsFlagsChanged out its add rem c res s) (messages out (ReportFlagsChanged its add rem c res) s)"
    "queued s (itemsTagsChanged out its tadd trem c res s) (messages out (ReportTagsChanged its tadd trem c res) s)"
    "queued s (itemsMoved out its src dest res s) (messages out (ReportItemsMoved its src dest res) s)"
    "queued s (itemsRemoved out its c res s) (messages out (ReportItemsRemoved its c res) s)"
    "queued s (itemsLinked out its c s) (messages out (ReportItemsLinked its c) s)"
    "queued s (itemsUnlinked out its c s) (messages out (ReportItemsUnlinked its c) s)"
proof -
  have q: "queued s (itemNotification out op its coll dest resource parts added removed addTags remTags (s\<lparr>searchUpdates := n, cache := k\<rparr>))
     (item_messages out op its coll dest resource parts added removed addTags remTags s)"
    "queued s (itemNotification out op its coll dest resource parts added removed addTags remTags (s\<lparr>searchUpdates := n\<rparr>))
     (item_messages out op its coll dest resource parts added removed addTags remTags s)"
    "queued s (itemNotification out op its coll dest resource parts added removed addTags remTags (s\<lparr>cache := k\<rparr>))
     (item_messages out op its coll dest resource parts added removed addTags remTags s)"
    "queued s (itemNotification out op its coll dest resource parts added removed addTags remTags s)
     (item_messages out op its coll dest resource parts added removed addTags remTags s)"
    "queued s (s\<lparr>searchUpdates := n, cache := k\<rparr>) []" "queued s (s\<lparr>searchUpdates := n\<rparr>) []"
    for op its coll dest resource parts added removed addTags remTags n k
    by (rule item_report [OF _ assms] | simp add: queued_def)+
  show "queued s (itemAdded out i seen c res s) (messages out (ReportItemAdded i seen c res) s)"
    "queued s (itemChanged out i parts c res s) (messages out (ReportItemChanged i parts c res) s)"
    "queued s (itemsFlagsChanged out its add rem c res s) (messages out (ReportFlagsChanged its add rem c res) s)"
    "queued s (itemsTagsChanged out its tadd trem c res s) (messages out (ReportTagsChanged its tadd trem c res) s)"
    "queued s (itemsMoved out its src dest res s) (messages out (ReportItemsMoved its src dest res) s)"
    "queued s (itemsRemoved out its c res s) (messages out (ReportItemsRemoved its c res) s)"
    "queued s (itemsLinked out its c s) (messages out (ReportItemsLinked its c) s)"
    "queued s (itemsUnlinked out its c s) (messages out (ReportItemsUnlinked its c) s)"
    by (simp_all add: itemAdded_def itemChanged_def itemsFlagsChanged_def itemsTagsChanged_def itemsMoved_def itemsRemoved_def itemsLinked_def itemsUnlinked_def
      Let_def scheduleSearchUpdate_def q)
qed

lemma collection_report_tells:
  assumes "inTransaction (db s)"
  shows "queued s (collectionAdded out c res s) (messages out (ReportCollectionAdded c res) s)"
    "queued s (collectionChanged out c changes res s) (messages out (ReportCollectionChanged c changes res) s)"
    "queued s (collectionMoved out c src res dest s) (messages out (ReportCollectionMoved c src res dest) s)"
    "queued s (collectionRemoved out c res s) (messages out (ReportCollectionRemoved c res) s)"
    "queued s (collectionSubscribed out c res s) (messages out (ReportCollectionSubscribed c res) s)"
    "queued s (collectionUnsubscribed out c res s) (messages out (ReportCollectionUnsubscribed c res) s)"
proof -
  have q: "queued s s []" "queued s (s\<lparr>cache := k\<rparr>) []" for k by (simp_all add: queued_def)
  note told = collection_told [OF assms q(1)] collection_told [OF assms q(2)]
  show "queued s (collectionAdded out c res s) (messages out (ReportCollectionAdded c res) s)"
    unfolding collectionAdded_def messages.simps by (subst tell_frame(2)) (rule told)
  show "queued s (collectionChanged out c changes res s) (messages out (ReportCollectionChanged c changes res) s)"
    unfolding collectionChanged_def messages.simps Let_def
    by (cases "''ENABLED'' \<in> set changes"; simp only: if_True if_False tell_frame(1,3) told) (subst tell_frame(2), rule told)
  show "queued s (collectionMoved out c src res dest s) (messages out (ReportCollectionMoved c src res dest) s)"
    unfolding collectionMoved_def messages.simps by (subst tell_frame(2)) (rule told)
  show "queued s (collectionRemoved out c res s) (messages out (ReportCollectionRemoved c res) s)"
    unfolding collectionRemoved_def messages.simps Let_def tell_frame(1,3) by (rule told)
  show "queued s (collectionSubscribed out c res s) (messages out (ReportCollectionSubscribed c res) s)"
    unfolding collectionSubscribed_def messages.simps by (subst tell_frame(2)) (rule told)
  show "queued s (collectionUnsubscribed out c res s) (messages out (ReportCollectionUnsubscribed c res) s)"
    unfolding collectionUnsubscribed_def messages.simps Let_def tell_frame(1,3) by (rule told)
qed

lemma report_tells:
  assumes "inTransaction (db s)"
  shows "queued s (report out r s) (messages out r s)"
proof -
  have tags: "queued s (or_same s (tagNotification out op g res rid s)) (tag_messages out op g res rid s)" for op g res rid
    by (simp add: tag_tells [OF assms] queued_def)
  show ?thesis
    by (cases r; simp only: report.simps item_report_tells [OF assms] collection_report_tells [OF assms])
      (simp_all only: tagAdded_def tagChanged_def tagRemoved_def messages.simps tags)
qed

lemma tells_reporter: "(\<And>s. inTransaction (db s) \<Longrightarrow> queued s (f s) (ms s)) \<Longrightarrow> reporter f"
  unfolding reporter_def by blast

interpretation item_added: reporter "itemAdded out item seen coll resource" for out item seen coll resource
  by (rule tells_reporter [OF item_report_tells(1)])

interpretation item_changed: reporter "itemChanged out item changed coll resource" for out item changed coll resource
  by (rule tells_reporter [OF item_report_tells(2)])

interpretation items_flags_changed: reporter "itemsFlagsChanged out its added removed coll resource" for out its added removed coll resource
  by (rule tells_reporter [OF item_report_tells(3)])

interpretation items_tags_changed: reporter "itemsTagsChanged out its added removed coll resource" for out its added removed coll resource
  by (rule tells_reporter [OF item_report_tells(4)])

interpretation items_moved: reporter "itemsMoved out its src dest resource" for out its src dest resource
  by (rule tells_reporter [OF item_report_tells(5)])

interpretation items_removed: reporter "itemsRemoved out its coll resource" for out its coll resource
  by (rule tells_reporter [OF item_report_tells(6)])

interpretation items_linked: reporter "itemsLinked out its coll" for out its coll
  by (rule tells_reporter [OF item_report_tells(7)])

interpretation items_unlinked: reporter "itemsUnlinked out its coll" for out its coll
  by (rule tells_reporter [OF item_report_tells(8)])

interpretation collection_added: reporter "collectionAdded out coll resource" for out coll resource
  by (rule tells_reporter [OF collection_report_tells(1)])

interpretation collection_changed: reporter "collectionChanged out coll changes resource" for out coll changes resource
  by (rule tells_reporter [OF collection_report_tells(2)])

interpretation collection_moved: reporter "collectionMoved out coll src resource destResource" for out coll src resource destResource
  by (rule tells_reporter [OF collection_report_tells(3)])

interpretation collection_removed: reporter "collectionRemoved out coll resource" for out coll resource
  by (rule tells_reporter [OF collection_report_tells(4)])

interpretation collection_subscribed: reporter "collectionSubscribed out coll resource" for out coll resource
  by (rule tells_reporter [OF collection_report_tells(5)])

interpretation collection_unsubscribed: reporter "collectionUnsubscribed out coll resource" for out coll resource
  by (rule tells_reporter [OF collection_report_tells(6)])

section \<open>Whole transactions\<close>

text \<open>What happens to the collector: a report, or an operation of the store. \<open>balanced k es\<close>: starting \<open>k\<close> levels inside the outermost
  transaction, the events open and close inner transactions and end in the outermost one.\<close>

datatype event = Report change | Store txn_op

fun run_events :: "outside \<Rightarrow> event list \<Rightarrow> collector \<Rightarrow> collector" where
  "run_events out [] s = s"
| "run_events out (Report r # es) s = run_events out es (report out r s)"
| "run_events out (Store x # es) s = run_events out es (txn out x s)"

text \<open>What the reports of the events call for, at the moments when they are made.\<close>

fun told :: "outside \<Rightarrow> event list \<Rightarrow> collector \<Rightarrow> notification list" where
  "told out [] s = []"
| "told out (Report r # es) s = messages out r s @ told out es (report out r s)"
| "told out (Store x # es) s = told out es (txn out x s)"

fun balanced :: "nat \<Rightarrow> event list \<Rightarrow> bool" where
  "balanced k [] \<longleftrightarrow> k = 0"
| "balanced k (Report f # es) \<longleftrightarrow> balanced k es"
| "balanced k (Store (Begin ok) # es) \<longleftrightarrow> balanced (Suc k) es"
| "balanced k (Store (Commit ok) # es) \<longleftrightarrow> 0 < k \<and> balanced (k - 1) es"
| "balanced k (Store Rollback # es) \<longleftrightarrow> 0 < k \<and> balanced (k - 1) es"
| "balanced k (Store Kill # es) \<longleftrightarrow> False"

definition at_level :: "nat \<Rightarrow> collector \<Rightarrow> bool" where
  "at_level k s \<longleftrightarrow> m_dbOpened (db s) \<and> m_transactionLevel (db s) = k \<and> \<not> m_transactionKilledByDB (db s)"

text \<open>Inner operations of the store change nothing but the level.\<close>

lemma txn_inside:
  assumes "at_level (Suc k) s" and "balanced k (Store x # es)"
  shows "\<exists>d j. txn out x s = s\<lparr>db := d\<rparr> \<and> at_level (Suc j) (s\<lparr>db := d\<rparr>) \<and> balanced j es"
proof (cases x)
  case (Begin ok)
  then show ?thesis using assms
    by (intro exI [of _ "(db s)\<lparr>m_transactionLevel := Suc (Suc k)\<rparr>"] exI [of _ "Suc k"])
      (simp add: txn_def txn_defs at_level_def)
next
  case (Commit ok)
  then show ?thesis using assms
    by (intro exI [of _ "(db s)\<lparr>m_transactionLevel := k\<rparr>"] exI [of _ "k - 1"])
      (simp add: txn_def txn_defs at_level_def)
next
  case Rollback
  then show ?thesis using assms
    by (intro exI [of _ "(db s)\<lparr>m_transactionLevel := k\<rparr>"] exI [of _ "k - 1"])
      (simp add: txn_def txn_defs at_level_def)
qed (use assms in simp)

lemma events_inside:
  "at_level (Suc k) s \<Longrightarrow> balanced k es \<Longrightarrow>
     let s' = run_events out es s in at_level 1 s' \<and> mIgnoreTransactions s' = mIgnoreTransactions s \<and> mgr s' = mgr s \<and>
       notified s' = notified s \<and> mNotifications s' = compress_all (told out es s) (mNotifications s)"
proof (induction es arbitrary: k s)
  case (Cons e es)
  show ?case
  proof (cases e)
    case (Report r)
    have "inTransaction (db s)" using Cons.prems(1) by (simp add: at_level_def inTransaction_def)
    then have q: "queued s (report out r s) (messages out r s)" by (rule report_tells)
    then have "at_level (Suc k) (report out r s)" using Cons.prems(1) by (simp add: queued_def at_level_def)
    from Cons.IH [OF this] Cons.prems(2) q show ?thesis by (simp add: Report queued_def Let_def)
  next
    case (Store x)
    obtain d j where "txn out x s = s\<lparr>db := d\<rparr>" and j: "at_level (Suc j) (s\<lparr>db := d\<rparr>)" "balanced j es"
      using txn_inside [OF Cons.prems(1)] Cons.prems(2) Store by metis
    then show ?thesis using Cons.IH [OF j] Store by simp
  qed
qed simp

text \<open>What a notification may become when it is sent: an item notification that is not about a removal has its items fetched anew by their ids, or it loses their
  remote ids and says that the client must fetch them.\<close>

definition completes :: "outside \<Rightarrow> notification \<Rightarrow> notification \<Rightarrow> bool" where
  "completes out m m' \<longleftrightarrow> m' = m \<or>
     (\<exists>c. body m = ItemChange c \<and> i_operation c \<noteq> ItemRemove \<and>
        (m' = Notification (sessionId m) (metadata m) (ItemChange (c\<lparr>items := complete_items (items c), mustRetrieve := True\<rparr>)) \<or>
         (\<exists>ifs tfs fetched ops. fetchItems out ifs tfs (itemsToUids (items c)) = (Some fetched, ops) \<and>
            m' = Notification (sessionId m) (metadata m) (ItemChange (c\<lparr>items := fetched\<rparr>)))))"

definition unsent :: "collector \<Rightarrow> notification list \<times> notification list list \<times> bool \<times> bool" where
  "unsent s = (mNotifications s, notified s, mgr s = None, mIgnoreTransactions s)"

lemma ignored_ops_unsent: "unsent (ignored_ops xs s) = unsent s"
  by (induction xs s rule: ignored_ops.induct) (simp_all add: unsent_def split: prod.splits)

lemma unsent_mgr: "mgr s = Some b \<Longrightarrow> unsent (s\<lparr>mgr := Some a\<rparr>) = unsent s"
  by (simp add: unsent_def)

lemma complete_cases:
  obtains (same) m' where "completeNotification out m s = (m', s)" "completes out m m'"
  | (fetched) m' ops a b where "completeNotification out m s = (m', ignored_ops ops (s\<lparr>mgr := Some a\<rparr>))" "completes out m m'" "mgr s = Some b"
proof (cases "body m")
  case (ItemChange c)
  show ?thesis
  proof (cases "mgr s")
    case (Some b)
    show ?thesis
    proof (cases "i_operation c \<noteq> ItemRemove \<and> \<not> inTransaction (db s) \<and> mConnection s \<noteq> None \<and>
        (list_all (\<lambda>i. ir_remoteId i \<noteq> []) (items c) \<or> i_operation c \<noteq> ItemAdd)")
      case True
      obtain ifs ai where sc: "toFetchScope (listed out (cvalues (i_parts (agg_i b)))) (agg_i b) = (ifs, ai)" by fastforce
      obtain r ops where f: "fetchItems out (setFetch CacheOnly True ifs)
          (tag_toFetchScope (listed out (cvalues (t_attrs (agg_t b)))) (agg_t b)) (itemsToUids (items c)) = (r, ops)" by fastforce
      then have eq: "completeNotification out m s =
          ((case r of Some fetched \<Rightarrow> Notification (sessionId m) (metadata m) (ItemChange (c\<lparr>items := fetched\<rparr>)) | None \<Rightarrow> m),
           ignored_ops ops (s\<lparr>mgr := Some (b\<lparr>agg_i := ai\<rparr>)\<rparr>))"
        using True ItemChange Some sc by (auto simp: completeNotification_def Let_def split: option.split)
      moreover have "completes out m (case r of Some fetched \<Rightarrow> Notification (sessionId m) (metadata m) (ItemChange (c\<lparr>items := fetched\<rparr>)) | None \<Rightarrow> m)"
        using True ItemChange f by (cases r) (auto simp: completes_def)
      ultimately show ?thesis using fetched Some by blast
    next
      case False
      have "\<exists>m'. completeNotification out m s = (m', s) \<and> completes out m m'"
        using False ItemChange Some by (auto simp: completeNotification_def Let_def completes_def)
      then show ?thesis using same by blast
    qed
  qed (use same ItemChange in \<open>simp add: completeNotification_def completes_def\<close>)
qed (use same in \<open>simp_all add: completeNotification_def completes_def\<close>)

lemma complete_keeps:
  assumes "completeNotification out m s = (m', s')"
  shows "completes out m m' \<and> unsent s' = unsent s"
  by (rule complete_cases [of out m s]) (use assms in \<open>auto simp: ignored_ops_unsent unsent_mgr\<close>)

lemma complete_all_keeps:
  "complete_all out ms s = (ms', s') \<Longrightarrow> list_all2 (completes out) ms ms' \<and> unsent s' = unsent s"
proof (induction ms arbitrary: s ms' s')
  case (Cons m ms)
  then obtain m1 s1 ms1 s2 where "completeNotification out m s = (m1, s1)" "complete_all out ms s1 = (ms1, s2)" "ms' = m1 # ms1" "s' = s2"
    by (auto split: prod.splits)
  then show ?case using complete_keeps Cons.IH by fastforce
qed simp

lemma commit_outermost:
  assumes "at_level 1 s" and "\<not> mIgnoreTransactions s" and "mgr s \<noteq> None"
  shows "\<exists>batch. list_all2 (completes out) (mNotifications s) batch \<and> mNotifications (txn out (Commit True) s) = [] \<and>
    notified (txn out (Commit True) s) = notified s @ (if mNotifications s = [] then [] else [batch])"
proof (cases "mNotifications s = []")
  case True
  then show ?thesis using assms
    by (intro exI [of _ "[]"]) (simp add: txn_def txn_defs at_level_def committed_def dispatchNotifications_def)
next
  case False
  define d where "d = (db s)\<lparr>driver := driver (db s) @ [DriverCommit], m_transactionLevel := 0\<rparr>"
  obtain batch s' where b: "complete_all out (mNotifications s) (s\<lparr>db := d\<rparr>) = (batch, s')" by fastforce
  then have keeps: "list_all2 (completes out) (mNotifications s) batch" "unsent s' = unsent (s\<lparr>db := d\<rparr>)"
    using complete_all_keeps by auto
  have "txn out (Commit True) s = collector_clear (collector_notify batch s')"
    using assms False b
    by (simp add: txn_def txn_defs at_level_def committed_def dispatchNotifications_def d_def)
  then show ?thesis using keeps assms(3) False
    by (intro exI [of _ batch]) (auto simp: collector_clear_def collector_notify_def unsent_def)
qed

section \<open>Properties\<close>

text \<open>(C1) Notifications follow the outermost transaction. While it is open, whatever is reported and however inner transactions are
  opened and closed, nothing is sent, and the queue holds exactly what the reports call for, in their order and compressed. If the transaction is rolled back,
  nothing of it is ever sent. If it is committed, the queue is sent as one batch, in its order and unchanged but for the items that are completed;
  without reports nothing is sent. (The database lets the outermost transaction begin and end and does not kill it.)\<close>

theorem transaction_is_one_batch:
  assumes "at_level 0 s" and "mNotifications s = []" and "\<not> mIgnoreTransactions s" and "mgr s \<noteq> None" and "balanced 0 es"
  shows "let s0 = txn out (Begin True) s; s1 = run_events out es s0; queue = compress_all (told out es s0) [] in
    notified s1 = notified s \<and> mNotifications s1 = queue \<and>
    notified (txn out Rollback s1) = notified s \<and> mNotifications (txn out Rollback s1) = [] \<and>
    mNotifications (txn out (Commit True) s1) = [] \<and>
    (\<exists>batch. list_all2 (completes out) queue batch \<and>
       notified (txn out (Commit True) s1) = notified s @ (if queue = [] then [] else [batch]))"
proof -
  define d where "d = (db s)\<lparr>m_transactionKilledByDB := False, driver := driver (db s) @ [DriverBegin], m_transactionLevel := Suc 0\<rparr>"
  have opened: "txn out (Begin True) s = s\<lparr>db := d\<rparr>" using assms(1) by (simp add: txn_def txn_defs at_level_def d_def)
  have "at_level (Suc 0) (s\<lparr>db := d\<rparr>)" using assms(1) by (simp add: at_level_def d_def)
  define s1 where "s1 = run_events out es (s\<lparr>db := d\<rparr>)"
  from events_inside [OF \<open>at_level (Suc 0) (s\<lparr>db := d\<rparr>)\<close> assms(5), of out] have s1: "at_level 1 s1"
    "\<not> mIgnoreTransactions s1" "mgr s1 \<noteq> None" "notified s1 = notified s" "mNotifications s1 = compress_all (told out es (s\<lparr>db := d\<rparr>)) []"
    using assms(2-4) by (auto simp: Let_def s1_def)
  have "notified (txn out Rollback s1) = notified s1 \<and> mNotifications (txn out Rollback s1) = []"
    using s1(1, 2) by (simp add: txn_def txn_defs at_level_def rolled_back_def collector_clear_def)
  moreover have "\<exists>batch. list_all2 (completes out) (mNotifications s1) batch \<and> mNotifications (txn out (Commit True) s1) = [] \<and>
    notified (txn out (Commit True) s1) = notified s1 @ (if mNotifications s1 = [] then [] else [batch])"
    by (rule commit_outermost [OF s1(1-3)])
  ultimately show ?thesis unfolding Let_def opened s1_def [symmetric] s1(5) [symmetric] s1(4) by blast
qed

text \<open>An idle collector on the example tables.\<close>

definition sample_out :: outside where
  "sample_out = \<lparr>fetchItems = (\<lambda>_ _ _. (None, [])), queryOk = True, listed = (\<lambda>_. [])\<rparr>"

definition sample_collector :: collector where
  "sample_collector = \<lparr>db = \<lparr>m_dbOpened = True, m_transactionLevel = 0, m_transactionKilledByDB = False, driver = []\<rparr>,
     tabs = sample_tables, mNotifications = [], mIgnoreTransactions = False, mConnection = None, cache = Map.empty,
     searchUpdates = 0, cleaner = True, scheduler_calls = [],
     mgr = Some \<lparr>agg_c = collection_new, agg_t = tag_new, agg_i = item_new\<rparr>, notified = []\<rparr>"

theorem transaction_is_one_batch_witness:
  "\<exists>queue batch. let s1 = run_events sample_out [Report (ReportCollectionAdded sample_inbox []), Store (Begin True),
        Report (ReportItemsRemoved [pim_item_new\<lparr>item_id := 3\<rparr>] sample_inbox []), Store Rollback] (txn sample_out (Begin True) sample_collector)
     in length queue = 2 \<and> mNotifications s1 = queue \<and> notified (txn sample_out Rollback s1) = [] \<and> list_all2 (completes sample_out) queue batch \<and>
        notified (txn sample_out (Commit True) s1) = [batch]"
proof -
  let ?es = "[Report (ReportCollectionAdded sample_inbox []), Store (Begin True),
     Report (ReportItemsRemoved [pim_item_new\<lparr>item_id := 3\<rparr>] sample_inbox []), Store Rollback]"
  let ?queue = "compress_all (told sample_out ?es (txn sample_out (Begin True) sample_collector)) []"
  have "at_level 0 sample_collector" "mNotifications sample_collector = []" "\<not> mIgnoreTransactions sample_collector"
    "mgr sample_collector \<noteq> None" "balanced 0 ?es"
    by (simp_all add: at_level_def sample_collector_def)
  note batch = transaction_is_one_batch [OF this, of sample_out]
  have "length ?queue = 2" by code_simp
  then have "?queue \<noteq> []" by auto
  moreover have "notified sample_collector = []" by (simp add: sample_collector_def)
  ultimately show ?thesis using batch \<open>length ?queue = 2\<close> unfolding Let_def by auto
qed

text \<open>A notification about a virtual collection whose statistics are not cached reports and caches empty statistics, whatever items are
  linked to the collection: the statistics are asked for with an entity that has only its id set, which counts as a real
  collection.\<close>

theorem virtual_statistics_lost:
  assumes "tables_ok (tabs s)" and "c \<in> set (t_collections (tabs s))" and "col_isVirtual c" and "col_name c \<noteq> []"
    and "cache s (col_id c) = None" and "queryOk out" and "collection_fetchStatistics (agg_c a)"
  shows "let (r, s') = complete_response out a (fetchCollectionsResponse (tabs s) c) rows s
    in cr_statistics r = (0, 0, 0) \<and> cache s' (col_id c) = Some \<lparr>st_count = 0, st_size = 0, st_read = 0\<rparr>"
proof -
  have "filter (\<lambda>i. item_collectionId i = col_id c) (t_items (tabs s)) = []"
    using tables_okD(1) [OF assms(1, 2, 3)] by (auto simp: filter_empty_conv)
  then have "stats_statistics True (tabs s) (row_new\<lparr>col_id := col_id c\<rparr>) (cache s) =
      (\<lparr>st_count = 0, st_size = 0, st_read = 0\<rparr>, (cache s)(col_id c \<mapsto> \<lparr>st_count = 0, st_size = 0, st_read = 0\<rparr>))"
    using assms(5) by (simp add: stats_statistics_def calculateCollectionStatistics_def rows_of_def row_new_def Let_def)
  moreover have "cr_id (fetchCollectionsResponse (tabs s) c) = col_id c" "cr_name (fetchCollectionsResponse (tabs s) c) = col_name c"
    by (simp_all add: fetchCollectionsResponse_def fetchCollectionsResponse_full_def Let_def)
  ultimately show ?thesis using assms(4, 6, 7) by (simp add: complete_response_def Let_def)
qed

end
