(* ===== verification/ItemStore.thy ===== *)
theory ItemStore
  imports NotificationCollector
begin

text \<open>
  The flags and tags of items in \<open>src/server/storage/datastore.cpp\<close>, on the tables and the notification collector. A flag is its
  name. An operation returns whether it succeeded, the value of its out parameter, and the new state; after a failure the
  changes made so far are still there, as it is the caller that rolls back.
\<close>

section \<open>Queries\<close>

text \<open>The queries that can fail. An insert also fails on the primary key: when a row is there already or is given twice. \<open>sized\<close> says
  whether the driver knows the size of a result.\<close>

datatype row_query = SelectRows | InsertRows | DeleteRows

definition insert_flags :: "(row_query \<Rightarrow> bool) \<Rightarrow> (int \<times> string) list \<Rightarrow> tables \<Rightarrow> tables option" where
  "insert_flags ok rows t =
     (if ok InsertRows \<and> distinct rows \<and> list_all (\<lambda>r. r \<notin> t_flags t) rows then Some (t\<lparr>t_flags := t_flags t \<union> set rows\<rparr>) else None)"

definition insert_tags :: "(row_query \<Rightarrow> bool) \<Rightarrow> (int \<times> int) list \<Rightarrow> tables \<Rightarrow> tables option" where
  "insert_tags ok rows t =
     (if ok InsertRows \<and> distinct rows \<and> list_all (\<lambda>r. r \<notin> set (t_itemTags t)) rows
      then Some (t\<lparr>t_itemTags := t_itemTags t @ rows\<rparr>) else None)"

text \<open>The collection that is told with the notification: the one given or the common one of the items; items of several
  collections give the id -2.\<close>

definition join_collection :: "pim_item \<Rightarrow> collection_row \<Rightarrow> collection_row" where
  "join_collection i c =
     (if col_id c = -1 then c\<lparr>col_id := item_collectionId i\<rparr>
      else if col_id c \<noteq> item_collectionId i then c\<lparr>col_id := -2\<rparr> else c)"

section \<open>Flags\<close>

definition setItemsFlags :: "outside \<Rightarrow> (row_query \<Rightarrow> bool) \<Rightarrow> pim_item list \<Rightarrow> string list option \<Rightarrow> string list \<Rightarrow> collection_row
    \<Rightarrow> bool \<Rightarrow> collector \<Rightarrow> bool \<times> bool \<times> collector" where
  "setItemsFlags out ok its currentFlags newFlags col silent s =
     (let old = (\<lambda>i. case currentFlags of Some fs \<Rightarrow> set fs | None \<Rightarrow> item_flags (tabs s) (item_id i));
          removed = (\<Union>i \<in> set its. old i - set newFlags);
          del = (\<Union>i \<in> set its. Pair (item_id i) ` (old i - set newFlags));
          ins = concat (map (\<lambda>i. map (Pair (item_id i)) (filter (\<lambda>f. f \<notin> old i) newFlags)) its);
          added = set (map snd ins);
          col = fold join_collection its col
      in if removed \<noteq> {} \<and> \<not> ok DeleteRows then (False, False, s)
         else
           (let s = (if removed \<noteq> {} then s\<lparr>tabs := (tabs s)\<lparr>t_flags := t_flags (tabs s) - del\<rparr>\<rparr> else s)
            in case (if added \<noteq> {} then insert_flags ok ins (tabs s) else Some (tabs s)) of
                 None \<Rightarrow> (False, False, s)
               | Some t \<Rightarrow>
                   (let s = s\<lparr>tabs := t\<rparr>;
                        s = (if \<not> silent \<and> (added \<noteq> {} \<or> removed \<noteq> {}) then itemsFlagsChanged out its added removed col [] s else s)
                    in (True, added \<noteq> removed, s))))"

definition doAppendItemsFlag :: "outside \<Rightarrow> (row_query \<Rightarrow> bool) \<Rightarrow> pim_item list \<Rightarrow> string \<Rightarrow> int set \<Rightarrow> collection_row \<Rightarrow> bool
    \<Rightarrow> collector \<Rightarrow> bool \<times> collector" where
  "doAppendItemsFlag out ok its f existing col silent s =
     (let appendItems = filter (\<lambda>i. item_id i \<notin> existing) its;
          col = fold join_collection appendItems col
      in if appendItems = [] then (True, s)
         else
           (case insert_flags ok (map (\<lambda>i. (item_id i, f)) appendItems) (tabs s) of
              None \<Rightarrow> (False, s)
            | Some t \<Rightarrow>
                (let s = s\<lparr>tabs := t\<rparr>
                 in (True, if \<not> silent then itemsFlagsChanged out appendItems {f} {} col [] s else s))))"

text \<open>\<open>appendItemsFlags\<close>; \<open>changed\<close> is the out parameter so far.\<close>

fun append_each_flag :: "outside \<Rightarrow> (row_query \<Rightarrow> bool) \<Rightarrow> bool \<Rightarrow> pim_item list \<Rightarrow> string list \<Rightarrow> bool \<Rightarrow> collection_row \<Rightarrow> bool \<Rightarrow> bool
    \<Rightarrow> collector \<Rightarrow> bool \<times> bool \<times> collector" where
  "append_each_flag out ok sized its [] checkIfExists col silent changed s = (True, changed, s)"
| "append_each_flag out ok sized its (f # fs) checkIfExists col silent changed s =
     (if checkIfExists then
        (if \<not> ok SelectRows then (False, changed, s)
         else
           (let existing = fst ` Set.filter (\<lambda>r. snd r = f \<and> fst r \<in> item_id ` set its) (t_flags (tabs s))
            in if sized \<and> card existing = length its then append_each_flag out ok sized its fs checkIfExists col silent changed s
               else
                 (let changed = (sized \<or> card existing \<noteq> length its \<or> changed);
                      (done, s) = doAppendItemsFlag out ok its f existing col silent s
                  in if \<not> done then (False, changed, s)
                     else append_each_flag out ok sized its fs checkIfExists col silent changed s)))
      else
        (let (done, s) = doAppendItemsFlag out ok its f {} col silent s
         in if \<not> done then (False, changed, s)
            else append_each_flag out ok sized its fs checkIfExists col silent changed s))"

definition appendItemsFlags :: "outside \<Rightarrow> (row_query \<Rightarrow> bool) \<Rightarrow> bool \<Rightarrow> pim_item list \<Rightarrow> string list \<Rightarrow> bool \<Rightarrow> collection_row \<Rightarrow> bool
    \<Rightarrow> collector \<Rightarrow> bool \<times> bool \<times> collector" where
  "appendItemsFlags out ok sized its flags checkIfExists col silent s =
     append_each_flag out ok sized its flags checkIfExists col silent False s"

definition removeItemsFlags :: "outside \<Rightarrow> (row_query \<Rightarrow> bool) \<Rightarrow> pim_item list \<Rightarrow> string list \<Rightarrow> collection_row \<Rightarrow> bool
    \<Rightarrow> collector \<Rightarrow> bool \<times> bool \<times> collector" where
  "removeItemsFlags out ok its flags col silent s =
     (let col = fold join_collection its col;
          removed = (if its = [] then {} else set flags);
          rows = Set.filter (\<lambda>r. snd r \<in> removed \<and> fst r \<in> item_id ` set its) (t_flags (tabs s))
      in if \<not> ok DeleteRows then (False, False, s)
         else
           (let s = s\<lparr>tabs := (tabs s)\<lparr>t_flags := t_flags (tabs s) - rows\<rparr>\<rparr>
            in if rows \<noteq> {} then (True, True, if \<not> silent then itemsFlagsChanged out its {} removed col [] s else s)
               else (True, False, s)))"

section \<open>Tags\<close>

definition tag_ids :: "tag_row list \<Rightarrow> int list" where
  "tag_ids gs = map tag_id gs"

text \<open>Two entities are equal when their ids are.\<close>

definition setItemsTags :: "outside \<Rightarrow> (row_query \<Rightarrow> bool) \<Rightarrow> pim_item list \<Rightarrow> tag_row list \<Rightarrow> bool \<Rightarrow> collector \<Rightarrow> bool \<times> bool \<times> collector" where
  "setItemsTags out ok its tags silent s =
     (let old = (\<lambda>i. item_tags (tabs s) (item_id i));
          removed = concat (map (\<lambda>i. filter (\<lambda>g. tag_id g \<notin> set (tag_ids tags)) (old i)) its);
          del = concat (map (\<lambda>i. map (\<lambda>g. (item_id i, tag_id g)) (filter (\<lambda>g. tag_id g \<notin> set (tag_ids tags)) (old i))) its);
          added = concat (map (\<lambda>i. filter (\<lambda>g. tag_id g \<notin> set (tag_ids (old i))) tags) its);
          ins = concat (map (\<lambda>i. map (\<lambda>g. (item_id i, tag_id g)) (filter (\<lambda>g. tag_id g \<notin> set (tag_ids (old i))) tags)) its)
      in if removed \<noteq> [] \<and> \<not> ok DeleteRows then (False, False, s)
         else
           (let s = (if removed \<noteq> [] then s\<lparr>tabs := (tabs s)\<lparr>t_itemTags := filter (\<lambda>r. r \<notin> set del) (t_itemTags (tabs s))\<rparr>\<rparr> else s)
            in case (if added \<noteq> [] then insert_tags ok ins (tabs s) else Some (tabs s)) of
                 None \<Rightarrow> (False, False, s)
               | Some t \<Rightarrow>
                   (let s = s\<lparr>tabs := t\<rparr>;
                        s = (if \<not> silent \<and> (added \<noteq> [] \<or> removed \<noteq> []) then itemsTagsChanged out its added removed row_new [] s else s)
                    in (True, tag_ids added \<noteq> tag_ids removed, s))))"

definition doAppendItemsTag :: "outside \<Rightarrow> (row_query \<Rightarrow> bool) \<Rightarrow> pim_item list \<Rightarrow> tag_row \<Rightarrow> int set \<Rightarrow> collection_row \<Rightarrow> bool
    \<Rightarrow> collector \<Rightarrow> bool \<times> collector" where
  "doAppendItemsTag out ok its g existing col silent s =
     (let appendItems = filter (\<lambda>i. item_id i \<notin> existing) its
      in if appendItems = [] then (True, s)
         else
           (case insert_tags ok (map (\<lambda>i. (item_id i, tag_id g)) appendItems) (tabs s) of
              None \<Rightarrow> (False, s)
            | Some t \<Rightarrow>
                (let s = s\<lparr>tabs := t\<rparr>
                 in (True, if \<not> silent then itemsTagsChanged out appendItems [g] [] col [] s else s))))"

fun append_each_tag :: "outside \<Rightarrow> (row_query \<Rightarrow> bool) \<Rightarrow> bool \<Rightarrow> pim_item list \<Rightarrow> tag_row list \<Rightarrow> bool \<Rightarrow> collection_row \<Rightarrow> bool \<Rightarrow> bool
    \<Rightarrow> collector \<Rightarrow> bool \<times> bool \<times> collector" where
  "append_each_tag out ok sized its [] checkIfExists col silent changed s = (True, changed, s)"
| "append_each_tag out ok sized its (g # gs) checkIfExists col silent changed s =
     (if checkIfExists then
        (if \<not> ok SelectRows then (False, changed, s)
         else
           (let existing = fst ` set (filter (\<lambda>r. snd r = tag_id g \<and> fst r \<in> item_id ` set its) (t_itemTags (tabs s)))
            in if sized \<and> card existing = length its then append_each_tag out ok sized its gs checkIfExists col silent changed s
               else
                 (let changed = (sized \<or> card existing \<noteq> length its \<or> changed);
                      (done, s) = doAppendItemsTag out ok its g existing col silent s
                  in if \<not> done then (False, changed, s)
                     else append_each_tag out ok sized its gs checkIfExists col silent changed s)))
      else
        (let (done, s) = doAppendItemsTag out ok its g {} col silent s
         in if \<not> done then (False, changed, s)
            else append_each_tag out ok sized its gs checkIfExists col silent changed s))"

definition appendItemsTags :: "outside \<Rightarrow> (row_query \<Rightarrow> bool) \<Rightarrow> bool \<Rightarrow> pim_item list \<Rightarrow> tag_row list \<Rightarrow> bool \<Rightarrow> collection_row \<Rightarrow> bool
    \<Rightarrow> collector \<Rightarrow> bool \<times> bool \<times> collector" where
  "appendItemsTags out ok sized its tags checkIfExists col silent s =
     append_each_tag out ok sized its tags checkIfExists col silent False s"

definition removeItemsTags :: "outside \<Rightarrow> (row_query \<Rightarrow> bool) \<Rightarrow> pim_item list \<Rightarrow> tag_row list \<Rightarrow> bool \<Rightarrow> collector \<Rightarrow> bool \<times> bool \<times> collector" where
  "removeItemsTags out ok its tags silent s =
     (let hit = (\<lambda>r. snd r \<in> set (tag_ids tags) \<and> fst r \<in> item_id ` set its);
          affected = list_ex hit (t_itemTags (tabs s))
      in if \<not> ok DeleteRows then (False, False, s)
         else
           (let s = s\<lparr>tabs := (tabs s)\<lparr>t_itemTags := filter (\<lambda>r. \<not> hit r) (t_itemTags (tabs s))\<rparr>\<rparr>
            in if affected then (True, True, if \<not> silent then itemsTagsChanged out its [] tags row_new [] s else s)
               else (True, False, s)))"

text \<open>\<open>removeTags\<close>: the items with the tags, one row for an item and a tag, by ascending collection; the loop that groups them; the
  notifications for the resources that know the tag and for the clients; and the removal, which cascades to the relations.\<close>

definition tagged_items :: "tables \<Rightarrow> tag_row list \<Rightarrow> pim_item list" where
  "tagged_items t tags =
     sort_key item_collectionId (concat (map (\<lambda>i. map (\<lambda>_. i) (filter (\<lambda>r. fst r = item_id i \<and> snd r \<in> set (tag_ids tags)) (t_itemTags t))) (t_items t)))"

fun notify_groups :: "outside \<Rightarrow> tag_row list \<Rightarrow> pim_item list \<Rightarrow> pim_item list \<Rightarrow> int \<Rightarrow> collector \<Rightarrow> collector" where
  "notify_groups out tags [] its lastId s =
     (if its \<noteq> [] then itemsTagsChanged out its [] tags (Collection_retrieveById (tabs s) lastId) [] s else s)"
| "notify_groups out tags (i # rest) its lastId s =
     (if its \<noteq> [] \<and> item_collectionId i \<noteq> lastId
      then notify_groups out tags rest [i] (item_collectionId i)
             (itemsTagsChanged out its [] tags (Collection_retrieveById (tabs s) lastId) [] s)
      else notify_groups out tags rest (its @ [i]) (item_collectionId i) s)"

fun notify_resources :: "outside \<Rightarrow> tag_row \<Rightarrow> (string \<times> string) list \<Rightarrow> collector \<Rightarrow> collector handled" where
  "notify_resources out g [] s = tagRemoved out g [] [] s"
| "notify_resources out g ((rid, resource) # rest) s =
     (case tagRemoved out g resource rid s of Inl e \<Rightarrow> Inl e | Inr s \<Rightarrow> notify_resources out g rest s)"

definition known_by :: "tables \<Rightarrow> tag_row \<Rightarrow> (string \<times> string) list" where
  "known_by t g = concat (map (\<lambda>(g', res, rid). if g' = tag_id g then (case t_resources t res of None \<Rightarrow> [] | Some n \<Rightarrow> [(rid, n)]) else [])
     (t_tagRemoteIds t))"

fun notify_tags :: "outside \<Rightarrow> tag_row list \<Rightarrow> collector \<Rightarrow> collector handled" where
  "notify_tags out [] s = Inr s"
| "notify_tags out (g # gs) s =
     (case notify_resources out g (known_by (tabs s) g) s of Inl e \<Rightarrow> Inl e | Inr s \<Rightarrow> notify_tags out gs s)"

definition delete_tags :: "int list \<Rightarrow> tables \<Rightarrow> tables" where
  "delete_tags removed t = (let ids = cascade (length (t_tags t)) (map (\<lambda>g. (tag_id g, tag_parentId g)) (t_tags t)) removed in
   t\<lparr>t_tags := filter (\<lambda>g. tag_id g \<notin> set ids) (t_tags t),
     t_itemTags := filter (\<lambda>r. snd r \<notin> set ids) (t_itemTags t),
     t_tagRemoteIds := filter (\<lambda>r. fst r \<notin> set ids) (t_tagRemoteIds t),
     t_tagAttrs := (\<lambda>g. if g \<in> set ids then [] else t_tagAttrs t g)\<rparr>)"

text \<open>An exception from a notification leaves \<open>removeTags\<close>.\<close>

definition removeTags :: "outside \<Rightarrow> (row_query \<Rightarrow> bool) \<Rightarrow> tag_row list \<Rightarrow> collector \<Rightarrow> (bool \<times> collector) handled" where
  "removeTags out ok tags s =
     (if \<not> ok SelectRows then Inr (False, s)
      else
        (let s = notify_groups out tags (tagged_items (tabs s) tags) [] (-1) s
         in case notify_tags out tags s of
              Inl e \<Rightarrow> Inl e
            | Inr s \<Rightarrow>
                (if \<not> ok DeleteRows then Inr (False, s)
                 else Inr (True, s\<lparr>tabs := delete_tags (tag_ids tags) (tabs s)\<rparr>))))"

section \<open>What reporting leaves alone\<close>

text \<open>Reporting does not touch the tables, and apart from the explicit increments it only drops cached statistics.\<close>

definition shrinks :: "collector \<Rightarrow> collector \<Rightarrow> bool" where
  "shrinks s s' \<longleftrightarrow> tabs s' = tabs s \<and> map_le (cache s') (cache s)"

lemma shrinks_refl [simp, intro]: "shrinks s s"
  by (simp add: shrinks_def)

lemma shrinks_trans: "shrinks s t \<Longrightarrow> shrinks t u \<Longrightarrow> shrinks s u"
  by (auto simp: shrinks_def intro: map_le_trans)

lemma ignored_ops_shrinks: "shrinks s (ignored_ops xs s)"
proof (induction xs s rule: ignored_ops.induct)
  case (2 x xs s)
  obtain d sigs where d: "store_do x (db s) = (d, sigs)" by fastforce
  let ?s = "s\<lparr>db := d, cache := if TransactionRolledBack \<in> set sigs then stats_expireCache (cache s) else cache s\<rparr>"
  have "shrinks s ?s" by (simp add: shrinks_def stats_expireCache_def)
  from shrinks_trans [OF this 2 [OF d [symmetric] refl]] show ?case by (simp add: d)
qed simp

lemma complete_shrinks:
  assumes "completeNotification out m s = (m', s')"
  shows "shrinks s s'"
proof (rule complete_cases [of out m s])
  fix n ops a b
  assume "completeNotification out m s = (n, ignored_ops ops (s\<lparr>mgr := Some a\<rparr>))"
  then show ?thesis using assms ignored_ops_shrinks [of "s\<lparr>mgr := Some a\<rparr>" ops] by (simp add: shrinks_def)
qed (use assms in auto)

lemma dispatch_shrinks: "shrinks s (dispatchNotification out m s)"
proof (cases "inTransaction (db s)")
  case False
  obtain m' s' where "completeNotification out m s = (m', s')" by fastforce
  moreover from complete_shrinks [OF this] have "shrinks s (collector_notify [m'] s')"
    by (simp add: collector_notify_def shrinks_def)
  ultimately show ?thesis using False by (simp add: dispatchNotification_def)
qed (simp add: dispatchNotification_def shrinks_def)

lemma invalidate_le: "map_le (stats_invalidate c m) m"
  by (simp add: stats_invalidate_def map_le_def)

lemma virtual_step:
  obtains m where "notify_virtual out msg xs resource ((k, ids) # vs) s = notify_virtual out msg xs resource vs
    (dispatchNotification out m (s\<lparr>cache := stats_invalidate (Collection_retrieveById (tabs s) k) (cache s)\<rparr>))"
  by (simp add: Let_def)

lemma invalidate_shrinks: "shrinks s (dispatchNotification out m (s\<lparr>cache := stats_invalidate c (cache s)\<rparr>))"
proof (rule shrinks_trans)
  show "shrinks s (s\<lparr>cache := stats_invalidate c (cache s)\<rparr>)" by (simp add: shrinks_def invalidate_le)
qed (rule dispatch_shrinks)

lemma virtual_shrinks: "shrinks s (notify_virtual out msg xs resource vs s)"
proof (induction vs arbitrary: s)
  case (Cons v vs)
  obtain k ids where v: "v = (k, ids)" by fastforce
  obtain m where "notify_virtual out msg xs resource (v # vs) s = notify_virtual out msg xs resource vs
      (dispatchNotification out m (s\<lparr>cache := stats_invalidate (Collection_retrieveById (tabs s) k) (cache s)\<rparr>))"
    unfolding v by (rule virtual_step)
  then show ?case using shrinks_trans [OF invalidate_shrinks Cons.IH] by (simp only:)
qed simp

lemma virtual_invalidates:
  assumes "c \<noteq> -1"
  shows "c \<in> fst ` set vs \<Longrightarrow> c \<in> col_id ` set (t_collections (tabs s)) \<Longrightarrow> cache (notify_virtual out msg xs resource vs s) c = None"
proof (induction vs arbitrary: s)
  case (Cons v vs)
  obtain k ids where v: "v = (k, ids)" by fastforce
  let ?s = "s\<lparr>cache := stats_invalidate (Collection_retrieveById (tabs s) k) (cache s)\<rparr>"
  obtain m where m: "notify_virtual out msg xs resource (v # vs) s =
      notify_virtual out msg xs resource vs (dispatchNotification out m ?s)" unfolding v by (rule virtual_step)
  show ?case
  proof (cases "c \<in> fst ` set vs")
    case True
    have "tabs (dispatchNotification out m ?s) = tabs s" using invalidate_shrinks [of s] by (simp add: shrinks_def)
    then show ?thesis using Cons.IH [OF True, of "dispatchNotification out m ?s"] Cons.prems(2) m by simp
  next
    case False
    then have "k = c" using Cons.prems(1) v by auto
    moreover have "col_id (Collection_retrieveById (tabs s) c) = c" using retrieve_cases [of "tabs s" c] Cons.prems(2) by auto
    ultimately have "cache ?s c = None" using assms by (simp add: stats_invalidate_def entity_isValid_def)
    moreover have "map_le (cache (notify_virtual out msg xs resource vs (dispatchNotification out m ?s))) (cache ?s)"
      using shrinks_trans [OF dispatch_shrinks virtual_shrinks] by (simp only: shrinks_def)
    ultimately show ?thesis unfolding m map_le_def by (metis domIff)
  qed
qed simp

lemma item_notification_shrinks: "shrinks s (itemNotification out op its coll dest resource parts added removed addTags remTags s)"
proof (cases "its = []")
  case False
  have step: "shrinks s (dispatchNotification out m (if b then t\<lparr>cache := stats_invalidate c (cache t)\<rparr> else t))"
    if "shrinks s t" for m b c t
    using shrinks_trans [OF that] invalidate_shrinks [of t] dispatch_shrinks [of t] by (cases b) simp_all
  show ?thesis unfolding itemNotification_def Let_def if_not_P [OF False] by (rule step [OF virtual_shrinks])
qed (simp add: itemNotification_def)

lemma flags_changed_tabs [simp]: "tabs (itemsFlagsChanged out its added removed col resource s) = tabs s"
  using item_notification_shrinks by (simp add: itemsFlagsChanged_def Let_def shrinks_def)

lemma tags_changed_tabs [simp]: "tabs (itemsTagsChanged out its added removed col resource s) = tabs s"
  using item_notification_shrinks by (simp add: itemsTagsChanged_def shrinks_def)

lemma mem_item_flags [simp]: "f \<in> item_flags t i \<longleftrightarrow> (i, f) \<in> t_flags t"
  by (force simp: item_flags_def)

section \<open>Flags as sets\<close>

text \<open>\<open>flags_become g t t'\<close>: from \<open>t\<close> to \<open>t'\<close> only the flags of items change, to what \<open>g\<close> makes of them.\<close>

definition flags_become :: "(int \<Rightarrow> string set \<Rightarrow> string set) \<Rightarrow> tables \<Rightarrow> tables \<Rightarrow> bool" where
  "flags_become g t t' \<longleftrightarrow> (\<forall>i. item_flags t' i = g i (item_flags t i)) \<and> t' = t\<lparr>t_flags := t_flags t'\<rparr>"

abbreviation all_ok :: "row_query \<Rightarrow> bool" where
  "all_ok \<equiv> \<lambda>_. True"

lemma same_flags [simp]: "t\<lparr>t_flags := t_flags t\<rparr> = t"
  by (cases t) simp

lemma set_flags_result:
  assumes "distinct (map item_id its)" and "distinct fs"
  shows "case setItemsFlags out all_ok its None fs col silent s of (ok, _, s') \<Rightarrow>
    ok \<and> flags_become (\<lambda>i F. if i \<in> item_id ` set its then set fs else F) (tabs s) (tabs s')"
proof -
  let ?t = "tabs s"
  define R where "R = (\<Union>i \<in> set its. item_flags ?t (item_id i) - set fs)"
  define D where "D = (\<Union>i \<in> set its. Pair (item_id i) ` (item_flags ?t (item_id i) - set fs))"
  define I where "I = concat (map (\<lambda>i. map (Pair (item_id i)) (filter (\<lambda>f. f \<notin> item_flags ?t (item_id i)) fs)) its)"
  have "distinct I" using assms unfolding I_def by (induction its) (auto simp: distinct_map inj_on_def)
  moreover have out_I: "r \<notin> t_flags ?t" if "r \<in> set I" for r using that by (auto simp: I_def)
  ultimately have ins: "insert_flags all_ok I t = Some (t\<lparr>t_flags := t_flags t \<union> set I\<rparr>)" if "t_flags t \<subseteq> t_flags ?t" for t
    using that by (auto simp: insert_flags_def list_all_iff)
  have empty: "R = {} \<longleftrightarrow> D = {}" by (auto simp: R_def D_def)
  obtain b s' where res: "setItemsFlags out all_ok its None fs col silent s = (True, b, s')" "tabs s' = ?t\<lparr>t_flags := t_flags ?t - D \<union> set I\<rparr>"
    unfolding setItemsFlags_def Let_def option.case R_def [symmetric] D_def [symmetric] I_def [symmetric]
    using ins [of ?t] ins [of "?t\<lparr>t_flags := t_flags ?t - D\<rparr>"] empty by (cases "D = {}"; cases "I = []") auto
  have "(i, f) \<in> D \<longleftrightarrow> i \<in> item_id ` set its \<and> (i, f) \<in> t_flags ?t \<and> f \<notin> set fs" for i f
    unfolding D_def by (auto simp: image_iff)
  moreover have "(i, f) \<in> set I \<longleftrightarrow> i \<in> item_id ` set its \<and> f \<in> set fs \<and> (i, f) \<notin> t_flags ?t" for i f
    unfolding I_def by (auto simp: image_iff)
  ultimately have "f \<in> item_flags (tabs s') i \<longleftrightarrow> f \<in> (if i \<in> item_id ` set its then set fs else item_flags ?t i)" for f i
    by (cases "i \<in> item_id ` set its") (auto simp: res(2))
  then have "item_flags (tabs s') i = (if i \<in> item_id ` set its then set fs else item_flags ?t i)" for i by blast
  then show ?thesis using res by (simp add: flags_become_def)
qed

lemma flags_become_trans:
  "flags_become g t u \<Longrightarrow> flags_become h u v \<Longrightarrow> flags_become (\<lambda>i F. h i (g i F)) t v"
  unfolding flags_become_def by (cases t; cases u; cases v) simp

lemma append_one_flag:
  assumes "distinct (map item_id its)" and "existing \<subseteq> item_id ` set its" and "\<forall>i \<in> item_id ` set its. i \<in> existing \<longleftrightarrow> (i, f) \<in> t_flags (tabs s)"
  shows "\<exists>s'. doAppendItemsFlag out all_ok its f existing col silent s = (True, s') \<and>
    flags_become (\<lambda>i F. if i \<in> item_id ` set its then insert f F else F) (tabs s) (tabs s')"
proof -
  define A where "A = filter (\<lambda>i. item_id i \<notin> existing) its"
  let ?rows = "map (\<lambda>i. (item_id i, f)) A"
  have A: "item_id ` set A = item_id ` set its - existing" by (auto simp: A_def)
  have "distinct (map item_id A)" using assms(1) by (simp add: A_def distinct_map_filter)
  then have "distinct ?rows" by (auto simp: distinct_map inj_on_def)
  moreover have "list_all (\<lambda>r. r \<notin> t_flags (tabs s)) ?rows" using assms(3) by (auto simp: list_all_iff A_def)
  ultimately have ins: "insert_flags all_ok ?rows (tabs s) = Some ((tabs s)\<lparr>t_flags := t_flags (tabs s) \<union> set ?rows\<rparr>)"
    by (simp add: insert_flags_def)
  obtain s' where s': "doAppendItemsFlag out all_ok its f existing col silent s = (True, s')"
    "tabs s' = (tabs s)\<lparr>t_flags := t_flags (tabs s) \<union> set ?rows\<rparr>"
    using ins unfolding doAppendItemsFlag_def Let_def A_def [symmetric] by (cases "A = []") auto
  have rows: "(i, g) \<in> set ?rows \<longleftrightarrow> i \<in> item_id ` set its - existing \<and> g = f" for i g using A by (auto simp: image_iff)
  have "g \<in> item_flags (tabs s') i \<longleftrightarrow> g \<in> (if i \<in> item_id ` set its then insert f (item_flags (tabs s) i) else item_flags (tabs s) i)" for g i
    using rows [of i g] assms(3) by (auto simp: s'(2) simp del: set_map)
  then have "item_flags (tabs s') i = (if i \<in> item_id ` set its then insert f (item_flags (tabs s) i) else item_flags (tabs s) i)" for i
    by blast
  then show ?thesis using s' by (simp add: flags_become_def)
qed

lemma append_flags_result:
  assumes "distinct (map item_id its)"
  shows "case append_each_flag out all_ok sized its fs True col silent changed s of (ok, _, s') \<Rightarrow>
    ok \<and> flags_become (\<lambda>i F. if i \<in> item_id ` set its then F \<union> set fs else F) (tabs s) (tabs s')"
proof (induction fs arbitrary: changed s)
  case Nil
  then show ?case by (simp add: flags_become_def)
next
  case (Cons f fs)
  define E where "E = fst ` Set.filter (\<lambda>r. snd r = f \<and> fst r \<in> item_id ` set its) (t_flags (tabs s))"
  have E: "i \<in> E \<longleftrightarrow> i \<in> item_id ` set its \<and> (i, f) \<in> t_flags (tabs s)" for i unfolding E_def by force
  let ?g = "\<lambda>i F. if i \<in> item_id ` set its then insert f F else F"
  have comp: "flags_become (\<lambda>i F. if i \<in> item_id ` set its then F \<union> set (f # fs) else F) (tabs s) u"
    if "flags_become ?g (tabs s) t" "flags_become (\<lambda>i F. if i \<in> item_id ` set its then F \<union> set fs else F) t u" for t u
    using flags_become_trans [OF that] by (auto simp: flags_become_def)
  have step: "append_each_flag out all_ok sized its (f # fs) True col silent changed s =
      (if sized \<and> card E = length its then append_each_flag out all_ok sized its fs True col silent changed s
       else case doAppendItemsFlag out all_ok its f E col silent s of (ok, s') \<Rightarrow>
         if \<not> ok then (False, sized \<or> card E \<noteq> length its \<or> changed, s')
         else append_each_flag out all_ok sized its fs True col silent (sized \<or> card E \<noteq> length its \<or> changed) s')"
    unfolding append_each_flag.simps Let_def E_def by simp
  show ?case
  proof (cases "sized \<and> card E = length its")
    case True
    have "card (item_id ` set its) = length its" using assms distinct_card by fastforce
    then have "E = item_id ` set its" using True E by (intro card_subset_eq) auto
    then have "(i, f) \<in> t_flags (tabs s)" if "i \<in> item_id ` set its" for i using E [of i] that by simp
    then have "item_flags (tabs s) i = ?g i (item_flags (tabs s) i)" for i by (cases "i \<in> item_id ` set its") auto
    then have "flags_become ?g (tabs s) (tabs s)" by (simp add: flags_become_def)
    then show ?thesis using True Cons.IH [of s changed] comp unfolding step by (auto split: prod.splits)
  next
    case False
    obtain s1 where s1: "doAppendItemsFlag out all_ok its f E col silent s = (True, s1)" "flags_become ?g (tabs s) (tabs s1)"
      using append_one_flag [OF assms, of E f s out col silent] E by blast
    then show ?thesis using Cons.IH [of s1 "sized \<or> card E \<noteq> length its \<or> changed"] comp
      unfolding step if_not_P [OF False] by (auto split: prod.splits)
  qed
qed

lemma remove_flags_result:
  "case removeItemsFlags out all_ok its fs col silent s of (ok, changed, s') \<Rightarrow>
    ok \<and> flags_become (\<lambda>i F. if i \<in> item_id ` set its then F - set fs else F) (tabs s) (tabs s') \<and>
    (changed \<longleftrightarrow> tabs s' \<noteq> tabs s)"
proof -
  define D where "D = Set.filter (\<lambda>r. snd r \<in> (if its = [] then {} else set fs) \<and> fst r \<in> item_id ` set its) (t_flags (tabs s))"
  have D: "(i, f) \<in> D \<longleftrightarrow> i \<in> item_id ` set its \<and> f \<in> set fs \<and> (i, f) \<in> t_flags (tabs s)" for i f by (auto simp: D_def)
  obtain s' where s': "removeItemsFlags out all_ok its fs col silent s = (True, D \<noteq> {}, s')"
    "tabs s' = (tabs s)\<lparr>t_flags := t_flags (tabs s) - D\<rparr>"
    unfolding removeItemsFlags_def Let_def D_def [symmetric] by (cases "D = {}") auto
  have "tabs s' = tabs s \<longleftrightarrow> t_flags (tabs s) - D = t_flags (tabs s)" unfolding s'(2) by (cases "tabs s") simp
  also have "\<dots> \<longleftrightarrow> D = {}" using D by auto
  finally have "D \<noteq> {} \<longleftrightarrow> tabs s' \<noteq> tabs s" by simp
  moreover have "item_flags (tabs s') i = (if i \<in> item_id ` set its then item_flags (tabs s) i - set fs else item_flags (tabs s) i)" for i
    using D by (auto simp: s'(2))
  ultimately show ?thesis using s' by (simp add: flags_become_def)
qed

section \<open>Incremental statistics\<close>

lemma virtual_of_link:
  assumes "(d, item_id i) \<in> set (t_links t)" and "i \<in> set its" and "i \<in> set (t_items t)" and "d \<in> col_id ` set (t_collections t)"
  shows "d \<in> fst ` set (virtualCollections True t its)"
proof -
  let ?rows = "filter (\<lambda>(c, i). i \<in> item_id ` set its \<and> c \<in> col_id ` set (t_collections t) \<and> i \<in> item_id ` set (t_items t)) (t_links t)"
  have eq: "fst ` set (virtualCollections True t its) = fst ` set ?rows" by (simp add: virtualCollections_def Let_def image_image)
  have "(d, item_id i) \<in> set ?rows" using assms by simp
  from imageI [OF this, of fst] show ?thesis unfolding eq by (simp only: fst_conv)
qed

lemma flags_notification_drops:
  assumes "its \<noteq> []" and "d \<in> fst ` set (virtualCollections (queryOk out) (tabs s) its)" and "d \<noteq> -1"
    and "d \<in> col_id ` set (t_collections (tabs s))"
  shows "cache (itemNotification out ItemModifyFlags its coll dest resource parts added removed addTags remTags s) d = None"
proof -
  have step: "cache (dispatchNotification out m (if ItemModifyFlags \<noteq> ItemAdd \<and> ItemModifyFlags \<noteq> ItemModifyFlags then u else t)) d = None"
    if "cache t d = None" for m t u
    using dispatch_shrinks [of t out m] that unfolding shrinks_def map_le_def by (simp, metis domIff)
  have vs: "(if ItemModifyFlags \<in> {ItemModify, ItemModifyFlags, ItemModifyTags} then virtualCollections (queryOk out) (tabs s) its else [])
      = virtualCollections (queryOk out) (tabs s) its" by simp
  show ?thesis unfolding itemNotification_def Let_def if_not_P [OF assms(1)] vs
    by (rule step [OF virtual_invalidates [OF assms(3, 2, 4)]])
qed

lemma length_filter_or:
  "\<forall>x \<in> set xs. \<not> (P x \<and> Q x) \<Longrightarrow> length (filter (\<lambda>x. P x \<or> Q x) xs) = length (filter P xs) + length (filter Q xs)"
  by (induction xs) auto

lemma length_filter_members:
  assumes "distinct (map f xs)" and "distinct (map f ys)" and "set ys \<subseteq> set xs"
  shows "length (filter (\<lambda>x. f x \<in> f ` set ys) xs) = length ys"
proof -
  have "set (filter (\<lambda>x. f x \<in> f ` set ys) xs) = set ys" using assms by (auto simp: distinct_map dest: inj_onD)
  moreover have "distinct (filter (\<lambda>x. f x \<in> f ` set ys) xs)" "distinct ys" using assms by (simp_all add: distinct_map)
  ultimately show ?thesis by (metis distinct_card)
qed

text \<open>The tables after a flag was added to the items \<open>A\<close>.\<close>

definition flagged :: "tables \<Rightarrow> string \<Rightarrow> pim_item list \<Rightarrow> tables" where
  "flagged t f A = t\<lparr>t_flags := t_flags t \<union> set (map (\<lambda>i. (item_id i, f)) A)\<rparr>"

lemma flagged_read:
  "is_read (flagged t f A) i \<longleftrightarrow> is_read t i \<or> (f = flag_seen \<or> f = flag_ignored) \<and> i \<in> item_id ` set A"
  by (auto simp: is_read_def flagged_def)

lemma flagged_rows: "rows_of (flagged t f A) c = rows_of t c" "Collection_retrieveById (flagged t f A) d = Collection_retrieveById t d"
  by (simp_all add: rows_of_def flagged_def Collection_retrieveById_def)

lemma flagged_stats_same:
  assumes "\<forall>i \<in> set (rows_of t ((Collection_retrieveById t d)\<lparr>col_id := d\<rparr>)). item_id i \<notin> item_id ` set A"
  shows "stats_of (flagged t f A) d = stats_of t d"
proof -
  have "filter (\<lambda>i. is_read (flagged t f A) (item_id i)) (rows_of t ((Collection_retrieveById t d)\<lparr>col_id := d\<rparr>)) =
      filter (\<lambda>i. is_read t (item_id i)) (rows_of t ((Collection_retrieveById t d)\<lparr>col_id := d\<rparr>))"
    using assms by (intro filter_cong refl) (simp add: flagged_read)
  then show ?thesis by (simp add: stats_of_def calculateCollectionStatistics_def flagged_rows Let_def)
qed

lemma flagged_stats_own:
  assumes "tables_ok t" and "c \<in> set (t_collections t)" and "\<not> col_isVirtual c" and "set A \<subseteq> set (t_items t)"
    and "distinct (map item_id A)" and "\<forall>i \<in> set A. item_collectionId i = col_id c \<and> \<not> is_read t (item_id i)"
  shows "stats_of (flagged t f A) (col_id c) = (stats_of t (col_id c))\<lparr>st_read := st_read (stats_of t (col_id c)) +
    (if f = flag_seen \<or> f = flag_ignored then int (length A) else 0)\<rparr>"
proof -
  let ?rows = "rows_of t c"
  have c: "(Collection_retrieveById t (col_id c))\<lparr>col_id := col_id c\<rparr> = c"
    using assms(1, 2) by (simp add: retrieve_row tables_ok_def)
  have rows: "?rows = filter (\<lambda>i. item_collectionId i = col_id c) (t_items t)" by (rule real_rows [OF assms(3)])
  have "distinct (map item_id ?rows)" using assms(1) unfolding rows by (simp add: tables_ok_def distinct_map_filter)
  moreover have "set A \<subseteq> set ?rows" using assms(4, 6) unfolding rows by auto
  ultimately have "length (filter (\<lambda>i. item_id i \<in> item_id ` set A) ?rows) = length A"
    using assms(5) by (intro length_filter_members)
  moreover have "length (filter (\<lambda>i. is_read t (item_id i) \<or> item_id i \<in> item_id ` set A) ?rows) =
      length (filter (\<lambda>i. is_read t (item_id i)) ?rows) + length (filter (\<lambda>i. item_id i \<in> item_id ` set A) ?rows)"
    using assms(6) by (intro length_filter_or) auto
  ultimately show ?thesis
    unfolding stats_of_def flagged_rows c
    by (cases "f = flag_seen \<or> f = flag_ignored") (simp_all add: calculateCollectionStatistics_def flagged_rows flagged_read Let_def)
qed

lemma joined_collection: "\<forall>i \<in> set A. item_collectionId i = col_id c \<Longrightarrow> col_id c \<noteq> -1 \<Longrightarrow> fold join_collection A c = c"
  by (induction A) (simp_all add: join_collection_def)

lemma flagged_coherent:
  assumes "tables_ok t" and "coherent t m" and "c \<in> set (t_collections t)" and "\<not> col_isVirtual c" and "col_id c \<noteq> -1"
    and "set A \<subseteq> set (t_items t)" and "distinct (map item_id A)"
    and "\<forall>i \<in> set A. item_collectionId i = col_id c \<and> \<not> is_read t (item_id i)"
    and "map_le m' (stats_itemsSeenChanged True (flagged t f A) c (if f = flag_seen \<or> f = flag_ignored then int (length A) else 0) m)"
    and "\<And>d i. i \<in> set A \<Longrightarrow> (d, item_id i) \<in> set (t_links t) \<Longrightarrow> m' d = None"
  shows "coherent (flagged t f A) m'"
  unfolding coherent_def stats_of_def [symmetric]
proof (intro allI impI)
  fix d st assume d: "m' d = Some st"
  let ?n = "if f = flag_seen \<or> f = flag_ignored then int (length A) else 0"
  have le: "stats_itemsSeenChanged True (flagged t f A) c ?n m d = Some st" using assms(9) d by (metis domI map_le_def)
  show "st = stats_of (flagged t f A) d"
  proof (cases "d = col_id c")
    case own: True
    have c: "(Collection_retrieveById t (col_id c))\<lparr>col_id := col_id c\<rparr> = c"
      using assms(1, 3) by (simp add: retrieve_row tables_ok_def)
    show ?thesis
    proof (cases "m (col_id c)")
      case None
      then show ?thesis using le own assms(5)
        by (simp add: stats_itemsSeenChanged_def entity_isValid_def stats_of_def flagged_rows c)
    next
      case (Some st0)
      then have "st0 = stats_of t (col_id c)" using assms(2) by (simp add: coherent_def stats_of_def)
      then show ?thesis using le own Some assms(5) flagged_stats_own [OF assms(1, 3, 4, 6, 7, 8), of f]
        by (simp add: stats_itemsSeenChanged_def entity_isValid_def)
    qed
  next
    case other: False
    let ?row = "(Collection_retrieveById t d)\<lparr>col_id := d\<rparr>"
    have "m d = Some st" using le other by (simp add: stats_itemsSeenChanged_def split: if_splits option.splits)
    then have "st = stats_of t d" using assms(2) by (simp add: coherent_def stats_of_def)
    moreover have "item_id i \<notin> item_id ` set A" if i: "i \<in> set (rows_of t ?row)" for i
    proof
      assume "item_id i \<in> item_id ` set A"
      then obtain a where a: "a \<in> set A" "item_id a = item_id i" by force
      have "i \<in> set (t_items t)" using i by (auto simp: rows_of_def split: if_splits)
      then have "a = i" using a assms(1, 6) by (auto simp: tables_ok_def distinct_map dest: inj_onD)
      then show False using i a(1) d other assms(8, 10) by (auto simp: rows_of_def split: if_splits)
    qed
    ultimately show ?thesis using flagged_stats_same [of t d A f] by simp
  qed
qed

lemma append_one_coherent:
  assumes "tables_ok (tabs s)" and "coherent (tabs s) (cache s)" and "queryOk out"
    and "list_all (\<lambda>d. col_id d \<noteq> -1) (t_collections (tabs s))"
    and "c \<in> set (t_collections (tabs s))" and "\<not> col_isVirtual c"
    and "set its \<subseteq> set (t_items (tabs s))" and "distinct (map item_id its)"
    and "list_all (\<lambda>i. item_collectionId i = col_id c) its"
    and "list_all (\<lambda>i. (item_id i, f) \<notin> t_flags (tabs s) \<longrightarrow> \<not> is_read (tabs s) (item_id i)) its"
    and "\<forall>i \<in> item_id ` set its. i \<in> E \<longleftrightarrow> (i, f) \<in> t_flags (tabs s)"
  shows "\<exists>s'. doAppendItemsFlag out all_ok its f E c False s = (True, s') \<and> coherent (tabs s') (cache s')"
proof -
  let ?t = "tabs s"
  define A where "A = filter (\<lambda>i. item_id i \<notin> E) its"
  have A: "set A \<subseteq> set (t_items ?t)" "distinct (map item_id A)" "\<forall>i \<in> set A. item_collectionId i = col_id c \<and> \<not> is_read ?t (item_id i)"
    "\<forall>i \<in> set A. (item_id i, f) \<notin> t_flags ?t"
    using assms(7-11) by (auto simp: A_def list_all_iff distinct_map_filter)
  have ids: "d \<noteq> -1" if "d \<in> col_id ` set (t_collections ?t)" for d using assms(4) that by (auto simp: list_all_iff)
  have c: "col_id c \<noteq> -1" using ids assms(5) by blast
  have ins: "insert_flags all_ok (map (\<lambda>i. (item_id i, f)) A) ?t = Some (flagged ?t f A)"
    using A by (auto simp: insert_flags_def flagged_def list_all_iff distinct_map inj_on_def)
  show ?thesis
  proof (cases "A = []")
    case True
    then show ?thesis using assms(2) unfolding doAppendItemsFlag_def Let_def A_def [symmetric] by simp
  next
    case False
    let ?n = "if f = flag_seen \<or> f = flag_ignored then int (length A) else 0"
    let ?m = "stats_itemsSeenChanged True (flagged ?t f A) c ?n (cache s)"
    let ?s = "s\<lparr>tabs := flagged ?t f A, cache := ?m\<rparr>"
    let ?s' = "itemNotification out ItemModifyFlags A c row_new [] {} {f} {} [] [] ?s"
    have "flag_seen \<in> {f} \<or> flag_ignored \<in> {f} \<longleftrightarrow> f = flag_seen \<or> f = flag_ignored" by auto
    then have "itemsFlagsChanged out A {f} {} c [] (s\<lparr>tabs := flagged ?t f A\<rparr>) = ?s'"
      unfolding itemsFlagsChanged_def Let_def using assms(3) by (simp only:) simp
    moreover have "fold join_collection A c = c" using A(3) c by (intro joined_collection) auto
    ultimately have "doAppendItemsFlag out all_ok its f E c False s = (True, ?s')"
      unfolding doAppendItemsFlag_def Let_def A_def [symmetric] if_not_P [OF False] ins option.case by simp
    moreover have sh: "shrinks ?s ?s'" by (rule item_notification_shrinks)
    moreover have "coherent (flagged ?t f A) (cache ?s')"
    proof (rule flagged_coherent [OF assms(1, 2, 5, 6) c A(1-3)])
      show "map_le (cache ?s') ?m" using sh by (simp add: shrinks_def)
      fix d i assume i: "i \<in> set A" "(d, item_id i) \<in> set (t_links ?t)"
      have row: "d \<in> col_id ` set (t_collections ?t)" using assms(1) i(2) by (force simp: tables_ok_def list_all_iff)
      have "d \<in> fst ` set (virtualCollections True (flagged ?t f A) A)"
        using i A(1) row by (intro virtual_of_link [of d i]) (auto simp: flagged_def)
      then show "cache ?s' d = None"
        using False ids [OF row] row assms(3) by (intro flags_notification_drops) (simp_all add: flagged_def)
    qed
    ultimately show ?thesis by (simp add: shrinks_def)
  qed
qed

section \<open>Groups of items\<close>

text \<open>The maximal runs of items of one collection.\<close>

fun runs :: "pim_item list \<Rightarrow> (int \<times> pim_item list) list" where
  "runs [] = []"
| "runs (i # rest) =
     (case runs rest of
        [] \<Rightarrow> [(item_collectionId i, [i])]
      | (c, js) # gs \<Rightarrow> if item_collectionId i = c then (c, i # js) # gs else (item_collectionId i, [i]) # (c, js) # gs)"

lemma runs_head: "rest \<noteq> [] \<Longrightarrow> \<exists>js gs. runs rest = (item_collectionId (hd rest), js) # gs"
  by (cases rest) (auto split: list.splits)

lemma runs_append:
  "its \<noteq> [] \<Longrightarrow> \<forall>i \<in> set its. item_collectionId i = c \<Longrightarrow> rest = [] \<or> item_collectionId (hd rest) \<noteq> c \<Longrightarrow>
     runs (its @ rest) = (c, its) # runs rest"
proof (induction its)
  case (Cons i its)
  show ?case
  proof (cases "its = []")
    case True
    then show ?thesis using Cons.prems runs_head [of rest] by (cases "rest = []") auto
  next
    case False
    then show ?thesis using Cons by simp
  qed
qed simp

lemma runs_facts: "concat (map snd (runs xs)) = xs \<and> list_all (\<lambda>(c, js). js \<noteq> [] \<and> list_all (\<lambda>i. item_collectionId i = c) js) (runs xs)"
  by (induction xs) (auto split: list.splits)

lemma runs_fst: "fst ` set (runs xs) = item_collectionId ` set xs"
proof (induction xs)
  case (Cons i xs)
  show ?case
  proof (cases "runs xs")
    case Nil
    then show ?thesis using Cons.IH by simp
  next
    case g: (Cons g gs)
    obtain c js where "g = (c, js)" by fastforce
    then show ?thesis using Cons.IH g by (cases "item_collectionId i = c") auto
  qed
qed simp

lemma runs_distinct: "sorted (map item_collectionId xs) \<Longrightarrow> distinct (map fst (runs xs))"
proof (induction xs)
  case (Cons i xs)
  show ?case
  proof (cases "runs xs")
    case (Cons g gs)
    obtain c js where g: "g = (c, js)" by fastforce
    have "xs \<noteq> []" using Cons by auto
    then have c: "c = item_collectionId (hd xs)" using runs_head [of xs] Cons g by auto
    have "item_collectionId i \<notin> fst ` set (runs xs)" if ne: "item_collectionId i \<noteq> c"
    proof
      assume "item_collectionId i \<in> fst ` set (runs xs)"
      then obtain x where x: "x \<in> set xs" "item_collectionId x = item_collectionId i" unfolding runs_fst by force
      have "item_collectionId (hd xs) \<le> item_collectionId x" using Cons.prems x(1) \<open>xs \<noteq> []\<close> by (cases xs) auto
      moreover have "item_collectionId i \<le> item_collectionId (hd xs)" using Cons.prems \<open>xs \<noteq> []\<close> by (cases xs) auto
      ultimately show False using x(2) ne c by simp
    qed
    then show ?thesis using Cons.IH Cons.prems Cons g by auto
  qed simp
qed simp

lemma notify_groups_runs:
  "its \<noteq> [] \<Longrightarrow> \<forall>i \<in> set its. item_collectionId i = c \<Longrightarrow>
     notify_groups out tags rest its c s =
     fold (\<lambda>(c, js). itemsTagsChanged out js [] tags (Collection_retrieveById (tabs s) c) []) (runs (its @ rest)) s"
proof (induction rest arbitrary: its c s)
  case Nil
  then show ?case using runs_append [of its c "[]"] by simp
next
  case (Cons i rest)
  show ?case
  proof (cases "item_collectionId i = c")
    case True
    then show ?thesis using Cons.IH [of "its @ [i]" c s] Cons.prems by simp
  next
    case False
    then show ?thesis using Cons.IH [of "[i]" "item_collectionId i"] Cons.prems runs_append [OF Cons.prems, of "i # rest"] by simp
  qed
qed

section \<open>Properties\<close>

text \<open>(C17) The flag operations of the store are what their names say: setting gives each of the items exactly the new flags, appending adds
  the flags, and removing takes them away; no other item and no other table changes. Removing reports a change exactly when
  there was one.\<close>

theorem flag_operations_refine:
  assumes "distinct (map item_id its)" and "distinct fs"
  shows "(case setItemsFlags out all_ok its None fs col silent s of (ok, _, s') \<Rightarrow>
      ok \<and> flags_become (\<lambda>i F. if i \<in> item_id ` set its then set fs else F) (tabs s) (tabs s')) \<and>
    (case appendItemsFlags out all_ok sized its fs True col silent s of (ok, _, s') \<Rightarrow>
      ok \<and> flags_become (\<lambda>i F. if i \<in> item_id ` set its then F \<union> set fs else F) (tabs s) (tabs s')) \<and>
    (case removeItemsFlags out all_ok its fs col silent s of (ok, changed, s') \<Rightarrow>
      ok \<and> flags_become (\<lambda>i F. if i \<in> item_id ` set its then F - set fs else F) (tabs s) (tabs s') \<and>
      (changed \<longleftrightarrow> tabs s' \<noteq> tabs s))"
  unfolding appendItemsFlags_def
  by (intro conjI set_flags_result [OF assms] append_flags_result [OF assms(1)] remove_flags_result)

theorem flag_operations_refine_witness:
  "case setItemsFlags sample_out all_ok [pim_item_new\<lparr>item_id := 3\<rparr>] None [''a'', ''b''] sample_inbox False sample_collector of (ok, _, s') \<Rightarrow>
     ok \<and> item_flags (tabs s') 3 = {''a'', ''b''} \<and> item_flags (tabs s') 4 = {}"
proof -
  have empty: "item_flags (tabs sample_collector) i = {}" for i
    by (simp add: sample_collector_def sample_tables_def empty_tables_def item_flags_def)
  have "case setItemsFlags sample_out all_ok [pim_item_new\<lparr>item_id := 3\<rparr>] None [''a'', ''b''] sample_inbox False sample_collector of (ok, _, s') \<Rightarrow>
      ok \<and> flags_become (\<lambda>i F. if i \<in> item_id ` set [pim_item_new\<lparr>item_id := 3\<rparr>] then set [''a'', ''b''] else F) (tabs sample_collector) (tabs s')"
    by (rule flag_operations_refine [THEN conjunct1]) simp_all
  then show ?thesis by (auto simp only: flags_become_def empty split: prod.splits) simp_all
qed

text \<open>The incremental statistics stay right when a flag is appended: if every cached entry is what the query gives, the items are of
  one real collection and those that lack the flag are unread, then after \<open>appendItemsFlags\<close> every cached entry is again
  what the query gives, also for the virtual collections that contain the items.\<close>

theorem append_keeps_statistics:
  assumes "tables_ok (tabs s)" and "coherent (tabs s) (cache s)" and "queryOk out"
    and "list_all (\<lambda>d. col_id d \<noteq> -1) (t_collections (tabs s))"
    and "c \<in> set (t_collections (tabs s))" and "\<not> col_isVirtual c"
    and "set its \<subseteq> set (t_items (tabs s))" and "distinct (map item_id its)"
    and "list_all (\<lambda>i. item_collectionId i = col_id c) its"
    and "list_all (\<lambda>i. (item_id i, f) \<notin> t_flags (tabs s) \<longrightarrow> \<not> is_read (tabs s) (item_id i)) its"
  shows "case appendItemsFlags out all_ok sized its [f] True c False s of (ok, _, s') \<Rightarrow> ok \<and> coherent (tabs s') (cache s')"
proof -
  define E where "E = fst ` Set.filter (\<lambda>r. snd r = f \<and> fst r \<in> item_id ` set its) (t_flags (tabs s))"
  have "\<forall>i \<in> item_id ` set its. i \<in> E \<longleftrightarrow> (i, f) \<in> t_flags (tabs s)" unfolding E_def by force
  from append_one_coherent [OF assms this] obtain s' where
    "doAppendItemsFlag out all_ok its f E c False s = (True, s')" "coherent (tabs s') (cache s')" by blast
  then show ?thesis
    using assms(2) unfolding appendItemsFlags_def append_each_flag.simps Let_def E_def [symmetric] by simp
qed

theorem append_keeps_statistics_witness:
  "let i = pim_item_new\<lparr>item_id := 3, item_collectionId := 7, item_size := 10\<rparr>;
       s = sample_collector\<lparr>tabs := sample_tables\<lparr>t_items := [i]\<rparr>, cache := [7 \<mapsto> \<lparr>st_count = 1, st_size = 10, st_read = 0\<rparr>]\<rparr>
   in case appendItemsFlags sample_out all_ok True [i] [flag_seen] True sample_inbox False s of (ok, _, s') \<Rightarrow> ok \<and> coherent (tabs s') (cache s')"
proof -
  let ?i = "pim_item_new\<lparr>item_id := 3, item_collectionId := 7, item_size := 10\<rparr>"
  let ?s = "sample_collector\<lparr>tabs := sample_tables\<lparr>t_items := [?i]\<rparr>, cache := [7 \<mapsto> \<lparr>st_count = 1, st_size = 10, st_read = 0\<rparr>]\<rparr>"
  note defs = sample_defs pim_item_new_def sample_out_def
  have "tables_ok (tabs ?s)" by (simp add: tables_ok_def defs)
  moreover have "coherent (tabs ?s) (cache ?s)"
    by (simp add: coherent_def calculateCollectionStatistics_def rows_of_def Collection_retrieveById_def is_read_def defs)
  moreover have "queryOk sample_out" "list_all (\<lambda>d. col_id d \<noteq> -1) (t_collections (tabs ?s))"
    "sample_inbox \<in> set (t_collections (tabs ?s))" "\<not> col_isVirtual sample_inbox" "set [?i] \<subseteq> set (t_items (tabs ?s))"
    "distinct (map item_id [?i])" "list_all (\<lambda>i. item_collectionId i = col_id sample_inbox) [?i]"
    "list_all (\<lambda>i. (item_id i, flag_seen) \<notin> t_flags (tabs ?s) \<longrightarrow> \<not> is_read (tabs ?s) (item_id i)) [?i]"
    by (simp_all add: is_read_def defs)
  ultimately show ?thesis unfolding Let_def by (rule append_keeps_statistics)
qed

text \<open>Removing flags, in contrast, counts every item that was named, also those that did not have the flag: with no virtual
  collections around, the cached number of read items drops by the number of items as soon as one of them had the
  flag.\<close>

theorem removal_counts_every_item:
  assumes "inTransaction (db s)" and "t_links (tabs s) = []" and "its \<noteq> []" and "list_all (\<lambda>i. item_collectionId i = col_id c) its"
    and "col_id c \<noteq> -1" and "cache s (col_id c) = Some st" and "list_ex (\<lambda>i. (item_id i, flag_seen) \<in> t_flags (tabs s)) its"
  shows "case removeItemsFlags out all_ok its [flag_seen] c False s of (ok, _, s') \<Rightarrow>
    cache s' (col_id c) = Some (st\<lparr>st_read := st_read st - int (length its)\<rparr>)"
proof -
  define D where "D = Set.filter (\<lambda>r. snd r \<in> (if its = [] then {} else set [flag_seen]) \<and> fst r \<in> item_id ` set its) (t_flags (tabs s))"
  have "D \<noteq> {}" using assms(3, 7) by (force simp: D_def list_ex_iff)
  moreover have "fold join_collection its c = c" using assms(4, 5) by (intro joined_collection) (auto simp: list_all_iff)
  moreover have keep: "cache (itemNotification out ItemModifyFlags its coll dest resource parts added removed addTags remTags u) = cache u"
    if "inTransaction (db u)" "t_links (tabs u) = []" for coll dest resource parts added removed addTags remTags u
    using that assms(3) by (simp add: itemNotification_def virtualCollections_def dispatchNotification_def Let_def)
  ultimately show ?thesis using assms(1, 2, 3, 5, 6)
    unfolding removeItemsFlags_def Let_def D_def [symmetric]
    by (simp add: itemsFlagsChanged_def stats_itemsSeenChanged_def entity_isValid_def)
qed

text \<open>Before tags are removed, every item that loses one is reported, grouped by collection: the loop of \<open>removeTags\<close> makes one report
  for each collection, with the items of this collection only, and the items reported are exactly those with one of the tags.\<close>

theorem untagged_items_reported:
  "\<exists>gs. notify_groups out tags (tagged_items (tabs s) tags) [] (-1) s =
       fold (\<lambda>(c, js). itemsTagsChanged out js [] tags (Collection_retrieveById (tabs s) c) []) gs s \<and>
     distinct (map fst gs) \<and> list_all (\<lambda>(c, js). js \<noteq> [] \<and> list_all (\<lambda>i. item_collectionId i = c) js) gs \<and>
     set (concat (map snd gs)) = {i \<in> set (t_items (tabs s)). \<exists>g \<in> set tags. (item_id i, tag_id g) \<in> set (t_itemTags (tabs s))}"
proof -
  let ?xs = "tagged_items (tabs s) tags"
  have "notify_groups out tags ?xs [] (-1) s =
      fold (\<lambda>(c, js). itemsTagsChanged out js [] tags (Collection_retrieveById (tabs s) c) []) (runs ?xs) s"
    using notify_groups_runs [of "[hd ?xs]" "item_collectionId (hd ?xs)" out tags "tl ?xs" s] by (cases ?xs) auto
  moreover have "distinct (map fst (runs ?xs))" by (rule runs_distinct) (simp add: tagged_items_def)
  moreover have "set ?xs = {i \<in> set (t_items (tabs s)). \<exists>g \<in> set tags. (item_id i, tag_id g) \<in> set (t_itemTags (tabs s))}"
    by (auto simp: tagged_items_def tag_ids_def filter_empty_conv image_iff) blast
  ultimately show ?thesis using runs_facts [of ?xs] by (intro exI [of _ "runs ?xs"]) (simp only: simp_thms)
qed

end
