(* ===== verification/CollectionStore.thy ===== *)
theory CollectionStore
  imports ItemStore
begin

text \<open>
  The collections in \<open>src/server/storage/datastore.cpp\<close>: creating, changing, moving and removing them, on the tables and the
  notification collector, with the handlers \<open>collectionmovehandler.cpp\<close> and \<open>collectiondeletehandler.cpp\<close>. The recursion over
  the children of a collection takes fuel for its depth: \<open>None\<close> means that it was not enough, and the theorems show that
  the number of collections is.
\<close>

section \<open>Queries\<close>

text \<open>The queries that can fail, some of them for a certain collection.\<close>

datatype collection_query = InsertCollection | CreateMimeType | InsertMimeType | SelectAttribute | InsertAttribute | DeleteAttribute
  | SelectParts int | RemovePartFiles int | DeleteCollection int | UpdateChildren int | UpdateItems int | UpdateCollection | SelectSiblings
  | BeginReset int | CommitReset int

text \<open>The end of a guard. When the database rolls back, which the signal tells, the tables are those from the construction of the guard; a guard in
  an outer transaction, or one whose transaction could not be begun, does not get the database to roll back. The result of \<open>beginTransaction\<close> is
  ignored by the constructor of \<open>Transaction\<close>: the statements are then committed one by one.\<close>

definition rollback_to :: "outside \<Rightarrow> tables \<Rightarrow> collector \<Rightarrow> collector" where
  "rollback_to out t s =
     (let u = txn out Rollback s in if TransactionRolledBack \<in> set (snd (store_do Rollback (db s))) then u\<lparr>tabs := t\<rparr> else u)"

definition commit_to :: "outside \<Rightarrow> bool \<Rightarrow> tables \<Rightarrow> collector \<Rightarrow> collector" where
  "commit_to out ok t s =
     (let u = txn out (Commit ok) s in if TransactionRolledBack \<in> set (snd (store_do (Commit ok) (db s))) then u\<lparr>tabs := t\<rparr> else u)"

definition child_ids :: "tables \<Rightarrow> int \<Rightarrow> int list" where
  "child_ids t c = map col_id (filter (\<lambda>d. col_parentId d = c) (t_collections t))"

section \<open>Attributes and mime types\<close>

definition addCollectionAttribute :: "outside \<Rightarrow> (collection_query \<Rightarrow> bool) \<Rightarrow> collection_row \<Rightarrow> string \<Rightarrow> string \<Rightarrow> bool
    \<Rightarrow> collector \<Rightarrow> bool \<times> collector" where
  "addCollectionAttribute out ok col key val silent s =
     (if \<not> ok SelectAttribute then (False, s)
      else if list_ex (\<lambda>a. fst a = key) (t_collectionAttrs (tabs s) (col_id col)) then (False, s)
      else if \<not> ok InsertAttribute then (False, s)
      else
        (let attrs = t_collectionAttrs (tabs s);
             s = s\<lparr>tabs := (tabs s)\<lparr>t_collectionAttrs := attrs(col_id col := attrs (col_id col) @ [(key, val)])\<rparr>\<rparr>
         in (True, if \<not> silent then collectionChanged out col [key] [] s else s)))"

definition removeCollectionAttribute :: "outside \<Rightarrow> (collection_query \<Rightarrow> bool) \<Rightarrow> collection_row \<Rightarrow> string \<Rightarrow> collector
    \<Rightarrow> (bool \<times> collector) handled" where
  "removeCollectionAttribute out ok col key s =
     (let attrs = t_collectionAttrs (tabs s); result = filter (\<lambda>a. fst a = key) (attrs (col_id col))
      in if \<not> ok SelectAttribute then Inl ''Unable to query for collection attribute''
         else if result = [] then Inr (False, s)
         else if \<not> ok DeleteAttribute then Inl ''Unable to remove collection attribute''
         else
           (let s = s\<lparr>tabs := (tabs s)\<lparr>t_collectionAttrs := attrs(col_id col := filter (\<lambda>a. fst a \<noteq> key) (attrs (col_id col)))\<rparr>\<rparr>
            in Inr (True, collectionChanged out col [key] [] s)))"

text \<open>A mime type that the collection has already violates the primary key of the relation.\<close>

fun appendMimeTypeForCollection :: "(collection_query \<Rightarrow> bool) \<Rightarrow> int \<Rightarrow> string list \<Rightarrow> collector \<Rightarrow> bool \<times> collector" where
  "appendMimeTypeForCollection ok c [] s = (True, s)"
| "appendMimeTypeForCollection ok c (m # ms) s =
     (let mts = t_collectionMimeTypes (tabs s)
      in if \<not> ok CreateMimeType then (False, s)
         else if \<not> ok InsertMimeType \<or> m \<in> set (mts c) then (False, s)
         else appendMimeTypeForCollection ok c ms (s\<lparr>tabs := (tabs s)\<lparr>t_collectionMimeTypes := mts(c := mts c @ [m])\<rparr>\<rparr>))"

fun add_attributes :: "outside \<Rightarrow> (collection_query \<Rightarrow> bool) \<Rightarrow> collection_row \<Rightarrow> (string \<times> string) list \<Rightarrow> collector \<Rightarrow> bool \<times> collector" where
  "add_attributes out ok col [] s = (True, s)"
| "add_attributes out ok col ((k, v) # kvs) s =
     (case addCollectionAttribute out ok col k v True s of
        (False, s) \<Rightarrow> (False, s)
      | (True, s) \<Rightarrow> add_attributes out ok col kvs s)"

text \<open>\<open>appendCollection\<close>; the attributes come in the order of their keys. The unique index on parent and name makes the insert fail.\<close>

definition appendCollection :: "outside \<Rightarrow> (collection_query \<Rightarrow> bool) \<Rightarrow> collection_row \<Rightarrow> string list \<Rightarrow> (string \<times> string) list \<Rightarrow> collector
    \<Rightarrow> bool \<times> collection_row \<times> collector" where
  "appendCollection out ok col mimeTypes attrs s =
     (let t = tabs s
      in if \<not> ok InsertCollection \<or> list_ex (\<lambda>d. col_parentId d = col_parentId col \<and> col_name d = col_name col) (t_collections t)
         then (False, col, s)
         else
           (let col = col\<lparr>col_id := t_nextCollection t\<rparr>;
                s = s\<lparr>tabs := t\<lparr>t_collections := t_collections t @ [col], t_nextCollection := t_nextCollection t + 1\<rparr>\<rparr>
            in case appendMimeTypeForCollection ok (col_id col) mimeTypes s of
                 (False, s) \<Rightarrow> (False, col, s)
               | (True, s) \<Rightarrow>
                   (case add_attributes out ok col attrs s of
                      (False, s) \<Rightarrow> (False, col, s)
                    | (True, s) \<Rightarrow> (True, col, collectionAdded out col [] s))))"

section \<open>Removing\<close>

text \<open>\<open>Entity::remove\<close> with the referential actions: the child collections, the items of all of them and what belongs to these.\<close>

definition delete_collection :: "int \<Rightarrow> tables \<Rightarrow> tables" where
  "delete_collection c t =
     (let gone = cascade (length (t_collections t)) (map (\<lambda>d. (col_id d, col_parentId d)) (t_collections t)) [c];
          kept = filter (\<lambda>i. item_collectionId i \<notin> set gone) (t_items t);
          lost = map item_id (filter (\<lambda>i. item_collectionId i \<in> set gone) (t_items t))
      in t\<lparr>t_collections := filter (\<lambda>d. col_id d \<notin> set gone) (t_collections t), t_items := kept,
           t_flags := Set.filter (\<lambda>r. fst r \<notin> set lost) (t_flags t),
           t_itemTags := filter (\<lambda>r. fst r \<notin> set lost) (t_itemTags t),
           t_links := filter (\<lambda>r. fst r \<notin> set gone \<and> snd r \<notin> set lost) (t_links t),
           t_collectionMimeTypes := (\<lambda>d. if d \<in> set gone then [] else t_collectionMimeTypes t d),
           t_collectionAttrs := (\<lambda>d. if d \<in> set gone then [] else t_collectionAttrs t d)\<rparr>)"

definition cleanupCollection :: "outside \<Rightarrow> (collection_query \<Rightarrow> bool) \<Rightarrow> collection_row \<Rightarrow> collector \<Rightarrow> bool \<times> collector" where
  "cleanupCollection out ok col s =
     (let its = filter (\<lambda>i. item_collectionId i = col_id col) (t_items (tabs s));
          s = itemsRemoved out its col (resource_name (tabs s) col) s
      in if \<not> ok (SelectParts (col_id col)) then (False, s)
         else if \<not> ok (RemovePartFiles (col_id col)) then (False, s)
         else
           (let s = collectionRemoved out col [] s
            in if \<not> ok (DeleteCollection (col_id col)) then (False, s)
               else (True, s\<lparr>tabs := delete_collection (col_id col) (tabs s)\<rparr>)))"

text \<open>\<open>CollectionDeleteHandler::deleteRecursive\<close>; the children are read before any of them is removed.\<close>

fun deleteRecursive :: "nat \<Rightarrow> outside \<Rightarrow> (collection_query \<Rightarrow> bool) \<Rightarrow> collection_row \<Rightarrow> collector \<Rightarrow> (bool \<times> collector) option"
  and delete_children :: "nat \<Rightarrow> outside \<Rightarrow> (collection_query \<Rightarrow> bool) \<Rightarrow> collection_row list \<Rightarrow> collector \<Rightarrow> (bool \<times> collector) option" where
  "deleteRecursive 0 out ok col s = None"
| "deleteRecursive (Suc n) out ok col s =
     (case delete_children n out ok (filter (\<lambda>d. col_parentId d = col_id col) (t_collections (tabs s))) s of
        None \<Rightarrow> None
      | Some (False, s) \<Rightarrow> Some (False, s)
      | Some (True, s) \<Rightarrow> Some (cleanupCollection out ok col s))"
| "delete_children n out ok [] s = Some (True, s)"
| "delete_children n out ok (d # ds) s =
     (case deleteRecursive n out ok d s of
        None \<Rightarrow> None
      | Some (False, s) \<Rightarrow> Some (False, s)
      | Some (True, s) \<Rightarrow> delete_children n out ok ds s)"

section \<open>Moving\<close>

text \<open>The two updates of \<open>recursiveSetResourceId\<close>.\<close>

definition reset_children :: "int \<Rightarrow> int \<Rightarrow> tables \<Rightarrow> tables" where
  "reset_children res c t = t\<lparr>t_collections :=
     map (\<lambda>d. if col_parentId d = c then d\<lparr>col_resourceId := res, col_remoteId := [], col_remoteRevision := []\<rparr> else d) (t_collections t)\<rparr>"

definition reset_items :: "int \<Rightarrow> int \<Rightarrow> tables \<Rightarrow> tables" where
  "reset_items now c t = t\<lparr>t_items :=
     map (\<lambda>i. if item_collectionId i = c
              then i\<lparr>item_remoteId := [], item_remoteRevision := [], item_datetime := now, item_atime := now, item_dirty := True\<rparr>
              else i) (t_items t)\<rparr>"

text \<open>\<open>recursiveSetResourceId\<close>: the updates in a transaction of their own, which is committed before the children are visited.\<close>

fun recursiveSetResourceId :: "nat \<Rightarrow> outside \<Rightarrow> (collection_query \<Rightarrow> bool) \<Rightarrow> int \<Rightarrow> int \<Rightarrow> int \<Rightarrow> collector \<Rightarrow> (bool \<times> collector) option"
  and set_children :: "nat \<Rightarrow> outside \<Rightarrow> (collection_query \<Rightarrow> bool) \<Rightarrow> int \<Rightarrow> int \<Rightarrow> int list \<Rightarrow> collector \<Rightarrow> (bool \<times> collector) option" where
  "recursiveSetResourceId 0 out ok now res c s = None"
| "recursiveSetResourceId (Suc n) out ok now res c s =
     (let t = tabs s; s = txn out (Begin (ok (BeginReset c))) s
      in if \<not> ok (UpdateChildren c) then Some (False, rollback_to out t s)
         else
           (let s = s\<lparr>tabs := reset_children res c (tabs s)\<rparr>
            in if \<not> ok (UpdateItems c) then Some (False, rollback_to out t s)
               else
                 (let s = commit_to out (ok (CommitReset c)) t (s\<lparr>tabs := reset_items now c (tabs s)\<rparr>)
                  in set_children n out ok now res (child_ids (tabs s) c) s)))"
| "set_children n out ok now res [] s = Some (True, s)"
| "set_children n out ok now res (c # cs) s =
     (case recursiveSetResourceId n out ok now res c s of
        None \<Rightarrow> None
      | Some (False, s) \<Rightarrow> Some (False, s)
      | Some (True, s) \<Rightarrow> set_children n out ok now res cs s)"

definition update_row :: "collection_row \<Rightarrow> tables \<Rightarrow> tables" where
  "update_row c t = t\<lparr>t_collections := map (\<lambda>d. if col_id d = col_id c then c else d) (t_collections t)\<rparr>"

text \<open>\<open>moveCollection\<close>. The resource id is held in an \<open>int\<close>. The unique index on parent and name is checked by the update.\<close>

definition moveCollection :: "outside \<Rightarrow> (collection_query \<Rightarrow> bool) \<Rightarrow> int \<Rightarrow> collection_row \<Rightarrow> collection_row \<Rightarrow> collector
    \<Rightarrow> (bool \<times> collector) option" where
  "moveCollection out ok now col newParent s =
     (if col_parentId col = col_id newParent then Some (True, s)
      else if \<not> m_dbOpened (db s) then Some (False, s)
      else if \<not> entity_isValid (col_id newParent) then Some (False, s)
      else
        (let oldResource = resource_name (tabs s) col;
             src = Collection_retrieveById (tabs s) (col_parentId col);
             res = wrap32 (if col_id newParent > 0 then col_resourceId newParent else col_resourceId col)
         in case canBeMovedTo (ok SelectSiblings) (tabs s) col newParent of
              None \<Rightarrow> None
            | Some False \<Rightarrow> Some (False, s)
            | Some True \<Rightarrow>
                (let col = col\<lparr>col_parentId := col_id newParent\<rparr>;
                     (col, r) = (if col_resourceId col \<noteq> res
                                 then (col\<lparr>col_resourceId := res, col_remoteId := [], col_remoteRevision := []\<rparr>,
                                       recursiveSetResourceId (length (t_collections (tabs s)) + 1) out ok now res (col_id col) s)
                                 else (col, Some (True, s)))
                 in case r of
                      None \<Rightarrow> None
                    | Some (False, s) \<Rightarrow> Some (False, s)
                    | Some (True, s) \<Rightarrow>
                        (if \<not> ok UpdateCollection \<or>
                            list_ex (\<lambda>d. col_id d \<noteq> col_id col \<and> col_parentId d = col_parentId col \<and> col_name d = col_name col) (t_collections (tabs s))
                         then Some (False, s)
                         else
                           (let s = s\<lparr>tabs := update_row col (tabs s)\<rparr>
                            in Some (True, collectionMoved out col src oldResource (resource_name (tabs s) newParent) s))))))"

section \<open>Subtrees\<close>

definition edges :: "tables \<Rightarrow> (int \<times> int) list" where
  "edges t = map (\<lambda>d. (col_id d, col_parentId d)) (t_collections t)"

inductive descends :: "(int \<times> int) list \<Rightarrow> int \<Rightarrow> int \<Rightarrow> bool" for E :: "(int \<times> int) list" and c :: int where
  self: "descends E c c"
| child: "descends E c p \<Longrightarrow> (d, p) \<in> set E \<Longrightarrow> descends E c d"

inductive_cases descendsE: "descends E c d"

definition sons :: "(int \<times> int) list \<Rightarrow> int \<Rightarrow> int list" where
  "sons E c = map fst (filter (\<lambda>e. snd e = c) E)"

lemma child_ids_sons: "child_ids t c = sons (edges t) c"
  by (simp add: child_ids_def sons_def edges_def filter_map comp_def)

lemma descends_trans: "descends E p d \<Longrightarrow> descends E c p \<Longrightarrow> descends E c d"
  by (induction rule: descends.induct) (auto intro: descends.child)

lemma descends_unfold: "{d. descends E c d} = insert c (\<Union>e \<in> set (sons E c). {d. descends E e d})"
proof (intro equalityI subsetI)
  fix d assume "d \<in> {d. descends E c d}"
  then have "descends E c d" by simp
  then show "d \<in> insert c (\<Union>e \<in> set (sons E c). {d. descends E e d})"
  proof (induction rule: descends.induct)
    case (child p d)
    show ?case
    proof (cases "p = c")
      case True
      then have "d \<in> set (sons E c)" using child(2) by (force simp: sons_def)
      then show ?thesis using descends.self by blast
    next
      case False
      then obtain e where "e \<in> set (sons E c)" "descends E e p" using child(3) by blast
      then show ?thesis using descends.child child(2) by blast
    qed
  qed simp
next
  fix d assume "d \<in> insert c (\<Union>e \<in> set (sons E c). {d. descends E e d})"
  moreover have "descends E c d" if "e \<in> set (sons E c)" "descends E e d" for e
  proof -
    have "(e, c) \<in> set E" using that(1) by (force simp: sons_def)
    then show ?thesis using descends_trans [OF that(2)] descends.self descends.child by blast
  qed
  ultimately show "d \<in> {d. descends E c d}" using descends.self by blast
qed

text \<open>\<open>bounded E n c\<close>: the subtree of \<open>c\<close> has at most \<open>n\<close> levels.\<close>

fun bounded :: "(int \<times> int) list \<Rightarrow> nat \<Rightarrow> int \<Rightarrow> bool" where
  "bounded E 0 c \<longleftrightarrow> False"
| "bounded E (Suc n) c \<longleftrightarrow> list_all (bounded E n) (sons E c)"

lemma lineage_suffix: "lineage t p (xs @ c # ys) \<Longrightarrow> lineage t (col_id c) (c # ys)"
  by (induction xs arbitrary: p) auto

lemma lineage_distinct:
  assumes "collections_forest t"
  shows "lineage t p cs \<Longrightarrow> distinct cs \<and> set cs \<subseteq> set (t_collections t)"
proof (induction cs arbitrary: p)
  case (Cons c cs)
  have "c \<notin> set cs"
  proof
    assume "c \<in> set cs"
    then obtain xs ys where "cs = xs @ c # ys" by (metis split_list)
    moreover have "lineage t (col_id c) (c # cs)" using Cons.prems by simp
    ultimately have "lineage t (col_id c) (c # ys)" "c # cs = c # ys \<Longrightarrow> False"
      using lineage_suffix [of t "col_id c" "c # xs" c ys] by auto
    then show False using lineage_unique [OF assms \<open>lineage t (col_id c) (c # cs)\<close>] by blast
  qed
  moreover have "lineage t (col_parentId c) cs" using Cons.prems by simp
  ultimately show ?case using Cons.IH [of "col_parentId c"] Cons.prems by simp
qed simp

lemma forest_bounded:
  assumes "collections_forest t"
  shows "lineage t c cs \<Longrightarrow> length (t_collections t) < length cs + n \<Longrightarrow> bounded (edges t) n c"
proof (induction n arbitrary: c cs)
  case 0
  have "distinct cs" "set cs \<subseteq> set (t_collections t)" using lineage_distinct [OF assms 0(1)] by simp_all
  then have "length cs \<le> length (t_collections t)" by (metis card_mono distinct_card finite_set card_length order_trans)
  then show ?case using 0(2) by simp
next
  case (Suc n)
  have "bounded (edges t) n e" if e: "e \<in> set (sons (edges t) c)" for e
  proof -
    obtain d where "d \<in> set (t_collections t)" "col_id d = e" "col_parentId d = c" using e by (auto simp: sons_def edges_def)
    then have "lineage t e (d # cs)" using Suc.prems(1) by simp
    then show ?thesis using Suc.IH Suc.prems(2) by fastforce
  qed
  then show ?case by (simp add: list_all_iff)
qed

section \<open>Resetting a subtree\<close>

definition reset_row :: "int \<Rightarrow> collection_row \<Rightarrow> collection_row" where
  "reset_row res d = d\<lparr>col_resourceId := res, col_remoteId := [], col_remoteRevision := []\<rparr>"

definition reset_item :: "int \<Rightarrow> pim_item \<Rightarrow> pim_item" where
  "reset_item now i = i\<lparr>item_remoteId := [], item_remoteRevision := [], item_datetime := now, item_atime := now, item_dirty := True\<rparr>"

definition reset_subtree :: "int \<Rightarrow> int \<Rightarrow> int set \<Rightarrow> tables \<Rightarrow> tables" where
  "reset_subtree now res B t = t\<lparr>t_items := map (\<lambda>i. if item_collectionId i \<in> B then reset_item now i else i) (t_items t),
     t_collections := map (\<lambda>d. if col_parentId d \<in> B then reset_row res d else d) (t_collections t)\<rparr>"

lemma reset_one: "reset_items now c (reset_children res c t) = reset_subtree now res {c} t"
  by (cases t) (simp add: reset_items_def reset_children_def reset_subtree_def reset_item_def reset_row_def)

lemma reset_empty [simp]: "reset_subtree now res {} t = t"
  by (cases t) (simp add: reset_subtree_def)

lemma reset_twice: "reset_subtree now res C (reset_subtree now res B t) = reset_subtree now res (B \<union> C) t"
  by (cases t) (simp add: reset_subtree_def reset_row_def reset_item_def comp_def)

lemma reset_edges [simp]: "edges (reset_subtree now res B t) = edges t"
  by (simp add: edges_def reset_subtree_def reset_row_def comp_def)

text \<open>A guard inside of a transaction: neither its begin nor its end reaches the database.\<close>

lemma nested_txn:
  assumes "at_level (Suc k) s"
  shows "commit_to out b' t' ((txn out (Begin b) s)\<lparr>tabs := t\<rparr>) = s\<lparr>tabs := t\<rparr>" "tabs (txn out (Begin b) s) = tabs s"
proof -
  have "(db s)\<lparr>m_transactionLevel := Suc k\<rparr> = db s" using assms by (cases "db s") (simp add: at_level_def)
  then show "commit_to out b' t' ((txn out (Begin b) s)\<lparr>tabs := t\<rparr>) = s\<lparr>tabs := t\<rparr>" "tabs (txn out (Begin b) s) = tabs s"
    using assms by (cases s; simp add: commit_to_def txn_def txn_defs at_level_def)+
qed

lemma set_resource_result:
  "at_level (Suc k) s \<Longrightarrow> bounded (edges (tabs s)) n c \<Longrightarrow>
     recursiveSetResourceId n out (\<lambda>_. True) now res c s =
     Some (True, s\<lparr>tabs := reset_subtree now res {d. descends (edges (tabs s)) c d} (tabs s)\<rparr>)"
proof (induction n arbitrary: c s)
  case (Suc n)
  have list: "at_level (Suc k) u \<Longrightarrow> list_all (bounded (edges (tabs u)) n) cs \<Longrightarrow> set_children n out (\<lambda>_. True) now res cs u =
      Some (True, u\<lparr>tabs := reset_subtree now res (\<Union>e \<in> set cs. {d. descends (edges (tabs u)) e d}) (tabs u)\<rparr>)" for cs u
  proof (induction cs arbitrary: u)
    case (Cons e cs)
    let ?u = "u\<lparr>tabs := reset_subtree now res {d. descends (edges (tabs u)) e d} (tabs u)\<rparr>"
    have "at_level (Suc k) ?u" "list_all (bounded (edges (tabs ?u)) n) cs" using Cons.prems by (simp_all add: at_level_def)
    then show ?case using Cons.IH [of ?u] Suc.IH [OF Cons.prems(1)] Cons.prems(2) by (simp add: reset_twice)
  qed simp
  let ?u = "s\<lparr>tabs := reset_subtree now res {c} (tabs s)\<rparr>"
  have "at_level (Suc k) ?u" "list_all (bounded (edges (tabs ?u)) n) (sons (edges (tabs ?u)) c)"
    using Suc.prems by (simp_all add: at_level_def)
  from list [OF this] show ?case
    using nested_txn [OF Suc.prems(1)]
    by (simp add: Let_def reset_one child_ids_sons reset_twice descends_unfold [of "edges (tabs s)" c])
qed simp

section \<open>The move\<close>

text \<open>Every collection belongs to the resource of its parent, and resource ids fit into 32 bits.\<close>

definition resources_ok :: "tables \<Rightarrow> bool" where
  "resources_ok t \<longleftrightarrow> (\<forall>c \<in> set (t_collections t). \<forall>d \<in> set (t_collections t). col_parentId d = col_id c \<longrightarrow> col_resourceId d = col_resourceId c) \<and>
     (\<forall>c \<in> set (t_collections t). 0 \<le> col_resourceId c \<and> col_resourceId c \<le> int32_max)"

lemma forest_structure:
  assumes "collections_forest t"
    and "map (\<lambda>c. (col_id c, col_parentId c, col_name c)) (t_collections u) = map (\<lambda>c. (col_id c, col_parentId c, col_name c)) (t_collections t)"
  shows "collections_forest u"
proof -
  let ?f = "\<lambda>c. (col_id c, col_parentId c, col_name c)"
  have ids: "map col_id (t_collections u) = map col_id (t_collections t)"
    using arg_cong [OF assms(2), of "map fst"] by (simp add: comp_def)
  have names: "map (\<lambda>c. (col_parentId c, col_name c)) (t_collections u) = map (\<lambda>c. (col_parentId c, col_name c)) (t_collections t)"
    using arg_cong [OF assms(2), of "map snd"] by (simp add: comp_def)
  have same: "\<exists>d \<in> set (t_collections u). ?f d = ?f c" if "c \<in> set (t_collections t)" for c
    using that arg_cong [OF assms(2), of set] by (metis (no_types, lifting) image_iff image_set)
  have "lineage t p cs \<Longrightarrow> \<exists>ds. lineage u p ds" for p cs
  proof (induction cs arbitrary: p)
    case Nil
    then show ?case by (intro exI [of _ "[]"]) simp
  next
    case (Cons c cs)
    then obtain ds where "lineage u (col_parentId c) ds" by auto
    moreover obtain d where "d \<in> set (t_collections u)" "?f d = ?f c" using same [of c] Cons.prems by auto
    ultimately have "lineage u p (d # ds)" using Cons.prems by simp
    then show ?case by blast
  qed
  moreover have "col_id d \<in> col_id ` set (t_collections t)" if "d \<in> set (t_collections u)" for d
    using that arg_cong [OF ids, of set] by auto
  ultimately have "0 < col_id d \<and> (\<exists>ds. lineage u (col_id d) ds)" if "d \<in> set (t_collections u)" for d
    using that forest_row(2, 3) [OF assms(1)] by (metis imageE)
  then show ?thesis using assms(1) ids names by (simp add: collections_forest_def)
qed

lemma descends_lineage:
  assumes "collections_forest t" and "c \<in> set (t_collections t)"
  shows "descends (edges t) (col_id c) d \<Longrightarrow> lineage t d ds \<Longrightarrow> c \<in> set ds"
proof (induction arbitrary: ds rule: descends.induct)
  case self
  from lineage_Cons [OF assms self] show ?case by auto
next
  case (child p d)
  then obtain r where r: "r \<in> set (t_collections t)" "col_id r = d" "col_parentId r = p" by (auto simp: edges_def)
  then obtain es where "ds = r # es" "lineage t p es" using lineage_Cons [OF assms(1) r(1)] child.prems by auto
  then show ?case using child.IH by simp
qed

lemma allowed_not_below:
  assumes "collections_forest t" and "c \<in> set (t_collections t)" and "p \<in> set (t_collections t)" and "canBeMovedTo ok t c p = Some True"
  shows "\<not> descends (edges t) (col_id c) (col_id p)"
proof
  assume d: "descends (edges t) (col_id c) (col_id p)"
  obtain ps where ps: "lineage t (col_id p) (p # ps)" using forest_row(3) lineage_Cons assms(1, 3) by blast
  then have "meets t c p = Some True" using meets_lineage [OF assms(1, 2) ps] descends_lineage [OF assms(1, 2) d ps] by simp
  then show False using assms(4) forest_row(2) [OF assms(1, 3)] by (simp add: canBeMovedTo_def entity_isValid_def)
qed

text \<open>The rows after a move: the collection itself, and if the resource changes its subtree.\<close>

lemma moved_resources:
  assumes "collections_forest t" and "resources_ok t" and "c \<in> set (t_collections t)"
    and "col_id c' = col_id c" and "col_parentId c' = p" and "col_resourceId c' = res" and "0 \<le> res" "res \<le> int32_max"
    and "B = {} \<and> col_resourceId c = res \<or> B = {d. descends (edges t) (col_id c) d}"
    and "\<forall>q \<in> set (t_collections t). col_id q = p \<longrightarrow> col_resourceId q = res \<and> \<not> descends (edges t) (col_id c) p"
  shows "resources_ok (update_row c' (reset_subtree now res B t))"
proof -
  define g where "g d = (if col_id d = col_id c then c' else if col_parentId d \<in> B then reset_row res d else d)" for d
  have rows: "t_collections (update_row c' (reset_subtree now res B t)) = map g (t_collections t)"
    by (simp add: update_row_def reset_subtree_def assms(4) reset_row_def comp_def g_def)
  have step: "col_id d \<in> B" if "d \<in> set (t_collections t)" "col_parentId d \<in> B" for d
    using that assms(9) by (auto simp: edges_def intro: descends.child)
  have into: "col_parentId d \<in> B" if dB: "col_id d \<in> B" "d \<in> set (t_collections t)" "col_id d \<noteq> col_id c" for d
  proof -
    have B: "descends (edges t) (col_id c) (col_id d)" "B = {d. descends (edges t) (col_id c) d}" using dB(1) assms(9) by auto
    then obtain q where q: "descends (edges t) (col_id c) q" "(col_id d, q) \<in> set (edges t)" using dB(3) by (auto elim: descendsE)
    moreover from q(2) have "q = col_parentId d" using forest_eq [OF assms(1) _ dB(2)] by (auto simp: edges_def)
    ultimately show ?thesis using B(2) by simp
  qed
  have own: "col_id c \<in> B \<or> col_resourceId c = res \<and> B = {}" using assms(9) descends.self by auto
  have "col_resourceId (g d) = col_resourceId (g e)"
    if d: "d \<in> set (t_collections t)" and e: "e \<in> set (t_collections t)" and pe: "col_parentId (g d) = col_id (g e)" for d e
  proof -
    have ide: "col_id (g e) = col_id e" by (simp add: assms(4) reset_row_def g_def)
    show ?thesis
    proof (cases "col_id d = col_id c")
      case True
      then have "col_id e = p" using pe ide assms(5) by (simp add: g_def)
      then have e': "col_resourceId e = res" "\<not> descends (edges t) (col_id c) (col_id e)" using assms(10) e by auto
      then have "col_id e \<noteq> col_id c" "col_id e \<notin> B" using descends.self assms(9) by auto
      then show ?thesis using True e' step [OF e] assms(6) by (auto simp: g_def)
    next
      case False
      then have par: "col_parentId d = col_id e" using pe ide by (simp add: g_def reset_row_def split: if_splits)
      then have same: "col_resourceId d = col_resourceId e" using assms(2) d e by (simp add: resources_ok_def)
      show ?thesis
      proof (cases "col_id e = col_id c")
        case True
        then have "e = c" using forest_eq [OF assms(1) e assms(3)] by simp
        then show ?thesis using False par same own assms(4, 6) by (auto simp: g_def reset_row_def)
      next
        case other: False
        then show ?thesis using False par same step [OF e] into [OF _ e other] by (auto simp: g_def reset_row_def)
      qed
    qed
  qed
  moreover have "0 \<le> col_resourceId (g d) \<and> col_resourceId (g d) \<le> int32_max" if "d \<in> set (t_collections t)" for d
    using assms(2, 6, 7, 8) that by (simp add: g_def resources_ok_def reset_row_def)
  ultimately show ?thesis unfolding resources_ok_def rows by auto
qed

lemma collection_notification_tabs [simp]:
  "tabs (collectionNotification out op coll src dest resource changes destResource s) = tabs s"
proof -
  have "tabs (snd (complete_response out a r rows u)) = tabs u" for a r rows u
    by (auto simp: complete_response_def Let_def split: prod.splits)
  then have "tabs (snd (case mgr s of None \<Rightarrow> (r, s) | Some a \<Rightarrow> complete_response out a r (t_collectionAttrs (tabs s) (col_id coll)) s)) = tabs s"
    for r by (simp split: option.split)
  moreover have "tabs (dispatchNotification out m u) = tabs u" for m u using dispatch_shrinks by (simp add: shrinks_def)
  ultimately show ?thesis by (simp add: collectionNotification_def Let_def split_def)
qed

lemma collection_moved_tabs [simp]: "tabs (collectionMoved out coll src resource destResource s) = tabs s"
  by (simp add: collectionMoved_def tell_schedulers_def)

lemma allowed_name:
  assumes "collections_forest t" and "c \<in> set (t_collections t)" and "lineage t (col_id p) ps" and "canBeMovedTo True t c p = Some True"
  shows "\<not> list_ex (\<lambda>d. col_id d \<noteq> col_id c \<and> col_parentId d = col_id p \<and> col_name d = col_name c) (t_collections t)"
proof -
  have "hasAllowedName True t c (col_name c) (col_id p)"
    using assms(4) by (auto simp: canBeMovedTo_def split: if_splits option.splits)
  then show ?thesis using hasAllowedName_iff [OF assms(1, 3, 2)] by (auto simp: list_ex_iff)
qed

text \<open>What \<open>moveCollection\<close> does to the tables when it is allowed.\<close>

lemma move_result:
  assumes "collections_forest (tabs s)" and "resources_ok (tabs s)" and "c \<in> set (t_collections (tabs s))"
    and "p \<in> set (t_collections (tabs s)) \<or> p = row_new\<lparr>col_id := 0\<rparr>" and "at_level (Suc k) s"
    and "col_parentId c \<noteq> col_id p" and can: "canBeMovedTo True (tabs s) c p = Some True"
  obtains s' c' B where "moveCollection out (\<lambda>_. True) now c p s = Some (True, s')"
    "tabs s' = update_row c' (reset_subtree now (col_resourceId c') B (tabs s))"
    "col_id c' = col_id c" "col_parentId c' = col_id p" "col_name c' = col_name c"
    "col_resourceId c' = (if col_id p > 0 then col_resourceId p else col_resourceId c)"
    "B = {} \<and> col_resourceId c = col_resourceId c' \<or> B = {d. descends (edges (tabs s)) (col_id c) d}"
proof -
  let ?t = "tabs s"
  define res where "res = (if col_id p > 0 then col_resourceId p else col_resourceId c)"
  have range: "wrap32 res = res"
    using assms(2-4) by (intro wrap32_id) (auto simp: res_def resources_ok_def row_new_def)
  have valid: "entity_isValid (col_id p)" "m_dbOpened (db s)"
    using assms(4, 5) forest_row(2) [OF assms(1), of p] by (auto simp: entity_isValid_def at_level_def)
  have "\<exists>ps. lineage ?t (col_id p) ps"
  proof (cases "p \<in> set (t_collections ?t)")
    case False
    then have "lineage ?t (col_id p) []" using assms(4) by simp
    then show ?thesis by blast
  qed (rule forest_row(3) [OF assms(1)])
  then obtain ps where ps: "lineage ?t (col_id p) ps" ..
  obtain cs where "lineage ?t (col_id c) cs" using forest_row(3) [OF assms(1, 3)] ..
  then have bounded: "bounded (edges ?t) (length (t_collections ?t) + 1) (col_id c)" by (rule forest_bounded [OF assms(1)]) simp
  note free = allowed_name [OF assms(1, 3) ps can]
  show ?thesis
  proof (cases "col_resourceId c = res")
    case True
    let ?c = "c\<lparr>col_parentId := col_id p\<rparr>"
    have "moveCollection out (\<lambda>_. True) now c p s = Some (True, collectionMoved out ?c (Collection_retrieveById ?t (col_parentId c))
        (resource_name ?t c) (resource_name (update_row ?c ?t) p) (s\<lparr>tabs := update_row ?c ?t\<rparr>))"
      using assms(6) valid range True can free by (simp add: moveCollection_def Let_def flip: res_def)
    then show ?thesis using that [of _ ?c "{}"] True by (simp add: res_def)
  next
    case False
    let ?c = "c\<lparr>col_parentId := col_id p, col_resourceId := res, col_remoteId := [], col_remoteRevision := []\<rparr>"
    let ?B = "{d. descends (edges ?t) (col_id c) d}"
    let ?u = "reset_subtree now res ?B ?t"
    have rec: "recursiveSetResourceId (length (t_collections ?t) + 1) out (\<lambda>_. True) now res (col_id c) s = Some (True, s\<lparr>tabs := ?u\<rparr>)"
      by (rule set_resource_result [OF assms(5) bounded])
    have free': "\<not> list_ex (\<lambda>d. col_id d \<noteq> col_id c \<and> col_parentId d = col_id p \<and> col_name d = col_name c) (t_collections ?u)"
      using free by (auto simp: reset_subtree_def reset_row_def list_ex_iff)
    have "moveCollection out (\<lambda>_. True) now c p s = Some (True, collectionMoved out ?c (Collection_retrieveById ?t (col_parentId c))
        (resource_name ?t c) (resource_name (update_row ?c ?u) p) (s\<lparr>tabs := update_row ?c ?u\<rparr>))"
      using assms(6) valid range False can free' rec by (simp add: moveCollection_def Let_def flip: res_def)
    then show ?thesis using that [of _ ?c ?B] by (simp add: res_def)
  qed
qed

section \<open>Properties\<close>

text \<open>(C3) Moving a collection always ends and keeps the structure of the database: in a transaction, on a forest in which every collection
  belongs to the resource of its parent, \<open>moveCollection\<close> returns, and afterwards the collections are again such a forest. It
  succeeds exactly when the moved forest is one, then the collection is below its new parent; if it fails, nothing
  has changed.\<close>

theorem move_keeps_structure:
  assumes "collections_forest (tabs s)" and "resources_ok (tabs s)" and "c \<in> set (t_collections (tabs s))"
    and "p \<in> set (t_collections (tabs s)) \<or> p = row_new\<lparr>col_id := 0\<rparr>" and "at_level (Suc k) s" and "col_parentId c \<noteq> col_id p"
  shows "\<exists>b s'. moveCollection out (\<lambda>_. True) now c p s = Some (b, s') \<and> collections_forest (tabs s') \<and> resources_ok (tabs s') \<and>
    (b \<longleftrightarrow> collections_forest (moved (tabs s) c (col_id p))) \<and> (\<not> b \<longrightarrow> tabs s' = tabs s) \<and>
    (b \<longrightarrow> col_parentId (Collection_retrieveById (tabs s') (col_id c)) = col_id p)"
proof (cases "canBeMovedTo True (tabs s) c p = Some True")
  case True
  then have moved: "collections_forest (moved (tabs s) c (col_id p))" using canBeMovedTo_forest [OF assms(1, 3, 4)] by simp
  obtain s' c' B where s': "moveCollection out (\<lambda>_. True) now c p s = Some (True, s')"
    "tabs s' = update_row c' (reset_subtree now (col_resourceId c') B (tabs s))"
    and c': "col_id c' = col_id c" "col_parentId c' = col_id p" "col_name c' = col_name c"
    "col_resourceId c' = (if col_id p > 0 then col_resourceId p else col_resourceId c)"
    and B: "B = {} \<and> col_resourceId c = col_resourceId c' \<or> B = {d. descends (edges (tabs s)) (col_id c) d}"
    using move_result [OF assms True] by metis
  have "collections_forest (tabs s')"
    by (rule forest_structure [OF moved])
      (use c' forest_eq [OF assms(1) _ assms(3)] in \<open>auto simp: s'(2) update_row_def reset_subtree_def reset_row_def moved_def\<close>)
  moreover have "c' \<in> set (t_collections (tabs s'))"
    using assms(3) c'(1) by (force simp: s'(2) update_row_def reset_subtree_def reset_row_def)
  ultimately have "Collection_retrieveById (tabs s') (col_id c) = c'" using forest_row(1) c'(1) by metis
  moreover have "resources_ok (tabs s')"
    unfolding s'(2)
  proof (rule moved_resources [OF assms(1, 2, 3) c'(1, 2) refl])
    show "0 \<le> col_resourceId c'" "col_resourceId c' \<le> int32_max"
      using assms(2, 3, 4) c'(4) by (auto simp: resources_ok_def row_new_def)
    show "\<forall>q \<in> set (t_collections (tabs s)). col_id q = col_id p \<longrightarrow>
        col_resourceId q = col_resourceId c' \<and> \<not> descends (edges (tabs s)) (col_id c) (col_id p)"
    proof (intro ballI impI)
      fix q assume q: "q \<in> set (t_collections (tabs s))" "col_id q = col_id p"
      have "p \<in> set (t_collections (tabs s))" using assms(4) forest_row(2) [OF assms(1) q(1)] q(2) by auto
      moreover from this have "q = p" using forest_eq [OF assms(1) q(1)] q(2) by simp
      ultimately show "col_resourceId q = col_resourceId c' \<and> \<not> descends (edges (tabs s)) (col_id c) (col_id p)"
        using allowed_not_below [OF assms(1, 3) _ True] c'(4) forest_row(2) [OF assms(1) q(1)] q(2) by simp
    qed
  qed (rule B)
  ultimately show ?thesis using s'(1) c'(2) moved \<open>collections_forest (tabs s')\<close> by auto
next
  case False
  then have can: "canBeMovedTo True (tabs s) c p = Some False" "\<not> collections_forest (moved (tabs s) c (col_id p))"
    using canBeMovedTo_forest [OF assms(1, 3, 4)] by auto
  then have "moveCollection out (\<lambda>_. True) now c p s = Some (False, s)"
    using assms(6) by (simp add: moveCollection_def Let_def)
  then show ?thesis using assms(1, 2) can(2) by (intro exI [of _ False] exI [of _ s]) simp
qed

theorem move_keeps_structure_witness:
  "\<exists>b s'. moveCollection sample_out (\<lambda>_. True) 1000 sample_inbox (row_new\<lparr>col_id := 0\<rparr>) (txn sample_out (Begin True) sample_collector) = Some (b, s') \<and>
     collections_forest (tabs s') \<and> resources_ok (tabs s')"
proof -
  let ?s = "txn sample_out (Begin True) sample_collector"
  have tabs: "tabs ?s = sample_tables" and level: "at_level (Suc 0) ?s"
    by (simp_all add: txn_def txn_defs sample_collector_def at_level_def)
  have "resources_ok sample_tables" by (auto simp: resources_ok_def sample_defs int32_max_def)
  moreover have "sample_inbox \<in> set (t_collections sample_tables)" "col_parentId sample_inbox \<noteq> col_id (row_new\<lparr>col_id := 0\<rparr>)"
    by (simp_all add: sample_tables_def sample_inbox_def)
  ultimately show ?thesis
    using move_keeps_structure [of ?s sample_inbox "row_new\<lparr>col_id := 0\<rparr>" 0 sample_out 1000] sample_forest level unfolding tabs by blast
qed

end
