(* ===== verification/CollectionHandlers.thy ===== *)
theory CollectionHandlers
  imports CollectionStore
begin

text \<open>
  The handlers \<open>collectionmovehandler.cpp\<close>, \<open>collectiondeletehandler.cpp\<close> and \<open>transactionhandler.cpp\<close> of \<open>src/server/handler\<close>. A
  handler gives the response, an error message or success, and the state of the connection; \<open>None\<close> is a recursion that
  does not end. The tables are those that the transaction sees: when the outermost transaction is rolled back, they are
  what they were when it began.
\<close>

section \<open>Transactions\<close>

datatype transaction_mode = TransactionInvalid | TransactionBegin | TransactionRollback | TransactionCommit

text \<open>A handler that works under a \<open>Transaction\<close> guard: the work may fail with the first message, the commit with the second. The
  destructor of the guard rolls back when the work has failed. Whether the transaction could be begun is not looked at: \<open>beginOk\<close> decides only what
  the end of the guard does.\<close>

definition in_transaction :: "outside \<Rightarrow> bool \<Rightarrow> bool \<Rightarrow> string \<Rightarrow> string \<Rightarrow> (collector \<Rightarrow> (bool \<times> collector) option) \<Rightarrow> collector
    \<Rightarrow> (unit handled \<times> collector) option" where
  "in_transaction out beginOk commitOk failed notCommitted work s0 =
     (case work (txn out (Begin beginOk) s0) of
        None \<Rightarrow> None
      | Some (False, s) \<Rightarrow> Some (Inl failed, rollback_to out (tabs s0) s)
      | Some (True, s) \<Rightarrow>
          Some (if fst (commitTransaction commitOk (db s)) then Inr () else Inl notCommitted, commit_to out commitOk (tabs s0) s))"

text \<open>\<open>TransactionHandler\<close>; \<open>ok\<close> says whether the driver succeeds.\<close>

definition transaction_handler :: "outside \<Rightarrow> bool \<Rightarrow> transaction_mode \<Rightarrow> collector \<Rightarrow> unit handled \<times> collector" where
  "transaction_handler out ok mode s =
     (case mode of
        TransactionInvalid \<Rightarrow> (Inl ''Invalid operation'', s)
      | TransactionBegin \<Rightarrow>
          (if fst (beginTransaction ok (db s)) then (Inr (), txn out (Begin ok) s)
           else (Inl ''Unable to begin transaction.'', txn out (Begin ok) s))
      | TransactionRollback \<Rightarrow>
          (if \<not> inTransaction (db s) then (Inl ''There is no transaction in progress.'', s)
           else if fst (rollbackTransaction (db s)) then (Inr (), txn out Rollback s)
           else (Inl ''Unable to roll back transaction.'', txn out Rollback s))
      | TransactionCommit \<Rightarrow>
          (if \<not> inTransaction (db s) then (Inl ''There is no transaction in progress.'', s)
           else if fst (commitTransaction ok (db s)) then (Inr (), txn out (Commit ok) s)
           else (Inl ''Unable to commit transaction.'', txn out (Commit ok) s)))"

section \<open>Moving and removing collections\<close>

definition isRootCollection :: "scope_sel \<Rightarrow> bool" where
  "isRootCollection sc \<longleftrightarrow> sc = ScopeUid [0]"

definition move_scope_ok :: "scope_sel \<Rightarrow> bool" where
  "move_scope_ok sc = (case sc of ScopeUid _ \<Rightarrow> True | ScopeHRid _ \<Rightarrow> True | _ \<Rightarrow> False)"

text \<open>\<open>CollectionMoveHandler::parseStream\<close>. The item retriever, which may fail with a message, is run before the transaction; inhibiting the
  cache cleaner meanwhile is left out.\<close>

definition collection_move_handler :: "outside \<Rightarrow> (collection_query \<Rightarrow> bool) \<Rightarrow> bool \<Rightarrow> bool \<Rightarrow> bool \<Rightarrow> string option \<Rightarrow> int \<Rightarrow> scope_sel \<Rightarrow> scope_sel
    \<Rightarrow> command_context \<Rightarrow> collector \<Rightarrow> (unit handled \<times> collector) option" where
  "collection_move_handler out ok selectOk beginOk commitOk retrieverError now sc dest ctx s =
     (case collectionFromScope selectOk (tabs s) sc ctx of
        Inl e \<Rightarrow> Some (Inl e, s)
      | Inr src \<Rightarrow>
          (if \<not> entity_isValid (col_id src) then Some (Inl ''Invalid collection to move'', s)
           else if \<not> move_scope_ok dest then Some (Inl ''Only UID and HRID-based move destination are supported'', s)
           else
             (case (if isRootCollection dest then Inr (row_new\<lparr>col_id := 0\<rparr>) else collectionFromScope selectOk (tabs s) dest ctx) of
                Inl e \<Rightarrow> Some (Inl e, s)
              | Inr target \<Rightarrow>
                  (if \<not> entity_isValid (col_id target) then Some (Inl ''Invalid destination collection'', s)
                   else if col_parentId src = col_id target then Some (Inr (), s)
                   else
                     (case retrieverError of
                        Some e \<Rightarrow> Some (Inl e, s)
                      | None \<Rightarrow> 
                          in_transaction out beginOk commitOk ''Unable to reparent collection'' ''Cannot commit transaction.''
                            (moveCollection out ok now src target) s)))))"

text \<open>\<open>CollectionDeleteHandler::parseStream\<close>.\<close>

definition collection_delete_handler :: "outside \<Rightarrow> (collection_query \<Rightarrow> bool) \<Rightarrow> bool \<Rightarrow> bool \<Rightarrow> bool \<Rightarrow> scope_sel \<Rightarrow> command_context \<Rightarrow> collector
    \<Rightarrow> (unit handled \<times> collector) option" where
  "collection_delete_handler out ok selectOk beginOk commitOk sc ctx s =
     (case collectionFromScope selectOk (tabs s) sc ctx of
        Inl e \<Rightarrow> Some (Inl e, s)
      | Inr c \<Rightarrow>
          (if \<not> entity_isValid (col_id c) then Some (Inl ''No such collection.'', s)
           else if resource_name (tabs s) c = ''akonadi_search_resource'' \<and> col_parentId c = 0
             then Some (Inl ''Cannot delete virtual root collection'', s)
           else
             in_transaction out beginOk commitOk ''Unable to delete collection'' ''Unable to commit transaction''
               (deleteRecursive (length (t_collections (tabs s)) + 1) out ok c) s))"

section \<open>Work in a transaction\<close>

text \<open>Work that, at a level above the outermost, leaves the level as it was and only queues notifications.\<close>

definition works_inside :: "(collector \<Rightarrow> (bool \<times> collector) option) \<Rightarrow> bool" where
  "works_inside work \<longleftrightarrow> (\<forall>k s b s'. at_level (Suc k) s \<longrightarrow> work s = Some (b, s') \<longrightarrow> (\<exists>ms. queued s s' ms))"

lemma works_insideD: "works_inside work \<Longrightarrow> at_level (Suc k) s \<Longrightarrow> work s = Some (b, s') \<Longrightarrow> \<exists>ms. queued s s' ms"
  unfolding works_inside_def by blast

lemma queued_level: "queued s s' ms \<Longrightarrow> at_level k s' = at_level k s"
  by (simp add: queued_def at_level_def)

lemma level_inside: "at_level (Suc k) s \<Longrightarrow> inTransaction (db s)"
  by (simp add: at_level_def inTransaction_def)

lemma at_level_tabs [simp]: "at_level k (s\<lparr>tabs := t\<rparr>) = at_level k s"
  by (simp add: at_level_def)

lemma queued_tabs [simp]: "queued s (s\<lparr>tabs := t\<rparr>) []"
  by (simp add: queued_def)

lemma nested_rollback:
  assumes "at_level (Suc k) s"
  shows "rollback_to out t' ((txn out (Begin b) s)\<lparr>tabs := t\<rparr>) = s\<lparr>tabs := t\<rparr>" "rollback_to out t' (txn out (Begin b) s) = s"
proof -
  have "(db s)\<lparr>m_transactionLevel := Suc k\<rparr> = db s" using assms by (cases "db s") (simp add: at_level_def)
  then show "rollback_to out t' ((txn out (Begin b) s)\<lparr>tabs := t\<rparr>) = s\<lparr>tabs := t\<rparr>" "rollback_to out t' (txn out (Begin b) s) = s"
    using assms by (cases s; simp add: rollback_to_def txn_def txn_defs at_level_def)+
qed

lemma nested_set_resource:
  assumes "at_level (Suc k) s"
  shows "recursiveSetResourceId (Suc n) out ok now res c s =
    (if \<not> ok (UpdateChildren c) then Some (False, s)
     else if \<not> ok (UpdateItems c) then Some (False, s\<lparr>tabs := reset_children res c (tabs s)\<rparr>)
     else set_children n out ok now res (child_ids (reset_subtree now res {c} (tabs s)) c) (s\<lparr>tabs := reset_subtree now res {c} (tabs s)\<rparr>))"
  using nested_txn [OF assms] nested_rollback [OF assms] by (simp add: Let_def reset_one)

lemma set_resource_inside:
  "at_level (Suc k) s \<Longrightarrow> recursiveSetResourceId n out ok now res c s = Some (b, s') \<Longrightarrow> queued s s' []"
proof (induction n arbitrary: c s b s')
  case (Suc n)
  have list: "at_level (Suc k) u \<Longrightarrow> set_children n out ok now res cs u = Some (b, s') \<Longrightarrow> queued u s' []" for cs u b s'
  proof (induction cs arbitrary: u)
    case Nil
    then show ?case by (auto simp: queued_def)
  next
    case (Cons e cs)
    then obtain b1 u1 where u1: "recursiveSetResourceId n out ok now res e u = Some (b1, u1)" by (auto split: option.splits)
    then have q: "queued u u1 []" using Suc.IH [OF Cons.prems(1)] by blast
    then show ?case using Cons.IH [of u1] Cons.prems u1 queued_level [OF q] queued_trans [OF q, of s' "[]"]
      by (auto split: bool.splits)
  qed
  let ?u = "s\<lparr>tabs := reset_subtree now res {c} (tabs s)\<rparr>"
  have "queued ?u s' [] \<Longrightarrow> queued s s' []" by (simp add: queued_def)
  then show ?case using Suc.prems(2) list [of ?u] Suc.prems(1) unfolding nested_set_resource [OF Suc.prems(1)]
    by (auto simp: queued_def split: if_splits)
qed simp

lemma move_works_inside: "works_inside (moveCollection out ok now c p)"
  unfolding works_inside_def
proof (intro allI impI)
  fix k s b s' assume level: "at_level (Suc k) s" and m: "moveCollection out ok now c p s = Some (b, s')"
  have report: "\<exists>ms. queued s (collectionMoved out c' src r r' (u\<lparr>tabs := t\<rparr>)) ms" if "queued s u []" for c' src r r' u t
  proof -
    have "queued s (u\<lparr>tabs := t\<rparr>) []" using that by (simp add: queued_def)
    moreover have "inTransaction (db (u\<lparr>tabs := t\<rparr>))" using queued_inside [OF that level_inside [OF level]] by simp
    ultimately show ?thesis using collection_moved.queues queued_trans by blast
  qed
  have "queued s s []" by (simp add: queued_def)
  then show "\<exists>ms. queued s s' ms" using m set_resource_inside [OF level] report
    by (auto simp: moveCollection_def Let_def simp del: recursiveSetResourceId.simps split: if_splits option.splits prod.splits bool.splits)
      blast+
qed

lemma cleanup_inside:
  assumes "at_level (Suc k) s" and "cleanupCollection out ok c s = (b, s')"
  shows "\<exists>ms. queued s s' ms"
proof -
  let ?u = "itemsRemoved out (filter (\<lambda>i. item_collectionId i = col_id c) (t_items (tabs s))) c (resource_name (tabs s) c) s"
  obtain ms where u: "queued s ?u ms" using items_removed.queues [OF level_inside [OF assms(1)]] by blast
  then obtain ns where v: "queued s (collectionRemoved out c [] ?u) ns"
    using collection_removed.queues [OF queued_inside [OF u level_inside [OF assms(1)]]] queued_trans by blast
  then have "queued s ((collectionRemoved out c [] ?u)\<lparr>tabs := t\<rparr>) ns" for t by (simp add: queued_def)
  then show ?thesis using assms(2) u v by (auto simp: cleanupCollection_def Let_def split: if_splits)
qed

lemma delete_inside:
  "at_level (Suc k) s \<Longrightarrow> deleteRecursive n out ok c s = Some (b, s') \<Longrightarrow> \<exists>ms. queued s s' ms"
proof (induction n arbitrary: c s b s')
  case (Suc n)
  have list: "at_level (Suc k) u \<Longrightarrow> delete_children n out ok ds u = Some (b, s') \<Longrightarrow> \<exists>ms. queued u s' ms" for ds u b s'
  proof (induction ds arbitrary: u)
    case Nil
    then have "queued u s' []" by (simp add: queued_def)
    then show ?case by blast
  next
    case (Cons d ds)
    then obtain b1 u1 where u1: "deleteRecursive n out ok d u = Some (b1, u1)" by (auto split: option.splits)
    then obtain ms where q: "queued u u1 ms" using Suc.IH [OF Cons.prems(1)] by blast
    show ?case
    proof (cases b1)
      case True
      then obtain ns where "queued u1 s' ns" using Cons.IH [of u1] Cons.prems u1 queued_level [OF q] by auto
      then show ?thesis using queued_trans [OF q] by blast
    next
      case False
      then show ?thesis using Cons.prems(2) u1 q by auto
    qed
  qed
  obtain b1 u1 where u1: "delete_children n out ok (filter (\<lambda>d. col_parentId d = col_id c) (t_collections (tabs s))) s = Some (b1, u1)"
    using Suc.prems(2) by (auto split: option.splits)
  then obtain ms where q: "queued s u1 ms" using list [OF Suc.prems(1)] by blast
  show ?case
  proof (cases b1)
    case True
    then obtain ns where "queued u1 s' ns" using cleanup_inside [of k u1 out ok c b s'] Suc.prems u1 queued_level [OF q] by auto
    then show ?thesis using queued_trans [OF q] by blast
  next
    case False
    then show ?thesis using Suc.prems(2) u1 q by auto
  qed
qed simp

lemma delete_works_inside: "works_inside (deleteRecursive n out ok c)"
  unfolding works_inside_def using delete_inside by blast

section \<open>Failure\<close>

lemma commit_succeeds: "m_dbOpened d \<Longrightarrow> 0 < m_transactionLevel d \<Longrightarrow> \<not> m_transactionKilledByDB d \<Longrightarrow> fst (commitTransaction True d)"
  by (simp add: commitTransaction_def Let_def)

lemma undone:
  assumes "at_level (Suc 0) u" and "\<not> mIgnoreTransactions u" and "v = rollback_to out t u \<or> v = commit_to out False t u"
  shows "at_level 0 v \<and> tabs v = t \<and> notified v = notified u \<and> mNotifications v = []"
  using assms by (auto simp: rollback_to_def commit_to_def txn_def txn_defs at_level_def rolled_back_def collector_clear_def Let_def)

lemma failed_transaction:
  assumes "works_inside work" and "at_level 0 s" and "\<not> mIgnoreTransactions s"
    and "in_transaction out True commitOk failed notCommitted work s = Some (Inl e, s')"
  shows "at_level 0 s' \<and> tabs s' = tabs s \<and> notified s' = notified s \<and> mNotifications s' = []"
proof -
  define d where "d = (db s)\<lparr>m_transactionKilledByDB := False, driver := driver (db s) @ [DriverBegin], m_transactionLevel := Suc 0\<rparr>"
  have begun: "txn out (Begin True) s = s\<lparr>db := d\<rparr>" using assms(2) by (simp add: txn_def txn_defs at_level_def d_def)
  have d: "at_level (Suc 0) (s\<lparr>db := d\<rparr>)" using assms(2) by (simp add: at_level_def d_def)
  obtain b u where u: "work (s\<lparr>db := d\<rparr>) = Some (b, u)"
    using assms(4) unfolding in_transaction_def begun by (auto split: option.splits)
  obtain ms where q: "queued (s\<lparr>db := d\<rparr>) u ms" using works_insideD [OF assms(1) d u] by blast
  then have level: "at_level (Suc 0) u" and same: "notified u = notified s" "\<not> mIgnoreTransactions u"
    using queued_level [OF q] d assms(3) by (simp_all add: queued_def)
  have "s' = rollback_to out (tabs s) u \<or> s' = commit_to out False (tabs s) u"
  proof (cases b)
    case True
    have "\<not> commitOk"
    proof
      assume "commitOk"
      then have "fst (commitTransaction commitOk (db u))" using level commit_succeeds by (simp add: at_level_def)
      then show False using assms(4) True u unfolding in_transaction_def begun by simp
    qed
    then show ?thesis using assms(4) True u unfolding in_transaction_def begun by simp
  next
    case False
    then show ?thesis using assms(4) u unfolding in_transaction_def begun by simp
  qed
  from undone [OF level same(2) this] show ?thesis using same(1) by simp
qed

text \<open>(C2) A command that moves or removes a collection and fails leaves no trace, when the client has no transaction of its own open and the transaction of
  the command could be begun: whichever query, retrieval or commit has failed, and however deep in the subtree, the tables are what they
  were, no transaction stays open, and no client is notified of anything.\<close>

theorem failed_command_leaves_no_trace:
  assumes "at_level 0 s" and "\<not> mIgnoreTransactions s" and "mNotifications s = []"
    and "collection_move_handler out ok selectOk True commitOk retrieverError now sc dest ctx s = Some (Inl e, s') \<or>
      collection_delete_handler out ok selectOk True commitOk sc ctx s = Some (Inl e, s')"
  shows "at_level 0 s' \<and> tabs s' = tabs s \<and> notified s' = notified s \<and> mNotifications s' = []"
proof -
  have "s' = s \<or> (\<exists>work failed notCommitted. works_inside work \<and> in_transaction out True commitOk failed notCommitted work s = Some (Inl e, s'))"
    using assms(4) move_works_inside delete_works_inside
    by (force simp: collection_move_handler_def collection_delete_handler_def split: sum.splits if_splits option.splits)
  then show ?thesis using failed_transaction assms(1-3) by blast
qed

theorem failed_command_leaves_no_trace_witness:
  "\<exists>s'. collection_delete_handler sample_out (\<lambda>q. q \<noteq> DeleteCollection 7) True True True (ScopeUid [2]) context_new sample_collector =
       Some (Inl ''Unable to delete collection'', s') \<and> tabs s' = sample_tables \<and> notified s' = [] \<and> at_level 0 s'"
proof -
  let ?s = "txn sample_out (Begin True) sample_collector" and ?ok = "\<lambda>q. q \<noteq> DeleteCollection 7"
  have s: "tabs ?s = sample_tables" "tabs sample_collector = sample_tables" by (simp_all add: txn_def txn_defs sample_collector_def)
  have kids: "filter (\<lambda>d. col_parentId d = col_id sample_mail) (t_collections sample_tables) = [sample_inbox]"
    "filter (\<lambda>d. col_parentId d = col_id sample_inbox) (t_collections sample_tables) = []"
    "length (t_collections sample_tables) + 1 = Suc (Suc (Suc 0))" by (simp_all add: sample_defs)
  obtain u where "cleanupCollection sample_out ?ok sample_inbox ?s = (False, u)"
    by (simp add: cleanupCollection_def Let_def sample_inbox_def)
  then have "deleteRecursive (length (t_collections sample_tables) + 1) sample_out ?ok sample_mail ?s = Some (False, u)"
    unfolding kids(3) by (simp add: s kids)
  moreover have "collectionFromScope True sample_tables (ScopeUid [2]) context_new = Inr sample_mail" by code_simp
  moreover have "col_id sample_mail = 2" "resource_name sample_tables sample_mail = []" by (simp_all add: sample_mail_def sample_tables_def empty_tables_def resource_name_def)
  ultimately obtain s' where s': "collection_delete_handler sample_out ?ok True True True (ScopeUid [2]) context_new sample_collector =
      Some (Inl ''Unable to delete collection'', s')"
    by (simp add: collection_delete_handler_def in_transaction_def s entity_isValid_def)
  have "at_level 0 sample_collector" "\<not> mIgnoreTransactions sample_collector" "mNotifications sample_collector = []"
    "notified sample_collector = []" by (simp_all add: at_level_def sample_collector_def)
  then show ?thesis using failed_command_leaves_no_trace [of sample_collector, OF _ _ _ disjI2, OF _ _ _ s'] s' s(2) by simp
qed

text \<open>When the transaction cannot be begun nobody notices until the commit: the collection is gone and the clients have been told, but the command is
  answered with an error.\<close>

lemma unbegun_transaction_leaves_traces:
  "case collection_delete_handler sample_out (\<lambda>_. True) True False True (ScopeUid [7]) context_new sample_collector of
     None \<Rightarrow> False
   | Some (r, s) \<Rightarrow> r = Inl ''Unable to commit transaction'' \<and> map col_id (t_collections (tabs s)) = [2] \<and> length (notified s) = 1"
  by code_simp

end
