(* ===== verification/ItemSync.thy ===== *)
theory ItemSync
  imports Transition Prelude
begin

text \<open>
  \<open>src/core/itemsync.cpp\<close>: the job with which a resource brings the items of a collection in line with its backend. The items are
  delivered in pieces, processed in batches of jobs under a \<open>TransactionSequence\<close>, and the job ends when everything is
  processed and committed. \<open>checkDone\<close> and \<open>execute\<close> call each other, and a \<open>TransactionSequence\<close> that never got a job emits
  its result inside of \<open>commit\<close>, so \<open>checkDone\<close> takes fuel for the depth of these calls; \<open>None\<close> means that it was not enough. The
  slots that others connect to the signals are taken to run later.
\<close>

section \<open>State\<close>

datatype transaction_mode = SingleTransaction | MultipleTransactions | NoTransaction

datatype merge_mode = RIDMerge | GIDMerge

datatype job_error = NoError | UserCanceled | KilledJobError | OtherError

record sync_item =
  si_id :: int
  si_remoteId :: string
  si_gid :: string
  si_modificationTime :: "int option"

text \<open>The jobs that are created: \<open>CreateJob\<close> with the item and whether it is merged by its GID.\<close>

datatype sync_job = CreateJob sync_item merge_mode | DeleteJob "sync_item list" | FetchJob

datatype sync_signal = ReadyForNextBatch int | TransactionCommittedSignal | ResultSignal

text \<open>Below the members: \<open>jobs\<close> are all jobs that were created and \<open>running\<close> those without a result, each with the transaction
  that is its parent, if any; \<open>used\<close> are the transactions that have got a job, \<open>closing\<close> those that are committing or rolling
  back, and \<open>aborting\<close> one that has an error and is killing its jobs.\<close>

record isync =
  mListedItems :: "string set"
  mTransactionMode :: transaction_mode
  mCurrentTransaction :: "nat option"
  mTransactionJobs :: int
  mRemoteItemQueue :: "sync_item list"
  mRemovedRemoteItemQueue :: "sync_item list"
  mCurrentBatchRemoteItems :: "sync_item list"
  mCurrentBatchRemovedRemoteItems :: "sync_item list"
  mItemsToDelete :: "sync_item list"
  mItemSyncStart :: "int option"
  mPendingJobs :: int
  mProgress :: int
  mTotalItems :: int
  mTotalItemsProcessed :: int
  mStreaming :: bool
  mIncremental :: bool
  mDeliveryDone :: bool
  mFinished :: bool
  mProcessingBatch :: bool
  mDisableAutomaticDeliveryDone :: bool
  mBatchSize :: int
  mMergeMode :: merge_mode
  error :: job_error
  jobs :: "sync_job list"
  running :: "(sync_job \<times> nat option) list"
  used :: "nat set"
  closing :: "nat list"
  aborting :: "nat option"
  next_transaction :: nat
  signals :: "sync_signal list"

definition isync_new :: "transaction_mode \<Rightarrow> int \<Rightarrow> merge_mode \<Rightarrow> int option \<Rightarrow> isync" where
  "isync_new mode batch merge start =
     \<lparr>mListedItems = {}, mTransactionMode = mode, mCurrentTransaction = None, mTransactionJobs = 0, mRemoteItemQueue = [],
      mRemovedRemoteItemQueue = [], mCurrentBatchRemoteItems = [], mCurrentBatchRemovedRemoteItems = [], mItemsToDelete = [],
      mItemSyncStart = start, mPendingJobs = 0, mProgress = 0, mTotalItems = -1, mTotalItemsProcessed = 0, mStreaming = False,
      mIncremental = False, mDeliveryDone = False, mFinished = False, mProcessingBatch = False,
      mDisableAutomaticDeliveryDone = False, mBatchSize = batch, mMergeMode = merge, error = NoError, jobs = [], running = [],
      used = {}, closing = [], aborting = None, next_transaction = 0, signals = []\<rparr>"

definition emit :: "sync_signal \<Rightarrow> isync \<Rightarrow> isync" where
  "emit x s = s\<lparr>signals := signals s @ [x]\<rparr>"

section \<open>Creating jobs\<close>

definition subjobParent :: "isync \<Rightarrow> nat option" where
  "subjobParent s = (if mTransactionMode s \<noteq> NoTransaction then mCurrentTransaction s else None)"

text \<open>A new job is counted and added to its parent; a transaction that has an error kills it before anybody is connected to its
  result.\<close>

definition add_job :: "sync_job \<Rightarrow> isync \<Rightarrow> isync" where
  "add_job j s =
     (let p = subjobParent s; s = s\<lparr>mPendingJobs := mPendingJobs s + 1, jobs := jobs s @ [j]\<rparr>
      in if p \<noteq> None \<and> p = aborting s then s
         else s\<lparr>running := running s @ [(j, p)], used := (case p of None \<Rightarrow> used s | Some t \<Rightarrow> insert t (used s))\<rparr>)"

definition createOrMerge :: "sync_item \<Rightarrow> isync \<Rightarrow> isync" where
  "createOrMerge item s =
     (if error s \<noteq> NoError then s
      else
        (let modified = (case mItemSyncStart s of None \<Rightarrow> item | Some t \<Rightarrow> item\<lparr>si_modificationTime := Some t\<rparr>)
         in add_job (CreateJob modified (if mMergeMode s = GIDMerge \<and> si_gid item \<noteq> [] then GIDMerge else RIDMerge)) s))"

definition allProcessed :: "isync \<Rightarrow> bool" where
  "allProcessed s \<longleftrightarrow> mDeliveryDone s \<and> mCurrentBatchRemoteItems s = [] \<and> mRemoteItemQueue s = [] \<and>
     mRemovedRemoteItemQueue s = [] \<and> mCurrentBatchRemovedRemoteItems s = []"

definition deleteItems :: "sync_item list \<Rightarrow> isync \<Rightarrow> isync" where
  "deleteItems xs s = (if error s \<noteq> NoError then s else if xs = [] then s else add_job (DeleteJob xs) s)"

definition fetchLocalItemsToDelete :: "isync \<Rightarrow> isync" where
  "fetchLocalItemsToDelete s = add_job FetchJob s"

definition requestTransaction :: "isync \<Rightarrow> isync" where
  "requestTransaction s =
     (if mCurrentTransaction s = None
      then s\<lparr>mTransactionJobs := mTransactionJobs s + 1, mCurrentTransaction := Some (next_transaction s),
             next_transaction := Suc (next_transaction s)\<rparr>
      else s)"

text \<open>The loop of \<open>processItems\<close>.\<close>

definition process_item :: "sync_item \<Rightarrow> isync \<Rightarrow> isync" where
  "process_item item s =
     (if si_remoteId item = [] then s
      else createOrMerge item (if \<not> mIncremental s then s\<lparr>mListedItems := insert (si_remoteId item) (mListedItems s)\<rparr> else s))"

definition processItems :: "isync \<Rightarrow> isync" where
  "processItems s = (fold process_item (mCurrentBatchRemoteItems s) s)\<lparr>mCurrentBatchRemoteItems := []\<rparr>"

section \<open>Batches\<close>

text \<open>The functions that call \<open>checkDone\<close> have it as their argument \<open>check\<close>.\<close>

definition processBatch :: "(isync \<Rightarrow> isync option) \<Rightarrow> isync \<Rightarrow> isync option" where
  "processBatch check s =
     (if mCurrentBatchRemoteItems s = [] \<and> \<not> mDeliveryDone s then Some s
      else if error s = UserCanceled then check s
      else
        (let s = processItems (requestTransaction s)
         in check (if \<not> mIncremental s \<and> allProcessed s then fetchLocalItemsToDelete s
                   else (deleteItems (mCurrentBatchRemovedRemoteItems s) s)\<lparr>mCurrentBatchRemovedRemoteItems := []\<rparr>)))"

definition execute :: "(isync \<Rightarrow> isync option) \<Rightarrow> isync \<Rightarrow> isync option" where
  "execute check s =
     (if mFinished s then Some s
      else if \<not> mProcessingBatch s then
        (if int (length (mRemoteItemQueue s)) \<ge> mBatchSize s \<or> mDeliveryDone s then
           (let num = nat (min (mBatchSize s) (int (length (mRemoteItemQueue s))))
            in processBatch check
                 (s\<lparr>mCurrentBatchRemoteItems := mCurrentBatchRemoteItems s @ take num (mRemoteItemQueue s),
                    mRemoteItemQueue := drop num (mRemoteItemQueue s),
                    mCurrentBatchRemovedRemoteItems := mCurrentBatchRemovedRemoteItems s @ mRemovedRemoteItemQueue s,
                    mRemovedRemoteItemQueue := [], mProcessingBatch := True\<rparr>))
         else Some s)
      else check s)"

definition slotTransactionResult :: "(isync \<Rightarrow> isync option) \<Rightarrow> nat \<Rightarrow> isync \<Rightarrow> isync option" where
  "slotTransactionResult check t s =
     check (s\<lparr>mTransactionJobs := mTransactionJobs s - 1, closing := removeAll t (closing s),
              mCurrentTransaction := (if mCurrentTransaction s = Some t then None else mCurrentTransaction s)\<rparr>)"

text \<open>The commit in \<open>checkDone\<close>: a transaction that never got a job emits its result at once; one that is rolling back already ignores
  the call.\<close>

definition commit_current :: "(isync \<Rightarrow> isync option) \<Rightarrow> isync \<Rightarrow> isync option" where
  "commit_current check s =
     (case mCurrentTransaction s of
        None \<Rightarrow> Some s
      | Some t \<Rightarrow>
          (let s = emit TransactionCommittedSignal s
           in if t \<notin> used s
              then (case slotTransactionResult check t s of None \<Rightarrow> None | Some s \<Rightarrow> Some (s\<lparr>mCurrentTransaction := None\<rparr>))
              else Some (s\<lparr>closing := List.insert t (closing s), mCurrentTransaction := None\<rparr>)))"

fun checkDone :: "nat \<Rightarrow> isync \<Rightarrow> isync option" where
  "checkDone 0 s = None"
| "checkDone (Suc n) s =
     (if mPendingJobs s > 0 then Some s
      else if mTransactionJobs s > 0 \<and> (mTransactionMode s = MultipleTransactions \<or> mDeliveryDone s \<and> mRemoteItemQueue s = [])
      then commit_current (checkDone n) s
      else
        (let s = s\<lparr>mProcessingBatch := False\<rparr>
         in if error s = UserCanceled \<and> mTransactionJobs s = 0 \<and> \<not> mFinished s then Some (emit ResultSignal (s\<lparr>mFinished := True\<rparr>))
            else if mRemoteItemQueue s \<noteq> [] then
              (case execute (checkDone n) s of
                 None \<Rightarrow> None
               | Some s \<Rightarrow> Some (if \<not> mProcessingBatch s
                               then emit (ReadyForNextBatch (mBatchSize s - int (length (mRemoteItemQueue s)))) s else s))
            else
              (let s = emit (ReadyForNextBatch (mBatchSize s)) s
               in Some (if allProcessed s \<and> \<not> mFinished s then emit ResultSignal (s\<lparr>mFinished := True\<rparr>) else s))))"

section \<open>Deliveries\<close>

text \<open>What \<open>setFullSyncItems\<close> and \<open>setIncrementalSyncItems\<close> do before \<open>execute\<close>.\<close>

definition enqueue :: "sync_item list \<Rightarrow> sync_item list \<Rightarrow> isync \<Rightarrow> isync" where
  "enqueue changed removed s =
     (let s = (if \<not> mStreaming s then s\<lparr>mDeliveryDone := True\<rparr> else s);
          s = s\<lparr>mRemoteItemQueue := mRemoteItemQueue s @ changed, mRemovedRemoteItemQueue := mRemovedRemoteItemQueue s @ removed,
                mTotalItemsProcessed := mTotalItemsProcessed s + int (length changed) + int (length removed)\<rparr>
      in if \<not> mDisableAutomaticDeliveryDone s \<and> mTotalItemsProcessed s = mTotalItems s then s\<lparr>mDeliveryDone := True\<rparr> else s)"

definition setFullSyncItems :: "nat \<Rightarrow> sync_item list \<Rightarrow> isync \<Rightarrow> isync option" where
  "setFullSyncItems n items s = execute (checkDone n) (enqueue items [] s)"

definition setTotalItems :: "nat \<Rightarrow> int \<Rightarrow> isync \<Rightarrow> isync option" where
  "setTotalItems n amount s =
     (let s = s\<lparr>mStreaming := True, mTotalItems := amount\<rparr>
      in if \<not> mDisableAutomaticDeliveryDone s \<and> mTotalItems s = 0 then execute (checkDone n) (s\<lparr>mDeliveryDone := True\<rparr>)
         else Some s)"

definition setDisableAutomaticDeliveryDone :: "bool \<Rightarrow> isync \<Rightarrow> isync" where
  "setDisableAutomaticDeliveryDone b s = s\<lparr>mDisableAutomaticDeliveryDone := b\<rparr>"

definition setStreamingEnabled :: "bool \<Rightarrow> isync \<Rightarrow> isync" where
  "setStreamingEnabled b s = s\<lparr>mStreaming := b\<rparr>"

definition setIncrementalSyncItems :: "nat \<Rightarrow> sync_item list \<Rightarrow> sync_item list \<Rightarrow> isync \<Rightarrow> isync option" where
  "setIncrementalSyncItems n changed removed s = execute (checkDone n) (enqueue changed removed (s\<lparr>mIncremental := True\<rparr>))"

definition deliveryDone :: "nat \<Rightarrow> isync \<Rightarrow> isync option" where
  "deliveryDone n s = execute (checkDone n) (s\<lparr>mDeliveryDone := True\<rparr>)"

section \<open>Results of the jobs\<close>

definition slotItemsReceived :: "sync_item list \<Rightarrow> isync \<Rightarrow> isync" where
  "slotItemsReceived items s =
     s\<lparr>mItemsToDelete := mItemsToDelete s @
        map (\<lambda>i. \<lparr>si_id = si_id i, si_remoteId = [], si_gid = [], si_modificationTime = None\<rparr>)
          (filter (\<lambda>i. si_remoteId i \<noteq> [] \<and> si_remoteId i \<notin> mListedItems s) items)\<rparr>"

definition slotLocalListDone :: "nat \<Rightarrow> isync \<Rightarrow> isync option" where
  "slotLocalListDone n s =
     (let s = s\<lparr>mPendingJobs := mPendingJobs s - 1\<rparr> in checkDone n (deleteItems (mItemsToDelete s) s))"

definition slotLocalDeleteDone :: "nat \<Rightarrow> isync \<Rightarrow> isync option" where
  "slotLocalDeleteDone n s = checkDone n (s\<lparr>mPendingJobs := mPendingJobs s - 1, mProgress := mProgress s + 1\<rparr>)"

definition slotLocalChangeDone :: "nat \<Rightarrow> job_error \<Rightarrow> isync \<Rightarrow> isync option" where
  "slotLocalChangeDone n err s =
     (let s = (if err \<noteq> NoError \<and> err \<noteq> KilledJobError then s\<lparr>mRemoteItemQueue := []\<rparr> else s)
      in checkDone n (s\<lparr>mPendingJobs := mPendingJobs s - 1, mProgress := mProgress s + 1\<rparr>))"

text \<open>\<open>ItemSync::slotResult\<close> for a subjob that fails.\<close>

definition propagate_error :: "job_error \<Rightarrow> isync \<Rightarrow> isync" where
  "propagate_error err s = (if err \<noteq> NoError \<and> error s = NoError then s\<lparr>error := err\<rparr> else s)"

text \<open>The slot that is connected to the result of a job.\<close>

definition job_slot :: "nat \<Rightarrow> sync_job \<Rightarrow> job_error \<Rightarrow> isync \<Rightarrow> isync option" where
  "job_slot n j err s =
     (case j of
        CreateJob _ _ \<Rightarrow> slotLocalChangeDone n err s
      | DeleteJob _ \<Rightarrow> slotLocalDeleteDone n s
      | FetchJob \<Rightarrow> slotLocalListDone n s)"

text \<open>A transaction kills its jobs: their results reach the slots one after the other.\<close>

fun kill_jobs :: "nat \<Rightarrow> (sync_job \<times> nat option) list \<Rightarrow> isync \<Rightarrow> isync option" where
  "kill_jobs n [] s = Some s"
| "kill_jobs n (j # js) s =
     (case job_slot n (fst j) KilledJobError (s\<lparr>running := remove1 j (running s)\<rparr>) of
        None \<Rightarrow> None
      | Some s \<Rightarrow> kill_jobs n js s)"

definition is_delete :: "sync_job \<Rightarrow> bool" where
  "is_delete j = (case j of DeleteJob _ \<Rightarrow> True | _ \<Rightarrow> False)"

text \<open>The result of a job: without a transaction, \<open>ItemSync\<close> takes over the error. In a transaction, the failure of a job that is not to be
  ignored kills the other jobs and starts the rollback (\<open>TransactionSequence::slotResult\<close>).\<close>

definition job_result :: "nat \<Rightarrow> sync_job \<times> nat option \<Rightarrow> job_error \<Rightarrow> isync \<Rightarrow> isync option" where
  "job_result n j err s =
     (let s = s\<lparr>running := remove1 j (running s)\<rparr>
      in case snd j of
           None \<Rightarrow> job_slot n (fst j) err (propagate_error err s)
         | Some t \<Rightarrow>
             (if err = NoError \<or> err = KilledJobError \<or> is_delete (fst j) then job_slot n (fst j) err s
              else
                (case kill_jobs n (filter (\<lambda>k. snd k = Some t) (running s)) (s\<lparr>aborting := Some t\<rparr>) of
                   None \<Rightarrow> None
                 | Some s \<Rightarrow> job_slot n (fst j) err (s\<lparr>aborting := None, closing := List.insert t (closing s)\<rparr>))))"

definition transaction_result :: "nat \<Rightarrow> nat \<Rightarrow> job_error \<Rightarrow> isync \<Rightarrow> isync option" where
  "transaction_result n t err s = slotTransactionResult (checkDone n) t (propagate_error err s)"

text \<open>\<open>ItemSync::rollback\<close> with \<open>TransactionSequence::rollback\<close>; \<open>kept\<close> is the job that runs and is not killed.\<close>

definition sync_rollback :: "nat \<Rightarrow> (sync_job \<times> nat option) option \<Rightarrow> isync \<Rightarrow> isync option" where
  "sync_rollback n kept s =
     (let s = s\<lparr>error := UserCanceled\<rparr>;
          r = (case mCurrentTransaction s of
                 None \<Rightarrow> Some s
               | Some t \<Rightarrow>
                   (if t \<notin> used s then slotTransactionResult (checkDone n) t s
                    else
                      (case kill_jobs n (filter (\<lambda>k. snd k = Some t \<and> Some k \<noteq> kept) (running s)) (s\<lparr>aborting := Some t\<rparr>) of
                         None \<Rightarrow> None
                       | Some s \<Rightarrow> Some (s\<lparr>aborting := None, closing := List.insert t (closing s)\<rparr>))))
      in case r of None \<Rightarrow> None | Some s \<Rightarrow> execute (checkDone n) (s\<lparr>mDeliveryDone := True\<rparr>))"

section \<open>Runs\<close>

datatype sync_op = FullItems "sync_item list" | Incremental "sync_item list" "sync_item list" | TotalItems int | Streaming bool
  | DeliveryDone | LocalItems "sync_item list" | JobDone "sync_job \<times> nat option" job_error | TransactionDone nat job_error
  | RollBack "(sync_job \<times> nat option) option"

text \<open>The operations as one function. A job has one result, and so has a transaction that is being closed. Nothing is delivered after the
  end of the delivery.\<close>

inductive sync_step :: "isync \<Rightarrow> sync_op \<Rightarrow> isync \<Rightarrow> bool" where
  full: "\<not> mDeliveryDone s \<Longrightarrow> \<not> mIncremental s \<Longrightarrow> setFullSyncItems n xs s = Some t \<Longrightarrow> sync_step s (FullItems xs) t"
| incremental: "\<not> mDeliveryDone s \<Longrightarrow> setIncrementalSyncItems n xs ys s = Some t \<Longrightarrow> sync_step s (Incremental xs ys) t"
| total: "\<not> mDeliveryDone s \<Longrightarrow> 0 \<le> k \<Longrightarrow> setTotalItems n k s = Some t \<Longrightarrow> sync_step s (TotalItems k) t"
| streaming: "sync_step s (Streaming b) (setStreamingEnabled b s)"
| delivery_done: "mStreaming s \<Longrightarrow> deliveryDone n s = Some t \<Longrightarrow> sync_step s DeliveryDone t"
| local_items: "(FetchJob, p) \<in> set (running s) \<Longrightarrow> sync_step s (LocalItems xs) (slotItemsReceived xs s)"
| job_done: "j \<in> set (running s) \<Longrightarrow> job_result n j err s = Some t \<Longrightarrow> sync_step s (JobDone j err) t"
| transaction_done: "k \<in> set (closing s) \<Longrightarrow> transaction_result n k err s = Some t \<Longrightarrow> sync_step s (TransactionDone k err) t"
| rolled_back: "sync_rollback n kept s = Some t \<Longrightarrow> sync_step s (RollBack kept) t"

text \<open>The steps as a function, with fuel \<open>n\<close> for each, and a sequence of them.\<close>

definition sync_do :: "nat \<Rightarrow> sync_op \<Rightarrow> isync \<Rightarrow> isync option" where
  "sync_do n l s =
     (case l of
        FullItems xs \<Rightarrow> if \<not> mDeliveryDone s \<and> \<not> mIncremental s then setFullSyncItems n xs s else None
      | Incremental xs ys \<Rightarrow> if \<not> mDeliveryDone s then setIncrementalSyncItems n xs ys s else None
      | TotalItems k \<Rightarrow> if \<not> mDeliveryDone s \<and> 0 \<le> k then setTotalItems n k s else None
      | Streaming b \<Rightarrow> Some (setStreamingEnabled b s)
      | DeliveryDone \<Rightarrow> if mStreaming s then deliveryDone n s else None
      | LocalItems xs \<Rightarrow> if FetchJob \<in> set (map fst (running s)) then Some (slotItemsReceived xs s) else None
      | JobDone j err \<Rightarrow> if j \<in> set (running s) then job_result n j err s else None
      | TransactionDone k err \<Rightarrow> if k \<in> set (closing s) then transaction_result n k err s else None
      | RollBack kept \<Rightarrow> sync_rollback n kept s)"

fun sync_run :: "nat \<Rightarrow> sync_op list \<Rightarrow> isync \<Rightarrow> isync option" where
  "sync_run n [] s = Some s"
| "sync_run n (l # ls) s = (case sync_do n l s of None \<Rightarrow> None | Some t \<Rightarrow> sync_run n ls t)"

lemma sync_do_step: "sync_do n l s = Some t \<Longrightarrow> sync_step s l t"
  by (cases l) (auto simp: sync_do_def intro: sync_step.intros split: if_splits)

lemma sync_run_run: "sync_run n ls s = Some t \<Longrightarrow> list_all P ls \<Longrightarrow> run (\<lambda>s l t. sync_step s l t \<and> P l) s ls t"
  by (induction ls arbitrary: s) (auto intro: run.intros sync_do_step split: option.splits)

text \<open>A full synchronisation in which nothing fails.\<close>

fun plain :: "sync_op \<Rightarrow> bool" where
  "plain (Incremental xs ys) = False"
| "plain (JobDone j err) = (err = NoError)"
| "plain (TransactionDone k err) = (err = NoError)"
| "plain (RollBack kept) = False"
| "plain _ = True"

definition plain_step :: "isync \<Rightarrow> sync_op \<Rightarrow> isync \<Rightarrow> bool" where
  "plain_step s l t \<longleftrightarrow> sync_step s l t \<and> plain l"

lemma plain_step_eq: "(\<lambda>s l t. sync_step s l t \<and> plain l) = plain_step"
  by (simp add: plain_step_def [abs_def])

lemma plain_sync_run: "sync_run n ls s = Some t \<Longrightarrow> list_all plain ls \<Longrightarrow> run plain_step s ls t"
  using sync_run_run [of n ls s t plain] by (simp add: plain_step_def [abs_def])

section \<open>Termination\<close>

definition sizes_ok :: "isync \<Rightarrow> bool" where
  "sizes_ok s \<longleftrightarrow> 0 < mBatchSize s"

lemma emit_fields [simp]:
  "mBatchSize (emit x s) = mBatchSize s" "mRemoteItemQueue (emit x s) = mRemoteItemQueue s" "mCurrentTransaction (emit x s) = mCurrentTransaction s"
  "mPendingJobs (emit x s) = mPendingJobs s" "running (emit x s) = running s" "closing (emit x s) = closing s"
  "mTransactionJobs (emit x s) = mTransactionJobs s" "error (emit x s) = error s" "mFinished (emit x s) = mFinished s"
  "mTransactionMode (emit x s) = mTransactionMode s" "mDeliveryDone (emit x s) = mDeliveryDone s" "used (emit x s) = used s"
  "mIncremental (emit x s) = mIncremental s" "mProcessingBatch (emit x s) = mProcessingBatch s" "jobs (emit x s) = jobs s"
  "mCurrentBatchRemoteItems (emit x s) = mCurrentBatchRemoteItems s" "mRemovedRemoteItemQueue (emit x s) = mRemovedRemoteItemQueue s"
  "mCurrentBatchRemovedRemoteItems (emit x s) = mCurrentBatchRemovedRemoteItems s" "next_transaction (emit x s) = next_transaction s"
  "mListedItems (emit x s) = mListedItems s" "mItemsToDelete (emit x s) = mItemsToDelete s" "aborting (emit x s) = aborting s"
  "mItemSyncStart (emit x s) = mItemSyncStart s" "mMergeMode (emit x s) = mMergeMode s" "allProcessed (emit x s) = allProcessed s"
  "signals (emit x s) = signals s @ [x]"
  by (simp_all add: emit_def allProcessed_def)

lemma add_job_fields [simp]:
  "mBatchSize (add_job j s) = mBatchSize s" "mRemoteItemQueue (add_job j s) = mRemoteItemQueue s"
  "mCurrentTransaction (add_job j s) = mCurrentTransaction s" "closing (add_job j s) = closing s"
  "mTransactionJobs (add_job j s) = mTransactionJobs s" "error (add_job j s) = error s" "mFinished (add_job j s) = mFinished s"
  "mTransactionMode (add_job j s) = mTransactionMode s" "mDeliveryDone (add_job j s) = mDeliveryDone s"
  "mIncremental (add_job j s) = mIncremental s" "mProcessingBatch (add_job j s) = mProcessingBatch s" "jobs (add_job j s) = jobs s @ [j]"
  "mCurrentBatchRemoteItems (add_job j s) = mCurrentBatchRemoteItems s" "mRemovedRemoteItemQueue (add_job j s) = mRemovedRemoteItemQueue s"
  "mCurrentBatchRemovedRemoteItems (add_job j s) = mCurrentBatchRemovedRemoteItems s" "next_transaction (add_job j s) = next_transaction s"
  "mListedItems (add_job j s) = mListedItems s" "mItemsToDelete (add_job j s) = mItemsToDelete s" "aborting (add_job j s) = aborting s"
  "mItemSyncStart (add_job j s) = mItemSyncStart s" "mMergeMode (add_job j s) = mMergeMode s"
  "mPendingJobs (add_job j s) = mPendingJobs s + 1" "signals (add_job j s) = signals s"
  by (simp_all add: add_job_def Let_def)

lemma process_item_fields [simp]:
  "mBatchSize (process_item i s) = mBatchSize s" "mRemoteItemQueue (process_item i s) = mRemoteItemQueue s"
  "mCurrentTransaction (process_item i s) = mCurrentTransaction s" "closing (process_item i s) = closing s"
  "mTransactionJobs (process_item i s) = mTransactionJobs s" "error (process_item i s) = error s" "mFinished (process_item i s) = mFinished s"
  "mTransactionMode (process_item i s) = mTransactionMode s" "mDeliveryDone (process_item i s) = mDeliveryDone s"
  "mIncremental (process_item i s) = mIncremental s" "mProcessingBatch (process_item i s) = mProcessingBatch s"
  "mRemovedRemoteItemQueue (process_item i s) = mRemovedRemoteItemQueue s"
  "mCurrentBatchRemovedRemoteItems (process_item i s) = mCurrentBatchRemovedRemoteItems s" "next_transaction (process_item i s) = next_transaction s"
  "mItemsToDelete (process_item i s) = mItemsToDelete s" "aborting (process_item i s) = aborting s"
  "mItemSyncStart (process_item i s) = mItemSyncStart s" "mMergeMode (process_item i s) = mMergeMode s" "signals (process_item i s) = signals s"
  by (simp_all add: process_item_def createOrMerge_def Let_def)

lemma fold_item_fields [simp]:
  "mBatchSize (fold process_item is s) = mBatchSize s" "mRemoteItemQueue (fold process_item is s) = mRemoteItemQueue s"
  "mCurrentTransaction (fold process_item is s) = mCurrentTransaction s" "closing (fold process_item is s) = closing s"
  "mTransactionJobs (fold process_item is s) = mTransactionJobs s" "error (fold process_item is s) = error s"
  "mFinished (fold process_item is s) = mFinished s" "mTransactionMode (fold process_item is s) = mTransactionMode s"
  "mDeliveryDone (fold process_item is s) = mDeliveryDone s" "mIncremental (fold process_item is s) = mIncremental s"
  "mProcessingBatch (fold process_item is s) = mProcessingBatch s" "mRemovedRemoteItemQueue (fold process_item is s) = mRemovedRemoteItemQueue s"
  "mCurrentBatchRemovedRemoteItems (fold process_item is s) = mCurrentBatchRemovedRemoteItems s"
  "next_transaction (fold process_item is s) = next_transaction s" "mItemsToDelete (fold process_item is s) = mItemsToDelete s"
  "aborting (fold process_item is s) = aborting s" "mItemSyncStart (fold process_item is s) = mItemSyncStart s"
  "mMergeMode (fold process_item is s) = mMergeMode s" "signals (fold process_item is s) = signals s"
  by (induction "is" arbitrary: s) simp_all

text \<open>The state in which a batch ends in \<open>checkDone\<close>.\<close>

definition batch_started :: "isync \<Rightarrow> isync" where
  "batch_started s =
     (let s = processItems (requestTransaction s)
      in if \<not> mIncremental s \<and> allProcessed s then fetchLocalItemsToDelete s
         else (deleteItems (mCurrentBatchRemovedRemoteItems s) s)\<lparr>mCurrentBatchRemovedRemoteItems := []\<rparr>)"

definition next_batch :: "isync \<Rightarrow> isync" where
  "next_batch s =
     (let num = nat (min (mBatchSize s) (int (length (mRemoteItemQueue s))))
      in s\<lparr>mCurrentBatchRemoteItems := mCurrentBatchRemoteItems s @ take num (mRemoteItemQueue s),
           mRemoteItemQueue := drop num (mRemoteItemQueue s),
           mCurrentBatchRemovedRemoteItems := mCurrentBatchRemovedRemoteItems s @ mRemovedRemoteItemQueue s,
           mRemovedRemoteItemQueue := [], mProcessingBatch := True\<rparr>)"

lemma execute_eq:
  "execute check s =
     (if mFinished s then Some s
      else if mProcessingBatch s then check s
      else if int (length (mRemoteItemQueue s)) < mBatchSize s \<and> \<not> mDeliveryDone s then Some s
      else if mCurrentBatchRemoteItems (next_batch s) = [] \<and> \<not> mDeliveryDone s then Some (next_batch s)
      else if error s = UserCanceled then check (next_batch s)
      else check (batch_started (next_batch s)))"
  by (auto simp: execute_def processBatch_def next_batch_def batch_started_def Let_def)

lemma batch_started_fields [simp]:
  "mBatchSize (batch_started s) = mBatchSize s" "mRemoteItemQueue (batch_started s) = mRemoteItemQueue s"
  "mTransactionMode (batch_started s) = mTransactionMode s" "mDeliveryDone (batch_started s) = mDeliveryDone s"
  "error (batch_started s) = error s" "mFinished (batch_started s) = mFinished s" "closing (batch_started s) = closing s"
  "mIncremental (batch_started s) = mIncremental s" "mProcessingBatch (batch_started s) = mProcessingBatch s" "signals (batch_started s) = signals s"
  by (simp_all add: batch_started_def Let_def processItems_def requestTransaction_def fetchLocalItemsToDelete_def deleteItems_def)

lemma next_batch_fields [simp]:
  "mBatchSize (next_batch s) = mBatchSize s" "mTransactionMode (next_batch s) = mTransactionMode s" "mDeliveryDone (next_batch s) = mDeliveryDone s"
  "error (next_batch s) = error s" "mFinished (next_batch s) = mFinished s" "closing (next_batch s) = closing s"
  "mIncremental (next_batch s) = mIncremental s" "mProcessingBatch (next_batch s)" "mCurrentTransaction (next_batch s) = mCurrentTransaction s"
  "mTransactionJobs (next_batch s) = mTransactionJobs s" "mPendingJobs (next_batch s) = mPendingJobs s" "running (next_batch s) = running s"
  "signals (next_batch s) = signals s" "jobs (next_batch s) = jobs s" "mListedItems (next_batch s) = mListedItems s" "used (next_batch s) = used s"
  by (simp_all add: next_batch_def Let_def)

lemma next_batch_queue:
  "0 < mBatchSize s \<Longrightarrow> mRemoteItemQueue s \<noteq> [] \<Longrightarrow> length (mRemoteItemQueue (next_batch s)) < length (mRemoteItemQueue s)"
  by (cases "mRemoteItemQueue s") (auto simp: next_batch_def Let_def)

lemma checkDone_returns:
  assumes "0 < mBatchSize s" and "2 * length (mRemoteItemQueue s) + (if mCurrentTransaction s = None then 1 else 2) \<le> n"
  shows "\<exists>s'. checkDone n s = Some s'"
  using assms
proof (induction n arbitrary: s)
  case (Suc n)
  have exec: "\<exists>s'. execute (checkDone n) u = Some s'" if u: "0 < mBatchSize u" "mRemoteItemQueue u \<noteq> []" "\<not> mProcessingBatch u"
    "2 * length (mRemoteItemQueue u) \<le> n" for u
  proof -
    have "2 * length (mRemoteItemQueue (next_batch u)) + 2 \<le> n" using next_batch_queue [OF u(1, 2)] u(4) by linarith
    then have "\<exists>s'. checkDone n (next_batch u) = Some s'" "\<exists>s'. checkDone n (batch_started (next_batch u)) = Some s'"
      using Suc.IH u(1) by (auto split: if_splits)
    then show ?thesis using u(3) by (simp add: execute_eq)
  qed
  show ?case
  proof (cases "mPendingJobs s > 0 \<or> \<not> (mTransactionJobs s > 0 \<and> (mTransactionMode s = MultipleTransactions \<or> mDeliveryDone s \<and> mRemoteItemQueue s = []))")
    case True
    then show ?thesis using exec [of "s\<lparr>mProcessingBatch := False\<rparr>"] Suc.prems by (auto simp: Let_def split: if_splits)
  next
    case False
    have "\<exists>s'. commit_current (checkDone n) s = Some s'"
    proof (cases "mCurrentTransaction s")
      case (Some t)
      let ?u = "(emit TransactionCommittedSignal s)\<lparr>mTransactionJobs := mTransactionJobs s - 1, closing := removeAll t (closing s),
        mCurrentTransaction := None\<rparr>"
      have "\<exists>s'. checkDone n ?u = Some s'" using Suc.IH [of ?u] Suc.prems Some by simp
      then show ?thesis using Some by (auto simp: commit_current_def slotTransactionResult_def Let_def)
    qed (simp add: commit_current_def)
    then show ?thesis using False by simp
  qed
qed (simp split: if_splits)

section \<open>Full synchronisation\<close>

definition sync_core :: "isync \<Rightarrow> bool" where
  "sync_core s \<longleftrightarrow> 0 < mBatchSize s \<and> mTransactionMode s \<noteq> MultipleTransactions \<and> error s = NoError \<and> \<not> mIncremental s \<and>
     aborting s = None \<and> mPendingJobs s = int (length (running s)) \<and>
     mTransactionJobs s = (if mCurrentTransaction s = None then 0 else 1) + int (length (closing s)) \<and> distinct (closing s) \<and>
     (\<forall>t \<in> set (closing s). t < next_transaction s) \<and>
     (\<forall>t. mCurrentTransaction s = Some t \<longrightarrow> t < next_transaction s \<and> t \<notin> set (closing s)) \<and>
     mRemovedRemoteItemQueue s = [] \<and> mCurrentBatchRemovedRemoteItems s = []"

definition sync_inv :: "isync \<Rightarrow> bool" where
  "sync_inv s \<longleftrightarrow> sync_core s \<and> mCurrentBatchRemoteItems s = []"

definition stall_free :: "isync \<Rightarrow> bool" where
  "stall_free s \<longleftrightarrow> mFinished s \<or> 0 < mPendingJobs s \<or> closing s \<noteq> [] \<or>
     \<not> mDeliveryDone s \<and> int (length (mRemoteItemQueue s)) < mBatchSize s"

lemma sync_core_job: "sync_core s \<Longrightarrow> sync_core (add_job j s)"
  by (cases "subjobParent s") (simp_all add: sync_core_def add_job_def Let_def)

lemma sync_core_item: "sync_core s \<Longrightarrow> sync_core (process_item i s)"
proof -
  assume s: "sync_core s"
  then have "sync_core (s\<lparr>mListedItems := A\<rparr>)" for A by (simp add: sync_core_def)
  then show ?thesis using s by (simp add: process_item_def createOrMerge_def Let_def sync_core_job)
qed

lemma sync_core_items: "sync_core s \<Longrightarrow> sync_core (fold process_item is s)"
  by (induction "is" arbitrary: s) (simp_all add: sync_core_item)

lemma sync_core_request: "sync_core s \<Longrightarrow> sync_core (requestTransaction s)"
  by (auto simp: sync_core_def requestTransaction_def)

lemma batch_inv:
  assumes "sync_core s"
  shows "sync_inv (batch_started s)"
proof -
  let ?s = "processItems (requestTransaction s)"
  have "sync_core ((fold process_item (mCurrentBatchRemoteItems (requestTransaction s)) (requestTransaction s))\<lparr>mCurrentBatchRemoteItems := []\<rparr>)"
    using sync_core_items [OF sync_core_request [OF assms]] by (simp add: sync_core_def)
  then have s: "sync_core ?s" "mCurrentBatchRemoteItems ?s = []" by (simp_all add: processItems_def)
  moreover have "mCurrentBatchRemovedRemoteItems ?s = []" using s(1) by (simp add: sync_core_def)
  ultimately have "sync_core (batch_started s)"
    using sync_core_job [OF s(1)] by (simp add: batch_started_def Let_def fetchLocalItemsToDelete_def deleteItems_def sync_core_def)
  then show ?thesis using s(2) by (simp add: sync_inv_def batch_started_def Let_def fetchLocalItemsToDelete_def deleteItems_def)
qed

lemma next_core: "sync_inv s \<Longrightarrow> sync_core (next_batch s)"
  by (simp add: sync_inv_def sync_core_def next_batch_def Let_def)

lemma execute_inv:
  assumes check: "\<And>u u'. check u = Some u' \<Longrightarrow> sync_inv u \<Longrightarrow> sync_inv u' \<and> stall_free u'"
    and "execute check s = Some s'" and "sync_inv s"
  shows "sync_inv s' \<and> stall_free s'"
proof -
  have batch: "0 < mBatchSize s" "error s = NoError" using assms(3) by (simp_all add: sync_inv_def sync_core_def)
  consider "mFinished s" | "\<not> mFinished s" "mProcessingBatch s"
    | "\<not> mFinished s" "\<not> mProcessingBatch s" "int (length (mRemoteItemQueue s)) < mBatchSize s \<and> \<not> mDeliveryDone s"
    | "\<not> mFinished s" "\<not> mProcessingBatch s" "\<not> (int (length (mRemoteItemQueue s)) < mBatchSize s \<and> \<not> mDeliveryDone s)" by blast
  then show ?thesis
  proof cases
    case 4
    then have "mCurrentBatchRemoteItems (next_batch s) \<noteq> [] \<or> mDeliveryDone s"
      using batch(1) by (auto simp: next_batch_def Let_def min_def)
    then have "check (batch_started (next_batch s)) = Some s'" using 4 assms(2) batch(2) by (auto simp: execute_eq)
    then show ?thesis using check batch_inv [OF next_core [OF assms(3)]] by blast
  qed (use assms in \<open>auto simp: execute_eq stall_free_def\<close>)
qed

lemma finished_stays: "checkDone n s = Some s' \<Longrightarrow> mCurrentTransaction s = None \<Longrightarrow> mDeliveryDone s \<Longrightarrow> mRemoteItemQueue s = [] \<Longrightarrow>
    mCurrentTransaction s' = None"
  by (cases n) (auto simp: commit_current_def Let_def split: if_splits)

lemma no_more_jobs: "checkDone n s = Some s' \<Longrightarrow> mDeliveryDone s \<Longrightarrow> mRemoteItemQueue s = [] \<Longrightarrow> jobs s' = jobs s"
proof (induction n arbitrary: s s')
  case (Suc n)
  have "jobs u = jobs s" if "commit_current (checkDone n) s = Some u" for u
    using that Suc.IH Suc.prems(2, 3)
    by (auto simp: commit_current_def slotTransactionResult_def Let_def split: option.splits if_splits)
  then show ?case using Suc.prems by (auto simp: Let_def split: if_splits)
qed simp

lemma sync_inv_emit [simp]: "sync_inv (emit x s) = sync_inv s" "stall_free (emit x s) = stall_free s"
  by (simp_all add: sync_inv_def sync_core_def stall_free_def)

lemma sync_inv_flags [simp]:
  "sync_inv (s\<lparr>mProcessingBatch := b\<rparr>) = sync_inv s" "sync_inv (s\<lparr>mFinished := b\<rparr>) = sync_inv s"
  "sync_inv (s\<lparr>mDeliveryDone := b\<rparr>) = sync_inv s" "sync_inv (s\<lparr>mRemoteItemQueue := q\<rparr>) = sync_inv s"
  "sync_inv (s\<lparr>mStreaming := b\<rparr>) = sync_inv s" "sync_inv (s\<lparr>mTotalItems := k\<rparr>) = sync_inv s"
  "sync_inv (s\<lparr>mTotalItemsProcessed := k\<rparr>) = sync_inv s" "sync_inv (s\<lparr>mProgress := k\<rparr>) = sync_inv s"
  "sync_inv (s\<lparr>mItemsToDelete := xs\<rparr>) = sync_inv s"
  by (simp_all add: sync_inv_def sync_core_def)

lemma commit_inv:
  assumes check: "\<And>u u'. check u = Some u' \<Longrightarrow> sync_inv u \<Longrightarrow> sync_inv u' \<and> stall_free u'"
    and stays: "\<And>u u'. check u = Some u' \<Longrightarrow> mCurrentTransaction u = None \<Longrightarrow> mDeliveryDone u \<Longrightarrow> mRemoteItemQueue u = [] \<Longrightarrow> mCurrentTransaction u' = None"
    and s: "sync_inv s" "0 < mTransactionJobs s" "mDeliveryDone s" "mRemoteItemQueue s = []"
    and "commit_current check s = Some s'"
  shows "sync_inv s' \<and> stall_free s'"
proof (cases "mCurrentTransaction s")
  case None
  then show ?thesis using assms(7) s by (auto simp: commit_current_def stall_free_def sync_inv_def sync_core_def)
next
  case (Some t)
  show ?thesis
  proof (cases "t \<in> used s")
    case True
    then show ?thesis using Some assms(7) s(1)
      by (auto simp: commit_current_def Let_def sync_inv_def sync_core_def stall_free_def)
  next
    case False
    let ?u = "(emit TransactionCommittedSignal s)\<lparr>mTransactionJobs := mTransactionJobs s - 1, closing := removeAll t (closing s),
      mCurrentTransaction := None\<rparr>"
    have "t \<notin> set (closing s)" using s(1) Some by (simp add: sync_inv_def sync_core_def)
    then have u: "sync_inv ?u" using s(1) Some by (simp add: sync_inv_def sync_core_def)
    obtain v where v: "check ?u = Some v" "s' = v\<lparr>mCurrentTransaction := None\<rparr>"
      using Some False assms(7) by (auto simp: commit_current_def slotTransactionResult_def Let_def split: option.splits)
    have "mCurrentTransaction v = None" using stays [OF v(1)] s(3, 4) by simp
    then have "s' = v" using v(2) by simp
    then show ?thesis using check [OF v(1) u] by simp
  qed
qed

lemma checkDone_inv: "checkDone n s = Some s' \<Longrightarrow> sync_inv s \<Longrightarrow> sync_inv s' \<and> stall_free s'"
proof (induction n arbitrary: s s')
  case (Suc n)
  have mode: "mTransactionMode s \<noteq> MultipleTransactions" "0 < mBatchSize s" "error s \<noteq> UserCanceled"
    using Suc.prems(2) by (simp_all add: sync_inv_def sync_core_def)
  consider (pending) "0 < mPendingJobs s"
    | (commit) "\<not> 0 < mPendingJobs s" "0 < mTransactionJobs s" "mDeliveryDone s" "mRemoteItemQueue s = []"
    | (more) "\<not> 0 < mPendingJobs s" "\<not> (0 < mTransactionJobs s \<and> mDeliveryDone s \<and> mRemoteItemQueue s = [])" "mRemoteItemQueue s \<noteq> []"
    | (empty) "\<not> 0 < mPendingJobs s" "\<not> (0 < mTransactionJobs s \<and> mDeliveryDone s \<and> mRemoteItemQueue s = [])" "mRemoteItemQueue s = []" by blast
  then show ?case
  proof cases
    case pending
    then show ?thesis using Suc.prems by (simp add: stall_free_def)
  next
    case commit
    then have "commit_current (checkDone n) s = Some s'" using Suc.prems(1) by simp
    then show ?thesis using commit_inv [of "checkDone n" s s'] Suc.IH finished_stays [of n] Suc.prems(2) commit(2-4) by blast
  next
    case more
    then obtain u where u: "execute (checkDone n) (s\<lparr>mProcessingBatch := False\<rparr>) = Some u" and
      s': "s' = (if \<not> mProcessingBatch u then emit (ReadyForNextBatch (mBatchSize u - int (length (mRemoteItemQueue u)))) u else u)"
      using Suc.prems(1) mode by (auto simp: Let_def split: option.splits)
    have "sync_inv u \<and> stall_free u" by (rule execute_inv [OF Suc.IH u]) (use Suc.prems(2) in simp_all)
    then show ?thesis by (simp add: s')
  next
    case empty
    then show ?thesis using Suc.prems mode
      by (auto simp: Let_def stall_free_def allProcessed_def sync_inv_def sync_core_def split: if_splits)
  qed
qed simp

lemma execute_checks: "execute (checkDone n) s = Some s' \<Longrightarrow> sync_inv s \<Longrightarrow> sync_inv s' \<and> stall_free s'"
  using execute_inv [of "checkDone n"] checkDone_inv [of n] by blast

text \<open>The steps.\<close>

lemma job_slot_inv:
  assumes "sync_inv s" and "j \<in> set (running s)" and "job_slot n (fst j) NoError (s\<lparr>running := remove1 j (running s)\<rparr>) = Some s'"
  shows "sync_inv s' \<and> stall_free s'"
proof -
  let ?u = "s\<lparr>running := remove1 j (running s), mPendingJobs := mPendingJobs s - 1\<rparr>"
  have "1 \<le> length (running s)" using assms(2) by (cases "running s") auto
  then have u: "sync_inv ?u" using assms(1, 2) by (auto simp: sync_inv_def sync_core_def length_remove1)
  then have "sync_inv (deleteItems (mItemsToDelete ?u) ?u)" using sync_core_job by (auto simp: deleteItems_def sync_inv_def)
  moreover have "sync_inv (?u\<lparr>mProgress := k\<rparr>)" for k using u by simp
  ultimately show ?thesis using assms(3) checkDone_inv
    by (cases "fst j") (auto simp: job_slot_def slotLocalChangeDone_def slotLocalDeleteDone_def slotLocalListDone_def Let_def)
qed

lemma plain_step_inv: "plain_step s l t \<Longrightarrow> sync_inv s \<and> stall_free s \<Longrightarrow> sync_inv t \<and> stall_free t"
  unfolding plain_step_def
proof (elim conjE, induction rule: sync_step.induct)
  case (full s n xs t)
  have "sync_inv (enqueue xs [] s)" using full by (simp add: enqueue_def Let_def sync_inv_def sync_core_def)
  then show ?case using execute_checks [of n] full(3) by (auto simp: setFullSyncItems_def)
next
  case (total s k n t)
  show ?case
  proof (cases "\<not> mDisableAutomaticDeliveryDone s \<and> k = 0")
    case True
    have "sync_inv (s\<lparr>mStreaming := True, mTotalItems := k, mDeliveryDone := True\<rparr>)" using total by simp
    then show ?thesis using execute_checks [of n] total(3) True by (auto simp: setTotalItems_def)
  next
    case False
    then have "t = s\<lparr>mStreaming := True, mTotalItems := k\<rparr>" using total(3) by (auto simp: setTotalItems_def)
    then show ?thesis using total by (simp add: stall_free_def)
  qed
next
  case (streaming s b)
  then show ?case by (simp add: setStreamingEnabled_def stall_free_def)
next
  case (delivery_done s n t)
  have "sync_inv (s\<lparr>mDeliveryDone := True\<rparr>)" using delivery_done by simp
  then show ?case using execute_checks [of n] delivery_done(2) by (auto simp: deliveryDone_def)
next
  case (local_items p s xs)
  then show ?case by (simp add: slotItemsReceived_def stall_free_def)
next
  case (job_done j s n err t)
  then have "job_slot n (fst j) NoError (s\<lparr>running := remove1 j (running s)\<rparr>) = Some t"
    by (auto simp: job_result_def propagate_error_def Let_def split: option.splits)
  then show ?case using job_slot_inv job_done by blast
next
  case (transaction_done k s n err t)
  let ?u = "s\<lparr>mTransactionJobs := mTransactionJobs s - 1, closing := removeAll k (closing s),
    mCurrentTransaction := if mCurrentTransaction s = Some k then None else mCurrentTransaction s\<rparr>"
  have "mCurrentTransaction s \<noteq> Some k" "distinct (closing s)" using transaction_done by (auto simp: sync_inv_def sync_core_def)
  moreover have "1 \<le> length (closing s)" using transaction_done(1) by (cases "closing s") auto
  ultimately have "sync_inv ?u" using transaction_done(1, 4)
    by (auto simp: sync_inv_def sync_core_def distinct_remove1_removeAll [symmetric] length_remove1)
  moreover have "propagate_error err s = s" using transaction_done(3) by (simp add: propagate_error_def)
  then have "checkDone n ?u = Some t" using transaction_done(2) by (simp add: transaction_result_def slotTransactionResult_def)
  ultimately show ?case using checkDone_inv by blast
qed simp_all

definition sync_start :: "isync \<Rightarrow> bool" where
  "sync_start s \<longleftrightarrow> (\<exists>mode batch merge start. s = isync_new mode batch merge start \<and> mode \<noteq> MultipleTransactions \<and> 0 < batch)"

interpretation full_sync: inductive_invariant sync_start plain_step "\<lambda>s. sync_inv s \<and> stall_free s"
proof
  show "sync_start s \<Longrightarrow> sync_inv s \<and> stall_free s" for s
    by (auto simp: sync_start_def isync_new_def sync_inv_def sync_core_def stall_free_def)
qed (rule plain_step_inv)

section \<open>What checkDone preserves\<close>

text \<open>A property of the state that the primitive updates of \<open>checkDone\<close> keep is kept by \<open>checkDone\<close> and by what calls it.\<close>

locale sync_frame =
  fixes P :: "isync \<Rightarrow> bool"
  assumes keeps_emit: "P s \<Longrightarrow> x \<noteq> ResultSignal \<Longrightarrow> P (emit x s)"
    and keeps_finish: "P s \<Longrightarrow> \<not> mFinished s \<Longrightarrow> mPendingJobs s \<le> 0 \<Longrightarrow> mTransactionJobs s \<le> 0 \<Longrightarrow> error s = UserCanceled \<or> allProcessed s \<Longrightarrow>
      P (emit ResultSignal (s\<lparr>mFinished := True\<rparr>))"
    and keeps_flag: "P s \<Longrightarrow> P (s\<lparr>mProcessingBatch := False\<rparr>)"
    and keeps_commit: "P s \<Longrightarrow> P (s\<lparr>closing := ts, mCurrentTransaction := c\<rparr>)"
    and keeps_end: "P s \<Longrightarrow> 0 < mTransactionJobs s \<Longrightarrow>
      P (s\<lparr>mTransactionJobs := mTransactionJobs s - 1, closing := ts, mCurrentTransaction := c\<rparr>)"
    and keeps_next: "P s \<Longrightarrow> \<not> mFinished s \<Longrightarrow> P (next_batch s)"
    and keeps_batch: "P s \<Longrightarrow> \<not> mFinished s \<Longrightarrow> error s \<noteq> UserCanceled \<Longrightarrow> P (batch_started s)"
begin

lemma execute_keeps:
  assumes "\<And>u u'. check u = Some u' \<Longrightarrow> P u \<Longrightarrow> P u'" and "execute check s = Some s'" and "P s"
  shows "P s'"
  using assms keeps_next [OF assms(3)] keeps_batch [OF keeps_next [OF assms(3)]] by (cases "mFinished s") (auto simp: execute_eq split: if_splits)

lemma transaction_result_keeps:
  assumes "\<And>u u'. check u = Some u' \<Longrightarrow> P u \<Longrightarrow> P u'" and "slotTransactionResult check t s = Some s'" and "P s"
    and "0 < mTransactionJobs s"
  shows "P s'"
  using assms(1) [OF _ keeps_end [OF assms(3, 4)]] assms(2) unfolding slotTransactionResult_def by blast

lemma commit_keeps:
  assumes check: "\<And>u u'. check u = Some u' \<Longrightarrow> P u \<Longrightarrow> P u'" and "commit_current check s = Some s'" and "P s"
    and "0 < mTransactionJobs s"
  shows "P s'"
proof (cases "mCurrentTransaction s")
  case (Some t)
  let ?s = "emit TransactionCommittedSignal s"
  have s: "P ?s" using keeps_emit [OF assms(3)] by simp
  have "P (u\<lparr>mCurrentTransaction := None\<rparr>)" if "slotTransactionResult check t ?s = Some u" for u
  proof -
    have "P u" using transaction_result_keeps [of check, OF _ that s] check assms(4) by simp
    then show ?thesis using keeps_commit [of u None "closing u"] by simp
  qed
  then show ?thesis using keeps_commit [OF s] Some assms(2) by (auto simp: commit_current_def Let_def split: if_splits option.splits)
qed (use assms in \<open>simp add: commit_current_def\<close>)

lemma checkDone_keeps: "checkDone n s = Some s' \<Longrightarrow> P s \<Longrightarrow> P s'"
proof (induction n arbitrary: s s')
  case (Suc n)
  have e: "P u" if "execute (checkDone n) (s\<lparr>mProcessingBatch := False\<rparr>) = Some u" for u
    using execute_keeps [of "checkDone n", OF _ that keeps_flag [OF Suc.prems(2)]] Suc.IH by blast
  have c: "P u" if "commit_current (checkDone n) s = Some u" "0 < mTransactionJobs s" for u
    using commit_keeps [of "checkDone n", OF _ that(1) Suc.prems(2) that(2)] Suc.IH by blast
  have "P (emit (ReadyForNextBatch k) u)" if "P u" for k u using keeps_emit [OF that] by simp
  moreover have "P (emit ResultSignal (u\<lparr>mFinished := True\<rparr>))" if "P u" "\<not> mFinished u" "\<not> 0 < mPendingJobs u" "\<not> 0 < mTransactionJobs u"
      "error u = UserCanceled \<or> allProcessed u" for u using keeps_finish [OF that(1, 2)] that(3-5) by simp
  moreover have "allProcessed (s\<lparr>mProcessingBatch := False\<rparr>) \<Longrightarrow> mDeliveryDone s" by (simp add: allProcessed_def)
  ultimately show ?case using Suc.prems keeps_flag [OF Suc.prems(2)] e c
    by (auto simp: Let_def split: if_splits option.splits)
qed simp

lemma execute_checkDone_keeps: "execute (checkDone n) s = Some s' \<Longrightarrow> P s \<Longrightarrow> P s'"
  using execute_keeps [of "checkDone n"] checkDone_keeps by blast

end

section \<open>Accounting for the items\<close>

definition plain_item :: "sync_item \<Rightarrow> sync_item" where
  "plain_item i = i\<lparr>si_modificationTime := None\<rparr>"

definition named :: "sync_item list \<Rightarrow> sync_item list" where
  "named xs = map plain_item (filter (\<lambda>i. si_remoteId i \<noteq> []) xs)"

text \<open>The items for which a job was created.\<close>

fun created :: "sync_job list \<Rightarrow> sync_item list" where
  "created [] = []"
| "created (CreateJob i m # js) = plain_item i # created js"
| "created (j # js) = created js"

lemma adds_append [simp]: "created (xs @ ys) = created xs @ created ys"
  by (induction xs rule: created.induct) auto

lemma named_append [simp]: "named (xs @ ys) = named xs @ named ys" "named [] = []"
  by (simp_all add: named_def)

definition local_id :: "sync_item \<Rightarrow> sync_item" where
  "local_id i = \<lparr>si_id = si_id i, si_remoteId = [], si_gid = [], si_modificationTime = None\<rparr>"

text \<open>\<open>accounts D R s\<close>: the items \<open>D\<close> that were delivered are those with a job and those that wait, \<open>R\<close> are the local items that were
  received, and the local items are listed only after the last delivered item.\<close>

definition accounts :: "sync_item list \<Rightarrow> sync_item list \<Rightarrow> isync \<Rightarrow> bool" where
  "accounts D R s \<longleftrightarrow> error s = NoError \<and> \<not> mIncremental s \<and>
     created (jobs s) @ named (mCurrentBatchRemoteItems s @ mRemoteItemQueue s) = named D \<and>
     mListedItems s = si_remoteId ` set (created (jobs s)) \<and>
     mItemsToDelete s = map local_id (filter (\<lambda>i. si_remoteId i \<noteq> [] \<and> si_remoteId i \<notin> mListedItems s) R) \<and>
     (FetchJob \<in> set (jobs s) \<longrightarrow> mDeliveryDone s \<and> mRemoteItemQueue s = [] \<and> mCurrentBatchRemoteItems s = []) \<and>
     (FetchJob \<notin> set (jobs s) \<longrightarrow> R = []) \<and> mCurrentBatchRemovedRemoteItems s = [] \<and> mRemovedRemoteItemQueue s = []"

lemma process_item_account:
  assumes "error s = NoError" and "\<not> mIncremental s"
  shows "created (jobs (process_item i s)) = created (jobs s) @ named [i]"
    "mListedItems (process_item i s) = mListedItems s \<union> si_remoteId ` set (named [i])"
    "FetchJob \<in> set (jobs (process_item i s)) \<longleftrightarrow> FetchJob \<in> set (jobs s)"
  using assms by (auto simp: process_item_def createOrMerge_def named_def plain_item_def Let_def split: option.splits)

lemma fold_item_account:
  "error s = NoError \<Longrightarrow> \<not> mIncremental s \<Longrightarrow>
     created (jobs (fold process_item is s)) = created (jobs s) @ named is \<and>
     mListedItems (fold process_item is s) = mListedItems s \<union> si_remoteId ` set (named is) \<and>
     (FetchJob \<in> set (jobs (fold process_item is s)) \<longleftrightarrow> FetchJob \<in> set (jobs s))"
proof (induction "is" arbitrary: s)
  case (Cons i "is")
  then show ?case using process_item_account [of s i] named_append(1) [of "[i]" "is"] by auto
qed simp

lemma request_fields [simp]:
  "jobs (requestTransaction s) = jobs s" "mListedItems (requestTransaction s) = mListedItems s" "error (requestTransaction s) = error s"
  "mIncremental (requestTransaction s) = mIncremental s" "mRemoteItemQueue (requestTransaction s) = mRemoteItemQueue s"
  "mCurrentBatchRemoteItems (requestTransaction s) = mCurrentBatchRemoteItems s" "mItemsToDelete (requestTransaction s) = mItemsToDelete s"
  "mDeliveryDone (requestTransaction s) = mDeliveryDone s" "mRemovedRemoteItemQueue (requestTransaction s) = mRemovedRemoteItemQueue s"
  "mCurrentBatchRemovedRemoteItems (requestTransaction s) = mCurrentBatchRemovedRemoteItems s"
  by (simp_all add: requestTransaction_def)

lemma accounts_batch:
  assumes "accounts D R s"
  shows "accounts D R (batch_started s)"
proof -
  let ?b = "mCurrentBatchRemoteItems s" and ?u = "processItems (requestTransaction s)"
  have e: "error s = NoError" "\<not> mIncremental s" using assms by (simp_all add: accounts_def)
  have u: "created (jobs ?u) = created (jobs s) @ named ?b" "mListedItems ?u = mListedItems s \<union> si_remoteId ` set (named ?b)"
    "(FetchJob \<in> set (jobs ?u)) = (FetchJob \<in> set (jobs s))"
    using fold_item_account [of "requestTransaction s" ?b] e by (simp_all add: processItems_def)
  have same: "mRemoteItemQueue ?u = mRemoteItemQueue s" "mCurrentBatchRemoteItems ?u = []" "error ?u = NoError" "\<not> mIncremental ?u"
    "mItemsToDelete ?u = mItemsToDelete s" "mDeliveryDone ?u = mDeliveryDone s" "mCurrentBatchRemovedRemoteItems ?u = []"
    "mRemovedRemoteItemQueue ?u = []" using assms by (simp_all add: processItems_def accounts_def)
  have "mItemsToDelete s = map local_id (filter (\<lambda>i. si_remoteId i \<noteq> [] \<and> si_remoteId i \<notin> mListedItems ?u) R)"
    using assms u(2) by (cases "FetchJob \<in> set (jobs s)") (simp_all add: accounts_def)
  then have "accounts D R ?u" using assms u same by (auto simp: accounts_def image_Un)
  moreover have "batch_started s = (if allProcessed ?u then add_job FetchJob ?u else ?u)"
    using same by (simp add: batch_started_def Let_def fetchLocalItemsToDelete_def deleteItems_def)
  ultimately show ?thesis by (auto simp: accounts_def allProcessed_def)
qed

text \<open>The jobs that run were created, and the result is emitted once, at the end.\<close>

definition ledger :: "isync \<Rightarrow> bool" where
  "ledger s \<longleftrightarrow> fst ` set (running s) \<subseteq> set (jobs s) \<and> count_list (signals s) ResultSignal = (if mFinished s then 1 else 0) \<and>
     (mFinished s \<longrightarrow> mPendingJobs s \<le> 0 \<and> mTransactionJobs s \<le> 0 \<and> (error s = UserCanceled \<or> allProcessed s))"

lemma running_job: "fst ` set (running s) \<subseteq> set (jobs s) \<Longrightarrow> fst ` set (running (add_job j s)) \<subseteq> set (jobs (add_job j s))"
  by (auto simp: add_job_def Let_def)

lemma running_items: "fst ` set (running s) \<subseteq> set (jobs s) \<Longrightarrow> fst ` set (running (fold process_item is s)) \<subseteq> set (jobs (fold process_item is s))"
proof (induction "is" arbitrary: s)
  case (Cons i "is")
  have "fst ` set (running (process_item i s)) \<subseteq> set (jobs (process_item i s))"
    using running_job [of s] running_job [of "s\<lparr>mListedItems := insert (si_remoteId i) (mListedItems s)\<rparr>"] Cons.prems
    by (simp add: process_item_def createOrMerge_def Let_def)
  then show ?case using Cons.IH by simp
qed simp

lemma ledger_batch:
  assumes "ledger s" and "\<not> mFinished s"
  shows "ledger (batch_started s)"
proof -
  let ?u = "processItems (requestTransaction s)"
  have "fst ` set (running ?u) \<subseteq> set (jobs ?u)"
    using running_items [of "requestTransaction s"] assms(1) by (simp add: processItems_def requestTransaction_def ledger_def)
  then have "fst ` set (running (batch_started s)) \<subseteq> set (jobs (batch_started s))"
    using running_job [of ?u] by (simp add: batch_started_def Let_def fetchLocalItemsToDelete_def deleteItems_def)
  then show ?thesis using assms by (simp add: ledger_def)
qed

interpretation accounting: sync_frame "\<lambda>s. accounts D R s \<and> ledger s" for D R
proof
  show "accounts D R s \<and> ledger s \<Longrightarrow> \<not> mFinished s \<Longrightarrow> accounts D R (next_batch s) \<and> ledger (next_batch s)" for s
    by (auto simp: accounts_def ledger_def next_batch_def Let_def named_append(1) [symmetric] simp del: named_append(1))
  show "accounts D R s \<and> ledger s \<Longrightarrow> \<not> mFinished s \<Longrightarrow> error s \<noteq> UserCanceled \<Longrightarrow> accounts D R (batch_started s) \<and> ledger (batch_started s)" for s
    using accounts_batch ledger_batch by blast
qed (auto simp: accounts_def ledger_def allProcessed_def split: if_splits)

fun delivered :: "sync_op \<Rightarrow> sync_item list" where
  "delivered (FullItems xs) = xs"
| "delivered _ = []"

fun received :: "sync_op \<Rightarrow> sync_item list" where
  "received (LocalItems xs) = xs"
| "received _ = []"

lemma accounts_flags [simp]:
  "accounts D R (s\<lparr>mStreaming := b\<rparr>) = accounts D R s" "accounts D R (s\<lparr>mTotalItems := k\<rparr>) = accounts D R s"
  "accounts D R (s\<lparr>mTotalItemsProcessed := k\<rparr>) = accounts D R s" "accounts D R (s\<lparr>mPendingJobs := k\<rparr>) = accounts D R s"
  "accounts D R (s\<lparr>mProgress := k\<rparr>) = accounts D R s" "accounts D R (s\<lparr>running := js\<rparr>) = accounts D R s"
  by (simp_all add: accounts_def)

lemma enqueue_accounts:
  assumes "accounts D R s" and "ledger s" and "\<not> mDeliveryDone s"
  shows "accounts (D @ xs) R (enqueue xs [] s) \<and> ledger (enqueue xs [] s)"
proof -
  have "FetchJob \<notin> set (jobs s)" "\<not> mFinished s \<or> error s = UserCanceled" using assms by (auto simp: accounts_def ledger_def allProcessed_def)
  then show ?thesis using assms by (auto simp: enqueue_def Let_def accounts_def ledger_def)
qed

lemma job_slot_accounts:
  assumes "accounts D R s" and "ledger s" and "sync_inv s" and "j \<in> set (running s)"
    and "job_slot n (fst j) NoError (s\<lparr>running := remove1 j (running s)\<rparr>) = Some s'"
  shows "accounts D R s' \<and> ledger s'"
proof -
  let ?u = "s\<lparr>running := remove1 j (running s), mPendingJobs := mPendingJobs s - 1\<rparr>"
  have "running s \<noteq> []" using assms(4) by auto
  then have "\<not> mFinished s" using assms(2, 3) by (auto simp: ledger_def sync_inv_def sync_core_def)
  moreover have "fst ` set (remove1 j (running s)) \<subseteq> set (jobs s)" using assms(2) set_remove1_subset [of j "running s"] by (auto simp: ledger_def)
  ultimately have l: "ledger ?u" using assms(2) by (simp add: ledger_def)
  have u: "accounts D R (?u\<lparr>mProgress := k\<rparr>) \<and> ledger (?u\<lparr>mProgress := k\<rparr>)" for k
    using l assms(1) \<open>\<not> mFinished s\<close> by (simp add: ledger_def)
  have "ledger (add_job (DeleteJob xs) ?u)" for xs using l running_job [of ?u "DeleteJob xs"] \<open>\<not> mFinished s\<close> by (simp add: ledger_def)
  then have d: "accounts D R (deleteItems xs ?u) \<and> ledger (deleteItems xs ?u)" for xs
    using l assms(1) by (auto simp: deleteItems_def accounts_def)
  have "checkDone n (?u\<lparr>mProgress := mProgress s + 1\<rparr>) = Some s' \<or> checkDone n (deleteItems (mItemsToDelete s) ?u) = Some s'"
    using assms(5) by (cases "fst j") (simp_all add: job_slot_def slotLocalChangeDone_def slotLocalDeleteDone_def slotLocalListDone_def Let_def)
  then show ?thesis using accounting.checkDone_keeps u d by blast
qed

lemma plain_step_accounts:
  assumes "plain_step s l t" and "sync_inv s" and "accounts D R s \<and> ledger s"
  shows "accounts (D @ delivered l) (R @ received l) t \<and> ledger t"
proof -
  have "sync_step s l t" "plain l" using assms(1) by (simp_all add: plain_step_def)
  then show ?thesis using assms(2, 3)
  proof (induction rule: sync_step.induct)
    case (full s n xs t)
    then show ?case using accounting.execute_checkDone_keeps [of n "enqueue xs [] s" t "D @ xs" R] enqueue_accounts [of D R s xs]
      by (simp add: setFullSyncItems_def)
  next
    case (total s k n t)
    let ?u = "s\<lparr>mStreaming := True, mTotalItems := k\<rparr>"
    have "accounts D R (?u\<lparr>mDeliveryDone := True\<rparr>)" "accounts D R ?u" "ledger ?u" "ledger (?u\<lparr>mDeliveryDone := True\<rparr>)"
      using total by (auto simp: accounts_def ledger_def allProcessed_def)
    then show ?case using total(3) accounting.execute_checkDone_keeps [of n "?u\<lparr>mDeliveryDone := True\<rparr>" t D R]
      by (auto simp: setTotalItems_def Let_def split: if_splits)
  next
    case (streaming s b)
    then show ?case by (simp add: setStreamingEnabled_def ledger_def allProcessed_def)
  next
    case (delivery_done s n t)
    have "accounts D R (s\<lparr>mDeliveryDone := True\<rparr>)" "ledger (s\<lparr>mDeliveryDone := True\<rparr>)"
      using delivery_done by (auto simp: accounts_def ledger_def allProcessed_def)
    then show ?case using delivery_done(2) accounting.execute_checkDone_keeps [of n "s\<lparr>mDeliveryDone := True\<rparr>" t D R] by (simp add: deliveryDone_def)
  next
    case (local_items p s xs)
    then have "FetchJob \<in> set (jobs s)" by (force simp: ledger_def)
    moreover have "(\<lambda>i. \<lparr>si_id = si_id i, si_remoteId = [], si_gid = [], si_modificationTime = None\<rparr>) = local_id"
      by (rule ext) (simp add: local_id_def)
    ultimately show ?case using local_items by (auto simp: slotItemsReceived_def accounts_def ledger_def allProcessed_def)
  next
    case (job_done j s n err t)
    then have "job_slot n (fst j) NoError (s\<lparr>running := remove1 j (running s)\<rparr>) = Some t"
      by (auto simp: job_result_def propagate_error_def Let_def split: option.splits)
    then have "accounts D R t \<and> ledger t" using job_slot_accounts [of D R s j n t] job_done by blast
    then show ?case by simp
  next
    case (transaction_done k s n err t)
    have "0 < mTransactionJobs s" using transaction_done(1, 4) by (auto simp: sync_inv_def sync_core_def)
    moreover have "propagate_error err s = s" using transaction_done(3) by (simp add: propagate_error_def)
    ultimately have "accounts D R t \<and> ledger t"
      using transaction_done(2, 5) accounting.transaction_result_keeps [of "checkDone n" D R k s t] accounting.checkDone_keeps [of n]
      unfolding transaction_result_def by metis
    then show ?case by simp
  qed simp_all
qed

lemma plain_run_accounts:
  "run plain_step s ls t \<Longrightarrow> sync_inv s \<and> stall_free s \<Longrightarrow> accounts D R s \<and> ledger s \<Longrightarrow>
     accounts (D @ concat (map delivered ls)) (R @ concat (map received ls)) t \<and> ledger t \<and> sync_inv t"
proof (induction arbitrary: D R rule: run.induct)
  case (run_cons s l t ls u)
  have "accounts (D @ delivered l) (R @ received l) t \<and> ledger t"
    using plain_step_accounts [OF run_cons.hyps(1)] run_cons.prems by blast
  from run_cons.IH [OF plain_step_inv [OF run_cons.hyps(1) run_cons.prems(1)] this] show ?case by simp
qed simp

lemma plain_run_start:
  assumes "run plain_step (isync_new mode batch merge start) ls s" and "mode \<noteq> MultipleTransactions" and "0 < batch"
  shows "accounts (concat (map delivered ls)) (concat (map received ls)) s" "ledger s" "sync_inv s"
proof -
  have "sync_inv (isync_new mode batch merge start) \<and> stall_free (isync_new mode batch merge start)"
    using full_sync.inv_init assms(2, 3) sync_start_def by blast
  moreover have "accounts [] [] (isync_new mode batch merge start) \<and> ledger (isync_new mode batch merge start)"
    by (simp add: accounts_def ledger_def isync_new_def)
  ultimately show "accounts (concat (map delivered ls)) (concat (map received ls)) s" "ledger s" "sync_inv s"
    using plain_run_accounts [OF assms(1)] by fastforce+
qed

lemma run_reach:
  assumes "run plain_step (isync_new mode batch merge start) ls s" and "mode \<noteq> MultipleTransactions" and "0 < batch"
  shows "reach sync_start plain_step s"
  using full_sync.reach_run [OF reach.start assms(1)] assms(2, 3) sync_start_def by blast

section \<open>Properties\<close>

text \<open>(C6) A full synchronisation never gets stuck when no job and no transaction fails and the transaction mode is not \<open>MultipleTransactions\<close> (in
  that mode it can, see \<open>empty_batch_loses_transaction\<close>), whichever way the deliveries, the results of the jobs and those of the
  transactions interleave: unless it is finished, a job is running, or a transaction is being closed, or the delivery is not
  over and less than a batch is waiting. Every operation returns, with fuel for two calls per queued item.\<close>

theorem full_sync_never_stalls:
  assumes "run (\<lambda>s l t. sync_step s l t \<and> plain l) (isync_new mode batch merge start) ls s" and "mode \<noteq> MultipleTransactions" and "0 < batch"
  shows "(mFinished s \<or> running s \<noteq> [] \<or> closing s \<noteq> [] \<or> \<not> mDeliveryDone s \<and> int (length (mRemoteItemQueue s)) < mBatchSize s) \<and>
    (\<exists>s'. checkDone (2 * length (mRemoteItemQueue s) + 2) s = Some s')"
proof
  have "reach sync_start plain_step s" using run_reach assms unfolding plain_step_eq by blast
  then have "sync_inv s" "stall_free s" using full_sync.reach_inv by simp_all
  then show "mFinished s \<or> running s \<noteq> [] \<or> closing s \<noteq> [] \<or> \<not> mDeliveryDone s \<and> int (length (mRemoteItemQueue s)) < mBatchSize s"
    by (auto simp: sync_inv_def sync_core_def stall_free_def)
  show "\<exists>s'. checkDone (2 * length (mRemoteItemQueue s) + 2) s = Some s'"
    using \<open>sync_inv s\<close> by (intro checkDone_returns) (auto simp: sync_inv_def sync_core_def)
qed

text \<open>An item of the backend, one without a remote id, and the jobs for the first.\<close>

definition new_mail :: sync_item where
  "new_mail = \<lparr>si_id = -1, si_remoteId = ''m'', si_gid = [], si_modificationTime = None\<rparr>"

definition draft :: sync_item where
  "draft = \<lparr>si_id = -1, si_remoteId = [], si_gid = [], si_modificationTime = None\<rparr>"

definition old_mail :: sync_item where
  "old_mail = \<lparr>si_id = 5, si_remoteId = ''o'', si_gid = [], si_modificationTime = None\<rparr>"

abbreviation mail_job :: "nat \<Rightarrow> sync_op" where
  "mail_job t \<equiv> JobDone (CreateJob new_mail RIDMerge, Some t) NoError"

theorem full_sync_never_stalls_witness:
  "\<exists>s. sync_run 5 [FullItems [new_mail, draft], mail_job 0] (isync_new SingleTransaction 10 RIDMerge None) = Some s \<and> mDeliveryDone s \<and> \<not> mFinished s \<and> (running s \<noteq> [] \<or> closing s \<noteq> [])"
proof -
  let ?s = "isync_new SingleTransaction 10 RIDMerge None"
  have "case sync_run 5 [FullItems [new_mail, draft], mail_job 0] ?s of None \<Rightarrow> False | Some t \<Rightarrow> mDeliveryDone t \<and> \<not> mFinished t"
    by code_simp
  then obtain t where t: "sync_run 5 [FullItems [new_mail, draft], mail_job 0] ?s = Some t" "mDeliveryDone t" "\<not> mFinished t"
    by (auto split: option.splits)
  have "run plain_step ?s [FullItems [new_mail, draft], mail_job 0] t" by (rule plain_sync_run [OF t(1)]) simp
  then have "run (\<lambda>s l t. sync_step s l t \<and> plain l) ?s [FullItems [new_mail, draft], mail_job 0] t" unfolding plain_step_eq .
  from full_sync_never_stalls [OF this] t show ?thesis by auto
qed



text \<open>(C8) When the job that lists the local items ends in a full synchronisation in which nothing has failed, with a transaction mode other than
  \<open>MultipleTransactions\<close>, exactly the superfluous items of its list are removed: those with a remote id that no delivered item has. If there
  are any, they go into one job. (That job is not always started: see \<open>late_end_keeps_superfluous\<close>.)\<close>

theorem full_sync_removes_superfluous:
  assumes "run (\<lambda>s l t. sync_step s l t \<and> plain l) (isync_new mode batch merge start) ls s" and "mode \<noteq> MultipleTransactions" and "0 < batch"
    and "(FetchJob, p) \<in> set (running s)" and "job_result n (FetchJob, p) NoError s = Some t"
  shows "let gone = filter (\<lambda>i. si_remoteId i \<noteq> [] \<and> si_remoteId i \<notin> si_remoteId ` set (concat (map delivered ls))) (concat (map received ls))
    in jobs t = jobs s @ (if gone = [] then [] else [DeleteJob (map local_id gone)])"
proof -
  note inv = plain_run_start [OF assms(1-3) [unfolded plain_step_eq]]
  have "FetchJob \<in> set (jobs s)" using inv(2) assms(4) by (force simp: ledger_def)
  then have over: "mDeliveryDone s" "mRemoteItemQueue s = []" "mCurrentBatchRemoteItems s = []" using inv(1) by (simp_all add: accounts_def)
  then have "mListedItems s = si_remoteId ` set (named (concat (map delivered ls)))" using inv(1) by (simp add: accounts_def)
  moreover have "si_remoteId ` set (named xs) = si_remoteId ` set xs - {[]}" for xs
    by (auto simp: named_def plain_item_def image_image)
  ultimately have listed: "r \<in> mListedItems s \<longleftrightarrow> r \<in> si_remoteId ` set (concat (map delivered ls)) \<and> r \<noteq> []" for r by simp
  let ?u = "s\<lparr>running := remove1 (FetchJob, p) (running s), mPendingJobs := mPendingJobs s - 1\<rparr>"
  let ?v = "deleteItems (mItemsToDelete s) ?u"
  have "checkDone n ?v = Some t"
    using assms(5) by (auto simp: job_result_def propagate_error_def job_slot_def slotLocalListDone_def Let_def split: option.splits)
  moreover have "mDeliveryDone ?v" "mRemoteItemQueue ?v = []" using over by (simp_all add: deleteItems_def)
  ultimately have "jobs t = jobs ?v"
    using no_more_jobs by blast
  moreover have "mItemsToDelete s = map local_id (filter (\<lambda>i. si_remoteId i \<noteq> [] \<and> si_remoteId i \<notin> si_remoteId ` set (concat (map delivered ls)))
      (concat (map received ls)))"
  proof -
    have "mItemsToDelete s = map local_id (filter (\<lambda>i. si_remoteId i \<noteq> [] \<and> si_remoteId i \<notin> mListedItems s) (concat (map received ls)))"
      using inv(1) by (simp only: accounts_def)
    then show ?thesis unfolding listed by (simp cong: conj_cong)
  qed
  moreover have "error s = NoError" using inv(1) by (simp add: accounts_def)
  ultimately show ?thesis by (simp add: deleteItems_def Let_def)
qed

theorem full_sync_removes_superfluous_witness:
  "\<exists>s t. sync_run 5 [FullItems [new_mail], LocalItems [old_mail, new_mail]] (isync_new SingleTransaction 10 RIDMerge None) = Some s \<and>
     job_result 5 (FetchJob, Some 0) NoError s = Some t \<and> jobs t = jobs s @ [DeleteJob [local_id old_mail]]"
proof -
  let ?s = "isync_new SingleTransaction 10 RIDMerge None" and ?ls = "[FullItems [new_mail], LocalItems [old_mail, new_mail]]"
  have "case sync_run 5 ?ls ?s of None \<Rightarrow> False
      | Some s \<Rightarrow> (FetchJob, Some 0) \<in> set (running s) \<and> job_result 5 (FetchJob, Some 0) NoError s \<noteq> None" by code_simp
  then obtain s t where s: "sync_run 5 ?ls ?s = Some s" "(FetchJob, Some 0) \<in> set (running s)" "job_result 5 (FetchJob, Some 0) NoError s = Some t"
    by (auto split: option.splits)
  have "run plain_step ?s ?ls s" by (rule plain_sync_run [OF s(1)]) simp
  then have "run (\<lambda>s l t. sync_step s l t \<and> plain l) ?s ?ls s" unfolding plain_step_eq .
  from full_sync_removes_superfluous [OF this _ _ s(2, 3)] s show ?thesis by (simp add: new_mail_def old_mail_def)
qed

text \<open>A full synchronisation can end without removing anything: when the end of the delivery is announced while the jobs of the last
  full batch are running, no further batch is started and the local items are never listed.\<close>

theorem late_end_keeps_superfluous:
  "\<exists>s. run plain_step (isync_new SingleTransaction 1 RIDMerge None)
      [Streaming True, FullItems [new_mail], DeliveryDone, mail_job 0, TransactionDone 0 NoError] s \<and> mFinished s \<and> jobs s = [CreateJob new_mail RIDMerge]"
proof -
  let ?s = "isync_new SingleTransaction 1 RIDMerge None"
  let ?ls = "[Streaming True, FullItems [new_mail], DeliveryDone, mail_job 0, TransactionDone 0 NoError]"
  have "case sync_run 5 ?ls ?s of None \<Rightarrow> False | Some t \<Rightarrow> mFinished t \<and> jobs t = [CreateJob new_mail RIDMerge]" by code_simp
  then obtain t where t: "sync_run 5 ?ls ?s = Some t" "mFinished t \<and> jobs t = [CreateJob new_mail RIDMerge]" by (auto split: option.splits)
  have "run plain_step ?s ?ls t" by (rule plain_sync_run [OF t(1)]) simp
  then show ?thesis using t(2) by blast
qed

text \<open>An incremental synchronisation gets stuck when removed items are delivered while a batch is processed and no changed items
  follow: every job and transaction has ended, the delivery is over, and the job neither removes the items nor ends.\<close>

theorem late_removals_stall:
  "\<exists>s. run sync_step (isync_new SingleTransaction 1 RIDMerge None)
      [Streaming True, Incremental [new_mail] [], Incremental [] [old_mail], DeliveryDone, mail_job 0, TransactionDone 0 NoError] s \<and>
     \<not> mFinished s \<and> mDeliveryDone s \<and> running s = [] \<and> closing s = [] \<and> mRemovedRemoteItemQueue s = [old_mail] \<and> jobs s = [CreateJob new_mail RIDMerge]"
proof -
  let ?s = "isync_new SingleTransaction 1 RIDMerge None"
  let ?ls = "[Streaming True, Incremental [new_mail] [], Incremental [] [old_mail], DeliveryDone, mail_job 0, TransactionDone 0 NoError]"
  let ?P = "\<lambda>s. \<not> mFinished s \<and> mDeliveryDone s \<and> running s = [] \<and> closing s = [] \<and> mRemovedRemoteItemQueue s = [old_mail] \<and>
    jobs s = [CreateJob new_mail RIDMerge]"
  have "case sync_run 5 ?ls ?s of None \<Rightarrow> False | Some t \<Rightarrow> ?P t" by code_simp
  then obtain t where t: "sync_run 5 ?ls ?s = Some t" "?P t" by (auto split: option.splits)
  have "run sync_step ?s ?ls t" using sync_run_run [OF t(1), of "\<lambda>_. True"] by (simp add: list_all_iff)
  then show ?thesis using t(2) by blast
qed

text \<open>With a transaction for each batch, a batch that creates no job loses the transaction of the next: the empty transaction ends inside
  of \<open>commit\<close>, the next batch gets its own, and the outer call then resets \<open>mCurrentTransaction\<close>. Its jobs end, but it is never
  committed and the synchronisation does not end.\<close>

theorem empty_batch_loses_transaction:
  "\<exists>s. run sync_step (isync_new MultipleTransactions 1 RIDMerge None)
      [FullItems [draft, new_mail], mail_job 1, JobDone (FetchJob, Some 1) NoError] s \<and>
     \<not> mFinished s \<and> mDeliveryDone s \<and> mRemoteItemQueue s = [] \<and> running s = [] \<and> closing s = [] \<and> mCurrentTransaction s = None \<and> mTransactionJobs s = 1"
proof -
  let ?s = "isync_new MultipleTransactions 1 RIDMerge None"
  let ?ls = "[FullItems [draft, new_mail], mail_job 1, JobDone (FetchJob, Some 1) NoError]"
  let ?P = "\<lambda>s. \<not> mFinished s \<and> mDeliveryDone s \<and> mRemoteItemQueue s = [] \<and> running s = [] \<and> closing s = [] \<and> mCurrentTransaction s = None \<and>
    mTransactionJobs s = 1"
  have "case sync_run 9 ?ls ?s of None \<Rightarrow> False | Some t \<Rightarrow> ?P t" by code_simp
  then obtain t where t: "sync_run 9 ?ls ?s = Some t" "?P t" by (auto split: option.splits)
  have "run sync_step ?s ?ls t" using sync_run_run [OF t(1), of "\<lambda>_. True"] by (simp add: list_all_iff)
  then show ?thesis using t(2) by blast
qed

end
