(* ===== verification/ChangeJournal.thy ===== *)
theory ChangeJournal
  imports DataStream "HOL-Library.State_Monad" "HOL-Library.AList"
begin

text \<open>
  The journal of the change recorder, \<open>src/core/changerecorderjournal.cpp\<close>: how an agent keeps the notifications it has not yet processed in a
  file. The file is a \<open>QDataStream\<close> of version \<open>Qt_4_6\<close>, whose format is the documented one: integers are big endian, byte arrays and
  strings have their length in bytes in front, containers the number of their elements. A read that fails gives a default value and sets
  the status of the stream, and the reader goes on; so a reader is a function on the bytes that are left and the status. The encoding
  of \<open>QDateTime\<close> is a parameter. Sets and maps are lists of their elements in the order in which they are written. The reader of the
  settings file of ancient versions is not modelled.
\<close>

section \<open>The stream\<close>

abbreviation ret :: "'a \<Rightarrow> ('s, 'a) state" where
  "ret \<equiv> State_Monad.return"

type_synonym qstream = "byte list \<times> bool"
type_synonym 'a qget = "(qstream, 'a) state"

definition q_read :: "nat \<Rightarrow> byte list option qget" where
  "q_read n = State (\<lambda>(bs, good). if length bs < n then (None, ([], False)) else (Some (take n bs), (drop n bs, good)))"

definition q_status :: "bool qget" where
  "q_status = State (\<lambda>s. (snd s, s))"

definition q_atEnd :: "bool qget" where
  "q_atEnd = State (\<lambda>s. (fst s = [], s))"

definition q_fail :: "unit qget" where
  "q_fail = State (\<lambda>(bs, good). ((), (bs, False)))"

definition put_be :: "nat \<Rightarrow> 'a::len word \<Rightarrow> byte list" where
  "put_be n v = rev (le_bytes n (unat v))"

definition get_be :: "nat \<Rightarrow> 'a::len word qget" where
  "get_be n = do { r \<leftarrow> q_read n; ret (case r of None \<Rightarrow> 0 | Some bs \<Rightarrow> word_of_nat (le_value (rev bs))) }"

abbreviation put_i32 :: "32 word \<Rightarrow> byte list" where "put_i32 \<equiv> put_be 4"
abbreviation get_i32 :: "32 word qget" where "get_i32 \<equiv> get_be 4"
abbreviation put_i64 :: "64 word \<Rightarrow> byte list" where "put_i64 \<equiv> put_be 8"
abbreviation get_i64 :: "64 word qget" where "get_i64 \<equiv> get_be 8"
abbreviation put_i8 :: "8 word \<Rightarrow> byte list" where "put_i8 \<equiv> put_be 1"
abbreviation get_i8 :: "8 word qget" where "get_i8 \<equiv> get_be 1"

definition put_bool :: "bool \<Rightarrow> byte list" where
  "put_bool b = put_i8 (if b then 1 else 0)"

definition get_bool :: "bool qget" where
  "get_bool = do { v \<leftarrow> get_i8; ret (v \<noteq> 0) }"

definition put_ba :: "qbytearray \<Rightarrow> byte list" where
  "put_ba d = (case d of None \<Rightarrow> put_i32 null_marker | Some bs \<Rightarrow> put_i32 (word_of_nat (length bs)) @ bs)"

definition get_ba :: "qbytearray qget" where
  "get_ba = do { len \<leftarrow> get_i32; if len = null_marker then ret None else q_read (unat len) }"

definition put_str :: "qstring \<Rightarrow> byte list" where
  "put_str s = (case s of None \<Rightarrow> put_i32 null_marker | Some us \<Rightarrow> put_i32 (word_of_nat (2 * length us)) @ concat (map (put_be 2) us))"

fun be_units :: "byte list \<Rightarrow> 16 word list" where
  "be_units (a # b # bs) = word_of_nat (le_value [b, a]) # be_units bs"
| "be_units _ = []"

definition get_str :: "qstring qget" where
  "get_str = do {
     len \<leftarrow> get_i32;
     if len = null_marker then ret None
     else if odd (unat len) then do { q_fail; ret None }
     else do { r \<leftarrow> q_read (unat len); ret (map_option be_units r) } }"

text \<open>The containers: inside, the status is that of the container alone; an element that fails empties the container and ends it.\<close>

fun get_n :: "'a qget \<Rightarrow> nat \<Rightarrow> 'a list option qget" where
  "get_n g 0 = ret (Some [])"
| "get_n g (Suc n) = do {
     x \<leftarrow> g;
     good \<leftarrow> q_status;
     if \<not> good then ret None
     else do { r \<leftarrow> get_n g n; ret (map_option (Cons x) r) } }"

definition put_seq :: "('a \<Rightarrow> byte list) \<Rightarrow> 'a list \<Rightarrow> byte list" where
  "put_seq p xs = put_i32 (word_of_nat (length xs)) @ concat (map p xs)"

definition get_seq :: "'a qget \<Rightarrow> 'a list qget" where
  "get_seq g = State (\<lambda>(bs, good).
     case run_state (do {
         n \<leftarrow> get_i32;
         if n = null_marker then do { q_fail; ret None } else get_n g (unat n) }) (bs, True) of
       (r, (bs', good')) \<Rightarrow> (case r of None \<Rightarrow> [] | Some xs \<Rightarrow> xs, (bs', good \<and> good')))"

definition get_set :: "'a qget \<Rightarrow> 'a list qget" where
  "get_set g = do { xs \<leftarrow> get_seq g; ret (fold (\<lambda>x ys. if x \<in> set ys then ys else ys @ [x]) xs []) }"

definition put_kv :: "qbytearray \<times> qbytearray \<Rightarrow> byte list" where
  "put_kv p = put_ba (fst p) @ put_ba (snd p)"

definition get_kv :: "(qbytearray \<times> qbytearray) qget" where
  "get_kv = do { k \<leftarrow> get_ba; v \<leftarrow> get_ba; ret (k, v) }"

type_synonym qattributes = "(qbytearray \<times> qbytearray) list"

definition get_attrs :: "qattributes qget" where
  "get_attrs = do { kvs \<leftarrow> get_seq get_kv; ret (fold (\<lambda>(k, v). AList.update k v) kvs []) }"

text \<open>A loop that reads a fixed number of things, whatever the status.\<close>

fun get_times :: "nat \<Rightarrow> 'a qget \<Rightarrow> 'a list qget" where
  "get_times 0 g = ret []"
| "get_times (Suc n) g = do { x \<leftarrow> g; xs \<leftarrow> get_times n g; ret (x # xs) }"

text \<open>A loop of an \<open>int\<close> counter does nothing for a negative number.\<close>

definition loop_count :: "32 word \<Rightarrow> nat" where
  "loop_count n = nat (sint n)"

section \<open>Messages\<close>

text \<open>The members of the notifications, as the protocol has them. An operation is the number of the enum; \<open>jc_metadata\<close> and its like hold
  what \<open>addMetadata\<close> adds. The date-time of an item has the type \<open>'d\<close>.\<close>

record jtag =
  jt_id :: "64 word"
  jt_parentId :: "64 word"
  jt_gid :: qbytearray
  jt_type :: qbytearray
  jt_remoteId :: qbytearray
  jt_attributes :: qattributes

record jancestor =
  ja_id :: "64 word"
  ja_remoteId :: qstring
  ja_name :: qstring
  ja_attributes :: qattributes

record jpart =
  jp_payloadName :: qbytearray
  jp_name :: qbytearray
  jp_size :: "64 word"
  jp_version :: "32 word"
  jp_storageType :: "32 word"
  jp_data :: qbytearray

record 'd jitem =
  ji_id :: "64 word"
  ji_revision :: "32 word"
  ji_parentId :: "64 word"
  ji_remoteId :: qstring
  ji_remoteRevision :: qstring
  ji_gid :: qstring
  ji_size :: "64 word"
  ji_mimeType :: qstring
  ji_mTime :: 'd
  ji_flags :: "qbytearray list"
  ji_tags :: "jtag list"
  ji_virtualReferences :: "64 word list"
  ji_ancestors :: "jancestor list"
  ji_parts :: "jpart list"
  ji_cachedParts :: "qbytearray list"

record jcollection =
  jc_id :: "64 word"
  jc_parentId :: "64 word"
  jc_name :: qstring
  jc_mimeTypes :: "qstring list"
  jc_remoteId :: qstring
  jc_remoteRevision :: qstring
  jc_resource :: qstring
  jc_count :: "64 word"
  jc_unseen :: "64 word"
  jc_size :: "64 word"
  jc_searchQuery :: qstring
  jc_searchCollections :: "64 word list"
  jc_ancestors :: "jancestor list"
  jc_inherit :: bool
  jc_checkInterval :: "32 word"
  jc_cacheTimeout :: "32 word"
  jc_syncOnDemand :: bool
  jc_localParts :: "qstring list"
  jc_attributes :: qattributes
  jc_enabled :: bool
  jc_displayPref :: "8 word"
  jc_syncPref :: "8 word"
  jc_indexPref :: "8 word"
  jc_isVirtual :: bool

record 'd jitem_change =
  jim_operation :: "32 word"
  jim_items :: "'d jitem list"
  jim_resource :: qbytearray
  jim_destinationResource :: qbytearray
  jim_parentCollection :: "64 word"
  jim_parentDestCollection :: "64 word"
  jim_itemParts :: "qbytearray list"
  jim_addedFlags :: "qbytearray list"
  jim_removedFlags :: "qbytearray list"
  jim_addedTags :: "jtag list"
  jim_removedTags :: "jtag list"
  jim_mustRetrieve :: bool
  jim_metadata :: "string list"

record jcollection_change =
  jcm_operation :: "32 word"
  jcm_collection :: jcollection
  jcm_resource :: qbytearray
  jcm_destinationResource :: qbytearray
  jcm_parentCollection :: "64 word"
  jcm_parentDestCollection :: "64 word"
  jcm_changedParts :: "qbytearray list"
  jcm_metadata :: "string list"

record jtag_change =
  jtm_operation :: "32 word"
  jtm_tag :: jtag
  jtm_resource :: qbytearray
  jtm_metadata :: "string list"

datatype 'd jbody = JItem "'d jitem_change" | JCollection jcollection_change | JTag jtag_change

type_synonym 'd jmessage = "qbytearray \<times> 'd jbody"

definition jtag_new :: jtag where
  "jtag_new = \<lparr>jt_id = -1, jt_parentId = -1, jt_gid = None, jt_type = None, jt_remoteId = None, jt_attributes = []\<rparr>"

definition jitem_new :: "'d \<Rightarrow> 'd jitem" where
  "jitem_new d = \<lparr>ji_id = -1, ji_revision = -1, ji_parentId = -1, ji_remoteId = None, ji_remoteRevision = None, ji_gid = None, ji_size = 0,
     ji_mimeType = None, ji_mTime = d, ji_flags = [], ji_tags = [], ji_virtualReferences = [], ji_ancestors = [], ji_parts = [], ji_cachedParts = []\<rparr>"

definition jcollection_new :: jcollection where
  "jcollection_new = \<lparr>jc_id = -1, jc_parentId = -1, jc_name = None, jc_mimeTypes = [], jc_remoteId = None, jc_remoteRevision = None,
     jc_resource = None, jc_count = 0, jc_unseen = 0, jc_size = 0, jc_searchQuery = None, jc_searchCollections = [], jc_ancestors = [],
     jc_inherit = True, jc_checkInterval = -1, jc_cacheTimeout = -1, jc_syncOnDemand = False, jc_localParts = [], jc_attributes = [],
     jc_enabled = True, jc_displayPref = 2, jc_syncPref = 2, jc_indexPref = 2, jc_isVirtual = False\<rparr>"

definition jitem_change_new :: "'d jitem_change" where
  "jitem_change_new = \<lparr>jim_operation = 0, jim_items = [], jim_resource = None, jim_destinationResource = None, jim_parentCollection = -1,
     jim_parentDestCollection = -1, jim_itemParts = [], jim_addedFlags = [], jim_removedFlags = [], jim_addedTags = [], jim_removedTags = [],
     jim_mustRetrieve = False, jim_metadata = []\<rparr>"

definition jcollection_change_new :: jcollection_change where
  "jcollection_change_new = \<lparr>jcm_operation = 0, jcm_collection = jcollection_new, jcm_resource = None, jcm_destinationResource = None,
     jcm_parentCollection = -1, jcm_parentDestCollection = -1, jcm_changedParts = [], jcm_metadata = []\<rparr>"

definition jtag_change_new :: jtag_change where
  "jtag_change_new = \<lparr>jtm_operation = 0, jtm_tag = jtag_new, jtm_resource = None, jtm_metadata = []\<rparr>"

section \<open>Writing\<close>

definition put_tag :: "jtag \<Rightarrow> byte list" where
  "put_tag g = put_i64 (jt_id g) @ put_i64 (jt_parentId g) @ put_ba (jt_gid g) @ put_ba (jt_type g) @ put_ba (jt_remoteId g) @
     put_seq put_kv (jt_attributes g)"

definition saveTags :: "jtag list \<Rightarrow> byte list" where
  "saveTags = put_seq put_tag"

definition put_ancestor :: "jancestor \<Rightarrow> byte list" where
  "put_ancestor a = put_i64 (ja_id a) @ put_str (ja_remoteId a) @ put_str (ja_name a) @ put_seq put_kv (ja_attributes a)"

definition put_part :: "jpart \<Rightarrow> byte list" where
  "put_part p = put_ba (jp_payloadName p) @ put_ba (jp_name p) @ put_i64 (jp_size p) @ put_i32 (jp_version p) @ put_i32 (jp_storageType p) @
     put_ba (jp_data p)"

definition put_item :: "('d \<Rightarrow> byte list) \<Rightarrow> 'd jitem \<Rightarrow> byte list" where
  "put_item put_dt i =
     put_i64 (ji_id i) @ put_i32 (ji_revision i) @ put_i64 (ji_parentId i) @ put_str (ji_remoteId i) @ put_str (ji_remoteRevision i) @
     put_str (ji_gid i) @ put_i64 (ji_size i) @ put_str (ji_mimeType i) @ put_dt (ji_mTime i) @ put_seq put_ba (ji_flags i) @
     saveTags (ji_tags i) @ put_seq put_i64 (ji_virtualReferences i) @ put_seq put_ancestor (ji_ancestors i) @ put_seq put_part (ji_parts i) @
     put_seq put_ba (ji_cachedParts i)"

definition saveItemNotification :: "('d \<Rightarrow> byte list) \<Rightarrow> 'd jitem_change \<Rightarrow> byte list" where
  "saveItemNotification put_dt m =
     put_i32 (jim_operation m) @ put_seq (put_item put_dt) (jim_items m) @ put_ba (jim_resource m) @ put_ba (jim_destinationResource m) @
     put_i64 (jim_parentCollection m) @ put_i64 (jim_parentDestCollection m) @ put_seq put_ba (jim_itemParts m) @
     put_seq put_ba (jim_addedFlags m) @ put_seq put_ba (jim_removedFlags m) @ saveTags (jim_addedTags m) @ saveTags (jim_removedTags m) @
     put_bool (jim_mustRetrieve m)"

definition put_collection :: "jcollection \<Rightarrow> byte list" where
  "put_collection c =
     put_i64 (jc_id c) @ put_i64 (jc_parentId c) @ put_str (jc_name c) @ put_seq put_str (jc_mimeTypes c) @ put_str (jc_remoteId c) @
     put_str (jc_remoteRevision c) @ put_str (jc_resource c) @ put_i64 (jc_count c) @ put_i64 (jc_unseen c) @ put_i64 (jc_size c) @
     put_str (jc_searchQuery c) @ put_seq put_i64 (jc_searchCollections c) @ put_seq put_ancestor (jc_ancestors c) @ put_bool (jc_inherit c) @
     put_i32 (jc_checkInterval c) @ put_i32 (jc_cacheTimeout c) @ put_bool (jc_syncOnDemand c) @ put_seq put_str (jc_localParts c) @
     put_seq put_kv (jc_attributes c) @ put_bool (jc_enabled c) @ put_i8 (jc_displayPref c) @ put_i8 (jc_syncPref c) @
     put_i8 (jc_indexPref c) @ put_bool False @ put_bool (jc_isVirtual c)"

definition saveCollectionNotification :: "jcollection_change \<Rightarrow> byte list" where
  "saveCollectionNotification m =
     put_i32 (jcm_operation m) @ put_i32 1 @ put_collection (jcm_collection m) @ put_ba (jcm_resource m) @ put_ba (jcm_destinationResource m) @
     put_i64 (jcm_parentCollection m) @ put_i64 (jcm_parentDestCollection m) @ put_seq put_ba (jcm_changedParts m) @
     put_seq put_ba [] @ put_seq put_ba [] @ put_seq put_i64 [] @ put_seq put_i64 []"

definition saveTagNotification :: "jtag_change \<Rightarrow> byte list" where
  "saveTagNotification m = put_i32 (jtm_operation m) @ put_i32 1 @ put_tag (jtm_tag m) @ put_ba (jtm_resource m)"

text \<open>\<open>LegacyType\<close>.\<close>

definition mapToLegacyType :: "'d jbody \<Rightarrow> 32 word" where
  "mapToLegacyType b = (case b of JItem _ \<Rightarrow> 1 | JCollection _ \<Rightarrow> 2 | JTag _ \<Rightarrow> 3)"

definition put_message :: "('d \<Rightarrow> byte list) \<Rightarrow> 'd jmessage \<Rightarrow> byte list" where
  "put_message put_dt m = put_ba (fst m) @ put_i32 (mapToLegacyType (snd m)) @
     (case snd m of
        JItem c \<Rightarrow> saveItemNotification put_dt c
      | JCollection c \<Rightarrow> saveCollectionNotification c
      | JTag c \<Rightarrow> saveTagNotification c)"

definition s_currentVersion :: "64 word" where
  "s_currentVersion = 0x000A00000000"

definition s_versionMask :: "64 word" where
  "s_versionMask = 0xFFFF00000000"

definition s_sizeMask :: "64 word" where
  "s_sizeMask = 0x0000FFFFFFFF"

unbundle bit_operations_syntax

definition saveTo :: "('d \<Rightarrow> byte list) \<Rightarrow> 'd jmessage list \<Rightarrow> byte list" where
  "saveTo put_dt ns = put_i64 (word_of_nat (length ns) OR s_currentVersion) @ put_i64 0 @ concat (map (put_message put_dt) ns)"

section \<open>Reading\<close>

definition get_tag :: "jtag qget" where
  "get_tag = do {
     i \<leftarrow> get_i64; parentId \<leftarrow> get_i64; gid \<leftarrow> get_ba; ty \<leftarrow> get_ba; remoteId \<leftarrow> get_ba; attributes \<leftarrow> get_attrs;
     ret \<lparr>jt_id = i, jt_parentId = parentId, jt_gid = gid, jt_type = ty, jt_remoteId = remoteId, jt_attributes = attributes\<rparr> }"

definition loadTags :: "jtag list qget" where
  "loadTags = do { cnt \<leftarrow> get_i32; get_times (loop_count cnt) get_tag }"

definition get_ancestor :: "jancestor qget" where
  "get_ancestor = do {
     i \<leftarrow> get_i64; rid \<leftarrow> get_str; name \<leftarrow> get_str; attrs \<leftarrow> get_attrs;
     ret \<lparr>ja_id = i, ja_remoteId = rid, ja_name = name, ja_attributes = attrs\<rparr> }"

definition get_part :: "jpart qget" where
  "get_part = do {
     payloadName \<leftarrow> get_ba; name \<leftarrow> get_ba; size \<leftarrow> get_i64; version \<leftarrow> get_i32; storageType \<leftarrow> get_i32; data \<leftarrow> get_ba;
     ret \<lparr>jp_payloadName = payloadName, jp_name = name, jp_size = size, jp_version = version, jp_storageType = storageType, jp_data = data\<rparr> }"

text \<open>The members of a relation, which versions from 7 on have in an item.\<close>

definition skip_relation :: "unit qget" where
  "skip_relation = do { _ \<leftarrow> get_i64; _ \<leftarrow> get_ba; _ \<leftarrow> get_i64; _ \<leftarrow> get_ba; _ \<leftarrow> get_ba; _ \<leftarrow> get_ba; ret () }"

definition get_item :: "'d qget \<Rightarrow> 'd jitem qget" where
  "get_item get_dt = do {
     i \<leftarrow> get_i64; revision \<leftarrow> get_i32; parentId \<leftarrow> get_i64; remoteId \<leftarrow> get_str; remoteRevision \<leftarrow> get_str; gid \<leftarrow> get_str;
     size \<leftarrow> get_i64; mimeType \<leftarrow> get_str; mTime \<leftarrow> get_dt; flags \<leftarrow> get_seq get_ba; tags \<leftarrow> loadTags; refs \<leftarrow> get_seq get_i64;
     relations \<leftarrow> get_i32; _ \<leftarrow> get_times (loop_count relations) skip_relation;
     ancestorCnt \<leftarrow> get_i32; ancestors \<leftarrow> get_times (loop_count ancestorCnt) get_ancestor;
     partCnt \<leftarrow> get_i32; parts \<leftarrow> get_times (loop_count partCnt) get_part;
     cachedParts \<leftarrow> get_seq get_ba;
     ret \<lparr>ji_id = i, ji_revision = revision, ji_parentId = parentId, ji_remoteId = remoteId, ji_remoteRevision = remoteRevision,
       ji_gid = gid, ji_size = size, ji_mimeType = mimeType, ji_mTime = mTime, ji_flags = flags, ji_tags = tags,
       ji_virtualReferences = refs, ji_ancestors = ancestors, ji_parts = parts, ji_cachedParts = cachedParts\<rparr> }"

text \<open>The numbers of \<open>LegacyOp\<close>, which versions before 5 wrote, as those of the operations.\<close>

definition mapItemOperation :: "32 word \<Rightarrow> 32 word" where
  "mapItemOperation k = (if k \<in> {1, 2, 3, 4, 5, 6} then k else if k = 9 then 7 else if k = 10 then 8 else 0)"

definition mapCollectionOperation :: "32 word \<Rightarrow> 32 word" where
  "mapCollectionOperation k = (if k \<in> {1, 2, 3, 4} then k else if k = 7 then 5 else if k = 8 then 6 else 0)"

definition mapTagOperation :: "32 word \<Rightarrow> 32 word" where
  "mapTagOperation k = (if k \<in> {1, 2} then k else if k = 4 then 3 else 0)"

text \<open>The items of versions 2 to 6; \<open>None\<close> is the early return.\<close>

fun get_old_items :: "'d \<Rightarrow> nat \<Rightarrow> 'd jitem list option qget" where
  "get_old_items d 0 = ret (Some [])"
| "get_old_items d (Suc n) = do {
     uid \<leftarrow> get_i64; remoteId \<leftarrow> get_str; remoteRevision \<leftarrow> get_str; mimeType \<leftarrow> get_str;
     good \<leftarrow> q_status;
     if \<not> good then ret None
     else do {
       xs \<leftarrow> get_old_items d n;
       ret (map_option (Cons ((jitem_new d)\<lparr>ji_id := uid, ji_remoteId := remoteId, ji_remoteRevision := remoteRevision, ji_mimeType := mimeType\<rparr>)) xs) } }"

definition loadItemNotification :: "'d qget \<Rightarrow> 'd \<Rightarrow> nat \<Rightarrow> 'd jitem_change qget" where
  "loadItemNotification get_dt d version =
     (let op = (\<lambda>k. if version \<ge> 5 then k else mapItemOperation k) in
      if version = 1 then do {
        operation \<leftarrow> get_i32; uid \<leftarrow> get_i64; remoteId \<leftarrow> get_str; resource \<leftarrow> get_ba; parentCollection \<leftarrow> get_i64;
        parentDestCollection \<leftarrow> get_i64; mimeType \<leftarrow> get_str; itemParts \<leftarrow> get_set get_ba;
        ret (jitem_change_new\<lparr>jim_operation := op operation,
          jim_items := [(jitem_new d)\<lparr>ji_id := uid, ji_remoteId := remoteId, ji_mimeType := mimeType\<rparr>], jim_resource := resource,
          jim_parentCollection := parentCollection, jim_parentDestCollection := parentDestCollection, jim_itemParts := itemParts,
          jim_metadata := [''FETCH_ITEM'']\<rparr>) }
      else if version \<ge> 2 then do {
        operation \<leftarrow> get_i32; entityCnt \<leftarrow> get_i32;
        items \<leftarrow> (if version \<ge> 7 then do { xs \<leftarrow> get_times (loop_count entityCnt) (get_item get_dt); ret (Some xs) }
                 else get_old_items d (loop_count entityCnt));
        case items of
          None \<Rightarrow> ret jitem_change_new
        | Some xs \<Rightarrow> do {
            resource \<leftarrow> get_ba; destinationResource \<leftarrow> get_ba; parentCollection \<leftarrow> get_i64; parentDestCollection \<leftarrow> get_i64;
            itemParts \<leftarrow> get_set get_ba; addedFlags \<leftarrow> get_set get_ba; removedFlags \<leftarrow> get_set get_ba;
            (addedTags, removedTags) \<leftarrow>
              (if version \<ge> 10 then do { a \<leftarrow> loadTags; r \<leftarrow> loadTags; ret (a, r) }
               else if version \<ge> 3 then do {
                 a \<leftarrow> get_set get_i64; r \<leftarrow> get_set get_i64;
                 ret (map (\<lambda>i. jtag_new\<lparr>jt_id := i\<rparr>) a, map (\<lambda>i. jtag_new\<lparr>jt_id := i\<rparr>) r) }
               else ret ([], []));
            mustRetrieve \<leftarrow> (if version \<ge> 8 then get_bool else ret False);
            ret \<lparr>jim_operation = op operation, jim_items = xs, jim_resource = resource, jim_destinationResource = destinationResource,
              jim_parentCollection = parentCollection, jim_parentDestCollection = parentDestCollection, jim_itemParts = itemParts,
              jim_addedFlags = addedFlags, jim_removedFlags = removedFlags, jim_addedTags = addedTags, jim_removedTags = removedTags,
              jim_mustRetrieve = mustRetrieve, jim_metadata = (if version \<ge> 7 then [] else [''FETCH_ITEM''])\<rparr> } }
      else ret jitem_change_new)"

text \<open>The ancestors of a collection, with the early return.\<close>

fun get_ancestors :: "nat \<Rightarrow> jancestor list option qget" where
  "get_ancestors 0 = ret (Some [])"
| "get_ancestors (Suc n) = do {
     a \<leftarrow> get_ancestor;
     good \<leftarrow> q_status;
     if \<not> good then ret None else do { xs \<leftarrow> get_ancestors n; ret (map_option (Cons a) xs) } }"

definition get_collection :: "jcollection option qget" where
  "get_collection = do {
     i \<leftarrow> get_i64; parentId \<leftarrow> get_i64; name \<leftarrow> get_str; mimeTypes \<leftarrow> get_seq get_str; remoteId \<leftarrow> get_str; remoteRevision \<leftarrow> get_str;
     resource \<leftarrow> get_str; count \<leftarrow> get_i64; unseen \<leftarrow> get_i64; size \<leftarrow> get_i64; searchQuery \<leftarrow> get_str; searchCollections \<leftarrow> get_seq get_i64;
     entityCnt \<leftarrow> get_i32; ancestors \<leftarrow> get_ancestors (loop_count entityCnt);
     case ancestors of
       None \<Rightarrow> ret None
     | Some as \<Rightarrow> do {
         inherit \<leftarrow> get_bool; checkInterval \<leftarrow> get_i32; cacheTimeout \<leftarrow> get_i32; syncOnDemand \<leftarrow> get_bool; localParts \<leftarrow> get_seq get_str;
         attrs \<leftarrow> get_attrs; enabled \<leftarrow> get_bool; displayPref \<leftarrow> get_i8; syncPref \<leftarrow> get_i8; indexPref \<leftarrow> get_i8;
         _ \<leftarrow> get_bool; isVirtual \<leftarrow> get_bool;
         ret (Some \<lparr>jc_id = i, jc_parentId = parentId, jc_name = name, jc_mimeTypes = mimeTypes, jc_remoteId = remoteId,
           jc_remoteRevision = remoteRevision, jc_resource = resource, jc_count = count, jc_unseen = unseen, jc_size = size,
           jc_searchQuery = searchQuery, jc_searchCollections = searchCollections, jc_ancestors = as, jc_inherit = inherit,
           jc_checkInterval = checkInterval, jc_cacheTimeout = cacheTimeout, jc_syncOnDemand = syncOnDemand, jc_localParts = localParts,
           jc_attributes = attrs, jc_enabled = enabled, jc_displayPref = displayPref, jc_syncPref = syncPref, jc_indexPref = indexPref,
           jc_isVirtual = isVirtual\<rparr>) } }"

text \<open>The collections of versions 2 to 6: each read overwrites the one before.\<close>

fun get_old_collections :: "nat \<Rightarrow> jcollection_change \<Rightarrow> (bool \<times> jcollection_change) qget" where
  "get_old_collections 0 m = ret (True, m)"
| "get_old_collections (Suc n) m = do {
     uid \<leftarrow> get_i64; remoteId \<leftarrow> get_str; remoteRevision \<leftarrow> get_str; _ \<leftarrow> get_str;
     good \<leftarrow> q_status;
     if \<not> good then ret (False, m)
     else get_old_collections n
       (m\<lparr>jcm_collection := jcollection_new\<lparr>jc_id := uid, jc_remoteId := remoteId, jc_remoteRevision := remoteRevision\<rparr>,
          jcm_metadata := jcm_metadata m @ [''FETCH_COLLECTION'']\<rparr>) }"

definition loadCollectionNotification :: "nat \<Rightarrow> jcollection_change qget" where
  "loadCollectionNotification version =
     (let op = (\<lambda>k. if version \<ge> 5 then k else mapCollectionOperation k) in
      if version = 1 then do {
        operation \<leftarrow> get_i32; uid \<leftarrow> get_i64; remoteId \<leftarrow> get_str; resource \<leftarrow> get_ba; parentCollection \<leftarrow> get_i64;
        parentDestCollection \<leftarrow> get_i64; _ \<leftarrow> get_str; changedParts \<leftarrow> get_set get_ba;
        ret (jcollection_change_new\<lparr>jcm_operation := op operation, jcm_collection := jcollection_new\<lparr>jc_id := uid, jc_remoteId := remoteId\<rparr>,
          jcm_resource := resource, jcm_parentCollection := parentCollection, jcm_parentDestCollection := parentDestCollection,
          jcm_changedParts := changedParts, jcm_metadata := [''FETCH_COLLECTION'']\<rparr>) }
      else if version \<ge> 2 then do {
        operation \<leftarrow> get_i32; entityCnt \<leftarrow> get_i32;
        (complete, msg) \<leftarrow>
          (if version \<ge> 7 then do {
             c \<leftarrow> get_collection;
             ret (case c of None \<Rightarrow> (False, jcollection_change_new) | Some c \<Rightarrow> (True, jcollection_change_new\<lparr>jcm_collection := c\<rparr>)) }
           else get_old_collections (loop_count entityCnt) jcollection_change_new);
        if \<not> complete then ret msg
        else do {
          resource \<leftarrow> get_ba; destinationResource \<leftarrow> get_ba; parentCollection \<leftarrow> get_i64; parentDestCollection \<leftarrow> get_i64;
          changedParts \<leftarrow> get_set get_ba; _ \<leftarrow> get_set get_ba; _ \<leftarrow> get_set get_ba;
          _ \<leftarrow> (if version \<ge> 3 then do { _ \<leftarrow> get_set get_i64; _ \<leftarrow> get_set get_i64; ret () } else ret ());
          ret (msg\<lparr>jcm_operation := op operation, jcm_resource := resource, jcm_destinationResource := destinationResource,
            jcm_parentCollection := parentCollection, jcm_parentDestCollection := parentDestCollection, jcm_changedParts := changedParts\<rparr>) } }
      else ret jcollection_change_new)"

text \<open>\<open>loadTagNotification\<close>; from version 7 on the fields are read in the order in which the code has them. The conversion of a remote id
  with \<open>toLatin1\<close> keeps the low bytes.\<close>

definition toLatin1 :: "qstring \<Rightarrow> qbytearray" where
  "toLatin1 s = map_option (map (\<lambda>u. if u < 256 then ucast u else 63)) s"

fun get_old_tags :: "nat \<Rightarrow> jtag_change \<Rightarrow> (bool \<times> jtag_change) qget" where
  "get_old_tags 0 m = ret (True, m)"
| "get_old_tags (Suc n) m = do {
     uid \<leftarrow> get_i64; remoteId \<leftarrow> get_str; _ \<leftarrow> get_str; _ \<leftarrow> get_str;
     good \<leftarrow> q_status;
     if \<not> good then ret (False, m)
     else get_old_tags n (m\<lparr>jtm_tag := jtag_new\<lparr>jt_id := uid, jt_remoteId := toLatin1 remoteId\<rparr>, jtm_metadata := jtm_metadata m @ [''FETCH_TAG'']\<rparr>) }"

definition loadTagNotification :: "nat \<Rightarrow> jtag_change qget" where
  "loadTagNotification version =
     (let op = (\<lambda>k. if version \<ge> 5 then k else mapTagOperation k) in
      if version = 1 then do {
        _ \<leftarrow> get_i32; uid \<leftarrow> get_i64; remoteId \<leftarrow> get_str; _ \<leftarrow> get_ba; _ \<leftarrow> get_i64; _ \<leftarrow> get_i64; _ \<leftarrow> get_str; _ \<leftarrow> get_set get_ba;
        ret (jtag_change_new\<lparr>jtm_tag := jtag_new\<lparr>jt_id := uid, jt_remoteId := toLatin1 remoteId\<rparr>, jtm_metadata := [''FETCH_TAG'']\<rparr>) }
      else if version \<ge> 7 then do {
        operation \<leftarrow> get_i32; _ \<leftarrow> get_i32;
        uid \<leftarrow> get_i64; ba \<leftarrow> get_ba; attrs \<leftarrow> get_attrs; ba' \<leftarrow> get_ba; _ \<leftarrow> get_i64; _ \<leftarrow> get_ba;
        resource \<leftarrow> get_ba;
        ret (jtag_change_new\<lparr>jtm_operation := op operation,
          jtm_tag := \<lparr>jt_id = uid, jt_parentId = uid, jt_gid = ba, jt_type = ba', jt_remoteId = ba', jt_attributes = attrs\<rparr>,
          jtm_resource := resource\<rparr>) }
      else if version \<ge> 2 then do {
        operation \<leftarrow> get_i32; entityCnt \<leftarrow> get_i32;
        (complete, msg) \<leftarrow> get_old_tags (loop_count entityCnt) jtag_change_new;
        if \<not> complete then ret msg
        else do {
          resource \<leftarrow> get_ba; _ \<leftarrow> get_ba; _ \<leftarrow> get_i64; _ \<leftarrow> get_i64; _ \<leftarrow> get_set get_ba; _ \<leftarrow> get_set get_ba; _ \<leftarrow> get_set get_ba;
          _ \<leftarrow> (if version \<ge> 3 then do { _ \<leftarrow> get_set get_i64; _ \<leftarrow> get_set get_i64; ret () } else ret ());
          ret (msg\<lparr>jtm_operation := op operation, jtm_resource := resource\<rparr>) } }
      else ret jtag_change_new)"

text \<open>\<open>loadRelationNotification\<close>: the result is thrown away.\<close>

fun skip_old_relations :: "nat \<Rightarrow> bool qget" where
  "skip_old_relations 0 = ret True"
| "skip_old_relations (Suc n) = do {
     _ \<leftarrow> get_i64; _ \<leftarrow> get_str; _ \<leftarrow> get_str; _ \<leftarrow> get_str;
     good \<leftarrow> q_status;
     if \<not> good then ret False else skip_old_relations n }"

definition loadRelationNotification :: "nat \<Rightarrow> unit qget" where
  "loadRelationNotification version =
     (if version \<ge> 7 then do { _ \<leftarrow> get_i32; _ \<leftarrow> get_i32; skip_relation }
      else if version \<ge> 2 then do {
        _ \<leftarrow> get_i32; entityCnt \<leftarrow> get_i32;
        complete \<leftarrow> skip_old_relations (loop_count entityCnt);
        if \<not> complete then ret ()
        else do {
          _ \<leftarrow> get_ba;
          _ \<leftarrow> (if version = 5 then do { _ \<leftarrow> get_i64; ret () } else do { _ \<leftarrow> get_ba; ret () });
          _ \<leftarrow> get_i64; _ \<leftarrow> get_i64; _ \<leftarrow> get_set get_ba; _ \<leftarrow> get_set get_ba; _ \<leftarrow> get_set get_ba;
          if version \<ge> 3 then do { _ \<leftarrow> get_set get_i64; _ \<leftarrow> get_set get_i64; ret () } else ret () } }
      else ret ())"

text \<open>One iteration of \<open>loadFrom\<close> after the session and the type, and the loop.\<close>

definition get_body :: "'d qget \<Rightarrow> 'd \<Rightarrow> nat \<Rightarrow> 32 word \<Rightarrow> 'd jbody option qget" where
  "get_body get_dt d version ty =
     (if ty = 1 then do { m \<leftarrow> loadItemNotification get_dt d version; ret (Some (JItem m)) }
      else if ty = 2 then do { m \<leftarrow> loadCollectionNotification version; ret (Some (JCollection m)) }
      else if ty = 3 then do { m \<leftarrow> loadTagNotification version; ret (Some (JTag m)) }
      else if ty = 4 then do { loadRelationNotification version; ret None }
      else ret None)"

fun load_messages :: "'d qget \<Rightarrow> 'd \<Rightarrow> nat \<Rightarrow> nat \<Rightarrow> nat \<Rightarrow> nat \<Rightarrow> 'd jmessage list qget" where
  "load_messages get_dt d version startOffset i 0 = ret []"
| "load_messages get_dt d version startOffset i (Suc n) = do {
     atEnd \<leftarrow> q_atEnd;
     if atEnd then ret []
     else do {
       session \<leftarrow> get_ba;
       ty \<leftarrow> get_i32;
       good \<leftarrow> q_status;
       if \<not> good then ret []
       else do {
         b \<leftarrow> get_body get_dt d version ty;
         ms \<leftarrow> load_messages get_dt d version startOffset (Suc i) n;
         ret (case b of None \<Rightarrow> ms | Some m \<Rightarrow> if i < startOffset then ms else (session, m) # ms) } } }"

text \<open>\<open>loadFrom\<close>, with \<open>needsFullSave\<close>.\<close>

definition loadFrom :: "'d qget \<Rightarrow> 'd \<Rightarrow> byte list \<Rightarrow> 'd jmessage list \<times> bool" where
  "loadFrom get_dt d file = fst (run_state (do {
     sizeAndVersion \<leftarrow> get_i64;
     let size = unat (sizeAndVersion AND s_sizeMask);
     let version = unat (drop_bit 32 (sizeAndVersion AND s_versionMask));
     startOffset \<leftarrow> (if version \<ge> 1 then get_i64 else ret 0);
     ms \<leftarrow> load_messages get_dt d version (unat startOffset) 0 size;
     ret (ms, startOffset > 0 \<or> version = 0) }) (file, True))"

section \<open>What is written is read back\<close>

locale qcodec =
  fixes put :: "'a \<Rightarrow> byte list" and get :: "'a qget" and ok :: "'a \<Rightarrow> bool"
  assumes reads_back: "ok x \<Longrightarrow> run_state get (put x @ rest, True) = (x, (rest, True))"
begin

lemma times_back: "list_all ok xs \<Longrightarrow> run_state (get_times (length xs) get) (concat (map put xs) @ rest, True) = (xs, (rest, True))"
  by (induction xs) (simp_all add: reads_back)

lemma n_back: "list_all ok xs \<Longrightarrow> run_state (get_n get (length xs)) (concat (map put xs) @ rest, True) = (Some xs, (rest, True))"
  by (induction xs) (simp_all add: reads_back q_status_def)

end

lemma be_back:
  fixes v :: "'a::len word"
  assumes "2 ^ LENGTH('a) \<le> (256 :: nat) ^ n"
  shows "run_state (get_be n) (put_be n v @ rest, True) = (v, (rest, True))"
proof -
  have "unat v < 256 ^ n" using assms unsigned_less [of v] by (meson less_le_trans)
  then show ?thesis by (simp add: get_be_def put_be_def q_read_def le_value_bytes)
qed

interpretation i8: qcodec put_i8 get_i8 "\<lambda>_. True"
  by unfold_locales (simp add: be_back)

interpretation i32: qcodec put_i32 get_i32 "\<lambda>_. True"
  by unfold_locales (simp add: be_back)

interpretation i64: qcodec put_i64 get_i64 "\<lambda>_. True"
  by unfold_locales (simp add: be_back)

interpretation bool: qcodec put_bool get_bool "\<lambda>_. True"
  by unfold_locales (simp add: put_bool_def get_bool_def i8.reads_back del: One_nat_def)

definition ba_ok :: "qbytearray \<Rightarrow> bool" where
  "ba_ok d = (case d of None \<Rightarrow> True | Some bs \<Rightarrow> length bs < 2 ^ 32 - 1)"

definition str_ok :: "qstring \<Rightarrow> bool" where
  "str_ok s = (case s of None \<Rightarrow> True | Some us \<Rightarrow> length us < 2 ^ 31 - 1)"

lemma small_length:
  assumes "n < 2 ^ 32 - 1"
  shows "unat (word_of_nat n :: 32 word) = n" "(word_of_nat n :: 32 word) \<noteq> null_marker"
proof -
  show u: "unat (word_of_nat n :: 32 word) = n" using assms by (simp add: unsigned_of_nat take_bit_nat_eq_self)
  have "unat null_marker = 2 ^ 32 - 1" by (simp add: null_marker_def)
  then show "(word_of_nat n :: 32 word) \<noteq> null_marker" using u assms by (metis less_irrefl)
qed

interpretation ba: qcodec put_ba get_ba ba_ok
proof
  fix x rest assume "ba_ok x"
  then show "run_state get_ba (put_ba x @ rest, True) = (x, (rest, True))"
    by (cases x) (simp_all add: put_ba_def get_ba_def ba_ok_def i32.reads_back small_length q_read_def)
qed

lemma be_units_back: "be_units (concat (map (put_be 2) us)) = us"
proof (induction us)
  case (Cons u us)
  have "run_state (get_be 2) (put_be 2 u @ [], True) = (u, ([], True))" by (rule be_back) simp
  moreover obtain a b where "put_be 2 u = [a, b]" by (simp add: put_be_def numeral_2_eq_2)
  ultimately show ?case using Cons.IH by (simp add: get_be_def q_read_def)
qed simp

lemma units_length: "length (concat (map (put_be 2) us)) = 2 * length us"
  by (induction us) (simp_all add: put_be_def)

interpretation str: qcodec put_str get_str str_ok
proof
  fix x rest assume "str_ok x"
  show "run_state get_str (put_str x @ rest, True) = (x, (rest, True))"
  proof (cases x)
    case None
    then show ?thesis by (simp add: put_str_def get_str_def i32.reads_back)
  next
    case (Some us)
    then have "2 * length us < 2 ^ 32 - 1" using \<open>str_ok x\<close> by (simp add: str_ok_def)
    then show ?thesis using Some by (simp add: put_str_def get_str_def i32.reads_back small_length q_read_def units_length be_units_back del: of_nat_mult)
  qed
qed

definition seq_ok :: "('a \<Rightarrow> bool) \<Rightarrow> 'a list \<Rightarrow> bool" where
  "seq_ok ok xs \<longleftrightarrow> length xs < 2 ^ 31 \<and> list_all ok xs"

lemma loop_count_length: "n < 2 ^ 31 \<Longrightarrow> loop_count (word_of_nat n) = n"
proof -
  assume n: "n < 2 ^ 31"
  then have "sint (word_of_nat n :: 32 word) = int n" by (simp add: signed_of_nat signed_take_bit_int_eq_self)
  then show ?thesis by (simp add: loop_count_def)
qed

context qcodec
begin

lemma seq_back: "seq_ok ok xs \<Longrightarrow> run_state (get_seq get) (put_seq put xs @ rest, True) = (xs, (rest, True))"
  using n_back [of xs rest] by (simp add: get_seq_def put_seq_def seq_ok_def i32.reads_back small_length)

lemma loop_back: "seq_ok ok xs \<Longrightarrow>
    run_state (do { cnt \<leftarrow> get_i32; get_times (loop_count cnt) get }) (put_seq put xs @ rest, True) = (xs, (rest, True))"
  using times_back [of xs rest] by (simp add: put_seq_def seq_ok_def i32.reads_back loop_count_length)

lemma distinct_fold: "distinct (ys @ xs) \<Longrightarrow> fold (\<lambda>x ys. if x \<in> set ys then ys else ys @ [x]) xs ys = ys @ xs"
  by (induction xs arbitrary: ys) auto

lemma set_back: "seq_ok ok xs \<Longrightarrow> distinct xs \<Longrightarrow> run_state (get_set get) (put_seq put xs @ rest, True) = (xs, (rest, True))"
  using distinct_fold [of "[]" xs] by (simp add: get_set_def seq_back)

end

lemmas codec_defs = put_tag_def get_tag_def put_ancestor_def get_ancestor_def put_part_def get_part_def

lemmas reads_back = i8.reads_back i32.reads_back i64.reads_back bool.reads_back ba.reads_back str.reads_back

definition kv_ok :: "qbytearray \<times> qbytearray \<Rightarrow> bool" where
  "kv_ok p \<longleftrightarrow> ba_ok (fst p) \<and> ba_ok (snd p)"

interpretation kv: qcodec put_kv get_kv kv_ok
  by unfold_locales (simp add: put_kv_def get_kv_def kv_ok_def reads_back)

text \<open>A map has every key once.\<close>

definition attrs_ok :: "qattributes \<Rightarrow> bool" where
  "attrs_ok as \<longleftrightarrow> seq_ok kv_ok as \<and> distinct (map fst as)"

lemma fold_update: "distinct (map fst (ys @ xs)) \<Longrightarrow> fold (\<lambda>(k, v). AList.update k v) xs ys = ys @ xs"
proof (induction xs arbitrary: ys)
  case (Cons x xs)
  obtain k v where x: "x = (k, v)" by fastforce
  have "AList.update k v ys = ys @ [(k, v)]" using Cons.prems x by (induction ys) auto
  then show ?case using Cons.IH [of "ys @ [x]"] Cons.prems x by simp
qed simp

interpretation attrs: qcodec "put_seq put_kv" get_attrs attrs_ok
  by unfold_locales (simp add: get_attrs_def attrs_ok_def kv.seq_back fold_update [of "[]", simplified])

definition tag_ok :: "jtag \<Rightarrow> bool" where
  "tag_ok g \<longleftrightarrow> ba_ok (jt_gid g) \<and> ba_ok (jt_type g) \<and> ba_ok (jt_remoteId g) \<and> attrs_ok (jt_attributes g)"

interpretation tag: qcodec put_tag get_tag tag_ok
  by unfold_locales (simp add: put_tag_def get_tag_def tag_ok_def reads_back attrs.reads_back)

definition ancestor_ok :: "jancestor \<Rightarrow> bool" where
  "ancestor_ok a \<longleftrightarrow> str_ok (ja_remoteId a) \<and> str_ok (ja_name a) \<and> attrs_ok (ja_attributes a)"

interpretation ancestor: qcodec put_ancestor get_ancestor ancestor_ok
  by unfold_locales (simp add: put_ancestor_def get_ancestor_def ancestor_ok_def reads_back attrs.reads_back)

text \<open>The loop with the early return takes the same way as the containers.\<close>

lemma get_ancestors_get_n: "get_ancestors n = get_n get_ancestor n"
  by (induction n) (simp_all cong: if_cong)

lemma seq_head: "run_state get_i32 (put_seq p xs @ rest, True) = (word_of_nat (length xs), (concat (map p xs) @ rest, True))"
  by (simp add: put_seq_def i32.reads_back)

lemma ancestors_back: "seq_ok ancestor_ok as \<Longrightarrow>
    run_state (get_ancestors (loop_count (word_of_nat (length as)))) (concat (map put_ancestor as) @ rest, True) = (Some as, (rest, True))"
  using ancestor.n_back [of as rest] by (simp add: get_ancestors_get_n seq_ok_def loop_count_length)

definition collection_ok :: "jcollection \<Rightarrow> bool" where
  "collection_ok c \<longleftrightarrow> list_all str_ok [jc_name c, jc_remoteId c, jc_remoteRevision c, jc_resource c, jc_searchQuery c] \<and>
     seq_ok str_ok (jc_mimeTypes c) \<and> seq_ok (\<lambda>_. True) (jc_searchCollections c) \<and> seq_ok ancestor_ok (jc_ancestors c) \<and>
     seq_ok str_ok (jc_localParts c) \<and> attrs_ok (jc_attributes c)"

lemma collection_back:
  assumes "collection_ok c"
  shows "run_state get_collection (put_collection c @ rest, True) = (Some c, (rest, True))"
  using assms by (simp add: get_collection_def put_collection_def collection_ok_def reads_back str.seq_back i64.seq_back attrs.reads_back seq_head ancestors_back
    del: One_nat_def)

definition collection_change_ok :: "jcollection_change \<Rightarrow> bool" where
  "collection_change_ok m \<longleftrightarrow> collection_ok (jcm_collection m) \<and> ba_ok (jcm_resource m) \<and> ba_ok (jcm_destinationResource m) \<and>
     seq_ok ba_ok (jcm_changedParts m) \<and> distinct (jcm_changedParts m)"

lemma seq_ok_Nil: "seq_ok ok []"
  by (simp add: seq_ok_def)

text \<open>What a collection notification is after a restart: the metadata is not part of the journal.\<close>

definition journalled :: "jcollection_change \<Rightarrow> jcollection_change" where
  "journalled m = m\<lparr>jcm_metadata := []\<rparr>"

lemma collection_change_back:
  assumes "collection_change_ok m" "7 \<le> version"
  shows "run_state (loadCollectionNotification version) (saveCollectionNotification m @ rest, True) = (journalled m, (rest, True))"
proof -
  have v: "version \<noteq> 1" "2 \<le> version" "3 \<le> version" "5 \<le> version" using assms(2) by auto
  have ok: "collection_ok (jcm_collection m)" "ba_ok (jcm_resource m)" "ba_ok (jcm_destinationResource m)"
    "seq_ok ba_ok (jcm_changedParts m)" "distinct (jcm_changedParts m)" using assms(1) by (simp_all add: collection_change_ok_def)
  show ?thesis
    by (simp only: loadCollectionNotification_def saveCollectionNotification_def v Let_def if_True if_False append.assoc simp_thms,
        simp add: reads_back collection_back [OF ok(1)] assms(2) jcollection_change_new_def,
        simp add: ok reads_back ba.set_back i64.set_back seq_ok_Nil, simp add: journalled_def)
qed

type_synonym collection_message = "qbytearray \<times> jcollection_change"

definition collection_message_ok :: "collection_message \<Rightarrow> bool" where
  "collection_message_ok m \<longleftrightarrow> ba_ok (fst m) \<and> collection_change_ok (snd m)"

definition as_message :: "collection_message \<Rightarrow> 'd jmessage" where
  "as_message m = (fst m, JCollection (snd m))"

definition after_restart :: "collection_message \<Rightarrow> 'd jmessage" where
  "after_restart m = (fst m, JCollection (journalled (snd m)))"

lemma put_i32_not_Nil: "put_i32 w \<noteq> []"
proof -
  have "length (put_i32 w) = 4" by (simp add: put_be_def)
  then show ?thesis by force
qed

lemma load_messages_back:
  assumes "list_all collection_message_ok ns" "7 \<le> version"
  shows "run_state (load_messages g d version k i (length ns)) (concat (map (put_message p) (map as_message ns)) @ rest, True) =
    (map after_restart (drop (k - i) ns), (rest, True))"
  using assms(1)
proof (induction ns arbitrary: i)
  case (Cons m ns)
  have ok: "ba_ok (fst m)" "collection_change_ok (snd m)" and IH: "list_all collection_message_ok ns"
    using Cons.prems by (auto simp: collection_message_ok_def [of m])
  have "concat (map (put_message p) (map as_message (m # ns))) @ rest =
      put_ba (fst m) @ put_i32 2 @ saveCollectionNotification (snd m) @ concat (map (put_message p) (map as_message ns)) @ rest"
    by (simp add: put_message_def as_message_def mapToLegacyType_def)
  moreover have "run_state (get_body g d version 2) (saveCollectionNotification (snd m) @ r, True) =
      (Some (JCollection (journalled (snd m))), (r, True))" for r
    by (simp add: get_body_def collection_change_back [OF ok(2) assms(2)])
  moreover have "drop (k - i) (m # ns) = (if i < k then drop (k - Suc i) ns else m # ns)" by (simp add: drop_Cons')
  moreover have "\<not> i < k \<Longrightarrow> k - Suc i = 0" by simp
  ultimately show ?case using Cons.IH [OF IH, of "Suc i"]
    by (simp add: q_atEnd_def q_status_def after_restart_def ok(1) ba.reads_back i32.reads_back put_i32_not_Nil)
qed simp

text \<open>The start offset is the second number of the file.\<close>

definition with_offset :: "64 word \<Rightarrow> byte list \<Rightarrow> byte list" where
  "with_offset k f = take 8 (f @ replicate (8 - length f) 0) @ put_i64 k @ drop 16 f"

lemma with_offset_save: "with_offset k (saveTo p ns) = put_i64 (word_of_nat (length ns) OR s_currentVersion) @ put_i64 k @ concat (map (put_message p) ns)"
  by (simp add: with_offset_def saveTo_def put_be_def)

lemma header_parts:
  assumes "n < 2 ^ 32"
  shows "unat ((word_of_nat n OR s_currentVersion) AND s_sizeMask) = n"
    "unat (drop_bit 32 ((word_of_nat n OR s_currentVersion) AND s_versionMask)) = 10"
proof -
  have n: "take_bit 32 (word_of_nat n :: 64 word) = word_of_nat n" using assms
    by (simp add: take_bit_of_nat take_bit_nat_eq_self)
  have "(word_of_nat n OR s_currentVersion) AND s_sizeMask = take_bit 32 (word_of_nat n OR s_currentVersion)"
    by (simp add: s_sizeMask_def take_bit_eq_mask mask_eq_exp_minus_1)
  also have "\<dots> = word_of_nat n" by (simp add: n s_currentVersion_def)
  finally show "unat ((word_of_nat n OR s_currentVersion) AND s_sizeMask) = n"
    using assms by (simp add: unsigned_of_nat take_bit_nat_eq_self)
  have "drop_bit 32 (word_of_nat n :: 64 word) = 0" using n by (metis drop_bit_take_bit take_bit_0 diff_self_eq_0)
  then show "unat (drop_bit 32 ((word_of_nat n OR s_currentVersion) AND s_versionMask)) = 10"
    by (simp add: drop_bit_and drop_bit_or s_currentVersion_def s_versionMask_def)
qed

lemma journal_reads_back:
  assumes "list_all collection_message_ok ns" "length ns < 2 ^ 32"
  shows "loadFrom g d (with_offset k (saveTo p (map as_message ns))) = (map after_restart (drop (unat k) ns), 0 < k)"
  using header_parts [OF assms(2)] load_messages_back [OF assms(1), of 10 g d "unat k" 0 p "[]"]
  by (simp add: with_offset_save loadFrom_def i64.reads_back)

lemma without_offset: "with_offset 0 (saveTo p ns) = saveTo p ns"
  by (simp add: with_offset_save) (simp add: saveTo_def)

text \<open>What the change recorder has written it reads back. A journal of collection notifications gives, in the same order and with the
  session they came from, all notifications after the first \<open>k\<close>, where \<open>k\<close> is the start offset that \<open>writeStartOffset\<close> puts into the file; every
  member is kept but the metadata. The reader asks for a new full save exactly if there is an offset.\<close>

theorem collection_journal_roundtrip:
  assumes "list_all collection_message_ok ns" "length ns < 2 ^ 32"
  shows "loadFrom g d (saveTo p (map as_message ns)) = (map after_restart ns, False) \<and>
    loadFrom g d (with_offset k (saveTo p (map as_message ns))) = (map after_restart (drop (unat k) ns), 0 < k)"
  using journal_reads_back [OF assms, of g d 0 p] journal_reads_back [OF assms, of g d k p] by (simp add: without_offset)

definition sample_change :: jcollection_change where
  "sample_change = jcollection_change_new\<lparr>jcm_operation := 2, jcm_resource := Some [97],
     jcm_collection := jcollection_new\<lparr>jc_id := 7, jc_name := Some [105], jc_attributes := [(Some [65], Some [1, 2])]\<rparr>,
     jcm_changedParts := [Some [78]]\<rparr>"

lemma collection_journal_roundtrip_witness:
  "loadFrom (ret ()) () (with_offset 1 (saveTo (\<lambda>_ :: unit. []) (map as_message [(Some [1], sample_change), (None, sample_change)]))) =
     ([(None, JCollection sample_change)], True)"
proof -
  have "list_all collection_message_ok [(Some [1], sample_change), (None, sample_change)]"
    by (simp add: collection_message_ok_def sample_change_def collection_change_ok_def collection_ok_def ba_ok_def str_ok_def seq_ok_def
      attrs_ok_def kv_ok_def jcollection_change_new_def jcollection_new_def)
  moreover have "after_restart (None, sample_change) = ((None, JCollection sample_change) :: unit jmessage)"
    by (simp add: after_restart_def journalled_def sample_change_def jcollection_change_new_def)
  ultimately show ?thesis
    using collection_journal_roundtrip [of "[(Some [1], sample_change), (None, sample_change)]" "ret ()" "()" "\<lambda>_ :: unit. []" 1] by simp
qed

lemma put_be_0: "put_be n 0 = replicate n 0"
proof -
  have "le_bytes n 0 = replicate n 0" by (induction n) simp_all
  then show ?thesis by (simp add: put_be_def)
qed

text \<open>The reader of tag notifications takes the members in another order than the writer has them. A tag with the global id \<open>x\<close> and nothing else
  comes back as its own parent, without a global id, with \<open>x\<close> as its type and as its remote id.\<close>

lemma tag_journal_mixes_members:
  assumes "ba_ok s" "ba_ok x" "ba_ok r"
  shows "loadFrom g d (saveTo p [(s, JTag (jtag_change_new\<lparr>jtm_operation := op, jtm_resource := r,
      jtm_tag := \<lparr>jt_id = i, jt_parentId = 0, jt_gid = x, jt_type = Some [], jt_remoteId = Some [], jt_attributes = []\<rparr>\<rparr>))]) =
    ([(s, JTag (jtag_change_new\<lparr>jtm_operation := op, jtm_resource := r,
      jtm_tag := \<lparr>jt_id = i, jt_parentId = i, jt_gid = Some [], jt_type = x, jt_remoteId = x, jt_attributes = []\<rparr>\<rparr>))], False)"
proof -
  have two: "put_ba (Some []) @ put_ba (Some []) = put_i64 0" by (simp add: put_ba_def put_be_0 flip: replicate_add)
  have zero: "put_i64 0 = put_ba (Some []) @ put_seq put_kv []" by (simp add: put_ba_def put_seq_def put_be_0 flip: replicate_add)
  have "put_seq put_kv [] = put_ba (Some [])" by (simp add: put_seq_def put_ba_def)
  with two have "put_message p (s, JTag (jtag_change_new\<lparr>jtm_operation := op, jtm_resource := r,
      jtm_tag := \<lparr>jt_id = i, jt_parentId = 0, jt_gid = x, jt_type = Some [], jt_remoteId = Some [], jt_attributes = []\<rparr>\<rparr>)) =
      put_ba s @ put_i32 3 @ put_i32 op @ put_i32 1 @ put_i64 i @ put_ba (Some []) @ put_seq put_kv [] @ put_ba x @ put_i64 0 @ put_ba (Some []) @ put_ba r"
    by (simp add: put_message_def saveTagNotification_def put_tag_def mapToLegacyType_def zero)
  then show ?thesis
    using header_parts [of 1] assms ba.reads_back [OF assms(3), of "[]"]
    by (simp add: saveTo_def loadFrom_def reads_back q_atEnd_def q_status_def put_i32_not_Nil get_body_def loadTagNotification_def ba_ok_def
      attrs.reads_back attrs_ok_def seq_ok_Nil jtag_change_new_def)
qed

text \<open>The reader of item notifications expects the relations of every item, which the writer does not write any more. Everything after the
  virtual references is read from the wrong place: an item that was added to collection 5 comes back as one added to another collection.\<close>

definition sample_item_change :: "unit jitem_change" where
  "sample_item_change = jitem_change_new\<lparr>jim_operation := 1, jim_items := [(jitem_new ())\<lparr>ji_id := 3\<rparr>], jim_resource := Some [],
     jim_destinationResource := Some [], jim_parentCollection := 5\<rparr>"

lemma le_bytes_numeral: "le_bytes (numeral k) v = word_of_nat v # le_bytes (pred_numeral k) (v div 256)"
  by (metis le_bytes.simps(2) numeral_eq_Suc)

lemma put_seq_Nil: "put_seq p [] = put_i32 0"
  by (simp add: put_seq_def)

lemma put_ba_empty: "put_ba (Some []) = put_i32 0"
  by (simp add: put_ba_def)

lemma empty_back:
  "run_state get_ba (put_i32 0 @ rest, True) = (Some [], (rest, True))"
  "run_state (get_seq get_ba) (put_i32 0 @ rest, True) = ([], (rest, True))"
  "run_state (get_set get_ba) (put_i32 0 @ rest, True) = ([], (rest, True))"
  "run_state (get_seq get_i64) (put_i32 0 @ rest, True) = ([], (rest, True))"
  "run_state loadTags (put_i32 0 @ rest, True) = ([], (rest, True))"
  using ba.reads_back [of "Some []" rest] ba.seq_back [of "[]" rest] ba.set_back [of "[]" rest] i64.seq_back [of "[]" rest]
    tag.loop_back [of "[]" rest]
  by (simp_all add: put_ba_empty put_seq_Nil seq_ok_Nil ba_ok_def loadTags_def)

lemma shifted_words:
  "put_i64 5 = put_i32 0 @ put_i32 5"
  "put_i64 (-1) = put_i32 (-1) @ put_i32 (-1)"
  "put_i64 0x5FFFFFFFF = put_i32 5 @ put_i32 (-1)"
  "put_i64 0xFFFFFFFF00000000 = put_i32 (-1) @ put_i32 0"
proof -
  have "unat (-1 :: 32 word) = 0xFFFFFFFF" "unat (-1 :: 64 word) = 0xFFFFFFFFFFFFFFFF"
    by (simp_all add: unsigned_minus_1_eq_mask mask_eq_exp_minus_1)
  moreover have "ucast (-1 :: 32 word) = (-1 :: 8 word)" "ucast (-1 :: 64 word) = (-1 :: 8 word)"
    by (simp_all add: unsigned_minus_1_eq_mask mask_eq_exp_minus_1)
  ultimately show "put_i64 5 = put_i32 0 @ put_i32 5" "put_i64 (-1) = put_i32 (-1) @ put_i32 (-1)"
    "put_i64 0x5FFFFFFFF = put_i32 5 @ put_i32 (-1)" "put_i64 0xFFFFFFFF00000000 = put_i32 (-1) @ put_i32 0"
    by (simp_all add: put_be_def le_bytes_numeral)
qed

lemma item_journal_shifts_members:
  "loadFrom (ret ()) () (saveTo (\<lambda>_. []) [(Some [], JItem sample_item_change)]) =
     ([(Some [], JItem (sample_item_change\<lparr>jim_parentCollection := 0x5FFFFFFFF, jim_parentDestCollection := 0xFFFFFFFF00000000\<rparr>))], False)"
proof -
  have "put_message (\<lambda>_. []) (Some [], JItem sample_item_change) = put_ba (Some []) @ put_i32 1 @ put_i32 1 @ put_i32 1 @
      put_i64 3 @ put_i32 (-1) @ put_i64 (-1) @ put_str None @ put_str None @ put_str None @ put_i64 0 @ put_str None @
      put_i32 0 @ put_i32 0 @ put_i32 0 @ put_i32 0 @ put_i32 0 @ put_i32 0 @ put_i32 0 @ put_i32 0 @
      put_i32 0 @ put_i64 0x5FFFFFFFF @ put_i64 0xFFFFFFFF00000000 @ put_i32 0 @ put_i32 0 @ put_i32 0 @ put_i32 0 @ put_bool False"
    by (simp add: put_message_def sample_item_change_def mapToLegacyType_def saveItemNotification_def jitem_change_new_def put_seq_def put_item_def
      jitem_new_def saveTags_def put_ba_def shifted_words(1,3,4)) (simp add: shifted_words)
  moreover have "loop_count 0 = 0" "loop_count 1 = 1" by (simp_all add: loop_count_def)
  moreover have "run_state loadTags (put_bool False, True) = ([], ([], False))" "run_state get_bool ([], False) = (False, ([], False))"
    by (simp_all add: loadTags_def get_bool_def put_bool_def get_be_def q_read_def loop_count_def put_be_0)
  ultimately show ?thesis
    using header_parts [of 1] ba.reads_back [of "Some []"]
    by (simp add: saveTo_def loadFrom_def i64.reads_back i32.reads_back ba.reads_back ba_ok_def str.reads_back str_ok_def empty_back q_atEnd_def
      q_status_def put_i32_not_Nil get_body_def loadItemNotification_def get_item_def
      sample_item_change_def jitem_change_new_def jitem_new_def)
qed

end
