(* ===== verification/ChangeRecorder.thy ===== *)
theory ChangeRecorder
  imports ChangeJournal Transition
begin

text \<open>
  The change recorder, \<open>src/core/changerecorder.cpp\<close> and \<open>src/core/changerecorder_p.cpp\<close>: a monitor that keeps its waiting notifications in a
  file until the agent says that it has processed them. The journal (theory \<open>ChangeJournal\<close>) is behind the locale \<open>journal\<close>. Whether a file
  can be opened for writing is an argument \<open>w\<close> of the operations; the notifications that the monitor adds (\<open>slotNotify\<close>), the answers
  of \<open>ensureDataAvailable\<close> and \<open>translateAndCompress\<close> and whether somebody listens are arguments as well. Not modelled: the output for debugging.
\<close>

section \<open>State and operations\<close>

record 'm recorder =
  cr_settings :: bool
  cr_file :: "byte list option"
  cr_enabled :: bool
  cr_pending :: "'m list"
  cr_pipeline :: "'m list"
  cr_lastKnown :: int
  cr_startOffset :: nat
  cr_needFullSave :: bool

definition recorder_new :: "byte list option \<Rightarrow> 'm recorder" where
  "recorder_new f = \<lparr>cr_settings = False, cr_file = f, cr_enabled = True, cr_pending = [], cr_pipeline = [], cr_lastKnown = 0,
     cr_startOffset = 0, cr_needFullSave = True\<rparr>"

text \<open>What the recorder does to the outside: \<open>emitNotification\<close>, a notification that waits for its data, \<open>nothingToReplay\<close>, \<open>changesAdded\<close>, and a
  queued call of \<open>replayNext\<close>.\<close>

datatype 'm recorder_output = Emitted 'm | Waiting 'm | NothingToReplay | ChangesAdded | ReplayQueued

definition pipelineSize :: "nat \<Rightarrow> 'm recorder \<Rightarrow> nat" where
  "pipelineSize monitorSize s = (if cr_enabled s then 0 else monitorSize)"

definition saveNotifications :: "('m list \<Rightarrow> byte list) \<Rightarrow> bool \<Rightarrow> 'm recorder \<Rightarrow> 'm recorder" where
  "saveNotifications save w s =
     (if \<not> cr_settings s then s
      else if \<not> w then s
      else s\<lparr>cr_file := Some (save (cr_pending s)), cr_needFullSave := False, cr_startOffset := 0\<rparr>)"

definition writeStartOffset :: "bool \<Rightarrow> 'm recorder \<Rightarrow> 'm recorder" where
  "writeStartOffset w s =
     (if \<not> cr_settings s then s
      else if \<not> w then s
      else s\<lparr>cr_file := Some (with_offset (word_of_nat (cr_startOffset s)) (case cr_file s of None \<Rightarrow> [] | Some f \<Rightarrow> f))\<rparr>)"

definition notificationsLoaded :: "'m recorder \<Rightarrow> 'm recorder" where
  "notificationsLoaded s = s\<lparr>cr_lastKnown := int (length (cr_pending s)), cr_startOffset := 0\<rparr>"

text \<open>\<open>loadNotifications\<close>: \<open>legacy\<close> is what the settings file of ancient versions holds, \<open>r\<close> whether the file can be opened for reading.\<close>

definition loadNotifications ::
    "('m list \<Rightarrow> byte list) \<Rightarrow> (byte list \<Rightarrow> 'm list \<times> bool) \<Rightarrow> 'm list \<Rightarrow> bool \<Rightarrow> bool \<Rightarrow> 'm recorder \<Rightarrow> 'm recorder" where
  "loadNotifications save load legacy w r s =
     (let s = s\<lparr>cr_pending := [], cr_pipeline := []\<rparr>;
          s = (if cr_file s = None then saveNotifications save w (s\<lparr>cr_pending := legacy\<rparr>) else s);
          s = (case (if r then cr_file s else None) of
                 Some f \<Rightarrow> s\<lparr>cr_pending := fst (load f), cr_needFullSave := snd (load f)\<rparr>
               | None \<Rightarrow> s\<lparr>cr_needFullSave := True\<rparr>)
      in notificationsLoaded s)"

definition setConfig ::
    "('m list \<Rightarrow> byte list) \<Rightarrow> (byte list \<Rightarrow> 'm list \<times> bool) \<Rightarrow> 'm list \<Rightarrow> bool \<Rightarrow> bool \<Rightarrow> bool \<Rightarrow> 'm recorder \<Rightarrow> 'm recorder" where
  "setConfig save load legacy w r settings s =
     (if settings then loadNotifications save load legacy w r (s\<lparr>cr_settings := True\<rparr>)
      else if cr_settings s then (if cr_enabled s then saveNotifications save w s else s)\<lparr>cr_settings := False\<rparr>
      else s)"

definition notificationsEnqueued :: "('m list \<Rightarrow> byte list) \<Rightarrow> bool \<Rightarrow> int \<Rightarrow> 'm recorder \<Rightarrow> 'm recorder" where
  "notificationsEnqueued save w count s =
     (if cr_enabled s then saveNotifications save w (s\<lparr>cr_lastKnown := cr_lastKnown s + count\<rparr>) else s)"

definition dequeueNotification :: "('m list \<Rightarrow> byte list) \<Rightarrow> bool \<Rightarrow> 'm recorder \<Rightarrow> 'm recorder" where
  "dequeueNotification save w s =
     (if cr_pending s = [] then s
      else let s = s\<lparr>cr_pending := tl (cr_pending s)\<rparr> in
        if cr_enabled s then
          let s = s\<lparr>cr_lastKnown := cr_lastKnown s - 1\<rparr> in
          if cr_needFullSave s \<or> cr_pending s = [] then saveNotifications save w s
          else writeStartOffset w (s\<lparr>cr_startOffset := Suc (cr_startOffset s)\<rparr>)
        else s)"

definition notificationsErased :: "('m list \<Rightarrow> byte list) \<Rightarrow> bool \<Rightarrow> 'm recorder \<Rightarrow> 'm recorder" where
  "notificationsErased save w s =
     (if cr_enabled s then saveNotifications save w (s\<lparr>cr_lastKnown := int (length (cr_pending s)), cr_needFullSave := True\<rparr>) else s)"

text \<open>\<open>slotNotify\<close> with recording enabled: the monitor has appended \<open>ms\<close>; with \<open>touched\<close> it reports a change even if \<open>ms\<close> is empty.\<close>

definition slotNotify_recorder :: "('m list \<Rightarrow> byte list) \<Rightarrow> bool \<Rightarrow> bool \<Rightarrow> 'm list \<Rightarrow> 'm recorder \<Rightarrow> 'm recorder \<times> 'm recorder_output list" where
  "slotNotify_recorder save w touched ms s =
     (let s' = s\<lparr>cr_pending := cr_pending s @ ms\<rparr>;
          s' = (if ms \<noteq> [] \<or> touched then notificationsEnqueued save w (int (length ms)) s' else s')
      in (s', if cr_enabled s \<and> length (cr_pending s') \<noteq> length (cr_pending s) then [ChangesAdded] else []))"

definition emitNotification :: "('m list \<Rightarrow> byte list) \<Rightarrow> bool \<Rightarrow> ('m \<Rightarrow> bool) \<Rightarrow> 'm \<Rightarrow> 'm recorder \<Rightarrow> 'm recorder \<times> 'm recorder_output list" where
  "emitNotification save w listening m s =
     (if \<not> listening m \<and> cr_enabled s then (dequeueNotification save w s, [ReplayQueued])
      else (s, if listening m then [Emitted m] else []))"

lemma pending_of_save [simp]:
  "cr_pending (saveNotifications save w s) = cr_pending s" "cr_pending (writeStartOffset w s) = cr_pending s"
  "cr_enabled (saveNotifications save w s) = cr_enabled s" "cr_enabled (writeStartOffset w s) = cr_enabled s"
  "cr_settings (saveNotifications save w s) = cr_settings s" "cr_settings (writeStartOffset w s) = cr_settings s"
  by (simp_all add: saveNotifications_def writeStartOffset_def)

lemma pending_of_dequeue [simp]:
  "cr_pending (dequeueNotification save w s) = tl (cr_pending s)" "cr_enabled (dequeueNotification save w s) = cr_enabled s"
  "cr_settings (dequeueNotification save w s) = cr_settings s"
  by (simp_all add: dequeueNotification_def Let_def)

text \<open>\<open>replayNext\<close>: \<open>avail\<close> is \<open>ensureDataAvailable\<close>, \<open>accept\<close> the notifications that \<open>translateAndCompress\<close> puts into the pipeline.\<close>

function replayNext :: "('m list \<Rightarrow> byte list) \<Rightarrow> bool \<Rightarrow> ('m \<Rightarrow> bool) \<Rightarrow> ('m \<Rightarrow> 'm list) \<Rightarrow> ('m \<Rightarrow> bool) \<Rightarrow> 'm recorder \<Rightarrow>
    'm recorder \<times> 'm recorder_output list" where
  "replayNext save w avail accept listening s =
     (if \<not> cr_enabled s then (s, [])
      else case cr_pending s of
        [] \<Rightarrow> (s, [NothingToReplay])
      | m # _ \<Rightarrow>
          if avail m then emitNotification save w listening m s
          else if accept m \<noteq> [] then (s\<lparr>cr_pipeline := cr_pipeline s @ accept m\<rparr>, map Waiting (accept m))
          else replayNext save w avail accept listening (dequeueNotification save w s))"
  by pat_completeness auto
termination
  by (relation "measure (\<lambda>(save, w, avail, accept, listening, s). length (cr_pending s))") auto

declare replayNext.simps [simp del]

definition changeProcessed :: "('m list \<Rightarrow> byte list) \<Rightarrow> bool \<Rightarrow> 'm recorder \<Rightarrow> 'm recorder" where
  "changeProcessed save w s =
     (if \<not> cr_enabled s then s
      else if cr_pending s \<noteq> [] then dequeueNotification save w s
      else s)"

text \<open>\<open>setChangeRecordingEnabled\<close>; when it disables the recording, the monitor takes over the notifications.\<close>

definition setChangeRecordingEnabled :: "bool \<Rightarrow> 'm recorder \<Rightarrow> 'm recorder" where
  "setChangeRecordingEnabled enable s =
     (if cr_enabled s = enable then s
      else let s = s\<lparr>cr_enabled := enable\<rparr> in
        if enable then notificationsLoaded (s\<lparr>cr_needFullSave := True\<rparr>) else s)"

section \<open>The journal behind the recorder\<close>

text \<open>What the recorder relies on: a file is read back from its start offset on, up to what a restart loses (\<open>restart\<close>).\<close>

locale journal =
  fixes save :: "'m list \<Rightarrow> byte list" and load :: "byte list \<Rightarrow> 'm list \<times> bool" and ok :: "'m \<Rightarrow> bool" and restart :: "'m \<Rightarrow> 'm"
  assumes reads_from: "list_all ok ns \<Longrightarrow> length ns < 2 ^ 32 \<Longrightarrow> load (with_offset k (save ns)) = (map restart (drop (unat k) ns), 0 < k)"
    and no_offset: "with_offset 0 (save ns) = save ns"
    and restart_twice: "restart (restart m) = restart m"
    and restart_ok: "ok m \<Longrightarrow> ok (restart m)"

text \<open>The events of an agent's life; the files can be written.\<close>

datatype 'm recorder_event =
    Notified bool "'m list"
  | Processed
  | Replay "'m \<Rightarrow> bool" "'m \<Rightarrow> 'm list" "'m \<Rightarrow> bool"
  | Erased "'m list"
  | Restarted

fun recorder_do :: "('m list \<Rightarrow> byte list) \<Rightarrow> (byte list \<Rightarrow> 'm list \<times> bool) \<Rightarrow> 'm recorder_event \<Rightarrow> 'm recorder \<Rightarrow> 'm recorder" where
  "recorder_do save load (Notified touched ms) s = fst (slotNotify_recorder save True touched ms s)"
| "recorder_do save load Processed s = changeProcessed save True s"
| "recorder_do save load (Replay avail accept listening) s = fst (replayNext save True avail accept listening s)"
| "recorder_do save load (Erased ms) s = notificationsErased save True (s\<lparr>cr_pending := ms\<rparr>)"
| "recorder_do save load Restarted s = setConfig save load [] True True True (recorder_new (cr_file s))"

definition recorder_start :: "('m list \<Rightarrow> byte list) \<Rightarrow> (byte list \<Rightarrow> 'm list \<times> bool) \<Rightarrow> 'm list \<Rightarrow> 'm recorder" where
  "recorder_start save load legacy = setConfig save load legacy True True True (recorder_new None)"

text \<open>What may come: notifications the journal can hold.\<close>

definition fits :: "('m \<Rightarrow> bool) \<Rightarrow> 'm list \<Rightarrow> bool" where
  "fits ok ms \<longleftrightarrow> list_all ok ms \<and> length ms < 2 ^ 32"

inductive recorder_step :: "('m list \<Rightarrow> byte list) \<Rightarrow> (byte list \<Rightarrow> 'm list \<times> bool) \<Rightarrow> ('m \<Rightarrow> bool) \<Rightarrow>
    'm recorder \<Rightarrow> 'm recorder_event \<Rightarrow> 'm recorder \<Rightarrow> bool" for save load ok where
  notified: "fits ok (cr_pending s @ ms) \<Longrightarrow> recorder_step save load ok s (Notified touched ms) (recorder_do save load (Notified touched ms) s)"
| processed: "recorder_step save load ok s Processed (recorder_do save load Processed s)"
| replay: "recorder_step save load ok s (Replay a b c) (recorder_do save load (Replay a b c) s)"
| erased: "fits ok ms \<Longrightarrow> recorder_step save load ok s (Erased ms) (recorder_do save load (Erased ms) s)"
| restarted: "recorder_step save load ok s Restarted (recorder_do save load Restarted s)"

definition recorder_init :: "('m list \<Rightarrow> byte list) \<Rightarrow> (byte list \<Rightarrow> 'm list \<times> bool) \<Rightarrow> ('m \<Rightarrow> bool) \<Rightarrow> 'm recorder \<Rightarrow> bool" where
  "recorder_init save load ok s \<longleftrightarrow> (\<exists>legacy. fits ok legacy \<and> s = recorder_start save load legacy)"

lemma with_offset_twice: "with_offset k (with_offset j f) = with_offset k f"
  by (simp add: with_offset_def put_be_def min_def)

lemma unat_offset: "k < 2 ^ 32 \<Longrightarrow> unat (word_of_nat k :: 64 word) = k"
  by (simp add: unsigned_of_nat take_bit_nat_eq_self)

lemma fits_drop: "fits ok ms \<Longrightarrow> fits ok (drop k ms)"
  by (auto simp: fits_def list_all_iff dest: in_set_dropD)

text \<open>The abstract recorder is a queue: a replay takes away what nobody wants, a restart loses what the journal does not hold.\<close>

fun queue_do :: "('m \<Rightarrow> 'm) \<Rightarrow> 'm recorder_event \<Rightarrow> 'm list \<Rightarrow> 'm list" where
  "queue_do restart (Notified touched ms) q = q @ ms"
| "queue_do restart Processed q = tl q"
| "queue_do restart (Replay avail accept listening) q =
     (case dropWhile (\<lambda>m. \<not> avail m \<and> accept m = []) q of [] \<Rightarrow> [] | m # ms \<Rightarrow> if avail m \<and> \<not> listening m then ms else m # ms)"
| "queue_do restart (Erased ms) q = ms"
| "queue_do restart Restarted q = map restart q"

lemma replay_pending:
  "cr_enabled s \<Longrightarrow> cr_pending (fst (replayNext save w avail accept listening s)) = queue_do restart (Replay avail accept listening) (cr_pending s)"
proof (induction "length (cr_pending s)" arbitrary: s rule: less_induct)
  case less
  then show ?case
    by (cases "cr_pending s") (simp_all add: replayNext.simps [of _ _ _ _ _ s] emitNotification_def)
qed

context journal
begin

text \<open>The file is one that was saved, with an offset, and what it has from there on is what is waiting. The recorder knows the offset unless it
  is going to write the file anew.\<close>

definition persistent :: "'m recorder \<Rightarrow> bool" where
  "persistent s \<longleftrightarrow> cr_enabled s \<and> cr_settings s \<and> fits ok (cr_pending s) \<and>
     (\<exists>k ns. fits ok ns \<and> k \<le> length ns \<and> cr_file s = Some (with_offset (word_of_nat k) (save ns)) \<and>
       map restart (cr_pending s) = map restart (drop k ns) \<and> (\<not> cr_needFullSave s \<longrightarrow> k = cr_startOffset s))"

lemma restart_all: "map restart (map restart ms) = map restart ms"
  by (simp add: restart_twice)

lemma fits_restart: "fits ok ms \<Longrightarrow> fits ok (map restart ms)"
  by (auto simp: fits_def list_all_iff restart_ok)

lemma load_offset:
  assumes "fits ok ns" "k \<le> length ns"
  shows "load (with_offset (word_of_nat k) (save ns)) = (map restart (drop k ns), 0 < k)"
proof -
  have "k < 2 ^ 32" using assms by (simp add: fits_def)
  moreover have "0 < (word_of_nat k :: 64 word) \<longleftrightarrow> 0 < k" using unat_offset [OF \<open>k < 2 ^ 32\<close>] by (simp add: word_less_nat_alt)
  ultimately show ?thesis using assms(1) by (simp add: reads_from fits_def unat_offset)
qed

lemma save_persistent: "cr_enabled s \<Longrightarrow> cr_settings s \<Longrightarrow> fits ok (cr_pending s) \<Longrightarrow> persistent (saveNotifications save True s)"
  unfolding persistent_def
  by (rule conjI, simp, rule conjI, simp, rule conjI, simp, rule exI [of _ 0], rule exI [of _ "cr_pending s"])
    (simp add: saveNotifications_def no_offset)

lemma fits_tl: "persistent s \<Longrightarrow> fits ok (tl (cr_pending s))"
  using fits_drop [of ok "cr_pending s" 1] by (simp add: persistent_def drop_Suc)

lemma dequeue_persistent:
  assumes "persistent s"
  shows "persistent (dequeueNotification save True s)"
proof -
  consider "cr_pending s = []" | "cr_pending s \<noteq> []" "cr_needFullSave s \<or> tl (cr_pending s) = []"
    | "cr_pending s \<noteq> []" "\<not> cr_needFullSave s" "tl (cr_pending s) \<noteq> []" by blast
  then show ?thesis
  proof cases
    case 1
    then show ?thesis using assms by (simp add: dequeueNotification_def)
  next
    case 2
    have "cr_enabled s" "cr_settings s" using assms by (simp_all add: persistent_def)
    then show ?thesis using 2 fits_tl [OF assms] unfolding dequeueNotification_def by (simp add: Let_def save_persistent)
  next
    case 3
    then obtain ns where ns: "fits ok ns" "cr_startOffset s \<le> length ns" "cr_file s = Some (with_offset (word_of_nat (cr_startOffset s)) (save ns))"
      "map restart (cr_pending s) = map restart (drop (cr_startOffset s) ns)" using assms by (auto simp: persistent_def)
    have "cr_startOffset s < length ns" using ns(4) 3(1) by (metis drop_all list.map_disc_iff linorder_not_less)
    moreover have "map restart (tl (cr_pending s)) = map restart (drop (Suc (cr_startOffset s)) ns)"
      using arg_cong [OF ns(4), of tl] by (simp add: tl_drop drop_Suc flip: map_tl)
    ultimately have "fits ok ns \<and> Suc (cr_startOffset s) \<le> length ns \<and>
        cr_file (dequeueNotification save True s) = Some (with_offset (word_of_nat (Suc (cr_startOffset s))) (save ns)) \<and>
        map restart (cr_pending (dequeueNotification save True s)) = map restart (drop (Suc (cr_startOffset s)) ns) \<and>
        Suc (cr_startOffset s) = cr_startOffset (dequeueNotification save True s)"
      using 3 assms ns(1,3) by (simp add: dequeueNotification_def Let_def writeStartOffset_def with_offset_twice persistent_def)
    then show ?thesis using assms fits_tl [OF assms] unfolding persistent_def pending_of_dequeue by blast
  qed
qed

lemma replay_persistent: "persistent s \<Longrightarrow> persistent (fst (replayNext save True avail accept listening s))"
proof (induction "length (cr_pending s)" arbitrary: s rule: less_induct)
  case less
  have piped: "persistent (s\<lparr>cr_pipeline := p\<rparr>)" for p using less.prems by (simp add: persistent_def)
  show ?case
  proof (cases "cr_pending s")
    case Nil
    then show ?thesis using less.prems by (simp add: replayNext.simps [of _ _ _ _ _ s])
  next
    case (Cons m ms)
    then have "persistent (fst (replayNext save True avail accept listening (dequeueNotification save True s)))"
      using less.prems by (intro less.hyps dequeue_persistent) simp_all
    then show ?thesis using Cons less.prems piped dequeue_persistent [OF less.prems]
      by (simp add: replayNext.simps [of _ _ _ _ _ s] emitNotification_def)
  qed
qed

lemma notify_persistent:
  assumes "persistent s" "fits ok (cr_pending s @ ms)"
  shows "persistent (fst (slotNotify_recorder save True touched ms s))"
proof (cases "ms = [] \<and> \<not> touched")
  case True
  then show ?thesis using assms by (simp add: slotNotify_recorder_def)
next
  case False
  have "cr_enabled s" "cr_settings s" using assms by (simp_all add: persistent_def)
  then show ?thesis using False assms(2) by (auto simp: slotNotify_recorder_def notificationsEnqueued_def Let_def intro: save_persistent)
qed

lemma load_persistent:
  assumes "cr_enabled s" "cr_settings s" "fits ok ns" "k \<le> length ns" "cr_file s = Some (with_offset (word_of_nat k) (save ns))"
  shows "persistent (loadNotifications save load legacy w True s)"
  unfolding persistent_def
  using assms fits_restart [OF fits_drop [OF assms(3)]]
  by (intro conjI exI [of _ k] exI [of _ ns])
    (simp_all add: loadNotifications_def notificationsLoaded_def Let_def load_offset restart_twice)

lemma restart_persistent:
  assumes "persistent s"
  shows "persistent (setConfig save load [] True True True (recorder_new (cr_file s)))"
proof -
  obtain k ns where "fits ok ns" "k \<le> length ns" "cr_file s = Some (with_offset (word_of_nat k) (save ns))"
    using assms by (auto simp: persistent_def)
  then show ?thesis by (auto simp: setConfig_def recorder_new_def intro!: load_persistent)
qed

lemma start_persistent: "fits ok legacy \<Longrightarrow> persistent (recorder_start save load legacy)"
  using load_persistent [of "saveNotifications save True ((recorder_new None)\<lparr>cr_settings := True, cr_pending := legacy\<rparr>)" legacy 0]
  by (simp add: recorder_start_def setConfig_def recorder_new_def loadNotifications_def saveNotifications_def no_offset Let_def)

lemma step_persistent: "recorder_step save load ok s e t \<Longrightarrow> persistent s \<Longrightarrow> persistent t"
proof (induction rule: recorder_step.induct)
  case (processed s)
  then show ?case by (simp add: changeProcessed_def dequeue_persistent)
next
  case (erased ms s)
  have "cr_enabled s" "cr_settings s" using erased.prems by (simp_all add: persistent_def)
  then show ?case using erased.hyps by (auto simp: notificationsErased_def intro: save_persistent)
qed (simp_all add: notify_persistent replay_persistent restart_persistent)

lemma persistent_loads:
  assumes "persistent s"
  shows "\<exists>f. cr_file s = Some f \<and> fst (load f) = map restart (cr_pending s)"
proof -
  obtain k ns where "fits ok ns" "k \<le> length ns" "cr_file s = Some (with_offset (word_of_nat k) (save ns))"
    "map restart (cr_pending s) = map restart (drop k ns)" using assms by (auto simp: persistent_def)
  then show ?thesis by (simp add: load_offset)
qed

lemma pending_do:
  assumes "persistent s"
  shows "cr_pending (recorder_do save load e s) = queue_do restart e (cr_pending s)"
proof (cases e)
  case (Notified touched ms)
  then show ?thesis by (simp add: slotNotify_recorder_def notificationsEnqueued_def Let_def)
next
  case Processed
  then show ?thesis using assms by (simp add: changeProcessed_def persistent_def)
next
  case (Replay a b c)
  then show ?thesis using assms replay_pending [of s save True a b c restart] by (simp add: persistent_def)
next
  case (Erased ms)
  then show ?thesis by (simp add: notificationsErased_def)
next
  case Restarted
  obtain f where "cr_file s = Some f" "fst (load f) = map restart (cr_pending s)" using persistent_loads [OF assms] by blast
  then show ?thesis using Restarted by (simp add: setConfig_def recorder_new_def loadNotifications_def notificationsLoaded_def Let_def)
qed

lemma start_pending:
  assumes "fits ok legacy"
  shows "cr_pending (recorder_start save load legacy) = map restart legacy"
  using load_offset [OF assms, of 0]
  by (simp add: recorder_start_def setConfig_def recorder_new_def loadNotifications_def saveNotifications_def notificationsLoaded_def no_offset Let_def)

lemma run_pending: "run (recorder_step save load ok) s es t \<Longrightarrow> persistent s \<Longrightarrow> cr_pending t = fold (queue_do restart) es (cr_pending s)"
proof (induction rule: run.induct)
  case (run_cons s e t es u)
  then have "t = recorder_do save load e s" by (auto elim: recorder_step.cases)
  then show ?case using run_cons step_persistent pending_do by simp
qed simp

end

sublocale journal \<subseteq> kept: inductive_invariant "recorder_init save load ok" "recorder_step save load ok" persistent
  by unfold_locales (auto simp: recorder_init_def intro: start_persistent step_persistent)

section \<open>The recorder with its journal\<close>

definition jmessage_ok :: "'d jmessage \<Rightarrow> bool" where
  "jmessage_ok m = (case snd m of JCollection c \<Rightarrow> collection_message_ok (fst m, c) | _ \<Rightarrow> False)"

definition jrestart :: "'d jmessage \<Rightarrow> 'd jmessage" where
  "jrestart m = (fst m, case snd m of JCollection c \<Rightarrow> JCollection (journalled c) | b \<Rightarrow> b)"

lemma collection_messages:
  assumes "list_all jmessage_ok ns"
  obtains cs where "ns = map as_message cs" "list_all collection_message_ok cs"
proof -
  have "\<exists>cs. ns = map as_message cs \<and> list_all collection_message_ok cs" using assms
  proof (induction ns)
    case (Cons m ns)
    then obtain cs where cs: "ns = map as_message cs" "list_all collection_message_ok cs" by auto
    obtain c where "snd m = JCollection c" "collection_message_ok (fst m, c)" using Cons.prems by (auto simp: jmessage_ok_def split: jbody.splits)
    then have "m # ns = map as_message ((fst m, c) # cs) \<and> list_all collection_message_ok ((fst m, c) # cs)"
      using cs by (simp add: as_message_def prod_eq_iff)
    then show ?case by (rule exI [of _ "(fst m, c) # cs"])
  qed simp
  then show ?thesis using that by blast
qed

lemma journalled_ok: "collection_message_ok (s, c) \<Longrightarrow> collection_message_ok (s, journalled c)"
  by (simp add: collection_message_ok_def journalled_def collection_change_ok_def)

lemma journalled_twice: "journalled (journalled c) = journalled c"
  by (simp add: journalled_def)

interpretation collections: journal "saveTo p" "loadFrom g d" jmessage_ok jrestart for p g d
proof
  fix ns :: "'a jmessage list" and k :: "64 word" assume "list_all jmessage_ok ns" and "length ns < 2 ^ 32"
  then obtain cs where cs: "ns = map as_message cs" "list_all collection_message_ok cs" by (meson collection_messages)
  have "jrestart (as_message c) = (after_restart c :: 'a jmessage)" for c by (simp add: jrestart_def as_message_def after_restart_def)
  then show "loadFrom g d (with_offset k (saveTo p ns)) = (map jrestart (drop (unat k) ns), 0 < k)"
    using journal_reads_back [OF cs(2), of g d k p] \<open>length ns < 2 ^ 32\<close> cs(1) by (simp add: drop_map)
qed (auto simp: without_offset jrestart_def jmessage_ok_def journalled_ok journalled_twice split: jbody.splits)

text \<open>(C5) No change that an agent has not processed is lost. For every sequence of events (notifications, replays, processed changes, restarts) the
  waiting notifications are those of a plain queue that grows by what is reported and shrinks by what is processed or wanted by nobody, and
  at every moment the journal in the file holds exactly the waiting notifications in their order, so a crash loses nothing. This is for collection
  notifications whose members fit the format of the journal (\<open>jmessage_ok\<close>), for files that can be written, and for less than \<open>2\<^sup>3\<^sup>2\<close> waiting
  notifications (\<open>fits\<close>, at the start and in the steps). Item and tag notifications are read back with their members mixed up
  (\<open>item_journal_shifts_members\<close>, \<open>tag_journal_mixes_members\<close>), and a save that fails is not done again (\<open>failed_save_loses_change\<close>).\<close>

theorem recorder_loses_nothing:
  assumes "fits jmessage_ok legacy"
    and "run (recorder_step (saveTo p) (loadFrom g d) jmessage_ok) (recorder_start (saveTo p) (loadFrom g d) legacy) es s"
  shows "cr_pending s = fold (queue_do jrestart) es (map jrestart legacy) \<and>
    (\<exists>f. cr_file s = Some f \<and> fst (loadFrom g d f) = map jrestart (cr_pending s))"
proof
  note kept = collections.start_persistent [OF assms(1), of p g d]
  show "cr_pending s = fold (queue_do jrestart) es (map jrestart legacy)"
    using collections.run_pending [OF assms(2) kept] by (simp add: collections.start_pending [OF assms(1)])
  show "\<exists>f. cr_file s = Some f \<and> fst (loadFrom g d f) = map jrestart (cr_pending s)"
    using collections.persistent_loads [OF collections.kept.run_inv [OF assms(2) kept]] .
qed

lemma recorder_loses_nothing_witness:
  "let s = recorder_do (saveTo (\<lambda>_. [])) (loadFrom (ret ()) ()) Restarted
         (recorder_do (saveTo (\<lambda>_. [])) (loadFrom (ret ()) ()) Processed
           (recorder_do (saveTo (\<lambda>_. [])) (loadFrom (ret ()) ()) (Notified False [(Some [1], JCollection sample_change), (None, JCollection sample_change)])
             (recorder_start (saveTo (\<lambda>_. [])) (loadFrom (ret ()) ()) [])))
   in cr_pending s = [(None, JCollection sample_change)]"
proof -
  let ?p = "\<lambda>_ :: unit. [] :: byte list" and ?g = "ret () :: unit qget"
  let ?step = "recorder_step (saveTo ?p) (loadFrom ?g ()) jmessage_ok" and ?do = "recorder_do (saveTo ?p) (loadFrom ?g ())"
  let ?ms = "[(Some [1], JCollection sample_change), (None, JCollection sample_change)] :: unit jmessage list"
  let ?s = "recorder_start (saveTo ?p) (loadFrom ?g ()) []"
  have none: "fits jmessage_ok ([] :: unit jmessage list)" by (simp add: fits_def)
  have "fits jmessage_ok ?ms"
    by (simp add: fits_def jmessage_ok_def collection_message_ok_def sample_change_def collection_change_ok_def collection_ok_def ba_ok_def str_ok_def
      seq_ok_def attrs_ok_def kv_ok_def jcollection_change_new_def jcollection_new_def)
  moreover have "cr_pending ?s = []" using collections.start_pending [OF none] by simp
  ultimately have first: "?step ?s (Notified False ?ms) (?do (Notified False ?ms) ?s)" by (intro recorder_step.notified) simp
  have "run ?step ?s [Notified False ?ms, Processed, Restarted] (?do Restarted (?do Processed (?do (Notified False ?ms) ?s)))"
    by (rule run_cons, rule first, rule run_cons, rule recorder_step.processed, rule run_cons, rule recorder_step.restarted, rule run_nil)
  from recorder_loses_nothing [OF none this] show ?thesis
    by (simp add: jrestart_def journalled_def sample_change_def jcollection_change_new_def)
qed

text \<open>A save that fails is not done again. The file of the example holds A; B comes while the file cannot be written; then A is processed, and the
  recorder, which could write again, only sets the offset. After a restart B is gone although it was never processed.\<close>

lemma failed_save_loses_change:
  assumes "list_all jmessage_ok [a, b]"
  shows "let save = saveTo p; load = loadFrom g d;
      s = recorder_start save load [a];
      s = fst (slotNotify_recorder save False False [b] s);
      t = changeProcessed save True s;
      u = recorder_do save load Restarted t
    in cr_pending t = [b] \<and> cr_pending u = []"
proof -
  have a: "fits jmessage_ok [a]" using assms by (simp add: fits_def)
  have start: "recorder_start (saveTo p) (loadFrom g d) [a] =
      \<lparr>cr_settings = True, cr_file = Some (saveTo p [a]), cr_enabled = True, cr_pending = [jrestart a], cr_pipeline = [], cr_lastKnown = 1,
       cr_startOffset = 0, cr_needFullSave = False\<rparr>"
    using collections.load_offset [OF a, of 0 g d p]
    by (simp add: recorder_start_def setConfig_def recorder_new_def loadNotifications_def saveNotifications_def notificationsLoaded_def without_offset Let_def)
  show ?thesis
    using collections.load_offset [OF a, of 1 g d p] 
    by (simp add: Let_def start) (simp add: slotNotify_recorder_def notificationsEnqueued_def saveNotifications_def changeProcessed_def dequeueNotification_def
      writeStartOffset_def setConfig_def recorder_new_def loadNotifications_def notificationsLoaded_def Let_def)
qed

end
