(* ===== verification/MonitorSubscription.thy ===== *)
theory MonitorSubscription
  imports NotificationSubscriber Transition
begin

text \<open>
  What a monitor asks the server for: the setters of \<open>src/core/monitor.cpp\<close> and the subscription of \<open>src/core/monitor_p.cpp\<close>, together with the
  server's side of it (theory \<open>NotificationSubscriber\<close>). The setters of \<open>ModifySubscriptionCommand\<close> are those that
  \<open>src/private/protocolgen/cppgenerator.cpp\<close> generates from \<open>protocol.xml\<close>. Sets are lists without repetitions, in the order of insertion. The fetch scopes
  are kept in the form of the protocol; the conversion of \<open>ProtocolHelper\<close> is not modelled. A command that is sent before
  the socket is connected is thrown away by \<open>Connection::doSendCommand\<close>.
\<close>

section \<open>The command\<close>

definition modify_new :: modify_command where
  "modify_new = \<lparr>modifiedParts = {}, startMonitoringCollections = [], stopMonitoringCollections = [], startMonitoringItems = [],
     stopMonitoringItems = [], startMonitoringTags = [], stopMonitoringTags = [], startMonitoringTypes = [], stopMonitoringTypes = [],
     startMonitoringResources = [], stopMonitoringResources = [], startMonitoringMimeTypes = [], stopMonitoringMimeTypes = [],
     startIgnoringSessions = [], stopIgnoringSessions = [], allMonitored = False, isExclusive = False,
     itemFetchScope = default_item_scope, collectionFetchScope = default_collection_scope, tagFetchScope = default_tag_scope\<rparr>"

text \<open>A setter appends the value to one list and erases its first occurrence from the other.\<close>

definition depends :: "modified_part \<Rightarrow> modified_part \<Rightarrow> modify_command \<Rightarrow> modify_command" where
  "depends p q c = c\<lparr>modifiedParts := insert p (insert q (modifiedParts c))\<rparr>"

definition startMonitoringCollection :: "int \<Rightarrow> modify_command \<Rightarrow> modify_command" where
  "startMonitoringCollection x c = depends ModCollections ModAdd
     (c\<lparr>startMonitoringCollections := startMonitoringCollections c @ [x], stopMonitoringCollections := remove1 x (stopMonitoringCollections c)\<rparr>)"

definition stopMonitoringCollection :: "int \<Rightarrow> modify_command \<Rightarrow> modify_command" where
  "stopMonitoringCollection x c = depends ModCollections ModRemove
     (c\<lparr>stopMonitoringCollections := stopMonitoringCollections c @ [x], startMonitoringCollections := remove1 x (startMonitoringCollections c)\<rparr>)"

definition startMonitoringItem :: "int \<Rightarrow> modify_command \<Rightarrow> modify_command" where
  "startMonitoringItem x c = depends ModItems ModAdd
     (c\<lparr>startMonitoringItems := startMonitoringItems c @ [x], stopMonitoringItems := remove1 x (stopMonitoringItems c)\<rparr>)"

definition stopMonitoringItem :: "int \<Rightarrow> modify_command \<Rightarrow> modify_command" where
  "stopMonitoringItem x c = depends ModItems ModRemove
     (c\<lparr>stopMonitoringItems := stopMonitoringItems c @ [x], startMonitoringItems := remove1 x (startMonitoringItems c)\<rparr>)"

definition startMonitoringTag :: "int \<Rightarrow> modify_command \<Rightarrow> modify_command" where
  "startMonitoringTag x c = depends ModTags ModAdd
     (c\<lparr>startMonitoringTags := startMonitoringTags c @ [x], stopMonitoringTags := remove1 x (stopMonitoringTags c)\<rparr>)"

definition stopMonitoringTag :: "int \<Rightarrow> modify_command \<Rightarrow> modify_command" where
  "stopMonitoringTag x c = depends ModTags ModRemove
     (c\<lparr>stopMonitoringTags := stopMonitoringTags c @ [x], startMonitoringTags := remove1 x (startMonitoringTags c)\<rparr>)"

definition startMonitoringType :: "change_type \<Rightarrow> modify_command \<Rightarrow> modify_command" where
  "startMonitoringType x c = depends ModTypes ModAdd
     (c\<lparr>startMonitoringTypes := startMonitoringTypes c @ [x], stopMonitoringTypes := remove1 x (stopMonitoringTypes c)\<rparr>)"

definition stopMonitoringType :: "change_type \<Rightarrow> modify_command \<Rightarrow> modify_command" where
  "stopMonitoringType x c = depends ModTypes ModRemove
     (c\<lparr>stopMonitoringTypes := stopMonitoringTypes c @ [x], startMonitoringTypes := remove1 x (startMonitoringTypes c)\<rparr>)"

definition startMonitoringResource :: "string \<Rightarrow> modify_command \<Rightarrow> modify_command" where
  "startMonitoringResource x c = depends ModResources ModAdd
     (c\<lparr>startMonitoringResources := startMonitoringResources c @ [x], stopMonitoringResources := remove1 x (stopMonitoringResources c)\<rparr>)"

definition stopMonitoringResource :: "string \<Rightarrow> modify_command \<Rightarrow> modify_command" where
  "stopMonitoringResource x c = depends ModResources ModRemove
     (c\<lparr>stopMonitoringResources := stopMonitoringResources c @ [x], startMonitoringResources := remove1 x (startMonitoringResources c)\<rparr>)"

definition startMonitoringMimeType :: "string \<Rightarrow> modify_command \<Rightarrow> modify_command" where
  "startMonitoringMimeType x c = depends ModMimeTypes ModAdd
     (c\<lparr>startMonitoringMimeTypes := startMonitoringMimeTypes c @ [x], stopMonitoringMimeTypes := remove1 x (stopMonitoringMimeTypes c)\<rparr>)"

definition stopMonitoringMimeType :: "string \<Rightarrow> modify_command \<Rightarrow> modify_command" where
  "stopMonitoringMimeType x c = depends ModMimeTypes ModRemove
     (c\<lparr>stopMonitoringMimeTypes := stopMonitoringMimeTypes c @ [x], startMonitoringMimeTypes := remove1 x (startMonitoringMimeTypes c)\<rparr>)"

definition startIgnoringSession :: "string \<Rightarrow> modify_command \<Rightarrow> modify_command" where
  "startIgnoringSession x c = depends ModSessions ModAdd
     (c\<lparr>startIgnoringSessions := startIgnoringSessions c @ [x], stopIgnoringSessions := remove1 x (stopIgnoringSessions c)\<rparr>)"

definition stopIgnoringSession :: "string \<Rightarrow> modify_command \<Rightarrow> modify_command" where
  "stopIgnoringSession x c = depends ModSessions ModRemove
     (c\<lparr>stopIgnoringSessions := stopIgnoringSessions c @ [x], startIgnoringSessions := remove1 x (startIgnoringSessions c)\<rparr>)"

definition command_setAllMonitored :: "bool \<Rightarrow> modify_command \<Rightarrow> modify_command" where
  "command_setAllMonitored b c = c\<lparr>allMonitored := b, modifiedParts := insert ModAllFlag (modifiedParts c)\<rparr>"

definition command_setIsExclusive :: "bool \<Rightarrow> modify_command \<Rightarrow> modify_command" where
  "command_setIsExclusive b c = c\<lparr>isExclusive := b, modifiedParts := insert ModExclusiveFlag (modifiedParts c)\<rparr>"

definition command_setItemFetchScope :: "item_scope \<Rightarrow> modify_command \<Rightarrow> modify_command" where
  "command_setItemFetchScope s c = c\<lparr>itemFetchScope := s, modifiedParts := insert ModItemFetchScope (modifiedParts c)\<rparr>"

definition command_setCollectionFetchScope :: "collection_scope \<Rightarrow> modify_command \<Rightarrow> modify_command" where
  "command_setCollectionFetchScope s c = c\<lparr>collectionFetchScope := s, modifiedParts := insert ModCollectionFetchScope (modifiedParts c)\<rparr>"

definition command_setTagFetchScope :: "tag_scope \<Rightarrow> modify_command \<Rightarrow> modify_command" where
  "command_setTagFetchScope s c = c\<lparr>tagFetchScope := s, modifiedParts := insert ModTagFetchScope (modifiedParts c)\<rparr>"

section \<open>The monitor\<close>

datatype monitor_type = MCollections | MItems | MTags | MSubscribers | MNotifications

definition monitorTypeToProtocol :: "monitor_type \<Rightarrow> change_type" where
  "monitorTypeToProtocol t =
     (case t of MCollections \<Rightarrow> CollectionChanges | MItems \<Rightarrow> ItemChanges | MTags \<Rightarrow> TagChanges
      | MSubscribers \<Rightarrow> SubscriptionChanges | MNotifications \<Rightarrow> ChangeNotifications)"

record client =
  mc_collections :: "int list"
  mc_items :: "int list"
  mc_tags :: "int list"
  mc_types :: "monitor_type list"
  mc_resources :: "string list"
  mc_mimetypes :: "string list"
  mc_sessions :: "string list"
  mc_monitorAll :: bool
  mc_exclusive :: bool
  mc_itemFetchScope :: item_scope
  mc_collectionFetchScope :: collection_scope
  mc_tagFetchScope :: tag_scope
  pendingModification :: modify_command
  pendingModificationChanges :: "modified_part set"
  modificationTimer :: bool
  monitorReady :: bool

definition client_new :: client where
  "client_new = \<lparr>mc_collections = [], mc_items = [], mc_tags = [], mc_types = [], mc_resources = [], mc_mimetypes = [], mc_sessions = [],
     mc_monitorAll = False, mc_exclusive = False, mc_itemFetchScope = default_item_scope, mc_collectionFetchScope = default_collection_scope,
     mc_tagFetchScope = default_tag_scope, pendingModification = modify_new, pendingModificationChanges = {}, modificationTimer = False,
     monitorReady = False\<rparr>"

definition scheduleSubscriptionUpdate :: "client \<Rightarrow> client" where
  "scheduleSubscriptionUpdate c = (if modificationTimer c \<or> \<not> monitorReady c then c else c\<lparr>modificationTimer := True\<rparr>)"

text \<open>A change of the pending modification that is to be sent.\<close>

definition modify :: "(modify_command \<Rightarrow> modify_command) \<Rightarrow> client \<Rightarrow> client" where
  "modify f c = scheduleSubscriptionUpdate (c\<lparr>pendingModification := f (pendingModification c)\<rparr>)"

definition setCollectionMonitored :: "int \<Rightarrow> bool \<Rightarrow> client \<Rightarrow> client" where
  "setCollectionMonitored x monitored c =
     (if x \<notin> set (mc_collections c) \<and> monitored then modify (startMonitoringCollection x) (c\<lparr>mc_collections := mc_collections c @ [x]\<rparr>)
      else if \<not> monitored \<and> x \<in> set (mc_collections c) then modify (stopMonitoringCollection x) (c\<lparr>mc_collections := removeAll x (mc_collections c)\<rparr>)
      else c)"

definition setItemMonitored :: "int \<Rightarrow> bool \<Rightarrow> client \<Rightarrow> client" where
  "setItemMonitored x monitored c =
     (if x \<notin> set (mc_items c) \<and> monitored then modify (startMonitoringItem x) (c\<lparr>mc_items := mc_items c @ [x]\<rparr>)
      else if \<not> monitored \<and> x \<in> set (mc_items c) then modify (stopMonitoringItem x) (c\<lparr>mc_items := removeAll x (mc_items c)\<rparr>)
      else c)"

definition setResourceMonitored :: "string \<Rightarrow> bool \<Rightarrow> client \<Rightarrow> client" where
  "setResourceMonitored x monitored c =
     (if x \<notin> set (mc_resources c) \<and> monitored then modify (startMonitoringResource x) (c\<lparr>mc_resources := mc_resources c @ [x]\<rparr>)
      else if \<not> monitored \<and> x \<in> set (mc_resources c) then modify (stopMonitoringResource x) (c\<lparr>mc_resources := removeAll x (mc_resources c)\<rparr>)
      else c)"

definition setMimeTypeMonitored :: "string \<Rightarrow> bool \<Rightarrow> client \<Rightarrow> client" where
  "setMimeTypeMonitored x monitored c =
     (if x \<notin> set (mc_mimetypes c) \<and> monitored then modify (startMonitoringMimeType x) (c\<lparr>mc_mimetypes := mc_mimetypes c @ [x]\<rparr>)
      else if \<not> monitored \<and> x \<in> set (mc_mimetypes c) then modify (stopMonitoringMimeType x) (c\<lparr>mc_mimetypes := removeAll x (mc_mimetypes c)\<rparr>)
      else c)"

definition setTagMonitored :: "int \<Rightarrow> bool \<Rightarrow> client \<Rightarrow> client" where
  "setTagMonitored x monitored c =
     (if x \<notin> set (mc_tags c) \<and> monitored then modify (startMonitoringTag x) (c\<lparr>mc_tags := mc_tags c @ [x]\<rparr>)
      else if \<not> monitored \<and> x \<in> set (mc_tags c) then modify (stopMonitoringTag x) (c\<lparr>mc_tags := removeAll x (mc_tags c)\<rparr>)
      else c)"

definition setTypeMonitored :: "monitor_type \<Rightarrow> bool \<Rightarrow> client \<Rightarrow> client" where
  "setTypeMonitored x monitored c =
     (if x \<notin> set (mc_types c) \<and> monitored then modify (startMonitoringType (monitorTypeToProtocol x)) (c\<lparr>mc_types := mc_types c @ [x]\<rparr>)
      else if \<not> monitored \<and> x \<in> set (mc_types c)
      then modify (stopMonitoringType (monitorTypeToProtocol x)) (c\<lparr>mc_types := removeAll x (mc_types c)\<rparr>)
      else c)"

definition setAllMonitored :: "bool \<Rightarrow> client \<Rightarrow> client" where
  "setAllMonitored b c = (if mc_monitorAll c = b then c else modify (command_setAllMonitored b) (c\<lparr>mc_monitorAll := b\<rparr>))"

definition setExclusive :: "bool \<Rightarrow> client \<Rightarrow> client" where
  "setExclusive b c = modify (command_setIsExclusive b) (c\<lparr>mc_exclusive := b\<rparr>)"

definition ignoreSession :: "string \<Rightarrow> client \<Rightarrow> client" where
  "ignoreSession s c = (if s \<in> set (mc_sessions c) then c else modify (startIgnoringSession s) (c\<lparr>mc_sessions := mc_sessions c @ [s]\<rparr>))"

definition slotSessionDestroyed :: "string \<Rightarrow> client \<Rightarrow> client" where
  "slotSessionDestroyed s c = modify (stopIgnoringSession s) (c\<lparr>mc_sessions := removeAll s (mc_sessions c)\<rparr>)"

text \<open>The setters of the fetch scopes, and the accessors that give the scope out for a change.\<close>

definition setItemFetchScope :: "item_scope \<Rightarrow> client \<Rightarrow> client" where
  "setItemFetchScope s c = scheduleSubscriptionUpdate
     (c\<lparr>mc_itemFetchScope := s, pendingModificationChanges := insert ModItemFetchScope (pendingModificationChanges c)\<rparr>)"

definition setCollectionFetchScope :: "collection_scope \<Rightarrow> client \<Rightarrow> client" where
  "setCollectionFetchScope s c = scheduleSubscriptionUpdate
     (c\<lparr>mc_collectionFetchScope := s, pendingModificationChanges := insert ModCollectionFetchScope (pendingModificationChanges c)\<rparr>)"

definition setTagFetchScope :: "tag_scope \<Rightarrow> client \<Rightarrow> client" where
  "setTagFetchScope s c = scheduleSubscriptionUpdate
     (c\<lparr>mc_tagFetchScope := s, pendingModificationChanges := insert ModTagFetchScope (pendingModificationChanges c)\<rparr>)"

text \<open>The first part of \<open>slotUpdateSubscription\<close> puts the fetch scopes that have changed into the command.\<close>

definition with_scopes :: "client \<Rightarrow> modify_command \<Rightarrow> modify_command" where
  "with_scopes c cmd =
     (let parts = pendingModificationChanges c;
          cmd = (if ModItemFetchScope \<in> parts then command_setItemFetchScope (mc_itemFetchScope c) cmd else cmd);
          cmd = (if ModCollectionFetchScope \<in> parts then command_setCollectionFetchScope (mc_collectionFetchScope c) cmd else cmd)
      in if ModTagFetchScope \<in> parts then command_setTagFetchScope (mc_tagFetchScope c) cmd else cmd)"

text \<open>\<open>slotUpdateSubscription\<close>; \<open>connected\<close> is whether there is a connection, the second component what is sent.\<close>

definition slotUpdateSubscription :: "bool \<Rightarrow> client \<Rightarrow> client \<times> modify_command option" where
  "slotUpdateSubscription connected c =
     (let cmd = with_scopes c (pendingModification c);
          c = c\<lparr>modificationTimer := False, pendingModificationChanges := {}, pendingModification := cmd\<rparr>
      in if connected then (c\<lparr>pendingModification := modify_new\<rparr>, Some cmd) else (c, None))"

text \<open>The answer to \<open>CreateSubscription\<close> in \<open>handleCommands\<close>: everything the monitor wants, in one command.\<close>

definition whole_subscription :: "client \<Rightarrow> modify_command" where
  "whole_subscription c =
     (let m = fold startMonitoringCollection (mc_collections c) modify_new;
          m = fold startMonitoringResource (mc_resources c) m;
          m = fold startMonitoringItem (mc_items c) m;
          m = fold startMonitoringTag (mc_tags c) m;
          m = fold (\<lambda>t. startMonitoringType (monitorTypeToProtocol t)) (mc_types c) m;
          m = fold startMonitoringMimeType (mc_mimetypes c) m;
          m = fold startIgnoringSession (mc_sessions c) m;
          m = command_setAllMonitored (mc_monitorAll c) m;
          m = command_setIsExclusive (mc_exclusive c) m;
          m = command_setItemFetchScope (mc_itemFetchScope c) m;
          m = command_setCollectionFetchScope (mc_collectionFetchScope c) m
      in command_setTagFetchScope (mc_tagFetchScope c) m)"

definition subscription_created :: "client \<Rightarrow> client \<times> modify_command" where
  "subscription_created c = (c\<lparr>pendingModification := modify_new\<rparr>, whole_subscription c)"

definition subscription_modified :: "client \<Rightarrow> client" where
  "subscription_modified c = (if \<not> monitorReady c then c\<lparr>monitorReady := True\<rparr> else c)"

section \<open>Monitor and server\<close>

text \<open>The monitor, the subscriber of its connection in the server, and what is under way between them. \<open>w_created\<close>: the whole subscription was sent
  on this connection.\<close>

datatype client_msg = CreateSubscription | ModifySubscription modify_command

datatype reply = Hello | SubscriptionCreated | SubscriptionModified

record world =
  w_client :: client
  w_server :: subscriber
  w_connected :: bool
  w_created :: bool
  w_out :: "client_msg list"
  w_in :: "reply list"

definition world_new :: world where
  "world_new = \<lparr>w_client = client_new, w_server = new_subscriber, w_connected = False, w_created = False, w_out = [], w_in = []\<rparr>"

datatype sub_event =
    SetCollection int bool | SetItem int bool | SetTag int bool | SetType monitor_type bool | SetResource string bool | SetMimeType string bool
  | SetAll bool | SetExclusive bool | IgnoreSession string | SessionDestroyed string
  | Timer | Connect | ServerReads | ClientReads

fun client_call :: "sub_event \<Rightarrow> client \<Rightarrow> client" where
  "client_call (SetCollection x b) = setCollectionMonitored x b"
| "client_call (SetItem x b) = setItemMonitored x b"
| "client_call (SetTag x b) = setTagMonitored x b"
| "client_call (SetType x b) = setTypeMonitored x b"
| "client_call (SetResource x b) = setResourceMonitored x b"
| "client_call (SetMimeType x b) = setMimeTypeMonitored x b"
| "client_call (SetAll b) = setAllMonitored b"
| "client_call (SetExclusive b) = setExclusive b"
| "client_call (IgnoreSession s) = ignoreSession s"
| "client_call (SessionDestroyed s) = slotSessionDestroyed s"
| "client_call _ = id"

text \<open>\<open>connectToNotificationManager\<close>: what \<open>slotUpdateSubscription\<close> sends is thrown away, because the socket is not yet open.\<close>

definition connectToNotificationManager :: "world \<Rightarrow> world" where
  "connectToNotificationManager w = w\<lparr>w_client := fst (slotUpdateSubscription True (w_client w)), w_server := new_subscriber, w_connected := True,
     w_created := False, w_out := [], w_in := [Hello]\<rparr>"

definition timer_fires :: "world \<Rightarrow> world" where
  "timer_fires w =
     (if modificationTimer (w_client w) then
        (case slotUpdateSubscription (w_connected w) (w_client w) of (c, sent) \<Rightarrow>
           w\<lparr>w_client := c, w_out := w_out w @ (case sent of None \<Rightarrow> [] | Some cmd \<Rightarrow> [ModifySubscription cmd])\<rparr>)
      else w)"

definition server_reads :: "(string \<Rightarrow> string) \<Rightarrow> world \<Rightarrow> world" where
  "server_reads canonical w =
     (case w_out w of
        [] \<Rightarrow> w
      | CreateSubscription # ms \<Rightarrow> w\<lparr>w_out := ms, w_in := w_in w @ [SubscriptionCreated]\<rparr>
      | ModifySubscription cmd # ms \<Rightarrow> w\<lparr>w_out := ms, w_server := modify_filters canonical cmd (w_server w), w_in := w_in w @ [SubscriptionModified]\<rparr>)"

text \<open>\<open>handleCommands\<close>, for the replies.\<close>

definition client_reads :: "world \<Rightarrow> world" where
  "client_reads w =
     (case w_in w of
        [] \<Rightarrow> w
      | Hello # rs \<Rightarrow> w\<lparr>w_in := rs, w_out := w_out w @ [CreateSubscription]\<rparr>
      | SubscriptionCreated # rs \<Rightarrow> (case subscription_created (w_client w) of (c, cmd) \<Rightarrow>
          w\<lparr>w_in := rs, w_client := c, w_created := True, w_out := w_out w @ [ModifySubscription cmd]\<rparr>)
      | SubscriptionModified # rs \<Rightarrow> w\<lparr>w_in := rs, w_client := subscription_modified (w_client w)\<rparr>)"

fun world_do :: "(string \<Rightarrow> string) \<Rightarrow> sub_event \<Rightarrow> world \<Rightarrow> world" where
  "world_do canonical Timer w = timer_fires w"
| "world_do canonical Connect w = connectToNotificationManager w"
| "world_do canonical ServerReads w = server_reads canonical w"
| "world_do canonical ClientReads w = client_reads w"
| "world_do canonical e w = w\<lparr>w_client := client_call e (w_client w)\<rparr>"







section \<open>Client and server agree\<close>

text \<open>For one kind of thing: the client wants \<open>A\<close>, the server has \<open>S\<close>, and the lists of the pending command make up the difference.\<close>

definition tracks :: "bool \<Rightarrow> 'a set \<Rightarrow> 'a set \<Rightarrow> 'a list \<Rightarrow> 'a list \<Rightarrow> bool" where
  "tracks flag A S start stop \<longleftrightarrow> A = (S \<union> set start) - set stop \<and> distinct start \<and> distinct stop \<and> set start \<inter> set stop = {} \<and>
     (start = [] \<and> stop = [] \<or> flag)"





definition agrees :: "(string \<Rightarrow> string) \<Rightarrow> client \<Rightarrow> subscriber \<Rightarrow> bool" where
  "agrees canonical c b \<longleftrightarrow> (let m = pendingModification c in
     tracks (ModCollections \<in> modifiedParts m) (set (mc_collections c)) (mMonitoredCollections b) (startMonitoringCollections m) (stopMonitoringCollections m) \<and>
     tracks (ModItems \<in> modifiedParts m) (set (mc_items c)) (mMonitoredItems b) (startMonitoringItems m) (stopMonitoringItems m) \<and>
     tracks (ModTags \<in> modifiedParts m) (set (mc_tags c)) (mMonitoredTags b) (startMonitoringTags m) (stopMonitoringTags m) \<and>
     tracks (ModTypes \<in> modifiedParts m) (monitorTypeToProtocol ` set (mc_types c)) (mMonitoredTypes b) (startMonitoringTypes m) (stopMonitoringTypes m) \<and>
     tracks (ModResources \<in> modifiedParts m) (set (mc_resources c)) (mMonitoredResources b) (startMonitoringResources m) (stopMonitoringResources m) \<and>
     (inj canonical \<longrightarrow> tracks (ModMimeTypes \<in> modifiedParts m) (canonical ` set (mc_mimetypes c)) (mMonitoredMimeTypes b)
        (map canonical (startMonitoringMimeTypes m)) (map canonical (stopMonitoringMimeTypes m))) \<and>
     tracks (ModSessions \<in> modifiedParts m) (set (mc_sessions c)) (mIgnoredSessions b) (startIgnoringSessions m) (stopIgnoringSessions m) \<and>
     mc_monitorAll c = (if ModAllFlag \<in> modifiedParts m then allMonitored m else mAllMonitored b) \<and>
     mc_exclusive c = (if ModExclusiveFlag \<in> modifiedParts m then isExclusive m else mExclusive b))"





lemma agrees_scheduled: "agrees canonical (scheduleSubscriptionUpdate c) b = agrees canonical c b"
  by (simp add: scheduleSubscriptionUpdate_def agrees_def)

lemmas call_defs = modify_def agrees_scheduled depends_def setCollectionMonitored_def startMonitoringCollection_def stopMonitoringCollection_def
  setItemMonitored_def startMonitoringItem_def stopMonitoringItem_def setTagMonitored_def startMonitoringTag_def stopMonitoringTag_def
  setTypeMonitored_def startMonitoringType_def stopMonitoringType_def setResourceMonitored_def startMonitoringResource_def
  stopMonitoringResource_def setMimeTypeMonitored_def startMonitoringMimeType_def stopMonitoringMimeType_def setAllMonitored_def
  command_setAllMonitored_def setExclusive_def command_setIsExclusive_def ignoreSession_def startIgnoringSession_def
  slotSessionDestroyed_def stopIgnoringSession_def

lemma filters_after:
  "mMonitoredCollections (modify_filters canonical m b) = change_set ModCollections m (startMonitoringCollections m) (stopMonitoringCollections m) (mMonitoredCollections b)"
  "mMonitoredItems (modify_filters canonical m b) = change_set ModItems m (startMonitoringItems m) (stopMonitoringItems m) (mMonitoredItems b)"
  "mMonitoredTags (modify_filters canonical m b) = change_set ModTags m (startMonitoringTags m) (stopMonitoringTags m) (mMonitoredTags b)"
  "mMonitoredTypes (modify_filters canonical m b) = change_set ModTypes m (startMonitoringTypes m) (stopMonitoringTypes m) (mMonitoredTypes b)"
  "mMonitoredResources (modify_filters canonical m b) = change_set ModResources m (startMonitoringResources m) (stopMonitoringResources m) (mMonitoredResources b)"
  "mMonitoredMimeTypes (modify_filters canonical m b) = change_set ModMimeTypes m (map canonical (startMonitoringMimeTypes m))
     (map canonical (stopMonitoringMimeTypes m)) (mMonitoredMimeTypes b)"
  "mIgnoredSessions (modify_filters canonical m b) = change_set ModSessions m (startIgnoringSessions m) (stopIgnoringSessions m) (mIgnoredSessions b)"
  "mAllMonitored (modify_filters canonical m b) = (if ModAllFlag \<in> modifiedParts m then allMonitored m else mAllMonitored b)"
  "mExclusive (modify_filters canonical m b) = (if ModExclusiveFlag \<in> modifiedParts m then isExclusive m else mExclusive b)"
  by (simp_all add: modify_filters_def Let_def)












lemma modify_new_fields [simp]:
  "modifiedParts modify_new = {}" "startMonitoringCollections modify_new = []" "stopMonitoringCollections modify_new = []"
  "startMonitoringItems modify_new = []" "stopMonitoringItems modify_new = []" "startMonitoringTags modify_new = []" "stopMonitoringTags modify_new = []"
  "startMonitoringTypes modify_new = []" "stopMonitoringTypes modify_new = []" "startMonitoringResources modify_new = []"
  "stopMonitoringResources modify_new = []" "startMonitoringMimeTypes modify_new = []" "stopMonitoringMimeTypes modify_new = []"
  "startIgnoringSessions modify_new = []" "stopIgnoringSessions modify_new = []"
  by (simp_all add: modify_new_def)




































fun world_run :: "(string \<Rightarrow> string) \<Rightarrow> sub_event list \<Rightarrow> world \<Rightarrow> world" where
  "world_run canonical [] w = w"
| "world_run canonical (e # es) w = world_run canonical es (world_do canonical e w)"



definition subscribe :: "sub_event list" where
  "subscribe = [Connect, ClientReads, ServerReads, ClientReads, ServerReads, ClientReads]"


text \<open>A call between the answer to \<open>CreateSubscription\<close> and the moment when the monitor is ready is written down but not scheduled, and becoming ready
  does not schedule it either. The server does not hear of it until some later call.\<close>

lemma early_call_not_sent:
  "let w = world_run id [Connect, ClientReads, ServerReads, ClientReads, SetCollection 7 True, ServerReads, ClientReads, Timer, ServerReads] world_new
   in monitorReady (w_client w) \<and> mc_collections (w_client w) = [7] \<and> mMonitoredCollections (w_server w) = {} \<and>
      \<not> modificationTimer (w_client w) \<and> w_out w = [] \<and> w_in w = []"
  by code_simp

text \<open>On a reconnection the monitor is ready already. A call whose update is sent before the subscription is created and that is taken back right then is
  never undone in the server, because the creation drops the pending modification and only ever starts monitoring.\<close>

lemma reconnection_keeps_monitoring:
  "let w = world_run id (subscribe @ [Connect, SetCollection 7 True, Timer, ServerReads, SetCollection 7 False,
         ClientReads, ServerReads, ClientReads, ClientReads, ServerReads, Timer, ServerReads, ClientReads, ClientReads]) world_new
   in mc_collections (w_client w) = [] \<and> mMonitoredCollections (w_server w) = {7} \<and> \<not> modificationTimer (w_client w) \<and> w_out w = [] \<and> w_in w = []"
  by code_simp

text \<open>The server keeps the canonical names of the MIME types, the client those it was given. When a client monitors a type under two names and takes one of
  them back, the server takes back both.\<close>

lemma mimetype_alias_lost:
  assumes "canonical ''alias'' = ''name''" "canonical ''name'' = ''name''"
  shows "let b = modify_filters canonical (startMonitoringMimeType ''name'' (startMonitoringMimeType ''alias'' modify_new)) new_subscriber;
             d = modify_filters canonical (stopMonitoringMimeType ''alias'' modify_new) b
         in mMonitoredMimeTypes b = {''name''} \<and> mMonitoredMimeTypes d = {}"
  using assms
  by (simp add: filters_after startMonitoringMimeType_def stopMonitoringMimeType_def depends_def change_set_eq start_monitoring_def stop_monitoring_def
    new_subscriber_def Let_def)

end
