(* ===== verification/EntityCache.thy ===== *)
theory EntityCache
  imports Prelude "HOL-Library.Multiset"
begin

text \<open>
  The caches of \<open>src/core/entitycache_p.h\<close>, from which a monitor takes the entities of its notifications: \<open>EntityCache\<close>, a queue of nodes for single
  collections, and \<open>EntityListCache\<close>, a hash of nodes for lists of items or tags. An entity is its id and its content; \<open>None\<close> is an
  entity that has nothing but its id. The state has the fetch jobs that are running; the environment ends one of them with the entities that it got
  (none, when the job failed). The order in which a \<open>QHash\<close> is iterated is the argument \<open>keys\<close>.
\<close>

section \<open>EntityCache\<close>

type_synonym 'e entity = "int \<times> 'e option"

record 'e node =
  nd_entity :: "'e entity"
  nd_pending :: bool
  nd_invalid :: bool

definition node_new :: "int \<Rightarrow> 'e node" where
  "node_new i = \<lparr>nd_entity = (i, None), nd_pending = True, nd_invalid = False\<rparr>"

definition no_entity :: "'e entity" where
  "no_entity = (-1, None)"

record ('e, 'sc) ecache =
  ec_nodes :: "'e node list"
  ec_capacity :: nat
  ec_jobs :: "(int \<times> 'sc) list"

definition ecache_new :: "nat \<Rightarrow> ('e, 'sc) ecache" where
  "ecache_new n = \<lparr>ec_nodes = [], ec_capacity = n, ec_jobs = []\<rparr>"

definition cacheNodeForId :: "int \<Rightarrow> ('e, 'sc) ecache \<Rightarrow> 'e node option" where
  "cacheNodeForId i c = find (\<lambda>n. fst (nd_entity n) = i) (ec_nodes c)"

definition isCached :: "int \<Rightarrow> ('e, 'sc) ecache \<Rightarrow> bool" where
  "isCached i c = (case cacheNodeForId i c of None \<Rightarrow> False | Some n \<Rightarrow> \<not> nd_pending n)"

definition isRequested :: "int \<Rightarrow> ('e, 'sc) ecache \<Rightarrow> bool" where
  "isRequested i c \<longleftrightarrow> cacheNodeForId i c \<noteq> None"

definition retrieve :: "int \<Rightarrow> ('e, 'sc) ecache \<Rightarrow> 'e entity" where
  "retrieve i c =
     (case cacheNodeForId i c of
        Some n \<Rightarrow> if \<not> nd_pending n \<and> \<not> nd_invalid n then nd_entity n else no_entity
      | None \<Rightarrow> no_entity)"

text \<open>A change to the node that \<open>cacheNodeForId\<close> finds.\<close>

fun at_node :: "int \<Rightarrow> ('e node \<Rightarrow> 'e node) \<Rightarrow> 'e node list \<Rightarrow> 'e node list" where
  "at_node i f [] = []"
| "at_node i f (n # ns) = (if fst (nd_entity n) = i then f n # ns else n # at_node i f ns)"

definition invalidate :: "int \<Rightarrow> ('e, 'sc) ecache \<Rightarrow> ('e, 'sc) ecache" where
  "invalidate i c = c\<lparr>ec_nodes := at_node i (\<lambda>n. n\<lparr>nd_invalid := True\<rparr>) (ec_nodes c)\<rparr>"

fun shrink_queue :: "nat \<Rightarrow> 'e node list \<Rightarrow> 'e node list" where
  "shrink_queue cap [] = []"
| "shrink_queue cap (n # ns) = (if length (n # ns) \<ge> cap \<and> \<not> nd_pending n then shrink_queue cap ns else n # ns)"

definition shrinkCache :: "('e, 'sc) ecache \<Rightarrow> ('e, 'sc) ecache" where
  "shrinkCache c = c\<lparr>ec_nodes := shrink_queue (ec_capacity c) (ec_nodes c)\<rparr>"

definition request :: "int \<Rightarrow> 'sc \<Rightarrow> ('e, 'sc) ecache \<Rightarrow> ('e, 'sc) ecache" where
  "request i scope c =
     (let c = shrinkCache c in c\<lparr>ec_jobs := ec_jobs c @ [(i, scope)], ec_nodes := ec_nodes c @ [node_new i]\<rparr>)"

text \<open>\<open>mCache.removeAll(node)\<close> removes a pointer, so the node that was found.\<close>

definition update :: "int \<Rightarrow> 'sc \<Rightarrow> ('e, 'sc) ecache \<Rightarrow> ('e, 'sc) ecache" where
  "update i scope c =
     (case cacheNodeForId i c of
        None \<Rightarrow> c
      | Some n \<Rightarrow>
          let c = c\<lparr>ec_nodes := (case List.extract (\<lambda>n. fst (nd_entity n) = i) (ec_nodes c) of Some (xs, _, ys) \<Rightarrow> xs @ ys | None \<Rightarrow> ec_nodes c)\<rparr>
          in if nd_pending n then request i scope c else c)"

definition ensureCached :: "int \<Rightarrow> 'sc \<Rightarrow> ('e, 'sc) ecache \<Rightarrow> bool \<times> ('e, 'sc) ecache" where
  "ensureCached i scope c =
     (case cacheNodeForId i c of
        None \<Rightarrow> (False, request i scope c)
      | Some n \<Rightarrow> (\<not> nd_pending n, c))"

definition extractResult :: "'e entity list \<Rightarrow> 'e entity" where
  "extractResult es = (case es of [] \<Rightarrow> no_entity | e # _ \<Rightarrow> e)"

definition accept_result :: "int \<Rightarrow> 'e entity list \<Rightarrow> 'e node \<Rightarrow> 'e node" where
  "accept_result i es n =
     (let n = n\<lparr>nd_pending := False, nd_entity := extractResult es\<rparr> in
      if fst (nd_entity n) \<noteq> i then n\<lparr>nd_entity := (i, snd (nd_entity n)), nd_invalid := True\<rparr> else n)"

text \<open>\<open>processResult\<close> for the running job \<open>j\<close>; the first component is \<open>dataAvailable\<close>.\<close>

definition processResult :: "int \<times> 'sc \<Rightarrow> 'e entity list \<Rightarrow> ('e, 'sc) ecache \<Rightarrow> bool \<times> ('e, 'sc) ecache" where
  "processResult j es c =
     (let c = c\<lparr>ec_jobs := remove1 j (ec_jobs c)\<rparr> in
      if cacheNodeForId (fst j) c = None then (False, c)
      else (True, c\<lparr>ec_nodes := at_node (fst j) (accept_result (fst j) es) (ec_nodes c)\<rparr>))"

section \<open>EntityListCache\<close>

record ('e, 'sc) lcache =
  lc_nodes :: "int \<rightharpoonup> 'e node"
  lc_capacity :: nat
  lc_jobs :: "(int list \<times> 'sc) list"

definition lcache_new :: "nat \<Rightarrow> ('e, 'sc) lcache" where
  "lcache_new n = \<lparr>lc_nodes = Map.empty, lc_capacity = n, lc_jobs = []\<rparr>"

definition list_ready :: "('e, 'sc) lcache \<Rightarrow> int \<Rightarrow> bool" where
  "list_ready c i = (case lc_nodes c i of None \<Rightarrow> False | Some n \<Rightarrow> \<not> nd_pending n \<and> \<not> nd_invalid n)"

definition list_retrieve :: "int list \<Rightarrow> ('e, 'sc) lcache \<Rightarrow> 'e entity list" where
  "list_retrieve ids c = (if list_all (list_ready c) ids then map (\<lambda>i. nd_entity (the (lc_nodes c i))) ids else [])"

definition list_isCached :: "int list \<Rightarrow> ('e, 'sc) lcache \<Rightarrow> bool" where
  "list_isCached ids c = list_all (\<lambda>i. case lc_nodes c i of None \<Rightarrow> False | Some n \<Rightarrow> \<not> nd_pending n) ids"

definition list_isNotRequested :: "int list \<Rightarrow> ('e, 'sc) lcache \<Rightarrow> bool" where
  "list_isNotRequested ids c = list_all (\<lambda>i. lc_nodes c i = None) ids"

text \<open>\<open>shrinkCache\<close>: \<open>sz\<close> is the number of nodes, \<open>keys\<close> the ids in the order of the iteration.\<close>

fun shrink_hash :: "nat \<Rightarrow> int list \<Rightarrow> nat \<Rightarrow> int list \<Rightarrow> (int \<rightharpoonup> 'e node) \<Rightarrow> (int \<rightharpoonup> 'e node)" where
  "shrink_hash cap preserve sz [] m = m"
| "shrink_hash cap preserve sz (k # ks) m =
     (if sz \<ge> cap then
        (if (case m k of None \<Rightarrow> True | Some n \<Rightarrow> nd_pending n) \<or> k \<in> set preserve then shrink_hash cap preserve sz ks m
         else shrink_hash cap preserve (sz - 1) ks (m(k := None)))
      else m)"

definition list_shrinkCache :: "int list \<Rightarrow> int list \<Rightarrow> ('e, 'sc) lcache \<Rightarrow> ('e, 'sc) lcache" where
  "list_shrinkCache keys preserve c = c\<lparr>lc_nodes := shrink_hash (lc_capacity c) preserve (length keys) keys (lc_nodes c)\<rparr>"

definition list_request :: "int list \<Rightarrow> int list \<Rightarrow> 'sc \<Rightarrow> int list \<Rightarrow> ('e, 'sc) lcache \<Rightarrow> ('e, 'sc) lcache" where
  "list_request keys ids scope preserve c =
     (let c = list_shrinkCache keys preserve c in
      c\<lparr>lc_nodes := fold (\<lambda>i m. m(i \<mapsto> node_new i)) ids (lc_nodes c), lc_jobs := lc_jobs c @ [(ids, scope)]\<rparr>)"

definition list_ensureCached :: "int list \<Rightarrow> int list \<Rightarrow> 'sc \<Rightarrow> ('e, 'sc) lcache \<Rightarrow> bool \<times> ('e, 'sc) lcache" where
  "list_ensureCached keys ids scope c =
     (let toRequest = filter (\<lambda>i. lc_nodes c i = None) ids;
          result = list_all (\<lambda>i. case lc_nodes c i of None \<Rightarrow> True | Some n \<Rightarrow> \<not> nd_pending n) ids
      in if toRequest \<noteq> [] then (False, list_request keys toRequest scope ids c) else (result, c))"

definition list_invalidate :: "int list \<Rightarrow> ('e, 'sc) lcache \<Rightarrow> ('e, 'sc) lcache" where
  "list_invalidate ids c = c\<lparr>lc_nodes := fold (\<lambda>i m. m(i := map_option (\<lambda>n. n\<lparr>nd_invalid := True\<rparr>) (m i))) ids (lc_nodes c)\<rparr>"

text \<open>The loop of \<open>update\<close>, with \<open>toRequest\<close>; \<open>keys'\<close> is the order of the hash afterwards.\<close>

fun remove_nodes :: "int list \<Rightarrow> (int \<rightharpoonup> 'e node) \<Rightarrow> int list \<times> (int \<rightharpoonup> 'e node)" where
  "remove_nodes [] m = ([], m)"
| "remove_nodes (i # ids) m =
     (case m i of
        None \<Rightarrow> remove_nodes ids m
      | Some n \<Rightarrow> (case remove_nodes ids (m(i := None)) of (req, m') \<Rightarrow> (if nd_pending n then i # req else req, m')))"

definition list_update :: "int list \<Rightarrow> int list \<Rightarrow> 'sc \<Rightarrow> ('e, 'sc) lcache \<Rightarrow> ('e, 'sc) lcache" where
  "list_update keys' ids scope c =
     (case remove_nodes ids (lc_nodes c) of (toRequest, m) \<Rightarrow>
        let c = c\<lparr>lc_nodes := m\<rparr> in
        if toRequest \<noteq> [] then list_request keys' toRequest scope [] c else c)"

text \<open>The loop of \<open>processResult\<close>: an entity is taken out of the results once. A result is valid when its id is not negative.\<close>

definition accept_list_result :: "int \<Rightarrow> 'e entity option \<Rightarrow> 'e node \<Rightarrow> 'e node" where
  "accept_list_result i r n =
     (let n = n\<lparr>nd_pending := False\<rparr> in
      case r of
        Some e \<Rightarrow> if fst e \<ge> 0 then n\<lparr>nd_entity := e\<rparr> else n\<lparr>nd_entity := (i, None), nd_invalid := True\<rparr>
      | None \<Rightarrow> n\<lparr>nd_entity := (i, None), nd_invalid := True\<rparr>)"

fun accept_results :: "int list \<Rightarrow> 'e entity list \<Rightarrow> (int \<rightharpoonup> 'e node) \<Rightarrow> (int \<rightharpoonup> 'e node)" where
  "accept_results [] es m = m"
| "accept_results (i # ids) es m =
     (case m i of
        None \<Rightarrow> accept_results ids es m
      | Some n \<Rightarrow>
          (case List.extract (\<lambda>e. fst e = i) es of
             None \<Rightarrow> accept_results ids es (m(i \<mapsto> accept_list_result i None n))
           | Some (xs, e, ys) \<Rightarrow> accept_results ids (xs @ ys) (m(i \<mapsto> accept_list_result i (Some e) n))))"

definition list_processResult :: "int list \<times> 'sc \<Rightarrow> 'e entity list \<Rightarrow> ('e, 'sc) lcache \<Rightarrow> ('e, 'sc) lcache" where
  "list_processResult j es c =
     c\<lparr>lc_jobs := remove1 j (lc_jobs c), lc_nodes := accept_results (fst j) es (lc_nodes c)\<rparr>"

section \<open>Nothing waits for ever\<close>

text \<open>The interface of both caches: what is waited for, and the jobs that run. The end of a job settles all ids of the job.\<close>

locale fetch_cache =
  fixes wf :: "'s \<Rightarrow> bool" and waiting :: "'s \<Rightarrow> int set" and jobs :: "'s \<Rightarrow> 'j list" and ids :: "'j \<Rightarrow> int set" and finish :: "'j \<Rightarrow> 'r \<Rightarrow> 's \<Rightarrow> 's"
  assumes finish_wf: "wf s \<Longrightarrow> wf (finish j r s)"
    and finish_waiting: "wf s \<Longrightarrow> waiting (finish j r s) = waiting s - ids j"
    and finish_jobs: "jobs (finish j r s) = remove1 j (jobs s)"
begin

definition covered :: "'s \<Rightarrow> bool" where
  "covered s \<longleftrightarrow> wf s \<and> waiting s \<subseteq> (\<Union>j\<in>set (jobs s). ids j)"

lemma finish_covered: "covered s \<Longrightarrow> covered (finish j r s)"
proof -
  assume c: "covered s"
  have "i \<in> (\<Union>k\<in>set (remove1 j (jobs s)). ids k)" if "i \<in> waiting s" "i \<notin> ids j" for i
  proof -
    obtain k where "k \<in> set (jobs s)" "i \<in> ids k" using c \<open>i \<in> waiting s\<close> by (auto simp: covered_def)
    moreover have "k \<noteq> j" using calculation \<open>i \<notin> ids j\<close> by blast
    ultimately show ?thesis by auto
  qed
  then show ?thesis using c by (auto simp: covered_def finish_wf finish_waiting finish_jobs)
qed

lemma all_finished: "covered s \<Longrightarrow> mset (map fst rs) = mset (jobs s) \<Longrightarrow> waiting (fold (\<lambda>(j, r). finish j r) rs s) = {}"
proof (induction rs arbitrary: s)
  case Nil
  then show ?case by (auto simp: covered_def)
next
  case (Cons x rs)
  obtain j r where x: "x = (j, r)" by fastforce
  have "mset (map fst rs) = mset (jobs (finish j r s))" using Cons.prems(2) x
    by (metis add_mset_remove_trivial finish_jobs fst_conv list.simps(9) mset.simps(2) mset_remove1)
  then show ?case using Cons.IH [OF finish_covered [OF Cons.prems(1)]] x by simp
qed

end

definition node_ids :: "'e node list \<Rightarrow> int list" where
  "node_ids = map (fst \<circ> nd_entity)"

definition queue_wf :: "('e, 'sc) ecache \<Rightarrow> bool" where
  "queue_wf c \<longleftrightarrow> distinct (node_ids (ec_nodes c))"

definition queue_waiting :: "('e, 'sc) ecache \<Rightarrow> int set" where
  "queue_waiting c = {fst (nd_entity n) |n. n \<in> set (ec_nodes c) \<and> nd_pending n}"

lemma node_ids_simps [simp]: "node_ids [] = []" "node_ids (n # ns) = fst (nd_entity n) # node_ids ns" "node_ids (xs @ ys) = node_ids xs @ node_ids ys"
  by (simp_all add: node_ids_def)

lemma in_node_ids [simp]: "i \<in> set (node_ids ns) \<longleftrightarrow> (\<exists>n\<in>set ns. fst (nd_entity n) = i)"
  by (auto simp: node_ids_def)

lemma at_node_ids: "(\<And>n. fst (nd_entity (f n)) = fst (nd_entity n)) \<Longrightarrow> node_ids (at_node i f ns) = node_ids ns"
  by (induction ns) simp_all

lemma at_node_set: "distinct (node_ids ns) \<Longrightarrow> set (at_node i f ns) = (\<lambda>n. if fst (nd_entity n) = i then f n else n) ` set ns"
proof (induction ns)
  case (Cons n ns)
  show ?case
  proof (cases "fst (nd_entity n) = i")
    case True
    have "\<forall>m\<in>set ns. fst (nd_entity m) \<noteq> i" using Cons.prems True by auto
    then have "(\<lambda>n. if fst (nd_entity n) = i then f n else n) ` set ns = (\<lambda>n. n) ` set ns" by (intro image_cong) auto
    then show ?thesis using True by simp
  next
    case False
    then show ?thesis using Cons by simp
  qed
qed simp

lemma at_node_ids_in: "(\<And>n. fst (nd_entity (f n)) = i) \<Longrightarrow> node_ids (at_node i f ns) = node_ids ns"
  by (induction ns) simp_all

lemma accept_result_simps [simp]: "fst (nd_entity (accept_result i es n)) = i" "nd_pending (accept_result i es n) = False"
  by (simp_all add: accept_result_def Let_def)

lemma no_node: "cacheNodeForId i c = None \<longleftrightarrow> i \<notin> set (node_ids (ec_nodes c))"
  by (auto simp: cacheNodeForId_def find_None_iff)

interpretation single: fetch_cache queue_wf queue_waiting ec_jobs "\<lambda>j. {fst j}" "\<lambda>j es c. snd (processResult j es c)"
proof
  fix s :: "('e, 'sc) ecache" and j :: "int \<times> 'sc" and r :: "'e entity list"
  show "ec_jobs (snd (processResult j r s)) = remove1 j (ec_jobs s)" by (simp add: processResult_def Let_def)
  assume wf: "queue_wf s"
  then show "queue_wf (snd (processResult j r s))" by (simp add: processResult_def Let_def queue_wf_def at_node_ids_in)
  have "cacheNodeForId (fst j) (s\<lparr>ec_jobs := js\<rparr>) = None \<longleftrightarrow> (\<forall>n\<in>set (ec_nodes s). fst (nd_entity n) \<noteq> fst j)" for js
    by (auto simp: no_node)
  then show "queue_waiting (snd (processResult j r s)) = queue_waiting s - {fst j}"
    using wf by (auto simp: processResult_def Let_def queue_waiting_def queue_wf_def at_node_set)
qed

lemma single_covered_iff: "single.covered c \<longleftrightarrow> distinct (node_ids (ec_nodes c)) \<and>
    (\<forall>n\<in>set (ec_nodes c). nd_pending n \<longrightarrow> (\<exists>j\<in>set (ec_jobs c). fst j = fst (nd_entity n)))"
  by (auto simp: single.covered_def queue_wf_def queue_waiting_def) force+

text \<open>What the owner of a cache does with it.\<close>

datatype ('e, 'sc) cache_op =
    Ensure int 'sc
  | Update int 'sc
  | Invalidate int
  | Finish "int \<times> 'sc" "'e entity list"

fun cache_do :: "('e, 'sc) cache_op \<Rightarrow> ('e, 'sc) ecache \<Rightarrow> ('e, 'sc) ecache" where
  "cache_do (Ensure i scope) c = snd (ensureCached i scope c)"
| "cache_do (Update i scope) c = update i scope c"
| "cache_do (Invalidate i) c = invalidate i c"
| "cache_do (Finish j es) c = snd (processResult j es c)"

lemma shrink_queue_subseq: "\<exists>xs. ns = xs @ shrink_queue cap ns \<and> list_all (\<lambda>n. \<not> nd_pending n) xs"
proof (induction ns)
  case (Cons n ns)
  then obtain xs where xs: "ns = xs @ shrink_queue cap ns" "list_all (\<lambda>n. \<not> nd_pending n) xs" by blast
  show ?case
  proof (cases "length (n # ns) \<ge> cap \<and> \<not> nd_pending n")
    case True
    then show ?thesis using xs by (intro exI [of _ "n # xs"]) simp
  next
    case False
    then have "shrink_queue cap (n # ns) = n # ns" by (simp only: shrink_queue.simps if_False)
    then show ?thesis by (intro exI [of _ "[]"]) simp
  qed
qed simp

lemma request_covered:
  assumes "single.covered c" "i \<notin> set (node_ids (ec_nodes c))"
  shows "single.covered (request i scope c)"
proof -
  obtain xs where xs: "ec_nodes c = xs @ shrink_queue (ec_capacity c) (ec_nodes c)" using shrink_queue_subseq by blast
  let ?ns = "shrink_queue (ec_capacity c) (ec_nodes c)"
  have ids: "node_ids (ec_nodes c) = node_ids xs @ node_ids ?ns" using arg_cong [OF xs, of node_ids] by (simp only: node_ids_simps)
  have "set ?ns \<subseteq> set (ec_nodes c)" by (subst xs) simp
  moreover have "distinct (node_ids ?ns)" "i \<notin> set (node_ids ?ns)" using assms ids by (auto simp: single_covered_iff)
  ultimately show ?thesis using assms(1)
    by (auto simp: request_def shrinkCache_def Let_def single_covered_iff node_new_def)
qed

lemma ensure_covered: "single.covered c \<Longrightarrow> single.covered (snd (ensureCached i scope c))"
  by (auto simp: ensureCached_def request_covered no_node split: option.splits)

lemma invalidate_covered: "single.covered c \<Longrightarrow> single.covered (invalidate i c)"
  by (auto simp: invalidate_def single_covered_iff at_node_ids at_node_set split: if_splits)

lemma update_covered:
  assumes "single.covered c"
  shows "single.covered (update i scope c)"
proof (cases "cacheNodeForId i c")
  case None
  then show ?thesis using assms by (simp add: update_def)
next
  case (Some n)
  then obtain xs m ys where split: "List.extract (\<lambda>n. fst (nd_entity n) = i) (ec_nodes c) = Some (xs, m, ys)"
    by (cases "List.extract (\<lambda>n. fst (nd_entity n) = i) (ec_nodes c)") (auto simp: extract_None_iff cacheNodeForId_def find_Some_iff set_conv_nth)
  then have nodes: "ec_nodes c = xs @ m # ys" "fst (nd_entity m) = i" by (auto simp: extract_Some_iff)
  let ?c = "c\<lparr>ec_nodes := xs @ ys\<rparr>"
  have "single.covered ?c" "i \<notin> set (node_ids (ec_nodes ?c))" using assms nodes
    by (auto simp: single_covered_iff)
  then show ?thesis using Some split by (simp add: update_def Let_def request_covered)
qed

lemma cache_do_covered: "single.covered c \<Longrightarrow> single.covered (cache_do p c)"
  by (cases p) (simp_all add: ensure_covered update_covered invalidate_covered single.finish_covered)

lemma new_covered: "single.covered (ecache_new n)"
  by (simp add: single_covered_iff ecache_new_def)

lemma run_covered: "single.covered c \<Longrightarrow> single.covered (fold cache_do ps c)"
  by (induction ps arbitrary: c) (simp_all add: cache_do_covered)

text \<open>(C33) A notification never waits for ever for its collection. After any use of the cache, when the running fetch jobs have ended, in any
  order, with any entities or with errors, every id of the cache is cached: asking for it again does not wait and starts no job.\<close>

theorem cache_never_stuck:
  assumes "mset (map fst rs) = mset (ec_jobs (fold cache_do ps (ecache_new n)))"
    and "isRequested i (fold (\<lambda>(j, r) c. snd (processResult j r c)) rs (fold cache_do ps (ecache_new n)))"
  shows "ensureCached i scope (fold (\<lambda>(j, r) c. snd (processResult j r c)) rs (fold cache_do ps (ecache_new n))) =
    (True, fold (\<lambda>(j, r) c. snd (processResult j r c)) rs (fold cache_do ps (ecache_new n)))"
proof -
  let ?c = "fold (\<lambda>(j, r) c. snd (processResult j r c)) rs (fold cache_do ps (ecache_new n))"
  obtain m where m: "cacheNodeForId i ?c = Some m" using assms(2) by (auto simp: isRequested_def)
  then have "m \<in> set (ec_nodes ?c)" unfolding cacheNodeForId_def by (metis find_Some_iff nth_mem)
  moreover have "queue_waiting ?c = {}" using single.all_finished [OF run_covered [OF new_covered] assms(1)] by simp
  ultimately have "\<not> nd_pending m" by (auto simp: queue_waiting_def)
  then show ?thesis using m by (simp add: ensureCached_def)
qed

lemma cache_never_stuck_witness:
  "let c = fold cache_do [Ensure 1 (), Ensure 2 (), Update 1 (), Invalidate 2] (ecache_new 2 :: (nat, unit) ecache);
       d = fold (\<lambda>(j, r) c. snd (processResult j r c)) [((2, ()), []), ((1, ()), [(1, Some 7)]), ((1, ()), [(1, Some 8)])] c
   in length (ec_jobs c) = 3 \<and> fst (ensureCached 1 () d) \<and> fst (ensureCached 2 () d)"
proof -
  let ?ops = "[Ensure 1 (), Ensure 2 (), Update 1 (), Invalidate 2]"
  let ?rs = "[((2, ()), []), ((1, ()), [(1, Some 7)]), ((1, ()), [(1, Some 8)])] :: ((int \<times> unit) \<times> nat entity list) list"
  have jobs: "ec_jobs (fold cache_do ?ops (ecache_new 2 :: (nat, unit) ecache)) = [(1, ()), (2, ()), (1, ())]" by code_simp
  then have rs: "mset (map fst ?rs) = mset (ec_jobs (fold cache_do ?ops (ecache_new 2 :: (nat, unit) ecache)))" by simp
  let ?d = "fold (\<lambda>(j, r) c. snd (processResult j r c)) ?rs (fold cache_do ?ops (ecache_new 2))"
  have "isRequested 1 ?d" by code_simp
  from cache_never_stuck [OF rs this] have "ensureCached 1 () ?d = (True, ?d)" .
  moreover have "isRequested 2 ?d" by code_simp
  from cache_never_stuck [OF rs this] have "ensureCached 2 () ?d = (True, ?d)" .
  ultimately show ?thesis using jobs unfolding Let_def by simp
qed

text \<open>An update of an entity that is still being fetched starts a second job, but the answer of the first one is not told from that of the second: it has
  the id only. So an entity that was read before the change is taken for the new one and handed out.\<close>

lemma outdated_result_accepted:
  "let c = update 5 () (snd (ensureCached 5 () (ecache_new 15 :: (string, unit) ecache)));
       (available, d) = processResult (5, ()) [(5, Some ''before the change'')] c
   in available \<and> isCached 5 d \<and> retrieve 5 d = (5, Some ''before the change'') \<and> length (ec_jobs d) = 1"
  by code_simp

section \<open>The list cache\<close>

definition list_waiting :: "('e, 'sc) lcache \<Rightarrow> int set" where
  "list_waiting c = {i. \<exists>n. lc_nodes c i = Some n \<and> nd_pending n}"

lemma accept_list_result_ended [simp]: "\<not> nd_pending (accept_list_result k r n)"
  by (simp add: accept_list_result_def Let_def split: option.splits)

lemma accept_results_pending:
  "(\<exists>n. accept_results ids es m i = Some n \<and> nd_pending n) \<longleftrightarrow> i \<notin> set ids \<and> (\<exists>n. m i = Some n \<and> nd_pending n)"
proof (induction ids es m rule: accept_results.induct)
  case (2 k ids es m)
  show ?case
  proof (cases "m k")
    case None
    then show ?thesis using 2 by (cases "i = k") simp_all
  next
    case (Some n)
    show ?thesis
    proof (cases "List.extract (\<lambda>e. fst e = k) es")
      case None
      then show ?thesis using 2(2) [OF Some None] Some by (cases "i = k") (simp_all add: fun_upd_def)
    next
      case (Some x)
      obtain xs e ys where x: "x = (xs, e, ys)" by (cases x)
      then show ?thesis using 2(3) [OF \<open>m k = Some n\<close> Some [unfolded x] refl refl] Some \<open>m k = Some n\<close> by (cases "i = k") (simp_all add: fun_upd_def)
    qed
  qed
qed simp

interpretation listed: fetch_cache "\<lambda>_. True" list_waiting lc_jobs "\<lambda>j. set (fst j)" list_processResult
proof
  fix s :: "('e, 'sc) lcache" and j :: "int list \<times> 'sc" and r :: "'e entity list"
  show "list_waiting (list_processResult j r s) = list_waiting s - set (fst j)"
    unfolding list_waiting_def list_processResult_def using accept_results_pending [of "fst j" r "lc_nodes s"] by auto
qed (simp_all add: list_processResult_def)

lemma shrink_hash_cases: "shrink_hash cap preserve sz ks m i = m i \<or> shrink_hash cap preserve sz ks m i = None"
proof (induction ks arbitrary: sz m)
  case (Cons k ks)
  show ?case using Cons.IH [of sz m] Cons.IH [of "sz - 1" "m(k := None)"] by (auto simp: fun_upd_def split: if_splits option.splits)
qed simp

lemma insert_nodes: "fold (\<lambda>i m. m(i \<mapsto> node_new i)) ids m i = (if i \<in> set ids then Some (node_new i) else m i)"
  by (induction ids arbitrary: m) simp_all

lemma list_request_waiting: "list_waiting (list_request keys ids scope preserve c) \<subseteq> list_waiting c \<union> set ids"
proof
  fix i assume "i \<in> list_waiting (list_request keys ids scope preserve c)"
  then show "i \<in> list_waiting c \<union> set ids"
    using shrink_hash_cases [of "lc_capacity c" preserve "length keys" keys "lc_nodes c" i]
    by (auto simp: list_waiting_def list_request_def list_shrinkCache_def Let_def insert_nodes split: if_splits)
qed

lemma list_request_covered:
  assumes "listed.covered c"
  shows "listed.covered (list_request keys ids scope preserve c)"
  using assms list_request_waiting [of keys ids scope preserve c]
  by (auto simp: listed.covered_def list_request_def list_shrinkCache_def Let_def)

lemma list_ensure_covered: "listed.covered c \<Longrightarrow> listed.covered (snd (list_ensureCached keys ids scope c))"
  by (simp add: list_ensureCached_def Let_def list_request_covered)

lemma remove_nodes_waiting: "remove_nodes ids m = (req, m') \<Longrightarrow> m' i = m i \<or> m' i = None"
proof (induction ids arbitrary: m req m')
  case (Cons k ids)
  show ?case
  proof (cases "m k")
    case None
    then show ?thesis using Cons by simp
  next
    case (Some n)
    then obtain req' where "remove_nodes ids (m(k := None)) = (req', m')" using Cons.prems by (auto split: prod.splits)
    from Cons.IH [OF this] show ?thesis by (auto split: if_splits)
  qed
qed simp

lemma list_update_covered:
  assumes "listed.covered c"
  shows "listed.covered (list_update keys ids scope c)"
proof -
  obtain req m where r: "remove_nodes ids (lc_nodes c) = (req, m)" by fastforce
  have "list_waiting (c\<lparr>lc_nodes := m\<rparr>) \<subseteq> list_waiting c"
    using remove_nodes_waiting [OF r] by (auto simp: list_waiting_def) (metis option.distinct(1))
  then have "listed.covered (c\<lparr>lc_nodes := m\<rparr>)" using assms by (auto simp: listed.covered_def)
  then show ?thesis using r by (simp add: list_update_def Let_def list_request_covered)
qed

lemma list_invalidate_covered:
  assumes "listed.covered c"
  shows "listed.covered (list_invalidate ids c)"
proof -
  have "(\<exists>n. fold (\<lambda>i m. m(i := map_option (\<lambda>n. n\<lparr>nd_invalid := True\<rparr>) (m i))) ids m i = Some n \<and> nd_pending n) \<longleftrightarrow>
      (\<exists>n. m i = Some n \<and> nd_pending n)" for m :: "int \<rightharpoonup> 'a node" and i
  proof (induction ids arbitrary: m)
    case (Cons k ids)
    show ?case using Cons.IH [of "m(k := map_option (\<lambda>n. n\<lparr>nd_invalid := True\<rparr>) (m k))"] by auto
  qed simp
  then have "list_waiting (list_invalidate ids c) = list_waiting c" by (simp add: list_waiting_def list_invalidate_def)
  then show ?thesis using assms by (simp add: listed.covered_def list_invalidate_def)
qed

text \<open>The results of a job reach the nodes: every id that is asked for once gets the entity with that id, whatever their order.\<close>

lemma accept_results_entity:
  assumes "distinct ids" "distinct (map fst es)" "i \<in> set ids" "m i = Some n" "(i, e) \<in> set es" "0 \<le> i"
  shows "accept_results ids es m i = Some (n\<lparr>nd_pending := False, nd_entity := (i, e)\<rparr>)"
  using assms
proof (induction ids es m rule: accept_results.induct)
  case (2 k ids es m)
  have other: "accept_results js fs m' i = m' i" if "i \<notin> set js" for js fs and m' :: "int \<rightharpoonup> 'a node"
    using that by (induction js fs m' rule: accept_results.induct) (auto split: option.splits simp: fun_upd_def)
  show ?case
  proof (cases "m k")
    case None
    then have "i \<noteq> k" using 2 by auto
    then show ?thesis using 2 None by simp
  next
    case (Some x)
    show ?thesis
    proof (cases "List.extract (\<lambda>e. fst e = k) es")
      case None
      then have "k \<notin> fst ` set es" by (auto simp: extract_None_iff)
      then have "i \<noteq> k" using 2 by force
      then show ?thesis using 2 None Some by (simp add: fun_upd_def)
    next
      case (Some y)
      obtain xs e' ys where y: "y = (xs, e', ys)" by (cases y)
      have es: "es = xs @ e' # ys" "fst e' = k" using Some y by (auto simp: extract_Some_iff)
      show ?thesis
      proof (cases "i = k")
        case True
        then have "e' = (i, e)" using 2 es by (auto simp: image_iff)
        then show ?thesis using 2 es True y Some \<open>m k = Some x\<close> other [of ids] by (simp add: accept_list_result_def fun_upd_def)
      next
        case False
        then have "(i, e) \<in> set (xs @ ys)" using 2 es by auto
        then show ?thesis using 2 es False y Some \<open>m k = Some x\<close> by (simp add: fun_upd_def)
      qed
    qed
  qed
qed simp

text \<open>A list of items that is asked for is delivered. Asked for items that are not in the cache, it says no and starts one job for all of
  them; when the job has ended with the items, in any order, the cache says yes and \<open>retrieve\<close> gives the items in the order of the question.\<close>

theorem list_cache_delivers:
  assumes "ids \<noteq> []" "distinct ids" "list_isNotRequested ids c" "distinct (map fst es)" "list_all (\<lambda>i. 0 \<le> i \<and> (i, Some (f i)) \<in> set es) ids"
  shows "fst (list_ensureCached keys ids scope c) = False \<and>
    lc_jobs (snd (list_ensureCached keys ids scope c)) = lc_jobs c @ [(ids, scope)] \<and>
    list_ensureCached keys' ids scope (list_processResult (ids, scope) es (snd (list_ensureCached keys ids scope c))) =
      (True, list_processResult (ids, scope) es (snd (list_ensureCached keys ids scope c))) \<and>
    list_retrieve ids (list_processResult (ids, scope) es (snd (list_ensureCached keys ids scope c))) = map (\<lambda>i. (i, Some (f i))) ids"
proof (intro conjI)
  have new: "filter (\<lambda>i. lc_nodes c i = None) ids = ids" using assms(3) by (simp add: list_isNotRequested_def list_all_iff)
  then show "fst (list_ensureCached keys ids scope c) = False" using assms(1) by (simp add: list_ensureCached_def)
  have ensured: "snd (list_ensureCached keys ids scope c) = list_request keys ids scope ids c" using new assms(1) by (simp add: list_ensureCached_def)
  then show "lc_jobs (snd (list_ensureCached keys ids scope c)) = lc_jobs c @ [(ids, scope)]"
    by (simp add: list_request_def list_shrinkCache_def Let_def)
  let ?d = "list_processResult (ids, scope) es (snd (list_ensureCached keys ids scope c))"
  have node: "lc_nodes ?d i = Some \<lparr>nd_entity = (i, Some (f i)), nd_pending = False, nd_invalid = False\<rparr>" if "i \<in> set ids" for i
  proof -
    have "0 \<le> i" "(i, Some (f i)) \<in> set es" using assms(5) that by (auto simp: list_all_iff)
    moreover have "lc_nodes (list_request keys ids scope ids c) i = Some (node_new i)" using that by (simp add: list_request_def Let_def insert_nodes)
    ultimately show ?thesis using accept_results_entity [OF assms(2,4) that]
      by (simp add: ensured list_processResult_def node_new_def)
  qed
  then show "list_ensureCached keys' ids scope ?d = (True, ?d)" by (auto simp: list_ensureCached_def Let_def list_all_iff filter_empty_conv)
  show "list_retrieve ids ?d = map (\<lambda>i. (i, Some (f i))) ids" using node by (auto simp: list_retrieve_def list_ready_def list_all_iff)
qed

lemma list_cache_delivers_witness:
  "list_retrieve [3, 1] (list_processResult ([3, 1], ()) [(1, Some ''a''), (3, Some ''c'')] (snd (list_ensureCached [] [3, 1] () (lcache_new 5)))) =
     [(3, Some ''c''), (1, Some ''a'')]"
  using list_cache_delivers [of "[3, 1]" "lcache_new 5 :: (string, unit) lcache" "[(1, Some ''a''), (3, Some ''c'')]"
    "\<lambda>i. if i = 3 then ''c'' else ''a''" "[]" "()"]
  by (simp add: list_isNotRequested_def lcache_new_def)

text \<open>An id that is asked for twice gets nothing: the second turn of the loop finds the entity taken already and marks the node as invalid.\<close>

lemma repeated_id_is_invalid:
  "list_retrieve [4] (list_processResult ([4, 4], ()) [(4, Some x)] (snd (list_ensureCached [] [4, 4] () (lcache_new 5)))) = []"
  by (simp add: list_ensureCached_def list_request_def list_shrinkCache_def lcache_new_def list_processResult_def node_new_def List.extract_def
    accept_list_result_def list_retrieve_def list_ready_def Let_def)

end
