(* ===== verification/Monitor.thy ===== *)
theory Monitor
  imports Notification EntityCache "HOL-Library.Word"
begin

text \<open>
  What a monitor does with the notifications of the server, \<open>src/core/monitor_p.cpp\<close> and \<open>src/core/monitor_p.h\<close>: it drops what nobody listens to, splits
  batches for listeners that want single items, turns moves across the border of what is watched into additions and removals, waits for the
  entities (theory \<open>EntityCache\<close>) and emits signals. An emission is the signal with the ids of its entities. Not modelled: the other arguments of the
  signals, slots that call back into the monitor, and the fetching of statistics. \<open>ord\<close> is the order in which a hash is iterated.
\<close>

section \<open>State\<close>

datatype monitor_signal =
    itemChanged | itemsFlagsChanged | itemsTagsChanged | itemMoved | itemsMoved | itemAdded | itemRemoved | itemsRemoved | itemLinked | itemsLinked
  | itemUnlinked | itemsUnlinked | collectionAdded | collectionChanged | collectionChangedParts | collectionMoved | collectionRemoved
  | collectionSubscribed | collectionUnsubscribed | collectionStatisticsChanged | tagAdded | tagChanged | tagRemoved
  | notificationSubscriberAdded | notificationSubscriberChanged | notificationSubscriberRemoved | debugNotification

type_synonym emission = "monitor_signal \<times> int list"

text \<open>Of \<open>ItemFetchScope\<close> the members that are looked at; \<open>fs_other\<close> tells that another member has not its default.\<close>

record fetch_scope =
  fs_payloadParts :: "string set"
  fs_attributes :: "string set"
  fs_fullPayload :: bool
  fs_allAttributes :: bool
  fs_other :: bool

definition scope_isEmpty :: "fetch_scope \<Rightarrow> bool" where
  "scope_isEmpty s \<longleftrightarrow> fs_payloadParts s = {} \<and> fs_attributes s = {} \<and> \<not> fs_fullPayload s \<and> \<not> fs_allAttributes s \<and> \<not> fs_other s"

record 'e monitor =
  mo_collections :: "int set"
  mo_resources :: "string set"
  mo_monitorAll :: bool
  mo_listeners :: "monitor_signal \<rightharpoonup> 16 word"
  mo_fetchCollection :: bool
  mo_fetchCollectionStatistics :: bool
  mo_collectionMoveTranslation :: bool
  mo_fetchChangedOnly :: bool
  mo_itemFetchScope :: fetch_scope
  mo_useRefCounting :: bool
  mo_refCountMap :: "int \<rightharpoonup> int"
  mo_buffer :: "int list"
  mo_collectionCache :: "('e, unit) ecache"
  mo_itemCache :: "('e, fetch_scope) lcache"
  mo_tagCache :: "('e, unit) lcache"
  mo_pending :: "notification list"
  mo_pipeline :: "notification list"
  mo_recentlyChanged :: "int set"
  mo_statisticsTimer :: bool
  mo_emitted :: "notification list"
  mo_out :: "emission list"

definition PipelineSize :: nat where
  "PipelineSize = 5"

definition monitor_new :: "'e monitor" where
  "monitor_new = \<lparr>mo_collections = {}, mo_resources = {}, mo_monitorAll = False, mo_listeners = Map.empty, mo_fetchCollection = False,
     mo_fetchCollectionStatistics = False, mo_collectionMoveTranslation = True, mo_fetchChangedOnly = False,
     mo_itemFetchScope = \<lparr>fs_payloadParts = {}, fs_attributes = {}, fs_fullPayload = False, fs_allAttributes = False, fs_other = False\<rparr>,
     mo_useRefCounting = False, mo_refCountMap = Map.empty, mo_buffer = [], mo_collectionCache = ecache_new (3 * PipelineSize),
     mo_itemCache = lcache_new PipelineSize, mo_tagCache = lcache_new 20, mo_pending = [], mo_pipeline = [], mo_recentlyChanged = {},
     mo_statisticsTimer = False, mo_emitted = [], mo_out = []\<rparr>"

section \<open>Listeners\<close>

definition hasListeners :: "'e monitor \<Rightarrow> monitor_signal \<Rightarrow> bool" where
  "hasListeners s sig \<longleftrightarrow> mo_listeners s sig \<noteq> None"

text \<open>\<open>updateListener\<close>: a signal is removed only after it was added.\<close>

definition updateListener :: "monitor_signal \<Rightarrow> bool \<Rightarrow> 'e monitor \<Rightarrow> 'e monitor" where
  "updateListener sig add s =
     (let n = (case mo_listeners s sig of None \<Rightarrow> 0 | Some n \<Rightarrow> n) in
      if add then s\<lparr>mo_listeners := (mo_listeners s)(sig \<mapsto> n + 1)\<rparr>
      else if n - 1 = 0 then s\<lparr>mo_listeners := (mo_listeners s)(sig := None)\<rparr>
      else s\<lparr>mo_listeners := (mo_listeners s)(sig \<mapsto> n - 1)\<rparr>)"

definition emitToListeners :: "monitor_signal \<Rightarrow> int list \<Rightarrow> 'e monitor \<Rightarrow> bool \<times> 'e monitor" where
  "emitToListeners sig ids s = (if hasListeners s sig then (True, s\<lparr>mo_out := mo_out s @ [(sig, ids)]\<rparr>) else (False, s))"

section \<open>Reference counting\<close>

definition MAXBUFFERSIZE :: nat where
  "MAXBUFFERSIZE = 10"

definition purge :: "int \<Rightarrow> int list \<Rightarrow> int list" where
  "purge i q = remove1 i q"

definition buffer_collection :: "int \<Rightarrow> int list \<Rightarrow> int \<times> int list" where
  "buffer_collection i q =
     (let q = purge i q in
      if length q = MAXBUFFERSIZE then (hd q, purge (hd q) (tl q) @ [i]) else (-1, q @ [i]))"

definition ref_collection :: "int \<Rightarrow> 'e monitor \<Rightarrow> 'e monitor" where
  "ref_collection i s =
     (let n = (case mo_refCountMap s i of None \<Rightarrow> 0 | Some n \<Rightarrow> n);
          s = s\<lparr>mo_refCountMap := (mo_refCountMap s)(i \<mapsto> n + 1)\<rparr>
      in if i \<in> set (mo_buffer s) then s\<lparr>mo_buffer := purge i (mo_buffer s)\<rparr> else s)"

text \<open>\<open>deref\<close>: the operator of the hash inserts a missing entry as 0 before it is counted down.\<close>

definition deref_collection :: "int \<Rightarrow> 'e monitor \<Rightarrow> int \<times> 'e monitor" where
  "deref_collection i s =
     (let n = (case mo_refCountMap s i of None \<Rightarrow> 0 | Some n \<Rightarrow> n) - 1 in
      if n = 0 then
        (case buffer_collection i (mo_buffer s) of (bumped, q) \<Rightarrow>
           (bumped, s\<lparr>mo_refCountMap := (mo_refCountMap s)(i := None), mo_buffer := q\<rparr>))
      else (-1, s\<lparr>mo_refCountMap := (mo_refCountMap s)(i \<mapsto> n)\<rparr>))"

definition isMonitored :: "'e monitor \<Rightarrow> int \<Rightarrow> bool" where
  "isMonitored s i \<longleftrightarrow> \<not> mo_useRefCounting s \<or> mo_refCountMap s i \<noteq> None \<or> i \<in> set (mo_buffer s)"

section \<open>Filtering and splitting\<close>

text \<open>The id of the root collection is 0.\<close>

definition collection_monitored :: "'e monitor \<Rightarrow> int \<Rightarrow> bool" where
  "collection_monitored s i \<longleftrightarrow> \<not> i < 0 \<and> (i \<in> mo_collections s \<or> 0 \<in> mo_collections s)"

definition isLazilyIgnored :: "'e monitor \<Rightarrow> notification \<Rightarrow> bool \<Rightarrow> bool" where
  "isLazilyIgnored s msg allowModifyFlagsConversion =
     (case body msg of
        CollectionChange _ \<Rightarrow> False
      | TagChange t \<Rightarrow>
          t_operation t = TagAdd \<and> \<not> hasListeners s tagAdded \<or> t_operation t = TagModify \<and> \<not> hasListeners s tagChanged \<or>
          t_operation t = TagRemove \<and> \<not> hasListeners s tagRemoved
      | ItemChange i \<Rightarrow>
          (let op = i_operation i in
           if mo_fetchCollectionStatistics s then False
           else if op = ItemAdd \<and> \<not> hasListeners s itemAdded \<or>
              op = ItemRemove \<and> \<not> hasListeners s itemRemoved \<and> \<not> hasListeners s itemsRemoved \<or>
              op = ItemModify \<and> \<not> hasListeners s itemChanged \<or>
              op = ItemModifyFlags \<and> \<not> hasListeners s itemsFlagsChanged \<and> (\<not> allowModifyFlagsConversion \<or> \<not> hasListeners s itemChanged) \<or>
              op = ItemModifyTags \<and> \<not> hasListeners s itemsTagsChanged \<or>
              op = ItemMove \<and> \<not> hasListeners s itemMoved \<and> \<not> hasListeners s itemsMoved \<or>
              op = ItemLink \<and> \<not> hasListeners s itemLinked \<and> \<not> hasListeners s itemsLinked \<or>
              op = ItemUnlink \<and> \<not> hasListeners s itemUnlinked \<and> \<not> hasListeners s itemsUnlinked
           then True
           else if \<not> mo_useRefCounting s then False
           else if op \<in> {ItemAdd, ItemRemove, ItemModify, ItemModifyFlags, ItemModifyTags, ItemLink, ItemUnlink} \<and> isMonitored s (i_parentCollection i)
           then False
           else if op = ItemMove then \<not> isMonitored s (i_parentCollection i) \<and> \<not> isMonitored s (i_parentDestCollection i)
           else True)
      | _ \<Rightarrow> False)"

text \<open>\<open>checkBatchSupport\<close>: whether the notification has to be split, and whether somebody takes batches.\<close>

definition checkBatchSupport :: "'e monitor \<Rightarrow> notification \<Rightarrow> bool \<times> bool" where
  "checkBatchSupport s msg =
     (case body msg of
        ItemChange i \<Rightarrow>
          (let isBatch = length (items i) > 1 in
           case i_operation i of
             ItemAdd \<Rightarrow> (isBatch, False)
           | ItemModify \<Rightarrow> (isBatch, False)
           | ItemModifyFlags \<Rightarrow>
               (let batchSupported = hasListeners s itemsFlagsChanged in (isBatch \<and> \<not> batchSupported \<and> hasListeners s itemChanged, batchSupported))
           | ItemModifyTags \<Rightarrow> (False, True)
           | ItemMove \<Rightarrow> (isBatch \<and> hasListeners s itemMoved, hasListeners s itemsMoved)
           | ItemRemove \<Rightarrow> (isBatch \<and> hasListeners s itemRemoved, hasListeners s itemsRemoved)
           | ItemLink \<Rightarrow> (isBatch \<and> hasListeners s itemLinked, hasListeners s itemsLinked)
           | ItemUnlink \<Rightarrow> (isBatch \<and> hasListeners s itemUnlinked, hasListeners s itemsUnlinked)
           | ItemInvalidOp \<Rightarrow> (isBatch, False))
      | _ \<Rightarrow> (False, False))"

text \<open>\<open>splitMessage\<close>: a new notification gets the members one by one; \<open>mustRetrieve\<close> and the metadata are not among them.\<close>

definition splitMessage :: "string \<Rightarrow> item_change \<Rightarrow> bool \<Rightarrow> notification list" where
  "splitMessage session msg legacy =
     (let flags = legacy \<and> i_operation msg = ItemModifyFlags in
      map (\<lambda>item. Notification session [] (ItemChange
        \<lparr>i_operation = (if flags then ItemModify else i_operation msg), i_resource = i_resource msg, i_parentCollection = i_parentCollection msg,
         i_parentDestCollection = i_parentDestCollection msg, i_destinationResource = i_destinationResource msg,
         itemParts = (if flags then {''FLAGS''} else itemParts msg), addedFlags = addedFlags msg, removedFlags = removedFlags msg,
         addedTags = addedTags msg, removedTags = removedTags msg, mustRetrieve = False, items = [item]\<rparr>)) (items msg))"

text \<open>\<open>translateAndCompress\<close>: what is put into the queue.\<close>

definition watched_ends :: "'e monitor \<Rightarrow> notification \<Rightarrow> bool \<times> bool" where
  "watched_ends s msg =
     (case body msg of
        ItemChange i \<Rightarrow>
          (if mo_useRefCounting s then (isMonitored s (i_parentCollection i), isMonitored s (i_parentDestCollection i))
           else
             ((mo_resources s \<noteq> {} \<and> i_resource i \<in> mo_resources s) \<or> collection_monitored s (i_parentCollection i),
              (mo_resources s \<noteq> {} \<and> i_operation i = ItemMove \<and> i_destinationResource i \<in> mo_resources s) \<or>
                collection_monitored s (i_parentDestCollection i)))
      | CollectionChange c \<Rightarrow>
          ((mo_resources s \<noteq> {} \<and> c_resource c \<in> mo_resources s) \<or> collection_monitored s (c_parentCollection c),
           (mo_resources s \<noteq> {} \<and> c_operation c = CollectionMove \<and> c_destinationResource c \<in> mo_resources s) \<or>
             collection_monitored s (c_parentDestCollection c))
      | _ \<Rightarrow> (False, False))"

definition translateAndCompress :: "'e monitor \<Rightarrow> notification \<Rightarrow> notification list" where
  "translateAndCompress s msg =
     (if \<not> isMove msg then [msg]
      else case body msg of
        ItemChange i \<Rightarrow>
          (if items i = [] then []
           else case watched_ends s msg of
             (False, False) \<Rightarrow> []
           | (True, True) \<Rightarrow> [msg]
           | (True, False) \<Rightarrow>
               [Notification (sessionId msg) (metadata msg) (ItemChange (i\<lparr>i_operation := ItemRemove, i_parentDestCollection := -1\<rparr>))]
           | (False, True) \<Rightarrow>
               splitMessage (sessionId msg)
                 (i\<lparr>i_operation := ItemAdd, i_parentCollection := i_parentDestCollection i, i_parentDestCollection := -1\<rparr>) False)
      | CollectionChange c \<Rightarrow>
          (case watched_ends s msg of
             (False, False) \<Rightarrow> []
           | (True, True) \<Rightarrow> [msg]
           | (True, False) \<Rightarrow>
               if \<not> mo_collectionMoveTranslation s then [msg]
               else [Notification (sessionId msg) (metadata msg) (CollectionChange (c\<lparr>c_operation := CollectionRemove, c_parentDestCollection := -1\<rparr>))]
           | (False, True) \<Rightarrow>
               if \<not> mo_collectionMoveTranslation s then [msg]
               else [Notification (sessionId msg) (metadata msg) (CollectionChange
                 (c\<lparr>c_operation := CollectionAdd, c_parentCollection := c_parentDestCollection c, c_parentDestCollection := -1\<rparr>))])
      | _ \<Rightarrow> [])"

section \<open>Caches and statistics\<close>

type_synonym 'e hash_order = "(int \<rightharpoonup> 'e node) \<Rightarrow> int list"

definition collection_update :: "int \<Rightarrow> 'e monitor \<Rightarrow> 'e monitor" where
  "collection_update i s = s\<lparr>mo_collectionCache := update i () (mo_collectionCache s)\<rparr>"

definition item_update :: "'e hash_order \<Rightarrow> int list \<Rightarrow> 'e monitor \<Rightarrow> 'e monitor" where
  "item_update ord ids s = s\<lparr>mo_itemCache :=
     list_update (ord (snd (remove_nodes ids (lc_nodes (mo_itemCache s))))) ids (mo_itemFetchScope s) (mo_itemCache s)\<rparr>"

definition tag_update :: "'e hash_order \<Rightarrow> int list \<Rightarrow> 'e monitor \<Rightarrow> 'e monitor" where
  "tag_update ord ids s = s\<lparr>mo_tagCache := list_update (ord (snd (remove_nodes ids (lc_nodes (mo_tagCache s))))) ids () (mo_tagCache s)\<rparr>"

definition invalidateCaches :: "'e hash_order \<Rightarrow> notification \<Rightarrow> 'e monitor \<Rightarrow> 'e monitor" where
  "invalidateCaches ord msg s =
     (case body msg of
        CollectionChange c \<Rightarrow>
          (if c_operation c \<in> {CollectionModify, CollectionMove, CollectionSubscribe} then collection_update (cr_id (collection c)) s
           else if c_operation c = CollectionRemove then s\<lparr>mo_collectionCache := invalidate (cr_id (collection c)) (mo_collectionCache s)\<rparr>
           else s)
      | ItemChange i \<Rightarrow>
          (if i_operation i \<in> {ItemModify, ItemModifyFlags, ItemModifyTags, ItemMove} then item_update ord (itemsToUids (items i)) s
           else if i_operation i = ItemRemove then s\<lparr>mo_itemCache := list_invalidate (itemsToUids (items i)) (mo_itemCache s)\<rparr>
           else s)
      | TagChange t \<Rightarrow>
          (if t_operation t = TagModify then tag_update ord [tr_id (tag t)] s
           else if t_operation t = TagRemove then s\<lparr>mo_tagCache := list_invalidate [tr_id (tag t)] (mo_tagCache s)\<rparr>
           else s)
      | _ \<Rightarrow> s)"

text \<open>\<open>invalidateItemCache\<close>: the waiting notifications about the item have to be fetched again.\<close>

definition mark_retrieve :: "int \<Rightarrow> notification \<Rightarrow> notification" where
  "mark_retrieve i msg =
     (case body msg of
        ItemChange c \<Rightarrow> if i \<in> set (itemsToUids (items c)) then Notification (sessionId msg) (metadata msg) (ItemChange (c\<lparr>mustRetrieve := True\<rparr>)) else msg
      | _ \<Rightarrow> msg)"

definition invalidateItemCache :: "'e hash_order \<Rightarrow> int \<Rightarrow> 'e monitor \<Rightarrow> 'e monitor" where
  "invalidateItemCache ord i s = (let s = item_update ord [i] s in s\<lparr>mo_pending := map (mark_retrieve i) (mo_pending s)\<rparr>)"

definition notifyCollectionStatisticsWatchers :: "int \<Rightarrow> string \<Rightarrow> 'e monitor \<Rightarrow> 'e monitor" where
  "notifyCollectionStatisticsWatchers i resource s =
     (if i > 0 \<and> (mo_monitorAll s \<or> collection_monitored s i \<or> resource \<in> mo_resources s)
      then s\<lparr>mo_recentlyChanged := insert i (mo_recentlyChanged s), mo_statisticsTimer := True\<rparr> else s)"

definition updatePendingStatistics :: "notification \<Rightarrow> 'e monitor \<Rightarrow> 'e monitor" where
  "updatePendingStatistics msg s =
     (case body msg of
        ItemChange i \<Rightarrow> notifyCollectionStatisticsWatchers (i_parentDestCollection i) (i_destinationResource i)
          (notifyCollectionStatisticsWatchers (i_parentCollection i) (i_resource i) s)
      | CollectionChange c \<Rightarrow>
          (if c_operation c = CollectionRemove then s\<lparr>mo_recentlyChanged := mo_recentlyChanged s - {cr_id (collection c)}\<rparr> else s)
      | _ \<Rightarrow> s)"

definition ensure_collection :: "int \<Rightarrow> 'e monitor \<Rightarrow> bool \<times> 'e monitor" where
  "ensure_collection i s = (case ensureCached i () (mo_collectionCache s) of (b, c) \<Rightarrow> (b, s\<lparr>mo_collectionCache := c\<rparr>))"

definition ensure_items :: "'e hash_order \<Rightarrow> int list \<Rightarrow> fetch_scope \<Rightarrow> 'e monitor \<Rightarrow> bool \<times> 'e monitor" where
  "ensure_items ord ids scope s =
     (case list_ensureCached (ord (lc_nodes (mo_itemCache s))) ids scope (mo_itemCache s) of (b, c) \<Rightarrow> (b, s\<lparr>mo_itemCache := c\<rparr>))"

definition ensure_tags :: "'e hash_order \<Rightarrow> int list \<Rightarrow> 'e monitor \<Rightarrow> bool \<times> 'e monitor" where
  "ensure_tags ord ids s =
     (case list_ensureCached (ord (lc_nodes (mo_tagCache s))) ids () (mo_tagCache s) of (b, c) \<Rightarrow> (b, s\<lparr>mo_tagCache := c\<rparr>))"

text \<open>The parents of a notification, as far as \<open>fetchCollections\<close> asks for them.\<close>

definition ensure_if :: "bool \<Rightarrow> int \<Rightarrow> 'e monitor \<Rightarrow> bool \<times> 'e monitor" where
  "ensure_if want i s = (if want \<and> i > -1 then ensure_collection i s else (True, s))"

definition ensure_parents :: "notification \<Rightarrow> 'e monitor \<Rightarrow> bool \<times> 'e monitor" where
  "ensure_parents msg s =
     (let (parent, dest) = (case body msg of
              ItemChange i \<Rightarrow> (i_parentCollection i, if i_operation i = ItemMove then i_parentDestCollection i else -1)
            | CollectionChange c \<Rightarrow> (c_parentCollection c, if c_operation c = CollectionMove then c_parentDestCollection c else -1)
            | _ \<Rightarrow> (-1, -1));
          (a, s) = ensure_if (mo_fetchCollection s) parent s;
          (b, s) = ensure_if (mo_fetchCollection s) dest s
      in (a \<and> b, s))"

text \<open>The scope with only those changed parts that are not fetched anyway, for \<open>mFetchChangedOnly\<close>.\<close>

definition missing_parts :: "string \<Rightarrow> bool \<Rightarrow> string set \<Rightarrow> string set \<Rightarrow> string set" where
  "missing_parts kind all requested changed = drop 4 ` Set.filter (\<lambda>part. take 4 part = kind \<and> (\<not> all \<or> drop 4 part \<notin> requested)) changed"

definition ensureDataAvailable :: "'e hash_order \<Rightarrow> notification \<Rightarrow> 'e monitor \<Rightarrow> bool \<times> 'e monitor" where
  "ensureDataAvailable ord msg s =
     (case body msg of
        TagChange t \<Rightarrow> if ''FETCH_TAG'' \<in> set (metadata msg) then ensure_tags ord [tr_id (tag t)] s else (True, s)
      | SubscriptionChange _ \<Rightarrow> (True, s)
      | DebugChange _ _ _ \<Rightarrow> (True, s)
      | InvalidChange \<Rightarrow> (True, s)
      | CollectionChange c \<Rightarrow>
          (if c_operation c = CollectionRemove then ensure_if True (c_parentCollection c) s
           else case ensure_parents msg s of (allCached, s) \<Rightarrow>
             if mo_fetchCollection s \<and> ''FETCH_COLLECTION'' \<in> set (metadata msg) then
               (case ensure_collection (cr_id (collection c)) s of (b, s) \<Rightarrow> (b \<and> allCached, s))
             else (allCached, s))
      | ItemChange i \<Rightarrow>
          (case ensure_parents msg s of (allCached, s) \<Rightarrow>
             if i_operation i = ItemRemove \<or> scope_isEmpty (mo_itemFetchScope s) then (allCached, s)
             else if mo_fetchChangedOnly s \<and> i_operation i \<in> {ItemModify, ItemModifyFlags} then
               (let sc = mo_itemFetchScope s;
                    missingParts = missing_parts ''PLD:'' (fs_fullPayload sc) (fs_payloadParts sc) (itemParts i);
                    missingAttributes = missing_parts ''ATR:'' (fs_allAttributes sc) (fs_attributes sc) (itemParts i)
                in if missingParts \<noteq> {} \<or> missingAttributes \<noteq> {} then
                     (case ensure_items ord (itemsToUids (items i))
                         (sc\<lparr>fs_fullPayload := False, fs_payloadParts := missingParts, fs_attributes := missingAttributes\<rparr>) s of
                        (b, s) \<Rightarrow> (b \<and> allCached, s))
                   else (allCached, s))
             else if ''FETCH_ITEM'' \<in> set (metadata msg) \<or> mustRetrieve i then
               (case ensure_items ord (itemsToUids (items i)) (mo_itemFetchScope s) s of (b, s) \<Rightarrow> (b \<and> allCached, s))
             else (allCached, s)))"

section \<open>Emitting\<close>

definition emit_both :: "monitor_signal \<Rightarrow> monitor_signal \<Rightarrow> int list \<Rightarrow> 'e monitor \<Rightarrow> bool \<times> 'e monitor" where
  "emit_both single batch ids s =
     (case emitToListeners single [hd ids] s of (a, s) \<Rightarrow> case emitToListeners batch ids s of (b, s) \<Rightarrow> (a \<or> b, s))"

definition emitItemsNotification :: "item_op \<Rightarrow> int list \<Rightarrow> 'e monitor \<Rightarrow> bool \<times> 'e monitor" where
  "emitItemsNotification op ids s =
     (case op of
        ItemAdd \<Rightarrow> emitToListeners itemAdded [hd ids] s
      | ItemModify \<Rightarrow> emitToListeners itemChanged [hd ids] s
      | ItemModifyFlags \<Rightarrow> emitToListeners itemsFlagsChanged ids s
      | ItemMove \<Rightarrow> emit_both itemMoved itemsMoved ids s
      | ItemRemove \<Rightarrow> emit_both itemRemoved itemsRemoved ids s
      | ItemLink \<Rightarrow> emit_both itemLinked itemsLinked ids s
      | ItemUnlink \<Rightarrow> emit_both itemUnlinked itemsUnlinked ids s
      | ItemModifyTags \<Rightarrow> emitToListeners itemsTagsChanged ids s
      | ItemInvalidOp \<Rightarrow> (False, s))"

definition emitCollectionNotification :: "collection_op \<Rightarrow> int \<Rightarrow> 'e monitor \<Rightarrow> bool \<times> 'e monitor" where
  "emitCollectionNotification op i s =
     (if i < 0 then (True, s)
      else case op of
        CollectionAdd \<Rightarrow> emitToListeners collectionAdded [i] s
      | CollectionModify \<Rightarrow>
          (case emitToListeners collectionChanged [i] s of (a, s) \<Rightarrow> case emitToListeners collectionChangedParts [i] s of (b, s) \<Rightarrow> (a \<or> b, s))
      | CollectionMove \<Rightarrow> emitToListeners collectionMoved [i] s
      | CollectionRemove \<Rightarrow> emitToListeners collectionRemoved [i] s
      | CollectionSubscribe \<Rightarrow> emitToListeners collectionSubscribed [i] s
      | CollectionUnsubscribe \<Rightarrow> emitToListeners collectionUnsubscribed [i] s
      | CollectionInvalidOp \<Rightarrow> (False, s))"

definition emitTagNotification :: "tag_op \<Rightarrow> int \<Rightarrow> 'e monitor \<Rightarrow> bool \<times> 'e monitor" where
  "emitTagNotification op i s =
     (case op of
        TagAdd \<Rightarrow> emitToListeners tagAdded [i] s
      | TagModify \<Rightarrow> emitToListeners tagChanged [i] s
      | TagRemove \<Rightarrow> emitToListeners tagRemoved [i] s
      | TagInvalidOp \<Rightarrow> (False, s))"

definition emitSubscriptionChangeNotification :: "subscription_change \<Rightarrow> 'e monitor \<Rightarrow> bool \<times> 'e monitor" where
  "emitSubscriptionChangeNotification c s =
     (if s_subscriber c = [] then (False, s)
      else case s_operation c of
        SubscriptionAdd \<Rightarrow> emitToListeners notificationSubscriberAdded [] s
      | SubscriptionModify \<Rightarrow> emitToListeners notificationSubscriberChanged [] s
      | SubscriptionRemove \<Rightarrow> emitToListeners notificationSubscriberRemoved [] s
      | SubscriptionInvalidOp \<Rightarrow> (False, s))"

text \<open>\<open>emitNotification\<close>, with the choice between the entities of the caches and those of the notification.\<close>

definition item_ids :: "string list \<Rightarrow> item_change \<Rightarrow> 'e monitor \<Rightarrow> int list" where
  "item_ids meta i s =
     (let fetched = ''FETCH_ITEM'' \<in> set meta \<or> mustRetrieve i;
          ids = (if fetched \<and> \<not> scope_isEmpty (mo_itemFetchScope s) then map fst (list_retrieve (itemsToUids (items i)) (mo_itemCache s)) else [])
      in if ids = [] then itemsToUids (items i) else ids)"

definition emitNotification :: "notification \<Rightarrow> 'e monitor \<Rightarrow> bool \<times> 'e monitor" where
  "emitNotification msg s =
     (let s = s\<lparr>mo_emitted := mo_emitted s @ [msg]\<rparr> in
      case body msg of
        TagChange t \<Rightarrow>
          (let i = (if ''FETCH_TAG'' \<in> set (metadata msg)
                    then (case list_retrieve [tr_id (tag t)] (mo_tagCache s) of [] \<Rightarrow> -1 | e # _ \<Rightarrow> fst e) else tr_id (tag t))
           in emitTagNotification (t_operation t) i s)
      | CollectionChange c \<Rightarrow>
          (let i = (if ''FETCH_COLLECTION'' \<in> set (metadata msg) then fst (retrieve (cr_id (collection c)) (mo_collectionCache s)) else cr_id (collection c))
           in if i \<ge> 0 \<or> c_operation c = CollectionRemove \<or> \<not> mo_fetchCollection s then emitCollectionNotification (c_operation c) i s else (False, s))
      | ItemChange i \<Rightarrow>
          (let ids = item_ids (metadata msg) i s in
           if ids \<noteq> [] then emitItemsNotification (i_operation i) ids s else (False, s))
      | SubscriptionChange c \<Rightarrow> emitSubscriptionChangeNotification c s
      | DebugChange inner _ _ \<Rightarrow> (case body inner of InvalidChange \<Rightarrow> (False, s) | _ \<Rightarrow> emitToListeners debugNotification [] s)
      | InvalidChange \<Rightarrow> (False, s))"

section \<open>The queues\<close>

text \<open>The loops of \<open>flushPipeline\<close> and \<open>dispatchNotifications\<close>.\<close>

fun flush_from :: "'e hash_order \<Rightarrow> notification list \<Rightarrow> 'e monitor \<Rightarrow> 'e monitor" where
  "flush_from ord [] s = s\<lparr>mo_pipeline := []\<rparr>"
| "flush_from ord (msg # ms) s =
     (case ensureDataAvailable ord msg s of (avail, s) \<Rightarrow>
        if avail then flush_from ord ms (snd (emitNotification msg s)) else s\<lparr>mo_pipeline := msg # ms\<rparr>)"

definition flushPipeline :: "'e hash_order \<Rightarrow> 'e monitor \<Rightarrow> 'e monitor" where
  "flushPipeline ord s = flush_from ord (mo_pipeline s) s"

fun dispatch_from :: "'e hash_order \<Rightarrow> nat \<Rightarrow> notification list \<Rightarrow> 'e monitor \<Rightarrow> 'e monitor" where
  "dispatch_from ord sz [] s = s\<lparr>mo_pending := []\<rparr>"
| "dispatch_from ord sz (msg # ms) s =
     (if length (mo_pipeline s) < sz then
        (case ensureDataAvailable ord msg s of (avail, s) \<Rightarrow>
           if avail \<and> mo_pipeline s = [] then dispatch_from ord sz ms (snd (emitNotification msg s))
           else dispatch_from ord sz ms (s\<lparr>mo_pipeline := mo_pipeline s @ [msg]\<rparr>))
      else s\<lparr>mo_pending := msg # ms\<rparr>)"

definition dispatchNotifications :: "'e hash_order \<Rightarrow> nat \<Rightarrow> 'e monitor \<Rightarrow> 'e monitor" where
  "dispatchNotifications ord sz s = dispatch_from ord sz (mo_pending s) s"

definition dataAvailable :: "'e hash_order \<Rightarrow> nat \<Rightarrow> 'e monitor \<Rightarrow> 'e monitor" where
  "dataAvailable ord sz s = dispatchNotifications ord sz (flushPipeline ord s)"

text \<open>What \<open>slotNotify\<close> puts into the queue; the first part is the batch.\<close>

definition queued_batch :: "'e monitor \<Rightarrow> notification \<Rightarrow> notification list" where
  "queued_batch s msg =
     (case checkBatchSupport s msg of (needsSplit, supportsBatch) \<Rightarrow>
        let isModifyFlags = (case body msg of ItemChange i \<Rightarrow> i_operation i = ItemModifyFlags | _ \<Rightarrow> False);
            isCollection = (case body msg of CollectionChange _ \<Rightarrow> True | _ \<Rightarrow> False)
        in if supportsBatch \<or> (\<not> needsSplit \<and> \<not> supportsBatch \<and> \<not> isModifyFlags) \<or> isCollection then translateAndCompress s msg else [])"

definition queued_split :: "'e monitor \<Rightarrow> notification \<Rightarrow> notification list" where
  "queued_split s msg =
     (case checkBatchSupport s msg of (needsSplit, supportsBatch) \<Rightarrow>
        case body msg of
          ItemChange i \<Rightarrow>
            (if needsSplit \<or> (\<not> needsSplit \<and> \<not> supportsBatch \<and> i_operation i = ItemModifyFlags) then
               (if i_operation i = ItemMove \<and> i_resource i \<noteq> i_destinationResource i then
                  (if needsSplit then concat (map (translateAndCompress s) (splitMessage (sessionId msg) i (\<not> supportsBatch)))
                   else translateAndCompress s msg)
                else splitMessage (sessionId msg) i (\<not> supportsBatch))
             else [])
        | _ \<Rightarrow> [])"

definition slotNotify :: "'e hash_order \<Rightarrow> nat \<Rightarrow> notification \<Rightarrow> 'e monitor \<Rightarrow> 'e monitor" where
  "slotNotify ord sz msg s =
     (let s = updatePendingStatistics msg (invalidateCaches ord msg s) in
      if isLazilyIgnored s msg True then s
      else
        let prefetch = (case body msg of
              ItemChange i \<Rightarrow> fst (checkBatchSupport s msg) \<and> \<not> snd (checkBatchSupport s msg) | _ \<Rightarrow> False);
            batch = queued_batch s msg;
            split = queued_split s msg;
            s = s\<lparr>mo_pending := mo_pending s @ batch\<rparr>;
            s = (if prefetch then (case body msg of ItemChange i \<Rightarrow> snd (ensure_items ord (itemsToUids (items i)) (mo_itemFetchScope s) s) | _ \<Rightarrow> s) else s);
            s = s\<lparr>mo_pending := mo_pending s @ split\<rparr>
        in dispatchNotifications ord sz s)"

text \<open>The result of a fetch job, and the connection of \<open>dataAvailable\<close> to it.\<close>

definition collection_result :: "'e hash_order \<Rightarrow> nat \<Rightarrow> int \<times> unit \<Rightarrow> 'e entity list \<Rightarrow> 'e monitor \<Rightarrow> 'e monitor" where
  "collection_result ord sz j es s =
     (case processResult j es (mo_collectionCache s) of (available, c) \<Rightarrow>
        let s = s\<lparr>mo_collectionCache := c\<rparr> in if available then dataAvailable ord sz s else s)"

definition items_result :: "'e hash_order \<Rightarrow> nat \<Rightarrow> int list \<times> fetch_scope \<Rightarrow> 'e entity list \<Rightarrow> 'e monitor \<Rightarrow> 'e monitor" where
  "items_result ord sz j es s = dataAvailable ord sz (s\<lparr>mo_itemCache := list_processResult j es (mo_itemCache s)\<rparr>)"

definition tags_result :: "'e hash_order \<Rightarrow> nat \<Rightarrow> int list \<times> unit \<Rightarrow> 'e entity list \<Rightarrow> 'e monitor \<Rightarrow> 'e monitor" where
  "tags_result ord sz j es s = dataAvailable ord sz (s\<lparr>mo_tagCache := list_processResult j es (mo_tagCache s)\<rparr>)"

section \<open>Nothing is lost and nothing overtakes\<close>

definition queues :: "'e monitor \<Rightarrow> notification list \<times> notification list \<times> notification list" where
  "queues s = (mo_emitted s, mo_pipeline s, mo_pending s)"

definition trail :: "'e monitor \<Rightarrow> notification list" where
  "trail s = mo_emitted s @ mo_pipeline s @ mo_pending s"

lemma queues_eq: "queues t = queues s \<longleftrightarrow> mo_emitted t = mo_emitted s \<and> mo_pipeline t = mo_pipeline s \<and> mo_pending t = mo_pending s"
  by (simp add: queues_def)

lemma ensure_caches_queues [simp]:
  "queues (snd (ensure_collection i s)) = queues s" "queues (snd (ensure_items ord ids scope s)) = queues s" "queues (snd (ensure_tags ord ids s)) = queues s"
  "queues (snd (ensure_if want i s)) = queues s"
  by (simp_all add: ensure_collection_def ensure_items_def ensure_tags_def ensure_if_def queues_def split: prod.splits)

lemma ensure_parents_queues [simp]: "queues (snd (ensure_parents msg s)) = queues s"
  by (simp add: ensure_parents_def Let_def case_prod_unfold)

lemma ensureDataAvailable_queues: "queues (snd (ensureDataAvailable ord msg s)) = queues s"
  by (simp add: ensureDataAvailable_def Let_def case_prod_unfold split: ntf_body.splits)

lemma emitToListeners_queues [simp]: "queues (snd (emitToListeners sig ids s)) = queues s"
  by (simp add: emitToListeners_def queues_def)

lemma emit_kinds_queues [simp]:
  "queues (snd (emitItemsNotification op ids s)) = queues s" "queues (snd (emitCollectionNotification cop i s)) = queues s"
  "queues (snd (emitTagNotification tgop i s)) = queues s" "queues (snd (emitSubscriptionChangeNotification c s)) = queues s"
  by (simp_all add: emitItemsNotification_def emit_both_def emitCollectionNotification_def emitTagNotification_def
    emitSubscriptionChangeNotification_def case_prod_unfold split: item_op.splits collection_op.splits tag_op.splits subscription_op.splits)

lemma emitNotification_queues:
  "queues (snd (emitNotification msg s)) = (mo_emitted s @ [msg], mo_pipeline s, mo_pending s)"
proof -
  have "queues (snd (emitNotification msg s)) = queues (s\<lparr>mo_emitted := mo_emitted s @ [msg]\<rparr>)"
    by (simp add: emitNotification_def Let_def split: ntf_body.splits)
  then show ?thesis by (simp add: queues_def)
qed

lemma flush_from_trail:
  "mo_emitted (flush_from ord ms s) @ mo_pipeline (flush_from ord ms s) = mo_emitted s @ ms \<and> mo_pending (flush_from ord ms s) = mo_pending s"
proof (induction ms arbitrary: s)
  case (Cons m ms)
  let ?t = "snd (ensureDataAvailable ord m s)"
  have "mo_emitted ?t = mo_emitted s" "mo_pending ?t = mo_pending s"
    using ensureDataAvailable_queues [of ord m s] by (simp_all add: queues_eq)
  moreover have "mo_emitted (snd (emitNotification m ?t)) = mo_emitted ?t @ [m]" "mo_pending (snd (emitNotification m ?t)) = mo_pending ?t"
    using emitNotification_queues [of m ?t] by (simp_all add: queues_def)
  ultimately show ?case using Cons [of "snd (emitNotification m ?t)"] by (simp add: case_prod_unfold)
qed simp

lemma dispatch_from_trail: "trail (dispatch_from ord sz ms s) = mo_emitted s @ mo_pipeline s @ ms"
proof (induction ms arbitrary: s)
  case (Cons m ms)
  let ?t = "snd (ensureDataAvailable ord m s)"
  have "mo_emitted ?t = mo_emitted s" "mo_pipeline ?t = mo_pipeline s"
    using ensureDataAvailable_queues [of ord m s] by (simp_all add: queues_eq)
  moreover have "mo_emitted (snd (emitNotification m ?t)) = mo_emitted ?t @ [m]" "mo_pipeline (snd (emitNotification m ?t)) = mo_pipeline ?t"
    using emitNotification_queues [of m ?t] by (simp_all add: queues_def)
  ultimately show ?case using Cons [of "snd (emitNotification m ?t)"] Cons [of "?t\<lparr>mo_pipeline := mo_pipeline ?t @ [m]\<rparr>"]
    by (simp add: case_prod_unfold trail_def)
qed (simp add: trail_def)

lemma dispatch_from_full: "length (mo_pipeline s) \<le> sz \<Longrightarrow> length (mo_pipeline (dispatch_from ord sz ms s)) \<le> sz \<and>
    (mo_pending (dispatch_from ord sz ms s) \<noteq> [] \<longrightarrow> length (mo_pipeline (dispatch_from ord sz ms s)) = sz)"
proof (induction ms arbitrary: s)
  case (Cons m ms)
  let ?t = "snd (ensureDataAvailable ord m s)"
  have "mo_pipeline ?t = mo_pipeline s" using ensureDataAvailable_queues [of ord m s] by (simp add: queues_eq)
  moreover have "mo_pipeline (snd (emitNotification m ?t)) = mo_pipeline ?t" using emitNotification_queues [of m ?t] by (simp add: queues_def)
  ultimately show ?case using Cons.prems Cons.IH [of "snd (emitNotification m ?t)"] Cons.IH [of "?t\<lparr>mo_pipeline := mo_pipeline ?t @ [m]\<rparr>"]
    by (auto simp: case_prod_unfold)
qed simp

lemma dispatch_trail: "trail (dispatchNotifications ord sz s) = trail s"
  unfolding dispatchNotifications_def dispatch_from_trail by (simp add: trail_def)

lemma dataAvailable_trail: "trail (dataAvailable ord sz s) = trail s"
proof -
  have "trail (flushPipeline ord s) = trail s"
    using flush_from_trail [of ord "mo_pipeline s" s] unfolding flushPipeline_def trail_def by (metis append.assoc)
  then show ?thesis unfolding dataAvailable_def dispatch_trail .
qed

lemma flush_from_short: "length (mo_pipeline (flush_from ord ms s)) \<le> length ms"
proof (induction ms arbitrary: s)
  case (Cons m ms)
  then show ?case by (simp add: case_prod_unfold) (meson le_SucI)
qed simp

lemma flush_short: "length (mo_pipeline s) \<le> sz \<Longrightarrow> length (mo_pipeline (flushPipeline ord s)) \<le> sz"
  using flush_from_short [of ord "mo_pipeline s" s] by (simp add: flushPipeline_def)

text \<open>The events of a monitor, and what each puts into the queue.\<close>

datatype 'e monitor_event =
    Notify notification
  | CollectionResult "int \<times> unit" "'e entity list"
  | ItemsResult "int list \<times> fetch_scope" "'e entity list"
  | TagsResult "int list \<times> unit" "'e entity list"

fun monitor_do :: "'e hash_order \<Rightarrow> 'e monitor_event \<Rightarrow> 'e monitor \<Rightarrow> 'e monitor" where
  "monitor_do ord (Notify msg) s = slotNotify ord PipelineSize msg s"
| "monitor_do ord (CollectionResult j es) s = collection_result ord PipelineSize j es s"
| "monitor_do ord (ItemsResult j es) s = items_result ord PipelineSize j es s"
| "monitor_do ord (TagsResult j es) s = tags_result ord PipelineSize j es s"

definition queued :: "'e monitor \<Rightarrow> notification \<Rightarrow> notification list" where
  "queued s msg = (if isLazilyIgnored s msg True then [] else queued_batch s msg @ queued_split s msg)"

fun put_in :: "'e monitor \<Rightarrow> 'e monitor_event \<Rightarrow> notification list" where
  "put_in s (Notify msg) = queued s msg"
| "put_in s _ = []"

text \<open>What the queueing depends on.\<close>

definition same_setup :: "'e monitor \<Rightarrow> 'e monitor \<Rightarrow> bool" where
  "same_setup s t \<longleftrightarrow> mo_collections t = mo_collections s \<and> mo_resources t = mo_resources s \<and> mo_listeners t = mo_listeners s \<and>
     mo_fetchCollectionStatistics t = mo_fetchCollectionStatistics s \<and> mo_collectionMoveTranslation t = mo_collectionMoveTranslation s \<and>
     mo_useRefCounting t = mo_useRefCounting s \<and> mo_refCountMap t = mo_refCountMap s \<and> mo_buffer t = mo_buffer s"

lemma same_setup_queued:
  assumes "same_setup s t"
  shows "queued t msg = queued s msg"
proof -
  have eqs [simp]: "hasListeners t = hasListeners s" "isMonitored t = isMonitored s" "collection_monitored t = collection_monitored s"
    using assms by (auto simp: same_setup_def hasListeners_def isMonitored_def collection_monitored_def)
  have "watched_ends t m = watched_ends s m" for m using assms by (simp add: same_setup_def watched_ends_def split: ntf_body.splits)
  then have tr: "translateAndCompress t m = translateAndCompress s m" for m
    using assms by (simp add: same_setup_def translateAndCompress_def split: ntf_body.splits)
  then have trs: "translateAndCompress t = translateAndCompress s" by blast
  have more: "mo_fetchCollectionStatistics t = mo_fetchCollectionStatistics s" "mo_useRefCounting t = mo_useRefCounting s"
    using assms by (simp_all add: same_setup_def)
  have rest: "isLazilyIgnored t msg True = isLazilyIgnored s msg True" "checkBatchSupport t msg = checkBatchSupport s msg"
    unfolding isLazilyIgnored_def checkBatchSupport_def eqs more by (rule refl)+
  show ?thesis unfolding queued_def queued_batch_def queued_split_def trs rest by (rule refl)
qed

lemma same_setup_updates:
  "same_setup s (updatePendingStatistics msg s)" "queues (updatePendingStatistics msg s) = queues s"
  "same_setup s (invalidateCaches ord msg s)" "queues (invalidateCaches ord msg s) = queues s"
  by (simp_all add: same_setup_def queues_def updatePendingStatistics_def notifyCollectionStatisticsWatchers_def invalidateCaches_def
    collection_update_def item_update_def tag_update_def split: ntf_body.splits)

lemma same_setup_trans: "same_setup s t \<Longrightarrow> same_setup t u \<Longrightarrow> same_setup s u"
  by (simp add: same_setup_def)

lemma slotNotify_trail: "trail (slotNotify ord sz msg s) = trail s @ queued s msg"
proof -
  let ?s = "updatePendingStatistics msg (invalidateCaches ord msg s)"
  have same: "queued ?s msg = queued s msg"
    by (rule same_setup_queued [OF same_setup_trans [OF same_setup_updates(3) same_setup_updates(1)]])
  have q: "queues ?s = queues s" using same_setup_updates(2,4) by metis
  show ?thesis
  proof (cases "isLazilyIgnored ?s msg True")
    case True
    then have "queued s msg = []" using same by (simp add: queued_def)
    then show ?thesis using True q by (simp add: slotNotify_def Let_def queues_eq trail_def)
  next
    case False
    have "mo_emitted (snd (ensure_items ord ids sc u)) = mo_emitted u" "mo_pipeline (snd (ensure_items ord ids sc u)) = mo_pipeline u"
      "mo_pending (snd (ensure_items ord ids sc u)) = mo_pending u" for ids sc u
      by (simp_all add: ensure_items_def split: prod.splits)
    then have "trail (slotNotify ord sz msg s) = trail ?s @ queued ?s msg" using False
      by (simp add: slotNotify_def Let_def dispatch_trail queued_def split: ntf_body.splits) (simp add: trail_def)
    then show ?thesis using same q by (simp add: queues_eq trail_def)
  qed
qed

lemma same_setup_cong: "same_setup s t \<Longrightarrow> queues t = queues s \<Longrightarrow> trail t = trail s"
  by (simp add: queues_eq trail_def)

lemma monitor_do_trail: "trail (monitor_do ord e s) = trail s @ put_in s e"
  by (cases e) (simp_all add: slotNotify_trail collection_result_def items_result_def tags_result_def dataAvailable_trail Let_def
    split: prod.splits, simp_all add: trail_def)

definition places :: "'e monitor \<Rightarrow> bool" where
  "places s \<longleftrightarrow> length (mo_pipeline s) \<le> PipelineSize \<and> (mo_pending s \<noteq> [] \<longrightarrow> length (mo_pipeline s) = PipelineSize)"

lemma dispatch_places: "length (mo_pipeline s) \<le> PipelineSize \<Longrightarrow> places (dispatchNotifications ord PipelineSize s)"
  using dispatch_from_full [of s PipelineSize ord "mo_pending s"] by (simp add: places_def dispatchNotifications_def)

lemma dataAvailable_places: "places s \<Longrightarrow> places (dataAvailable ord PipelineSize s)"
  using flush_short [of s PipelineSize ord] by (simp add: dataAvailable_def dispatch_places places_def [of s])

lemma slotNotify_places:
  assumes "places s"
  shows "places (slotNotify ord PipelineSize msg s)"
proof -
  let ?s = "updatePendingStatistics msg (invalidateCaches ord msg s)"
  have q: "mo_pipeline ?s = mo_pipeline s" "mo_pending ?s = mo_pending s" using same_setup_updates(2,4) by (metis queues_eq)+
  have "mo_pipeline (snd (ensure_items ord ids sc u)) = mo_pipeline u" for ids sc u by (simp add: ensure_items_def split: prod.splits)
  then show ?thesis using assms q
    by (auto simp: slotNotify_def Let_def places_def [of s] intro!: dispatch_places split: ntf_body.splits) (simp_all add: places_def)
qed

lemma monitor_do_places: "places s \<Longrightarrow> places (monitor_do ord e s)"
proof (cases e)
  case (CollectionResult j es)
  assume "places s"
  moreover from this have "places (s\<lparr>mo_collectionCache := c\<rparr>)" for c by (simp add: places_def)
  ultimately show ?thesis using CollectionResult by (simp add: collection_result_def Let_def dataAvailable_places split: prod.splits)
next
  case (ItemsResult j es)
  assume "places s"
  then have "places (s\<lparr>mo_itemCache := c\<rparr>)" for c by (simp add: places_def)
  then show ?thesis using ItemsResult by (simp add: items_result_def dataAvailable_places)
next
  case (TagsResult j es)
  assume "places s"
  then have "places (s\<lparr>mo_tagCache := c\<rparr>)" for c by (simp add: places_def)
  then show ?thesis using TagsResult by (simp add: tags_result_def dataAvailable_places)
qed (simp add: slotNotify_places)

fun put_in_all :: "'e hash_order \<Rightarrow> 'e monitor \<Rightarrow> 'e monitor_event list \<Rightarrow> notification list" where
  "put_in_all ord s [] = []"
| "put_in_all ord s (e # es) = put_in s e @ put_in_all ord (monitor_do ord e s) es"

lemma monitor_run: "trail (fold (monitor_do ord) es s) = trail s @ put_in_all ord s es \<and> (places s \<longrightarrow> places (fold (monitor_do ord) es s))"
  by (induction es arbitrary: s) (simp_all add: monitor_do_trail monitor_do_places)

text \<open>(C9) The monitor loses nothing and keeps the order. Whatever the server reports and whenever the fetched entities come in, the notifications
  that were emitted, then those that wait for their entities, then those that wait for a place are together exactly what was put into the queue, in that
  order; never more than \<open>PipelineSize\<close> wait for entities, and a place is left empty only when nothing waits for one.\<close>

theorem monitor_keeps_order:
  assumes "mo_pipeline s = []" "mo_pending s = []"
  shows "mo_emitted (fold (monitor_do ord) es s) @ mo_pipeline (fold (monitor_do ord) es s) @ mo_pending (fold (monitor_do ord) es s) =
      mo_emitted s @ put_in_all ord s es \<and>
    length (mo_pipeline (fold (monitor_do ord) es s)) \<le> 5 \<and>
    (mo_pending (fold (monitor_do ord) es s) = [] \<or> length (mo_pipeline (fold (monitor_do ord) es s)) = 5)"
  using monitor_run [of ord es s] assms by (auto simp: trail_def places_def PipelineSize_def)

definition sample_tag_change :: "int \<Rightarrow> notification" where
  "sample_tag_change n = Notification [] [''FETCH_TAG''] (TagChange \<lparr>t_operation = TagAdd, t_resource = [], tag = tag_response_new\<lparr>tr_id := n\<rparr>\<rparr>)"

lemma monitor_keeps_order_witness:
  "let t = fold (monitor_do (\<lambda>_. [])) [Notify (sample_tag_change 1), Notify (sample_tag_change 2), TagsResult ([1], ()) [(1, Some 7)]]
         ((monitor_new :: nat monitor)\<lparr>mo_listeners := [tagAdded \<mapsto> 1]\<rparr>)
   in mo_emitted t @ mo_pipeline t @ mo_pending t = [sample_tag_change 1, sample_tag_change 2]"
proof -
  let ?s = "(monitor_new :: nat monitor)\<lparr>mo_listeners := [tagAdded \<mapsto> 1]\<rparr>" and ?o = "\<lambda>_ :: int \<rightharpoonup> nat node. [] :: int list"
  let ?es = "[Notify (sample_tag_change 1), Notify (sample_tag_change 2), TagsResult ([1], ()) [(1, Some 7)]]"
  have q: "queued t (sample_tag_change n) = [sample_tag_change n]" if "hasListeners t tagAdded" for t :: "nat monitor" and n
    using that by (simp add: queued_def isLazilyIgnored_def sample_tag_change_def queued_batch_def queued_split_def checkBatchSupport_def
      translateAndCompress_def isMove_def)
  have "hasListeners (monitor_do ?o (Notify (sample_tag_change 1)) ?s) tagAdded" "hasListeners ?s tagAdded" by code_simp+
  then have "put_in_all ?o ?s ?es = [sample_tag_change 1, sample_tag_change 2]" by (simp add: q)
  moreover have "mo_emitted ?s = []" "mo_pipeline ?s = []" "mo_pending ?s = []" by (simp_all add: monitor_new_def)
  ultimately show ?thesis using monitor_keeps_order [of ?s ?o ?es] by (simp add: Let_def)
qed

section \<open>Moves across the border\<close>

text \<open>A client that follows the notifications: it knows the items of the collections that are watched.\<close>

definition tell :: "notification \<Rightarrow> int set \<Rightarrow> int set" where
  "tell msg known =
     (case body msg of
        ItemChange i \<Rightarrow>
          (case i_operation i of
             ItemAdd \<Rightarrow> known \<union> set (itemsToUids (items i))
           | ItemRemove \<Rightarrow> known - set (itemsToUids (items i))
           | _ \<Rightarrow> known)
      | _ \<Rightarrow> known)"

definition watches :: "'e monitor \<Rightarrow> (int \<Rightarrow> string) \<Rightarrow> int \<Rightarrow> bool" where
  "watches s resource_of c \<longleftrightarrow> (if mo_useRefCounting s then isMonitored s c else collection_monitored s c \<or> resource_of c \<in> mo_resources s)"

lemma fold_tell_added:
  "i_operation i = ItemAdd \<Longrightarrow> fold tell (splitMessage session i False) known = known \<union> set (itemsToUids (items i))"
proof -
  assume "i_operation i = ItemAdd"
  then have "fold tell (map (\<lambda>x. Notification session [] (ItemChange \<lparr>i_operation = i_operation i, i_resource = i_resource i,
        i_parentCollection = i_parentCollection i, i_parentDestCollection = i_parentDestCollection i, i_destinationResource = i_destinationResource i,
        itemParts = itemParts i, addedFlags = addedFlags i, removedFlags = removedFlags i, addedTags = addedTags i, removedTags = removedTags i,
        mustRetrieve = False, items = [x]\<rparr>)) xs) known = known \<union> set (itemsToUids xs)" for xs
    by (induction xs arbitrary: known) (auto simp: tell_def itemsToUids_def)
  then show ?thesis by (simp add: splitMessage_def)
qed

text \<open>(C10) A client that is told of a move knows afterwards exactly the items of the collections it watches. The monitor turns the move into nothing, a
  move, a removal or additions, depending on which end is watched (by id, by resource, or by reference counting), and these have on what the client
  knows the effect that the move has on the server.\<close>

theorem move_translation_tracks_view:
  assumes "body msg = ItemChange i" "i_operation i = ItemMove"
    and "i_resource i = resource_of (i_parentCollection i)" "i_destinationResource i = resource_of (i_parentDestCollection i)"
    and "\<forall>x\<in>set (itemsToUids (items i)). loc x = i_parentCollection i"
  shows "fold tell (translateAndCompress s msg) {x. watches s resource_of (loc x)} =
    {x. watches s resource_of (if x \<in> set (itemsToUids (items i)) then i_parentDestCollection i else loc x)}"
proof -
  let ?W = "watches s resource_of" and ?p = "i_parentCollection i" and ?d = "i_parentDestCollection i" and ?ids = "set (itemsToUids (items i))"
  have ends: "watched_ends s msg = (?W ?p, ?W ?d)" using assms(1-4) by (auto simp: watched_ends_def watches_def)
  show ?thesis
  proof (cases "items i = []")
    case True
    then show ?thesis using assms(1,2) by (simp add: translateAndCompress_def isMove_def itemsToUids_def)
  next
    case False
    have "fold tell (translateAndCompress s msg) A = (if ?W ?p = ?W ?d then A else if ?W ?p then A - ?ids else A \<union> ?ids)" for A
      using False assms(1,2)
      by (simp add: translateAndCompress_def isMove_def ends fold_tell_added split: bool.splits) (simp add: tell_def)
    then show ?thesis using assms(5) by (cases "?W ?p"; cases "?W ?d") auto
  qed
qed

definition sample_item :: "int \<Rightarrow> item_response" where
  "sample_item n = \<lparr>ir_id = n, ir_remoteId = [], ir_remoteRevision = [], ir_mimeType = [], ir_revision = 0, ir_parentId = -1, ir_gid = [], ir_size = 0,
     ir_mTime = 0, ir_flags = []\<rparr>"

definition sample_move :: "int \<Rightarrow> int \<Rightarrow> int list \<Rightarrow> item_change" where
  "sample_move p d ids = \<lparr>i_operation = ItemMove, i_resource = ''r'', i_parentCollection = p, i_parentDestCollection = d, i_destinationResource = ''r'',
     itemParts = {}, addedFlags = {}, removedFlags = {}, addedTags = [], removedTags = [], mustRetrieve = False, items = map sample_item ids\<rparr>"

lemma move_translation_tracks_view_witness:
  "fold tell (translateAndCompress (monitor_new\<lparr>mo_collections := {2}\<rparr> :: unit monitor) (Notification [] [] (ItemChange (sample_move 1 2 [10, 11])))) {20} =
     {10, 11, 20}"
proof -
  let ?s = "monitor_new\<lparr>mo_collections := {2}\<rparr> :: unit monitor" and ?i = "sample_move 1 2 [10, 11]" and ?loc = "\<lambda>x :: int. if x = 20 then 2 else 1 :: int"
  have w: "watches ?s (\<lambda>_. ''r'') c \<longleftrightarrow> c = 2" for c by (auto simp: watches_def monitor_new_def collection_monitored_def)
  have i: "set (itemsToUids (items ?i)) = {10, 11}" "i_parentDestCollection ?i = 2" "i_parentCollection ?i = 1"
    by (auto simp: sample_move_def sample_item_def itemsToUids_def)
  have "fold tell (translateAndCompress ?s (Notification [] [] (ItemChange ?i))) {x. watches ?s (\<lambda>_. ''r'') (?loc x)} =
      {x. watches ?s (\<lambda>_. ''r'') (if x \<in> set (itemsToUids (items ?i)) then i_parentDestCollection ?i else ?loc x)}"
    by (rule move_translation_tracks_view) (simp_all add: i, simp_all add: sample_move_def)
  moreover have "{x. watches ?s (\<lambda>_. ''r'') (?loc x)} = {20}" by (auto simp: w)
  moreover have "{x. watches ?s (\<lambda>_. ''r'') (if x \<in> set (itemsToUids (items ?i)) then i_parentDestCollection ?i else ?loc x)} = {10, 11, 20}"
    by (auto simp: w i)
  ultimately show ?thesis by (simp only:)
qed

text \<open>The exception: a batch within one resource that has to be split goes into the queue without the translation. A client that counts references is
  told that two items have moved, but not that they have left what it watches.\<close>

lemma split_move_not_translated:
  "let s = (monitor_new :: unit monitor)\<lparr>mo_useRefCounting := True, mo_refCountMap := [1 \<mapsto> 1], mo_listeners := [itemMoved \<mapsto> 1, itemRemoved \<mapsto> 1]\<rparr>;
       two = queued s (Notification [] [] (ItemChange (sample_move 1 2 [10, 11])));
       one = queued s (Notification [] [] (ItemChange (sample_move 1 2 [10])))
   in map (\<lambda>m. case body m of ItemChange i \<Rightarrow> (i_operation i, itemsToUids (items i))) two = [(ItemMove, [10]), (ItemMove, [11])] \<and>
      map (\<lambda>m. case body m of ItemChange i \<Rightarrow> (i_operation i, itemsToUids (items i))) one = [(ItemRemove, [10])]"
  by (simp add: queued_def isLazilyIgnored_def hasListeners_def isMonitored_def queued_batch_def queued_split_def checkBatchSupport_def
    translateAndCompress_def isMove_def watched_ends_def splitMessage_def sample_move_def sample_item_def itemsToUids_def monitor_new_def Let_def)

text \<open>A split notification does not say any more that its item has to be fetched again.\<close>

lemma split_forgets_retrieval:
  "m \<in> set (splitMessage session i legacy) \<Longrightarrow> metadata m = [] \<and> (case body m of ItemChange j \<Rightarrow> \<not> mustRetrieve j | _ \<Rightarrow> False)"
  by (auto simp: splitMessage_def Let_def)

section \<open>Batches and single items\<close>

text \<open>What a listener of a signal is told.\<close>

definition told :: "monitor_signal \<Rightarrow> emission list \<Rightarrow> int list" where
  "told sig out = concat (map snd (filter (\<lambda>e. fst e = sig) out))"

definition emit_all :: "notification list \<Rightarrow> 'e monitor \<Rightarrow> 'e monitor" where
  "emit_all q s = fold (\<lambda>m s. snd (emitNotification m s)) q s"

text \<open>The operations that have a signal for one item and one for many.\<close>

definition paired :: "item_op \<Rightarrow> monitor_signal \<Rightarrow> monitor_signal \<Rightarrow> bool" where
  "paired op single batch \<longleftrightarrow> (op, single, batch) \<in> {(ItemRemove, itemRemoved, itemsRemoved), (ItemLink, itemLinked, itemsLinked), (ItemUnlink, itemUnlinked, itemsUnlinked)}"

lemma emitToListeners_out [simp]:
  "mo_out (snd (emitToListeners sig ids s)) = mo_out s @ (if hasListeners s sig then [(sig, ids)] else [])"
  "mo_listeners (snd (emitToListeners sig ids s)) = mo_listeners s"
  by (simp_all add: emitToListeners_def)

lemma hasListeners_cong: "mo_listeners t = mo_listeners s \<Longrightarrow> hasListeners t = hasListeners s"
  by (auto simp: hasListeners_def)

text \<open>The emissions of one notification of such an operation that needs no fetching.\<close>

lemma emit_paired:
  assumes "paired (i_operation i) single batch" "items i \<noteq> []" "\<not> mustRetrieve i"
  shows "mo_out (snd (emitNotification (Notification session [] (ItemChange i)) s)) = mo_out s @
      (if hasListeners s single then [(single, [hd (itemsToUids (items i))])] else []) @
      (if hasListeners s batch then [(batch, itemsToUids (items i))] else [])"
    and "mo_listeners (snd (emitNotification (Notification session [] (ItemChange i)) s)) = mo_listeners s"
proof -
  have e: "emitItemsNotification (i_operation i) ids t = emit_both single batch ids t" for ids and t :: "'a monitor"
    using assms(1) by (auto simp: paired_def emitItemsNotification_def)
  have "itemsToUids (items i) \<noteq> []" using assms(2) by (simp add: itemsToUids_def)
  moreover have "hasListeners (s\<lparr>mo_emitted := x\<rparr>) = hasListeners s" for x by (rule hasListeners_cong) simp
  moreover have "hasListeners (snd (emitToListeners sig ids t)) = hasListeners t" for sig ids and t :: "'a monitor" by (rule hasListeners_cong) simp
  ultimately show "mo_out (snd (emitNotification (Notification session [] (ItemChange i)) s)) = mo_out s @
      (if hasListeners s single then [(single, [hd (itemsToUids (items i))])] else []) @
      (if hasListeners s batch then [(batch, itemsToUids (items i))] else [])"
    "mo_listeners (snd (emitNotification (Notification session [] (ItemChange i)) s)) = mo_listeners s"
    using assms(3) by (simp_all add: emitNotification_def Let_def item_ids_def e emit_both_def case_prod_unfold)
qed

lemma told_append: "told sig (xs @ ys) = told sig xs @ told sig ys"
  by (simp add: told_def)

lemma emit_split:
  assumes "paired (i_operation i) single batch" "single \<noteq> batch"
  shows "told single (mo_out (emit_all (splitMessage session i legacy) s)) = told single (mo_out s) @ (if hasListeners s single then itemsToUids (items i) else [])"
    and "told batch (mo_out (emit_all (splitMessage session i legacy) s)) = told batch (mo_out s) @ (if hasListeners s batch then itemsToUids (items i) else [])"
proof -
  have notflags: "i_operation i \<noteq> ItemModifyFlags" using assms(1) by (auto simp: paired_def)
  have "told single (mo_out (emit_all (splitMessage session j legacy) s)) = told single (mo_out s) @ (if hasListeners s single then itemsToUids (items j) else []) \<and>
      told batch (mo_out (emit_all (splitMessage session j legacy) s)) = told batch (mo_out s) @ (if hasListeners s batch then itemsToUids (items j) else [])"
    if "i_operation j = i_operation i" for j :: item_change
    using that
  proof (induction "items j" arbitrary: j s)
    case Nil
    then have "items j = []" by simp
    then show ?case by (simp add: splitMessage_def emit_all_def itemsToUids_def)
  next
    case (Cons x xs)
    define j' where "j' = j\<lparr>items := xs\<rparr>"
    define one where "one = \<lparr>i_operation = i_operation j, i_resource = i_resource j, i_parentCollection = i_parentCollection j,
      i_parentDestCollection = i_parentDestCollection j, i_destinationResource = i_destinationResource j, itemParts = itemParts j,
      addedFlags = addedFlags j, removedFlags = removedFlags j, addedTags = addedTags j, removedTags = removedTags j, mustRetrieve = False, items = [x]\<rparr>"
    let ?t = "snd (emitNotification (Notification session [] (ItemChange one)) s)"
    have split: "splitMessage session j legacy = Notification session [] (ItemChange one) # splitMessage session j' legacy"
      using Cons(2) [symmetric] Cons.prems notflags by (simp add: splitMessage_def one_def j'_def)
    have "paired (i_operation one) single batch" "items one \<noteq> []" "\<not> mustRetrieve one" using assms(1) Cons.prems by (simp_all add: one_def)
    note e = emit_paired [OF this, of session s]
    have "itemsToUids (items one) = [ir_id x]" "itemsToUids (items j) = ir_id x # itemsToUids (items j')"
      using Cons(2) [symmetric] by (simp_all add: one_def j'_def itemsToUids_def)
    moreover have "xs = items j'" "i_operation j' = i_operation i" using Cons.prems by (simp_all add: j'_def)
    note IH = Cons(1) [OF this, of ?t]
    moreover have "hasListeners ?t = hasListeners s" by (rule hasListeners_cong [OF e(2)])
    ultimately show ?case using assms(2) by (simp add: split emit_all_def e(1)) (simp add: told_def)
  qed
  from this [OF refl] show "told single (mo_out (emit_all (splitMessage session i legacy) s)) = told single (mo_out s) @ (if hasListeners s single then itemsToUids (items i) else [])"
    "told batch (mo_out (emit_all (splitMessage session i legacy) s)) = told batch (mo_out s) @ (if hasListeners s batch then itemsToUids (items i) else [])"
    by auto
qed

lemma queued_paired:
  assumes "paired (i_operation i) single batch" "items i \<noteq> []"
  shows "queued_batch s (Notification session [] (ItemChange i)) =
      (if hasListeners s batch \<or> \<not> (length (items i) > 1 \<and> hasListeners s single) then [Notification session [] (ItemChange i)] else [])"
    and "queued_split s (Notification session [] (ItemChange i)) =
      (if length (items i) > 1 \<and> hasListeners s single then splitMessage session i (\<not> hasListeners s batch) else [])"
  using assms by (auto simp: paired_def queued_batch_def queued_split_def checkBatchSupport_def translateAndCompress_def isMove_def Let_def)

text \<open>A listener hears of every item once. When items are removed, linked or unlinked, and only the signal for single items or only the one
  for batches has listeners, then what the monitor queues for the notification tells that signal exactly the items of the notification, in their order.\<close>

theorem items_told_once:
  assumes "paired (i_operation i) single batch" "items i \<noteq> []" "\<not> mustRetrieve i" "mo_out s = []"
    and "sig = single \<and> hasListeners s single \<and> \<not> hasListeners s batch \<or> sig = batch \<and> hasListeners s batch \<and> \<not> hasListeners s single"
  shows "told sig (mo_out (emit_all (queued_batch s (Notification session [] (ItemChange i)) @ queued_split s (Notification session [] (ItemChange i))) s)) =
    itemsToUids (items i)"
proof -
  have ne: "single \<noteq> batch" using assms(1) by (auto simp: paired_def)
  have one: "\<not> 1 < length (items i) \<Longrightarrow> [hd (itemsToUids (items i))] = itemsToUids (items i)"
    using assms(2) by (cases "items i") (simp_all add: itemsToUids_def)
  note e = emit_paired [OF assms(1-3), of session s]
  show ?thesis using assms(4,5) ne one emit_split [OF assms(1) ne, of session _ s]
    by (auto simp: queued_paired [OF assms(1,2)] e emit_all_def) (auto simp: told_def emit_all_def e)
qed

lemma items_told_once_witness:
  "told itemRemoved (mo_out (emit_all
      (queued_batch ((monitor_new :: unit monitor)\<lparr>mo_listeners := [itemRemoved \<mapsto> 1]\<rparr>)
         (Notification [] [] (ItemChange ((sample_move 1 (-1) [10, 11])\<lparr>i_operation := ItemRemove\<rparr>))) @
       queued_split ((monitor_new :: unit monitor)\<lparr>mo_listeners := [itemRemoved \<mapsto> 1]\<rparr>)
         (Notification [] [] (ItemChange ((sample_move 1 (-1) [10, 11])\<lparr>i_operation := ItemRemove\<rparr>))))
      ((monitor_new :: unit monitor)\<lparr>mo_listeners := [itemRemoved \<mapsto> 1]\<rparr>))) = [10, 11]"
proof -
  let ?i = "(sample_move 1 (-1) [10, 11])\<lparr>i_operation := ItemRemove\<rparr>" and ?s = "(monitor_new :: unit monitor)\<lparr>mo_listeners := [itemRemoved \<mapsto> 1]\<rparr>"
  have "told itemRemoved (mo_out (emit_all (queued_batch ?s (Notification [] [] (ItemChange ?i)) @ queued_split ?s (Notification [] [] (ItemChange ?i))) ?s)) =
      itemsToUids (items ?i)"
    by (rule items_told_once [of _ itemRemoved itemsRemoved]) (simp_all add: paired_def sample_move_def monitor_new_def hasListeners_def)
  then show ?thesis by (simp add: sample_move_def sample_item_def itemsToUids_def)
qed

text \<open>With listeners for both signals a batch is emitted as a batch and once more item by item, and each of these emissions goes to both signals: the
  listeners of batches hear of every item twice, the others of the first item twice.\<close>

lemma both_listeners_told_twice:
  assumes "paired (i_operation i) single batch" "1 < length (items i)" "\<not> mustRetrieve i" "mo_out s = []" "hasListeners s single" "hasListeners s batch"
  shows "told batch (mo_out (emit_all (queued_batch s (Notification session [] (ItemChange i)) @ queued_split s (Notification session [] (ItemChange i))) s)) =
      itemsToUids (items i) @ itemsToUids (items i)"
    and "told single (mo_out (emit_all (queued_batch s (Notification session [] (ItemChange i)) @ queued_split s (Notification session [] (ItemChange i))) s)) =
      hd (itemsToUids (items i)) # itemsToUids (items i)"
proof -
  have ne: "single \<noteq> batch" using assms(1) by (auto simp: paired_def)
  have items: "items i \<noteq> []" using assms(2) by auto
  let ?m = "Notification session [] (ItemChange i)"
  note e = emit_paired [OF assms(1) items assms(3), of session s]
  have l: "hasListeners (snd (emitNotification ?m s)) = hasListeners s" by (rule hasListeners_cong [OF e(2)])
  have q: "emit_all (queued_batch s ?m @ queued_split s ?m) s = emit_all (splitMessage session i False) (snd (emitNotification ?m s))"
    using assms(2,5,6) by (simp add: queued_paired [OF assms(1) items] emit_all_def)
  show "told batch (mo_out (emit_all (queued_batch s ?m @ queued_split s ?m) s)) = itemsToUids (items i) @ itemsToUids (items i)"
    using assms(4-6) ne by (simp add: q emit_split [OF assms(1) ne] l e(1)) (simp add: told_def)
  show "told single (mo_out (emit_all (queued_batch s ?m @ queued_split s ?m) s)) = hd (itemsToUids (items i)) # itemsToUids (items i)"
    using assms(4-6) ne by (simp add: q emit_split [OF assms(1) ne] l e(1)) (simp add: told_def)
qed

section \<open>References\<close>

text \<open>The collections that are monitored for their references: those with a count, and the last ten that were given up.\<close>

datatype ref_op = Ref int | Deref int

fun ref_do :: "ref_op \<Rightarrow> 'e monitor \<Rightarrow> 'e monitor" where
  "ref_do (Ref i) s = ref_collection i s"
| "ref_do (Deref i) s = snd (deref_collection i s)"

text \<open>The specification: the number of references, and the ids that have none any more, the last one first.\<close>

fun ref_count :: "ref_op list \<Rightarrow> int \<Rightarrow> int" where
  "ref_count [] i = 0"
| "ref_count (Ref j # ops) i = ref_count ops i + (if i = j then 1 else 0)"
| "ref_count (Deref j # ops) i = ref_count ops i - (if i = j then 1 else 0)"

fun given_up :: "ref_op list \<Rightarrow> int list" where
  "given_up [] = []"
| "given_up (Ref j # ops) = removeAll j (given_up ops)"
| "given_up (Deref j # ops) = (if ref_count ops j = 1 then take 10 (j # removeAll j (given_up ops)) else given_up ops)"

fun balanced :: "ref_op list \<Rightarrow> bool" where
  "balanced [] = True"
| "balanced (Ref j # ops) = balanced ops"
| "balanced (Deref j # ops) \<longleftrightarrow> 0 < ref_count ops j \<and> balanced ops"

lemma ref_count_nonneg: "balanced ops \<Longrightarrow> 0 \<le> ref_count ops i"
  by (induction ops rule: balanced.induct) auto

lemma given_up_ok: "distinct (given_up ops) \<and> length (given_up ops) \<le> 10"
proof (induction ops rule: given_up.induct)
  case (3 j ops)
  then show ?case by (auto simp: distinct_removeAll intro: distinct_take dest: in_set_takeD)
qed (auto simp: distinct_removeAll intro: le_trans [OF length_removeAll_less_eq])

text \<open>The history is written with the last operation first.\<close>

lemma removeAll_rev: "removeAll x (rev xs) = rev (removeAll x xs)"
  by (simp add: removeAll_filter_not_eq rev_filter)

lemma buffer_collection_take:
  assumes "distinct g" "length g \<le> 10"
  shows "snd (buffer_collection i (rev g)) = rev (take 10 (i # removeAll i g))"
proof -
  let ?r = "removeAll i g"
  have purged: "purge i (rev g) = rev ?r" using assms(1) by (simp add: purge_def distinct_remove1_removeAll removeAll_rev)
  have d: "distinct ?r" using assms(1) by (simp add: distinct_removeAll)
  show ?thesis
  proof (cases "length ?r = 10")
    case True
    have "distinct (rev ?r)" "rev ?r \<noteq> []" using d True by auto
    then have "hd (rev ?r) \<notin> set (tl (rev ?r))" by (metis distinct.simps(2) list.exhaust_sel)
    then have "purge (hd (rev ?r)) (tl (rev ?r)) = rev (take 9 ?r)" using True
      by (simp add: purge_def remove1_idem rev_take) (metis drop_Suc drop_0 One_nat_def)
    then show ?thesis using True purged by (simp add: buffer_collection_def Let_def MAXBUFFERSIZE_def)
  next
    case False
    then have "length ?r \<le> 9" using assms(2) length_removeAll_less_eq [of i g] by linarith
    then show ?thesis using False purged by (simp add: buffer_collection_def Let_def MAXBUFFERSIZE_def)
  qed
qed

lemma refs_refine:
  assumes "balanced ops"
  shows "(\<forall>i. mo_refCountMap (foldr ref_do ops (monitor_new :: 'e monitor)) i = (if ref_count ops i = 0 then None else Some (ref_count ops i))) \<and>
    mo_buffer (foldr ref_do ops (monitor_new :: 'e monitor)) = rev (given_up ops)"
  using assms
proof (induction ops)
  case (Cons op ops)
  have bal: "balanced ops" using Cons.prems by (cases op) simp_all
  note IH = Cons.IH [OF bal]
  note ok = given_up_ok [of ops]
  show ?case
  proof (cases op)
    case (Ref j)
    have "j \<in> set (given_up ops) \<Longrightarrow> purge j (rev (given_up ops)) = rev (removeAll j (given_up ops))"
      using ok by (simp add: purge_def distinct_remove1_removeAll removeAll_rev)
    moreover have "ref_count ops j + 1 \<noteq> 0" using ref_count_nonneg [OF bal, of j] by simp
    ultimately show ?thesis using Ref IH by (auto simp: ref_collection_def Let_def)
  next
    case (Deref j)
    then have "0 < ref_count ops j" using Cons.prems by simp
    moreover have "(case mo_refCountMap (foldr ref_do ops (monitor_new :: 'e monitor)) j of None \<Rightarrow> 0 | Some n \<Rightarrow> n) = ref_count ops j" using IH by simp
    ultimately show ?thesis using Deref IH buffer_collection_take [of "given_up ops" j] ok
      by (auto simp: deref_collection_def Let_def split: prod.splits)
  qed
qed (simp add: monitor_new_def)

text \<open>(C11) With reference counting a collection is monitored exactly as long as somebody holds a reference to it, and afterwards while it is among
  the ten that were given up last. The history \<open>ops\<close> has the last operation first; nobody gives back what he does not hold.\<close>

theorem refcounting_refines:
  assumes "balanced ops"
  shows "isMonitored ((foldr ref_do ops (monitor_new :: 'a monitor))\<lparr>mo_useRefCounting := True\<rparr>) i = (0 < ref_count ops i \<or> i \<in> set (given_up ops)) \<and>
    length (given_up ops) \<le> 10"
proof
  have "isMonitored ((foldr ref_do ops (monitor_new :: 'a monitor))\<lparr>mo_useRefCounting := True\<rparr>) i \<longleftrightarrow>
      mo_refCountMap (foldr ref_do ops (monitor_new :: 'a monitor)) i \<noteq> None \<or> i \<in> set (mo_buffer (foldr ref_do ops (monitor_new :: 'a monitor)))"
    by (simp add: isMonitored_def)
  also have "\<dots> \<longleftrightarrow> 0 < ref_count ops i \<or> i \<in> set (given_up ops)"
    using ref_count_nonneg [OF assms, of i] by (simp add: refs_refine [OF assms, THEN conjunct1, rule_format] refs_refine [OF assms, THEN conjunct2])
  finally show "isMonitored ((foldr ref_do ops (monitor_new :: 'a monitor))\<lparr>mo_useRefCounting := True\<rparr>) i =
    (0 < ref_count ops i \<or> i \<in> set (given_up ops))" .
  show "length (given_up ops) \<le> 10" using given_up_ok by blast
qed

lemma refcounting_refines_witness:
  "isMonitored ((foldr ref_do [Deref 3, Ref 4, Ref 3] (monitor_new :: unit monitor))\<lparr>mo_useRefCounting := True\<rparr>) 3"
  using refcounting_refines [of "[Deref 3, Ref 4, Ref 3]" 3] by simp

end
