(* ===== verification/CollectionSync.thy ===== *)
theory CollectionSync
  imports Hash Transition Prelude
begin

text \<open>
  \<open>src/core/collectionsync.cpp\<close>: the job with which a resource brings its collections in line with its backend. The delivered and
  the local collections are compared level by level, from the root down (\<open>processLocalCollections\<close>); then collections are created,
  updated and removed, in this order, by jobs under a \<open>TransactionSequence\<close>. A collection refers to its parent, which may be
  known by its remote id only.
\<close>

section \<open>Collections\<close>

record cache_policy =
  cp_inherit :: bool
  cp_localParts :: "string list"
  cp_timeout :: int
  cp_interval :: int
  cp_syncOnDemand :: bool

definition cache_policy_eq :: "cache_policy \<Rightarrow> cache_policy \<Rightarrow> bool" where
  "cache_policy_eq a b \<longleftrightarrow>
     (if \<not> cp_inherit a \<and> \<not> cp_inherit b
      then cp_localParts a = cp_localParts b \<and> cp_timeout a = cp_timeout b \<and> cp_interval a = cp_interval b \<and>
        cp_syncOnDemand a = cp_syncOnDemand b
      else cp_inherit a = cp_inherit b)"

record col_data =
  cd_name :: string
  cd_virtual :: bool
  cd_contentMimeTypes :: "string list"
  cd_remoteRevision :: string
  cd_cachePolicy :: cache_policy
  cd_enabled :: bool
  cd_attributes :: "(string \<times> string) list"
  cd_keepLocalChanges :: "string set"

datatype scol = SCol (sc_id: int) (sc_rid: string) (sc_data: col_data) (sc_parent: "scol option")

definition data_new :: col_data where
  "data_new = \<lparr>cd_name = [], cd_virtual = False, cd_contentMimeTypes = [], cd_remoteRevision = [],
     cd_cachePolicy = \<lparr>cp_inherit = True, cp_localParts = [], cp_timeout = -1, cp_interval = -1, cp_syncOnDemand = False\<rparr>,
     cd_enabled = True, cd_attributes = [], cd_keepLocalChanges = {}\<rparr>"

text \<open>\<open>Collection::root()\<close>, the parent of a collection that has none, and \<open>setParentCollection\<close>. Two collections are equal when
  their ids are, and all invalid ones are equal.\<close>

definition root_collection :: scol where
  "root_collection = SCol 0 [] data_new None"

definition sc_isValid :: "scol \<Rightarrow> bool" where
  "sc_isValid c \<longleftrightarrow> 0 \<le> sc_id c"

definition sc_eq :: "scol \<Rightarrow> scol \<Rightarrow> bool" where
  "sc_eq a b \<longleftrightarrow> (\<not> sc_isValid a \<and> \<not> sc_isValid b) \<or> sc_id a = sc_id b"

definition parentCollection :: "scol \<Rightarrow> scol" where
  "parentCollection c = (case sc_parent c of None \<Rightarrow> SCol (-1) [] data_new None | Some p \<Rightarrow> p)"

definition setParentCollection :: "scol \<Rightarrow> scol \<Rightarrow> scol" where
  "setParentCollection p c = SCol (sc_id c) (sc_rid c) (sc_data c) (Some p)"

section \<open>State\<close>

type_synonym remote_id = "string list"

definition ROOTPARENTRID :: string where
  "ROOTPARENTRID = ''AKONADI_ROOT_COLLECTION''"

definition rootRid :: remote_id where
  "rootRid = [ROOTPARENTRID]"

text \<open>\<open>last()\<close> of an empty chain is not defined; it counts as not absolute.\<close>

definition isAbsolute :: "remote_id \<Rightarrow> bool" where
  "isAbsolute r \<longleftrightarrow> r \<noteq> [] \<and> last r = ROOTPARENTRID"

datatype col_job = CreateCollection scol | ModifyCollection scol | MoveCollection scol scol | DeleteCollection scol | FetchCollections

datatype col_error = NoColError | UnknownError | UserCanceledError | JobError

text \<open>Below the members: \<open>cs_jobs\<close> are all jobs that were created and \<open>cs_running\<close> those without a result, each with its transaction;
  \<open>cs_subs\<close> are the transactions that have not ended, \<open>cs_used\<close> those that have got a job, \<open>cs_closing\<close> those that are committing
  or rolling back and \<open>cs_failed\<close> those with an error; \<open>cs_awaited\<close> are the transactions whose end calls \<open>emitResult\<close> again,
  \<open>cs_queued\<close> the number of such calls in the event loop; \<open>cs_finished\<close> says that \<open>result\<close> was emitted.\<close>

record csync =
  cs_pendingJobs :: int
  cs_currentTransaction :: "nat option"
  cs_incremental :: bool
  cs_streaming :: bool
  cs_hierarchicalRIDs :: bool
  cs_localListDone :: bool
  cs_deliveryDone :: bool
  cs_keepLocalChanges :: "string set"
  cs_removedRemote :: "(remote_id \<times> scol list) list"
  cs_remote :: "(remote_id \<times> scol list) list"
  cs_local :: "(remote_id \<times> scol list) list"
  cs_toRemove :: "scol list"
  cs_toCreate :: "scol list"
  cs_toUpdate :: "(scol \<times> scol) list"
  cs_uidRidMap :: "int \<rightharpoonup> string"
  cs_resultEmitted :: bool
  cs_error :: col_error
  cs_jobs :: "col_job list"
  cs_running :: "(col_job \<times> nat option) list"
  cs_subs :: "nat list"
  cs_used :: "nat set"
  cs_closing :: "nat list"
  cs_failed :: "nat set"
  cs_awaited :: "nat list"
  cs_queued :: nat
  cs_next :: nat
  cs_finished :: bool

definition csync_new :: "bool \<Rightarrow> string set \<Rightarrow> bool \<Rightarrow> csync" where
  "csync_new hierarchical keep streaming =
     \<lparr>cs_pendingJobs = 0, cs_currentTransaction = None, cs_incremental = False, cs_streaming = streaming, cs_hierarchicalRIDs = hierarchical,
      cs_localListDone = False, cs_deliveryDone = False, cs_keepLocalChanges = keep, cs_removedRemote = [], cs_remote = [], cs_local = [],
      cs_toRemove = [], cs_toCreate = [], cs_toUpdate = [], cs_uidRidMap = (\<lambda>_. None), cs_resultEmitted = False, cs_error = NoColError,
      cs_jobs = [], cs_running = [], cs_subs = [], cs_used = {}, cs_closing = [], cs_failed = {}, cs_awaited = [], cs_queued = 0, cs_next = 0,
      cs_finished = False\<rparr>"

section \<open>Remote ids\<close>

text \<open>The loop of \<open>remoteIdForCollection\<close>: the chain of remote ids up to the root.\<close>

fun rid_chain :: "(int \<rightharpoonup> string) \<Rightarrow> scol \<Rightarrow> remote_id" where
  "rid_chain uids (SCol i r d p) =
     (if \<not> (0 \<le> i \<or> r \<noteq> []) then []
      else
        (let prid = (if r = [] \<and> 0 \<le> i then (case uids i of None \<Rightarrow> [] | Some x \<Rightarrow> x) else r)
         in if prid = [] then []
            else prid # (case p of
                           None \<Rightarrow> []
                         | Some q \<Rightarrow> if sc_eq q root_collection then [ROOTPARENTRID] else rid_chain uids q)))"

definition remoteIdFor :: "bool \<Rightarrow> (int \<rightharpoonup> string) \<Rightarrow> scol \<Rightarrow> remote_id" where
  "remoteIdFor hierarchical uids c =
     (if sc_eq c root_collection then rootRid
      else if \<not> hierarchical then [sc_rid c]
      else rid_chain uids c)"

definition remoteIdForCollection :: "csync \<Rightarrow> scol \<Rightarrow> remote_id" where
  "remoteIdForCollection s c = remoteIdFor (cs_hierarchicalRIDs s) (cs_uidRidMap s) c"

definition addRemoteColection :: "bool \<Rightarrow> scol \<Rightarrow> csync \<Rightarrow> csync" where
  "addRemoteColection removed c s =
     (let p = parentCollection c;
          top = (sc_rid p = sc_rid root_collection \<or> sc_id p = sc_id root_collection);
          k = (if top then rootRid else remoteIdForCollection s p);
          c = (if top then setParentCollection root_collection c else c)
      in if removed then s\<lparr>cs_removedRemote := at_key k (\<lambda>cs. cs @ [c]) (cs_removedRemote s)\<rparr>
         else s\<lparr>cs_remote := at_key k (\<lambda>cs. cs @ [c]) (cs_remote s)\<rparr>)"

definition localCollectionsReceived :: "scol list \<Rightarrow> csync \<Rightarrow> csync" where
  "localCollectionsReceived cs s =
     fold (\<lambda>c s. s\<lparr>cs_local := at_key (remoteIdForCollection s (parentCollection c)) (\<lambda>xs. xs @ [c]) (cs_local s)\<rparr>) cs s"

section \<open>Comparing\<close>

definition matchLocalAndRemoteCollection :: "scol \<Rightarrow> scol \<Rightarrow> bool" where
  "matchLocalAndRemoteCollection l r \<longleftrightarrow>
     (if sc_rid l \<noteq> [] then sc_rid l = sc_rid r else cd_name (sc_data l) = cd_name (sc_data r))"

definition CONTENTMIMETYPES :: string where
  "CONTENTMIMETYPES = ''CONTENTMIMETYPES''"

definition ignoreAttributeChanges :: "string set \<Rightarrow> scol \<Rightarrow> string \<Rightarrow> bool" where
  "ignoreAttributeChanges keep c a \<longleftrightarrow> a \<in> keep \<or> a \<in> cd_keepLocalChanges (sc_data c)"

definition collectionNeedsUpdate :: "string set \<Rightarrow> scol \<Rightarrow> scol \<Rightarrow> bool" where
  "collectionNeedsUpdate keep l r \<longleftrightarrow>
     (let ld = sc_data l; rd = sc_data r in
      \<not> ignoreAttributeChanges keep r CONTENTMIMETYPES \<and>
        (length (cd_contentMimeTypes ld) \<noteq> length (cd_contentMimeTypes rd) \<or>
         \<not> list_all (\<lambda>m. m \<in> set (cd_contentMimeTypes ld)) (cd_contentMimeTypes rd)) \<or>
      sc_rid (parentCollection l) \<noteq> sc_rid (parentCollection r) \<or>
      cd_name ld \<noteq> cd_name rd \<or>
      sc_rid l \<noteq> sc_rid r \<or>
      cd_remoteRevision ld \<noteq> cd_remoteRevision rd \<or>
      \<not> cache_policy_eq (cd_cachePolicy ld) (cd_cachePolicy rd) \<or>
      cd_enabled ld \<noteq> cd_enabled rd \<or>
      list_ex (\<lambda>(a, v).
        \<not> (map_of (cd_attributes ld) a \<noteq> None \<and> ignoreAttributeChanges keep r a) \<and>
        map_of (cd_attributes ld) a \<noteq> Some v) (cd_attributes rd))"

text \<open>The loop of \<open>processCollections\<close> over the local children: \<open>kept\<close> are those it has passed without a match. \<open>None\<close>: when a
  collection has to be created anew and another one on the same level is its child, the inner loop erases elements of the
  lists the outer loops iterate over.\<close>

record outcome =
  oc_kept :: "scol list"
  oc_removed :: "scol list"
  oc_remote :: "scol list"
  oc_toRemove :: "scol list"
  oc_toCreate :: "scol list"
  oc_toUpdate :: "(scol \<times> scol) list"

fun process_children :: "string set \<Rightarrow> scol list \<Rightarrow> outcome \<Rightarrow> outcome option" where
  "process_children keep [] o' = Some o'"
| "process_children keep (l # ls) o' =
     (case List.extract (matchLocalAndRemoteCollection l) (oc_removed o') of
        Some (xs, r, ys) \<Rightarrow>
          process_children keep ls (o'\<lparr>oc_removed := xs @ ys, oc_toRemove := oc_toRemove o' @ (if sc_rid l \<noteq> [] then [l] else [])\<rparr>)
      | None \<Rightarrow>
          (case List.extract (matchLocalAndRemoteCollection l) (oc_remote o') of
             Some (xs, r, ys) \<Rightarrow>
               if cd_virtual (sc_data l) \<noteq> cd_virtual (sc_data r) then
                 (if list_ex (\<lambda>c. sc_eq (parentCollection c) l) (oc_kept o' @ l # ls) then None
                  else process_children keep ls
                    (o'\<lparr>oc_remote := xs @ ys, oc_toRemove := oc_toRemove o' @ [l], oc_toCreate := oc_toCreate o' @ [r]\<rparr>))
               else process_children keep ls
                 (o'\<lparr>oc_remote := xs @ ys, oc_toUpdate := oc_toUpdate o' @ (if collectionNeedsUpdate keep l r then [(l, r)] else [])\<rparr>)
           | None \<Rightarrow> process_children keep ls (o'\<lparr>oc_kept := oc_kept o' @ [l]\<rparr>)))"

definition hash_set :: "'k \<Rightarrow> 'a list \<Rightarrow> ('k \<times> 'a list) list \<Rightarrow> ('k \<times> 'a list) list" where
  "hash_set k xs m = (if xs \<noteq> [] then hash_insert k xs m else hash_remove k m)"

definition processCollections :: "remote_id \<Rightarrow> csync \<Rightarrow> csync option" where
  "processCollections k s =
     (let locals = value_at k (cs_local s) in
      case process_children (cs_keepLocalChanges s) locals
             \<lparr>oc_kept = [], oc_removed = value_at k (cs_removedRemote s), oc_remote = value_at k (cs_remote s), oc_toRemove = [],
              oc_toCreate = [], oc_toUpdate = []\<rparr> of
        None \<Rightarrow> None
      | Some o' \<Rightarrow>
          Some (s\<lparr>cs_uidRidMap := fold (\<lambda>l m. m(sc_id l \<mapsto> sc_rid l)) locals (cs_uidRidMap s),
                 cs_toRemove := cs_toRemove s @ oc_toRemove o', cs_toCreate := cs_toCreate s @ oc_toCreate o',
                 cs_toUpdate := cs_toUpdate s @ oc_toUpdate o',
                 cs_removedRemote := hash_set k (oc_removed o') (cs_removedRemote s),
                 cs_remote := hash_set k (oc_remote o') (cs_remote s),
                 cs_local := hash_set k (oc_kept o') (cs_local s)\<rparr>))"

text \<open>What \<open>processLocalCollections\<close> does with the children that were not matched, and its recursion, with fuel for its depth.\<close>

definition take_children :: "remote_id \<Rightarrow> scol \<Rightarrow> csync \<Rightarrow> csync" where
  "take_children k p s =
     s\<lparr>cs_remote := hash_remove k (cs_remote s), cs_local := hash_remove k (cs_local s),
       cs_toCreate := cs_toCreate s @ map (setParentCollection p) (value_at k (cs_remote s)),
       cs_toRemove := cs_toRemove s @ (if cs_incremental s then [] else filter (\<lambda>c. sc_rid c \<noteq> []) (value_at k (cs_local s)))\<rparr>"

fun processLocalCollections :: "nat \<Rightarrow> remote_id \<Rightarrow> scol \<Rightarrow> csync \<Rightarrow> csync option" where
  "processLocalCollections 0 k p s = None"
| "processLocalCollections (Suc n) k p s =
     (case processCollections k s of
        None \<Rightarrow> None
      | Some s1 \<Rightarrow>
          fold (\<lambda>c r. case r of None \<Rightarrow> None | Some t \<Rightarrow> processLocalCollections n (remoteIdForCollection t c) c t)
            (value_at k (cs_local s)) (Some (take_children k p s1)))"

section \<open>The jobs\<close>

definition add_col_job :: "col_job \<Rightarrow> csync \<Rightarrow> csync" where
  "add_col_job j s = s\<lparr>cs_jobs := cs_jobs s @ [j], cs_running := cs_running s @ [(j, cs_currentTransaction s)],
     cs_used := (case cs_currentTransaction s of None \<Rightarrow> cs_used s | Some t \<Rightarrow> insert t (cs_used s))\<rparr>"

definition start_col_job :: "col_job \<Rightarrow> csync \<Rightarrow> csync" where
  "start_col_job j s = add_col_job j (s\<lparr>cs_pendingJobs := cs_pendingJobs s + 1\<rparr>)"

text \<open>\<open>KJob::emitResult\<close> of the job, and the end of one of its transactions: \<open>transactionSequenceResult\<close>, and in the base class the error
  of a transaction that failed.\<close>

definition q_emitResult :: "csync \<Rightarrow> csync" where
  "q_emitResult s = s\<lparr>cs_finished := True\<rparr>"

definition transactionSequenceResult :: "nat \<Rightarrow> csync \<Rightarrow> csync" where
  "transactionSequenceResult t s =
     (if t \<in> cs_failed s then s else if cs_currentTransaction s = Some t then s\<lparr>cs_currentTransaction := None\<rparr> else s)"

definition end_transaction :: "nat \<Rightarrow> csync \<Rightarrow> csync" where
  "end_transaction t s =
     (let s = transactionSequenceResult t s;
          s = s\<lparr>cs_subs := removeAll t (cs_subs s), cs_closing := removeAll t (cs_closing s),
                cs_queued := cs_queued s + count_list (cs_awaited s) t, cs_awaited := removeAll t (cs_awaited s)\<rparr>
      in if t \<in> cs_failed s
         then q_emitResult (s\<lparr>cs_error := (if cs_error s = NoColError then JobError else cs_error s)\<rparr>)
         else s)"

text \<open>\<open>TransactionSequence::commit\<close> of the current transaction: one that never got a job ends at once, one that is being closed
  already is left alone.\<close>

definition commit_transaction :: "csync \<Rightarrow> csync" where
  "commit_transaction s =
     (case cs_currentTransaction s of
        None \<Rightarrow> s
      | Some t \<Rightarrow>
          if t \<in> set (cs_closing s) then s
          else if t \<notin> cs_used s then end_transaction t s
          else s\<lparr>cs_closing := cs_closing s @ [t]\<rparr>)"

definition createTransaction :: "csync \<Rightarrow> csync" where
  "createTransaction s = s\<lparr>cs_currentTransaction := Some (cs_next s), cs_subs := cs_subs s @ [cs_next s], cs_next := Suc (cs_next s)\<rparr>"

text \<open>\<open>TransactionSequence::rollback\<close>: the jobs of the transaction are killed, all but the one that is being executed (\<open>kept\<close>). The
  slots of the killed jobs only count.\<close>

definition counted_jobs :: "(col_job \<times> nat option) list \<Rightarrow> int" where
  "counted_jobs js = int (length (filter (\<lambda>j. fst j \<noteq> FetchCollections) js))"

definition kill_col_jobs :: "(col_job \<times> nat option \<Rightarrow> bool) \<Rightarrow> csync \<Rightarrow> csync" where
  "kill_col_jobs P s = s\<lparr>cs_running := filter (\<lambda>j. \<not> P j) (cs_running s),
     cs_pendingJobs := cs_pendingJobs s - counted_jobs (filter P (cs_running s))\<rparr>"

definition rollback_transaction :: "(col_job \<times> nat option) option \<Rightarrow> nat \<Rightarrow> csync \<Rightarrow> csync" where
  "rollback_transaction kept t s =
     (let s = s\<lparr>cs_failed := insert t (cs_failed s)\<rparr> in
      if t \<notin> cs_used s then end_transaction t s
      else (kill_col_jobs (\<lambda>j. snd j = Some t \<and> Some j \<noteq> kept) s)\<lparr>cs_closing := List.insert t (cs_closing s)\<rparr>)"

text \<open>\<open>emitResult\<close>, called again while there are transactions.\<close>

definition cs_emitResult :: "csync \<Rightarrow> csync" where
  "cs_emitResult s =
     (if cs_resultEmitted s then s
      else case cs_subs s of
        t # _ \<Rightarrow> s\<lparr>cs_awaited := cs_awaited s @ [t]\<rparr>
      | [] \<Rightarrow> q_emitResult (s\<lparr>cs_resultEmitted := True\<rparr>))"

definition cs_done :: "csync \<Rightarrow> csync" where
  "cs_done s =
     (let s = (commit_transaction s)\<lparr>cs_currentTransaction := None\<rparr>;
          s = (if cs_remote s \<noteq> [] then s\<lparr>cs_error := UnknownError\<rparr> else s)
      in cs_emitResult s)"

definition deleteLocalCollections :: "csync \<Rightarrow> csync" where
  "deleteLocalCollections s =
     (if cs_toRemove s = [] then cs_done s
      else fold (\<lambda>c. start_col_job (DeleteCollection c)) (cs_toRemove s) s)"

definition deleteLocalCollectionsResult :: "csync \<Rightarrow> csync" where
  "deleteLocalCollectionsResult s =
     (let s = s\<lparr>cs_pendingJobs := cs_pendingJobs s - 1\<rparr>
      in if cs_pendingJobs s = 0 then cs_done ((commit_transaction s)\<lparr>cs_currentTransaction := None\<rparr>) else s)"

text \<open>The collection an update writes: the remote one with the id of the local one and what is kept of it.\<close>

definition updated_collection :: "string set \<Rightarrow> scol \<Rightarrow> scol \<Rightarrow> scol" where
  "updated_collection keep l r =
     (let d = sc_data r;
          d = (if ignoreAttributeChanges keep r CONTENTMIMETYPES then d\<lparr>cd_contentMimeTypes := cd_contentMimeTypes (sc_data l)\<rparr> else d);
          d = d\<lparr>cd_attributes := map (\<lambda>(a, v). (a, case map_of (cd_attributes (sc_data l)) a of
                None \<Rightarrow> v | Some w \<Rightarrow> if ignoreAttributeChanges keep r a then w else v)) (cd_attributes d)\<rparr>
      in SCol (sc_id l) (sc_rid r) d (sc_parent r))"

definition update_pair :: "scol \<times> scol \<Rightarrow> csync \<Rightarrow> csync" where
  "update_pair = (\<lambda>(l, r) s.
     let upd = updated_collection (cs_keepLocalChanges s) l r;
         s = start_col_job (ModifyCollection (setParentCollection (parentCollection l) upd)) s
     in if \<not> cs_hierarchicalRIDs s \<and> sc_isValid (parentCollection r) \<and> sc_id (parentCollection r) \<noteq> sc_id (parentCollection l)
        then start_col_job (MoveCollection upd (parentCollection r)) s else s)"

definition updateLocalCollections :: "csync \<Rightarrow> csync" where
  "updateLocalCollections s =
     (if cs_toUpdate s = [] then deleteLocalCollections s else fold update_pair (cs_toUpdate s) s)"

definition updateLocalCollectionResult :: "bool \<Rightarrow> csync \<Rightarrow> csync" where
  "updateLocalCollectionResult failed s =
     (let s = s\<lparr>cs_pendingJobs := cs_pendingJobs s - 1\<rparr>
      in if failed then s
         else if cs_pendingJobs s = 0 then deleteLocalCollections (createTransaction (commit_transaction s))
         else s)"

definition parent_exists :: "scol \<Rightarrow> bool" where
  "parent_exists c \<longleftrightarrow> sc_eq (parentCollection c) root_collection \<or> 0 < sc_id (parentCollection c)"

definition create_one :: "scol \<Rightarrow> csync \<Rightarrow> csync" where
  "create_one c s =
     (if parent_exists c then
        (let s = start_col_job (CreateCollection c) s
         in if cs_pendingJobs s mod 100 = 0 then createTransaction (commit_transaction s) else s)
      else s\<lparr>cs_toCreate := cs_toCreate s @ [c]\<rparr>)"

definition createLocalCollections :: "csync \<Rightarrow> csync" where
  "createLocalCollections s =
     (if cs_toCreate s = [] then updateLocalCollections s
      else fold create_one (cs_toCreate s) (s\<lparr>cs_toCreate := []\<rparr>))"

text \<open>The parent of a waiting collection is replaced by the new local one, as far as the loop finds it: it compares the remote id of the
  waiting collection, not the one of its parent.\<close>

definition adopt :: "scol \<Rightarrow> csync \<Rightarrow> scol \<Rightarrow> scol" where
  "adopt new s c =
     (let p = parentCollection c; r = remoteIdForCollection s c in
      if \<not> sc_eq p root_collection \<and> sc_id p \<le> 0 then
        (if isAbsolute r then (if remoteIdForCollection s new = r then setParentCollection new c else c)
         else if \<not> cs_hierarchicalRIDs s \<and> r \<noteq> [] \<and> hd r = sc_rid p then setParentCollection new c
         else c)
      else c)"

definition created_local :: "scol \<Rightarrow> csync \<Rightarrow> csync" where
  "created_local new s =
     (let s = s\<lparr>cs_uidRidMap := (cs_uidRidMap s)(sc_id new \<mapsto> sc_rid new)\<rparr>;
          k = remoteIdForCollection s new;
          s = s\<lparr>cs_toCreate := map (adopt new s) (cs_toCreate s)\<rparr>;
          cs = value_at k (cs_remote s);
          s = s\<lparr>cs_remote := hash_remove k (cs_remote s)\<rparr>;
          again = (cs = [] \<and> \<not> cs_hierarchicalRIDs s);
          cs = (if again then value_at [sc_rid new] (cs_remote s) else cs);
          s = (if again then s\<lparr>cs_remote := hash_remove [sc_rid new] (cs_remote s)\<rparr> else s)
      in s\<lparr>cs_toCreate := cs_toCreate s @ map (setParentCollection new) cs\<rparr>)"

definition createLocalCollectionResult :: "scol option \<Rightarrow> csync \<Rightarrow> csync" where
  "createLocalCollectionResult result s =
     (let s = s\<lparr>cs_pendingJobs := cs_pendingJobs s - 1\<rparr>
      in case result of
           None \<Rightarrow> s
         | Some new \<Rightarrow>
             let s = created_local new s
             in if cs_toCreate s \<noteq> [] then createLocalCollections s
                else if cs_pendingJobs s = 0 then
                  (if cs_remote s \<noteq> [] then
                     let s = (case cs_currentTransaction s of None \<Rightarrow> s | Some t \<Rightarrow> rollback_transaction None t s)
                     in cs_emitResult (s\<lparr>cs_error := UnknownError\<rparr>)
                   else updateLocalCollections (createTransaction (commit_transaction s)))
                else s)"

definition execute :: "csync \<Rightarrow> csync" where
  "execute s =
     (if \<not> cs_localListDone s \<and> \<not> cs_deliveryDone s then s
      else if \<not> cs_localListDone s \<and> cs_deliveryDone s then add_col_job FetchCollections s
      else if cs_currentTransaction s = None then
        (if cs_toCreate s = [] \<and> cs_toUpdate s = [] \<and> cs_toRemove s = [] then cs_emitResult s
         else createLocalCollections (createTransaction s))
      else createLocalCollections s)"

definition localCollectionFetchResult :: "csync \<Rightarrow> csync option" where
  "localCollectionFetchResult s =
     (case processLocalCollections (Suc (length (cs_local s))) rootRid root_collection s of
        None \<Rightarrow> None
      | Some t \<Rightarrow> Some (execute (t\<lparr>cs_localListDone := True\<rparr>)))"

section \<open>Deliveries\<close>

definition setRemoteCollections :: "scol list \<Rightarrow> csync \<Rightarrow> csync" where
  "setRemoteCollections cs s =
     (let s = fold (addRemoteColection False) cs s
      in execute (if \<not> cs_streaming s then s\<lparr>cs_deliveryDone := True\<rparr> else s))"

definition setChangedCollections :: "scol list \<Rightarrow> scol list \<Rightarrow> csync \<Rightarrow> csync" where
  "setChangedCollections changed removed s =
     (let s = s\<lparr>cs_incremental := True\<rparr>;
          s = fold (addRemoteColection True) removed (fold (addRemoteColection False) changed s)
      in execute (if \<not> cs_streaming s then s\<lparr>cs_deliveryDone := True\<rparr> else s))"

definition retrievalDone :: "csync \<Rightarrow> csync" where
  "retrievalDone s = execute (s\<lparr>cs_deliveryDone := True\<rparr>)"

definition cs_rollback :: "(col_job \<times> nat option) option \<Rightarrow> csync \<Rightarrow> csync" where
  "cs_rollback kept s =
     (case cs_currentTransaction s of
        Some t \<Rightarrow> rollback_transaction kept t s
      | None \<Rightarrow> q_emitResult (s\<lparr>cs_error := UserCanceledError\<rparr>))"

section \<open>One level of the tree\<close>

abbreviation rids :: "scol list \<Rightarrow> string set" where
  "rids cs \<equiv> sc_rid ` set cs"

text \<open>The children of one collection: their remote ids tell them apart, and a collection is virtual in the backend if it is in the store.\<close>

definition level_ok :: "scol list \<Rightarrow> scol list \<Rightarrow> scol list \<Rightarrow> bool" where
  "level_ok ls ds rs \<longleftrightarrow> [] \<notin> rids ls \<and> distinct (map sc_rid ls) \<and> distinct (map sc_rid ds) \<and> distinct (map sc_rid rs) \<and>
     (\<forall>l\<in>set ls. \<forall>r\<in>set rs. sc_rid l = sc_rid r \<longrightarrow> cd_virtual (sc_data l) = cd_virtual (sc_data r))"

lemma extract_rid:
  assumes "distinct (map sc_rid xs)" "List.extract (\<lambda>r. a = sc_rid r) xs = Some (ys, y, zs)"
  shows "y \<in> set xs" "sc_rid y = a" "ys @ zs = filter (\<lambda>r. sc_rid r \<noteq> a) xs"
proof -
  have xs: "xs = ys @ y # zs" "a = sc_rid y" using assms(2) by (auto simp: extract_Some_iff)
  then show "y \<in> set xs" "sc_rid y = a" by simp_all
  have "a \<notin> rids ys" "a \<notin> rids zs" using assms(1) unfolding xs by (auto simp del: xs(2))
  then have "filter (\<lambda>r. sc_rid r \<noteq> a) ys = ys" "filter (\<lambda>r. sc_rid r \<noteq> a) zs = zs" by (auto intro: filter_True)
  then show "ys @ zs = filter (\<lambda>r. sc_rid r \<noteq> a) xs" using xs by simp
qed

lemma extract_rid_None: "a \<notin> rids xs \<Longrightarrow> List.extract (\<lambda>r. a = sc_rid r) xs = None"
  by (auto simp: extract_None_iff)

lemma extract_rid_Some: "a \<in> rids xs \<Longrightarrow> \<exists>ys y zs. List.extract (\<lambda>r. a = sc_rid r) xs = Some (ys, y, zs)"
  by (cases "List.extract (\<lambda>r. a = sc_rid r) xs") (auto simp: extract_None_iff)

lemma match_rid: "sc_rid l \<noteq> [] \<Longrightarrow> matchLocalAndRemoteCollection l = (\<lambda>r. sc_rid l = sc_rid r)"
  by (auto simp: matchLocalAndRemoteCollection_def fun_eq_iff)

lemma no_rid: "a \<notin> rids xs \<Longrightarrow> filter (\<lambda>x. sc_rid x = a \<and> P x) xs = []"
  by (induction xs) auto

lemma absent_rid: "a \<notin> rids xs \<Longrightarrow> filter (\<lambda>r. sc_rid r \<noteq> a \<and> P r) xs = filter P xs"
  by (rule filter_cong) auto

lemma unique_rid:
  assumes "distinct (map sc_rid xs)" "r \<in> set xs"
  shows "filter (\<lambda>x. sc_rid x = sc_rid r \<and> P x) xs = (if P r then [r] else [])"
proof -
  obtain ys zs where xs: "xs = ys @ r # zs" using assms(2) by (meson split_list)
  then have "sc_rid r \<notin> rids ys" "sc_rid r \<notin> rids zs" using assms(1) by auto
  then show ?thesis by (simp add: xs no_rid)
qed

lemma rids_without: "rids (filter (\<lambda>r. sc_rid r \<noteq> a) xs) = rids xs - {a}"
  by auto

definition updates_of :: "string set \<Rightarrow> scol list \<Rightarrow> string set \<Rightarrow> scol list \<Rightarrow> (scol \<times> scol) list" where
  "updates_of keep ls D rs =
     concat (map (\<lambda>l. if sc_rid l \<in> D then [] else map (Pair l) (filter (\<lambda>r. sc_rid r = sc_rid l \<and> collectionNeedsUpdate keep l r) rs)) ls)"

lemma updates_of_Nil [simp]: "updates_of keep [] D rs = []"
  by (simp add: updates_of_def)

lemma updates_of_Cons: "updates_of keep (l # ls) D rs =
    (if sc_rid l \<in> D then [] else map (Pair l) (filter (\<lambda>r. sc_rid r = sc_rid l \<and> collectionNeedsUpdate keep l r) rs)) @ updates_of keep ls D rs"
  by (simp add: updates_of_def)

lemma other_level:
  assumes "a \<notin> rids ls"
  shows "filter (\<lambda>l. sc_rid l \<in> A - {a}) ls = filter (\<lambda>l. sc_rid l \<in> A) ls"
    and "filter (\<lambda>l. sc_rid l \<notin> A - {a}) ls = filter (\<lambda>l. sc_rid l \<notin> A) ls"
    and "filter (\<lambda>l. sc_rid l \<notin> A - {a} \<and> sc_rid l \<notin> B) ls = filter (\<lambda>l. sc_rid l \<notin> A \<and> sc_rid l \<notin> B) ls"
    and "filter (\<lambda>l. sc_rid l \<notin> A \<and> sc_rid l \<notin> B - {a}) ls = filter (\<lambda>l. sc_rid l \<notin> A \<and> sc_rid l \<notin> B) ls"
    and "updates_of keep ls (A - {a}) rs = updates_of keep ls A rs"
    and "updates_of keep ls A (filter (\<lambda>r. sc_rid r \<noteq> a) rs) = updates_of keep ls A rs"
proof -
  have ne: "sc_rid l \<noteq> a" if "l \<in> set ls" for l using assms that by auto
  show "filter (\<lambda>l. sc_rid l \<in> A - {a}) ls = filter (\<lambda>l. sc_rid l \<in> A) ls" by (rule filter_cong) (simp_all add: ne)
  show "filter (\<lambda>l. sc_rid l \<notin> A - {a}) ls = filter (\<lambda>l. sc_rid l \<notin> A) ls" by (rule filter_cong) (simp_all add: ne)
  show "filter (\<lambda>l. sc_rid l \<notin> A - {a} \<and> sc_rid l \<notin> B) ls = filter (\<lambda>l. sc_rid l \<notin> A \<and> sc_rid l \<notin> B) ls"
    by (rule filter_cong) (simp_all add: ne)
  show "filter (\<lambda>l. sc_rid l \<notin> A \<and> sc_rid l \<notin> B - {a}) ls = filter (\<lambda>l. sc_rid l \<notin> A \<and> sc_rid l \<notin> B) ls"
    by (rule filter_cong) (simp_all add: ne)
  show "updates_of keep ls (A - {a}) rs = updates_of keep ls A rs"
    unfolding updates_of_def by (intro arg_cong [of _ _ concat] map_cong) (simp_all add: ne)
  have "filter (\<lambda>r. sc_rid r = sc_rid l \<and> collectionNeedsUpdate keep l r) (filter (\<lambda>r. sc_rid r \<noteq> a) rs) =
      filter (\<lambda>r. sc_rid r = sc_rid l \<and> collectionNeedsUpdate keep l r) rs" if "l \<in> set ls" for l
    unfolding filter_filter by (rule filter_cong) (use ne [OF that] in auto)
  then show "updates_of keep ls A (filter (\<lambda>r. sc_rid r \<noteq> a) rs) = updates_of keep ls A rs"
    unfolding updates_of_def by (intro arg_cong [of _ _ concat] map_cong) simp_all
qed

definition settled :: "string set \<Rightarrow> scol list \<Rightarrow> outcome \<Rightarrow> outcome" where
  "settled keep ls o' = (let D = rids (oc_removed o'); R = rids (oc_remote o') in
     o'\<lparr>oc_kept := oc_kept o' @ filter (\<lambda>l. sc_rid l \<notin> D \<and> sc_rid l \<notin> R) ls,
       oc_removed := filter (\<lambda>r. sc_rid r \<notin> rids ls) (oc_removed o'),
       oc_remote := filter (\<lambda>r. sc_rid r \<notin> rids (filter (\<lambda>l. sc_rid l \<notin> D) ls)) (oc_remote o'),
       oc_toRemove := oc_toRemove o' @ filter (\<lambda>l. sc_rid l \<in> D) ls,
       oc_toUpdate := oc_toUpdate o' @ updates_of keep ls D (oc_remote o')\<rparr>)"

lemma level_ok_less: "level_ok (l # ls) ds rs \<Longrightarrow> level_ok ls (filter P ds) (filter Q rs)"
  by (auto simp: level_ok_def distinct_map_filter)

lemma process_children_spec:
  "level_ok ls (oc_removed o') (oc_remote o') \<Longrightarrow> process_children keep ls o' = Some (settled keep ls o')"
proof (induction ls arbitrary: o')
  case Nil
  then show ?case by (simp add: settled_def)
next
  case (Cons l ls)
  let ?a = "sc_rid l"
  have ok: "?a \<noteq> []" "?a \<notin> rids ls" "distinct (map sc_rid (oc_removed o'))" "distinct (map sc_rid (oc_remote o'))"
    using Cons.prems by (auto simp: level_ok_def)
  note less = level_ok_less [OF Cons.prems]
  show ?case
  proof (cases "?a \<in> rids (oc_removed o')")
    case True
    then obtain xs r ys where e: "List.extract (\<lambda>r. ?a = sc_rid r) (oc_removed o') = Some (xs, r, ys)" using extract_rid_Some by blast
    note x = extract_rid [OF ok(3) e]
    let ?o = "o'\<lparr>oc_removed := xs @ ys, oc_toRemove := oc_toRemove o' @ [l]\<rparr>"
    have "level_ok ls (oc_removed ?o) (oc_remote ?o)" using less [of "\<lambda>r. sc_rid r \<noteq> ?a" "\<lambda>_. True"] by (simp add: x(3))
    from Cons.IH [OF this] have "process_children keep (l # ls) o' = Some (settled keep ls ?o)" using e ok(1) by (simp add: match_rid)
    also have "settled keep ls ?o = settled keep (l # ls) o'"
      using True by (simp add: settled_def Let_def x(3) rids_without other_level [OF ok(2)] updates_of_Cons del: set_filter Diff_iff)
    finally show ?thesis .
  next
    case F: False
    note n = extract_rid_None [OF F]
    show ?thesis
    proof (cases "?a \<in> rids (oc_remote o')")
      case True
      then obtain xs r ys where e: "List.extract (\<lambda>r. ?a = sc_rid r) (oc_remote o') = Some (xs, r, ys)" using extract_rid_Some by blast
      note x = extract_rid [OF ok(4) e]
      have v: "cd_virtual (sc_data l) = cd_virtual (sc_data r)" using Cons.prems x(1,2) by (auto simp: level_ok_def)
      let ?o = "o'\<lparr>oc_remote := xs @ ys, oc_toUpdate := oc_toUpdate o' @ (if collectionNeedsUpdate keep l r then [(l, r)] else [])\<rparr>"
      have "level_ok ls (oc_removed ?o) (oc_remote ?o)" using less [of "\<lambda>_. True" "\<lambda>r. sc_rid r \<noteq> ?a"] by (simp add: x(3))
      from Cons.IH [OF this] have "process_children keep (l # ls) o' = Some (settled keep ls ?o)" using e n v ok(1) by (simp add: match_rid)
      also have "settled keep ls ?o = settled keep (l # ls) o'"
        using F True unique_rid [OF ok(4) x(1), of "collectionNeedsUpdate keep l"]
        by (simp add: absent_rid settled_def Let_def x(2,3) rids_without other_level [OF ok(2)] updates_of_Cons del: set_filter Diff_iff)
      finally show ?thesis .
    next
      case G: False
      let ?o = "o'\<lparr>oc_kept := oc_kept o' @ [l]\<rparr>"
      have "level_ok ls (oc_removed ?o) (oc_remote ?o)" using less [of "\<lambda>_. True" "\<lambda>_. True"] by simp
      from Cons.IH [OF this] have "process_children keep (l # ls) o' = Some (settled keep ls ?o)"
        using n extract_rid_None [OF G] ok(1) by (simp add: match_rid)
      also have "settled keep ls ?o = settled keep (l # ls) o'"
        using F G by (simp add: settled_def Let_def updates_of_Cons no_rid absent_rid del: set_filter)
      finally show ?thesis .
    qed
  qed
qed

section \<open>The tree\<close>

abbreviation (input) local_at :: "csync \<Rightarrow> remote_id \<Rightarrow> scol list" where
  "local_at s k \<equiv> value_at k (cs_local s)"

abbreviation (input) remote_at :: "csync \<Rightarrow> remote_id \<Rightarrow> scol list" where
  "remote_at s k \<equiv> value_at k (cs_remote s)"

abbreviation (input) removed_at :: "csync \<Rightarrow> remote_id \<Rightarrow> scol list" where
  "removed_at s k \<equiv> value_at k (cs_removedRemote s)"

text \<open>What has to be done for the children of one collection.\<close>

definition new_at :: "csync \<Rightarrow> remote_id \<Rightarrow> scol list" where
  "new_at s k = filter (\<lambda>r. sc_rid r \<notin> rids (filter (\<lambda>l. sc_rid l \<notin> rids (removed_at s k)) (local_at s k))) (remote_at s k)"

definition gone_at :: "csync \<Rightarrow> remote_id \<Rightarrow> scol list" where
  "gone_at s k = filter (\<lambda>l. sc_rid l \<in> rids (removed_at s k) \<or> \<not> cs_incremental s \<and> sc_rid l \<notin> rids (remote_at s k)) (local_at s k)"

definition changed_at :: "csync \<Rightarrow> remote_id \<Rightarrow> (scol \<times> scol) list" where
  "changed_at s k = updates_of (cs_keepLocalChanges s) (local_at s k) (rids (removed_at s k)) (remote_at s k)"

text \<open>The key of the children of a collection, as long as it does not depend on what \<open>uidRidMap\<close> has learned.\<close>

definition stable :: "bool \<Rightarrow> scol \<Rightarrow> bool" where
  "stable h c \<longleftrightarrow> (\<forall>u. remoteIdFor h u c = remoteIdFor h (\<lambda>_. None) c)"

definition key :: "bool \<Rightarrow> scol \<Rightarrow> remote_id" where
  "key h c = remoteIdFor h (\<lambda>_. None) c"

definition tree_ok :: "csync \<Rightarrow> bool" where
  "tree_ok s \<longleftrightarrow> (\<forall>k. local_at s k \<noteq> [] \<longrightarrow> level_ok (local_at s k) (removed_at s k) (remote_at s k) \<and>
     (\<forall>c\<in>set (local_at s k). stable (cs_hierarchicalRIDs s) c))"

definition live :: "csync \<Rightarrow> remote_id set" where
  "live s = {k. local_at s k \<noteq> []}"

lemma live_finite: "finite (live s)" and live_card: "card (live s) \<le> length (cs_local s)"
proof -
  have sub: "live s \<subseteq> fst ` set (cs_local s)"
    by (auto simp: live_def value_at_def split: option.splits dest: map_of_SomeD intro: rev_image_eqI)
  then show "finite (live s)" by (rule finite_subset) simp
  have "card (live s) \<le> card (fst ` set (cs_local s))" using sub by (intro card_mono) simp_all
  also have "\<dots> \<le> length (cs_local s)" by (metis card_image_le card_length finite_set le_trans)
  finally show "card (live s) \<le> length (cs_local s)" .
qed

text \<open>The effect of a visit to the keys in \<open>V\<close>: \<open>Q p k\<close> says that \<open>p\<close> is a collection with the key \<open>k\<close>.\<close>

definition without_plan :: "csync \<Rightarrow> csync" where
  "without_plan s = s\<lparr>cs_uidRidMap := (\<lambda>_. None), cs_removedRemote := [], cs_remote := [], cs_local := [], cs_toRemove := [], cs_toCreate := [],
     cs_toUpdate := []\<rparr>"

lemma without_plan_flags:
  assumes "without_plan t = without_plan s"
  shows "cs_incremental t = cs_incremental s" "cs_hierarchicalRIDs t = cs_hierarchicalRIDs s" "cs_keepLocalChanges t = cs_keepLocalChanges s"
  using arg_cong [OF assms, of cs_incremental] arg_cong [OF assms, of cs_hierarchicalRIDs] arg_cong [OF assms, of cs_keepLocalChanges]
  by (simp_all add: without_plan_def)

definition visited :: "(scol \<Rightarrow> remote_id \<Rightarrow> bool) \<Rightarrow> remote_id set \<Rightarrow> csync \<Rightarrow> csync \<Rightarrow> bool" where
  "visited Q V s t \<longleftrightarrow>
     without_plan t = without_plan s \<and>
     (\<forall>k. local_at t k = (if k \<in> V then [] else local_at s k)) \<and>
     (\<forall>k. remote_at t k = (if k \<in> V then [] else remote_at s k)) \<and>
     (\<forall>k. k \<notin> V \<longrightarrow> removed_at t k = removed_at s k) \<and>
     set (cs_toRemove t) = set (cs_toRemove s) \<union> (\<Union>k\<in>V. set (gone_at s k)) \<and>
     set (cs_toUpdate t) = set (cs_toUpdate s) \<union> (\<Union>k\<in>V. set (changed_at s k)) \<and>
     (\<exists>f. set (cs_toCreate t) = set (cs_toCreate s) \<union> (\<Union>k\<in>V. setParentCollection (f k) ` set (new_at s k)) \<and> (\<forall>k\<in>V. Q (f k) k))"

lemma visited_flags:
  assumes "visited Q V s t"
  shows "cs_incremental t = cs_incremental s" "cs_hierarchicalRIDs t = cs_hierarchicalRIDs s" "cs_keepLocalChanges t = cs_keepLocalChanges s"
  using assms without_plan_flags [of t s] by (simp_all add: visited_def)

lemma visited_parts:
  assumes "visited Q V s t"
  shows "without_plan t = without_plan s"
    and "local_at t k = (if k \<in> V then [] else local_at s k)"
    and "remote_at t k = (if k \<in> V then [] else remote_at s k)"
    and "k \<notin> V \<Longrightarrow> removed_at t k = removed_at s k"
    and "set (cs_toRemove t) = set (cs_toRemove s) \<union> (\<Union>k\<in>V. set (gone_at s k))"
    and "set (cs_toUpdate t) = set (cs_toUpdate s) \<union> (\<Union>k\<in>V. set (changed_at s k))"
    and "\<exists>f. set (cs_toCreate t) = set (cs_toCreate s) \<union> (\<Union>k\<in>V. setParentCollection (f k) ` set (new_at s k)) \<and> (\<forall>k\<in>V. Q (f k) k)"
proof -
  note c = assms [unfolded visited_def]
  show "without_plan t = without_plan s" by (rule c [THEN conjunct1])
  show "local_at t k = (if k \<in> V then [] else local_at s k)" by (rule c [THEN conjunct2, THEN conjunct1, THEN spec])
  show "remote_at t k = (if k \<in> V then [] else remote_at s k)" by (rule c [THEN conjunct2, THEN conjunct2, THEN conjunct1, THEN spec])
  note d = c [THEN conjunct2, THEN conjunct2, THEN conjunct2]
  show "k \<notin> V \<Longrightarrow> removed_at t k = removed_at s k" by (rule d [THEN conjunct1, THEN spec, THEN mp])
  show "set (cs_toRemove t) = set (cs_toRemove s) \<union> (\<Union>k\<in>V. set (gone_at s k))" by (rule d [THEN conjunct2, THEN conjunct1])
  show "set (cs_toUpdate t) = set (cs_toUpdate s) \<union> (\<Union>k\<in>V. set (changed_at s k))" by (rule d [THEN conjunct2, THEN conjunct2, THEN conjunct1])
  show "\<exists>f. set (cs_toCreate t) = set (cs_toCreate s) \<union> (\<Union>k\<in>V. setParentCollection (f k) ` set (new_at s k)) \<and> (\<forall>k\<in>V. Q (f k) k)"
    by (rule d [THEN conjunct2, THEN conjunct2, THEN conjunct2])
qed

lemma visited_at:
  assumes "visited Q V s t"
  shows "set (gone_at t k) = (if k \<in> V then {} else set (gone_at s k))"
    and "set (changed_at t k) = (if k \<in> V then {} else set (changed_at s k))"
    and "set (new_at t k) = (if k \<in> V then {} else set (new_at s k))"
proof -
  note at = visited_parts(2-4) [OF assms, of k] visited_flags [OF assms]
  show "set (gone_at t k) = (if k \<in> V then {} else set (gone_at s k))" by (cases "k \<in> V") (simp_all add: gone_at_def at)
  show "set (changed_at t k) = (if k \<in> V then {} else set (changed_at s k))" by (cases "k \<in> V") (simp_all add: changed_at_def at)
  show "set (new_at t k) = (if k \<in> V then {} else set (new_at s k))" by (cases "k \<in> V") (simp_all add: new_at_def at)
qed

lemma union_twice: "A \<union> (\<Union>k\<in>V. X k) \<union> (\<Union>k\<in>W. if k \<in> V then {} else X k) = A \<union> (\<Union>k\<in>V \<union> W. X k)"
  by auto

lemma visited_trans:
  assumes "visited Q V s t" "visited Q W t u"
  shows "visited Q (V \<union> W) s u"
proof -
  note p = visited_parts [OF assms(1)] and q = visited_parts [OF assms(2)]
  obtain f where f: "set (cs_toCreate t) = set (cs_toCreate s) \<union> (\<Union>k\<in>V. setParentCollection (f k) ` set (new_at s k))" "\<forall>k\<in>V. Q (f k) k"
    using p(7) by blast
  obtain g where g: "set (cs_toCreate u) = set (cs_toCreate t) \<union> (\<Union>k\<in>W. setParentCollection (g k) ` set (new_at t k))" "\<forall>k\<in>W. Q (g k) k"
    using q(7) by blast
  let ?f = "\<lambda>k. if k \<in> V then f k else g k"
  have "setParentCollection (g k) ` set (new_at t k) = (if k \<in> V then {} else setParentCollection (?f k) ` set (new_at s k))" for k
    by (simp add: visited_at(3) [OF assms(1)])
  moreover have "(\<Union>k\<in>V. setParentCollection (f k) ` set (new_at s k)) = (\<Union>k\<in>V. setParentCollection (?f k) ` set (new_at s k))" by simp
  ultimately have "set (cs_toCreate u) = set (cs_toCreate s) \<union> (\<Union>k\<in>V \<union> W. setParentCollection (?f k) ` set (new_at s k))"
    unfolding g(1) f(1) by (simp only: union_twice)
  moreover have "\<forall>k\<in>V \<union> W. Q (?f k) k" using f(2) g(2) by auto
  ultimately have "\<exists>f. set (cs_toCreate u) = set (cs_toCreate s) \<union> (\<Union>k\<in>V \<union> W. setParentCollection (f k) ` set (new_at s k)) \<and> (\<forall>k\<in>V \<union> W. Q (f k) k)"
    by (intro exI [of _ ?f] conjI)
  moreover have "set (cs_toRemove u) = set (cs_toRemove s) \<union> (\<Union>k\<in>V \<union> W. set (gone_at s k))"
    unfolding q(5) p(5) by (simp only: visited_at(1) [OF assms(1)] union_twice)
  moreover have "set (cs_toUpdate u) = set (cs_toUpdate s) \<union> (\<Union>k\<in>V \<union> W. set (changed_at s k))"
    unfolding q(6) p(6) by (simp only: visited_at(2) [OF assms(1)] union_twice)
  moreover have "local_at u k = (if k \<in> V \<union> W then [] else local_at s k)" "remote_at u k = (if k \<in> V \<union> W then [] else remote_at s k)"
    "k \<notin> V \<union> W \<longrightarrow> removed_at u k = removed_at s k" for k
    using p(2-4) q(2-4) by simp_all
  moreover have "without_plan u = without_plan s" using p(1) q(1) by (rule trans [rotated])
  ultimately show ?thesis unfolding visited_def by (intro conjI allI) assumption+
qed

lemma value_at_set [simp]: "value_at j (hash_set k xs m) = (if j = k then xs else value_at j m)"
  by (simp add: hash_set_def)

lemma processCollections_spec:
  assumes "tree_ok s"
  shows "\<exists>s1. processCollections k s = Some s1 \<and> without_plan s1 = without_plan s \<and>
      cs_local s1 = hash_set k (filter (\<lambda>l. sc_rid l \<notin> rids (removed_at s k) \<and> sc_rid l \<notin> rids (remote_at s k)) (local_at s k)) (cs_local s) \<and>
      cs_remote s1 = hash_set k (new_at s k) (cs_remote s) \<and>
      cs_removedRemote s1 = hash_set k (filter (\<lambda>r. sc_rid r \<notin> rids (local_at s k)) (removed_at s k)) (cs_removedRemote s) \<and>
      cs_toRemove s1 = cs_toRemove s @ filter (\<lambda>l. sc_rid l \<in> rids (removed_at s k)) (local_at s k) \<and>
      cs_toCreate s1 = cs_toCreate s \<and> cs_toUpdate s1 = cs_toUpdate s @ changed_at s k"
proof -
  let ?o = "\<lparr>oc_kept = [], oc_removed = removed_at s k, oc_remote = remote_at s k, oc_toRemove = [], oc_toCreate = [], oc_toUpdate = []\<rparr>"
  have "process_children (cs_keepLocalChanges s) (local_at s k) ?o = Some (settled (cs_keepLocalChanges s) (local_at s k) ?o)"
  proof (cases "local_at s k = []")
    case False
    then show ?thesis using assms by (intro process_children_spec) (auto simp: tree_ok_def)
  qed (simp add: settled_def)
  then show ?thesis by (simp add: processCollections_def without_plan_def settled_def Let_def new_at_def changed_at_def del: set_filter)
qed

lemma visit_one:
  assumes "tree_ok s" "Q p k"
  shows "\<exists>s1. processCollections k s = Some s1 \<and> visited Q {k} s (take_children k p s1)"
proof -
  obtain s1 where s1: "processCollections k s = Some s1" "without_plan s1 = without_plan s"
    "cs_local s1 = hash_set k (filter (\<lambda>l. sc_rid l \<notin> rids (removed_at s k) \<and> sc_rid l \<notin> rids (remote_at s k)) (local_at s k)) (cs_local s)"
    "cs_remote s1 = hash_set k (new_at s k) (cs_remote s)"
    "cs_removedRemote s1 = hash_set k (filter (\<lambda>r. sc_rid r \<notin> rids (local_at s k)) (removed_at s k)) (cs_removedRemote s)"
    "cs_toRemove s1 = cs_toRemove s @ filter (\<lambda>l. sc_rid l \<in> rids (removed_at s k)) (local_at s k)"
    "cs_toCreate s1 = cs_toCreate s" "cs_toUpdate s1 = cs_toUpdate s @ changed_at s k"
    using processCollections_spec [OF assms(1), of k] by blast
  have ne: "sc_rid l \<noteq> []" if "l \<in> set (local_at s k)" for l
    using assms(1) that unfolding tree_ok_def level_ok_def by (metis image_eqI length_pos_if_in_set list.size(3) not_less0)
  let ?t = "take_children k p s1"
  have "without_plan ?t = without_plan s" using s1(2) by (simp add: take_children_def without_plan_def)
  moreover have "set (cs_toRemove ?t) = set (cs_toRemove s) \<union> set (gone_at s k)"
    using ne without_plan_flags [OF s1(2)] by (auto simp: take_children_def s1 gone_at_def)
  moreover have "set (cs_toCreate ?t) = set (cs_toCreate s) \<union> setParentCollection p ` set (new_at s k)"
    by (simp add: take_children_def s1)
  moreover have "local_at ?t j = (if j \<in> {k} then [] else local_at s j)" "remote_at ?t j = (if j \<in> {k} then [] else remote_at s j)"
    "j \<notin> {k} \<longrightarrow> removed_at ?t j = removed_at s j" for j
    by (simp_all add: take_children_def s1)
  moreover have "set (cs_toUpdate ?t) = set (cs_toUpdate s) \<union> set (changed_at s k)" by (simp add: take_children_def s1)
  ultimately have "visited Q {k} s ?t" unfolding visited_def using assms(2) by (auto intro!: exI [of _ "\<lambda>_. p"] simp del: not_None_eq)
  then show ?thesis using s1(1) by blast
qed

text \<open>The keys that are visited.\<close>

definition closed_keys :: "remote_id set \<Rightarrow> csync \<Rightarrow> bool" where
  "closed_keys V s \<longleftrightarrow> (\<forall>k\<in>V. \<forall>c\<in>set (local_at s k). key (cs_hierarchicalRIDs s) c \<in> V)"

lemmas visited_local = visited_parts(2)

lemma visited_tree_ok:
  assumes "visited Q V s t" "tree_ok s"
  shows "tree_ok t"
proof -
  have "k \<notin> V \<Longrightarrow> removed_at t k = removed_at s k \<and> remote_at t k = remote_at s k" for k
    using visited_parts(3,4) [OF assms(1)] by simp
  then show ?thesis using assms(2) visited_flags(2) [OF assms(1)] visited_local [OF assms(1)] unfolding tree_ok_def by presburger
qed

lemma visited_live: "visited Q V s t \<Longrightarrow> live t = live s - V"
  by (auto simp: live_def visited_local)

lemma visit_children:
  assumes step: "\<And>c t. tree_ok t \<Longrightarrow> card (live t) < n \<Longrightarrow> closed_keys K t \<Longrightarrow> key h c \<in> K \<Longrightarrow> Q c (key h c) \<Longrightarrow>
      (\<forall>j. \<forall>c\<in>set (local_at t j). Q c (key h c)) \<Longrightarrow> cs_hierarchicalRIDs t = h \<Longrightarrow>
      \<exists>u V. processLocalCollections n (key h c) c t = Some u \<and> visited Q V t u \<and> closed_keys V t \<and> key h c \<in> V \<and> V \<subseteq> K"
    and t: "tree_ok t" "card (live t) < n" "closed_keys K t" "\<forall>j. \<forall>c\<in>set (local_at t j). Q c (key h c)" "cs_hierarchicalRIDs t = h"
    and cs: "\<forall>c\<in>set cs. key h c \<in> K \<and> Q c (key h c) \<and> stable h c"
    and V: "visited Q V s t"
  shows "\<exists>u W. fold (\<lambda>c r. case r of None \<Rightarrow> None | Some t \<Rightarrow> processLocalCollections n (remoteIdForCollection t c) c t) cs (Some t) = Some u \<and>
    visited Q (V \<union> W) s u \<and> closed_keys W t \<and> key h ` set cs \<subseteq> W \<and> W \<subseteq> K"
  using t cs V
proof (induction cs arbitrary: t V)
  case Nil
  then show ?case by (intro exI [of _ t] exI [of _ "{}"]) (simp add: closed_keys_def)
next
  case (Cons c cs)
  have rid: "remoteIdForCollection t c = key h c" using Cons.prems(5,6) by (simp add: remoteIdForCollection_def key_def stable_def)
  obtain u W1 where u: "processLocalCollections n (key h c) c t = Some u" "visited Q W1 t u" "closed_keys W1 t" "key h c \<in> W1" "W1 \<subseteq> K"
    using step [OF Cons.prems(1-3), of c] Cons.prems(4-6) by auto
  note vu = visited_local [OF u(2)] visited_flags(2) [OF u(2)]
  have "tree_ok u" "card (live u) < n" "closed_keys K u" "\<forall>j. \<forall>c\<in>set (local_at u j). Q c (key h c)" "cs_hierarchicalRIDs u = h"
    using visited_tree_ok [OF u(2) Cons.prems(1)] Cons.prems(2-5) visited_live [OF u(2)] card_mono [OF live_finite, of "live t - W1" t]
    by (auto simp: closed_keys_def vu)
  from Cons.IH [OF this _ visited_trans [OF Cons.prems(7) u(2)]] Cons.prems(6)
  obtain w W2 where w: "fold (\<lambda>c r. case r of None \<Rightarrow> None | Some t \<Rightarrow> processLocalCollections n (remoteIdForCollection t c) c t) cs (Some u) = Some w"
    "visited Q (V \<union> W1 \<union> W2) s w" "closed_keys W2 u" "key h ` set cs \<subseteq> W2" "W2 \<subseteq> K" by auto
  have "closed_keys (W1 \<union> W2) t" using u(3) w(3) by (fastforce simp: closed_keys_def vu split: if_splits)
  then show ?case using u w rid by (intro exI [of _ w] exI [of _ "W1 \<union> W2"]) (auto simp: Un_assoc)
qed

lemma processLocal_spec:
  assumes "tree_ok s" "card (live s) < n" "closed_keys K s" "k \<in> K" "Q p k" "\<forall>j. \<forall>c\<in>set (local_at s j). Q c (key h c)"
    "cs_hierarchicalRIDs s = h"
  shows "\<exists>t V. processLocalCollections n k p s = Some t \<and> visited Q V s t \<and> closed_keys V s \<and> k \<in> V \<and> V \<subseteq> K"
  using assms
proof (induction n arbitrary: k p s)
  case (Suc n)
  obtain s1 where s1: "processCollections k s = Some s1" "visited Q {k} s (take_children k p s1)"
    using visit_one [where Q = Q, OF Suc.prems(1,5)] by blast
  let ?t = "take_children k p s1"
  note loc = visited_local [OF s1(2)] and fl = visited_flags(2) [OF s1(2)]
  show ?case
  proof (cases "local_at s k = []")
    case True
    then show ?thesis using s1 Suc.prems(4) by (intro exI [of _ ?t] exI [of _ "{k}"]) (simp add: closed_keys_def)
  next
    case False
    then have "k \<in> live s" by (simp add: live_def)
    then have "card (live s - {k}) < card (live s)" using live_finite [of s] by (rule card_Diff1_less [rotated])
    then have "card (live ?t) < n" using Suc.prems(2) visited_live [OF s1(2)] by simp
    moreover have "closed_keys K ?t" "\<forall>j. \<forall>c\<in>set (local_at ?t j). Q c (key h c)" "cs_hierarchicalRIDs ?t = h"
      using Suc.prems(3,6,7) by (auto simp: closed_keys_def loc fl)
    moreover have "\<forall>c\<in>set (local_at s k). key h c \<in> K \<and> Q c (key h c) \<and> stable h c"
      using Suc.prems(1,3,4,6,7) False by (auto simp: closed_keys_def tree_ok_def)
    moreover have "\<exists>u V. processLocalCollections n (key h c) c t = Some u \<and> visited Q V t u \<and> closed_keys V t \<and> key h c \<in> V \<and> V \<subseteq> K"
      if "tree_ok t" "card (live t) < n" "closed_keys K t" "key h c \<in> K" "Q c (key h c)" "\<forall>j. \<forall>c\<in>set (local_at t j). Q c (key h c)"
        "cs_hierarchicalRIDs t = h" for c t
      using that by (rule Suc.IH)
    moreover note tree = visited_tree_ok [OF s1(2) Suc.prems(1)]
    ultimately obtain u W where u: "fold (\<lambda>c r. case r of None \<Rightarrow> None | Some t \<Rightarrow> processLocalCollections n (remoteIdForCollection t c) c t)
        (local_at s k) (Some ?t) = Some u" "visited Q ({k} \<union> W) s u" "closed_keys W ?t" "key h ` set (local_at s k) \<subseteq> W" "W \<subseteq> K"
      using visit_children [of n K h Q ?t "local_at s k" "{k}" s, OF _ tree _ _ _ _ _ s1(2)] by blast
    have "closed_keys ({k} \<union> W) s" using u(3,4) Suc.prems(7) by (fastforce simp: closed_keys_def loc fl split: if_splits)
    then show ?thesis using u Suc.prems(4) s1(1) by (intro exI [of _ u] exI [of _ "{k} \<union> W"]) auto
  qed
qed simp

section \<open>Events\<close>

text \<open>The result of a job, with the id that a new collection has got in the store; \<open>None\<close> is an error. An error makes the transaction
  kill its other jobs and roll back, unless a collection could not be removed, which is ignored.\<close>

definition fail_transaction :: "nat \<Rightarrow> csync \<Rightarrow> csync" where
  "fail_transaction t s = (kill_col_jobs (\<lambda>j. snd j = Some t) s)\<lparr>cs_failed := insert t (cs_failed s), cs_closing := List.insert t (cs_closing s)\<rparr>"

definition col_job_slot :: "col_job \<Rightarrow> int option \<Rightarrow> csync \<Rightarrow> csync" where
  "col_job_slot j res s =
     (case j of
        CreateCollection c \<Rightarrow> createLocalCollectionResult (map_option (\<lambda>i. SCol i (sc_rid c) (sc_data c) (sc_parent c)) res) s
      | DeleteCollection c \<Rightarrow> deleteLocalCollectionsResult s
      | FetchCollections \<Rightarrow> s
      | _ \<Rightarrow> updateLocalCollectionResult (res = None) s)"

definition is_delete_job :: "col_job \<Rightarrow> bool" where
  "is_delete_job j \<longleftrightarrow> (case j of DeleteCollection _ \<Rightarrow> True | _ \<Rightarrow> False)"

definition col_job_result :: "col_job \<times> nat option \<Rightarrow> int option \<Rightarrow> csync \<Rightarrow> csync" where
  "col_job_result j res s =
     (let s = s\<lparr>cs_running := remove1 j (cs_running s)\<rparr>;
          s = (case snd j of
                 Some t \<Rightarrow> if res = None \<and> \<not> is_delete_job (fst j) then fail_transaction t s else s
               | None \<Rightarrow> s)
      in col_job_slot (fst j) res s)"

datatype cs_event = Deliver "scol list" | DeliverChanges "scol list" "scol list" | DeliveryEnds | LocalListed "scol list" | ListingEnds bool
  | JobEnds "col_job \<times> nat option" "int option" | TransactionEnds nat | EmitAgain | RollBack "(col_job \<times> nat option) option"

text \<open>The job gets its deliveries before the end of the delivery is announced, which is once; a transaction ends when it is being closed and has no
  more jobs.\<close>

fun cs_do :: "cs_event \<Rightarrow> csync \<Rightarrow> csync option" where
  "cs_do (Deliver cs) s = (if cs_deliveryDone s then None else Some (setRemoteCollections cs s))"
| "cs_do (DeliverChanges cs ds) s = (if cs_deliveryDone s then None else Some (setChangedCollections cs ds s))"
| "cs_do DeliveryEnds s = (if cs_deliveryDone s then None else Some (retrievalDone s))"
| "cs_do (LocalListed cs) s = (if (FetchCollections, None) \<in> set (cs_running s) then Some (localCollectionsReceived cs s) else None)"
| "cs_do (ListingEnds failed) s =
     (if (FetchCollections, None) \<in> set (cs_running s) then
        let s = s\<lparr>cs_running := remove1 (FetchCollections, None) (cs_running s)\<rparr>
        in if failed then Some (q_emitResult (s\<lparr>cs_error := JobError\<rparr>)) else localCollectionFetchResult s
      else None)"
| "cs_do (JobEnds j res) s = (if j \<in> set (cs_running s) \<and> fst j \<noteq> FetchCollections then Some (col_job_result j res s) else None)"
| "cs_do (TransactionEnds t) s =
     (if t \<in> set (cs_closing s) \<and> (\<forall>j\<in>set (cs_running s). snd j \<noteq> Some t) then Some (end_transaction t s) else None)"
| "cs_do EmitAgain s = (if 0 < cs_queued s then Some (cs_emitResult (s\<lparr>cs_queued := cs_queued s - 1\<rparr>)) else None)"
| "cs_do (RollBack kept) s = Some (cs_rollback kept s)"

section \<open>The plan\<close>

text \<open>The keys of the tree of local collections.\<close>

inductive tree_key :: "csync \<Rightarrow> remote_id \<Rightarrow> bool" for s :: csync where
  top: "tree_key s rootRid"
| below: "tree_key s k \<Longrightarrow> c \<in> set (local_at s k) \<Longrightarrow> tree_key s (key (cs_hierarchicalRIDs s) c)"

definition named_by :: "csync \<Rightarrow> scol \<Rightarrow> remote_id \<Rightarrow> bool" where
  "named_by s p k \<longleftrightarrow> (p = root_collection \<and> k = rootRid) \<or> (\<exists>j. p \<in> set (local_at s j) \<and> key (cs_hierarchicalRIDs s) p = k)"

lemma process_tree:
  assumes "tree_ok s"
  shows "\<exists>t. processLocalCollections (Suc (length (cs_local s))) rootRid root_collection s = Some t \<and> visited (named_by s) (Collect (tree_key s)) s t"
proof -
  let ?K = "Collect (tree_key s)"
  have "card (live s) < Suc (length (cs_local s))" using live_card [of s] by simp
  moreover have "closed_keys ?K s" by (auto simp: closed_keys_def intro: tree_key.below)
  moreover have "rootRid \<in> ?K" by (simp add: tree_key.top)
  moreover have "named_by s root_collection rootRid" "\<forall>j. \<forall>c\<in>set (local_at s j). named_by s c (key (cs_hierarchicalRIDs s) c)"
    by (auto simp: named_by_def)
  ultimately obtain t V where t: "processLocalCollections (Suc (length (cs_local s))) rootRid root_collection s = Some t"
    "visited (named_by s) V s t" "closed_keys V s" "rootRid \<in> V" "V \<subseteq> ?K"
    using processLocal_spec [where Q = "named_by s" and s = s and K = ?K, OF assms _ _ _ _ _ refl] by blast
  have "tree_key s k \<Longrightarrow> k \<in> V" for k
    by (induction rule: tree_key.induct) (use t(3,4) in \<open>auto simp: closed_keys_def\<close>)
  then have "V = ?K" using t(5) by auto
  then show ?thesis using t(1,2) by blast
qed

text \<open>(C14) The comparison of the trees terminates, with fuel for one call per local level, and plans exactly what has to be done: level by level it
  removes the local collections that are gone, updates those that differ and creates those that are new below the local collection, or the root,
  that has the key of their parent. What is delivered for other parents is left for later. This is for trees in which the local collections below one
  parent have remote ids, all different, as have the delivered and the removed ones for that parent; in which no collection has turned virtual or
  real (then it is created anew, but not its children, see \<open>recreation_stalls\<close>); and in which the key of a local collection is known from its parents.\<close>

theorem plan_is_exact:
  assumes "\<forall>k. local_at s k \<noteq> [] \<longrightarrow> [] \<notin> rids (local_at s k) \<and> distinct (map sc_rid (local_at s k)) \<and>
      distinct (map sc_rid (removed_at s k)) \<and> distinct (map sc_rid (remote_at s k))"
    and "\<forall>k. \<forall>l\<in>set (local_at s k). \<forall>r\<in>set (remote_at s k). sc_rid l = sc_rid r \<longrightarrow> cd_virtual (sc_data l) = cd_virtual (sc_data r)"
    and "\<forall>k. \<forall>c\<in>set (local_at s k). stable (cs_hierarchicalRIDs s) c"
    and "cs_toRemove s = []" "cs_toCreate s = []" "cs_toUpdate s = []"
  shows "\<exists>t f. processLocalCollections (Suc (length (cs_local s))) rootRid root_collection s = Some t \<and>
    set (cs_toRemove t) = {l. \<exists>k. tree_key s k \<and> l \<in> set (gone_at s k)} \<and>
    set (cs_toUpdate t) = {u. \<exists>k. tree_key s k \<and> u \<in> set (changed_at s k)} \<and>
    set (cs_toCreate t) = {setParentCollection (f k) r | k r. tree_key s k \<and> r \<in> set (new_at s k)} \<and>
    (\<forall>k. tree_key s k \<longrightarrow> named_by s (f k) k) \<and>
    (\<forall>k. value_at k (cs_remote t) = (if tree_key s k then [] else value_at k (cs_remote s)))"
proof -
  have "tree_ok s" using assms(1-3) unfolding tree_ok_def level_ok_def by blast
  then obtain t where t: "processLocalCollections (Suc (length (cs_local s))) rootRid root_collection s = Some t"
    "visited (named_by s) (Collect (tree_key s)) s t" using process_tree by blast
  note p = visited_parts [OF t(2)]
  obtain f where f: "set (cs_toCreate t) = set (cs_toCreate s) \<union> (\<Union>k\<in>Collect (tree_key s). setParentCollection (f k) ` set (new_at s k))"
    "\<forall>k\<in>Collect (tree_key s). named_by s (f k) k" using p(7) by blast
  show ?thesis
  proof (intro exI conjI)
    show "processLocalCollections (Suc (length (cs_local s))) rootRid root_collection s = Some t" by (rule t(1))
    show "set (cs_toRemove t) = {l. \<exists>k. tree_key s k \<and> l \<in> set (gone_at s k)}" using p(5) assms(4) by auto
    show "set (cs_toUpdate t) = {u. \<exists>k. tree_key s k \<and> u \<in> set (changed_at s k)}" using p(6) assms(6) by auto
    show "set (cs_toCreate t) = {setParentCollection (f k) r | k r. tree_key s k \<and> r \<in> set (new_at s k)}" using f(1) assms(5) by auto
    show "\<forall>k. tree_key s k \<longrightarrow> named_by s (f k) k" using f(2) by simp
    show "\<forall>k. value_at k (cs_remote t) = (if tree_key s k then [] else value_at k (cs_remote s))" using p(3) by simp
  qed
qed

lemma value_at_key: "value_at k m \<noteq> [] \<Longrightarrow> k \<in> fst ` set m"
  by (auto simp: value_at_def split: option.splits dest: map_of_SomeD intro: rev_image_eqI)

lemma tree_okI:
  assumes "\<not> cs_hierarchicalRIDs s"
    and "list_all (\<lambda>k. level_ok (local_at s k) (removed_at s k) (remote_at s k)) (map fst (cs_local s))"
  shows "tree_ok s"
  using assms value_at_key [of _ "cs_local s"] by (auto simp: tree_ok_def list_all_iff stable_def remoteIdFor_def)

definition sample_col :: "int \<Rightarrow> string \<Rightarrow> string \<Rightarrow> scol \<Rightarrow> scol" where
  "sample_col i r n p = SCol i r (data_new\<lparr>cd_name := n\<rparr>) (Some p)"

definition sample_sync :: csync where
  "sample_sync =
     (let a = sample_col 5 ''a'' ''A'' root_collection; b = sample_col 6 ''b'' ''B'' a; c = sample_col 7 ''c'' ''C'' root_collection;
          a' = sample_col (-2) ''a'' ''Renamed'' root_collection; d = sample_col (-3) ''d'' ''D'' a'
      in localCollectionsReceived [a, b, c] (setRemoteCollections [a', d] (csync_new False {} False)))"

lemma plan_is_exact_witness:
  "\<exists>t. processLocalCollections 3 rootRid root_collection sample_sync = Some t \<and> sample_col 7 ''c'' ''C'' root_collection \<in> set (cs_toRemove t)"
proof -
  have "tree_ok sample_sync" by (rule tree_okI; code_simp)
  then have ok: "\<forall>k. local_at sample_sync k \<noteq> [] \<longrightarrow> [] \<notin> rids (local_at sample_sync k) \<and> distinct (map sc_rid (local_at sample_sync k)) \<and>
      distinct (map sc_rid (removed_at sample_sync k)) \<and> distinct (map sc_rid (remote_at sample_sync k))"
    "\<forall>k. \<forall>l\<in>set (local_at sample_sync k). \<forall>r\<in>set (remote_at sample_sync k). sc_rid l = sc_rid r \<longrightarrow> cd_virtual (sc_data l) = cd_virtual (sc_data r)"
    "\<forall>k. \<forall>c\<in>set (local_at sample_sync k). stable (cs_hierarchicalRIDs sample_sync) c"
    unfolding tree_ok_def level_ok_def by (blast, (metis empty_iff list.set(1)), (metis empty_iff list.set(1)))
  have e: "cs_toRemove sample_sync = []" "cs_toCreate sample_sync = []" "cs_toUpdate sample_sync = []" by code_simp+
  have l: "Suc (length (cs_local sample_sync)) = 3" by code_simp
  have "sample_col 7 ''c'' ''C'' root_collection \<in> set (gone_at sample_sync rootRid)" by code_simp
  then show ?thesis using plan_is_exact [OF ok e, unfolded l] tree_key.top [of sample_sync] by blast
qed

section \<open>The phases\<close>

definition job_phase :: "col_job \<Rightarrow> nat" where
  "job_phase j = (case j of FetchCollections \<Rightarrow> 0 | CreateCollection _ \<Rightarrow> 1 | DeleteCollection _ \<Rightarrow> 3 | _ \<Rightarrow> 2)"

text \<open>The states: the local collections are not listed; jobs of the phase \<open>ph\<close> are running; all jobs have ended.\<close>

definition listing :: "csync \<Rightarrow> bool" where
  "listing s \<longleftrightarrow> \<not> cs_localListDone s \<and> cs_toCreate s = [] \<and> cs_toUpdate s = [] \<and> cs_toRemove s = [] \<and> cs_currentTransaction s = None \<and>
     cs_subs s = [] \<and> cs_closing s = [] \<and> cs_awaited s = [] \<and> cs_queued s = 0 \<and> cs_pendingJobs s = 0 \<and> \<not> cs_finished s \<and>
     \<not> cs_resultEmitted s \<and> cs_failed s = {} \<and> cs_used s = {} \<and> cs_error s = NoColError \<and>
     cs_running s = (if cs_deliveryDone s then [(FetchCollections, None)] else []) \<and> cs_jobs s = map fst (cs_running s) \<and>
     (\<forall>k. \<forall>c\<in>set (local_at s k). 0 < sc_id c)"

definition jobs_up_to :: "nat \<Rightarrow> csync \<Rightarrow> bool" where
  "jobs_up_to ph s \<longleftrightarrow> sorted (map job_phase (cs_jobs s)) \<and> (\<forall>j\<in>set (cs_jobs s). job_phase j \<le> ph)"

definition active :: "csync \<Rightarrow> bool" where
  "active s \<longleftrightarrow> cs_localListDone s \<and> cs_deliveryDone s \<and> cs_pendingJobs s = int (length (cs_running s)) \<and>
     (\<exists>t. cs_currentTransaction s = Some t \<and> t \<in> set (cs_subs s) \<and> t \<notin> set (cs_closing s) \<and> set (cs_subs s) \<subseteq> insert t (set (cs_closing s))) \<and>
     set (cs_closing s) \<subseteq> set (cs_subs s) \<and> (\<forall>t\<in>set (cs_subs s) \<union> cs_used s. t < cs_next s) \<and> cs_awaited s = [] \<and> cs_queued s = 0 \<and>
     \<not> cs_finished s \<and> \<not> cs_resultEmitted s \<and> cs_failed s = {} \<and> cs_error s = NoColError"

definition in_phase :: "nat \<Rightarrow> csync \<Rightarrow> bool" where
  "in_phase ph s \<longleftrightarrow> active s \<and> cs_toCreate s = [] \<and> (\<forall>j\<in>set (cs_running s). job_phase (fst j) = ph) \<and> jobs_up_to ph s"

definition ending :: "csync \<Rightarrow> bool" where
  "ending s \<longleftrightarrow> cs_localListDone s \<and> cs_deliveryDone s \<and> cs_running s = [] \<and> cs_pendingJobs s = 0 \<and> cs_toCreate s = [] \<and>
     set (cs_subs s) \<subseteq> set (cs_closing s) \<and> set (cs_awaited s) \<subseteq> set (cs_subs s) \<and> (cs_resultEmitted s \<longrightarrow> cs_finished s) \<and>
     (cs_resultEmitted s \<or> cs_awaited s \<noteq> [] \<or> 0 < cs_queued s) \<and> sorted (map job_phase (cs_jobs s)) \<and>
     (cs_remote s \<noteq> [] \<longrightarrow> length (cs_jobs s) = 1 \<or> cs_error s \<noteq> NoColError)"

definition csync_inv :: "csync \<Rightarrow> bool" where
  "csync_inv s \<longleftrightarrow> listing s \<or> (\<exists>ph>0. in_phase ph s \<and> cs_running s \<noteq> []) \<or> ending s"

lemma sorted_snoc: "sorted (map f (xs @ [x])) \<longleftrightarrow> sorted (map f xs) \<and> (\<forall>y\<in>set xs. f y \<le> f x)"
  by (auto simp: sorted_append)

lemma start_job_phase:
  assumes "in_phase ph s" "job_phase j = ph"
  shows "in_phase ph (start_col_job j s)" "cs_running (start_col_job j s) \<noteq> []" "cs_remote (start_col_job j s) = cs_remote s"
    and "cs_toUpdate (start_col_job j s) = cs_toUpdate s" "cs_toRemove (start_col_job j s) = cs_toRemove s"
  using assms by (auto simp: in_phase_def active_def jobs_up_to_def start_col_job_def add_col_job_def sorted_append)

text \<open>Closing the current transaction and opening the next.\<close>

lemma commit_active:
  assumes "active s" "cs_currentTransaction s = Some t"
  shows "commit_transaction s =
    (if t \<in> cs_used s then s\<lparr>cs_closing := cs_closing s @ [t]\<rparr> else s\<lparr>cs_currentTransaction := None, cs_subs := removeAll t (cs_subs s)\<rparr>)"
proof -
  have "t \<notin> set (cs_closing s)" "cs_awaited s = []" "cs_failed s = {}" using assms by (auto simp: active_def)
  then show ?thesis using assms(2)
    by (cases s) (simp add: commit_transaction_def end_transaction_def transactionSequenceResult_def Let_def)
qed

lemma active_current: "active s \<Longrightarrow> \<exists>t. cs_currentTransaction s = Some t"
  by (auto simp: active_def)

lemma next_transaction_frame:
  assumes "active s"
  defines "u \<equiv> createTransaction (commit_transaction s)"
  shows "cs_running u = cs_running s" "cs_jobs u = cs_jobs s" "cs_toCreate u = cs_toCreate s" "cs_remote u = cs_remote s"
    and "cs_toUpdate u = cs_toUpdate s" "cs_toRemove u = cs_toRemove s" "cs_pendingJobs u = cs_pendingJobs s"
proof -
  obtain t where "cs_currentTransaction s = Some t" using active_current [OF assms(1)] by blast
  note c = commit_active [OF assms(1) this]
  show "cs_running u = cs_running s" "cs_jobs u = cs_jobs s" "cs_toCreate u = cs_toCreate s" "cs_remote u = cs_remote s"
    "cs_toUpdate u = cs_toUpdate s" "cs_toRemove u = cs_toRemove s" "cs_pendingJobs u = cs_pendingJobs s"
    by (simp_all add: u_def c createTransaction_def)
qed

lemma next_transaction_active:
  assumes "active s"
  shows "active (createTransaction (commit_transaction s))"
proof -
  obtain t where t: "cs_currentTransaction s = Some t" "t \<in> set (cs_subs s)" "t \<notin> set (cs_closing s)"
    "set (cs_subs s) \<subseteq> insert t (set (cs_closing s))" using assms by (auto simp: active_def)
  note c = commit_active [OF assms t(1)]
  have a: "cs_localListDone s" "cs_deliveryDone s" "cs_pendingJobs s = int (length (cs_running s))" "set (cs_closing s) \<subseteq> set (cs_subs s)"
    "\<forall>t\<in>set (cs_subs s). t < cs_next s" "\<forall>t\<in>cs_used s. t < cs_next s" "cs_awaited s = []" "cs_queued s = 0" "\<not> cs_finished s"
    "\<not> cs_resultEmitted s" "cs_failed s = {}" "cs_error s = NoColError"
    using assms by (auto simp: active_def)
  have fresh: "cs_next s \<notin> set (cs_closing s)" using a(4,5) by force
  have less: "x < Suc (cs_next s)" if "x \<in> set (cs_subs s) \<or> x \<in> cs_used s" for x using a(5,6) that by (auto intro: less_SucI)
  show ?thesis
  proof (cases "t \<in> cs_used s")
    case True
    have "t \<noteq> cs_next s" using a(5) t(2) by auto
    then show ?thesis using True a t fresh less by (simp add: active_def c createTransaction_def) auto
  next
    case False
    then show ?thesis using a t fresh less by (simp add: active_def c createTransaction_def) auto
  qed
qed

definition goes_on :: "csync \<Rightarrow> bool" where
  "goes_on s \<longleftrightarrow> (\<exists>ph>0. in_phase ph s \<and> cs_running s \<noteq> []) \<or> ending s"

lemma goes_onI: "in_phase ph s \<Longrightarrow> 0 < ph \<Longrightarrow> cs_running s \<noteq> [] \<Longrightarrow> goes_on s"
  unfolding goes_on_def by blast

lemma start_running [simp]: "cs_running (start_col_job j s) \<noteq> []"
  by (simp add: start_col_job_def add_col_job_def)

text \<open>A moment between two phases: no job is running.\<close>

definition between :: "nat \<Rightarrow> csync \<Rightarrow> bool" where
  "between ph s \<longleftrightarrow> active s \<and> cs_running s = [] \<and> jobs_up_to ph s"

lemma between_phase: "between ph s \<Longrightarrow> ph \<le> ph' \<Longrightarrow> cs_toCreate s = [] \<Longrightarrow> in_phase ph' s"
  by (auto simp: between_def in_phase_def jobs_up_to_def)

lemma between_next: "between ph s \<Longrightarrow> between ph (createTransaction (commit_transaction s))"
  using next_transaction_active [of s] next_transaction_frame [of s] by (simp add: between_def jobs_up_to_def)

lemma emitResult_ending:
  assumes "cs_localListDone s" "cs_deliveryDone s" "cs_running s = []" "cs_pendingJobs s = 0" "cs_toCreate s = []" "set (cs_subs s) \<subseteq> set (cs_closing s)"
    and "cs_awaited s = []" "\<not> cs_resultEmitted s" "sorted (map job_phase (cs_jobs s))"
    and "cs_remote s \<noteq> [] \<longrightarrow> length (cs_jobs s) = 1 \<or> cs_error s \<noteq> NoColError"
  shows "ending (cs_emitResult s)"
  using assms by (cases "cs_subs s") (auto simp: ending_def cs_emitResult_def q_emitResult_def)

lemma done_ending:
  assumes "between ph s" "cs_toCreate s = []"
  shows "ending (cs_done s)"
proof -
  have a: "active s" using assms(1) by (simp add: between_def)
  then obtain t where t: "cs_currentTransaction s = Some t" "set (cs_subs s) \<subseteq> insert t (set (cs_closing s))" by (auto simp: active_def)
  show ?thesis using assms t(2) unfolding cs_done_def Let_def commit_active [OF a t(1)]
    by (intro emitResult_ending) (auto simp: between_def active_def jobs_up_to_def)
qed

lemma done_again: "cs_done ((commit_transaction s)\<lparr>cs_currentTransaction := None\<rparr>) = cs_done s"
  by (simp add: cs_done_def commit_transaction_def)

lemma delete_goes_on:
  assumes "between ph s" "ph \<le> 3" "cs_toCreate s = []"
  shows "goes_on (deleteLocalCollections s)"
proof (cases "cs_toRemove s = []")
  case True
  then show ?thesis using done_ending [OF assms(1,3)] by (simp add: deleteLocalCollections_def goes_on_def)
next
  case False
  have "in_phase 3 t \<Longrightarrow> in_phase 3 (fold (\<lambda>c. start_col_job (DeleteCollection c)) cs t) \<and>
      (cs \<noteq> [] \<or> cs_running t \<noteq> [] \<longrightarrow> cs_running (fold (\<lambda>c. start_col_job (DeleteCollection c)) cs t) \<noteq> [])" for cs t
    by (induction cs arbitrary: t) (simp_all add: start_job_phase job_phase_def)
  from this [OF between_phase [OF assms]] False show ?thesis by (intro goes_onI [of 3]) (simp_all add: deleteLocalCollections_def)
qed

lemma update_pair_phase:
  assumes "in_phase 2 t"
  shows "in_phase 2 (update_pair x t)" "cs_running (update_pair x t) \<noteq> []"
  using assms by (auto simp: update_pair_def Let_def start_job_phase job_phase_def split: prod.splits)

lemma update_goes_on:
  assumes "between ph s" "ph \<le> 2" "cs_toCreate s = []"
  shows "goes_on (updateLocalCollections s)"
proof (cases "cs_toUpdate s = []")
  case True
  then show ?thesis using delete_goes_on assms by (simp add: updateLocalCollections_def)
next
  case False
  have "in_phase 2 t \<Longrightarrow> in_phase 2 (fold update_pair us t) \<and> (us \<noteq> [] \<or> cs_running t \<noteq> [] \<longrightarrow> cs_running (fold update_pair us t) \<noteq> [])" for us t
    by (induction us arbitrary: t) (simp_all add: update_pair_phase)
  from this [OF between_phase [OF assms]] False show ?thesis by (intro goes_onI [of 2]) (simp_all add: updateLocalCollections_def)
qed

lemma create_one_phase:
  assumes "in_phase 1 t" "parent_exists c"
  shows "in_phase 1 (create_one c t)" "cs_running (create_one c t) \<noteq> []"
proof -
  let ?t = "start_col_job (CreateCollection c) t"
  have p: "in_phase 1 ?t" "cs_running ?t \<noteq> []" using start_job_phase [OF assms(1), of "CreateCollection c"] by (simp_all add: job_phase_def)
  then have "in_phase 1 (createTransaction (commit_transaction ?t))"
    using next_transaction_active [of ?t] next_transaction_frame [of ?t] by (simp add: in_phase_def jobs_up_to_def)
  then show "in_phase 1 (create_one c t)" "cs_running (create_one c t) \<noteq> []"
    using p assms(2) next_transaction_frame(1) [of ?t] by (auto simp: create_one_def Let_def in_phase_def)
qed

lemma create_goes_on:
  assumes "in_phase 1 (s\<lparr>cs_toCreate := []\<rparr>)" "\<forall>c\<in>set (cs_toCreate s). parent_exists c" "cs_toCreate s = [] \<Longrightarrow> cs_running s = []"
  shows "goes_on (createLocalCollections s)"
proof (cases "cs_toCreate s = []")
  case True
  then have "s\<lparr>cs_toCreate := []\<rparr> = s" by (cases s) simp
  then have "between 1 s" using assms(1,3) True unfolding in_phase_def between_def by metis
  then show ?thesis using True update_goes_on by (simp add: createLocalCollections_def)
next
  case False
  have "in_phase 1 t \<Longrightarrow> \<forall>c\<in>set cs. parent_exists c \<Longrightarrow> in_phase 1 (fold create_one cs t) \<and>
      (cs \<noteq> [] \<or> cs_running t \<noteq> [] \<longrightarrow> cs_running (fold create_one cs t) \<noteq> [])" for cs t
    by (induction cs arbitrary: t) (simp_all add: create_one_phase [simplified])
  from this [OF assms(1,2)] False show ?thesis by (intro goes_onI [of 1]) (simp_all add: createLocalCollections_def)
qed

lemma created_local_frame:
  assumes "active s" "jobs_up_to ph s" "0 < sc_id new"
  shows "active (created_local new s)" "jobs_up_to ph (created_local new s)" "cs_running (created_local new s) = cs_running s"
    and "cs_pendingJobs (created_local new s) = cs_pendingJobs s"
    and "cs_toCreate s = [] \<Longrightarrow> \<forall>c\<in>set (cs_toCreate (created_local new s)). parent_exists c"
  using assms by (auto simp: created_local_def Let_def active_def jobs_up_to_def parent_exists_def parentCollection_def setParentCollection_def)

lemma without_creations: "active s \<Longrightarrow> jobs_up_to ph s \<Longrightarrow> \<forall>j\<in>set (cs_running s). job_phase (fst j) = ph \<Longrightarrow> in_phase ph (s\<lparr>cs_toCreate := []\<rparr>)"
  by (simp add: in_phase_def active_def jobs_up_to_def)

lemma rollback_ending:
  assumes "between ph s" "cs_toCreate s = []" "cs_currentTransaction s = Some t"
  shows "ending (cs_emitResult ((rollback_transaction None t s)\<lparr>cs_error := UnknownError\<rparr>))"
proof -
  have a: "set (cs_subs s) \<subseteq> insert t (set (cs_closing s))" "t \<notin> set (cs_closing s)" using assms by (auto simp: between_def active_def)
  show ?thesis
  proof (cases "t \<in> cs_used s")
    case True
    then show ?thesis using assms a
      by (intro emitResult_ending) (auto simp: between_def active_def jobs_up_to_def rollback_transaction_def kill_col_jobs_def counted_jobs_def Let_def)
  next
    case False
    let ?s = "s\<lparr>cs_failed := insert t (cs_failed s)\<rparr>"
    have "end_transaction t ?s = ?s\<lparr>cs_subs := removeAll t (cs_subs s), cs_finished := True, cs_error := JobError\<rparr>"
      using assms by (cases s) (auto simp: between_def active_def end_transaction_def transactionSequenceResult_def q_emitResult_def Let_def)
    then show ?thesis using False assms a
      by (intro emitResult_ending) (auto simp: between_def active_def jobs_up_to_def rollback_transaction_def Let_def)
  qed
qed

lemma create_result_goes_on:
  assumes "active s" "jobs_up_to 1 s" "\<forall>j\<in>set (cs_running s). job_phase (fst j) = 1" "cs_toCreate s = []" "0 < sc_id new"
  shows "goes_on (createLocalCollectionResult (Some new) (s\<lparr>cs_pendingJobs := cs_pendingJobs s + 1\<rparr>))"
proof -
  let ?t = "created_local new s"
  note f = created_local_frame [OF assms(1,2,5)]
  have s: "s\<lparr>cs_pendingJobs := cs_pendingJobs s + 1 - 1\<rparr> = s" by (cases s) simp
  consider "cs_toCreate ?t \<noteq> []" | "cs_toCreate ?t = []" "cs_running s = []" | "cs_toCreate ?t = []" "cs_running s \<noteq> []" by blast
  then show ?thesis
  proof cases
    case 1
    have "in_phase 1 (?t\<lparr>cs_toCreate := []\<rparr>)" using without_creations [OF f(1,2)] f(3) assms(3) by simp
    from create_goes_on [OF this f(5) [OF assms(4)]] 1 show ?thesis by (simp add: createLocalCollectionResult_def s Let_def)
  next
    case 2
    have b: "between 1 ?t" using f 2 by (simp add: between_def)
    have z: "cs_pendingJobs ?t = 0" using f(4) assms(1) 2 by (simp add: active_def)
    obtain t where t: "cs_currentTransaction ?t = Some t" using active_current [OF f(1)] by blast
    have "goes_on (updateLocalCollections (createTransaction (commit_transaction ?t)))"
      using update_goes_on [OF between_next [OF b]] next_transaction_frame(3) [OF f(1)] 2 by simp
    moreover have "goes_on (cs_emitResult ((rollback_transaction None t ?t)\<lparr>cs_error := UnknownError\<rparr>))"
      using rollback_ending [OF b 2(1) t] by (simp add: goes_on_def)
    ultimately show ?thesis using 2 z t by (simp add: createLocalCollectionResult_def s Let_def)
  next
    case 3
    have "in_phase 1 ?t" using f 3 assms(3) by (simp add: in_phase_def)
    moreover have "cs_pendingJobs ?t \<noteq> 0" using f(4) assms(1) 3 by (simp add: active_def)
    ultimately show ?thesis using 3 f(3) by (simp add: createLocalCollectionResult_def s Let_def goes_onI [of 1])
  qed
qed

text \<open>Steps in which no job fails, nothing is rolled back, the store gives positive ids, and the local collections form a tree.\<close>

inductive plain_cs_step :: "csync \<Rightarrow> cs_event \<Rightarrow> csync \<Rightarrow> bool" where
  deliver: "cs_do (Deliver cs) s = Some t \<Longrightarrow> plain_cs_step s (Deliver cs) t"
| changes: "cs_do (DeliverChanges cs ds) s = Some t \<Longrightarrow> plain_cs_step s (DeliverChanges cs ds) t"
| delivery_ends: "cs_do DeliveryEnds s = Some t \<Longrightarrow> plain_cs_step s DeliveryEnds t"
| listed: "\<forall>c\<in>set cs. 0 < sc_id c \<Longrightarrow> cs_do (LocalListed cs) s = Some t \<Longrightarrow> plain_cs_step s (LocalListed cs) t"
| listing_ends: "tree_ok s \<Longrightarrow> cs_do (ListingEnds False) s = Some t \<Longrightarrow> plain_cs_step s (ListingEnds False) t"
| job_ends: "0 < i \<Longrightarrow> cs_do (JobEnds j (Some i)) s = Some t \<Longrightarrow> plain_cs_step s (JobEnds j (Some i)) t"
| transaction_ends: "cs_do (TransactionEnds n) s = Some t \<Longrightarrow> plain_cs_step s (TransactionEnds n) t"
| emit_again: "cs_do EmitAgain s = Some t \<Longrightarrow> plain_cs_step s EmitAgain t"

text \<open>What these steps exclude, spelled out: no job fails, nothing is rolled back, the store gives positive ids, and when the listing ends the level-wise
  conditions of \<open>tree_ok\<close> hold.\<close>

definition succeeds :: "cs_event \<Rightarrow> bool" where
  "succeeds e \<longleftrightarrow> (case e of LocalListed cs \<Rightarrow> list_all (\<lambda>c. 0 < sc_id c) cs | ListingEnds failed \<Rightarrow> \<not> failed
     | JobEnds j r \<Rightarrow> (case r of None \<Rightarrow> False | Some i \<Rightarrow> 0 < i) | RollBack k \<Rightarrow> False | _ \<Rightarrow> True)"

lemma plain_cs_step_eq:
  "(\<lambda>s e t. cs_do e s = Some t \<and> succeeds e \<and> (e = ListingEnds False \<longrightarrow> tree_ok s)) = plain_cs_step"
proof (intro ext iffI)
  fix s e t
  show "cs_do e s = Some t \<and> succeeds e \<and> (e = ListingEnds False \<longrightarrow> tree_ok s)" if "plain_cs_step s e t"
    using that by cases (simp_all add: succeeds_def list_all_iff del: cs_do.simps)
  show "plain_cs_step s e t" if "cs_do e s = Some t \<and> succeeds e \<and> (e = ListingEnds False \<longrightarrow> tree_ok s)"
    using that by (cases e) (auto simp: succeeds_def list_all_iff intro: plain_cs_step.intros split: option.splits simp del: cs_do.simps)
qed

definition cs_start :: "csync \<Rightarrow> bool" where
  "cs_start s \<longleftrightarrow> (\<exists>h keep streaming. s = csync_new h keep streaming)"

lemma listing_add: "listing (addRemoteColection b c s) = listing s" "cs_deliveryDone (addRemoteColection b c s) = cs_deliveryDone s"
  by (simp_all add: listing_def addRemoteColection_def Let_def)

lemma listing_adds: "listing (fold (addRemoteColection b) cs s) = listing s" "cs_deliveryDone (fold (addRemoteColection b) cs s) = cs_deliveryDone s"
  by (induction cs arbitrary: s) (simp_all add: listing_add)

lemma listing_execute:
  "listing s \<Longrightarrow> \<not> cs_deliveryDone s \<Longrightarrow> listing (execute s)"
  "listing s \<Longrightarrow> \<not> cs_deliveryDone s \<Longrightarrow> listing (execute (s\<lparr>cs_deliveryDone := True\<rparr>))"
  by (simp_all add: listing_def execute_def add_col_job_def)

lemma listing_received:
  assumes "listing s" "\<forall>c\<in>set cs. 0 < sc_id c"
  shows "listing (localCollectionsReceived cs s)"
proof -
  have "listing (s\<lparr>cs_local := at_key k (\<lambda>xs. xs @ [c]) (cs_local s)\<rparr>)" if "listing s" "0 < sc_id c" for k c s
    using that by (auto simp: listing_def value_at_key_fold)
  then show ?thesis using assms unfolding localCollectionsReceived_def by (induction cs arbitrary: s) auto
qed

lemma listing_plan:
  assumes "listing s" "cs_deliveryDone s" "tree_ok s" "localCollectionFetchResult (s\<lparr>cs_running := []\<rparr>) = Some t"
  shows "goes_on t"
proof -
  let ?s = "s\<lparr>cs_running := []\<rparr>"
  have ok: "tree_ok ?s" using assms(3) by (simp add: tree_ok_def)
  obtain u where u: "processLocalCollections (Suc (length (cs_local ?s))) rootRid root_collection ?s = Some u"
    "visited (named_by ?s) (Collect (tree_key ?s)) ?s u" using process_tree [OF ok] by blast
  let ?u = "u\<lparr>cs_localListDone := True\<rparr>"
  have t: "t = execute ?u" using assms(4) u(1) by (simp add: localCollectionFetchResult_def)
  note p = visited_parts [OF u(2)]
  have w: "f u = f ?s" if "\<And>x. f (without_plan x) = f x" for f :: "csync \<Rightarrow> 'b" using arg_cong [OF p(1), of f] that by simp
  have fl: "cs_currentTransaction u = None" "cs_subs u = []" "cs_closing u = []" "cs_awaited u = []" "cs_queued u = 0" "cs_pendingJobs u = 0"
    "\<not> cs_finished u" "\<not> cs_resultEmitted u" "cs_failed u = {}" "cs_used u = {}" "cs_error u = NoColError" "cs_running u = []"
    "cs_jobs u = [FetchCollections]" "cs_deliveryDone u"
    using w [of cs_currentTransaction] w [of cs_subs] w [of cs_closing] w [of cs_awaited] w [of cs_queued] w [of cs_pendingJobs] w [of cs_finished]
      w [of cs_resultEmitted] w [of cs_failed] w [of cs_used] w [of cs_error] w [of cs_running] w [of cs_jobs] w [of cs_deliveryDone] assms(1,2)
    by (simp_all add: without_plan_def listing_def)
  have parents: "\<forall>c\<in>set (cs_toCreate u). parent_exists c"
  proof -
    obtain f where f: "set (cs_toCreate u) = set (cs_toCreate ?s) \<union> (\<Union>k\<in>Collect (tree_key ?s). setParentCollection (f k) ` set (new_at ?s k))"
      "\<forall>k\<in>Collect (tree_key ?s). named_by ?s (f k) k" using p(7) by blast
    have "parent_exists (setParentCollection (f k) r)" if "tree_key ?s k" for k r
    proof -
      have "f k = root_collection \<or> (\<exists>j. f k \<in> set (local_at s j))" using f(2) that by (auto simp: named_by_def)
      then show ?thesis using assms(1) by (auto simp: parent_exists_def parentCollection_def setParentCollection_def sc_eq_def listing_def)
    qed
    then show ?thesis using f(1) assms(1) by (auto simp: listing_def)
  qed
  show ?thesis
  proof (cases "cs_toCreate u = [] \<and> cs_toUpdate u = [] \<and> cs_toRemove u = []")
    case True
    then have "t = cs_emitResult ?u" using t fl by (simp add: execute_def)
    moreover have "ending (cs_emitResult ?u)" using fl True by (intro emitResult_ending) simp_all
    ultimately show ?thesis by (simp add: goes_on_def)
  next
    case False
    then have "t = createLocalCollections (createTransaction ?u)" using t fl by (auto simp: execute_def)
    moreover have "in_phase 1 ((createTransaction ?u)\<lparr>cs_toCreate := []\<rparr>)"
      using fl by (simp add: in_phase_def active_def createTransaction_def jobs_up_to_def job_phase_def)
    ultimately show ?thesis using create_goes_on [of "createTransaction ?u"] parents fl by (simp add: createTransaction_def)
  qed
qed

lemma phase_job_ends:
  assumes "in_phase ph s" "j \<in> set (cs_running s)" "0 < i" "fst j \<noteq> FetchCollections"
  shows "goes_on (col_job_result j (Some i) s)"
proof -
  let ?s = "s\<lparr>cs_running := remove1 j (cs_running s), cs_pendingJobs := cs_pendingJobs s - 1\<rparr>"
  have len: "length (cs_running s) = Suc (length (remove1 j (cs_running s)))"
    using assms(2) length_pos_if_in_set [OF assms(2)] by (simp add: length_remove1)
  have a: "active ?s" "cs_toCreate ?s = []" "jobs_up_to ph ?s"
    using assms(1) len by (simp_all add: in_phase_def active_def jobs_up_to_def)
  have ph: "\<forall>j\<in>set (cs_running ?s). job_phase (fst j) = ph" "job_phase (fst j) = ph"
    using assms(1,2) set_remove1_subset [of j "cs_running s"] by (auto simp: in_phase_def)
  have z: "cs_pendingJobs s - 1 = 0 \<longleftrightarrow> cs_running ?s = []" using a(1) by (simp add: active_def)
  have b: "cs_running ?s = [] \<Longrightarrow> between ph ?s" and r: "cs_running ?s \<noteq> [] \<Longrightarrow> in_phase ph ?s"
    using a ph by (simp_all add: between_def in_phase_def)
  have update: "goes_on (col_job_result j (Some i) s)" if "ph = 2" "job_phase (fst j) = 2"
  proof -
    have "col_job_result j (Some i) s =
        (if cs_pendingJobs s - 1 = 0 then deleteLocalCollections (createTransaction (commit_transaction ?s)) else ?s)"
      using that(2) by (cases "fst j")
        (simp_all add: job_phase_def col_job_result_def col_job_slot_def updateLocalCollectionResult_def Let_def split: option.splits)
    moreover have "goes_on (deleteLocalCollections (createTransaction (commit_transaction ?s)))" if "cs_running ?s = []"
      using delete_goes_on [OF between_next [OF b [OF that]]] \<open>ph = 2\<close> next_transaction_frame(3) [OF a(1)] a(2) by simp
    ultimately show ?thesis using r goes_onI [of ph ?s] that(1) unfolding z by simp
  qed
  show ?thesis
  proof (cases "fst j")
    case (CreateCollection c)
    then have "ph = 1" using ph(2) by (simp add: job_phase_def)
    let ?new = "SCol i (sc_rid c) (sc_data c) (sc_parent c)"
    have "?s\<lparr>cs_pendingJobs := cs_pendingJobs ?s + 1\<rparr> = s\<lparr>cs_running := remove1 j (cs_running s)\<rparr>" by (cases s) simp
    then show ?thesis using create_result_goes_on [OF a(1) _ _ a(2), of ?new] a(3) ph(1) \<open>ph = 1\<close> assms(3) CreateCollection
      by (simp add: col_job_result_def col_job_slot_def Let_def split: option.splits)
  next
    case (DeleteCollection c)
    then have "ph = 3" using ph(2) by (simp add: job_phase_def)
    have "col_job_result j (Some i) s = (if cs_pendingJobs s - 1 = 0 then cs_done ?s else ?s)"
      using DeleteCollection
      by (simp add: col_job_result_def col_job_slot_def deleteLocalCollectionsResult_def Let_def done_again split: option.splits)
    moreover have "ending (cs_done ?s)" if "cs_running ?s = []" by (rule done_ending [OF b [OF that] a(2)])
    ultimately show ?thesis using r goes_onI [of ph ?s] \<open>ph = 3\<close> unfolding z by (simp add: goes_on_def)
  next
    case FetchCollections
    then show ?thesis using assms(4) by simp
  next
    case (ModifyCollection c)
    then have "ph = 2" "job_phase (fst j) = 2" using ph(2) by (simp_all add: job_phase_def)
    then show ?thesis using update by simp
  next
    case (MoveCollection c p)
    then have "ph = 2" "job_phase (fst j) = 2" using ph(2) by (simp_all add: job_phase_def)
    then show ?thesis using update by simp
  qed
qed

lemma phase_transaction_ends:
  assumes "in_phase ph s" "t \<in> set (cs_closing s)"
  shows "in_phase ph (end_transaction t s)" "cs_running (end_transaction t s) = cs_running s"
  using assms by (auto simp: in_phase_def active_def end_transaction_def transactionSequenceResult_def jobs_up_to_def Let_def)

lemma all_removed: "removeAll t xs \<noteq> [] \<or> xs = [] \<or> 0 < count_list xs t"
  by (induction xs) auto

lemma ending_transaction_ends:
  assumes "ending s"
  shows "ending (end_transaction t s)"
  using assms all_removed [of t "cs_awaited s"]
  by (auto simp: ending_def end_transaction_def transactionSequenceResult_def q_emitResult_def Let_def simp del: removeAll_filter_not_eq)

lemma ending_emit_again: "ending s \<Longrightarrow> 0 < cs_queued s \<Longrightarrow> ending (cs_emitResult (s\<lparr>cs_queued := cs_queued s - 1\<rparr>))"
  by (cases "cs_subs s") (auto simp: ending_def cs_emitResult_def q_emitResult_def)

lemma goes_on_inv: "goes_on t \<Longrightarrow> csync_inv t"
  by (simp add: goes_on_def csync_inv_def)

lemma no_fetch: "in_phase ph s \<Longrightarrow> 0 < ph \<Longrightarrow> (FetchCollections, p) \<notin> set (cs_running s)"
  by (force simp: in_phase_def job_phase_def)

lemma delivery_done: "in_phase ph s \<Longrightarrow> cs_deliveryDone s" "in_phase ph s \<Longrightarrow> cs_queued s = 0" "ending s \<Longrightarrow> cs_deliveryDone s" "ending s \<Longrightarrow> cs_running s = []"
  by (simp_all add: in_phase_def active_def ending_def)

lemma plain_cs_step_inv:
  assumes "plain_cs_step s e t" "csync_inv s"
  shows "csync_inv t"
proof -
  consider "listing s" | ph where "in_phase ph s" "0 < ph" "cs_running s \<noteq> []" | "ending s"
    using assms(2) unfolding csync_inv_def by blast
  then show ?thesis
  proof cases
    assume l: "listing s"
    have r: "set (cs_running s) \<subseteq> {(FetchCollections, None)}" "cs_closing s = []" "cs_queued s = 0"
      using l by (auto simp: listing_def split: if_splits)
    have inc: "listing (s\<lparr>cs_incremental := b\<rparr>)" for b using l by (simp add: listing_def)
    from assms(1) show ?thesis
    proof cases
      case (deliver cs)
      then show ?thesis using l listing_execute [of "fold (addRemoteColection False) cs s"]
        by (auto simp: setRemoteCollections_def Let_def listing_adds csync_inv_def split: if_splits)
    next
      case (changes cs ds)
      then show ?thesis
        using inc [of True] listing_execute [of "fold (addRemoteColection True) ds (fold (addRemoteColection False) cs (s\<lparr>cs_incremental := True\<rparr>))"]
        by (auto simp: setChangedCollections_def Let_def listing_adds csync_inv_def split: if_splits)
    next
      case delivery_ends
      then show ?thesis using l listing_execute(2) [of s] by (auto simp: retrievalDone_def csync_inv_def split: if_splits)
    next
      case (listed cs)
      then show ?thesis using listing_received [OF l] by (auto simp: csync_inv_def split: if_splits)
    next
      case listing_ends
      then have "cs_deliveryDone s" "cs_running s = [(FetchCollections, None)]" using l by (auto simp: listing_def split: if_splits)
      then show ?thesis using listing_plan [OF l _ listing_ends(2)] listing_ends by (auto simp: goes_on_inv)
    qed (use r in \<open>auto split: if_splits\<close>)
  next
    fix ph assume p: "in_phase ph s" "0 < ph" "cs_running s \<noteq> []"
    note d = delivery_done(1,2) [OF p(1)] and nf = no_fetch [OF p(1,2)]
    from assms(1) show ?thesis
    proof cases
      case (job_ends i j)
      then show ?thesis using phase_job_ends [OF p(1), of j i] goes_on_inv by (simp split: if_splits)
    next
      case (transaction_ends n)
      then show ?thesis using phase_transaction_ends [OF p(1)] p(2,3) by (auto simp: csync_inv_def split: if_splits)
    qed (use d nf in \<open>auto split: if_splits\<close>)
  next
    assume p: "ending s"
    from assms(1) show ?thesis
    proof cases
      case (transaction_ends n)
      then show ?thesis using ending_transaction_ends [OF p] by (auto simp: csync_inv_def split: if_splits)
    next
      case emit_again
      then show ?thesis using ending_emit_again [OF p] by (auto simp: csync_inv_def split: if_splits)
    qed (use delivery_done(3,4) [OF p] in \<open>auto split: if_splits\<close>)
  qed
qed

interpretation collection_sync: inductive_invariant cs_start plain_cs_step csync_inv
proof
  show "cs_start s \<Longrightarrow> csync_inv s" for s by (auto simp: cs_start_def csync_inv_def listing_def csync_new_def value_at_def)
  show "plain_cs_step s l t \<Longrightarrow> csync_inv s \<Longrightarrow> csync_inv t" for s l t by (rule plain_cs_step_inv)
qed

section \<open>What is to be created\<close>

definition created_cols :: "col_job list \<Rightarrow> scol list" where
  "created_cols js = concat (map (\<lambda>j. case j of CreateCollection c \<Rightarrow> [c] | _ \<Rightarrow> []) js)"

text \<open>The remote ids of the collections that have a job, that wait for one, and that wait for their parent.\<close>

definition creations :: "csync \<Rightarrow> string multiset" where
  "creations s = mset (map sc_rid (created_cols (cs_jobs s))) + mset (map sc_rid (cs_toCreate s)) + mset (map sc_rid (concat (map snd (cs_remote s))))"

definition keys_once :: "csync \<Rightarrow> bool" where
  "keys_once s \<longleftrightarrow> distinct (map fst (cs_remote s))"

definition parts :: "csync \<Rightarrow> scol list \<times> scol list \<times> (remote_id \<times> scol list) list" where
  "parts s = (created_cols (cs_jobs s), cs_toCreate s, cs_remote s)"

lemma parts_same: "parts t = parts s \<Longrightarrow> creations t = creations s \<and> keys_once t = keys_once s"
  by (simp add: parts_def creations_def keys_once_def)

lemma created_cols_append [simp]: "created_cols (js @ ks) = created_cols js @ created_cols ks"
  by (simp add: created_cols_def)

lemma parts_start: "job_phase j \<noteq> 1 \<Longrightarrow> parts (start_col_job j s) = parts s"
  by (cases j) (simp_all add: parts_def start_col_job_def add_col_job_def created_cols_def job_phase_def)

lemma parts_end_transaction: "parts (end_transaction t s) = parts s"
  by (simp add: parts_def end_transaction_def transactionSequenceResult_def q_emitResult_def Let_def)

lemma parts_commit: "parts (commit_transaction s) = parts s"
  by (simp add: commit_transaction_def parts_end_transaction split: option.splits) (simp add: parts_def)

lemma parts_create: "parts (createTransaction s) = parts s"
  by (simp add: parts_def createTransaction_def)

lemma parts_emit: "parts (cs_emitResult s) = parts s"
  by (simp add: cs_emitResult_def parts_def q_emitResult_def split: list.splits)

lemma parts_done: "parts (cs_done s) = parts s"
proof -
  have "parts (s\<lparr>cs_currentTransaction := None\<rparr>) = parts s" "parts (s\<lparr>cs_error := UnknownError\<rparr>) = parts s" for s by (simp_all add: parts_def)
  then show ?thesis by (simp add: cs_done_def Let_def parts_emit parts_commit)
qed

lemma parts_delete: "parts (deleteLocalCollections s) = parts s"
proof -
  have "parts (fold (\<lambda>c. start_col_job (DeleteCollection c)) cs s) = parts s" for cs
    by (induction cs arbitrary: s) (simp_all add: parts_start job_phase_def)
  then show ?thesis by (simp add: deleteLocalCollections_def parts_done)
qed

lemma parts_update: "parts (updateLocalCollections s) = parts s"
proof -
  have "parts (update_pair x s) = parts s" for x s by (cases x) (simp add: update_pair_def Let_def parts_start job_phase_def)
  then have "parts (fold update_pair us s) = parts s" for us by (induction us arbitrary: s) simp_all
  then show ?thesis by (simp add: updateLocalCollections_def parts_delete)
qed

lemma parts_rollback: "parts (rollback_transaction k t s) = parts s"
proof -
  have "parts (s\<lparr>cs_failed := F\<rparr>) = parts s" for s F by (simp add: parts_def)
  then show ?thesis by (simp add: rollback_transaction_def Let_def parts_end_transaction) (simp add: kill_col_jobs_def parts_def)
qed

lemma create_one_creations: "creations (create_one c s) = add_mset (sc_rid c) (creations s)" "keys_once (create_one c s) = keys_once s"
proof -
  let ?s = "start_col_job (CreateCollection c) s"
  have "creations ?s = add_mset (sc_rid c) (creations s)" "keys_once ?s = keys_once s"
    by (simp_all add: creations_def keys_once_def start_col_job_def add_col_job_def created_cols_def)
  moreover have "parts (createTransaction (commit_transaction ?s)) = parts ?s" by (simp add: parts_create parts_commit)
  ultimately have started: "creations (createTransaction (commit_transaction ?s)) = add_mset (sc_rid c) (creations s) \<and>
      keys_once (createTransaction (commit_transaction ?s)) = keys_once s" "creations ?s = add_mset (sc_rid c) (creations s) \<and> keys_once ?s = keys_once s"
    using parts_same by metis+
  have "creations (s\<lparr>cs_toCreate := cs_toCreate s @ [c]\<rparr>) = add_mset (sc_rid c) (creations s)" "keys_once (s\<lparr>cs_toCreate := cs_toCreate s @ [c]\<rparr>) = keys_once s"
    by (simp_all add: creations_def keys_once_def)
  then show "creations (create_one c s) = add_mset (sc_rid c) (creations s)" "keys_once (create_one c s) = keys_once s"
    using started by (simp_all add: create_one_def Let_def)
qed

lemma create_creations: "creations (createLocalCollections s) = creations s" "keys_once (createLocalCollections s) = keys_once s"
proof -
  have "creations (fold create_one cs t) = creations t + mset (map sc_rid cs) \<and> keys_once (fold create_one cs t) = keys_once t" for cs t
    by (induction cs arbitrary: t) (simp_all add: create_one_creations)
  moreover have "creations (s\<lparr>cs_toCreate := []\<rparr>) + mset (map sc_rid (cs_toCreate s)) = creations s" "keys_once (s\<lparr>cs_toCreate := []\<rparr>) = keys_once s"
    by (simp_all add: creations_def keys_once_def)
  ultimately show "creations (createLocalCollections s) = creations s" "keys_once (createLocalCollections s) = keys_once s"
    using parts_same [OF parts_update] by (simp_all add: createLocalCollections_def)
qed

lemma taken_values:
  "distinct (map fst m) \<Longrightarrow> mset (map g (concat (map snd m))) = mset (map g (value_at k m)) + mset (map g (concat (map snd (hash_remove k m))))"
proof (induction m)
  case (Cons p m)
  then show ?case
  proof (cases "fst p = k")
    case True
    then have "k \<notin> fst ` set m" using Cons.prems by auto
    then have "hash_remove k (p # m) = m" using True hash_remove_id [of k m] by (simp add: hash_remove_def)
    then show ?thesis using True by (cases p) (simp add: value_at_def)
  next
    case False
    then show ?thesis using Cons by (cases p) (simp add: value_at_def hash_remove_def)
  qed
qed (simp add: value_at_def hash_remove_def)

lemma remove_distinct: "distinct (map fst m) \<Longrightarrow> distinct (map fst (hash_remove k m))"
  by (simp add: hash_remove_def distinct_map_filter)

lemma adopt_rid [simp]: "sc_rid (adopt new s c) = sc_rid c"
  by (simp add: adopt_def Let_def setParentCollection_def)

lemma created_local_creations:
  assumes "keys_once s"
  shows "creations (created_local new s) = creations s" "keys_once (created_local new s)"
proof -
  define k where "k = remoteIdForCollection (s\<lparr>cs_uidRidMap := (cs_uidRidMap s)(sc_id new \<mapsto> sc_rid new)\<rparr>) new"
  have d: "distinct (map fst (cs_remote s))" using assms by (simp add: keys_once_def)
  note d' = remove_distinct [OF d, of k]
  have rid: "sc_rid \<circ> adopt new t = sc_rid" "sc_rid \<circ> setParentCollection p = sc_rid" for t p
    by (simp_all add: fun_eq_iff setParentCollection_def)
  show "creations (created_local new s) = creations s"
    using taken_values [OF d, of sc_rid k] taken_values [OF d', of sc_rid "[sc_rid new]"]
    by (simp add: created_local_def creations_def Let_def rid multiset.map_comp k_def [symmetric])
  show "keys_once (created_local new s)"
    using d' remove_distinct [OF d'] by (simp add: created_local_def keys_once_def Let_def k_def [symmetric])
qed

lemma create_result_creations:
  assumes "keys_once s"
  shows "creations (createLocalCollectionResult (Some new) s) = creations s" "keys_once (createLocalCollectionResult (Some new) s)"
proof -
  define s1 where "s1 = s\<lparr>cs_pendingJobs := cs_pendingJobs s - 1\<rparr>"
  have s1: "creations s1 = creations s" "keys_once s1" using assms by (simp_all add: s1_def creations_def keys_once_def)
  note c = created_local_creations [OF s1(2), of new]
  have "parts (s\<lparr>cs_error := UnknownError\<rparr>) = parts s" for s by (simp add: parts_def)
  then have "parts (cs_emitResult ((rollback_transaction None t u)\<lparr>cs_error := UnknownError\<rparr>)) = parts u"
    "parts (cs_emitResult (u\<lparr>cs_error := UnknownError\<rparr>)) = parts u"
    "parts (updateLocalCollections (createTransaction (commit_transaction u))) = parts u" for t u
    by (simp_all add: parts_emit parts_rollback parts_update parts_create parts_commit)
  note p = this [THEN parts_same]
  show "creations (createLocalCollectionResult (Some new) s) = creations s" "keys_once (createLocalCollectionResult (Some new) s)"
    using c s1 create_creations [of "created_local new s1"] p
    by (simp_all add: createLocalCollectionResult_def Let_def s1_def [symmetric] split: option.splits)
qed

lemma execute_once: "keys_once (execute s) = keys_once s"
  using create_creations(2) [of s] create_creations(2) [of "createTransaction s"] parts_same [OF parts_emit, of s] parts_same [OF parts_create, of s]
  by (simp add: execute_def) (simp add: keys_once_def add_col_job_def)

lemma adds_once: "keys_once s \<Longrightarrow> keys_once (fold (addRemoteColection b) cs s)"
  by (induction cs arbitrary: s) (simp_all add: keys_once_def addRemoteColection_def Let_def at_key_distinct)

lemma set_distinct: "distinct (map fst m) \<Longrightarrow> distinct (map fst (hash_set k xs m))"
  using remove_distinct [of m k] by (auto simp: hash_set_def hash_insert_def)

lemma process_once: "keys_once s \<Longrightarrow> processLocalCollections n k p s = Some t \<Longrightarrow> keys_once t"
proof (induction n k p s arbitrary: t rule: processLocalCollections.induct)
  case (2 n k p s)
  from "2.prems"(2) obtain s1 where s1: "processCollections k s = Some s1" by (auto split: option.splits)
  then have "cs_remote s1 = hash_set k xs (cs_remote s) \<Longrightarrow> keys_once (take_children k p s1)" for xs
    using "2.prems"(1) by (simp add: keys_once_def take_children_def remove_distinct set_distinct)
  then have once: "keys_once (take_children k p s1)" using s1 by (auto simp: processCollections_def Let_def split: option.splits)
  let ?f = "\<lambda>c r. case r of None \<Rightarrow> None | Some t \<Rightarrow> processLocalCollections n (remoteIdForCollection t c) c t"
  have none: "fold ?f cs None = None" for cs by (induction cs) simp_all
  have "fold ?f cs (Some u) = Some t \<Longrightarrow> keys_once u \<Longrightarrow> set cs \<subseteq> set (local_at s k) \<Longrightarrow> keys_once t" for cs u
  proof (induction cs arbitrary: u)
    case (Cons c cs)
    then obtain v where "processLocalCollections n (remoteIdForCollection u c) c u = Some v" "fold ?f cs (Some v) = Some t"
      using none by (cases "processLocalCollections n (remoteIdForCollection u c) c u") auto
    then show ?case using Cons "2.IH" [OF s1] by auto
  qed simp
  then show ?case using "2.prems"(2) s1 once by simp
qed simp

lemma job_result_creations:
  assumes "keys_once s"
  shows "creations (col_job_result j (Some i) s) = creations s" "keys_once (col_job_result j (Some i) s)"
proof -
  define s1 where "s1 = s\<lparr>cs_running := remove1 j (cs_running s)\<rparr>"
  have s1: "parts s1 = parts s" "keys_once s1" using assms by (simp_all add: s1_def parts_def keys_once_def)
  have "parts (s\<lparr>cs_pendingJobs := n\<rparr>) = parts s" "parts (s\<lparr>cs_currentTransaction := None\<rparr>) = parts s" for s n by (simp_all add: parts_def)
  then have "parts (deleteLocalCollectionsResult s1) = parts s" "parts (updateLocalCollectionResult b s1) = parts s" for b
    using s1(1) by (simp_all add: deleteLocalCollectionsResult_def updateLocalCollectionResult_def Let_def parts_done parts_delete parts_commit parts_create)
  note p = this [THEN parts_same]
  have "creations (col_job_slot (fst j) (Some i) s1) = creations s \<and> keys_once (col_job_slot (fst j) (Some i) s1)"
    using parts_same [OF s1(1)] create_result_creations [OF s1(2)] p assms by (cases "fst j") (simp_all add: col_job_slot_def)
  then show "creations (col_job_result j (Some i) s) = creations s" "keys_once (col_job_result j (Some i) s)"
    by (simp_all add: col_job_result_def Let_def s1_def [symmetric] split: option.splits)
qed

lemma plain_step_once:
  assumes "plain_cs_step s e t" "keys_once s"
  shows "keys_once t"
  using assms
proof cases
  case (listing_ends)
  then obtain u where u: "processLocalCollections (Suc (length (cs_local s))) rootRid root_collection
      (s\<lparr>cs_running := remove1 (FetchCollections, None) (cs_running s)\<rparr>) = Some u" "t = execute (u\<lparr>cs_localListDone := True\<rparr>)"
    by (auto simp: localCollectionFetchResult_def Let_def simp del: processLocalCollections.simps split: if_splits option.splits)
  have "keys_once u" by (rule process_once [OF _ u(1)]) (use assms(2) in \<open>simp add: keys_once_def\<close>)
  then show ?thesis unfolding u(2) execute_once by (simp add: keys_once_def)
next
  case (deliver cs)
  have "keys_once (s\<lparr>cs_deliveryDone := True\<rparr>) = keys_once s" for s by (simp add: keys_once_def)
  then show ?thesis using deliver adds_once [OF assms(2)]
    by (auto simp: setRemoteCollections_def Let_def execute_once split: if_splits)
next
  case (changes cs ds)
  have "keys_once (s\<lparr>cs_deliveryDone := True\<rparr>) = keys_once s" "keys_once (s\<lparr>cs_incremental := True\<rparr>) = keys_once s" for s by (simp_all add: keys_once_def)
  then show ?thesis using changes adds_once [OF adds_once, of "s\<lparr>cs_incremental := True\<rparr>"] assms(2)
    by (auto simp: setChangedCollections_def Let_def execute_once split: if_splits)
next
  case delivery_ends
  then show ?thesis using assms(2) by (auto simp: retrievalDone_def execute_once split: if_splits) (simp add: keys_once_def)
next
  case (listed cs)
  have "cs_remote (localCollectionsReceived cs s) = cs_remote s" unfolding localCollectionsReceived_def by (induction cs arbitrary: s) simp_all
  then show ?thesis using listed assms(2) by (auto simp: keys_once_def split: if_splits)
next
  case (job_ends i j)
  then show ?thesis using job_result_creations(2) [OF assms(2), of j i] by (simp split: if_splits)
next
  case (transaction_ends n)
  then show ?thesis using assms(2) parts_same [OF parts_end_transaction, of n s] by (auto split: if_splits)
next
  case emit_again
  then show ?thesis using assms(2) parts_same [OF parts_emit, of "s\<lparr>cs_queued := cs_queued s - 1\<rparr>"] by (auto simp: keys_once_def split: if_splits)
qed

section \<open>Properties\<close>

text \<open>(C15) A collection synchronisation does not get stuck, in whatever order the results of jobs, transactions and queued calls come
  in, if no job fails, nothing is rolled back, the store gives positive ids, and the trees are well-formed when the local collections are listed (\<open>tree_ok\<close>:
  below each local parent the remote ids are there and distinct, no collection has turned virtual or real; otherwise it can, see \<open>recreation_stalls\<close>). It waits for deliveries, for a job, for a transaction or for the event loop, or it is finished. Its jobs are started in phases: first
  the local collections are listed, then collections are created, then updated, and only then removed.\<close>

theorem collection_sync_never_stalls:
  assumes "reach (\<lambda>s. \<exists>h keep streaming. s = csync_new h keep streaming)
      (\<lambda>s e t. cs_do e s = Some t \<and> succeeds e \<and> (e = ListingEnds False \<longrightarrow> tree_ok s)) s"
  shows "(cs_finished s \<or> cs_running s \<noteq> [] \<or> (\<exists>t\<in>set (cs_closing s). \<forall>j\<in>set (cs_running s). snd j \<noteq> Some t) \<or> 0 < cs_queued s \<or> \<not> cs_deliveryDone s) \<and>
    sorted (map job_phase (cs_jobs s))"
proof -
  have "reach cs_start plain_cs_step s" using assms unfolding plain_cs_step_eq cs_start_def [abs_def] .
  then have "csync_inv s" by (rule collection_sync.reach_inv)
  then show ?thesis unfolding csync_inv_def
  proof (elim disjE exE conjE)
    assume "listing s"
    then show ?thesis by (auto simp: listing_def)
  next
    fix ph assume "in_phase ph s" "cs_running s \<noteq> []"
    then show ?thesis by (simp add: in_phase_def jobs_up_to_def)
  next
    assume e: "ending s"
    then have "cs_finished s \<or> cs_awaited s \<noteq> [] \<or> 0 < cs_queued s" "set (cs_awaited s) \<subseteq> set (cs_closing s)" by (auto simp: ending_def)
    moreover have "cs_running s = []" "sorted (map job_phase (cs_jobs s))" using e by (simp_all add: ending_def)
    ultimately show ?thesis by (cases "cs_awaited s") auto
  qed
qed

text \<open>A local tree with a collection that stays, one that is renamed and one that is gone; a new one is delivered below another new one.\<close>

fun cs_run :: "cs_event list \<Rightarrow> csync \<Rightarrow> csync option" where
  "cs_run [] s = Some s"
| "cs_run (e # es) s = (case cs_do e s of None \<Rightarrow> None | Some t \<Rightarrow> cs_run es t)"

definition plain_event :: "cs_event \<Rightarrow> bool" where
  "plain_event e \<longleftrightarrow> (case e of LocalListed cs \<Rightarrow> list_all (\<lambda>c. 0 < sc_id c) cs | ListingEnds failed \<Rightarrow> False
     | JobEnds j r \<Rightarrow> (case r of None \<Rightarrow> False | Some i \<Rightarrow> 0 < i) | RollBack k \<Rightarrow> False | _ \<Rightarrow> True)"

lemma plain_cs_run: "cs_run es s = Some t \<Longrightarrow> list_all plain_event es \<Longrightarrow> run plain_cs_step s es t"
proof (induction es arbitrary: s)
  case (Cons e es)
  then obtain u where u: "cs_do e s = Some u" "cs_run es u = Some t" by (auto split: option.splits)
  then have "plain_cs_step s e u" using Cons.prems(2)
    by (cases e) (auto simp: plain_event_def list_all_iff intro: plain_cs_step.intros split: option.splits simp del: cs_do.simps)
  then show ?case using Cons u by (auto intro: run_cons)
qed (simp add: run_nil)

definition new_folder :: scol where "new_folder = sample_col (-3) ''d'' ''D'' root_collection"
definition new_subfolder :: scol where "new_subfolder = sample_col (-4) ''e'' ''E'' new_folder"
definition stored_folder :: scol where "stored_folder = sample_col 9 ''d'' ''D'' root_collection"

definition before_listing :: csync where
  "before_listing = the (cs_run [Deliver [sample_col (-2) ''a'' ''Renamed'' root_collection, new_folder, new_subfolder],
     LocalListed [sample_col 5 ''a'' ''A'' root_collection, sample_col 7 ''c'' ''C'' root_collection]] (csync_new False {} False))"

definition after_listing :: csync where
  "after_listing = the (cs_do (ListingEnds False) before_listing)"

text \<open>A schedule: the first running job succeeds, then the first transaction that is being closed ends, then the event loop runs.\<close>

definition some_event :: "csync \<Rightarrow> cs_event" where
  "some_event s =
     (case cs_running s of
        j # _ \<Rightarrow> JobEnds j (Some (9 + int (length (cs_jobs s))))
      | [] \<Rightarrow> (case cs_closing s of t # _ \<Rightarrow> TransactionEnds t | [] \<Rightarrow> EmitAgain))"

fun schedule :: "nat \<Rightarrow> csync \<Rightarrow> cs_event list" where
  "schedule 0 s = []"
| "schedule (Suc n) s = (if cs_finished s then [] else some_event s # schedule n (the (cs_do (some_event s) s)))"

lemma listing_reached: "reach cs_start plain_cs_step after_listing"
proof -
  let ?es = "[Deliver [sample_col (-2) ''a'' ''Renamed'' root_collection, new_folder, new_subfolder],
     LocalListed [sample_col 5 ''a'' ''A'' root_collection, sample_col 7 ''c'' ''C'' root_collection]]"
  have "cs_run ?es (csync_new False {} False) \<noteq> None" by code_simp
  then have r: "cs_run ?es (csync_new False {} False) = Some before_listing" by (auto simp: before_listing_def)
  have "run plain_cs_step (csync_new False {} False) ?es before_listing" by (rule plain_cs_run [OF r]) code_simp
  moreover have "cs_start (csync_new False {} False)" unfolding cs_start_def by blast
  ultimately have b: "reach cs_start plain_cs_step before_listing" using collection_sync.reach_run reach.start by metis
  have "cs_do (ListingEnds False) before_listing \<noteq> None" by code_simp
  then have d: "cs_do (ListingEnds False) before_listing = Some after_listing" by (auto simp: after_listing_def)
  have "tree_ok before_listing" by (rule tree_okI; code_simp)
  from reach.next_state [OF b plain_cs_step.listing_ends [OF this d]] show ?thesis .
qed

theorem collection_sync_never_stalls_witness:
  "cs_running after_listing \<noteq> [] \<and> sorted (map job_phase (cs_jobs after_listing))"
proof -
  have "cs_running after_listing \<noteq> []" by code_simp
  moreover have "reach (\<lambda>s. \<exists>h keep streaming. s = csync_new h keep streaming)
      (\<lambda>s e t. cs_do e s = Some t \<and> succeeds e \<and> (e = ListingEnds False \<longrightarrow> tree_ok s)) after_listing"
    using listing_reached unfolding plain_cs_step_eq cs_start_def [abs_def] .
  ultimately show ?thesis using collection_sync_never_stalls by blast
qed

interpretation keyed: inductive_invariant cs_start plain_cs_step keys_once
proof
  show "cs_start s \<Longrightarrow> keys_once s" for s by (auto simp: cs_start_def keys_once_def csync_new_def)
  show "plain_cs_step s l t \<Longrightarrow> keys_once s \<Longrightarrow> keys_once t" for s l t by (rule plain_step_once)
qed

lemma listed_step:
  assumes "plain_cs_step s e t" "csync_inv s" "keys_once s" "cs_localListDone s"
  shows "creations t = creations s" "cs_localListDone t"
proof -
  have i: "cs_deliveryDone s" "(FetchCollections, p) \<notin> set (cs_running s)" for p
    using assms(2,4) no_fetch unfolding csync_inv_def by (auto simp: listing_def ending_def in_phase_def active_def)
  have "creations t = creations s \<and> cs_localListDone t"
    using assms(1)
  proof cases
    case (job_ends k j)
    then have "t = col_job_result j (Some k) s" "j \<in> set (cs_running s)" "fst j \<noteq> FetchCollections" by (simp_all split: if_splits)
    moreover from this have "goes_on t"
      using assms(2) phase_job_ends [of _ s j k] job_ends(2) unfolding csync_inv_def by (auto simp: listing_def ending_def split: if_splits)
    ultimately show ?thesis using job_result_creations(1) [OF assms(3)] by (auto simp: goes_on_def in_phase_def active_def ending_def)
  next
    case (transaction_ends n)
    then have "t = end_transaction n s" by (simp split: if_splits)
    moreover have "cs_localListDone (end_transaction n s) = cs_localListDone s"
      by (simp add: end_transaction_def transactionSequenceResult_def q_emitResult_def Let_def)
    ultimately show ?thesis using assms(4) parts_same [OF parts_end_transaction] by simp
  next
    case emit_again
    let ?s = "s\<lparr>cs_queued := cs_queued s - 1\<rparr>"
    have "t = cs_emitResult ?s" using emit_again by (simp split: if_splits)
    moreover have "creations ?s = creations s" by (simp add: creations_def)
    moreover have "cs_localListDone (cs_emitResult ?s) = cs_localListDone s" by (simp add: cs_emitResult_def q_emitResult_def split: list.splits)
    ultimately show ?thesis using assms(4) parts_same [OF parts_emit, of ?s] by simp
  qed (use i in \<open>auto split: if_splits\<close>)
  then show "creations t = creations s" "cs_localListDone t" by simp_all
qed

text \<open>(C16) A collection synchronisation that did something and ends without an error has created every collection that was new: those of the plan and those
  that waited for their parents, each once. (\<open>creations\<close> counts both, at any moment after the listing.)\<close>

theorem collection_sync_creates_all:
  assumes "reach cs_start plain_cs_step s" "cs_localListDone s" "run plain_cs_step s es t"
    and "cs_finished t" "cs_error t = NoColError" "length (cs_jobs t) \<noteq> 1"
  shows "mset (map sc_rid (created_cols (cs_jobs t))) = creations s"
proof -
  have "run plain_cs_step s es t \<Longrightarrow> csync_inv s \<Longrightarrow> keys_once s \<Longrightarrow> cs_localListDone s \<Longrightarrow> creations t = creations s"
    by (induction rule: run.induct) (auto simp: listed_step plain_cs_step_inv plain_step_once)
  then have "creations t = creations s"
    using assms(2,3) collection_sync.reach_inv [OF assms(1)] keyed.reach_inv [OF assms(1)] by blast
  moreover have "csync_inv t" using collection_sync.run_inv [OF assms(3) collection_sync.reach_inv [OF assms(1)]] .
  then have "ending t" using assms(4) by (auto simp: csync_inv_def listing_def in_phase_def active_def)
  then have "cs_toCreate t = []" "cs_remote t = []" using assms(5,6) by (auto simp: ending_def)
  ultimately show ?thesis by (simp add: creations_def)
qed

theorem collection_sync_creates_all_witness:
  "\<exists>t. cs_run (schedule 20 after_listing) after_listing = Some t \<and> cs_finished t \<and> mset (map sc_rid (created_cols (cs_jobs t))) = {#''d'', ''e''#}"
proof -
  have "case cs_run (schedule 20 after_listing) after_listing of None \<Rightarrow> False
      | Some t \<Rightarrow> cs_finished t \<and> cs_error t = NoColError \<and> length (cs_jobs t) \<noteq> 1" by code_simp
  then obtain t where t: "cs_run (schedule 20 after_listing) after_listing = Some t" "cs_finished t" "cs_error t = NoColError" "length (cs_jobs t) \<noteq> 1"
    by (auto split: option.splits)
  have "run plain_cs_step after_listing (schedule 20 after_listing) t" by (rule plain_cs_run [OF t(1)]) code_simp
  moreover have "cs_localListDone after_listing" by code_simp
  moreover have "creations after_listing = {#''d'', ''e''#}"
  proof -
    have "map sc_rid (created_cols (cs_jobs after_listing)) = [''d'']" "cs_toCreate after_listing = []"
      "map sc_rid (concat (map snd (cs_remote after_listing))) = [''e'']" by code_simp+
    then show ?thesis by (simp add: creations_def)
  qed
  ultimately show ?thesis using collection_sync_creates_all [OF listing_reached _ _ t(2-4)] t(1,2) by metis
qed

text \<open>A collection that turns virtual is to be created anew. Unless it is at the top its parent is known by the remote id only, nobody looks the parent
  up, and no job is started: the synchronisation waits for ever.\<close>

lemma recreation_stalls:
  "let p = sample_col 5 ''p'' ''P'' root_collection; p' = sample_col (-2) ''p'' ''P'' root_collection; v = sample_col 6 ''v'' ''V'' p;
       v' = SCol (-3) ''v'' (data_new\<lparr>cd_name := ''V'', cd_virtual := True\<rparr>) (Some p');
       s = the (cs_run [Deliver [p', v'], LocalListed [p, v], ListingEnds False] (csync_new False {} False))
   in cs_toCreate s = [v'] \<and> cs_toRemove s = [v] \<and> cs_running s = [] \<and> cs_closing s = [] \<and> cs_queued s = 0 \<and> \<not> cs_finished s"
  by code_simp

text \<open>A collection whose parent does not exist is an error, but not when there is nothing else to do: then it is dropped without one.\<close>

lemma orphans_unreported:
  "let o' = sample_col (-3) ''o'' ''O'' (sample_col (-2) ''x'' ''X'' root_collection);
       s = the (cs_run [Deliver [o'], LocalListed [], ListingEnds False] (csync_new False {} False))
   in cs_finished s \<and> cs_error s = NoColError \<and> created_cols (cs_jobs s) = []"
  by code_simp

text \<open>A collection that the backend has moved to another parent is created there and removed here, also with global remote ids: local and remote
  collections are only compared below the same parent, so that the branch of \<open>updateLocalCollections\<close> that starts a move is not reached.\<close>

lemma move_is_recreated:
  "let p = sample_col 5 ''p'' ''P'' root_collection; p' = sample_col (-2) ''p'' ''P'' root_collection;
       m = sample_col 6 ''m'' ''M'' p; m' = sample_col (-3) ''m'' ''M'' root_collection;
       s = the (cs_run [Deliver [p', m'], LocalListed [p, m], ListingEnds False] (csync_new False {} False))
   in cs_toRemove s = [m] \<and> cs_jobs s = [FetchCollections, CreateCollection m']"
  by code_simp

end
