(* ===== verification/SearchTaskManager.thy ===== *)
theory SearchTaskManager
  imports Transition Prelude "HOL-Library.Multiset"
begin

text \<open>
  \<open>src/server/search/searchtaskmanager.cpp\<close> with \<open>SearchRequest::exec\<close>: a search is sent to the agents that implement it. Three kinds of
  threads work on it: the connection that searches adds a task and waits for its results; the search loop sends the queries of the
  tasks to agents, one at a time for each, and hands the results on; the connections of the agents deliver them. The loop holds
  \<open>mLock\<close> except while it waits, so deliveries and new tasks come between its rounds; the waiting thread needs only the lock of its
  task and can run between any two steps of a round.
\<close>

section \<open>State\<close>

text \<open>A task lives on the stack of the thread that waits for it: \<open>st_notified\<close> says that \<open>wakeAll\<close> was called while it was asleep.\<close>

datatype waiter = Checking | Sleeping

record search_task =
  st_id :: string
  st_complete :: bool
  st_queries :: "(string \<times> int) list"
  st_pendingResults :: "int set"
  st_waiter :: waiter
  st_notified :: bool

record resource_task =
  rt_collection :: int
  rt_parent :: nat
  rt_results :: "int set"
  rt_timestamp :: int

text \<open>Where the loop is: in \<open>mWait.wait\<close>, or before one of the three parts of a round.\<close>

datatype loop_pc = LoopWaiting | LoopResults | LoopTimeouts | LoopDispatch | LoopStopped

text \<open>Pointers to tasks are numbers; \<open>sm_tasks\<close> are the tasks that exist. Below the members: \<open>sm_woken\<close> is a call of \<open>mWait.wakeAll\<close> that the loop has
  not noticed, \<open>sm_dangling\<close> says that a task was used after its thread had left, and the logs are the queries each task
  started with, what was asked of the agents for it, what they delivered, and what its search has emitted.\<close>

record stm =
  sm_instances :: "string set"
  sm_shouldStop :: bool
  sm_tasklist :: "nat list"
  sm_running :: "(string \<times> resource_task) list"
  sm_pending :: "resource_task list"
  sm_tasks :: "nat \<rightharpoonup> search_task"
  sm_next :: nat
  sm_pc :: loop_pc
  sm_woken :: bool
  sm_dangling :: bool
  sm_wanted :: "nat \<Rightarrow> (string \<times> int) list"
  sm_asked :: "nat \<Rightarrow> (string \<times> int) list"
  sm_delivered :: "nat \<Rightarrow> int set"
  sm_emitted :: "nat \<Rightarrow> int set"
  sm_left :: "nat list"

definition stm_new :: stm where
  "stm_new = \<lparr>sm_instances = {}, sm_shouldStop = False, sm_tasklist = [], sm_running = [], sm_pending = [], sm_tasks = (\<lambda>_. None), sm_next = 0,
     sm_pc = LoopWaiting, sm_woken = False, sm_dangling = False, sm_wanted = (\<lambda>_. []), sm_asked = (\<lambda>_. []), sm_delivered = (\<lambda>_. {}), sm_emitted = (\<lambda>_. {}), sm_left = []\<rparr>"

section \<open>The agents\<close>

definition registerInstance :: "string \<Rightarrow> bool \<Rightarrow> stm \<Rightarrow> stm" where
  "registerInstance i initOk s =
     (if i \<in> sm_instances s then s else if \<not> initOk then s else s\<lparr>sm_instances := insert i (sm_instances s)\<rparr>)"

definition unregisterInstance :: "string \<Rightarrow> stm \<Rightarrow> stm" where
  "unregisterInstance i s = s\<lparr>sm_instances := sm_instances s - {i}\<rparr>"

text \<open>A change of a task, under its lock.\<close>

definition at_task :: "nat \<Rightarrow> (search_task \<Rightarrow> search_task) \<Rightarrow> stm \<Rightarrow> stm" where
  "at_task t f s =
     (case sm_tasks s t of None \<Rightarrow> s\<lparr>sm_dangling := True\<rparr> | Some x \<Rightarrow> s\<lparr>sm_tasks := (sm_tasks s)(t \<mapsto> f x)\<rparr>)"

definition notify_waiter :: "search_task \<Rightarrow> search_task" where
  "notify_waiter x = (if st_waiter x = Sleeping then x\<lparr>st_notified := True\<rparr> else x)"

section \<open>Tasks\<close>

text \<open>\<open>addTask\<close> for the rows (collection, resource) that the query has found; \<open>usable\<close> are the agents that are online and configured. Without rows
  the task is not queued at all. The thread then goes on in \<open>SearchRequest::exec\<close>.\<close>

definition addTask :: "string \<Rightarrow> (int \<times> string) list \<Rightarrow> (string \<Rightarrow> bool) \<Rightarrow> stm \<Rightarrow> stm" where
  "addTask i rows usable s =
     (let qs = map (\<lambda>(c, r). (r, c)) (filter (\<lambda>(c, r). r \<in> sm_instances s \<and> usable r) rows);
          x = \<lparr>st_id = i, st_complete = False, st_queries = qs, st_pendingResults = {}, st_waiter = Checking, st_notified = False\<rparr>;
          s' = s\<lparr>sm_tasks := (sm_tasks s)(sm_next s \<mapsto> x), sm_next := Suc (sm_next s), sm_wanted := (sm_wanted s)(sm_next s := qs)\<rparr>
      in if rows = [] then s' else s'\<lparr>sm_tasklist := sm_tasklist s' @ [sm_next s], sm_woken := True\<rparr>)"

text \<open>\<open>SearchRequest::exec\<close>: the results that are there are emitted; the loop ends when the task is complete, and with it the task.\<close>

definition emit_results :: "nat \<Rightarrow> stm \<Rightarrow> stm" where
  "emit_results t s =
     (case sm_tasks s t of
        None \<Rightarrow> s
      | Some x \<Rightarrow> s\<lparr>sm_emitted := (sm_emitted s)(t := sm_emitted s t \<union> st_pendingResults x),
                    sm_tasks := (sm_tasks s)(t \<mapsto> x\<lparr>st_pendingResults := {}\<rparr>)\<rparr>)"

definition check_complete :: "nat \<Rightarrow> stm \<Rightarrow> stm" where
  "check_complete t s =
     (case sm_tasks s t of
        None \<Rightarrow> s
      | Some x \<Rightarrow>
          if st_complete x then (emit_results t s)\<lparr>sm_tasks := (sm_tasks s)(t := None), sm_left := sm_left s @ [t]\<rparr>
          else s\<lparr>sm_tasks := (sm_tasks s)(t \<mapsto> x\<lparr>st_waiter := Sleeping, st_notified := False\<rparr>)\<rparr>)"

definition waiter_runs :: "nat \<Rightarrow> stm \<Rightarrow> stm" where
  "waiter_runs t s =
     (case sm_tasks s t of
        None \<Rightarrow> s
      | Some x \<Rightarrow> if st_waiter x = Checking then check_complete t s else check_complete t (emit_results t s))"

definition pushResults :: "string \<Rightarrow> string \<Rightarrow> int set \<Rightarrow> stm \<Rightarrow> stm" where
  "pushResults resource searchId ids s =
     (case map_of (sm_running s) resource of
        None \<Rightarrow> s
      | Some r \<Rightarrow>
          let s' = s\<lparr>sm_running := filter (\<lambda>p. fst p \<noteq> resource) (sm_running s)\<rparr>
          in case sm_tasks s (rt_parent r) of
               None \<Rightarrow> s'\<lparr>sm_dangling := True\<rparr>
             | Some x \<Rightarrow>
                 if st_id x \<noteq> searchId then s'
                 else s'\<lparr>sm_pending := sm_pending s @ [r\<lparr>rt_results := ids\<rparr>], sm_woken := True,
                         sm_delivered := (sm_delivered s)(rt_parent r := sm_delivered s (rt_parent r) \<union> ids)\<rparr>)"

section \<open>The loop\<close>

definition allResourceTasksCompleted :: "nat \<Rightarrow> search_task \<Rightarrow> stm \<Rightarrow> bool" where
  "allResourceTasksCompleted t x s \<longleftrightarrow> st_queries x = [] \<and> list_all (\<lambda>p. rt_parent (snd p) \<noteq> t) (sm_running s)"

definition cancelRunningTask :: "string \<Rightarrow> resource_task \<Rightarrow> stm \<Rightarrow> stm" where
  "cancelRunningTask r rt s =
     (let s = s\<lparr>sm_running := filter (\<lambda>p. fst p \<noteq> r) (sm_running s)\<rparr>
      in at_task (rt_parent rt) (\<lambda>x. notify_waiter (x\<lparr>st_complete := allResourceTasksCompleted (rt_parent rt) x s\<rparr>)) s)"

text \<open>One result is handed on.\<close>

definition hand_on :: "stm \<Rightarrow> stm" where
  "hand_on s =
     (case sm_pending s of
        [] \<Rightarrow> s\<lparr>sm_pc := LoopTimeouts\<rparr>
      | rt # rts \<Rightarrow>
          let s = s\<lparr>sm_pending := rts\<rparr>
          in at_task (rt_parent rt) (\<lambda>x. notify_waiter (x\<lparr>st_pendingResults := st_pendingResults x \<union> rt_results rt,
               st_complete := allResourceTasksCompleted (rt_parent rt) x s\<rparr>)) s)"

definition cancel_timed_out :: "int \<Rightarrow> stm \<Rightarrow> stm" where
  "cancel_timed_out now s =
     (fold (\<lambda>(r, rt). if now - rt_timestamp rt > 60 * 1000 then cancelRunningTask r rt else (\<lambda>s. s)) (sm_running s) s)\<lparr>sm_pc := LoopDispatch\<rparr>"

text \<open>The queries of the first task: those whose agent is free are sent. A query whose agent has vanished stays, but counts as running.\<close>

fun dispatch_queries :: "nat \<Rightarrow> int \<Rightarrow> (string \<times> int) list \<Rightarrow> stm \<Rightarrow> (string \<times> int) list \<times> stm" where
  "dispatch_queries t now [] s = ([], s)"
| "dispatch_queries t now ((r, c) # qs) s =
     (if r \<notin> fst ` set (sm_running s) then
        let s = s\<lparr>sm_running := sm_running s @ [(r, \<lparr>rt_collection = c, rt_parent = t, rt_results = {}, rt_timestamp = now\<rparr>)]\<rparr>
        in if r \<notin> sm_instances s then (case dispatch_queries t now qs s of (rest, s) \<Rightarrow> ((r, c) # rest, s))
           else dispatch_queries t now qs (s\<lparr>sm_asked := (sm_asked s)(t := sm_asked s t @ [(r, c)])\<rparr>)
      else (case dispatch_queries t now qs s of (rest, s) \<Rightarrow> ((r, c) # rest, s)))"

definition dispatch_first :: "int \<Rightarrow> stm \<Rightarrow> stm" where
  "dispatch_first now s =
     (case sm_tasklist s of
        [] \<Rightarrow> s\<lparr>sm_pc := LoopWaiting\<rparr>
      | t # ts \<Rightarrow>
          (case sm_tasks s t of
             None \<Rightarrow> s\<lparr>sm_dangling := True\<rparr>
           | Some x \<Rightarrow>
               if st_queries x = [] then
                 (at_task t (\<lambda>x. notify_waiter (x\<lparr>st_complete := True\<rparr>)) s)\<lparr>sm_tasklist := ts, sm_pc := LoopWaiting\<rparr>
               else (case dispatch_queries t now (st_queries x) s of (rest, s) \<Rightarrow>
                 (at_task t (\<lambda>x. x\<lparr>st_queries := rest\<rparr>) s)\<lparr>sm_tasklist := (if rest = [] then ts else t # ts), sm_pc := LoopWaiting\<rparr>)))"

text \<open>The end of the loop: the tasks in the list lose their queries and are woken, the others are cancelled.\<close>

definition stop_loop :: "stm \<Rightarrow> stm" where
  "stop_loop s =
     (let ts = sm_tasklist s;
          s = fold (\<lambda>t. at_task t (\<lambda>x. notify_waiter (x\<lparr>st_queries := []\<rparr>))) ts s;
          s = fold (\<lambda>(r, rt) s. if rt_parent rt \<in> set ts then s\<lparr>sm_running := filter (\<lambda>p. fst p \<noteq> r) (sm_running s)\<rparr>
                                else cancelRunningTask r rt s) (sm_running s) s
      in s\<lparr>sm_pc := LoopStopped\<rparr>)"

section \<open>Events\<close>

datatype sm_event = Register string bool | Unregister string | AddTask string "(int \<times> string) list" "string list" | WaiterRuns nat
  | Push string string "int set" | LoopWakes | HandOn | TimeoutPass int | DispatchPass int | Destroy

text \<open>The threads that need \<open>mLock\<close> run while the loop waits; a waiting thread runs when it has just come or was woken.\<close>

fun sm_do :: "sm_event \<Rightarrow> stm \<Rightarrow> stm option" where
  "sm_do (Register i ok) s = Some (registerInstance i ok s)"
| "sm_do (Unregister i) s = Some (unregisterInstance i s)"
| "sm_do (AddTask i rows us) s = (if sm_pc s = LoopWaiting then Some (addTask i rows (\<lambda>r. r \<in> set us) s) else None)"
| "sm_do (WaiterRuns t) s =
     (case sm_tasks s t of
        None \<Rightarrow> None
      | Some x \<Rightarrow> if st_waiter x = Checking \<or> st_notified x then Some (waiter_runs t s) else None)"
| "sm_do (Push r i ids) s = (if sm_pc s = LoopWaiting then Some (pushResults r i ids s) else None)"
| "sm_do LoopWakes s =
     (if sm_pc s = LoopWaiting \<and> sm_woken s
      then Some (if sm_shouldStop s then stop_loop (s\<lparr>sm_woken := False\<rparr>) else s\<lparr>sm_woken := False, sm_pc := LoopResults\<rparr>) else None)"
| "sm_do HandOn s = (if sm_pc s = LoopResults then Some (hand_on s) else None)"
| "sm_do (TimeoutPass now) s = (if sm_pc s = LoopTimeouts then Some (cancel_timed_out now s) else None)"
| "sm_do (DispatchPass now) s = (if sm_pc s = LoopDispatch then Some (dispatch_first now s) else None)"
| "sm_do Destroy s = (if sm_pc s = LoopWaiting then Some (s\<lparr>sm_shouldStop := True, sm_woken := True\<rparr>) else None)"

fun sm_run :: "sm_event list \<Rightarrow> stm \<Rightarrow> stm option" where
  "sm_run [] s = Some s"
| "sm_run (e # es) s = (case sm_do e s of None \<Rightarrow> None | Some t \<Rightarrow> sm_run es t)"

abbreviation (input) one_round :: "sm_event list" where
  "one_round \<equiv> [LoopWakes, HandOn, TimeoutPass 0, DispatchPass 0]"

section \<open>What goes wrong\<close>

text \<open>Two agents answer before the loop runs. The first result that is handed on completes the task, because nothing is running any more; its thread
  leaves with half of the results, and the second result is handed to a task that is gone.\<close>

lemma two_answers_race:
  "let s = the (sm_run ([Register ''a'' True, Register ''b'' True, AddTask ''q'' [(1, ''a''), (2, ''b'')] [''a'', ''b''], WaiterRuns 0] @ one_round @
          [Push ''a'' ''q'' {10}, Push ''b'' ''q'' {20}, LoopWakes, HandOn, WaiterRuns 0, HandOn]) stm_new)
   in sm_left s = [0] \<and> sm_emitted s 0 = {10} \<and> sm_delivered s 0 = {10, 20} \<and> sm_dangling s"
  by code_simp

text \<open>A late answer to a search that has timed out removes the running query of the next search from the list, and is then dropped for its id. The
  answer to that query finds nothing, and nothing ever wakes the second search.\<close>

lemma late_answer_strands_search:
  "let s = the (sm_run ([Register ''a'' True, AddTask ''q'' [(1, ''a'')] [''a''], WaiterRuns 0] @ one_round @
          [AddTask ''p'' [(1, ''a'')] [''a''], WaiterRuns 1, LoopWakes, HandOn, TimeoutPass 70000, DispatchPass 70000, WaiterRuns 0,
           Push ''a'' ''q'' {10}, Push ''a'' ''p'' {20}]) stm_new)
   in sm_left s = [0] \<and> sm_pc s = LoopWaiting \<and> \<not> sm_woken s \<and> sm_running s = [] \<and> sm_tasklist s = [] \<and> sm_pending s = [] \<and>
      (case sm_tasks s 1 of None \<Rightarrow> False | Some x \<Rightarrow> \<not> st_complete x \<and> st_waiter x = Sleeping \<and> \<not> st_notified x)"
  by code_simp

text \<open>A search in collections that do not exist is not queued, and waits for ever.\<close>

lemma search_nowhere_waits:
  "let s = the (sm_run [AddTask ''q'' [] [], WaiterRuns 0] stm_new)
   in \<not> sm_woken s \<and> sm_tasklist s = [] \<and> sm_running s = [] \<and> (case sm_tasks s 0 of None \<Rightarrow> False | Some x \<Rightarrow> st_waiter x = Sleeping \<and> \<not> st_notified x)"
  by code_simp

text \<open>A round looks at one task only, and a task without agents ends it early: the one behind it is left in the list although its agent is free.\<close>

lemma second_task_left_waiting:
  "let s = the (sm_run ([Register ''a'' True, AddTask ''q'' [(3, ''none'')] [], AddTask ''p'' [(1, ''a'')] [''a''], WaiterRuns 0, WaiterRuns 1] @ one_round)
        stm_new)
   in sm_pc s = LoopWaiting \<and> \<not> sm_woken s \<and> sm_tasklist s = [1] \<and> sm_running s = [] \<and> sm_asked s 1 = []"
  by code_simp

text \<open>An agent that vanishes between the request and the round: its query is kept and counts as running without having been sent.\<close>

lemma vanished_agent_runs:
  "let s = the (sm_run ([Register ''a'' True, AddTask ''q'' [(1, ''a'')] [''a''], WaiterRuns 0, Unregister ''a''] @ one_round) stm_new)
   in sm_tasklist s = [0] \<and> map fst (sm_running s) = [''a''] \<and> sm_asked s 0 = [] \<and> \<not> sm_woken s"
  by code_simp

text \<open>When the manager is destroyed the searches that still have queries are woken but not completed: they go back to sleep.\<close>

lemma destroyed_search_waits:
  "let s = the (sm_run ([Register ''a'' True, AddTask ''q'' [(1, ''a''), (2, ''a'')] [''a''], WaiterRuns 0] @ one_round @
          [Destroy, LoopWakes, WaiterRuns 0]) stm_new)
   in sm_pc s = LoopStopped \<and> (case sm_tasks s 0 of None \<Rightarrow> False | Some x \<Rightarrow> \<not> st_complete x \<and> st_waiter x = Sleeping \<and> \<not> st_notified x)"
  by code_simp


section \<open>The normal course\<close>

text \<open>The searches that agents work on, and those with results to be handed on.\<close>

definition working :: "(string \<times> resource_task) list \<Rightarrow> nat set" where
  "working ps = (\<lambda>p. rt_parent (snd p)) ` set ps"

definition handing :: "resource_task list \<Rightarrow> nat set" where
  "handing qs = rt_parent ` set qs"

text \<open>What the lemmas above show is needed: an agent answers the search it was asked for, and a second agent does not answer the same search before the
  loop has handed on the first answer; the agents stay; a search has a query that can be sent; and the manager is not destroyed.\<close>

definition same_search :: "string \<Rightarrow> string \<Rightarrow> stm \<Rightarrow> bool" where
  "same_search r i s \<longleftrightarrow>
     (case map_of (sm_running s) r of
        None \<Rightarrow> True
      | Some rt \<Rightarrow> map_option st_id (sm_tasks s (rt_parent rt)) = Some i \<and> rt_parent rt \<notin> handing (sm_pending s))"

fun orderly :: "sm_event \<Rightarrow> stm \<Rightarrow> bool" where
  "orderly (Unregister i) s = False"
| "orderly (AddTask i rows us) s = list_ex (\<lambda>(c, r). r \<in> sm_instances s \<and> r \<in> set us) rows"
| "orderly (Push r i ids) s = same_search r i s"
| "orderly Destroy s = False"
| "orderly _ s = True"

inductive sm_step :: "stm \<Rightarrow> sm_event \<Rightarrow> stm \<Rightarrow> bool" where
  sm_stepI: "sm_do e s = Some t \<Longrightarrow> orderly e s \<Longrightarrow> sm_step s e t"

inductive_cases sm_stepE: "sm_step s e t"

lemma sm_step_eq: "(\<lambda>s e t. sm_do e s = Some t \<and> orderly e s) = sm_step"
  by (intro ext) (auto elim: sm_stepE intro: sm_stepI)

definition sm_start :: "stm \<Rightarrow> bool" where
  "sm_start s \<longleftrightarrow> s = stm_new"

text \<open>A task is open while it is in the list, an agent works on it, or a result of it waits to be handed on.\<close>

definition in_flight :: "nat \<Rightarrow> stm \<Rightarrow> bool" where
  "in_flight t s \<longleftrightarrow> t \<in> working (sm_running s) \<or> t \<in> handing (sm_pending s)"

definition st_open :: "nat \<Rightarrow> stm \<Rightarrow> bool" where
  "st_open t s \<longleftrightarrow> t \<in> set (sm_tasklist s) \<or> in_flight t s"

definition waiting_results :: "nat \<Rightarrow> stm \<Rightarrow> int set" where
  "waiting_results t s = \<Union> (rt_results ` {q \<in> set (sm_pending s). rt_parent q = t})"

text \<open>What holds of each task: of those that exist, of the searches that have left, and of those to come.\<close>

definition task_ok :: "nat \<Rightarrow> search_task \<Rightarrow> stm \<Rightarrow> bool" where
  "task_ok t x s \<longleftrightarrow>
     t < sm_next s \<and> t \<notin> set (sm_left s) \<and>
     (st_complete x \<longleftrightarrow> \<not> st_open t s) \<and>
     (st_queries x \<noteq> [] \<longleftrightarrow> t \<in> set (sm_tasklist s)) \<and>
     (st_complete x \<longrightarrow> st_waiter x = Checking \<or> st_notified x) \<and>
     fst ` set (st_queries x) \<subseteq> sm_instances s \<and>
     sm_delivered s t = sm_emitted s t \<union> st_pendingResults x \<union> waiting_results t s \<and>
     mset (sm_wanted s t) = mset (sm_asked s t) + mset (st_queries x)"

definition gone_ok :: "nat \<Rightarrow> stm \<Rightarrow> bool" where
  "gone_ok t s \<longleftrightarrow>
     \<not> st_open t s \<and>
     (if t < sm_next s then t \<in> set (sm_left s) \<longrightarrow> sm_emitted s t = sm_delivered s t \<and> mset (sm_asked s t) = mset (sm_wanted s t)
      else t \<notin> set (sm_left s) \<and> sm_delivered s t = {} \<and> sm_emitted s t = {} \<and> sm_asked s t = [])"

definition slot_ok :: "nat \<Rightarrow> stm \<Rightarrow> bool" where
  "slot_ok t s \<longleftrightarrow> (case sm_tasks s t of None \<Rightarrow> gone_ok t s | Some x \<Rightarrow> task_ok t x s)"

text \<open>What holds of the loop.\<close>

definition loop_ok :: "stm \<Rightarrow> bool" where
  "loop_ok s \<longleftrightarrow>
     \<not> sm_shouldStop s \<and> \<not> sm_dangling s \<and> sm_pc s \<noteq> LoopStopped \<and>
     distinct (sm_tasklist s) \<and> distinct (map fst (sm_running s)) \<and> distinct (map rt_parent (sm_pending s)) \<and>
     (sm_pc s \<in> {LoopTimeouts, LoopDispatch} \<longrightarrow> sm_pending s = []) \<and>
     (sm_pc s = LoopWaiting \<and> \<not> sm_woken s \<longrightarrow> sm_pending s = [] \<and> (sm_tasklist s \<noteq> [] \<longrightarrow> sm_running s \<noteq> []))"

definition running_ok :: "stm \<Rightarrow> bool" where
  "running_ok s \<longleftrightarrow> (\<forall>p \<in> set (sm_running s). (fst p, rt_collection (snd p)) \<in> set (sm_asked s (rt_parent (snd p))))"

definition sm_inv :: "stm \<Rightarrow> bool" where
  "sm_inv s \<longleftrightarrow> loop_ok s \<and> running_ok s \<and> (\<forall>t. slot_ok t s)"

lemma sm_inv_new: "sm_inv stm_new"
  by (simp add: sm_inv_def loop_ok_def running_ok_def slot_ok_def gone_ok_def stm_new_def st_open_def in_flight_def working_def handing_def)

text \<open>A task is as it was when nothing of its own has changed.\<close>

definition same_slot :: "nat \<Rightarrow> stm \<Rightarrow> stm \<Rightarrow> bool" where
  "same_slot t s s' \<longleftrightarrow>
     sm_tasks s' t = sm_tasks s t \<and> (t < sm_next s' \<longleftrightarrow> t < sm_next s) \<and> (t \<in> set (sm_left s') \<longleftrightarrow> t \<in> set (sm_left s)) \<and>
     (t \<in> set (sm_tasklist s') \<longleftrightarrow> t \<in> set (sm_tasklist s)) \<and> (in_flight t s' \<longleftrightarrow> in_flight t s) \<and> waiting_results t s' = waiting_results t s \<and>
     sm_instances s \<subseteq> sm_instances s' \<and> sm_delivered s' t = sm_delivered s t \<and> sm_emitted s' t = sm_emitted s t \<and>
     sm_wanted s' t = sm_wanted s t \<and> sm_asked s' t = sm_asked s t"

lemma slot_frame: "slot_ok t s \<Longrightarrow> same_slot t s s' \<Longrightarrow> slot_ok t s'"
  by (auto simp: slot_ok_def task_ok_def gone_ok_def same_slot_def st_open_def split: option.splits)

lemma working_simps [simp]: "working [] = {}" "working (p # ps) = insert (rt_parent (snd p)) (working ps)" "working (ps @ qs) = working ps \<union> working qs"
  by (auto simp: working_def)

lemma handing_simps [simp]: "handing [] = {}" "handing (q # qs) = insert (rt_parent q) (handing qs)" "handing (ps @ qs) = handing ps \<union> handing qs"
  by (auto simp: handing_def)

lemma working_remove:
  assumes "distinct (map fst ps)" "(r, rt) \<in> set ps" "u \<noteq> rt_parent rt"
  shows "u \<in> working (filter (\<lambda>p. fst p \<noteq> r) ps) \<longleftrightarrow> u \<in> working ps"
proof -
  have "fst p \<noteq> r" if "p \<in> set ps" "rt_parent (snd p) = u" for p
    using that assms(3) eq_key_imp_eq_value[OF assms(1,2)] by (metis prod.collapse)
  then show ?thesis unfolding working_def image_iff set_filter by blast
qed

lemma working_mem: "(r, rt) \<in> set ps \<Longrightarrow> rt_parent rt \<in> working ps"
  unfolding working_def by force

lemma waiting_none: "t \<notin> handing (sm_pending s) \<Longrightarrow> waiting_results t s = {}"
  unfolding waiting_results_def handing_def by force

lemma all_completed: "allResourceTasksCompleted t x s \<longleftrightarrow> st_queries x = [] \<and> t \<notin> working (sm_running s)"
  by (auto simp: allResourceTasksCompleted_def working_def list_all_iff)

lemmas slot_unfold = same_slot_def in_flight_def waiting_results_def

lemma register_inv:
  assumes "sm_inv s"
  shows "sm_inv (registerInstance i ok s)"
proof -
  have "same_slot t s (registerInstance i ok s)" for t by (auto simp: registerInstance_def slot_unfold)
  with assms show ?thesis by (auto simp: sm_inv_def registerInstance_def loop_ok_def running_ok_def intro: slot_frame)
qed

lemma wake_inv:
  assumes "sm_inv s"
  shows "sm_inv (s\<lparr>sm_woken := False, sm_pc := LoopResults\<rparr>)" (is "sm_inv ?s")
proof -
  have "same_slot t s ?s" for t by (auto simp: slot_unfold)
  with assms show ?thesis by (simp add: sm_inv_def loop_ok_def running_ok_def) (metis slot_frame)
qed

lemma add_inv:
  assumes inv: "sm_inv s" and usable: "list_ex (\<lambda>(c, r). r \<in> sm_instances s \<and> r \<in> set us) rows"
  shows "sm_inv (addTask i rows (\<lambda>r. r \<in> set us) s)" (is "sm_inv ?s")
proof -
  define qs where "qs = map (\<lambda>(c, r). (r, c)) (filter (\<lambda>(c, r). r \<in> sm_instances s \<and> r \<in> set us) rows)"
  have rows: "rows \<noteq> []" using usable by auto
  have qs: "qs \<noteq> []" using usable by (auto simp: qs_def list_ex_iff filter_empty_conv)
  have inst: "fst ` set qs \<subseteq> sm_instances s" by (auto simp: qs_def)
  have gone: "gone_ok (sm_next s) s"
    using inv by (auto simp: sm_inv_def slot_ok_def task_ok_def dest!: spec[of _ "sm_next s"] split: option.splits)
  have wr: "waiting_results (sm_next s) s = {}" using gone by (intro waiting_none) (simp add: gone_ok_def st_open_def in_flight_def)
  have s': "?s = s\<lparr>sm_tasks := (sm_tasks s)(sm_next s \<mapsto> \<lparr>st_id = i, st_complete = False, st_queries = qs, st_pendingResults = {},
      st_waiter = Checking, st_notified = False\<rparr>), sm_next := Suc (sm_next s), sm_wanted := (sm_wanted s)(sm_next s := qs),
      sm_tasklist := sm_tasklist s @ [sm_next s], sm_woken := True\<rparr>"
    using rows by (simp add: addTask_def Let_def qs_def)
  have wr': "waiting_results (sm_next s) ?s = {}" using wr unfolding s' by (simp add: waiting_results_def)
  have "slot_ok (sm_next s) ?s"
    using gone wr' qs inst unfolding s' by (auto simp: slot_ok_def task_ok_def gone_ok_def st_open_def)
  moreover have "same_slot t s ?s" if "t \<noteq> sm_next s" for t using that unfolding s' by (auto simp: slot_unfold)
  moreover have "loop_ok ?s" "running_ok ?s"
    using inv gone unfolding s' by (auto simp: sm_inv_def loop_ok_def running_ok_def gone_ok_def st_open_def)
  ultimately show ?thesis using inv unfolding sm_inv_def by (metis slot_frame)
qed

lemma emission_inv:
  assumes inv: "sm_inv s"
  shows "sm_inv (emit_results t s)"
proof (cases "sm_tasks s t")
  case None
  with inv show ?thesis by (simp add: emit_results_def)
next
  case (Some x)
  have "task_ok t x s" using inv Some by (auto simp: sm_inv_def slot_ok_def dest!: spec[of _ t])
  then have "slot_ok t (emit_results t s)"
    using Some by (auto simp: emit_results_def slot_ok_def task_ok_def st_open_def in_flight_def waiting_results_def)
  moreover have "same_slot u s (emit_results t s)" if "u \<noteq> t" for u using that Some by (auto simp: emit_results_def slot_unfold)
  moreover have "loop_ok (emit_results t s)" "running_ok (emit_results t s)"
    using inv Some by (auto simp: sm_inv_def loop_ok_def running_ok_def emit_results_def)
  ultimately show ?thesis using inv unfolding sm_inv_def by (metis slot_frame)
qed

lemma check_inv:
  assumes inv: "sm_inv s"
  shows "sm_inv (check_complete t s)"
proof (cases "sm_tasks s t")
  case None
  with inv show ?thesis by (simp add: check_complete_def)
next
  case (Some x)
  have x: "task_ok t x s" using inv Some by (auto simp: sm_inv_def slot_ok_def dest!: spec[of _ t])
  have "waiting_results t s = {}" if "st_complete x"
    using x that by (intro waiting_none) (simp add: task_ok_def st_open_def in_flight_def)
  moreover have "waiting_results t (check_complete t s) = waiting_results t s"
    using Some by (simp add: check_complete_def emit_results_def waiting_results_def)
  ultimately have "slot_ok t (check_complete t s)"
    using Some x by (auto simp: check_complete_def emit_results_def slot_ok_def task_ok_def gone_ok_def st_open_def in_flight_def)
  moreover have "same_slot u s (check_complete t s)" if "u \<noteq> t" for u
    using that Some by (auto simp: check_complete_def emit_results_def slot_unfold)
  moreover have "loop_ok (check_complete t s)" "running_ok (check_complete t s)"
    using inv Some by (auto simp: sm_inv_def loop_ok_def running_ok_def check_complete_def emit_results_def)
  ultimately show ?thesis using inv unfolding sm_inv_def by (metis slot_frame)
qed

lemma waiter_inv: "sm_inv s \<Longrightarrow> sm_inv (waiter_runs t s)"
  by (auto simp: waiter_runs_def intro: check_inv emission_inv split: option.splits)

lemma open_task:
  assumes "sm_inv s" "st_open t s"
  obtains x where "sm_tasks s t = Some x" "task_ok t x s" "\<not> st_complete x"
  using assms by (auto simp: sm_inv_def slot_ok_def gone_ok_def task_ok_def dest!: spec[of _ t] split: option.splits)

lemma push_inv:
  assumes inv: "sm_inv s" and same: "same_search r i s" and pc: "sm_pc s = LoopWaiting"
  shows "sm_inv (pushResults r i ids s)" (is "sm_inv ?s")
proof (cases "map_of (sm_running s) r")
  case None
  with inv show ?thesis by (simp add: pushResults_def)
next
  case (Some rt)
  let ?t = "rt_parent rt"
  have mem: "(r, rt) \<in> set (sm_running s)" using Some by (rule map_of_SomeD)
  then have fl: "in_flight ?t s" by (simp add: in_flight_def working_mem)
  with inv obtain x where x: "sm_tasks s ?t = Some x" "task_ok ?t x s" "\<not> st_complete x" by (auto simp: st_open_def elim: open_task)
  have i: "st_id x = i" "?t \<notin> handing (sm_pending s)" using same Some x(1) by (auto simp: same_search_def)
  have d: "distinct (map fst (sm_running s))" using inv by (simp add: sm_inv_def loop_ok_def)
  have s': "?s = s\<lparr>sm_running := filter (\<lambda>p. fst p \<noteq> r) (sm_running s), sm_pending := sm_pending s @ [rt\<lparr>rt_results := ids\<rparr>], sm_woken := True,
      sm_delivered := (sm_delivered s)(?t := sm_delivered s ?t \<union> ids)\<rparr>"
    using Some x(1) i by (simp add: pushResults_def Let_def)
  have "waiting_results ?t ?s = waiting_results ?t s \<union> ids" unfolding s' by (auto simp: waiting_results_def)
  moreover have "in_flight ?t ?s" unfolding s' by (simp add: in_flight_def)
  ultimately have "slot_ok ?t ?s" using x fl unfolding s' by (auto simp: slot_ok_def task_ok_def st_open_def)
  moreover have "same_slot u s ?s" if "u \<noteq> ?t" for u
    using that working_remove[OF d mem that] unfolding s' by (simp add: same_slot_def in_flight_def) (auto simp: waiting_results_def)
  moreover have "loop_ok ?s" "running_ok ?s"
    using inv pc d i(2) unfolding s' by (auto simp: sm_inv_def loop_ok_def running_ok_def distinct_map_filter handing_def)
  ultimately show ?thesis using inv unfolding sm_inv_def by (metis slot_frame)
qed

text \<open>A result is handed on, or a running query cancelled: the task it belonged to is told whether it was the last one.\<close>

lemma hand_on_inv:
  assumes inv: "sm_inv s" and pc: "sm_pc s = LoopResults"
  shows "sm_inv (hand_on s)" (is "sm_inv ?s")
proof (cases "sm_pending s")
  case Nil
  have "same_slot u s ?s" for u by (simp add: hand_on_def Nil slot_unfold)
  moreover have "loop_ok ?s" "running_ok ?s" using inv Nil by (auto simp: sm_inv_def loop_ok_def running_ok_def hand_on_def)
  ultimately show ?thesis using inv unfolding sm_inv_def by (metis slot_frame)
next
  case (Cons rt rts)
  let ?t = "rt_parent rt"
  have "in_flight ?t s" using Cons by (simp add: in_flight_def)
  with inv obtain x where x: "sm_tasks s ?t = Some x" "task_ok ?t x s" "\<not> st_complete x" by (auto simp: st_open_def elim: open_task)
  have d: "?t \<notin> handing rts" using inv Cons by (simp add: sm_inv_def loop_ok_def handing_def)
  define c where "c = (st_queries x = [] \<and> ?t \<notin> working (sm_running s))"
  have s': "?s = s\<lparr>sm_pending := rts,
      sm_tasks := (sm_tasks s)(?t \<mapsto> notify_waiter (x\<lparr>st_pendingResults := st_pendingResults x \<union> rt_results rt, st_complete := c\<rparr>))\<rparr>"
    using Cons x(1) by (simp add: hand_on_def at_task_def Let_def all_completed c_def)
  have w: "waiting_results ?t s = rt_results rt" "waiting_results ?t ?s = {}"
    using d waiting_none[of ?t ?s] waiting_none[of ?t "s\<lparr>sm_pending := rts\<rparr>"] unfolding s' by (auto simp: waiting_results_def Cons)
  have o: "st_open ?t ?s \<longleftrightarrow> \<not> c" using d x(2) unfolding s' by (simp add: st_open_def in_flight_def task_ok_def c_def)
  have "slot_ok ?t ?s"
    using x w o unfolding s' by (cases "st_waiter x") (auto simp: slot_ok_def task_ok_def notify_waiter_def)
  moreover have "same_slot u s ?s" if "u \<noteq> ?t" for u using that unfolding s' by (auto simp: slot_unfold Cons)
  moreover have "loop_ok ?s" "running_ok ?s" using inv pc Cons unfolding s' by (auto simp: sm_inv_def loop_ok_def running_ok_def)
  ultimately show ?thesis using inv unfolding sm_inv_def by (metis slot_frame)
qed

lemma cancel_inv:
  assumes inv: "sm_inv s" and pc: "sm_pc s = LoopTimeouts" and mem: "(r, rt) \<in> set (sm_running s)"
  shows "sm_inv (cancelRunningTask r rt s)" (is "sm_inv ?s")
proof -
  let ?t = "rt_parent rt" and ?r = "filter (\<lambda>p. fst p \<noteq> r) (sm_running s)"
  have "in_flight ?t s" using mem by (simp add: in_flight_def working_mem)
  with inv obtain x where x: "sm_tasks s ?t = Some x" "task_ok ?t x s" "\<not> st_complete x" by (auto simp: st_open_def elim: open_task)
  have none: "sm_pending s = []" and d: "distinct (map fst (sm_running s))" using inv pc by (simp_all add: sm_inv_def loop_ok_def)
  define c where "c = (st_queries x = [] \<and> ?t \<notin> working ?r)"
  have s': "?s = s\<lparr>sm_running := ?r, sm_tasks := (sm_tasks s)(?t \<mapsto> notify_waiter (x\<lparr>st_complete := c\<rparr>))\<rparr>"
    using x(1) by (simp add: cancelRunningTask_def at_task_def Let_def all_completed c_def)
  have o: "st_open ?t ?s \<longleftrightarrow> \<not> c" using x(2) none unfolding s' by (simp add: st_open_def in_flight_def task_ok_def c_def)
  have w: "waiting_results ?t ?s = waiting_results ?t s" unfolding s' by (simp add: waiting_results_def)
  have "slot_ok ?t ?s"
    using x w o unfolding s' by (cases "st_waiter x") (auto simp: slot_ok_def task_ok_def notify_waiter_def)
  moreover have "same_slot u s ?s" if "u \<noteq> ?t" for u
    using that working_remove[OF d mem that] unfolding s' by (simp add: same_slot_def in_flight_def waiting_results_def)
  moreover have "loop_ok ?s" "running_ok ?s" using inv pc d unfolding s' by (auto simp: sm_inv_def loop_ok_def running_ok_def distinct_map_filter)
  ultimately show ?thesis using inv unfolding sm_inv_def by (metis slot_frame)
qed

lemma cancel_running: "sm_running (cancelRunningTask r rt s) = filter (\<lambda>p. fst p \<noteq> r) (sm_running s) \<and> sm_pc (cancelRunningTask r rt s) = sm_pc s"
  by (simp add: cancelRunningTask_def at_task_def Let_def split: option.splits)

lemma timeout_inv:
  assumes inv: "sm_inv s" and pc: "sm_pc s = LoopTimeouts"
  shows "sm_inv (cancel_timed_out now s)"
proof -
  let ?f = "\<lambda>(r, rt). if now - rt_timestamp rt > 60 * 1000 then cancelRunningTask r rt else (\<lambda>s. s)"
  have "sm_inv (fold ?f ps s) \<and> sm_pc (fold ?f ps s) = LoopTimeouts"
    if "sm_inv s" "sm_pc s = LoopTimeouts" "set ps \<subseteq> set (sm_running s)" "distinct (map fst ps)" for ps s
    using that
  proof (induction ps arbitrary: s)
    case (Cons p ps)
    obtain r rt where p: "p = (r, rt)" by (cases p)
    have "r \<notin> fst ` set ps" using Cons.prems(4) p by simp
    then have sub: "set ps \<subseteq> {q \<in> set (sm_running s). fst q \<noteq> r}" using Cons.prems(3) by force
    have "sm_inv (cancelRunningTask r rt s)" using Cons.prems p by (intro cancel_inv) auto
    then show ?case using Cons sub p cancel_running[of r rt s] by simp
  qed simp
  moreover have "distinct (map fst (sm_running s))" using inv by (simp add: sm_inv_def loop_ok_def)
  ultimately have *: "sm_inv (fold ?f (sm_running s) s)" "sm_pc (fold ?f (sm_running s) s) = LoopTimeouts" using inv pc by simp_all
  have "same_slot t s' (s'\<lparr>sm_pc := LoopDispatch\<rparr>)" for t s' by (simp add: slot_unfold)
  then show ?thesis using * unfolding cancel_timed_out_def
    by (auto simp: sm_inv_def loop_ok_def running_ok_def intro: slot_frame)
qed

text \<open>The queries that are sent and those that are kept make up the queries there were; the agents that get one were free.\<close>

lemma dispatch_queries_result:
  assumes "dispatch_queries t now qs s = (rest, s')" "fst ` set qs \<subseteq> sm_instances s" "distinct (map fst (sm_running s))"
  shows "\<exists>sent new. s' = s\<lparr>sm_running := sm_running s @ new, sm_asked := (sm_asked s)(t := sm_asked s t @ sent)\<rparr> \<and>
      mset sent + mset rest = mset qs \<and> distinct (map fst (sm_running s @ new)) \<and>
      list_all (\<lambda>p. rt_parent (snd p) = t \<and> (fst p, rt_collection (snd p)) \<in> set sent) new \<and> (sent \<noteq> [] \<longrightarrow> new \<noteq> []) \<and>
      (qs \<noteq> [] \<longrightarrow> sm_running s @ new \<noteq> [])"
  using assms
proof (induction qs arbitrary: s rest)
  case Nil
  show ?case by (rule exI[of _ "[]"], rule exI[of _ "[]"]) (use Nil in auto)
next
  case (Cons q qs)
  obtain r c where q: "q = (r, c)" by (cases q)
  have qs: "fst ` set qs \<subseteq> sm_instances s" "r \<in> sm_instances s" using Cons.prems(2) q by auto
  show ?case
  proof (cases "r \<in> fst ` set (sm_running s)")
    case True
    then obtain rest' where r': "dispatch_queries t now qs s = (rest', s')" "rest = (r, c) # rest'"
      using Cons.prems(1) q by (auto split: prod.splits)
    obtain sent new where "s' = s\<lparr>sm_running := sm_running s @ new, sm_asked := (sm_asked s)(t := sm_asked s t @ sent)\<rparr>"
      "mset sent + mset rest' = mset qs" "distinct (map fst (sm_running s @ new))"
      "list_all (\<lambda>p. rt_parent (snd p) = t \<and> (fst p, rt_collection (snd p)) \<in> set sent) new" "sent \<noteq> [] \<longrightarrow> new \<noteq> []"
      using Cons.IH[OF r'(1) qs(1) Cons.prems(3)] by (elim exE conjE) (rule that)
    moreover from True have "sm_running s \<noteq> []" by auto
    ultimately show ?thesis unfolding q r'(2) by (intro exI[of _ sent] exI[of _ new]) (simp add: fun_upd_def)
  next
    case False
    let ?p = "(r, \<lparr>rt_collection = c, rt_parent = t, rt_results = {}, rt_timestamp = now\<rparr>)"
    let ?s = "s\<lparr>sm_running := sm_running s @ [?p], sm_asked := (sm_asked s)(t := sm_asked s t @ [(r, c)])\<rparr>"
    have run: "dispatch_queries t now qs ?s = (rest, s')" using Cons.prems False q qs by simp
    have pre: "fst ` set qs \<subseteq> sm_instances ?s" "distinct (map fst (sm_running ?s))" using qs Cons.prems(3) False by auto
    obtain sent new where
      "s' = ?s\<lparr>sm_running := sm_running ?s @ new, sm_asked := (sm_asked ?s)(t := sm_asked ?s t @ sent)\<rparr>"
      "mset sent + mset rest = mset qs" "distinct (map fst (sm_running ?s @ new))"
      "list_all (\<lambda>p. rt_parent (snd p) = t \<and> (fst p, rt_collection (snd p)) \<in> set sent) new"
      using Cons.IH[OF run pre] by (elim exE conjE) (rule that)
    then show ?thesis unfolding q
      by (intro exI[of _ "(r, c) # sent"] exI[of _ "?p # new"]) (auto simp: list_all_iff, simp add: fun_upd_def)
  qed
qed

lemma dispatch_inv:
  assumes inv: "sm_inv s" and pc: "sm_pc s = LoopDispatch"
  shows "sm_inv (dispatch_first now s)" (is "sm_inv ?s")
proof (cases "sm_tasklist s")
  case Nil
  have "same_slot u s ?s" for u by (simp add: dispatch_first_def Nil slot_unfold)
  moreover have "loop_ok ?s" "running_ok ?s" using inv pc Nil by (auto simp: sm_inv_def loop_ok_def running_ok_def dispatch_first_def)
  ultimately show ?thesis using inv unfolding sm_inv_def by (metis slot_frame)
next
  case (Cons t ts)
  then have "st_open t s" by (simp add: st_open_def)
  with inv obtain x where x: "sm_tasks s t = Some x" "task_ok t x s" "\<not> st_complete x" by (auto elim: open_task)
  have q: "st_queries x \<noteq> []" "fst ` set (st_queries x) \<subseteq> sm_instances s" using x(2) Cons by (simp_all add: task_ok_def)
  have d: "distinct (map fst (sm_running s))" "t \<notin> set ts" "sm_pending s = []" using inv pc Cons by (simp_all add: sm_inv_def loop_ok_def)
  obtain rest s1 where r: "dispatch_queries t now (st_queries x) s = (rest, s1)" by fastforce
  from dispatch_queries_result[OF r q(2) d(1)] obtain sent new where s1: "s1 = s\<lparr>sm_running := sm_running s @ new, sm_asked := (sm_asked s)(t := sm_asked s t @ sent)\<rparr>"
    and m: "mset sent + mset rest = mset (st_queries x)" and dn: "distinct (map fst (sm_running s @ new))"
    and new: "list_all (\<lambda>p. rt_parent (snd p) = t \<and> (fst p, rt_collection (snd p)) \<in> set sent) new" "sent \<noteq> [] \<longrightarrow> new \<noteq> []" "sm_running s @ new \<noteq> []"
    using q(1) by (elim exE conjE) (rule that, simp_all)
  have s': "?s = s1\<lparr>sm_tasks := (sm_tasks s)(t \<mapsto> x\<lparr>st_queries := rest\<rparr>), sm_tasklist := (if rest = [] then ts else t # ts), sm_pc := LoopWaiting\<rparr>"
    using Cons x(1) q(1) r by (simp add: dispatch_first_def at_task_def s1)
  have "new \<noteq> []" if "rest = []" using that m q(1) new(2) by (cases "st_queries x") auto
  then have w: "t \<in> working new" if "rest = []" using that new(1) by (cases new) auto
  have nt: "working new \<subseteq> {t}" using new(1) by (auto simp: working_def list_all_iff)
  have sub: "fst ` set rest \<subseteq> sm_instances s" using q(2) arg_cong[OF m, of set_mset] by auto
  have "slot_ok t ?s"
    using x m w sub d unfolding s' s1
    by (auto simp: slot_ok_def task_ok_def st_open_def in_flight_def waiting_results_def ac_simps)
  moreover have "same_slot u s ?s" if "u \<noteq> t" for u
    using that nt Cons unfolding s' s1 by (auto simp: slot_unfold)
  moreover have "loop_ok ?s" using inv pc d dn new(3) Cons unfolding s' s1 by (auto simp: sm_inv_def loop_ok_def)
  moreover have "running_ok ?s" using inv new(1) unfolding s' s1 by (auto simp: sm_inv_def running_ok_def list_all_iff)
  ultimately show ?thesis using inv unfolding sm_inv_def by (metis slot_frame)
qed

lemma sm_step_inv: "sm_step s e s' \<Longrightarrow> sm_inv s \<Longrightarrow> sm_inv s'"
proof (elim sm_stepE)
  assume e: "sm_do e s = Some s'" "orderly e s" and inv: "sm_inv s"
  have "\<not> sm_shouldStop s" using inv by (simp add: sm_inv_def loop_ok_def)
  with e inv show "sm_inv s'"
    by (cases e) (auto split: if_splits option.splits intro: register_inv add_inv waiter_inv push_inv wake_inv hand_on_inv timeout_inv dispatch_inv)
qed

interpretation searches: inductive_invariant sm_start sm_step sm_inv
  by unfold_locales (auto simp: sm_start_def sm_inv_new intro: sm_step_inv)

text \<open>Runs from the start, to put the properties to use.\<close>

fun sm_orderly :: "sm_event list \<Rightarrow> stm \<Rightarrow> bool" where
  "sm_orderly [] s = True"
| "sm_orderly (e # es) s = (orderly e s \<and> (case sm_do e s of None \<Rightarrow> False | Some t \<Rightarrow> sm_orderly es t))"

lemma orderly_run_reaches:
  "reach sm_start sm_step s \<Longrightarrow> sm_orderly es s \<Longrightarrow> \<exists>t. sm_run es s = Some t \<and> reach sm_start sm_step t"
  by (induction es arbitrary: s) (auto split: option.splits intro: sm_stepI reach.next_state)

lemma orderly_run_from_start:
  "sm_orderly es stm_new \<Longrightarrow> reach (\<lambda>s. s = stm_new) (\<lambda>s e t. sm_do e s = Some t \<and> orderly e s) (the (sm_run es stm_new))"
  unfolding sm_step_eq sm_start_def[abs_def, symmetric] using orderly_run_reaches[OF reach.start] by (force simp: sm_start_def)

section \<open>Properties\<close>

text \<open>(C22) No task is used after its thread has left, and a search leaves only when each of its queries has been sent exactly once and
  everything that the agents delivered for it has been emitted. This is for the runs that are \<open>orderly\<close>: no agent is unregistered and the manager is not
  destroyed, each search has a query for an agent that can be asked, and an agent that has a query answers the search it was asked for, not before the loop
  has handed on the last answer to that search. The lemmas \<open>two_answers_race\<close>, \<open>late_answer_strands_search\<close>, \<open>search_nowhere_waits\<close>,
  \<open>second_task_left_waiting\<close> and \<open>vanished_agent_runs\<close> show what happens otherwise.\<close>

theorem searches_lose_nothing:
  assumes "reach (\<lambda>s. s = stm_new) (\<lambda>s e t. sm_do e s = Some t \<and> orderly e s) s"
  shows "\<not> sm_dangling s \<and>
    (\<forall>t \<in> set (sm_left s). sm_emitted s t = sm_delivered s t \<and> mset (sm_asked s t) = mset (sm_wanted s t))"
proof -
  have inv: "sm_inv s" using searches.reach_inv assms unfolding sm_step_eq sm_start_def[abs_def] by blast
  have "sm_emitted s t = sm_delivered s t \<and> mset (sm_asked s t) = mset (sm_wanted s t)" if "t \<in> set (sm_left s)" for t
  proof -
    have "slot_ok t s" using inv by (simp add: sm_inv_def)
    with that show ?thesis by (auto simp: slot_ok_def gone_ok_def task_ok_def split: option.splits if_splits)
  qed
  with inv show ?thesis by (auto simp: sm_inv_def loop_ok_def)
qed

text \<open>(C23) In the runs that are \<open>orderly\<close> in the same sense a search whose thread sleeps while the loop sleeps too is waiting for agents: one of its queries has been sent to an agent that
  has not answered, or its queries wait for an agent that works on another search. A search that is complete leaves as soon as its thread runs, and it can.\<close>

theorem search_waits_for_agents:
  assumes "reach (\<lambda>s. s = stm_new) (\<lambda>s e t. sm_do e s = Some t \<and> orderly e s) s" and "sm_tasks s t = Some x"
  shows "(sm_pc s = LoopWaiting \<and> \<not> sm_woken s \<and> \<not> st_complete x \<longrightarrow>
      (\<exists>p \<in> set (sm_running s). (fst p, rt_collection (snd p)) \<in> set (sm_asked s (rt_parent (snd p))) \<and>
         (rt_parent (snd p) = t \<or> t \<in> set (sm_tasklist s)))) \<and>
    (st_complete x \<longrightarrow> (\<exists>s'. sm_do (WaiterRuns t) s = Some s' \<and> t \<in> set (sm_left s')))"
proof -
  have inv: "sm_inv s" using searches.reach_inv assms(1) unfolding sm_step_eq sm_start_def[abs_def] by blast
  then have x: "task_ok t x s" using assms(2) by (auto simp: sm_inv_def slot_ok_def dest!: spec[of _ t])
  have run: "\<forall>p \<in> set (sm_running s). (fst p, rt_collection (snd p)) \<in> set (sm_asked s (rt_parent (snd p)))"
    using inv by (simp add: sm_inv_def running_ok_def)
  have "\<exists>p \<in> set (sm_running s). rt_parent (snd p) = t \<or> t \<in> set (sm_tasklist s)"
    if "sm_pc s = LoopWaiting" "\<not> sm_woken s" "\<not> st_complete x"
  proof -
    have "sm_pending s = []" "sm_tasklist s \<noteq> [] \<longrightarrow> sm_running s \<noteq> []" using that inv by (auto simp: sm_inv_def loop_ok_def)
    moreover have "st_open t s" using x that(3) by (simp add: task_ok_def)
    ultimately show ?thesis by (cases "sm_running s") (auto simp: st_open_def in_flight_def working_def)
  qed
  moreover have "\<exists>s'. sm_do (WaiterRuns t) s = Some s' \<and> t \<in> set (sm_left s')" if "st_complete x"
    using x that assms(2) by (auto simp: task_ok_def waiter_runs_def check_complete_def emit_results_def)
  ultimately show ?thesis using run by blast
qed

text \<open>A search with three queries at two agents, up to the first round and to its end.\<close>

definition search_sent :: "sm_event list" where
  "search_sent = [Register ''a'' True, Register ''b'' True, AddTask ''q'' [(1, ''a''), (2, ''b''), (3, ''a'')] [''a'', ''b''], WaiterRuns 0] @ one_round"

definition search_answered :: "sm_event list" where
  "search_answered = concat (map (\<lambda>(r, i). [Push r ''q'' {i}, LoopWakes, HandOn, HandOn, TimeoutPass 0, DispatchPass 0, WaiterRuns 0])
     [(''a'', 10), (''b'', 20), (''a'', 30)])"

lemma searches_lose_nothing_witness:
  "let s = the (sm_run (search_sent @ search_answered) stm_new)
   in sm_left s = [0] \<and> sm_emitted s 0 = {10, 20, 30} \<and> sm_emitted s 0 = sm_delivered s 0 \<and> mset (sm_asked s 0) = mset (sm_wanted s 0)"
proof -
  have o: "sm_orderly (search_sent @ search_answered) stm_new" by code_simp
  have "sm_left (the (sm_run (search_sent @ search_answered) stm_new)) = [0]" "sm_emitted (the (sm_run (search_sent @ search_answered) stm_new)) 0 = {10, 20, 30}"
    by code_simp+
  with searches_lose_nothing[OF orderly_run_from_start[OF o]] show ?thesis by (simp add: Let_def)
qed

lemma search_waits_for_agents_witness:
  "\<exists>p \<in> set (sm_running (the (sm_run search_sent stm_new))). rt_parent (snd p) = 0 \<or> 0 \<in> set (sm_tasklist (the (sm_run search_sent stm_new)))"
proof -
  have o: "sm_orderly search_sent stm_new" by code_simp
  have s: "sm_pc (the (sm_run search_sent stm_new)) = LoopWaiting" "\<not> sm_woken (the (sm_run search_sent stm_new))" by code_simp+
  have x: "sm_tasks (the (sm_run search_sent stm_new)) 0 =
      Some \<lparr>st_id = ''q'', st_complete = False, st_queries = [(''a'', 3)], st_pendingResults = {}, st_waiter = Sleeping, st_notified = False\<rparr>"
    by code_simp
  from search_waits_for_agents[OF orderly_run_from_start[OF o] x] s show ?thesis by auto
qed

end
