(* ===== verification/StorageJanitor.thy ===== *)
theory StorageJanitor
  imports ExternalPartStorage
begin

text \<open>
  \<open>src/server/storagejanitor.cpp\<close>: the consistency checks that \<open>akonadictl fsck\<close> runs one after the other. Unlike the handlers they cannot rely on the
  foreign keys of the schema, so the tables are lists of rows with ids; the part files are those of \<open>ExternalPartStorage\<close>. Each query, each
  commit and each operation on a file can fail: the outcomes are an argument. What the janitor tells its user is a list of reports.
\<close>

section \<open>Tables\<close>

datatype part_place = PInternal | PExternal | PForeign

record jpart =
  jp_id :: int
  jp_item :: int
  jp_type :: int
  jp_data :: "string option"
  jp_datasize :: int
  jp_storage :: part_place

record jitem =
  ji_id :: int
  ji_remoteId :: "string option"
  ji_collection :: int
  ji_mimeType :: int
  ji_dirty :: bool

record jcol =
  jc_id :: int
  jc_parent :: int
  jc_resource :: int
  jc_name :: string
  jc_remoteId :: "string option"
  jc_isVirtual :: bool

datatype report = OrphanCollections nat | NoValidParent int | OtherResource int | MovedOrphans int | OrphanParts nat | DeletedFlags nat
  | RemovedDuplicates nat | Overlapping string | MissingFile int | MovedFile string | ToFile int | ToDatabase int | NoRid int | ItemNoRid int
  | DirtyItem int | DuplicateRid int string | Migrated int | Reindex int | RemoveResource string | Failed

text \<open>The statements and system calls that can fail. A select that fails is reported, and the task skipped.\<close>

datatype statement = SelectOrphanCollections | BeginLostFound | SelectLostRoot | InsertResource string | InsertCollection string | CommitLostFound
  | BeginOrphans | MoveOrphans | CommitOrphans | BeginNames string
  | SelectOrphanParts | SelectOrphanFlags | DeleteFlags | SelectNames | Relink string | RemoveNames string | CommitNames string | SelectOverlaps
  | SelectExternal | UpdatePart int | RenameLost string | SelectLarge | BeginLarge int | BeginSmall int | OpenPart int | WritePart int | FlushPart int | CommitPart int | SelectSmall
  | ReadPart int | SelectRidCols | SelectRidItems | SelectDirty | SelectVictims int string | DeleteVictims int string | RemoveFile string
  | SelectLevelled | RenamePart string | SelectColumns | SelectItems int

text \<open>The state: the data directory, the files in it, the directory for lost files, the tables with the next values of their ids, and the janitor's
  own member. A parent of 0 is \<open>NULL\<close>.\<close>

record janitor =
  j_base :: string
  j_disk :: storage
  j_lostFiles :: "string \<rightharpoonup> string"
  j_resources :: "(int \<times> string) list"
  j_nextResource :: int
  j_cols :: "jcol list"
  j_nextCol :: int
  j_colMimes :: "(int \<times> int) list"
  j_items :: "jitem list"
  j_parts :: "jpart list"
  j_flags :: "(int \<times> string) list"
  j_itemFlags :: "(int \<times> int) list"
  j_mimes :: "(int \<times> string) list"
  j_partTypes :: "(int \<times> string) list"
  j_tagTypes :: "(int \<times> string) list"
  j_tags :: "(int \<times> int) list"
  m_lostFoundCollectionId :: int
  j_log :: "report list"

definition inform :: "report \<Rightarrow> janitor \<Rightarrow> janitor" where
  "inform r s = s\<lparr>j_log := j_log s @ [r]\<rparr>"

section \<open>Collections\<close>

definition findOrphanedCollections :: "(statement \<Rightarrow> bool) \<Rightarrow> janitor \<Rightarrow> janitor" where
  "findOrphanedCollections ok s =
     (if \<not> ok SelectOrphanCollections then inform Failed s
      else let n = length (filter (\<lambda>c. jc_resource c \<notin> fst ` set (j_resources s)) (j_cols s))
        in if 0 < n then inform (OrphanCollections n) s else s)"

text \<open>The way to the root of one collection, with what is reported on it. It goes on as long as there are parents.\<close>

partial_function (option) checkPathToRoot :: "jcol list \<Rightarrow> jcol \<Rightarrow> report list option" where
  "checkPathToRoot cols c =
     (if jc_parent c = 0 then Some []
      else case find (\<lambda>p. jc_id p = jc_parent c) cols of
        None \<Rightarrow> Some [NoValidParent (jc_id c)]
      | Some p \<Rightarrow> Option.bind (checkPathToRoot cols p)
          (\<lambda>r. Some ((if jc_resource c \<noteq> jc_resource p then [OtherResource (jc_id c)] else []) @ r)))"

declare checkPathToRoot.simps [code]

fun check_paths :: "jcol list \<Rightarrow> jcol list \<Rightarrow> report list option" where
  "check_paths cols [] = Some []"
| "check_paths cols (c # cs) = Option.bind (checkPathToRoot cols c) (\<lambda>r. map_option ((@) r) (check_paths cols cs))"

definition checkCollectionTreeConsistency :: "janitor \<Rightarrow> janitor option" where
  "checkCollectionTreeConsistency s = map_option (\<lambda>rs. fold inform rs s) (check_paths (j_cols s) (j_cols s))"

section \<open>Lost and found\<close>

text \<open>\<open>Collection::insert\<close>: an id that is not positive is not written, which leaves a parent \<open>NULL\<close> and makes the insertion fail for a resource. Names are
  unique below a parent. The entity has the id -1 when the insertion fails.\<close>

definition insert_collection :: "(statement \<Rightarrow> bool) \<Rightarrow> string \<Rightarrow> int \<Rightarrow> int \<Rightarrow> bool \<Rightarrow> janitor \<Rightarrow> int \<times> janitor" where
  "insert_collection ok name res parent virt s =
     (let p = max 0 parent in
      if ok (InsertCollection name) \<and> res \<in> fst ` set (j_resources s) \<and> (p = 0 \<or> p \<in> jc_id ` set (j_cols s)) \<and>
         (p \<noteq> 0 \<longrightarrow> list_all (\<lambda>c. jc_parent c \<noteq> p \<or> jc_name c \<noteq> name) (j_cols s))
      then (j_nextCol s, s\<lparr>j_cols := j_cols s @ [\<lparr>jc_id = j_nextCol s, jc_parent = p, jc_resource = res, jc_name = name, jc_remoteId = None,
              jc_isVirtual = virt\<rparr>], j_nextCol := j_nextCol s + 1\<rparr>)
      else (-1, s))"

definition retrieve_or_insert_resource :: "(statement \<Rightarrow> bool) \<Rightarrow> string \<Rightarrow> janitor \<Rightarrow> int \<times> janitor" where
  "retrieve_or_insert_resource ok name s =
     (case find (\<lambda>r. snd r = name) (j_resources s) of
        Some r \<Rightarrow> (fst r, s)
      | None \<Rightarrow> if ok (InsertResource name)
                then (j_nextResource s, s\<lparr>j_resources := j_resources s @ [(j_nextResource s, name)], j_nextResource := j_nextResource s + 1\<rparr>)
                else (-1, s))"

text \<open>What is left when a transaction is not committed. The guard of a block ignores that the transaction could not be begun: then every statement is committed
  on its own and the commit at the end fails, but nothing is taken back.\<close>

definition uncommitted :: "bool \<Rightarrow> janitor \<Rightarrow> janitor \<Rightarrow> janitor" where
  "uncommitted begun before after = (if begun then before else after)"

text \<open>\<open>now\<close> is the time as text. The result of the commit is not looked at, nor are those of the insertions.\<close>

definition lostAndFoundCollection :: "(statement \<Rightarrow> bool) \<Rightarrow> string \<Rightarrow> janitor \<Rightarrow> int \<times> janitor" where
  "lostAndFoundCollection ok now s =
     (if 0 < m_lostFoundCollectionId s then (m_lostFoundCollectionId s, s)
      else case retrieve_or_insert_resource ok ''akonadi_lost+found_resource'' s of (res, s1) \<Rightarrow>
        if \<not> ok SelectLostRoot then (-1, uncommitted (ok BeginLostFound) s s1)
        else case (case filter (\<lambda>c. jc_resource c = res \<and> jc_parent c = 0) (j_cols s1) of
                     [] \<Rightarrow> insert_collection ok ''lost+found'' res 0 False s1
                   | [c] \<Rightarrow> (jc_id c, s1)
                   | _ \<Rightarrow> (-1, s1)) of (root, s2) \<Rightarrow>
          case insert_collection ok now res root False s2 of (col, s3) \<Rightarrow>
            let s4 = (if col = -1 then s3 else s3\<lparr>j_colMimes := j_colMimes s3 @ map (\<lambda>m. (col, fst m)) (j_mimes s3)\<rparr>)
            in (col, (if ok BeginLostFound \<and> ok CommitLostFound then s4 else uncommitted (ok BeginLostFound) s s4)\<lparr>m_lostFoundCollectionId := col\<rparr>))"

definition findOrphanedItems :: "(statement \<Rightarrow> bool) \<Rightarrow> string \<Rightarrow> janitor \<Rightarrow> janitor" where
  "findOrphanedItems ok now s =
     (case lostAndFoundCollection ok now s of (col, s) \<Rightarrow>
        if col = -1 then s
        else if \<not> ok MoveOrphans then inform Failed s
        else let t = s\<lparr>j_items := map (\<lambda>i. if ji_collection i \<in> jc_id ` set (j_cols s) then i else i\<lparr>ji_collection := col\<rparr>) (j_items s)\<rparr>
          in if ok BeginOrphans \<and> ok CommitOrphans then inform (MovedOrphans col) t else inform Failed (uncommitted (ok BeginOrphans) s t))"

definition findOrphanedParts :: "(statement \<Rightarrow> bool) \<Rightarrow> janitor \<Rightarrow> janitor" where
  "findOrphanedParts ok s =
     (if \<not> ok SelectOrphanParts then inform Failed s
      else let n = length (filter (\<lambda>p. jp_item p \<notin> ji_id ` set (j_items s)) (j_parts s)) in if 0 < n then inform (OrphanParts n) s else s)"

text \<open>The ids are read with \<open>toInt\<close>, which keeps 32 bits.\<close>

definition findOrphanedPimItemFlags :: "(statement \<Rightarrow> bool) \<Rightarrow> janitor \<Rightarrow> janitor" where
  "findOrphanedPimItemFlags ok s =
     (if \<not> ok SelectOrphanFlags then inform Failed s
      else let ids = map (\<lambda>r. wrap32 (fst r)) (filter (\<lambda>r. fst r \<notin> ji_id ` set (j_items s)) (j_itemFlags s))
        in if ids = [] \<or> \<not> ok DeleteFlags then s
           else inform (DeletedFlags (length ids)) (s\<lparr>j_itemFlags := filter (\<lambda>r. fst r \<notin> set ids) (j_itemFlags s)\<rparr>))"

section \<open>Duplicate names\<close>

text \<open>\<open>findDuplicatesImpl\<close>: rows with the same name up to spaces at its ends. Their relations are turned to the one with the lowest id, which fails when a
  unique index is violated, and the others are removed. Each name has a transaction of its own.\<close>

definition relink_one :: "int list \<Rightarrow> int \<Rightarrow> int \<Rightarrow> int" where
  "relink_one rest first i = (if i \<in> set rest then first else i)"

definition deduplicate_name :: "(statement \<Rightarrow> bool) \<Rightarrow> (int list \<Rightarrow> int \<Rightarrow> janitor \<Rightarrow> janitor option) \<Rightarrow> (int list \<Rightarrow> janitor \<Rightarrow> janitor) \<Rightarrow>
    (int \<times> string) list \<Rightarrow> string \<Rightarrow> nat \<times> janitor \<Rightarrow> nat \<times> janitor" where
  "deduplicate_name ok relink remove rows name x =
     (case map fst (filter (\<lambda>r. trimmed (snd r) = name) rows) of
        first # r # rs \<Rightarrow>
          if \<not> ok (Relink name) then x
          else (case relink (r # rs) first (snd x) of
                  None \<Rightarrow> x
                | Some s \<Rightarrow>
                    let begun = ok (BeginNames name); t = remove (r # rs) s in
                    if \<not> ok (RemoveNames name) then (fst x, uncommitted begun (snd x) s)
                    else (Suc (fst x), if begun \<and> ok (CommitNames name) then t else uncommitted begun (snd x) t))
      | _ \<Rightarrow> x)"

definition findDuplicatesImpl :: "(statement \<Rightarrow> bool) \<Rightarrow> (janitor \<Rightarrow> (int \<times> string) list) \<Rightarrow>
    (int list \<Rightarrow> int \<Rightarrow> janitor \<Rightarrow> janitor option) \<Rightarrow> (int list \<Rightarrow> janitor \<Rightarrow> janitor) \<Rightarrow> janitor \<Rightarrow> janitor" where
  "findDuplicatesImpl ok names relink remove s =
     (if \<not> ok SelectNames then inform Failed s
      else let rows = sort_key fst (names s);
               (n, s) = fold (deduplicate_name ok relink remove rows) (remdups (map (\<lambda>r. trimmed (snd r)) rows)) (0, s)
        in inform (RemovedDuplicates n) s)"

text \<open>The primary key of the flag relation is the pair, the part types of an item are unique; a mime type takes its rows in the content types of the
  collections with it.\<close>

definition relink_flags :: "int list \<Rightarrow> int \<Rightarrow> janitor \<Rightarrow> janitor option" where
  "relink_flags rest first s =
     (let rel = map (\<lambda>(i, f). (i, relink_one rest first f)) (j_itemFlags s) in if distinct rel then Some (s\<lparr>j_itemFlags := rel\<rparr>) else None)"

definition findDuplicateFlags :: "(statement \<Rightarrow> bool) \<Rightarrow> janitor \<Rightarrow> janitor" where
  "findDuplicateFlags ok = findDuplicatesImpl ok j_flags relink_flags
     (\<lambda>rest s. s\<lparr>j_flags := filter (\<lambda>r. fst r \<notin> set rest) (j_flags s), j_itemFlags := filter (\<lambda>r. snd r \<notin> set rest) (j_itemFlags s)\<rparr>)"

definition findDuplicateMimeTypes :: "(statement \<Rightarrow> bool) \<Rightarrow> janitor \<Rightarrow> janitor" where
  "findDuplicateMimeTypes ok = findDuplicatesImpl ok j_mimes
     (\<lambda>rest first s. Some (s\<lparr>j_items := map (\<lambda>i. i\<lparr>ji_mimeType := relink_one rest first (ji_mimeType i)\<rparr>) (j_items s)\<rparr>))
     (\<lambda>rest s. s\<lparr>j_mimes := filter (\<lambda>r. fst r \<notin> set rest) (j_mimes s), j_colMimes := filter (\<lambda>r. snd r \<notin> set rest) (j_colMimes s)\<rparr>)"

definition relink_parts :: "int list \<Rightarrow> int \<Rightarrow> janitor \<Rightarrow> janitor option" where
  "relink_parts rest first s =
     (let ps = map (\<lambda>p. p\<lparr>jp_type := relink_one rest first (jp_type p)\<rparr>) (j_parts s)
      in if distinct (map (\<lambda>p. (jp_item p, jp_type p)) ps) then Some (s\<lparr>j_parts := ps\<rparr>) else None)"

definition findDuplicatePartTypes :: "(statement \<Rightarrow> bool) \<Rightarrow> janitor \<Rightarrow> janitor" where
  "findDuplicatePartTypes ok = findDuplicatesImpl ok j_partTypes relink_parts
     (\<lambda>rest s. s\<lparr>j_partTypes := filter (\<lambda>r. fst r \<notin> set rest) (j_partTypes s), j_parts := filter (\<lambda>p. jp_type p \<notin> set rest) (j_parts s)\<rparr>)"

definition findDuplicateTagTypes :: "(statement \<Rightarrow> bool) \<Rightarrow> janitor \<Rightarrow> janitor" where
  "findDuplicateTagTypes ok = findDuplicatesImpl ok j_tagTypes
     (\<lambda>rest first s. Some (s\<lparr>j_tags := map (\<lambda>(i, t). (i, relink_one rest first t)) (j_tags s)\<rparr>))
     (\<lambda>rest s. s\<lparr>j_tagTypes := filter (\<lambda>r. fst r \<notin> set rest) (j_tagTypes s)\<rparr>)"

section \<open>Part files\<close>

text \<open>Two external parts with the same file are reported only.\<close>

definition findOverlappingParts :: "(statement \<Rightarrow> bool) \<Rightarrow> janitor \<Rightarrow> janitor" where
  "findOverlappingParts ok s =
     (if \<not> ok SelectOverlaps then inform Failed s
      else let names = concat (map (\<lambda>p. case jp_data p of Some f \<Rightarrow> if jp_storage p = PExternal then [f] else [] | None \<Rightarrow> []) (j_parts s))
        in fold (\<lambda>f. inform (Overlapping f)) (remdups (filter (\<lambda>f. 1 < count_list names f) names)) s)"

definition below_dir :: "string \<Rightarrow> string \<Rightarrow> bool" where
  "below_dir base p \<longleftrightarrow> take (length base + 1) p = base @ ''/''"

definition fileName :: "string \<Rightarrow> string" where
  "fileName p = rev (takeWhile (\<lambda>c. c \<noteq> CHR ''/'') (rev p))"

text \<open>The file a row names; the name that new parts get stands in for an empty one.\<close>

definition stored_name :: "jpart \<Rightarrow> string" where
  "stored_name p = (case jp_data p of None \<Rightarrow> [] | Some f \<Rightarrow> if f = [] then nameForPartId (jp_id p) else f)"

definition path_of :: "string \<Rightarrow> janitor \<Rightarrow> string" where
  "path_of f s = fst (resolveAbsolutePath (j_base s) f True (j_disk s))"

definition set_file :: "string \<Rightarrow> string option \<Rightarrow> janitor \<Rightarrow> janitor" where
  "set_file path d s = s\<lparr>j_disk := (j_disk s)\<lparr>files := (files (j_disk s))(path := d)\<rparr>\<rparr>"

definition set_part :: "int \<Rightarrow> (jpart \<Rightarrow> jpart) \<Rightarrow> janitor \<Rightarrow> janitor" where
  "set_part i f s = s\<lparr>j_parts := map (\<lambda>p. if jp_id p = i then f p else p) (j_parts s)\<rparr>"

definition emptied :: "jpart \<Rightarrow> jpart" where
  "emptied p = p\<lparr>jp_data := None, jp_datasize := 0, jp_storage := PInternal\<rparr>"

definition verify_part :: "(statement \<Rightarrow> bool) \<Rightarrow> string list \<Rightarrow> jpart \<Rightarrow> string list \<times> janitor \<Rightarrow> string list \<times> janitor" where
  "verify_part ok existing p x =
     (case x of (used, s) \<Rightarrow>
        if jp_storage p \<noteq> PExternal \<or> jp_data p = None then x
        else let path = path_of (stored_name p) s in
          if path \<in> set existing then (path # used, s)
          else (used, (if ok (UpdatePart (jp_id p)) then set_part (jp_id p) emptied else (\<lambda>s. s)) (inform (MissingFile (jp_id p)) s)))"

text \<open>\<open>QFile::rename\<close> does not overwrite. The file is said to be moved before that.\<close>

definition move_lost :: "(statement \<Rightarrow> bool) \<Rightarrow> string \<Rightarrow> janitor \<Rightarrow> janitor" where
  "move_lost ok path s =
     (let s = inform (MovedFile path) s in
      if ok (RenameLost path) \<and> j_lostFiles s (fileName path) = None
      then (set_file path None s)\<lparr>j_lostFiles := (j_lostFiles s)(fileName path := files (j_disk s) path)\<rparr> else s)"

text \<open>\<open>ls\<close> lists the files below the data directory.\<close>

definition verifyExternalParts :: "(statement \<Rightarrow> bool) \<Rightarrow> (storage \<Rightarrow> string list) \<Rightarrow> janitor \<Rightarrow> janitor" where
  "verifyExternalParts ok ls s =
     (let existing = ls (j_disk s) in
      if \<not> ok SelectExternal then inform Failed s
      else case fold (verify_part ok existing) (j_parts s) ([], s) of (used, s) \<Rightarrow>
        fold (move_lost ok) (filter (\<lambda>f. f \<notin> set used) (remdups existing)) s)"

text \<open>A part that has become too large for the database is written to a file, also over one that is there. \<open>FlushPart\<close> is the end of the buffered
  writing, when the file is closed after the commit.\<close>

definition externalize :: "(statement \<Rightarrow> bool) \<Rightarrow> int \<Rightarrow> janitor \<Rightarrow> janitor" where
  "externalize ok i s =
     (case find (\<lambda>p. jp_id p = i) (j_parts s) of
        None \<Rightarrow> s
      | Some p \<Rightarrow>
          let name = nameForPartId i; path = path_of name s; d = (case jp_data p of None \<Rightarrow> [] | Some d \<Rightarrow> d);
              moved = set_part i (\<lambda>p. p\<lparr>jp_data := Some name, jp_storage := PExternal\<rparr>) in
          if \<not> ok (OpenPart i) then s
          else if \<not> ok (WritePart i) \<or> int (length d) \<noteq> jp_datasize p then set_file path None s
          else if \<not> ok (UpdatePart i) then set_file path None s
          else if \<not> ok (BeginLarge i) \<or> \<not> ok (CommitPart i) then set_file path None (uncommitted (ok (BeginLarge i)) s (moved s))
          else inform (ToFile i) (moved (set_file path (Some (if ok (FlushPart i) then d else [])) s)))"

definition internalize :: "(statement \<Rightarrow> bool) \<Rightarrow> int \<Rightarrow> janitor \<Rightarrow> janitor" where
  "internalize ok i s =
     (case find (\<lambda>p. jp_id p = i) (j_parts s) of
        None \<Rightarrow> s
      | Some p \<Rightarrow>
          let path = path_of (case jp_data p of None \<Rightarrow> [] | Some f \<Rightarrow> f) s in
          (case files (j_disk s) path of
             None \<Rightarrow> s
           | Some c \<Rightarrow>
               if \<not> ok (OpenPart i) then s
               else let d = (if ok (ReadPart i) then c else []) in
                 if int (length d) \<noteq> jp_datasize p then s
                 else if \<not> ok (UpdatePart i) then s
                 else let t = set_part i (\<lambda>p. p\<lparr>jp_data := Some d, jp_storage := PInternal\<rparr>) s in
                   if \<not> ok (BeginSmall i) \<or> \<not> ok (CommitPart i) then uncommitted (ok (BeginSmall i)) s t
                   else inform (ToDatabase i) (set_file path None t)))"

text \<open>The two passes ask two configurations for the threshold: the janitor's own, and that of the server.\<close>

definition part_ids :: "(jpart \<Rightarrow> bool) \<Rightarrow> janitor \<Rightarrow> int list" where
  "part_ids P s = map jp_id (filter P (j_parts s))"

definition checkSizeTreshold :: "(statement \<Rightarrow> bool) \<Rightarrow> int \<Rightarrow> int \<Rightarrow> janitor \<Rightarrow> janitor" where
  "checkSizeTreshold ok own configured s =
     (if \<not> ok SelectLarge then inform Failed s
      else let s = fold (externalize ok) (part_ids (\<lambda>p. jp_storage p = PInternal \<and> own < jp_datasize p) s) s in
        if \<not> ok SelectSmall then inform Failed s
        else fold (internalize ok) (part_ids (\<lambda>p. jp_storage p = PExternal \<and> jp_datasize p < configured) s) s)"

text \<open>The migration from the flat directory to the levelled ones.\<close>

definition migrate_part :: "(statement \<Rightarrow> bool) \<Rightarrow> jpart \<Rightarrow> janitor \<Rightarrow> janitor" where
  "migrate_part ok p s =
     (let name = (case jp_data p of None \<Rightarrow> [] | Some f \<Rightarrow> f);
          (current, old) = resolveAbsolutePath (j_base s) name True (j_disk s);
          new = fst (resolveAbsolutePath (j_base s) name False (j_disk s)) in
      if \<not> old \<or> current = new \<or> \<not> ok (RenamePart current) \<or> files (j_disk s) new \<noteq> None then s
      else inform (Migrated (jp_id p)) (set_file new (files (j_disk s) current) (set_file current None s)))"

definition migrateToLevelledCacheHierarchy :: "(statement \<Rightarrow> bool) \<Rightarrow> (storage \<Rightarrow> string list) \<Rightarrow> janitor \<Rightarrow> janitor" where
  "migrateToLevelledCacheHierarchy ok ls s =
     (if list_all (\<lambda>p. CHR ''/'' \<in> set (drop (length (j_base s) + 1) p)) (ls (j_disk s)) then s
      else if \<not> ok SelectLevelled then inform Failed s
      else fold (migrate_part ok) (filter (\<lambda>p. jp_storage p = PExternal) (j_parts s)) s)"

section \<open>Items and resources\<close>

definition no_rid :: "string option \<Rightarrow> bool" where
  "no_rid r \<longleftrightarrow> r = None \<or> r = Some []"

definition findDirtyObjects :: "(statement \<Rightarrow> bool) \<Rightarrow> janitor \<Rightarrow> janitor" where
  "findDirtyObjects ok s =
     (if \<not> ok SelectRidCols then inform Failed s
      else let s = fold (\<lambda>c. inform (NoRid (jc_id c))) (filter (\<lambda>c. no_rid (jc_remoteId c)) (j_cols s)) s in
        if \<not> ok SelectRidItems then inform Failed s
        else let s = fold (\<lambda>i. inform (ItemNoRid (ji_id i))) (filter (\<lambda>i. no_rid (ji_remoteId i)) (j_items s)) s in
          if \<not> ok SelectDirty then inform Failed s
          else fold (\<lambda>i. inform (DirtyItem (ji_id i)))
            (sort_key ji_id (filter (\<lambda>i. ji_dirty i \<and> ji_remoteId i \<noteq> None) (j_items s))) s)"

text \<open>Items of a collection that share a remote id: those whose type is not a content type of the collection are deleted with their files.\<close>

definition shared_rids :: "int \<Rightarrow> janitor \<Rightarrow> string list" where
  "shared_rids c s =
     (let rids = concat (map (\<lambda>i. case ji_remoteId i of Some r \<Rightarrow> if ji_collection i = c then [r] else [] | None \<Rightarrow> []) (j_items s))
      in remdups (filter (\<lambda>r. 1 < count_list rids r) rids))"

definition remove_part_file :: "(statement \<Rightarrow> bool) \<Rightarrow> jpart \<Rightarrow> janitor \<Rightarrow> janitor" where
  "remove_part_file ok p s =
     (case resolveAbsolutePath (j_base s) (case jp_data p of None \<Rightarrow> [] | Some f \<Rightarrow> f) True (j_disk s) of
        (path, ex) \<Rightarrow> if ex \<and> ok (RemoveFile path) then set_file path None s else s)"

definition delete_items :: "int set \<Rightarrow> janitor \<Rightarrow> janitor" where
  "delete_items ids s = s\<lparr>j_items := filter (\<lambda>i. ji_id i \<notin> ids) (j_items s), j_parts := filter (\<lambda>p. jp_item p \<notin> ids) (j_parts s),
     j_itemFlags := filter (\<lambda>r. fst r \<notin> ids) (j_itemFlags s)\<rparr>"

definition remove_rid_duplicates :: "(statement \<Rightarrow> bool) \<Rightarrow> int \<Rightarrow> int list \<Rightarrow> string \<Rightarrow> janitor \<Rightarrow> janitor" where
  "remove_rid_duplicates ok c types rid s =
     (if \<not> ok (SelectVictims c rid) then inform Failed s
      else let ids = map ji_id (filter (\<lambda>i. ji_remoteId i = Some rid \<and> ji_mimeType i \<notin> set types \<and> ji_collection i = c) (j_items s)) in
        if ids = [] then s
        else let s = inform (DuplicateRid c rid) s;
                 s = fold (remove_part_file ok) (filter (\<lambda>p. jp_item p \<in> set ids \<and> jp_storage p = PExternal) (j_parts s)) s
          in if ok (DeleteVictims c rid) then delete_items (set ids) s else inform Failed s)"

definition findRIDDuplicates :: "(statement \<Rightarrow> bool) \<Rightarrow> janitor \<Rightarrow> janitor" where
  "findRIDDuplicates ok s =
     fold (\<lambda>c s. fold (remove_rid_duplicates ok c (map snd (filter (\<lambda>r. fst r = c) (j_colMimes s)))) (shared_rids c s) s) (map jc_id (j_cols s)) s"

definition ensureSearchCollection :: "(statement \<Rightarrow> bool) \<Rightarrow> janitor \<Rightarrow> janitor" where
  "ensureSearchCollection ok s =
     (case retrieve_or_insert_resource ok ''akonadi_search_resource'' s of (res, s) \<Rightarrow>
        if res = -1 then inform Failed s
        else if list_ex (\<lambda>c. jc_resource c = res) (j_cols s) then s
        else case insert_collection ok ''Search'' res 0 True s of (col, s) \<Rightarrow> if col = -1 then inform Failed s else s)"

text \<open>With the agents that the control process knows, and what the search index has for each collection. Collections without content types are skipped.\<close>

definition findOrphanedResources :: "(string \<Rightarrow> janitor \<Rightarrow> janitor) \<Rightarrow> string list \<Rightarrow> janitor \<Rightarrow> janitor" where
  "findOrphanedResources removeResourceInstance known s =
     (if known = [] then inform Failed s
      else fold (\<lambda>n s. removeResourceInstance n (inform (RemoveResource n) s))
        (map snd (filter (\<lambda>r. snd r \<notin> set known \<and> fst r \<noteq> 1) (j_resources s))) s)"

definition findOrphanSearchIndexEntries :: "(statement \<Rightarrow> bool) \<Rightarrow> (int \<Rightarrow> int set) \<Rightarrow> janitor \<Rightarrow> janitor" where
  "findOrphanSearchIndexEntries ok index s =
     (if \<not> ok SelectColumns then inform Failed s
      else fold (\<lambda>c s. if jc_isVirtual c \<or> list_all (\<lambda>r. fst r \<noteq> jc_id c) (j_colMimes s) then s
                       else if \<not> ok (SelectItems (jc_id c)) then inform Failed s
                       else if index (jc_id c) \<subseteq> ji_id ` set (filter (\<lambda>i. ji_collection i = jc_id c) (j_items s)) then s
                       else inform (Reindex (jc_id c)) s) (sort_key jc_id (j_cols s)) s)"

text \<open>\<open>check\<close> without a server: the tasks in their order.\<close>

definition janitor_check :: "(statement \<Rightarrow> bool) \<Rightarrow> (storage \<Rightarrow> string list) \<Rightarrow> string \<Rightarrow> int \<Rightarrow> int \<Rightarrow> janitor \<Rightarrow> janitor option" where
  "janitor_check ok ls now own configured s =
     map_option (\<lambda>s. ensureSearchCollection ok (migrateToLevelledCacheHierarchy ok ls (findRIDDuplicates ok (findDirtyObjects ok
         (checkSizeTreshold ok own configured (verifyExternalParts ok ls (findOverlappingParts ok (findDuplicateTagTypes ok (findDuplicatePartTypes ok
         (findDuplicateMimeTypes ok (findDuplicateFlags ok (findOrphanedPimItemFlags ok (findOrphanedParts ok (findOrphanedItems ok now s))))))))))))))
       (checkCollectionTreeConsistency (findOrphanedCollections ok (s\<lparr>m_lostFoundCollectionId := -1\<rparr>)))"

section \<open>The way to the root\<close>

inductive rooted :: "jcol list \<Rightarrow> jcol \<Rightarrow> bool" for cols :: "jcol list" where
  top: "jc_parent c = 0 \<Longrightarrow> rooted cols c"
| dangling: "find (\<lambda>p. jc_id p = jc_parent c) cols = None \<Longrightarrow> rooted cols c"
| below: "find (\<lambda>p. jc_id p = jc_parent c) cols = Some p \<Longrightarrow> rooted cols p \<Longrightarrow> rooted cols c"

definition parent_fits :: "jcol list \<Rightarrow> jcol \<Rightarrow> bool" where
  "parent_fits cols c \<longleftrightarrow> jc_parent c = 0 \<or> (\<exists>p. find (\<lambda>p. jc_id p = jc_parent c) cols = Some p \<and> jc_resource c = jc_resource p)"

lemma path_returns: "rooted cols c \<Longrightarrow> \<exists>r. checkPathToRoot cols c = Some r"
proof (induction rule: rooted.induct)
  case (below c p)
  then show ?case by (subst checkPathToRoot.simps) auto
qed (subst checkPathToRoot.simps, simp)+

lemma path_rooted:
  assumes "checkPathToRoot cols c = Some r"
  shows "rooted cols c"
proof (rule checkPathToRoot.raw_induct[where P = "\<lambda>cols c r. rooted cols c", OF _ assms])
  fix f :: "jcol list \<Rightarrow> jcol \<Rightarrow> report list option" and cols and c :: jcol and r
  assume IH: "\<And>cols c r. f cols c = Some r \<Longrightarrow> rooted cols c"
    and r: "(if jc_parent c = 0 then Some []
      else case find (\<lambda>p. jc_id p = jc_parent c) cols of
        None \<Rightarrow> Some [NoValidParent (jc_id c)]
      | Some p \<Rightarrow> Option.bind (f cols p) (\<lambda>r. Some ((if jc_resource c \<noteq> jc_resource p then [OtherResource (jc_id c)] else []) @ r))) = Some r"
  show "rooted cols c"
  proof (cases "jc_parent c = 0")
    case False
    with r IH show ?thesis by (auto split: option.splits bind_splits intro: rooted.intros)
  qed (rule rooted.top)
qed

lemma path_report: "checkPathToRoot cols c = Some r \<Longrightarrow> r = [] \<Longrightarrow> parent_fits cols c"
  by (subst (asm) checkPathToRoot.simps) (auto simp: parent_fits_def split: option.splits if_splits bind_splits)

lemma path_report_none:
  "rooted cols c \<Longrightarrow> \<forall>d \<in> set cols. parent_fits cols d \<Longrightarrow> parent_fits cols c \<Longrightarrow> checkPathToRoot cols c = Some []"
proof (induction rule: rooted.induct)
  case (below c p)
  then have "parent_fits cols p" by (auto simp: find_Some_iff)
  with below show ?case by (subst checkPathToRoot.simps) (auto simp: parent_fits_def)
qed (subst checkPathToRoot.simps, auto simp: parent_fits_def)+

lemma check_paths_returns: "check_paths cols cs \<noteq> None \<longleftrightarrow> (\<forall>c \<in> set cs. rooted cols c)"
proof (induction cs)
  case (Cons c cs)
  then show ?case using path_returns[of cols c] path_rooted[of cols c] by (auto split: bind_splits)
qed simp

lemma check_paths_report: "check_paths cols cs = Some [] \<Longrightarrow> c \<in> set cs \<Longrightarrow> parent_fits cols c"
  by (induction cs) (auto split: bind_splits intro: path_report)

lemma check_paths_report_none: "\<forall>c \<in> set cs. rooted cols c \<Longrightarrow> set cs \<subseteq> set cols \<Longrightarrow> \<forall>c \<in> set cols. parent_fits cols c \<Longrightarrow> check_paths cols cs = Some []"
  by (induction cs) (auto simp: path_report_none)

lemma fold_inform: "fold inform rs s = s\<lparr>j_log := j_log s @ rs\<rparr>"
  by (induction rs arbitrary: s) (auto simp: inform_def)

text \<open>(C24) The check of the tree returns exactly when every collection has a way to a root or to a missing parent, that is, when the tree has no cycles; and
  then it reports nothing exactly when every parent exists and belongs to the same resource.\<close>

theorem tree_check_decides:
  "(checkCollectionTreeConsistency s \<noteq> None \<longleftrightarrow> (\<forall>c \<in> set (j_cols s). rooted (j_cols s) c)) \<and>
   (\<forall>s'. checkCollectionTreeConsistency s = Some s' \<longrightarrow> (j_log s' = j_log s \<longleftrightarrow> (\<forall>c \<in> set (j_cols s). parent_fits (j_cols s) c)))"
proof -
  have "j_log s' = j_log s \<longleftrightarrow> (\<forall>c \<in> set (j_cols s). parent_fits (j_cols s) c)" if r: "checkCollectionTreeConsistency s = Some s'" for s'
  proof -
    obtain rs where rs: "check_paths (j_cols s) (j_cols s) = Some rs" "s' = s\<lparr>j_log := j_log s @ rs\<rparr>"
      using r by (auto simp: checkCollectionTreeConsistency_def fold_inform)
    then have "\<forall>c \<in> set (j_cols s). rooted (j_cols s) c" using check_paths_returns[of "j_cols s" "j_cols s"] by simp
    with rs show ?thesis using check_paths_report[of "j_cols s" "j_cols s"] check_paths_report_none[of "j_cols s" "j_cols s"] by auto
  qed
  then show ?thesis using check_paths_returns[of "j_cols s" "j_cols s"] by (simp add: checkCollectionTreeConsistency_def)
qed

section \<open>Paths\<close>

definition plain :: "string \<Rightarrow> bool" where
  "plain f \<longleftrightarrow> f \<noteq> [] \<and> CHR ''/'' \<notin> set f"

lemma fileName_append: "CHR ''/'' \<notin> set f \<Longrightarrow> fileName (b @ CHR ''/'' # f) = f"
  by (simp add: fileName_def takeWhile_append)

lemma plain_relative: "plain f \<Longrightarrow> take (Suc 0) f \<noteq> ''/''"
  by (cases f) (auto simp: plain_def)

lemma fileName_levelled: "plain f \<Longrightarrow> fileName (levelled_path b f) = f"
  using fileName_append[of f "b @ ''/'' @ level_dir f"] by (simp add: levelled_path_def plain_def)

lemma fileName_legacy: "plain f \<Longrightarrow> fileName (b @ CHR ''/'' # f) = f"
  using fileName_append[of f b] by (simp add: plain_def)

lemma path_of_plain:
  "plain f \<Longrightarrow> path_of f s = (if files (j_disk s) (levelled_path (j_base s) f) \<noteq> None then levelled_path (j_base s) f
     else if files (j_disk s) (j_base s @ ''/'' @ f) \<noteq> None then j_base s @ ''/'' @ f else levelled_path (j_base s) f)"
  by (simp add: path_of_def resolveAbsolutePath_def plain_relative Let_def)

lemma fileName_path: "plain f \<Longrightarrow> fileName (path_of f s) = f"
  by (simp add: path_of_plain fileName_levelled fileName_legacy)

lemma path_of_cong:
  assumes "plain f" "j_base s' = j_base s" "\<And>p. fileName p = f \<Longrightarrow> files (j_disk s') p = files (j_disk s) p"
  shows "path_of f s' = path_of f s"
  using assms(3)[OF fileName_levelled[OF assms(1)]] assms(3)[OF fileName_legacy[OF assms(1)]]
  by (simp add: path_of_plain[OF assms(1)] assms(2))

lemma path_of_put:
  assumes "plain f"
  shows "path_of f (set_file (path_of f s) (Some d) s) = path_of f s"
  by (simp add: path_of_plain[OF assms] set_file_def)

section \<open>Size threshold\<close>

text \<open>What a part holds: its data, or the contents of its file.\<close>

definition payload :: "janitor \<Rightarrow> jpart \<Rightarrow> string option" where
  "payload s p =
     (let d = (case jp_data p of None \<Rightarrow> [] | Some d \<Rightarrow> d)
      in if jp_storage p = PExternal then files (j_disk s) (path_of d s) else Some d)"

text \<open>Each external part has a file name of its own, which is not the one that another part would get.\<close>

definition own_names :: "janitor \<Rightarrow> bool" where
  "own_names s \<longleftrightarrow> distinct (map jp_id (j_parts s)) \<and>
     (\<forall>p \<in> set (j_parts s). jp_storage p = PExternal \<longrightarrow>
        (\<exists>f. jp_data p = Some f \<and> plain f \<and>
          (\<forall>q \<in> set (j_parts s). q \<noteq> p \<longrightarrow> f \<noteq> nameForPartId (jp_id q) \<and> (jp_storage q = PExternal \<longrightarrow> jp_data q \<noteq> Some f))))"

definition right_sizes :: "janitor \<Rightarrow> bool" where
  "right_sizes s \<longleftrightarrow> (\<forall>p \<in> set (j_parts s). jp_storage p = PExternal \<longrightarrow>
     (\<forall>c. payload s p = Some c \<longrightarrow> int (length c) = jp_datasize p))"

definition kept_payloads :: "janitor \<Rightarrow> janitor \<Rightarrow> bool" where
  "kept_payloads s s' \<longleftrightarrow> own_names s' \<and> right_sizes s' \<and> map jp_id (j_parts s') = map jp_id (j_parts s) \<and>
     (\<forall>p \<in> set (j_parts s). \<exists>p' \<in> set (j_parts s'). jp_id p' = jp_id p \<and> payload s' p' = payload s p)"

lemma kept_refl: "own_names s \<Longrightarrow> right_sizes s \<Longrightarrow> kept_payloads s s"
  by (auto simp: kept_payloads_def)

lemma kept_trans: "kept_payloads s t \<Longrightarrow> kept_payloads t u \<Longrightarrow> kept_payloads s u"
  unfolding kept_payloads_def by metis

lemma number_plain: "plain (nameForPartId i)"
proof -
  have "CHR ''/'' \<notin> set (nat_number n)" for n using nat_number_digits[of n] by (auto simp: list_all_iff isdigit_def)
  then show ?thesis by (auto simp: plain_def nameForPartId_def number_def)
qed

text \<open>Files of other names do not matter for a part.\<close>

lemma payload_cong:
  assumes "own_names s" "p \<in> set (j_parts s)" "j_base s' = j_base s"
    "\<And>path. jp_storage p = PExternal \<Longrightarrow> Some (fileName path) = jp_data p \<Longrightarrow> files (j_disk s') path = files (j_disk s) path"
  shows "payload s' p = payload s p"
proof (cases "jp_storage p = PExternal")
  case True
  then obtain f where f: "jp_data p = Some f" "plain f" using assms(1,2) by (auto simp: own_names_def)
  have "path_of f s' = path_of f s" using f True assms(3,4) by (intro path_of_cong) auto
  then show ?thesis using True f assms(4)[OF True] by (simp add: payload_def fileName_path)
qed (simp add: payload_def)

text \<open>Only files that no part needs change.\<close>

lemma kept_by_files:
  assumes "own_names s" "right_sizes s" "\<forall>p \<in> set (j_parts s). jp_storage p = PExternal \<longrightarrow> jp_data p \<noteq> Some (fileName path)"
  shows "kept_payloads s (set_file path d s)"
proof -
  have "payload (set_file path d s) p = payload s p" if "p \<in> set (j_parts s)" for p
    using assms(1) that by (rule payload_cong) (use assms(3) that in \<open>auto simp: set_file_def\<close>)
  then show ?thesis using assms by (auto simp: kept_payloads_def right_sizes_def own_names_def set_file_def)
qed

lemma find_part:
  assumes "find (\<lambda>p. jp_id p = i) ps = Some p"
  shows "p \<in> set ps" "jp_id p = i"
  using assms by (auto simp: find_Some_iff)

lemma nat_number_inj: "nat_number m = nat_number n \<Longrightarrow> m = n"
  by (metis nat_number_value of_nat_eq_iff)

lemma nameForPartId_inj: "nameForPartId i = nameForPartId j \<Longrightarrow> i = j"
proof -
  have minus: "nat_number n \<noteq> CHR ''-'' # r" for n r
  proof
    assume "nat_number n = CHR ''-'' # r"
    then show False using nat_number_digits[of n] by (simp add: isdigit_def)
  qed
  assume "nameForPartId i = nameForPartId j"
  then have "number i = number j" by (simp add: nameForPartId_def)
  then show ?thesis using minus minus[symmetric]
    by (cases "i < 0"; cases "j < 0") (auto simp: number_def dest!: nat_number_inj)
qed

lemma kept_set_part:
  assumes own: "own_names s" and sizes: "right_sizes s" and p: "p \<in> set (j_parts s)" "jp_id p = i" and id: "\<And>q. jp_id (g q) = jp_id q"
    and others: "\<forall>q \<in> set (j_parts s). q \<noteq> p \<and> jp_storage q = PExternal \<longrightarrow> jp_data q \<noteq> Some (fileName path)"
    and s': "s' = set_file path d (set_part i g s)" and same: "payload s' (g p) = payload s p"
    and name: "jp_storage (g p) = PExternal \<longrightarrow> jp_data (g p) = Some (nameForPartId i) \<and> (\<forall>c. payload s p = Some c \<longrightarrow> int (length c) = jp_datasize (g p))"
  shows "kept_payloads s s'"
proof -
  have dist: "distinct (map jp_id (j_parts s))" using own by (simp add: own_names_def)
  have one: "q = p" if "q \<in> set (j_parts s)" "jp_id q = i" for q using that p dist by (auto simp: distinct_map inj_on_def)
  have parts: "j_parts s' = map (\<lambda>q. if jp_id q = i then g q else q) (j_parts s)" by (simp add: s' set_file_def set_part_def)
  have set: "set (j_parts s') = insert (g p) (set (j_parts s) - {p})"
  proof -
    let ?h = "\<lambda>q. if jp_id q = i then g q else q"
    have "?h ` (set (j_parts s) - {p}) = (\<lambda>q. q) ` (set (j_parts s) - {p})" using one by (intro image_cong) auto
    then have "?h ` insert p (set (j_parts s) - {p}) = insert (g p) (set (j_parts s) - {p})"
      unfolding image_insert image_ident p(2) by simp
    then show ?thesis unfolding parts set_map insert_Diff[OF p(1)] .
  qed
  have rest: "payload s' q = payload s q" if "q \<in> set (j_parts s)" "q \<noteq> p" for q
    using own that(1) by (rule payload_cong) (use others that in \<open>auto simp: s' set_file_def set_part_def\<close>)
  have ids: "map jp_id (j_parts s') = map jp_id (j_parts s)" unfolding parts by (simp add: id)
  have diff: "jp_id q \<noteq> i" if "q \<in> set (j_parts s)" "q \<noteq> p" for q using one that by blast
  have own_q: "\<exists>f. jp_data q = Some f \<and> plain f \<and> f \<noteq> nameForPartId i \<and> (\<forall>r \<in> set (j_parts s). r \<noteq> q \<longrightarrow>
      f \<noteq> nameForPartId (jp_id r) \<and> (jp_storage r = PExternal \<longrightarrow> jp_data r \<noteq> Some f))"
    if q: "q \<in> set (j_parts s)" "q \<noteq> p" "jp_storage q = PExternal" for q
  proof -
    obtain f where "jp_data q = Some f" "plain f" "\<forall>r \<in> set (j_parts s). r \<noteq> q \<longrightarrow>
      f \<noteq> nameForPartId (jp_id r) \<and> (jp_storage r = PExternal \<longrightarrow> jp_data r \<noteq> Some f)"
      using own q(1,3) unfolding own_names_def by blast
    then show ?thesis using p q(2) by (intro exI[of _ f]) auto
  qed
  have "own_names s'" unfolding own_names_def
  proof (intro conjI ballI impI)
    show "distinct (map jp_id (j_parts s'))" using dist ids by simp
    fix q assume q: "q \<in> set (j_parts s')" "jp_storage q = PExternal"
    show "\<exists>f. jp_data q = Some f \<and> plain f \<and>
        (\<forall>r \<in> set (j_parts s'). r \<noteq> q \<longrightarrow> f \<noteq> nameForPartId (jp_id r) \<and> (jp_storage r = PExternal \<longrightarrow> jp_data r \<noteq> Some f))"
    proof (cases "q = g p")
      case True
      have "nameForPartId i \<noteq> nameForPartId (jp_id r) \<and> (jp_storage r = PExternal \<longrightarrow> jp_data r \<noteq> Some (nameForPartId i))"
        if "r \<in> set (j_parts s)" "r \<noteq> p" for r
        using nameForPartId_inj[of i "jp_id r"] diff[OF that] own_q[OF that] by auto
      then show ?thesis using True q(2) name number_plain unfolding set by auto
    next
      case False
      then have q': "q \<in> set (j_parts s)" "q \<noteq> p" using q(1) set by auto
      then show ?thesis using own_q[OF q' q(2)] p id name unfolding set by fastforce
    qed
  qed
  moreover have "right_sizes s'"
    using sizes rest same name unfolding right_sizes_def set by auto
  moreover have "\<exists>q' \<in> set (j_parts s'). jp_id q' = jp_id q \<and> payload s' q' = payload s q" if "q \<in> set (j_parts s)" for q
    using rest[OF that] same id that unfolding set by (cases "q = p") auto
  ultimately show ?thesis using ids by (simp add: kept_payloads_def)
qed

lemma kept_inform: "kept_payloads s (inform r t) \<longleftrightarrow> kept_payloads s t"
  by (simp add: kept_payloads_def own_names_def right_sizes_def payload_def path_of_def inform_def Let_def)

lemma externalize_keeps:
  assumes own: "own_names s" and sizes: "right_sizes s" and flush: "ok (FlushPart i)" "ok (BeginLarge i)"
    and internal: "\<forall>p \<in> set (j_parts s). jp_id p = i \<longrightarrow> jp_storage p = PInternal"
  shows "kept_payloads s (externalize ok i s)"
proof (cases "find (\<lambda>p. jp_id p = i) (j_parts s)")
  case None
  then show ?thesis using own sizes by (simp add: externalize_def kept_refl)
next
  case (Some p)
  note p = find_part[OF Some]
  define d where "d = (case jp_data p of None \<Rightarrow> [] | Some d \<Rightarrow> d)"
  let ?n = "nameForPartId i"
  let ?path = "path_of ?n s"
  have pi: "jp_storage p = PInternal" using internal p by simp
  have names: "\<forall>q \<in> set (j_parts s). jp_storage q = PExternal \<longrightarrow> jp_data q \<noteq> Some (fileName ?path)"
    using own p pi by (fastforce simp: own_names_def fileName_path[OF number_plain])
  have files: "kept_payloads s (set_file ?path None s)" by (rule kept_by_files[OF own sizes names])
  have moved: "kept_payloads s (set_file ?path (Some d) (set_part i (\<lambda>p. p\<lparr>jp_data := Some ?n, jp_storage := PExternal\<rparr>) s))"
    if "int (length d) = jp_datasize p"
  proof (rule kept_set_part[OF own sizes p, where g = "\<lambda>p. p\<lparr>jp_data := Some ?n, jp_storage := PExternal\<rparr>"])
    show "payload (set_file ?path (Some d) (set_part i (\<lambda>p. p\<lparr>jp_data := Some ?n, jp_storage := PExternal\<rparr>) s))
        (p\<lparr>jp_data := Some ?n, jp_storage := PExternal\<rparr>) = payload s p"
      using path_of_put[OF number_plain, of i s d] pi
      by (simp add: payload_def d_def set_file_def set_part_def path_of_def)
    show "jp_storage (p\<lparr>jp_data := Some ?n, jp_storage := PExternal\<rparr>) = PExternal \<longrightarrow>
        jp_data (p\<lparr>jp_data := Some ?n, jp_storage := PExternal\<rparr>) = Some ?n \<and>
        (\<forall>c. payload s p = Some c \<longrightarrow> int (length c) = jp_datasize (p\<lparr>jp_data := Some ?n, jp_storage := PExternal\<rparr>))"
      using that pi by (simp add: payload_def d_def)
  qed (use names in auto)
  have "set_part i g (set_file ?path x s) = set_file ?path x (set_part i g s)" for g x by (simp add: set_part_def set_file_def)
  then show ?thesis using Some files moved flush own sizes
    by (auto simp: externalize_def uncommitted_def Let_def d_def kept_inform kept_refl)
qed

lemma internalize_keeps:
  assumes own: "own_names s" and sizes: "right_sizes s" and external: "\<forall>p \<in> set (j_parts s). jp_id p = i \<longrightarrow> jp_storage p = PExternal"
  shows "kept_payloads s (internalize ok i s)"
proof (cases "find (\<lambda>p. jp_id p = i) (j_parts s)")
  case None
  then show ?thesis using own sizes by (simp add: internalize_def kept_refl)
next
  case (Some p)
  note p = find_part[OF Some]
  have pe: "jp_storage p = PExternal" using external p by simp
  obtain f where f: "jp_data p = Some f" "plain f" "\<forall>q \<in> set (j_parts s). q \<noteq> p \<and> jp_storage q = PExternal \<longrightarrow> jp_data q \<noteq> Some f"
    using own p pe unfolding own_names_def by blast
  let ?path = "path_of f s"
  have pay: "payload s p = files (j_disk s) ?path" using pe f(1) by (simp add: payload_def)
  have moved: "kept_payloads s (set_file ?path x (set_part i (\<lambda>p. p\<lparr>jp_data := Some d, jp_storage := PInternal\<rparr>) s))"
    if d: "files (j_disk s) ?path = Some c" "int (length d) = jp_datasize p" "d = c \<or> d = []" for c d x
  proof (rule kept_set_part[OF own sizes p, where g = "\<lambda>p. p\<lparr>jp_data := Some d, jp_storage := PInternal\<rparr>"])
    have "int (length c) = jp_datasize p" using sizes p(1) pe pay d(1) by (simp add: right_sizes_def)
    then have "d = c" using d(2,3) by auto
    then show "payload (set_file ?path x (set_part i (\<lambda>p. p\<lparr>jp_data := Some d, jp_storage := PInternal\<rparr>) s))
        (p\<lparr>jp_data := Some d, jp_storage := PInternal\<rparr>) = payload s p"
      using pay d(1) by (simp add: payload_def)
  qed (use f(3) fileName_path[OF f(2)] in auto)
  show ?thesis
  proof (cases "files (j_disk s) ?path")
    case None
    then show ?thesis using Some f(1) own sizes by (simp add: internalize_def kept_refl)
  next
    case (Some c)
    have "set_file ?path (Some c) (set_part i g s) = set_part i g s" for g
      using Some by (simp add: set_file_def set_part_def fun_upd_idem)
    then have "kept_payloads s (set_part i (\<lambda>p. p\<lparr>jp_data := Some d, jp_storage := PInternal\<rparr>) s)"
      if "int (length d) = jp_datasize p" "d = c \<or> d = []" for d using moved[OF Some that, of "Some c"] by simp
    then show ?thesis using Some \<open>find _ _ = _\<close> f(1) own sizes moved[OF Some]
      by (simp add: internalize_def uncommitted_def Let_def kept_inform kept_refl)
  qed
qed

text \<open>A pass over the selected parts: each step leaves the other parts as they are.\<close>

lemma externalize_others: "q \<in> set (j_parts (externalize ok i s)) \<Longrightarrow> jp_id q \<noteq> i \<Longrightarrow> q \<in> set (j_parts s)"
  by (auto simp: externalize_def uncommitted_def Let_def set_part_def set_file_def inform_def split: option.splits if_splits)

lemma internalize_others: "q \<in> set (j_parts (internalize ok i s)) \<Longrightarrow> jp_id q \<noteq> i \<Longrightarrow> q \<in> set (j_parts s)"
  by (auto simp: internalize_def uncommitted_def Let_def set_part_def set_file_def inform_def split: option.splits if_splits)

lemma pass_keeps:
  assumes step: "\<And>i s. own_names s \<Longrightarrow> right_sizes s \<Longrightarrow> \<forall>p \<in> set (j_parts s). jp_id p = i \<longrightarrow> jp_storage p = w \<Longrightarrow> kept_payloads s (f i s)"
    and others: "\<And>i s q. q \<in> set (j_parts (f i s)) \<Longrightarrow> jp_id q \<noteq> i \<Longrightarrow> q \<in> set (j_parts s)"
  shows "own_names s \<Longrightarrow> right_sizes s \<Longrightarrow> distinct is \<Longrightarrow> \<forall>p \<in> set (j_parts s). jp_id p \<in> set is \<longrightarrow> jp_storage p = w \<Longrightarrow>
    kept_payloads s (fold f is s)"
proof (induction "is" arbitrary: s)
  case (Cons i "is")
  have one: "kept_payloads s (f i s)" using Cons.prems by (intro step) auto
  have "\<forall>p \<in> set (j_parts (f i s)). jp_id p \<in> set is \<longrightarrow> jp_storage p = w"
  proof (intro ballI impI)
    fix q assume q: "q \<in> set (j_parts (f i s))" "jp_id q \<in> set is"
    then have "jp_id q \<noteq> i" using Cons.prems(3) by auto
    then show "jp_storage q = w" using others[OF q(1)] q(2) Cons.prems(4) by auto
  qed
  then have "kept_payloads (f i s) (fold f is (f i s))" using one Cons.prems(3) by (intro Cons.IH) (auto simp: kept_payloads_def)
  then show ?case using kept_trans[OF one] by simp
qed (simp add: kept_refl)

lemma part_ids_place:
  assumes "own_names s" "\<And>p. P p \<Longrightarrow> jp_storage p = w"
  shows "distinct (part_ids P s) \<and> (\<forall>p \<in> set (j_parts s). jp_id p \<in> set (part_ids P s) \<longrightarrow> jp_storage p = w)"
proof -
  have d: "distinct (map jp_id (j_parts s))" using assms(1) by (simp add: own_names_def)
  have "jp_storage p = w" if p: "p \<in> set (j_parts s)" "jp_id p \<in> set (part_ids P s)" for p
  proof -
    obtain q where "q \<in> set (j_parts s)" "P q" "jp_id q = jp_id p" using p(2) by (auto simp: part_ids_def)
    then have "P p" using d p(1) by (metis distinct_map inj_onD)
    then show ?thesis by (rule assms(2))
  qed
  then show ?thesis using d by (simp add: part_ids_def distinct_map_filter)
qed

text \<open>(C25) Moving parts between the database and files keeps what every part holds, whichever of the queries, updates, writes, reads and commits fail, when the
  transactions that move parts to files can be begun and the buffers reach the disk when a file is closed (\<open>unbegun_move_loses_payload\<close> and
  \<open>late_write_error_loses_payload\<close> show what happens otherwise). Before, the ids of the parts are distinct, every part in a file has a file
  name of its own that no other part will be given, and the files that are there have the sizes that the table names.\<close>

theorem size_check_keeps_payloads:
  assumes "own_names s" and "right_sizes s" and "\<forall>i. ok (FlushPart i)" and "\<forall>i. ok (BeginLarge i)"
  shows "map jp_id (j_parts (checkSizeTreshold ok own configured s)) = map jp_id (j_parts s) \<and>
    (\<forall>p \<in> set (j_parts s). \<exists>p' \<in> set (j_parts (checkSizeTreshold ok own configured s)).
       jp_id p' = jp_id p \<and> payload (checkSizeTreshold ok own configured s) p' = payload s p)"
proof -
  define t where "t = fold (externalize ok) (part_ids (\<lambda>p. jp_storage p = PInternal \<and> own < jp_datasize p) s) s"
  have t: "kept_payloads s t"
    unfolding t_def
  proof (rule pass_keeps[where f = "externalize ok" and w = PInternal])
    show "kept_payloads s (externalize ok i s)"
      if "own_names s" "right_sizes s" "\<forall>p \<in> set (j_parts s). jp_id p = i \<longrightarrow> jp_storage p = PInternal" for i s
      using that assms(3,4) by (intro externalize_keeps) auto
  qed (use assms part_ids_place[OF assms(1), of "\<lambda>p. jp_storage p = PInternal \<and> own < jp_datasize p" PInternal] externalize_others in auto)
  then have "own_names t" "right_sizes t" by (simp_all add: kept_payloads_def)
  then have "kept_payloads t (fold (internalize ok) (part_ids (\<lambda>p. jp_storage p = PExternal \<and> jp_datasize p < configured) t) t)"
    using part_ids_place[of t "\<lambda>p. jp_storage p = PExternal \<and> jp_datasize p < configured" PExternal]
    by (intro pass_keeps[where f = "internalize ok" and w = PExternal, OF internalize_keeps internalize_others]) auto
  then have "kept_payloads s (checkSizeTreshold ok own configured s)"
    using t kept_trans[OF t] kept_refl[OF assms(1,2)] by (simp add: checkSizeTreshold_def Let_def kept_inform flip: t_def)
  then show ?thesis by (simp add: kept_payloads_def)
qed

section \<open>External parts and their files\<close>

definition needs_file :: "jpart \<Rightarrow> bool" where
  "needs_file p \<longleftrightarrow> jp_storage p = PExternal \<and> jp_data p \<noteq> None"

definition misses_file :: "string list \<Rightarrow> janitor \<Rightarrow> jpart \<Rightarrow> bool" where
  "misses_file existing s p \<longleftrightarrow> needs_file p \<and> path_of (stored_name p) s \<notin> set existing"

lemma path_of_disk: "j_disk s' = j_disk s \<Longrightarrow> j_base s' = j_base s \<Longrightarrow> path_of f s' = path_of f s"
  by (simp add: path_of_def)

lemma emptied_twice: "emptied (emptied q) = emptied q" "jp_id (emptied q) = jp_id q"
  by (simp_all add: emptied_def)

lemma verify_fold:
  assumes "fold (verify_part ok existing) ps (u, s) = (u', s')" and "\<forall>i. ok (UpdatePart i)"
  shows "j_disk s' = j_disk s \<and> j_base s' = j_base s \<and> j_lostFiles s' = j_lostFiles s \<and>
    set u' = set u \<union> {path_of (stored_name p) s | p. p \<in> set ps \<and> needs_file p \<and> path_of (stored_name p) s \<in> set existing} \<and>
    j_parts s' = map (\<lambda>q. if \<exists>p \<in> set ps. misses_file existing s p \<and> jp_id p = jp_id q then emptied q else q) (j_parts s)"
  using assms(1)
proof (induction ps arbitrary: u s)
  case Nil
  then show ?case by auto
next
  case (Cons p ps)
  obtain u1 s1 where one: "verify_part ok existing p (u, s) = (u1, s1)" by fastforce
  then have *: "j_disk s1 = j_disk s" "j_base s1 = j_base s" "j_lostFiles s1 = j_lostFiles s"
    "set u1 = set u \<union> (if needs_file p \<and> \<not> misses_file existing s p then {path_of (stored_name p) s} else {})"
    "j_parts s1 = map (\<lambda>q. if misses_file existing s p \<and> jp_id p = jp_id q then emptied q else q) (j_parts s)"
    using assms(2) by (auto simp: verify_part_def needs_file_def misses_file_def Let_def inform_def set_part_def split: if_splits)
  have rest: "fold (verify_part ok existing) ps (u1, s1) = (u', s')" using Cons.prems one by simp
  have path: "path_of f s1 = path_of f s" for f using * by (intro path_of_disk) auto
  have miss: "misses_file existing s1 = misses_file existing s" by (simp add: misses_file_def path fun_eq_iff)
  show ?case using Cons.IH[OF rest] *(1-3)
    by (auto simp: *(4,5) path miss misses_file_def emptied_twice)
qed

lemma move_fold:
  assumes "distinct L" and "s' = fold (move_lost ok) L s"
  shows "j_parts s' = j_parts s \<and> j_base s' = j_base s \<and> (\<forall>f. f \<notin> set L \<longrightarrow> files (j_disk s') f = files (j_disk s) f) \<and>
    (\<forall>f. files (j_disk s') f = files (j_disk s) f \<or> files (j_disk s') f = None \<and> j_lostFiles s' (fileName f) = files (j_disk s) f) \<and>
    (\<forall>n. j_lostFiles s n \<noteq> None \<longrightarrow> j_lostFiles s' n = j_lostFiles s n) \<and>
    (\<forall>f \<in> set L. files (j_disk s') f = None \<or> \<not> ok (RenameLost f) \<or> j_lostFiles s' (fileName f) \<noteq> None)"
  using assms
proof (induction L arbitrary: s)
  case (Cons g L)
  let ?t = "move_lost ok g s"
  have t: "j_parts ?t = j_parts s" "j_base ?t = j_base s" "\<And>f. f \<noteq> g \<Longrightarrow> files (j_disk ?t) f = files (j_disk s) f"
    "files (j_disk ?t) g = files (j_disk s) g \<or> files (j_disk ?t) g = None \<and> j_lostFiles ?t (fileName g) = files (j_disk s) g"
    "\<And>n. j_lostFiles s n \<noteq> None \<Longrightarrow> j_lostFiles ?t n = j_lostFiles s n"
    "files (j_disk ?t) g = None \<or> \<not> ok (RenameLost g) \<or> j_lostFiles ?t (fileName g) \<noteq> None"
    by (auto simp: move_lost_def Let_def set_file_def inform_def)
  have g: "g \<notin> set L" "distinct L" using Cons.prems(1) by auto
  have s': "s' = fold (move_lost ok) L ?t" using Cons.prems(2) by simp
  note IH = Cons.IH[OF g(2) s']
  have same: "files (j_disk s') g = files (j_disk ?t) g" using IH g(1) by blast
  have lost: "j_lostFiles ?t n \<noteq> None \<Longrightarrow> j_lostFiles s' n = j_lostFiles ?t n" for n using IH by blast
  have "files (j_disk s') f = files (j_disk s) f \<or> files (j_disk s') f = None \<and> j_lostFiles s' (fileName f) = files (j_disk s) f" for f
  proof (cases "f = g")
    case True
    with t(4) same lost[of "fileName g"] show ?thesis by (cases "files (j_disk s) g") auto
  next
    case False
    with IH t(3) show ?thesis by metis
  qed
  moreover have "files (j_disk s') g = None \<or> \<not> ok (RenameLost g) \<or> j_lostFiles s' (fileName g) \<noteq> None"
    using t(6) same lost[of "fileName g"] by auto
  moreover have "j_lostFiles s n \<noteq> None \<Longrightarrow> j_lostFiles s' n = j_lostFiles s n" for n using t(5)[of n] lost[of n] by auto
  ultimately show ?case using IH t(1-3) by auto
qed simp

lemma path_of_shrink:
  assumes "j_base s' = j_base s" "\<And>f. files (j_disk s') f = files (j_disk s) f \<or> files (j_disk s') f = None"
    "files (j_disk s') (path_of g s) = files (j_disk s) (path_of g s)" "files (j_disk s) (path_of g s) \<noteq> None"
  shows "path_of g s' = path_of g s"
  using assms(3,4) assms(2)[of "levelled_path (j_base s) g"] unfolding path_of_def resolveAbsolutePath_def assms(1)
  by (auto simp: Let_def split: if_splits)

text \<open>(C26) After the check of the external parts every part that is in a file has its file, with the contents it had; a file that remains belongs to a part or
  could not be moved; and no file is lost.\<close>

theorem external_parts_have_files:
  assumes "set (ls (j_disk s)) = {f. files (j_disk s) f \<noteq> None \<and> below_dir (j_base s) f}"
    and "distinct (map jp_id (j_parts s))" and "\<forall>i. ok (UpdatePart i)" and "ok SelectExternal"
    and "s' = verifyExternalParts ok ls s"
  shows "(\<forall>p \<in> set (j_parts s'). needs_file p \<longrightarrow> p \<in> set (j_parts s) \<and>
        files (j_disk s') (path_of (stored_name p) s') = files (j_disk s) (path_of (stored_name p) s) \<and>
        files (j_disk s') (path_of (stored_name p) s') \<noteq> None) \<and>
    (\<forall>f. below_dir (j_base s) f \<and> files (j_disk s') f \<noteq> None \<longrightarrow>
        (\<exists>p \<in> set (j_parts s'). needs_file p \<and> path_of (stored_name p) s' = f) \<or> \<not> ok (RenameLost f) \<or> j_lostFiles s' (fileName f) \<noteq> None) \<and>
    (\<forall>f. files (j_disk s') f = files (j_disk s) f \<or> j_lostFiles s' (fileName f) = files (j_disk s) f)"
proof -
  let ?E = "ls (j_disk s)"
  obtain u t where fold: "fold (verify_part ok ?E) (j_parts s) ([], s) = (u, t)" by fastforce
  let ?L = "filter (\<lambda>f. f \<notin> set u) (remdups ?E)"
  have s': "s' = fold (move_lost ok) ?L t" using assms(4,5) fold by (simp add: verifyExternalParts_def Let_def)
  note v = verify_fold[OF fold assms(3)]
  note m = move_fold[OF _ s', simplified]
  have disk: "j_disk t = j_disk s" "j_base t = j_base s" "j_base s' = j_base s" using v m by auto
  have path: "path_of f t = path_of f s" for f using disk by (intro path_of_disk)
  have one: "(\<exists>p \<in> set (j_parts s). misses_file ?E s p \<and> jp_id p = jp_id q) \<longleftrightarrow> misses_file ?E s q" if "q \<in> set (j_parts s)" for q
    using that assms(2) by (metis distinct_map inj_onD)
  have parts: "j_parts s' = map (\<lambda>q. if misses_file ?E s q then emptied q else q) (j_parts s)" using v m one by auto
  have files': "files (j_disk s') f = files (j_disk s) f \<or> files (j_disk s') f = None" for f using m disk by metis
  have p: "p \<in> set (j_parts s) \<and> \<not> misses_file ?E s p" if "p \<in> set (j_parts s')" "needs_file p" for p
    using that unfolding parts by (auto simp: emptied_def needs_file_def)
  have used: "path_of (stored_name p) s \<in> set ?E \<and> files (j_disk s') (path_of (stored_name p) s) = files (j_disk s) (path_of (stored_name p) s) \<and>
      path_of (stored_name p) s' = path_of (stored_name p) s" if "p \<in> set (j_parts s)" "needs_file p" "\<not> misses_file ?E s p" for p
  proof -
    have e: "path_of (stored_name p) s \<in> set ?E" using that(2,3) by (simp add: misses_file_def)
    then have "path_of (stored_name p) s \<in> set u" using v that(1,2) by auto
    then have f: "files (j_disk s') (path_of (stored_name p) s) = files (j_disk s) (path_of (stored_name p) s)" using m disk by simp
    moreover have "files (j_disk s) (path_of (stored_name p) s) \<noteq> None" using e assms(1) by auto
    ultimately show ?thesis using e path_of_shrink[OF disk(3) files' f] by simp
  qed
  have "\<forall>p \<in> set (j_parts s'). needs_file p \<longrightarrow> p \<in> set (j_parts s) \<and>
      files (j_disk s') (path_of (stored_name p) s') = files (j_disk s) (path_of (stored_name p) s) \<and>
      files (j_disk s') (path_of (stored_name p) s') \<noteq> None"
    using p used assms(1) by fastforce
  moreover have "(\<exists>p \<in> set (j_parts s'). needs_file p \<and> path_of (stored_name p) s' = f) \<or> \<not> ok (RenameLost f) \<or> j_lostFiles s' (fileName f) \<noteq> None"
    if f: "below_dir (j_base s) f" "files (j_disk s') f \<noteq> None" for f
  proof (cases "f \<in> set u")
    case True
    then obtain q where q: "q \<in> set (j_parts s)" "needs_file q" "f = path_of (stored_name q) s" "\<not> misses_file ?E s q"
      using v by (auto simp: misses_file_def)
    then have "q \<in> set (j_parts s')" unfolding parts by (auto intro!: image_eqI[of _ _ q])
    then show ?thesis using q used[OF q(1,2,4)] by auto
  next
    case False
    have "files (j_disk s) f \<noteq> None" using f(2) files'[of f] by auto
    then have "f \<in> set ?E" using f(1) assms(1) by auto
    with False f(2) m show ?thesis by auto
  qed
  moreover have "\<forall>f. files (j_disk s') f = files (j_disk s) f \<or> j_lostFiles s' (fileName f) = files (j_disk s) f"
    using m disk by metis
  ultimately show ?thesis by blast
qed

section \<open>Duplicates and orphans\<close>

text \<open>An item is deleted as a duplicate only if its remote id is shared and its type is none of its collection.\<close>

definition rid_safe :: "janitor \<Rightarrow> jitem \<Rightarrow> bool" where
  "rid_safe s i \<longleftrightarrow> i \<in> set (j_items s) \<and> (\<forall>r. ji_remoteId i = Some r \<longrightarrow> r \<notin> set (shared_rids (ji_collection i) s) \<or>
     (ji_collection i, ji_mimeType i) \<in> set (j_colMimes s))"

lemma remove_part_file_rows: "j_items (fold (remove_part_file ok) ps s) = j_items s \<and> j_colMimes (fold (remove_part_file ok) ps s) = j_colMimes s"
  by (induction ps arbitrary: s) (auto simp: remove_part_file_def set_file_def split: prod.splits)

lemma remove_rid_duplicates_rows:
  assumes "distinct (map ji_id (j_items s))"
  shows "j_colMimes (remove_rid_duplicates ok c types rid s) = j_colMimes s \<and>
    set (j_items (remove_rid_duplicates ok c types rid s)) \<subseteq> set (j_items s) \<and> distinct (map ji_id (j_items (remove_rid_duplicates ok c types rid s))) \<and>
    (\<forall>i \<in> set (j_items s). ji_remoteId i \<noteq> Some rid \<or> ji_mimeType i \<in> set types \<or> ji_collection i \<noteq> c \<longrightarrow>
       i \<in> set (j_items (remove_rid_duplicates ok c types rid s)))"
proof -
  have "ji_id i \<notin> ji_id ` {j \<in> set (j_items s). P j}" if "i \<in> set (j_items s)" "\<not> P i" for i P
    using that assms by (auto simp: distinct_map inj_on_def)
  then show ?thesis using assms
    by (auto simp: remove_rid_duplicates_def Let_def inform_def delete_items_def remove_part_file_rows distinct_map_filter)
qed

lemma rid_fold:
  assumes "distinct (map ji_id (j_items s))"
  shows "j_colMimes (fold (remove_rid_duplicates ok c types) rids s) = j_colMimes s \<and>
    set (j_items (fold (remove_rid_duplicates ok c types) rids s)) \<subseteq> set (j_items s) \<and>
    distinct (map ji_id (j_items (fold (remove_rid_duplicates ok c types) rids s))) \<and>
    (\<forall>i \<in> set (j_items s). (\<forall>r \<in> set rids. ji_remoteId i \<noteq> Some r \<or> ji_mimeType i \<in> set types \<or> ji_collection i \<noteq> c) \<longrightarrow>
       i \<in> set (j_items (fold (remove_rid_duplicates ok c types) rids s)))"
  using assms
proof (induction rids arbitrary: s)
  case (Cons r rids)
  let ?t = "remove_rid_duplicates ok c types r s"
  note t = remove_rid_duplicates_rows[OF Cons.prems, of ok c types r]
  from t have "distinct (map ji_id (j_items ?t))" by blast
  note IH = Cons.IH[OF this]
  have "i \<in> set (j_items (fold (remove_rid_duplicates ok c types) rids ?t))"
    if "i \<in> set (j_items s)" "\<forall>q \<in> set (r # rids). ji_remoteId i \<noteq> Some q \<or> ji_mimeType i \<in> set types \<or> ji_collection i \<noteq> c" for i
  proof -
    have "i \<in> set (j_items ?t)" using t that by simp
    then show ?thesis using IH that(2) by simp
  qed
  then show ?case using t IH by auto
qed simp

lemma count_rids:
  "count_list (concat (map (\<lambda>i. case ji_remoteId i of Some r \<Rightarrow> if ji_collection i = c then [r] else [] | None \<Rightarrow> []) xs)) r =
     length (filter (\<lambda>i. ji_remoteId i = Some r \<and> ji_collection i = c) xs)"
  by (induction xs) (auto split: option.splits)

lemma shared_rids_iff:
  assumes "distinct (map ji_id (j_items s))"
  shows "r \<in> set (shared_rids c s) \<longleftrightarrow> 1 < card {i \<in> set (j_items s). ji_remoteId i = Some r \<and> ji_collection i = c}"
proof -
  have "length (filter P (j_items s)) = card {i \<in> set (j_items s). P i}" for P
    using assms distinct_card[of "filter P (j_items s)"] by (simp add: distinct_map)
  moreover have "1 < length (filter (\<lambda>i. ji_remoteId i = Some r \<and> ji_collection i = c) (j_items s)) \<Longrightarrow>
      \<exists>i \<in> set (j_items s). ji_remoteId i = Some r \<and> ji_collection i = c"
    by (metis (mono_tags, lifting) filter_False length_0_conv not_less_zero)
  ultimately show ?thesis by (auto simp: shared_rids_def Let_def count_rids) metis
qed

text \<open>However many items share a remote id, those that have one of the content types of their collection survive, and so do all others.\<close>

theorem duplicates_keep_fitting_items:
  assumes "distinct (map ji_id (j_items s))" and "rid_safe s i"
  shows "i \<in> set (j_items (findRIDDuplicates ok s))"
proof -
  let ?f = "\<lambda>c s. fold (remove_rid_duplicates ok c (map snd (filter (\<lambda>r. fst r = c) (j_colMimes s)))) (shared_rids c s) s"
  have "i \<in> set (j_items (fold ?f cs t))"
    if "distinct (map ji_id (j_items t))" "i \<in> set (j_items t)" "set (j_items t) \<subseteq> set (j_items s)" "j_colMimes t = j_colMimes s" for cs t
    using that
  proof (induction cs arbitrary: t)
    case (Cons c cs)
    let ?t = "?f c t"
    note t = rid_fold[OF Cons.prems(1), of ok c "map snd (filter (\<lambda>r. fst r = c) (j_colMimes t))" "shared_rids c t"]
    have "ji_remoteId i \<noteq> Some r \<or> ji_mimeType i \<in> set (map snd (filter (\<lambda>r. fst r = c) (j_colMimes t))) \<or> ji_collection i \<noteq> c"
      if r: "r \<in> set (shared_rids c t)" for r
    proof -
      have "{i \<in> set (j_items t). ji_remoteId i = Some r \<and> ji_collection i = c} \<subseteq> {i \<in> set (j_items s). ji_remoteId i = Some r \<and> ji_collection i = c}"
        using Cons.prems(3) by auto
      then have "card {i \<in> set (j_items t). ji_remoteId i = Some r \<and> ji_collection i = c} \<le> card {i \<in> set (j_items s). ji_remoteId i = Some r \<and> ji_collection i = c}"
        by (intro card_mono) auto
      then have "r \<in> set (shared_rids c s)" using r Cons.prems(1) assms(1) by (simp add: shared_rids_iff)
      then show ?thesis using assms(2) Cons.prems(4) by (force simp: rid_safe_def)
    qed
    then have "i \<in> set (j_items ?t)" using t Cons.prems(2) by blast
    moreover have "set (j_items ?t) \<subseteq> set (j_items s)" "distinct (map ji_id (j_items ?t))" "j_colMimes ?t = j_colMimes s"
      using t Cons.prems(3,4) by auto
    ultimately have "i \<in> set (j_items (fold ?f cs ?t))" by (intro Cons.IH)
    then show ?case by simp
  qed simp
  then show ?thesis using assms by (simp add: findRIDDuplicates_def rid_safe_def)
qed

text \<open>Orphaned items are given to the lost and found collection; all others stay where they are.\<close>

lemma orphaned_items_are_moved:
  assumes "lostAndFoundCollection ok now s = (col, t)" "col \<noteq> -1" "ok MoveOrphans" "ok CommitOrphans \<or> \<not> ok BeginOrphans"
  shows "j_items (findOrphanedItems ok now s) = map (\<lambda>i. if ji_collection i \<in> jc_id ` set (j_cols t) then i else i\<lparr>ji_collection := col\<rparr>) (j_items t)"
  using assms by (auto simp: findOrphanedItems_def inform_def uncommitted_def Let_def)

section \<open>What goes wrong\<close>

definition all_ok :: "statement \<Rightarrow> bool" where
  "all_ok = (\<lambda>_. True)"

definition janitor_new :: janitor where
  "janitor_new = \<lparr>j_base = ''/d'', j_disk = \<lparr>files = Map.empty, mTransactions = Map.empty\<rparr>, j_lostFiles = Map.empty, j_resources = [(1, ''mail'')],
     j_nextResource = 2, j_cols = [\<lparr>jc_id = 1, jc_parent = 0, jc_resource = 1, jc_name = ''root'', jc_remoteId = Some ''/'', jc_isVirtual = False\<rparr>],
     j_nextCol = 2, j_colMimes = [(1, 1)], j_items = [], j_parts = [], j_flags = [], j_itemFlags = [], j_mimes = [(1, ''text'')], j_partTypes = [],
     j_tagTypes = [], j_tags = [], m_lostFoundCollectionId = -1, j_log = []\<rparr>"

definition an_item :: "int \<Rightarrow> string \<Rightarrow> int \<Rightarrow> jitem" where
  "an_item i rid mime = \<lparr>ji_id = i, ji_remoteId = Some rid, ji_collection = 1, ji_mimeType = mime, ji_dirty = False\<rparr>"

text \<open>An orphan with an id above 32 bits keeps its flags, and an item that has the low bits of that id as its own loses them.\<close>

lemma long_id_clears_other_flags:
  "j_itemFlags (findOrphanedPimItemFlags all_ok (janitor_new\<lparr>j_items := [an_item 5 ''a'' 1], j_itemFlags := [(5, 1), (2 ^ 32 + 5, 1)]\<rparr>)) = [(2 ^ 32 + 5, 1)]"
  by code_simp

text \<open>When an item has both of two equal flags the update violates the primary key, and the flags stay.\<close>

lemma duplicate_flags_stay:
  "j_flags (findDuplicateFlags all_ok (janitor_new\<lparr>j_flags := [(1, ''A''), (2, ''A'')], j_itemFlags := [(5, 1), (5, 2)]\<rparr>)) = [(1, ''A''), (2, ''A'')]"
  by code_simp

text \<open>A collection that allows a duplicated mime type by its second row loses the content type, and then its items that share a remote id are deleted: all of
  them.\<close>

lemma duplicate_mime_type_costs_items:
  "let s = janitor_new\<lparr>j_mimes := [(1, ''text''), (2, ''mail''), (3, ''mail'')], j_colMimes := [(1, 1), (1, 3)],
             j_items := [an_item 5 ''a'' 3, an_item 6 ''a'' 3]\<rparr>
   in j_colMimes (findDuplicateMimeTypes all_ok s) = [(1, 1)] \<and> map ji_id (j_items (findRIDDuplicates all_ok s)) = [5, 6] \<and>
      j_items (findRIDDuplicates all_ok (findDuplicateMimeTypes all_ok s)) = []"
  by code_simp

text \<open>The commit of the lost and found collection is not checked: orphans go to a collection that does not exist.\<close>

lemma lost_collection_uncommitted:
  "let s = findOrphanedItems (\<lambda>q. q \<noteq> CommitLostFound) ''now'' (janitor_new\<lparr>j_items := [(an_item 5 ''a'' 1)\<lparr>ji_collection := 9\<rparr>]\<rparr>)
   in map ji_collection (j_items s) = [3] \<and> map jc_id (j_cols s) = [1]"
  by code_simp

text \<open>With two root collections of the lost and found resource every check adds another.\<close>

lemma lost_roots_multiply:
  "let lf = \<lambda>i n. \<lparr>jc_id = i, jc_parent = 0, jc_resource = 2, jc_name = n, jc_remoteId = None, jc_isVirtual = False\<rparr>;
       s = findOrphanedItems all_ok ''now'' (janitor_new\<lparr>j_resources := [(1, ''mail''), (2, ''akonadi_lost+found_resource'')],
             j_cols := [lf 7 ''a'', lf 8 ''b''], j_nextCol := 9\<rparr>)
   in map (\<lambda>c. (jc_id c, jc_parent c)) (j_cols s) = [(7, 0), (8, 0), (9, 0)]"
  by code_simp

text \<open>A cycle of collections keeps the janitor from ever returning.\<close>

lemma cyclic_tree_never_checked:
  "checkCollectionTreeConsistency (janitor_new\<lparr>j_cols := [\<lparr>jc_id = 1, jc_parent = 1, jc_resource = 1, jc_name = ''root'', jc_remoteId = None,
     jc_isVirtual = False\<rparr>]\<rparr>) = None"
proof -
  let ?c = "\<lparr>jc_id = 1, jc_parent = 1, jc_resource = 1, jc_name = ''root'', jc_remoteId = None, jc_isVirtual = False\<rparr>"
  have "\<not> rooted [?c] c" if "c = ?c" for c
  proof
    assume "rooted [?c] c"
    then show False using that by (induction rule: rooted.induct) auto
  qed
  then have "check_paths [?c] [?c] = None" using check_paths_returns[of "[?c]" "[?c]"] by auto
  then show ?thesis by (simp add: checkCollectionTreeConsistency_def)
qed

text \<open>The file of a part is closed after the commit: when the buffer cannot be written then, the part is lost.\<close>

lemma late_write_error_loses_payload:
  "let s = janitor_new\<lparr>j_parts := [\<lparr>jp_id = 12, jp_item = 5, jp_type = 1, jp_data = Some ''hello'', jp_datasize = 5, jp_storage = PInternal\<rparr>]\<rparr>;
       t = checkSizeTreshold (\<lambda>q. q \<noteq> FlushPart 12) 3 0 s
   in map (payload s) (j_parts s) = [Some ''hello''] \<and> map (payload t) (j_parts t) = [Some []]"
  by code_simp

text \<open>A transaction that cannot be begun is not noticed: the update of the part is committed at once, the commit at the end fails, and the file is removed
  that the part now refers to.\<close>

lemma unbegun_move_loses_payload:
  "let s = janitor_new\<lparr>j_parts := [\<lparr>jp_id = 12, jp_item = 5, jp_type = 1, jp_data = Some ''hello'', jp_datasize = 5, jp_storage = PInternal\<rparr>]\<rparr>;
       t = checkSizeTreshold (\<lambda>q. q \<noteq> BeginLarge 12) 3 0 s
   in map (payload s) (j_parts s) = [Some ''hello''] \<and> map (payload t) (j_parts t) = [None]"
  by code_simp

text \<open>The search collection is meant to have the id 1, but ids are never inserted.\<close>

lemma search_collection_gets_any_id:
  "map jc_id (filter jc_isVirtual (j_cols (ensureSearchCollection all_ok janitor_new))) = [2]"
  by code_simp

section \<open>The properties put to use\<close>

definition janitor_files :: janitor where
  "janitor_files = janitor_new\<lparr>j_parts := [
       \<lparr>jp_id = 12, jp_item = 5, jp_type = 1, jp_data = Some ''hello'', jp_datasize = 5, jp_storage = PInternal\<rparr>,
       \<lparr>jp_id = 13, jp_item = 5, jp_type = 2, jp_data = Some ''13_r4'', jp_datasize = 2, jp_storage = PExternal\<rparr>,
       \<lparr>jp_id = 14, jp_item = 6, jp_type = 2, jp_data = Some ''14_r0'', jp_datasize = 7, jp_storage = PExternal\<rparr>],
     j_disk := \<lparr>files = [''/d/13/13_r4'' \<mapsto> ''ab'', ''/d/99_r0'' \<mapsto> ''old''], mTransactions = Map.empty\<rparr>\<rparr>"

lemma tree_check_decides_witness:
  "map_option j_log (checkCollectionTreeConsistency janitor_new) = Some (j_log janitor_new)"
proof -
  have *: "\<forall>c \<in> set (j_cols janitor_new). rooted (j_cols janitor_new) c \<and> parent_fits (j_cols janitor_new) c"
    by (simp add: janitor_new_def rooted.top parent_fits_def)
  then show ?thesis using tree_check_decides[of janitor_new] by (cases "checkCollectionTreeConsistency janitor_new") auto
qed

lemma size_check_keeps_payloads_witness:
  "\<exists>p' \<in> set (j_parts (checkSizeTreshold all_ok 3 4 janitor_files)). jp_id p' = 13 \<and> payload (checkSizeTreshold all_ok 3 4 janitor_files) p' = Some ''ab''"
proof -
  let ?p = "\<lparr>jp_id = 13, jp_item = 5, jp_type = 2, jp_data = Some ''13_r4'', jp_datasize = 2, jp_storage = PExternal\<rparr>"
  have n: "nameForPartId 12 = ''12_r0''" "nameForPartId 13 = ''13_r0''" "nameForPartId 14 = ''14_r0''" by code_simp+
  have pay: "map (payload janitor_files) (j_parts janitor_files) = [Some ''hello'', Some ''ab'', None]" by code_simp
  have own: "own_names janitor_files" by (simp add: own_names_def janitor_files_def plain_def n)
  have "right_sizes janitor_files" using pay by (simp add: right_sizes_def janitor_files_def)
  moreover have "?p \<in> set (j_parts janitor_files)" "payload janitor_files ?p = Some ''ab''" using pay by (simp_all add: janitor_files_def)
  moreover have "\<forall>i. all_ok (FlushPart i)" "\<forall>i. all_ok (BeginLarge i)" by (simp_all add: all_ok_def)
  ultimately have "\<exists>p' \<in> set (j_parts (checkSizeTreshold all_ok 3 4 janitor_files)). jp_id p' = jp_id ?p \<and>
      payload (checkSizeTreshold all_ok 3 4 janitor_files) p' = Some ''ab''"
    using size_check_keeps_payloads[OF own, of all_ok 3 4] by metis
  then show ?thesis by simp
qed

definition janitor_listing :: "storage \<Rightarrow> string list" where
  "janitor_listing d = [''/d/13/13_r4'', ''/d/99_r0'']"

lemma external_parts_have_files_witness:
  "\<exists>p \<in> set (j_parts (verifyExternalParts all_ok janitor_listing janitor_files)). needs_file p \<and>
     files (j_disk (verifyExternalParts all_ok janitor_listing janitor_files))
       (path_of (stored_name p) (verifyExternalParts all_ok janitor_listing janitor_files)) \<noteq> None"
proof -
  have ls: "set (janitor_listing (j_disk janitor_files)) = {f. files (j_disk janitor_files) f \<noteq> None \<and> below_dir (j_base janitor_files) f}"
    by (auto simp: janitor_listing_def janitor_files_def janitor_new_def below_dir_def split: if_splits)
  have d: "distinct (map jp_id (j_parts janitor_files))" by (simp add: janitor_files_def)
  have ok: "\<forall>i. all_ok (UpdatePart i)" "all_ok SelectExternal" by (simp_all add: all_ok_def)
  have "list_ex needs_file (j_parts (verifyExternalParts all_ok janitor_listing janitor_files))" by code_simp
  then have "\<exists>p \<in> set (j_parts (verifyExternalParts all_ok janitor_listing janitor_files)). needs_file p" by (simp add: list_ex_iff)
  then show ?thesis using external_parts_have_files[of janitor_listing janitor_files all_ok, OF ls d ok refl] by blast
qed

lemma duplicates_keep_fitting_items_witness:
  "an_item 6 ''a'' 1 \<in> set (j_items (findRIDDuplicates all_ok (janitor_new\<lparr>j_items := [an_item 5 ''a'' 3, an_item 6 ''a'' 1]\<rparr>)))"
  by (rule duplicates_keep_fitting_items) (simp_all add: janitor_new_def an_item_def rid_safe_def)

end
