(* ===== verification/Session.thy ===== *)
theory Session
  imports Transition Prelude
begin

text \<open>
  \<open>src/core/session.cpp\<close> and \<open>src/core/jobs/job.cpp\<close>: a session runs the jobs of a client one after the other over its connection; a job can have jobs of
  its own, which it runs one after the other as well. Single-shot timers are counted: each can fire once for each time it was started, in any
  order, until its job is finished. What the subclass does when its job starts, and what it makes of a response, are arguments.
\<close>

section \<open>State\<close>

text \<open>Jobs are numbered as they are created. \<open>jb_startNext\<close> and \<open>jb_emit\<close> are the running timers for \<open>startNext\<close> and \<open>delayedEmitResult\<close>.\<close>

record job =
  jb_parent :: "nat option"
  jb_subs :: "nat list"
  jb_current :: "nat option"
  jb_tag :: int
  jb_started :: bool
  jb_readingFinished :: bool
  jb_finishPending :: bool
  jb_finished :: bool
  jb_error :: bool
  jb_startNext :: nat
  jb_emit :: nat

definition job_new :: "nat option \<Rightarrow> job" where
  "job_new p = \<lparr>jb_parent = p, jb_subs = [], jb_current = None, jb_tag = -1, jb_started = False, jb_readingFinished = False, jb_finishPending = False,
     jb_finished = False, jb_error = False, jb_startNext = 0, jb_emit = 0\<rparr>"

text \<open>\<open>ss_timers\<close> are the running timers for \<open>doStartNext\<close>, \<open>ss_reconnects\<close> the calls of \<open>reconnect\<close> that are posted. The logs: the commands with their tags and
  jobs, the jobs of the session that were started, and all results.\<close>

record session =
  ss_jobs :: "nat \<rightharpoonup> job"
  ss_next :: nat
  ss_connected :: bool
  ss_versionOk :: bool
  ss_theNextTag :: int
  ss_queue :: "nat list"
  ss_pipeline :: "nat list"
  ss_currentJob :: "nat option"
  ss_jobRunning :: bool
  ss_timers :: nat
  ss_reconnects :: nat
  ss_sent :: "(int \<times> nat) list"
  ss_startedJobs :: "nat list"
  ss_results :: "nat list"

definition session_init :: session where
  "session_init = \<lparr>ss_jobs = Map.empty, ss_next = 0, ss_connected = False, ss_versionOk = False, ss_theNextTag = 2, ss_queue = [], ss_pipeline = [],
     ss_currentJob = None, ss_jobRunning = False, ss_timers = 0, ss_reconnects = 1, ss_sent = [], ss_startedJobs = [], ss_results = []\<rparr>"

definition upd_job :: "nat \<Rightarrow> (job \<Rightarrow> job) \<Rightarrow> session \<Rightarrow> session" where
  "upd_job j f s = s\<lparr>ss_jobs := (ss_jobs s)(j := map_option f (ss_jobs s j))\<rparr>"

abbreviation ss_startNext :: "session \<Rightarrow> session" where
  "ss_startNext s \<equiv> s\<lparr>ss_timers := Suc (ss_timers s)\<rparr>"

abbreviation later_startNext :: "nat \<Rightarrow> session \<Rightarrow> session" where
  "later_startNext j \<equiv> upd_job j (\<lambda>x. x\<lparr>jb_startNext := Suc (jb_startNext x)\<rparr>)"

abbreviation later_emit :: "nat \<Rightarrow> session \<Rightarrow> session" where
  "later_emit j \<equiv> upd_job j (\<lambda>x. x\<lparr>jb_emit := Suc (jb_emit x)\<rparr>)"

section \<open>The end of a job\<close>

definition jobDone :: "nat \<Rightarrow> session \<Rightarrow> session" where
  "jobDone j s =
     (if ss_currentJob s = Some j then
        ss_startNext (case ss_pipeline s of
            [] \<Rightarrow> s\<lparr>ss_jobRunning := False, ss_currentJob := None\<rparr>
          | p # ps \<Rightarrow> s\<lparr>ss_currentJob := Some p, ss_pipeline := ps\<rparr>)
      else s\<lparr>ss_queue := removeAll j (ss_queue s), ss_pipeline := removeAll j (ss_pipeline s)\<rparr>)"

text \<open>\<open>KJob::emitResult\<close> with what is connected to the result: a job of the session is done, and a job of a job ends in \<open>Job::slotResult\<close>, which ends the
  parent after an error (\<open>KCompositeJob::slotResult\<close>). Children are created after their parents.\<close>

function emitResult :: "nat \<Rightarrow> bool \<Rightarrow> session \<Rightarrow> session" where
  "emitResult j err s =
     (case ss_jobs s j of
        None \<Rightarrow> s
      | Some x \<Rightarrow>
          if jb_finished x then s
          else
            let s1 = s\<lparr>ss_jobs := (ss_jobs s)(j \<mapsto> x\<lparr>jb_finished := True, jb_error := err\<rparr>), ss_results := ss_results s @ [j]\<rparr>
            in case jb_parent x of
              None \<Rightarrow> jobDone j s1
            | Some p \<Rightarrow>
                if j \<le> p then s1
                else case ss_jobs s1 p of
                  None \<Rightarrow> s1
                | Some y \<Rightarrow>
                    if jb_current y = Some j then
                      let s2 = upd_job p (\<lambda>y. y\<lparr>jb_current := None\<rparr>) s1;
                          s3 = (if err \<and> \<not> jb_error y then emitResult p True s2 else s2);
                          s4 = upd_job p (\<lambda>y. y\<lparr>jb_subs := removeAll j (jb_subs y)\<rparr>) s3
                      in if err then s4 else later_startNext p s4
                    else upd_job p (\<lambda>y. y\<lparr>jb_subs := removeAll j (jb_subs y)\<rparr>) s1)"
  by pat_completeness auto
termination by (relation "measure (\<lambda>(j, _, _). j)") auto

declare emitResult.simps [simp del]

definition forceReconnect :: "session \<Rightarrow> session" where
  "forceReconnect s = s\<lparr>ss_jobRunning := False, ss_connected := False, ss_reconnects := Suc (ss_reconnects s)\<rparr>"

text \<open>\<open>KJob::kill\<close> with \<open>Job::doKill\<close>.\<close>

definition kill_job :: "nat \<Rightarrow> session \<Rightarrow> session" where
  "kill_job j s =
     (case ss_jobs s j of
        None \<Rightarrow> s
      | Some x \<Rightarrow> if jb_finished x then s
                  else emitResult j True (upd_job j (\<lambda>x. x\<lparr>jb_started := False\<rparr>) (if jb_started x then forceReconnect s else s)))"

text \<open>The job that is asked at last: the current job of the current job, and so on.\<close>

function deepest :: "session \<Rightarrow> nat \<Rightarrow> nat" where
  "deepest s j =
     (case ss_jobs s j of
        None \<Rightarrow> j
      | Some x \<Rightarrow> (case jb_current x of None \<Rightarrow> j | Some c \<Rightarrow> if j < c \<and> c < ss_next s then deepest s c else j))"
  by pat_completeness auto
termination by (relation "measure (\<lambda>(s, j). ss_next s - j)") auto

declare deepest.simps [simp del]

definition lostConnection :: "nat \<Rightarrow> session \<Rightarrow> session" where
  "lostConnection j s = emitResult (deepest s j) True s"

section \<open>The start of a job\<close>

text \<open>A new tag is the tag of the job and of all its parents.\<close>

function newTag :: "nat \<Rightarrow> session \<Rightarrow> session" where
  "newTag j s =
     (case ss_jobs s j of
        None \<Rightarrow> s
      | Some x \<Rightarrow>
          let s = (case jb_parent x of None \<Rightarrow> s\<lparr>ss_theNextTag := ss_theNextTag s + 1\<rparr> | Some p \<Rightarrow> if p < j then newTag p s else s)
          in upd_job j (\<lambda>x. x\<lparr>jb_tag := ss_theNextTag s - 1\<rparr>) s)"
  by pat_completeness auto
termination by (relation "measure fst") auto

declare newTag.simps [simp del]

text \<open>What a subclass does in \<open>doStart\<close>: send a command, wait for the jobs it has, or end at once.\<close>

datatype work = SendsCommand | UsesSubjobs | EndsAtOnce bool

definition doStart :: "work \<Rightarrow> nat \<Rightarrow> session \<Rightarrow> session" where
  "doStart w j s =
     (case w of
        SendsCommand \<Rightarrow> let s = newTag j s in s\<lparr>ss_sent := ss_sent s @ [(ss_theNextTag s - 1, j)]\<rparr>
      | UsesSubjobs \<Rightarrow> s
      | EndsAtOnce err \<Rightarrow> emitResult j err s)"

definition startQueued :: "(nat \<Rightarrow> work) \<Rightarrow> nat \<Rightarrow> session \<Rightarrow> session" where
  "startQueued w j s =
     (case ss_jobs s j of
        None \<Rightarrow> s
      | Some x \<Rightarrow>
          let s = upd_job j (\<lambda>x. x\<lparr>jb_started := True\<rparr>) s;
              s = (case jb_parent x of None \<Rightarrow> s\<lparr>ss_startedJobs := ss_startedJobs s @ [j]\<rparr> | Some p \<Rightarrow> upd_job p (\<lambda>y. y\<lparr>jb_current := Some j\<rparr>) s)
          in later_startNext j (doStart (w j) j s))"

definition job_startNext :: "(nat \<Rightarrow> work) \<Rightarrow> nat \<Rightarrow> session \<Rightarrow> session" where
  "job_startNext w j s =
     (case ss_jobs s j of
        None \<Rightarrow> s
      | Some x \<Rightarrow> if jb_started x \<and> jb_current x = None \<and> jb_subs x \<noteq> [] then startQueued w (hd (jb_subs x)) s
                  else if jb_finishPending x \<and> jb_subs x = [] then later_emit j s else s)"

definition delayedEmitResult :: "nat \<Rightarrow> session \<Rightarrow> session" where
  "delayedEmitResult j s =
     (case ss_jobs s j of
        None \<Rightarrow> s
      | Some x \<Rightarrow> if jb_subs x \<noteq> [] then upd_job j (\<lambda>x. x\<lparr>jb_finishPending := True\<rparr>) s else emitResult j False s)"

text \<open>A response is an error, one of several, or the last one.\<close>

datatype answer = AnswerError | AnswerMore | AnswerLast

definition handleResponse :: "nat \<Rightarrow> int \<Rightarrow> answer \<Rightarrow> session \<Rightarrow> session" where
  "handleResponse cur tag a s =
     (let j = deepest s cur in
      case ss_jobs s j of
        None \<Rightarrow> s
      | Some x \<Rightarrow>
          if jb_tag x \<noteq> tag then s
          else if a = AnswerError then emitResult j True s
          else if \<not> jb_started x \<or> jb_readingFinished x \<or> a = AnswerMore then s
          else later_emit j (upd_job j (\<lambda>x. x\<lparr>jb_readingFinished := True\<rparr>) s))"

section \<open>The session\<close>

definition pipeline_length :: nat where
  "pipeline_length = 0"

text \<open>\<open>mWriteFinished\<close> is never asked for with this length.\<close>

definition canPipelineNext :: "(nat \<Rightarrow> bool) \<Rightarrow> session \<Rightarrow> bool" where
  "canPipelineNext written s =
     (if ss_queue s = [] \<or> pipeline_length \<le> length (ss_pipeline s) then False
      else if ss_pipeline s = [] then (case ss_currentJob s of None \<Rightarrow> False | Some j \<Rightarrow> written j)
      else written (last (ss_pipeline s)))"

definition startJob :: "(nat \<Rightarrow> work) \<Rightarrow> nat \<Rightarrow> session \<Rightarrow> session" where
  "startJob w j s = (if \<not> ss_versionOk s then emitResult j True s else startQueued w j s)"

definition doStartNext :: "(nat \<Rightarrow> work) \<Rightarrow> session \<Rightarrow> session" where
  "doStartNext w s =
     (if \<not> ss_connected s \<or> (ss_queue s = [] \<and> ss_pipeline s = []) then s
      else
        let s = (if canPipelineNext (\<lambda>_. False) s
                 then startJob w (hd (ss_queue s)) (s\<lparr>ss_queue := tl (ss_queue s), ss_pipeline := ss_pipeline s @ [hd (ss_queue s)]\<rparr>) else s)
        in if ss_jobRunning s then s
           else
             let s = s\<lparr>ss_jobRunning := True\<rparr>
             in if ss_pipeline s \<noteq> [] then s\<lparr>ss_currentJob := Some (hd (ss_pipeline s)), ss_pipeline := tl (ss_pipeline s)\<rparr>
                else startJob w (hd (ss_queue s)) (s\<lparr>ss_currentJob := Some (hd (ss_queue s)), ss_queue := tl (ss_queue s)\<rparr>))"

definition addJob :: "session \<Rightarrow> session" where
  "addJob s = ss_startNext (s\<lparr>ss_jobs := (ss_jobs s)(ss_next s \<mapsto> job_new None), ss_next := Suc (ss_next s), ss_queue := ss_queue s @ [ss_next s]\<rparr>)"

definition addSubjob :: "nat \<Rightarrow> session \<Rightarrow> session" where
  "addSubjob p s =
     later_startNext p (upd_job p (\<lambda>x. x\<lparr>jb_subs := jb_subs x @ [ss_next s]\<rparr>)
       (s\<lparr>ss_jobs := (ss_jobs s)(ss_next s \<mapsto> job_new (Some p)), ss_next := Suc (ss_next s)\<rparr>))"

definition socketDisconnected :: "session \<Rightarrow> session" where
  "socketDisconnected s = (case ss_currentJob s of None \<Rightarrow> s | Some j \<Rightarrow> lostConnection j s)\<lparr>ss_connected := False\<rparr>"

definition server_broken :: "session \<Rightarrow> session" where
  "server_broken s = (if ss_connected s then s else fold kill_job (ss_queue s) s)"

text \<open>\<open>clear\<close>; \<open>n\<close> jobs are added by those who are told the results of the jobs that are killed. The pipeline is always empty.\<close>

definition kill_unstarted :: "nat \<Rightarrow> session \<Rightarrow> session" where
  "kill_unstarted j s = kill_job j (upd_job j (\<lambda>x. x\<lparr>jb_started := False\<rparr>) s)"

definition session_clear :: "bool \<Rightarrow> nat \<Rightarrow> session \<Rightarrow> session" where
  "session_clear force n s =
     (let s = (fold kill_job (ss_queue s) s);
          s = ((addJob ^^ n) s)\<lparr>ss_queue := []\<rparr>;
          s = (fold kill_unstarted (ss_pipeline s) s)\<lparr>ss_pipeline := []\<rparr>;
          s = (case ss_currentJob s of None \<Rightarrow> s | Some j \<Rightarrow> kill_unstarted j s)
      in if force then forceReconnect s else s)"

section \<open>Events\<close>

text \<open>\<open>Hello\<close> and \<open>Login\<close> come from a new connection. \<open>Ends\<close> is a subclass that ends its job itself; \<open>Destroyed\<close> is a finished job that is deleted.\<close>

datatype session_event = AddJob | AddSubjob nat | Hello bool bool | Login bool | Answer int answer | TimerSession | TimerStart nat | TimerEmit nat
  | Ends nat bool | Kill nat | Disconnected | Broken | Reconnects | Clear bool nat | Destroyed nat

definition alive :: "session \<Rightarrow> nat \<Rightarrow> bool" where
  "alive s j \<longleftrightarrow> (case ss_jobs s j of None \<Rightarrow> False | Some x \<Rightarrow> \<not> jb_finished x)"

fun session_do :: "(nat \<Rightarrow> work) \<Rightarrow> session_event \<Rightarrow> session \<Rightarrow> session option" where
  "session_do w AddJob s = Some (addJob s)"
| "session_do w (AddSubjob p) s = (if alive s p then Some (addSubjob p s) else None)"
| "session_do w (Hello ok same) s =
     Some (if \<not> ok then s\<lparr>ss_reconnects := Suc (ss_reconnects s)\<rparr> else s\<lparr>ss_versionOk := same, ss_theNextTag := ss_theNextTag s + 1\<rparr>)"
| "session_do w (Login ok) s = Some (if \<not> ok then s\<lparr>ss_reconnects := Suc (ss_reconnects s)\<rparr> else ss_startNext (s\<lparr>ss_connected := True\<rparr>))"
| "session_do w (Answer tag a) s = Some (case ss_currentJob s of None \<Rightarrow> s | Some j \<Rightarrow> handleResponse j tag a s)"
| "session_do w TimerSession s = (case ss_timers s of 0 \<Rightarrow> None | Suc n \<Rightarrow> Some (doStartNext w (s\<lparr>ss_timers := n\<rparr>)))"
| "session_do w (TimerStart j) s =
     (case ss_jobs s j of
        None \<Rightarrow> None
      | Some x \<Rightarrow> if jb_finished x then None
                  else (case jb_startNext x of 0 \<Rightarrow> None | Suc n \<Rightarrow> Some (job_startNext w j (upd_job j (\<lambda>x. x\<lparr>jb_startNext := n\<rparr>) s))))"
| "session_do w (TimerEmit j) s =
     (case ss_jobs s j of
        None \<Rightarrow> None
      | Some x \<Rightarrow> if jb_finished x then None
                  else (case jb_emit x of 0 \<Rightarrow> None | Suc n \<Rightarrow> Some (delayedEmitResult j (upd_job j (\<lambda>x. x\<lparr>jb_emit := n\<rparr>) s))))"
| "session_do w (Ends j err) s = (if alive s j then Some (emitResult j err s) else None)"
| "session_do w (Kill j) s = Some (kill_job j s)"
| "session_do w Disconnected s = Some (socketDisconnected s)"
| "session_do w Broken s = Some (server_broken s)"
| "session_do w Reconnects s = (case ss_reconnects s of 0 \<Rightarrow> None | Suc n \<Rightarrow> Some (s\<lparr>ss_reconnects := n\<rparr>))"
| "session_do w (Clear force n) s = Some (session_clear force n s)"
| "session_do w (Destroyed j) s =
     (case ss_jobs s j of None \<Rightarrow> None | Some x \<Rightarrow> if jb_finished x \<and> jb_parent x = None then Some (jobDone j s) else None)"

fun session_run :: "(nat \<Rightarrow> work) \<Rightarrow> session_event list \<Rightarrow> session \<Rightarrow> session option" where
  "session_run w [] s = Some s"
| "session_run w (e # es) s = (case session_do w e s of None \<Rightarrow> None | Some t \<Rightarrow> session_run w es t)"

section \<open>What goes wrong\<close>

text \<open>A job is added when the result of a job is told that \<open>clear\<close> kills: it is taken off the queue with the others, and never gets a result.\<close>

lemma clear_forgets_new_jobs:
  "let s = the (session_run (\<lambda>_. SendsCommand) [AddJob, Clear True 1, Hello True True, Login True, TimerSession, TimerSession, TimerSession] session_init)
   in alive s 1 \<and> ss_connected s \<and> ss_queue s = [] \<and> ss_currentJob s = None \<and> ss_results s = [0] \<and> ss_timers s = 0"
  by code_simp

text \<open>A job that has sent a command gets a subjob before it has read all of the answer. The subjob is started at once; its tag becomes that of the job, and
  the rest of the answer is ignored for good.\<close>

lemma subjob_costs_answer:
  "let s = the (session_run (\<lambda>_. SendsCommand) [AddJob, Hello True True, Login True, TimerSession, TimerSession, Answer 3 AnswerMore, AddSubjob 0, TimerStart 0,
          TimerStart 0, TimerStart 1, Answer 4 AnswerLast, TimerEmit 1, Answer 3 AnswerLast, TimerStart 0] session_init)
   in ss_sent s = [(3, 0), (4, 1)] \<and> ss_results s = [1] \<and> alive s 0 \<and> (case ss_jobs s 0 of None \<Rightarrow> False | Some x \<Rightarrow>
        jb_startNext x = 0 \<and> jb_emit x = 0 \<and> \<not> jb_readingFinished x \<and> jb_subs x = [] \<and> jb_tag x = 4)"
  by code_simp

section \<open>Invariant\<close>

definition par :: "session \<Rightarrow> nat \<Rightarrow> nat option" where
  "par s c = (case ss_jobs s c of None \<Rightarrow> None | Some x \<Rightarrow> jb_parent x)"

definition strt :: "session \<Rightarrow> nat \<Rightarrow> bool" where
  "strt s c \<longleftrightarrow> (case ss_jobs s c of None \<Rightarrow> False | Some x \<Rightarrow> jb_started x)"

text \<open>What a job that has not ended has: its jobs are those that have not ended either, the current one is the only one that was started, and whenever
  something is left to do and no job runs for it, a timer does.\<close>

definition live_ok :: "session \<Rightarrow> nat \<Rightarrow> job \<Rightarrow> bool" where
  "live_ok s j x \<longleftrightarrow>
     set (jb_subs x) = {c. alive s c \<and> par s c = Some j} \<and>
     (\<forall>c \<in> set (jb_subs x). strt s c \<longrightarrow> jb_current x = Some c) \<and>
     (\<forall>c. jb_current x = Some c \<longrightarrow> c \<in> set (jb_subs x) \<and> jb_started x) \<and>
     (jb_started x \<and> jb_current x = None \<longrightarrow>
        (jb_subs x \<noteq> [] \<longrightarrow> 0 < jb_startNext x) \<and> (jb_finishPending x \<and> jb_subs x = [] \<longrightarrow> 0 < jb_startNext x \<or> 0 < jb_emit x))"

definition base_ok :: "session \<Rightarrow> nat \<Rightarrow> job \<Rightarrow> bool" where
  "base_ok s j x \<longleftrightarrow> j < ss_next s \<and> (\<forall>p. jb_parent x = Some p \<longrightarrow> p < j \<and> ss_jobs s p \<noteq> None) \<and> (\<not> jb_finished x \<longrightarrow> \<not> jb_error x)"

text \<open>What the session has: its jobs start in the order in which they came, each that has not ended is queued or current, and a queue that could go on has a timer.\<close>

definition order_ok :: "session \<Rightarrow> bool" where
  "order_ok s \<longleftrightarrow> ss_pipeline s = [] \<and> sorted_wrt (<) (ss_startedJobs s @ ss_queue s) \<and> (\<forall>j \<in> set (ss_startedJobs s @ ss_queue s). j < ss_next s) \<and>
     (\<forall>j. ss_currentJob s = Some j \<longrightarrow> (\<forall>q \<in> set (ss_queue s). j < q)) \<and>
     (ss_connected s \<and> ss_queue s \<noteq> [] \<and> ss_currentJob s = None \<longrightarrow> 0 < ss_timers s)"

definition tops_ok :: "session \<Rightarrow> bool" where
  "tops_ok s \<longleftrightarrow> (\<forall>j. alive s j \<and> par s j = None \<longleftrightarrow> j \<in> set (ss_queue s) \<or> ss_currentJob s = Some j) \<and> (\<forall>j \<in> set (ss_queue s). \<not> strt s j)"

definition results_ok :: "session \<Rightarrow> bool" where
  "results_ok s \<longleftrightarrow> distinct (ss_results s) \<and> (\<forall>j. j \<in> set (ss_results s) \<longleftrightarrow> ss_jobs s j \<noteq> None \<and> \<not> alive s j)"

definition session_inv :: "nat set \<Rightarrow> session \<Rightarrow> bool" where
  "session_inv E s \<longleftrightarrow> order_ok s \<and> tops_ok s \<and> results_ok s \<and>
     (\<forall>j x. ss_jobs s j = Some x \<longrightarrow> base_ok s j x \<and> (\<not> jb_finished x \<and> j \<notin> E \<longrightarrow> live_ok s j x))"

lemmas session_parts = order_ok_def tops_ok_def results_ok_def

lemma session_inv_mono: "session_inv E s \<Longrightarrow> E \<subseteq> F \<Longrightarrow> session_inv F s"
  by (auto simp: session_inv_def)

text \<open>A change of one job that leaves alone what others see of it.\<close>

definition harmless :: "(job \<Rightarrow> job) \<Rightarrow> bool" where
  "harmless f \<longleftrightarrow> (\<forall>x. jb_parent (f x) = jb_parent x \<and> jb_finished (f x) = jb_finished x \<and> jb_started (f x) = jb_started x \<and> jb_error (f x) = jb_error x)"

lemma upd_job_same:
  assumes "harmless f"
  shows "par (upd_job j f s) = par s" "strt (upd_job j f s) = strt s" "alive (upd_job j f s) = alive s"
    "\<And>i. ss_jobs (upd_job j f s) i = None \<longleftrightarrow> ss_jobs s i = None"
  using assms by (auto simp: fun_eq_iff par_def strt_def alive_def upd_job_def harmless_def split: option.splits)

lemma upd_job_fields [simp]:
  "ss_next (upd_job j f s) = ss_next s" "ss_connected (upd_job j f s) = ss_connected s" "ss_queue (upd_job j f s) = ss_queue s"
  "ss_pipeline (upd_job j f s) = ss_pipeline s" "ss_currentJob (upd_job j f s) = ss_currentJob s" "ss_jobRunning (upd_job j f s) = ss_jobRunning s"
  "ss_timers (upd_job j f s) = ss_timers s" "ss_startedJobs (upd_job j f s) = ss_startedJobs s" "ss_results (upd_job j f s) = ss_results s"
  "ss_jobs (upd_job j f s) = (ss_jobs s)(j := map_option f (ss_jobs s j))"
  by (simp_all add: upd_job_def)

lemma upd_job_inv:
  assumes inv: "session_inv E s" and f: "harmless f"
    and live: "\<And>x. ss_jobs s j = Some x \<Longrightarrow> \<not> jb_finished x \<Longrightarrow> j \<notin> F \<Longrightarrow> live_ok (upd_job j f s) j (f x)" and EF: "E \<subseteq> insert j F"
  shows "session_inv F (upd_job j f s)"
proof -
  note same = upd_job_same[OF f, of j s]
  have "base_ok (upd_job j f s) i x" if "ss_jobs (upd_job j f s) i = Some x" for i x
  proof -
    obtain y where "ss_jobs s i = Some y" "x = (if i = j then f y else y)" using \<open>ss_jobs _ i = _\<close> by (auto split: if_splits)
    then show ?thesis using inv f by (auto simp: session_inv_def base_ok_def harmless_def)
  qed
  moreover have "live_ok (upd_job j f s) i x" if i: "ss_jobs (upd_job j f s) i = Some x" "\<not> jb_finished x" "i \<notin> F" for i x
  proof (cases "i = j")
    case True
    then obtain y where "ss_jobs s j = Some y" "x = f y" using i(1) by auto
    then show ?thesis using live[of y] i True f by (auto simp: harmless_def)
  next
    case False
    then have "ss_jobs s i = Some x" "i \<notin> E" using i EF by auto
    then have "live_ok s i x" using inv i(2) by (simp add: session_inv_def)
    then show ?thesis unfolding live_ok_def same .
  qed
  moreover have "order_ok (upd_job j f s)" "tops_ok (upd_job j f s)" "results_ok (upd_job j f s)"
    using inv same by (simp_all add: session_inv_def session_parts)
  ultimately show ?thesis by (simp add: session_inv_def)
qed

lemma upd_finished_inv:
  assumes "session_inv E s" "harmless f" "\<not> alive s j" "E \<subseteq> insert j F"
  shows "session_inv F (upd_job j f s)"
  using assms(1,2) by (rule upd_job_inv) (use assms in \<open>auto simp: alive_def\<close>)

lemma live_frame:
  assumes "live_ok s i x" "\<And>c. alive s' c \<and> par s' c = Some i \<longleftrightarrow> alive s c \<and> par s c = Some i" "\<And>c. par s c = Some i \<Longrightarrow> strt s' c = strt s c"
  shows "live_ok s' i x"
  using assms unfolding live_ok_def by auto

lemma inv_job:
  assumes "session_inv E s" "ss_jobs s j = Some x"
  shows "base_ok s j x" "\<not> jb_finished x \<Longrightarrow> j \<notin> E \<Longrightarrow> live_ok s j x"
  using assms by (auto simp: session_inv_def)

text \<open>A job is marked as finished.\<close>

abbreviation marked :: "nat \<Rightarrow> bool \<Rightarrow> session \<Rightarrow> session" where
  "marked j err s \<equiv> s\<lparr>ss_jobs := (ss_jobs s)(j := map_option (\<lambda>x. x\<lparr>jb_finished := True, jb_error := err\<rparr>) (ss_jobs s j)),
     ss_results := ss_results s @ [j]\<rparr>"

lemma marked_same:
  "par (marked j err s) = par s" "strt (marked j err s) = strt s" "alive (marked j err s) c \<longleftrightarrow> alive s c \<and> c \<noteq> j"
  by (auto simp: fun_eq_iff par_def strt_def alive_def split: option.splits)

lemma marked_none: "ss_jobs (marked j err s) i = None \<longleftrightarrow> ss_jobs s i = None"
  by auto

lemma alive_job: "alive s j \<Longrightarrow> \<exists>x. ss_jobs s j = Some x \<and> \<not> jb_finished x"
  by (auto simp: alive_def split: option.splits)

lemma base_frame:
  "base_ok s i x \<Longrightarrow> ss_next s' = ss_next s \<Longrightarrow> (\<And>i. ss_jobs s' i = None \<longleftrightarrow> ss_jobs s i = None) \<Longrightarrow> base_ok s' i x"
  by (simp add: base_ok_def)

lemma marked_results:
  assumes "results_ok s" "alive s j"
  shows "results_ok (marked j err s)"
proof -
  have "ss_jobs s j \<noteq> None" using alive_job[OF assms(2)] by auto
  then show ?thesis using assms unfolding results_ok_def marked_none marked_same by auto
qed

lemma marked_rows:
  assumes inv: "session_inv {j} s" and i: "ss_jobs (marked j err s) i = Some x" and E: "\<And>p. par s j = Some p \<Longrightarrow> p \<in> E"
  shows "base_ok (marked j err s) i x" "\<not> jb_finished x \<Longrightarrow> i \<notin> E \<Longrightarrow> live_ok (marked j err s) i x"
proof -
  obtain y where y: "ss_jobs s i = Some y" "x = (if i = j then y\<lparr>jb_finished := True, jb_error := err\<rparr> else y)"
    using i by (auto split: if_splits)
  have "base_ok s i x" using inv_job(1)[OF inv y(1)] y(2) by (auto simp: base_ok_def)
  then show "base_ok (marked j err s) i x" by (rule base_frame) auto
  assume x: "\<not> jb_finished x" "i \<notin> E"
  then have ij: "i \<noteq> j" using i by (auto split: if_splits)
  then have "live_ok s i x" using inv_job(2)[OF inv] i x(1) by auto
  then show "live_ok (marked j err s) i x"
    by (rule live_frame) (use E x(2) in \<open>auto simp: marked_same\<close>)
qed

lemma marked_sub_inv:
  assumes inv: "session_inv {j} s" and "alive s j" "par s j = Some p"
  shows "session_inv {p} (marked j err s)"
proof -
  have "order_ok (marked j err s)" using inv by (simp add: session_inv_def order_ok_def)
  moreover have "tops_ok (marked j err s)" 
  proof -
    have "j \<notin> set (ss_queue s)" "ss_currentJob s \<noteq> Some j" using inv assms(3) unfolding session_inv_def tops_ok_def by (metis option.distinct(1))+
    then show ?thesis using inv assms(3) unfolding session_inv_def tops_ok_def marked_same by auto
  qed
  moreover have "results_ok (marked j err s)" using inv assms(2) by (intro marked_results) (simp_all add: session_inv_def)
  moreover have "base_ok (marked j err s) i x \<and> (\<not> jb_finished x \<and> i \<notin> {p} \<longrightarrow> live_ok (marked j err s) i x)"
    if "ss_jobs (marked j err s) i = Some x" for i x
    using marked_rows[OF inv that, of "{p}"] assms(3) by simp
  ultimately show ?thesis unfolding session_inv_def by blast
qed

lemma jobDone_inv:
  assumes inv: "session_inv {j} s" and j: "alive s j" "par s j = None"
  shows "session_inv {} (jobDone j (marked j err s))"
proof -
  let ?s = "jobDone j (marked j err s)"
  have same: "ss_jobs ?s = ss_jobs (marked j err s)" "ss_results ?s = ss_results s @ [j]" "ss_next ?s = ss_next s" "ss_startedJobs ?s = ss_startedJobs s"
    "ss_connected ?s = ss_connected s"
    by (auto simp: jobDone_def split: list.splits)
  then have acc: "par ?s = par s" "strt ?s = strt s" "\<And>c. alive ?s c \<longleftrightarrow> alive s c \<and> c \<noteq> j"
    using marked_same[where j = j and err = err and s = s] by (simp_all add: par_def strt_def alive_def fun_eq_iff)
  have o: "order_ok s" "tops_ok s" "results_ok s" using inv by (simp_all add: session_inv_def)
  have "order_ok ?s"
  proof (cases "ss_currentJob s = Some j")
    case False
    have "sorted_wrt (<) (ss_startedJobs s @ removeAll j (ss_queue s))"
      using o(1) by (auto simp: order_ok_def sorted_wrt_append sorted_wrt_filter removeAll_filter_not_eq)
    moreover have "ss_queue s \<noteq> []" if "removeAll j (ss_queue s) \<noteq> []" using that by auto
    ultimately show ?thesis using o(1) False by (auto simp: order_ok_def jobDone_def)
  qed (use o in \<open>auto simp: order_ok_def jobDone_def\<close>)
  moreover have "tops_ok ?s"
  proof (cases "ss_currentJob s = Some j")
    case True
    have q: "ss_queue ?s = ss_queue s" "ss_currentJob ?s = None" using True o(1) by (simp_all add: jobDone_def order_ok_def)
    have "j \<notin> set (ss_queue s)" using True o(1) by (auto simp: order_ok_def)
    then show ?thesis using o(2) True unfolding tops_ok_def acc q by auto
  next
    case False
    have q: "ss_queue ?s = removeAll j (ss_queue s)" "ss_currentJob ?s = ss_currentJob s" using False by (simp_all add: jobDone_def)
    show ?thesis using o(2) False unfolding tops_ok_def acc q by auto
  qed
  moreover have "results_ok ?s" using marked_results[OF o(3) j(1), of err] by (simp add: results_ok_def same alive_def)
  moreover have "base_ok ?s i x \<and> (\<not> jb_finished x \<longrightarrow> live_ok ?s i x)" if i: "ss_jobs ?s i = Some x" for i x
  proof -
    note r = marked_rows[OF inv i[unfolded same], of "{}"]
    have "base_ok ?s i x" using r(1) j(2) by (simp add: base_ok_def same)
    moreover have "live_ok ?s i x" if "\<not> jb_finished x"
    proof -
      have "live_ok (marked j err s) i x" using r(2) j(2) that by simp
      then show ?thesis by (rule live_frame) (auto simp: acc marked_same)
    qed
    ultimately show ?thesis by simp
  qed
  ultimately show ?thesis by (simp add: session_inv_def)
qed

lemma jobDone_frame: "ss_jobs (jobDone j s) = ss_jobs s" "ss_next (jobDone j s) = ss_next s" "ss_connected (jobDone j s) = ss_connected s"
  "ss_startedJobs (jobDone j s) = ss_startedJobs s"
  by (auto simp: jobDone_def split: list.splits)

text \<open>What the end of a job does not change.\<close>

definition same_frame :: "session \<Rightarrow> session \<Rightarrow> bool" where
  "same_frame s t \<longleftrightarrow> ss_next t = ss_next s \<and> ss_connected t = ss_connected s \<and> ss_startedJobs t = ss_startedJobs s \<and> par t = par s \<and> strt t = strt s \<and>
     (\<forall>i. ss_jobs t i = None \<longleftrightarrow> ss_jobs s i = None) \<and> (\<forall>i. alive t i \<longrightarrow> alive s i) \<and>
     (ss_jobRunning s = (ss_currentJob s \<noteq> None) \<longrightarrow> ss_jobRunning t = (ss_currentJob t \<noteq> None)) \<and>
     (\<not> ss_jobRunning s \<longrightarrow> \<not> ss_jobRunning t) \<and> set (ss_queue t) \<subseteq> set (ss_queue s)"

lemma same_frame_refl: "same_frame s s"
  by (simp add: same_frame_def)

lemma same_frame_trans: "same_frame s t \<Longrightarrow> same_frame t u \<Longrightarrow> same_frame s u"
  unfolding same_frame_def by auto

lemma same_frame_upd: "harmless f \<Longrightarrow> same_frame s (upd_job j f s)"
  using upd_job_same[of f j s] by (simp add: same_frame_def)

lemma same_frame_marked: "same_frame s (marked j err s)"
  unfolding same_frame_def marked_same marked_none by simp

lemma same_frame_jobDone: "ss_pipeline s = [] \<Longrightarrow> same_frame s (jobDone j s)"
  by (auto simp: same_frame_def jobDone_def par_def strt_def alive_def fun_eq_iff)

lemma harmless_simps [simp]:
  "harmless (\<lambda>x. x\<lparr>jb_current := c\<rparr>)" "harmless (\<lambda>x. x\<lparr>jb_subs := g x\<rparr>)" "harmless (\<lambda>x. x\<lparr>jb_startNext := n x\<rparr>)" "harmless (\<lambda>x. x\<lparr>jb_emit := n x\<rparr>)"
  "harmless (\<lambda>x. x\<lparr>jb_tag := t\<rparr>)" "harmless (\<lambda>x. x\<lparr>jb_readingFinished := b\<rparr>)" "harmless (\<lambda>x. x\<lparr>jb_finishPending := b\<rparr>)"
  by (simp_all add: harmless_def)

lemma emit_done: "\<not> alive s j \<Longrightarrow> emitResult j err s = s"
  by (subst emitResult.simps) (auto simp: alive_def split: option.splits)

text \<open>One level of the end of a job.\<close>

lemma emit_top:
  assumes "alive s j" "par s j = None"
  shows "emitResult j err s = jobDone j (marked j err s)"
proof -
  obtain x where "ss_jobs s j = Some x" "\<not> jb_finished x" using alive_job[OF assms(1)] by auto
  moreover from this have "jb_parent x = None" using assms(2) by (simp add: par_def)
  ultimately show ?thesis by (subst emitResult.simps) (simp add: Let_def fun_upd_def)
qed

lemma emit_sub:
  assumes "alive s j" "par s j = Some p" "p < j" "ss_jobs (marked j err s) p = Some y"
  shows "emitResult j err s =
    (if jb_current y = Some j then
       (let s2 = upd_job p (\<lambda>y. y\<lparr>jb_current := None\<rparr>) (marked j err s);
            s3 = (if err \<and> \<not> jb_error y then emitResult p True s2 else s2);
            s4 = upd_job p (\<lambda>y. y\<lparr>jb_subs := removeAll j (jb_subs y)\<rparr>) s3
        in if err then s4 else later_startNext p s4)
     else upd_job p (\<lambda>y. y\<lparr>jb_subs := removeAll j (jb_subs y)\<rparr>) (marked j err s))"
proof -
  obtain x where x: "ss_jobs s j = Some x" "\<not> jb_finished x" using alive_job[OF assms(1)] by auto
  moreover from this have "jb_parent x = Some p" using assms(2) by (simp add: par_def)
  moreover have "ss_jobs s p = Some y" using assms(3,4) by simp
  ultimately show ?thesis using assms(3) by (subst emitResult.simps) (simp add: Let_def fun_upd_def)
qed

lemma emit_inv:
  "session_inv {j} s \<Longrightarrow> alive s j \<Longrightarrow>
     session_inv {} (emitResult j err s) \<and> \<not> alive (emitResult j err s) j \<and> same_frame s (emitResult j err s)"
proof (induction j arbitrary: s err rule: less_induct)
  case (less j)
  let ?m = "marked j err s"
  have pipe: "ss_pipeline ?m = []" using less.prems(1) by (simp add: session_inv_def order_ok_def)
  show ?case
  proof (cases "par s j")
    case None
    have "\<not> alive (jobDone j ?m) j" using marked_same(3)[where j = j and err = err and s = s and c = j] by (simp add: alive_def jobDone_frame)
    then show ?thesis using jobDone_inv[OF less.prems None] same_frame_trans[OF same_frame_marked same_frame_jobDone[OF pipe]]
      by (simp add: emit_top[OF less.prems(2) None])
  next
    case (Some p)
    obtain x where x: "ss_jobs s j = Some x" using alive_job[OF less.prems(2)] by auto
    have pj: "p < j" "ss_jobs s p \<noteq> None" using inv_job(1)[OF less.prems(1) x] Some x by (auto simp: base_ok_def par_def)
    then obtain y where y: "ss_jobs s p = Some y" "ss_jobs ?m p = Some y" by auto
    note m = marked_sub_inv[OF less.prems Some, of err]
    have nj: "\<not> alive ?m j" by (simp add: marked_same)
    have base: "\<not> jb_finished y \<Longrightarrow> \<not> jb_error y" using inv_job(1)[OF less.prems(1) y(1)] by (simp add: base_ok_def)
    have live: "live_ok s p y" if "\<not> jb_finished y" using inv_job(2)[OF less.prems(1) y(1) that] pj(1) by simp
    note frame = same_frame_trans[OF same_frame_marked[where s = s and j = j and err = err] same_frame_upd]
    note dead = upd_job_same(3)
    show ?thesis
    proof (cases "jb_current y = Some j")
      case False
      let ?f = "\<lambda>y. y\<lparr>jb_subs := removeAll j (jb_subs y)\<rparr>"
      have "session_inv {} (upd_job p ?f ?m)"
      proof (rule upd_job_inv[OF m])
        fix z assume z: "ss_jobs ?m p = Some z" "\<not> jb_finished z"
        then have "z = y" using y(2) by simp
        then show "live_ok (upd_job p ?f ?m) p (?f z)"
          using live z(2) False unfolding live_ok_def upd_job_same[OF harmless_simps(2)] marked_same by auto
      qed auto
      then show ?thesis using nj frame[OF harmless_simps(2)] by (simp add: emit_sub[OF less.prems(2) Some pj(1) y(2)] False dead del: upd_job_fields(10))
    next
      case True
      let ?s2 = "upd_job p (\<lambda>y. y\<lparr>jb_current := None\<rparr>) ?m"
      let ?g = "\<lambda>y. y\<lparr>jb_subs := removeAll j (jb_subs y)\<rparr>"
      have s2: "session_inv {p} ?s2" by (rule upd_job_inv[OF m]) auto
      have fr2: "same_frame s ?s2" using frame[OF harmless_simps(1)] .
      have nj2: "\<not> alive ?s2 j" using nj by (simp add: dead del: upd_job_fields(10))
      show ?thesis
      proof (cases err)
        case err: True
        define s3 where "s3 = (if \<not> jb_error y then emitResult p True ?s2 else ?s2)"
        have s3: "session_inv {p} s3 \<and> \<not> alive s3 p \<and> same_frame ?s2 s3"
        proof (cases "jb_finished y")
          case True
          then have "\<not> alive ?s2 p" using y(2) by (simp add: alive_def)
          then show ?thesis using s2 by (simp add: s3_def emit_done same_frame_refl)
        next
          case False
          then have "alive ?s2 p" using y(2) by (simp add: alive_def)
          then show ?thesis using less.IH[OF pj(1) s2] base[OF False] session_inv_mono[of "{}" _ "{p}"] by (simp add: s3_def)
        qed
        have "\<not> alive s3 j" using nj2 s3 by (auto simp: same_frame_def)
        moreover have "session_inv {} (upd_job p ?g s3)" using s3 by (intro upd_finished_inv[where E = "{p}"]) auto
        moreover have "same_frame s (upd_job p ?g s3)" 
          by (rule same_frame_trans[OF same_frame_trans[OF fr2] same_frame_upd[OF harmless_simps(2)]]) (use s3 in simp)
        moreover have "emitResult j err s = upd_job p ?g s3"
          unfolding emit_sub[OF less.prems(2) Some pj(1) y(2)] s3_def Let_def using True err by simp
        ultimately show ?thesis by (simp add: dead del: upd_job_fields(10))
      next
        case ok: False
        have s4: "session_inv {p} (upd_job p ?g ?s2)" by (rule upd_job_inv[OF s2]) auto
        have "session_inv {} (later_startNext p (upd_job p ?g ?s2))"
        proof (rule upd_job_inv[OF s4])
          fix z assume z: "ss_jobs (upd_job p ?g ?s2) p = Some z" "\<not> jb_finished z"
          then have "z = ?g (y\<lparr>jb_current := None\<rparr>)" using y(2) by simp
          then show "live_ok (later_startNext p (upd_job p ?g ?s2)) p (z\<lparr>jb_startNext := Suc (jb_startNext z)\<rparr>)"
            using live z(2) True
            unfolding live_ok_def upd_job_same[OF harmless_simps(3)] upd_job_same[OF harmless_simps(2)] upd_job_same[OF harmless_simps(1)] marked_same by auto
        qed auto
        moreover have "same_frame s (later_startNext p (upd_job p ?g ?s2))"
          by (rule same_frame_trans[OF same_frame_trans[OF fr2 same_frame_upd[OF harmless_simps(2)]] same_frame_upd[OF harmless_simps(3)]])
        moreover have "emitResult j err s = later_startNext p (upd_job p ?g ?s2)"
          unfolding emit_sub[OF less.prems(2) Some pj(1) y(2)] Let_def using True ok by simp
        ultimately show ?thesis using nj2 by (simp add: dead del: upd_job_fields(10))
      qed
    qed
  qed
qed

lemma session_level:
  assumes "session_inv E s" "ss_jobs t = ss_jobs s" "ss_next t = ss_next s" "ss_queue t = ss_queue s" "ss_pipeline t = ss_pipeline s"
    "ss_currentJob t = ss_currentJob s" "ss_startedJobs t = ss_startedJobs s" "ss_results t = ss_results s"
    "ss_connected t \<and> ss_queue s \<noteq> [] \<and> ss_currentJob s = None \<Longrightarrow> 0 < ss_timers t"
  shows "session_inv E t"
proof -
  have acc: "par t = par s" "strt t = strt s" "alive t = alive s" using assms(2) by (simp_all add: par_def strt_def alive_def fun_eq_iff)
  have "live_ok t i x = live_ok s i x" "base_ok t i x = base_ok s i x" for i x unfolding live_ok_def base_ok_def acc assms(2,3) by simp_all
  then show ?thesis using assms by (simp add: session_inv_def session_parts acc)
qed

text \<open>A job on the way from the current job of the session to the one that is asked.\<close>

inductive on_path :: "session \<Rightarrow> nat \<Rightarrow> bool" for s :: session where
  path_top: "par s j = None \<Longrightarrow> ss_currentJob s = Some j \<Longrightarrow> on_path s j"
| path_sub: "par s j = Some p \<Longrightarrow> ss_jobs s p = Some y \<Longrightarrow> jb_current y = Some j \<Longrightarrow> on_path s p \<Longrightarrow> on_path s j"

lemma on_path_frame:
  assumes "on_path s j" "session_inv E s" "par t = par s" "ss_currentJob t = ss_currentJob s" "\<And>q. q < j \<Longrightarrow> ss_jobs t q = ss_jobs s q" "ss_jobs s j \<noteq> None"
  shows "on_path t j"
  using assms(1,5,6)
proof (induction rule: on_path.induct)
  case (path_top j)
  then show ?case using assms(3,4) by (auto intro: on_path.path_top)
next
  case (path_sub j p y)
  obtain x where "ss_jobs s j = Some x" using path_sub.prems(2) by auto
  then have "p < j" using inv_job(1)[OF assms(2)] path_sub.hyps(1) by (auto simp: base_ok_def par_def)
  then have "on_path t p" "ss_jobs t p = Some y" using path_sub by auto
  then show ?case using path_sub.hyps(1,3) assms(3) by (auto intro: on_path.path_sub)
qed

lemma top_alive:
  assumes "session_inv E s"
  shows "ss_currentJob s = Some j \<Longrightarrow> alive s j \<and> par s j = None" "j \<in> set (ss_queue s) \<Longrightarrow> alive s j \<and> par s j = None \<and> \<not> strt s j"
  using assms unfolding session_inv_def tops_ok_def by blast+

lemma on_path_job: "on_path s q \<Longrightarrow> session_inv E s \<Longrightarrow> ss_jobs s q \<noteq> None"
proof (induction rule: on_path.induct)
  case (path_top j)
  then show ?case using top_alive(1) alive_job by blast
next
  case (path_sub j p y)
  then show ?case by (auto simp: par_def split: option.splits)
qed

lemma error_clears:
  "session_inv {j} s \<Longrightarrow> alive s j \<Longrightarrow> on_path s j \<Longrightarrow> (\<And>q y. on_path s q \<Longrightarrow> q < j \<Longrightarrow> alive s q) \<Longrightarrow>
     ss_currentJob (emitResult j True s) = None"
proof (induction j arbitrary: s rule: less_induct)
  case (less j)
  let ?m = "marked j True s"
  show ?case
  proof (cases "par s j")
    case None
    have "ss_currentJob s = Some j" using less.prems(3) None by (cases rule: on_path.cases) auto
    moreover have "ss_pipeline s = []" using less.prems(1) by (simp add: session_inv_def order_ok_def)
    ultimately show ?thesis by (simp add: emit_top[OF less.prems(2) None] jobDone_def)
  next
    case (Some p)
    with less.prems(3) obtain y where y: "ss_jobs s p = Some y" "jb_current y = Some j" "on_path s p" by (cases rule: on_path.cases) auto
    obtain x where x: "ss_jobs s j = Some x" using alive_job[OF less.prems(2)] by auto
    have pj: "p < j" using inv_job(1)[OF less.prems(1) x] Some x by (auto simp: base_ok_def par_def)
    have p: "alive s p" using less.prems(4) y(3) pj by blast
    then have e: "\<not> jb_error y" using inv_job(1)[OF less.prems(1) y(1)] y(1) by (simp add: base_ok_def alive_def)
    have ym: "ss_jobs ?m p = Some y" using y(1) pj by simp
    let ?s2 = "upd_job p (\<lambda>y. y\<lparr>jb_current := None\<rparr>) ?m"
    have s2: "session_inv {p} ?s2" by (rule upd_job_inv[OF marked_sub_inv[OF less.prems(1,2) Some]]) auto
    have par: "par ?s2 = par s" unfolding upd_job_same[OF harmless_simps(1)] marked_same by simp
    have cur: "ss_currentJob ?s2 = ss_currentJob s" by simp
    have alive2: "alive ?s2 c \<longleftrightarrow> alive s c \<and> c \<noteq> j" for c unfolding upd_job_same[OF harmless_simps(1)] marked_same by simp
    have path: "on_path ?s2 p"
      by (rule on_path_frame[OF y(3) less.prems(1) par cur]) (use pj y(1) in auto)
    have up: "alive ?s2 q" if q: "on_path ?s2 q" "q < p" for q
    proof -
      have "ss_jobs ?s2 q \<noteq> None" by (rule on_path_job[OF q(1) s2])
      then have "on_path s q" by (intro on_path_frame[OF q(1) s2]) (use par cur q(2) pj in auto)
      then show ?thesis using less.prems(4) q(2) pj alive2 by auto
    qed
    have "alive ?s2 p" using p pj alive2 by auto
    then have "ss_currentJob (emitResult p True ?s2) = None" using less.IH[OF pj s2 _ path] up by blast
    then show ?thesis unfolding emit_sub[OF less.prems(2) Some pj ym] using y(2) e by (simp add: Let_def)
  qed
qed

text \<open>A job whose parents have not ended either; in an orderly state a started one is on the path.\<close>

inductive attached :: "session \<Rightarrow> nat \<Rightarrow> bool" for s :: session where
  attached_top: "alive s j \<Longrightarrow> par s j = None \<Longrightarrow> attached s j"
| attached_sub: "alive s j \<Longrightarrow> par s j = Some p \<Longrightarrow> attached s p \<Longrightarrow> attached s j"

lemma attached_alive: "attached s j \<Longrightarrow> alive s j"
  by (auto elim: attached.cases)

lemma attached_path:
  assumes inv: "session_inv {} s"
  shows "attached s j \<Longrightarrow> strt s j \<Longrightarrow> on_path s j"
proof (induction rule: attached.induct)
  case (attached_top j)
  then have "ss_currentJob s = Some j" using top_alive(2)[OF inv, of j] inv unfolding session_inv_def tops_ok_def by blast
  then show ?case using attached_top by (intro path_top)
next
  case (attached_sub j p)
  obtain y where y: "ss_jobs s p = Some y" "\<not> jb_finished y" using attached_alive[OF attached_sub.hyps(3)] alive_job by blast
  have live: "live_ok s p y" by (rule inv_job(2)[OF inv y]) simp
  then have c: "jb_current y = Some j" using attached_sub unfolding live_ok_def by auto
  then have "strt s p" using live y(1) unfolding live_ok_def strt_def by auto
  then show ?case using attached_sub y c by (auto intro: path_sub)
qed

lemma parent_less:
  assumes "session_inv E s" "par s c = Some p"
  shows "p < c" "ss_jobs s p \<noteq> None"
proof -
  obtain x where "ss_jobs s c = Some x" "jb_parent x = Some p" using assms(2) by (auto simp: par_def split: option.splits)
  then show "p < c" "ss_jobs s p \<noteq> None" using inv_job(1)[OF assms(1)] by (auto simp: base_ok_def)
qed

lemma path_alive:
  assumes inv: "session_inv {j} s"
  shows "on_path s q \<Longrightarrow> q < j \<Longrightarrow> alive s q"
proof (induction rule: on_path.induct)
  case (path_top q)
  then show ?case using top_alive(1)[OF inv] by blast
next
  case (path_sub c p y)
  have "p < c" using parent_less(1)[OF inv path_sub.hyps(1)] .
  then have p: "alive s p" "p \<noteq> j" using path_sub by auto
  then have "\<not> jb_finished y" using path_sub.hyps(2) by (simp add: alive_def)
  then have "live_ok s p y" using inv_job(2)[OF inv path_sub.hyps(2)] p(2) by simp
  then show ?case using path_sub.hyps(3) unfolding live_ok_def by auto
qed

lemma path_error:
  assumes "session_inv {j} s" "alive s j" "on_path s j"
  shows "ss_currentJob (emitResult j True s) = None"
  using error_clears[OF assms] path_alive[OF assms(1)] by blast

section \<open>The operations keep the invariant\<close>

definition running_ok :: "session \<Rightarrow> bool" where
  "running_ok s \<longleftrightarrow> (ss_jobRunning s \<longleftrightarrow> ss_currentJob s \<noteq> None)"

definition session_ok :: "session \<Rightarrow> bool" where
  "session_ok s \<longleftrightarrow> session_inv {} s \<and> running_ok s"

lemma dead_exempt:
  assumes "session_inv {j} s" "\<not> alive s j"
  shows "session_inv {} s"
proof -
  have "i \<noteq> j" if "ss_jobs s i = Some x" "\<not> jb_finished x" for i x using assms(2) that by (auto simp: alive_def)
  then show ?thesis using assms(1) unfolding session_inv_def by blast
qed

lemma emit_ok:
  assumes "session_inv {j} s" "running_ok s"
  shows "session_ok (emitResult j err s)"
proof (cases "alive s j")
  case True
  then show ?thesis using emit_inv[OF assms(1) True, of err] assms(2) by (simp add: session_ok_def running_ok_def same_frame_def)
next
  case False
  have "session_inv {} s" by (rule dead_exempt[OF assms(1) False])
  then show ?thesis using assms(2) False by (simp add: emit_done session_ok_def)
qed

lemma weaken: "session_inv {} s \<Longrightarrow> session_inv E s"
  by (auto simp: session_inv_def)

lemma started_same:
  "par (upd_job j (\<lambda>x. x\<lparr>jb_started := b\<rparr>) s) = par s" "alive (upd_job j (\<lambda>x. x\<lparr>jb_started := b\<rparr>) s) = alive s"
  "strt (upd_job j (\<lambda>x. x\<lparr>jb_started := b\<rparr>) s) i \<longleftrightarrow> (if i = j \<and> ss_jobs s j \<noteq> None then b else strt s i)"
  "ss_jobs (upd_job j (\<lambda>x. x\<lparr>jb_started := b\<rparr>) s) i = None \<longleftrightarrow> ss_jobs s i = None"
  by (auto simp: fun_eq_iff par_def strt_def alive_def upd_job_def split: option.splits)

lemma unstart_inv:
  assumes inv: "session_inv {} s"
  shows "session_inv {j} (upd_job j (\<lambda>x. x\<lparr>jb_started := False\<rparr>) s)" (is "session_inv _ ?t")
proof -
  have "base_ok ?t i x \<and> (\<not> jb_finished x \<and> i \<notin> {j} \<longrightarrow> live_ok ?t i x)" if i: "ss_jobs ?t i = Some x" for i x
  proof -
    obtain y where y: "ss_jobs s i = Some y" "x = (if i = j then y\<lparr>jb_started := False\<rparr> else y)" using i by (auto split: if_splits)
    have "base_ok s i x" using inv_job(1)[OF inv y(1)] y(2) by (auto simp: base_ok_def)
    then have "base_ok ?t i x" by (rule base_frame) (simp, rule started_same)
    moreover have "live_ok ?t i x" if "\<not> jb_finished x" "i \<noteq> j"
    proof -
      have "live_ok s i x" using inv_job(2)[OF inv y(1)] y(2) that by simp
      then show ?thesis unfolding live_ok_def started_same by auto
    qed
    ultimately show ?thesis by simp
  qed
  moreover have "order_ok ?t" "tops_ok ?t" "results_ok ?t"
    using inv unfolding session_inv_def session_parts started_same by (auto simp: started_same)
  ultimately show ?thesis by (simp add: session_inv_def)
qed

lemma reconnect_inv: "session_inv E s \<Longrightarrow> session_inv E (forceReconnect s)"
  by (erule session_level) (simp_all add: forceReconnect_def)

text \<open>A job is killed with its parents still there; a started one takes the connection with it.\<close>

lemma kill_ok:
  assumes ok: "session_ok s" and j: "attached s j \<or> \<not> strt s j"
  shows "session_ok (kill_job j s)"
proof (cases "alive s j")
  case False
  then show ?thesis using ok by (auto simp: kill_job_def alive_def split: option.splits)
next
  case True
  then obtain x where x: "ss_jobs s j = Some x" "\<not> jb_finished x" using alive_job by blast
  have inv: "session_inv {} s" using ok by (simp add: session_ok_def)
  let ?u = "\<lambda>s. upd_job j (\<lambda>x. x\<lparr>jb_started := False\<rparr>) s"
  show ?thesis
  proof (cases "jb_started x")
    case False
    have "running_ok (?u s)" using ok by (simp add: session_ok_def running_ok_def)
    then have "session_ok (emitResult j True (?u s))" using unstart_inv[OF inv] by (intro emit_ok)
    then show ?thesis using x False by (simp add: kill_job_def)
  next
    case started: True
    let ?t = "?u (forceReconnect s)"
    have t: "session_inv {j} ?t" by (rule unstart_inv[OF reconnect_inv[OF inv]])
    have alive: "alive ?t j" using True unfolding started_same by (simp add: alive_def forceReconnect_def)
    have "strt s j" using x(1) started by (simp add: strt_def)
    then have path: "on_path s j" using attached_path[OF inv] j by blast
    have par: "par ?t = par s" unfolding started_same by (simp add: par_def forceReconnect_def fun_eq_iff)
    have "on_path ?t j" by (rule on_path_frame[OF path inv par]) (use x in \<open>auto simp: forceReconnect_def\<close>)
    then have "ss_currentJob (emitResult j True ?t) = None" by (rule path_error[OF t alive])
    moreover have "\<not> ss_jobRunning (emitResult j True ?t)" using emit_inv[OF t alive, of True] by (simp add: same_frame_def forceReconnect_def)
    ultimately have "session_ok (emitResult j True ?t)" using emit_inv[OF t alive, of True] by (simp add: session_ok_def running_ok_def)
    then show ?thesis using x started by (simp add: kill_job_def)
  qed
qed

lemma deepest_alive:
  "session_inv {} s \<Longrightarrow> alive s j \<Longrightarrow> alive s (deepest s j) \<and> (on_path s j \<longrightarrow> on_path s (deepest s j))"
proof (induction s j rule: deepest.induct)
  case (1 s j)
  obtain x where x: "ss_jobs s j = Some x" "\<not> jb_finished x" using alive_job[OF "1.prems"(2)] by blast
  have live: "live_ok s j x" using inv_job(2)[OF "1.prems"(1) x] by simp
  show ?case
  proof (cases "\<exists>c. jb_current x = Some c \<and> j < c \<and> c < ss_next s")
    case True
    then obtain c where c: "jb_current x = Some c" "j < c" "c < ss_next s" by blast
    have "alive s c \<and> par s c = Some j" using live c(1) unfolding live_ok_def by auto
    moreover have "deepest s j = deepest s c" using x c by (subst deepest.simps) simp
    ultimately show ?thesis using "1.IH"[OF x(1) c(1)] "1.prems"(1) c x(1) by (auto intro: path_sub)
  next
    case False
    then have "deepest s j = j" using x by (subst deepest.simps) (auto split: option.splits)
    then show ?thesis using "1.prems" by simp
  qed
qed

text \<open>New tags change nothing but tags.\<close>

definition retag :: "(nat \<Rightarrow> int \<Rightarrow> int) \<Rightarrow> int \<Rightarrow> session \<Rightarrow> session" where
  "retag g n s = s\<lparr>ss_theNextTag := n, ss_jobs := \<lambda>i. map_option (\<lambda>x. x\<lparr>jb_tag := g i (jb_tag x)\<rparr>) (ss_jobs s i)\<rparr>"

lemma retag_id: "retag (\<lambda>_ t. t) n s = s\<lparr>ss_theNextTag := n\<rparr>"
  by (simp add: retag_def option.map_ident)

lemma retag_upd: "upd_job j (\<lambda>x. x\<lparr>jb_tag := t\<rparr>) (retag g n s) = retag (g(j := \<lambda>_. t)) n s"
  by (rule session.equality) (auto simp: retag_def upd_job_def fun_eq_iff option.map_comp o_def)

lemma newTag_retags: "\<exists>g n. newTag j s = retag g n s"
proof (induction j s rule: newTag.induct)
  case (1 j s)
  show ?case
  proof (cases "ss_jobs s j")
    case None
    have "newTag j s = retag (\<lambda>_ t. t) (ss_theNextTag s) s" using None by (subst newTag.simps) (simp add: retag_id)
    then show ?thesis by blast
  next
    case (Some x)
    let ?s = "case jb_parent x of None \<Rightarrow> s\<lparr>ss_theNextTag := ss_theNextTag s + 1\<rparr> | Some p \<Rightarrow> if p < j then newTag p s else s"
    have "\<exists>g n. ?s = retag g n s"
    proof (cases "jb_parent x")
      case None
      then show ?thesis using retag_id[symmetric] by auto
    next
      case (Some p)
      then show ?thesis using "1.IH"[OF \<open>ss_jobs s j = Some x\<close> Some] retag_id[of "ss_theNextTag s" s, symmetric] by (cases "p < j") auto
    qed
    then obtain g n where g: "?s = retag g n s" by blast
    have "newTag j s = upd_job j (\<lambda>y. y\<lparr>jb_tag := ss_theNextTag ?s - 1\<rparr>) ?s" using Some by (subst newTag.simps) (simp add: Let_def)
    then show ?thesis unfolding g retag_upd by blast
  qed
qed

lemma live_tag: "live_ok s i (x\<lparr>jb_tag := v\<rparr>) \<longleftrightarrow> live_ok s i x"
  by (simp add: live_ok_def)

lemma retag_inv:
  assumes inv: "session_inv E s"
  shows "session_inv E (retag g n s)"
proof -
  let ?t = "retag g n s"
  have same: "par ?t = par s" "strt ?t = strt s" "alive ?t = alive s" "\<And>i. ss_jobs ?t i = None \<longleftrightarrow> ss_jobs s i = None"
    by (auto simp: retag_def par_def strt_def alive_def fun_eq_iff split: option.splits)
  have fields: "ss_queue ?t = ss_queue s" "ss_pipeline ?t = ss_pipeline s" "ss_currentJob ?t = ss_currentJob s" "ss_next ?t = ss_next s"
    "ss_startedJobs ?t = ss_startedJobs s" "ss_results ?t = ss_results s" "ss_connected ?t = ss_connected s" "ss_timers ?t = ss_timers s"
    by (simp_all add: retag_def)
  have "base_ok ?t i x \<and> (\<not> jb_finished x \<and> i \<notin> E \<longrightarrow> live_ok ?t i x)" if i: "ss_jobs ?t i = Some x" for i x
  proof -
    obtain y where y: "ss_jobs s i = Some y" "x = y\<lparr>jb_tag := g i (jb_tag y)\<rparr>" using i by (auto simp: retag_def)
    have "base_ok s i y" "\<not> jb_finished y \<and> i \<notin> E \<Longrightarrow> live_ok s i y" using inv_job[OF inv y(1)] by blast+
    then have "base_ok ?t i y" "\<not> jb_finished y \<and> i \<notin> E \<Longrightarrow> live_ok ?t i y"
      using base_frame[OF _ fields(4) same(4)] live_frame[of s i y ?t] same(1-3) by simp_all
    then show ?thesis unfolding y(2) live_tag by (simp add: base_ok_def)
  qed
  moreover have "order_ok ?t" "tops_ok ?t" "results_ok ?t" using inv unfolding session_inv_def session_parts same fields by simp_all
  ultimately show ?thesis by (simp add: session_inv_def)
qed

lemma retag_later: "later_startNext j (retag g n s) = retag g n (later_startNext j s)"
  by (cases "ss_jobs s j"; rule session.equality) (auto simp: retag_def upd_job_def fun_eq_iff option.map_comp o_def)

lemma session_same:
  assumes "session_inv E s" "ss_jobs t = ss_jobs s" "ss_next t = ss_next s" "ss_queue t = ss_queue s" "ss_pipeline t = ss_pipeline s"
    "ss_currentJob t = ss_currentJob s" "ss_startedJobs t = ss_startedJobs s" "ss_results t = ss_results s" "ss_connected t \<longrightarrow> ss_connected s" "ss_timers s \<le> ss_timers t"
  shows "session_inv E t"
proof (rule session_level[OF assms(1-8)])
  assume "ss_connected t \<and> ss_queue s \<noteq> [] \<and> ss_currentJob s = None"
  then have "0 < ss_timers s" using assms(1,9) by (simp add: session_inv_def order_ok_def)
  then show "0 < ss_timers t" using assms(10) by simp
qed

text \<open>A job that has just been marked as started does what it does and gets its timer.\<close>

lemma run_started:
  assumes inv: "session_inv {j} s" and run: "running_ok s" and j: "alive s j"
    and struct: "\<And>x. ss_jobs s j = Some x \<Longrightarrow> live_ok (later_startNext j s) j (x\<lparr>jb_startNext := Suc (jb_startNext x)\<rparr>)"
  shows "session_ok (later_startNext j (doStart w j s))"
proof -
  have idle: "session_inv {} (later_startNext j s)" by (rule upd_job_inv[OF inv]) (use struct in auto)
  show ?thesis
  proof (cases w)
    case SendsCommand
    obtain g n where g: "newTag j s = retag g n s" using newTag_retags by blast
    have sent: "later_startNext j (t\<lparr>ss_sent := l\<rparr>) = (later_startNext j t)\<lparr>ss_sent := l\<rparr>" for t l by (simp add: upd_job_def)
    have "ss_theNextTag (retag g n s) = n" "ss_sent (retag g n s) = ss_sent s" by (simp_all add: retag_def)
    then have "later_startNext j (doStart w j s) = (retag g n (later_startNext j s))\<lparr>ss_sent := ss_sent s @ [(n - 1, j)]\<rparr>"
      unfolding SendsCommand doStart_def work.case Let_def g sent retag_later by simp
    moreover have "session_inv {} ((retag g n (later_startNext j s))\<lparr>ss_sent := ss_sent s @ [(n - 1, j)]\<rparr>)"
      by (rule session_same[OF retag_inv[OF idle, of g n]]) simp_all
    ultimately show ?thesis using run by (simp add: session_ok_def running_ok_def retag_def)
  next
    case UsesSubjobs
    then show ?thesis using idle run by (simp add: doStart_def session_ok_def running_ok_def)
  next
    case (EndsAtOnce err)
    note e = emit_inv[OF inv j, of err]
    have "session_inv {} (later_startNext j (emitResult j err s))" using e by (intro upd_finished_inv[where E = "{}"]) auto
    then show ?thesis using EndsAtOnce e run by (simp add: doStart_def session_ok_def running_ok_def same_frame_def)
  qed
qed

lemma start_struct:
  assumes live: "live_ok s j x" and ns: "\<not> jb_started x" and same: "par t = par s" "alive t = alive s" "\<And>c. c \<noteq> j \<Longrightarrow> strt t c = strt s c"
    and self: "par s j \<noteq> Some j"
  shows "live_ok (later_startNext j t) j (x\<lparr>jb_started := True, jb_startNext := Suc (jb_startNext x)\<rparr>)"
proof -
  have none: "jb_current x = None" using live ns unfolding live_ok_def by (cases "jb_current x") auto
  have "\<not> strt t c" if "alive s c \<and> par s c = Some j" for c
  proof -
    have "c \<noteq> j" using that self by auto
    then show ?thesis using live none that same(3)[of c] unfolding live_ok_def by auto
  qed
  then show ?thesis using live none unfolding live_ok_def upd_job_same[OF harmless_simps(3)] same by auto
qed

lemma start_sub_ok:
  assumes inv: "session_inv {p} s" and run: "running_ok s" and y: "ss_jobs s p = Some y" "\<not> jb_finished y" "jb_started y" "jb_current y = None"
    and subs: "set (jb_subs y) = {c. alive s c \<and> par s c = Some p}" "\<forall>c \<in> set (jb_subs y). \<not> strt s c" and j: "j \<in> set (jb_subs y)"
  shows "session_ok (startQueued w j s)"
proof -
  let ?u = "upd_job j (\<lambda>x. x\<lparr>jb_started := True\<rparr>) s"
  let ?t = "upd_job p (\<lambda>y. y\<lparr>jb_current := Some j\<rparr>) ?u"
  have aj: "alive s j" "par s j = Some p" using j subs(1) by auto
  obtain x where x: "ss_jobs s j = Some x" "\<not> jb_finished x" using alive_job[OF aj(1)] by blast
  have pj: "p < j" using parent_less(1)[OF inv aj(2)] .
  have px: "jb_parent x = Some p" using aj(2) x(1) by (simp add: par_def)
  have ns: "\<not> jb_started x" using subs(2) j x(1) by (auto simp: strt_def)
  have same: "par ?t = par s" "alive ?t = alive s" unfolding upd_job_same[OF harmless_simps(1)] started_same by simp_all
  have st: "strt ?t c \<longleftrightarrow> c = j \<or> strt s c" for c unfolding upd_job_same[OF harmless_simps(1)] started_same using x(1) by auto
  have ex: "ss_jobs ?t i = None \<longleftrightarrow> ss_jobs s i = None" for i by (auto split: if_splits)
  have "base_ok ?t i z \<and> (\<not> jb_finished z \<and> i \<notin> {j} \<longrightarrow> live_ok ?t i z)" if i: "ss_jobs ?t i = Some z" for i z
  proof -
    obtain v where v: "ss_jobs s i = Some v" "z = (if i = p then v\<lparr>jb_current := Some j\<rparr> else if i = j then v\<lparr>jb_started := True\<rparr> else v)"
      using i pj by (auto split: if_splits)
    have "base_ok s i z" using inv_job(1)[OF inv v(1)] v(2) by (auto simp: base_ok_def)
    then have "base_ok ?t i z" by (rule base_frame) (simp, rule ex)
    moreover have "live_ok ?t i z" if z: "\<not> jb_finished z" "i \<noteq> j"
    proof (cases "i = p")
      case True
      then have "z = y\<lparr>jb_current := Some j\<rparr>" using v y(1) by simp
      then show ?thesis using True subs j y(3) unfolding live_ok_def same st by auto
    next
      case False
      then have "live_ok s i v" using inv_job(2)[OF inv v(1)] z v(2) by auto
      then have "live_ok ?t i v" by (rule live_frame) (use same st aj(2) False in auto)
      then show ?thesis using v(2) z(2) False by simp
    qed
    ultimately show ?thesis by simp
  qed
  moreover have "order_ok ?t" using inv by (simp add: session_inv_def order_ok_def)
  moreover have "tops_ok ?t"
  proof -
    have "j \<notin> set (ss_queue s)" using top_alive(2)[OF inv, of j] aj(2) by auto
    then show ?thesis using inv unfolding session_inv_def tops_ok_def same st by auto
  qed
  moreover have "results_ok ?t" using inv unfolding session_inv_def results_ok_def same ex by simp
  ultimately have t: "session_inv {j} ?t" by (simp add: session_inv_def)
  have live: "live_ok s j x" using inv_job(2)[OF inv x] pj by simp
  have struct: "live_ok (later_startNext j ?t) j (z\<lparr>jb_startNext := Suc (jb_startNext z)\<rparr>)" if "ss_jobs ?t j = Some z" for z
  proof -
    have "z = x\<lparr>jb_started := True\<rparr>" using that x(1) pj by simp
    then show ?thesis using start_struct[OF live ns same] st aj(2) pj by simp
  qed
  have "session_ok (later_startNext j (doStart (w j) j ?t))"
    by (rule run_started[OF t]) (use run aj(1) same struct in \<open>auto simp: running_ok_def\<close>)
  then show ?thesis using x(1) px by (simp add: startQueued_def Let_def)
qed

lemma start_top_ok:
  assumes inv: "session_inv {} s" and run: "running_ok s" and j: "ss_currentJob s = Some j" "\<not> strt s j" and new: "\<forall>i \<in> set (ss_startedJobs s). i < j"
  shows "session_ok (startQueued w j s)"
proof -
  let ?u = "upd_job j (\<lambda>x. x\<lparr>jb_started := True\<rparr>) s"
  let ?t = "?u\<lparr>ss_startedJobs := ss_startedJobs s @ [j]\<rparr>"
  have aj: "alive s j" "par s j = None" using top_alive(1)[OF inv j(1)] by auto
  obtain x where x: "ss_jobs s j = Some x" "\<not> jb_finished x" using alive_job[OF aj(1)] by blast
  have px: "jb_parent x = None" using aj(2) x(1) by (simp add: par_def)
  have ns: "\<not> jb_started x" using j(2) x(1) by (simp add: strt_def)
  have jobs: "ss_jobs ?t = ss_jobs ?u" by simp
  then have acc: "par ?t = par ?u" "alive ?t = alive ?u" "strt ?t = strt ?u" by (simp_all add: par_def alive_def strt_def fun_eq_iff)
  have same: "par ?t = par s" "alive ?t = alive s" unfolding acc started_same by simp_all
  have st: "strt ?t c \<longleftrightarrow> c = j \<or> strt s c" for c unfolding acc started_same using x(1) by auto
  have ex: "ss_jobs ?t i = None \<longleftrightarrow> ss_jobs s i = None" for i by (auto split: if_splits)
  have "base_ok ?t i z \<and> (\<not> jb_finished z \<and> i \<notin> {j} \<longrightarrow> live_ok ?t i z)" if i: "ss_jobs ?t i = Some z" for i z
  proof -
    obtain v where v: "ss_jobs s i = Some v" "z = (if i = j then v\<lparr>jb_started := True\<rparr> else v)" using i by (auto split: if_splits)
    have "base_ok s i z" using inv_job(1)[OF inv v(1)] v(2) by (auto simp: base_ok_def)
    then have "base_ok ?t i z" by (rule base_frame) (simp, rule ex)
    moreover have "live_ok ?t i z" if z: "\<not> jb_finished z" "i \<noteq> j"
    proof -
      have "live_ok s i v" using inv_job(2)[OF inv v(1)] z v(2) by auto
      then have "live_ok ?t i v" by (rule live_frame) (use same st aj(2) in auto)
      then show ?thesis using v(2) z(2) by simp
    qed
    ultimately show ?thesis by simp
  qed
  moreover have "order_ok ?t"
  proof -
    have "j < ss_next s" using inv_job(1)[OF inv x(1)] by (simp add: base_ok_def)
    then show ?thesis using inv new j(1) by (auto simp: session_inv_def order_ok_def sorted_wrt_append)
  qed
  moreover have "tops_ok ?t"
  proof -
    have "j \<notin> set (ss_queue s)" using inv j(1) by (auto simp: session_inv_def order_ok_def)
    then show ?thesis using inv unfolding session_inv_def tops_ok_def same st by auto
  qed
  moreover have "results_ok ?t" using inv unfolding session_inv_def results_ok_def same ex by simp
  ultimately have t: "session_inv {j} ?t" by (simp add: session_inv_def)
  have live: "live_ok s j x" using inv_job(2)[OF inv x] by simp
  have struct: "live_ok (later_startNext j ?t) j (z\<lparr>jb_startNext := Suc (jb_startNext z)\<rparr>)" if "ss_jobs ?t j = Some z" for z
  proof -
    have "z = x\<lparr>jb_started := True\<rparr>" using that x(1) by simp
    then show ?thesis using start_struct[OF live ns same] st aj(2) by simp
  qed
  have "session_ok (later_startNext j (doStart (w j) j ?t))"
    by (rule run_started[OF t]) (use run aj(1) same struct in \<open>auto simp: running_ok_def\<close>)
  then show ?thesis using x(1) px by (simp add: startQueued_def Let_def)
qed

lemma timer_start_ok:
  assumes ok: "session_ok s" and x: "ss_jobs s j = Some x" "\<not> jb_finished x"
  shows "session_ok (job_startNext w j (upd_job j (\<lambda>x. x\<lparr>jb_startNext := n\<rparr>) s))"
proof -
  let ?t = "upd_job j (\<lambda>x. x\<lparr>jb_startNext := n\<rparr>) s"
  have inv: "session_inv {} s" and run: "running_ok ?t" using ok by (simp_all add: session_ok_def running_ok_def)
  have t: "session_inv {j} ?t" by (rule upd_job_inv[OF inv]) auto
  have live: "live_ok s j x" using inv_job(2)[OF inv x] by simp
  note same = upd_job_same[OF harmless_simps(3)]
  have xt: "ss_jobs ?t j = Some (x\<lparr>jb_startNext := n\<rparr>)" using x by simp
  consider (start) "jb_started x \<and> jb_current x = None \<and> jb_subs x \<noteq> []" | (emit) "\<not> (jb_started x \<and> jb_current x = None \<and> jb_subs x \<noteq> [])" "jb_finishPending x" "jb_subs x = []"
    | (rest) "\<not> (jb_started x \<and> jb_current x = None \<and> jb_subs x \<noteq> [])" "\<not> (jb_finishPending x \<and> jb_subs x = [])" by blast
  then show ?thesis
  proof cases
    case start
    have "hd (jb_subs x) \<in> set (jb_subs x)" using start by simp
    then have "session_ok (startQueued w (hd (jb_subs x)) ?t)"
      by (intro start_sub_ok[OF t run xt]) (use x start live in \<open>auto simp: live_ok_def same simp del: upd_job_fields(10)\<close>)
    then show ?thesis using x start by (simp add: job_startNext_def)
  next
    case emit
    have "session_inv {} (later_emit j ?t)"
      by (rule upd_job_inv[OF t]) (use xt live emit in \<open>auto simp: live_ok_def upd_job_same[OF harmless_simps(4)] same simp del: upd_job_fields(10)\<close>)
    then show ?thesis using x emit run by (auto simp: job_startNext_def session_ok_def running_ok_def)
  next
    case rest
    have "session_inv {} ?t"
      by (rule upd_job_inv[OF inv]) (use x live rest in \<open>auto simp: live_ok_def same simp del: upd_job_fields(10)\<close>)
    then show ?thesis using x rest run by (auto simp: job_startNext_def session_ok_def)
  qed
qed

lemma timer_emit_ok:
  assumes ok: "session_ok s" and x: "ss_jobs s j = Some x" "\<not> jb_finished x"
  shows "session_ok (delayedEmitResult j (upd_job j (\<lambda>x. x\<lparr>jb_emit := n\<rparr>) s))"
proof -
  let ?t = "upd_job j (\<lambda>x. x\<lparr>jb_emit := n\<rparr>) s"
  have inv: "session_inv {} s" and run: "running_ok ?t" using ok by (simp_all add: session_ok_def running_ok_def)
  have t: "session_inv {j} ?t" by (rule upd_job_inv[OF inv]) auto
  have xt: "ss_jobs ?t j = Some (x\<lparr>jb_emit := n\<rparr>)" using x by simp
  have live: "live_ok s j x" using inv_job(2)[OF inv x] by simp
  show ?thesis
  proof (cases "jb_subs x = []")
    case True
    then show ?thesis using x emit_ok[OF t run] by (simp add: delayedEmitResult_def)
  next
    case False
    have "session_inv {} (upd_job j (\<lambda>x. x\<lparr>jb_finishPending := True\<rparr>) ?t)"
      by (rule upd_job_inv[OF t])
        (use xt live False in \<open>auto simp: live_ok_def upd_job_same[OF harmless_simps(7)] upd_job_same[OF harmless_simps(4)] simp del: upd_job_fields(10)\<close>)
    then show ?thesis using x False run by (simp add: delayedEmitResult_def session_ok_def running_ok_def)
  qed
qed

lemma touch_inv:
  assumes inv: "session_inv E s" and f: "harmless f" and live: "\<And>t y. live_ok t j y \<Longrightarrow> live_ok t j (f y)"
  shows "session_inv E (upd_job j f s)"
proof (rule upd_job_inv[OF inv f])
  fix x assume x: "ss_jobs s j = Some x" "\<not> jb_finished x" "j \<notin> E"
  have "live_ok s j x" using inv_job(2)[OF inv x(1)] x by simp
  then have "live_ok (upd_job j f s) j x" unfolding live_ok_def upd_job_same[OF f] .
  then show "live_ok (upd_job j f s) j (f x)" by (rule live)
qed auto

lemma answer_ok:
  assumes ok: "session_ok s" and cur: "ss_currentJob s = Some c"
  shows "session_ok (handleResponse c tag a s)"
proof -
  let ?j = "deepest s c"
  let ?t = "later_emit ?j (upd_job ?j (\<lambda>x. x\<lparr>jb_readingFinished := True\<rparr>) s)"
  have inv: "session_inv {} s" and run: "running_ok s" using ok by (simp_all add: session_ok_def)
  have "session_inv {} ?t" by (intro touch_inv inv) (auto simp: live_ok_def)
  then have t: "session_ok ?t" using run by (simp add: session_ok_def running_ok_def)
  have e: "session_ok (emitResult ?j True s)" by (rule emit_ok[OF weaken[OF inv] run])
  have "handleResponse c tag a s \<in> {s, emitResult ?j True s, ?t}" by (auto simp: handleResponse_def Let_def split: option.splits)
  then show ?thesis using ok e t by auto
qed

lemma doStartNext_ok:
  assumes ok: "session_ok s"
  shows "session_ok (doStartNext w (s\<lparr>ss_timers := n\<rparr>))"
proof -
  have inv: "session_inv {} s" and run: "running_ok s" using ok by (simp_all add: session_ok_def)
  have pipe: "ss_pipeline s = []" using inv by (simp add: session_inv_def order_ok_def)
  show ?thesis
  proof (cases "ss_connected s \<and> ss_queue s \<noteq> [] \<and> \<not> ss_jobRunning s")
    case False
    then have "doStartNext w (s\<lparr>ss_timers := n\<rparr>) = s\<lparr>ss_timers := n\<rparr>"
      by (auto simp: doStartNext_def canPipelineNext_def pipeline_length_def pipe Let_def)
    moreover have "session_inv {} (s\<lparr>ss_timers := n\<rparr>)"
      by (rule session_level[OF inv]) (use False run in \<open>auto simp: running_ok_def\<close>)
    ultimately show ?thesis using run by (simp add: session_ok_def running_ok_def)
  next
    case True
    then obtain j q where q: "ss_queue s = j # q" by (cases "ss_queue s") auto
    have cur: "ss_currentJob s = None" using True run by (simp add: running_ok_def)
    let ?t = "s\<lparr>ss_timers := n, ss_jobRunning := True, ss_currentJob := Some j, ss_queue := q\<rparr>"
    have acc: "par ?t = par s" "alive ?t = alive s" "strt ?t = strt s" by (simp_all add: par_def alive_def strt_def fun_eq_iff)
    have o: "order_ok s" "tops_ok s" "results_ok s" using inv by (simp_all add: session_inv_def)
    have "order_ok ?t" using o(1) q by (auto simp: order_ok_def sorted_wrt_append)
    moreover have "tops_ok ?t" using o(2) q cur unfolding tops_ok_def acc by auto
    moreover have "results_ok ?t" using o(3) unfolding results_ok_def acc by simp
    moreover have "base_ok ?t i x \<and> (\<not> jb_finished x \<longrightarrow> live_ok ?t i x)" if "ss_jobs ?t i = Some x" for i x
      using inv_job(1)[OF inv, of i x] live_frame[OF inv_job(2)[OF inv, of i x], of ?t] that unfolding acc by (simp add: base_ok_def)
    ultimately have t: "session_inv {} ?t" by (simp add: session_inv_def)
    have rt: "running_ok ?t" by (simp add: running_ok_def)
    have "\<not> strt ?t j" unfolding acc using o(2) q by (simp add: tops_ok_def)
    moreover have "\<forall>i \<in> set (ss_startedJobs ?t). i < j" using o(1) q by (auto simp: order_ok_def sorted_wrt_append)
    ultimately have "session_ok (startJob w j ?t)"
      using start_top_ok[OF t rt, of j w] emit_ok[OF weaken[OF t] rt, of j True] by (simp add: startJob_def)
    moreover have "doStartNext w (s\<lparr>ss_timers := n\<rparr>) = startJob w j ?t"
      using True q by (simp add: doStartNext_def canPipelineNext_def pipeline_length_def pipe Let_def)
    ultimately show ?thesis by simp
  qed
qed

lemma fresh_job:
  assumes "session_inv E s"
  shows "ss_jobs s (ss_next s) = None" "\<not> alive s (ss_next s)" "par s c \<noteq> Some (ss_next s)"
proof -
  show none: "ss_jobs s (ss_next s) = None" using inv_job(1)[OF assms, of "ss_next s"] by (cases "ss_jobs s (ss_next s)") (auto simp: base_ok_def)
  then show "\<not> alive s (ss_next s)" by (simp add: alive_def)
  show "par s c \<noteq> Some (ss_next s)" using parent_less(2)[OF assms, of c] none by auto
qed

text \<open>A new job of the session or of another job.\<close>

lemma new_job_inv:
  assumes inv: "session_inv {} s" and E: "\<And>p. po = Some p \<Longrightarrow> p \<in> E \<and> alive s p"
    and jobs: "ss_jobs t = (ss_jobs s)(ss_next s \<mapsto> job_new po)" "ss_next t = Suc (ss_next s)"
    and same: "ss_pipeline t = ss_pipeline s" "ss_currentJob t = ss_currentJob s" "ss_startedJobs t = ss_startedJobs s" "ss_results t = ss_results s"
      "ss_connected t = ss_connected s"
    and q: "ss_queue t = ss_queue s @ (if po = None then [ss_next s] else [])" "ss_timers t = ss_timers s + (if po = None then 1 else 0)"
  shows "session_inv E t"
proof -
  let ?n = "ss_next s"
  note fresh = fresh_job[OF inv]
  have acc: "par t c = (if c = ?n then po else par s c)" "alive t c \<longleftrightarrow> c = ?n \<or> alive s c" "strt t c \<longleftrightarrow> c \<noteq> ?n \<and> strt s c" for c
    by (auto simp: par_def alive_def strt_def jobs job_new_def)
  have o: "order_ok s" "tops_ok s" "results_ok s" using inv by (simp_all add: session_inv_def)
  have lt: "i < ?n" if "alive s i" for i using alive_job[OF that] inv_job(1)[OF inv] by (auto simp: base_ok_def)
  have cur: "j < ?n" if "ss_currentJob s = Some j" for j using top_alive(1)[OF inv that] lt by blast
  have "order_ok t"
    using o(1) cur unfolding order_ok_def same q jobs by (auto simp: sorted_wrt_append less_Suc_eq)
  moreover have "tops_ok t"
  proof -
    have "?n \<notin> set (ss_queue s)" "ss_currentJob s \<noteq> Some ?n" using o(2) fresh(2) unfolding tops_ok_def by blast+
    then show ?thesis using o(2) fresh(2) unfolding tops_ok_def acc q same by auto
  qed
  moreover have "results_ok t"
  proof -
    have "?n \<notin> set (ss_results s)" using o(3) fresh(1) by (simp add: results_ok_def)
    then show ?thesis using o(3) fresh(1) unfolding results_ok_def acc same jobs by auto
  qed
  moreover have "base_ok t i x \<and> (\<not> jb_finished x \<and> i \<notin> E \<longrightarrow> live_ok t i x)" if i: "ss_jobs t i = Some x" for i x
  proof (cases "i = ?n")
    case True
    then have x: "x = job_new po" using i jobs by simp
    have "p < ?n \<and> ss_jobs t p \<noteq> None" if "po = Some p" for p using E[OF that] lt[of p] alive_job[of s p] jobs by auto
    then have "base_ok t i x" by (auto simp: base_ok_def x True jobs job_new_def)
    moreover have "live_ok t i x"
    proof -
      have "par t c \<noteq> Some ?n" for c using fresh(3)[of c] E[of ?n] fresh(2) by (auto simp: acc)
      then show ?thesis by (simp add: live_ok_def x True job_new_def)
    qed
    ultimately show ?thesis by simp
  next
    case False
    then have si: "ss_jobs s i = Some x" using i jobs by simp
    have "base_ok t i x" using inv_job(1)[OF inv si] by (auto simp: base_ok_def jobs)
    moreover have "live_ok t i x" if "\<not> jb_finished x" "i \<notin> E"
    proof -
      have "live_ok s i x" using inv_job(2)[OF inv si that(1)] by simp
      moreover have "po \<noteq> Some i" using E[of i] that(2) by auto
      ultimately show ?thesis using fresh(2) fresh(3)[of i] unfolding live_ok_def acc by (auto split: if_splits)
    qed
    ultimately show ?thesis by simp
  qed
  ultimately show ?thesis by (simp add: session_inv_def)
qed

lemma addJob_ok: "session_ok s \<Longrightarrow> session_ok (addJob s)"
  by (auto simp: session_ok_def running_ok_def addJob_def intro: new_job_inv[where po = None])

lemma addSubjob_ok:
  assumes ok: "session_ok s" and p: "alive s p"
  shows "session_ok (addSubjob p s)"
proof -
  let ?n = "ss_next s"
  let ?t = "s\<lparr>ss_jobs := (ss_jobs s)(?n \<mapsto> job_new (Some p)), ss_next := Suc ?n\<rparr>"
  let ?u = "upd_job p (\<lambda>x. x\<lparr>jb_subs := jb_subs x @ [?n]\<rparr>) ?t"
  have inv: "session_inv {} s" and run: "running_ok s" using ok by (simp_all add: session_ok_def)
  have t: "session_inv {p} ?t" by (rule new_job_inv[OF inv, where po = "Some p"]) (use p in auto)
  have u: "session_inv {p} ?u" by (rule upd_job_inv[OF t]) auto
  obtain x where x: "ss_jobs s p = Some x" "\<not> jb_finished x" using alive_job[OF p] by blast
  have pn: "p \<noteq> ?n" using p fresh_job(2)[OF inv] by auto
  have live: "live_ok s p x" using inv_job(2)[OF inv x] by simp
  have acc: "par ?t c = (if c = ?n then Some p else par s c)" "alive ?t c \<longleftrightarrow> c = ?n \<or> alive s c" "strt ?t c \<longleftrightarrow> c \<noteq> ?n \<and> strt s c" for c
    by (auto simp: par_def alive_def strt_def job_new_def)
  have "session_inv {} (later_startNext p ?u)"
  proof (rule upd_job_inv[OF u])
    fix z assume "ss_jobs ?u p = Some z"
    then have z: "z = x\<lparr>jb_subs := jb_subs x @ [?n]\<rparr>" using x(1) pn by simp
    show "live_ok (later_startNext p ?u) p (z\<lparr>jb_startNext := Suc (jb_startNext z)\<rparr>)"
      using live unfolding live_ok_def upd_job_same[OF harmless_simps(3)] upd_job_same[OF harmless_simps(2)] acc z by auto
  qed auto
  then show ?thesis using run by (simp add: session_ok_def running_ok_def addSubjob_def)
qed

lemma disconnected_ok:
  assumes ok: "session_ok s"
  shows "session_ok (socketDisconnected s)"
proof -
  have inv: "session_inv {} s" and run: "running_ok s" using ok by (simp_all add: session_ok_def)
  have off: "session_ok (t\<lparr>ss_connected := False\<rparr>)" if "session_ok t" for t
  proof -
    have "session_inv {} (t\<lparr>ss_connected := False\<rparr>)" by (rule session_level[of _ t]) (use that in \<open>auto simp: session_ok_def\<close>)
    then show ?thesis using that by (simp add: session_ok_def running_ok_def)
  qed
  show ?thesis
    using off[OF ok] off[OF emit_ok[OF weaken[OF inv] run]] by (auto simp: socketDisconnected_def lostConnection_def split: option.splits)
qed

lemma kill_frame:
  assumes "session_inv {} s" "\<not> strt s j"
  shows "same_frame s (kill_job j s) \<and> \<not> alive (kill_job j s) j"
proof (cases "alive s j")
  case False
  then show ?thesis by (auto simp: kill_job_def alive_def same_frame_refl split: option.splits)
next
  case True
  then obtain x where x: "ss_jobs s j = Some x" "\<not> jb_finished x" "\<not> jb_started x" using alive_job assms(2) by (fastforce simp: strt_def)
  let ?t = "upd_job j (\<lambda>x. x\<lparr>jb_started := False\<rparr>) s"
  have "?t = s" using x by (auto intro!: session.equality simp: upd_job_def fun_eq_iff)
  then have "kill_job j s = emitResult j True s" using x by (simp add: kill_job_def)
  then show ?thesis using emit_inv[OF weaken[OF assms(1)] True, of True] by simp
qed

lemma kill_all_ok:
  "session_ok s \<Longrightarrow> \<forall>j \<in> set js. \<not> strt s j \<Longrightarrow> session_ok (fold kill_job js s) \<and> same_frame s (fold kill_job js s) \<and> (\<forall>j \<in> set js. \<not> alive (fold kill_job js s) j)"
proof (induction js arbitrary: s)
  case Nil
  then show ?case by (simp add: same_frame_refl)
next
  case (Cons j js)
  let ?t = "kill_job j s"
  have f: "same_frame s ?t" "\<not> alive ?t j" using kill_frame[of s j] Cons.prems by (auto simp: session_ok_def)
  have "session_ok ?t" using Cons.prems by (intro kill_ok) auto
  moreover have "\<forall>i \<in> set js. \<not> strt ?t i" using f(1) Cons.prems(2) by (simp add: same_frame_def)
  ultimately have "session_ok (fold kill_job js ?t) \<and> same_frame ?t (fold kill_job js ?t) \<and> (\<forall>j \<in> set js. \<not> alive (fold kill_job js ?t) j)"
    by (rule Cons.IH)
  then show ?case using f same_frame_trans[OF f(1)] by (auto simp: same_frame_def)
qed

lemma queue_unstarted: "session_ok s \<Longrightarrow> \<forall>j \<in> set (ss_queue s). \<not> strt s j"
  by (simp add: session_ok_def session_inv_def tops_ok_def)

lemma clear_ok:
  assumes ok: "session_ok s"
  shows "session_ok (session_clear force 0 s)"
proof -
  define t where "t = fold kill_job (ss_queue s) s"
  note k = kill_all_ok[OF ok queue_unstarted[OF ok], folded t_def]
  have inv: "session_inv {} t" and run: "running_ok t" using k by (simp_all add: session_ok_def)
  have "ss_queue t = []"
  proof (rule ccontr)
    assume "ss_queue t \<noteq> []"
    then obtain q where q: "q \<in> set (ss_queue t)" by (cases "ss_queue t") auto
    then have "alive t q" using top_alive(2)[OF inv] by blast
    moreover have "q \<in> set (ss_queue s)" using q k by (auto simp: same_frame_def)
    ultimately show False using k by blast
  qed
  moreover have pipe: "ss_pipeline t = []" using inv by (simp add: session_inv_def order_ok_def)
  ultimately have same: "t\<lparr>ss_queue := []\<rparr> = t" "t\<lparr>ss_pipeline := []\<rparr> = t" by simp_all
  define u where "u = (case ss_currentJob t of None \<Rightarrow> t | Some j \<Rightarrow> kill_unstarted j t)"
  have u: "session_ok u \<and> ss_currentJob u = None"
  proof (cases "ss_currentJob t")
    case None
    then show ?thesis using k by (simp add: u_def)
  next
    case (Some j)
    let ?v = "upd_job j (\<lambda>x. x\<lparr>jb_started := False\<rparr>) t"
    have aj: "alive t j" "par t j = None" using top_alive(1)[OF inv Some] by auto
    then obtain x where x: "ss_jobs t j = Some x" "\<not> jb_finished x" using alive_job by blast
    have v: "session_inv {j} ?v" by (rule unstart_inv[OF inv])
    have av: "alive ?v j" "par ?v j = None" using aj unfolding started_same by simp_all
    have "upd_job j (\<lambda>x. x\<lparr>jb_started := False\<rparr>) ?v = ?v" using x by (auto intro!: session.equality simp: upd_job_def fun_eq_iff)
    then have "u = emitResult j True ?v" using x Some by (simp add: u_def kill_unstarted_def kill_job_def)
    moreover have "on_path ?v j" using av(2) Some by (intro path_top) simp_all
    ultimately show ?thesis using emit_ok[OF v] path_error[OF v av(1)] run by (simp add: running_ok_def)
  qed
  have "session_clear force 0 s = (if force then forceReconnect u else u)"
    unfolding session_clear_def Let_def t_def[symmetric] funpow_0 same(1) pipe fold_simps(1) same(2) u_def ..
  then show ?thesis using u reconnect_inv[of "{}" u] by (auto simp: session_ok_def running_ok_def forceReconnect_def)
qed

lemma destroyed_same:
  assumes ok: "session_ok s" and x: "ss_jobs s j = Some x" "jb_finished x"
  shows "jobDone j s = s"
proof -
  have inv: "session_inv {} s" using ok by (simp add: session_ok_def)
  have "\<not> alive s j" using x by (simp add: alive_def)
  then have "ss_currentJob s \<noteq> Some j" "j \<notin> set (ss_queue s)" "ss_pipeline s = []"
    using top_alive[OF inv, of j] inv by (auto simp: session_inv_def order_ok_def)
  then show ?thesis by (simp add: jobDone_def)
qed

section \<open>Orderly runs\<close>

text \<open>Nobody adds jobs while the session is cleared, and the jobs of a job that has ended are not killed one by one: they are deleted with it.\<close>

fun session_orderly :: "session_event \<Rightarrow> session \<Rightarrow> bool" where
  "session_orderly (Clear force n) s \<longleftrightarrow> n = 0"
| "session_orderly (Kill j) s \<longleftrightarrow> attached s j"
| "session_orderly _ s \<longleftrightarrow> True"

inductive session_step :: "(nat \<Rightarrow> work) \<Rightarrow> session \<Rightarrow> session_event \<Rightarrow> session \<Rightarrow> bool" for w :: "nat \<Rightarrow> work" where
  session_stepI: "session_do w e s = Some t \<Longrightarrow> session_orderly e s \<Longrightarrow> session_step w s e t"

inductive_cases session_stepE: "session_step w s e t"

definition session_start :: "session \<Rightarrow> bool" where
  "session_start s \<longleftrightarrow> s = session_init"

lemma start_ok: "session_ok session_init"
  by (simp add: session_ok_def session_inv_def session_parts running_ok_def session_init_def alive_def par_def)

lemma session_step_eq: "(\<lambda>s e t. session_do w e s = Some t \<and> session_orderly e s) = session_step w"
  by (intro ext) (auto elim: session_stepE intro: session_stepI)

lemma session_step_ok: "session_step w s e t \<Longrightarrow> session_ok s \<Longrightarrow> session_ok t"
proof (elim session_stepE)
  assume e: "session_do w e s = Some t" "session_orderly e s" and ok: "session_ok s"
  have inv: "session_inv {} s" and run: "running_ok s" using ok by (simp_all add: session_ok_def)
  have level: "session_ok u" if "ss_jobs u = ss_jobs s" "ss_next u = ss_next s" "ss_queue u = ss_queue s" "ss_pipeline u = ss_pipeline s"
      "ss_currentJob u = ss_currentJob s" "ss_startedJobs u = ss_startedJobs s" "ss_results u = ss_results s" "ss_jobRunning u = ss_jobRunning s"
      "ss_connected u = ss_connected s \<and> ss_timers u = ss_timers s \<or> ss_timers u = Suc (ss_timers s)" for u
  proof -
    have "session_inv {} u"
      by (rule session_level[OF inv]) (use that inv in \<open>auto simp: session_inv_def order_ok_def\<close>)
    then show ?thesis using run that by (simp add: session_ok_def running_ok_def)
  qed
  show "session_ok t"
  proof (cases e)
    case (TimerStart j)
    then show ?thesis using e ok by (auto split: option.splits if_splits nat.splits intro: timer_start_ok)
  next
    case (TimerEmit j)
    then show ?thesis using e ok by (auto split: option.splits if_splits nat.splits intro: timer_emit_ok)
  next
    case (Destroyed j)
    then show ?thesis using e ok destroyed_same[OF ok] by (auto split: option.splits if_splits)
  next
    case (Answer tag a)
    then show ?thesis using e ok by (auto split: option.splits intro: answer_ok)
  next
    case Broken
    then show ?thesis using e ok kill_all_ok[OF ok queue_unstarted[OF ok]] by (auto simp: server_broken_def)
  next
    case (Ends j err)
    then show ?thesis using e emit_ok[OF weaken[OF inv] run] by (auto split: if_splits)
  qed (use e ok in \<open>auto split: option.splits if_splits nat.splits intro: addJob_ok addSubjob_ok doStartNext_ok kill_ok disconnected_ok clear_ok level\<close>)
qed

interpretation session_jobs: inductive_invariant session_start "session_step w" session_ok for w
  by unfold_locales (auto simp: session_start_def start_ok intro: session_step_ok)

lemma jobDone_queue: "set (ss_queue (jobDone j s)) \<subseteq> set (ss_queue s)"
  by (auto simp: jobDone_def split: list.splits)

lemma emit_queue: "set (ss_queue (emitResult j err s)) \<subseteq> set (ss_queue s)"
proof (induction j err s rule: emitResult.induct)
  case (1 j err s)
  show ?case
  proof (cases "ss_jobs s j")
    case None
    then show ?thesis by (subst emitResult.simps) simp
  next
    case (Some x)
    define m where "m = s\<lparr>ss_jobs := (ss_jobs s)(j \<mapsto> x\<lparr>jb_finished := True, jb_error := err\<rparr>), ss_results := ss_results s @ [j]\<rparr>"
    have m: "ss_queue m = ss_queue s" by (simp add: m_def)
    show ?thesis
    proof (cases "jb_finished x \<or> jb_parent x = None \<or> (\<exists>p. jb_parent x = Some p \<and> (j \<le> p \<or> ss_jobs m p = None))")
      case True
      then have "emitResult j err s \<in> {s, m, jobDone j m}" using Some by (subst emitResult.simps) (auto simp: Let_def simp flip: m_def)
      then show ?thesis using m jobDone_queue[of j m] by auto
    next
      case False
      then obtain p y where p: "\<not> jb_finished x" "jb_parent x = Some p" "\<not> j \<le> p" "ss_jobs m p = Some y" by auto
      define s2 where "s2 = upd_job p (\<lambda>y. y\<lparr>jb_current := None\<rparr>) m"
      define s3 where "s3 = (if err \<and> \<not> jb_error y then emitResult p True s2 else s2)"
      have "emitResult j err s = (if jb_current y = Some j then
            (if err then upd_job p (\<lambda>y. y\<lparr>jb_subs := removeAll j (jb_subs y)\<rparr>) s3
             else later_startNext p (upd_job p (\<lambda>y. y\<lparr>jb_subs := removeAll j (jb_subs y)\<rparr>) s3))
          else upd_job p (\<lambda>y. y\<lparr>jb_subs := removeAll j (jb_subs y)\<rparr>) m)"
        using Some p by (subst emitResult.simps) (simp add: Let_def s2_def s3_def flip: m_def)
      moreover have "set (ss_queue s3) \<subseteq> set (ss_queue s)" if "jb_current y = Some j"
      proof (cases "err \<and> \<not> jb_error y")
        case True
        have "set (ss_queue (emitResult p True s2)) \<subseteq> set (ss_queue s2)" by (rule "1.IH"[OF Some p(1) m_def p(2,3,4) that s2_def True])
        then show ?thesis using True m by (simp add: s3_def s2_def)
      next
        case False
        then show ?thesis using m by (auto simp: s3_def s2_def)
      qed
      ultimately show ?thesis using m by simp
    qed
  qed
qed

lemma startQueued_queue: "set (ss_queue (startQueued w j s)) \<subseteq> set (ss_queue s)"
proof (cases "ss_jobs s j")
  case (Some x)
  let ?u = "case jb_parent x of None \<Rightarrow> (upd_job j (\<lambda>x. x\<lparr>jb_started := True\<rparr>) s)\<lparr>ss_startedJobs := ss_startedJobs s @ [j]\<rparr>
      | Some p \<Rightarrow> upd_job p (\<lambda>y. y\<lparr>jb_current := Some j\<rparr>) (upd_job j (\<lambda>x. x\<lparr>jb_started := True\<rparr>) s)"
  have u: "ss_queue ?u = ss_queue s" by (simp split: option.splits)
  have "set (ss_queue (doStart (w j) j ?u)) \<subseteq> set (ss_queue ?u)"
  proof (cases "w j")
    case SendsCommand
    obtain g n where "newTag j ?u = retag g n ?u" using newTag_retags by blast
    then show ?thesis using SendsCommand by (simp add: doStart_def Let_def retag_def)
  next
    case (EndsAtOnce err)
    then show ?thesis using emit_queue[of j err ?u] by (simp add: doStart_def)
  qed (simp add: doStart_def)
  moreover have "startQueued w j s = later_startNext j (doStart (w j) j ?u)" using Some by (simp add: startQueued_def Let_def split: option.splits)
  ultimately show ?thesis using u by simp
qed (simp add: startQueued_def)

section \<open>Properties\<close>


text \<open>(C13) No job is forgotten, as long as no slot adds a job while the session is being cleared (see \<open>clear_forgets_new_jobs\<close>) and only jobs that are still
  attached to the session are killed (\<open>session_orderly\<close>). A job of the session that has not ended is queued or current; when the session is connected and idle a timer is running, and the
  next job leaves the queue when it fires. A job that has started, has something left to do, and runs no job of its own has a timer as well.\<close>

theorem no_job_is_forgotten:
  assumes "reach (\<lambda>s. s = session_init) (\<lambda>s e t. session_do w e s = Some t \<and> session_orderly e s) s" and "ss_jobs s j = Some x" and "\<not> jb_finished x"
  shows "(jb_parent x = None \<longrightarrow> j \<in> set (ss_queue s) \<or> ss_currentJob s = Some j) \<and>
    (j \<in> set (ss_queue s) \<and> ss_connected s \<and> \<not> ss_jobRunning s \<longrightarrow>
       (\<exists>t. session_do w TimerSession s = Some t \<and> hd (ss_queue s) \<notin> set (ss_queue t))) \<and>
    (jb_started x \<and> jb_current x = None \<and> (jb_subs x \<noteq> [] \<or> jb_finishPending x) \<longrightarrow>
       session_do w (TimerStart j) s \<noteq> None \<or> session_do w (TimerEmit j) s \<noteq> None)"
proof -
  have ok: "session_ok s" using session_jobs.reach_inv assms(1) unfolding session_step_eq session_start_def [abs_def] by blast
  then have inv: "session_inv {} s" and run: "running_ok s" by (simp_all add: session_ok_def)
  have "alive s j" using assms(2,3) by (simp add: alive_def)
  then have top: "jb_parent x = None \<longrightarrow> j \<in> set (ss_queue s) \<or> ss_currentJob s = Some j"
    using inv assms(2) by (auto simp: session_inv_def tops_ok_def par_def)
  have "\<exists>t. session_do w TimerSession s = Some t \<and> hd (ss_queue s) \<notin> set (ss_queue t)"
    if q: "j \<in> set (ss_queue s)" "ss_connected s" "\<not> ss_jobRunning s"
  proof -
    obtain h r where r: "ss_queue s = h # r" using q(1) by (cases "ss_queue s") auto
    have o: "order_ok s" using inv by (simp add: session_inv_def)
    have "ss_currentJob s = None" using q(3) run by (simp add: running_ok_def)
    then obtain n where n: "ss_timers s = Suc n" using o q(2) r by (cases "ss_timers s") (auto simp: order_ok_def)
    let ?t = "s\<lparr>ss_timers := n, ss_jobRunning := True, ss_currentJob := Some h, ss_queue := r\<rparr>"
    have "doStartNext w (s\<lparr>ss_timers := n\<rparr>) = startJob w h ?t"
      using q(2,3) r o by (simp add: doStartNext_def canPipelineNext_def pipeline_length_def order_ok_def Let_def)
    moreover have "set (ss_queue (startJob w h ?t)) \<subseteq> set r"
      using emit_queue[of h True ?t] startQueued_queue[of w h ?t] by (simp add: startJob_def)
    moreover have "h \<notin> set r" using o r by (auto simp: order_ok_def sorted_wrt_append)
    ultimately show ?thesis using n r by auto
  qed
  moreover have "session_do w (TimerStart j) s \<noteq> None \<or> session_do w (TimerEmit j) s \<noteq> None"
    if "jb_started x" "jb_current x = None" "jb_subs x \<noteq> [] \<or> jb_finishPending x"
  proof -
    have "live_ok s j x" using inv_job(2)[OF inv assms(2,3)] by simp
    then have "0 < jb_startNext x \<or> 0 < jb_emit x" using that unfolding live_ok_def by (cases "jb_subs x = []") auto
    then show ?thesis using assms(2,3) by (auto split: nat.splits)
  qed
  ultimately show ?thesis using top by blast
qed

text \<open>Runs of a session, to put the properties to use.\<close>

fun orderly_run :: "(nat \<Rightarrow> work) \<Rightarrow> session_event list \<Rightarrow> session \<Rightarrow> bool" where
  "orderly_run w [] s = True"
| "orderly_run w (e # es) s = ((case e of Kill j \<Rightarrow> False | Clear f n \<Rightarrow> n = 0 | _ \<Rightarrow> True) \<and>
     (case session_do w e s of None \<Rightarrow> False | Some t \<Rightarrow> orderly_run w es t))"

lemma orderly_event: "(case e of Kill j \<Rightarrow> False | Clear f n \<Rightarrow> n = 0 | _ \<Rightarrow> True) \<Longrightarrow> session_orderly e s"
  by (cases e) auto

lemma run_reaches:
  "reach session_start (session_step w) s \<Longrightarrow> orderly_run w es s \<Longrightarrow> reach session_start (session_step w) (the (session_run w es s))"
proof (induction es arbitrary: s)
  case (Cons e es)
  then obtain t where t: "session_do w e s = Some t" "orderly_run w es t" by (auto split: option.splits)
  have "session_orderly e s" using Cons.prems(2) by (intro orderly_event) simp
  then have "reach session_start (session_step w) t" using Cons.prems(1) t(1) by (auto intro: reach.next_state session_stepI)
  then show ?case using Cons.IH t by simp
qed simp

definition mail_work :: "nat \<Rightarrow> work" where
  "mail_work j = (if j = 0 then UsesSubjobs else SendsCommand)"


lemma session_reached: "orderly_run w es session_init \<Longrightarrow> reach session_start (session_step w) (the (session_run w es session_init))"
  by (rule run_reaches[OF reach.start]) (simp_all add: session_start_def)


lemma no_job_is_forgotten_witness:
  "\<exists>t. session_do mail_work TimerSession (the (session_run mail_work [AddJob, AddJob, Hello True True, Login True] session_init)) = Some t \<and> 0 \<notin> set (ss_queue t)"
proof -
  let ?s = "the (session_run mail_work [AddJob, AddJob, Hello True True, Login True] session_init)"
  have o: "orderly_run mail_work [AddJob, AddJob, Hello True True, Login True] session_init" by code_simp
  have s: "ss_queue ?s = [0, 1]" "ss_connected ?s" "\<not> ss_jobRunning ?s" by code_simp+
  have x: "ss_jobs ?s 1 = Some (job_new None)" by code_simp
  have "\<not> jb_finished (job_new None)" by (simp add: job_new_def)
  from no_job_is_forgotten[OF session_reached[OF o, unfolded session_start_def [abs_def] session_step_eq [symmetric]] x this] s show ?thesis by simp
qed

end
