(* ===== verification/AttributeStorage.thy ===== *)
theory AttributeStorage
  imports Transition Hash
begin

text \<open>
  \<open>src/core/attributestorage.cpp\<close> and \<open>src/core/attributefactory.cpp\<close>, with the operations of \<open>src/core/collection.cpp\<close> on attributes: the attributes of a
  collection, with the log of what was changed since they were fetched. Copies of a collection share their private data until one of them is changed, and the
  attributes are objects that clients hold pointers to, so the store is explicit: attribute objects and private data have addresses, and variables name private data.
  Items and tags go through the same steps. What the destructors give back is not modelled: data that no variable names any more stays in the store.
\<close>

section \<open>The store\<close>

record attribute_object =
  ao_type :: string
  ao_value :: string

text \<open>\<open>AttributeStoragePrivate\<close>. The storage shares it explicitly, so its operations write to the data they find; it is the private data of the entity that is
  copied on write. Its copy constructor gives the copy a storage that it detaches at once: no two private data share one \<open>AttributeStoragePrivate\<close>, and a block is both.\<close>

record attribute_data =
  ad_attributes :: "(string \<times> nat) list"
  ad_modified :: "string set"
  ad_deleted :: "string set"

record attribute_store =
  as_heap :: "nat \<rightharpoonup> attribute_object"
  as_fresh :: nat
  as_blocks :: "nat \<rightharpoonup> attribute_data"
  as_freshBlock :: nat
  as_vars :: "nat \<rightharpoonup> nat"
  as_names :: "nat list"

definition data_new :: attribute_data where
  "data_new = \<lparr>ad_attributes = [], ad_modified = {}, ad_deleted = {}\<rparr>"

definition store_new :: attribute_store where
  "store_new = \<lparr>as_heap = Map.empty, as_fresh = 0, as_blocks = Map.empty, as_freshBlock = 0, as_vars = Map.empty, as_names = []\<rparr>"

text \<open>A client creates an attribute object, or writes to one.\<close>

definition new_object :: "string \<Rightarrow> string \<Rightarrow> attribute_store \<Rightarrow> nat \<times> attribute_store" where
  "new_object t v s = (as_fresh s, s\<lparr>as_heap := (as_heap s)(as_fresh s \<mapsto> \<lparr>ao_type = t, ao_value = v\<rparr>), as_fresh := Suc (as_fresh s)\<rparr>)"

definition write_object :: "nat \<Rightarrow> string \<Rightarrow> attribute_store \<Rightarrow> attribute_store" where
  "write_object p v s = s\<lparr>as_heap := (as_heap s)(p := map_option (\<lambda>a. a\<lparr>ao_value := v\<rparr>) (as_heap s p))\<rparr>"

section \<open>Sharing\<close>

definition storage_new :: "nat \<Rightarrow> attribute_store \<Rightarrow> attribute_store" where
  "storage_new x s = s\<lparr>as_blocks := (as_blocks s)(as_freshBlock s \<mapsto> data_new), as_freshBlock := Suc (as_freshBlock s), as_vars := (as_vars s)(x \<mapsto> as_freshBlock s),
     as_names := x # as_names s\<rparr>"

definition storage_copy :: "nat \<Rightarrow> nat \<Rightarrow> attribute_store \<Rightarrow> attribute_store" where
  "storage_copy x y s = s\<lparr>as_vars := (as_vars s)(x := as_vars s y), as_names := x # as_names s\<rparr>"

text \<open>The copy constructor of the storage data clones every attribute. The clone of the object at \<open>p\<close> gets the address \<open>p\<close> above the used ones.\<close>

definition clone_block :: "attribute_data \<Rightarrow> attribute_store \<Rightarrow> attribute_data \<times> attribute_store" where
  "clone_block d s =
     (d\<lparr>ad_attributes := map (\<lambda>(t, p). (t, as_fresh s + p)) (ad_attributes d)\<rparr>,
      s\<lparr>as_heap := \<lambda>q. if q < as_fresh s then as_heap s q
                      else if q - as_fresh s \<in> snd ` set (ad_attributes d) then as_heap s (q - as_fresh s) else None,
        as_fresh := 2 * as_fresh s\<rparr>)"

definition shared :: "nat \<Rightarrow> attribute_store \<Rightarrow> bool" where
  "shared x s \<longleftrightarrow> list_ex (\<lambda>y. y \<noteq> x \<and> as_vars s y = as_vars s x) (as_names s)"

text \<open>\<open>QSharedDataPointer\<close>: the first writing access of a variable that shares its block copies the block.\<close>

definition detach :: "nat \<Rightarrow> attribute_store \<Rightarrow> attribute_store" where
  "detach x s =
     (case as_vars s x of
        None \<Rightarrow> s
      | Some b \<Rightarrow> (case as_blocks s b of
          None \<Rightarrow> s
        | Some d \<Rightarrow>
            if \<not> shared x s then s
            else case clone_block d s of (d', s') \<Rightarrow>
              s'\<lparr>as_blocks := (as_blocks s')(as_freshBlock s \<mapsto> d'), as_freshBlock := Suc (as_freshBlock s), as_vars := (as_vars s')(x \<mapsto> as_freshBlock s)\<rparr>))"

text \<open>The data of a variable, for reading and after \<open>detach\<close> for writing.\<close>

definition data_of :: "attribute_store \<Rightarrow> nat \<Rightarrow> attribute_data" where
  "data_of s x = (case as_vars s x of None \<Rightarrow> data_new | Some b \<Rightarrow> (case as_blocks s b of None \<Rightarrow> data_new | Some d \<Rightarrow> d))"

definition put_data :: "nat \<Rightarrow> attribute_data \<Rightarrow> attribute_store \<Rightarrow> attribute_store" where
  "put_data x d s = (case as_vars s x of None \<Rightarrow> s | Some b \<Rightarrow> s\<lparr>as_blocks := (as_blocks s)(b \<mapsto> d)\<rparr>)"

definition delete_object :: "nat option \<Rightarrow> attribute_store \<Rightarrow> attribute_store" where
  "delete_object p s = (case p of None \<Rightarrow> s | Some p \<Rightarrow> s\<lparr>as_heap := (as_heap s)(p := None)\<rparr>)"

section \<open>Operations of the storage\<close>

definition markAttributeModified :: "nat \<Rightarrow> string \<Rightarrow> attribute_store \<Rightarrow> attribute_store" where
  "markAttributeModified x t s =
     (let d = data_of s x in
      if map_of (ad_attributes d) t \<noteq> None
      then put_data x (d\<lparr>ad_deleted := ad_deleted d - {t}, ad_modified := insert t (ad_modified d)\<rparr>) s else s)"

definition addAttribute :: "nat \<Rightarrow> nat \<Rightarrow> attribute_store \<Rightarrow> attribute_store" where
  "addAttribute x a s =
     (case as_heap s a of
        None \<Rightarrow> s
      | Some ob \<Rightarrow>
          let t = ao_type ob; d = data_of s x; existing = map_of (ad_attributes d) t in
          if existing = Some a then s
          else markAttributeModified x t (put_data x (d\<lparr>ad_attributes := hash_insert t a (ad_attributes d)\<rparr>) (delete_object existing s)))"

definition removeAttribute :: "nat \<Rightarrow> string \<Rightarrow> attribute_store \<Rightarrow> attribute_store" where
  "removeAttribute x t s =
     (let d = data_of s x in
      put_data x (d\<lparr>ad_modified := ad_modified d - {t}, ad_deleted := insert t (ad_deleted d), ad_attributes := hash_remove t (ad_attributes d)\<rparr>)
        (delete_object (map_of (ad_attributes d) t) s))"

definition hasAttribute :: "attribute_store \<Rightarrow> nat \<Rightarrow> string \<Rightarrow> bool" where
  "hasAttribute s x t \<longleftrightarrow> map_of (ad_attributes (data_of s x)) t \<noteq> None"

definition attribute_const :: "attribute_store \<Rightarrow> nat \<Rightarrow> string \<Rightarrow> nat option" where
  "attribute_const s x t = map_of (ad_attributes (data_of s x)) t"

text \<open>The pointer for writing; taking it counts as a change.\<close>

definition attribute_ptr :: "nat \<Rightarrow> string \<Rightarrow> attribute_store \<Rightarrow> nat option \<times> attribute_store" where
  "attribute_ptr x t s = (let p = map_of (ad_attributes (data_of s x)) t in (p, if p = None then s else markAttributeModified x t s))"

definition clearAttributes :: "nat \<Rightarrow> attribute_store \<Rightarrow> attribute_store" where
  "clearAttributes x s =
     (let d = data_of s x in
      put_data x (d\<lparr>ad_deleted := ad_deleted d \<union> (\<lambda>p. case as_heap s p of None \<Rightarrow> [] | Some a \<Rightarrow> ao_type a) ` snd ` set (ad_attributes d),
                    ad_attributes := [], ad_modified := {}\<rparr>)
        (s\<lparr>as_heap := \<lambda>q. if q \<in> snd ` set (ad_attributes d) then None else as_heap s q\<rparr>))"

definition resetChangeLog :: "nat \<Rightarrow> attribute_store \<Rightarrow> attribute_store" where
  "resetChangeLog x s = put_data x ((data_of s x)\<lparr>ad_modified := {}, ad_deleted := {}\<rparr>) s"

definition hasModifiedAttributes :: "attribute_store \<Rightarrow> nat \<Rightarrow> bool" where
  "hasModifiedAttributes s x \<longleftrightarrow> ad_modified (data_of s x) \<noteq> {}"

definition deletedAttributes :: "attribute_store \<Rightarrow> nat \<Rightarrow> string set" where
  "deletedAttributes s x = ad_deleted (data_of s x)"

text \<open>The pointers to the modified attributes, by their types; the source asserts that there is an object for each.\<close>

definition modifiedAttributes :: "attribute_store \<Rightarrow> nat \<Rightarrow> (string \<times> nat option) set" where
  "modifiedAttributes s x = (\<lambda>t. (t, map_of (ad_attributes (data_of s x)) t)) ` ad_modified (data_of s x)"

section \<open>Operations of a collection\<close>

text \<open>Each writing operation makes the private data its own first.\<close>

definition collection_addAttribute :: "nat \<Rightarrow> nat \<Rightarrow> attribute_store \<Rightarrow> attribute_store" where
  "collection_addAttribute x a s = addAttribute x a (detach x s)"

definition collection_removeAttribute :: "nat \<Rightarrow> string \<Rightarrow> attribute_store \<Rightarrow> attribute_store" where
  "collection_removeAttribute x t s = removeAttribute x t (detach x s)"

definition collection_clearAttributes :: "nat \<Rightarrow> attribute_store \<Rightarrow> attribute_store" where
  "collection_clearAttributes x s = clearAttributes x (detach x s)"

definition collection_markAttributeModified :: "nat \<Rightarrow> string \<Rightarrow> attribute_store \<Rightarrow> attribute_store" where
  "collection_markAttributeModified x t s = markAttributeModified x t (detach x s)"

definition collection_attribute :: "nat \<Rightarrow> string \<Rightarrow> attribute_store \<Rightarrow> nat option \<times> attribute_store" where
  "collection_attribute x t s = (let s = collection_markAttributeModified x t s in attribute_ptr x t (detach x s))"

definition collection_resetChangeLog :: "nat \<Rightarrow> attribute_store \<Rightarrow> attribute_store" where
  "collection_resetChangeLog x s = resetChangeLog x (detach x s)"

section \<open>The factory\<close>

text \<open>The prototypes by their type, with their values.\<close>

definition registerAttribute :: "attribute_object \<Rightarrow> (string \<rightharpoonup> attribute_object) \<Rightarrow> (string \<rightharpoonup> attribute_object)" where
  "registerAttribute a reg = reg(ao_type a \<mapsto> a)"

definition createAttribute :: "(string \<rightharpoonup> attribute_object) \<Rightarrow> string \<Rightarrow> attribute_object" where
  "createAttribute reg t = (case reg t of None \<Rightarrow> \<lparr>ao_type = t, ao_value = []\<rparr> | Some a \<Rightarrow> a)"

section \<open>Value semantics\<close>

text \<open>What an entity means by its attributes: values by type, and the log. This is what the operations promise.\<close>

record attributes_value =
  av_values :: "string \<rightharpoonup> string"
  av_modified :: "string set"
  av_deleted :: "string set"

definition value_of :: "attribute_store \<Rightarrow> nat \<Rightarrow> attributes_value" where
  "value_of s x = \<lparr>av_values = (\<lambda>t. Option.bind (map_of (ad_attributes (data_of s x)) t) (\<lambda>p. map_option ao_value (as_heap s p))),
     av_modified = ad_modified (data_of s x), av_deleted = ad_deleted (data_of s x)\<rparr>"

definition av_set :: "string \<Rightarrow> string \<Rightarrow> attributes_value \<Rightarrow> attributes_value" where
  "av_set t v a = a\<lparr>av_values := (av_values a)(t \<mapsto> v), av_modified := insert t (av_modified a), av_deleted := av_deleted a - {t}\<rparr>"

definition av_remove :: "string \<Rightarrow> attributes_value \<Rightarrow> attributes_value" where
  "av_remove t a = a\<lparr>av_values := (av_values a)(t := None), av_modified := av_modified a - {t}, av_deleted := insert t (av_deleted a)\<rparr>"

definition av_clear :: "attributes_value \<Rightarrow> attributes_value" where
  "av_clear a = \<lparr>av_values = Map.empty, av_modified = {}, av_deleted = av_deleted a \<union> dom (av_values a)\<rparr>"

definition av_reset :: "attributes_value \<Rightarrow> attributes_value" where
  "av_reset a = a\<lparr>av_modified := {}, av_deleted := {}\<rparr>"

text \<open>What the server makes of a log.\<close>

definition apply_log :: "attributes_value \<Rightarrow> (string \<rightharpoonup> string) \<Rightarrow> (string \<rightharpoonup> string)" where
  "apply_log a server = (\<lambda>t. if t \<in> av_modified a then av_values a t else if t \<in> av_deleted a then None else server t)"

section \<open>Steps\<close>

text \<open>A client adds a new object, writes to the object it has just asked for, writes to it and adds it once more, removes, clears, resets, copies. It does not
  keep the pointers it was given.\<close>

datatype attribute_op = ONew nat | OCopy nat nat | OAdd nat string string | OSet nat string string | OAddAgain nat string string
  | ORemove nat string | OClear nat | OReset nat

fun attribute_do :: "attribute_op \<Rightarrow> attribute_store \<Rightarrow> attribute_store" where
  "attribute_do (ONew x) s = storage_new x s"
| "attribute_do (OCopy x y) s = storage_copy x y s"
| "attribute_do (OAdd x t v) s = (case new_object t v s of (a, s) \<Rightarrow> collection_addAttribute x a s)"
| "attribute_do (OSet x t v) s = (case collection_attribute x t s of (None, s) \<Rightarrow> s | (Some p, s) \<Rightarrow> write_object p v s)"
| "attribute_do (OAddAgain x t v) s = (case collection_attribute x t s of (None, s) \<Rightarrow> s | (Some p, s) \<Rightarrow> collection_addAttribute x p (write_object p v s))"
| "attribute_do (ORemove x t) s = collection_removeAttribute x t s"
| "attribute_do (OClear x) s = collection_clearAttributes x s"
| "attribute_do (OReset x) s = collection_resetChangeLog x s"

text \<open>The variables that an operation needs.\<close>

fun attribute_pre :: "attribute_op \<Rightarrow> attribute_store \<Rightarrow> bool" where
  "attribute_pre (ONew x) s \<longleftrightarrow> True"
| "attribute_pre (OCopy x y) s \<longleftrightarrow> as_vars s y \<noteq> None"
| "attribute_pre (OAdd x t v) s \<longleftrightarrow> as_vars s x \<noteq> None"
| "attribute_pre (OSet x t v) s \<longleftrightarrow> as_vars s x \<noteq> None"
| "attribute_pre (OAddAgain x t v) s \<longleftrightarrow> as_vars s x \<noteq> None"
| "attribute_pre (ORemove x t) s \<longleftrightarrow> as_vars s x \<noteq> None"
| "attribute_pre (OClear x) s \<longleftrightarrow> as_vars s x \<noteq> None"
| "attribute_pre (OReset x) s \<longleftrightarrow> as_vars s x \<noteq> None"

definition values_of :: "attribute_store \<Rightarrow> (nat \<rightharpoonup> attributes_value)" where
  "values_of s = (\<lambda>x. if as_vars s x = None then None else Some (value_of s x))"

definition av_new :: attributes_value where
  "av_new = \<lparr>av_values = Map.empty, av_modified = {}, av_deleted = {}\<rparr>"

fun attribute_spec :: "attribute_op \<Rightarrow> (nat \<rightharpoonup> attributes_value) \<Rightarrow> (nat \<rightharpoonup> attributes_value)" where
  "attribute_spec (ONew x) m = m(x \<mapsto> av_new)"
| "attribute_spec (OCopy x y) m = m(x := m y)"
| "attribute_spec (OAdd x t v) m = m(x := map_option (av_set t v) (m x))"
| "attribute_spec (OSet x t v) m = m(x := map_option (\<lambda>a. if av_values a t = None then a else av_set t v a) (m x))"
| "attribute_spec (OAddAgain x t v) m = m(x := map_option (\<lambda>a. if av_values a t = None then a else av_set t v a) (m x))"
| "attribute_spec (ORemove x t) m = m(x := map_option (av_remove t) (m x))"
| "attribute_spec (OClear x) m = m(x := map_option av_clear (m x))"
| "attribute_spec (OReset x) m = m(x := map_option av_reset (m x))"

inductive attribute_step :: "attribute_store \<Rightarrow> attribute_op \<Rightarrow> attribute_store \<Rightarrow> bool" where
  attribute_stepI: "attribute_pre l s \<Longrightarrow> attribute_step s l (attribute_do l s)"

inductive_cases attribute_stepE: "attribute_step s l t"

section \<open>Well-typed stores\<close>

text \<open>The data of every variable: each attribute lies under its type, and objects belong to one block. The log names attributes that are there as modified, and
  attributes that are not as deleted.\<close>

definition data_ok :: "attribute_store \<Rightarrow> attribute_data \<Rightarrow> bool" where
  "data_ok s d \<longleftrightarrow> distinct (map fst (ad_attributes d)) \<and>
     (\<forall>t p. (t, p) \<in> set (ad_attributes d) \<longrightarrow> p < as_fresh s \<and> (\<exists>a. as_heap s p = Some a \<and> ao_type a = t)) \<and>
     ad_modified d \<subseteq> fst ` set (ad_attributes d) \<and> ad_deleted d \<inter> fst ` set (ad_attributes d) = {}"

definition store_ok :: "attribute_store \<Rightarrow> bool" where
  "store_ok s \<longleftrightarrow>
     (\<forall>x b. as_vars s x = Some b \<longrightarrow> x \<in> set (as_names s) \<and> b < as_freshBlock s \<and> (\<exists>d. as_blocks s b = Some d \<and> data_ok s d)) \<and>
     (\<forall>x y. as_vars s x \<noteq> None \<and> as_vars s y \<noteq> None \<and> as_vars s x \<noteq> as_vars s y \<longrightarrow>
        snd ` set (ad_attributes (data_of s x)) \<inter> snd ` set (ad_attributes (data_of s y)) = {})"

lemma store_data: "store_ok s \<Longrightarrow> as_vars s x = Some b \<Longrightarrow> as_blocks s b = Some (data_of s x) \<and> data_ok s (data_of s x) \<and> b < as_freshBlock s \<and> x \<in> set (as_names s)"
  by (fastforce simp: store_ok_def data_of_def)

lemma shared_iff: "store_ok s \<Longrightarrow> as_vars s x = Some b \<Longrightarrow> shared x s \<longleftrightarrow> (\<exists>y. y \<noteq> x \<and> as_vars s y = Some b)"
  by (auto simp: shared_def list_ex_iff store_ok_def)

lemma map_of_remove: "map_of (hash_remove k m) = (map_of m)(k := None)"
  by (induction m) (auto simp: hash_remove_def fun_eq_iff)

lemma map_of_insert: "map_of (hash_insert k v m) = (map_of m)(k \<mapsto> v)"
  by (auto simp: hash_insert_def map_add_def map_of_remove fun_eq_iff split: option.splits)

lemma hash_distinct: "distinct (map fst m) \<Longrightarrow> distinct (map fst (hash_remove k m))" "distinct (map fst m) \<Longrightarrow> distinct (map fst (hash_insert k v m))"
  by (auto simp: hash_insert_def hash_remove_def distinct_map_filter)

definition owned :: "attribute_store \<Rightarrow> nat set" where
  "owned s = (\<Union>y \<in> dom (as_vars s). snd ` set (ad_attributes (data_of s y)))"

text \<open>A variable of its own block: its data changes to \<open>d\<close>, and of the objects at most its own ones change.\<close>

lemma own_change:
  assumes ok: "store_ok s" and b: "as_vars s x = Some b" "\<not> shared x s"
    and t: "as_vars t = as_vars s" "as_blocks t = (as_blocks s)(b \<mapsto> d)" "as_names t = as_names s" "as_freshBlock t = as_freshBlock s" "as_fresh s \<le> as_fresh t"
    and heap: "\<And>q. q \<notin> snd ` set (ad_attributes (data_of s x)) \<Longrightarrow> q < as_fresh s \<Longrightarrow> as_heap t q = as_heap s q"
    and d: "data_ok t d" and mine: "\<And>q. q \<in> snd ` set (ad_attributes d) \<Longrightarrow> q \<in> snd ` set (ad_attributes (data_of s x)) \<or> q \<notin> owned s"
  shows "store_ok t" "data_of t x = d" "\<And>y. y \<noteq> x \<Longrightarrow> as_vars s y \<noteq> None \<Longrightarrow> value_of t y = value_of s y" "\<not> shared x t"
proof -
  have other: "as_vars s y \<noteq> Some b" if "y \<noteq> x" for y using shared_iff[OF ok b(1)] b(2) that by auto
  show dx: "data_of t x = d" using b t by (simp add: data_of_def)
  have dy: "data_of t y = data_of s y" if "y \<noteq> x" for y using other[OF that] t by (auto simp: data_of_def split: option.splits)
  have apart: "snd ` set (ad_attributes (data_of s y)) \<inter> snd ` set (ad_attributes (data_of s x)) = {}" if "y \<noteq> x" "as_vars s y \<noteq> None" for y
    using ok that other[OF that(1)] b(1) unfolding store_ok_def by (metis option.distinct(1))
  have below: "\<forall>q \<in> snd ` set (ad_attributes (data_of s y)). q < as_fresh s" if "as_vars s y \<noteq> None" for y
    using store_data[OF ok, of y] that by (auto simp: data_ok_def)
  have same: "as_heap t q = as_heap s q" if "y \<noteq> x" "as_vars s y \<noteq> None" "q \<in> snd ` set (ad_attributes (data_of s y))" for y q
    using heap apart[OF that(1,2)] below[OF that(2)] that(3) by blast
  have oky: "data_ok t (data_of s y)" if "y \<noteq> x" "as_vars s y \<noteq> None" for y
  proof -
    have "data_ok s (data_of s y)" using store_data[OF ok, of y] that(2) by auto
    moreover have "as_heap t p = as_heap s p" if "(u, p) \<in> set (ad_attributes (data_of s y))" for u p
      using same[OF \<open>y \<noteq> x\<close> \<open>as_vars s y \<noteq> None\<close>] that by force
    ultimately show ?thesis using t(5) unfolding data_ok_def by (metis order.strict_trans2)
  qed
  show "store_ok t" unfolding store_ok_def
  proof (intro conjI allI impI)
    fix y c assume y: "as_vars t y = Some c"
    show "y \<in> set (as_names t)" "c < as_freshBlock t" using store_data[OF ok, of y c] y t by auto
    show "\<exists>e. as_blocks t c = Some e \<and> data_ok t e"
    proof (cases "y = x")
      case True
      then show ?thesis using y t b d by auto
    next
      case False
      then have "c \<noteq> b" using other[OF False] y t by auto
      then show ?thesis using store_data[OF ok, of y c] y t oky[OF False] by auto
    qed
  next
    fix y z assume yz: "as_vars t y \<noteq> None \<and> as_vars t z \<noteq> None \<and> as_vars t y \<noteq> as_vars t z"
    have far: "snd ` set (ad_attributes (data_of s z)) \<inter> snd ` set (ad_attributes d) = {}" if "z \<noteq> x" "as_vars s z \<noteq> None" for z
      
    proof -
      have "q \<notin> snd ` set (ad_attributes d)" if "q \<in> snd ` set (ad_attributes (data_of s z))" for q
        using mine[of q] apart[OF \<open>z \<noteq> x\<close> \<open>as_vars s z \<noteq> None\<close>] \<open>as_vars s z \<noteq> None\<close> that unfolding owned_def by blast
      then show ?thesis by blast
    qed
    show "snd ` set (ad_attributes (data_of t y)) \<inter> snd ` set (ad_attributes (data_of t z)) = {}"
    proof -
      consider "y = x" "z \<noteq> x" | "y \<noteq> x" "z = x" | "y \<noteq> x" "z \<noteq> x" using yz by blast
      then show ?thesis
      proof cases
        case 1
        then show ?thesis using far[of z] dx dy[of z] yz t(1) by (simp add: Int_commute)
      next
        case 2
        then show ?thesis using far[of y] dx dy[of y] yz t(1) by (simp add: Int_commute)
      next
        case 3
        have "snd ` set (ad_attributes (data_of s y)) \<inter> snd ` set (ad_attributes (data_of s z)) = {}"
          using ok yz t(1) unfolding store_ok_def by simp
        then show ?thesis using dy[OF 3(1)] dy[OF 3(2)] by simp
      qed
    qed
  qed
  show "value_of t y = value_of s y" if "y \<noteq> x" "as_vars s y \<noteq> None" for y
  proof -
    have "as_heap t p = as_heap s p" if "map_of (ad_attributes (data_of s y)) u = Some p" for u p
      using same[OF \<open>y \<noteq> x\<close> \<open>as_vars s y \<noteq> None\<close>] map_of_SomeD[OF that] by force
    then show ?thesis by (auto simp: value_of_def dy[OF that(1)] fun_eq_iff split: option.splits bind_splits)
  qed
  show "\<not> shared x t" using b(2) t by (simp add: shared_def)
qed


lemma own_put:
  assumes ok: "store_ok s" and b: "as_vars s x \<noteq> None" "\<not> shared x s"
    and heap: "\<And>q. q \<notin> snd ` set (ad_attributes (data_of s x)) \<Longrightarrow> q < as_fresh s \<Longrightarrow> h q = as_heap s q"
    and d: "data_ok (s\<lparr>as_heap := h\<rparr>) d" and mine: "\<And>q. q \<in> snd ` set (ad_attributes d) \<Longrightarrow> q \<in> snd ` set (ad_attributes (data_of s x)) \<or> q \<notin> owned s"
    and t: "t = put_data x d (s\<lparr>as_heap := h\<rparr>)"
  shows "store_ok t" "data_of t x = d" "\<And>y. y \<noteq> x \<Longrightarrow> as_vars s y \<noteq> None \<Longrightarrow> value_of t y = value_of s y" "\<not> shared x t" "as_heap t = h" "as_vars t = as_vars s"
proof -
  obtain b' where v: "as_vars s x = Some b'" using b by auto
  have d': "data_ok t d" using d t v by (simp add: data_ok_def put_data_def)
  note own = own_change[OF ok v b(2), of t d]
  show "store_ok t" "data_of t x = d" "\<not> shared x t" "\<And>y. y \<noteq> x \<Longrightarrow> as_vars s y \<noteq> None \<Longrightarrow> value_of t y = value_of s y"
    by (rule own; use t v heap d' mine in \<open>simp add: put_data_def\<close>)+
  show "as_heap t = h" "as_vars t = as_vars s" using t v by (simp_all add: put_data_def)
qed

section \<open>Copying on write\<close>

lemma clone_ok:
  assumes ok: "store_ok s" and v: "as_vars s x = Some b" and sh: "shared x s"
  defines "d \<equiv> data_of s x" and "t \<equiv> detach x s"
  shows "as_vars t = (as_vars s)(x \<mapsto> as_freshBlock s)" "as_blocks t = (as_blocks s)(as_freshBlock s \<mapsto> fst (clone_block d s))"
    "as_heap t = as_heap (snd (clone_block d s))" "as_fresh t = 2 * as_fresh s" "as_freshBlock t = Suc (as_freshBlock s)" "as_names t = as_names s"
    "data_of t x = fst (clone_block d s)" "\<And>y. y \<noteq> x \<Longrightarrow> as_vars s y \<noteq> None \<Longrightarrow> data_of t y = data_of s y"
proof -
  have bl: "as_blocks s b = Some d" using store_data[OF ok v] unfolding d_def by simp
  show "as_vars t = (as_vars s)(x \<mapsto> as_freshBlock s)" "as_blocks t = (as_blocks s)(as_freshBlock s \<mapsto> fst (clone_block d s))"
    "as_heap t = as_heap (snd (clone_block d s))" "as_fresh t = 2 * as_fresh s" "as_freshBlock t = Suc (as_freshBlock s)" "as_names t = as_names s"
    "data_of t x = fst (clone_block d s)"
    using bl v sh by (simp_all add: t_def detach_def clone_block_def data_of_def)
  show "data_of t y = data_of s y" if "y \<noteq> x" "as_vars s y \<noteq> None" for y
    using bl v sh that store_data[OF ok, of y] by (auto simp: t_def detach_def clone_block_def data_of_def)
qed

lemma clone_data:
  assumes "data_ok s d"
  shows "data_ok (snd (clone_block d s)) (fst (clone_block d s))"
    "\<And>q. q \<in> snd ` set (ad_attributes (fst (clone_block d s))) \<Longrightarrow> as_fresh s \<le> q"
    "\<And>t. map_of (ad_attributes (fst (clone_block d s))) t = map_option ((+) (as_fresh s)) (map_of (ad_attributes d) t)"
    "\<And>t. map_of (ad_attributes d) t = Some p \<Longrightarrow> as_heap (snd (clone_block d s)) (as_fresh s + p) = as_heap s p"
proof -
  have mem: "as_heap (snd (clone_block d s)) (as_fresh s + p) = as_heap s p" if "(t, p) \<in> set (ad_attributes d)" for t p
    using that by (force simp: clone_block_def)
  have f: "map fst (ad_attributes (fst (clone_block d s))) = map fst (ad_attributes d)" by (simp add: clone_block_def case_prod_unfold)
  have fs: "fst ` set (ad_attributes (fst (clone_block d s))) = fst ` set (ad_attributes d)" using f by (metis set_map)
  have "p < as_fresh (snd (clone_block d s)) \<and> (\<exists>a. as_heap (snd (clone_block d s)) p = Some a \<and> ao_type a = t)"
    if m: "(t, p) \<in> set (ad_attributes (fst (clone_block d s)))" for t p
  proof -
    obtain p' where p': "p = as_fresh s + p'" "(t, p') \<in> set (ad_attributes d)" using m by (auto simp: clone_block_def)
    then show ?thesis using mem[OF p'(2)] assms by (auto simp: data_ok_def clone_block_def)
  qed
  moreover have "ad_modified (fst (clone_block d s)) = ad_modified d" "ad_deleted (fst (clone_block d s)) = ad_deleted d" by (simp_all add: clone_block_def)
  ultimately show "data_ok (snd (clone_block d s)) (fst (clone_block d s))" using assms f fs unfolding data_ok_def by simp
  show "as_fresh s \<le> q" if "q \<in> snd ` set (ad_attributes (fst (clone_block d s)))" for q using that by (auto simp: clone_block_def)
  show "map_of (ad_attributes (fst (clone_block d s))) t = map_option ((+) (as_fresh s)) (map_of (ad_attributes d) t)" for t
    using map_of_map[of "(+) (as_fresh s)" "ad_attributes d"] by (simp add: clone_block_def)
  show "as_heap (snd (clone_block d s)) (as_fresh s + p) = as_heap s p" if "map_of (ad_attributes d) t = Some p" for t
    using mem map_of_SomeD[OF that] by blast
qed

lemma clone_below: "q < as_fresh s \<Longrightarrow> as_heap (snd (clone_block d s)) q = as_heap s q"
  by (simp add: clone_block_def)

lemma detach_ok:
  assumes ok: "store_ok s" and x: "as_vars s x \<noteq> None"
  shows "store_ok (detach x s)" "\<not> shared x (detach x s)" "as_vars (detach x s) x \<noteq> None" "dom (as_vars (detach x s)) = dom (as_vars s)"
    "\<And>y. as_vars s y \<noteq> None \<Longrightarrow> value_of (detach x s) y = value_of s y"
    "\<And>q. q < as_fresh s \<Longrightarrow> as_heap (detach x s) q = as_heap s q" "as_fresh s \<le> as_fresh (detach x s)"
    "\<And>q. q < as_fresh s \<Longrightarrow> q \<notin> owned s \<Longrightarrow> q \<notin> owned (detach x s)"
proof -
  obtain b where v: "as_vars s x = Some b" using x by auto
  let ?t = "detach x s" and ?d = "data_of s x"
  have bd: "as_blocks s b = Some ?d" "data_ok s ?d" "b < as_freshBlock s" using store_data[OF ok v] by auto
  have id: "?t = s" if "\<not> shared x s" using that v bd by (simp add: detach_def)
  note cl = clone_ok[OF ok v] and cd = clone_data[OF bd(2)]
  have low: "as_heap ?t q = as_heap s q" if "q < as_fresh s" for q
    using id cl(3) clone_below[OF that, of ?d] by (cases "shared x s") auto
  show "as_heap ?t q = as_heap s q" if "q < as_fresh s" for q by (rule low[OF that])
  show fr: "as_fresh s \<le> as_fresh ?t" using id cl(4) by (cases "shared x s") auto
  show "as_vars ?t x \<noteq> None" "dom (as_vars ?t) = dom (as_vars s)" using id cl(1) v by (cases "shared x s"; auto)+
  have below: "q < as_fresh s" if "as_vars s y \<noteq> None" "q \<in> snd ` set (ad_attributes (data_of s y))" for y q
    using store_data[OF ok, of y] that by (auto simp: data_ok_def)
  have oky: "data_ok ?t (data_of s y)" if "as_vars s y \<noteq> None" for y
  proof -
    have "data_ok s (data_of s y)" using store_data[OF ok, of y] that by auto
    then show ?thesis using fr low unfolding data_ok_def by (metis order.strict_trans2)
  qed
  have okx: "data_ok ?t (data_of ?t x)"
  proof (cases "shared x s")
    case True
    have "as_fresh (snd (clone_block ?d s)) = as_fresh ?t" using cl(4)[OF True] by (simp add: clone_block_def)
    then show ?thesis using cd(1) cl(3)[OF True] cl(7)[OF True] by (simp add: data_ok_def)
  next
    case False
    then show ?thesis using id bd by simp
  qed
  show "\<not> shared x ?t"
  proof (cases "shared x s")
    case True
    have "as_vars s y \<noteq> Some (as_freshBlock s)" for y using store_data[OF ok, of y] by auto
    then show ?thesis using cl(1)[OF True] cl(6)[OF True] by (auto simp: shared_def list_ex_iff)
  qed (use id in simp)
  show val: "value_of ?t y = value_of s y" if y: "as_vars s y \<noteq> None" for y
  proof (cases "shared x s")
    case True
    show ?thesis
    proof (cases "y = x")
      case False
      have "as_heap ?t p = as_heap s p" if "map_of (ad_attributes (data_of s y)) u = Some p" for u p
        using low below[OF y, of p] map_of_SomeD[OF that] by force
      then show ?thesis by (auto simp: value_of_def cl(8)[OF True False y] fun_eq_iff split: option.splits bind_splits)
    next
      case y: True
      have "ad_modified (fst (clone_block ?d s)) = ad_modified ?d" "ad_deleted (fst (clone_block ?d s)) = ad_deleted ?d" by (simp_all add: clone_block_def)
      moreover have "Option.bind (map_of (ad_attributes (fst (clone_block ?d s))) u) (\<lambda>p. map_option ao_value (as_heap (snd (clone_block ?d s)) p))
          = Option.bind (map_of (ad_attributes ?d) u) (\<lambda>p. map_option ao_value (as_heap s p))" for u
        unfolding cd(3) by (cases "map_of (ad_attributes ?d) u") (simp_all add: cd(4))
      ultimately show ?thesis using cl(3)[OF True] cl(7)[OF True] y by (simp add: value_of_def)
    qed
  qed (use id in simp)
  show "q \<notin> owned ?t" if q: "q < as_fresh s" "q \<notin> owned s" for q
  proof (cases "shared x s")
    case True
    have "q \<notin> snd ` set (ad_attributes (data_of ?t y))" if "as_vars ?t y \<noteq> None" for y
    proof (cases "y = x")
      case y: True
      then show ?thesis using cd(2)[of q] cl(7)[OF True] q(1) by (metis leD)
    next
      case False
      then have "as_vars s y \<noteq> None" using that cl(1)[OF True] by simp
      then show ?thesis using cl(8)[OF True False] q(2) unfolding owned_def by auto
    qed
    then show ?thesis unfolding owned_def by blast
  qed (use id q in simp)
  show "store_ok ?t"
  proof (cases "shared x s")
    case True
    have dy: "data_of ?t y = data_of s y" if "y \<noteq> x" "as_vars s y \<noteq> None" for y by (rule cl(8)[OF True that])
    have far: "snd ` set (ad_attributes (data_of ?t x)) \<inter> snd ` set (ad_attributes (data_of s z)) = {}" if "as_vars s z \<noteq> None" for z
      using cd(2) cl(7)[OF True] below[OF that] by (metis disjoint_iff leD)
    have block: "\<exists>e. as_blocks ?t c = Some e \<and> data_ok ?t e" if y: "as_vars ?t y = Some c" for y c
    proof (cases "y = x")
      case True
      then show ?thesis using y cl(1,2,7)[OF \<open>shared x s\<close>] okx by auto
    next
      case False
      then have "as_vars s y = Some c" using y cl(1)[OF \<open>shared x s\<close>] by simp
      then show ?thesis using store_data[OF ok, of y c] cl(2)[OF \<open>shared x s\<close>] oky[of y] by auto
    qed
    have name: "y \<in> set (as_names ?t) \<and> c < as_freshBlock ?t" if y: "as_vars ?t y = Some c" for y c
      using y cl(1,5,6)[OF True] store_data[OF ok, of y] store_data[OF ok v] by (cases "y = x") auto
    have apart: "snd ` set (ad_attributes (data_of ?t y)) \<inter> snd ` set (ad_attributes (data_of ?t z)) = {}"
      if yz: "as_vars ?t y \<noteq> None" "as_vars ?t z \<noteq> None" "as_vars ?t y \<noteq> as_vars ?t z" for y z
    proof -
      have in_s: "as_vars s w \<noteq> None" if "w \<noteq> x" "as_vars ?t w \<noteq> None" for w using that cl(1)[OF True] by simp
      consider "y = x" "z \<noteq> x" | "y \<noteq> x" "z = x" | "y \<noteq> x" "z \<noteq> x" using yz by blast
      then show ?thesis
      proof cases
        case 1
        then show ?thesis using far[OF in_s] dy[OF _ in_s] yz(2) by auto
      next
        case 2
        then show ?thesis using far[OF in_s] dy[OF _ in_s] yz(1) by (auto simp: Int_commute)
      next
        case 3
        have "as_vars s y \<noteq> as_vars s z" using yz(3) 3 cl(1)[OF True] by simp
        then show ?thesis using ok dy in_s 3 yz unfolding store_ok_def by simp
      qed
    qed
    show ?thesis unfolding store_ok_def using block name apart by blast
  qed (use id ok in simp)
qed

section \<open>The operations on data of their own\<close>

lemma data_ok_map: "data_ok s d \<longleftrightarrow> distinct (map fst (ad_attributes d)) \<and>
    (\<forall>t p. map_of (ad_attributes d) t = Some p \<longrightarrow> p < as_fresh s \<and> (\<exists>a. as_heap s p = Some a \<and> ao_type a = t)) \<and>
    ad_modified d \<subseteq> dom (map_of (ad_attributes d)) \<and> ad_deleted d \<inter> dom (map_of (ad_attributes d)) = {}"
  unfolding data_ok_def dom_map_of_conv_image_fst using map_of_eq_Some_iff by fast

lemma objects_ran: "distinct (map fst m) \<Longrightarrow> snd ` set m = ran (map_of m)"
  by (simp add: ran_distinct)

definition own_step :: "attribute_store \<Rightarrow> nat \<Rightarrow> attribute_store \<Rightarrow> attributes_value \<Rightarrow> bool" where
  "own_step s x u a \<longleftrightarrow> store_ok u \<and> \<not> shared x u \<and> as_vars u = as_vars s \<and> value_of u x = a \<and> (\<forall>y. y \<noteq> x \<longrightarrow> as_vars s y \<noteq> None \<longrightarrow> value_of u y = value_of s y)"

lemma own_step_trans: "own_step s x t a \<Longrightarrow> own_step t x u b \<Longrightarrow> own_step s x u b"
  by (simp add: own_step_def)

lemma own_step_put:
  assumes ok: "store_ok s" "as_vars s x \<noteq> None" "\<not> shared x s"
    and heap: "\<And>q. q \<notin> ran (map_of (ad_attributes (data_of s x))) \<Longrightarrow> q < as_fresh s \<Longrightarrow> h q = as_heap s q"
    and dist: "distinct (map fst (ad_attributes d))"
    and objs: "\<And>t p. map_of (ad_attributes d) t = Some p \<Longrightarrow> p < as_fresh s \<and> (\<exists>a. h p = Some a \<and> ao_type a = t) \<and> (p \<in> ran (map_of (ad_attributes (data_of s x))) \<or> p \<notin> owned s)"
    and log: "ad_modified d \<subseteq> dom (map_of (ad_attributes d))" "ad_deleted d \<inter> dom (map_of (ad_attributes d)) = {}"
    and a: "a = \<lparr>av_values = (\<lambda>t. Option.bind (map_of (ad_attributes d) t) (\<lambda>p. map_option ao_value (h p))), av_modified = ad_modified d, av_deleted = ad_deleted d\<rparr>"
  shows "own_step s x (put_data x d (s\<lparr>as_heap := h\<rparr>)) a"
proof -
  have "data_ok s (data_of s x)" using store_data[OF ok(1), of x] ok(2) by auto
  then have old: "snd ` set (ad_attributes (data_of s x)) = ran (map_of (ad_attributes (data_of s x)))" by (simp add: data_ok_map objects_ran)
  have d: "data_ok (s\<lparr>as_heap := h\<rparr>) d" using dist objs log by (simp add: data_ok_map)
  have mine: "q \<in> snd ` set (ad_attributes (data_of s x)) \<or> q \<notin> owned s" if "q \<in> snd ` set (ad_attributes d)" for q
    using objs that unfolding old objects_ran[OF dist] ran_def by blast
  note own = own_put[OF ok _ d mine refl, unfolded old, OF heap]
  show ?thesis unfolding own_step_def using own by (simp add: a value_of_def)
qed

lemma data_facts:
  assumes "store_ok s" "as_vars s x \<noteq> None"
  shows "distinct (map fst (ad_attributes (data_of s x)))"
    "\<And>t p. map_of (ad_attributes (data_of s x)) t = Some p \<Longrightarrow> p < as_fresh s \<and> (\<exists>a. as_heap s p = Some a \<and> ao_type a = t)"
    "ad_modified (data_of s x) \<subseteq> dom (map_of (ad_attributes (data_of s x)))" "ad_deleted (data_of s x) \<inter> dom (map_of (ad_attributes (data_of s x))) = {}"
    "\<And>t u p. map_of (ad_attributes (data_of s x)) t = Some p \<Longrightarrow> map_of (ad_attributes (data_of s x)) u = Some p \<Longrightarrow> t = u"
proof -
  have d: "data_ok s (data_of s x)" using store_data[OF assms(1), of x] assms(2) by auto
  then show "distinct (map fst (ad_attributes (data_of s x)))"
    "ad_modified (data_of s x) \<subseteq> dom (map_of (ad_attributes (data_of s x)))" "ad_deleted (data_of s x) \<inter> dom (map_of (ad_attributes (data_of s x))) = {}"
    by (simp_all add: data_ok_map)
  show m: "\<And>t p. map_of (ad_attributes (data_of s x)) t = Some p \<Longrightarrow> p < as_fresh s \<and> (\<exists>a. as_heap s p = Some a \<and> ao_type a = t)"
    using d by (simp add: data_ok_map)
  show "t = u" if "map_of (ad_attributes (data_of s x)) t = Some p" "map_of (ad_attributes (data_of s x)) u = Some p" for t u p
    using m[OF that(1)] m[OF that(2)] by auto
qed

lemma values_there: "store_ok s \<Longrightarrow> as_vars s x \<noteq> None \<Longrightarrow> av_values (value_of s x) t = None \<longleftrightarrow> map_of (ad_attributes (data_of s x)) t = None"
  using data_facts(2)[of s x t] by (cases "map_of (ad_attributes (data_of s x)) t") (auto simp: value_of_def)

lemma mark_ok:
  assumes ok: "store_ok s" "as_vars s x \<noteq> None" "\<not> shared x s"
  shows "own_step s x (markAttributeModified x t s)
     (if av_values (value_of s x) t = None then value_of s x
      else (value_of s x)\<lparr>av_modified := insert t (av_modified (value_of s x)), av_deleted := av_deleted (value_of s x) - {t}\<rparr>)"
proof (cases "map_of (ad_attributes (data_of s x)) t")
  case None
  then show ?thesis using ok by (simp add: markAttributeModified_def own_step_def value_of_def)
next
  case (Some p)
  let ?d = "data_of s x"
  note f = data_facts[OF ok(1,2)]
  obtain a where a: "as_heap s p = Some a" using f(2)[OF Some] by auto
  have "own_step s x (put_data x (?d\<lparr>ad_deleted := ad_deleted ?d - {t}, ad_modified := insert t (ad_modified ?d)\<rparr>) (s\<lparr>as_heap := as_heap s\<rparr>))
     ((value_of s x)\<lparr>av_modified := insert t (av_modified (value_of s x)), av_deleted := av_deleted (value_of s x) - {t}\<rparr>)"
    by (rule own_step_put[OF ok]) (use f Some in \<open>auto simp: value_of_def ran_def\<close>)
  then show ?thesis using Some a by (simp add: markAttributeModified_def value_of_def Let_def)
qed

lemma reset_ok:
  assumes ok: "store_ok s" "as_vars s x \<noteq> None" "\<not> shared x s"
  shows "own_step s x (resetChangeLog x s) (av_reset (value_of s x))"
proof -
  let ?d = "data_of s x"
  note f = data_facts[OF ok(1,2)]
  have "own_step s x (put_data x (?d\<lparr>ad_modified := {}, ad_deleted := {}\<rparr>) (s\<lparr>as_heap := as_heap s\<rparr>)) (av_reset (value_of s x))"
    by (rule own_step_put[OF ok]) (use f in \<open>auto simp: value_of_def av_reset_def ran_def\<close>)
  then show ?thesis by (simp add: resetChangeLog_def)
qed

lemma delete_heap: "delete_object p s = s\<lparr>as_heap := (case p of None \<Rightarrow> as_heap s | Some q \<Rightarrow> (as_heap s)(q := None))\<rparr>"
  by (simp add: delete_object_def split: option.split)

lemma remove_ok:
  assumes ok: "store_ok s" "as_vars s x \<noteq> None" "\<not> shared x s"
  shows "own_step s x (removeAttribute x t s) (av_remove t (value_of s x))"
proof -
  let ?d = "data_of s x"
  note f = data_facts[OF ok(1,2)]
  show ?thesis unfolding removeAttribute_def Let_def delete_heap
  proof (rule own_step_put[OF ok])
    fix q assume "q \<notin> ran (map_of (ad_attributes ?d))"
    then show "(case map_of (ad_attributes ?d) t of None \<Rightarrow> as_heap s | Some q \<Rightarrow> (as_heap s)(q := None)) q = as_heap s q"
      by (auto simp: ran_def split: option.split)
  next
    fix u p assume "map_of (ad_attributes (?d\<lparr>ad_modified := ad_modified ?d - {t}, ad_deleted := insert t (ad_deleted ?d), ad_attributes := hash_remove t (ad_attributes ?d)\<rparr>)) u = Some p"
    then have u: "u \<noteq> t" "map_of (ad_attributes ?d) u = Some p" by (auto simp: map_of_remove split: if_splits)
    then have "map_of (ad_attributes ?d) t \<noteq> Some p" using f(5) by blast
    then show "p < as_fresh s \<and> (\<exists>a. (case map_of (ad_attributes ?d) t of None \<Rightarrow> as_heap s | Some q \<Rightarrow> (as_heap s)(q := None)) p = Some a \<and> ao_type a = u) \<and>
      (p \<in> ran (map_of (ad_attributes ?d)) \<or> p \<notin> owned s)" using f(2)[OF u(2)] u(2) by (auto simp: ran_def split: option.split)
  next
    have "map_of (ad_attributes ?d) u \<noteq> Some p" if "map_of (ad_attributes ?d) t = Some p" "u \<noteq> t" for u p using f(5) that by blast
    then have "Option.bind (map_of (hash_remove t (ad_attributes ?d)) u) (\<lambda>p. map_option ao_value ((case map_of (ad_attributes ?d) t of None \<Rightarrow> as_heap s | Some q \<Rightarrow> (as_heap s)(q := None)) p))
        = (if u = t then None else Option.bind (map_of (ad_attributes ?d) u) (\<lambda>p. map_option ao_value (as_heap s p)))" for u
      by (cases "map_of (ad_attributes ?d) u"; cases "map_of (ad_attributes ?d) t") (auto simp: map_of_remove)
    then show "av_remove t (value_of s x) =
      \<lparr>av_values = \<lambda>ta. Option.bind (map_of (ad_attributes (?d\<lparr>ad_modified := ad_modified ?d - {t}, ad_deleted := insert t (ad_deleted ?d), ad_attributes := hash_remove t (ad_attributes ?d)\<rparr>)) ta)
          (\<lambda>p. map_option ao_value ((case map_of (ad_attributes ?d) t of None \<Rightarrow> as_heap s | Some q \<Rightarrow> (as_heap s)(q := None)) p)),
        av_modified = ad_modified (?d\<lparr>ad_modified := ad_modified ?d - {t}, ad_deleted := insert t (ad_deleted ?d), ad_attributes := hash_remove t (ad_attributes ?d)\<rparr>),
        av_deleted = ad_deleted (?d\<lparr>ad_modified := ad_modified ?d - {t}, ad_deleted := insert t (ad_deleted ?d), ad_attributes := hash_remove t (ad_attributes ?d)\<rparr>)\<rparr>"
      by (simp add: av_remove_def value_of_def fun_eq_iff)
  qed (use f in \<open>auto simp: map_of_remove hash_distinct\<close>)
qed

lemma clearing_ok:
  assumes ok: "store_ok s" "as_vars s x \<noteq> None" "\<not> shared x s"
  shows "own_step s x (clearAttributes x s) (av_clear (value_of s x))"
proof -
  let ?d = "data_of s x"
  note f = data_facts[OF ok(1,2)]
  have "(\<lambda>p. case as_heap s p of None \<Rightarrow> [] | Some a \<Rightarrow> ao_type a) ` snd ` set (ad_attributes ?d) = dom (map_of (ad_attributes ?d))"
  proof (intro equalityI subsetI)
    fix t assume "t \<in> (\<lambda>p. case as_heap s p of None \<Rightarrow> [] | Some a \<Rightarrow> ao_type a) ` snd ` set (ad_attributes ?d)"
    then obtain p where p: "p \<in> ran (map_of (ad_attributes ?d))" "t = (case as_heap s p of None \<Rightarrow> [] | Some a \<Rightarrow> ao_type a)"
      unfolding objects_ran[OF f(1)] by auto
    then show "t \<in> dom (map_of (ad_attributes ?d))" using f(2) by (fastforce simp: ran_def)
  next
    fix t assume "t \<in> dom (map_of (ad_attributes ?d))"
    then obtain p where p: "map_of (ad_attributes ?d) t = Some p" by auto
    then show "t \<in> (\<lambda>p. case as_heap s p of None \<Rightarrow> [] | Some a \<Rightarrow> ao_type a) ` snd ` set (ad_attributes ?d)"
      using f(2)[OF p] unfolding objects_ran[OF f(1)] by (force simp: ran_def)
  qed
  moreover have "dom (av_values (value_of s x)) = dom (map_of (ad_attributes ?d))" using values_there[OF ok(1,2)] by (auto simp: dom_def)
  ultimately have del: "ad_deleted ?d \<union> (\<lambda>p. case as_heap s p of None \<Rightarrow> [] | Some a \<Rightarrow> ao_type a) ` snd ` set (ad_attributes ?d)
      = ad_deleted ?d \<union> dom (av_values (value_of s x))" by simp
  show ?thesis unfolding clearAttributes_def Let_def del
    by (rule own_step_put[OF ok]) (use f(1) in \<open>auto simp: objects_ran av_clear_def value_of_def\<close>)
qed

text \<open>Giving a collection an object that no collection has.\<close>

lemma add_ok:
  assumes ok: "store_ok s" "as_vars s x \<noteq> None" "\<not> shared x s" and a: "as_heap s a = Some ob" "a < as_fresh s" "a \<notin> owned s"
  shows "own_step s x (addAttribute x a s) (av_set (ao_type ob) (ao_value ob) (value_of s x))"
proof -
  let ?d = "data_of s x" and ?t = "ao_type ob"
  let ?h = "case map_of (ad_attributes ?d) ?t of None \<Rightarrow> as_heap s | Some q \<Rightarrow> (as_heap s)(q := None)"
  let ?e = "?d\<lparr>ad_attributes := hash_insert ?t a (ad_attributes ?d), ad_deleted := ad_deleted ?d - {?t}, ad_modified := insert ?t (ad_modified ?d)\<rparr>"
  note f = data_facts[OF ok(1,2)]
  obtain b where b: "as_vars s x = Some b" using ok(2) by auto
  have new: "map_of (ad_attributes ?d) u \<noteq> Some a" for u
  proof
    assume "map_of (ad_attributes ?d) u = Some a"
    then have "a \<in> snd ` set (ad_attributes ?d)" by (force dest: map_of_SomeD)
    then show False using a(3) b by (auto simp: owned_def)
  qed
  have two: "addAttribute x a s = put_data x ?e (s\<lparr>as_heap := ?h\<rparr>)"
    using new[of ?t] a(1) b by (simp add: addAttribute_def Let_def delete_heap markAttributeModified_def put_data_def data_of_def map_of_insert)
  have keep: "?h p = as_heap s p" if "map_of (ad_attributes ?d) u = Some p" "u \<noteq> ?t" for u p
    using that f(5)[of u p ?t] by (auto split: option.split)
  have ha: "?h a = Some ob" using a(1) new by (auto split: option.split)
  show ?thesis unfolding two
  proof (rule own_step_put[OF ok])
    show "?h q = as_heap s q" if "q \<notin> ran (map_of (ad_attributes ?d))" for q using that by (auto simp: ran_def split: option.split)
    show "distinct (map fst (ad_attributes ?e))" using f(1) by (simp add: hash_distinct)
    show "ad_modified ?e \<subseteq> dom (map_of (ad_attributes ?e))" "ad_deleted ?e \<inter> dom (map_of (ad_attributes ?e)) = {}" using f(3,4) by (auto simp: map_of_insert)
    show "p < as_fresh s \<and> (\<exists>a. ?h p = Some a \<and> ao_type a = u) \<and> (p \<in> ran (map_of (ad_attributes ?d)) \<or> p \<notin> owned s)"
      if "map_of (ad_attributes ?e) u = Some p" for u p
      using that ha a keep f(2) by (cases "u = ?t") (auto simp: map_of_insert ran_def)
    have "Option.bind (map_of (ad_attributes ?e) u) (\<lambda>p. map_option ao_value (?h p)) =
        (if u = ?t then Some (ao_value ob) else Option.bind (map_of (ad_attributes ?d) u) (\<lambda>p. map_option ao_value (as_heap s p)))" for u
      using ha keep by (cases "u = ?t"; cases "map_of (ad_attributes ?d) u") (simp_all add: map_of_insert)
    then show "av_set ?t (ao_value ob) (value_of s x) = \<lparr>av_values = \<lambda>t. Option.bind (map_of (ad_attributes ?e) t) (\<lambda>p. map_option ao_value (?h p)),
        av_modified = ad_modified ?e, av_deleted = ad_deleted ?e\<rparr>"
      by (simp add: av_set_def value_of_def fun_eq_iff)
  qed
qed

lemma write_ok:
  assumes ok: "store_ok s" "as_vars s x \<noteq> None" "\<not> shared x s" and p: "map_of (ad_attributes (data_of s x)) t = Some p"
  shows "own_step s x (write_object p v s) ((value_of s x)\<lparr>av_values := (av_values (value_of s x))(t \<mapsto> v)\<rparr>)"
proof -
  let ?d = "data_of s x" and ?h = "(as_heap s)(p := map_option (\<lambda>a. a\<lparr>ao_value := v\<rparr>) (as_heap s p))"
  note f = data_facts[OF ok(1,2)]
  obtain b where b: "as_vars s x = Some b" "as_blocks s b = Some ?d" using ok(2) store_data[OF ok(1), of x] by auto
  have same: "as_blocks s = (as_blocks s)(b \<mapsto> ?d)" using b(2) by (simp add: fun_upd_idem)
  have u: "write_object p v s = put_data x ?d (s\<lparr>as_heap := ?h\<rparr>)" using b by (simp add: write_object_def put_data_def flip: same)
  show ?thesis unfolding u
  proof (rule own_step_put[OF ok])
    fix u q assume q: "map_of (ad_attributes ?d) u = Some q"
    show "q < as_fresh s \<and> (\<exists>a. ?h q = Some a \<and> ao_type a = u) \<and> (q \<in> ran (map_of (ad_attributes ?d)) \<or> q \<notin> owned s)"
      using f(2)[OF q] q by (auto simp: ran_def)
  next
    have "Option.bind (map_of (ad_attributes ?d) u) (\<lambda>p. map_option ao_value (?h p)) =
        (if u = t then Some v else Option.bind (map_of (ad_attributes ?d) u) (\<lambda>p. map_option ao_value (as_heap s p)))" for u
      using f(2)[OF p] f(5)[OF p, of u] p by (cases "map_of (ad_attributes ?d) u") auto
    then show "(value_of s x)\<lparr>av_values := (av_values (value_of s x))(t \<mapsto> v)\<rparr> = \<lparr>av_values = \<lambda>t. Option.bind (map_of (ad_attributes ?d) t) (\<lambda>p. map_option ao_value (?h p)),
        av_modified = ad_modified ?d, av_deleted = ad_deleted ?d\<rparr>"
      by (simp add: value_of_def fun_eq_iff)
  qed (use f p in \<open>auto simp: ran_def\<close>)
qed

section \<open>Every operation\<close>

lemma new_object_ok:
  fixes t v :: string
  assumes ok: "store_ok s"
  defines "u \<equiv> snd (new_object t v s)"
  shows "store_ok u" "as_vars u = as_vars s" "as_heap u (as_fresh s) = Some \<lparr>ao_type = t, ao_value = v\<rparr>" "as_fresh u = Suc (as_fresh s)" "as_fresh s \<notin> owned u"
    "\<And>y. as_vars s y \<noteq> None \<Longrightarrow> value_of u y = value_of s y"
proof -
  have d: "data_of u y = data_of s y" for y by (simp add: u_def new_object_def data_of_def split: option.split)
  have ok1: "data_ok u e" if "data_ok s e" for e using that by (fastforce simp: data_ok_def u_def new_object_def)
  show v: "as_vars u = as_vars s" "as_heap u (as_fresh s) = Some \<lparr>ao_type = t, ao_value = v\<rparr>" "as_fresh u = Suc (as_fresh s)" by (simp_all add: u_def new_object_def)
  show "store_ok u" unfolding store_ok_def
  proof (intro conjI allI impI)
    fix y b assume y: "as_vars u y = Some b"
    then have "as_vars s y = Some b" using v by simp
    from store_data[OF ok this] show "y \<in> set (as_names u)" "b < as_freshBlock u" "\<exists>e. as_blocks u b = Some e \<and> data_ok u e"
      using ok1 by (simp_all add: u_def new_object_def)
  qed (use ok d v in \<open>simp add: store_ok_def\<close>)
  have below: "p < as_fresh s" if "as_vars s y \<noteq> None" "p \<in> snd ` set (ad_attributes (data_of s y))" for y p
    using store_data[OF ok, of y] that by (auto simp: data_ok_def)
  then show "as_fresh s \<notin> owned u" using v d unfolding owned_def by fastforce
  show "value_of u y = value_of s y" if "as_vars s y \<noteq> None" for y
  proof -
    have "as_heap u p = as_heap s p" if "map_of (ad_attributes (data_of s y)) w = Some p" for w p
      using below[OF \<open>as_vars s y \<noteq> None\<close>, of p] map_of_SomeD[OF that] by (force simp: u_def new_object_def)
    then show ?thesis by (auto simp: value_of_def d fun_eq_iff split: option.splits bind_splits)
  qed
qed

lemma values_own:
  assumes "own_step s x u a" "as_vars s x \<noteq> None"
  shows "values_of u = (values_of s)(x \<mapsto> a)"
  using assms by (auto simp: own_step_def values_of_def)

lemma values_detach:
  assumes "store_ok s" "as_vars s x \<noteq> None"
  shows "values_of (detach x s) = values_of s"
proof
  fix y
  have "as_vars (detach x s) y = None \<longleftrightarrow> as_vars s y = None" using detach_ok(4)[OF assms] by blast
  then show "values_of (detach x s) y = values_of s y" using detach_ok(5)[OF assms, of y] by (simp add: values_of_def)
qed

lemma values_at: "as_vars s x \<noteq> None \<Longrightarrow> values_of s x = Some (value_of s x)"
  by (simp add: values_of_def)

lemma shared_detach: "store_ok s \<Longrightarrow> as_vars s x \<noteq> None \<Longrightarrow> \<not> shared x s \<Longrightarrow> detach x s = s"
  by (simp add: detach_def split: option.split)

text \<open>A writing operation: \<open>detach\<close>, then an operation on data of its own.\<close>

lemma written:
  assumes "store_ok s" "as_vars s x \<noteq> None" "own_step (detach x s) x u (g (value_of s x))"
  shows "store_ok u \<and> values_of u = (values_of s)(x := map_option g (values_of s x))"
proof -
  have "values_of u = (values_of (detach x s))(x \<mapsto> g (value_of s x))" using values_own[OF assms(3)] detach_ok(3)[OF assms(1,2)] by simp
  then show ?thesis using assms(3) values_detach[OF assms(1,2)] values_at[OF assms(2)] by (simp add: own_step_def)
qed

lemma set_ok:
  assumes ok: "store_ok s" "as_vars s x \<noteq> None" "\<not> shared x s"
  shows "own_step s x (case attribute_ptr x t (detach x (markAttributeModified x t s)) of (None, u) \<Rightarrow> u | (Some p, u) \<Rightarrow> write_object p v u)
     (if av_values (value_of s x) t = None then value_of s x else av_set t v (value_of s x))"
proof -
  let ?s1 = "markAttributeModified x t s"
  have s1: "own_step s x ?s1 (if av_values (value_of s x) t = None then value_of s x
      else (value_of s x)\<lparr>av_modified := insert t (av_modified (value_of s x)), av_deleted := av_deleted (value_of s x) - {t}\<rparr>)" by (rule mark_ok[OF ok])
  then have ok1: "store_ok ?s1" "as_vars ?s1 x \<noteq> None" "\<not> shared x ?s1" using ok(2) by (simp_all add: own_step_def)
  have there: "av_values (value_of ?s1 x) = av_values (value_of s x)" using s1 by (auto simp: own_step_def)
  show ?thesis
  proof (cases "map_of (ad_attributes (data_of ?s1 x)) t")
    case None
    then show ?thesis using s1 values_there[OF ok1(1,2), of t] there shared_detach[OF ok1] by (simp add: attribute_ptr_def)
  next
    case (Some p)
    let ?s2 = "markAttributeModified x t ?s1"
    have s2: "own_step ?s1 x ?s2 (if av_values (value_of ?s1 x) t = None then value_of ?s1 x
        else (value_of ?s1 x)\<lparr>av_modified := insert t (av_modified (value_of ?s1 x)), av_deleted := av_deleted (value_of ?s1 x) - {t}\<rparr>)" by (rule mark_ok[OF ok1])
    then have ok2: "store_ok ?s2" "as_vars ?s2 x \<noteq> None" "\<not> shared x ?s2" using ok1(2) by (simp_all add: own_step_def)
    obtain b where b: "as_vars ?s1 x = Some b" using ok1(2) by auto
    have "map_of (ad_attributes (data_of ?s2 x)) t = Some p" using Some b by (simp add: markAttributeModified_def[of x t ?s1] Let_def put_data_def data_of_def)
    from own_step_trans[OF own_step_trans[OF s1 s2] write_ok[OF ok2 this, of v]]
    have "own_step s x (write_object p v ?s2) ((value_of ?s2 x)\<lparr>av_values := (av_values (value_of ?s2 x))(t \<mapsto> v)\<rparr>)" .
    moreover have "av_values (value_of s x) t \<noteq> None" using values_there[OF ok1(1,2), of t] Some there by simp
    ultimately show ?thesis using Some s1 s2 there unfolding shared_detach[OF ok1] by (auto simp: attribute_ptr_def own_step_def av_set_def)
  qed
qed

text \<open>\<open>addAttribute\<close> recognises the object that is there.\<close>

lemma add_existing:
  assumes ok: "store_ok s" "as_vars s x \<noteq> None" "\<not> shared x s" and p: "map_of (ad_attributes (data_of s x)) t = Some p"
  shows "collection_addAttribute x p s = s"
  using data_facts(2)[OF ok(1,2) p] p by (auto simp: collection_addAttribute_def shared_detach[OF ok] addAttribute_def)

lemma mark_attributes: "ad_attributes (data_of (markAttributeModified x t s) x) = ad_attributes (data_of s x)"
  by (simp add: markAttributeModified_def Let_def put_data_def data_of_def split: option.split)

lemma write_attributes: "data_of (write_object p v s) = data_of s"
  by (simp add: write_object_def data_of_def fun_eq_iff split: option.split)

lemma add_again: "store_ok s \<Longrightarrow> as_vars s x \<noteq> None \<Longrightarrow> attribute_do (OAddAgain x t v) s = attribute_do (OSet x t v) s"
proof -
  assume ok: "store_ok s" and x: "as_vars s x \<noteq> None"
  note d = detach_ok[OF ok x]
  let ?u = "markAttributeModified x t (detach x s)"
  have col: "collection_attribute x t s = attribute_ptr x t (detach x ?u)"
    by (simp add: collection_attribute_def collection_markAttributeModified_def)
  show ?thesis
  proof (cases "fst (attribute_ptr x t (detach x ?u))")
    case None
    then show ?thesis by (simp add: col case_prod_unfold)
  next
    case (Some p)
    let ?w = "snd (attribute_ptr x t (detach x ?u))"
    have "own_step (detach x s) x (write_object p v ?w) (if av_values (value_of (detach x s) x) t = None then value_of (detach x s) x
        else av_set t v (value_of (detach x s) x))"
      using set_ok[OF d(1,3,2), where t = t and v = v] Some by (simp add: case_prod_unfold)
    then have "store_ok (write_object p v ?w)" "as_vars (write_object p v ?w) x \<noteq> None" "\<not> shared x (write_object p v ?w)"
      using d(3) by (simp_all add: own_step_def)
    moreover have "map_of (ad_attributes (data_of (write_object p v ?w) x)) t = Some p"
      using Some by (simp add: attribute_ptr_def Let_def mark_attributes write_attributes)
    ultimately have "collection_addAttribute x p (write_object p v ?w) = write_object p v ?w" by (rule add_existing)
    then show ?thesis using Some by (simp add: col case_prod_unfold)
  qed
qed

lemma attribute_do_ok:
  assumes ok: "store_ok s" and pre: "attribute_pre l s"
  shows "store_ok (attribute_do l s) \<and> values_of (attribute_do l s) = attribute_spec l (values_of s)"
proof (cases l)
  case (ORemove x t)
  then have x: "as_vars s x \<noteq> None" using pre by simp
  note d = detach_ok[OF ok x]
  show ?thesis using written[OF ok x, of _ "av_remove t"] remove_ok[OF d(1,3,2)] d(5)[OF x] by (simp add: ORemove collection_removeAttribute_def)
next
  case (OClear x)
  then have x: "as_vars s x \<noteq> None" using pre by simp
  note d = detach_ok[OF ok x]
  show ?thesis using written[OF ok x, of _ av_clear] clearing_ok[OF d(1,3,2)] d(5)[OF x] by (simp add: OClear collection_clearAttributes_def)
next
  case (OReset x)
  then have x: "as_vars s x \<noteq> None" using pre by simp
  note d = detach_ok[OF ok x]
  show ?thesis using written[OF ok x, of _ av_reset] reset_ok[OF d(1,3,2)] d(5)[OF x] by (simp add: OReset collection_resetChangeLog_def)
next
  case (OSet x t v)
  then have x: "as_vars s x \<noteq> None" using pre by simp
  note d = detach_ok[OF ok x]
  show ?thesis using written[OF ok x, of _ "\<lambda>a. if av_values a t = None then a else av_set t v a", OF set_ok[OF d(1,3,2), where t = t and v = v, unfolded d(5)[OF x]]]
    by (simp add: OSet collection_attribute_def collection_markAttributeModified_def Let_def)
next
  case (OAddAgain x t v)
  then have x: "as_vars s x \<noteq> None" using pre by simp
  note d = detach_ok[OF ok x]
  show ?thesis using written[OF ok x, of _ "\<lambda>a. if av_values a t = None then a else av_set t v a", OF set_ok[OF d(1,3,2), where t = t and v = v, unfolded d(5)[OF x]]]
    unfolding OAddAgain add_again[OF ok x] by (simp add: collection_attribute_def collection_markAttributeModified_def Let_def)
next
  case (OAdd x t v)
  then have x: "as_vars s x \<noteq> None" using pre by simp
  let ?u = "snd (new_object t v s)"
  note n = new_object_ok[OF ok, where t = t and v = v]
  have xu: "as_vars ?u x \<noteq> None" using x n(2) by simp
  note d = detach_ok[OF n(1) xu]
  have "as_heap (detach x ?u) (as_fresh s) = Some \<lparr>ao_type = t, ao_value = v\<rparr>" "as_fresh s < as_fresh (detach x ?u)" "as_fresh s \<notin> owned (detach x ?u)"
    using d(6)[of "as_fresh s"] d(7) d(8)[of "as_fresh s"] n(3-5) by auto
  from add_ok[OF d(1,3,2) this] have "own_step (detach x ?u) x (addAttribute x (as_fresh s) (detach x ?u)) (av_set t v (value_of ?u x))" using d(5)[OF xu] by simp
  moreover have al: "attribute_do l s = addAttribute x (as_fresh s) (detach x ?u)" using OAdd by (simp add: collection_addAttribute_def new_object_def)
  ultimately have "store_ok (attribute_do l s) \<and> values_of (attribute_do l s) = (values_of ?u)(x := map_option (av_set t v) (values_of ?u x))"
    using written[OF n(1) xu, of _ "av_set t v"] by simp
  moreover have "values_of ?u = values_of s" using n(2,6) by (auto simp: values_of_def fun_eq_iff)
  ultimately show ?thesis by (simp add: OAdd)
next
  case (OCopy x y)
  then have y: "as_vars s y \<noteq> None" using pre by simp
  have d: "data_of (storage_copy x y s) z = (if z = x then data_of s y else data_of s z)" for z by (simp add: storage_copy_def data_of_def split: option.split)
  have v: "value_of (storage_copy x y s) z = (if z = x then value_of s y else value_of s z)" for z unfolding value_of_def d by (simp add: storage_copy_def)
  have a: "as_vars (storage_copy x y s) z = (if z = x then as_vars s y else as_vars s z)" for z by (simp add: storage_copy_def)
  have k: "data_ok (storage_copy x y s) e = data_ok s e" for e by (simp add: data_ok_def storage_copy_def)
  have "store_ok (storage_copy x y s)" unfolding store_ok_def
  proof (intro conjI allI impI)
    fix z b assume z: "as_vars (storage_copy x y s) z = Some b"
    then obtain w where w: "as_vars s w = Some b" "z = x \<or> z = w" using a by (auto split: if_splits)
    then show "z \<in> set (as_names (storage_copy x y s))" "b < as_freshBlock (storage_copy x y s)" "\<exists>d. as_blocks (storage_copy x y s) b = Some d \<and> data_ok (storage_copy x y s) d"
      using store_data[OF ok w(1)] k by (auto simp: storage_copy_def)
  next
    fix z w assume zw: "as_vars (storage_copy x y s) z \<noteq> None \<and> as_vars (storage_copy x y s) w \<noteq> None \<and> as_vars (storage_copy x y s) z \<noteq> as_vars (storage_copy x y s) w"
    show "snd ` set (ad_attributes (data_of (storage_copy x y s) z)) \<inter> snd ` set (ad_attributes (data_of (storage_copy x y s) w)) = {}"
      using ok zw y unfolding d a store_ok_def by (cases "z = x"; cases "w = x") simp_all
  qed
  moreover have "values_of (storage_copy x y s) = (values_of s)(x := values_of s y)" using y by (auto simp: values_of_def v a fun_eq_iff)
  ultimately show ?thesis by (simp add: OCopy)
next
  case (ONew x)
  let ?u = "storage_new x s"
  have old: "as_vars s z \<noteq> Some (as_freshBlock s)" for z using store_data[OF ok, of z] by auto
  have d: "data_of ?u z = (if z = x then data_new else data_of s z)" for z using old[of z] by (auto simp: storage_new_def data_of_def split: option.split)
  have v: "value_of ?u z = (if z = x then av_new else value_of s z)" for z
    unfolding value_of_def d by (simp add: storage_new_def data_new_def av_new_def)
  have a: "as_vars ?u z = (if z = x then Some (as_freshBlock s) else as_vars s z)" for z by (simp add: storage_new_def)
  have k: "data_ok ?u e = data_ok s e" for e by (simp add: data_ok_def storage_new_def)
  have "store_ok ?u" unfolding store_ok_def
  proof (intro conjI allI impI)
    fix z b assume z: "as_vars ?u z = Some b"
    show "z \<in> set (as_names ?u)" "b < as_freshBlock ?u" "\<exists>d. as_blocks ?u b = Some d \<and> data_ok ?u d"
      using z store_data[OF ok, of z b] k by (auto simp: storage_new_def data_ok_def data_new_def split: if_splits)
  next
    fix z w assume zw: "as_vars ?u z \<noteq> None \<and> as_vars ?u w \<noteq> None \<and> as_vars ?u z \<noteq> as_vars ?u w"
    show "snd ` set (ad_attributes (data_of ?u z)) \<inter> snd ` set (ad_attributes (data_of ?u w)) = {}"
      using ok zw unfolding d a store_ok_def by (cases "z = x"; cases "w = x") (simp_all add: data_new_def)
  qed
  moreover have "values_of ?u = (values_of s)(x \<mapsto> av_new)" by (simp add: values_of_def v a fun_eq_iff)
  ultimately show ?thesis by (simp add: ONew)
qed

definition attribute_init :: "attribute_store \<Rightarrow> bool" where
  "attribute_init s \<longleftrightarrow> s = store_new"

lemma store_new_ok: "store_ok store_new"
  by (simp add: store_ok_def store_new_def)

interpretation attributes: inductive_invariant attribute_init attribute_step store_ok
  by unfold_locales (auto simp: attribute_init_def store_new_ok attribute_do_ok elim: attribute_stepE)

lemma attribute_stepI': "attribute_pre l s \<Longrightarrow> t = attribute_do l s \<Longrightarrow> attribute_step s l t"
  by (simp add: attribute_step.intros)

lemma attribute_run_cons: "attribute_step s l t \<Longrightarrow> run attribute_step t ls u \<Longrightarrow> run attribute_step s (l # ls) u"
  by (rule run_cons)

text \<open>(C19) Every attribute lies under its own type, and no other data and no other type has it, in every state that clients can bring about with new objects and
  with the pointers they have just asked for, which they may write to and add again. (A pointer that is kept while the collection is copied can be added to
  a second one, see \<open>readded_after_copy_is_owned_twice\<close>.)\<close>

theorem attributes_well_typed:
  assumes "reach attribute_init attribute_step s" "as_vars s x \<noteq> None" "attribute_const s x t = Some p"
  shows "(\<exists>a. as_heap s p = Some a \<and> ao_type a = t) \<and> (\<forall>y u. as_vars s y \<noteq> None \<and> attribute_const s y u = Some p \<longrightarrow> as_vars s y = as_vars s x \<and> u = t)"
proof -
  have ok: "store_ok s" by (rule attributes.reach_inv[OF assms(1)])
  note f = data_facts[OF ok]
  have "as_vars s y = as_vars s x \<and> u = t" if y: "as_vars s y \<noteq> None" "attribute_const s y u = Some p" for y u
  proof -
    have "p \<in> snd ` set (ad_attributes (data_of s x)) \<inter> snd ` set (ad_attributes (data_of s y))"
      using assms(3) y(2) by (force simp: attribute_const_def dest: map_of_SomeD)
    then have "as_vars s y = as_vars s x" using ok assms(2) y(1) unfolding store_ok_def by blast
    then show ?thesis using f(2)[OF assms(2), of t p] f(2)[OF y(1), of u p] assms(3) y(2) by (auto simp: attribute_const_def)
  qed
  then show ?thesis using f(2)[OF assms(2), of t p] assms(3) by (auto simp: attribute_const_def)
qed

text \<open>A collection with an attribute, and its copy.\<close>

definition sample_attributes :: attribute_store where
  "sample_attributes = attribute_do (OCopy 1 0) (attribute_do (OAdd 0 ''color'' ''red'') (attribute_do (ONew 0) store_new))"

lemmas attribute_eval = storage_new_def storage_copy_def new_object_def store_new_def data_new_def collection_addAttribute_def addAttribute_def
  detach_def shared_def data_of_def put_data_def delete_object_def markAttributeModified_def hash_insert_def hash_remove_def Let_def

lemma sample_run: "run attribute_step store_new [ONew 0, OAdd 0 ''color'' ''red'', OCopy 1 0] sample_attributes"
  unfolding sample_attributes_def
  by (rule run_cons, rule attribute_stepI', simp add: attribute_eval, rule refl)+ (rule run_nil)

lemma sample_reach: "reach attribute_init attribute_step sample_attributes"
  by (rule attributes.reach_run[OF reach.start sample_run]) (simp add: attribute_init_def)

lemma sample_vars: "as_vars sample_attributes 0 = Some 0" "as_vars sample_attributes 1 = Some 0" "attribute_const sample_attributes 0 ''color'' = Some 0"
  by (simp_all add: sample_attributes_def attribute_const_def attribute_eval)

theorem attributes_well_typed_witness: "\<exists>a. as_heap sample_attributes 0 = Some a \<and> ao_type a = ''color''"
  using attributes_well_typed[OF sample_reach, of 0 "''color''" 0] by (simp add: sample_vars)

text \<open>(C20) Copies are independent: whatever clients add, add again, write, remove, clear, reset and copy, every collection has the attributes and the log that it
  would have if nothing were shared. They add new objects, and they write to and add again the attribute they have just asked for; a pointer that is kept
  across other operations is not covered.\<close>

theorem attributes_have_values:
  assumes "run attribute_step store_new ls s"
  shows "values_of s = fold attribute_spec ls Map.empty"
proof -
  have "run attribute_step u ls s \<Longrightarrow> store_ok u \<Longrightarrow> values_of s = fold attribute_spec ls (values_of u)" for u
    by (induction rule: run.induct) (auto simp: attribute_do_ok elim!: attribute_stepE)
  then show ?thesis using assms store_new_ok by (simp add: values_of_def store_new_def)
qed

theorem attributes_have_values_witness:
  "values_of sample_attributes 1 = Some (av_set ''color'' ''red'' av_new)"
  using attributes_have_values[OF sample_run] by simp

text \<open>What does not begin a new log or put another value into the variable.\<close>

fun keeps_log :: "nat \<Rightarrow> attribute_op \<Rightarrow> bool" where
  "keeps_log x (ONew y) = (y \<noteq> x)"
| "keeps_log x (OCopy y z) = (y \<noteq> x)"
| "keeps_log x (OReset y) = (y \<noteq> x)"
| "keeps_log x _ = True"

definition logged :: "(string \<rightharpoonup> string) \<Rightarrow> attributes_value \<Rightarrow> bool" where
  "logged base a \<longleftrightarrow> apply_log a base = av_values a \<and> av_modified a \<subseteq> dom (av_values a)"

lemma logged_ops:
  assumes "logged base a"
  shows "logged base (av_set t v a)" "logged base (av_remove t a)" "logged base (av_clear a)"
proof -
  have eq: "apply_log a base u = av_values a u" for u using assms by (simp add: logged_def)
  have l: "av_values a u = None" if "u \<notin> av_modified a" "u \<in> av_deleted a" for u
    using eq[of u] that by (simp add: apply_log_def)
  have k: "base u = av_values a u" if "u \<notin> av_modified a" "u \<notin> av_deleted a" for u
    using eq[of u] that by (simp add: apply_log_def)
  have m: "av_modified a \<subseteq> dom (av_values a)" using assms by (simp add: logged_def)
  show "logged base (av_set t v a)" using l k m by (auto simp: logged_def apply_log_def av_set_def fun_eq_iff)
  show "logged base (av_remove t a)" using l k m by (auto simp: logged_def apply_log_def av_remove_def fun_eq_iff)
  have "base u = None" if "u \<notin> av_deleted a" "av_values a u = None" for u using k[of u] m that by auto
  then have "apply_log (av_clear a) base = av_values (av_clear a)" by (fastforce simp: apply_log_def av_clear_def fun_eq_iff dom_def)
  then show "logged base (av_clear a)" by (simp add: logged_def av_clear_def)
qed

lemma logged_spec:
  assumes "keeps_log x l" "m x = Some a" "logged base a"
  shows "\<exists>a. attribute_spec l m x = Some a \<and> logged base a"
proof (cases l)
  case (OSet y t v)
  then show ?thesis using assms(2,3) logged_ops(1)[OF assms(3), of t v] by (cases "y = x"; cases "av_values a t") simp_all
next
  case (OAddAgain y t v)
  then show ?thesis using assms(2,3) logged_ops(1)[OF assms(3), of t v] by (cases "y = x"; cases "av_values a t") simp_all
qed (use assms(1) in \<open>auto simp: assms(2,3) logged_ops[OF assms(3)]\<close>)

text \<open>(C21) Applying the log of a collection to the attributes it had at the last reset gives those it has now, whatever was done to it and to others since.\<close>

theorem log_tells_changes:
  assumes "reach attribute_init attribute_step s" "run attribute_step s (OReset x # ls) t" "\<forall>l \<in> set ls. keeps_log x l"
  shows "apply_log (value_of t x) (av_values (value_of s x)) = av_values (value_of t x)"
proof -
  let ?base = "av_values (value_of s x)"
  obtain r where r: "attribute_step s (OReset x) r" "run attribute_step r ls t" using assms(2) by (auto elim: run.cases)
  have ok: "store_ok s" by (rule attributes.reach_inv[OF assms(1)])
  have x: "as_vars s x \<noteq> None" using r(1) by (auto elim: attribute_stepE)
  have "values_of r = (values_of s)(x := map_option av_reset (values_of s x))" "store_ok r"
    using r(1) attribute_do_ok[OF ok, of "OReset x"] by (auto elim!: attribute_stepE simp del: attribute_do.simps)
  then have start: "store_ok r \<and> (\<exists>a. values_of r x = Some a \<and> logged ?base a)"
    using values_at[OF x] by (auto simp: logged_def apply_log_def av_reset_def)
  have "run attribute_step u ls t \<Longrightarrow> \<forall>l \<in> set ls. keeps_log x l \<Longrightarrow> store_ok u \<and> (\<exists>a. values_of u x = Some a \<and> logged ?base a) \<Longrightarrow> \<exists>a. values_of t x = Some a \<and> logged ?base a" for u
  proof (induction rule: run.induct)
    case (run_cons s l t ls u)
    then have "store_ok t \<and> values_of t = attribute_spec l (values_of s)" using attribute_do_ok by (auto elim!: attribute_stepE)
    then show ?case using run_cons logged_spec[of x l "values_of s" _ ?base] by auto
  qed simp
  then have "\<exists>a. values_of t x = Some a \<and> logged ?base a" using r(2) assms(3) start by blast
  then show ?thesis by (auto simp: values_of_def logged_def split: if_splits)
qed

theorem log_tells_changes_witness:
  "let t = attribute_do (OAdd 1 ''color'' ''blue'') (attribute_do (OReset 1) sample_attributes) in
     apply_log (value_of t 1) (av_values (value_of sample_attributes 1)) = av_values (value_of t 1)"
proof -
  have s1: "attribute_step sample_attributes (OReset 1) (attribute_do (OReset 1) sample_attributes)"
    by (rule attribute_stepI) (simp add: sample_vars[simplified])
  have "store_ok sample_attributes" by (rule attributes.reach_inv[OF sample_reach])
  then have "values_of (attribute_do (OReset 1) sample_attributes) = attribute_spec (OReset 1) (values_of sample_attributes)"
    using attribute_do_ok[of sample_attributes "OReset 1"] sample_vars(2) by (simp del: attribute_do.simps attribute_spec.simps)
  then have "values_of (attribute_do (OReset 1) sample_attributes) 1 \<noteq> None" using sample_vars(2) by (simp add: values_of_def)
  then have "as_vars (attribute_do (OReset 1) sample_attributes) 1 \<noteq> None" by (simp add: values_of_def split: if_splits)
  then have s2: "attribute_step (attribute_do (OReset 1) sample_attributes) (OAdd 1 ''color'' ''blue'') (attribute_do (OAdd 1 ''color'' ''blue'') (attribute_do (OReset 1) sample_attributes))"
    by (intro attribute_stepI) simp
  have "run attribute_step sample_attributes [OReset 1, OAdd 1 ''color'' ''blue''] (attribute_do (OAdd 1 ''color'' ''blue'') (attribute_do (OReset 1) sample_attributes))"
    by (rule attribute_run_cons[OF s1], rule attribute_run_cons[OF s2], rule run_nil)
  from log_tells_changes[OF sample_reach this] show ?thesis by (simp add: Let_def)
qed

section \<open>A pointer from before a copy\<close>

text \<open>
  \<open>addAttribute\<close> accepts a pointer that it has already handed out. After a copy of the collection the same call gives the object to both: the first collection has
  clones by then, so it does not recognise the pointer and takes the object that the copy still owns. Both delete it in the end.
\<close>

theorem readded_after_copy_is_owned_twice:
  "let s = collection_addAttribute 0 0 sample_attributes in
     as_vars s 0 \<noteq> as_vars s 1 \<and> attribute_const s 0 ''color'' = Some 0 \<and> attribute_const s 1 ''color'' = Some 0"
  by (simp add: sample_attributes_def attribute_const_def clone_block_def attribute_eval)

end
