(* ===== verification/Spec2Isabelle.thy ===== *)
theory Spec2Isabelle
  imports ImapParser ResourceScheduler ItemRetrieval IntervalCheck CacheCleaner Preprocessor ExternalPartStorage
    AggregatedFetchScope Scope NotificationManager CollectionHandlers ItemSync ChangeRecorder MonitorSubscription Monitor
    CollectionSync SearchTaskManager StorageJanitor Session AttributeStorage
begin

text \<open>
  A verification of core parts of Akonadi, the storage service for personal information of KDE.

  \<^bold>\<open>The program.\<close> The Akonadi server (\<open>src/server\<close>) keeps collections and items in an SQL database and their large
  payload in files. Clients and agents talk to it over a socket with a binary protocol (\<open>src/private\<close>); resources are
  agents (\<open>src/agentbase\<close>) that synchronise a collection tree with some backend and deliver payload on request. The
  parts that are modelled, in the way in which a request passes through them:

  \<^item> A command selects entities with a scope and travels as bytes: \<open>DataStream\<close> is the encoding of
    \<open>datastream_p.cpp\<close>, \<open>Scope\<close> that of \<open>scope.cpp\<close>, \<open>ImapSet\<close> and \<open>ImapParser\<close> the id sets and the textual
    format of \<open>imapset.cpp\<close> and \<open>imapparser.cpp\<close>.
  \<^item> The payload of an item that is not in the database is requested from the resource that owns it:
    \<open>ItemRetrieval\<close> is \<open>storage/itemretrievalmanager.cpp\<close> with \<open>itemretrievaljob.cpp\<close>. In the resource the
    request becomes a task: \<open>ResourceScheduler\<close> is \<open>agentbase/resourcescheduler.cpp\<close>.
  \<^item> Large payload is kept in files: \<open>ExternalPartStorage\<close> is \<open>externalpartstorage.cpp\<close>.
  \<^item> New items pass the preprocessor agents before clients see them: \<open>Preprocessor\<close> is \<open>preprocessormanager.cpp\<close>
    with \<open>preprocessorinstance.cpp\<close>.
  \<^item> Collections are synchronised and cleaned periodically: \<open>CollectionScheduler\<close> is the common base class
    \<open>collectionscheduler.cpp\<close> with \<open>DataStore::activeCachePolicy\<close>; \<open>IntervalCheck\<close> (\<open>intervalcheck.cpp\<close>) triggers
    synchronisations through the item retrieval manager, \<open>CacheCleaner\<close> (\<open>cachecleaner.cpp\<close>) drops cached payload.
  \<^item> The handler of a command resolves the scope against the tables: \<open>Tables\<close> are the tables of \<open>storage/akonadidb.xml\<close> as far
    as they are used, \<open>CollectionTree\<close> is \<open>commandcontext.cpp\<close>, \<open>storage/collectionqueryhelper.cpp\<close> and the part of
    \<open>handlerhelper.cpp\<close> about paths, \<open>HandlerHelper\<close> the rest of it.
  \<^item> The store changes the tables: \<open>Transactions\<close> are the nested transactions of \<open>storage/datastore.cpp\<close> with the guard of
    \<open>storage/transaction.cpp\<close>; \<open>ItemStore\<close> (flags, tags) and \<open>CollectionStore\<close> (collections) are its operations;
    \<open>CollectionHandlers\<close> are the handlers that move and remove collections and control transactions.
  \<^item> Every change is reported: \<open>NotificationCollector\<close> (\<open>storage/notificationcollector.cpp\<close>) turns it into a notification, keeps
    the statistics of \<open>CollectionStatistics\<close> (\<open>storage/collectionstatistics.cpp\<close>) up to date and holds the notifications back
    until the transaction ends; \<open>Notification\<close> are the notifications and their compression in \<open>private/protocol.cpp\<close>.
  \<^item> The notifications reach the clients that want them: \<open>NotificationManager\<close> is \<open>notificationmanager.cpp\<close>,
    \<open>NotificationSubscriber\<close> has the filters of \<open>notificationsubscriber.cpp\<close>, \<open>AggregatedFetchScope\<close>
    (\<open>aggregatedfetchscope.cpp\<close>) is what the subscribers together ask to be filled in.
  \<^item> In the client (\<open>src/core\<close>) a monitor subscribes to them and turns them into signals: \<open>MonitorSubscription\<close> is the side of
    \<open>monitor.cpp\<close> and \<open>monitor_p.cpp\<close> that tells the server what to send, in one model with the subscriber of the server;
    \<open>Monitor\<close> is the side that receives, with its pipeline; \<open>EntityCache\<close> (\<open>entitycache_p.h\<close>) fetches what a notification
    refers to.
  \<^item> A resource must not miss a change while it is not running: \<open>ChangeRecorder\<close> (\<open>changerecorder.cpp\<close>, \<open>changerecorder_p.cpp\<close>) is a
    monitor whose queue is kept on disk, in the format of \<open>ChangeJournal\<close> (\<open>changerecorderjournal.cpp\<close>).
  \<^item> What a resource found in its backend is brought into the store by \<open>ItemSync\<close> (\<open>itemsync.cpp\<close> with
    \<open>jobs/transactionsequence.cpp\<close>) and \<open>CollectionSync\<close> (\<open>collectionsync.cpp\<close>).
  \<^item> Everything that a client asks for is a job: \<open>Session\<close> is the queue and the pipeline of \<open>session.cpp\<close> with the base class
    \<open>jobs/job.cpp\<close>. The entities that it gets carry attributes: \<open>AttributeStorage\<close> is \<open>attributestorage.cpp\<close> and
    \<open>attributefactory.cpp\<close>, with the part of \<open>collection.cpp\<close> that uses them.
  \<^item> Searches are passed on to the agents: \<open>SearchTaskManager\<close> is \<open>search/searchtaskmanager.cpp\<close> with
    \<open>search/searchrequest.cpp\<close>.
  \<^item> What goes wrong in the tables and files is repaired by \<open>StorageJanitor\<close> (\<open>storagejanitor.cpp\<close>).

  \<^bold>\<open>How the code is modelled.\<close> The members of a class are a record, its enums are datatypes and each of its functions
  is a function on the record, with the names of the source; a loop that is not structural is a separate function, named
  after the function that contains it. What the code sends out (D-Bus calls and replies, signals, posted calls) is kept
  in fields of the record, so that theorems can speak about it. The classes that react to events have an inductive step
  relation with one rule for every entry point, and their invariants are proved for all reachable states with the locale
  of \<open>Transition\<close>. Ids are \<^typ>\<open>int\<close>, with \<open>wrap32\<close> and \<open>wrap64\<close> where the code narrows or may overflow; the protocol
  stream is made of 8-bit words. A byte array is a \<^typ>\<open>string\<close> in the parser and a list of words in the stream. A
  release build is modelled: \<open>Q_ASSERT\<close> has no effect.

  \<^item> \<open>Prelude\<close>: the functions of \<open>QByteArray\<close> that the sources use, decimal numbers, words and wrap-around.
  \<^item> \<open>Hash\<close>: the hash maps of the managers as association lists with distinct keys, because their iteration order
    decides what happens first and is not known: the theorems hold for every order.
  \<^item> \<open>Transition\<close>: reachable states, runs, and the locale \<open>inductive_invariant\<close>, interpreted for the resource
    scheduler, the retrieval manager, the collection scheduler, the inhibitors, the preprocessor chain, the notification
    manager, the synchronisations of items and collections, the change recorder, the subscription, the search task manager,
    the session and the attributes.

  \<^bold>\<open>What is shown.\<close>

  \<^item> \<open>ImapSet\<close>: the set that \<open>add\<close> builds holds exactly the given ids and splits them into as few intervals as possible;
    \<open>optimize\<close> preserves the ids and leaves sorted, separated intervals, for every sorting function the locale
    \<open>interval_sorting\<close> allows (\<open>std::sort\<close> is not stable).
  \<^item> \<open>ImapParser\<close>: quoting, lists, sequence sets and date-times are parsed back to what was printed; the literals of the
    incremental parser are accounted for byte by byte. The list loop takes fuel, because it does not end on a list that
    stops inside a quoted string, which is a theorem; the round trip shows that two iterations for every element, and
    one more, are enough.
  \<^item> \<open>ResourceScheduler\<close>: the scheduler never has work without a timer, it takes tasks by priority, deferring loses no
    task, and a series of fetches is replied to once. \<open>mTaskList\<close> is a function from the queue; the timer is the number
    of pending single shots; jobs are identified by numbers.
  \<^item> \<open>ItemRetrieval\<close>: each request is answered once, one job runs per resource, and the manager's own steps answer all
    open requests in a bounded number of steps.
  \<^item> \<open>CollectionScheduler\<close>, \<open>IntervalCheck\<close>, \<open>CacheCleaner\<close>: the schedule is sorted, holds a collection once and never
    waits without a timer; the time of a check is within a minute of what is configured (the interval, or the minimum interval if that is larger); a timeout makes progress;
    synchronisations are at least five minutes apart. The locale \<open>check_policy\<close> is the contract of the two subclasses.
    The walk to the nearest ancestor with a cache policy is a \<open>partial_function\<close>, for nothing in the code excludes a
    cycle of parents; the theorem shows that it returns when the chain of parents is finite. A handler reads each clock
    once, and times stay in the range of a 64-bit count of nanoseconds (292 years).
  \<^item> \<open>Preprocessor\<close>: items are neither lost nor duplicated on their way through the chain, whatever agents register,
    finish or time out, and those whose transaction is rolled back are the only ones that do not go on; \<open>None\<close> is a thread that waits for a mutex it holds, which never happens while the items exist.
  \<^item> \<open>ExternalPartStorage\<close>: a rollback restores the files there were unless a write stopped half-way, a commit replaces the old revision, the names of
    part files count revisions. The outcome of every file operation is a parameter.
  \<^item> \<open>AggregatedFetchScope\<close>: the counters represent the scopes of the connected subscribers (the relation of the locale
    \<open>aggregated\<close>, with one interpretation for each kind of scope), and every accessor is the aggregation of these scopes.
  \<^item> \<open>DataStream\<close>, \<open>Scope\<close>: the locale \<open>codec\<close> states that what was written is read back and that no proper prefix is
    accepted; it is interpreted for every type that is encoded, and composed for lists, pairs and maps.

  \<^item> \<open>CollectionTree\<close>, \<open>HandlerHelper\<close>: paths, ids and chains of remote ids resolve to the collections they were made from; a move is
    allowed exactly when the collections stay a forest. The walk to the root is a \<open>partial_function\<close>, which ends in a forest.
  \<^item> \<open>Transactions\<close>, \<open>ItemStore\<close>, \<open>CollectionStore\<close>, \<open>CollectionHandlers\<close>: a guarded block is one database transaction; the
    operations on flags refine set operations; a move keeps the forest and the resources of the collections; a command that
    fails leaves no trace, if its transaction could be begun. The tables are rolled back where the transaction begins, when the store signals it. The recursion over the
    children takes as fuel the number of collections and one more, which the theorem about moves shows to be enough.
  \<^item> \<open>NotificationCollector\<close>: what is reported inside a transaction is sent as one batch when it commits and never when it does not;
    the batch is what the reports call for (\<open>messages\<close>), compressed. The contract of a report is the locale \<open>reporter\<close>, with an interpretation for
    every function that reports a change.
  \<^item> \<open>CollectionStatistics\<close>: prefetched and single queries agree; the incremental updates keep the cache right.
  \<^item> \<open>Notification\<close>, \<open>NotificationSubscriber\<close>, \<open>NotificationManager\<close>: compression loses no notice of a change and
    leaves what it keeps as it was; the bookkeeping of the manager is an
    invariant; every subscriber gets what its filters accept, and the thread pool finishes.
  \<^item> \<open>MonitorSubscription\<close>: whatever the client calls while commands and replies are on their way, the filters of the server agree
    with the client when nothing is under way any more and nothing is left to send; the states of the handshake are the invariant. Two
    lemmas show the calls that are written down but not sent, and those that a reconnection does not take back.
  \<^item> \<open>Monitor\<close>, \<open>EntityCache\<close>: notifications are emitted in order and once; the translation of moves keeps the view of a client
    exact; each kind of listener is told every item once; the reference counts refine a set of monitored collections. The
    locale \<open>fetch_cache\<close>, interpreted for both caches, says that what is missing is being fetched. The order in which a
    hash is shrunk is an argument.
  \<^item> \<open>ChangeRecorder\<close>, \<open>ChangeJournal\<close>: the recorder is a queue that survives restarts, for every journal that fulfils the locale
    \<open>journal\<close>; the interpretation is the format of collection changes (items and tags are not read back as they were), whose parts fulfil the locale \<open>qcodec\<close>.
  \<^item> \<open>ItemSync\<close>: a full synchronisation in which nothing fails creates each item with a remote id once, removes what is superfluous
    and does not get stuck, except with a transaction for each batch. The operations
    that report their result through the event loop call each other in turn; \<open>checkDone\<close> takes fuel of two calls per
    queued item and two more, which is proved to be enough. The locale \<open>sync_frame\<close> holds what every operation leaves alone.

  \<^item> \<open>CollectionSync\<close>: the comparison of the trees plans exactly the differences; the jobs run in phases and nothing stalls; what is new
    is created once, parents first. The recursion over the trees takes as fuel the number of local levels and one more, which is proved
    to be enough. Two invariants, of the phases and of the keys, are interpretations of \<open>inductive_invariant\<close>.
  \<^item> \<open>SearchTaskManager\<close>: the threads that search and the loop that asks the agents run interleaved, a mutex makes each step atomic;
    in the runs that \<open>orderly\<close> describes nothing is lost and a search waits only for agents, and there is a lemma for each kind of run that it
    leaves out. The time is an argument of the steps.
  \<^item> \<open>StorageJanitor\<close>: the checks as functions on the tables and the part files, with the outcome of every statement and file
    operation as an argument. The walk to the root is a \<open>partial_function\<close>; the check of the tree returns exactly when there is no cycle. The
    checks of payload keep it when their transactions can be begun, and those of duplicates keep items that fit their collection.
  \<^item> \<open>Session\<close>: jobs run one at a time in their order, get one result, and none is forgotten, with subjobs and reconnections, unless a
    slot adds a job while the session is being cleared. What a
    job does when it is started is an argument.
  \<^item> \<open>AttributeStorage\<close>: objects and private data have addresses, so that sharing is explicit; the attributes are well typed, the sharing
    is invisible to clients that do not keep pointers (a refinement to values), and the log tells what changed.

  The behaviours that the sources do not intend and that the models show are theorems as well; the text before each says
  what happens.

  \<^bold>\<open>What is not modelled.\<close> SQL is not: a query is a function on the tables, and whether it succeeds is an argument. The entity
  classes are generated from the schema, the commands of the protocol from \<open>protocol.xml\<close>. D-Bus, the file system and the
  clocks enter as arguments with arbitrary outcomes. \<open>ItemFetchHelper\<close> is an argument of the collector.
  \<open>ItemRetrievalJob::kill\<close>, which nothing calls, the interface calls of a preprocessor agent (\<open>abortProcessing\<close>,
  \<open>invokeRestart\<close>: their results are arguments), JSON and debug output are left out. So are the handlers for items and tags,
  the plugins and persistent searches of the search manager, the synchronisation of tags, the models and the subclasses of jobs of the
  client library, the agents' base classes, agent control and the user interface. The janitor's vacuum and D-Bus interface are not modelled,
  nor what destructors give back to the store of attributes. Of the monitor the jobs that fetch statistics are left out, of the journal the old format of \<open>QSettings\<close>.
\<close>

end
